(* ===== verification/Prelude.thy ===== *)
theory Prelude
  imports Main "HOL-Library.Word"
begin

unbundle bit_operations_syntax

text \<open>
  What every component of the model shares: the result type of a C function that may return an
  error code, buffers as lists with checked loads and stores, and the list lemmas the proofs use.

  A result is \<open>Inl\<close> of the reason the call has no value, or \<open>Inr\<close> of the value. The reasons:
  \<^item> \<open>Code c\<close>: the C function returns the negative code \<open>c\<close>;
  \<^item> \<open>Fault\<close>: an access outside an object, or a \<open>memcpy\<close> between overlapping regions, which C
    leaves undefined. No C statement yields it on purpose: that it never occurs is a theorem;
  \<^item> \<open>Hang\<close>: a loop that makes no progress.
\<close>

named_theorems res_simps \<open>evaluation of results and checked accesses\<close>
named_theorems buf_simps \<open>lengths and elements of updated buffers\<close>

section \<open>Results\<close>

datatype stop = Code int | Fault | Hang

type_synonym 'a res = "stop + 'a"

fun rbind :: "'a res \<Rightarrow> ('a \<Rightarrow> 'b res) \<Rightarrow> 'b res" where
  "rbind (Inl e) f = Inl e"
| "rbind (Inr x) f = f x"

lemma rbind_cong [fundef_cong]:
  "m = m' \<Longrightarrow> (\<And>x. m' = Inr x \<Longrightarrow> f x = f' x) \<Longrightarrow> rbind m f = rbind m' f'"
  by (cases m') auto

lemma rbind_Inr_iff [res_simps]: "rbind m f = Inr y \<longleftrightarrow> (\<exists>x. m = Inr x \<and> f x = Inr y)"
  by (cases m) auto

lemma rbind_Inl_iff [res_simps]:
  "rbind m f = Inl e \<longleftrightarrow> m = Inl e \<or> (\<exists>x. m = Inr x \<and> f x = Inl e)"
  by (cases m) auto

lemma rbind_assoc: "rbind (rbind m f) g = rbind m (\<lambda>x. rbind (f x) g)"
  by (cases m) auto

lemma rbind_Inr_id [simp]: "rbind m Inr = m"
  by (cases m) auto

section \<open>Bytes and words\<close>

type_synonym byte = "8 word"

text \<open>A word from its bits, the least significant first.\<close>

definition word_of_bits :: "bool list \<Rightarrow> 'a::len word" where
  "word_of_bits bs = horner_sum of_bool 2 bs"

lemma bit_word_of_bits [simp]:
  "bit (word_of_bits bs :: 'a::len word) k \<longleftrightarrow> k < LENGTH('a) \<and> k < length bs \<and> bs ! k"
  by (auto simp: word_of_bits_def bit_horner_sum_bit_word_iff)

lemma word_of_bits_eqI:
  assumes "length bs = LENGTH('a)" and "\<And>k. k < LENGTH('a) \<Longrightarrow> bs ! k = bit w k"
  shows "word_of_bits bs = (w :: 'a::len word)"
  by (rule bit_word_eqI) (simp add: assms)

lemma byte_bits_eqI:
  "(\<And>k. k < 8 \<Longrightarrow> bit a k = bit b k) \<Longrightarrow> a = (b :: byte)"
  by (rule bit_word_eqI) simp

section \<open>Buffers\<close>

text \<open>
  A C object is a list; an access outside it is a \<open>Fault\<close>. \<open>blit xs i vs\<close> is the buffer after
  \<open>vs\<close> was copied to position \<open>i\<close>.
\<close>

definition load :: "'a list \<Rightarrow> nat \<Rightarrow> 'a res" where
  "load xs i = (if i < length xs then Inr (xs ! i) else Inl Fault)"

definition load_n :: "'a list \<Rightarrow> nat \<Rightarrow> nat \<Rightarrow> 'a list res" where
  "load_n xs i n = (if i + n \<le> length xs then Inr (take n (drop i xs)) else Inl Fault)"

definition blit :: "'a list \<Rightarrow> nat \<Rightarrow> 'a list \<Rightarrow> 'a list" where
  "blit xs i vs = take i xs @ vs @ drop (i + length vs) xs"

definition store_n :: "'a list \<Rightarrow> nat \<Rightarrow> 'a list \<Rightarrow> 'a list res" where
  "store_n xs i vs = (if i + length vs \<le> length xs then Inr (blit xs i vs) else Inl Fault)"

definition store :: "'a list \<Rightarrow> nat \<Rightarrow> 'a \<Rightarrow> 'a list res" where
  "store xs i v = (if i < length xs then Inr (xs[i := v]) else Inl Fault)"

text \<open>\<open>memset(p, 0, n)\<close>, and \<open>memcpy(d, s, n)\<close> inside one object.\<close>

definition memset0 :: "byte list \<Rightarrow> nat \<Rightarrow> nat \<Rightarrow> byte list res" where
  "memset0 m p n = store_n m p (replicate n 0)"

definition memcpy_in :: "'a list \<Rightarrow> nat \<Rightarrow> nat \<Rightarrow> nat \<Rightarrow> 'a list res" where
  "memcpy_in m d s n =
     (if d < s + n \<and> s < d + n then Inl Fault
      else rbind (load_n m s n) (\<lambda>vs. store_n m d vs))"

lemma load_ok [res_simps]: "i < length xs \<Longrightarrow> load xs i = Inr (xs ! i)"
  by (simp add: load_def)

lemma load_n_ok [res_simps]: "i + n \<le> length xs \<Longrightarrow> load_n xs i n = Inr (take n (drop i xs))"
  by (simp add: load_n_def)

lemma store_n_ok [res_simps]:
  "i + length vs \<le> length xs \<Longrightarrow> store_n xs i vs = Inr (blit xs i vs)"
  by (simp add: store_n_def)

lemma store_ok [res_simps]: "i < length xs \<Longrightarrow> store xs i v = Inr (xs[i := v])"
  by (simp add: store_def)

lemma length_blit [buf_simps]: "i + length vs \<le> length xs \<Longrightarrow> length (blit xs i vs) = length xs"
  by (simp add: blit_def)

lemma nth_blit [buf_simps]:
  assumes "i + length vs \<le> length xs"
  shows "blit xs i vs ! k = (if i \<le> k \<and> k < i + length vs then vs ! (k - i) else xs ! k)"
proof -
  consider "k < i" | "i \<le> k" "k < i + length vs" | "i + length vs \<le> k" by linarith
  then show ?thesis
  proof cases
    case 1
    then show ?thesis using assms by (simp add: blit_def nth_append)
  next
    case 2
    then have "k - i < length vs" by linarith
    then show ?thesis using 2 assms by (simp add: blit_def nth_append)
  next
    case 3
    then have "\<not> k - i < length vs" by linarith
    then show ?thesis using 3 assms by (simp add: blit_def nth_append add.commute)
  qed
qed

lemma blit_Nil [simp]: "blit xs i [] = xs"
  by (simp add: blit_def)

lemma memset0_ok [res_simps]:
  "p + n \<le> length m \<Longrightarrow> memset0 m p n = Inr (blit m p (replicate n 0))"
  by (simp add: memset0_def store_n_def)

lemma memcpy_in_ok [res_simps]:
  "d + n \<le> length m \<Longrightarrow> s + n \<le> length m \<Longrightarrow> s + n \<le> d \<or> d + n \<le> s
    \<Longrightarrow> memcpy_in m d s n = Inr (blit m d (take n (drop s m)))"
  by (auto simp: memcpy_in_def load_n_def store_n_def)

section \<open>Loops over a list of indices\<close>

text \<open>\<open>fold_res f xs s\<close>: a counted loop whose body may stop.\<close>

fun fold_res :: "('i \<Rightarrow> 's \<Rightarrow> 's res) \<Rightarrow> 'i list \<Rightarrow> 's \<Rightarrow> 's res" where
  "fold_res f [] s = Inr s"
| "fold_res f (x # xs) s = rbind (f x s) (fold_res f xs)"

lemma fold_res_append: "fold_res f (xs @ ys) s = rbind (fold_res f xs s) (fold_res f ys)"
proof (induction xs arbitrary: s)
  case (Cons x xs)
  then show ?case by (cases "f x s") auto
qed simp

lemma fold_res_map: "fold_res f (map g xs) s = fold_res (\<lambda>x. f (g x)) xs s"
proof (induction xs arbitrary: s)
  case (Cons x xs)
  then show ?case by (cases "f (g x) s") auto
qed simp

lemma rbind_fold_Nil [simp]: "rbind m (fold_res f []) = m"
  by (cases m) auto

lemma fold_res_single [simp]: "fold_res f [x] = f x"
  by (rule ext) simp

lemma fold_res_cong: "(\<And>x s. x \<in> set xs \<Longrightarrow> f x s = g x s) \<Longrightarrow> fold_res f xs s = fold_res g xs s"
proof (induction xs arbitrary: s)
  case (Cons x xs)
  then show ?case by (cases "g x s") auto
qed simp

lemma fold_res_concat: "fold_res f (concat (map h xs)) s = fold_res (\<lambda>x. fold_res f (h x)) xs s"
proof (induction xs arbitrary: s)
  case (Cons x xs)
  then show ?case by (cases "fold_res f (h x) s") (auto simp: fold_res_append)
qed simp

text \<open>The loop rule: an invariant indexed by what has been done.\<close>

lemma fold_res_inv:
  assumes "I [] s" and "\<And>ys x zs s. xs = ys @ x # zs \<Longrightarrow> I ys s \<Longrightarrow> \<exists>s'. f x s = Inr s' \<and> I (ys @ [x]) s'"
  shows "\<exists>s'. fold_res f xs s = Inr s' \<and> I xs s'"
proof -
  have "xs = ys @ zs \<Longrightarrow> I ys s \<Longrightarrow> \<exists>s'. fold_res f zs s = Inr s' \<and> I xs s'" for ys zs s
  proof (induction zs arbitrary: ys s)
    case (Cons x zs)
    then obtain s1 where "f x s = Inr s1" "I (ys @ [x]) s1" using assms(2) by blast
    then show ?case using Cons.IH[of "ys @ [x]" s1] Cons.prems by auto
  qed auto
  then show ?thesis using assms(1) by (metis append_Nil)
qed

lemma fold_upt_inv:
  assumes "I 0 s" and "\<And>k s. k < n \<Longrightarrow> I k s \<Longrightarrow> \<exists>s'. f k s = Inr s' \<and> I (Suc k) s'"
  shows "\<exists>s'. fold_res f [0..<n] s = Inr s' \<and> I n s'"
  using assms(2)
proof (induction n)
  case 0
  then show ?case using assms(1) by simp
next
  case (Suc n)
  then obtain s1 where "fold_res f [0..<n] s = Inr s1" "I n s1" using less_SucI by blast
  moreover from this(2) Suc.prems[of n s1] obtain s2 where "f n s1 = Inr s2" "I (Suc n) s2" by blast
  ultimately show ?case by (simp add: fold_res_append)
qed

section \<open>Lists\<close>

lemma blit_blit: "length vs = k \<Longrightarrow> p + k + length ws \<le> length xs \<Longrightarrow> blit (blit xs p vs) (p + k) ws = blit xs p (vs @ ws)"
  by (rule nth_equalityI) (auto simp: length_blit nth_blit nth_append)

lemma take_eq_nthI:
  assumes "length xs = length ys" and "\<And>i. i < n \<Longrightarrow> i < length xs \<Longrightarrow> xs ! i = ys ! i"
  shows "take n xs = take n ys"
  by (rule nth_equalityI) (use assms in auto)

lemma take_eq_nthD: "take n xs = take n ys \<Longrightarrow> i < n \<Longrightarrow> xs ! i = ys ! i"
  by (metis nth_take)

lemma replicate_eqI: "length xs = n \<Longrightarrow> (\<And>i. i < n \<Longrightarrow> xs ! i = x) \<Longrightarrow> xs = replicate n x"
  by (rule nth_equalityI) auto

lemma length_concat_same:
  "(\<And>x. x \<in> set xs \<Longrightarrow> length (f x) = k) \<Longrightarrow> length (concat (map f xs)) = k * length xs"
  by (induction xs) auto

end
