(* ===== verification/Common.thy ===== *)
theory Common
  imports Prelude
begin

text \<open>
  \<open>src/pipeline/common.h\<close>: the error codes, the big-endian readers of the stream headers and
  the block size a zero header means.
\<close>

section \<open>Error codes\<close>

definition BSLZ4_ERR_TOO_MANY_PIXELS :: int where "BSLZ4_ERR_TOO_MANY_PIXELS = -99"
definition BSLZ4_ERR_TOO_LARGE :: int where "BSLZ4_ERR_TOO_LARGE = -98"
definition BSLZ4_ERR_DECOMPRESS :: int where "BSLZ4_ERR_DECOMPRESS = -2"
definition BSLZ4_ERR_BAD_THRESHOLD :: int where "BSLZ4_ERR_BAD_THRESHOLD = -100"
definition BSLZ4_ERR_WORKSPACE_TOO_SMALL :: int where "BSLZ4_ERR_WORKSPACE_TOO_SMALL = -103"
definition BSLZ4_ERR_UNTRANSPOSE :: int where "BSLZ4_ERR_UNTRANSPOSE = -104"
definition BSLZ4_ERR_BAD_NFRAMES :: int where "BSLZ4_ERR_BAD_NFRAMES = -105"
definition BSLZ4_ERR_FRAME_MISMATCH :: int where "BSLZ4_ERR_FRAME_MISMATCH = -106"
definition BSLZ4_ERR_CORRUPT_CHUNK :: int where "BSLZ4_ERR_CORRUPT_CHUNK = -107"
definition BSLZ4_ERR_BAD_CHUNK_BOUNDS :: int where "BSLZ4_ERR_BAD_CHUNK_BOUNDS = -108"
definition BSLZ4_ERR_BAD_LAYOUT :: int where "BSLZ4_ERR_BAD_LAYOUT = -109"
definition BSLZ4_ERR_TOO_FEW_PIXELS :: int where "BSLZ4_ERR_TOO_FEW_PIXELS = -110"
definition BSLZ4_ERR_BAD_PIPELINE :: int where "BSLZ4_ERR_BAD_PIPELINE = -111"
definition BSLZ4_ERR_UNAVAILABLE :: int where "BSLZ4_ERR_UNAVAILABLE = -112"
definition BSLZ4_ERR_DTYPE :: int where "BSLZ4_ERR_DTYPE = -113"
definition BSLZ4_ERR_BAD_CUT :: int where "BSLZ4_ERR_BAD_CUT = -114"

lemmas error_codes =
  BSLZ4_ERR_TOO_MANY_PIXELS_def BSLZ4_ERR_TOO_LARGE_def BSLZ4_ERR_DECOMPRESS_def
  BSLZ4_ERR_BAD_THRESHOLD_def BSLZ4_ERR_WORKSPACE_TOO_SMALL_def BSLZ4_ERR_UNTRANSPOSE_def
  BSLZ4_ERR_BAD_NFRAMES_def BSLZ4_ERR_FRAME_MISMATCH_def BSLZ4_ERR_CORRUPT_CHUNK_def
  BSLZ4_ERR_BAD_CHUNK_BOUNDS_def BSLZ4_ERR_BAD_LAYOUT_def BSLZ4_ERR_TOO_FEW_PIXELS_def
  BSLZ4_ERR_BAD_PIPELINE_def BSLZ4_ERR_UNAVAILABLE_def BSLZ4_ERR_DTYPE_def BSLZ4_ERR_BAD_CUT_def

definition INT32_MAX :: int where "INT32_MAX = 2147483647"
definition UINT32_MAX :: int where "UINT32_MAX = 4294967295"

definition BSLZ4_DEFAULT_BLOCK_BYTES :: nat where "BSLZ4_DEFAULT_BLOCK_BYTES = 8192"

section \<open>The build\<close>

text \<open>
  What the preprocessor decides: x86-64 with gcc or clang (\<open>BSLZ4_X86_SIMD\<close>), a compiler with
  VBMI and GFNI (\<open>BSLZ4_HAVE_VBMI_GFNI\<close>), POWER VSX, AArch64 NEON.
\<close>

record build =
  b_x86_simd :: bool
  b_vbmi_gfni :: bool
  b_vsx :: bool
  b_neon :: bool

text \<open>The CPU features found at load time (the \<open>c2py_*\<close> globals).\<close>

record cpu =
  c2py_amd64_avx2 :: bool
  c2py_amd64_popcnt :: bool
  c2py_amd64_fma :: bool
  c2py_amd64_avx512f :: bool
  c2py_amd64_avx512bw :: bool
  c2py_amd64_avx512vl :: bool
  c2py_amd64_avx512vbmi :: bool
  c2py_amd64_avx512vbmi2 :: bool
  c2py_amd64_gfni :: bool
  c2py_ppc64_vsx :: bool
  c2py_arm64_asimd :: bool

text \<open>The build and the CPU a call runs on.\<close>

record host =
  h_build :: build
  h_cpu :: cpu

text \<open>A build and a CPU with every x86 feature.\<close>

definition sample_build :: build where
  "sample_build = \<lparr>b_x86_simd = True, b_vbmi_gfni = True, b_vsx = False, b_neon = False\<rparr>"

definition sample_host :: host where
  "sample_host = \<lparr>h_build = sample_build, h_cpu = \<lparr>c2py_amd64_avx2 = True, c2py_amd64_popcnt = True, c2py_amd64_fma = True,
     c2py_amd64_avx512f = True, c2py_amd64_avx512bw = True, c2py_amd64_avx512vl = True, c2py_amd64_avx512vbmi = True,
     c2py_amd64_avx512vbmi2 = True, c2py_amd64_gfni = True, c2py_ppc64_vsx = False, c2py_arm64_asimd = False\<rparr>\<rparr>"

section \<open>The lowest set bit\<close>

text \<open>\<open>bslz4_ctz64\<close> on a non-zero word: the index of its lowest set bit.\<close>

definition bslz4_ctz64 :: "64 word \<Rightarrow> nat" where
  "bslz4_ctz64 x = length (takeWhile (\<lambda>i. \<not> bit x i) [0..<64])"

section \<open>Big-endian readers\<close>

definition bslz4_read_be32 :: "byte list \<Rightarrow> nat \<Rightarrow> 32 word res" where
  "bslz4_read_be32 buf p =
     rbind (load buf p) (\<lambda>p0. rbind (load buf (p + 1)) (\<lambda>p1.
     rbind (load buf (p + 2)) (\<lambda>p2. rbind (load buf (p + 3)) (\<lambda>p3.
       Inr (push_bit 24 (ucast p0) OR push_bit 16 (ucast p1) OR push_bit 8 (ucast p2) OR ucast p3)))))"

fun read_be64_loop :: "byte list \<Rightarrow> nat \<Rightarrow> nat \<Rightarrow> nat \<Rightarrow> 64 word \<Rightarrow> 64 word res" where
  "read_be64_loop buf p 0 i v = Inr v"
| "read_be64_loop buf p (Suc k) i v =
     rbind (load buf (p + i)) (\<lambda>b. read_be64_loop buf p k (i + 1) (push_bit 8 v OR ucast b))"

definition bslz4_read_be64 :: "byte list \<Rightarrow> nat \<Rightarrow> 64 word res" where
  "bslz4_read_be64 buf p = read_be64_loop buf p 8 0 0"

text \<open>The bytes a writer stores for a value, the most significant first.\<close>

definition be32 :: "32 word \<Rightarrow> byte list" where
  "be32 v = [ucast (drop_bit 24 v), ucast (drop_bit 16 v), ucast (drop_bit 8 v), ucast v]"

definition be64 :: "64 word \<Rightarrow> byte list" where
  "be64 v = map (\<lambda>i. ucast (drop_bit (8 * (7 - i)) v)) [0..<8]"

lemma length_be32 [simp]: "length (be32 v) = 4"
  by (simp add: be32_def)

lemma length_be64 [simp]: "length (be64 v) = 8"
  by (simp add: be64_def)

lemma be32_bytes:
  "push_bit 24 (ucast (ucast (drop_bit 24 v) :: byte))
     OR push_bit 16 (ucast (ucast (drop_bit 16 v) :: byte))
     OR push_bit 8 (ucast (ucast (drop_bit 8 v) :: byte))
     OR ucast (ucast v :: byte) = (v :: 32 word)"
proof (rule bit_word_eqI)
  fix n assume "n < LENGTH(32)"
  then have "n < 8 \<or> (8 \<le> n \<and> n < 16) \<or> (16 \<le> n \<and> n < 24) \<or> (24 \<le> n \<and> n < 32)" by auto
  then show "bit (push_bit 24 (ucast (ucast (drop_bit 24 v) :: byte))
     OR push_bit 16 (ucast (ucast (drop_bit 16 v) :: byte))
     OR push_bit 8 (ucast (ucast (drop_bit 8 v) :: byte))
     OR ucast (ucast v :: byte) :: 32 word) n = bit v n"
    by (auto simp: bit_simps dest: bit_imp_le_length)
qed

lemma read_be32_be32:
  assumes "p + 4 \<le> length buf" and "take 4 (drop p buf) = be32 v"
  shows "bslz4_read_be32 buf p = Inr v"
proof -
  have eq: "buf ! (p + i) = be32 v ! i" if "i < 4" for i
    using assms that by (metis (no_types) nth_drop nth_take add_leD1)
  show ?thesis
    using assms(1) eq[of 0] eq[of 1] eq[of 2] eq[of 3]
    by (simp add: bslz4_read_be32_def load_def be32_def be32_bytes)
qed

lemma read_be32_Inr: "p + 4 \<le> length buf \<Longrightarrow> \<exists>v. bslz4_read_be32 buf p = Inr v"
  by (simp add: bslz4_read_be32_def load_def)

lemma read_be32_ok: "bslz4_read_be32 buf p = Inl e \<Longrightarrow> e = Fault"
  by (auto simp: bslz4_read_be32_def load_def rbind_Inl_iff split: if_splits)

lemma read_be64_loop_Inr: "p + i + k \<le> length buf \<Longrightarrow> \<exists>v. read_be64_loop buf p k i v0 = Inr v"
  by (induction k arbitrary: i v0) (auto simp: load_def)

lemma read_be64_Inr: "p + 8 \<le> length buf \<Longrightarrow> \<exists>v. bslz4_read_be64 buf p = Inr v"
  unfolding bslz4_read_be64_def by (rule read_be64_loop_Inr) simp

lemma read_be64_loop_be64:
  assumes "p + 8 \<le> length buf" and "\<And>i. i < 8 \<Longrightarrow> buf ! (p + i) = be64 v ! i"
  shows "i + k = 8 \<Longrightarrow> w = drop_bit (8 * k) v \<Longrightarrow> read_be64_loop buf p k i w = Inr v"
proof (induction k arbitrary: i w)
  case 0
  then show ?case by simp
next
  case (Suc k)
  have i: "i = 7 - k" "k < 8" using Suc.prems by auto
  have b: "buf ! (p + i) = ucast (drop_bit (8 * k) v)"
    using assms(2)[of i] Suc.prems(1) i by (simp add: be64_def)
  have "push_bit 8 w OR ucast (ucast (drop_bit (8 * k) v) :: byte) = drop_bit (8 * k) v"
  proof (rule bit_word_eqI)
    fix n assume "n < LENGTH(64)"
    then show "bit (push_bit 8 w OR ucast (ucast (drop_bit (8 * k) v) :: byte)) n = bit (drop_bit (8 * k) v) n"
      by (cases "n < 8") (auto simp: bit_simps Suc.prems(2) add.commute dest: bit_imp_le_length)
  qed
  then show ?case
    using Suc.IH[of "i + 1" "drop_bit (8 * k) v"] assms(1) i b Suc.prems(1) by (simp add: load_def)
qed

lemma read_be64_be64:
  assumes "p + 8 \<le> length buf" and "take 8 (drop p buf) = be64 v"
  shows "bslz4_read_be64 buf p = Inr v"
proof -
  have "buf ! (p + i) = be64 v ! i" if "i < 8" for i
    using assms that by (metis (no_types) nth_drop nth_take add_leD1)
  moreover have "drop_bit 64 v = 0" by (rule bit_word_eqI) (auto simp: bit_simps dest: bit_imp_le_length)
  ultimately show ?thesis
    unfolding bslz4_read_be64_def using assms(1) by (intro read_be64_loop_be64) auto
qed

lemma ctz64_bit:
  assumes "x \<noteq> 0"
  shows "bslz4_ctz64 x < 64" and "bit x (bslz4_ctz64 x)" and "\<And>i. i < bslz4_ctz64 x \<Longrightarrow> \<not> bit x i"
proof -
  obtain i where i: "bit x i" "i < 64"
    using assms bit_imp_le_length[of x] by (auto simp: bit_eq_iff)
  let ?P = "\<lambda>i. \<not> bit x i"
  have lt: "length (takeWhile ?P [0..<64]) < 64"
  proof (rule ccontr)
    assume "\<not> length (takeWhile ?P [0..<64]) < 64"
    then have "length (takeWhile ?P [0..<64]) = length [0..<64]"
      using length_takeWhile_le[of ?P "[0..<64]"] by simp
    then have "takeWhile ?P [0..<64] = [0..<64]"
      by (metis takeWhile_eq_take take_all le_refl)
    then have "\<forall>j\<in>set [0..<64]. ?P j" by (metis set_takeWhileD)
    then show False using i by auto
  qed
  then show "bslz4_ctz64 x < 64" by (simp add: bslz4_ctz64_def)
  have "\<not> ?P ([0..<64] ! length (takeWhile ?P [0..<64]))"
    by (rule nth_length_takeWhile) (use lt in simp)
  then show "bit x (bslz4_ctz64 x)"
    using lt by (simp add: bslz4_ctz64_def)
  show "\<not> bit x j" if "j < bslz4_ctz64 x" for j
  proof -
    have "takeWhile ?P [0..<64] ! j \<in> set (takeWhile ?P [0..<64])"
      using that by (simp add: bslz4_ctz64_def)
    then have "?P (takeWhile ?P [0..<64] ! j)" by (rule set_takeWhileD[THEN conjunct2])
    moreover have "takeWhile ?P [0..<64] ! j = [0..<64] ! j"
      using that by (simp add: bslz4_ctz64_def takeWhile_nth)
    ultimately show ?thesis using that lt by (simp add: bslz4_ctz64_def)
  qed
qed

end
