(* ===== verification/Bitplanes.thy ===== *)
theory Bitplanes
  imports Common
begin

text \<open>
  The bitshuffle layout. A block of \<open>ne\<close> pixels of \<open>NB\<close> bytes is stored as \<open>8 * NB\<close> bit planes of
  \<open>ne / 8\<close> bytes: plane \<open>p\<close> holds bit \<open>p\<close> of every pixel, pixel \<open>e\<close> in bit \<open>e % 8\<close> of byte \<open>e / 8\<close>.
  A pixel is kept as the 64-bit word of its bit pattern; its bytes in memory are little-endian.
\<close>

type_synonym pix = "64 word"

section \<open>Planes to pixels\<close>

definition plane_bit :: "nat \<Rightarrow> byte list \<Rightarrow> nat \<Rightarrow> nat \<Rightarrow> bool" where
  "plane_bit ne raw p e = bit (raw ! (p * (ne div 8) + e div 8)) (e mod 8)"

definition plane_pixel :: "nat \<Rightarrow> nat \<Rightarrow> byte list \<Rightarrow> nat \<Rightarrow> pix" where
  "plane_pixel NB ne raw e = word_of_bits (map (\<lambda>p. plane_bit ne raw p e) [0..<8 * NB])"

definition plane_pixels :: "nat \<Rightarrow> nat \<Rightarrow> byte list \<Rightarrow> pix list" where
  "plane_pixels NB ne raw = map (plane_pixel NB ne raw) [0..<ne]"

text \<open>The pixels in memory: \<open>NB\<close> bytes each, little-endian, and back.\<close>

definition bytes_of_pix :: "nat \<Rightarrow> pix \<Rightarrow> byte list" where
  "bytes_of_pix NB x = map (\<lambda>i. ucast (drop_bit (8 * i) x)) [0..<NB]"

definition bytes_of_pixels :: "nat \<Rightarrow> pix list \<Rightarrow> byte list" where
  "bytes_of_pixels NB xs = concat (map (bytes_of_pix NB) xs)"

definition pix_at :: "nat \<Rightarrow> byte list \<Rightarrow> nat \<Rightarrow> pix" where
  "pix_at NB m e = word_of_bits (map (\<lambda>p. bit (m ! (NB * e + p div 8)) (p mod 8)) [0..<8 * NB])"

text \<open>\<open>ne\<close> pixels from byte \<open>p\<close> of a memory region: a typed view, checked against the region.\<close>

definition load_pixels :: "nat \<Rightarrow> byte list \<Rightarrow> nat \<Rightarrow> nat \<Rightarrow> pix list res" where
  "load_pixels NB m p ne = rbind (load_n m p (NB * ne)) (\<lambda>bs. Inr (map (pix_at NB bs) [0..<ne]))"

lemma length_plane_pixels [simp]: "length (plane_pixels NB ne raw) = ne"
  by (simp add: plane_pixels_def)

lemma plane_pixels_nth: "e < ne \<Longrightarrow> plane_pixels NB ne raw ! e = plane_pixel NB ne raw e"
  by (simp add: plane_pixels_def)

lemma bit_plane_pixel: "bit (plane_pixel NB ne raw e) p \<longleftrightarrow> p < 64 \<and> p < 8 * NB \<and> plane_bit ne raw p e"
  by (auto simp: plane_pixel_def)

lemma length_bytes_of_pix [simp]: "length (bytes_of_pix NB x) = NB"
  by (simp add: bytes_of_pix_def)

lemma length_bytes_of_pixels [simp]: "length (bytes_of_pixels NB xs) = NB * length xs"
  by (simp add: bytes_of_pixels_def length_concat_same)

text \<open>Only the low \<open>8 * NB\<close> bits of a pixel matter.\<close>

definition narrow :: "nat \<Rightarrow> pix \<Rightarrow> bool" where
  "narrow NB x \<longleftrightarrow> (\<forall>p. bit x p \<longrightarrow> p < 8 * NB)"

lemma narrow_plane_pixel [simp]: "narrow NB (plane_pixel NB ne raw e)"
  by (auto simp: narrow_def bit_plane_pixel)

lemma narrow_8 [simp]: "narrow 8 x"
  by (auto simp: narrow_def dest: bit_imp_le_length)

lemma narrow_take_bit: "narrow NB x \<Longrightarrow> take_bit (8 * NB) x = x"
  by (rule bit_word_eqI) (auto simp: narrow_def bit_take_bit_iff)

lemma narrow_0 [simp]: "narrow NB 0"
  by (simp add: narrow_def)

lemma concat_same_nth:
  "(\<And>x. x \<in> set xs \<Longrightarrow> length (f x) = k) \<Longrightarrow> e < length xs \<Longrightarrow> i < k
    \<Longrightarrow> concat (map f xs) ! (k * e + i) = f (xs ! e) ! i"
proof (induction xs arbitrary: e)
  case (Cons x xs)
  then show ?case
  proof (cases e)
    case 0
    then show ?thesis using Cons.prems by (simp add: nth_append)
  next
    case (Suc e')
    then show ?thesis using Cons by (simp add: nth_append)
  qed
qed simp

lemma bytes_of_pixels_nth:
  "e < length xs \<Longrightarrow> i < NB \<Longrightarrow> bytes_of_pixels NB xs ! (NB * e + i) = ucast (drop_bit (8 * i) (xs ! e))"
  unfolding bytes_of_pixels_def
  by (subst concat_same_nth) (auto simp: bytes_of_pix_def)

lemma pix_at_bytes:
  assumes "e < length xs" "narrow NB (xs ! e)"
  shows "pix_at NB (bytes_of_pixels NB xs) e = xs ! e"
proof (rule bit_word_eqI)
  fix p assume "p < LENGTH(64)"
  then have p: "p < 64" by simp
  show "bit (pix_at NB (bytes_of_pixels NB xs) e) p = bit (xs ! e) p"
  proof (cases "p < 8 * NB")
    case True
    then have d: "p div 8 < NB" by simp
    have "bit (bytes_of_pixels NB xs ! (NB * e + p div 8)) (p mod 8) = bit (xs ! e) (8 * (p div 8) + p mod 8)"
      using bytes_of_pixels_nth[OF assms(1) d] by (simp add: bit_simps)
    then show ?thesis using True p by (simp add: pix_at_def)
  next
    case False
    then show ?thesis using assms(2) by (auto simp: pix_at_def narrow_def)
  qed
qed

lemma load_pixels_bytes:
  assumes "take (NB * length xs) (drop p m) = bytes_of_pixels NB xs" "p + NB * length xs \<le> length m"
    and "\<And>x. x \<in> set xs \<Longrightarrow> narrow NB x"
  shows "load_pixels NB m p (length xs) = Inr xs"
proof -
  have "map (pix_at NB (bytes_of_pixels NB xs)) [0..<length xs] = xs"
    by (rule nth_equalityI) (use pix_at_bytes[of _ xs NB] assms(3) in auto)
  then show ?thesis using assms(1,2) by (simp add: load_pixels_def load_n_ok)
qed

section \<open>A zero tail\<close>

text \<open>
  What the decode step promises: the first \<open>nz\<close> bytes of \<open>raw\<close> are those of the planes and the rest
  of the planes is zero (and may not be stored).
\<close>

definition planes_in :: "byte list \<Rightarrow> byte list \<Rightarrow> nat \<Rightarrow> bool" where
  "planes_in planes raw nz \<longleftrightarrow> nz \<le> length planes \<and> length planes \<le> length raw
     \<and> take nz raw = take nz planes \<and> drop nz planes = replicate (length planes - nz) 0"

lemma planes_in_nth: "planes_in planes raw nz \<Longrightarrow> i < length planes \<Longrightarrow> planes ! i = (if i < nz then raw ! i else 0)"
proof -
  assume a: "planes_in planes raw nz" "i < length planes"
  show ?thesis
  proof (cases "i < nz")
    case True
    then show ?thesis using a take_eq_nthD[of nz raw planes i] by (simp add: planes_in_def)
  next
    case False
    define k where "k = i - nz"
    have k: "i = nz + k" "k < length planes - nz" using False a(2) by (auto simp: k_def)
    have "drop nz planes ! k = 0" using a(1) k(2) by (simp only: planes_in_def nth_replicate)
    then show ?thesis using False k a(2) by simp
  qed
qed

lemma planes_in_full: "take (length planes) raw = planes \<Longrightarrow> length planes \<le> length raw \<Longrightarrow> planes_in planes raw (length planes)"
  by (simp add: planes_in_def)

lemma planes_inI:
  assumes "nz \<le> length planes" "length planes \<le> length raw"
    and "\<And>i. i < length planes \<Longrightarrow> planes ! i = (if i < nz then raw ! i else 0)"
  shows "planes_in planes raw nz"
proof -
  have "take nz raw = take nz planes" by (rule nth_equalityI) (use assms in auto)
  moreover have "drop nz planes = replicate (length planes - nz) 0" by (rule replicate_eqI) (use assms in auto)
  ultimately show ?thesis using assms by (simp add: planes_in_def)
qed

text \<open>Writing the zero tail gives the planes themselves.\<close>

lemma planes_in_zero_fill:
  assumes "planes_in planes raw nz"
  shows "\<exists>raw'. memset0 raw nz (length planes - nz) = Inr raw' \<and> length raw' = length raw
    \<and> planes_in planes raw' (length planes)"
proof -
  have nz: "nz + (length planes - nz) \<le> length raw" using assms by (simp add: planes_in_def)
  let ?r = "blit raw nz (replicate (length planes - nz) 0)"
  have "planes_in planes ?r (length planes)"
    by (rule planes_inI) (use assms nz planes_in_nth[OF assms] in \<open>auto simp: length_blit nth_blit planes_in_def\<close>)
  then show ?thesis using nz by (auto simp: memset0_ok length_blit)
qed

end
