(* ===== verification/Masking.thy ===== *)
theory Masking
  imports Bitplanes
begin

text \<open>
  \<open>src/steps/mask.h\<close>: the pixel mask packed into the bit-plane layout and ANDed into the planes.
  The packed mask is a list of 64-bit words; its bytes (\<open>(const uint8_t *) bits\<close>) are little-endian.
\<close>

definition BSLZ4_MASKPLANE_MAX_ELEMS :: nat where "BSLZ4_MASKPLANE_MAX_ELEMS = 8192"

section \<open>Packing\<close>

text \<open>\<open>_mm512_test_epi8_mask(v, v)\<close>: bit \<open>k\<close> set where byte \<open>k\<close> is not zero.\<close>

definition test_epi8_mask :: "byte list \<Rightarrow> 64 word" where
  "test_epi8_mask v = word_of_bits (map (\<lambda>b. b AND b \<noteq> 0) v)"

fun bslz4_and_mask_avx512 :: "64 word list \<Rightarrow> byte list \<Rightarrow> nat \<Rightarrow> nat \<Rightarrow> 64 word list res" where
  "bslz4_and_mask_avx512 bitmap m w 0 = Inr bitmap"
| "bslz4_and_mask_avx512 bitmap m w (Suc c) =
     rbind (load_n m (64 * w) 64) (\<lambda>v.
     rbind (load bitmap w) (\<lambda>x.
     rbind (store bitmap w (x AND test_epi8_mask v)) (\<lambda>bitmap.
       bslz4_and_mask_avx512 bitmap m (w + 1) c)))"

text \<open>\<open>for (k = 0; k < 64; k++) keep |= (uint64_t) (m[64 * w + k] != 0) << k;\<close>\<close>

fun keep_loop :: "byte list \<Rightarrow> nat \<Rightarrow> nat \<Rightarrow> nat \<Rightarrow> 64 word \<Rightarrow> 64 word res" where
  "keep_loop m p k 0 keep = Inr keep"
| "keep_loop m p k (Suc c) keep =
     rbind (load m (p + k)) (\<lambda>b. keep_loop m p (k + 1) c (keep OR push_bit k (of_bool (b \<noteq> 0))))"

fun pack_loop :: "64 word list \<Rightarrow> byte list \<Rightarrow> nat \<Rightarrow> nat \<Rightarrow> 64 word list res" where
  "pack_loop bits m w 0 = Inr bits"
| "pack_loop bits m w (Suc c) =
     rbind (keep_loop m (64 * w) 0 64 0) (\<lambda>keep.
     rbind (store bits w keep) (\<lambda>bits. pack_loop bits m (w + 1) c))"

text \<open>The packed words, and whether nothing is masked.\<close>

definition bslz4_pack_mask :: "host \<Rightarrow> 64 word list \<Rightarrow> byte list \<Rightarrow> nat \<Rightarrow> (64 word list \<times> bool) res" where
  "bslz4_pack_mask h bits m ne =
     (let nw = ne div 64 in
      rbind (if b_x86_simd (h_build h) \<and> c2py_amd64_avx512f (h_cpu h) \<and> c2py_amd64_avx512bw (h_cpu h)
             then rbind (store_n bits 0 (replicate nw (-1))) (\<lambda>bits. bslz4_and_mask_avx512 bits m 0 nw)
             else pack_loop bits m 0 nw) (\<lambda>bits.
        Inr (bits, foldl (AND) (-1) (take nw bits) = -1)))"

text \<open>The word of pixels \<open>64 w ..< 64 w + 64\<close>.\<close>

definition mask_word :: "byte list \<Rightarrow> nat \<Rightarrow> 64 word" where
  "mask_word m w = word_of_bits (map (\<lambda>k. m ! (64 * w + k) \<noteq> 0) [0..<64])"

lemma bit_mask_word: "bit (mask_word m w) k \<longleftrightarrow> k < 64 \<and> m ! (64 * w + k) \<noteq> 0"
  by (auto simp: mask_word_def)

lemma and_mask_avx512_ok:
  "w + c \<le> length bitmap \<Longrightarrow> 64 * (w + c) \<le> length m
    \<Longrightarrow> (\<And>i. w \<le> i \<Longrightarrow> i < w + c \<Longrightarrow> bitmap ! i = -1)
    \<Longrightarrow> \<exists>b. bslz4_and_mask_avx512 bitmap m w c = Inr b \<and> length b = length bitmap
      \<and> (\<forall>i. b ! i = (if w \<le> i \<and> i < w + c then mask_word m i else bitmap ! i))"
proof (induction c arbitrary: bitmap w)
  case (Suc c)
  let ?v = "take 64 (drop (64 * w) m)"
  have v: "load_n m (64 * w) 64 = Inr ?v" using Suc.prems by (simp add: load_n_ok)
  have t: "test_epi8_mask ?v = mask_word m w"
    by (rule bit_word_eqI) (use Suc.prems in \<open>auto simp: test_epi8_mask_def mask_word_def\<close>)
  let ?b = "bitmap[w := mask_word m w]"
  have x: "load bitmap w = Inr (-1)" "store bitmap w (-1 AND mask_word m w) = Inr ?b"
    using Suc.prems by (simp_all add: load_ok store_ok)
  have "w + 1 + c \<le> length ?b" "64 * (w + 1 + c) \<le> length m" using Suc.prems by simp_all
  moreover have "?b ! i = -1" if "w + 1 \<le> i" "i < w + 1 + c" for i using Suc.prems(3)[of i] that by simp
  ultimately obtain b where b: "bslz4_and_mask_avx512 ?b m (w + 1) c = Inr b" "length b = length ?b"
    "\<And>i. b ! i = (if w + 1 \<le> i \<and> i < w + 1 + c then mask_word m i else ?b ! i)"
    using Suc.IH[of "w + 1" ?b] by blast
  have "b ! i = (if w \<le> i \<and> i < w + Suc c then mask_word m i else bitmap ! i)" for i
    using b(3)[of i] Suc.prems(1) by (cases "i = w") auto
  then show ?case using b(1,2) by (simp only: bslz4_and_mask_avx512.simps v x rbind.simps t) auto
qed auto

lemma keep_loop_ok:
  "p + k + c \<le> length m \<Longrightarrow> \<exists>r. keep_loop m p k c keep = Inr r
    \<and> (\<forall>i<64. bit r i \<longleftrightarrow> bit keep i \<or> (k \<le> i \<and> i < k + c \<and> m ! (p + i) \<noteq> 0))"
proof (induction c arbitrary: k keep)
  case (Suc c)
  let ?k = "keep OR push_bit k (of_bool (m ! (p + k) \<noteq> 0))"
  have "p + (k + 1) + c \<le> length m" using Suc.prems by simp
  from Suc.IH[OF this, of ?k] obtain r where r: "keep_loop m p (k + 1) c ?k = Inr r"
    "\<And>i. i < 64 \<Longrightarrow> bit r i \<longleftrightarrow> bit ?k i \<or> (k + 1 \<le> i \<and> i < k + 1 + c \<and> m ! (p + i) \<noteq> 0)" by blast
  have "bit r i \<longleftrightarrow> bit keep i \<or> (k \<le> i \<and> i < k + Suc c \<and> m ! (p + i) \<noteq> 0)" if "i < 64" for i
    using r(2)[OF that] that by (cases "i = k") (auto simp: bit_or_iff bit_push_bit_iff bit_of_bool_iff)
  then show ?case using r(1) Suc.prems by (simp add: load_ok)
qed auto

lemma pack_loop_ok:
  "w + c \<le> length bits \<Longrightarrow> 64 * (w + c) \<le> length m
    \<Longrightarrow> \<exists>b. pack_loop bits m w c = Inr b \<and> length b = length bits
      \<and> (\<forall>i. b ! i = (if w \<le> i \<and> i < w + c then mask_word m i else bits ! i))"
proof (induction c arbitrary: bits w)
  case (Suc c)
  obtain r where r: "keep_loop m (64 * w) 0 64 0 = Inr r" "\<And>i. i < 64 \<Longrightarrow> bit r i \<longleftrightarrow> m ! (64 * w + i) \<noteq> 0"
    using keep_loop_ok[of "64 * w" 0 64 m 0] Suc.prems by auto
  have rw: "r = mask_word m w" by (rule bit_word_eqI) (use r(2) in \<open>simp add: bit_mask_word\<close>)
  let ?b = "bits[w := r]"
  obtain b where b: "pack_loop ?b m (w + 1) c = Inr b" "length b = length ?b"
    "\<And>i. b ! i = (if w + 1 \<le> i \<and> i < w + 1 + c then mask_word m i else ?b ! i)"
    using Suc.IH[of "w + 1" ?b] Suc.prems by auto
  have "b ! i = (if w \<le> i \<and> i < w + Suc c then mask_word m i else bits ! i)" for i
    using b(3)[of i] Suc.prems(1) rw by (cases "i = w") auto
  then show ?case using b(1,2) r(1) Suc.prems(1) by (simp add: store_ok)
qed auto

lemma foldl_and_all: "foldl (AND) a xs = (-1 :: 'a::len word) \<longleftrightarrow> a = -1 \<and> (\<forall>x\<in>set xs. x = -1)"
proof (induction xs arbitrary: a)
  case (Cons x xs)
  have "a AND x = -1 \<longleftrightarrow> a = -1 \<and> x = -1"
    by (auto simp: bit_eq_iff bit_and_iff)
  then show ?case using Cons by auto
qed simp

lemma pack_mask_ok:
  assumes "ne mod 64 = 0" "ne \<le> length m" "ne div 64 \<le> length bits"
  shows "\<exists>bits'. bslz4_pack_mask h bits m ne = Inr (bits', \<forall>e<ne. m ! e \<noteq> 0) \<and> length bits' = length bits
    \<and> (\<forall>e<ne. bit (bits' ! (e div 64)) (e mod 64) \<longleftrightarrow> m ! e \<noteq> 0)"
proof -
  define nw where "nw = ne div 64"
  have ne: "ne = 64 * nw" using assms(1) by (auto simp: nw_def)
  then have nw: "64 * nw \<le> length m" "nw \<le> length bits" using assms(2,3) by (simp_all add: nw_def)
  obtain b where b: "(if b_x86_simd (h_build h) \<and> c2py_amd64_avx512f (h_cpu h) \<and> c2py_amd64_avx512bw (h_cpu h)
             then rbind (store_n bits 0 (replicate nw (-1))) (\<lambda>bits. bslz4_and_mask_avx512 bits m 0 nw)
             else pack_loop bits m 0 nw) = Inr b" "length b = length bits" "\<And>i. i < nw \<Longrightarrow> b ! i = mask_word m i"
  proof (cases "b_x86_simd (h_build h) \<and> c2py_amd64_avx512f (h_cpu h) \<and> c2py_amd64_avx512bw (h_cpu h)")
    case True
    let ?b = "blit bits 0 (replicate nw (-1))"
    have l: "length ?b = length bits" "store_n bits 0 (replicate nw (-1)) = Inr ?b"
      using nw by (simp_all add: length_blit store_n_ok)
    have i: "?b ! i = -1" if "i < nw" for i using that nw(2) by (simp add: nth_blit)
    have "0 + nw \<le> length ?b" "64 * (0 + nw) \<le> length m" using nw l by simp_all
    from and_mask_avx512_ok[OF this] obtain b where "bslz4_and_mask_avx512 ?b m 0 nw = Inr b"
      "length b = length ?b" "\<And>i. i < nw \<Longrightarrow> b ! i = mask_word m i" using i by auto
    then show ?thesis using True l by (intro that[of b]) auto
  next
    case False
    have "0 + nw \<le> length bits" "64 * (0 + nw) \<le> length m" using nw by simp_all
    from pack_loop_ok[OF this] obtain b where "pack_loop bits m 0 nw = Inr b"
      "length b = length bits" "\<And>i. i < nw \<Longrightarrow> b ! i = mask_word m i" by auto
    then show ?thesis using False by (intro that[of b]) auto
  qed
  have bits: "bit (b ! (e div 64)) (e mod 64) \<longleftrightarrow> m ! e \<noteq> 0" if "e < ne" for e
    using b(3)[of "e div 64"] that ne by (simp add: bit_mask_word less_mult_imp_div_less mult.commute)
  have "(foldl (AND) (-1) (take nw b) = -1) \<longleftrightarrow> (\<forall>i<nw. b ! i = -1)"
    using nw(2) b(2) by (auto simp: foldl_and_all all_set_conv_all_nth)
  also have "\<dots> \<longleftrightarrow> (\<forall>e<ne. m ! e \<noteq> 0)"
  proof
    assume a: "\<forall>i<nw. b ! i = -1"
    show "\<forall>e<ne. m ! e \<noteq> 0"
    proof (intro allI impI)
      fix e assume e: "e < ne"
      then have "e div 64 < nw" using ne by (simp add: less_mult_imp_div_less mult.commute)
      then show "m ! e \<noteq> 0" using a bits[OF e] by simp
    qed
  next
    assume a: "\<forall>e<ne. m ! e \<noteq> 0"
    show "\<forall>i<nw. b ! i = -1"
    proof (intro allI impI bit_word_eqI)
      fix i k assume "i < nw" "k < LENGTH(64)"
      then have "64 * i + k < ne" "k < 64" using ne by auto
      then show "bit (b ! i) k = bit (-1 :: 64 word) k"
        using a b(3)[OF \<open>i < nw\<close>] by (simp add: bit_mask_word)
    qed
  qed
  finally have all: "(foldl (AND) (-1) (take nw b) = -1) \<longleftrightarrow> (\<forall>e<ne. m ! e \<noteq> 0)" .
  have "bslz4_pack_mask h bits m ne = Inr (b, \<forall>e<ne. m ! e \<noteq> 0)"
    unfolding bslz4_pack_mask_def Let_def nw_def[symmetric] b(1) rbind.simps all ..
  then show ?thesis using b(2) bits by blast
qed

section \<open>Masking the planes\<close>

text \<open>The bytes of the packed words.\<close>

definition mask_byte :: "64 word list \<Rightarrow> nat \<Rightarrow> byte" where
  "mask_byte bits j = ucast (drop_bit (8 * (j mod 8)) (bits ! (j div 8)))"

text \<open>
  \<open>bslz4_mask_planes_avx512\<close>: 64-byte chunks below \<open>nz_end\<close>, plane by plane. The inner loop's result
  is the buffer and \<open>j\<close>; the outer one's the buffer and \<open>p0 + j\<close> cut to \<open>nz_end\<close>. A plane size of 0
  would not advance \<open>p0\<close> (\<open>Hang\<close>).
\<close>

function mask_chunks :: "byte list \<Rightarrow> 64 word list \<Rightarrow> nat \<Rightarrow> nat \<Rightarrow> nat \<Rightarrow> nat \<Rightarrow> (byte list \<times> nat) res" where
  "mask_chunks raw bits nb nz_end p0 j =
     (if j < nb \<and> p0 + j + 64 \<le> nz_end then
        rbind (load_n raw (p0 + j) 64) (\<lambda>v.
        rbind (load_n (map (mask_byte bits) [0..<8 * length bits]) j 64) (\<lambda>mb.
        rbind (store_n raw (p0 + j) (map2 (AND) v mb)) (\<lambda>raw.
          mask_chunks raw bits nb nz_end p0 (j + 64))))
      else Inr (raw, j))"
  by pat_completeness auto
termination
  by (relation "measure (\<lambda>(raw, bits, nb, nz_end, p0, j). nz_end - j)") auto

function bslz4_mask_planes_avx512 :: "byte list \<Rightarrow> 64 word list \<Rightarrow> nat \<Rightarrow> nat \<Rightarrow> nat \<Rightarrow> nat \<Rightarrow> (byte list \<times> nat) res" where
  "bslz4_mask_planes_avx512 raw bits nb nz_end p0 j =
     (if p0 < nz_end then
        rbind (mask_chunks raw bits nb nz_end p0 0) (\<lambda>(raw, j).
          if j < nb then Inr (raw, if p0 + j < nz_end then p0 + j else nz_end)
          else if nb = 0 then Inl Hang
          else bslz4_mask_planes_avx512 raw bits nb nz_end (p0 + nb) j)
      else Inr (raw, if p0 + j < nz_end then p0 + j else nz_end))"
  by pat_completeness auto
termination
  by (relation "measure (\<lambda>(raw, bits, nb, nz_end, p0, j). nz_end - p0)") auto

declare mask_chunks.simps [simp del] bslz4_mask_planes_avx512.simps [simp del]

text \<open>The byte loop of one plane from \<open>j\<close> on (\<open>c\<close> bytes), and the loop over the planes.\<close>

fun mask_bytes :: "byte list \<Rightarrow> 64 word list \<Rightarrow> nat \<Rightarrow> nat \<Rightarrow> nat \<Rightarrow> byte list res" where
  "mask_bytes raw bits p0 j 0 = Inr raw"
| "mask_bytes raw bits p0 j (Suc c) =
     rbind (load raw (p0 + j)) (\<lambda>x.
     rbind (load (map (mask_byte bits) [0..<8 * length bits]) j) (\<lambda>mb.
     rbind (store raw (p0 + j) (x AND mb)) (\<lambda>raw. mask_bytes raw bits p0 (j + 1) c)))"

function mask_rest :: "byte list \<Rightarrow> 64 word list \<Rightarrow> nat \<Rightarrow> nat \<Rightarrow> nat \<Rightarrow> nat \<Rightarrow> byte list res" where
  "mask_rest raw bits nb nz_end i p0 =
     (if p0 < nz_end then
        if nb = 0 then Inl Hang
        else let j = (if p0 < i then i - p0 else 0); jend = (if nz_end - p0 < nb then nz_end - p0 else nb) in
          rbind (mask_bytes raw bits p0 j (jend - j)) (\<lambda>raw. mask_rest raw bits nb nz_end i (p0 + nb))
      else Inr raw)"
  by pat_completeness auto
termination
  by (relation "measure (\<lambda>(raw, bits, nb, nz_end, i, p0). nz_end - p0)") auto

declare mask_rest.simps [simp del]

text \<open>\<open>i % nb\<close> with \<open>nb = 0\<close> is a division by zero (\<open>Fault\<close>).\<close>

definition bslz4_mask_planes :: "host \<Rightarrow> byte list \<Rightarrow> 64 word list \<Rightarrow> nat \<Rightarrow> nat \<Rightarrow> byte list res" where
  "bslz4_mask_planes h raw bits nb nz_end =
     rbind (if b_x86_simd (h_build h) \<and> c2py_amd64_avx512f (h_cpu h) \<and> nb mod 64 = 0
            then bslz4_mask_planes_avx512 raw bits nb nz_end 0 0 else Inr (raw, 0)) (\<lambda>(raw, i).
       if nb = 0 then Inl Fault
       else mask_rest raw bits nb nz_end i (i - i mod nb))"

text \<open>
  Byte \<open>x\<close> of the planes after masking. The three loops all keep: the bytes of one interval are
  masked, the others are not changed.
\<close>

definition masked_byte :: "byte list \<Rightarrow> 64 word list \<Rightarrow> nat \<Rightarrow> nat \<Rightarrow> byte" where
  "masked_byte raw bits nb x = raw ! x AND mask_byte bits (x mod nb)"

definition masked_upto :: "byte list \<Rightarrow> 64 word list \<Rightarrow> nat \<Rightarrow> nat \<Rightarrow> byte list \<Rightarrow> bool" where
  "masked_upto raw0 bits nb i raw \<longleftrightarrow> length raw = length raw0
     \<and> (\<forall>x. raw ! x = (if x < i then masked_byte raw0 bits nb x else raw0 ! x))"

lemma masked_upto_nth: "masked_upto raw0 bits nb i raw \<Longrightarrow> raw ! x = (if x < i then masked_byte raw0 bits nb x else raw0 ! x)"
  by (auto simp: masked_upto_def)

lemma mod_plane: "nb dvd p0 \<Longrightarrow> j < nb \<Longrightarrow> (p0 + j) mod nb = (j :: nat)"
  by (auto elim!: dvdE)

lemma mask_bytes_ok:
  "masked_upto raw0 bits nb (p0 + j) raw \<Longrightarrow> nb dvd p0 \<Longrightarrow> j + c \<le> nb \<Longrightarrow> p0 + j + c \<le> length raw0 \<Longrightarrow> nb \<le> 8 * length bits
    \<Longrightarrow> \<exists>raw'. mask_bytes raw bits p0 j c = Inr raw' \<and> masked_upto raw0 bits nb (p0 + j + c) raw'"
proof (induction c arbitrary: raw j)
  case (Suc c)
  have l: "length raw = length raw0" using Suc.prems(1) by (simp add: masked_upto_def)
  let ?r = "raw[p0 + j := raw ! (p0 + j) AND mask_byte bits j]"
  have "masked_upto raw0 bits nb (p0 + (j + 1)) ?r"
    unfolding masked_upto_def
  proof (intro conjI allI)
    fix x
    show "?r ! x = (if x < p0 + (j + 1) then masked_byte raw0 bits nb x else raw0 ! x)"
      using masked_upto_nth[OF Suc.prems(1), of x] Suc.prems(3,4) l mod_plane[OF Suc.prems(2), of j]
      by (cases "x = p0 + j") (auto simp: masked_byte_def)
  qed (simp add: l)
  then obtain r where "mask_bytes ?r bits p0 (j + 1) c = Inr r" "masked_upto raw0 bits nb (p0 + (j + 1) + c) r"
    using Suc.IH[of "j + 1" ?r] Suc.prems by auto
  then show ?case using Suc.prems(3,4,5) l by (simp add: load_ok store_ok)
qed auto

lemma mask_chunks_ok:
  "masked_upto raw0 bits nb (p0 + j) raw \<Longrightarrow> nb dvd p0 \<Longrightarrow> 64 dvd nb \<Longrightarrow> 64 dvd j \<Longrightarrow> j \<le> nb
    \<Longrightarrow> nz_end \<le> length raw0 \<Longrightarrow> nb \<le> 8 * length bits
    \<Longrightarrow> \<exists>raw' j'. mask_chunks raw bits nb nz_end p0 j = Inr (raw', j') \<and> masked_upto raw0 bits nb (p0 + j') raw'
      \<and> j' \<le> nb \<and> (p0 + j \<le> nz_end \<longrightarrow> p0 + j' \<le> nz_end)"
proof (induction raw bits nb nz_end p0 j rule: mask_chunks.induct)
  case (1 raw bits nb nz_end p0 j)
  show ?case
  proof (cases "j < nb \<and> p0 + j + 64 \<le> nz_end")
    case False
    then show ?thesis using "1.prems" by (subst mask_chunks.simps) auto
  next
    case True
    have j64: "j + 64 \<le> nb" using True "1.prems"(3,4) by (auto elim!: dvdE)
    have l: "length raw = length raw0" using "1.prems"(1) by (simp add: masked_upto_def)
    let ?v = "take 64 (drop (p0 + j) raw)"
    let ?mb = "take 64 (drop j (map (mask_byte bits) [0..<8 * length bits]))"
    let ?r = "blit raw (p0 + j) (map2 (AND) ?v ?mb)"
    have ld: "load_n raw (p0 + j) 64 = Inr ?v" "load_n (map (mask_byte bits) [0..<8 * length bits]) j 64 = Inr ?mb"
      using True "1.prems"(6,7) j64 l by (simp_all add: load_n_ok)
    have lv: "length (map2 (AND) ?v ?mb) = 64" using True "1.prems"(6,7) j64 l by simp
    then have st: "store_n raw (p0 + j) (map2 (AND) ?v ?mb) = Inr ?r"
      using True "1.prems"(6) l by (simp add: store_n_ok)
    have m: "masked_upto raw0 bits nb (p0 + (j + 64)) ?r"
      unfolding masked_upto_def
    proof (intro conjI allI)
      show "length ?r = length raw0" using lv True "1.prems"(6) l by (simp add: length_blit)
      fix x
      show "?r ! x = (if x < p0 + (j + 64) then masked_byte raw0 bits nb x else raw0 ! x)"
      proof (cases "p0 + j \<le> x \<and> x < p0 + j + 64")
        case False
        then show ?thesis using masked_upto_nth[OF "1.prems"(1), of x] lv True "1.prems"(6) l
          by (auto simp: nth_blit)
      next
        case x: True
        define k where "k = x - (p0 + j)"
        have k: "x = p0 + j + k" "k < 64" using x by (auto simp: k_def)
        have "?r ! x = map2 (AND) ?v ?mb ! k" using lv True "1.prems"(6) l k by (simp add: nth_blit)
        also have "\<dots> = raw ! x AND mask_byte bits (j + k)"
          using k True "1.prems"(6,7) j64 l by simp
        also have "mask_byte bits (j + k) = mask_byte bits (x mod nb)"
          using mod_plane[OF "1.prems"(2), of "j + k"] k j64 by (simp add: add.assoc)
        finally show ?thesis using masked_upto_nth[OF "1.prems"(1), of x] k by (simp add: masked_byte_def)
      qed
    qed
    have "64 dvd j + 64" using "1.prems"(4) by simp
    from "1.IH"[OF True ld st m "1.prems"(2,3) this j64 "1.prems"(6,7)] obtain raw' j' where
      r: "mask_chunks ?r bits nb nz_end p0 (j + 64) = Inr (raw', j')" "masked_upto raw0 bits nb (p0 + j') raw'"
        "j' \<le> nb" "p0 + (j + 64) \<le> nz_end \<longrightarrow> p0 + j' \<le> nz_end" by blast
    then show ?thesis using True ld st by (subst mask_chunks.simps) auto
  qed
qed

lemma mask_planes_avx512_ok:
  "masked_upto raw0 bits nb p0 raw \<Longrightarrow> nb dvd p0 \<Longrightarrow> 64 dvd nb \<Longrightarrow> 0 < nb \<Longrightarrow> nz_end \<le> length raw0
    \<Longrightarrow> nb \<le> 8 * length bits \<Longrightarrow> p0 \<le> nz_end
    \<Longrightarrow> \<exists>raw' i. bslz4_mask_planes_avx512 raw bits nb nz_end p0 j = Inr (raw', i) \<and> masked_upto raw0 bits nb i raw'
      \<and> i \<le> nz_end"
proof (induction raw bits nb nz_end p0 j rule: bslz4_mask_planes_avx512.induct)
  case (1 raw bits nb nz_end p0 j)
  show ?case
  proof (cases "p0 < nz_end")
    case False
    then have "p0 = nz_end" using "1.prems"(7) by simp
    then show ?thesis using "1.prems"(1) by (subst bslz4_mask_planes_avx512.simps) auto
  next
    case True
    have m0: "masked_upto raw0 bits nb (p0 + 0) raw" using "1.prems"(1) by simp
    obtain r j' where r: "mask_chunks raw bits nb nz_end p0 0 = Inr (r, j')" "masked_upto raw0 bits nb (p0 + j') r"
      "j' \<le> nb" "p0 + j' \<le> nz_end"
      using mask_chunks_ok[OF m0 "1.prems"(2,3) _ _ "1.prems"(5,6)] True by auto
    show ?thesis
    proof (cases "j' < nb")
      case True
      then show ?thesis using r \<open>p0 < nz_end\<close>
        by (subst bslz4_mask_planes_avx512.simps) (auto simp: le_neq_implies_less)
    next
      case False
      then have j': "j' = nb" using r(3) by simp
      have "nb dvd p0 + nb" using "1.prems"(2) by simp
      moreover have "nb \<noteq> 0" using "1.prems"(4) by simp
      ultimately obtain raw' i where "bslz4_mask_planes_avx512 r bits nb nz_end (p0 + nb) j' = Inr (raw', i)"
        "masked_upto raw0 bits nb i raw'" "i \<le> nz_end"
        using "1.IH"[OF True r(1) refl False _ _ _ "1.prems"(3,4,5,6)] r(2,4) j' by auto
      then show ?thesis using True r(1) False "1.prems"(4)
        by (subst bslz4_mask_planes_avx512.simps) auto
    qed
  qed
qed

lemma mask_rest_ok:
  "masked_upto raw0 bits nb (min nz_end (max p0 i)) raw \<Longrightarrow> nb dvd p0 \<Longrightarrow> 0 < nb \<Longrightarrow> nz_end \<le> length raw0
    \<Longrightarrow> nb \<le> 8 * length bits \<Longrightarrow> i \<le> nz_end \<Longrightarrow> i \<le> p0 + nb
    \<Longrightarrow> \<exists>raw'. mask_rest raw bits nb nz_end i p0 = Inr raw' \<and> masked_upto raw0 bits nb nz_end raw'"
proof (induction raw bits nb nz_end i p0 rule: mask_rest.induct)
  case (1 raw bits nb nz_end i p0)
  show ?case
  proof (cases "p0 < nz_end")
    case False
    then have "min nz_end (max p0 i) = nz_end" by simp
    then show ?thesis using False "1.prems"(1) by (subst mask_rest.simps) simp
  next
    case True
    define j where "j = (if p0 < i then i - p0 else 0)"
    define jend where "jend = (if nz_end - p0 < nb then nz_end - p0 else nb)"
    have e: "min nz_end (max p0 i) = p0 + j" "j + (jend - j) = jend" "jend \<le> nb" "p0 + jend = min nz_end (p0 + nb)"
      using True "1.prems"(6,7) by (auto simp: j_def jend_def)
    obtain r where r: "mask_bytes raw bits p0 j (jend - j) = Inr r" "masked_upto raw0 bits nb (p0 + jend) r"
    proof -
      have "p0 + j + (jend - j) \<le> length raw0" using e(2,4) "1.prems"(4) by simp
      moreover have "p0 + j + (jend - j) = p0 + jend" using e(2) by simp
      ultimately show ?thesis
        using that mask_bytes_ok[of raw0 bits nb p0 j raw "jend - j"] "1.prems"(1,2,5) e(1-3) by auto
    qed
    have "p0 + jend = min nz_end (max (p0 + nb) i)" using e "1.prems"(7) by auto
    then obtain raw' where "mask_rest r bits nb nz_end i (p0 + nb) = Inr raw'" "masked_upto raw0 bits nb nz_end raw'"
      using "1.IH"[OF True _ j_def jend_def r(1)] "1.prems" r(2) by auto
    then show ?thesis using True r(1) "1.prems"(3)
      by (subst mask_rest.simps) (simp add: Let_def flip: j_def jend_def)
  qed
qed

lemma mask_planes_ok:
  assumes "0 < nb" "nz_end \<le> length raw" "nb \<le> 8 * length bits"
  shows "\<exists>raw'. bslz4_mask_planes h raw bits nb nz_end = Inr raw' \<and> masked_upto raw bits nb nz_end raw'"
proof -
  have m0: "masked_upto raw bits nb 0 raw" by (simp add: masked_upto_def)
  obtain r i where r: "(if b_x86_simd (h_build h) \<and> c2py_amd64_avx512f (h_cpu h) \<and> nb mod 64 = 0
      then bslz4_mask_planes_avx512 raw bits nb nz_end 0 0 else Inr (raw, 0)) = Inr (r, i)"
    "masked_upto raw bits nb i r" "i \<le> nz_end"
  proof (cases "b_x86_simd (h_build h) \<and> c2py_amd64_avx512f (h_cpu h) \<and> nb mod 64 = 0")
    case True
    then show ?thesis using that mask_planes_avx512_ok[OF m0 _ _ assms(1,2,3), of 0] by auto
  next
    case False
    then show ?thesis using that m0 by auto
  qed
  have d: "i = nb * (i div nb) + i mod nb" "i - i mod nb = nb * (i div nb)" by (simp_all add: minus_mod_eq_mult_div)
  have "i mod nb < nb" using assms(1) by simp
  then have p: "nb dvd i - i mod nb" "i \<le> i - i mod nb + nb" "max (i - i mod nb) i = i" using d by auto
  have "min nz_end (max (i - i mod nb) i) = i" using p(3) r(3) by simp
  then obtain raw' where "mask_rest r bits nb nz_end i (i - i mod nb) = Inr raw'" "masked_upto raw bits nb nz_end raw'"
    using mask_rest_ok[of raw bits nb nz_end "i - i mod nb" i r] assms r p(1,2) by auto
  then show ?thesis using r(1) assms(1) by (simp add: bslz4_mask_planes_def)
qed

section \<open>Masked planes are masked pixels\<close>

text \<open>Keep bit \<open>e\<close> of the packed mask.\<close>

definition keep_bit :: "64 word list \<Rightarrow> nat \<Rightarrow> bool" where
  "keep_bit bits e = bit (bits ! (e div 64)) (e mod 64)"

lemma bit_mask_byte: "k < 8 \<Longrightarrow> bit (mask_byte bits j) k = keep_bit bits (8 * j + k)"
proof -
  assume "k < 8"
  then have "(8 * j + k) div 64 = j div 8" "(8 * j + k) mod 64 = 8 * (j mod 8) + k"
    by (auto simp: div_mult2_eq[of _ 8 8, simplified] mod_mult2_eq[of _ 8 8, simplified])
  then show ?thesis using \<open>k < 8\<close> by (simp add: mask_byte_def keep_bit_def bit_simps)
qed

lemma masked_planes:
  assumes "planes_in planes raw nz" "masked_upto raw bits (ne div 8) nz raw'" "0 < ne div 8" "ne mod 8 = 0"
    "length planes = 8 * NB * (ne div 8)" "NB \<le> 8"
  shows "\<exists>planes'. planes_in planes' raw' nz \<and> length planes' = length planes
    \<and> plane_pixels NB ne planes' = map (\<lambda>e. if keep_bit bits e then plane_pixels NB ne planes ! e else 0) [0..<ne]"
proof -
  define planes' where "planes' = map (masked_byte planes bits (ne div 8)) [0..<length planes]"
  have l: "length planes' = length planes" by (simp add: planes'_def)
  have "planes_in planes' raw' nz"
  proof (rule planes_inI)
    show "nz \<le> length planes'" "length planes' \<le> length raw'"
      using assms(1,2) by (auto simp: l planes_in_def masked_upto_def)
    fix i assume i: "i < length planes'"
    show "planes' ! i = (if i < nz then raw' ! i else 0)"
      using i l planes_in_nth[OF assms(1), of i] masked_upto_nth[OF assms(2), of i]
      by (auto simp: planes'_def masked_byte_def)
  qed
  moreover have "plane_pixel NB ne planes' e = (if keep_bit bits e then plane_pixel NB ne planes e else 0)" if e: "e < ne" for e
  proof (rule bit_word_eqI)
    fix p assume "p < LENGTH(64)"
    show "bit (plane_pixel NB ne planes' e) p = bit (if keep_bit bits e then plane_pixel NB ne planes e else 0) p"
    proof (cases "p < 8 * NB")
      case True
      let ?x = "p * (ne div 8) + e div 8"
      have ed: "e div 8 < ne div 8" using e assms(4) by (auto simp: less_mult_imp_div_less elim!: dvdE[of 8] simp flip: dvd_eq_mod_eq_0)
      have x: "?x < length planes"
      proof -
        have "?x < (p + 1) * (ne div 8)" using ed by simp
        also have "\<dots> \<le> 8 * NB * (ne div 8)" using True by (intro mult_le_mono1) simp
        finally show ?thesis using assms(5) by simp
      qed
      have "?x mod (ne div 8) = e div 8" using ed by simp
      moreover have "8 * (e div 8) + e mod 8 = e" by simp
      ultimately have "bit (planes' ! ?x) (e mod 8) = (bit (planes ! ?x) (e mod 8) \<and> keep_bit bits e)"
        using x bit_mask_byte[of "e mod 8" bits "e div 8"] by (simp add: planes'_def masked_byte_def bit_and_iff)
      then show ?thesis using True \<open>p < LENGTH(64)\<close> by (auto simp: bit_plane_pixel plane_bit_def)
    next
      case False
      then show ?thesis by (simp add: bit_plane_pixel)
    qed
  qed
  ultimately show ?thesis using l
    by (intro exI[of _ planes']) (auto simp: plane_pixels_def)
qed

end
