(* ===== verification/Lz4zero.thy ===== *)
theory Lz4zero
  imports Common
begin

text \<open>
  \<open>src/steps/lz4zero.h\<close>: the zero-aware lz4 block decoder. Pointers are offsets: \<open>lz_ip\<close> into the
  input, \<open>lz_op\<close>, \<open>lz_written\<close> and \<open>lz_zero_from\<close> into the output buffer \<open>lz_dst\<close>, which is the
  \<open>cap + slack\<close> bytes the decoder may write. \<open>sse2\<close> is the build's \<open>BSLZ4_LZ4ZERO_SSE2\<close>. Every access
  is checked against its object and every \<open>memcpy\<close> for overlap (\<open>Fault\<close>).
\<close>

record lz =
  lz_ip :: nat
  lz_op :: nat
  lz_written :: nat
  lz_zero_from :: nat
  lz_dst :: "byte list"

section \<open>Leading zeros\<close>

definition bslz4_lz_clz64 :: "64 word \<Rightarrow> nat" where
  "bslz4_lz_clz64 x = length (takeWhile (\<lambda>i. \<not> bit x i) (rev [0..<64]))"

definition bslz4_lz_clz32 :: "32 word \<Rightarrow> nat" where
  "bslz4_lz_clz32 x = length (takeWhile (\<lambda>i. \<not> bit x i) (rev [0..<32]))"

section \<open>Copies and fills\<close>

text \<open>
  The doubling loop of an overlapping match. With \<open>op = src\<close> a pass would copy nothing and the
  loop would not end: that is \<open>Hang\<close>.
\<close>

function bslz4_copy_overlap :: "byte list \<Rightarrow> nat \<Rightarrow> nat \<Rightarrow> nat \<Rightarrow> byte list res" where
  "bslz4_copy_overlap m op src endp =
     (if op < endp then
        let n = op - src; n = (if n > endp - op then endp - op else n) in
        if n = 0 then Inl Hang
        else rbind (memcpy_in m op src n) (\<lambda>m'. bslz4_copy_overlap m' (op + n) src endp)
      else Inr m)"
  by pat_completeness auto
termination
  by (relation "measure (\<lambda>(m, op, src, endp). endp - op)") auto

declare bslz4_copy_overlap.simps [simp del]

fun zero_chunks :: "byte list \<Rightarrow> nat \<Rightarrow> nat \<Rightarrow> nat \<Rightarrow> byte list res" where
  "zero_chunks m p k 0 = Inr m"
| "zero_chunks m p k (Suc c) = rbind (memset0 m (p + k) 64) (\<lambda>m'. zero_chunks m' p (k + 64) c)"

definition bslz4_zero_fill :: "byte list \<Rightarrow> nat \<Rightarrow> nat \<Rightarrow> nat \<Rightarrow> byte list res" where
  "bslz4_zero_fill m p n limit =
     (let n64 = (n + 63) div 64 * 64 in
      if n \<le> 512 \<and> limit - p \<ge> n64 then zero_chunks m p 0 (n64 div 64)
      else memset0 m p n)"

text \<open>\<open>while (q > lo \<and> q[-1] == 0) q--;\<close>\<close>

fun last_nz :: "byte list \<Rightarrow> nat \<Rightarrow> nat \<Rightarrow> nat res" where
  "last_nz xs lo 0 = Inr 0"
| "last_nz xs lo (Suc q) =
     (if lo < Suc q
      then rbind (load xs q) (\<lambda>b. if b = 0 then last_nz xs lo q else Inr (Suc q))
      else Inr (Suc q))"

text \<open>\<open>do { b = *ip++; len += b; } while (b == 255)\<close> with its two error exits.\<close>

function ext_len :: "byte list \<Rightarrow> nat \<Rightarrow> nat \<Rightarrow> nat \<Rightarrow> (nat \<times> nat) res" where
  "ext_len src cap ip len =
     (if length src \<le> ip then Inl (Code (-1))
      else let b = src ! ip; len = len + unat b in
        if len > cap then Inl (Code (-1))
        else if b = 255 then ext_len src cap (ip + 1) len
        else Inr (ip + 1, len))"
  by pat_completeness auto
termination
  by (relation "measure (\<lambda>(src, cap, ip, len). length src - ip)") auto

declare ext_len.simps [simp del]

section \<open>Token and literals\<close>

definition flush_zeros :: "nat \<Rightarrow> lz \<Rightarrow> byte list res" where
  "flush_zeros olim s =
     (if lz_written s < lz_op s
      then bslz4_zero_fill (lz_dst s) (lz_written s) (lz_op s - lz_written s) olim
      else Inr (lz_dst s))"

definition lz_copy_literals :: "byte list \<Rightarrow> nat \<Rightarrow> nat \<Rightarrow> nat \<Rightarrow> lz \<Rightarrow> lz res" where
  "lz_copy_literals src cap slack lit s =
     (let ip = lz_ip s; op = lz_op s; iend = length src; olim = cap + slack in
      if lit = 0 then Inr s
      else rbind (last_nz src ip (ip + lit)) (\<lambda>q.
        if q = ip then Inr (s\<lparr>lz_ip := ip + lit, lz_op := op + lit\<rparr>)
        else
          rbind (flush_zeros olim s) (\<lambda>m.
          rbind (if lit \<le> 32 \<and> iend - ip \<ge> 32 \<and> olim - op \<ge> 32
                 then rbind (load_n src ip 32) (\<lambda>v. store_n m op v)
                 else rbind (load_n src ip lit) (\<lambda>v. store_n m op v)) (\<lambda>m.
          Inr (s\<lparr>lz_ip := ip + lit, lz_op := op + lit, lz_written := op + lit,
                 lz_zero_from := op + (q - ip), lz_dst := m\<rparr>)))))"

text \<open>The token, its literal count and the checks on it; the token, then the new state.\<close>

definition lz_literals :: "byte list \<Rightarrow> nat \<Rightarrow> nat \<Rightarrow> lz \<Rightarrow> (nat \<times> lz) res" where
  "lz_literals src cap slack s =
     (let iend = length src; oend = cap; op = lz_op s in
      if iend \<le> lz_ip s then Inl (Code (-1))
      else let token = unat (src ! lz_ip s); ip = lz_ip s + 1; lit = token div 16 in
        rbind (if lit = 15 then ext_len src cap ip lit else Inr (ip, lit)) (\<lambda>(ip, lit).
        if lit > iend - ip \<or> lit > oend - op then Inl (Code (-1))
        else if (oend - op < 12 \<or> lit > oend - op - 12 \<or> iend - ip < 8 \<or> lit > iend - ip - 8)
                \<and> ip + lit \<noteq> iend then Inl (Code (-1))
        else rbind (lz_copy_literals src cap slack lit (s\<lparr>lz_ip := ip\<rparr>)) (\<lambda>s. Inr (token, s))))"

section \<open>Match\<close>

text \<open>
  The copy of a match of \<open>mlen\<close> bytes from \<open>match\<close> (\<open>off\<close> bytes back) to \<open>op\<close>, with the position after
  its last non-zero byte. Three shapes with SSE2, two without, and the overlapping one.
  \<open>nz_mask\<close> is \<open>~movemask(cmpeq(v, 0)) & 0xFFFF\<close>: bit \<open>k\<close> set when byte \<open>k\<close> of \<open>v\<close> is not zero.
\<close>

definition nz_mask :: "byte list \<Rightarrow> 'a::len word" where
  "nz_mask v = word_of_bits (map (\<lambda>b. b \<noteq> 0) v)"

fun copy16_short :: "byte list \<Rightarrow> nat \<Rightarrow> nat \<Rightarrow> nat \<Rightarrow> nat \<Rightarrow> 64 word \<Rightarrow> (byte list \<times> 64 word) res" where
  "copy16_short m op match c 0 nz = Inr (m, nz)"
| "copy16_short m op match c (Suc k) nz =
     rbind (load_n m (match + c) 16) (\<lambda>v.
     rbind (store_n m (op + c) v) (\<lambda>m'.
       copy16_short m' op match (c + 16) k (nz OR push_bit c (nz_mask v))))"

fun copy16_long :: "byte list \<Rightarrow> nat \<Rightarrow> nat \<Rightarrow> nat \<Rightarrow> nat \<Rightarrow> nat \<Rightarrow> nat \<Rightarrow> 32 word
    \<Rightarrow> (byte list \<times> nat \<times> 32 word) res" where
  "copy16_long m op match mlen c 0 lastc lastm = Inr (m, lastc, lastm)"
| "copy16_long m op match mlen c (Suc k) lastc lastm =
     rbind (load_n m (match + c) 16) (\<lambda>v.
     rbind (store_n m (op + c) v) (\<lambda>m'.
       let b = nz_mask v;
           b = (if mlen - c < 16 then b AND (push_bit (mlen - c) 1 - 1) else b) in
       copy16_long m' op match mlen (c + 16) k (if b \<noteq> 0 then c else lastc) (if b \<noteq> 0 then b else lastm)))"

definition copy_match_sse2_short :: "byte list \<Rightarrow> nat \<Rightarrow> nat \<Rightarrow> nat \<Rightarrow> (byte list \<times> nat) res" where
  "copy_match_sse2_short m op match mlen =
     rbind (copy16_short m op match 0 ((mlen + 15) div 16) 0) (\<lambda>(m, nz).
       let nz = (if mlen < 64 then nz AND (push_bit mlen 1 - 1) else nz) in
       Inr (m, if nz \<noteq> 0 then op + (64 - bslz4_lz_clz64 nz) else op))"

definition copy_match_sse2_long :: "byte list \<Rightarrow> nat \<Rightarrow> nat \<Rightarrow> nat \<Rightarrow> (byte list \<times> nat) res" where
  "copy_match_sse2_long m op match mlen =
     rbind (copy16_long m op match mlen 0 ((mlen + 15) div 16) 0 0) (\<lambda>(m, lastc, lastm).
       Inr (m, if lastm \<noteq> 0 then op + lastc + (32 - bslz4_lz_clz32 lastm) else op))"

definition copy_match_plain :: "byte list \<Rightarrow> nat \<Rightarrow> nat \<Rightarrow> nat \<Rightarrow> nat \<Rightarrow> (byte list \<times> nat) res" where
  "copy_match_plain m olim op match mlen =
     rbind (if mlen \<le> 64 \<and> olim - op \<ge> 64
            then rbind (load_n m match 64) (\<lambda>t. store_n m op t)
            else memcpy_in m op match mlen) (\<lambda>m.
     rbind (last_nz m op (op + mlen)) (\<lambda>q. Inr (m, q)))"

definition copy_match_overlap :: "byte list \<Rightarrow> nat \<Rightarrow> nat \<Rightarrow> nat \<Rightarrow> nat \<Rightarrow> (byte list \<times> nat) res" where
  "copy_match_overlap m op match off mlen =
     rbind (bslz4_copy_overlap m op match (op + mlen)) (\<lambda>m.
       let stop = op + mlen - off in
       rbind (last_nz m stop (op + mlen)) (\<lambda>q. Inr (m, if q = stop then op else q)))"

definition lz_copy_match :: "bool \<Rightarrow> byte list \<Rightarrow> nat \<Rightarrow> nat \<Rightarrow> nat \<Rightarrow> nat \<Rightarrow> (byte list \<times> nat) res" where
  "lz_copy_match sse2 m olim op off mlen =
     (let match = op - off in
      if sse2 \<and> off \<ge> mlen \<and> mlen \<le> 64 \<and> olim - op \<ge> 64 then copy_match_sse2_short m op match mlen
      else if sse2 \<and> off \<ge> mlen \<and> olim - op \<ge> mlen + 16 then copy_match_sse2_long m op match mlen
      else if off \<ge> mlen then copy_match_plain m olim op match mlen
      else copy_match_overlap m op match off mlen)"

definition lz_match :: "bool \<Rightarrow> byte list \<Rightarrow> nat \<Rightarrow> nat \<Rightarrow> nat \<Rightarrow> lz \<Rightarrow> lz res" where
  "lz_match sse2 src cap slack token s =
     (let iend = length src; oend = cap; olim = cap + slack; op = lz_op s; ip = lz_ip s in
      if iend - ip < 2 then Inl (Code (-1))
      else let off = unat (src ! ip) + 256 * unat (src ! (ip + 1)); ip = ip + 2; mlen = token mod 16 in
        rbind (if mlen = 15 then ext_len src cap ip mlen else Inr (ip, mlen)) (\<lambda>(ip, mlen).
        let mlen = mlen + 4 in
        if off = 0 \<or> off > op then Inl (Code (-1))
        else if mlen > oend - op \<or> oend - op - mlen < 5 then Inl (Code (-1))
        else if op - off \<ge> lz_zero_from s then Inr (s\<lparr>lz_ip := ip, lz_op := op + mlen\<rparr>)
        else rbind (flush_zeros olim s) (\<lambda>m.
             rbind (lz_copy_match sse2 m olim op off mlen) (\<lambda>(m, q).
               Inr (s\<lparr>lz_ip := ip, lz_op := op + mlen, lz_written := op + mlen,
                      lz_zero_from := q, lz_dst := m\<rparr>)))))"

section \<open>The block\<close>

lemma ext_len_ip: "ext_len src cap ip len = Inr (ip', len') \<Longrightarrow> ip < ip' \<and> ip' \<le> length src \<and> len \<le> len' \<and> len' \<le> cap"
proof (induction src cap ip len rule: ext_len.induct)
  case (1 src cap ip len)
  show ?case
  proof (cases "length src \<le> ip \<or> len + unat (src ! ip) > cap")
    case True
    with "1.prems" show ?thesis by (subst (asm) ext_len.simps) (auto split: if_splits)
  next
    case False
    with "1.prems" "1.IH"[OF _ refl refl] show ?thesis
      by (subst (asm) ext_len.simps) (fastforce simp: Let_def split: if_splits)
  qed
qed

lemma lz_copy_literals_ip:
  "lz_copy_literals src cap slack lit s = Inr s' \<Longrightarrow> lz_ip s' = lz_ip s + lit"
  by (auto simp: lz_copy_literals_def Let_def rbind_Inr_iff split: if_splits)

lemma lz_literals_ip:
  "lz_literals src cap slack s = Inr (t, s') \<Longrightarrow> lz_ip s < lz_ip s' \<and> lz_ip s' \<le> length src"
  by (auto simp: lz_literals_def Let_def rbind_Inr_iff dest!: ext_len_ip lz_copy_literals_ip split: if_splits)
    linarith+

lemma lz_match_ip: "lz_match sse2 src cap slack t s = Inr s' \<Longrightarrow> lz_ip s < lz_ip s'"
  by (auto simp: lz_match_def Let_def rbind_Inr_iff dest!: ext_len_ip split: if_splits prod.splits)

function lz_loop :: "bool \<Rightarrow> byte list \<Rightarrow> nat \<Rightarrow> nat \<Rightarrow> lz \<Rightarrow> lz res" where
  "lz_loop sse2 src cap slack s =
     rbind (lz_literals src cap slack s) (\<lambda>(token, s1).
       if lz_ip s1 = length src then Inr s1
       else rbind (lz_match sse2 src cap slack token s1) (\<lambda>s2. lz_loop sse2 src cap slack s2))"
  by pat_completeness auto
termination
  by (relation "measure (\<lambda>(sse2, src, cap, slack, s). length src - lz_ip s)")
    (auto dest!: lz_literals_ip lz_match_ip)

declare lz_loop.simps [simp del]

text \<open>The final buffer and \<open>*nz_end\<close> of a call that returns \<open>cap\<close>.\<close>

definition bslz4_lz4_decode_zero :: "bool \<Rightarrow> byte list \<Rightarrow> byte list \<Rightarrow> nat \<Rightarrow> nat \<Rightarrow> (byte list \<times> nat) res" where
  "bslz4_lz4_decode_zero sse2 src dst cap slack =
     rbind (lz_loop sse2 src cap slack
              \<lparr>lz_ip = 0, lz_op = 0, lz_written = 0, lz_zero_from = 0, lz_dst = dst\<rparr>) (\<lambda>s.
       if lz_op s \<noteq> cap then Inl (Code (-1)) else Inr (lz_dst s, lz_written s))"

end
