(* ===== verification/Lz4Spec.thy ===== *)
theory Lz4Spec
  imports Lz4zero
begin

text \<open>
  The lz4 block format as a reader that appends to its output byte by byte, with no buffer, no
  positions and no zero tracking: what \<open>Lz4zero\<close> must compute. A match is copied one byte at a
  time from \<open>off\<close> bytes before the end, which is what the format says of overlapping matches.
  The end-of-block rules are those \<open>src/steps/lz4zero.h\<close> names.
\<close>

section \<open>The reference reader\<close>

fun append_match :: "byte list \<Rightarrow> nat \<Rightarrow> nat \<Rightarrow> byte list" where
  "append_match out off 0 = out"
| "append_match out off (Suc n) = append_match (out @ [out ! (length out - off)]) off n"

definition seq_literals :: "byte list \<Rightarrow> nat \<Rightarrow> nat \<Rightarrow> nat \<Rightarrow> (nat \<times> nat \<times> nat) res" where
  "seq_literals src cap ip op =
     (if length src \<le> ip then Inl (Code (-1))
      else let token = unat (src ! ip) in
        rbind (if token div 16 = 15 then ext_len src cap (ip + 1) 15 else Inr (ip + 1, token div 16)) (\<lambda>(ip, lit).
        if length src < ip + lit \<or> cap < op + lit then Inl (Code (-1))
        else if (cap < op + lit + 12 \<or> length src < ip + lit + 8) \<and> ip + lit \<noteq> length src then Inl (Code (-1))
        else Inr (token, ip, lit)))"

definition seq_match :: "byte list \<Rightarrow> nat \<Rightarrow> nat \<Rightarrow> nat \<Rightarrow> nat \<Rightarrow> (nat \<times> nat \<times> nat) res" where
  "seq_match src cap token ip op =
     (if length src < ip + 2 then Inl (Code (-1))
      else let off = unat (src ! ip) + 256 * unat (src ! (ip + 1)) in
        rbind (if token mod 16 = 15 then ext_len src cap (ip + 2) 15 else Inr (ip + 2, token mod 16)) (\<lambda>(ip, n).
        if off = 0 \<or> op < off then Inl (Code (-1))
        else if cap < op + (n + 4) + 5 then Inl (Code (-1))
        else Inr (ip, off, n + 4)))"

lemma seq_literals_ip: "seq_literals src cap ip op = Inr (t, ip', lit) \<Longrightarrow> ip < ip' \<and> ip' + lit \<le> length src \<and> op + lit \<le> cap"
  by (auto simp: seq_literals_def Let_def rbind_Inr_iff dest!: ext_len_ip split: if_splits)

lemma seq_match_ip:
  "seq_match src cap t ip op = Inr (ip', off, n) \<Longrightarrow> ip < ip' \<and> 0 < off \<and> off \<le> op \<and> op + n + 5 \<le> cap \<and> 4 \<le> n"
  by (auto simp: seq_match_def Let_def rbind_Inr_iff dest!: ext_len_ip split: if_splits)

function lz4_seqs :: "byte list \<Rightarrow> nat \<Rightarrow> nat \<Rightarrow> byte list \<Rightarrow> byte list res" where
  "lz4_seqs src cap ip out =
     rbind (seq_literals src cap ip (length out)) (\<lambda>(token, ip1, lit).
       let out1 = out @ take lit (drop ip1 src) in
       if ip1 + lit = length src then Inr out1
       else rbind (seq_match src cap token (ip1 + lit) (length out1)) (\<lambda>(ip2, off, n).
            lz4_seqs src cap ip2 (append_match out1 off n)))"
  by pat_completeness auto
termination
  by (relation "measure (\<lambda>(src, cap, ip, out). length src - ip)") (auto dest!: seq_literals_ip seq_match_ip)

declare lz4_seqs.simps [simp del]

definition lz4_block :: "byte list \<Rightarrow> nat \<Rightarrow> byte list res" where
  "lz4_block src cap =
     rbind (lz4_seqs src cap 0 []) (\<lambda>out. if length out \<noteq> cap then Inl (Code (-1)) else Inr out)"

section \<open>Matches as periodic output\<close>

lemma length_append_match [simp]: "length (append_match out off n) = length out + n"
  by (induction n arbitrary: out) auto

lemma take_append_match [simp]: "take (length out) (append_match out off n) = out"
proof (induction n arbitrary: out)
  case (Suc n)
  let ?o = "out @ [out ! (length out - off)]"
  have "take (length out) (take (length ?o) (append_match ?o off n)) = out"
    using Suc.IH[of ?o] by simp
  then show ?case by (simp add: min_def)
qed simp

lemma append_match_nth_old: "i < length out \<Longrightarrow> append_match out off n ! i = out ! i"
  using take_eq_nthD[of "length out" "append_match out off n" out i] by simp

lemma append_match_nth:
  "0 < off \<Longrightarrow> off \<le> length out \<Longrightarrow> length out \<le> i \<Longrightarrow> i < length out + n
    \<Longrightarrow> append_match out off n ! i = append_match out off n ! (i - off)"
proof (induction n arbitrary: out)
  case (Suc n)
  let ?o = "out @ [out ! (length out - off)]"
  show ?case
  proof (cases "i = length out")
    case True
    then show ?thesis
      using Suc.prems by (simp add: append_match_nth_old nth_append)
  next
    case False
    then show ?thesis using Suc.IH[of ?o] Suc.prems by simp
  qed
qed simp

lemma append_match_unique:
  assumes "0 < off" "off \<le> length out" "length xs = length out + n" "take (length out) xs = out"
    and per: "\<And>i. length out \<le> i \<Longrightarrow> i < length out + n \<Longrightarrow> xs ! i = xs ! (i - off)"
  shows "xs = append_match out off n"
proof (rule nth_equalityI)
  show "length xs = length (append_match out off n)" using assms(3) by simp
  fix i assume "i < length xs"
  then show "xs ! i = append_match out off n ! i"
  proof (induction i rule: less_induct)
    case (less i)
    show ?case
    proof (cases "i < length out")
      case True
      then have "xs ! i = out ! i" using assms(4) by (metis nth_take)
      then show ?thesis using True by (simp add: append_match_nth_old)
    next
      case False
      then have "xs ! i = xs ! (i - off)" using per less.prems assms(3) by simp
      also have "\<dots> = append_match out off n ! (i - off)"
        using less False assms(1,2) by simp
      also have "\<dots> = append_match out off n ! i"
        using False less.prems assms by (simp add: append_match_nth)
      finally show ?thesis .
    qed
  qed
qed

lemma append_match_disjoint:
  assumes "n \<le> off" "0 < off" "off \<le> length out"
  shows "append_match out off n = out @ take n (drop (length out - off) out)"
  by (rule append_match_unique[symmetric]) (use assms in \<open>auto simp: nth_append\<close>)

lemma append_match_zeros:
  assumes "0 < off" "off \<le> length out" and z: "\<And>i. length out - off \<le> i \<Longrightarrow> i < length out \<Longrightarrow> out ! i = 0"
  shows "append_match out off n = out @ replicate n 0"
proof (rule append_match_unique[symmetric])
  fix i assume "length out \<le> i" "i < length out + n"
  then show "(out @ replicate n 0) ! i = (out @ replicate n 0) ! (i - off)"
    using z[of "i - off"] assms(1,2) by (auto simp: nth_append)
qed (use assms in auto)

lemma periodic_mult:
  assumes "\<And>i. a + off \<le> i \<Longrightarrow> i < b \<Longrightarrow> m ! i = m ! (i - off)" and "a \<le> i"
  shows "i + k * off < b \<Longrightarrow> m ! (i + k * off) = (m ! i :: 'a)"
proof (induction k)
  case (Suc k)
  have "m ! (i + Suc k * off) = m ! (i + Suc k * off - off)"
    using Suc.prems assms(2) by (intro assms(1)) auto
  then show ?case using Suc by simp
qed simp

lemma append_match_all_zero:
  assumes "0 < off" "off \<le> length out" "off \<le> n"
    and z: "\<And>i. length out + n - off \<le> i \<Longrightarrow> i < length out + n \<Longrightarrow> append_match out off n ! i = 0"
    and i: "length out \<le> i" "i < length out + n"
  shows "append_match out off n ! i = 0"
proof -
  let ?x = "append_match out off n" and ?e = "length out + n"
  define k where "k = (?e - 1 - i) div off"
  have "?e - 1 - i = k * off + (?e - 1 - i) mod off" and "(?e - 1 - i) mod off < off"
    using assms(1) by (simp_all add: k_def)
  then have w: "?e - off \<le> i + k * off" "i + k * off < ?e"
    using i by linarith+
  have "?x ! (i + k * off) = ?x ! i"
  proof (rule periodic_mult[where a = "length out - off" and b = ?e])
    fix j assume "length out - off + off \<le> j" "j < ?e"
    then show "?x ! j = ?x ! (j - off)" using append_match_nth assms(1,2) by simp
  qed (use w i in auto)
  then show ?thesis using z w by simp
qed

section \<open>Fills, scans and copies\<close>

lemma zero_chunks_ok:
  "p + k + 64 * c \<le> length m \<Longrightarrow> \<exists>m'. zero_chunks m p k c = Inr m' \<and> length m' = length m
    \<and> (\<forall>i. m' ! i = (if p + k \<le> i \<and> i < p + k + 64 * c then 0 else m ! i))"
proof (induction c arbitrary: m k)
  case (Suc c)
  let ?m = "blit m (p + k) (replicate 64 0)"
  have 1: "memset0 m (p + k) 64 = Inr ?m" using Suc.prems by (intro memset0_ok) simp
  have l: "length ?m = length m" using Suc.prems by (simp add: length_blit)
  obtain m' where m': "zero_chunks ?m p (k + 64) c = Inr m'" "length m' = length m"
    "\<forall>i. m' ! i = (if p + k + 64 \<le> i \<and> i < p + k + 64 + 64 * c then 0 else ?m ! i)"
    using Suc.IH[of "k + 64" ?m] Suc.prems l by (auto simp: add.assoc)
  have "m' ! i = (if p + k \<le> i \<and> i < p + k + 64 * Suc c then 0 else m ! i)" for i
    using m'(3) Suc.prems by (auto simp: nth_blit)
  then show ?case using 1 m'(1,2) by auto
qed auto

lemma zero_fill_ok:
  assumes "p + n \<le> limit" "limit \<le> length m"
  shows "\<exists>m'. bslz4_zero_fill m p n limit = Inr m' \<and> length m' = length m
    \<and> (\<forall>i < p + n. m' ! i = (if p \<le> i then 0 else m ! i))"
proof -
  define n64 where "n64 = (n + 63) div 64 * 64"
  have n64: "n \<le> n64" "64 * (n64 div 64) = n64" by (auto simp: n64_def)
  show ?thesis
  proof (cases "n \<le> 512 \<and> limit - p \<ge> n64")
    case True
    then have "p + 0 + 64 * (n64 div 64) \<le> length m" using assms n64 by linarith
    from zero_chunks_ok[OF this] True n64 show ?thesis
      by (auto simp: bslz4_zero_fill_def n64_def)
  next
    case False
    then show ?thesis using assms
      by (auto simp: bslz4_zero_fill_def n64_def res_simps buf_simps)
  qed
qed

lemma last_nz_ok:
  "lo \<le> q \<Longrightarrow> q \<le> length xs \<Longrightarrow> \<exists>r. last_nz xs lo q = Inr r \<and> lo \<le> r \<and> r \<le> q
    \<and> (\<forall>i. r \<le> i \<and> i < q \<longrightarrow> xs ! i = 0)"
proof (induction q)
  case (Suc q)
  show ?case
  proof (cases "lo < Suc q \<and> xs ! q = 0")
    case True
    with Suc obtain r where "last_nz xs lo q = Inr r" "lo \<le> r" "r \<le> q" "\<forall>i. r \<le> i \<and> i < q \<longrightarrow> xs ! i = 0"
      by auto
    then show ?thesis using True Suc.prems by (auto simp: load_def less_Suc_eq)
  next
    case False
    then show ?thesis using Suc.prems by (auto simp: load_def)
  qed
qed simp

lemma copy_overlap_step:
  assumes "0 < off" "off dvd op - src" "src + off \<le> op" "n \<le> op - src" "op + n \<le> length m"
    and per: "\<And>i. src + off \<le> i \<Longrightarrow> i < op \<Longrightarrow> m ! i = m ! (i - off)"
    and i: "src + off \<le> i" "i < op + n"
  shows "blit m op (take n (drop src m)) ! i = (blit m op (take n (drop src m)) ! (i - off) :: byte)"
proof -
  have len: "length (take n (drop src m)) = n" using assms(3-5) by simp
  note nb = nth_blit[of op "take n (drop src m)" m, unfolded len, OF assms(5)]
  consider "i < op" | "op \<le> i" "off \<le> i - op" | "op \<le> i" "i - op < off" by linarith
  then show ?thesis
  proof cases
    case 1
    then show ?thesis using per[OF i(1)] by (auto simp: nb)
  next
    case 2
    then have "m ! (src + (i - op)) = m ! (src + (i - op) - off)"
      using i(2) assms(4) by (intro per) auto
    moreover have "src + (i - op) - off = src + (i - off - op)" using 2 by simp
    ultimately show ?thesis using 2 i(2) assms(1,4,5) by (auto simp: nb)
  next
    case 3
    obtain k where "op - src = off * k" using assms(2) by (elim dvdE)
    moreover then have "k \<noteq> 0" using assms(1,3) by (intro notI) simp
    ultimately have k: "op - src = (k - 1) * off + off"
      by (cases k) (auto simp: mult.commute)
    have "m ! (src + (i - op) + (k - 1) * off) = m ! (src + (i - op))"
      by (rule periodic_mult[where a = src and b = op, OF per]) (use 3 k assms(3) in auto)
    moreover have "src + (i - op) + (k - 1) * off = i - off" using k 3 assms(3) by linarith
    ultimately have "m ! (i - off) = m ! (src + (i - op))" by simp
    then show ?thesis using 3 i(2) assms(1,3,4,5) by (auto simp: nb)
  qed
qed

lemma copy_overlap_ok:
  assumes "0 < off"
  shows "src + off \<le> op \<Longrightarrow> op \<le> endp \<Longrightarrow> endp \<le> length m \<Longrightarrow> off dvd op - src \<or> op = endp
    \<Longrightarrow> (\<And>i. src + off \<le> i \<Longrightarrow> i < op \<Longrightarrow> m ! i = m ! (i - off))
    \<Longrightarrow> \<exists>m'. bslz4_copy_overlap m op src endp = Inr m' \<and> length m' = length m
     \<and> take op m' = take op m \<and> (\<forall>i. src + off \<le> i \<and> i < endp \<longrightarrow> m' ! i = m' ! (i - off))"
proof (induction m op src endp rule: bslz4_copy_overlap.induct)
  case (1 m op src endp)
  show ?case
  proof (cases "op < endp")
    case False
    then have "op = endp" using "1.prems" by simp
    then show ?thesis using "1.prems" by (subst bslz4_copy_overlap.simps) auto
  next
    case True
    define n where "n = (if op - src > endp - op then endp - op else op - src)"
    define m1 where "m1 = blit m op (take n (drop src m))"
    have n: "n \<noteq> 0" "n \<le> op - src" "op + n \<le> endp" using True "1.prems"(1) assms by (auto simp: n_def)
    have dv: "off dvd op - src" using "1.prems"(4) True by simp
    have cp: "memcpy_in m op src n = Inr m1"
      unfolding m1_def using n "1.prems"(1,3) by (intro memcpy_in_ok) auto
    have l: "length m1 = length m" "take op m1 = take op m"
      using n "1.prems"(1,3) by (auto simp: m1_def blit_def min_def)
    have "\<exists>m'. bslz4_copy_overlap m1 (op + n) src endp = Inr m' \<and> length m' = length m1
      \<and> take (op + n) m' = take (op + n) m1 \<and> (\<forall>i. src + off \<le> i \<and> i < endp \<longrightarrow> m' ! i = m' ! (i - off))"
    proof (rule "1.IH"[OF True refl])
      show "\<not> n = 0" by (rule n(1))
      show "src + off \<le> op + n" "op + n \<le> endp" "endp \<le> length m1" using "1.prems"(1,3) n l by auto
      show "off dvd op + n - src \<or> op + n = endp"
      proof (cases "op - src > endp - op")
        case True
        then show ?thesis using \<open>op < endp\<close> by (simp add: n_def)
      next
        case False
        then have "op + n - src = (op - src) + (op - src)" using "1.prems"(1) by (simp add: n_def)
        then show ?thesis using dv by (metis dvd_add)
      qed
      show "m1 ! i = m1 ! (i - off)" if "src + off \<le> i" "i < op + n" for i
        unfolding m1_def
        by (rule copy_overlap_step) (use assms dv n "1.prems" that in auto)
    qed (use cp in \<open>simp_all add: n_def\<close>)
    then obtain m' where m': "bslz4_copy_overlap m1 (op + n) src endp = Inr m'" "length m' = length m1"
      "take (op + n) m' = take (op + n) m1" "\<forall>i. src + off \<le> i \<and> i < endp \<longrightarrow> m' ! i = m' ! (i - off)"
      by blast
    have "take op m' = take op m"
      using m'(3) l(2) by (metis min.absorb1 le_add1 take_take)
    then show ?thesis
      using m' l cp n(1) True by (subst bslz4_copy_overlap.simps) (simp add: Let_def flip: n_def)
  qed
qed

end
