(* ===== verification/Lz4Refine.thy ===== *)
theory Lz4Refine
  imports Lz4Spec
begin

text \<open>
  The decoder of \<open>Lz4zero\<close> refines the reader of \<open>Lz4Spec\<close>: the three shapes of the match copy, the
  pending zero run and the unwritten tail change what is stored, never what the block decodes to.
\<close>

section \<open>Highest set bits\<close>

lemma takeWhile_rev_upt:
  assumes "h < n" "P h" "\<And>i. h < i \<Longrightarrow> i < n \<Longrightarrow> \<not> P i"
  shows "length (takeWhile (\<lambda>i. \<not> P i) (rev [0..<n])) = n - Suc h"
proof -
  have "rev [0..<n] = rev [Suc h..<n] @ h # rev [0..<h]"
    using assms(1) upt_add_eq_append[of 0 "Suc h" "n - Suc h"] by simp
  moreover have "takeWhile (\<lambda>i. \<not> P i) (rev [Suc h..<n] @ h # rev [0..<h]) = rev [Suc h..<n]"
    using assms(2,3) by (subst takeWhile_append2) auto
  ultimately show ?thesis by simp
qed

lemma highest_bit:
  assumes "(x :: 'a::len word) \<noteq> 0"
  obtains h where "h < LENGTH('a)" "bit x h" "\<And>i. h < i \<Longrightarrow> \<not> bit x i"
proof -
  let ?S = "{i. bit x i}"
  have ne: "?S \<noteq> {}" using assms by (auto simp: bit_eq_iff)
  have fin: "finite ?S" by simp
  show thesis
  proof (rule that[of "Max ?S"])
    show "bit x (Max ?S)" using Max_in[OF fin ne] by simp
    then show "Max ?S < LENGTH('a)" by (rule bit_imp_le_length)
    show "\<not> bit x i" if "Max ?S < i" for i
    proof
      assume "bit x i"
      then have "i \<le> Max ?S" using fin by (intro Max_ge) auto
      then show False using that by simp
    qed
  qed
qed

lemma clz64_high:
  assumes "x \<noteq> 0" shows "\<exists>h < 64. bit x h \<and> (\<forall>i > h. \<not> bit x i) \<and> 64 - bslz4_lz_clz64 x = Suc h"
proof -
  obtain h where h: "h < 64" "bit x h" "\<And>i. h < i \<Longrightarrow> \<not> bit x i"
    using highest_bit[OF assms] by auto
  have "bslz4_lz_clz64 x = 64 - Suc h"
    unfolding bslz4_lz_clz64_def by (rule takeWhile_rev_upt) (use h in auto)
  then show ?thesis using h by (intro exI[of _ h]) auto
qed

lemma clz32_high:
  assumes "x \<noteq> 0" shows "\<exists>h < 32. bit x h \<and> (\<forall>i > h. \<not> bit x i) \<and> 32 - bslz4_lz_clz32 x = Suc h"
proof -
  obtain h where h: "h < 32" "bit x h" "\<And>i. h < i \<Longrightarrow> \<not> bit x i"
    using highest_bit[OF assms] by auto
  have "bslz4_lz_clz32 x = 32 - Suc h"
    unfolding bslz4_lz_clz32_def by (rule takeWhile_rev_upt) (use h in auto)
  then show ?thesis using h by (intro exI[of _ h]) auto
qed

lemma bit_nz_mask:
  "bit (nz_mask v :: 'a::len word) k \<longleftrightarrow> k < LENGTH('a) \<and> k < length v \<and> v ! k \<noteq> 0"
  by (auto simp: nz_mask_def)

lemma bit_low_ones: "bit (push_bit n 1 - 1 :: 'a::len word) k \<longleftrightarrow> k < LENGTH('a) \<and> k < n"
proof -
  have "push_bit n 1 - 1 = (mask n :: 'a word)" by (simp add: mask_eq_decr_exp push_bit_eq_mult)
  then show ?thesis by (simp add: bit_mask_iff)
qed

lemma bit_low_ones': "bit (2 ^ n - 1 :: 'a::len word) k \<longleftrightarrow> k < LENGTH('a) \<and> k < n"
  using bit_low_ones[of n k] by simp

section \<open>The copies of a match\<close>

text \<open>What every shape of the copy achieves, \<open>out\<close> being the output so far.\<close>

definition match_post :: "byte list \<Rightarrow> byte list \<Rightarrow> nat \<Rightarrow> nat \<Rightarrow> (byte list \<times> nat) res \<Rightarrow> bool" where
  "match_post m out off mlen r \<longleftrightarrow>
     (\<exists>m' q. r = Inr (m', q) \<and> length m' = length m
       \<and> take (length out + mlen) m' = append_match out off mlen
       \<and> length out \<le> q \<and> q \<le> length out + mlen
       \<and> (\<forall>i. q \<le> i \<and> i < length out + mlen \<longrightarrow> m' ! i = 0))"

lemma take_append_match_disjoint:
  assumes "take op m = out" "length out = op" "op + mlen \<le> length m" "length m' = length m"
    and "mlen \<le> off" "0 < off" "off \<le> op"
    and old: "\<And>i. i < op \<Longrightarrow> m' ! i = m ! i"
    and new: "\<And>i. i < mlen \<Longrightarrow> m' ! (op + i) = m ! (op - off + i)"
  shows "take (op + mlen) m' = append_match out off mlen"
proof -
  have o: "out ! i = m ! i" if "i < op" for i using assms(1) that by auto
  have "take (op + mlen) m' = out @ take mlen (drop (op - off) out)"
  proof (rule nth_equalityI)
    show "length (take (op + mlen) m') = length (out @ take mlen (drop (op - off) out))"
      using assms by simp
    fix i assume "i < length (take (op + mlen) m')"
    then show "take (op + mlen) m' ! i = (out @ take mlen (drop (op - off) out)) ! i"
      using assms(2,5-7) old[of i] new[of "i - op"] o[of i] o[of "op - off + (i - op)"]
      by (auto simp: nth_append)
  qed
  then show ?thesis using append_match_disjoint[of mlen off out] assms by simp
qed

lemma copy16_short_ok:
  assumes "match + mlen \<le> op"
  shows "16 * c0 + 16 * k < mlen + 16 \<Longrightarrow> op + 16 * c0 + 16 * k \<le> length m \<Longrightarrow> 16 * c0 + 16 * k \<le> 64
    \<Longrightarrow> \<exists>m' nz'. copy16_short m op match (16 * c0) k nz = Inr (m', nz') \<and> length m' = length m
      \<and> (\<forall>i < op + 16 * c0. m' ! i = m ! i)
      \<and> (\<forall>i. 16 * c0 \<le> i \<and> i < 16 * c0 + 16 * k \<and> i < mlen \<longrightarrow>
            m' ! (op + i) = m ! (match + i) \<and> bit nz' i = (bit nz i \<or> m ! (match + i) \<noteq> 0))
      \<and> (\<forall>i < 16 * c0. bit nz' i = bit nz i)"
proof (induction k arbitrary: m c0 nz)
  case (Suc k)
  define v where "v = take 16 (drop (match + 16 * c0) m)"
  define m1 where "m1 = blit m (op + 16 * c0) v"
  define nz1 where "nz1 = nz OR push_bit (16 * c0) (nz_mask v)"
  have "match + 16 * c0 + 16 \<le> length m" using Suc.prems assms by simp
  then have lv: "length v = 16" and ld: "load_n m (match + 16 * c0) 16 = Inr v"
    by (simp_all add: v_def load_n_ok)
  have st: "store_n m (op + 16 * c0) v = Inr m1" and l1: "length m1 = length m"
    using Suc.prems lv by (simp_all add: m1_def store_n_ok length_blit)
  have nth1: "m1 ! i = (if op + 16 * c0 \<le> i \<and> i < op + 16 * c0 + 16 then v ! (i - (op + 16 * c0)) else m ! i)" for i
    using nth_blit[of "op + 16 * c0" v m i] Suc.prems lv by (simp add: m1_def)
  have b1: "bit nz1 i = (bit nz i \<or> (16 * c0 \<le> i \<and> i < 16 * c0 + 16 \<and> v ! (i - 16 * c0) \<noteq> 0))"
    if "i < 64" for i using that lv by (auto simp: nz1_def bit_simps bit_nz_mask)
  have "\<exists>m' nz'. copy16_short m1 op match (16 * Suc c0) k nz1 = Inr (m', nz') \<and> length m' = length m1
      \<and> (\<forall>i < op + 16 * Suc c0. m' ! i = m1 ! i)
      \<and> (\<forall>i. 16 * Suc c0 \<le> i \<and> i < 16 * Suc c0 + 16 * k \<and> i < mlen \<longrightarrow>
            m' ! (op + i) = m1 ! (match + i) \<and> bit nz' i = (bit nz1 i \<or> m1 ! (match + i) \<noteq> 0))
      \<and> (\<forall>i < 16 * Suc c0. bit nz' i = bit nz1 i)"
    using Suc.prems l1 by (intro Suc.IH) auto
  then obtain m' nz' where r: "copy16_short m1 op match (16 * Suc c0) k nz1 = Inr (m', nz')" "length m' = length m1"
    and old: "\<And>i. i < op + 16 * Suc c0 \<Longrightarrow> m' ! i = m1 ! i"
    and new: "\<And>i. 16 * Suc c0 \<le> i \<Longrightarrow> i < 16 * Suc c0 + 16 * k \<Longrightarrow> i < mlen \<Longrightarrow>
            m' ! (op + i) = m1 ! (match + i) \<and> bit nz' i = (bit nz1 i \<or> m1 ! (match + i) \<noteq> 0)"
    and lowb: "\<And>i. i < 16 * Suc c0 \<Longrightarrow> bit nz' i = bit nz1 i"
    by blast
  have vn: "v ! j = m ! (match + 16 * c0 + j)" if "j < 16" for j using that lv by (simp add: v_def)
  have src1: "m1 ! (match + i) = m ! (match + i)" if "i < mlen" for i using that assms by (simp add: nth1)
  have 1: "m' ! (op + i) = m ! (match + i) \<and> bit nz' i = (bit nz i \<or> m ! (match + i) \<noteq> 0)"
    if i: "16 * c0 \<le> i" "i < 16 * c0 + 16 * Suc k" "i < mlen" for i
  proof (cases "i < 16 * Suc c0")
    case True
    then show ?thesis
      using i old[of "op + i"] lowb[of i] nth1[of "op + i"] b1[of i] vn[of "i - 16 * c0"] Suc.prems(3) by auto
  next
    case False
    then show ?thesis using i new[of i] src1[of i] b1[of i] Suc.prems(3) by auto
  qed
  have 2: "bit nz' i = bit nz i" if "i < 16 * c0" for i
    using that lowb[of i] b1[of i] Suc.prems(3) by auto
  have 3: "m' ! i = m ! i" if "i < op + 16 * c0" for i using that old[of i] nth1[of i] by auto
  have "copy16_short m op match (16 * c0) (Suc k) nz = Inr (m', nz')"
    using ld st r(1) by (simp add: nz1_def add.commute)
  then show ?case using r(2) l1 1 2 3 by auto
qed auto

lemma copy_match_sse2_short_post:
  assumes "take op m = out" "length out = op" "mlen \<le> off" "0 < off" "off \<le> op" "mlen \<le> 64" "op + 64 \<le> length m"
  shows "match_post m out off mlen (copy_match_sse2_short m op (op - off) mlen)"
proof -
  define k where "k = (mlen + 15) div 16"
  define s where "s = op - off"
  have s: "s + mlen \<le> op" using assms(3,5) by (simp add: s_def)
  have k: "16 * k < mlen + 16" "mlen \<le> 16 * k" "16 * k \<le> 64" using assms(6) by (auto simp: k_def)
  obtain m' nz where r: "copy16_short m op s 0 k 0 = Inr (m', nz)" "length m' = length m"
    and old: "\<And>i. i < op \<Longrightarrow> m' ! i = m ! i"
    and new: "\<And>i. i < mlen \<Longrightarrow> m' ! (op + i) = m ! (s + i) \<and> bit nz i = (m ! (s + i) \<noteq> 0)"
    using copy16_short_ok[OF s, of 0 k m 0] assms(7) k by auto
  define nz' where "nz' = (if mlen < 64 then nz AND (push_bit mlen 1 - 1) else nz)"
  have bnz: "bit nz' i = (i < mlen \<and> m' ! (op + i) \<noteq> 0)" for i
    using new[of i] assms(6) bit_imp_le_length[of nz i] by (auto simp: nz'_def bit_simps bit_low_ones')
  define q where "q = (if nz' \<noteq> 0 then op + (64 - bslz4_lz_clz64 nz') else op)"
  have q: "op \<le> q \<and> q \<le> op + mlen \<and> (\<forall>i. q \<le> i \<and> i < op + mlen \<longrightarrow> m' ! i = 0)"
  proof (cases "nz' = 0")
    case True
    then have "m' ! (op + i) = 0" if "i < mlen" for i using that bnz[of i] by simp
    then have "m' ! i = 0" if "op \<le> i" "i < op + mlen" for i
      using that by (metis le_add_diff_inverse nat_add_left_cancel_less)
    then show ?thesis using True by (simp add: q_def)
  next
    case False
    then obtain h where h: "bit nz' h" "\<forall>i > h. \<not> bit nz' i" "64 - bslz4_lz_clz64 nz' = Suc h"
      using clz64_high by blast
    have "m' ! i = 0" if "q \<le> i" "i < op + mlen" for i
      using that h(2) bnz[of "i - op"] False h(3) by (auto simp: q_def dest!: spec[of _ "i - op"])
    then show ?thesis using False h(1,3) bnz[of h] by (simp add: q_def)
  qed
  have "take (op + mlen) m' = append_match out off mlen"
    by (rule take_append_match_disjoint[of op m]) (use assms r(2) old new in \<open>auto simp: s_def\<close>)
  moreover have "copy_match_sse2_short m op s mlen = Inr (m', q)"
    using r(1) by (simp add: copy_match_sse2_short_def q_def nz'_def flip: k_def)
  ultimately show ?thesis
    using r(2) q assms(2) by (simp add: match_post_def flip: s_def)
qed

text \<open>What the long copy knows of its last non-zero chunk after the chunks before \<open>n\<close>.\<close>

definition last_chunk :: "byte list \<Rightarrow> nat \<Rightarrow> nat \<Rightarrow> nat \<Rightarrow> nat \<Rightarrow> 32 word \<Rightarrow> bool" where
  "last_chunk m s mlen n lastc lastm \<longleftrightarrow>
     (lastm = 0 \<longrightarrow> (\<forall>i. i < n \<and> i < mlen \<longrightarrow> m ! (s + i) = 0))
     \<and> (lastm \<noteq> 0 \<longrightarrow> (\<forall>j. bit lastm j \<longrightarrow> lastc + j < mlen)
          \<and> (\<forall>i. lastc \<le> i \<and> i < n \<and> i < mlen \<and> m ! (s + i) \<noteq> 0 \<longrightarrow> bit lastm (i - lastc)))"

lemma last_chunk_zero:
  "last_chunk m s mlen n lastc lastm \<Longrightarrow> lastm = 0 \<Longrightarrow> i < n \<Longrightarrow> i < mlen \<Longrightarrow> m ! (s + i) = 0"
  by (simp add: last_chunk_def)

lemma last_chunk_cong:
  "(\<And>i. i < mlen \<Longrightarrow> m1 ! (s + i) = m ! (s + i)) \<Longrightarrow> last_chunk m1 s mlen n lastc lastm = last_chunk m s mlen n lastc lastm"
  unfolding last_chunk_def by (metis (no_types, opaque_lifting))

lemma last_chunk_bound: "last_chunk m s mlen n lastc lastm \<Longrightarrow> bit lastm j \<Longrightarrow> lastc + j < mlen"
  by (auto simp: last_chunk_def)

lemma last_chunk_bit:
  "last_chunk m s mlen n lastc lastm \<Longrightarrow> lastm \<noteq> 0 \<Longrightarrow> lastc \<le> i \<Longrightarrow> i < n \<Longrightarrow> i < mlen \<Longrightarrow> m ! (s + i) \<noteq> 0
    \<Longrightarrow> bit lastm (i - lastc)"
  by (simp add: last_chunk_def)

lemma copy16_long_ok:
  assumes "match + mlen \<le> op"
  shows "16 * c0 + 16 * k < mlen + 16 \<Longrightarrow> op + 16 * c0 + 16 * k \<le> length m
    \<Longrightarrow> last_chunk m match mlen (16 * c0) lastc lastm
    \<Longrightarrow> \<exists>m' lc lm. copy16_long m op match mlen (16 * c0) k lastc lastm = Inr (m', lc, lm) \<and> length m' = length m
      \<and> (\<forall>i < op + 16 * c0. m' ! i = m ! i)
      \<and> (\<forall>i. 16 * c0 \<le> i \<and> i < 16 * c0 + 16 * k \<and> i < mlen \<longrightarrow> m' ! (op + i) = m ! (match + i))
      \<and> last_chunk m match mlen (16 * c0 + 16 * k) lc lm"
proof (induction k arbitrary: m c0 lastc lastm)
  case (Suc k)
  let ?c = "16 * c0"
  define v where "v = take 16 (drop (match + ?c) m)"
  define m1 where "m1 = blit m (op + ?c) v"
  define b where "b = (let b = nz_mask v :: 32 word in if mlen - ?c < 16 then b AND (push_bit (mlen - ?c) 1 - 1) else b)"
  have "match + ?c + 16 \<le> length m" using Suc.prems assms by simp
  then have lv: "length v = 16" and ld: "load_n m (match + ?c) 16 = Inr v" by (simp_all add: v_def load_n_ok)
  have st: "store_n m (op + ?c) v = Inr m1" and l1: "length m1 = length m"
    using Suc.prems lv by (simp_all add: m1_def store_n_ok length_blit)
  have nth1: "m1 ! i = (if op + ?c \<le> i \<and> i < op + ?c + 16 then v ! (i - (op + ?c)) else m ! i)" for i
    using nth_blit[of "op + ?c" v m i] Suc.prems lv by (simp add: m1_def)
  have vn: "v ! j = m ! (match + ?c + j)" if "j < 16" for j using that lv by (simp add: v_def)
  have bb: "bit b j = (j < 16 \<and> ?c + j < mlen \<and> m ! (match + (?c + j)) \<noteq> 0)" for j
    using lv vn[of j] Suc.prems(1) by (auto simp: b_def bit_simps bit_nz_mask bit_low_ones' Let_def add.assoc)
  have src1: "m1 ! (match + i) = m ! (match + i)" if "i < mlen" for i using that assms by (simp add: nth1)
  let ?lc = "if b \<noteq> 0 then ?c else lastc" and ?lm = "if b \<noteq> 0 then b else lastm"
  have "last_chunk m match mlen (?c + 16) ?lc ?lm"
  proof (cases "b = 0")
    case True
    then have z: "i < ?c" if "i < ?c + 16" "i < mlen" "m ! (match + i) \<noteq> 0" for i
      using that bb[of "i - ?c"] by (cases "i < ?c") auto
    have "m ! (match + i) = 0" if "lastm = 0" "i < ?c + 16" "i < mlen" for i
      using last_chunk_zero[OF Suc.prems(3) that(1)] z that by blast
    moreover have "bit lastm (i - lastc)" if "lastm \<noteq> 0" "lastc \<le> i" "i < ?c + 16" "i < mlen" "m ! (match + i) \<noteq> 0" for i
      using last_chunk_bit[OF Suc.prems(3)] z that by blast
    moreover note last_chunk_bound[OF Suc.prems(3)]
    ultimately show ?thesis using True by (simp add: last_chunk_def)
  next
    case False
    have "?c + j < mlen" if "bit b j" for j using that bb by simp
    moreover have "bit b (i - ?c)" if "?c \<le> i" "i < ?c + 16" "i < mlen" "m ! (match + i) \<noteq> 0" for i
      using that bb[of "i - ?c"] by simp
    ultimately show ?thesis using False by (simp add: last_chunk_def)
  qed
  then have lc1: "last_chunk m1 match mlen (16 * Suc c0) ?lc ?lm"
    using last_chunk_cong[of mlen m1 match m, OF src1] by (simp add: add.commute)
  obtain m' lc lm where r: "copy16_long m1 op match mlen (16 * Suc c0) k ?lc ?lm = Inr (m', lc, lm)" "length m' = length m1"
    and old: "\<And>i. i < op + 16 * Suc c0 \<Longrightarrow> m' ! i = m1 ! i"
    and new: "\<And>i. 16 * Suc c0 \<le> i \<Longrightarrow> i < 16 * Suc c0 + 16 * k \<Longrightarrow> i < mlen \<Longrightarrow> m' ! (op + i) = m1 ! (match + i)"
    and lc2: "last_chunk m1 match mlen (16 * Suc c0 + 16 * k) lc lm"
    using Suc.IH[of "Suc c0" m1 ?lc ?lm] Suc.prems l1 lc1 by auto
  have 1: "m' ! (op + i) = m ! (match + i)" if i: "?c \<le> i" "i < ?c + 16 * Suc k" "i < mlen" for i
  proof (cases "i < 16 * Suc c0")
    case True
    then show ?thesis using i old[of "op + i"] nth1[of "op + i"] vn[of "i - ?c"] by auto
  next
    case False
    then show ?thesis using i new[of i] src1[of i] by auto
  qed
  have 2: "m' ! i = m ! i" if "i < op + ?c" for i using that old[of i] nth1[of i] by auto
  have 3: "last_chunk m match mlen (?c + 16 * Suc k) lc lm"
    using lc2 last_chunk_cong[of mlen m1 match m, OF src1] by (simp add: ac_simps)
  have "copy16_long m op match mlen ?c (Suc k) lastc lastm = Inr (m', lc, lm)"
  proof -
    have "16 * Suc c0 = ?c + 16" by simp
    then show ?thesis using r(1) by (simp only: copy16_long.simps ld st rbind.simps Let_def b_def)
  qed
  then show ?case using r(2) l1 1 2 3 by auto
qed auto

lemma copy_match_sse2_long_post:
  assumes "take op m = out" "length out = op" "mlen \<le> off" "0 < off" "off \<le> op" "op + mlen + 16 \<le> length m"
  shows "match_post m out off mlen (copy_match_sse2_long m op (op - off) mlen)"
proof -
  define k where "k = (mlen + 15) div 16"
  define s where "s = op - off"
  have s: "s + mlen \<le> op" using assms(3,5) by (simp add: s_def)
  have k: "16 * k < mlen + 16" "mlen \<le> 16 * k" by (auto simp: k_def)
  have "last_chunk m s mlen 0 0 0" by (simp add: last_chunk_def)
  then obtain m' lc lm where r: "copy16_long m op s mlen 0 k 0 0 = Inr (m', lc, lm)" "length m' = length m"
    and old: "\<And>i. i < op \<Longrightarrow> m' ! i = m ! i"
    and new: "\<And>i. i < mlen \<Longrightarrow> m' ! (op + i) = m ! (s + i)"
    and lc: "last_chunk m s mlen (16 * k) lc lm"
    using copy16_long_ok[OF s, of 0 k m 0 0] assms(6) k by auto
  define q where "q = (if lm \<noteq> 0 then op + lc + (32 - bslz4_lz_clz32 lm) else op)"
  have q: "op \<le> q \<and> q \<le> op + mlen \<and> (\<forall>i. q \<le> i \<and> i < op + mlen \<longrightarrow> m' ! i = 0)"
  proof (cases "lm = 0")
    case True
    then have "m' ! (op + i) = 0" if "i < mlen" for i using that lc new[of i] k by (auto simp: last_chunk_def)
    then have "m' ! i = 0" if "op \<le> i" "i < op + mlen" for i
      using that by (metis le_add_diff_inverse nat_add_left_cancel_less)
    then show ?thesis using True by (simp add: q_def)
  next
    case False
    then obtain h where h: "bit lm h" "\<forall>i > h. \<not> bit lm i" "32 - bslz4_lz_clz32 lm = Suc h"
      using clz32_high by blast
    have z: "m' ! i = 0" if i: "q \<le> i" "i < op + mlen" for i
    proof (rule ccontr)
      assume nz: "m' ! i \<noteq> 0"
      define j where "j = i - op"
      have j: "i = op + j" "j < mlen" "lc + h < j" using i False h(3) by (auto simp: j_def q_def)
      then have "bit lm (j - lc)"
        using lc new[of j] nz False k by (auto simp: last_chunk_def)
      moreover have "h < j - lc" using j(3) by simp
      ultimately show False using h(2) by blast
    qed
    have "lc + h < mlen" using lc False h(1) by (auto simp: last_chunk_def)
    then show ?thesis using False h(3) z by (simp add: q_def)
  qed
  have "take (op + mlen) m' = append_match out off mlen"
    by (rule take_append_match_disjoint[of op m]) (use assms r(2) old new in \<open>auto simp: s_def\<close>)
  moreover have "copy_match_sse2_long m op s mlen = Inr (m', q)"
    using r(1) by (simp add: copy_match_sse2_long_def q_def flip: k_def)
  ultimately show ?thesis
    using r(2) q assms(2) by (simp add: match_post_def flip: s_def)
qed

lemma copy_match_plain_post:
  assumes "take op m = out" "length out = op" "mlen \<le> off" "0 < off" "off \<le> op" "op + mlen \<le> olim" "olim \<le> length m"
  shows "match_post m out off mlen (copy_match_plain m olim op (op - off) mlen)"
proof -
  define s where "s = op - off"
  have s: "s + mlen \<le> op" "s + 64 \<le> op + 64" using assms(3,5) by (auto simp: s_def)
  define n where "n = (if mlen \<le> 64 \<and> olim - op \<ge> 64 then 64 else mlen)"
  define m' where "m' = blit m op (take n (drop s m))"
  have n: "mlen \<le> n" "op + n \<le> length m" "s + n \<le> length m" using assms(6,7) s by (auto simp: n_def)
  have l: "length (take n (drop s m)) = n" using n(3) by simp
  note nb = nth_blit[of op "take n (drop s m)" m, unfolded l, OF n(2)]
  have cp: "(if mlen \<le> 64 \<and> olim - op \<ge> 64 then rbind (load_n m s 64) (\<lambda>t. store_n m op t)
       else memcpy_in m op s mlen) = Inr m'"
    using n s l by (auto simp: m'_def n_def load_n_ok store_n_ok memcpy_in_ok split: if_splits)
  have lm: "length m' = length m" using n by (simp add: m'_def length_blit)
  have old: "m' ! i = m ! i" if "i < op" for i using that by (simp add: m'_def nb)
  have new: "m' ! (op + i) = m ! (s + i)" if "i < mlen" for i
    using that n by (simp add: m'_def nb)
  have "op \<le> op + mlen" "op + mlen \<le> length m'" using assms(6,7) lm by auto
  from last_nz_ok[OF this] obtain q where q: "last_nz m' op (op + mlen) = Inr q" "op \<le> q" "q \<le> op + mlen"
    "\<forall>i. q \<le> i \<and> i < op + mlen \<longrightarrow> m' ! i = 0" by blast
  have "take (op + mlen) m' = append_match out off mlen"
    by (rule take_append_match_disjoint[of op m]) (use assms lm old new in \<open>auto simp: s_def\<close>)
  moreover have "copy_match_plain m olim op s mlen = Inr (m', q)"
    using cp q(1) by (simp add: copy_match_plain_def)
  ultimately show ?thesis using lm q assms(2) by (simp add: match_post_def flip: s_def)
qed

lemma copy_match_overlap_post:
  assumes "take op m = out" "length out = op" "off < mlen" "0 < off" "off \<le> op" "op + mlen \<le> length m"
  shows "match_post m out off mlen (copy_match_overlap m op (op - off) off mlen)"
proof -
  obtain m' where r: "bslz4_copy_overlap m op (op - off) (op + mlen) = Inr m'" "length m' = length m"
    "take op m' = take op m" and per: "\<And>i. op \<le> i \<Longrightarrow> i < op + mlen \<Longrightarrow> m' ! i = m' ! (i - off)"
    using copy_overlap_ok[OF assms(4), of "op - off" op "op + mlen" m] assms(4-6) by auto
  have ap: "take (op + mlen) m' = append_match out off mlen"
    by (rule append_match_unique) (use assms r per in \<open>auto simp: min_def\<close>)
  have eq: "m' ! i = append_match out off mlen ! i" if "i < op + mlen" for i
    using that ap by (metis nth_take)
  define stop where "stop = op + mlen - off"
  have "stop \<le> op + mlen" "op + mlen \<le> length m'" using r assms by (auto simp: stop_def)
  from last_nz_ok[OF this] obtain q where q: "last_nz m' stop (op + mlen) = Inr q" "stop \<le> q" "q \<le> op + mlen"
    "\<forall>i. q \<le> i \<and> i < op + mlen \<longrightarrow> m' ! i = 0" by blast
  have z: "m' ! i = 0" if "q = stop" "op \<le> i" "i < op + mlen" for i
  proof -
    have "append_match out off mlen ! i = 0"
      by (rule append_match_all_zero) (use assms q that eq in \<open>auto simp: stop_def\<close>)
    then show ?thesis using eq that by simp
  qed
  have "op \<le> stop" using assms(3) by (simp add: stop_def)
  then show ?thesis using r(1,2) ap q z assms(2)
    by (auto simp: match_post_def copy_match_overlap_def Let_def simp flip: stop_def)
qed

lemma lz_copy_match_post:
  assumes "take op m = out" "length out = op" "0 < off" "off \<le> op" "op + mlen \<le> olim" "olim = length m"
  shows "match_post m out off mlen (lz_copy_match sse2 m olim op off mlen)"
  using assms unfolding lz_copy_match_def Let_def
  by (auto intro: copy_match_sse2_short_post copy_match_sse2_long_post copy_match_plain_post copy_match_overlap_post)

section \<open>The simulation\<close>

text \<open>
  \<open>out\<close> is the output the reader has appended so far. The buffer holds it up to \<open>written\<close>; the
  rest, and everything from \<open>zero_from\<close>, is zero. What lies behind \<open>written\<close> in the buffer is free.
\<close>

definition lz_rel :: "nat \<Rightarrow> nat \<Rightarrow> byte list \<Rightarrow> lz \<Rightarrow> bool" where
  "lz_rel cap slack out s \<longleftrightarrow>
     lz_op s = length out \<and> length out \<le> cap \<and> lz_written s \<le> length out
     \<and> length (lz_dst s) = cap + slack
     \<and> take (lz_written s) (lz_dst s) = take (lz_written s) out
     \<and> (\<forall>i. lz_written s \<le> i \<and> i < length out \<longrightarrow> out ! i = 0)
     \<and> (\<forall>i. lz_zero_from s \<le> i \<and> i < length out \<longrightarrow> out ! i = 0)"

lemma flush_zeros_ok:
  assumes "lz_rel cap slack out s"
  shows "\<exists>m. flush_zeros (cap + slack) s = Inr m \<and> length m = cap + slack \<and> take (length out) m = out"
proof (cases "lz_written s < lz_op s")
  case False
  then show ?thesis using assms by (auto simp: flush_zeros_def lz_rel_def)
next
  case True
  have a: "lz_written s + (lz_op s - lz_written s) \<le> cap + slack" "cap + slack \<le> length (lz_dst s)"
    using assms True by (auto simp: lz_rel_def)
  from zero_fill_ok[OF a] obtain m where m: "flush_zeros (cap + slack) s = Inr m" "length m = cap + slack"
    "\<forall>i < length out. m ! i = (if lz_written s \<le> i then 0 else lz_dst s ! i)"
    using True assms by (auto simp: flush_zeros_def lz_rel_def)
  have "take (length out) m = out"
  proof (rule nth_equalityI)
    show "length (take (length out) m) = length out" using m(2) assms by (auto simp: lz_rel_def)
    fix i assume "i < length (take (length out) m)"
    then show "take (length out) m ! i = out ! i"
      using m(3) assms take_eq_nthD[of "lz_written s" "lz_dst s" out i] by (auto simp: lz_rel_def)
  qed
  then show ?thesis using m by blast
qed


lemma lz_rel_zerosI:
  assumes "lz_rel cap slack out s" "length out + n \<le> cap"
    and "lz_op s' = lz_op s + n" "lz_written s' = lz_written s" "lz_zero_from s' = lz_zero_from s" "lz_dst s' = lz_dst s"
  shows "lz_rel cap slack (out @ replicate n 0) s'"
  using assms by (auto simp: lz_rel_def nth_append)

lemma lz_copy_literals_ok:
  assumes rel: "lz_rel cap slack out s" and b: "lz_ip s + lit \<le> length src" "length out + lit \<le> cap"
  shows "\<exists>s'. lz_copy_literals src cap slack lit s = Inr s' \<and> lz_ip s' = lz_ip s + lit
    \<and> lz_rel cap slack (out @ take lit (drop (lz_ip s) src)) s'"
proof (cases "lit = 0")
  case True
  then show ?thesis using rel by (simp add: lz_copy_literals_def)
next
  case False
  define ip where "ip = lz_ip s"
  define v where "v = take lit (drop ip src)"
  have v: "length v = lit" "\<And>i. i < lit \<Longrightarrow> v ! i = src ! (ip + i)" using b by (auto simp: v_def ip_def)
  have "ip \<le> ip + lit" "ip + lit \<le> length src" using b by (simp_all add: ip_def)
  from last_nz_ok[OF this] obtain q where q: "last_nz src ip (ip + lit) = Inr q" "ip \<le> q" "q \<le> ip + lit"
    "\<forall>i. q \<le> i \<and> i < ip + lit \<longrightarrow> src ! i = 0" by blast
  show ?thesis
  proof (cases "q = ip")
    case True
    have "v = replicate lit 0" by (rule replicate_eqI) (use v q True in auto)
    then have "lz_rel cap slack (out @ v) (s\<lparr>lz_ip := ip + lit, lz_op := lz_op s + lit\<rparr>)"
      using lz_rel_zerosI[OF rel b(2)] by simp
    then show ?thesis using q(1) True False
      by (simp add: lz_copy_literals_def Let_def v_def flip: ip_def)
  next
    case qne: False
    obtain m where m: "flush_zeros (cap + slack) s = Inr m" "length m = cap + slack" "take (length out) m = out"
      using flush_zeros_ok[OF rel] by blast
    have op: "lz_op s = length out" using rel by (simp add: lz_rel_def)
    define n where "n = (if lit \<le> 32 \<and> length src - ip \<ge> 32 \<and> cap + slack - lz_op s \<ge> 32 then 32 else lit)"
    define w where "w = take n (drop ip src)"
    have n: "lit \<le> n" "lz_op s + n \<le> length m" "ip + n \<le> length src"
      using b m(2) op False by (auto simp: n_def ip_def)
    have w: "length w = n" "take lit w = v" using n by (auto simp: w_def v_def min_def)
    define m' where "m' = blit m (lz_op s) w"
    have st: "(if lit \<le> 32 \<and> length src - ip \<ge> 32 \<and> cap + slack - lz_op s \<ge> 32
        then rbind (load_n src ip 32) (\<lambda>v. store_n m (lz_op s) v)
        else rbind (load_n src ip lit) (\<lambda>v. store_n m (lz_op s) v)) = Inr m'"
      using n w(1) by (auto simp: n_def w_def m'_def load_n_ok store_n_ok split: if_splits)
    have "take (lz_op s + lit) m' = take (lz_op s) m @ take lit w"
      using n w(1) by (simp add: m'_def blit_def take_add)
    then have tk: "take (length out + lit) m' = out @ v" using m(3) op w(2) by simp
    have lm: "length m' = cap + slack" using n w(1) m(2) by (simp add: m'_def length_blit)
    have z: "(out @ v) ! i = 0" if "length out + (q - ip) \<le> i" "i < length out + lit" for i
    proof -
      define j where "j = i - length out"
      have j: "i = length out + j" "j < lit" "q \<le> ip + j" using that q(2) by (auto simp: j_def)
      then have "v ! j = 0" using v(2) q(4) by simp
      then show ?thesis using j(1) by simp
    qed
    let ?s = "s\<lparr>lz_ip := ip + lit, lz_op := lz_op s + lit, lz_written := lz_op s + lit,
                 lz_zero_from := lz_op s + (q - ip), lz_dst := m'\<rparr>"
    have "lz_copy_literals src cap slack lit s = Inr ?s"
      by (simp only: lz_copy_literals_def Let_def ip_def[symmetric] q(1) qne False m(1) st rbind.simps if_False)
    moreover have "lz_rel cap slack (out @ v) ?s"
      using tk lm z v(1) b(2) op by (simp add: lz_rel_def)
    ultimately show ?thesis by (simp flip: ip_def v_def)
  qed
qed

lemma lz_literals_sim:
  assumes rel: "lz_rel cap slack out s"
  shows "(\<exists>e. seq_literals src cap (lz_ip s) (length out) = Inl e \<and> lz_literals src cap slack s = Inl e)
    \<or> (\<exists>t ip lit s'. seq_literals src cap (lz_ip s) (length out) = Inr (t, ip, lit)
        \<and> lz_literals src cap slack s = Inr (t, s') \<and> lz_ip s' = ip + lit
        \<and> lz_rel cap slack (out @ take lit (drop ip src)) s')"
proof (cases "length src \<le> lz_ip s")
  case True
  then show ?thesis by (simp add: seq_literals_def lz_literals_def)
next
  case False
  define t where "t = unat (src ! lz_ip s)"
  define x where "x = (if t div 16 = 15 then ext_len src cap (lz_ip s + 1) 15 else Inr (lz_ip s + 1, t div 16))"
  have op: "lz_op s = length out" "length out \<le> cap" using rel by (auto simp: lz_rel_def)
  have x': "(if t div 16 = 15 then ext_len src cap (lz_ip s + 1) (t div 16) else Inr (lz_ip s + 1, t div 16)) = x"
    by (simp add: x_def)
  note defs = seq_literals_def lz_literals_def Let_def t_def[symmetric] x_def[symmetric] x'
  show ?thesis
  proof (cases x)
    case (Inl e)
    then show ?thesis using False by (simp only: defs if_False) simp
  next
    case (Inr p)
    then obtain ip lit where p: "x = Inr (ip, lit)" by (cases p) auto
    then have ip: "ip \<le> length src" using False by (auto simp: x_def dest!: ext_len_ip split: if_splits)
    let ?s = "s\<lparr>lz_ip := ip\<rparr>"
    have rel': "lz_rel cap slack out ?s" using rel by (simp add: lz_rel_def)
    have c1: "(lit > length src - ip \<or> lit > cap - length out) = (length src < ip + lit \<or> cap < length out + lit)"
      using ip op by auto
    have c2: "(cap - length out < 12 \<or> lit > cap - length out - 12 \<or> length src - ip < 8 \<or> lit > length src - ip - 8)
        = (cap < length out + lit + 12 \<or> length src < ip + lit + 8)"
      using ip op by linarith
    show ?thesis
    proof (cases "length src < ip + lit \<or> cap < length out + lit \<or>
        (cap < length out + lit + 12 \<or> length src < ip + lit + 8) \<and> ip + lit \<noteq> length src")
      case True
      then show ?thesis using False p c1 c2 op by (simp only: defs if_False rbind.simps prod.case) auto
    next
      case ok: False
      have "lz_ip ?s + lit \<le> length src" "length out + lit \<le> cap" using ok by auto
      from lz_copy_literals_ok[OF rel' this] obtain s' where s': "lz_copy_literals src cap slack lit ?s = Inr s'"
        "lz_ip s' = ip + lit" "lz_rel cap slack (out @ take lit (drop ip src)) s'" by auto
      have "seq_literals src cap (lz_ip s) (length out) = Inr (t, ip, lit)"
        using False p ok by (simp only: defs if_False rbind.simps prod.case) auto
      moreover have "lz_literals src cap slack s = Inr (t, s')"
        using False p ok s'(1) c1 c2 op by (simp only: defs if_False rbind.simps prod.case) auto
      ultimately show ?thesis using s'(2,3) by blast
    qed
  qed
qed

lemma lz_match_sim:
  assumes rel: "lz_rel cap slack out s"
  shows "(\<exists>e. seq_match src cap t (lz_ip s) (length out) = Inl e \<and> lz_match sse2 src cap slack t s = Inl e)
    \<or> (\<exists>ip off n s'. seq_match src cap t (lz_ip s) (length out) = Inr (ip, off, n)
        \<and> lz_match sse2 src cap slack t s = Inr s' \<and> lz_ip s' = ip
        \<and> lz_rel cap slack (append_match out off n) s')"
proof (cases "length src < lz_ip s + 2")
  case True
  then have "length src - lz_ip s < 2" by simp
  then show ?thesis using True by (simp add: seq_match_def lz_match_def)
next
  case False
  then have F: "\<not> length src - lz_ip s < 2" by simp
  define off where "off = unat (src ! lz_ip s) + 256 * unat (src ! (lz_ip s + 1))"
  define x where "x = (if t mod 16 = 15 then ext_len src cap (lz_ip s + 2) 15 else Inr (lz_ip s + 2, t mod 16))"
  have op: "lz_op s = length out" "length out \<le> cap" using rel by (auto simp: lz_rel_def)
  have x': "(if t mod 16 = 15 then ext_len src cap (lz_ip s + 2) (t mod 16) else Inr (lz_ip s + 2, t mod 16)) = x"
    by (simp add: x_def)
  note defs = seq_match_def lz_match_def Let_def off_def[symmetric] x_def[symmetric] x'
  show ?thesis
  proof (cases x)
    case (Inl e)
    then show ?thesis using False F by (simp only: defs if_False) simp
  next
    case (Inr p)
    then obtain ip n where p: "x = Inr (ip, n)" by (cases p) auto
    have c: "(n + 4 > cap - length out \<or> cap - length out - (n + 4) < 5) = (cap < length out + (n + 4) + 5)"
      using op by linarith
    show ?thesis
    proof (cases "off = 0 \<or> length out < off \<or> cap < length out + (n + 4) + 5")
      case True
      then show ?thesis using False F p c op by (simp only: defs if_False rbind.simps prod.case) auto
    next
      case ok: False
      have sm: "seq_match src cap t (lz_ip s) (length out) = Inr (ip, off, n + 4)"
        using False p ok by (simp only: defs if_False rbind.simps prod.case) auto
      show ?thesis
      proof (cases "length out - off \<ge> lz_zero_from s")
        case True
        have "append_match out off (n + 4) = out @ replicate (n + 4) 0"
          using ok True rel by (intro append_match_zeros) (auto simp: lz_rel_def)
        moreover have "lz_rel cap slack (out @ replicate (n + 4) 0) (s\<lparr>lz_ip := ip, lz_op := lz_op s + (n + 4)\<rparr>)"
          using ok by (intro lz_rel_zerosI[OF rel]) auto
        moreover have "lz_match sse2 src cap slack t s = Inr (s\<lparr>lz_ip := ip, lz_op := lz_op s + (n + 4)\<rparr>)"
          using F p ok True c op by (simp only: defs if_False rbind.simps prod.case) auto
        ultimately show ?thesis using sm by fastforce
      next
        case nz: False
        obtain m where m: "flush_zeros (cap + slack) s = Inr m" "length m = cap + slack" "take (length out) m = out"
          using flush_zeros_ok[OF rel] by blast
        have "match_post m out off (n + 4) (lz_copy_match sse2 m (cap + slack) (length out) off (n + 4))"
          using ok m by (intro lz_copy_match_post) auto
        then obtain m' q where m': "lz_copy_match sse2 m (cap + slack) (length out) off (n + 4) = Inr (m', q)"
          "length m' = length m" "take (length out + (n + 4)) m' = append_match out off (n + 4)"
          "\<forall>i. q \<le> i \<and> i < length out + (n + 4) \<longrightarrow> m' ! i = 0"
          by (auto simp: match_post_def split: sum.splits)
        let ?s = "s\<lparr>lz_ip := ip, lz_op := length out + (n + 4), lz_written := length out + (n + 4), lz_zero_from := q, lz_dst := m'\<rparr>"
        have z: "append_match out off (n + 4) ! i = 0" if "q \<le> i" "i < length out + (n + 4)" for i
          using m'(3,4) that by (metis nth_take)
        have "lz_rel cap slack (append_match out off (n + 4)) ?s"
          using ok m(2) m'(2,3) z by (auto simp: lz_rel_def)
        moreover have "lz_match sse2 src cap slack t s = Inr ?s"
          using F p ok nz m(1) m'(1) c op by (simp only: defs if_False rbind.simps prod.case) auto
        ultimately show ?thesis using sm by fastforce
      qed
    qed
  qed
qed


lemma lz_loop_sim:
  "lz_rel cap slack out s \<Longrightarrow> lz_ip s = ip \<Longrightarrow>
    (\<exists>e. lz4_seqs src cap ip out = Inl e \<and> lz_loop sse2 src cap slack s = Inl e)
    \<or> (\<exists>out' s'. lz4_seqs src cap ip out = Inr out' \<and> lz_loop sse2 src cap slack s = Inr s' \<and> lz_rel cap slack out' s')"
proof (induction src cap ip out arbitrary: s rule: lz4_seqs.induct)
  case (1 src cap ip out)
  note unf = lz4_seqs.simps[of src cap ip out] lz_loop.simps[of sse2 src cap slack s]
  from lz_literals_sim[OF "1.prems"(1), of src] consider
      e where "seq_literals src cap ip (length out) = Inl e" "lz_literals src cap slack s = Inl e"
    | t ip1 lit s1 where "seq_literals src cap ip (length out) = Inr (t, ip1, lit)"
        "lz_literals src cap slack s = Inr (t, s1)" "lz_ip s1 = ip1 + lit"
        "lz_rel cap slack (out @ take lit (drop ip1 src)) s1"
    using "1.prems"(2) by blast
  then show ?case
  proof cases
    case (1 e)
    then show ?thesis by (simp add: unf)
  next
    case lits: (2 t ip1 lit s1)
    let ?o = "out @ take lit (drop ip1 src)"
    show ?thesis
    proof (cases "ip1 + lit = length src")
      case True
      then show ?thesis using lits by (simp add: unf)
    next
      case False
      from lz_match_sim[OF lits(4), of src t sse2] consider
          e where "seq_match src cap t (ip1 + lit) (length ?o) = Inl e" "lz_match sse2 src cap slack t s1 = Inl e"
        | ip2 off n s2 where "seq_match src cap t (ip1 + lit) (length ?o) = Inr (ip2, off, n)"
            "lz_match sse2 src cap slack t s1 = Inr s2" "lz_ip s2 = ip2" "lz_rel cap slack (append_match ?o off n) s2"
        using lits(3) by auto
      then show ?thesis
      proof cases
        case (1 e)
        then show ?thesis using lits False by (simp add: unf)
      next
        case (2 ip2 off n s2)
        have eq: "lz4_seqs src cap ip out = lz4_seqs src cap ip2 (append_match ?o off n)"
          "lz_loop sse2 src cap slack s = lz_loop sse2 src cap slack s2"
          using lits False 2 by (simp_all add: unf)
        show ?thesis unfolding eq
          by (rule "1.IH"[OF lits(1) refl refl refl False 2(1) refl refl 2(4,3)])
      qed
    qed
  qed
qed

lemma ext_len_stop: "ext_len src cap ip len = Inl e \<Longrightarrow> e = Code (-1)"
proof (induction src cap ip len rule: ext_len.induct)
  case (1 src cap ip len)
  show ?case
  proof (cases "length src \<le> ip \<or> len + unat (src ! ip) > cap")
    case True
    with "1.prems" show ?thesis by (subst (asm) ext_len.simps) (auto split: if_splits)
  next
    case False
    with "1.prems" "1.IH"[OF _ refl refl] show ?thesis
      by (subst (asm) ext_len.simps) (auto simp: Let_def split: if_splits)
  qed
qed

lemma seq_literals_stop: "seq_literals src cap ip op = Inl e \<Longrightarrow> e = Code (-1)"
  by (auto simp: seq_literals_def Let_def rbind_Inl_iff dest!: ext_len_stop split: if_splits prod.splits)

lemma seq_match_stop: "seq_match src cap t ip op = Inl e \<Longrightarrow> e = Code (-1)"
  by (auto simp: seq_match_def Let_def rbind_Inl_iff dest!: ext_len_stop split: if_splits prod.splits)

lemma lz4_seqs_stop: "lz4_seqs src cap ip out = Inl e \<Longrightarrow> e = Code (-1)"
proof (induction src cap ip out rule: lz4_seqs.induct)
  case (1 src cap ip out)
  show ?case
  proof (cases "seq_literals src cap ip (length out)")
    case (Inl e')
    then show ?thesis using "1.prems" seq_literals_stop[OF Inl] by (simp add: lz4_seqs.simps[of src cap ip out])
  next
    case (Inr p)
    then obtain t ip1 lit where l: "seq_literals src cap ip (length out) = Inr (t, ip1, lit)" by (cases p) auto
    let ?o = "out @ take lit (drop ip1 src)"
    have ne: "ip1 + lit \<noteq> length src" using "1.prems" l by (auto simp: lz4_seqs.simps[of src cap ip out])
    show ?thesis
    proof (cases "seq_match src cap t (ip1 + lit) (length ?o)")
      case (Inl e')
      then show ?thesis using "1.prems" l ne seq_match_stop[OF Inl] by (simp add: lz4_seqs.simps[of src cap ip out])
    next
      case (Inr p)
      then obtain ip2 off n where m: "seq_match src cap t (ip1 + lit) (length ?o) = Inr (ip2, off, n)" by (cases p) auto
      have "lz4_seqs src cap ip2 (append_match ?o off n) = Inl e"
        using "1.prems" l ne m by (simp add: lz4_seqs.simps[of src cap ip out])
      then show ?thesis by (rule "1.IH"[OF l refl refl refl ne m refl refl])
    qed
  qed
qed

lemma decode_sim:
  assumes "length dst = cap + slack"
  shows "case lz4_block src cap of
      Inl e \<Rightarrow> e = Code (-1) \<and> bslz4_lz4_decode_zero sse2 src dst cap slack = Inl (Code (-1))
    | Inr out \<Rightarrow> length out = cap \<and> (\<exists>m nz. bslz4_lz4_decode_zero sse2 src dst cap slack = Inr (m, nz)
        \<and> length m = cap + slack \<and> nz \<le> cap \<and> take nz m = take nz out \<and> drop nz out = replicate (cap - nz) 0)"
proof -
  let ?s = "\<lparr>lz_ip = 0, lz_op = 0, lz_written = 0, lz_zero_from = 0, lz_dst = dst\<rparr>"
  have "lz_rel cap slack [] ?s" using assms by (simp add: lz_rel_def)
  from lz_loop_sim[OF this, of 0 src sse2] consider
      e where "lz4_seqs src cap 0 [] = Inl e" "lz_loop sse2 src cap slack ?s = Inl e"
    | out s where "lz4_seqs src cap 0 [] = Inr out" "lz_loop sse2 src cap slack ?s = Inr s" "lz_rel cap slack out s"
    by auto
  then show ?thesis
  proof cases
    case (1 e)
    then show ?thesis using lz4_seqs_stop[OF 1(1)] by (simp add: lz4_block_def bslz4_lz4_decode_zero_def)
  next
    case (2 out s)
    note r = 2(3)[unfolded lz_rel_def]
    have "drop (lz_written s) out = replicate (length out - lz_written s) 0"
      by (rule replicate_eqI) (use r in auto)
    then show ?thesis using 2(1,2) r by (auto simp: lz4_block_def bslz4_lz4_decode_zero_def)
  qed
qed

section \<open>The decoder against the format\<close>

text \<open>
  C16: the zero-aware decoder refuses exactly the blocks the format's reader refuses, with the same code. On every
  other block it returns an output buffer of unchanged size and a count \<open>nz\<close> such that the
  first \<open>nz\<close> bytes are the block's output and the rest of that output is zero, in the SSE2 build and
  in the portable one, for every input and every slack: no access leaves its buffer, no
  \<open>memcpy\<close> overlaps and the doubling copy ends.
\<close>

theorem lz4_decode_zero_refines:
  assumes "length dst = cap + slack"
  shows "case lz4_block src cap of
      Inl e \<Rightarrow> e = Code (-1) \<and> bslz4_lz4_decode_zero sse2 src dst cap slack = Inl (Code (-1))
    | Inr out \<Rightarrow> length out = cap \<and> (\<exists>m nz. bslz4_lz4_decode_zero sse2 src dst cap slack = Inr (m, nz)
        \<and> length m = cap + slack \<and> nz \<le> cap \<and> take nz m = take nz out \<and> drop nz out = replicate (cap - nz) 0)"
  by (rule decode_sim[OF assms])

theorem lz4_decode_zero_refines_witness:
  "lz4_block [0x50, 1, 2, 3, 4, 5] 5 = Inr [1, 2, 3, 4, 5]
   \<and> (case lz4_block [0x50, 1, 2, 3, 4, 5] 5 of
      Inl e \<Rightarrow> e = Code (-1) \<and> bslz4_lz4_decode_zero True [0x50, 1, 2, 3, 4, 5] (replicate 69 7) 5 64 = Inl (Code (-1))
    | Inr out \<Rightarrow> length out = 5 \<and> (\<exists>m nz. bslz4_lz4_decode_zero True [0x50, 1, 2, 3, 4, 5] (replicate 69 7) 5 64 = Inr (m, nz)
        \<and> length m = 5 + 64 \<and> nz \<le> 5 \<and> take nz m = take nz out \<and> drop nz out = replicate (5 - nz) 0))"
  by (rule conjI[OF _ lz4_decode_zero_refines]; code_simp)

end
