(* ===== verification/Pipeline.thy ===== *)
theory Pipeline
  imports Common
begin

text \<open>
  \<open>src/pipeline/pipeline.h\<close>: the steps and their values, the layouts, and the limits of the route
  rules. A step value is an \<open>int\<close>, as in the C API; 0 is "auto", which C never accepts.
\<close>

section \<open>Steps\<close>

definition BSLZ4_STEP_DECODE :: int where "BSLZ4_STEP_DECODE = 0"
definition BSLZ4_STEP_MASK :: int where "BSLZ4_STEP_MASK = 1"
definition BSLZ4_STEP_UNTRANSPOSE :: int where "BSLZ4_STEP_UNTRANSPOSE = 2"
definition BSLZ4_STEP_COLLECT :: int where "BSLZ4_STEP_COLLECT = 3"
definition BSLZ4_STEP_ROUTE :: int where "BSLZ4_STEP_ROUTE = 4"
definition BSLZ4_STEP_DOT :: int where "BSLZ4_STEP_DOT = 5"
definition BSLZ4_NSTEPS :: int where "BSLZ4_NSTEPS = 6"

section \<open>Step values\<close>

definition BSLZ4_DECODE_LZ4_BAND :: int where "BSLZ4_DECODE_LZ4_BAND = 1"
definition BSLZ4_DECODE_LZ4_ZERO :: int where "BSLZ4_DECODE_LZ4_ZERO = 2"
definition BSLZ4_DECODE_LZ4_STOCK :: int where "BSLZ4_DECODE_LZ4_STOCK = 3"
definition BSLZ4_DECODE_ZSTD :: int where "BSLZ4_DECODE_ZSTD = 4"
definition BSLZ4_DECODE_PIXELS :: int where "BSLZ4_DECODE_PIXELS = 5"
definition BSLZ4_DECODE_N :: int where "BSLZ4_DECODE_N = 6"

definition BSLZ4_MASK_PIXEL :: int where "BSLZ4_MASK_PIXEL = 1"
definition BSLZ4_MASK_PLANES :: int where "BSLZ4_MASK_PLANES = 2"
definition BSLZ4_MASK_NONE :: int where "BSLZ4_MASK_NONE = 3"
definition BSLZ4_MASK_N :: int where "BSLZ4_MASK_N = 4"

definition BSLZ4_UNTRANSPOSE_LOWPLANES_VBMI :: int where "BSLZ4_UNTRANSPOSE_LOWPLANES_VBMI = 1"
definition BSLZ4_UNTRANSPOSE_LOWPLANES_AVX2 :: int where "BSLZ4_UNTRANSPOSE_LOWPLANES_AVX2 = 2"
definition BSLZ4_UNTRANSPOSE_LOWPLANES_VSX :: int where "BSLZ4_UNTRANSPOSE_LOWPLANES_VSX = 3"
definition BSLZ4_UNTRANSPOSE_LOWPLANES_C :: int where "BSLZ4_UNTRANSPOSE_LOWPLANES_C = 4"
definition BSLZ4_UNTRANSPOSE_KCB :: int where "BSLZ4_UNTRANSPOSE_KCB = 5"
definition BSLZ4_UNTRANSPOSE_NEON :: int where "BSLZ4_UNTRANSPOSE_NEON = 6"
definition BSLZ4_UNTRANSPOSE_SCALAR :: int where "BSLZ4_UNTRANSPOSE_SCALAR = 7"
definition BSLZ4_UNTRANSPOSE_N :: int where "BSLZ4_UNTRANSPOSE_N = 8"

definition BSLZ4_COLLECT_AVX512CS :: int where "BSLZ4_COLLECT_AVX512CS = 1"
definition BSLZ4_COLLECT_AVX2CS :: int where "BSLZ4_COLLECT_AVX2CS = 2"
definition BSLZ4_COLLECT_VSX :: int where "BSLZ4_COLLECT_VSX = 3"
definition BSLZ4_COLLECT_NEON :: int where "BSLZ4_COLLECT_NEON = 4"
definition BSLZ4_COLLECT_SSE2 :: int where "BSLZ4_COLLECT_SSE2 = 5"
definition BSLZ4_COLLECT_SCALAR :: int where "BSLZ4_COLLECT_SCALAR = 6"
definition BSLZ4_COLLECT_N :: int where "BSLZ4_COLLECT_N = 7"

definition BSLZ4_ROUTE_RATIO_RULE :: int where "BSLZ4_ROUTE_RATIO_RULE = 1"
definition BSLZ4_ROUTE_DENSE :: int where "BSLZ4_ROUTE_DENSE = 2"
definition BSLZ4_ROUTE_SPARSE :: int where "BSLZ4_ROUTE_SPARSE = 3"
definition BSLZ4_ROUTE_BPP_RULE :: int where "BSLZ4_ROUTE_BPP_RULE = 4"
definition BSLZ4_ROUTE_N :: int where "BSLZ4_ROUTE_N = 5"

definition BSLZ4_DOT_CSC :: int where "BSLZ4_DOT_CSC = 1"
definition BSLZ4_DOT_PADDED :: int where "BSLZ4_DOT_PADDED = 2"
definition BSLZ4_DOT_PADDED_AVX2 :: int where "BSLZ4_DOT_PADDED_AVX2 = 3"
definition BSLZ4_DOT_CSC_RUN :: int where "BSLZ4_DOT_CSC_RUN = 4"
definition BSLZ4_DOT_CSC_NOSPLIT :: int where "BSLZ4_DOT_CSC_NOSPLIT = 5"
definition BSLZ4_DOT_BSBCSR :: int where "BSLZ4_DOT_BSBCSR = 6"
definition BSLZ4_DOT_BSBCSR_NOSPLIT :: int where "BSLZ4_DOT_BSBCSR_NOSPLIT = 7"
definition BSLZ4_DOT_CSC_PERMUTE :: int where "BSLZ4_DOT_CSC_PERMUTE = 8"
definition BSLZ4_DOT_CSC_INT :: int where "BSLZ4_DOT_CSC_INT = 9"
definition BSLZ4_DOT_CSC_RUN_INT :: int where "BSLZ4_DOT_CSC_RUN_INT = 10"
definition BSLZ4_DOT_CSC_RUN_INT16 :: int where "BSLZ4_DOT_CSC_RUN_INT16 = 11"
definition BSLZ4_DOT_CSC_NOSPLIT_INT :: int where "BSLZ4_DOT_CSC_NOSPLIT_INT = 12"
definition BSLZ4_DOT_N :: int where "BSLZ4_DOT_N = 13"

section \<open>Layouts\<close>

definition BSLZ4_LAYOUT_CSC :: int where "BSLZ4_LAYOUT_CSC = 0"
definition BSLZ4_LAYOUT_PADDED :: int where "BSLZ4_LAYOUT_PADDED = 1"
definition BSLZ4_LAYOUT_BSBCSR :: int where "BSLZ4_LAYOUT_BSBCSR = 2"

lemmas step_values =
  BSLZ4_STEP_DECODE_def BSLZ4_STEP_MASK_def BSLZ4_STEP_UNTRANSPOSE_def BSLZ4_STEP_COLLECT_def
  BSLZ4_STEP_ROUTE_def BSLZ4_STEP_DOT_def BSLZ4_NSTEPS_def BSLZ4_DECODE_LZ4_BAND_def
  BSLZ4_DECODE_LZ4_ZERO_def BSLZ4_DECODE_LZ4_STOCK_def BSLZ4_DECODE_ZSTD_def
  BSLZ4_DECODE_PIXELS_def BSLZ4_DECODE_N_def BSLZ4_MASK_PIXEL_def BSLZ4_MASK_PLANES_def
  BSLZ4_MASK_NONE_def BSLZ4_MASK_N_def BSLZ4_UNTRANSPOSE_LOWPLANES_VBMI_def
  BSLZ4_UNTRANSPOSE_LOWPLANES_AVX2_def BSLZ4_UNTRANSPOSE_LOWPLANES_VSX_def
  BSLZ4_UNTRANSPOSE_LOWPLANES_C_def BSLZ4_UNTRANSPOSE_KCB_def BSLZ4_UNTRANSPOSE_NEON_def
  BSLZ4_UNTRANSPOSE_SCALAR_def BSLZ4_UNTRANSPOSE_N_def BSLZ4_COLLECT_AVX512CS_def
  BSLZ4_COLLECT_AVX2CS_def BSLZ4_COLLECT_VSX_def BSLZ4_COLLECT_NEON_def BSLZ4_COLLECT_SSE2_def
  BSLZ4_COLLECT_SCALAR_def BSLZ4_COLLECT_N_def BSLZ4_ROUTE_RATIO_RULE_def BSLZ4_ROUTE_DENSE_def
  BSLZ4_ROUTE_SPARSE_def BSLZ4_ROUTE_BPP_RULE_def BSLZ4_ROUTE_N_def BSLZ4_DOT_CSC_def
  BSLZ4_DOT_PADDED_def BSLZ4_DOT_PADDED_AVX2_def BSLZ4_DOT_CSC_RUN_def BSLZ4_DOT_CSC_NOSPLIT_def
  BSLZ4_DOT_BSBCSR_def BSLZ4_DOT_BSBCSR_NOSPLIT_def BSLZ4_DOT_CSC_PERMUTE_def
  BSLZ4_DOT_CSC_INT_def BSLZ4_DOT_CSC_RUN_INT_def BSLZ4_DOT_CSC_RUN_INT16_def
  BSLZ4_DOT_CSC_NOSPLIT_INT_def BSLZ4_DOT_N_def BSLZ4_LAYOUT_CSC_def BSLZ4_LAYOUT_PADDED_def
  BSLZ4_LAYOUT_BSBCSR_def

section \<open>Route rules, pixel types\<close>

definition BSLZ4_ROUTE_RATIO :: nat where "BSLZ4_ROUTE_RATIO = 8"
definition BSLZ4_ROUTE_BPP :: nat where "BSLZ4_ROUTE_BPP = 2"
definition BSLZ4_VALUE_SLOTS :: nat where "BSLZ4_VALUE_SLOTS = 16"

definition BSLZ4_ROUTE_BPP_SPARSE :: "nat \<Rightarrow> nat \<Rightarrow> nat \<Rightarrow> bool" where
  "BSLZ4_ROUTE_BPP_SPARSE nbytes NB blocksize \<longleftrightarrow> 8 * nbytes * NB < BSLZ4_ROUTE_BPP * blocksize"

text \<open>
  \<open>bslz4_pipe\<close>: the resolved pipeline of one call, and the pixel type as its index 0..9
  (u8 u16 u32 u64 i8 i16 i32 i64 f32 f64) with its size in bytes.
\<close>

record bslz4_pipe =
  p_step :: "int list"
  p_dtype :: int
  p_elem_size :: nat

text \<open>\<open>bslz4_top\<close>: a top-pixels request. Its \<open>level\<close> and \<open>nabove\<close> arrays are fields of the frames' state.\<close>

record bslz4_top =
  t_howmany :: int
  t_nthr :: int
  t_thr :: "int list"

end
