(* ===== verification/Decode.thy ===== *)
theory Decode
  imports Bitplanes Lz4Refine Pipeline
begin

text \<open>
  \<open>src/steps/decode.h\<close>: one compressed block to its bit planes. lz4 and zstd are libraries: their
  calls are the functions of \<open>codec_lib\<close>, which give the return value and the bytes stored from the
  start of the output. What the code relies on is \<open>lz4_conforms\<close> (a block of the lz4 format that
  fills the output exactly is decoded to it, with the output size as the result) and \<open>zstd_fills\<close> (a
  result equal to the output size means that many bytes were stored).
\<close>

record codec_lib =
  LZ4_decompress_safe :: "byte list \<Rightarrow> nat \<Rightarrow> int \<times> byte list"
  ZSTD_decompress :: "byte list \<Rightarrow> nat \<Rightarrow> int \<times> byte list"

definition lz4_conforms :: "codec_lib \<Rightarrow> bool" where
  "lz4_conforms lib \<longleftrightarrow> (\<forall>src cap out. lz4_block src cap = Inr out \<longrightarrow> LZ4_decompress_safe lib src cap = (int cap, out))
     \<and> (\<forall>src cap. length (snd (LZ4_decompress_safe lib src cap)) \<le> cap)"

definition zstd_fills :: "codec_lib \<Rightarrow> bool" where
  "zstd_fills lib \<longleftrightarrow> (\<forall>src cap. length (snd (ZSTD_decompress lib src cap)) \<le> cap
     \<and> (fst (ZSTD_decompress lib src cap) = int cap \<longrightarrow> length (snd (ZSTD_decompress lib src cap)) = cap))"

definition BSLZ4_LZ4ZERO_RATIO :: nat where "BSLZ4_LZ4ZERO_RATIO = 24"
definition BSLZ4_LZ4ZERO_DENSE :: nat where "BSLZ4_LZ4ZERO_DENSE = 8"

section \<open>The step\<close>

text \<open>The return value and the output buffer.\<close>

definition bslz4_decode_plain :: "codec_lib \<Rightarrow> int \<Rightarrow> byte list \<Rightarrow> byte list \<Rightarrow> nat \<Rightarrow> (int \<times> byte list) res" where
  "bslz4_decode_plain lib dec src dst cap =
     (if dec = BSLZ4_DECODE_ZSTD then
        let (ret, out) = ZSTD_decompress lib src cap in
        rbind (store_n dst 0 out) (\<lambda>dst. Inr (if ret = int cap then int cap else -1, dst))
      else
        let (ret, out) = LZ4_decompress_safe lib src cap in
        rbind (store_n dst 0 out) (\<lambda>dst. Inr (ret, dst)))"

text \<open>
  The return value, the output buffer and \<open>*nz_end\<close>. The zero-aware decoder is given the \<open>blocksize\<close>
  bytes of the block and as many of slack; its refusal is a negative return value.
\<close>

definition bslz4_decode_block :: "codec_lib \<Rightarrow> bool \<Rightarrow> int \<Rightarrow> byte list \<Rightarrow> byte list \<Rightarrow> nat \<Rightarrow> (int \<times> byte list \<times> nat) res" where
  "bslz4_decode_block lib sse2 dec src raw blocksize =
     (let n = length src in
      if dec = BSLZ4_DECODE_LZ4_ZERO \<or>
         (dec = BSLZ4_DECODE_LZ4_BAND \<and> (n * BSLZ4_LZ4ZERO_RATIO < blocksize \<or> n * BSLZ4_LZ4ZERO_DENSE > blocksize))
      then (case bslz4_lz4_decode_zero sse2 src raw blocksize blocksize of
              Inl (Code c) \<Rightarrow> Inr (c, raw, blocksize)
            | Inl e \<Rightarrow> Inl e
            | Inr (raw, nz) \<Rightarrow> Inr (int blocksize, raw, nz))
      else rbind (bslz4_decode_plain lib dec src raw blocksize) (\<lambda>(ret, raw). Inr (ret, raw, blocksize)))"

text \<open>What a block means to the codec of the dataset: the planes it decodes to.\<close>

definition codec_planes :: "codec_lib \<Rightarrow> int \<Rightarrow> byte list \<Rightarrow> nat \<Rightarrow> byte list option" where
  "codec_planes lib dec src cap =
     (if dec = BSLZ4_DECODE_ZSTD
      then (if fst (ZSTD_decompress lib src cap) = int cap then Some (snd (ZSTD_decompress lib src cap)) else None)
      else (case lz4_block src cap of Inl e \<Rightarrow> None | Inr out \<Rightarrow> Some out))"

lemma lz4_block_length: "lz4_block src cap = Inr out \<Longrightarrow> length out = cap"
  by (auto simp: lz4_block_def rbind_Inr_iff split: if_splits)

lemma codec_planes_length: "zstd_fills lib \<Longrightarrow> codec_planes lib dec src cap = Some out \<Longrightarrow> length out = cap"
  by (auto simp: codec_planes_def zstd_fills_def dest: lz4_block_length split: if_splits sum.splits)

lemma blit_prefix: "length vs \<le> length xs \<Longrightarrow> take (length vs) (blit xs 0 vs) = vs"
  by (simp add: blit_def)

lemma decode_plain_ok:
  assumes "lz4_conforms lib" "zstd_fills lib" "codec_planes lib dec src cap = Some planes" "cap \<le> length dst"
  shows "\<exists>dst'. bslz4_decode_plain lib dec src dst cap = Inr (int cap, dst') \<and> length dst' = length dst
    \<and> take cap dst' = planes"
proof (cases "dec = BSLZ4_DECODE_ZSTD")
  case True
  then have z: "fst (ZSTD_decompress lib src cap) = int cap" "snd (ZSTD_decompress lib src cap) = planes"
    "length planes = cap"
    using assms(2,3) by (auto simp: codec_planes_def zstd_fills_def split: if_splits)
  then show ?thesis using True assms(4) blit_prefix[of planes dst]
    by (cases "ZSTD_decompress lib src cap") (auto simp: bslz4_decode_plain_def store_n_ok length_blit)
next
  case False
  then have b: "lz4_block src cap = Inr planes" using assms(3) by (auto simp: codec_planes_def split: sum.splits)
  then have "LZ4_decompress_safe lib src cap = (int cap, planes)" "length planes = cap"
    using assms(1) lz4_block_length by (auto simp: lz4_conforms_def)
  then show ?thesis using False assms(4) blit_prefix[of planes dst]
    by (auto simp: bslz4_decode_plain_def store_n_ok length_blit)
qed

text \<open>Every decode value gives the block's planes, up to the zero tail.\<close>

lemma decode_block_ok:
  assumes "lz4_conforms lib" "zstd_fills lib" "codec_planes lib dec src bs = Some planes" "length raw = 2 * bs"
  shows "\<exists>raw' nz. bslz4_decode_block lib sse2 dec src raw bs = Inr (int bs, raw', nz) \<and> length raw' = length raw
    \<and> length planes = bs \<and> planes_in planes raw' nz"
proof -
  define zero where "zero \<longleftrightarrow> dec = BSLZ4_DECODE_LZ4_ZERO \<or> (dec = BSLZ4_DECODE_LZ4_BAND \<and>
    (length src * BSLZ4_LZ4ZERO_RATIO < bs \<or> length src * BSLZ4_LZ4ZERO_DENSE > bs))"
  have lp: "length planes = bs" using codec_planes_length[OF assms(2,3)] .
  show ?thesis
  proof (cases zero)
    case True
    then have "dec \<noteq> BSLZ4_DECODE_ZSTD" by (auto simp: zero_def step_values)
    then have b: "lz4_block src bs = Inr planes" using assms(3) by (auto simp: codec_planes_def split: sum.splits)
    obtain m nz where m: "bslz4_lz4_decode_zero sse2 src raw bs bs = Inr (m, nz)" "length m = bs + bs" "nz \<le> bs"
      "take nz m = take nz planes" "drop nz planes = replicate (bs - nz) 0"
      using decode_sim[where dst = raw and cap = bs and slack = bs and src = src and ?sse2.0 = sse2] assms(4) b by auto
    then show ?thesis using True assms(4) lp
      by (auto simp: bslz4_decode_block_def zero_def planes_in_def)
  next
    case False
    obtain dst where "bslz4_decode_plain lib dec src raw bs = Inr (int bs, dst)" "length dst = length raw" "take bs dst = planes"
      using decode_plain_ok[OF assms(1-3), of raw] assms(4) by auto
    then show ?thesis using False lp assms(4) planes_in_full[of planes dst]
      by (auto simp: bslz4_decode_block_def zero_def)
  qed
qed

text \<open>Whatever the block, the decode stays inside its buffer.\<close>

lemma decode_plain_total:
  assumes "lz4_conforms lib" "zstd_fills lib" "cap \<le> length dst"
  shows "\<exists>ret dst'. bslz4_decode_plain lib dec src dst cap = Inr (ret, dst') \<and> length dst' = length dst"
proof -
  obtain r1 o1 r2 o2 where l: "ZSTD_decompress lib src cap = (r1, o1)" "LZ4_decompress_safe lib src cap = (r2, o2)"
    by (cases "ZSTD_decompress lib src cap", cases "LZ4_decompress_safe lib src cap") auto
  then have "length o1 \<le> cap" "length o2 \<le> cap"
    using assms(1,2) by (auto simp: lz4_conforms_def zstd_fills_def dest: spec[of _ src] spec[of _ cap])
      (metis snd_conv)+
  then show ?thesis using l assms(3) by (auto simp: bslz4_decode_plain_def store_n_ok length_blit)
qed

lemma decode_block_total:
  assumes "lz4_conforms lib" "zstd_fills lib" "length raw = 2 * bs"
  shows "\<exists>ret raw' nz. bslz4_decode_block lib sse2 dec src raw bs = Inr (ret, raw', nz) \<and> length raw' = length raw"
proof -
  have "bs \<le> length raw" using assms(3) by simp
  from decode_plain_total[OF assms(1,2) this, of dec src] obtain ret dst where
    p: "bslz4_decode_plain lib dec src raw bs = Inr (ret, dst)" "length dst = length raw" by blast
  have z: "(\<exists>m nz. bslz4_lz4_decode_zero sse2 src raw bs bs = Inr (m, nz) \<and> length m = length raw)
      \<or> bslz4_lz4_decode_zero sse2 src raw bs bs = Inl (Code (-1))"
    using decode_sim[where dst = raw and cap = bs and slack = bs and src = src and ?sse2.0 = sse2] assms(3) by (cases "lz4_block src bs") auto
  show ?thesis using p z by (auto simp: bslz4_decode_block_def Let_def)
qed

text \<open>A codec that keeps the promises: the format's reader for lz4, stored blocks for zstd.\<close>

definition ref_codec :: codec_lib where
  "ref_codec = \<lparr>
     LZ4_decompress_safe = (\<lambda>src cap. case lz4_block src cap of Inl e \<Rightarrow> (-1, []) | Inr out \<Rightarrow> (int cap, out)),
     ZSTD_decompress = (\<lambda>src cap. if length src = cap then (int cap, src) else (-1, []))\<rparr>"

lemma ref_codec_conforms: "lz4_conforms ref_codec" "zstd_fills ref_codec"
  by (auto simp: lz4_conforms_def zstd_fills_def ref_codec_def dest: lz4_block_length split: sum.splits)

end
