(* ===== verification/Untranspose.thy ===== *)
theory Untranspose
  imports Bitplanes Pipeline
begin

text \<open>
  \<open>src/steps/untranspose.h\<close>: bit planes to the pixel block through kcb or bitshuffle's kernels. Those
  are libraries: \<open>shuffle_lib\<close> gives for an input, a number of elements and an element size the
  return value and the output bytes (\<open>size * elem_size\<close> of them). What the code relies on is \<open>untransposes\<close>:
  on whole groups of 8 elements the kernels undo the bitshuffle layout of \<open>Bitplanes\<close>.
\<close>

type_synonym kernel_call = "byte list \<Rightarrow> nat \<Rightarrow> nat \<Rightarrow> int \<times> byte list"

record shuffle_lib =
  bitshuf_decode_block :: kernel_call
  bshuf_trans_byte_bitrow_scal :: kernel_call
  bshuf_shuffle_bit_eightelem_scal :: kernel_call
  bshuf_trans_byte_bitrow_NEON :: kernel_call
  bshuf_shuffle_bit_eightelem_NEON :: kernel_call

definition bslz4_untranspose_kcb :: "shuffle_lib \<Rightarrow> kernel_call" where
  "bslz4_untranspose_kcb lib inp sz esz = bitshuf_decode_block lib inp sz esz"

definition bslz4_untranspose_bshuf_scal :: "shuffle_lib \<Rightarrow> kernel_call" where
  "bslz4_untranspose_bshuf_scal lib inp sz esz =
     (let (c, scratch) = bshuf_trans_byte_bitrow_scal lib inp sz esz in
      if c < 0 then (c, []) else bshuf_shuffle_bit_eightelem_scal lib scratch sz esz)"

definition bslz4_untranspose_bshuf_neon :: "shuffle_lib \<Rightarrow> kernel_call" where
  "bslz4_untranspose_bshuf_neon lib inp sz esz =
     (let (c, scratch) = bshuf_trans_byte_bitrow_NEON lib inp sz esz in
      if c < 0 then (c, []) else bshuf_shuffle_bit_eightelem_NEON lib scratch sz esz)"

definition untranspose_kernel :: "shuffle_lib \<Rightarrow> build \<Rightarrow> int \<Rightarrow> kernel_call" where
  "untranspose_kernel lib bld val =
     (if b_neon bld \<and> val = BSLZ4_UNTRANSPOSE_NEON then bslz4_untranspose_bshuf_neon lib
      else if val = BSLZ4_UNTRANSPOSE_SCALAR then bslz4_untranspose_bshuf_scal lib
      else bslz4_untranspose_kcb lib)"

text \<open>The return value and the block buffer. A kernel reads \<open>size * elem_size\<close> bytes of its input.\<close>

definition bslz4_untranspose_backend :: "shuffle_lib \<Rightarrow> build \<Rightarrow> int \<Rightarrow> byte list \<Rightarrow> byte list \<Rightarrow> nat \<Rightarrow> nat
    \<Rightarrow> (int \<times> byte list) res" where
  "bslz4_untranspose_backend lib bld val block raw sz esz =
     rbind (load_n raw 0 (sz * esz)) (\<lambda>inp.
       let (ret, out) = untranspose_kernel lib bld val inp sz esz in
       rbind (store_n block 0 out) (\<lambda>block. Inr (ret, block)))"

section \<open>What the kernels promise\<close>

definition untransposes :: "kernel_call \<Rightarrow> bool" where
  "untransposes k \<longleftrightarrow> (\<forall>inp sz esz. length inp = sz * esz \<longrightarrow>
     length (snd (k inp sz esz)) \<le> sz * esz
     \<and> (sz mod 8 = 0 \<and> esz \<in> {1, 2, 4, 8} \<longrightarrow>
          0 \<le> fst (k inp sz esz)
          \<and> snd (k inp sz esz) = bytes_of_pixels esz (plane_pixels esz sz inp)))"

definition shuffle_conforms :: "shuffle_lib \<Rightarrow> bool" where
  "shuffle_conforms lib \<longleftrightarrow> untransposes (bslz4_untranspose_kcb lib)
     \<and> untransposes (bslz4_untranspose_bshuf_scal lib) \<and> untransposes (bslz4_untranspose_bshuf_neon lib)"

lemma untransposesD:
  assumes "untransposes k" "length inp = ne * NB" "ne mod 8 = 0" "NB \<in> {1, 2, 4, 8}"
  shows "0 \<le> fst (k inp ne NB)" and "snd (k inp ne NB) = bytes_of_pixels NB (plane_pixels NB ne inp)"
proof -
  have "0 \<le> fst (k inp ne NB) \<and> snd (k inp ne NB) = bytes_of_pixels NB (plane_pixels NB ne inp)"
    using assms(1)[unfolded untransposes_def, THEN spec, THEN spec, THEN spec, THEN mp, OF assms(2), THEN conjunct2, THEN mp,
        OF conjI[OF assms(3,4)]] .
  then show "0 \<le> fst (k inp ne NB)" "snd (k inp ne NB) = bytes_of_pixels NB (plane_pixels NB ne inp)" by auto
qed

lemma kernel_untransposes: "shuffle_conforms lib \<Longrightarrow> untransposes (untranspose_kernel lib bld val)"
  by (simp add: shuffle_conforms_def untranspose_kernel_def)

lemma plane_bit_take: "p < 8 * NB \<Longrightarrow> ne mod 8 = 0 \<Longrightarrow> e < ne \<Longrightarrow> plane_bit ne (take (ne * NB) raw) p e = plane_bit ne raw p e"
proof -
  assume a: "p < 8 * NB" "ne mod 8 = 0" "e < ne"
  have "e div 8 < ne div 8" using a(2,3) by auto
  then have "p * (ne div 8) + e div 8 < (p + 1) * (ne div 8)" by simp
  also have "\<dots> \<le> 8 * NB * (ne div 8)" using a(1) by (intro mult_le_mono1) simp
  also have "\<dots> = ne * NB" using a(2) by auto
  finally show ?thesis by (simp add: plane_bit_def)
qed

lemma plane_pixels_take: "ne mod 8 = 0 \<Longrightarrow> plane_pixels NB ne (take (ne * NB) raw) = plane_pixels NB ne raw"
  unfolding plane_pixels_def plane_pixel_def
  by (intro map_cong refl arg_cong[of _ _ word_of_bits]) (auto simp: plane_bit_take)

lemma backend_ok:
  assumes "shuffle_conforms lib" "ne mod 8 = 0" "NB \<in> {1, 2, 4, 8}" "ne * NB \<le> length raw" "ne * NB \<le> length block"
  shows "\<exists>ret block'. bslz4_untranspose_backend lib bld val block raw ne NB = Inr (ret, block') \<and> 0 \<le> ret
    \<and> length block' = length block \<and> load_pixels NB block' 0 ne = Inr (plane_pixels NB ne raw)"
proof -
  let ?in = "take (ne * NB) raw"
  obtain ret out where k: "untranspose_kernel lib bld val ?in ne NB = (ret, out)"
    by (cases "untranspose_kernel lib bld val ?in ne NB") auto
  have "length ?in = ne * NB" using assms(4) by simp
  from untransposesD[OF kernel_untransposes[OF assms(1)] this assms(2,3)]
  have o: "0 \<le> ret" "out = bytes_of_pixels NB (plane_pixels NB ne raw)"
    using k plane_pixels_take[OF assms(2), of NB raw] by (metis fst_conv, metis snd_conv)
  let ?b = "blit block 0 out"
  have l: "length out = ne * NB" by (simp add: o(2) mult.commute)
  have "load_pixels NB ?b 0 (length (plane_pixels NB ne raw)) = Inr (plane_pixels NB ne raw)"
    by (rule load_pixels_bytes) (use assms(5) l o(2) in \<open>auto simp: blit_def plane_pixels_def mult.commute\<close>)
  moreover have "bslz4_untranspose_backend lib bld val block raw ne NB = Inr (ret, ?b)"
    using k l assms(4,5) by (simp add: bslz4_untranspose_backend_def load_n_ok store_n_ok)
  ultimately show ?thesis using l o(1) assms(5) by (simp add: length_blit)
qed

lemma backend_total:
  assumes "shuffle_conforms lib" "ne * NB \<le> length raw" "ne * NB \<le> length block"
  shows "\<exists>ret block'. bslz4_untranspose_backend lib bld val block raw ne NB = Inr (ret, block')
    \<and> length block' = length block"
proof -
  let ?in = "take (ne * NB) raw"
  obtain ret out where k: "untranspose_kernel lib bld val ?in ne NB = (ret, out)"
    by (cases "untranspose_kernel lib bld val ?in ne NB") auto
  have "length ?in = ne * NB" using assms(2) by simp
  then have "length out \<le> ne * NB"
    using kernel_untransposes[OF assms(1), of bld val] k by (metis untransposes_def snd_conv)
  then show ?thesis using k assms(2,3)
    by (simp add: bslz4_untranspose_backend_def load_n_ok store_n_ok length_blit)
qed

text \<open>The layout's own transpose as the kernels: the promise can be kept.\<close>

definition ref_shuffle :: shuffle_lib where
  "ref_shuffle = \<lparr>
     bitshuf_decode_block = (\<lambda>inp sz esz. (0, bytes_of_pixels esz (plane_pixels esz sz inp))),
     bshuf_trans_byte_bitrow_scal = (\<lambda>inp sz esz. (0, inp)),
     bshuf_shuffle_bit_eightelem_scal = (\<lambda>inp sz esz. (0, bytes_of_pixels esz (plane_pixels esz sz inp))),
     bshuf_trans_byte_bitrow_NEON = (\<lambda>inp sz esz. (0, inp)),
     bshuf_shuffle_bit_eightelem_NEON = (\<lambda>inp sz esz. (0, bytes_of_pixels esz (plane_pixels esz sz inp)))\<rparr>"

lemma ref_shuffle_conforms: "shuffle_conforms ref_shuffle"
  by (simp add: shuffle_conforms_def untransposes_def bslz4_untranspose_kcb_def bslz4_untranspose_bshuf_scal_def
      bslz4_untranspose_bshuf_neon_def ref_shuffle_def mult.commute)

end
