(* ===== verification/Bits.thy ===== *)
theory Bits
  imports Prelude
begin

text \<open>
  The set bits of a selection mask: \<open>ctz\<close> (\<open>__builtin_ctz\<close>, \<open>bslz4_ctz64\<close>), \<open>popcnt\<close>
  (\<open>__builtin_popcount\<close>) and the step \<open>bits &= bits - 1\<close>, which the collect kernels and the
  low-planes collect use to walk a mask in ascending order. \<open>ones\<close> is that order.
\<close>

definition ones :: "'a::len word \<Rightarrow> nat list" where
  "ones w = filter (bit w) [0..<LENGTH('a)]"

definition ctz :: "'a::len word \<Rightarrow> nat" where
  "ctz w = length (takeWhile (\<lambda>i. \<not> bit w i) [0..<LENGTH('a)])"

definition popcnt :: "'a::len word \<Rightarrow> nat" where
  "popcnt w = length (ones w)"

lemma set_ones: "set (ones w) = {i. bit w i}"
  by (auto simp: ones_def dest: bit_imp_le_length)

lemma ones_eq_Nil [simp]: "ones w = [] \<longleftrightarrow> w = 0"
  using set_ones[of w] by (auto simp: bit_eq_iff dest: bit_imp_le_length simp flip: set_empty)

lemma ones_0 [simp]: "ones 0 = []"
  by simp

lemma sorted_ones [simp]: "sorted (ones w)"
  by (simp add: ones_def sorted_wrt_filter)

lemma distinct_ones [simp]: "distinct (ones w)"
  by (simp add: ones_def)

lemma ones_unique: "sorted xs \<Longrightarrow> distinct xs \<Longrightarrow> set xs = {i. bit w i} \<Longrightarrow> ones w = xs"
  by (rule sorted_distinct_set_unique) (simp_all add: set_ones)

lemma ones_filter:
  assumes "\<And>i. bit w i \<longleftrightarrow> i < n \<and> P i"
  shows "ones (w :: 'a::len word) = filter P [0..<n]"
  by (rule ones_unique) (use assms in \<open>auto simp: sorted_wrt_filter\<close>)

lemma ctz_bit:
  assumes "w \<noteq> 0"
  shows "bit w (ctz w)" and "\<And>i. i < ctz w \<Longrightarrow> \<not> bit w i"
proof -
  let ?P = "\<lambda>i. \<not> bit w i"
  obtain i where i: "bit w i" "i < LENGTH('a)"
    using assms bit_imp_le_length[of w] by (auto simp: bit_eq_iff)
  let ?l = "[0..<LENGTH('a)]"
  have lt: "ctz w < LENGTH('a)"
  proof (rule ccontr)
    assume "\<not> ctz w < LENGTH('a)"
    then have "length (takeWhile ?P ?l) = length ?l"
      using length_takeWhile_le[of ?P ?l] by (simp add: ctz_def)
    then have "takeWhile ?P ?l = ?l" by (metis takeWhile_eq_take take_all le_refl)
    then have "\<forall>j\<in>set ?l. ?P j" by (metis set_takeWhileD)
    then show False using i by auto
  qed
  show "bit w (ctz w)"
    using nth_length_takeWhile[of ?P ?l] lt by (simp add: ctz_def)
  show "\<not> bit w j" if "j < ctz w" for j
  proof -
    have "takeWhile ?P ?l ! j = j" using that lt by (simp add: ctz_def takeWhile_nth)
    moreover have "takeWhile ?P ?l ! j \<in> set (takeWhile ?P ?l)"
      using that by (simp add: ctz_def)
    ultimately show ?thesis by (metis set_takeWhileD)
  qed
qed

text \<open>\<open>w & (w - 1)\<close> clears the lowest set bit.\<close>

lemma clear_lowest:
  assumes "w \<noteq> 0"
  shows "bit (w AND (w - 1)) i \<longleftrightarrow> bit w i \<and> i \<noteq> ctz w"
proof -
  let ?k = "ctz w"
  define h where "h = w AND NOT (mask (Suc ?k))"
  have k: "bit w ?k" "\<And>i. i < ?k \<Longrightarrow> \<not> bit w i" using ctz_bit[OF assms] by auto
  then have kl: "?k < LENGTH('a)" by (auto dest: bit_imp_le_length)
  have bh: "bit h i \<longleftrightarrow> ?k < i \<and> bit w i" for i
    by (auto simp: h_def bit_and_iff bit_not_iff bit_mask_iff dest: bit_imp_le_length)
  have "w = h OR 2 ^ ?k"
  proof (rule bit_word_eqI)
    fix i assume "i < LENGTH('a)"
    then show "bit w i = bit (h OR 2 ^ ?k) i"
      using k(1) k(2)[of i] kl by (cases i ?k rule: linorder_cases) (auto simp: bit_or_iff bh bit_exp_iff)
  qed
  also have "\<dots> = h + 2 ^ ?k"
    by (rule disjunctive_add[symmetric]) (auto simp: bh bit_exp_iff)
  finally have "w - 1 = h + mask ?k" by (simp add: mask_eq_exp_minus_1)
  also have "\<dots> = h OR mask ?k"
    by (rule disjunctive_add) (auto simp: bh bit_mask_iff)
  finally have "bit (w - 1) i \<longleftrightarrow> bit h i \<or> (i < ?k)"
    using kl by (auto simp: bit_or_iff bit_mask_iff)
  then show ?thesis using k(2)[of i] by (auto simp: bit_and_iff bh)
qed

lemma ones_step:
  assumes "w \<noteq> 0"
  shows "ones w = ctz w # ones (w AND (w - 1))"
proof (rule ones_unique)
  have s: "set (ones (w AND (w - 1))) = {i. bit w i \<and> i \<noteq> ctz w}"
    by (simp add: set_ones clear_lowest[OF assms])
  have ge: "ctz w \<le> i" if "bit w i" for i using ctz_bit(2)[OF assms, of i] that by (meson not_le)
  show "sorted (ctz w # ones (w AND (w - 1)))" using s ge by simp
  show "distinct (ctz w # ones (w AND (w - 1)))" using s by simp
  show "set (ctz w # ones (w AND (w - 1))) = {i. bit w i}" using s ctz_bit(1)[OF assms] by auto
qed

lemma popcnt_step: "w \<noteq> 0 \<Longrightarrow> popcnt (w AND (w - 1)) < popcnt w"
  using ones_step[of w] by (simp add: popcnt_def)

lemma popcnt_0 [simp]: "popcnt w = 0 \<longleftrightarrow> w = 0"
  by (simp add: popcnt_def)

text \<open>\<open>while (bits) { b = ctz(bits); bits &= bits - 1; f(base + b); }\<close>\<close>

function bits_fold :: "(nat \<Rightarrow> 's \<Rightarrow> 's res) \<Rightarrow> nat \<Rightarrow> 'a::len word \<Rightarrow> 's \<Rightarrow> 's res" where
  "bits_fold f base bits s =
     (if bits = 0 then Inr s
      else rbind (f (base + ctz bits) s) (bits_fold f base (bits AND (bits - 1))))"
  by pat_completeness auto
termination
  by (relation "measure (\<lambda>(f, base, bits, s). popcnt bits)") (auto simp: popcnt_step)

declare bits_fold.simps [simp del]

lemma bits_fold_eq: "bits_fold f base bits s = fold_res f (map (\<lambda>b. base + b) (ones bits)) s"
proof (induction f base bits s rule: bits_fold.induct)
  case (1 f base bits s)
  show ?case
  proof (cases "bits = 0")
    case False
    then show ?thesis
      by (subst bits_fold.simps) (auto simp: ones_step "1.IH" cong: rbind_cong)
  qed (simp add: bits_fold.simps)
qed

end
