(* ===== verification/Simd.thy ===== *)
theory Simd
  imports Bits
begin

text \<open>
  The vector instructions the collect kernels use, on vectors as lists of lanes. Each definition is
  the instruction's own rule, lane by lane; a mask register is a word whose bit \<open>k\<close> stands for lane
  \<open>k\<close>. The lemmas say what a kernel gets from them.
\<close>

section \<open>Compare and select\<close>

text \<open>\<open>cmpgt_epu\<close> / \<open>cmpneq_epu\<close> to a mask register (AVX-512), and \<open>compress\<close> with zeroing.\<close>

definition cmpgt_epu_mask :: "'a::len word list \<Rightarrow> 'a word \<Rightarrow> 'm::len word" where
  "cmpgt_epu_mask v c = word_of_bits (map (\<lambda>x. x > c) v)"

definition cmpneq_epu_mask :: "'a::len word list \<Rightarrow> 'a word \<Rightarrow> 'm::len word" where
  "cmpneq_epu_mask v c = word_of_bits (map (\<lambda>x. x \<noteq> c) v)"

definition maskz_compress :: "'m::len word \<Rightarrow> 'a::len word list \<Rightarrow> 'a word list" where
  "maskz_compress m v = (let s = map (\<lambda>i. v ! i) (ones m) in s @ replicate (length v - length s) 0)"

text \<open>Signed and equality compares to full lanes (SSE2, AVX2); \<open>movemask\<close> takes the sign bits.\<close>

definition cmpgt_epi :: "'a::len word list \<Rightarrow> 'a word list \<Rightarrow> 'a word list" where
  "cmpgt_epi a b = map2 (\<lambda>x y. if y <s x then -1 else 0) a b"

definition cmpeq_epi :: "'a::len word list \<Rightarrow> 'a word list \<Rightarrow> 'a word list" where
  "cmpeq_epi a b = map2 (\<lambda>x y. if x = y then -1 else 0) a b"

definition xor_si :: "'a::len word list \<Rightarrow> 'a word list \<Rightarrow> 'a word list" where
  "xor_si a b = map2 (XOR) a b"

definition add_epi :: "'a::len word list \<Rightarrow> 'a word list \<Rightarrow> 'a word list" where
  "add_epi a b = map2 (+) a b"

definition movemask :: "'a::len word list \<Rightarrow> 32 word" where
  "movemask v = word_of_bits (map (\<lambda>x. bit x (LENGTH('a) - 1)) v)"

definition sat8 :: "16 word \<Rightarrow> 8 word" where
  "sat8 x = (if sint x > 127 then 127 else if sint x < -128 then -128 else ucast x)"

definition packs_epi16 :: "16 word list \<Rightarrow> 16 word list \<Rightarrow> 8 word list" where
  "packs_epi16 a b = map sat8 a @ map sat8 b"

definition packs_epi16_256 :: "16 word list \<Rightarrow> 16 word list \<Rightarrow> 8 word list" where
  "packs_epi16_256 a b =
     packs_epi16 (take 8 a) (take 8 b) @ packs_epi16 (drop 8 a) (drop 8 b)"

lemma length_cmpgt_epi [simp]: "length (cmpgt_epi a b) = min (length a) (length b)"
  by (simp add: cmpgt_epi_def)

lemma length_cmpeq_epi [simp]: "length (cmpeq_epi a b) = min (length a) (length b)"
  by (simp add: cmpeq_epi_def)

lemma length_xor_si [simp]: "length (xor_si a b) = min (length a) (length b)"
  by (simp add: xor_si_def)

lemma length_add_epi [simp]: "length (add_epi a b) = min (length a) (length b)"
  by (simp add: add_epi_def)

lemma length_packs_epi16 [simp]: "length (packs_epi16 a b) = length a + length b"
  by (simp add: packs_epi16_def)

lemma bit_cmpgt_epu_mask: "bit (cmpgt_epu_mask v c :: 'm::len word) k \<longleftrightarrow> k < LENGTH('m) \<and> k < length v \<and> v ! k > c"
  by (auto simp: cmpgt_epu_mask_def)

lemma bit_cmpneq_epu_mask: "bit (cmpneq_epu_mask v c :: 'm::len word) k \<longleftrightarrow> k < LENGTH('m) \<and> k < length v \<and> v ! k \<noteq> c"
  by (auto simp: cmpneq_epu_mask_def)

lemma bit_movemask: "bit (movemask (v :: 'a::len word list)) k \<longleftrightarrow> k < 32 \<and> k < length v \<and> bit (v ! k) (LENGTH('a) - 1)"
  by (auto simp: movemask_def)

text \<open>XOR with the sign bit turns the unsigned order into the signed one.\<close>

lemma uint_take_length: "take_bit LENGTH('a) (uint (x :: 'a::len word)) = uint x"
  by (rule bit_eqI) (auto simp: bit_take_bit_iff bit_uint_iff dest: bit_imp_le_length)

definition sign_bit :: "'a::len word" where
  "sign_bit = push_bit (LENGTH('a) - 1) 1"

lemma bit_sign_bit: "bit (sign_bit :: 'a::len word) k \<longleftrightarrow> k = LENGTH('a) - 1"
  by (auto simp: sign_bit_def bit_simps)

lemma sign_bit_16: "sign_bit = (0x8000 :: 16 word)"
  by (simp add: sign_bit_def)

lemma sign_bit_32: "sign_bit = (0x80000000 :: 32 word)"
  by (simp add: sign_bit_def)

lemma sint_bias: "sint (x XOR sign_bit) = uint (x :: 'a::len word) - 2 ^ (LENGTH('a) - 1)"
proof -
  obtain n where n: "LENGTH('a) = Suc n" by (metis gr0_implies_Suc len_gt_0)
  let ?s = "2 ^ n :: int"
  have b: "bit (x XOR sign_bit) i = (bit x i \<noteq> (i = n))" for i
    using n by (simp add: bit_xor_iff bit_sign_bit)
  have t: "take_bit n (uint (x XOR sign_bit)) = take_bit n (uint x)"
    by (rule bit_eqI) (use b in \<open>auto simp: bit_take_bit_iff bit_uint_iff\<close>)
  have "bit (uint (x XOR sign_bit)) n \<longleftrightarrow> \<not> bit x n"
    using b[of n] n by (simp add: bit_uint_iff)
  then have "sint (x XOR sign_bit) = take_bit n (uint x) - (if bit x n then 0 else ?s)"
    using t n by (simp add: sint_uint signed_take_bit_eq_take_bit_minus take_bit_Suc_from_most of_bool_def)
  moreover have "uint x = take_bit n (uint x) + (if bit x n then ?s else 0)"
  proof -
    have "uint x = take_bit (Suc n) (uint x)" using n by (metis uint_take_length)
    then show ?thesis using n by (simp add: take_bit_Suc_from_most bit_uint_iff of_bool_def split: if_splits)
  qed
  moreover have "LENGTH('a) - 1 = n" using n by simp
  moreover define u where "u = take_bit n (uint x)"
  ultimately have "sint (x XOR sign_bit) = u - (if bit x n then 0 else ?s)"
    "uint x = u + (if bit x n then ?s else 0)" "LENGTH('a) - 1 = n" by simp_all
  then show ?thesis by auto
qed

lemma sless_bias: "(a XOR sign_bit <s b XOR sign_bit) \<longleftrightarrow> a < (b :: 'a::len word)"
  by (simp add: word_sless_alt sint_bias word_less_def)

lemma cmpgt_bias_nth:
  assumes "k < length v" "length v = n"
  shows "cmpgt_epi (xor_si v (replicate n sign_bit)) (xor_si (replicate n c) (replicate n sign_bit)) ! k
    = (if v ! k > (c :: 'a::len word) then -1 else 0)"
  using assms by (simp add: cmpgt_epi_def xor_si_def sless_bias)

text \<open>The pixels of a group, from the word of its selected lanes.\<close>

lemma maskz_compress_eq:
  "length v = LENGTH('m) \<Longrightarrow> maskz_compress (m :: 'm::len word) v
    = map (\<lambda>i. v ! i) (ones m) @ replicate (length v - popcnt m) 0"
  by (simp add: maskz_compress_def popcnt_def)

lemma popcnt_le: "popcnt (m :: 'm::len word) \<le> LENGTH('m)"
  using length_filter_le[of "bit m" "[0..<LENGTH('m)]"] by (simp add: popcnt_def ones_def)

lemma length_maskz_compress: "length v = LENGTH('m) \<Longrightarrow> length (maskz_compress (m :: 'm::len word) v) = LENGTH('m)"
  using popcnt_le[of m] by (simp add: maskz_compress_eq popcnt_def)

section \<open>Shuffles\<close>

text \<open>
  \<open>vpermd\<close>, \<open>pshufb\<close> and \<open>punpcklbw\<close>, the widening \<open>cvtepu8_epi32\<close>, and the view of eight 16-bit lanes
  as sixteen bytes and back.
\<close>

definition permutevar8x32 :: "32 word list \<Rightarrow> 32 word list \<Rightarrow> 32 word list" where
  "permutevar8x32 v ctl = map (\<lambda>c. v ! (unat c mod 8)) ctl"

definition cvtepu8_epi32 :: "byte list \<Rightarrow> 32 word list" where
  "cvtepu8_epi32 b = map ucast (take 8 b)"

definition unpacklo_epi8 :: "byte list \<Rightarrow> byte list \<Rightarrow> byte list" where
  "unpacklo_epi8 a b = concat (map2 (\<lambda>x y. [x, y]) (take 8 a) (take 8 b))"

definition shuffle_epi8 :: "byte list \<Rightarrow> byte list \<Rightarrow> byte list" where
  "shuffle_epi8 v ctl = map (\<lambda>c. if bit c 7 then 0 else v ! (unat c mod 16)) ctl"

definition bytes_of_u16 :: "16 word list \<Rightarrow> byte list" where
  "bytes_of_u16 v = concat (map (\<lambda>x. [ucast x, ucast (drop_bit 8 x)]) v)"

fun u16_of_bytes :: "byte list \<Rightarrow> 16 word list" where
  "u16_of_bytes (l # h # bs) = (ucast l OR push_bit 8 (ucast h)) # u16_of_bytes bs"
| "u16_of_bytes bs = []"

definition bytes_of_u64 :: "64 word \<Rightarrow> byte list" where
  "bytes_of_u64 w = map (\<lambda>i. ucast (drop_bit (8 * i) w)) [0..<8]"

lemma length_bytes_of_u64 [simp]: "length (bytes_of_u64 w) = 8"
  by (simp add: bytes_of_u64_def)

lemma u16_join: "ucast (ucast x :: byte) OR push_bit 8 (ucast (ucast (drop_bit 8 x) :: byte)) = (x :: 16 word)"
proof (rule bit_word_eqI)
  fix n assume "n < LENGTH(16)"
  then show "bit (ucast (ucast x :: byte) OR push_bit 8 (ucast (ucast (drop_bit 8 x) :: byte)) :: 16 word) n = bit x n"
    by (cases "n < 8") (auto simp: bit_simps)
qed

lemma bytes_of_u16_nth:
  "i < length v \<Longrightarrow> bytes_of_u16 v ! (2 * i) = ucast (v ! i) \<and> bytes_of_u16 v ! (2 * i + 1) = ucast (drop_bit 8 (v ! i))"
proof (induction v arbitrary: i)
  case (Cons x v)
  then show ?case by (cases i) (auto simp: bytes_of_u16_def)
qed simp

text \<open>\<open>pshufb\<close> with the byte pairs \<open>2k, 2k + 1\<close> of lane numbers \<open>k\<close> moves whole 16-bit lanes.\<close>

lemma shuffle_pairs:
  assumes "length v = 8" and "\<And>k. k \<in> set sel \<Longrightarrow> k < 8"
  shows "u16_of_bytes (shuffle_epi8 (bytes_of_u16 v) (concat (map (\<lambda>k. [2 * word_of_nat k, 2 * word_of_nat k + 1]) sel)))
    = map (\<lambda>k. v ! k) sel"
  using assms(2)
proof (induction sel)
  case (Cons k sel)
  have "k < 8" using Cons.prems by simp
  then have "k = 0 \<or> k = 1 \<or> k = 2 \<or> k = 3 \<or> k = 4 \<or> k = 5 \<or> k = 6 \<or> k = 7" by arith
  then have u: "\<not> bit (2 * word_of_nat k :: byte) 7" "\<not> bit (2 * word_of_nat k + 1 :: byte) 7"
    "unat (2 * word_of_nat k :: byte) mod 16 = 2 * k" "unat (2 * word_of_nat k + 1 :: byte) mod 16 = 2 * k + 1"
    by (elim disjE; simp)+
  have b: "bytes_of_u16 v ! (2 * k) = ucast (v ! k)" "bytes_of_u16 v ! (2 * k + 1) = ucast (drop_bit 8 (v ! k))"
    using bytes_of_u16_nth[of k v] assms(1) \<open>k < 8\<close> by auto
  show ?case using Cons u b
    by (simp add: shuffle_epi8_def u16_join del: push_bit_of_1)
qed (simp add: shuffle_epi8_def)

end
