(* ===== verification/Transposes.thy ===== *)
theory Transposes
  imports Simd Bitplanes
begin

text \<open>
  The 8x8 bit transposes of \<open>src/steps/lowplanes.h\<close> and \<open>src/steps/lowplanes_avx2.hpp\<close>. A group is 64
  pixels: \<open>A ! p\<close> are the 8 bytes of bit plane \<open>p\<close>, and the result is one byte per pixel. GFNI does it
  with a permutation and a matrix product, AVX2 with unpacks and three delta swaps, VSX with two
  permutations and \<open>vgbbd\<close>; each is proved equal to \<open>group_bytes\<close>.
\<close>

definition group_bytes :: "byte list list \<Rightarrow> byte list" where
  "group_bytes A = map (\<lambda>j. word_of_bits (map (\<lambda>p. bit (A ! p ! (j div 8)) (j mod 8)) [0..<8])) [0..<64]"

definition group_ok :: "byte list list \<Rightarrow> bool" where
  "group_ok A \<longleftrightarrow> length A = 8 \<and> (\<forall>p<8. length (A ! p) = 8)"

lemma length_group_bytes [simp]: "length (group_bytes A) = 64"
  by (simp add: group_bytes_def)

lemma bit_group_bytes: "j < 64 \<Longrightarrow> p < 8 \<Longrightarrow> bit (group_bytes A ! j) p = bit (A ! p ! (j div 8)) (j mod 8)"
  by (simp add: group_bytes_def)

lemma group_bytesI:
  assumes "length xs = 64" "\<And>q j p. q < 8 \<Longrightarrow> j < 8 \<Longrightarrow> p < 8 \<Longrightarrow> bit (xs ! (8 * q + j)) p = bit (A ! p ! q) j"
  shows "xs = group_bytes A"
proof (rule nth_equalityI)
  fix i assume "i < length xs"
  then have i: "i < 64" "i div 8 < 8" "i mod 8 < 8" "8 * (i div 8) + i mod 8 = i" using assms(1) by auto
  show "xs ! i = group_bytes A ! i"
    by (rule byte_bits_eqI) (use assms(2)[OF i(2,3)] i in \<open>simp add: bit_group_bytes\<close>)
qed (use assms(1) in simp)

lemma all_below_8: "(\<forall>q<8. P q) \<longleftrightarrow> P 0 \<and> P 1 \<and> P 2 \<and> P 3 \<and> P 4 \<and> P 5 \<and> P 6 \<and> P (7 :: nat)"
proof -
  have "(\<forall>q<8. P q) \<longleftrightarrow> (\<forall>q\<in>{..<8}. P q)" by blast
  also have "{..<8 :: nat} = {0, 1, 2, 3, 4, 5, 6, 7}" by auto
  finally show ?thesis by simp
qed

section \<open>GFNI\<close>

text \<open>\<open>vpermi2b\<close>: index bit 6 chooses the source; \<open>gf2p8affineqb\<close> with a zero constant.\<close>

definition permutex2var_epi8 :: "byte list \<Rightarrow> byte list \<Rightarrow> byte list \<Rightarrow> byte list" where
  "permutex2var_epi8 a idx b = map (\<lambda>i. (if bit i 6 then b else a) ! (unat i mod 64)) idx"

definition gf2p8affine :: "byte list \<Rightarrow> byte list \<Rightarrow> byte list" where
  "gf2p8affine x A =
     map (\<lambda>k. word_of_bits (map (\<lambda>i. odd (popcnt (A ! (8 * (k div 8) + (7 - i)) AND x ! k))) [0..<8])) [0..<64]"

definition vbmi_C :: "byte list" where
  "vbmi_C = concat (map bytes_of_u64
     [0x0008101840485058, 0x0109111941495159, 0x020a121a424a525a, 0x030b131b434b535b,
      0x040c141c444c545c, 0x050d151d454d555d, 0x060e161e464e565e, 0x070f171f474f575f])"

definition vbmi_I8 :: "byte list" where
  "vbmi_I8 = concat (replicate 8 (bytes_of_u64 0x8040201008040201))"

text \<open>The 64 pixel bytes; the upper halves of the widened sources are never selected.\<close>

definition vbmi_transpose :: "byte list list \<Rightarrow> byte list" where
  "vbmi_transpose A =
     (let v0 = A ! 0 @ A ! 1 @ A ! 2 @ A ! 3; v1 = A ! 4 @ A ! 5 @ A ! 6 @ A ! 7 in
      gf2p8affine vbmi_I8 (permutex2var_epi8 (v0 @ replicate 32 0) vbmi_C (v1 @ replicate 32 0)))"

lemma vbmi_C_index: "q < 8 \<Longrightarrow> i < 8 \<Longrightarrow> vbmi_C ! (8 * q + (7 - i)) = word_of_nat (if i < 4 then 8 * i + q else 64 + 8 * (i - 4) + q)"
proof -
  have "\<forall>q<8. \<forall>i<8. vbmi_C ! (8 * q + (7 - i)) = word_of_nat (if i < 4 then 8 * i + q else 64 + 8 * (i - 4) + q)"
    unfolding all_below_8 by code_simp
  then show "q < 8 \<Longrightarrow> i < 8 \<Longrightarrow> ?thesis" by blast
qed

lemma length_vbmi_C: "length vbmi_C = 64"
  by (simp add: vbmi_C_def)

lemma vbmi_I8_nth: "q < 8 \<Longrightarrow> j < 8 \<Longrightarrow> vbmi_I8 ! (8 * q + j) = push_bit j 1"
proof -
  have "\<forall>q<8. \<forall>j<8. vbmi_I8 ! (8 * q + j) = push_bit j 1"
    unfolding all_below_8 by code_simp
  then show "q < 8 \<Longrightarrow> j < 8 \<Longrightarrow> ?thesis" by blast
qed

lemma odd_popcnt_bit: "j < LENGTH('a) \<Longrightarrow> odd (popcnt (x AND push_bit j 1 :: 'a::len word)) \<longleftrightarrow> bit x j"
proof -
  assume j: "j < LENGTH('a)"
  have "ones (x AND push_bit j 1) = (if bit x j then [j] else [])"
    by (rule ones_unique) (use j in \<open>auto simp: bit_and_iff bit_exp_iff\<close>)
  then show ?thesis by (simp add: popcnt_def)
qed

lemma four_rows: "length a = 8 \<Longrightarrow> length b = 8 \<Longrightarrow> length c = 8 \<Longrightarrow> length d = 8 \<Longrightarrow> q < 8 \<Longrightarrow> i < 4
    \<Longrightarrow> (a @ b @ c @ d @ z) ! (8 * i + q) = [a, b, c, d] ! i ! q"
  by (cases "i = 0 \<or> i = 1 \<or> i = 2 \<or> i = 3") (auto simp: nth_append)

lemma vbmi_transpose_eq:
  assumes "group_ok A"
  shows "vbmi_transpose A = group_bytes A"
proof -
  have l: "length (A ! p) = 8" if "p < 8" for p using assms that by (simp add: group_ok_def)
  let ?v0 = "A ! 0 @ A ! 1 @ A ! 2 @ A ! 3 @ replicate 32 0" and ?v1 = "A ! 4 @ A ! 5 @ A ! 6 @ A ! 7 @ replicate 32 0"
  let ?u = "permutex2var_epi8 ?v0 vbmi_C ?v1"
  have u: "?u ! (8 * q + (7 - i)) = A ! i ! q" if "q < 8" "i < 8" for q i
  proof -
    have n: "8 * q + (7 - i) < 64" using that by linarith
    have c: "vbmi_C ! (8 * q + (7 - i)) = word_of_nat (if i < 4 then 8 * i + q else 64 + 8 * (i - 4) + q)"
      by (rule vbmi_C_index[OF that])
    have b: "\<not> bit (word_of_nat m :: byte) 6" "unat (word_of_nat m :: byte) mod 64 = m" if "m < 64" for m :: nat
      using that bit_iff_odd[of m 6] by (simp_all add: bit_of_nat_iff unat_of_nat)
    have b2: "bit (word_of_nat (64 + m) :: byte) 6" "unat (word_of_nat (64 + m) :: byte) mod 64 = m" if "m < 64" for m :: nat
    proof -
      have "(64 + m) div 64 = 1" using that by (simp add: div_nat_eqI)
      then show "bit (word_of_nat (64 + m) :: byte) 6" "unat (word_of_nat (64 + m) :: byte) mod 64 = m"
        using that bit_iff_odd[of "64 + m" 6] by (simp_all add: bit_of_nat_iff unat_of_nat del: of_nat_add)
    qed
    show ?thesis
    proof (cases "i < 4")
      case True
      then have "8 * i + q < 64" using that by simp
      then have "?u ! (8 * q + (7 - i)) = ?v0 ! (8 * i + q)"
        using n c True b[of "8 * i + q"] by (simp add: permutex2var_epi8_def length_vbmi_C del: of_nat_add)
      also have "\<dots> = [A ! 0, A ! 1, A ! 2, A ! 3] ! i ! q"
        by (rule four_rows) (use l that True in auto)
      also have "\<dots> = A ! i ! q" using True by (cases "i = 0 \<or> i = 1 \<or> i = 2 \<or> i = 3") (auto simp: nth_Cons')
      finally show ?thesis .
    next
      case False
      define k where "k = i - 4"
      have k: "i = 4 + k" "k < 4" using False that by (auto simp: k_def)
      have "8 * k + q < 64" using that k by simp
      then have "?u ! (8 * q + (7 - i)) = ?v1 ! (8 * k + q)"
        using n c k b2[of "8 * k + q"] by (simp add: permutex2var_epi8_def length_vbmi_C add.assoc del: of_nat_add)
      also have "\<dots> = [A ! 4, A ! 5, A ! 6, A ! 7] ! k ! q"
        by (rule four_rows) (use l that k in auto)
      also have "\<dots> = A ! i ! q" using k by (cases "k = 0 \<or> k = 1 \<or> k = 2 \<or> k = 3") (auto simp: nth_Cons')
      finally show ?thesis .
    qed
  qed
  have "vbmi_transpose A = gf2p8affine vbmi_I8 ?u" by (simp add: vbmi_transpose_def)
  also have "\<dots> = group_bytes A"
  proof (rule group_bytesI)
    show "length (gf2p8affine vbmi_I8 ?u) = 64" by (simp add: gf2p8affine_def)
    fix q j p :: nat assume a: "q < 8" "j < 8" "p < 8"
    then have n: "8 * q + j < 64" by simp
    then have "bit (gf2p8affine vbmi_I8 ?u ! (8 * q + j)) p = odd (popcnt (?u ! (8 * q + (7 - p)) AND push_bit j 1))"
      using a vbmi_I8_nth[OF a(1,2)] by (simp add: gf2p8affine_def del: push_bit_of_1)
    then show "bit (gf2p8affine vbmi_I8 ?u ! (8 * q + j)) p = bit (A ! p ! q) j"
      using u[OF a(1,3)] a by (simp add: odd_popcnt_bit del: push_bit_of_1)
  qed
  finally show ?thesis .
qed

section \<open>AVX2\<close>

text \<open>
  \<open>vpunpcklwd\<close> and \<open>vpunpckhwd\<close> on 256 bits work in each 128-bit half; \<open>vpermd\<close> moves dwords. The
  registers are byte lists.
\<close>

definition unpack16 :: "byte list \<Rightarrow> byte list \<Rightarrow> byte list" where
  "unpack16 a b = concat (map (\<lambda>i. [a ! (2 * i), a ! (2 * i + 1), b ! (2 * i), b ! (2 * i + 1)]) [0..<4])"

definition unpacklo_epi16_256 :: "byte list \<Rightarrow> byte list \<Rightarrow> byte list" where
  "unpacklo_epi16_256 a b = unpack16 (take 8 a) (take 8 b) @ unpack16 (take 8 (drop 16 a)) (take 8 (drop 16 b))"

definition unpackhi_epi16_256 :: "byte list \<Rightarrow> byte list \<Rightarrow> byte list" where
  "unpackhi_epi16_256 a b = unpack16 (take 8 (drop 8 a)) (take 8 (drop 8 b)) @ unpack16 (drop 24 a) (drop 24 b)"

definition permd :: "byte list \<Rightarrow> nat list \<Rightarrow> byte list" where
  "permd v ctl = concat (map (\<lambda>c. take 4 (drop (4 * c) v)) ctl)"

definition avx2_PERM :: "nat list" where
  "avx2_PERM = [0, 4, 1, 5, 2, 6, 3, 7]"

definition u64_of_bytes :: "byte list \<Rightarrow> 64 word" where
  "u64_of_bytes bs = word_of_bits (concat (map (\<lambda>b. map (bit b) [0..<8]) bs))"

text \<open>One delta swap: \<open>v = (u ^ (u >> s)) & M; u = (u ^ (v << s)) ^ v\<close>.\<close>

definition delta_swap :: "nat \<Rightarrow> 64 word \<Rightarrow> 64 word \<Rightarrow> 64 word" where
  "delta_swap s M u = (let v = (u XOR drop_bit s u) AND M in (u XOR push_bit s v) XOR v)"

definition avx2_tr64 :: "64 word \<Rightarrow> 64 word" where
  "avx2_tr64 u = delta_swap 28 0x00000000f0f0f0f0 (delta_swap 14 0x0000cccc0000cccc (delta_swap 7 0x00aa00aa00aa00aa u))"

text \<open>The transpose of four 8-byte rows of a register.\<close>

definition avx2_tr256 :: "byte list \<Rightarrow> byte list" where
  "avx2_tr256 u = concat (map (\<lambda>q. bytes_of_u64 (avx2_tr64 (u64_of_bytes (take 8 (drop (8 * q) u))))) [0..<4])"

definition avx2_transpose :: "byte list list \<Rightarrow> byte list \<times> byte list" where
  "avx2_transpose A =
     (let u0 = unpacklo_epi8 (A ! 0) (A ! 1) @ unpacklo_epi8 (A ! 4) (A ! 5);
          u1 = unpacklo_epi8 (A ! 2) (A ! 3) @ unpacklo_epi8 (A ! 6) (A ! 7);
          v0 = unpacklo_epi16_256 u0 u1; v1 = unpackhi_epi16_256 u0 u1 in
      (avx2_tr256 (permd v0 avx2_PERM), avx2_tr256 (permd v1 avx2_PERM)))"

lemma bit_u64_of_bytes: "length bs = 8 \<Longrightarrow> k < 64 \<Longrightarrow> bit (u64_of_bytes bs) k = bit (bs ! (k div 8)) (k mod 8)"
proof -
  assume a: "length bs = 8" "k < 64"
  have k: "k div 8 < length bs" "k mod 8 < 8" "8 * (k div 8) + k mod 8 = k" using a by auto
  have "concat (map (\<lambda>b. map (bit b) [0..<8]) bs) ! (8 * (k div 8) + k mod 8) = map (bit (bs ! (k div 8))) [0..<8] ! (k mod 8)"
    by (rule concat_same_nth) (use k in auto)
  then show ?thesis using a k(3) by (simp add: u64_of_bytes_def length_concat_same)
qed

lemma bit_delta_swap:
  "bit (delta_swap s M u) k = (let v = \<lambda>i. (bit u i \<noteq> bit u (s + i)) \<and> bit M i in
     (bit u k \<noteq> (s \<le> k \<and> k < 64 \<and> v (k - s))) \<noteq> v k)"
  by (auto simp: delta_swap_def Let_def bit_xor_iff bit_and_iff bit_push_bit_iff bit_drop_bit_eq)

lemma bool_cancel: "(a = (a = b)) = (b :: bool)" "(a = (b = a)) = (b :: bool)" "((a = b) = a) = (b :: bool)"
  by blast+

lemma avx2_tr64_bits: "\<forall>j<8. \<forall>p<8. bit (avx2_tr64 u) (8 * j + p) = bit u (8 * p + j)"
  unfolding all_below_8 avx2_tr64_def bit_delta_swap Let_def
  by (simp add: bool_cancel) (simp add: numeral_2_eq_2)

lemma avx2_tr64_row:
  assumes "length bs = 8" "j < 8" "p < 8"
  shows "bit (bytes_of_u64 (avx2_tr64 (u64_of_bytes bs)) ! j) p = bit (bs ! p) j"
proof -
  have "bit (bytes_of_u64 (avx2_tr64 (u64_of_bytes bs)) ! j) p = bit (avx2_tr64 (u64_of_bytes bs)) (8 * j + p)"
    using assms by (simp add: bytes_of_u64_def bit_simps)
  also have "\<dots> = bit (u64_of_bytes bs) (8 * p + j)" using avx2_tr64_bits assms(2,3) by blast
  also have "\<dots> = bit (bs ! p) j" using assms by (simp add: bit_u64_of_bytes)
  finally show ?thesis .
qed

lemma eight_list: "length xs = 8 \<Longrightarrow> xs = [xs ! 0, xs ! 1, xs ! 2, xs ! 3, xs ! 4, xs ! 5, xs ! 6, xs ! 7]"
  by (rule nth_equalityI) (auto simp: less_Suc_eq numeral_eq_Suc)

text \<open>The rows of a register after the unpacks and the permutation: one byte of each plane.\<close>

definition plane_row :: "byte list list \<Rightarrow> nat \<Rightarrow> byte list" where
  "plane_row A q = map (\<lambda>p. A ! p ! q) [0..<8]"

lemma length_plane_row: "length (plane_row A q) = 8"
  by (simp add: plane_row_def)

lemma plane_row_nth: "p < 8 \<Longrightarrow> plane_row A q ! p = A ! p ! q"
  by (simp add: plane_row_def)

lemma upt_consts: "[0..<8] = [0, 1, 2, 3, 4, 5, 6, 7]" "[0..<4] = [0, 1, 2, 3]" "[4..<8] = [4, 5, 6, 7]"
  by code_simp+

lemma plane_row_eq: "plane_row A q = [A ! 0 ! q, A ! 1 ! q, A ! 2 ! q, A ! 3 ! q, A ! 4 ! q, A ! 5 ! q, A ! 6 ! q, A ! 7 ! q]"
  by (simp add: plane_row_def upt_consts)

lemma avx2_rows:
  assumes "group_ok A"
  defines "u0 \<equiv> unpacklo_epi8 (A ! 0) (A ! 1) @ unpacklo_epi8 (A ! 4) (A ! 5)"
    and "u1 \<equiv> unpacklo_epi8 (A ! 2) (A ! 3) @ unpacklo_epi8 (A ! 6) (A ! 7)"
  shows "permd (unpacklo_epi16_256 u0 u1) avx2_PERM = concat (map (plane_row A) [0..<4])"
    and "permd (unpackhi_epi16_256 u0 u1) avx2_PERM = concat (map (plane_row A) [4..<8])"
proof -
  have l: "length (A ! p) = 8" if "p < 8" for p using assms(1) that by (simp add: group_ok_def)
  have u: "unpacklo_epi8 (A ! p) (A ! r) = [A ! p ! 0, A ! r ! 0, A ! p ! 1, A ! r ! 1, A ! p ! 2, A ! r ! 2,
      A ! p ! 3, A ! r ! 3, A ! p ! 4, A ! r ! 4, A ! p ! 5, A ! r ! 5, A ! p ! 6, A ! r ! 6, A ! p ! 7, A ! r ! 7]"
    if "p < 8" "r < 8" for p r
    by (subst (1) eight_list[OF l[OF that(1)]], subst (1) eight_list[OF l[OF that(2)]]) (simp add: unpacklo_epi8_def)
  show "permd (unpacklo_epi16_256 u0 u1) avx2_PERM = concat (map (plane_row A) [0..<4])"
    "permd (unpackhi_epi16_256 u0 u1) avx2_PERM = concat (map (plane_row A) [4..<8])"
    unfolding u0_def u1_def
    by (simp_all add: u permd_def unpacklo_epi16_256_def unpackhi_epi16_256_def unpack16_def avx2_PERM_def plane_row_eq upt_consts)
qed

lemma avx2_tr256_rows:
  assumes "length rows = 4" "\<And>r. r \<in> set rows \<Longrightarrow> length r = 8" "q < 4" "j < 8" "p < 8"
  shows "length (avx2_tr256 (concat rows)) = 32" and "bit (avx2_tr256 (concat rows) ! (8 * q + j)) p = bit (rows ! q ! p) j"
proof -
  have r: "take 8 (drop (8 * q) (concat rows)) = rows ! q" if "q < 4" for q
    by (rule nth_equalityI) (use that assms(1,2) concat_same_nth[of rows "\<lambda>x. x" 8 q] length_concat_same[of rows "\<lambda>x. x" 8] in auto)
  show "length (avx2_tr256 (concat rows)) = 32" by (simp add: avx2_tr256_def length_concat_same)
  have "avx2_tr256 (concat rows) ! (8 * q + j) = bytes_of_u64 (avx2_tr64 (u64_of_bytes (rows ! q))) ! j"
    unfolding avx2_tr256_def by (subst concat_same_nth) (use assms(3,4) r in auto)
  then show "bit (avx2_tr256 (concat rows) ! (8 * q + j)) p = bit (rows ! q ! p) j"
    using avx2_tr64_row[of "rows ! q" j p] assms by simp
qed

lemma avx2_transpose_eq:
  assumes "group_ok A"
  shows "fst (avx2_transpose A) @ snd (avx2_transpose A) = group_bytes A"
    and "length (fst (avx2_transpose A)) = 32" and "length (snd (avx2_transpose A)) = 32"
proof -
  have f: "fst (avx2_transpose A) = avx2_tr256 (concat (map (plane_row A) [0..<4]))"
    "snd (avx2_transpose A) = avx2_tr256 (concat (map (plane_row A) [4..<8]))"
    using avx2_rows[OF assms] by (simp_all add: avx2_transpose_def Let_def)
  have lo: "bit (avx2_tr256 (concat (map (plane_row A) [0..<4])) ! (8 * q + j)) p = bit (A ! p ! q) j"
    if "q < 4" "j < 8" "p < 8" for q j p
  proof -
    have "bit (avx2_tr256 (concat (map (plane_row A) [0..<4])) ! (8 * q + j)) p = bit (map (plane_row A) [0..<4] ! q ! p) j"
      by (rule avx2_tr256_rows(2)) (use that in \<open>auto simp: length_plane_row\<close>)
    then show ?thesis using that by (simp add: plane_row_def)
  qed
  have hi: "bit (avx2_tr256 (concat (map (plane_row A) [4..<8])) ! (8 * q + j)) p = bit (A ! p ! (4 + q)) j"
    if "q < 4" "j < 8" "p < 8" for q j p
  proof -
    have "bit (avx2_tr256 (concat (map (plane_row A) [4..<8])) ! (8 * q + j)) p = bit (map (plane_row A) [4..<8] ! q ! p) j"
      by (rule avx2_tr256_rows(2)) (use that in \<open>auto simp: length_plane_row\<close>)
    also have "map (plane_row A) [4..<8] ! q = plane_row A (4 + q)"
      by (rule nth_map_upt) (use that in simp)
    finally show ?thesis by (simp only: plane_row_nth[OF that(3)])
  qed
  show l: "length (fst (avx2_transpose A)) = 32" "length (snd (avx2_transpose A)) = 32"
    by (simp_all add: f avx2_tr256_def length_concat_same)
  show "fst (avx2_transpose A) @ snd (avx2_transpose A) = group_bytes A"
  proof (rule group_bytesI)
    fix q j p :: nat assume a: "q < 8" "j < 8" "p < 8"
    show "bit ((fst (avx2_transpose A) @ snd (avx2_transpose A)) ! (8 * q + j)) p = bit (A ! p ! q) j"
    proof (cases "q < 4")
      case True
      then show ?thesis using lo[of q j p] a l(1) by (simp add: f nth_append)
    next
      case False
      define r where "r = q - 4"
      have r: "q = 4 + r" "r < 4" using False a by (auto simp: r_def)
      then show ?thesis using hi[of r j p] a l by (simp add: f nth_append)
    qed
  qed (use l in simp)
qed

section \<open>VSX\<close>

text \<open>\<open>vec_perm\<close> on the 32 bytes of its two sources, and \<open>vgbbd\<close>: an 8x8 bit transpose per doubleword.\<close>

definition vec_perm :: "byte list \<Rightarrow> byte list \<Rightarrow> nat list \<Rightarrow> byte list" where
  "vec_perm a b P = map (\<lambda>i. (a @ b) ! i) P"

definition vec_gb :: "byte list \<Rightarrow> byte list" where
  "vec_gb v = map (\<lambda>k. word_of_bits (map (\<lambda>p. bit (v ! (8 * (k div 8) + p)) (k mod 8)) [0..<8])) [0..<16]"

definition vsx_P1l :: "nat list" where "vsx_P1l = [0, 8, 16, 24, 1, 9, 17, 25, 2, 10, 18, 26, 3, 11, 19, 27]"
definition vsx_P1h :: "nat list" where "vsx_P1h = [4, 12, 20, 28, 5, 13, 21, 29, 6, 14, 22, 30, 7, 15, 23, 31]"
definition vsx_P2a :: "nat list" where "vsx_P2a = [0, 1, 2, 3, 16, 17, 18, 19, 4, 5, 6, 7, 20, 21, 22, 23]"
definition vsx_P2b :: "nat list" where "vsx_P2b = [8, 9, 10, 11, 24, 25, 26, 27, 12, 13, 14, 15, 28, 29, 30, 31]"

definition vsx_transpose :: "byte list list \<Rightarrow> byte list" where
  "vsx_transpose A =
     (let L0 = A ! 0 @ A ! 1; L1 = A ! 2 @ A ! 3; L2 = A ! 4 @ A ! 5; L3 = A ! 6 @ A ! 7;
          Xl = vec_perm L0 L1 vsx_P1l; Xh = vec_perm L0 L1 vsx_P1h;
          Yl = vec_perm L2 L3 vsx_P1l; Yh = vec_perm L2 L3 vsx_P1h in
      vec_gb (vec_perm Xl Yl vsx_P2a) @ vec_gb (vec_perm Xl Yl vsx_P2b) @
      vec_gb (vec_perm Xh Yh vsx_P2a) @ vec_gb (vec_perm Xh Yh vsx_P2b))"

lemma vsx_rows:
  assumes "group_ok A"
  defines "Xl \<equiv> vec_perm (A ! 0 @ A ! 1) (A ! 2 @ A ! 3) vsx_P1l" and "Xh \<equiv> vec_perm (A ! 0 @ A ! 1) (A ! 2 @ A ! 3) vsx_P1h"
    and "Yl \<equiv> vec_perm (A ! 4 @ A ! 5) (A ! 6 @ A ! 7) vsx_P1l" and "Yh \<equiv> vec_perm (A ! 4 @ A ! 5) (A ! 6 @ A ! 7) vsx_P1h"
  shows "vec_perm Xl Yl vsx_P2a = plane_row A 0 @ plane_row A 1" and "vec_perm Xl Yl vsx_P2b = plane_row A 2 @ plane_row A 3"
    and "vec_perm Xh Yh vsx_P2a = plane_row A 4 @ plane_row A 5" and "vec_perm Xh Yh vsx_P2b = plane_row A 6 @ plane_row A 7"
proof -
  have l: "length (A ! p) = 8" if "p < 8" for p using assms(1) that by (simp add: group_ok_def)
  have x: "vec_perm (A ! p @ A ! q) (A ! r @ A ! s) vsx_P1l = concat (map (\<lambda>i. [A ! p ! i, A ! q ! i, A ! r ! i, A ! s ! i]) [0, 1, 2, 3])"
    "vec_perm (A ! p @ A ! q) (A ! r @ A ! s) vsx_P1h = concat (map (\<lambda>i. [A ! p ! i, A ! q ! i, A ! r ! i, A ! s ! i]) [4, 5, 6, 7])"
    if "p < 8" "q < 8" "r < 8" "s < 8" for p q r s
    using l[OF that(1)] l[OF that(2)] l[OF that(3)] l[OF that(4)]
    by (simp_all add: vec_perm_def vsx_P1l_def vsx_P1h_def nth_append)
  show "vec_perm Xl Yl vsx_P2a = plane_row A 0 @ plane_row A 1" "vec_perm Xl Yl vsx_P2b = plane_row A 2 @ plane_row A 3"
    "vec_perm Xh Yh vsx_P2a = plane_row A 4 @ plane_row A 5" "vec_perm Xh Yh vsx_P2b = plane_row A 6 @ plane_row A 7"
    unfolding Xl_def Yl_def Xh_def Yh_def
    by (simp_all add: x vec_perm_def[of "_ # _"] vsx_P2a_def vsx_P2b_def plane_row_eq)
qed

lemma vec_gb_rows:
  "length a = 8 \<Longrightarrow> length b = 8 \<Longrightarrow> q < 2 \<Longrightarrow> j < 8 \<Longrightarrow> p < 8 \<Longrightarrow> bit (vec_gb (a @ b) ! (8 * q + j)) p = bit ([a, b] ! q ! p) j"
  by (cases "q = 0 \<or> q = 1") (auto simp: vec_gb_def nth_append)

lemma vsx_transpose_eq:
  assumes "group_ok A"
  shows "vsx_transpose A = group_bytes A"
proof -
  have v: "vsx_transpose A = concat (map (\<lambda>r. vec_gb (plane_row A (2 * r) @ plane_row A (2 * r + 1))) [0..<4])"
    using vsx_rows[OF assms] by (simp add: vsx_transpose_def Let_def upt_consts)
  have lg: "length (vec_gb x) = 16" for x by (simp add: vec_gb_def)
  show ?thesis
  proof (rule group_bytesI)
    show "length (vsx_transpose A) = 64" by (simp add: v length_concat_same lg)
    fix q j p :: nat assume a: "q < 8" "j < 8" "p < 8"
    have "8 * q = 16 * (q div 2) + 8 * (q mod 2)" by presburger
    then have q: "q div 2 < 4" "q mod 2 < 2" "8 * q + j = 16 * (q div 2) + (8 * (q mod 2) + j)" using a by auto
    have "vsx_transpose A ! (8 * q + j) = vec_gb (plane_row A (2 * (q div 2)) @ plane_row A (2 * (q div 2) + 1)) ! (8 * (q mod 2) + j)"
      unfolding v q(3) by (subst concat_same_nth) (use q a lg in auto)
    moreover have "bit (vec_gb (plane_row A (2 * (q div 2)) @ plane_row A (2 * (q div 2) + 1)) ! (8 * (q mod 2) + j)) p
        = bit ([plane_row A (2 * (q div 2)), plane_row A (2 * (q div 2) + 1)] ! (q mod 2) ! p) j"
      by (rule vec_gb_rows) (use q a in \<open>auto simp: plane_row_def\<close>)
    moreover have "[plane_row A (2 * (q div 2)), plane_row A (2 * (q div 2) + 1)] ! (q mod 2) = plane_row A q"
      by (cases "even q") (auto elim!: evenE oddE)
    ultimately have "bit (vsx_transpose A ! (8 * q + j)) p = bit (plane_row A q ! p) j" by simp
    then show "bit (vsx_transpose A ! (8 * q + j)) p = bit (A ! p ! q) j"
      using a by (simp add: plane_row_def)
  qed
qed

end
