(* ===== verification/Collect.thy ===== *)
theory Collect
  imports Bits Common
begin

text \<open>
  The scalar collect of \<open>src/steps/collect.hpp\<close> and the contract every collect value must meet. The
  arguments \<open>out_vals\<close> and \<open>out_adr\<close> of a kernel are pointers into larger buffers; here they are the
  buffers from those pointers on. \<open>out\<close> is the kernel's output state: the count \<open>npx\<close> and the two
  buffers. A \<open>NULL\<close> mask is \<open>None\<close>; \<open>P\<close> is the comparison with the cut.
\<close>

record 'a out =
  npx :: nat
  out_vals :: "'a list"
  out_adr :: "32 word list"

definition bslz4_mask_ok :: "byte list option \<Rightarrow> nat \<Rightarrow> bool res" where
  "bslz4_mask_ok msk idx = (case msk of None \<Rightarrow> Inr True | Some m \<Rightarrow> rbind (load m idx) (\<lambda>b. Inr (0 < b)))"

text \<open>\<open>out_vals[npx] = v; out_adr[npx] = (uint32_t) idx; npx++;\<close>\<close>

definition push_px :: "'a \<Rightarrow> nat \<Rightarrow> 'a out \<Rightarrow> 'a out res" where
  "push_px v idx s =
     rbind (store (out_vals s) (npx s) v) (\<lambda>vs.
     rbind (store (out_adr s) (npx s) (word_of_nat idx)) (\<lambda>as.
       Inr \<lparr>npx = npx s + 1, out_vals = vs, out_adr = as\<rparr>))"

text \<open>The scalar loop from pixel \<open>j\<close> on, \<open>k\<close> pixels.\<close>

fun collect_scalar :: "('a \<Rightarrow> bool) \<Rightarrow> 'a list \<Rightarrow> byte list option \<Rightarrow> nat \<Rightarrow> nat \<Rightarrow> nat \<Rightarrow> 'a out \<Rightarrow> 'a out res" where
  "collect_scalar P block msk i0 j 0 s = Inr s"
| "collect_scalar P block msk i0 j (Suc k) s =
     rbind (bslz4_mask_ok msk (j + i0)) (\<lambda>ok.
     rbind (load block j) (\<lambda>v.
     rbind (if ok \<and> P v then push_px v (j + i0) s else Inr s) (\<lambda>s.
       collect_scalar P block msk i0 (j + 1) k s)))"

text \<open>A loop over \<open>k\<close> whole groups of \<open>g\<close> pixels, from pixel \<open>j\<close> on.\<close>

fun group_loop :: "(nat \<Rightarrow> 'a out \<Rightarrow> 'a out res) \<Rightarrow> nat \<Rightarrow> nat \<Rightarrow> nat \<Rightarrow> 'a out \<Rightarrow> 'a out res" where
  "group_loop step g 0 j s = Inr s"
| "group_loop step g (Suc k) j s = rbind (step j s) (\<lambda>s. group_loop step g k (j + g) s)"

text \<open>Groups of \<open>g\<close> while they fit, then the scalar loop: the shape of the x86 and NEON kernels.\<close>

definition collect_groups :: "(nat \<Rightarrow> 'a out \<Rightarrow> 'a out res) \<Rightarrow> nat \<Rightarrow> ('a \<Rightarrow> bool) \<Rightarrow> 'a list \<Rightarrow> byte list option
    \<Rightarrow> nat \<Rightarrow> nat \<Rightarrow> 'a list \<Rightarrow> 32 word list \<Rightarrow> 'a out res" where
  "collect_groups step g P block msk i0 n vals adr =
     rbind (group_loop step g (n div g) 0 \<lparr>npx = 0, out_vals = vals, out_adr = adr\<rparr>) (\<lambda>s.
       collect_scalar P block msk i0 (g * (n div g)) (n - g * (n div g)) s)"

text \<open>\<open>bslz4_collect_gt\<close> and \<open>bslz4_collect_nz\<close> of a type without SIMD kernels.\<close>

definition collect_plain :: "('a \<Rightarrow> bool) \<Rightarrow> 'a list \<Rightarrow> byte list option \<Rightarrow> nat \<Rightarrow> nat \<Rightarrow> 'a list \<Rightarrow> 32 word list
    \<Rightarrow> 'a out res" where
  "collect_plain P block msk i0 n vals adr =
     collect_scalar P block msk i0 0 n \<lparr>npx = 0, out_vals = vals, out_adr = adr\<rparr>"

section \<open>The selection\<close>

definition mask_keeps :: "byte list option \<Rightarrow> nat \<Rightarrow> bool" where
  "mask_keeps msk i = (case msk of None \<Rightarrow> True | Some m \<Rightarrow> m ! i \<noteq> 0)"

definition picks :: "('a \<Rightarrow> bool) \<Rightarrow> 'a list \<Rightarrow> byte list option \<Rightarrow> nat \<Rightarrow> nat \<Rightarrow> bool" where
  "picks P block msk i0 j \<longleftrightarrow> mask_keeps msk (j + i0) \<and> P (block ! j)"

definition picked :: "('a \<Rightarrow> bool) \<Rightarrow> 'a list \<Rightarrow> byte list option \<Rightarrow> nat \<Rightarrow> nat list \<Rightarrow> ('a \<times> 32 word) list" where
  "picked P block msk i0 js = map (\<lambda>j. (block ! j, word_of_nat (j + i0))) (filter (picks P block msk i0) js)"

definition readable :: "'a list \<Rightarrow> byte list option \<Rightarrow> nat \<Rightarrow> nat \<Rightarrow> bool" where
  "readable block msk i0 n \<longleftrightarrow> n \<le> length block \<and> (\<forall>m. msk = Some m \<longrightarrow> i0 + n \<le> length m)"

text \<open>The state holds the list \<open>K\<close>, and its buffers have room for \<open>c\<close> entries.\<close>

definition holds :: "nat \<Rightarrow> 'a out \<Rightarrow> ('a \<times> 32 word) list \<Rightarrow> bool" where
  "holds c s K \<longleftrightarrow> npx s = length K \<and> length K \<le> c \<and> c \<le> length (out_vals s) \<and> c \<le> length (out_adr s)
     \<and> take (length K) (out_vals s) = map fst K \<and> take (length K) (out_adr s) = map snd K"

definition emits :: "nat \<Rightarrow> 'a out \<Rightarrow> ('a \<times> 32 word) list \<Rightarrow> 'a out res \<Rightarrow> bool" where
  "emits c s K r \<longleftrightarrow> (\<exists>s'. r = Inr s' \<and> holds c s' K \<and> length (out_vals s') = length (out_vals s)
     \<and> length (out_adr s') = length (out_adr s))"

text \<open>The list a finished kernel leaves in its buffers.\<close>

definition listed :: "'a out \<Rightarrow> ('a \<times> 32 word) list" where
  "listed s = zip (take (npx s) (out_vals s)) (take (npx s) (out_adr s))"

lemma emits_listed: "emits c s K r \<Longrightarrow> \<exists>s'. r = Inr s' \<and> npx s' = length K \<and> listed s' = K"
  by (auto simp: emits_def holds_def listed_def zip_map_fst_snd)

lemma picked_Nil [simp]: "picked P block msk i0 [] = []"
  by (simp add: picked_def)

lemma picked_append: "picked P block msk i0 (xs @ ys) = picked P block msk i0 xs @ picked P block msk i0 ys"
  by (simp add: picked_def)

lemma picked_Cons: "picked P block msk i0 (j # js)
    = (if picks P block msk i0 j then [(block ! j, word_of_nat (j + i0))] else []) @ picked P block msk i0 js"
  by (simp add: picked_def)

lemma length_picked: "length (picked P block msk i0 js) \<le> length js"
  by (simp add: picked_def)

lemma emits_Inr [simp]: "emits c s K (Inr s') \<longleftrightarrow> holds c s' K \<and> length (out_vals s') = length (out_vals s)
    \<and> length (out_adr s') = length (out_adr s)"
  by (auto simp: emits_def)

lemma emits_Ex: "emits c s K r \<Longrightarrow> \<exists>s'. r = Inr s' \<and> emits c s K (Inr s')"
  by (auto simp: emits_def)

lemma emits_bind:
  assumes "emits c s K r" and "\<And>s'. r = Inr s' \<Longrightarrow> holds c s' K \<Longrightarrow> emits c s' L (f s')"
  shows "emits c s L (rbind r f)"
  using assms by (fastforce simp: emits_def)

lemma mask_ok_Inr: "(\<And>m. msk = Some m \<Longrightarrow> i < length m) \<Longrightarrow> bslz4_mask_ok msk i = Inr (mask_keeps msk i)"
  by (auto simp: bslz4_mask_ok_def mask_keeps_def load_ok word_gt_0 split: option.splits)

lemma readable_mask: "readable block msk i0 n \<Longrightarrow> j < n \<Longrightarrow> msk = Some m \<Longrightarrow> j + i0 < length m"
  by (auto simp: readable_def)

lemma readable_block: "readable block msk i0 n \<Longrightarrow> j < n \<Longrightarrow> j < length block"
  by (auto simp: readable_def)

lemma push_px_emits:
  assumes "holds c s K" "length K < c"
  shows "emits c s (K @ [(v, word_of_nat idx)]) (push_px v idx s)"
  using assms by (simp add: push_px_def holds_def store_ok take_Suc_conv_app_nth flip: take_update_swap)

lemma push_if_emits:
  assumes "holds c s K" "length K < c"
  shows "emits c s (K @ (if b then [(v, word_of_nat idx)] else [])) (if b then push_px v idx s else Inr s)"
  using assms push_px_emits[OF assms] by simp

lemma collect_scalar_emits:
  "readable block msk i0 n \<Longrightarrow> n \<le> c \<Longrightarrow> holds c s K \<Longrightarrow> length K \<le> j \<Longrightarrow> j + k \<le> n
    \<Longrightarrow> emits c s (K @ picked P block msk i0 [j..<j + k]) (collect_scalar P block msk i0 j k s)"
proof (induction k arbitrary: j s K)
  case (Suc k)
  have b: "bslz4_mask_ok msk (j + i0) = Inr (mask_keeps msk (j + i0))" "load block j = Inr (block ! j)"
    using Suc.prems readable_mask[of block msk i0 n j] readable_block[of block msk i0 n j]
    by (auto intro: mask_ok_Inr simp: load_ok)
  let ?K = "K @ (if picks P block msk i0 j then [(block ! j, word_of_nat (j + i0))] else [])"
  have e: "emits c s ?K (if picks P block msk i0 j then push_px (block ! j) (j + i0) s else Inr s)"
    using Suc.prems by (intro push_if_emits) auto
  have u: "[j..<j + Suc k] = j # [Suc j..<Suc j + k]" by (simp add: upt_conv_Cons)
  have "emits c s (?K @ picked P block msk i0 [Suc j..<Suc j + k])
      (rbind (if picks P block msk i0 j then push_px (block ! j) (j + i0) s else Inr s)
        (\<lambda>s. collect_scalar P block msk i0 (Suc j) k s))"
  proof (rule emits_bind[OF e])
    fix s' assume "holds c s' ?K"
    then show "emits c s' (?K @ picked P block msk i0 [Suc j..<Suc j + k]) (collect_scalar P block msk i0 (Suc j) k s')"
      using Suc.prems by (intro Suc.IH) auto
  qed
  then show ?case using b by (simp only: u picked_Cons collect_scalar.simps rbind.simps picks_def append_assoc) simp
qed simp

lemma group_loop_emits:
  assumes step: "\<And>j s K. holds c s K \<Longrightarrow> length K \<le> j \<Longrightarrow> j + g \<le> n
      \<Longrightarrow> emits c s (K @ picked P block msk i0 [j..<j + g]) (step j s)"
  shows "holds c s K \<Longrightarrow> length K \<le> j \<Longrightarrow> j + g * k \<le> n
    \<Longrightarrow> emits c s (K @ picked P block msk i0 [j..<j + g * k]) (group_loop step g k j s)"
proof (induction k arbitrary: j s K)
  case (Suc k)
  let ?p = "picked P block msk i0"
  have e: "emits c s (K @ ?p [j..<j + g]) (step j s)" using Suc.prems by (intro step) auto
  have u: "[j..<j + g * Suc k] = [j..<j + g] @ [j + g..<j + g + g * k]"
    using upt_add_eq_append[of j "j + g" "g * k"] by (simp add: add.assoc)
  have l: "length (K @ ?p [j..<j + g]) \<le> j + g"
    using Suc.prems(2) length_picked[of P block msk i0 "[j..<j + g]"] by simp
  have "emits c s ((K @ ?p [j..<j + g]) @ ?p [j + g..<j + g + g * k]) (rbind (step j s) (\<lambda>s. group_loop step g k (j + g) s))"
    by (rule emits_bind[OF e]) (rule Suc.IH, use l Suc.prems(3) in \<open>auto simp: add.assoc\<close>)
  then show ?case by (simp only: u picked_append group_loop.simps append_assoc)
qed simp

section \<open>The contract of a collect kernel\<close>

text \<open>
  What the callers rely on: a kernel that may read \<open>n\<close> pixels and their mask bytes and has room for
  \<open>n\<close> entries never leaves a buffer, keeps the buffers' sizes and lists the selected pixels in
  order. The room above the count may be overwritten.
\<close>

locale collector =
  fixes kernel :: "'a list \<Rightarrow> byte list option \<Rightarrow> nat \<Rightarrow> nat \<Rightarrow> 'c \<Rightarrow> 'a list \<Rightarrow> 32 word list \<Rightarrow> 'a out res"
    and P :: "'c \<Rightarrow> 'a \<Rightarrow> bool"
  assumes contract: "readable block msk i0 n \<Longrightarrow> n \<le> length vals \<Longrightarrow> n \<le> length adr
    \<Longrightarrow> emits n \<lparr>npx = 0, out_vals = vals, out_adr = adr\<rparr> (picked (P thr) block msk i0 [0..<n])
          (kernel block msk i0 n thr vals adr)"
begin

lemma lists:
  assumes "readable block msk i0 n" "n \<le> length vals" "n \<le> length adr"
  obtains vals' adr' where
    "kernel block msk i0 n thr vals adr
       = Inr \<lparr>npx = length (picked (P thr) block msk i0 [0..<n]), out_vals = vals', out_adr = adr'\<rparr>"
    "length vals' = length vals" "length adr' = length adr"
    "take (length (picked (P thr) block msk i0 [0..<n])) vals' = map fst (picked (P thr) block msk i0 [0..<n])"
    "take (length (picked (P thr) block msk i0 [0..<n])) adr' = map snd (picked (P thr) block msk i0 [0..<n])"
proof -
  from contract[OF assms, of thr] obtain s where "kernel block msk i0 n thr vals adr = Inr s"
    "holds n s (picked (P thr) block msk i0 [0..<n])" "length (out_vals s) = length vals" "length (out_adr s) = length adr"
    by (auto simp: emits_def)
  then show thesis by (intro that[of "out_vals s" "out_adr s"]) (auto simp: holds_def)
qed

lemma no_stop:
  "readable block msk i0 n \<Longrightarrow> n \<le> length vals \<Longrightarrow> n \<le> length adr \<Longrightarrow> kernel block msk i0 n thr vals adr \<noteq> Inl e"
  using contract[of block msk i0 n vals adr thr] by (auto simp: emits_def)

end

lemma holds_init: "n \<le> length vals \<Longrightarrow> n \<le> length adr \<Longrightarrow> holds n \<lparr>npx = 0, out_vals = vals, out_adr = adr\<rparr> []"
  by (simp add: holds_def)

lemma collect_plain_emits:
  assumes "readable block msk i0 n" "n \<le> length vals" "n \<le> length adr"
  shows "emits n \<lparr>npx = 0, out_vals = vals, out_adr = adr\<rparr> (picked P block msk i0 [0..<n])
    (collect_plain P block msk i0 n vals adr)"
  using collect_scalar_emits[OF assms(1) le_refl holds_init[OF assms(2,3)], of 0 n P]
  by (simp add: collect_plain_def)

lemma collect_groups_emits:
  assumes r: "readable block msk i0 n" "n \<le> length vals" "n \<le> length adr"
    and step: "\<And>j s K. holds n s K \<Longrightarrow> length K \<le> j \<Longrightarrow> j + g \<le> n
      \<Longrightarrow> emits n s (K @ picked P block msk i0 [j..<j + g]) (step j s)"
  shows "emits n \<lparr>npx = 0, out_vals = vals, out_adr = adr\<rparr> (picked P block msk i0 [0..<n])
    (collect_groups step g P block msk i0 n vals adr)"
proof -
  let ?m = "g * (n div g)" and ?p = "picked P block msk i0"
  let ?s = "\<lparr>npx = 0, out_vals = vals, out_adr = adr\<rparr>"
  have m: "?m \<le> n" by simp
  have e: "emits n ?s (?p [0..<?m]) (group_loop step g (n div g) 0 ?s)"
    using group_loop_emits[OF step, where s = ?s and K = "[]" and j = 0 and k = "n div g"] holds_init[OF r(2,3)] by simp
  have u: "?p [0..<n] = ?p [0..<?m] @ ?p [?m..<?m + (n - ?m)]"
    using m upt_add_eq_append[of 0 ?m "n - ?m"] by (simp flip: picked_append)
  show ?thesis unfolding collect_groups_def u
  proof (rule emits_bind[OF e])
    fix s' assume "holds n s' (?p [0..<?m])"
    then show "emits n s' (?p [0..<?m] @ ?p [?m..<?m + (n - ?m)]) (collect_scalar P block msk i0 ?m (n - ?m) s')"
      using length_picked[of P block msk i0 "[0..<?m]"] by (intro collect_scalar_emits[OF r(1) le_refl]) auto
  qed
qed

interpretation plain: collector "\<lambda>block msk i0 n P. collect_plain P block msk i0 n" "\<lambda>P. P"
  by unfold_locales (rule collect_plain_emits)

end
