(* ===== verification/CollectX86.thy ===== *)
theory CollectX86
  imports Collect Simd
begin

text \<open>
  The x86 collect kernels of \<open>src/steps/collect.hpp\<close>: AVX-512 compress-store, AVX2 with its lane table
  (u16) or a bit loop (u32), and SSE2. A step is the body of a kernel's vector loop at pixel \<open>j\<close>; the
  full-width stores are checked against the output buffers like every other access.
\<close>

section \<open>Selected lanes\<close>

text \<open>\<open>while (bits) { b = ctz(bits); out[npx] = block[j + b]; ...; bits &= bits - 1; }\<close>\<close>

function bit_loop :: "'a list \<Rightarrow> nat \<Rightarrow> nat \<Rightarrow> 'm::len word \<Rightarrow> 'a out \<Rightarrow> 'a out res" where
  "bit_loop block i0 j bits s =
     (if bits = 0 then Inr s
      else let b = ctz bits in
        rbind (load block (j + b)) (\<lambda>v. rbind (push_px v (j + i0 + b) s) (\<lambda>s.
          bit_loop block i0 j (bits AND (bits - 1)) s)))"
  by pat_completeness auto
termination
  by (relation "measure (\<lambda>(block, i0, j, bits, s). popcnt bits)") (auto simp: popcnt_step)

declare bit_loop.simps [simp del]

definition lane_pixels :: "'a list \<Rightarrow> nat \<Rightarrow> nat \<Rightarrow> nat list \<Rightarrow> ('a \<times> 32 word) list" where
  "lane_pixels block i0 j bs = map (\<lambda>b. (block ! (j + b), word_of_nat (j + b + i0))) bs"

lemma length_lane_pixels [simp]: "length (lane_pixels block i0 j bs) = length bs"
  by (simp add: lane_pixels_def)

lemma lane_pixels_append: "lane_pixels block i0 j (xs @ ys) = lane_pixels block i0 j xs @ lane_pixels block i0 j ys"
  by (simp add: lane_pixels_def)

lemma picked_lanes:
  assumes "\<And>b. bit m b \<longleftrightarrow> b < g \<and> picks P block msk i0 (j + b)"
  shows "picked P block msk i0 [j..<j + g] = lane_pixels block i0 j (ones m)"
proof -
  have "[j..<j + g] = map (\<lambda>b. j + b) [0..<g]"
    using map_add_upt[of j g] by (simp add: add.commute)
  then show ?thesis using ones_filter[of m g "\<lambda>b. picks P block msk i0 (j + b)"] assms
    by (simp add: picked_def lane_pixels_def filter_map comp_def)
qed

lemma bit_loop_emits:
  "holds c s K \<Longrightarrow> length K + popcnt bits \<le> c \<Longrightarrow> (\<And>b. bit bits b \<Longrightarrow> j + b < length block)
    \<Longrightarrow> emits c s (K @ lane_pixels block i0 j (ones bits)) (bit_loop block i0 j bits s)"
proof (induction block i0 j bits s arbitrary: K rule: bit_loop.induct)
  case (1 block i0 j bits s)
  show ?case
  proof (cases "bits = 0")
    case True
    then show ?thesis using "1.prems" by (simp add: bit_loop.simps lane_pixels_def)
  next
    case False
    let ?b = "ctz bits" and ?r = "bits AND (bits - 1)"
    let ?K = "K @ [(block ! (j + ?b), word_of_nat (j + i0 + ?b))]"
    have b: "bit bits ?b" using ctz_bit(1)[OF False] .
    have p: "popcnt bits = Suc (popcnt ?r)" using ones_step[OF False] by (simp add: popcnt_def)
    have e: "emits c s ?K (push_px (block ! (j + ?b)) (j + i0 + ?b) s)"
      using "1.prems"(1,2) p by (intro push_px_emits) auto
    have "emits c s (?K @ lane_pixels block i0 j (ones ?r))
        (rbind (push_px (block ! (j + ?b)) (j + i0 + ?b) s) (\<lambda>s. bit_loop block i0 j ?r s))"
    proof (rule emits_bind[OF e])
      fix s' assume i: "push_px (block ! (j + ?b)) (j + i0 + ?b) s = Inr s'" and h: "holds c s' ?K"
      have l: "load block (j + ?b) = Inr (block ! (j + ?b))" using "1.prems"(3)[OF b] by (rule load_ok)
      show "emits c s' (?K @ lane_pixels block i0 j (ones ?r)) (bit_loop block i0 j ?r s')"
        by (rule "1.IH"[OF False refl l i h]) (use "1.prems" p in \<open>auto simp: clear_lowest[OF False]\<close>)
    qed
    moreover have "?K @ lane_pixels block i0 j (ones ?r) = K @ lane_pixels block i0 j (ones bits)"
      by (simp add: ones_step[OF False] lane_pixels_def ac_simps)
    ultimately show ?thesis
      using False "1.prems"(3)[OF b] by (simp add: bit_loop.simps[of block i0 j bits] load_ok Let_def)
  qed
qed

section \<open>Full-width stores\<close>

text \<open>A store of \<open>vs\<close> followed by junk lanes appends \<open>vs\<close> to what the buffer holds.\<close>

lemma take_blit_append:
  "length K = p \<Longrightarrow> p + length vs + length pad \<le> length xs
    \<Longrightarrow> take (p + length vs) (blit xs p (vs @ pad)) = take p xs @ vs"
  by (simp add: blit_def)

lemma take_blit_keep: "p + length vs \<le> length xs \<Longrightarrow> n \<le> p \<Longrightarrow> take n (blit xs p vs) = take n xs"
  by (simp add: blit_def)

lemma holds_append:
  assumes "holds c s K" "length K + length L \<le> c"
    "length vs = length (out_vals s)" "take (length K + length L) vs = take (length K) (out_vals s) @ map fst L"
    "length as = length (out_adr s)" "take (length K + length L) as = take (length K) (out_adr s) @ map snd L"
  shows "emits c s (K @ L) (Inr \<lparr>npx = length K + length L, out_vals = vs, out_adr = as\<rparr>)"
  using assms by (auto simp: holds_def)

lemma map_fst_lane_pixels: "map fst (lane_pixels block i0 j bs) = map (\<lambda>b. block ! (j + b)) bs"
  by (simp add: lane_pixels_def)

lemma map_snd_lane_pixels: "map snd (lane_pixels block i0 j bs) = map (\<lambda>b. word_of_nat (j + b + i0)) bs"
  by (simp add: lane_pixels_def)

section \<open>AVX-512\<close>

definition iota16 :: "32 word list" where
  "iota16 = [0, 1, 2, 3, 4, 5, 6, 7, 8, 9, 10, 11, 12, 13, 14, 15]"

definition avx512cs_u16_step :: "16 word list \<Rightarrow> byte list option \<Rightarrow> nat \<Rightarrow> 16 word \<Rightarrow> nat \<Rightarrow> 16 word out \<Rightarrow> 16 word out res" where
  "avx512cs_u16_step block msk i0 thr j s =
     rbind (load_n block j 32) (\<lambda>v.
     let m = cmpgt_epu_mask v thr :: 32 word in
     rbind (case msk of None \<Rightarrow> Inr m
            | Some mb \<Rightarrow> rbind (load_n mb (j + i0) 32) (\<lambda>b. Inr (m AND cmpneq_epu_mask b 0))) (\<lambda>m.
     if m = 0 then Inr s
     else
       rbind (store_n (out_vals s) (npx s) (maskz_compress m v)) (\<lambda>vs.
       let lo = add_epi (replicate 16 (word_of_nat (j + i0))) iota16;
           mlo = ucast m :: 16 word; mhi = ucast (drop_bit 16 m) :: 16 word; nlo = popcnt mlo in
       rbind (store_n (out_adr s) (npx s) (maskz_compress mlo lo)) (\<lambda>as.
       rbind (store_n as (npx s + nlo) (maskz_compress mhi (add_epi lo (replicate 16 16)))) (\<lambda>as.
         Inr \<lparr>npx = npx s + (nlo + popcnt mhi), out_vals = vs, out_adr = as\<rparr>)))))"

definition bslz4_collect_avx512cs_u16 :: "16 word list \<Rightarrow> byte list option \<Rightarrow> nat \<Rightarrow> nat \<Rightarrow> 16 word
    \<Rightarrow> 16 word list \<Rightarrow> 32 word list \<Rightarrow> 16 word out res" where
  "bslz4_collect_avx512cs_u16 block msk i0 n thr =
     collect_groups (avx512cs_u16_step block msk i0 thr) 32 (\<lambda>v. v > thr) block msk i0 n"

definition avx512cs_u32_step :: "32 word list \<Rightarrow> byte list option \<Rightarrow> nat \<Rightarrow> 32 word \<Rightarrow> nat \<Rightarrow> 32 word out \<Rightarrow> 32 word out res" where
  "avx512cs_u32_step block msk i0 thr j s =
     rbind (load_n block j 16) (\<lambda>v.
     let m = cmpgt_epu_mask v thr :: 16 word in
     rbind (case msk of None \<Rightarrow> Inr m
            | Some mb \<Rightarrow> rbind (load_n mb (j + i0) 16) (\<lambda>b. Inr (m AND cmpneq_epu_mask b 0))) (\<lambda>m.
     if m = 0 then Inr s
     else
       rbind (store_n (out_vals s) (npx s) (maskz_compress m v)) (\<lambda>vs.
       rbind (store_n (out_adr s) (npx s)
               (maskz_compress m (add_epi (replicate 16 (word_of_nat (j + i0))) iota16))) (\<lambda>as.
         Inr \<lparr>npx = npx s + popcnt m, out_vals = vs, out_adr = as\<rparr>))))"

definition bslz4_collect_avx512cs_u32 :: "32 word list \<Rightarrow> byte list option \<Rightarrow> nat \<Rightarrow> nat \<Rightarrow> 32 word
    \<Rightarrow> 32 word list \<Rightarrow> 32 word list \<Rightarrow> 32 word out res" where
  "bslz4_collect_avx512cs_u32 block msk i0 n thr =
     collect_groups (avx512cs_u32_step block msk i0 thr) 16 (\<lambda>v. v > thr) block msk i0 n"

text \<open>The group's selection: the compare, and the mask bytes where there is a mask.\<close>

lemma avx512_mask:
  assumes "readable block msk i0 n" "j + g \<le> n" "LENGTH('m) = g"
  shows "\<exists>m :: 'm::len word. (case msk of None \<Rightarrow> Inr (cmpgt_epu_mask (take g (drop j block)) thr)
      | Some mb \<Rightarrow> rbind (load_n mb (j + i0) g) (\<lambda>b. Inr (cmpgt_epu_mask (take g (drop j block)) thr AND cmpneq_epu_mask b 0))) = Inr m
    \<and> (\<forall>b. bit m b \<longleftrightarrow> b < g \<and> picks (\<lambda>v. v > thr) block msk i0 (j + b))"
proof (cases msk)
  case None
  then show ?thesis using assms
    by (auto simp: bit_cmpgt_epu_mask picks_def mask_keeps_def readable_def)
next
  case (Some mb)
  then have "j + i0 + g \<le> length mb" "j + g \<le> length block" using assms by (auto simp: readable_def)
  then show ?thesis using Some assms(3)
    by (auto simp: load_n_ok bit_and_iff bit_cmpgt_epu_mask bit_cmpneq_epu_mask picks_def mask_keeps_def ac_simps)
qed

lemma ones_lt: "x \<in> set (ones (m :: 'm::len word)) \<Longrightarrow> x < LENGTH('m)"
  by (auto simp: set_ones dest: bit_imp_le_length)

lemma iota16_upt: "iota16 = map word_of_nat [0..<16]"
  by (simp add: iota16_def upt_rec)

lemma length_iota16 [simp]: "length iota16 = 16"
  by (simp add: iota16_def)

lemma iota16_lane: "i < 16 \<Longrightarrow> add_epi (replicate 16 (word_of_nat a)) iota16 ! i = word_of_nat (a + i)"
  by (simp add: add_epi_def iota16_upt)

lemma maskz_compress_lanes:
  assumes "length v = LENGTH('m)" "\<And>i. i < LENGTH('m) \<Longrightarrow> v ! i = f i"
  shows "maskz_compress (m :: 'm::len word) v = map f (ones m) @ replicate (LENGTH('m) - popcnt m) 0"
  using assms by (auto simp: maskz_compress_eq dest!: ones_lt)

lemma ones_halves:
  "ones (m :: 32 word) = ones (ucast m :: 16 word) @ map (\<lambda>b. b + 16) (ones (ucast (drop_bit 16 m) :: 16 word))"
proof (rule ones_unique)
  let ?lo = "ones (ucast m :: 16 word)" and ?hi = "ones (ucast (drop_bit 16 m) :: 16 word)"
  have lo: "x < 16" if "x \<in> set ?lo" for x using ones_lt[OF that] by simp
  show "sorted (?lo @ map (\<lambda>b. b + 16) ?hi)"
    using lo by (auto simp: sorted_append sorted_map intro: sorted_wrt_mono_rel[OF _ sorted_ones] less_imp_le trans_le_add2)
  show "distinct (?lo @ map (\<lambda>b. b + 16) ?hi)"
    using lo by (auto simp: distinct_map inj_on_def)
  show "set (?lo @ map (\<lambda>b. b + 16) ?hi) = {i. bit m i}"
  proof (intro set_eqI iffI)
    fix i assume "i \<in> {i. bit m i}"
    then have "bit m i" "i < 32" by (auto dest: bit_imp_le_length)
    then show "i \<in> set (?lo @ map (\<lambda>b. b + 16) ?hi)"
      by (cases "i < 16") (auto simp: set_ones bit_simps image_iff intro!: exI[of _ "i - 16"])
  qed (auto simp: set_ones bit_simps add.commute)
qed

lemma avx512cs_u16_step_emits:
  assumes r: "readable block msk i0 n" and h: "holds n s K" "length K \<le> j" "j + 32 \<le> n"
  shows "emits n s (K @ picked (\<lambda>v. v > thr) block msk i0 [j..<j + 32]) (avx512cs_u16_step block msk i0 thr j s)"
proof -
  define v where "v = take 32 (drop j block)"
  have b: "j + 32 \<le> length block" using r h(3) by (auto simp: readable_def)
  then have ld: "load_n block j 32 = Inr v" and lv: "length v = 32" by (simp_all add: v_def load_n_ok)
  obtain m :: "32 word" where sel: "(case msk of None \<Rightarrow> Inr (cmpgt_epu_mask v thr)
      | Some mb \<Rightarrow> rbind (load_n mb (j + i0) 32) (\<lambda>b. Inr (cmpgt_epu_mask v thr AND cmpneq_epu_mask b 0))) = Inr m"
    and m: "\<And>b. bit m b \<longleftrightarrow> b < 32 \<and> picks (\<lambda>v. v > thr) block msk i0 (j + b)"
    using avx512_mask[OF r h(3), of thr, where 'm = 32] unfolding v_def by auto
  note pk = picked_lanes[OF m]
  show ?thesis
  proof (cases "m = 0")
    case True
    then show ?thesis using h(1) by (simp add: avx512cs_u16_step_def ld sel Let_def pk lane_pixels_def)
  next
    case False
    let ?lo = "ucast m :: 16 word" and ?hi = "ucast (drop_bit 16 m) :: 16 word"
    let ?alo = "add_epi (replicate 16 (word_of_nat (j + i0))) iota16"
    let ?ahi = "add_epi ?alo (replicate 16 16)"
    have np: "npx s = length K" "length K + 32 \<le> length (out_vals s)" "length K + 32 \<le> length (out_adr s)"
      using h by (auto simp: holds_def)
    have pc: "popcnt m = popcnt ?lo + popcnt ?hi" by (simp add: popcnt_def ones_halves[of m])
    have la: "length ?alo = 16" "length ?ahi = 16" by (simp_all add: iota16_def)
    have cv: "maskz_compress m v = map (\<lambda>b. block ! (j + b)) (ones m) @ replicate (32 - popcnt m) 0"
      using maskz_compress_lanes[of v "\<lambda>b. block ! (j + b)" m] lv b by (simp add: v_def)
    have clo: "maskz_compress ?lo ?alo = map (\<lambda>b. word_of_nat (j + b + i0)) (ones ?lo) @ replicate (16 - popcnt ?lo) 0"
    proof -
      have "?alo ! i = word_of_nat (j + i + i0)" if "i < 16" for i
        using iota16_lane[OF that, of "j + i0"] by (simp add: ac_simps)
      then show ?thesis using maskz_compress_lanes[of ?alo "\<lambda>b. word_of_nat (j + b + i0)" ?lo] la by simp
    qed
    have chi: "maskz_compress ?hi ?ahi = map (\<lambda>b. word_of_nat (j + (b + 16) + i0)) (ones ?hi) @ replicate (16 - popcnt ?hi) 0"
    proof -
      have "?ahi ! i = word_of_nat (j + (i + 16) + i0)" if "i < 16" for i
        using that la iota16_lane[OF that, of "j + i0"] unfolding add_epi_def[of ?alo] by (simp add: ac_simps)
      then show ?thesis using maskz_compress_lanes[of ?ahi "\<lambda>b. word_of_nat (j + (b + 16) + i0)" ?hi] la by simp
    qed
    have lc: "length (maskz_compress m v) = 32" "length (maskz_compress ?lo ?alo) = 16" "length (maskz_compress ?hi ?ahi) = 16"
      using lv la by (simp_all add: length_maskz_compress)
    have pl: "popcnt ?lo \<le> 16" "popcnt ?hi \<le> 16" "popcnt m \<le> 32"
      using popcnt_le[of ?lo] popcnt_le[of ?hi] popcnt_le[of m] by simp_all
    define vs where "vs = blit (out_vals s) (length K) (maskz_compress m v)"
    define a1 where "a1 = blit (out_adr s) (length K) (maskz_compress ?lo ?alo)"
    define a2 where "a2 = blit a1 (length K + popcnt ?lo) (maskz_compress ?hi ?ahi)"
    have l: "length vs = length (out_vals s)" "length a1 = length (out_adr s)" "length a2 = length (out_adr s)"
      using np lc pl by (simp_all add: vs_def a1_def a2_def length_blit)
    have st: "avx512cs_u16_step block msk i0 thr j s
        = Inr \<lparr>npx = length K + length (lane_pixels block i0 j (ones m)), out_vals = vs, out_adr = a2\<rparr>"
      using False np lc pl l pc unfolding avx512cs_u16_step_def ld rbind.simps Let_def sel vs_def a1_def a2_def
      by (simp add: store_n_ok popcnt_def)
    have tv: "take (length K + length (lane_pixels block i0 j (ones m))) vs
        = take (length K) (out_vals s) @ map fst (lane_pixels block i0 j (ones m))"
      unfolding vs_def cv map_fst_lane_pixels length_lane_pixels
      using take_blit_append[of K "length K" "map (\<lambda>b. block ! (j + b)) (ones m)" "replicate (32 - popcnt m) 0" "out_vals s"]
        np pl by (simp add: popcnt_def)
    have t1: "take (length K + popcnt ?lo) a1 = take (length K) (out_adr s) @ map (\<lambda>b. word_of_nat (j + b + i0)) (ones ?lo)"
      unfolding a1_def clo
      using take_blit_append[of K "length K" "map (\<lambda>b. word_of_nat (j + b + i0)) (ones ?lo)" "replicate (16 - popcnt ?lo) 0" "out_adr s"]
        np pl by (simp add: popcnt_def)
    have t2: "take (length K + popcnt ?lo + popcnt ?hi) a2
        = take (length K + popcnt ?lo) a1 @ map (\<lambda>b. word_of_nat (j + (b + 16) + i0)) (ones ?hi)"
      unfolding a2_def chi
      using take_blit_append[of "replicate (length K + popcnt ?lo) 0" "length K + popcnt ?lo"
          "map (\<lambda>b. word_of_nat (j + (b + 16) + i0)) (ones ?hi)" "replicate (16 - popcnt ?hi) 0" a1]
        np pl l by (simp add: popcnt_def)
    have ta: "take (length K + length (lane_pixels block i0 j (ones m))) a2
        = take (length K) (out_adr s) @ map snd (lane_pixels block i0 j (ones m))"
      using t1 t2 unfolding map_snd_lane_pixels by (simp add: ones_halves[of m] popcnt_def comp_def add.assoc)
    show ?thesis unfolding pk st
    proof (rule holds_append[OF h(1) _ l(1) tv l(3) ta])
      show "length K + length (lane_pixels block i0 j (ones m)) \<le> n" using h(2,3) pl by (simp add: popcnt_def)
    qed
  qed
qed

lemma avx512cs_u32_step_emits:
  assumes r: "readable block msk i0 n" and h: "holds n s K" "length K \<le> j" "j + 16 \<le> n"
  shows "emits n s (K @ picked (\<lambda>v. v > thr) block msk i0 [j..<j + 16]) (avx512cs_u32_step block msk i0 thr j s)"
proof -
  define v where "v = take 16 (drop j block)"
  have b: "j + 16 \<le> length block" using r h(3) by (auto simp: readable_def)
  then have ld: "load_n block j 16 = Inr v" and lv: "length v = 16" by (simp_all add: v_def load_n_ok)
  obtain m :: "16 word" where sel: "(case msk of None \<Rightarrow> Inr (cmpgt_epu_mask v thr)
      | Some mb \<Rightarrow> rbind (load_n mb (j + i0) 16) (\<lambda>b. Inr (cmpgt_epu_mask v thr AND cmpneq_epu_mask b 0))) = Inr m"
    and m: "\<And>b. bit m b \<longleftrightarrow> b < 16 \<and> picks (\<lambda>v. v > thr) block msk i0 (j + b)"
    using avx512_mask[OF r h(3), of thr, where 'm = 16] unfolding v_def by auto
  note pk = picked_lanes[OF m]
  show ?thesis
  proof (cases "m = 0")
    case True
    then show ?thesis using h(1) by (simp add: avx512cs_u32_step_def ld sel Let_def pk lane_pixels_def)
  next
    case False
    let ?a = "add_epi (replicate 16 (word_of_nat (j + i0))) iota16"
    have np: "npx s = length K" "length K + 16 \<le> length (out_vals s)" "length K + 16 \<le> length (out_adr s)"
      using h by (auto simp: holds_def)
    have pl: "popcnt m \<le> 16" using popcnt_le[of m] by simp
    have cv: "maskz_compress m v = map (\<lambda>b. block ! (j + b)) (ones m) @ replicate (16 - popcnt m) 0"
      using maskz_compress_lanes[of v "\<lambda>b. block ! (j + b)" m] lv b by (simp add: v_def)
    have ca: "maskz_compress m ?a = map (\<lambda>b. word_of_nat (j + b + i0)) (ones m) @ replicate (16 - popcnt m) 0"
    proof -
      have "?a ! i = word_of_nat (j + i + i0)" if "i < 16" for i
        using iota16_lane[OF that, of "j + i0"] by (simp add: ac_simps)
      then show ?thesis using maskz_compress_lanes[of ?a "\<lambda>b. word_of_nat (j + b + i0)" m] by simp
    qed
    define vs where "vs = blit (out_vals s) (length K) (maskz_compress m v)"
    define as where "as = blit (out_adr s) (length K) (maskz_compress m ?a)"
    have lc: "length (maskz_compress m v) = 16" "length (maskz_compress m ?a) = 16"
      using lv by (simp_all add: length_maskz_compress)
    have l: "length vs = length (out_vals s)" "length as = length (out_adr s)"
      using np lc by (simp_all add: vs_def as_def length_blit)
    have st: "avx512cs_u32_step block msk i0 thr j s
        = Inr \<lparr>npx = length K + length (lane_pixels block i0 j (ones m)), out_vals = vs, out_adr = as\<rparr>"
      using False np lc unfolding avx512cs_u32_step_def ld rbind.simps Let_def sel vs_def as_def
      by (simp add: store_n_ok popcnt_def)
    have tv: "take (length K + length (lane_pixels block i0 j (ones m))) vs
        = take (length K) (out_vals s) @ map fst (lane_pixels block i0 j (ones m))"
      unfolding vs_def cv map_fst_lane_pixels length_lane_pixels
      using take_blit_append[of K "length K" "map (\<lambda>b. block ! (j + b)) (ones m)" "replicate (16 - popcnt m) 0" "out_vals s"]
        np pl by (simp add: popcnt_def)
    have ta: "take (length K + length (lane_pixels block i0 j (ones m))) as
        = take (length K) (out_adr s) @ map snd (lane_pixels block i0 j (ones m))"
      unfolding as_def ca map_snd_lane_pixels length_lane_pixels
      using take_blit_append[of K "length K" "map (\<lambda>b. word_of_nat (j + b + i0)) (ones m)" "replicate (16 - popcnt m) 0" "out_adr s"]
        np pl by (simp add: popcnt_def)
    show ?thesis unfolding pk st
    proof (rule holds_append[OF h(1) _ l(1) tv l(2) ta])
      show "length K + length (lane_pixels block i0 j (ones m)) \<le> n" using h(2,3) pl by (simp add: popcnt_def)
    qed
  qed
qed

interpretation avx512cs_u16: collector bslz4_collect_avx512cs_u16 "\<lambda>thr v. v > thr"
  unfolding bslz4_collect_avx512cs_u16_def
  by unfold_locales (rule collect_groups_emits, assumption+, rule avx512cs_u16_step_emits)

interpretation avx512cs_u32: collector bslz4_collect_avx512cs_u32 "\<lambda>thr v. v > thr"
  unfolding bslz4_collect_avx512cs_u32_def
  by unfold_locales (rule collect_groups_emits, assumption+, rule avx512cs_u32_step_emits)

section \<open>SSE2, and AVX2 for u32: a bit loop\<close>

definition sse2_u16_step :: "16 word list \<Rightarrow> byte list option \<Rightarrow> nat \<Rightarrow> 16 word \<Rightarrow> nat \<Rightarrow> 16 word out \<Rightarrow> 16 word out res" where
  "sse2_u16_step block msk i0 thr j s =
     rbind (case msk of None \<Rightarrow> Inr (0xFF :: 32 word)
            | Some mb \<Rightarrow> rbind (load_n mb (j + i0) 8) (\<lambda>b.
                Inr (NOT (movemask (cmpeq_epi (b @ replicate 8 0) (replicate 16 0))) AND 0xFF))) (\<lambda>mnz8.
     rbind (load_n block j 8) (\<lambda>v.
     let bias = replicate 8 0x8000; vcut_b = xor_si (replicate 8 thr) bias;
         gt = cmpgt_epi (xor_si v bias) vcut_b;
         mgt8 = movemask (packs_epi16 gt gt) AND 0xFF in
     bit_loop block i0 j (mnz8 AND mgt8) s))"

definition bslz4_collect_sse2_u16 :: "16 word list \<Rightarrow> byte list option \<Rightarrow> nat \<Rightarrow> nat \<Rightarrow> 16 word
    \<Rightarrow> 16 word list \<Rightarrow> 32 word list \<Rightarrow> 16 word out res" where
  "bslz4_collect_sse2_u16 block msk i0 n thr =
     collect_groups (sse2_u16_step block msk i0 thr) 8 (\<lambda>v. v > thr) block msk i0 n"

definition sse2_u32_step :: "32 word list \<Rightarrow> byte list option \<Rightarrow> nat \<Rightarrow> 32 word \<Rightarrow> nat \<Rightarrow> 32 word out \<Rightarrow> 32 word out res" where
  "sse2_u32_step block msk i0 thr j s =
     rbind (case msk of None \<Rightarrow> Inr (0xF :: 32 word)
            | Some mb \<Rightarrow> rbind (load_n mb (j + i0) 4) (\<lambda>b.
                Inr (NOT (movemask (cmpeq_epi (b @ replicate 12 0) (replicate 16 0))) AND 0xF))) (\<lambda>mnz4.
     rbind (load_n block j 4) (\<lambda>v.
     let bias = replicate 4 0x80000000; vcut_b = xor_si (replicate 4 thr) bias;
         gt = cmpgt_epi (xor_si v bias) vcut_b in
     bit_loop block i0 j (mnz4 AND movemask gt) s))"

definition bslz4_collect_sse2_u32 :: "32 word list \<Rightarrow> byte list option \<Rightarrow> nat \<Rightarrow> nat \<Rightarrow> 32 word
    \<Rightarrow> 32 word list \<Rightarrow> 32 word list \<Rightarrow> 32 word out res" where
  "bslz4_collect_sse2_u32 block msk i0 n thr =
     collect_groups (sse2_u32_step block msk i0 thr) 4 (\<lambda>v. v > thr) block msk i0 n"

definition avx2cs_u32_step :: "32 word list \<Rightarrow> byte list option \<Rightarrow> nat \<Rightarrow> 32 word \<Rightarrow> nat \<Rightarrow> 32 word out \<Rightarrow> 32 word out res" where
  "avx2cs_u32_step block msk i0 thr j s =
     rbind (case msk of None \<Rightarrow> Inr (0xFF :: 32 word)
            | Some mb \<Rightarrow> rbind (load_n mb (j + i0) 8) (\<lambda>b.
                Inr (NOT (movemask (cmpeq_epi (b @ replicate 8 0) (replicate 16 0))) AND 0xFF))) (\<lambda>mnz8.
     rbind (load_n block j 8) (\<lambda>v.
     let bias = replicate 8 0x80000000; vcut_b = xor_si (replicate 8 thr) bias;
         gt = cmpgt_epi (xor_si v bias) vcut_b in
     bit_loop block i0 j (mnz8 AND movemask gt) s))"

definition bslz4_collect_avx2cs_u32 :: "32 word list \<Rightarrow> byte list option \<Rightarrow> nat \<Rightarrow> nat \<Rightarrow> 32 word
    \<Rightarrow> 32 word list \<Rightarrow> 32 word list \<Rightarrow> 32 word out res" where
  "bslz4_collect_avx2cs_u32 block msk i0 n thr =
     collect_groups (avx2cs_u32_step block msk i0 thr) 8 (\<lambda>v. v > thr) block msk i0 n"

lemma mask_bits:
  assumes "length b = g" "g \<le> 16"
  shows "bit (NOT (movemask (cmpeq_epi (b @ replicate (16 - g) 0) (replicate 16 0))) AND mask g) k
    \<longleftrightarrow> k < g \<and> b ! k \<noteq> (0 :: byte)"
  using assms by (auto simp: bit_and_iff bit_not_iff bit_mask_iff bit_movemask cmpeq_epi_def nth_append)

lemma mask_consts: "(0xF :: 32 word) = mask 4" "(0xFF :: 32 word) = mask 8" "(0xFFFF :: 32 word) = mask 16"
  by (simp_all add: mask_eq_exp_minus_1)

text \<open>The mask bits of a group, read from memory or all set.\<close>

lemma group_mask:
  assumes "readable block msk i0 n" "j + g \<le> n" "g \<le> 16" "p = 16 - g"
  shows "\<exists>m :: 32 word. (case msk of None \<Rightarrow> Inr (mask g)
      | Some mb \<Rightarrow> rbind (load_n mb (j + i0) g) (\<lambda>b.
          Inr (NOT (movemask (cmpeq_epi (b @ replicate p 0) (replicate 16 0))) AND mask g))) = Inr m
    \<and> (\<forall>b. bit m b \<longleftrightarrow> b < g \<and> mask_keeps msk (j + b + i0))"
proof (cases msk)
  case None
  then show ?thesis using assms(3) by (auto simp: bit_mask_iff mask_keeps_def)
next
  case (Some mb)
  then have l: "j + i0 + g \<le> length mb" using assms by (auto simp: readable_def)
  have "bit (NOT (movemask (cmpeq_epi (take g (drop (j + i0) mb) @ replicate p 0) (replicate 16 0))) AND mask g) k
    \<longleftrightarrow> k < g \<and> mask_keeps msk (j + k + i0)" for k
    using mask_bits[of "take g (drop (j + i0) mb)" g k] Some l assms(3,4)
    by (auto simp: mask_keeps_def ac_simps)
  then show ?thesis using Some l by (simp add: load_n_ok)
qed

lemma bit_loop_step:
  assumes r: "readable block msk i0 n" and h: "holds n s K" "length K \<le> j" "j + g \<le> n"
    and m: "\<And>b. bit (m :: 32 word) b \<longleftrightarrow> b < g \<and> picks P block msk i0 (j + b)"
  shows "emits n s (K @ picked P block msk i0 [j..<j + g]) (bit_loop block i0 j m s)"
  unfolding picked_lanes[OF m]
proof (rule bit_loop_emits[OF h(1)])
  have "length (ones m) = length (filter (\<lambda>b. picks P block msk i0 (j + b)) [0..<g])"
    using ones_filter[OF m] by simp
  also have "\<dots> \<le> g" using length_filter_le[of _ "[0..<g]"] by simp
  finally show "length K + popcnt m \<le> n" using h(2,3) by (simp add: popcnt_def)
  show "j + b < length block" if "bit m b" for b using that m r h(3) by (auto simp: readable_def)
qed

lemma movemask_gt:
  assumes "length v = n" "n \<le> 32"
  shows "bit (movemask (cmpgt_epi (xor_si v (replicate n sign_bit)) (xor_si (replicate n c) (replicate n sign_bit)))) k
    \<longleftrightarrow> k < n \<and> v ! k > (c :: 'a::len word)"
  using assms cmpgt_bias_nth[of k v n c] by (auto simp: bit_movemask split: if_splits)

lemma sat8_lane: "bit (sat8 (if b then -1 else 0)) 7 \<longleftrightarrow> b"
  by (simp add: sat8_def bit_simps)

lemma sse2_u32_step_emits:
  assumes r: "readable block msk i0 n" and h: "holds n s K" "length K \<le> j" "j + 4 \<le> n"
  shows "emits n s (K @ picked (\<lambda>v. v > thr) block msk i0 [j..<j + 4]) (sse2_u32_step block msk i0 thr j s)"
proof -
  obtain m :: "32 word" where m: "(case msk of None \<Rightarrow> Inr 0xF
      | Some mb \<Rightarrow> rbind (load_n mb (j + i0) 4) (\<lambda>b.
          Inr (NOT (movemask (cmpeq_epi (b @ replicate 12 0) (replicate 16 0))) AND 0xF))) = Inr m"
    "\<And>b. bit m b \<longleftrightarrow> b < 4 \<and> mask_keeps msk (j + b + i0)"
    using group_mask[OF r h(3), of 12] unfolding mask_consts by auto
  have b: "j + 4 \<le> length block" using r h(3) by (auto simp: readable_def)
  then have ld: "load_n block j 4 = Inr (take 4 (drop j block))" by (simp add: load_n_ok)
  show ?thesis
    unfolding sse2_u32_step_def m(1) rbind.simps ld Let_def sign_bit_32[symmetric]
    by (rule bit_loop_step[OF r h])
      (use b in \<open>auto simp: bit_and_iff movemask_gt m(2) picks_def\<close>)
qed

lemma avx2cs_u32_step_emits:
  assumes r: "readable block msk i0 n" and h: "holds n s K" "length K \<le> j" "j + 8 \<le> n"
  shows "emits n s (K @ picked (\<lambda>v. v > thr) block msk i0 [j..<j + 8]) (avx2cs_u32_step block msk i0 thr j s)"
proof -
  obtain m :: "32 word" where m: "(case msk of None \<Rightarrow> Inr 0xFF
      | Some mb \<Rightarrow> rbind (load_n mb (j + i0) 8) (\<lambda>b.
          Inr (NOT (movemask (cmpeq_epi (b @ replicate 8 0) (replicate 16 0))) AND 0xFF))) = Inr m"
    "\<And>b. bit m b \<longleftrightarrow> b < 8 \<and> mask_keeps msk (j + b + i0)"
    using group_mask[OF r h(3), of 8] unfolding mask_consts by auto
  have b: "j + 8 \<le> length block" using r h(3) by (auto simp: readable_def)
  then have ld: "load_n block j 8 = Inr (take 8 (drop j block))" by (simp add: load_n_ok)
  show ?thesis
    unfolding avx2cs_u32_step_def m(1) rbind.simps ld Let_def sign_bit_32[symmetric]
    by (rule bit_loop_step[OF r h])
      (use b in \<open>auto simp: bit_and_iff movemask_gt m(2) picks_def\<close>)
qed

lemma sse2_u16_step_emits:
  assumes r: "readable block msk i0 n" and h: "holds n s K" "length K \<le> j" "j + 8 \<le> n"
  shows "emits n s (K @ picked (\<lambda>v. v > thr) block msk i0 [j..<j + 8]) (sse2_u16_step block msk i0 thr j s)"
proof -
  obtain m :: "32 word" where m: "(case msk of None \<Rightarrow> Inr 0xFF
      | Some mb \<Rightarrow> rbind (load_n mb (j + i0) 8) (\<lambda>b.
          Inr (NOT (movemask (cmpeq_epi (b @ replicate 8 0) (replicate 16 0))) AND 0xFF))) = Inr m"
    "\<And>b. bit m b \<longleftrightarrow> b < 8 \<and> mask_keeps msk (j + b + i0)"
    using group_mask[OF r h(3), of 8] unfolding mask_consts by auto
  have b: "j + 8 \<le> length block" using r h(3) by (auto simp: readable_def)
  then have ld: "load_n block j 8 = Inr (take 8 (drop j block))" by (simp add: load_n_ok)
  define gt where "gt = cmpgt_epi (xor_si (take 8 (drop j block)) (replicate 8 sign_bit))
      (xor_si (replicate 8 thr) (replicate 8 sign_bit))"
  have lg: "length gt = 8" using b by (simp add: gt_def)
  have g: "gt ! k = (if block ! (j + k) > thr then -1 else 0)" if "k < 8" for k
    using that b cmpgt_bias_nth[of k "take 8 (drop j block)" 8 thr] by (simp add: gt_def)
  have "bit (movemask (packs_epi16 gt gt) AND 0xFF) k \<longleftrightarrow> k < 8 \<and> block ! (j + k) > thr" for k
    using g[of k] lg by (auto simp: bit_and_iff mask_consts bit_mask_iff bit_movemask packs_epi16_def nth_append sat8_lane)
  then show ?thesis
    unfolding sse2_u16_step_def m(1) rbind.simps ld Let_def sign_bit_16[symmetric] gt_def[symmetric]
    by (intro bit_loop_step[OF r h]) (auto simp: bit_and_iff m(2) picks_def)
qed

interpretation sse2_u16: collector bslz4_collect_sse2_u16 "\<lambda>thr v. v > thr"
  unfolding bslz4_collect_sse2_u16_def
  by unfold_locales (rule collect_groups_emits, assumption+, rule sse2_u16_step_emits)

interpretation sse2_u32: collector bslz4_collect_sse2_u32 "\<lambda>thr v. v > thr"
  unfolding bslz4_collect_sse2_u32_def
  by unfold_locales (rule collect_groups_emits, assumption+, rule sse2_u32_step_emits)

interpretation avx2cs_u32: collector bslz4_collect_avx2cs_u32 "\<lambda>thr v. v > thr"
  unfolding bslz4_collect_avx2cs_u32_def
  by unfold_locales (rule collect_groups_emits, assumption+, rule avx2cs_u32_step_emits)

end
