(* ===== verification/CollectAvx2.thy ===== *)
theory CollectAvx2
  imports CollectX86
begin

text \<open>
  The AVX2 u16 collect of \<open>src/steps/collect.hpp\<close>: the 256-entry lane table and the kernel that packs
  eight pixels and their addresses at a time with it. \<open>BSLZ4_AVX2CS_SCALAR_MAX\<close> is 1.
\<close>

section \<open>The lane table\<close>

text \<open>\<open>for (b = 0; b < 8; b++) if (m >> b & 1) v |= (uint64_t) b << (8 * k++);\<close>\<close>

fun lut_loop :: "nat \<Rightarrow> nat \<Rightarrow> nat \<Rightarrow> nat \<Rightarrow> 64 word \<Rightarrow> 64 word" where
  "lut_loop m 0 b k v = v"
| "lut_loop m (Suc c) b k v =
     (if bit m b then lut_loop m c (b + 1) (k + 1) (v OR push_bit (8 * k) (word_of_nat b))
      else lut_loop m c (b + 1) k v)"

definition bslz4_avx2cs_lut :: "64 word list" where
  "bslz4_avx2cs_lut = map (\<lambda>m. lut_loop m 8 0 0 0) [0..<256]"

lemma bytes_or_push:
  assumes "b < 256" "k < 8" "i < 8"
  shows "(ucast (drop_bit (8 * i) (v OR push_bit (8 * k) (word_of_nat b) :: 64 word)) :: byte)
    = (if i = k then ucast (drop_bit (8 * i) v) OR word_of_nat b else ucast (drop_bit (8 * i) v))"
proof (rule bit_word_eqI)
  fix t assume "t < LENGTH(8)"
  then have t: "t < 8" by simp
  have h: "\<not> bit b x" if "8 \<le> x" for x
  proof -
    have "b < 2 ^ x" using assms(1) that power_increasing[of 8 x "2 :: nat"] by simp
    then show ?thesis by (simp add: bit_iff_odd)
  qed
  have "bit (push_bit (8 * k) (word_of_nat b) :: 64 word) (8 * i + t) \<longleftrightarrow> i = k \<and> bit b t"
  proof (cases i k rule: linorder_cases)
    case less
    then have "\<not> 8 * k \<le> 8 * i + t" using t by linarith
    then show ?thesis using less by (simp add: bit_push_bit_iff)
  next
    case equal
    then show ?thesis using t assms(3) by (auto simp: bit_simps)
  next
    case greater
    then have "8 \<le> 8 * i + t - 8 * k" by linarith
    then show ?thesis using greater h by (auto simp: bit_push_bit_iff bit_of_nat_iff)
  qed
  then show "bit (ucast (drop_bit (8 * i) (v OR push_bit (8 * k) (word_of_nat b))) :: byte) t
      = bit (if i = k then ucast (drop_bit (8 * i) v) OR word_of_nat b else ucast (drop_bit (8 * i) v) :: byte) t"
    using t by (auto simp: bit_simps add.commute)
qed

text \<open>The bytes of an entry: the set bits' numbers, then zeros.\<close>

lemma lut_loop_bytes:
  "b + c = 8 \<Longrightarrow> ks = filter (bit m) [0..<b] \<Longrightarrow> k = length ks
    \<Longrightarrow> (\<And>i. i < 8 \<Longrightarrow> ucast (drop_bit (8 * i) v) = (if i < k then word_of_nat (ks ! i) else 0 :: byte))
    \<Longrightarrow> i < 8 \<Longrightarrow> (ucast (drop_bit (8 * i) (lut_loop m c b k v)) :: byte)
      = (let l = filter (bit m) [0..<8] in if i < length l then word_of_nat (l ! i) else 0)"
proof (induction c arbitrary: b k v ks)
  case 0
  then show ?case by simp
next
  case (Suc c)
  have kb: "k \<le> b" using Suc.prems(2,3) length_filter_le[of "bit m" "[0..<b]"] by simp
  show ?case
  proof (cases "bit m b")
    case True
    have ks: "ks @ [b] = filter (bit m) [0..<b + 1]" using True Suc.prems(2) by simp
    have "ucast (drop_bit (8 * i) (v OR push_bit (8 * k) (word_of_nat b)))
        = (if i < k + 1 then word_of_nat ((ks @ [b]) ! i) else 0 :: byte)" if "i < 8" for i
      using bytes_or_push[of b k i v] Suc.prems(1,3) Suc.prems(4)[OF that] kb that by (auto simp: nth_append)
    then show ?thesis
      using Suc.IH[OF _ ks, of "k + 1"] Suc.prems(1,3,5) True by simp
  next
    case False
    have ks: "ks = filter (bit m) [0..<b + 1]" using False Suc.prems(2) by simp
    show ?thesis using Suc.IH[OF _ ks Suc.prems(3,4,5)] Suc.prems(1) False by simp
  qed
qed

lemma lut_bytes:
  assumes "m < 256"
  shows "bytes_of_u64 (bslz4_avx2cs_lut ! m)
    = map word_of_nat (filter (bit m) [0..<8]) @ replicate (8 - length (filter (bit m) [0..<8])) 0"
proof (rule nth_equalityI)
  let ?l = "filter (bit m) [0..<8]"
  have ll: "length ?l \<le> 8" using length_filter_le[of "bit m" "[0..<8]"] by simp
  then show "length (bytes_of_u64 (bslz4_avx2cs_lut ! m)) = length (map word_of_nat ?l @ replicate (8 - length ?l) 0)"
    by simp
  fix i assume "i < length (bytes_of_u64 (bslz4_avx2cs_lut ! m))"
  then have i: "i < 8" by simp
  have "(ucast (drop_bit (8 * i) (lut_loop m 8 0 0 0)) :: byte) = (let l = ?l in if i < length l then word_of_nat (l ! i) else 0)"
    by (rule lut_loop_bytes[where ks = "[]"]) (use i in auto)
  then show "bytes_of_u64 (bslz4_avx2cs_lut ! m) ! i = (map word_of_nat ?l @ replicate (8 - length ?l) 0) ! i"
    using assms i by (simp add: bytes_of_u64_def bslz4_avx2cs_lut_def nth_append)
qed

section \<open>The kernel\<close>

definition iota8 :: "32 word list" where
  "iota8 = [0, 1, 2, 3, 4, 5, 6, 7]"

text \<open>The body of \<open>for (h = 0; h < 2; h++)\<close>.\<close>

definition avx2cs_half :: "16 word list \<Rightarrow> nat \<Rightarrow> nat \<Rightarrow> 32 word \<Rightarrow> nat \<Rightarrow> 16 word out \<Rightarrow> 16 word out res" where
  "avx2cs_half block i0 j bits h s =
     (let m = drop_bit (8 * h) bits AND 0xFF;
          sel = bytes_of_u64 (bslz4_avx2cs_lut ! unat m) @ replicate 8 0;
          idx = add_epi (replicate 8 (word_of_nat (j + i0 + 8 * h))) iota8 in
      rbind (store_n (out_adr s) (npx s) (permutevar8x32 idx (cvtepu8_epi32 sel))) (\<lambda>as.
      let s2 = add_epi sel sel; shuf = unpacklo_epi8 s2 (add_epi s2 (replicate 16 1)) in
      rbind (load_n block (j + 8 * h) 8) (\<lambda>v8.
      rbind (store_n (out_vals s) (npx s) (u16_of_bytes (shuffle_epi8 (bytes_of_u16 v8) shuf))) (\<lambda>vs.
        Inr \<lparr>npx = npx s + popcnt m, out_vals = vs, out_adr = as\<rparr>))))"

definition avx2cs_u16_step :: "16 word list \<Rightarrow> byte list option \<Rightarrow> nat \<Rightarrow> 16 word \<Rightarrow> nat \<Rightarrow> 16 word out \<Rightarrow> 16 word out res" where
  "avx2cs_u16_step block msk i0 thr j s =
     rbind (case msk of None \<Rightarrow> Inr (0xFFFF :: 32 word)
            | Some mb \<Rightarrow> rbind (load_n mb (j + i0) 16) (\<lambda>b.
                Inr (NOT (movemask (cmpeq_epi (b @ replicate 0 0) (replicate 16 0))) AND 0xFFFF))) (\<lambda>mnz16.
     rbind (load_n block j 16) (\<lambda>v.
     let bias = replicate 16 0x8000; vcut_b = xor_si (replicate 16 thr) bias;
         gt = cmpgt_epi (xor_si v bias) vcut_b;
         packed = movemask (packs_epi16_256 gt gt);
         bits = mnz16 AND ((packed AND 0xFF) OR (drop_bit 8 packed AND 0xFF00)) in
     if bits = 0 then Inr s
     else if popcnt bits \<le> 1 then bit_loop block i0 j bits s
     else rbind (avx2cs_half block i0 j bits 0 s) (avx2cs_half block i0 j bits 1)))"

definition bslz4_collect_avx2cs_u16 :: "16 word list \<Rightarrow> byte list option \<Rightarrow> nat \<Rightarrow> nat \<Rightarrow> 16 word
    \<Rightarrow> 16 word list \<Rightarrow> 32 word list \<Rightarrow> 16 word out res" where
  "bslz4_collect_avx2cs_u16 block msk i0 n thr =
     collect_groups (avx2cs_u16_step block msk i0 thr) 16 (\<lambda>v. v > thr) block msk i0 n"

section \<open>Its selection\<close>

lemma avx2_packed_bits:
  assumes "length gt = 16" "\<And>k. k < 16 \<Longrightarrow> gt ! k = (if Q k then -1 else 0)"
  shows "bit ((movemask (packs_epi16_256 gt gt) AND 0xFF) OR (drop_bit 8 (movemask (packs_epi16_256 gt gt)) AND 0xFF00)) k
    \<longleftrightarrow> k < 16 \<and> Q k"
proof -
  have c: "bit (0xFF00 :: 32 word) k \<longleftrightarrow> 8 \<le> k \<and> k < 16" for k
  proof -
    have "(0xFF00 :: 32 word) = push_bit 8 (mask 8)" by (simp add: mask_eq_exp_minus_1)
    then show ?thesis by (simp only: bit_push_bit_iff bit_mask_iff) auto
  qed
  have p: "packs_epi16_256 gt gt = map sat8 (take 8 gt) @ map sat8 (take 8 gt) @ map sat8 (drop 8 gt) @ map sat8 (drop 8 gt)"
    by (simp add: packs_epi16_256_def packs_epi16_def)
  have b: "bit (movemask (packs_epi16_256 gt gt)) i \<longleftrightarrow> i < 32 \<and> bit (packs_epi16_256 gt gt ! i) 7" for i
    using assms(1) by (auto simp: bit_movemask p)
  have lo: "packs_epi16_256 gt gt ! k = sat8 (gt ! k)" if "k < 8" for k
    using that assms(1) by (simp add: p nth_append)
  have hi: "packs_epi16_256 gt gt ! (8 + k) = sat8 (gt ! k)" if "8 \<le> k" "k < 16" for k
    using that assms(1) by (simp add: p nth_append less_diff_conv2)
  have lo: "bit (movemask (packs_epi16_256 gt gt)) k \<longleftrightarrow> Q k" if "k < 8" for k
    using that assms(2) lo[OF that] by (simp add: b sat8_lane)
  have hi: "bit (movemask (packs_epi16_256 gt gt)) (8 + k) \<longleftrightarrow> Q k" if "8 \<le> k" "k < 16" for k
    using that assms(2) hi[OF that] by (simp add: b sat8_lane)
  show ?thesis
    using lo[of k] hi[of k] c[of k] by (auto simp: bit_or_iff bit_and_iff mask_consts bit_mask_iff bit_drop_bit_eq)
qed

lemma iota8_upt: "iota8 = map word_of_nat [0..<8]"
  by (simp add: iota8_def upt_rec)

lemma unpacklo_pairs:
  assumes "length ns = 8"
  shows "unpacklo_epi8 (add_epi (map word_of_nat ns @ z) (map word_of_nat ns @ z))
      (add_epi (add_epi (map word_of_nat ns @ z) (map word_of_nat ns @ z)) (replicate 16 1))
    = concat (map (\<lambda>k. [2 * word_of_nat k, 2 * word_of_nat k + 1]) ns)"
proof -
  let ?s = "map word_of_nat ns @ z :: byte list"
  have a: "take 8 (add_epi ?s ?s) = map (\<lambda>k. 2 * word_of_nat k) ns"
    using assms by (intro nth_equalityI) (auto simp: add_epi_def nth_append)
  have b: "take 8 (add_epi (add_epi ?s ?s) (replicate 16 1)) = map (\<lambda>k. 2 * word_of_nat k + 1) ns"
    using assms by (intro nth_equalityI) (auto simp: add_epi_def nth_append)
  show ?thesis unfolding unpacklo_epi8_def a b by (simp add: zip_map_map comp_def zip_same_conv_map)
qed

lemma permute_addresses:
  assumes "length ns = 8" "\<And>k. k \<in> set ns \<Longrightarrow> k < 8"
  shows "permutevar8x32 (add_epi (replicate 8 (word_of_nat a)) iota8) (cvtepu8_epi32 (map word_of_nat ns @ z))
    = map (\<lambda>k. word_of_nat (a + k)) ns"
proof -
  have "add_epi (replicate 8 (word_of_nat a)) iota8 ! (unat (ucast (word_of_nat k :: byte) :: 32 word) mod 8) = word_of_nat (a + k)"
    if "k < 8" for k
  proof -
    have "unat (ucast (word_of_nat k :: byte) :: 32 word) mod 8 = k"
    proof -
      have "k = 0 \<or> k = 1 \<or> k = 2 \<or> k = 3 \<or> k = 4 \<or> k = 5 \<or> k = 6 \<or> k = 7" using that by arith
      then show ?thesis by (elim disjE; simp)
    qed
    then show ?thesis using that by (simp add: add_epi_def iota8_upt)
  qed
  then show ?thesis using assms by (simp add: permutevar8x32_def cvtepu8_epi32_def)
qed

lemma avx2cs_half_emits:
  assumes r: "readable block msk i0 n" and h: "holds n s K" "length K \<le> j + 8 * h" "j + 8 * h + 8 \<le> n"
    and bits: "\<And>b. b < 8 \<Longrightarrow> bit bits (8 * h + b) \<longleftrightarrow> picks P block msk i0 (j + 8 * h + b)"
  shows "emits n s (K @ picked P block msk i0 [j + 8 * h..<j + 8 * h + 8]) (avx2cs_half block i0 j bits h s)"
proof -
  define m where "m = drop_bit (8 * h) bits AND 0xFF"
  let ?j = "j + 8 * h"
  have m: "bit m b \<longleftrightarrow> b < 8 \<and> picks P block msk i0 (?j + b)" for b
    using bits[of b] by (auto simp: m_def bit_and_iff mask_consts bit_mask_iff bit_drop_bit_eq)
  note pk = picked_lanes[OF m]
  have "m = take_bit 8 m" by (rule bit_word_eqI) (auto simp: bit_take_bit_iff m)
  then have "unat m < 256"
    using unsigned_take_bit_eq[of 8 m, where 'a = nat] take_bit_nat_less_exp[of 8 "unat m"] by simp
  note lut = lut_bytes[OF this]
  have o: "filter (bit (unat m)) [0..<8] = ones m"
    using ones_filter[of m 8 "bit (unat m)"] m by (auto simp: bit_unsigned_iff)
  define ns where "ns = ones m @ replicate (8 - popcnt m) 0"
  have pl: "popcnt m \<le> 8"
    using ones_filter[OF m] length_filter_le[of _ "[0..<8]"] by (simp add: popcnt_def)
  have ns: "length ns = 8" "\<And>k. k \<in> set ns \<Longrightarrow> k < 8"
  proof -
    show "length ns = 8" using pl by (simp add: ns_def popcnt_def)
    have "k < 8" if "k \<in> set (ones m)" for k using that by (simp add: set_ones m)
    then show "k < 8" if "k \<in> set ns" for k using that by (auto simp: ns_def split: if_splits)
  qed
  have sel: "bytes_of_u64 (bslz4_avx2cs_lut ! unat m) = map word_of_nat ns"
    unfolding lut o ns_def popcnt_def by simp
  have b: "?j + 8 \<le> length block" using r h(3) by (auto simp: readable_def)
  define v8 where "v8 = take 8 (drop ?j block)"
  have ld: "load_n block ?j 8 = Inr v8" "length v8 = 8" using b by (simp_all add: v8_def load_n_ok)
  have sp: "u16_of_bytes (shuffle_epi8 (bytes_of_u16 v8) (concat (map (\<lambda>k. [2 * word_of_nat k, 2 * word_of_nat k + 1]) ns)))
      = map (\<lambda>k. v8 ! k) ns"
    by (rule shuffle_pairs[OF ld(2)]) (rule ns(2))
  have pa: "permutevar8x32 (add_epi (replicate 8 (word_of_nat a)) iota8) (cvtepu8_epi32 (map word_of_nat ns @ z))
      = map (\<lambda>k. word_of_nat (a + k)) ns" for a z
    by (rule permute_addresses[OF ns(1)]) (rule ns(2))
  have np: "npx s = length K" "length K + 8 \<le> length (out_vals s)" "length K + 8 \<le> length (out_adr s)"
    using h by (auto simp: holds_def)
  define va where "va = map (\<lambda>k. word_of_nat (j + i0 + 8 * h + k) :: 32 word) ns"
  define vv where "vv = map (\<lambda>k. v8 ! k) ns"
  define as where "as = blit (out_adr s) (length K) va"
  define vs where "vs = blit (out_vals s) (length K) vv"
  have l: "length vs = length (out_vals s)" "length as = length (out_adr s)" "length va = 8" "length vv = 8"
    using np ns(1) by (simp_all add: vs_def as_def length_blit va_def vv_def)
  have e: "avx2cs_half block i0 j bits h s = Inr \<lparr>npx = length K + length (lane_pixels block i0 ?j (ones m)), out_vals = vs, out_adr = as\<rparr>"
    using np l
    unfolding avx2cs_half_def Let_def m_def[symmetric] sel ld(1) rbind.simps unpacklo_pairs[OF ns(1)]
      sp pa va_def[symmetric] vv_def[symmetric] as_def vs_def
    by (simp add: store_n_ok popcnt_def)
  have tv: "take (length K + length (lane_pixels block i0 ?j (ones m))) vs
      = take (length K) (out_vals s) @ map fst (lane_pixels block i0 ?j (ones m))"
  proof -
    have "map (\<lambda>k. v8 ! k) (ones m) = map (\<lambda>k. block ! (?j + k)) (ones m)"
      using m b by (auto simp: v8_def set_ones)
    then show ?thesis
      using take_blit_append[of K "length K" "map (\<lambda>k. v8 ! k) (ones m)" "replicate (8 - popcnt m) (v8 ! 0)" "out_vals s"]
        np pl by (simp add: vs_def vv_def ns_def map_fst_lane_pixels popcnt_def)
  qed
  have ta: "take (length K + length (lane_pixels block i0 ?j (ones m))) as
      = take (length K) (out_adr s) @ map snd (lane_pixels block i0 ?j (ones m))"
    using take_blit_append[of K "length K" "map (\<lambda>k. word_of_nat (j + i0 + 8 * h + k)) (ones m)"
        "replicate (8 - popcnt m) (word_of_nat (j + i0 + 8 * h))" "out_adr s"] np pl
    by (simp add: as_def va_def ns_def map_snd_lane_pixels popcnt_def ac_simps)
  show ?thesis unfolding pk e
    by (rule holds_append[OF h(1) _ l(1) tv l(2) ta]) (use h(2,3) pl in \<open>simp add: popcnt_def\<close>)
qed

lemma avx2cs_u16_step_emits:
  assumes r: "readable block msk i0 n" and h: "holds n s K" "length K \<le> j" "j + 16 \<le> n"
  shows "emits n s (K @ picked (\<lambda>v. v > thr) block msk i0 [j..<j + 16]) (avx2cs_u16_step block msk i0 thr j s)"
proof -
  let ?p = "picked (\<lambda>v. v > thr) block msk i0"
  obtain m :: "32 word" where m: "(case msk of None \<Rightarrow> Inr 0xFFFF
      | Some mb \<Rightarrow> rbind (load_n mb (j + i0) 16) (\<lambda>b.
          Inr (NOT (movemask (cmpeq_epi (b @ replicate 0 0) (replicate 16 0))) AND 0xFFFF))) = Inr m"
    "\<And>b. bit m b \<longleftrightarrow> b < 16 \<and> mask_keeps msk (j + b + i0)"
    using group_mask[OF r h(3), of 0] unfolding mask_consts by auto
  have b: "j + 16 \<le> length block" using r h(3) by (auto simp: readable_def)
  then have ld: "load_n block j 16 = Inr (take 16 (drop j block))" by (simp add: load_n_ok)
  define gt where "gt = cmpgt_epi (xor_si (take 16 (drop j block)) (replicate 16 sign_bit))
      (xor_si (replicate 16 thr) (replicate 16 sign_bit))"
  have lg: "length gt = 16" using b by (simp add: gt_def)
  have g: "gt ! k = (if block ! (j + k) > thr then -1 else 0)" if "k < 16" for k
    using that b cmpgt_bias_nth[of k "take 16 (drop j block)" 16 thr] by (simp add: gt_def)
  define bits where "bits = m AND ((movemask (packs_epi16_256 gt gt) AND 0xFF)
      OR (drop_bit 8 (movemask (packs_epi16_256 gt gt)) AND 0xFF00))"
  have bits: "bit bits b \<longleftrightarrow> b < 16 \<and> picks (\<lambda>v. v > thr) block msk i0 (j + b)" for b
  proof -
    have "bit ((movemask (packs_epi16_256 gt gt) AND 0xFF) OR (drop_bit 8 (movemask (packs_epi16_256 gt gt)) AND 0xFF00)) b
        \<longleftrightarrow> b < 16 \<and> block ! (j + b) > thr"
      by (rule avx2_packed_bits[OF lg]) (rule g)
    then show ?thesis unfolding bits_def bit_and_iff[of m] using m(2)[of b] by (auto simp: picks_def)
  qed
  have step: "avx2cs_u16_step block msk i0 thr j s
    = (if bits = 0 then Inr s else if popcnt bits \<le> 1 then bit_loop block i0 j bits s
       else rbind (avx2cs_half block i0 j bits 0 s) (avx2cs_half block i0 j bits 1))"
    unfolding avx2cs_u16_step_def m(1) rbind.simps ld Let_def sign_bit_16[symmetric] gt_def[symmetric] bits_def ..
  consider "bits = 0" | "bits \<noteq> 0" "popcnt bits \<le> 1" | "bits \<noteq> 0" "\<not> popcnt bits \<le> 1" by blast
  then show ?thesis
  proof cases
    case 1
    then show ?thesis using h(1) by (simp add: step picked_lanes[OF bits] lane_pixels_def)
  next
    case 2
    then show ?thesis using bit_loop_step[OF r h bits] by (simp add: step)
  next
    case 3
    have u: "?p [j..<j + 16] = ?p [j..<j + 8] @ ?p [j + 8..<j + 16]"
      using upt_add_eq_append[of j "j + 8" 8] by (simp add: add.commute flip: picked_append)
    have e0: "emits n s (K @ ?p [j..<j + 8]) (avx2cs_half block i0 j bits 0 s)"
      using avx2cs_half_emits[OF r h(1), of j 0 bits "\<lambda>v. v > thr"] h(2,3) bits by simp
    have "emits n s ((K @ ?p [j..<j + 8]) @ ?p [j + 8..<j + 16]) (rbind (avx2cs_half block i0 j bits 0 s) (avx2cs_half block i0 j bits 1))"
    proof (rule emits_bind[OF e0])
      fix s' assume "holds n s' (K @ ?p [j..<j + 8])"
      then show "emits n s' ((K @ ?p [j..<j + 8]) @ ?p [j + 8..<j + 16]) (avx2cs_half block i0 j bits 1 s')"
        using avx2cs_half_emits[OF r, of s' "K @ ?p [j..<j + 8]" j 1 bits "\<lambda>v. v > thr"] h(2,3) bits
          length_picked[of "\<lambda>v. v > thr" block msk i0 "[j..<j + 8]"] by (simp add: add.assoc)
    qed
    then show ?thesis using 3 by (simp add: step u)
  qed
qed

interpretation avx2cs_u16: collector bslz4_collect_avx2cs_u16 "\<lambda>thr v. v > thr"
  unfolding bslz4_collect_avx2cs_u16_def
  by unfold_locales (rule collect_groups_emits, assumption+, rule avx2cs_u16_step_emits)

end
