(* ===== verification/CollectTiers.thy ===== *)
theory CollectTiers
  imports CollectAvx2 Pipeline
begin

text \<open>
  The VSX and NEON kernels of \<open>src/steps/collect.hpp\<close>, and \<open>bslz4_collect_gt\<close> / \<open>bslz4_collect_nz\<close> with
  their choice of kernel by the pipeline's collect value and the build. The u16 and the u32 kernel
  of a processor differ in the number \<open>g\<close> of lanes only.
\<close>

section \<open>VSX and NEON\<close>

text \<open>\<open>vec_cmpgt\<close> / \<open>vcgtq\<close>, \<open>vec_any_gt\<close>, and \<open>vmaxvq\<close>.\<close>

definition vec_cmpgt :: "'a::len word list \<Rightarrow> 'a word \<Rightarrow> 'a word list" where
  "vec_cmpgt v c = map (\<lambda>x. if x > c then -1 else 0) v"

definition vec_any_gt :: "'a::len word list \<Rightarrow> 'a word \<Rightarrow> bool" where
  "vec_any_gt v c = list_ex (\<lambda>x. x > c) v"

definition vmaxvq :: "'a::len word list \<Rightarrow> 'a word" where
  "vmaxvq v = foldr max v 0"

text \<open>\<open>for (lane = 0; lane < g; lane++) if (mask_ok && gt[lane]) push v[lane]\<close>: \<open>c\<close> lanes from \<open>lane\<close>.\<close>

fun lane_loop :: "'a::len word list \<Rightarrow> 'a word list \<Rightarrow> byte list option \<Rightarrow> nat \<Rightarrow> nat \<Rightarrow> nat \<Rightarrow> nat
    \<Rightarrow> 'a word out \<Rightarrow> 'a word out res" where
  "lane_loop v gt msk i0 j lane 0 s = Inr s"
| "lane_loop v gt msk i0 j lane (Suc c) s =
     rbind (bslz4_mask_ok msk (j + i0 + lane)) (\<lambda>ok.
     rbind (if ok \<and> gt ! lane \<noteq> 0 then push_px (v ! lane) (j + i0 + lane) s else Inr s) (\<lambda>s.
       lane_loop v gt msk i0 j (lane + 1) c s))"

definition vsx_step :: "nat \<Rightarrow> 'a::len word list \<Rightarrow> byte list option \<Rightarrow> nat \<Rightarrow> 'a word \<Rightarrow> nat \<Rightarrow> 'a word out \<Rightarrow> 'a word out res" where
  "vsx_step g block msk i0 thr j s =
     rbind (load_n block j g) (\<lambda>v.
       if \<not> vec_any_gt v thr then Inr s
       else lane_loop v (vec_cmpgt v thr) msk i0 j 0 g s)"

definition BSLZ4_VSX_WINDOW :: nat where "BSLZ4_VSX_WINDOW = 128"

definition bslz4_vsx_next_dense :: "bool \<Rightarrow> nat \<Rightarrow> bool" where
  "bslz4_vsx_next_dense dense kept =
     (if dense then kept * 50 \<ge> BSLZ4_VSX_WINDOW else kept * 20 > BSLZ4_VSX_WINDOW)"

function vsx_windows :: "nat \<Rightarrow> 'a::len word list \<Rightarrow> byte list option \<Rightarrow> nat \<Rightarrow> nat \<Rightarrow> 'a word \<Rightarrow> nat \<Rightarrow> bool
    \<Rightarrow> 'a word out \<Rightarrow> 'a word out res" where
  "vsx_windows g block msk i0 nv thr j dense s =
     (if j < nv then
        let e = (if j + BSLZ4_VSX_WINDOW < nv then j + BSLZ4_VSX_WINDOW else nv); start = npx s in
        rbind (if dense then collect_scalar (\<lambda>v. v > thr) block msk i0 j (e - j) s
               else group_loop (vsx_step g block msk i0 thr) g ((e - j + g - 1) div g) j s) (\<lambda>s.
          vsx_windows g block msk i0 nv thr e (bslz4_vsx_next_dense dense (npx s - start)) s)
      else Inr s)"
  by pat_completeness auto
termination
  by (relation "measure (\<lambda>(g, block, msk, i0, nv, thr, j, dense, s). nv - j)") (auto simp: BSLZ4_VSX_WINDOW_def)

declare vsx_windows.simps [simp del]

definition collect_vsx :: "nat \<Rightarrow> 'a::len word list \<Rightarrow> byte list option \<Rightarrow> nat \<Rightarrow> nat \<Rightarrow> 'a word
    \<Rightarrow> 'a word list \<Rightarrow> 32 word list \<Rightarrow> 'a word out res" where
  "collect_vsx g block msk i0 n thr vals adr =
     (let nv = n - n mod g in
      rbind (vsx_windows g block msk i0 nv thr 0 False \<lparr>npx = 0, out_vals = vals, out_adr = adr\<rparr>) (\<lambda>s.
        collect_scalar (\<lambda>v. v > thr) block msk i0 nv (n - nv) s))"

definition bslz4_collect_vsx_u16 :: "16 word list \<Rightarrow> byte list option \<Rightarrow> nat \<Rightarrow> nat \<Rightarrow> 16 word
    \<Rightarrow> 16 word list \<Rightarrow> 32 word list \<Rightarrow> 16 word out res" where
  "bslz4_collect_vsx_u16 = collect_vsx 8"

definition bslz4_collect_vsx_u32 :: "32 word list \<Rightarrow> byte list option \<Rightarrow> nat \<Rightarrow> nat \<Rightarrow> 32 word
    \<Rightarrow> 32 word list \<Rightarrow> 32 word list \<Rightarrow> 32 word out res" where
  "bslz4_collect_vsx_u32 = collect_vsx 4"

definition neon_step :: "nat \<Rightarrow> 'a::len word list \<Rightarrow> byte list option \<Rightarrow> nat \<Rightarrow> 'a word \<Rightarrow> nat \<Rightarrow> 'a word out \<Rightarrow> 'a word out res" where
  "neon_step g block msk i0 thr j s =
     rbind (load_n block j g) (\<lambda>v.
     let gt = vec_cmpgt v thr in
       if vmaxvq gt = 0 then Inr s
       else lane_loop v gt msk i0 j 0 g s)"

definition bslz4_collect_neon_u16 :: "16 word list \<Rightarrow> byte list option \<Rightarrow> nat \<Rightarrow> nat \<Rightarrow> 16 word
    \<Rightarrow> 16 word list \<Rightarrow> 32 word list \<Rightarrow> 16 word out res" where
  "bslz4_collect_neon_u16 block msk i0 n thr =
     collect_groups (neon_step 8 block msk i0 thr) 8 (\<lambda>v. v > thr) block msk i0 n"

definition bslz4_collect_neon_u32 :: "32 word list \<Rightarrow> byte list option \<Rightarrow> nat \<Rightarrow> nat \<Rightarrow> 32 word
    \<Rightarrow> 32 word list \<Rightarrow> 32 word list \<Rightarrow> 32 word out res" where
  "bslz4_collect_neon_u32 block msk i0 n thr =
     collect_groups (neon_step 4 block msk i0 thr) 4 (\<lambda>v. v > thr) block msk i0 n"

lemma lane_loop_emits:
  "readable block msk i0 n \<Longrightarrow> v = take g (drop j block) \<Longrightarrow> j + g \<le> n \<Longrightarrow> lane + c = g
    \<Longrightarrow> holds n s K \<Longrightarrow> length K \<le> j + lane
    \<Longrightarrow> emits n s (K @ picked (\<lambda>v. v > thr) block msk i0 [j + lane..<j + g]) (lane_loop v (vec_cmpgt v thr) msk i0 j lane c s)"
proof (induction c arbitrary: lane s K)
  case (Suc c)
  let ?P = "\<lambda>v. v > thr"
  have l: "lane < g" "length v = g" "v ! lane = block ! (j + lane)"
    using Suc.prems(1-4) by (auto simp: readable_def)
  have mk: "bslz4_mask_ok msk (j + i0 + lane) = Inr (mask_keeps msk (j + lane + i0))"
    using mask_ok_Inr[of msk "j + lane + i0"] readable_mask[OF Suc.prems(1), of "j + lane"] l Suc.prems(3)
    by (simp add: ac_simps)
  have gt: "(vec_cmpgt v thr ! lane \<noteq> 0) = ?P (block ! (j + lane))"
    using l by (simp add: vec_cmpgt_def)
  let ?b = "picks ?P block msk i0 (j + lane)"
  let ?K = "K @ (if ?b then [(block ! (j + lane), word_of_nat (j + i0 + lane))] else [])"
  have e: "emits n s ?K (if ?b then push_px (block ! (j + lane)) (j + i0 + lane) s else Inr s)"
    using Suc.prems l by (intro push_if_emits) auto
  have u: "[j + lane..<j + g] = (j + lane) # [j + (lane + 1)..<j + g]" using l by (simp add: upt_conv_Cons)
  have "emits n s (?K @ picked ?P block msk i0 [j + (lane + 1)..<j + g])
      (rbind (if ?b then push_px (block ! (j + lane)) (j + i0 + lane) s else Inr s)
        (lane_loop v (vec_cmpgt v thr) msk i0 j (lane + 1) c))"
  proof (rule emits_bind[OF e])
    fix s' assume "holds n s' ?K"
    then show "emits n s' (?K @ picked ?P block msk i0 [j + (lane + 1)..<j + g])
        (lane_loop v (vec_cmpgt v thr) msk i0 j (lane + 1) c s')"
      using Suc.prems by (intro Suc.IH) auto
  qed
  then show ?case
    unfolding lane_loop.simps mk gt rbind.simps u picked_Cons l(3)
    by (simp add: picks_def ac_simps cong: if_cong)
qed simp

lemma picked_none:
  "(\<And>k. k < g \<Longrightarrow> \<not> P (block ! (j + k))) \<Longrightarrow> picked P block msk i0 [j..<j + g] = []"
proof -
  assume a: "\<And>k. k < g \<Longrightarrow> \<not> P (block ! (j + k))"
  have "\<not> picks P block msk i0 x" if "x \<in> set [j..<j + g]" for x
  proof -
    have "x - j < g" "j + (x - j) = x" using that by auto
    then show ?thesis using a[of "x - j"] by (simp add: picks_def)
  qed
  then show ?thesis by (simp add: picked_def filter_empty_conv)
qed

lemma vsx_step_emits:
  assumes "readable block msk i0 n" "holds n s K" "length K \<le> j" "j + g \<le> n"
  shows "emits n s (K @ picked (\<lambda>v. v > thr) block msk i0 [j..<j + g]) (vsx_step g block msk i0 thr j s)"
proof -
  let ?v = "take g (drop j block)"
  have ld: "load_n block j g = Inr ?v" and lv: "length ?v = g" using assms by (auto simp: readable_def load_n_ok)
  show ?thesis
  proof (cases "vec_any_gt ?v thr")
    case False
    then have "\<not> block ! (j + k) > thr" if "k < g" for k
      using that lv nth_mem[of k ?v] by (auto simp: vec_any_gt_def list_ex_iff)
    then show ?thesis using False assms(2) ld picked_none[of g "\<lambda>v. v > thr" block j msk i0] by (simp add: vsx_step_def)
  next
    case True
    then show ?thesis using lane_loop_emits[OF assms(1) refl assms(4), of 0 g s K thr] assms(2,3) ld
      by (simp add: vsx_step_def)
  qed
qed

lemma vmaxvq_0: "vmaxvq v = 0 \<longleftrightarrow> (\<forall>x\<in>set v. x = 0)"
  by (induction v) (auto simp: vmaxvq_def max_def word_le_0_iff split: if_splits)

lemma neon_step_emits:
  assumes "readable block msk i0 n" "holds n s K" "length K \<le> j" "j + g \<le> n"
  shows "emits n s (K @ picked (\<lambda>v. v > thr) block msk i0 [j..<j + g]) (neon_step g block msk i0 thr j s)"
proof -
  let ?v = "take g (drop j block)"
  have ld: "load_n block j g = Inr ?v" and lv: "length ?v = g" using assms by (auto simp: readable_def load_n_ok)
  show ?thesis
  proof (cases "vmaxvq (vec_cmpgt ?v thr) = 0")
    case True
    then have "\<forall>x\<in>set ?v. (if x > thr then -1 else 0 :: 'a word) = 0"
      by (simp only: vmaxvq_0 vec_cmpgt_def set_map ball_simps(9))
    then have "\<forall>x\<in>set ?v. \<not> x > thr" by (auto split: if_splits)
    then have "\<not> block ! (j + k) > thr" if "k < g" for k
      using that lv nth_mem[of k ?v] by auto
    then show ?thesis using True assms(2) ld picked_none[of g "\<lambda>v. v > thr" block j msk i0]
      by (simp add: neon_step_def Let_def)
  next
    case False
    then show ?thesis using lane_loop_emits[OF assms(1) refl assms(4), of 0 g s K thr] assms(2,3) ld
      by (simp add: neon_step_def Let_def)
  qed
qed

lemma vsx_windows_emits:
  "readable block msk i0 n \<Longrightarrow> nv \<le> n \<Longrightarrow> g dvd 128 \<Longrightarrow> g dvd nv \<Longrightarrow> g dvd j \<Longrightarrow> 0 < g \<Longrightarrow> j \<le> nv
    \<Longrightarrow> holds n s K \<Longrightarrow> length K \<le> j
    \<Longrightarrow> emits n s (K @ picked (\<lambda>v. v > thr) block msk i0 [j..<nv]) (vsx_windows g block msk i0 nv thr j dense s)"
proof (induction g block msk i0 nv thr j dense s arbitrary: K rule: vsx_windows.induct)
  case (1 g block msk i0 nv thr j dense s)
  let ?P = "\<lambda>v. v > thr"
  let ?p = "picked ?P block msk i0"
  show ?case
  proof (cases "j < nv")
    case False
    then show ?thesis using "1.prems" by (simp add: vsx_windows.simps)
  next
    case True
    define e where "e = (if j + BSLZ4_VSX_WINDOW < nv then j + BSLZ4_VSX_WINDOW else nv)"
    have e: "j < e" "e \<le> nv" "g dvd e"
      using True "1.prems"(3-5) by (auto simp: e_def BSLZ4_VSX_WINDOW_def)
    obtain k where k: "e - j = g * k" using e(3) "1.prems"(5) dvd_diff_nat by blast
    have q: "(e - j + g - 1) div g = k"
    proof -
      define h where "h = g - 1"
      have "e - j + g - 1 = h + g * k" using k "1.prems"(6) by (simp add: h_def)
      moreover have "h < g" using "1.prems"(6) by (simp add: h_def)
      ultimately show ?thesis by simp
    qed
    let ?r = "if dense then collect_scalar ?P block msk i0 j (e - j) s
      else group_loop (vsx_step g block msk i0 thr) g ((e - j + g - 1) div g) j s"
    have r: "emits n s (K @ ?p [j..<e]) ?r"
    proof (cases dense)
      case True
      then show ?thesis
        using collect_scalar_emits[OF "1.prems"(1) le_refl "1.prems"(8,9), of "e - j" ?P] e "1.prems"(2) by simp
    next
      case False
      have "emits n s (K @ ?p [j..<j + g * k]) (group_loop (vsx_step g block msk i0 thr) g k j s)"
        by (rule group_loop_emits[OF vsx_step_emits[OF "1.prems"(1)] "1.prems"(8,9)]) (use k e "1.prems"(2) in auto)
      moreover have "j + g * k = e" using k e(1) by simp
      ultimately show ?thesis using False q by simp
    qed
    have u: "?p [j..<nv] = ?p [j..<e] @ ?p [e..<nv]"
      using upt_add_eq_append[of j e "nv - e"] e by (simp flip: picked_append)
    have "emits n s ((K @ ?p [j..<e]) @ ?p [e..<nv])
        (rbind ?r (\<lambda>s'. vsx_windows g block msk i0 nv thr e (bslz4_vsx_next_dense dense (npx s' - npx s)) s'))"
    proof (rule emits_bind[OF r])
      fix s' assume s': "?r = Inr s'" "holds n s' (K @ ?p [j..<e])"
      show "emits n s' ((K @ ?p [j..<e]) @ ?p [e..<nv])
          (vsx_windows g block msk i0 nv thr e (bslz4_vsx_next_dense dense (npx s' - npx s)) s')"
        by (rule "1.IH"[OF True e_def refl s'(1)])
          (use "1.prems" e s'(2) length_picked[of ?P block msk i0 "[j..<e]"] in auto)
    qed
    then show ?thesis using True
      unfolding vsx_windows.simps[of g block msk i0 nv thr j] Let_def e_def[symmetric] u by simp
  qed
qed

lemma collect_vsx_emits:
  assumes r: "readable block msk i0 n" "n \<le> length vals" "n \<le> length adr" and g: "g dvd 128" "0 < g"
  shows "emits n \<lparr>npx = 0, out_vals = vals, out_adr = adr\<rparr> (picked (\<lambda>v. v > thr) block msk i0 [0..<n])
    (collect_vsx g block msk i0 n thr vals adr)"
proof -
  let ?nv = "n - n mod g" and ?p = "picked (\<lambda>v. v > thr) block msk i0"
  have e: "emits n \<lparr>npx = 0, out_vals = vals, out_adr = adr\<rparr> ([] @ ?p [0..<?nv])
      (vsx_windows g block msk i0 ?nv thr 0 False \<lparr>npx = 0, out_vals = vals, out_adr = adr\<rparr>)"
    by (rule vsx_windows_emits[OF r(1)]) (use g holds_init[OF r(2,3)] in \<open>auto simp: minus_mod_eq_mult_div\<close>)
  have u: "?p [0..<n] = ?p [0..<?nv] @ ?p [?nv..<?nv + (n - ?nv)]"
    using upt_add_eq_append[of 0 ?nv "n - ?nv"] by (simp flip: picked_append)
  show ?thesis unfolding collect_vsx_def Let_def u
  proof (rule emits_bind[OF e[unfolded append_Nil]])
    fix s' assume "holds n s' (?p [0..<?nv])"
    then show "emits n s' (?p [0..<?nv] @ ?p [?nv..<?nv + (n - ?nv)]) (collect_scalar (\<lambda>v. v > thr) block msk i0 ?nv (n - ?nv) s')"
      using length_picked[of "\<lambda>v. v > thr" block msk i0 "[0..<?nv]"] by (intro collect_scalar_emits[OF r(1) le_refl]) auto
  qed
qed

interpretation vsx_u16: collector bslz4_collect_vsx_u16 "\<lambda>thr v. v > thr"
  unfolding bslz4_collect_vsx_u16_def by unfold_locales (rule collect_vsx_emits, simp_all)

interpretation vsx_u32: collector bslz4_collect_vsx_u32 "\<lambda>thr v. v > thr"
  unfolding bslz4_collect_vsx_u32_def by unfold_locales (rule collect_vsx_emits, simp_all)

interpretation neon_u16: collector bslz4_collect_neon_u16 "\<lambda>thr v. v > thr"
  unfolding bslz4_collect_neon_u16_def
  by unfold_locales (rule collect_groups_emits, assumption+, rule neon_step_emits)

interpretation neon_u32: collector bslz4_collect_neon_u32 "\<lambda>thr v. v > thr"
  unfolding bslz4_collect_neon_u32_def
  by unfold_locales (rule collect_groups_emits, assumption+, rule neon_step_emits)

section \<open>The choice of kernel\<close>

text \<open>
  \<open>bslz4_collect_gt<uint16_t>\<close> and \<open><uint32_t>\<close>: the kernels the build has, in the code's order, then
  the scalar loop. \<open>bslz4_collect_nz\<close> of the unsigned types is the same kernels at cut 0, and the
  scalar loop on \<open>px != 0\<close>. Every other pixel type has the scalar loops only (\<open>collect_plain\<close>).
\<close>

definition bslz4_collect_gt_u16 :: "build \<Rightarrow> 16 word list \<Rightarrow> byte list option \<Rightarrow> nat \<Rightarrow> nat \<Rightarrow> 16 word \<Rightarrow> int
    \<Rightarrow> 16 word list \<Rightarrow> 32 word list \<Rightarrow> 16 word out res" where
  "bslz4_collect_gt_u16 bld block msk i0 n thr collect vals adr =
     (if b_x86_simd bld \<and> b_vbmi_gfni bld \<and> collect = BSLZ4_COLLECT_AVX512CS
      then bslz4_collect_avx512cs_u16 block msk i0 n thr vals adr
      else if b_x86_simd bld \<and> collect = BSLZ4_COLLECT_AVX2CS then bslz4_collect_avx2cs_u16 block msk i0 n thr vals adr
      else if b_x86_simd bld \<and> collect = BSLZ4_COLLECT_SSE2 then bslz4_collect_sse2_u16 block msk i0 n thr vals adr
      else if b_vsx bld \<and> collect = BSLZ4_COLLECT_VSX then bslz4_collect_vsx_u16 block msk i0 n thr vals adr
      else if b_neon bld \<and> collect = BSLZ4_COLLECT_NEON then bslz4_collect_neon_u16 block msk i0 n thr vals adr
      else collect_plain (\<lambda>v. v > thr) block msk i0 n vals adr)"

definition bslz4_collect_gt_u32 :: "build \<Rightarrow> 32 word list \<Rightarrow> byte list option \<Rightarrow> nat \<Rightarrow> nat \<Rightarrow> 32 word \<Rightarrow> int
    \<Rightarrow> 32 word list \<Rightarrow> 32 word list \<Rightarrow> 32 word out res" where
  "bslz4_collect_gt_u32 bld block msk i0 n thr collect vals adr =
     (if b_x86_simd bld \<and> b_vbmi_gfni bld \<and> collect = BSLZ4_COLLECT_AVX512CS
      then bslz4_collect_avx512cs_u32 block msk i0 n thr vals adr
      else if b_x86_simd bld \<and> collect = BSLZ4_COLLECT_AVX2CS then bslz4_collect_avx2cs_u32 block msk i0 n thr vals adr
      else if b_x86_simd bld \<and> collect = BSLZ4_COLLECT_SSE2 then bslz4_collect_sse2_u32 block msk i0 n thr vals adr
      else if b_vsx bld \<and> collect = BSLZ4_COLLECT_VSX then bslz4_collect_vsx_u32 block msk i0 n thr vals adr
      else if b_neon bld \<and> collect = BSLZ4_COLLECT_NEON then bslz4_collect_neon_u32 block msk i0 n thr vals adr
      else collect_plain (\<lambda>v. v > thr) block msk i0 n vals adr)"

definition bslz4_collect_nz_u16 :: "build \<Rightarrow> 16 word list \<Rightarrow> byte list option \<Rightarrow> nat \<Rightarrow> nat \<Rightarrow> int
    \<Rightarrow> 16 word list \<Rightarrow> 32 word list \<Rightarrow> 16 word out res" where
  "bslz4_collect_nz_u16 bld block msk i0 n collect vals adr =
     (if b_x86_simd bld \<and> b_vbmi_gfni bld \<and> collect = BSLZ4_COLLECT_AVX512CS
      then bslz4_collect_avx512cs_u16 block msk i0 n 0 vals adr
      else if b_x86_simd bld \<and> collect = BSLZ4_COLLECT_AVX2CS then bslz4_collect_avx2cs_u16 block msk i0 n 0 vals adr
      else if b_x86_simd bld \<and> collect = BSLZ4_COLLECT_SSE2 then bslz4_collect_sse2_u16 block msk i0 n 0 vals adr
      else if b_vsx bld \<and> collect = BSLZ4_COLLECT_VSX then bslz4_collect_vsx_u16 block msk i0 n 0 vals adr
      else if b_neon bld \<and> collect = BSLZ4_COLLECT_NEON then bslz4_collect_neon_u16 block msk i0 n 0 vals adr
      else collect_plain (\<lambda>v. v \<noteq> 0) block msk i0 n vals adr)"

definition bslz4_collect_nz_u32 :: "build \<Rightarrow> 32 word list \<Rightarrow> byte list option \<Rightarrow> nat \<Rightarrow> nat \<Rightarrow> int
    \<Rightarrow> 32 word list \<Rightarrow> 32 word list \<Rightarrow> 32 word out res" where
  "bslz4_collect_nz_u32 bld block msk i0 n collect vals adr =
     (if b_x86_simd bld \<and> b_vbmi_gfni bld \<and> collect = BSLZ4_COLLECT_AVX512CS
      then bslz4_collect_avx512cs_u32 block msk i0 n 0 vals adr
      else if b_x86_simd bld \<and> collect = BSLZ4_COLLECT_AVX2CS then bslz4_collect_avx2cs_u32 block msk i0 n 0 vals adr
      else if b_x86_simd bld \<and> collect = BSLZ4_COLLECT_SSE2 then bslz4_collect_sse2_u32 block msk i0 n 0 vals adr
      else if b_vsx bld \<and> collect = BSLZ4_COLLECT_VSX then bslz4_collect_vsx_u32 block msk i0 n 0 vals adr
      else if b_neon bld \<and> collect = BSLZ4_COLLECT_NEON then bslz4_collect_neon_u32 block msk i0 n 0 vals adr
      else collect_plain (\<lambda>v. v \<noteq> 0) block msk i0 n vals adr)"

lemma unsigned_nz: "(\<lambda>v :: 'a::len word. v \<noteq> 0) = (\<lambda>v. v > 0)"
  by (simp add: word_gt_0)

lemmas u16_contracts = avx512cs_u16.contract avx2cs_u16.contract sse2_u16.contract vsx_u16.contract
  neon_u16.contract

lemmas u32_contracts = avx512cs_u32.contract avx2cs_u32.contract sse2_u32.contract vsx_u32.contract
  neon_u32.contract

interpretation gt_u16: collector "\<lambda>block msk i0 n (bld, collect, thr). bslz4_collect_gt_u16 bld block msk i0 n thr collect"
    "\<lambda>(bld, collect, thr) v. v > thr"
proof unfold_locales
  fix block vals :: "16 word list" and msk i0 n and adr :: "32 word list" and cu :: "build \<times> int \<times> 16 word"
  assume r: "readable block msk i0 n" "n \<le> length vals" "n \<le> length adr"
  obtain bld collect c where "cu = (bld, collect, c)" by (cases cu) auto
  then show "emits n \<lparr>npx = 0, out_vals = vals, out_adr = adr\<rparr> (picked ((\<lambda>(bld, collect, thr) v. v > thr) cu) block msk i0 [0..<n])
      ((\<lambda>(bld, collect, thr). bslz4_collect_gt_u16 bld block msk i0 n thr collect) cu vals adr)"
    using u16_contracts[OF r] collect_plain_emits[OF r] by (simp add: bslz4_collect_gt_u16_def)
qed

interpretation gt_u32: collector "\<lambda>block msk i0 n (bld, collect, thr). bslz4_collect_gt_u32 bld block msk i0 n thr collect"
    "\<lambda>(bld, collect, thr) v. v > thr"
proof unfold_locales
  fix block vals :: "32 word list" and msk i0 n and adr :: "32 word list" and cu :: "build \<times> int \<times> 32 word"
  assume r: "readable block msk i0 n" "n \<le> length vals" "n \<le> length adr"
  obtain bld collect c where "cu = (bld, collect, c)" by (cases cu) auto
  then show "emits n \<lparr>npx = 0, out_vals = vals, out_adr = adr\<rparr> (picked ((\<lambda>(bld, collect, thr) v. v > thr) cu) block msk i0 [0..<n])
      ((\<lambda>(bld, collect, thr). bslz4_collect_gt_u32 bld block msk i0 n thr collect) cu vals adr)"
    using u32_contracts[OF r] collect_plain_emits[OF r] by (simp add: bslz4_collect_gt_u32_def)
qed

interpretation nz_u16: collector "\<lambda>block msk i0 n (bld, collect). bslz4_collect_nz_u16 bld block msk i0 n collect"
    "\<lambda>(bld :: build, collect :: int) v. v \<noteq> 0"
proof unfold_locales
  fix block vals :: "16 word list" and msk i0 n and adr :: "32 word list" and cu :: "build \<times> int"
  assume r: "readable block msk i0 n" "n \<le> length vals" "n \<le> length adr"
  obtain bld collect where "cu = (bld, collect)" by (cases cu) auto
  then show "emits n \<lparr>npx = 0, out_vals = vals, out_adr = adr\<rparr> (picked ((\<lambda>(bld :: build, collect :: int) v. v \<noteq> 0) cu) block msk i0 [0..<n])
      ((\<lambda>(bld, collect). bslz4_collect_nz_u16 bld block msk i0 n collect) cu vals adr)"
    using u16_contracts[OF r, of 0] collect_plain_emits[OF r, of "\<lambda>v. v > 0"]
    by (simp add: bslz4_collect_nz_u16_def unsigned_nz)
qed

interpretation nz_u32: collector "\<lambda>block msk i0 n (bld, collect). bslz4_collect_nz_u32 bld block msk i0 n collect"
    "\<lambda>(bld :: build, collect :: int) v. v \<noteq> 0"
proof unfold_locales
  fix block vals :: "32 word list" and msk i0 n and adr :: "32 word list" and cu :: "build \<times> int"
  assume r: "readable block msk i0 n" "n \<le> length vals" "n \<le> length adr"
  obtain bld collect where "cu = (bld, collect)" by (cases cu) auto
  then show "emits n \<lparr>npx = 0, out_vals = vals, out_adr = adr\<rparr> (picked ((\<lambda>(bld :: build, collect :: int) v. v \<noteq> 0) cu) block msk i0 [0..<n])
      ((\<lambda>(bld, collect). bslz4_collect_nz_u32 bld block msk i0 n collect) cu vals adr)"
    using u32_contracts[OF r, of 0] collect_plain_emits[OF r, of "\<lambda>v. v > 0"]
    by (simp add: bslz4_collect_nz_u32_def unsigned_nz)
qed

section \<open>One list whatever the kernel\<close>

text \<open>
  C18: \<open>bslz4_collect_gt<uint16_t>\<close> lists, in order, exactly the unmasked pixels above the cut with their
  indices, for every build and every value of the collect step (AVX-512, AVX2, SSE2, VSX, NEON, scalar),
  and never leaves the block, the mask or its two output buffers, although the SIMD kernels store
  full vectors past the count.
\<close>

theorem collect_gt_u16_lists:
  assumes "readable block msk i0 n" "n \<le> length vals" "n \<le> length adr"
  shows "\<exists>s. bslz4_collect_gt_u16 bld block msk i0 n thr collect vals adr = Inr s
    \<and> npx s = length (picked (\<lambda>v. v > thr) block msk i0 [0..<n]) \<and> listed s = picked (\<lambda>v. v > thr) block msk i0 [0..<n]"
  using gt_u16.contract[OF assms, of "(bld, collect, thr)"] by (auto dest: emits_listed)

theorem collect_gt_u16_lists_witness:
  "\<exists>s. bslz4_collect_gt_u16 sample_build (replicate 15 5 @ [9, 7, 5]) (Some (replicate 18 1 @ [0, 1, 1])) 3 18 6
        BSLZ4_COLLECT_AVX2CS (replicate 18 0) (replicate 18 0) = Inr s
    \<and> npx s = 1 \<and> listed s = [(7, 19)]"
proof -
  have e: "picked (\<lambda>v. v > 6) (replicate 15 5 @ [9, 7, 5 :: 16 word]) (Some (replicate 18 1 @ [0, 1, 1])) 3 [0..<18] = [(7, 19)]"
    by code_simp
  show ?thesis
    using collect_gt_u16_lists[of "replicate 15 5 @ [9, 7, 5]" "Some (replicate 18 1 @ [0, 1, 1])" 3 18 "replicate 18 0"
        "replicate 18 0" sample_build 6 BSLZ4_COLLECT_AVX2CS] unfolding e by (simp add: readable_def)
qed

text \<open>
  The same of \<open>bslz4_collect_gt<uint32_t>\<close>.
\<close>

theorem collect_gt_u32_lists:
  assumes "readable block msk i0 n" "n \<le> length vals" "n \<le> length adr"
  shows "\<exists>s. bslz4_collect_gt_u32 bld block msk i0 n thr collect vals adr = Inr s
    \<and> npx s = length (picked (\<lambda>v. v > thr) block msk i0 [0..<n]) \<and> listed s = picked (\<lambda>v. v > thr) block msk i0 [0..<n]"
  using gt_u32.contract[OF assms, of "(bld, collect, thr)"] by (auto dest: emits_listed)

theorem collect_gt_u32_lists_witness:
  "\<exists>s. bslz4_collect_gt_u32 sample_build [7, 4000000000, 3000000000] None 100 3 3000000000
        BSLZ4_COLLECT_AVX2CS (replicate 3 0) (replicate 3 0) = Inr s
    \<and> npx s = 1 \<and> listed s = [(4000000000, 101)]"
proof -
  have e: "picked (\<lambda>v. v > 3000000000) [7, 4000000000, 3000000000 :: 32 word] None 100 [0..<3] = [(4000000000, 101)]"
    by code_simp
  show ?thesis
    using collect_gt_u32_lists[of "[7, 4000000000, 3000000000]" None 100 3 "replicate 3 0"
        "replicate 3 0" sample_build 3000000000 BSLZ4_COLLECT_AVX2CS] unfolding e by (simp add: readable_def)
qed

text \<open>
  \<open>bslz4_collect_nz\<close> of the unsigned types, which reuses the kernels at cut 0, lists exactly the unmasked
  pixels different from 0, for every build and every value of the collect step.
\<close>

theorem collect_nz_lists:
  assumes "readable block16 msk i0 n" "n \<le> length vals16" "n \<le> length adr"
    and "readable block32 msk i0 n" "n \<le> length vals32"
  shows "(\<exists>s. bslz4_collect_nz_u16 bld block16 msk i0 n collect vals16 adr = Inr s
        \<and> listed s = picked (\<lambda>v. v \<noteq> 0) block16 msk i0 [0..<n])
    \<and> (\<exists>s. bslz4_collect_nz_u32 bld block32 msk i0 n collect vals32 adr = Inr s
        \<and> listed s = picked (\<lambda>v. v \<noteq> 0) block32 msk i0 [0..<n])"
  using nz_u16.contract[OF assms(1-3), of "(bld, collect)"] nz_u32.contract[OF assms(4,5,3), of "(bld, collect)"]
  by (auto dest!: emits_listed)

theorem collect_nz_lists_witness:
  "(\<exists>s. bslz4_collect_nz_u16 sample_build [0, 3, 0, 65535] None 0 4 BSLZ4_COLLECT_SSE2 (replicate 4 0) (replicate 4 0) = Inr s
      \<and> listed s = [(3, 1), (65535, 3)])
   \<and> (\<exists>s. bslz4_collect_nz_u32 sample_build [7, 0, 0, 0] None 0 4 BSLZ4_COLLECT_SSE2 (replicate 4 0) (replicate 4 0) = Inr s
      \<and> listed s = [(7, 0)])"
proof -
  have e: "picked (\<lambda>v. v \<noteq> 0) [0, 3, 0, 65535 :: 16 word] None 0 [0..<4] = [(3, 1), (65535, 3)]"
    "picked (\<lambda>v. v \<noteq> 0) [7, 0, 0, 0 :: 32 word] None 0 [0..<4] = [(7, 0)]"
    by code_simp+
  show ?thesis
    using collect_nz_lists[of "[0, 3, 0, 65535]" None 0 4 "replicate 4 0" "replicate 4 0" "[7, 0, 0, 0]" "replicate 4 0"
        sample_build BSLZ4_COLLECT_SSE2] unfolding e by (simp add: readable_def)
qed

end
