(* ===== verification/Lowplanes.thy ===== *)
theory Lowplanes
  imports Transposes CollectTiers Untranspose Masking
begin

text \<open>
  The zero checks of \<open>src/steps/lowplanes.h\<close> and its portable collect: a u16 block whose high
  byte-planes are zero (every value below 256) is its low 8 planes. \<open>low_pixels\<close> is that block.
\<close>

definition BSLZ4_LOWPLANES_TILE :: nat where "BSLZ4_LOWPLANES_TILE = 8192"
definition BSLZ4_LOWPLANES_SKIP_RATIO :: nat where "BSLZ4_LOWPLANES_SKIP_RATIO = 48"
definition BSLZ4_LOWPLANES_BRANCHFREE_RATIO :: nat where "BSLZ4_LOWPLANES_BRANCHFREE_RATIO = 8"

definition bslz4_zero_plane :: "byte list" where
  "bslz4_zero_plane = replicate 1024 0"

section \<open>Zero checks\<close>

text \<open>
  \<open>bslz4_all_zero_avx512\<close> (64 bytes a time) and \<open>bslz4_all_zero_c\<close> (8 bytes): 512-byte steps of ORs,
  \<open>w\<close> lanes of \<open>acc\<close>.
\<close>

function or_step :: "nat \<Rightarrow> byte list \<Rightarrow> nat \<Rightarrow> nat \<Rightarrow> nat \<Rightarrow> byte list \<Rightarrow> byte list res" where
  "or_step w p n e k acc =
     (if k < e \<and> k < n \<and> 0 < w then rbind (load_n p k w) (\<lambda>v. or_step w p n e (k + w) (map2 (OR) acc v))
      else Inr acc)"
  by pat_completeness auto
termination
  by (relation "measure (\<lambda>(w, p, n, e, k, acc). n - k)") auto

function all_zero_from :: "nat \<Rightarrow> byte list \<Rightarrow> nat \<Rightarrow> nat \<Rightarrow> bool res" where
  "all_zero_from w p n i =
     (if i < n then
        rbind (or_step w p n (i + 512) i (replicate w 0)) (\<lambda>acc.
          if list_ex (\<lambda>b. b \<noteq> 0) acc then Inr False else all_zero_from w p n (i + 512))
      else Inr True)"
  by pat_completeness auto
termination
  by (relation "measure (\<lambda>(w, p, n, i). n - i)") auto

declare or_step.simps [simp del] all_zero_from.simps [simp del]

definition bslz4_all_zero_avx512 :: "byte list \<Rightarrow> nat \<Rightarrow> bool res" where
  "bslz4_all_zero_avx512 p n = all_zero_from 64 p n 0"

definition bslz4_all_zero_c :: "byte list \<Rightarrow> nat \<Rightarrow> bool res" where
  "bslz4_all_zero_c p n = all_zero_from 8 p n 0"

text \<open>The buffer and the answer; \<open>raw[nz_end..2ne)\<close> is filled where a check looks.\<close>

definition bslz4_high_planes_zero :: "byte list \<Rightarrow> nat \<Rightarrow> nat \<Rightarrow> (byte list \<times> bool) res" where
  "bslz4_high_planes_zero raw ne nz_end =
     (if nz_end \<le> ne then Inr (raw, True)
      else rbind (if nz_end < 2 * ne then memset0 raw nz_end (2 * ne - nz_end) else Inr raw) (\<lambda>raw.
           rbind (bslz4_all_zero_avx512 (drop ne raw) ne) (\<lambda>z. Inr (raw, z))))"

definition bslz4_high_planes_zero_c :: "byte list \<Rightarrow> nat \<Rightarrow> nat \<Rightarrow> (byte list \<times> bool) res" where
  "bslz4_high_planes_zero_c raw ne nz_end =
     (if nz_end \<le> ne then rbind (memset0 raw nz_end (ne - nz_end)) (\<lambda>raw. Inr (raw, True))
      else rbind (if nz_end < 2 * ne then memset0 raw nz_end (2 * ne - nz_end) else Inr raw) (\<lambda>raw.
           rbind (bslz4_all_zero_c (drop ne raw) ne) (\<lambda>z. Inr (raw, z))))"

definition bslz4_high_planes_zero_c_nofill :: "byte list \<Rightarrow> nat \<Rightarrow> nat \<Rightarrow> (byte list \<times> bool) res" where
  "bslz4_high_planes_zero_c_nofill raw ne nz_end =
     (if nz_end \<le> ne then Inr (raw, True)
      else rbind (if nz_end < 2 * ne then memset0 raw nz_end (2 * ne - nz_end) else Inr raw) (\<lambda>raw.
           rbind (bslz4_all_zero_c (drop ne raw) ne) (\<lambda>z. Inr (raw, z))))"

lemma list_ex_or: "length a = length b \<Longrightarrow> list_ex (\<lambda>x. x \<noteq> 0) (map2 (OR) a b)
    \<longleftrightarrow> list_ex (\<lambda>x. x \<noteq> 0) a \<or> list_ex (\<lambda>x. x \<noteq> (0 :: byte)) b"
proof (induction a b rule: list_induct2)
  case (Cons x xs y ys)
  have "x OR y = 0 \<longleftrightarrow> x = 0 \<and> y = 0" by (auto simp: bit_eq_iff bit_or_iff)
  then show ?case using Cons by auto
qed simp

lemma or_step_ok:
  "w dvd n \<Longrightarrow> w dvd k \<Longrightarrow> w dvd e \<Longrightarrow> 0 < w \<Longrightarrow> n \<le> length p \<Longrightarrow> length acc = w
    \<Longrightarrow> \<exists>acc'. or_step w p n e k acc = Inr acc' \<and> length acc' = w
      \<and> (list_ex (\<lambda>b. b \<noteq> 0) acc' \<longleftrightarrow> list_ex (\<lambda>b. b \<noteq> 0) acc \<or> (\<exists>x. k \<le> x \<and> x < min e n \<and> p ! x \<noteq> 0))"
proof (induction w p n e k acc rule: or_step.induct)
  case (1 w p n e k acc)
  show ?case
  proof (cases "k < e \<and> k < n")
    case False
    then show ?thesis using "1.prems" by (subst or_step.simps) auto
  next
    case True
    have b: "k + w \<le> n" "k + w \<le> e" using True "1.prems"(1-4) by (auto elim!: dvdE) (metis Suc_leI mult_Suc_right mult_le_mono2 nat_mult_less_cancel1 add.commute)+
    let ?v = "take w (drop k p)"
    have ld: "load_n p k w = Inr ?v" and lv: "length ?v = w" using b "1.prems"(5) by (simp_all add: load_n_ok)
    have ex: "list_ex (\<lambda>b. b \<noteq> 0) ?v \<longleftrightarrow> (\<exists>x. k \<le> x \<and> x < k + w \<and> p ! x \<noteq> 0)"
    proof
      assume "list_ex (\<lambda>b. b \<noteq> 0) ?v"
      then obtain i where "i < w" "?v ! i \<noteq> 0" using lv by (auto simp: list_ex_iff in_set_conv_nth)
      then show "\<exists>x. k \<le> x \<and> x < k + w \<and> p ! x \<noteq> 0" using b "1.prems"(5) by (intro exI[of _ "k + i"]) auto
    next
      assume "\<exists>x. k \<le> x \<and> x < k + w \<and> p ! x \<noteq> 0"
      then obtain x where "k \<le> x" "x < k + w" "p ! x \<noteq> 0" by blast
      then have "?v ! (x - k) \<noteq> 0" "x - k < length ?v" using lv b "1.prems"(5) by auto
      then show "list_ex (\<lambda>b. b \<noteq> 0) ?v" unfolding list_ex_iff using nth_mem by blast
    qed
    have "w dvd k + w" using "1.prems"(2) by simp
    then obtain acc' where a: "or_step w p n e (k + w) (map2 (OR) acc ?v) = Inr acc'" "length acc' = w"
      "list_ex (\<lambda>b. b \<noteq> 0) acc' \<longleftrightarrow> list_ex (\<lambda>b. b \<noteq> 0) (map2 (OR) acc ?v) \<or> (\<exists>x. k + w \<le> x \<and> x < min e n \<and> p ! x \<noteq> 0)"
      using "1.IH"[OF _ ld] True "1.prems" lv by auto
    have "(\<exists>x. k \<le> x \<and> x < min e n \<and> p ! x \<noteq> 0)
        \<longleftrightarrow> (\<exists>x. k \<le> x \<and> x < k + w \<and> p ! x \<noteq> 0) \<or> (\<exists>x. k + w \<le> x \<and> x < min e n \<and> p ! x \<noteq> 0)"
      using b by (metis add_leD1 less_le_trans linorder_not_less min_less_iff_conj)
    then have "list_ex (\<lambda>b. b \<noteq> 0) acc' \<longleftrightarrow> list_ex (\<lambda>b. b \<noteq> 0) acc \<or> (\<exists>x. k \<le> x \<and> x < min e n \<and> p ! x \<noteq> 0)"
      using a(3) ex list_ex_or[of acc ?v] lv "1.prems"(6) by auto
    then show ?thesis using a(1,2) ld True "1.prems"(4) by (subst or_step.simps) simp
  qed
qed

lemma all_zero_from_ok:
  "w dvd n \<Longrightarrow> w dvd i \<Longrightarrow> w dvd 512 \<Longrightarrow> 0 < w \<Longrightarrow> n \<le> length p
    \<Longrightarrow> all_zero_from w p n i = Inr (\<forall>x. i \<le> x \<and> x < n \<longrightarrow> p ! x = 0)"
proof (induction w p n i rule: all_zero_from.induct)
  case (1 w p n i)
  show ?case
  proof (cases "i < n")
    case False
    then show ?thesis by (subst all_zero_from.simps) auto
  next
    case True
    have "w dvd i + 512" using "1.prems"(2,3) by simp
    then obtain acc where a: "or_step w p n (i + 512) i (replicate w 0) = Inr acc"
      "list_ex (\<lambda>b. b \<noteq> 0) acc \<longleftrightarrow> (\<exists>x. i \<le> x \<and> x < min (i + 512) n \<and> p ! x \<noteq> 0)"
      using or_step_ok[of w n i "i + 512" p "replicate w 0"] "1.prems" by (auto simp: list_ex_iff)
    show ?thesis
    proof (cases "list_ex (\<lambda>b. b \<noteq> 0) acc")
      case True
      then show ?thesis using a \<open>i < n\<close> by (subst all_zero_from.simps) auto
    next
      case False
      have "all_zero_from w p n (i + 512) = Inr (\<forall>x. i + 512 \<le> x \<and> x < n \<longrightarrow> p ! x = 0)"
        by (rule "1.IH"[OF \<open>i < n\<close> a(1) False]) (use "1.prems" in auto)
      moreover have "(\<forall>x. i + 512 \<le> x \<and> x < n \<longrightarrow> p ! x = 0) = (\<forall>x. i \<le> x \<and> x < n \<longrightarrow> p ! x = 0)"
        using a(2) False by (metis add_leD1 linorder_not_less min_less_iff_conj)
      ultimately show ?thesis using a(1) False \<open>i < n\<close> by (subst all_zero_from.simps) simp
    qed
  qed
qed

section \<open>The low byte of every pixel\<close>

definition low_byte :: "nat \<Rightarrow> byte list \<Rightarrow> nat \<Rightarrow> byte" where
  "low_byte ne planes e = word_of_bits (map (\<lambda>p. plane_bit ne planes p e) [0..<8])"

definition low_pixels :: "nat \<Rightarrow> byte list \<Rightarrow> 16 word list" where
  "low_pixels ne planes = map (\<lambda>e. ucast (low_byte ne planes e)) [0..<ne]"

definition high_zero :: "nat \<Rightarrow> byte list \<Rightarrow> bool" where
  "high_zero ne planes \<longleftrightarrow> (\<forall>x. ne \<le> x \<and> x < 2 * ne \<longrightarrow> planes ! x = 0)"

lemma length_low_pixels [simp]: "length (low_pixels ne planes) = ne"
  by (simp add: low_pixels_def)

lemma low_pixels_nth: "e < ne \<Longrightarrow> low_pixels ne planes ! e = ucast (low_byte ne planes e)"
  by (simp add: low_pixels_def)

lemma plane_index: "e < ne \<Longrightarrow> ne mod 8 = 0 \<Longrightarrow> p * (ne div 8) \<le> p * (ne div 8) + e div 8
    \<and> p * (ne div 8) + e div 8 < (p + 1) * (ne div 8) \<and> 8 * (ne div 8) = (ne :: nat)"
  by auto

lemma low_pixels_eq:
  assumes "ne mod 8 = 0" "high_zero ne planes"
  shows "map ucast (low_pixels ne planes) = plane_pixels 2 ne planes"
proof (rule nth_equalityI)
  fix e assume "e < length (map ucast (low_pixels ne planes) :: pix list)"
  then have e: "e < ne" by simp
  have "plane_pixel 2 ne planes e = ucast (ucast (low_byte ne planes e) :: 16 word)"
  proof (rule bit_word_eqI)
    fix p assume "p < LENGTH(64)"
    have "\<not> plane_bit ne planes p e" if "8 \<le> p" "p < 16"
    proof -
      have i: "p * (ne div 8) + e div 8 < (p + 1) * (ne div 8)" "8 * (ne div 8) = ne" using plane_index[OF e assms(1), of p] by auto
      have "8 * (ne div 8) \<le> p * (ne div 8)" "(p + 1) * (ne div 8) \<le> 16 * (ne div 8)"
        using that by (auto intro: mult_le_mono1)
      then have "ne \<le> p * (ne div 8) + e div 8" "p * (ne div 8) + e div 8 < 2 * ne" using i by linarith+
      then show ?thesis using assms(2) by (simp add: plane_bit_def high_zero_def)
    qed
    then show "bit (plane_pixel 2 ne planes e) p = bit (ucast (ucast (low_byte ne planes e) :: 16 word) :: pix) p"
      using \<open>p < LENGTH(64)\<close> by (cases "p < 8") (auto simp: bit_plane_pixel bit_simps low_byte_def)
  qed
  then show "map ucast (low_pixels ne planes) ! e = plane_pixels 2 ne planes ! e"
    using e by (simp add: low_pixels_nth plane_pixels_nth)
qed simp

section \<open>What the checks find\<close>

lemma planes_in_fill:
  assumes "planes_in planes raw nz" "nz + k \<le> length raw"
  shows "\<exists>raw'. memset0 raw nz k = Inr raw' \<and> length raw' = length raw \<and> planes_in planes raw' nz
    \<and> (\<forall>x < length planes. x < nz + k \<longrightarrow> raw' ! x = planes ! x)"
proof -
  let ?r = "blit raw nz (replicate k 0)"
  have l: "length ?r = length raw" using assms(2) by (simp add: length_blit)
  have n: "?r ! x = (if nz \<le> x \<and> x < nz + k then 0 else raw ! x)" for x
    using assms(2) by (simp add: nth_blit) (metis add_diff_inverse_nat nat_add_left_cancel_less not_less nth_replicate)
  have "planes_in planes ?r nz"
    by (rule planes_inI) (use assms(1) l n planes_in_nth[OF assms(1)] in \<open>auto simp: planes_in_def\<close>)
  moreover have "?r ! x = planes ! x" if "x < length planes" "x < nz + k" for x
    using n[of x] planes_in_nth[OF assms(1) that(1)] that(2) by simp
  ultimately show ?thesis using assms(2) l by (auto simp: memset0_ok)
qed

text \<open>The buffer a check leaves, from the block's first \<open>nz_end\<close> bytes and what it filled.\<close>

lemma high_fill:
  assumes "planes_in planes raw nz" "length planes = 2 * ne"
  shows "\<exists>raw'. (if nz < 2 * ne then memset0 raw nz (2 * ne - nz) else Inr raw) = Inr raw'
    \<and> length raw' = length raw \<and> planes_in planes raw' nz \<and> (\<forall>x < 2 * ne. raw' ! x = planes ! x)"
proof (cases "nz < 2 * ne")
  case True
  then have "nz + (2 * ne - nz) \<le> length raw" using assms by (simp add: planes_in_def)
  from planes_in_fill[OF assms(1) this] True assms(2) show ?thesis by auto
next
  case False
  then show ?thesis using assms planes_in_nth[OF assms(1)] by (auto simp: planes_in_def)
qed

lemma high_zero_nz: "planes_in planes raw nz \<Longrightarrow> length planes = 2 * ne \<Longrightarrow> nz \<le> ne \<Longrightarrow> high_zero ne planes"
  using planes_in_nth[of planes raw nz] by (auto simp: high_zero_def)

lemma high_checks:
  assumes "planes_in planes raw nz" "length planes = 2 * ne" "8 dvd ne"
  shows "64 dvd ne \<Longrightarrow> \<exists>raw'. bslz4_high_planes_zero raw ne nz = Inr (raw', high_zero ne planes)
      \<and> length raw' = length raw \<and> planes_in planes raw' nz"
    and "\<exists>raw'. bslz4_high_planes_zero_c_nofill raw ne nz = Inr (raw', high_zero ne planes)
      \<and> length raw' = length raw \<and> planes_in planes raw' nz"
    and "\<exists>raw'. bslz4_high_planes_zero_c raw ne nz = Inr (raw', high_zero ne planes)
      \<and> length raw' = length raw \<and> planes_in planes raw' nz \<and> (\<forall>x<ne. raw' ! x = planes ! x)"
proof -
  obtain r where r: "(if nz < 2 * ne then memset0 raw nz (2 * ne - nz) else Inr raw) = Inr r"
    "length r = length raw" "planes_in planes r nz" "\<forall>x < 2 * ne. r ! x = planes ! x"
    using high_fill[OF assms(1,2)] by blast
  have l: "ne \<le> length (drop ne r)" "2 * ne \<le> length r" using r(3) assms(2) by (auto simp: planes_in_def)
  have z: "(\<forall>x. 0 \<le> x \<and> x < ne \<longrightarrow> drop ne r ! x = 0) = high_zero ne planes"
  proof
    assume a: "\<forall>x. 0 \<le> x \<and> x < ne \<longrightarrow> drop ne r ! x = 0"
    show "high_zero ne planes"
      unfolding high_zero_def
    proof (intro allI impI)
      fix x assume "ne \<le> x \<and> x < 2 * ne"
      then have "x - ne < ne" "drop ne r ! (x - ne) = r ! x" "r ! x = planes ! x" using l r(4) by auto
      then show "planes ! x = 0" using a by simp
    qed
  next
    assume "high_zero ne planes"
    then show "\<forall>x. 0 \<le> x \<and> x < ne \<longrightarrow> drop ne r ! x = 0" using l r(4) by (auto simp: high_zero_def)
  qed
  have "8 dvd (512 :: nat)" "64 dvd (512 :: nat)" by simp_all
  then have az: "64 dvd ne \<Longrightarrow> bslz4_all_zero_avx512 (drop ne r) ne = Inr (high_zero ne planes)"
    "bslz4_all_zero_c (drop ne r) ne = Inr (high_zero ne planes)"
    using all_zero_from_ok[of 64 ne 0 "drop ne r"] all_zero_from_ok[of 8 ne 0 "drop ne r"] assms(3) l(1) z
    by (simp_all add: bslz4_all_zero_avx512_def bslz4_all_zero_c_def)
  note hz = high_zero_nz[OF assms(1,2)]
  show "64 dvd ne \<Longrightarrow> \<exists>raw'. bslz4_high_planes_zero raw ne nz = Inr (raw', high_zero ne planes)
      \<and> length raw' = length raw \<and> planes_in planes raw' nz"
    using r az hz assms(1) by (cases "nz \<le> ne") (simp_all add: bslz4_high_planes_zero_def)
  show "\<exists>raw'. bslz4_high_planes_zero_c_nofill raw ne nz = Inr (raw', high_zero ne planes)
      \<and> length raw' = length raw \<and> planes_in planes raw' nz"
    using r az hz assms(1) by (cases "nz \<le> ne") (simp_all add: bslz4_high_planes_zero_c_nofill_def)
  show "\<exists>raw'. bslz4_high_planes_zero_c raw ne nz = Inr (raw', high_zero ne planes)
      \<and> length raw' = length raw \<and> planes_in planes raw' nz \<and> (\<forall>x<ne. raw' ! x = planes ! x)"
  proof (cases "nz \<le> ne")
    case True
    then have "nz + (ne - nz) \<le> length raw" using assms(1,2) by (simp add: planes_in_def)
    from planes_in_fill[OF assms(1) this] True hz assms(2) show ?thesis
      by (auto simp: bslz4_high_planes_zero_c_def)
  next
    case False
    then show ?thesis using r az by (simp add: bslz4_high_planes_zero_c_def)
  qed
qed

section \<open>The portable collect\<close>

text \<open>The inner loop of \<open>bslz4_collect_u8_swar\<close>, \<open>c\<close> pixels from \<open>b\<close>; the mask is read only above the cut.\<close>

fun swar_lanes :: "byte list \<Rightarrow> byte list option \<Rightarrow> nat \<Rightarrow> nat \<Rightarrow> nat \<Rightarrow> nat \<Rightarrow> 16 word out \<Rightarrow> 16 word out res" where
  "swar_lanes v8 msk i0 cut_u b 0 s = Inr s"
| "swar_lanes v8 msk i0 cut_u b (Suc c) s =
     rbind (load v8 b) (\<lambda>v.
     rbind (if unat v > cut_u then bslz4_mask_ok msk (i0 + b) else Inr False) (\<lambda>ok.
     rbind (if ok then push_px (ucast v) (i0 + b) s else Inr s) (\<lambda>s.
       swar_lanes v8 msk i0 cut_u (b + 1) c s)))"

definition swar_step :: "byte list \<Rightarrow> byte list option \<Rightarrow> nat \<Rightarrow> nat \<Rightarrow> nat \<Rightarrow> 16 word out \<Rightarrow> 16 word out res" where
  "swar_step v8 msk i0 cut_u j s =
     rbind (load_n v8 j 8) (\<lambda>w.
       if list_all (\<lambda>b. b = 0) w then Inr s else swar_lanes v8 msk i0 cut_u j 8 s)"

definition bslz4_collect_u8_swar :: "byte list \<Rightarrow> byte list option \<Rightarrow> nat \<Rightarrow> nat \<Rightarrow> nat
    \<Rightarrow> 16 word list \<Rightarrow> 32 word list \<Rightarrow> 16 word out res" where
  "bslz4_collect_u8_swar v8 msk i0 n cut_u vals adr =
     group_loop (swar_step v8 msk i0 cut_u) 8 ((n + 7) div 8) 0 \<lparr>npx = 0, out_vals = vals, out_adr = adr\<rparr>"

definition above :: "nat \<Rightarrow> 16 word \<Rightarrow> bool" where
  "above cut_u v \<longleftrightarrow> unat v > cut_u"

lemma above_ucast: "above cut_u (ucast (v :: byte)) \<longleftrightarrow> unat v > cut_u"
proof -
  have "unat v < 2 ^ 16" using unsigned_less[of v, where 'a = nat] by simp
  then have "unat (ucast v :: 16 word) = unat v" by (simp add: unsigned_ucast_eq take_bit_nat_eq_self)
  then show ?thesis by (simp add: above_def)
qed

lemma not_above_0 [simp]: "\<not> above cut_u 0"
  by (simp add: above_def)

lemma swar_lanes_emits:
  "readable (map ucast v8) msk i0 n \<Longrightarrow> j + c \<le> n \<Longrightarrow> holds N s K \<Longrightarrow> length K + c \<le> N
    \<Longrightarrow> emits N s (K @ picked (above cut_u) (map ucast v8) msk i0 [j..<j + c]) (swar_lanes v8 msk i0 cut_u j c s)"
proof (induction c arbitrary: j s K)
  case (Suc c)
  let ?b = "map ucast v8 :: 16 word list"
  have l: "j < length v8" using Suc.prems(1,2) by (auto simp: readable_def)
  have mk: "bslz4_mask_ok msk (i0 + j) = Inr (mask_keeps msk (j + i0))"
    using mask_ok_Inr[of msk "j + i0"] readable_mask[OF Suc.prems(1), of j] Suc.prems(2) by (simp add: add.commute)
  have b: "(if unat (v8 ! j) > cut_u then bslz4_mask_ok msk (i0 + j) else Inr False) = Inr (picks (above cut_u) ?b msk i0 j)"
    using l by (auto simp: mk picks_def above_ucast)
  let ?K = "K @ (if picks (above cut_u) ?b msk i0 j then [(?b ! j, word_of_nat (i0 + j))] else [])"
  have e: "emits N s ?K (if picks (above cut_u) ?b msk i0 j then push_px (ucast (v8 ! j)) (i0 + j) s else Inr s)"
    using push_if_emits[of N s K "picks (above cut_u) ?b msk i0 j" "?b ! j" "i0 + j"] Suc.prems l by (simp cong: if_cong)
  have u: "[j..<j + Suc c] = j # [j + 1..<(j + 1) + c]" by (simp add: upt_conv_Cons)
  have "emits N s (?K @ picked (above cut_u) ?b msk i0 [j + 1..<(j + 1) + c])
      (rbind (if picks (above cut_u) ?b msk i0 j then push_px (ucast (v8 ! j)) (i0 + j) s else Inr s)
        (swar_lanes v8 msk i0 cut_u (j + 1) c))"
  proof (rule emits_bind[OF e])
    fix s' assume "holds N s' ?K"
    then show "emits N s' (?K @ picked (above cut_u) ?b msk i0 [j + 1..<(j + 1) + c]) (swar_lanes v8 msk i0 cut_u (j + 1) c s')"
      using Suc.prems by (intro Suc.IH) auto
  qed
  then show ?case unfolding u picked_Cons swar_lanes.simps load_ok[OF l] rbind.simps b
    by (simp add: ac_simps cong: if_cong)
qed simp

text \<open>A word of zero pixels lists nothing.\<close>

lemma zero_word_picks:
  assumes "j + 8 \<le> length v8" "list_all (\<lambda>b. b = 0) (take 8 (drop j v8))"
  shows "picked (above cut_u) (map ucast v8) msk i0 [j..<j + 8] = []"
proof (rule picked_none)
  fix k assume "k < (8 :: nat)"
  then have "v8 ! (j + k) = 0" using assms by (auto simp: list_all_length)
  then show "\<not> above cut_u (map ucast v8 ! (j + k))" using \<open>k < 8\<close> assms(1) by simp
qed

lemma swar_step_emits:
  assumes "readable (map ucast v8) msk i0 n" "holds N s K" "length K + 8 \<le> N" "j + 8 \<le> n"
  shows "emits N s (K @ picked (above cut_u) (map ucast v8) msk i0 [j..<j + 8]) (swar_step v8 msk i0 cut_u j s)"
proof -
  have l: "j + 8 \<le> length v8" using assms(1,4) by (simp add: readable_def)
  then have ld: "load_n v8 j 8 = Inr (take 8 (drop j v8))" by (simp add: load_n_ok)
  show ?thesis
  proof (cases "list_all (\<lambda>b. b = 0) (take 8 (drop j v8))")
    case True
    then show ?thesis using zero_word_picks[OF l True] assms(2) ld by (simp add: swar_step_def)
  next
    case False
    then show ?thesis using swar_lanes_emits[OF assms(1,4,2,3)] ld by (simp add: swar_step_def)
  qed
qed

lemma collect_u8_swar_emits:
  assumes "readable (map ucast v8) msk i0 n" "n mod 8 = 0" "n \<le> length vals" "n \<le> length adr"
  shows "emits n \<lparr>npx = 0, out_vals = vals, out_adr = adr\<rparr> (picked (above cut_u) (map ucast v8) msk i0 [0..<n])
    (bslz4_collect_u8_swar v8 msk i0 n cut_u vals adr)"
proof -
  have k: "8 * ((n + 7) div 8) = n" using assms(2) by auto
  have "emits n \<lparr>npx = 0, out_vals = vals, out_adr = adr\<rparr>
      ([] @ picked (above cut_u) (map ucast v8) msk i0 [0..<0 + 8 * ((n + 7) div 8)])
      (group_loop (swar_step v8 msk i0 cut_u) 8 ((n + 7) div 8) 0 \<lparr>npx = 0, out_vals = vals, out_adr = adr\<rparr>)"
    by (rule group_loop_emits[where n = n]) (use assms(1) holds_init[OF assms(3,4)] k in \<open>auto intro!: swar_step_emits\<close>)
  then show ?thesis by (simp add: bslz4_collect_u8_swar_def k)
qed

end
