(* ===== verification/LowTile.thy ===== *)
theory LowTile
  imports Lowplanes
begin

text \<open>
  What the fused low-planes collects (\<open>bslz4_lowplanes_collect_u16\<close>, \<open>_avx2\<close>, \<open>_vsx\<close>) share: the plane
  pointers, the 64-pixel groups, the bitmap of the groups holding data, and a tile's scratch.
\<close>

section \<open>Planes\<close>

text \<open>
  Clamping \<open>nz_end\<close>, the number \<open>np\<close> of planes holding data and the fill of the last one; with fewer
  than 8 pixels \<open>size\<close> is 0 and the division faults.
\<close>

definition low_prepare :: "byte list \<Rightarrow> nat \<Rightarrow> nat \<Rightarrow> (byte list \<times> nat) res" where
  "low_prepare raw ne nz_end =
     (let sz = ne div 8; nz_end = (if nz_end > ne then ne else nz_end) in
      if sz = 0 then Inl Fault
      else let np = (nz_end + sz - 1) div sz in
        rbind (if nz_end < np * sz then memset0 raw nz_end (np * sz - nz_end) else Inr raw) (\<lambda>raw.
          Inr (raw, np)))"

text \<open>\<open>pl[p] = p < np ? raw + p * sz + t / 8 : zeros\<close>: the memory from each pointer on.\<close>

definition plane_ptrs :: "byte list \<Rightarrow> nat \<Rightarrow> nat \<Rightarrow> nat \<Rightarrow> byte list list" where
  "plane_ptrs raw np sz t = map (\<lambda>p. if p < np then drop (p * sz + t div 8) raw else bslz4_zero_plane) [0..<8]"

text \<open>8 bytes of every plane at byte \<open>i\<close>.\<close>

fun load_rows :: "byte list list \<Rightarrow> nat \<Rightarrow> byte list list res" where
  "load_rows [] i = Inr []"
| "load_rows (p # ps) i = rbind (load_n p i 8) (\<lambda>a. rbind (load_rows ps i) (\<lambda>as. Inr (a # as)))"

text \<open>The planes read through the pointers, \<open>tsize\<close> bytes from pixel \<open>t\<close> on.\<close>

definition tile_rows :: "nat \<Rightarrow> byte list \<Rightarrow> nat \<Rightarrow> byte list list \<Rightarrow> nat \<Rightarrow> bool" where
  "tile_rows ne planes t pl tsize \<longleftrightarrow> length pl = 8 \<and> (\<forall>p<8. tsize \<le> length (pl ! p)
     \<and> (\<forall>x<tsize. pl ! p ! x = planes ! (p * (ne div 8) + t div 8 + x)))"

lemma low_prepare_ok:
  assumes "planes_in planes raw nz" "length planes = 2 * ne" "8 dvd ne" "0 < ne"
  shows "\<exists>raw' np. low_prepare raw ne nz = Inr (raw', np) \<and> length raw' = length raw
    \<and> (\<forall>t tsize. 8 dvd t \<and> t div 8 + tsize \<le> ne div 8 \<and> tsize \<le> 1024
        \<longrightarrow> tile_rows ne planes t (plane_ptrs raw' np (ne div 8) t) tsize)"
proof -
  define sz where "sz = ne div 8"
  define z where "z = (if nz > ne then ne else nz)"
  define np where "np = (z + sz - 1) div sz"
  have ne: "ne = 8 * sz" "0 < sz" using assms(3,4) by (auto simp: sz_def)
  have z: "z \<le> ne" "z \<le> nz" by (auto simp: z_def)
  have np: "z \<le> np * sz" "np * sz < z + sz"
  proof -
    have "z + sz - 1 = np * sz + (z + sz - 1) mod sz" by (simp add: np_def)
    moreover have "(z + sz - 1) mod sz < sz" using ne(2) by simp
    ultimately show "z \<le> np * sz" "np * sz < z + sz" using ne(2) by linarith+
  qed
  have "np \<le> 8"
  proof (rule ccontr)
    assume "\<not> np \<le> 8"
    then have "9 * sz \<le> np * sz" by (intro mult_le_mono1) simp
    then show False using np z(1) ne by linarith
  qed
  then have npe: "np * sz \<le> ne" using ne mult_le_mono1[of np 8 sz] by simp
  have lr: "2 * ne \<le> length raw" using assms(1,2) by (simp add: planes_in_def)
  obtain raw' where r: "(if z < np * sz then memset0 raw z (np * sz - z) else Inr raw) = Inr raw'"
    "length raw' = length raw" "\<And>x. x < np * sz \<Longrightarrow> raw' ! x = planes ! x"
  proof (cases "z < np * sz")
    case True
    then have zn: "z = nz" using npe by (auto simp: z_def split: if_splits)
    have "nz + (np * sz - nz) \<le> length raw" using npe lr np(1) zn by simp
    from planes_in_fill[OF assms(1) this] obtain r where
      "memset0 raw nz (np * sz - nz) = Inr r" "length r = length raw"
      "\<forall>x < length planes. x < nz + (np * sz - nz) \<longrightarrow> r ! x = planes ! x" by blast
    then show ?thesis using that[of r] True zn npe assms(2) by simp
  next
    case False
    then have "raw ! x = planes ! x" if "x < np * sz" for x
      using that planes_in_nth[OF assms(1), of x] z(2) npe assms(2) by simp
    then show ?thesis using that[of raw] False by simp
  qed
  have zero: "planes ! x = 0" if "np * sz \<le> x" "x < ne" for x
  proof -
    have "nz \<le> x" using that np(1) by (auto simp: z_def split: if_splits)
    then show ?thesis using planes_in_nth[OF assms(1), of x] that(2) assms(2) by simp
  qed
  have "tile_rows ne planes t (plane_ptrs raw' np sz t) tsize"
    if t: "t div 8 + tsize \<le> sz" "tsize \<le> 1024" for t tsize
  proof -
    have "tsize \<le> length (plane_ptrs raw' np sz t ! p)
        \<and> (\<forall>x<tsize. plane_ptrs raw' np sz t ! p ! x = planes ! (p * sz + t div 8 + x))" if p: "p < 8" for p
    proof (cases "p < np")
      case True
      have e: "p * sz + sz \<le> np * sz" using True mult_le_mono1[of "p + 1" np sz] by simp
      then have x: "p * sz + t div 8 + x < np * sz" if "x < tsize" for x using that t(1) by linarith
      have "p * sz + t div 8 + tsize \<le> length raw'" using e t(1) npe lr r(2) by linarith
      then show ?thesis using True p r(3)[OF x] by (auto simp: plane_ptrs_def add.assoc)
    next
      case False
      have "planes ! (p * sz + t div 8 + x) = 0" if "x < tsize" for x
      proof (rule zero)
        show "np * sz \<le> p * sz + t div 8 + x" using False mult_le_mono1[of np p sz] by linarith
        have "p * sz + sz \<le> 8 * sz" using p mult_le_mono1[of "p + 1" 8 sz] by simp
        then show "p * sz + t div 8 + x < ne" using that t(1) ne by linarith
      qed
      then show ?thesis using False p t(2) by (simp add: plane_ptrs_def bslz4_zero_plane_def)
    qed
    then show ?thesis by (simp add: tile_rows_def plane_ptrs_def sz_def)
  qed
  then have "\<forall>t tsize. 8 dvd t \<and> t div 8 + tsize \<le> ne div 8 \<and> tsize \<le> 1024
        \<longrightarrow> tile_rows ne planes t (plane_ptrs raw' np (ne div 8) t) tsize" by (simp add: sz_def)
  moreover have "low_prepare raw ne nz = Inr (raw', np)"
    using r(1) ne(2) unfolding low_prepare_def Let_def sz_def[symmetric] z_def[symmetric] np_def[symmetric] by simp
  ultimately show ?thesis using r(2) by blast
qed

section \<open>Groups\<close>

definition group_val :: "nat \<Rightarrow> byte list \<Rightarrow> nat \<Rightarrow> byte list" where
  "group_val ne planes j = map (\<lambda>b. low_byte ne planes (j + b)) [0..<64]"

definition group_sel :: "nat \<Rightarrow> byte list \<Rightarrow> byte list option \<Rightarrow> nat \<Rightarrow> nat \<Rightarrow> nat \<Rightarrow> 64 word" where
  "group_sel ne planes msk i0 cut_u j =
     word_of_bits (map (\<lambda>b. picks (above cut_u) (low_pixels ne planes) msk i0 (j + b)) [0..<64])"

lemma length_group_val [simp]: "length (group_val ne planes j) = 64"
  by (simp add: group_val_def)

lemma bit_group_sel: "bit (group_sel ne planes msk i0 cut_u j) b
    \<longleftrightarrow> b < 64 \<and> picks (above cut_u) (low_pixels ne planes) msk i0 (j + b)"
  by (auto simp: group_sel_def)

lemma load_rows_ok:
  "(\<And>p. p \<in> set pl \<Longrightarrow> i + 8 \<le> length p) \<Longrightarrow> load_rows pl i = Inr (map (\<lambda>p. take 8 (drop i p)) pl)"
  by (induction pl) (simp_all add: load_n_ok)

lemma tile_rows_mem: "tile_rows ne planes t pl tsize \<Longrightarrow> p \<in> set pl \<Longrightarrow> tsize \<le> length p"
  by (auto simp: tile_rows_def in_set_conv_nth)

lemma tile_group:
  assumes "tile_rows ne planes t pl tsize" "8 dvd t" "i + 8 \<le> tsize"
  shows "\<exists>A. load_rows pl i = Inr A \<and> group_ok A \<and> group_bytes A = group_val ne planes (t + 8 * i)
    \<and> (\<forall>p<8. A ! p = take 8 (drop i (pl ! p)))"
proof -
  let ?A = "map (\<lambda>p. take 8 (drop i p)) pl"
  have l: "length pl = 8" "\<And>p. p < 8 \<Longrightarrow> i + 8 \<le> length (pl ! p)"
    using assms(1,3) by (auto simp: tile_rows_def intro: order_trans)
  have "load_rows pl i = Inr ?A"
    by (rule load_rows_ok) (use tile_rows_mem[OF assms(1)] assms(3) in \<open>auto intro: order_trans\<close>)
  moreover have "group_ok ?A" using l(1) l(2) by (fastforce simp: group_ok_def)
  moreover have "group_bytes ?A = group_val ne planes (t + 8 * i)"
  proof (rule nth_equalityI)
    fix j assume "j < length (group_bytes ?A)"
    then have j: "j < 64" "j div 8 < 8" by simp_all
    have d: "(t + 8 * i + j) div 8 = t div 8 + i + j div 8" "(t + 8 * i + j) mod 8 = j mod 8"
    proof -
      obtain k where "t = 8 * k" using assms(2) by (auto elim!: dvdE)
      then have e: "t + 8 * i + j = 8 * (k + i) + j" "t div 8 = k" by simp_all
      show "(t + 8 * i + j) div 8 = t div 8 + i + j div 8" "(t + 8 * i + j) mod 8 = j mod 8"
        unfolding e(1) using e(2) by (simp_all del: distrib_left_numeral)
    qed
    have "bit (group_bytes ?A ! j) p = bit (group_val ne planes (t + 8 * i) ! j) p" if p: "p < 8" for p
    proof -
      have "?A ! p ! (j div 8) = pl ! p ! (i + j div 8)" using l(1) l(2)[OF p] p j by simp
      also have "\<dots> = planes ! (p * (ne div 8) + t div 8 + (i + j div 8))"
        using assms(1,3) p j by (simp add: tile_rows_def)
      finally show ?thesis using p j d
        by (simp add: bit_group_bytes group_val_def low_byte_def plane_bit_def add.assoc)
    qed
    then show "group_bytes ?A ! j = group_val ne planes (t + 8 * i) ! j" by (intro byte_bits_eqI)
  qed simp
  ultimately show ?thesis using l(1) by (intro exI[of _ ?A]) simp
qed

text \<open>A group of zero planes holds no pixel above any cut.\<close>

lemma group_zero:
  assumes "\<And>x. x \<in> set (group_val ne planes j) \<Longrightarrow> x = 0" "j + 64 \<le> ne"
  shows "picked (above cut_u) (low_pixels ne planes) msk i0 [j..<j + 64] = []"
proof (rule picked_none)
  fix k assume k: "k < (64 :: nat)"
  then have "low_byte ne planes (j + k) = 0" using assms(1) by (auto simp: group_val_def)
  then show "\<not> above cut_u (low_pixels ne planes ! (j + k))" using k assms(2) by (simp add: low_pixels_nth)
qed

lemma group_zero_sel:
  assumes "\<And>x. x \<in> set (group_val ne planes j) \<Longrightarrow> x = 0" "j + 64 \<le> ne"
  shows "group_sel ne planes msk i0 cut_u j = 0"
proof -
  have "\<not> picks (above cut_u) (low_pixels ne planes) msk i0 (j + b)" if "b < 64" for b
  proof -
    have "low_byte ne planes (j + b) = 0" using assms(1) that by (auto simp: group_val_def)
    then show ?thesis using that assms(2) by (simp add: picks_def low_pixels_nth)
  qed
  then show ?thesis by (intro bit_word_eqI) (simp add: bit_group_sel)
qed

lemma picked_group:
  "picked (above cut_u) (low_pixels ne planes) msk i0 [j..<j + 64]
     = lane_pixels (low_pixels ne planes) i0 j (ones (group_sel ne planes msk i0 cut_u j))"
  by (rule picked_lanes) (rule bit_group_sel)

text \<open>The lanes of a recorded group are the pixels.\<close>

lemma group_lane: "j + 64 \<le> ne \<Longrightarrow> b < 64 \<Longrightarrow> ucast (group_val ne planes j ! b) = low_pixels ne planes ! (j + b)"
  by (simp add: group_val_def low_pixels_nth)

section \<open>The groups holding data\<close>

text \<open>
  \<open>w\<close> bytes of every plane ORed (\<open>w\<close> is 64 with AVX-512, 32 with AVX2), and the quadwords of the result
  that are not zero: \<open>test_epi64_mask\<close>, or the complement of \<open>movemask_pd(cmpeq_epi64(acc, 0))\<close>.
\<close>

definition or_planes :: "byte list list \<Rightarrow> nat \<Rightarrow> nat \<Rightarrow> byte list res" where
  "or_planes pl i w =
     rbind (load_n (pl ! 0) i w) (\<lambda>acc.
       fold_res (\<lambda>p acc. rbind (load_n (pl ! p) i w) (\<lambda>v. Inr (map2 (OR) acc v))) [1..<8] acc)"

definition qwords_nz :: "byte list \<Rightarrow> 64 word" where
  "qwords_nz acc = word_of_bits (map (\<lambda>q. list_ex (\<lambda>b. b \<noteq> 0) (take 8 (drop (8 * q) acc))) [0..<length acc div 8])"

text \<open>\<open>gm[g >> 6] |= bits << (g & 63)\<close>.\<close>

definition or_word :: "64 word list \<Rightarrow> nat \<Rightarrow> 64 word \<Rightarrow> 64 word list res" where
  "or_word gm g bits = rbind (load gm (g div 64)) (\<lambda>x. store gm (g div 64) (x OR push_bit (g mod 64) bits))"

definition group_bitmap :: "nat \<Rightarrow> byte list list \<Rightarrow> nat \<Rightarrow> 64 word list res" where
  "group_bitmap w pl tsize =
     fold_res (\<lambda>k gm. rbind (or_planes pl (w * k) w) (\<lambda>acc. or_word gm (w * k div 8) (qwords_nz acc)))
       [0..<(tsize + w - 1) div w] [0, 0]"

text \<open>Bit \<open>g\<close> of a bitmap of words.\<close>

definition gbit :: "64 word list \<Rightarrow> nat \<Rightarrow> bool" where
  "gbit gm g = bit (gm ! (g div 64)) (g mod 64)"

lemma or_word_ok:
  assumes "g div 64 < length gm"
  shows "\<exists>gm'. or_word gm g bits = Inr gm' \<and> length gm' = length gm
    \<and> (\<forall>x. gbit gm' x \<longleftrightarrow> gbit gm x \<or> (x div 64 = g div 64 \<and> g mod 64 \<le> x mod 64 \<and> bit bits (x mod 64 - g mod 64)))"
  using assms by (auto simp: or_word_def load_ok store_ok gbit_def nth_list_update bit_simps)

lemma or_planes_ok:
  assumes "tile_rows ne planes t pl tsize" "i + w \<le> tsize"
  shows "\<exists>acc. or_planes pl i w = Inr acc \<and> length acc = w
    \<and> (\<forall>x<w. acc ! x \<noteq> 0 \<longleftrightarrow> (\<exists>p<8. pl ! p ! (i + x) \<noteq> 0))"
proof -
  let ?I = "\<lambda>ps (acc :: byte list). length acc = w \<and> (\<forall>x<w. acc ! x \<noteq> 0 \<longleftrightarrow> pl ! 0 ! (i + x) \<noteq> 0 \<or> (\<exists>p\<in>set ps. pl ! p ! (i + x) \<noteq> 0))"
  have l: "i + w \<le> length (pl ! p)" if "p < 8" for p using assms that by (auto simp: tile_rows_def intro: order_trans)
  have or0: "a OR b = 0 \<longleftrightarrow> a = 0 \<and> b = 0" for a b :: byte by (auto simp: bit_eq_iff bit_or_iff)
  have "\<exists>acc. fold_res (\<lambda>p acc. rbind (load_n (pl ! p) i w) (\<lambda>v. Inr (map2 (OR) acc v))) [1..<8] (take w (drop i (pl ! 0))) = Inr acc
      \<and> ?I [1..<8] acc"
  proof (rule fold_res_inv)
    show "?I [] (take w (drop i (pl ! 0)))" using l[of 0] by auto
    fix ys p zs acc assume a: "[1..<8] = ys @ p # zs" "?I ys acc"
    have "p \<in> set [1..<8]" unfolding a(1) by simp
    then have "p < 8" by simp
    then show "\<exists>acc'. rbind (load_n (pl ! p) i w) (\<lambda>v. Inr (map2 (OR) acc v)) = Inr acc' \<and> ?I (ys @ [p]) acc'"
      using a(2) l[of p] by (auto simp: load_n_ok or0)
  qed
  then obtain acc where acc: "fold_res (\<lambda>p acc. rbind (load_n (pl ! p) i w) (\<lambda>v. Inr (map2 (OR) acc v))) [1..<8] (take w (drop i (pl ! 0))) = Inr acc"
    "?I [1..<8] acc" by blast
  have "(pl ! 0 ! y \<noteq> 0 \<or> (\<exists>p\<in>set [1..<8]. pl ! p ! y \<noteq> 0)) \<longleftrightarrow> (\<exists>p<8. pl ! p ! y \<noteq> 0)" for y
  proof -
    have "{..<8} = insert 0 (set [1..<8 :: nat])" by auto
    then show ?thesis by (metis insertE insertI1 insertI2 lessThan_iff)
  qed
  then show ?thesis using acc l[of 0] by (simp add: or_planes_def load_n_ok)
qed

lemma bit_qwords_nz: "length acc = w \<Longrightarrow> 8 dvd w \<Longrightarrow> w \<le> 64 \<Longrightarrow> bit (qwords_nz acc) q \<longleftrightarrow> q < w div 8 \<and> (\<exists>x<8. acc ! (8 * q + x) \<noteq> 0)"
proof -
  assume a: "length acc = w" "8 dvd w" "w \<le> 64"
  have "list_ex (\<lambda>b. b \<noteq> 0) (take 8 (drop (8 * q) acc)) \<longleftrightarrow> (\<exists>x<8. acc ! (8 * q + x) \<noteq> 0)" if "q < w div 8"
  proof -
    have "8 * q + 8 \<le> w" using that by linarith
    then have "length (take 8 (drop (8 * q) acc)) = 8" "\<forall>x<8. take 8 (drop (8 * q) acc) ! x = acc ! (8 * q + x)" using a(1) by auto
    then show ?thesis by (auto simp: list_ex_length)
  qed
  then show ?thesis using a by (auto simp: qwords_nz_def)
qed

text \<open>A group holds data: some of its pixels' low bytes are not zero.\<close>

definition group_live :: "nat \<Rightarrow> byte list \<Rightarrow> nat \<Rightarrow> bool" where
  "group_live ne planes j \<longleftrightarrow> (\<exists>x\<in>set (group_val ne planes j). x \<noteq> 0)"

lemma group_live_rows:
  assumes "tile_rows ne planes t pl tsize" "8 dvd t" "8 * g + 8 \<le> tsize"
  shows "group_live ne planes (t + 64 * g) \<longleftrightarrow> (\<exists>x<8. \<exists>p<8. pl ! p ! (8 * g + x) \<noteq> 0)"
proof -
  obtain A where A: "group_bytes A = group_val ne planes (t + 8 * (8 * g))" "\<forall>p<8. A ! p = take 8 (drop (8 * g) (pl ! p))"
    using tile_group[OF assms] by blast
  have l: "8 * g + 8 \<le> length (pl ! p)" if "p < 8" for p
    using assms that by (auto simp: tile_rows_def intro: order_trans)
  have r: "A ! p ! x = pl ! p ! (8 * g + x)" if "p < 8" "x < 8" for p x using A(2) l[OF that(1)] that by simp
  have bz: "b \<noteq> 0 \<longleftrightarrow> (\<exists>k<8. bit b k)" for b :: byte by (auto simp: bit_eq_iff dest: bit_imp_le_length)
  have "group_live ne planes (t + 64 * g) \<longleftrightarrow> (\<exists>j<64. group_bytes A ! j \<noteq> 0)"
    unfolding group_live_def using A(1) by (simp add: list_ex_length flip: list_ex_iff)
  also have "\<dots> \<longleftrightarrow> (\<exists>j<64. \<exists>p<8. bit (A ! p ! (j div 8)) (j mod 8))"
    using bit_group_bytes[of _ _ A] by (simp add: bz cong: conj_cong)
  also have "\<dots> \<longleftrightarrow> (\<exists>x<8. \<exists>p<8. \<exists>k<8. bit (A ! p ! x) k)"
  proof safe
    fix j p :: nat assume "j < 64" "p < 8" "bit (A ! p ! (j div 8)) (j mod 8)"
    then have "p < 8 \<and> (j mod 8 < 8 \<and> bit (A ! p ! (j div 8)) (j mod 8))" "j div 8 < 8" by simp_all
    then show "\<exists>x<8. \<exists>p<8. \<exists>k<8. bit (A ! p ! x) k" by blast
  next
    fix x p k :: nat assume "x < 8" "p < 8" "k < 8" "bit (A ! p ! x) k"
    then show "\<exists>j<64. \<exists>p<8. bit (A ! p ! (j div 8)) (j mod 8)" by (intro exI[of _ "8 * x + k"]) auto
  qed
  also have "\<dots> \<longleftrightarrow> (\<exists>x<8. \<exists>p<8. pl ! p ! (8 * g + x) \<noteq> 0)" using r by (simp add: bz cong: conj_cong)
  finally show ?thesis .
qed

lemma same_word:
  fixes a g m :: nat
  assumes "a mod 64 + m \<le> 64"
  shows "a \<le> g \<and> g < a + m \<longleftrightarrow> g div 64 = a div 64 \<and> a mod 64 \<le> g mod 64 \<and> g mod 64 - a mod 64 < m"
    and "a \<le> g \<Longrightarrow> g < a + m \<Longrightarrow> g mod 64 - a mod 64 = g - a"
proof -
  define qa ra qg rg where q: "qa = a div 64" "ra = a mod 64" "qg = g div 64" "rg = g mod 64"
  have e: "a = 64 * qa + ra" "g = 64 * qg + rg" "ra < 64" "rg < 64" by (simp_all add: q)
  have m: "ra + m \<le> 64" using assms by (simp add: q)
  consider "Suc qa \<le> qg" | "qa = qg" | "Suc qg \<le> qa" by linarith
  then have "(a \<le> g \<and> g < a + m \<longleftrightarrow> qg = qa \<and> ra \<le> rg \<and> rg - ra < m) \<and> (a \<le> g \<and> g < a + m \<longrightarrow> rg - ra = g - a)"
  proof cases
    case 1
    then have "64 * qa + 64 \<le> 64 * qg" by simp
    then have "a + m \<le> g" using e m by linarith
    then show ?thesis using 1 by simp
  next
    case 2
    then show ?thesis using e m by auto
  next
    case 3
    then have "64 * qg + 64 \<le> 64 * qa" by simp
    then have "g < a" using e m by linarith
    then show ?thesis using 3 by simp
  qed
  then show "a \<le> g \<and> g < a + m \<longleftrightarrow> g div 64 = a div 64 \<and> a mod 64 \<le> g mod 64 \<and> g mod 64 - a mod 64 < m"
    "a \<le> g \<Longrightarrow> g < a + m \<Longrightarrow> g mod 64 - a mod 64 = g - a" by (simp_all add: q)
qed

lemma group_bitmap_ok:
  assumes "tile_rows ne planes t pl tsize" "8 dvd t" "w \<in> {32, 64}" "w dvd tsize" "tsize \<le> 1024"
  shows "\<exists>gm. group_bitmap w pl tsize = Inr gm \<and> length gm = 2
    \<and> (\<forall>g<128. gbit gm g \<longleftrightarrow> 8 * g < tsize \<and> group_live ne planes (t + 64 * g))"
proof -
  let ?I = "\<lambda>k gm. length gm = 2 \<and> (\<forall>g<128. gbit gm g \<longleftrightarrow> 8 * g < w * k \<and> group_live ne planes (t + 64 * g))"
  have w: "0 < w" "8 dvd w" "w \<le> 64" using assms(3) by auto
  have n: "w * ((tsize + w - 1) div w) = tsize" using assms(3,4) by (auto elim!: dvdE)
  have "\<exists>gm. group_bitmap w pl tsize = Inr gm \<and> ?I ((tsize + w - 1) div w) gm"
    unfolding group_bitmap_def
  proof (rule fold_upt_inv)
    show "?I 0 [0, 0]" by (auto simp: gbit_def less_Suc_eq numeral_2_eq_2 nth_Cons')
    fix k gm assume k: "k < (tsize + w - 1) div w" and I: "?I k gm"
    have e: "w * k + w \<le> tsize" using k n mult_le_mono2[of "Suc k" "(tsize + w - 1) div w" w] by simp
    obtain acc where acc: "or_planes pl (w * k) w = Inr acc" "length acc = w"
      "\<forall>x<w. acc ! x \<noteq> 0 \<longleftrightarrow> (\<exists>p<8. pl ! p ! (w * k + x) \<noteq> 0)"
      using or_planes_ok[OF assms(1) e] by blast
    define g0 where "g0 = w * k div 8"
    have g0: "w * k = 8 * g0" using w(2) by (auto simp: g0_def elim!: dvdE)
    have "8 * g0 < 1024" using e w(1) assms(5) g0 by linarith
    then have gl: "g0 div 64 < length gm" using I by simp
    have al: "g0 mod 64 + w div 8 \<le> 64"
    proof -
      obtain m where m: "w = 8 * m" "m = 4 \<or> m = 8" using assms(3) by auto
      then have "g0 = m * k" using g0 by simp
      then show ?thesis using m by (elim disjE) (simp_all, presburger+)
    qed
    obtain gm' where gm': "or_word gm g0 (qwords_nz acc) = Inr gm'" "length gm' = length gm"
      "\<forall>x. gbit gm' x \<longleftrightarrow> gbit gm x \<or> (x div 64 = g0 div 64 \<and> g0 mod 64 \<le> x mod 64 \<and> bit (qwords_nz acc) (x mod 64 - g0 mod 64))"
      using or_word_ok[OF gl] by blast
    have "gbit gm' g \<longleftrightarrow> 8 * g < w * Suc k \<and> group_live ne planes (t + 64 * g)" if g: "g < 128" for g
    proof -
      have q: "(g div 64 = g0 div 64 \<and> g0 mod 64 \<le> g mod 64 \<and> bit (qwords_nz acc) (g mod 64 - g0 mod 64))
          \<longleftrightarrow> g0 \<le> g \<and> g < g0 + w div 8 \<and> group_live ne planes (t + 64 * g)"
      proof (cases "g0 \<le> g \<and> g < g0 + w div 8")
        case True
        then obtain d where d: "g = g0 + d" "d < w div 8" using le_Suc_ex by fastforce
        have x: "8 * d + x < w" "w * k + (8 * d + x) = 8 * g + x" if "x < 8" for x
        proof -
          show "8 * d + x < w" using d(2) that by linarith
          show "w * k + (8 * d + x) = 8 * g + x" using d(1) g0 by simp
        qed
        have ax: "acc ! (8 * d + x) \<noteq> 0 \<longleftrightarrow> (\<exists>p<8. pl ! p ! (8 * g + x) \<noteq> 0)" if "x < 8" for x
          using acc(3)[rule_format, OF x(1)[OF that]] unfolding x(2)[OF that] .
        have "8 * g + 8 \<le> tsize" using d e g0 by linarith
        from group_live_rows[OF assms(1,2) this]
        have "group_live ne planes (t + 64 * g) \<longleftrightarrow> (\<exists>x<8. acc ! (8 * d + x) \<noteq> 0)" using ax by blast
        then show ?thesis
          using same_word[OF al, of g] True d bit_qwords_nz[OF acc(2) w(2,3), of d] by auto
      next
        case False
        then show ?thesis using same_word(1)[OF al, of g] bit_qwords_nz[OF acc(2) w(2,3), of "g mod 64 - g0 mod 64"] by auto
      qed
      have "8 * g < w * Suc k \<longleftrightarrow> 8 * g < w * k \<or> (g0 \<le> g \<and> g < g0 + w div 8)" using g0 w(2) by (auto elim!: dvdE)
      then show ?thesis using gm'(3) q I g by auto
    qed
    then show "\<exists>gm'. rbind (or_planes pl (w * k) w) (\<lambda>acc. or_word gm (w * k div 8) (qwords_nz acc)) = Inr gm' \<and> ?I (Suc k) gm'"
      using acc(1) gm' I by (simp add: g0_def)
  qed
  then show ?thesis unfolding n by blast
qed

end
