(* ===== verification/LowFused.thy ===== *)
theory LowFused
  imports LowTile
begin

text \<open>
  The fused low-planes collect with AVX-512 VBMI and GFNI (\<open>bslz4_lowplanes_collect_u16\<close>): pass 1 records the
  bytes and the selection of the 64-pixel groups of a tile, pass 2 emits the groups with pixels. The
  scratch of a tile is \<open>tl_rec\<close> (\<open>ubuf\<close> and \<open>kv\<close> per group; \<open>None\<close> before the first store to them) and the
  bitmap \<open>tl_gm\<close> (\<open>gm\<close>; \<open>km\<close> in the AVX2 collect).
\<close>

record low_tile =
  tl_rec :: "(byte list \<times> 64 word) option list"
  tl_gm :: "64 word list"

definition tile_record :: "nat \<Rightarrow> byte list \<Rightarrow> 64 word \<Rightarrow> low_tile \<Rightarrow> low_tile res" where
  "tile_record g u k s =
     rbind (store (tl_rec s) g (Some (u, k))) (\<lambda>r.
     rbind (or_word (tl_gm s) g (of_bool (k \<noteq> 0))) (\<lambda>gm. Inr \<lparr>tl_rec = r, tl_gm = gm\<rparr>))"

text \<open>\<open>for (w) while (bits) { g = 64 w + ctz(bits); bits &= bits - 1; f(g); }\<close> over the two words.\<close>

definition low_scan :: "(nat \<Rightarrow> 's \<Rightarrow> 's res) \<Rightarrow> 64 word list \<Rightarrow> 's \<Rightarrow> 's res" where
  "low_scan f gm = fold_res (\<lambda>w s. rbind (load gm w) (\<lambda>bits. bits_fold f (64 * w) bits s)) [0..<2]"

definition bslz4_lowplanes_group :: "byte list list \<Rightarrow> nat \<Rightarrow> byte \<Rightarrow> byte list option \<Rightarrow> nat \<Rightarrow> low_tile \<Rightarrow> low_tile res" where
  "bslz4_lowplanes_group pl i vcut msk i0 s =
     rbind (load_rows pl i) (\<lambda>A.
     let u = vbmi_transpose A; k = cmpgt_epu_mask u vcut :: 64 word in
     rbind (case msk of None \<Rightarrow> Inr k
            | Some m \<Rightarrow> rbind (load_n m (i0 + 8 * i) 64) (\<lambda>b. Inr (k AND test_epi8_mask b))) (\<lambda>k.
       tile_record (i div 8) u k s))"

text \<open>The four \<open>vpcompressd\<close> stores of pixel indices.\<close>

fun emit_adr :: "64 word \<Rightarrow> 32 word list \<Rightarrow> nat \<Rightarrow> nat \<Rightarrow> nat \<Rightarrow> 32 word list \<Rightarrow> (nat \<times> 32 word list) res" where
  "emit_adr k ix q at 0 adr = Inr (at, adr)"
| "emit_adr k ix q at (Suc c) adr =
     (let mq = ucast (drop_bit (16 * q) k) :: 16 word in
      rbind (store_n adr at (maskz_compress mq ix)) (\<lambda>adr.
        emit_adr k (add_epi ix (replicate 16 16)) (q + 1) (at + popcnt mq) c adr))"

definition bslz4_lowplanes_emit :: "byte list \<Rightarrow> 64 word \<Rightarrow> nat \<Rightarrow> 16 word out \<Rightarrow> 16 word out res" where
  "bslz4_lowplanes_emit u k base_px s =
     (let c = maskz_compress k u in
      rbind (store_n (out_vals s) (npx s) (map ucast (take 32 c))) (\<lambda>vs.
      rbind (store_n vs (npx s + 32) (map ucast (drop 32 c))) (\<lambda>vs.
      rbind (emit_adr k (add_epi (replicate 16 (word_of_nat base_px)) iota16) 0 (npx s) 4 (out_adr s)) (\<lambda>(at, as).
        Inr \<lparr>npx = at, out_vals = vs, out_adr = as\<rparr>))))"

text \<open>Pass 2 of a group: its recorded bytes and selection, emitted.\<close>

definition emit_recorded :: "(byte list \<Rightarrow> 64 word \<Rightarrow> nat \<Rightarrow> 16 word out \<Rightarrow> 16 word out res) \<Rightarrow> low_tile \<Rightarrow> nat \<Rightarrow> nat
    \<Rightarrow> 16 word out \<Rightarrow> 16 word out res" where
  "emit_recorded emit ts ti0 g s =
     rbind (load (tl_rec ts) g) (\<lambda>r. case r of None \<Rightarrow> Inl Fault | Some (u, k) \<Rightarrow> emit u k (ti0 + 64 * g) s)"

text \<open>One tile, and the loop over the tiles, whose scratch keeps what earlier tiles left in it.\<close>

definition tile_bytes :: "nat \<Rightarrow> nat \<Rightarrow> nat" where
  "tile_bytes ne t = (if ne - t < BSLZ4_LOWPLANES_TILE then ne - t else BSLZ4_LOWPLANES_TILE) div 8"

definition vbmi_tile :: "byte list \<Rightarrow> nat \<Rightarrow> nat \<Rightarrow> byte list option \<Rightarrow> nat \<Rightarrow> nat \<Rightarrow> bool \<Rightarrow> nat
    \<Rightarrow> (byte list \<times> 64 word) option list \<times> 16 word out \<Rightarrow> ((byte list \<times> 64 word) option list \<times> 16 word out) res" where
  "vbmi_tile raw np ne msk i0 cut_u skip t = (\<lambda>(r, s).
     let tsize = tile_bytes ne t; ti0 = i0 + t; pl = plane_ptrs raw np (ne div 8) t; vcut = word_of_nat cut_u in
     rbind (if skip \<and> tsize mod 64 = 0
            then rbind (group_bitmap 64 pl tsize) (\<lambda>gnz.
                   low_scan (\<lambda>g. bslz4_lowplanes_group pl (8 * g) vcut msk ti0) gnz \<lparr>tl_rec = r, tl_gm = [0, 0]\<rparr>)
            else fold_res (\<lambda>k. bslz4_lowplanes_group pl (8 * k) vcut msk ti0) [0..<(tsize + 7) div 8]
                   \<lparr>tl_rec = r, tl_gm = [0, 0]\<rparr>) (\<lambda>ts.
     rbind (low_scan (emit_recorded bslz4_lowplanes_emit ts ti0) (tl_gm ts) s) (\<lambda>s. Inr (tl_rec ts, s))))"

definition low_tiles :: "(nat \<Rightarrow> (byte list \<times> 64 word) option list \<times> 16 word out
      \<Rightarrow> ((byte list \<times> 64 word) option list \<times> 16 word out) res) \<Rightarrow> nat \<Rightarrow> 16 word list \<Rightarrow> 32 word list \<Rightarrow> 16 word out res" where
  "low_tiles tile ne vals adr =
     rbind (fold_res (\<lambda>k. tile (BSLZ4_LOWPLANES_TILE * k)) [0..<(ne + BSLZ4_LOWPLANES_TILE - 1) div BSLZ4_LOWPLANES_TILE]
              (replicate 128 None, \<lparr>npx = 0, out_vals = vals, out_adr = adr\<rparr>)) (\<lambda>(r, s). Inr s)"

text \<open>The planes buffer and the output state.\<close>

definition bslz4_lowplanes_collect_u16 :: "byte list \<Rightarrow> nat \<Rightarrow> nat \<Rightarrow> byte list option \<Rightarrow> nat \<Rightarrow> nat
    \<Rightarrow> 16 word list \<Rightarrow> 32 word list \<Rightarrow> bool \<Rightarrow> (byte list \<times> 16 word out) res" where
  "bslz4_lowplanes_collect_u16 raw ne nz_end msk i0 cut_u vals adr skip =
     rbind (low_prepare raw ne nz_end) (\<lambda>(raw, np).
     rbind (low_tiles (vbmi_tile raw np ne msk i0 cut_u skip) ne vals adr) (\<lambda>s. Inr (raw, s)))"

section \<open>The scratch\<close>

definition tile_inv :: "nat \<Rightarrow> byte list \<Rightarrow> byte list option \<Rightarrow> nat \<Rightarrow> nat \<Rightarrow> nat \<Rightarrow> nat set \<Rightarrow> low_tile \<Rightarrow> bool" where
  "tile_inv ne planes msk i0 cut_u t vis s \<longleftrightarrow> length (tl_rec s) = 128 \<and> length (tl_gm s) = 2 \<and> vis \<subseteq> {..<128}
     \<and> (\<forall>g<128. gbit (tl_gm s) g \<longleftrightarrow> g \<in> vis \<and> group_sel ne planes msk i0 cut_u (t + 64 * g) \<noteq> 0)
     \<and> (\<forall>g\<in>vis. tl_rec s ! g = Some (group_val ne planes (t + 64 * g), group_sel ne planes msk i0 cut_u (t + 64 * g)))"

lemma tile_inv_init: "length r = 128 \<Longrightarrow> tile_inv ne planes msk i0 cut_u t {} \<lparr>tl_rec = r, tl_gm = [0, 0]\<rparr>"
  by (auto simp: tile_inv_def gbit_def nth_Cons')

lemma tile_record_ok:
  assumes "tile_inv ne planes msk i0 cut_u t vis s" "g < 128"
  shows "\<exists>s'. tile_record g (group_val ne planes (t + 64 * g)) (group_sel ne planes msk i0 cut_u (t + 64 * g)) s = Inr s'
    \<and> tile_inv ne planes msk i0 cut_u t (insert g vis) s'"
proof -
  let ?k = "group_sel ne planes msk i0 cut_u (t + 64 * g)" and ?u = "group_val ne planes (t + 64 * g)"
  have l: "g div 64 < length (tl_gm s)" "g < length (tl_rec s)" using assms by (auto simp: tile_inv_def)
  obtain gm where gm: "or_word (tl_gm s) g (of_bool (?k \<noteq> 0)) = Inr gm" "length gm = length (tl_gm s)"
    "\<forall>x. gbit gm x \<longleftrightarrow> gbit (tl_gm s) x \<or> (x div 64 = g div 64 \<and> g mod 64 \<le> x mod 64 \<and> bit (of_bool (?k \<noteq> 0) :: 64 word) (x mod 64 - g mod 64))"
    using or_word_ok[OF l(1), of "of_bool (?k \<noteq> 0)"] by blast
  have "gbit gm x \<longleftrightarrow> gbit (tl_gm s) x \<or> (x = g \<and> ?k \<noteq> 0)" for x
  proof -
    have "x div 64 = g div 64 \<and> g mod 64 \<le> x mod 64 \<and> x mod 64 - g mod 64 = 0 \<longleftrightarrow> x = g"
      by (metis diff_is_0_eq div_mod_decomp le_antisym order_refl)
    then show ?thesis using gm(3) by (auto simp: bit_of_bool_iff)
  qed
  then have "tile_inv ne planes msk i0 cut_u t (insert g vis) \<lparr>tl_rec = (tl_rec s)[g := Some (?u, ?k)], tl_gm = gm\<rparr>"
    using assms gm(2) l by (auto simp: tile_inv_def nth_list_update)
  then show ?thesis using gm(1) l by (simp add: tile_record_def store_ok)
qed

text \<open>A scan of a bitmap visits its groups in ascending order.\<close>

lemma low_scan_eq:
  assumes "length gm = 2"
  shows "low_scan f gm s = fold_res f (filter (gbit gm) [0..<128]) s"
proof -
  have u: "[0..<128] = [0..<64] @ map (\<lambda>b. 64 + b) [0..<64 :: nat]"
    using upt_add_eq_append[of 0 64 64] map_add_upt[of 64 64] by (simp add: add.commute)
  have f0: "filter (gbit gm) [0..<64] = ones (gm ! 0)"
    by (auto simp: ones_def gbit_def intro!: filter_cong)
  have "filter (gbit gm \<circ> (\<lambda>b. 64 + b)) [0..<64] = filter (bit (gm ! 1)) [0..<64]"
  proof (rule filter_cong)
    fix x :: nat assume "x \<in> set [0..<64]"
    then have "(64 + x) div 64 = 1" "(64 + x) mod 64 = x" by (simp_all add: div_add_self1)
    then show "(gbit gm \<circ> (\<lambda>b. 64 + b)) x = bit (gm ! 1) x" by (simp only: gbit_def comp_def)
  qed simp
  then have f1: "filter (gbit gm) (map (\<lambda>b. 64 + b) [0..<64]) = map (\<lambda>b. 64 + b) (ones (gm ! 1))"
    by (simp add: filter_map ones_def)
  have m0: "map ((+) 0) xs = xs" for xs :: "nat list" by (induction xs) auto
  have z: "[0..<2] = [0, 1 :: nat]" by (simp add: upt_rec)
  show ?thesis unfolding low_scan_def z u filter_append f0 f1 fold_res_append
    using assms by (cases "fold_res f (ones (gm ! 0)) s") (simp_all add: load_ok bits_fold_eq m0)
qed

lemma scan_emits:
  assumes inv: "tile_inv ne planes msk i0 cut_u t vis ts" and G: "vis \<subseteq> {..<G}" "G \<le> 128" "t + 64 * G \<le> ne"
    and live: "\<And>g. g < G \<Longrightarrow> g \<notin> vis \<Longrightarrow> \<not> group_live ne planes (t + 64 * g)"
    and emit: "\<And>j s K. j + 64 \<le> ne \<Longrightarrow> holds ne s K \<Longrightarrow> length K \<le> j \<Longrightarrow> group_sel ne planes msk i0 cut_u j \<noteq> 0
      \<Longrightarrow> emits ne s (K @ picked (above cut_u) (low_pixels ne planes) msk i0 [j..<j + 64])
            (emit (group_val ne planes j) (group_sel ne planes msk i0 cut_u j) (i0 + j) s)"
    and h: "holds ne s K" "length K \<le> t"
  shows "emits ne s (K @ picked (above cut_u) (low_pixels ne planes) msk i0 [t..<t + 64 * G])
    (low_scan (emit_recorded emit ts (i0 + t)) (tl_gm ts) s)"
proof -
  let ?p = "picked (above cut_u) (low_pixels ne planes) msk i0"
  let ?f = "emit_recorded emit ts (i0 + t)"
  have F: "emits ne s (K @ ?p [t..<t + 64 * n]) (fold_res ?f (filter (gbit (tl_gm ts)) [0..<n]) s)" if "n \<le> G" for n
    using that
  proof (induction n)
    case 0
    then show ?case using h(1) by simp
  next
    case (Suc n)
    let ?j = "t + 64 * n"
    have n: "n < 128" "?j + 64 \<le> ne" "n < G" using Suc.prems G(2,3) by auto
    have u: "[t..<t + 64 * Suc n] = [t..<?j] @ [?j..<?j + 64]"
    proof -
      have e: "t + 64 * Suc n = ?j + 64" by simp
      show ?thesis unfolding e using upt_add_eq_append[of t ?j 64] by simp
    qed
    have e: "emits ne s (K @ ?p [t..<?j]) (fold_res ?f (filter (gbit (tl_gm ts)) [0..<n]) s)" using Suc by simp
    have gb: "gbit (tl_gm ts) n \<longleftrightarrow> n \<in> vis \<and> group_sel ne planes msk i0 cut_u ?j \<noteq> 0"
      using inv n(1) by (simp add: tile_inv_def)
    show ?case
    proof (cases "gbit (tl_gm ts) n")
      case True
      then have r: "tl_rec ts ! n = Some (group_val ne planes ?j, group_sel ne planes msk i0 cut_u ?j)"
        "group_sel ne planes msk i0 cut_u ?j \<noteq> 0" using inv gb by (auto simp: tile_inv_def)
      have "emits ne s ((K @ ?p [t..<?j]) @ ?p [?j..<?j + 64]) (rbind (fold_res ?f (filter (gbit (tl_gm ts)) [0..<n]) s) (?f n))"
      proof (rule emits_bind[OF e])
        fix s' assume s': "holds ne s' (K @ ?p [t..<?j])"
        have "length (K @ ?p [t..<?j]) \<le> ?j" using h(2) length_picked[of "above cut_u" "low_pixels ne planes" msk i0 "[t..<?j]"] by simp
        from emit[OF n(2) s' this r(2)] show "emits ne s' ((K @ ?p [t..<?j]) @ ?p [?j..<?j + 64]) (?f n s')"
          using r(1) inv n(1) by (simp add: emit_recorded_def load_ok tile_inv_def add.assoc)
      qed
      then show ?thesis unfolding u picked_append using True by (simp add: fold_res_append)
    next
      case False
      have "?p [?j..<?j + 64] = []"
      proof (cases "n \<in> vis")
        case True
        then show ?thesis using gb False by (simp add: picked_group lane_pixels_def)
      next
        case False
        then have "\<not> group_live ne planes ?j" using live n(3) by blast
        then show ?thesis using group_zero[of ne planes ?j] n(2) by (auto simp: group_live_def)
      qed
      then show ?thesis unfolding u picked_append using e False by simp
    qed
  qed
  have "filter (gbit (tl_gm ts)) [0..<128] = filter (gbit (tl_gm ts)) [0..<G]"
  proof -
    have "\<not> gbit (tl_gm ts) g" if "G \<le> g" "g < 128" for g using inv that G(1) by (auto simp: tile_inv_def)
    then have "filter (gbit (tl_gm ts)) [G..<128] = []" by (auto simp: filter_empty_conv)
    moreover have "[0..<128] = [0..<G] @ [G..<128]" using upt_add_eq_append[of 0 G "128 - G"] G(2) by simp
    ultimately show ?thesis by simp
  qed
  moreover have "length (tl_gm ts) = 2" using inv by (simp add: tile_inv_def)
  ultimately show ?thesis using F[of G] by (simp add: low_scan_eq)
qed

section \<open>A group\<close>

lemma above_byte: "cut_u < 256 \<Longrightarrow> x > word_of_nat cut_u \<longleftrightarrow> unat (x :: byte) > cut_u"
  by (simp add: word_less_nat_alt unat_of_nat)

lemma picks_low:
  assumes "j + 64 \<le> ne" "b < 64"
  shows "picks (above cut_u) (low_pixels ne planes) msk i0 (j + b) \<longleftrightarrow> mask_keeps msk (i0 + j + b) \<and> unat (group_val ne planes j ! b) > cut_u"
proof -
  have "low_pixels ne planes ! (j + b) = ucast (group_val ne planes j ! b)" using group_lane[OF assms] by simp
  then show ?thesis by (simp add: picks_def above_ucast ac_simps)
qed

lemma bit_test_epi8: "bit (test_epi8_mask v) k \<longleftrightarrow> k < 64 \<and> k < length v \<and> v ! k \<noteq> 0"
  by (auto simp: test_epi8_mask_def)

lemma vbmi_group_ok:
  assumes inv: "tile_inv ne planes msk i0 cut_u t vis s" and rows: "tile_rows ne planes t pl tsize" "8 dvd t"
    and g: "8 * g + 8 \<le> tsize" "tsize \<le> 1024" "t + 64 * g + 64 \<le> ne"
    and c: "cut_u < 256" and m: "readable (low_pixels ne planes) msk i0 ne"
  shows "\<exists>s'. bslz4_lowplanes_group pl (8 * g) (word_of_nat cut_u) msk (i0 + t) s = Inr s'
    \<and> tile_inv ne planes msk i0 cut_u t (insert g vis) s'"
proof -
  let ?j = "t + 64 * g"
  obtain A where A: "load_rows pl (8 * g) = Inr A" "group_ok A" "group_bytes A = group_val ne planes (t + 8 * (8 * g))"
    using tile_group[OF rows g(1)] by blast
  have u: "vbmi_transpose A = group_val ne planes ?j" using vbmi_transpose_eq[OF A(2)] A(3) by simp
  let ?k0 = "cmpgt_epu_mask (group_val ne planes ?j) (word_of_nat cut_u) :: 64 word"
  have k0: "bit ?k0 b \<longleftrightarrow> b < 64 \<and> unat (group_val ne planes ?j ! b) > cut_u" for b
    using above_byte[OF c] by (auto simp: bit_cmpgt_epu_mask)
  have sel: "(case msk of None \<Rightarrow> Inr ?k0
      | Some m \<Rightarrow> rbind (load_n m (i0 + t + 8 * (8 * g)) 64) (\<lambda>b. Inr (?k0 AND test_epi8_mask b)))
    = Inr (group_sel ne planes msk i0 cut_u ?j)"
  proof (cases msk)
    case None
    have "?k0 = group_sel ne planes msk i0 cut_u ?j"
      by (rule bit_word_eqI) (use picks_low[OF g(3)] None in \<open>auto simp: k0 bit_group_sel mask_keeps_def\<close>)
    then show ?thesis using None by simp
  next
    case (Some mb)
    have l: "i0 + t + 8 * (8 * g) + 64 \<le> length mb" using m Some g(3) by (auto simp: readable_def)
    have "?k0 AND test_epi8_mask (take 64 (drop (i0 + t + 8 * (8 * g)) mb)) = group_sel ne planes msk i0 cut_u ?j"
    proof (rule bit_word_eqI)
      fix b assume "b < LENGTH(64)"
      then have "b < 64" by simp
      then show "bit (?k0 AND test_epi8_mask (take 64 (drop (i0 + t + 8 * (8 * g)) mb))) b = bit (group_sel ne planes msk i0 cut_u ?j) b"
        using picks_low[OF g(3) \<open>b < 64\<close>, of cut_u planes msk i0] l Some
          by (auto simp: bit_and_iff k0 bit_group_sel bit_test_epi8 mask_keeps_def add.assoc)
    qed
    then show ?thesis using Some l by (simp add: load_n_ok)
  qed
  have "g < 128" using g(1,2) by linarith
  from tile_record_ok[OF inv this] obtain s' where
    "tile_record g (group_val ne planes ?j) (group_sel ne planes msk i0 cut_u ?j) s = Inr s'"
    "tile_inv ne planes msk i0 cut_u t (insert g vis) s'" by blast
  then show ?thesis unfolding bslz4_lowplanes_group_def A(1) rbind.simps u Let_def sel by simp
qed

section \<open>The emit\<close>

text \<open>The selected lanes in 16-bit parts.\<close>

definition part16 :: "64 word \<Rightarrow> nat \<Rightarrow> nat list" where
  "part16 k q = map (\<lambda>b. 16 * q + b) (ones (ucast (drop_bit (16 * q) k) :: 16 word))"

lemma ones_parts: "ones (k :: 64 word) = concat (map (part16 k) [0..<4])"
proof -
  have p: "part16 k q = filter (bit k) (map (\<lambda>b. 16 * q + b) [0..<16])" for q
    by (auto simp: part16_def ones_def filter_map bit_simps intro!: arg_cong[of _ _ "map _"] filter_cong)
  have "[0..<64] = concat (map (\<lambda>q. map (\<lambda>b. 16 * q + b) [0..<16]) [0..<4 :: nat])" by code_simp
  moreover have "map (part16 k) [0..<4] = map (\<lambda>q. filter (bit k) (map (\<lambda>b. 16 * q + b) [0..<16])) [0..<4]" by (simp add: p)
  ultimately show ?thesis by (simp only: ones_def filter_concat map_map comp_def len_bit0 len_num1 mult_1_right) (simp add: filter_concat comp_def)
qed

lemma length_part16: "length (part16 k q) = popcnt (ucast (drop_bit (16 * q) k) :: 16 word)"
  by (simp add: part16_def popcnt_def)

lemma popcnt16_le: "popcnt (w :: 16 word) \<le> 16"
  using length_filter_le[of "bit w" "[0..<16]"] by (simp add: popcnt_def ones_def)

lemma emit_adr_ok:
  "ix = map (\<lambda>l. word_of_nat (base + 16 * q + l)) [0..<16] \<Longrightarrow> at + 16 * c \<le> length adr
    \<Longrightarrow> \<exists>adr'. emit_adr k ix q at c adr = Inr (at + length (concat (map (part16 k) [q..<q + c])), adr') \<and> length adr' = length adr
      \<and> take (at + length (concat (map (part16 k) [q..<q + c]))) adr'
          = take at adr @ map (\<lambda>b. word_of_nat (base + b)) (concat (map (part16 k) [q..<q + c]))"
proof (induction c arbitrary: ix q at adr)
  case (Suc c)
  let ?mq = "ucast (drop_bit (16 * q) k) :: 16 word"
  let ?L = "map (\<lambda>b. word_of_nat (base + b) :: 32 word) (part16 k q)"
  have mc: "maskz_compress ?mq ix = ?L @ replicate (16 - popcnt ?mq) 0"
    using maskz_compress_lanes[of ix "\<lambda>l. word_of_nat (base + 16 * q + l)" ?mq] Suc.prems(1)
    by (simp add: part16_def comp_def add.assoc)
  have lc: "length (maskz_compress ?mq ix) = 16" using mc popcnt16_le[of ?mq] by (simp add: length_part16)
  let ?a = "blit adr at (maskz_compress ?mq ix)"
  have la: "length ?a = length adr" using lc Suc.prems(2) by (simp add: length_blit)
  have ta: "take (at + length (part16 k q)) ?a = take at adr @ ?L"
    using take_blit_append[of "replicate at ()" at ?L "replicate (16 - popcnt ?mq) 0" adr] mc popcnt16_le[of ?mq] Suc.prems(2)
    by (simp add: length_part16)
  have ix': "add_epi ix (replicate 16 16) = map (\<lambda>l. word_of_nat (base + 16 * (q + 1) + l)) [0..<16]"
    by (rule nth_equalityI) (use Suc.prems(1) in \<open>auto simp: add_epi_def\<close>)
  have room: "at + popcnt ?mq + 16 * c \<le> length ?a" using Suc.prems(2) popcnt16_le[of ?mq] la by simp
  obtain adr' where r: "emit_adr k (add_epi ix (replicate 16 16)) (q + 1) (at + popcnt ?mq) c ?a
      = Inr (at + popcnt ?mq + length (concat (map (part16 k) [q + 1..<q + 1 + c])), adr')" "length adr' = length ?a"
    "take (at + popcnt ?mq + length (concat (map (part16 k) [q + 1..<q + 1 + c]))) adr'
      = take (at + popcnt ?mq) ?a @ map (\<lambda>b. word_of_nat (base + b)) (concat (map (part16 k) [q + 1..<q + 1 + c]))"
    using Suc.IH[OF ix' room] by blast
  have u: "[q..<q + Suc c] = q # [q + 1..<q + 1 + c]" by (simp add: upt_conv_Cons)
  have "emit_adr k ix q at (Suc c) adr = emit_adr k (add_epi ix (replicate 16 16)) (q + 1) (at + popcnt ?mq) c ?a"
    using lc Suc.prems(2) by (simp add: Let_def store_n_ok)
  then show ?case unfolding u using r ta la by (simp add: length_part16 add.assoc)
qed simp

lemma lowplanes_emit_emits:
  assumes j: "j + 64 \<le> ne" and h: "holds ne s K" "length K \<le> j"
  shows "emits ne s (K @ picked (above cut_u) (low_pixels ne planes) msk i0 [j..<j + 64])
    (bslz4_lowplanes_emit (group_val ne planes j) (group_sel ne planes msk i0 cut_u j) (i0 + j) s)"
proof -
  let ?k = "group_sel ne planes msk i0 cut_u j" and ?u = "group_val ne planes j"
  let ?L = "lane_pixels (low_pixels ne planes) i0 j (ones ?k)"
  define c where "c = maskz_compress ?k ?u"
  have c: "c = map (\<lambda>b. ?u ! b) (ones ?k) @ replicate (64 - popcnt ?k) 0"
    using maskz_compress_lanes[of ?u "\<lambda>b. ?u ! b" ?k] by (simp add: c_def)
  have pl: "popcnt ?k \<le> 64" using length_filter_le[of "bit ?k" "[0..<64]"] by (simp add: popcnt_def ones_def)
  have lc: "length c = 64" using c pl by (simp add: popcnt_def)
  have r: "npx s = length K" "length K + 64 \<le> length (out_vals s)" "length K + 64 \<le> length (out_adr s)"
    using h j by (auto simp: holds_def)
  let ?v1 = "blit (out_vals s) (length K) (map ucast (take 32 c))"
  let ?v2 = "blit ?v1 (length K + 32) (map ucast (drop 32 c))"
  have v2: "?v2 = blit (out_vals s) (length K) (map ucast c)"
    using blit_blit[of "map ucast (take 32 c) :: 16 word list" 32 "length K" "map ucast (drop 32 c)" "out_vals s"] lc r(2)
    by (simp flip: map_append)
  have l: "length ?v1 = length (out_vals s)" "length ?v2 = length (out_vals s)" using lc r(2) by (simp_all add: length_blit)
  have fl: "map (\<lambda>b. ucast (?u ! b)) (ones ?k) = map fst ?L"
    unfolding map_fst_lane_pixels using group_lane[OF j] ones_lt[of _ ?k] by simp
  have tv: "take (length K + length ?L) ?v2 = take (length K) (out_vals s) @ map fst ?L"
    unfolding v2 using take_blit_append[of K "length K" "map fst ?L" "replicate (64 - popcnt ?k) 0" "out_vals s"] r(2) pl
    by (simp add: c comp_def fl popcnt_def)
  have p: "concat (map (part16 ?k) [0..<0 + 4]) = ones ?k" by (simp add: ones_parts)
  have ix: "add_epi (replicate 16 (word_of_nat (i0 + j))) iota16 = map (\<lambda>l. word_of_nat (i0 + j + 16 * 0 + l)) [0..<16]"
    by (rule nth_equalityI) (simp_all add: iota16_lane del: of_nat_add)
  have "length K + 16 * 4 \<le> length (out_adr s)" using r(3) by simp
  from emit_adr_ok[OF ix this, of ?k] obtain as where
    a: "emit_adr ?k (add_epi (replicate 16 (word_of_nat (i0 + j))) iota16) 0 (length K) 4 (out_adr s) = Inr (length K + length ?L, as)"
      "length as = length (out_adr s)" "take (length K + length ?L) as = take (length K) (out_adr s) @ map (\<lambda>b. word_of_nat (i0 + j + b)) (ones ?k)"
    unfolding p by auto
  have ta: "take (length K + length ?L) as = take (length K) (out_adr s) @ map snd ?L"
    unfolding a(3) map_snd_lane_pixels by (simp add: ac_simps)
  have e: "bslz4_lowplanes_emit ?u ?k (i0 + j) s = Inr \<lparr>npx = length K + length ?L, out_vals = ?v2, out_adr = as\<rparr>"
    unfolding bslz4_lowplanes_emit_def Let_def c_def[symmetric] r(1) using lc r(2) l(1) a(1) by (simp add: store_n_ok)
  show ?thesis unfolding picked_group e
    by (rule holds_append[OF h(1) _ l(2) tv a(2) ta]) (use h(2) j pl in \<open>simp add: popcnt_def\<close>)
qed

section \<open>The collect\<close>

lemma tile_bytes_ok:
  assumes "64 dvd ne" "t = 8192 * k" "t < ne"
  shows "8 dvd tile_bytes ne t" "tile_bytes ne t \<le> 1024" "t div 8 + tile_bytes ne t \<le> ne div 8"
    "t + 8 * tile_bytes ne t = min ne (t + 8192)" "8 dvd t"
proof -
  obtain m where m: "ne = 64 * m" using assms(1) by (auto elim!: dvdE)
  have b: "8 * tile_bytes ne t = (if ne - t < 8192 then ne - t else 8192) \<and> 8 dvd tile_bytes ne t"
  proof (cases "ne - t < 8192")
    case True
    have "ne - t = 64 * (m - 128 * k)" using m assms(2) by (simp add: diff_mult_distrib2)
    then show ?thesis using True by (simp add: tile_bytes_def BSLZ4_LOWPLANES_TILE_def)
  qed (simp add: tile_bytes_def BSLZ4_LOWPLANES_TILE_def)
  then show "8 dvd tile_bytes ne t" "tile_bytes ne t \<le> 1024" "t + 8 * tile_bytes ne t = min ne (t + 8192)"
    using assms(3) by (auto split: if_splits)
  show "8 dvd t" using assms(2) by simp
  then show "t div 8 + tile_bytes ne t \<le> ne div 8"
    using b assms(3) by (auto elim!: dvdE split: if_splits) 
qed

text \<open>A loop over the tiles, each of which lists its own pixels.\<close>

lemma low_tiles_emits:
  assumes tile: "\<And>k r s K. 8192 * k < ne \<Longrightarrow> length r = 128 \<Longrightarrow> holds ne s K \<Longrightarrow> length K \<le> 8192 * k
      \<Longrightarrow> \<exists>r' s'. tile (8192 * k) (r, s) = Inr (r', s') \<and> length r' = 128
        \<and> emits ne s (K @ picked P block msk i0 [8192 * k..<min ne (8192 * k + 8192)]) (Inr s')"
    and room: "ne \<le> length vals" "ne \<le> length adr"
  shows "emits ne \<lparr>npx = 0, out_vals = vals, out_adr = adr\<rparr> (picked P block msk i0 [0..<ne]) (low_tiles tile ne vals adr)"
proof -
  let ?s0 = "\<lparr>npx = 0, out_vals = vals, out_adr = adr\<rparr>"
  let ?I = "\<lambda>k (r :: (byte list \<times> 64 word) option list, s). length r = 128 \<and> emits ne ?s0 (picked P block msk i0 [0..<min ne (8192 * k)]) (Inr s)"
  define N where "N = (ne + BSLZ4_LOWPLANES_TILE - 1) div BSLZ4_LOWPLANES_TILE"
  have N: "ne \<le> 8192 * N" "k < N \<Longrightarrow> 8192 * k < ne" for k
    by (auto simp: N_def BSLZ4_LOWPLANES_TILE_def)
  have "\<exists>s'. fold_res (\<lambda>k. tile (BSLZ4_LOWPLANES_TILE * k)) [0..<N] (replicate 128 None, ?s0) = Inr s' \<and> ?I N s'"
  proof (rule fold_upt_inv)
    show "?I 0 (replicate 128 None, ?s0)" using holds_init[OF room] by simp
    fix k rs assume k: "k < N" and I: "?I k rs"
    obtain r s where rs: "rs = (r, s)" by (cases rs)
    have t: "8192 * k < ne" using N(2)[OF k] .
    have m: "min ne (8192 * k) = 8192 * k" "min ne (8192 * Suc k) = min ne (8192 * k + 8192)" using t by auto
    let ?K = "picked P block msk i0 [0..<8192 * k]"
    have h: "length r = 128" "holds ne s ?K" "length (out_vals s) = length vals" "length (out_adr s) = length adr"
      using I rs m by auto
    have "length ?K \<le> 8192 * k" using length_picked[of P block msk i0 "[0..<8192 * k]"] by simp
    from tile[OF t h(1,2) this] obtain r' s' where "tile (8192 * k) (r, s) = Inr (r', s')" "length r' = 128"
      "emits ne s (?K @ picked P block msk i0 [8192 * k..<min ne (8192 * k + 8192)]) (Inr s')" by blast
    moreover have "[0..<8192 * k] @ [8192 * k..<min ne (8192 * k + 8192)] = [0..<min ne (8192 * k + 8192)]"
      using upt_add_eq_append[of 0 "8192 * k" "min ne (8192 * k + 8192) - 8192 * k"] t by simp
    ultimately show "\<exists>s'. tile (BSLZ4_LOWPLANES_TILE * k) rs = Inr s' \<and> ?I (Suc k) s'"
      unfolding m(2) using rs h(3,4) by (auto simp: BSLZ4_LOWPLANES_TILE_def simp flip: picked_append)
  qed
  then obtain r s where "fold_res (\<lambda>k. tile (BSLZ4_LOWPLANES_TILE * k)) [0..<N] (replicate 128 None, ?s0) = Inr (r, s)"
    "emits ne ?s0 (picked P block msk i0 [0..<min ne (8192 * N)]) (Inr s)" by auto
  then show ?thesis using N(1) by (simp add: low_tiles_def N_def min_absorb1)
qed

end
