(* ===== verification/LowSimd.thy ===== *)
theory LowSimd
  imports LowFused
begin

text \<open>
  The fused low-planes collects list the pixels above the cut: \<open>bslz4_lowplanes_collect_u16\<close> (VBMI), and
  \<open>bslz4_lowplanes_collect_avx2\<close> of \<open>src/steps/lowplanes_avx2.hpp\<close>, whose passes have the same shape.
\<close>

section \<open>VBMI\<close>

lemma vbmi_pass1:
  assumes rows: "tile_rows ne planes t pl tsize" "8 dvd t" "8 dvd tsize" "tsize \<le> 1024" "t + 8 * tsize \<le> ne"
    and c: "cut_u < 256" and m: "readable (low_pixels ne planes) msk i0 ne" and r: "length r = 128"
  shows "\<exists>ts vis. (if skip \<and> tsize mod 64 = 0
            then rbind (group_bitmap 64 pl tsize) (\<lambda>gnz.
                   low_scan (\<lambda>g. bslz4_lowplanes_group pl (8 * g) (word_of_nat cut_u) msk (i0 + t)) gnz \<lparr>tl_rec = r, tl_gm = [0, 0]\<rparr>)
            else fold_res (\<lambda>k. bslz4_lowplanes_group pl (8 * k) (word_of_nat cut_u) msk (i0 + t)) [0..<(tsize + 7) div 8]
                   \<lparr>tl_rec = r, tl_gm = [0, 0]\<rparr>) = Inr ts
    \<and> tile_inv ne planes msk i0 cut_u t vis ts \<and> vis \<subseteq> {..<tsize div 8}
    \<and> (\<forall>g<tsize div 8. g \<notin> vis \<longrightarrow> \<not> group_live ne planes (t + 64 * g))"
proof -
  let ?f = "\<lambda>g. bslz4_lowplanes_group pl (8 * g) (word_of_nat cut_u) msk (i0 + t)"
  let ?inv = "tile_inv ne planes msk i0 cut_u t"
  have step: "\<exists>s'. ?f g s = Inr s' \<and> ?inv (insert g vis) s'" if "?inv vis s" "g < tsize div 8" for g vis s
  proof (rule vbmi_group_ok[OF that(1) rows(1,2) _ rows(4) _ c m])
    show "8 * g + 8 \<le> tsize" using that(2) rows(3) by (auto elim!: dvdE)
    then show "t + 64 * g + 64 \<le> ne" using rows(5) by linarith
  qed
  show ?thesis
  proof (cases "skip \<and> tsize mod 64 = 0")
    case True
    then have "64 dvd tsize" by auto
    from group_bitmap_ok[OF rows(1,2) _ this rows(4)] obtain gnz where gnz: "group_bitmap 64 pl tsize = Inr gnz" "length gnz = 2"
      "\<forall>g<128. gbit gnz g \<longleftrightarrow> 8 * g < tsize \<and> group_live ne planes (t + 64 * g)" by auto
    let ?gs = "filter (gbit gnz) [0..<128]"
    have "\<exists>ts. fold_res ?f ?gs \<lparr>tl_rec = r, tl_gm = [0, 0]\<rparr> = Inr ts \<and> ?inv (set ?gs) ts"
    proof (rule fold_res_inv)
      show "?inv (set []) \<lparr>tl_rec = r, tl_gm = [0, 0]\<rparr>" using tile_inv_init[OF r] by simp
      fix ys g zs s assume a: "?gs = ys @ g # zs" "?inv (set ys) s"
      have "g \<in> set ?gs" unfolding a(1) by simp
      then have "g < tsize div 8" using gnz(3) rows(3) by (auto elim!: dvdE)
      from step[OF a(2) this] show "\<exists>s'. ?f g s = Inr s' \<and> ?inv (set (ys @ [g])) s'" by simp
    qed
    then obtain ts where ts: "fold_res ?f ?gs \<lparr>tl_rec = r, tl_gm = [0, 0]\<rparr> = Inr ts" "?inv (set ?gs) ts" by blast
    have sub: "set ?gs \<subseteq> {..<tsize div 8}" using gnz(3) rows(3) by (auto elim!: dvdE)
    have dead: "\<forall>g<tsize div 8. g \<notin> set ?gs \<longrightarrow> \<not> group_live ne planes (t + 64 * g)"
      using gnz(3) rows(4) by (auto simp: less_mult_imp_div_less)
    show ?thesis
      by (intro exI[of _ ts] exI[of _ "set ?gs"]) (use True gnz(1) ts sub dead in \<open>simp add: low_scan_eq[OF gnz(2)]\<close>)
  next
    case False
    have n: "(tsize + 7) div 8 = tsize div 8" using rows(3) by (auto elim!: dvdE)
    have "\<exists>ts. fold_res ?f [0..<tsize div 8] \<lparr>tl_rec = r, tl_gm = [0, 0]\<rparr> = Inr ts \<and> ?inv {..<tsize div 8} ts"
    proof (rule fold_upt_inv)
      show "?inv {..<0} \<lparr>tl_rec = r, tl_gm = [0, 0]\<rparr>" using tile_inv_init[OF r] by simp
      show "\<exists>s'. ?f k s = Inr s' \<and> ?inv {..<Suc k} s'" if "k < tsize div 8" "?inv {..<k} s" for k s
        using step[OF that(2,1)] by (simp add: lessThan_Suc)
    qed
    then show ?thesis using False n by (auto intro!: exI[of _ "{..<tsize div 8}"])
  qed
qed

text \<open>A tile from its two passes.\<close>

lemma tile_emits:
  assumes inv: "tile_inv ne planes msk i0 cut_u t vis ts" "vis \<subseteq> {..<tsize div 8}"
      "\<forall>g<tsize div 8. g \<notin> vis \<longrightarrow> \<not> group_live ne planes (t + 64 * g)"
    and rows: "8 dvd tsize" "tsize \<le> 1024" "t + 8 * tsize \<le> ne"
    and emit: "\<And>j s K. j + 64 \<le> ne \<Longrightarrow> holds ne s K \<Longrightarrow> length K \<le> j \<Longrightarrow> group_sel ne planes msk i0 cut_u j \<noteq> 0
      \<Longrightarrow> emits ne s (K @ picked (above cut_u) (low_pixels ne planes) msk i0 [j..<j + 64])
            (emit (group_val ne planes j) (group_sel ne planes msk i0 cut_u j) (i0 + j) s)"
    and h: "holds ne s K" "length K \<le> t"
  shows "\<exists>s'. rbind (low_scan (emit_recorded emit ts (i0 + t)) (tl_gm ts) s) (\<lambda>s. Inr (tl_rec ts, s)) = Inr (tl_rec ts, s')
    \<and> length (tl_rec ts) = 128
    \<and> emits ne s (K @ picked (above cut_u) (low_pixels ne planes) msk i0 [t..<t + 8 * tsize]) (Inr s')"
proof -
  have n: "64 * (tsize div 8) = 8 * tsize" using rows(1) by (auto elim!: dvdE)
  have "emits ne s (K @ picked (above cut_u) (low_pixels ne planes) msk i0 [t..<t + 64 * (tsize div 8)])
    (low_scan (emit_recorded emit ts (i0 + t)) (tl_gm ts) s)"
    by (rule scan_emits[OF inv(1,2) _ _ _ emit h]) (use rows inv(3) n in auto)
  then show ?thesis using inv(1) unfolding n by (auto simp: emits_def tile_inv_def)
qed

lemma vbmi_collect_emits:
  assumes p: "planes_in planes raw nz" "length planes = 2 * ne" "64 dvd ne" "0 < ne"
    and c: "cut_u < 256" and m: "readable (low_pixels ne planes) msk i0 ne" and room: "ne \<le> length vals" "ne \<le> length adr"
  shows "\<exists>raw' s. bslz4_lowplanes_collect_u16 raw ne nz msk i0 cut_u vals adr skip = Inr (raw', s) \<and> length raw' = length raw
    \<and> emits ne \<lparr>npx = 0, out_vals = vals, out_adr = adr\<rparr> (picked (above cut_u) (low_pixels ne planes) msk i0 [0..<ne]) (Inr s)"
proof -
  have "8 dvd ne" using p(3) by (rule dvd_trans[rotated]) simp
  from low_prepare_ok[OF p(1,2) this p(4)] obtain raw' np where
    r: "low_prepare raw ne nz = Inr (raw', np)" "length raw' = length raw"
    "\<And>t tsize. 8 dvd t \<Longrightarrow> t div 8 + tsize \<le> ne div 8 \<Longrightarrow> tsize \<le> 1024 \<Longrightarrow> tile_rows ne planes t (plane_ptrs raw' np (ne div 8) t) tsize"
    by blast
  have "emits ne \<lparr>npx = 0, out_vals = vals, out_adr = adr\<rparr> (picked (above cut_u) (low_pixels ne planes) msk i0 [0..<ne])
      (low_tiles (vbmi_tile raw' np ne msk i0 cut_u skip) ne vals adr)"
  proof (rule low_tiles_emits[OF _ room])
    fix k q K and s :: "16 word out" assume a: "8192 * k < ne" "length (q :: (byte list \<times> 64 word) option list) = 128" "holds ne s K" "length K \<le> 8192 * k"
    note b = tile_bytes_ok[OF p(3) refl a(1)]
    have e: "8192 * k + 8 * tile_bytes ne (8192 * k) \<le> ne" unfolding b(4) by simp
    note rows = r(3)[OF b(5,3,2)]
    from vbmi_pass1[OF rows b(5,1,2) e c m a(2)] obtain ts vis where
      ts: "(if skip \<and> tile_bytes ne (8192 * k) mod 64 = 0
            then rbind (group_bitmap 64 (plane_ptrs raw' np (ne div 8) (8192 * k)) (tile_bytes ne (8192 * k))) (\<lambda>gnz.
                   low_scan (\<lambda>g. bslz4_lowplanes_group (plane_ptrs raw' np (ne div 8) (8192 * k)) (8 * g) (word_of_nat cut_u) msk (i0 + 8192 * k)) gnz
                     \<lparr>tl_rec = q, tl_gm = [0, 0]\<rparr>)
            else fold_res (\<lambda>g. bslz4_lowplanes_group (plane_ptrs raw' np (ne div 8) (8192 * k)) (8 * g) (word_of_nat cut_u) msk (i0 + 8192 * k))
                   [0..<(tile_bytes ne (8192 * k) + 7) div 8] \<lparr>tl_rec = q, tl_gm = [0, 0]\<rparr>) = Inr ts"
      and v: "tile_inv ne planes msk i0 cut_u (8192 * k) vis ts" "vis \<subseteq> {..<tile_bytes ne (8192 * k) div 8}"
        "\<forall>g<tile_bytes ne (8192 * k) div 8. g \<notin> vis \<longrightarrow> \<not> group_live ne planes (8192 * k + 64 * g)" by blast
    show "\<exists>r' s'. vbmi_tile raw' np ne msk i0 cut_u skip (8192 * k) (q, s) = Inr (r', s') \<and> length r' = 128
      \<and> emits ne s (K @ picked (above cut_u) (low_pixels ne planes) msk i0 [8192 * k..<min ne (8192 * k + 8192)]) (Inr s')"
      using tile_emits[OF v b(1,2) e lowplanes_emit_emits a(3,4)] unfolding vbmi_tile_def case_prod_conv Let_def ts rbind.simps b(4) by blast
  qed
  then show ?thesis using r(1,2) unfolding bslz4_lowplanes_collect_u16_def by (auto simp: emits_def)
qed

end
