(* ===== verification/LowAvx2.thy ===== *)
theory LowAvx2
  imports LowSimd
begin

text \<open>
  \<open>src/steps/lowplanes_avx2.hpp\<close>: the fused low-planes collect on AVX2. A first pass finds the groups
  holding data (32 bytes of the planes at a time), pass A transposes only those and records bytes and
  selection, pass B packs the groups with selected pixels with the lane table of the collect step.
\<close>

section \<open>The two passes\<close>

text \<open>Two 32-lane \<open>movemask\<close>s as one 64-bit selection.\<close>

definition sel64 :: "32 word \<Rightarrow> 32 word \<Rightarrow> 64 word" where
  "sel64 lo hi = ucast lo OR push_bit 32 (ucast hi)"

definition avx2_group :: "byte list list \<Rightarrow> byte \<Rightarrow> byte list option \<Rightarrow> nat \<Rightarrow> nat \<Rightarrow> low_tile \<Rightarrow> low_tile res" where
  "avx2_group pl c msk ti0 g s =
     rbind (load_rows pl (8 * g)) (\<lambda>A.
     let (u0, u1) = avx2_transpose A; bias = replicate 32 0x80; vcut = xor_si (replicate 32 c) bias;
         k = sel64 (movemask (cmpgt_epi (xor_si u0 bias) vcut)) (movemask (cmpgt_epi (xor_si u1 bias) vcut)) in
     rbind (case msk of None \<Rightarrow> Inr k
            | Some m \<Rightarrow>
                rbind (load_n m (ti0 + 64 * g) 32) (\<lambda>a. rbind (load_n m (ti0 + 64 * g + 32) 32) (\<lambda>b.
                  Inr (k AND NOT (sel64 (movemask (cmpeq_epi a (replicate 32 0))) (movemask (cmpeq_epi b (replicate 32 0)))))))) (\<lambda>k.
       tile_record g (u0 @ u1) k s))"

text \<open>8 pixels of pass B: \<open>for (q = 0; q < 8; q++)\<close>.\<close>

definition avx2_pack8 :: "byte list \<Rightarrow> 64 word \<Rightarrow> nat \<Rightarrow> nat \<Rightarrow> 16 word out \<Rightarrow> 16 word out res" where
  "avx2_pack8 ub k base q s =
     (let m = ucast (drop_bit (8 * q) k) AND 0xFF :: 32 word;
          sel = bytes_of_u64 (bslz4_avx2cs_lut ! unat m) @ replicate 8 0 in
      rbind (store_n (out_adr s) (npx s)
              (permutevar8x32 (add_epi (replicate 8 (word_of_nat (base + 8 * q))) iota8) (cvtepu8_epi32 sel))) (\<lambda>as.
      rbind (load_n ub (8 * q) 8) (\<lambda>b8.
      rbind (store_n (out_vals s) (npx s) (map ucast (take 8 (shuffle_epi8 (b8 @ replicate 8 0) sel)))) (\<lambda>vs.
        Inr \<lparr>npx = npx s + popcnt m, out_vals = vs, out_adr = as\<rparr>))))"

text \<open>\<open>BSLZ4_AVX2CS_SCALAR_MAX\<close> is 1: a group with one pixel is stored directly.\<close>

definition avx2_emit :: "byte list \<Rightarrow> 64 word \<Rightarrow> nat \<Rightarrow> 16 word out \<Rightarrow> 16 word out res" where
  "avx2_emit ub k base s =
     (if popcnt k \<le> 1 then rbind (load ub (ctz k)) (\<lambda>v. push_px (ucast v) (base + ctz k) s)
      else fold_res (avx2_pack8 ub k base) [0..<8] s)"

definition avx2_tile :: "byte list \<Rightarrow> nat \<Rightarrow> nat \<Rightarrow> byte list option \<Rightarrow> nat \<Rightarrow> nat \<Rightarrow> nat
    \<Rightarrow> (byte list \<times> 64 word) option list \<times> 16 word out \<Rightarrow> ((byte list \<times> 64 word) option list \<times> 16 word out) res" where
  "avx2_tile raw np ne msk i0 cut_u t = (\<lambda>(r, s).
     let tsize = tile_bytes ne t; ti0 = i0 + t; pl = plane_ptrs raw np (ne div 8) t in
     rbind (group_bitmap 32 pl tsize) (\<lambda>gm.
     rbind (low_scan (avx2_group pl (word_of_nat cut_u) msk ti0) gm \<lparr>tl_rec = r, tl_gm = [0, 0]\<rparr>) (\<lambda>ts.
     rbind (low_scan (emit_recorded avx2_emit ts ti0) (tl_gm ts) s) (\<lambda>s. Inr (tl_rec ts, s)))))"

definition bslz4_lowplanes_collect_avx2 :: "byte list \<Rightarrow> nat \<Rightarrow> nat \<Rightarrow> byte list option \<Rightarrow> nat \<Rightarrow> nat
    \<Rightarrow> 16 word list \<Rightarrow> 32 word list \<Rightarrow> (byte list \<times> 16 word out) res" where
  "bslz4_lowplanes_collect_avx2 raw ne nz_end msk i0 cut_u vals adr =
     rbind (low_prepare raw ne nz_end) (\<lambda>(raw, np).
     rbind (low_tiles (avx2_tile raw np ne msk i0 cut_u) ne vals adr) (\<lambda>s. Inr (raw, s)))"

section \<open>Pass A\<close>

lemma bit_sel64: "bit (sel64 a b) k \<longleftrightarrow> k < 64 \<and> (if k < 32 then bit a k else bit b (k - 32))"
  by (auto simp: sel64_def bit_simps dest: bit_imp_le_length)

lemma sign_bit_8: "sign_bit = (0x80 :: 8 word)"
  by (simp add: sign_bit_def)

lemma avx2_group_ok:
  assumes inv: "tile_inv ne planes msk i0 cut_u t vis s" and rows: "tile_rows ne planes t pl tsize" "8 dvd t"
    and g: "8 * g + 8 \<le> tsize" "tsize \<le> 1024" "t + 64 * g + 64 \<le> ne"
    and c: "cut_u < 256" and m: "readable (low_pixels ne planes) msk i0 ne"
  shows "\<exists>s'. avx2_group pl (word_of_nat cut_u) msk (i0 + t) g s = Inr s'
    \<and> tile_inv ne planes msk i0 cut_u t (insert g vis) s'"
proof -
  let ?j = "t + 64 * g"
  let ?c = "word_of_nat cut_u :: byte"
  obtain A where A: "load_rows pl (8 * g) = Inr A" "group_ok A" "group_bytes A = group_val ne planes (t + 8 * (8 * g))"
    using tile_group[OF rows g(1)] by blast
  obtain u0 u1 where u: "avx2_transpose A = (u0, u1)" by (cases "avx2_transpose A")
  have uv: "u0 @ u1 = group_val ne planes ?j" "length u0 = 32" "length u1 = 32"
    using avx2_transpose_eq[OF A(2)] A(3) u by auto
  have lane: "(if b < 32 then u0 ! b else u1 ! (b - 32)) = group_val ne planes ?j ! b" if "b < 64" for b
    using that uv(2) by (simp add: uv(1)[symmetric] nth_append)
  define k0 where "k0 = sel64 (movemask (cmpgt_epi (xor_si u0 (replicate 32 0x80)) (xor_si (replicate 32 ?c) (replicate 32 0x80))))
      (movemask (cmpgt_epi (xor_si u1 (replicate 32 0x80)) (xor_si (replicate 32 ?c) (replicate 32 0x80))))"
  have k0: "bit k0 b \<longleftrightarrow> b < 64 \<and> unat (group_val ne planes ?j ! b) > cut_u" for b
  proof -
    have "bit k0 b \<longleftrightarrow> b < 64 \<and> (if b < 32 then u0 ! b else u1 ! (b - 32)) > ?c"
      unfolding k0_def bit_sel64 sign_bit_8[symmetric] movemask_gt[OF uv(2) order_refl] movemask_gt[OF uv(3) order_refl] by auto
    then show ?thesis using lane[of b] above_byte[OF c] by (cases "b < 64") simp_all
  qed
  have sel: "(case msk of None \<Rightarrow> Inr k0
            | Some m \<Rightarrow>
                rbind (load_n m (i0 + t + 64 * g) 32) (\<lambda>a. rbind (load_n m (i0 + t + 64 * g + 32) 32) (\<lambda>b.
                  Inr (k0 AND NOT (sel64 (movemask (cmpeq_epi a (replicate 32 0))) (movemask (cmpeq_epi b (replicate 32 0))))))))
    = Inr (group_sel ne planes msk i0 cut_u ?j)"
  proof (cases msk)
    case None
    have "k0 = group_sel ne planes msk i0 cut_u ?j"
      by (rule bit_word_eqI) (use picks_low[OF g(3)] None in \<open>auto simp: k0 bit_group_sel mask_keeps_def\<close>)
    then show ?thesis using None by simp
  next
    case (Some mb)
    have l: "i0 + t + 64 * g + 64 \<le> length mb" using m Some g(3) by (auto simp: readable_def)
    let ?a = "take 32 (drop (i0 + t + 64 * g) mb)" and ?b = "take 32 (drop (i0 + t + 64 * g + 32) mb)"
    define M where "M = sel64 (movemask (cmpeq_epi ?a (replicate 32 0))) (movemask (cmpeq_epi ?b (replicate 32 0)))"
    have z: "bit M x \<longleftrightarrow> x < 64 \<and> mb ! (i0 + t + 64 * g + x) = 0" for x
      using l by (auto simp: M_def bit_sel64 bit_movemask cmpeq_epi_def add.assoc)
    have "k0 AND NOT M = group_sel ne planes msk i0 cut_u ?j"
    proof (rule bit_word_eqI)
      fix b assume "b < LENGTH(64)"
      then have b: "b < 64" by simp
      show "bit (k0 AND NOT M) b = bit (group_sel ne planes msk i0 cut_u ?j) b"
        using picks_low[OF g(3) b, of cut_u planes msk i0] Some b
        by (auto simp: bit_and_iff bit_not_iff k0 z bit_group_sel mask_keeps_def add.assoc)
    qed
    then show ?thesis using Some l by (simp add: load_n_ok M_def)
  qed
  have "g < 128" using g(1,2) by linarith
  from tile_record_ok[OF inv this] obtain s' where
    "tile_record g (group_val ne planes ?j) (group_sel ne planes msk i0 cut_u ?j) s = Inr s'"
    "tile_inv ne planes msk i0 cut_u t (insert g vis) s'" by blast
  then show ?thesis
    unfolding avx2_group_def A(1) rbind.simps u case_prod_conv Let_def k0_def[symmetric] sel uv(1) by simp
qed

section \<open>Pass B\<close>

lemma lut_lanes:
  assumes "\<And>b. bit (m :: 32 word) b \<Longrightarrow> b < 8"
  shows "popcnt m \<le> 8" and "bytes_of_u64 (bslz4_avx2cs_lut ! unat m) = map word_of_nat (ones m @ replicate (8 - popcnt m) 0)"
    and "k \<in> set (ones m @ replicate (8 - popcnt m) 0) \<Longrightarrow> k < 8"
proof -
  have o: "ones m = filter (bit m) [0..<8]" using ones_filter[of m 8 "bit m"] assms by auto
  then show p: "popcnt m \<le> 8" using length_filter_le[of "bit m" "[0..<8]"] by (simp add: popcnt_def)
  have "m = take_bit 8 m" by (rule bit_word_eqI) (auto simp: bit_take_bit_iff dest: assms)
  then have "unat m < 256" using unsigned_take_bit_eq[of 8 m, where 'a = nat] take_bit_nat_less_exp[of 8 "unat m"] by simp
  from lut_bytes[OF this] show "bytes_of_u64 (bslz4_avx2cs_lut ! unat m) = map word_of_nat (ones m @ replicate (8 - popcnt m) 0)"
    by (simp add: o popcnt_def bit_unsigned_iff cong: filter_cong)
  show "k < 8" if "k \<in> set (ones m @ replicate (8 - popcnt m) 0)" using that by (auto simp: o split: if_splits)
qed

lemma shuffle_lanes:
  assumes "length v = 8" "length ns = 8" "\<And>k. k \<in> set ns \<Longrightarrow> k < 8"
  shows "take 8 (shuffle_epi8 (v @ z) (map word_of_nat ns @ z')) = map (\<lambda>k. v ! k) ns"
proof -
  have "\<not> bit (word_of_nat k :: byte) 7 \<and> unat (word_of_nat k :: byte) mod 16 = k" if "k < 8" for k
  proof -
    have "k = 0 \<or> k = 1 \<or> k = 2 \<or> k = 3 \<or> k = 4 \<or> k = 5 \<or> k = 6 \<or> k = 7" using that by arith
    then show ?thesis by (elim disjE) simp_all
  qed
  then show ?thesis using assms by (auto simp: shuffle_epi8_def nth_append)
qed

lemma avx2_pack8_emits:
  assumes j: "j + 64 \<le> ne" and q: "q < 8" and h: "holds ne s K" "length K \<le> j + 8 * q"
  shows "emits ne s (K @ picked (above cut_u) (low_pixels ne planes) msk i0 [j + 8 * q..<j + 8 * q + 8])
    (avx2_pack8 (group_val ne planes j) (group_sel ne planes msk i0 cut_u j) (i0 + j) q s)"
proof -
  let ?k = "group_sel ne planes msk i0 cut_u j" and ?u = "group_val ne planes j" and ?j = "j + 8 * q"
  let ?b = "low_pixels ne planes"
  define m where "m = (ucast (drop_bit (8 * q) ?k) AND 0xFF :: 32 word)"
  have m: "bit m b \<longleftrightarrow> b < 8 \<and> picks (above cut_u) ?b msk i0 (?j + b)" for b
    using q by (auto simp: m_def mask_consts bit_and_iff bit_mask_iff bit_ucast_iff bit_drop_bit_eq bit_group_sel add.assoc)
  note pk = picked_lanes[OF m]
  define ns where "ns = ones m @ replicate (8 - popcnt m) 0"
  note lut = lut_lanes[of m, unfolded m]
  have pl: "popcnt m \<le> 8" by (rule lut(1)) simp
  have sel: "bytes_of_u64 (bslz4_avx2cs_lut ! unat m) = map word_of_nat ns" unfolding ns_def by (rule lut(2)) simp
  have ns: "length ns = 8" "\<And>k. k \<in> set ns \<Longrightarrow> k < 8"
  proof -
    show "length ns = 8" using pl by (simp add: ns_def popcnt_def)
    show "k < 8" if "k \<in> set ns" for k by (rule lut(3)[OF _ that[unfolded ns_def]]) simp
  qed
  have b8: "load_n ?u (8 * q) 8 = Inr (take 8 (drop (8 * q) ?u))" "length (take 8 (drop (8 * q) ?u)) = 8"
    using q by (simp_all add: load_n_ok)
  define vv where "vv = map (\<lambda>k. ucast (take 8 (drop (8 * q) ?u) ! k) :: 16 word) ns"
  define va where "va = map (\<lambda>k. word_of_nat (i0 + j + 8 * q + k) :: 32 word) ns"
  have sh: "map ucast (take 8 (shuffle_epi8 (take 8 (drop (8 * q) ?u) @ replicate 8 0) (map word_of_nat ns @ replicate 8 0))) = vv"
  proof -
    have "take 8 (shuffle_epi8 (take 8 (drop (8 * q) ?u) @ replicate 8 0) (map word_of_nat ns @ replicate 8 0))
        = map (\<lambda>k. take 8 (drop (8 * q) ?u) ! k) ns"
      by (rule shuffle_lanes[OF b8(2) ns(1)]) (rule ns(2))
    then show ?thesis by (simp add: vv_def)
  qed
  have pa: "permutevar8x32 (add_epi (replicate 8 (word_of_nat (i0 + j + 8 * q))) iota8) (cvtepu8_epi32 (map word_of_nat ns @ replicate 8 0)) = va"
    unfolding va_def by (rule permute_addresses[OF ns(1)]) (rule ns(2))
  have np: "npx s = length K" "length K + 8 \<le> length (out_vals s)" "length K + 8 \<le> length (out_adr s)"
    using h j q by (auto simp: holds_def)
  have l: "length vv = 8" "length va = 8" using ns(1) by (simp_all add: vv_def va_def)
  let ?L = "lane_pixels ?b i0 ?j (ones m)"
  let ?vs = "blit (out_vals s) (length K) vv" and ?as = "blit (out_adr s) (length K) va"
  have e: "avx2_pack8 ?u ?k (i0 + j) q s = Inr \<lparr>npx = length K + length ?L, out_vals = ?vs, out_adr = ?as\<rparr>"
    using np l unfolding avx2_pack8_def Let_def m_def[symmetric] sel b8(1) rbind.simps sh pa
    by (simp add: store_n_ok popcnt_def)
  have fv: "map (\<lambda>k. ucast (take 8 (drop (8 * q) ?u) ! k)) (ones m) = map fst ?L"
  proof -
    have "ucast (take 8 (drop (8 * q) ?u) ! b) = ?b ! (?j + b)" if "b \<in> set (ones m)" for b
    proof -
      have "b < 8" using that by (simp add: set_ones m)
      then show ?thesis using group_lane[OF j, of "8 * q + b" planes] q by (simp add: add.assoc)
    qed
    then show ?thesis by (simp add: map_fst_lane_pixels)
  qed
  have tv: "take (length K + length ?L) ?vs = take (length K) (out_vals s) @ map fst ?L"
    using take_blit_append[of K "length K" "map fst ?L" "replicate (8 - popcnt m) (ucast (take 8 (drop (8 * q) ?u) ! 0))" "out_vals s"] np pl
    by (simp add: vv_def ns_def fv popcnt_def)
  have ta: "take (length K + length ?L) ?as = take (length K) (out_adr s) @ map snd ?L"
    using take_blit_append[of K "length K" "map (\<lambda>k. word_of_nat (i0 + j + 8 * q + k)) (ones m)"
        "replicate (8 - popcnt m) (word_of_nat (i0 + j + 8 * q))" "out_adr s"] np pl
    by (simp add: va_def ns_def map_snd_lane_pixels popcnt_def ac_simps)
  have lb: "length ?vs = length (out_vals s)" "length ?as = length (out_adr s)" using np l by (simp_all add: length_blit)
  show ?thesis unfolding pk e
    by (rule holds_append[OF h(1) _ lb(1) tv lb(2) ta]) (use h(2) j q pl in \<open>simp add: popcnt_def\<close>)
qed

lemma avx2_emit_emits:
  assumes j: "j + 64 \<le> ne" and h: "holds ne s K" "length K \<le> j" and k: "group_sel ne planes msk i0 cut_u j \<noteq> 0"
  shows "emits ne s (K @ picked (above cut_u) (low_pixels ne planes) msk i0 [j..<j + 64])
    (avx2_emit (group_val ne planes j) (group_sel ne planes msk i0 cut_u j) (i0 + j) s)"
proof -
  let ?k = "group_sel ne planes msk i0 cut_u j" and ?u = "group_val ne planes j"
  let ?p = "picked (above cut_u) (low_pixels ne planes) msk i0"
  show ?thesis
  proof (cases "popcnt ?k \<le> 1")
    case True
    have o: "ones ?k = [ctz ?k]" using True ones_step[OF k] by (simp add: popcnt_def)
    have b: "ctz ?k < 64" using ctz_bit(1)[OF k] by (auto dest: bit_imp_le_length)
    have "emits ne s (K @ [(low_pixels ne planes ! (j + ctz ?k), word_of_nat (i0 + j + ctz ?k))])
        (push_px (low_pixels ne planes ! (j + ctz ?k)) (i0 + j + ctz ?k) s)"
      by (rule push_px_emits[OF h(1)]) (use h(2) j in simp)
    moreover have "avx2_emit ?u ?k (i0 + j) s = push_px (low_pixels ne planes ! (j + ctz ?k)) (i0 + j + ctz ?k) s"
      using True b group_lane[OF j b, of planes] by (simp add: avx2_emit_def load_ok)
    ultimately show ?thesis unfolding picked_group o by (simp add: lane_pixels_def ac_simps)
  next
    case False
    let ?I = "\<lambda>q s'. emits ne s (K @ ?p [j..<j + 8 * q]) (Inr s')"
    have "\<exists>s'. fold_res (avx2_pack8 ?u ?k (i0 + j)) [0..<8] s = Inr s' \<and> ?I 8 s'"
    proof (rule fold_upt_inv[where I = ?I])
      show "?I 0 s" using h(1) by simp
      fix q s1 assume q: "q < 8" and I: "?I q s1"
      have h1: "holds ne s1 (K @ ?p [j..<j + 8 * q])" using I by simp
      have "length (K @ ?p [j..<j + 8 * q]) \<le> j + 8 * q"
        using h(2) length_picked[of "above cut_u" "low_pixels ne planes" msk i0 "[j..<j + 8 * q]"] by simp
      from avx2_pack8_emits[OF j q h1 this] obtain s2 where
        "avx2_pack8 ?u ?k (i0 + j) q s1 = Inr s2" "emits ne s1 ((K @ ?p [j..<j + 8 * q]) @ ?p [j + 8 * q..<j + 8 * q + 8]) (Inr s2)"
        by (blast dest: emits_Ex)
      moreover have "[j..<j + 8 * q] @ [j + 8 * q..<j + 8 * q + 8] = [j..<j + 8 * Suc q]"
        using upt_add_eq_append[of j "j + 8 * q" 8] by (simp add: ac_simps)
      ultimately show "\<exists>s2. avx2_pack8 ?u ?k (i0 + j) q s1 = Inr s2 \<and> ?I (Suc q) s2"
        using I by (simp flip: picked_append)
    qed
    then show ?thesis using False by (auto simp: avx2_emit_def emits_def)
  qed
qed

section \<open>The collect\<close>

lemma avx2_passA:
  assumes rows: "tile_rows ne planes t pl tsize" "8 dvd t" "32 dvd tsize" "tsize \<le> 1024" "t + 8 * tsize \<le> ne"
    and c: "cut_u < 256" and m: "readable (low_pixels ne planes) msk i0 ne" and r: "length r = 128"
  shows "\<exists>gm ts vis. group_bitmap 32 pl tsize = Inr gm
    \<and> low_scan (avx2_group pl (word_of_nat cut_u) msk (i0 + t)) gm \<lparr>tl_rec = r, tl_gm = [0, 0]\<rparr> = Inr ts
    \<and> tile_inv ne planes msk i0 cut_u t vis ts \<and> vis \<subseteq> {..<tsize div 8}
    \<and> (\<forall>g<tsize div 8. g \<notin> vis \<longrightarrow> \<not> group_live ne planes (t + 64 * g))"
proof -
  let ?f = "avx2_group pl (word_of_nat cut_u) msk (i0 + t)"
  let ?inv = "tile_inv ne planes msk i0 cut_u t"
  have d8: "8 dvd tsize" using rows(3) by (rule dvd_trans[rotated]) simp
  from group_bitmap_ok[OF rows(1,2) _ rows(3,4)] obtain gm where gm: "group_bitmap 32 pl tsize = Inr gm" "length gm = 2"
    "\<forall>g<128. gbit gm g \<longleftrightarrow> 8 * g < tsize \<and> group_live ne planes (t + 64 * g)" by auto
  let ?gs = "filter (gbit gm) [0..<128]"
  have "\<exists>ts. fold_res ?f ?gs \<lparr>tl_rec = r, tl_gm = [0, 0]\<rparr> = Inr ts \<and> ?inv (set ?gs) ts"
  proof (rule fold_res_inv)
    show "?inv (set []) \<lparr>tl_rec = r, tl_gm = [0, 0]\<rparr>" using tile_inv_init[OF r] by simp
    fix ys g zs s assume a: "?gs = ys @ g # zs" "?inv (set ys) s"
    have "g \<in> set ?gs" unfolding a(1) by simp
    then have g: "8 * g + 8 \<le> tsize" using gm(3) d8 by (auto elim!: dvdE)
    then have "t + 64 * g + 64 \<le> ne" using rows(5) by linarith
    from avx2_group_ok[OF a(2) rows(1,2) g rows(4) this c m]
    show "\<exists>s'. ?f g s = Inr s' \<and> ?inv (set (ys @ [g])) s'" by simp
  qed
  then obtain ts where ts: "fold_res ?f ?gs \<lparr>tl_rec = r, tl_gm = [0, 0]\<rparr> = Inr ts" "?inv (set ?gs) ts" by blast
  have sub: "set ?gs \<subseteq> {..<tsize div 8}" using gm(3) d8 by (auto elim!: dvdE)
  have dead: "\<forall>g<tsize div 8. g \<notin> set ?gs \<longrightarrow> \<not> group_live ne planes (t + 64 * g)"
    using gm(3) rows(4) by (auto simp: less_mult_imp_div_less)
  show ?thesis
    by (intro exI[of _ gm] exI[of _ ts] exI[of _ "set ?gs"]) (use gm(1) ts sub dead in \<open>simp add: low_scan_eq[OF gm(2)]\<close>)
qed

lemma avx2_collect_emits:
  assumes p: "planes_in planes raw nz" "length planes = 2 * ne" "256 dvd ne" "0 < ne"
    and c: "cut_u < 256" and m: "readable (low_pixels ne planes) msk i0 ne" and room: "ne \<le> length vals" "ne \<le> length adr"
  shows "\<exists>raw' s. bslz4_lowplanes_collect_avx2 raw ne nz msk i0 cut_u vals adr = Inr (raw', s) \<and> length raw' = length raw
    \<and> emits ne \<lparr>npx = 0, out_vals = vals, out_adr = adr\<rparr> (picked (above cut_u) (low_pixels ne planes) msk i0 [0..<ne]) (Inr s)"
proof -
  have d: "8 dvd ne" "64 dvd ne" using p(3) by (auto elim!: dvd_trans[rotated])
  from low_prepare_ok[OF p(1,2) d(1) p(4)] obtain raw' np where
    r: "low_prepare raw ne nz = Inr (raw', np)" "length raw' = length raw"
    "\<And>t tsize. 8 dvd t \<Longrightarrow> t div 8 + tsize \<le> ne div 8 \<Longrightarrow> tsize \<le> 1024 \<Longrightarrow> tile_rows ne planes t (plane_ptrs raw' np (ne div 8) t) tsize"
    by blast
  have "emits ne \<lparr>npx = 0, out_vals = vals, out_adr = adr\<rparr> (picked (above cut_u) (low_pixels ne planes) msk i0 [0..<ne])
      (low_tiles (avx2_tile raw' np ne msk i0 cut_u) ne vals adr)"
  proof (rule low_tiles_emits[OF _ room])
    fix k q K and s :: "16 word out"
    assume a: "8192 * k < ne" "length (q :: (byte list \<times> 64 word) option list) = 128" "holds ne s K" "length K \<le> 8192 * k"
    note b = tile_bytes_ok[OF d(2) refl a(1)]
    have e: "8192 * k + 8 * tile_bytes ne (8192 * k) \<le> ne" unfolding b(4) by simp
    have d32: "32 dvd tile_bytes ne (8192 * k)"
    proof -
      obtain n where n: "ne = 256 * n" using p(3) by (auto elim!: dvdE)
      have "ne - 8192 * k = 256 * (n - 32 * k)" using n by (simp add: diff_mult_distrib2)
      then show ?thesis by (simp add: tile_bytes_def BSLZ4_LOWPLANES_TILE_def)
    qed
    from avx2_passA[OF r(3)[OF b(5,3,2)] b(5) d32 b(2) e c m a(2)] obtain gm ts vis where
      ts: "group_bitmap 32 (plane_ptrs raw' np (ne div 8) (8192 * k)) (tile_bytes ne (8192 * k)) = Inr gm"
        "low_scan (avx2_group (plane_ptrs raw' np (ne div 8) (8192 * k)) (word_of_nat cut_u) msk (i0 + 8192 * k)) gm
          \<lparr>tl_rec = q, tl_gm = [0, 0]\<rparr> = Inr ts"
      and v: "tile_inv ne planes msk i0 cut_u (8192 * k) vis ts" "vis \<subseteq> {..<tile_bytes ne (8192 * k) div 8}"
        "\<forall>g<tile_bytes ne (8192 * k) div 8. g \<notin> vis \<longrightarrow> \<not> group_live ne planes (8192 * k + 64 * g)" by blast
    show "\<exists>r' s'. avx2_tile raw' np ne msk i0 cut_u (8192 * k) (q, s) = Inr (r', s') \<and> length r' = 128
      \<and> emits ne s (K @ picked (above cut_u) (low_pixels ne planes) msk i0 [8192 * k..<min ne (8192 * k + 8192)]) (Inr s')"
      using tile_emits[OF v b(1,2) e avx2_emit_emits a(3,4)] unfolding avx2_tile_def case_prod_conv Let_def ts rbind.simps b(4) by blast
  qed
  then show ?thesis using r(1,2) unfolding bslz4_lowplanes_collect_avx2_def by (auto simp: emits_def)
qed

end
