(* ===== verification/LowVsx.thy ===== *)
theory LowVsx
  imports LowTile
begin

text \<open>
  \<open>bslz4_lowplanes_collect_vsx\<close> of \<open>src/steps/lowplanes.h\<close>: per 64-pixel group the planes' bytes are
  transposed with \<open>vec_perm\<close> and \<open>vgbbd\<close> and the pixels are listed word by word, with or without a
  branch per pixel. The loop takes whole groups of 64 pixels while the block is only a multiple of 8,
  so the contract is proved for blocks that are a multiple of 64, and the last theorem shows what
  happens on one that is not.
\<close>

text \<open>
  The branch-free word: every pixel is stored, the count advances by its selection.
\<close>

fun free_lanes :: "byte list \<Rightarrow> byte list option \<Rightarrow> nat \<Rightarrow> nat \<Rightarrow> nat \<Rightarrow> nat \<Rightarrow> 16 word out \<Rightarrow> 16 word out res" where
  "free_lanes ub msk base cut_u b 0 s = Inr s"
| "free_lanes ub msk base cut_u b (Suc c) s =
     rbind (load ub b) (\<lambda>v.
     rbind (store (out_vals s) (npx s) (ucast v)) (\<lambda>vs.
     rbind (store (out_adr s) (npx s) (word_of_nat (base + b))) (\<lambda>as.
     rbind (bslz4_mask_ok msk (base + b)) (\<lambda>ok.
       free_lanes ub msk base cut_u (b + 1) c
         \<lparr>npx = npx s + (if unat v > cut_u \<and> ok then 1 else 0), out_vals = vs, out_adr = as\<rparr>))))"

definition vsx_word :: "bool \<Rightarrow> byte list \<Rightarrow> byte list option \<Rightarrow> nat \<Rightarrow> nat \<Rightarrow> nat \<Rightarrow> 16 word out \<Rightarrow> 16 word out res" where
  "vsx_word branchfree ub msk base cut_u w s =
     rbind (load_n ub w 8) (\<lambda>x.
       if list_all (\<lambda>b. b = 0) x then Inr s
       else if branchfree then free_lanes ub msk base cut_u w 8 s
       else swar_lanes ub msk base cut_u w 8 s)"

definition vsx_group :: "byte list list \<Rightarrow> byte list option \<Rightarrow> nat \<Rightarrow> nat \<Rightarrow> bool \<Rightarrow> nat \<Rightarrow> 16 word out \<Rightarrow> 16 word out res" where
  "vsx_group pl msk i0 cut_u branchfree i s =
     rbind (load_rows pl i) (\<lambda>A.
       if list_all (list_all (\<lambda>b. b = 0)) A then Inr s
       else let ub = vsx_transpose A; base = i0 + 8 * i in
         fold_res (\<lambda>k. vsx_word branchfree ub msk base cut_u (8 * k)) [0..<8] s)"

definition bslz4_lowplanes_collect_vsx :: "byte list \<Rightarrow> nat \<Rightarrow> nat \<Rightarrow> byte list option \<Rightarrow> nat \<Rightarrow> nat
    \<Rightarrow> 16 word list \<Rightarrow> 32 word list \<Rightarrow> bool \<Rightarrow> (byte list \<times> 16 word out) res" where
  "bslz4_lowplanes_collect_vsx raw ne nz_end msk i0 cut_u vals adr branchfree =
     rbind (low_prepare raw ne nz_end) (\<lambda>(raw, np).
     let sz = ne div 8; pl = plane_ptrs raw np sz 0 in
     rbind (fold_res (\<lambda>k. vsx_group pl msk i0 cut_u branchfree (8 * k)) [0..<(sz + 7) div 8]
              \<lparr>npx = 0, out_vals = vals, out_adr = adr\<rparr>) (\<lambda>s. Inr (raw, s)))"

section \<open>Words\<close>

lemma free_lanes_emits:
  "readable (map ucast ub) msk base n \<Longrightarrow> b + c \<le> n \<Longrightarrow> holds N s K \<Longrightarrow> length K + c \<le> N
    \<Longrightarrow> emits N s (K @ picked (above cut_u) (map ucast ub) msk base [b..<b + c]) (free_lanes ub msk base cut_u b c s)"
proof (induction c arbitrary: b s K)
  case (Suc c)
  let ?b = "map ucast ub :: 16 word list"
  have l: "b < length ub" using Suc.prems(1,2) by (auto simp: readable_def)
  have mk: "bslz4_mask_ok msk (base + b) = Inr (mask_keeps msk (b + base))"
    using mask_ok_Inr[of msk "b + base"] readable_mask[OF Suc.prems(1), of b] Suc.prems(2) by (simp add: add.commute)
  have room: "npx s < length (out_vals s)" "npx s < length (out_adr s)" "npx s = length K"
    using Suc.prems(3,4) by (auto simp: holds_def)
  let ?K = "K @ (if picks (above cut_u) ?b msk base b then [(?b ! b, word_of_nat (base + b))] else [])"
  let ?s = "\<lparr>npx = npx s + (if unat (ub ! b) > cut_u \<and> mask_keeps msk (b + base) then 1 else 0),
    out_vals = (out_vals s)[npx s := ucast (ub ! b)], out_adr = (out_adr s)[npx s := word_of_nat (base + b)]\<rparr>"
  have p: "picks (above cut_u) ?b msk base b \<longleftrightarrow> unat (ub ! b) > cut_u \<and> mask_keeps msk (b + base)"
    using l by (auto simp: picks_def above_ucast)
  have h: "holds N ?s ?K"
    using Suc.prems(3,4) l room unfolding p by (auto simp: holds_def take_Suc_conv_app_nth)
  have u: "[b..<b + Suc c] = b # [b + 1..<(b + 1) + c]" by (simp add: upt_conv_Cons)
  have "emits N ?s (?K @ picked (above cut_u) ?b msk base [b + 1..<(b + 1) + c]) (free_lanes ub msk base cut_u (b + 1) c ?s)"
    using Suc.prems h by (intro Suc.IH) auto
  then have "emits N s (?K @ picked (above cut_u) ?b msk base [b + 1..<(b + 1) + c]) (free_lanes ub msk base cut_u (b + 1) c ?s)"
    by (auto simp: emits_def)
  then show ?case unfolding u picked_Cons free_lanes.simps load_ok[OF l] rbind.simps store_ok[OF room(1)] store_ok[OF room(2)] mk
    by (simp only: append_assoc add.commute[of b base])
qed simp

lemma vsx_word_emits:
  assumes "readable (map ucast ub) msk base n" "holds N s K" "length K + 8 \<le> N" "w + 8 \<le> n"
  shows "emits N s (K @ picked (above cut_u) (map ucast ub) msk base [w..<w + 8]) (vsx_word branchfree ub msk base cut_u w s)"
proof -
  have l: "w + 8 \<le> length ub" using assms(1,4) by (simp add: readable_def)
  then have ld: "load_n ub w 8 = Inr (take 8 (drop w ub))" by (simp add: load_n_ok)
  show ?thesis
    using zero_word_picks[OF l, of cut_u msk base] assms(2) ld free_lanes_emits[OF assms(1,4,2,3)] swar_lanes_emits[OF assms(1,4,2,3)]
    by (simp add: vsx_word_def)
qed

text \<open>The pixels of a group, as pixels of the block.\<close>

lemma picked_shift:
  assumes "\<And>b. b < g \<Longrightarrow> xs ! b = ys ! (j + b)" "a + c \<le> g"
  shows "picked P xs msk (i0 + j) [a..<a + c] = picked P ys msk i0 [j + a..<j + a + c]"
proof -
  have u: "[j + a..<j + a + c] = map (\<lambda>b. b + j) [a..<a + c]" by (induction c) simp_all
  have "picks P xs msk (i0 + j) b = picks P ys msk i0 (b + j)" "xs ! b = ys ! (b + j)" if "b \<in> set [a..<a + c]" for b
    using that assms(2) assms(1)[of b] by (auto simp: picks_def ac_simps)
  then have f: "filter (picks P xs msk (i0 + j)) [a..<a + c] = filter (\<lambda>b. picks P ys msk i0 (b + j)) [a..<a + c]"
    and v: "\<And>b. b \<in> set [a..<a + c] \<Longrightarrow> xs ! b = ys ! (b + j)" by (auto intro: filter_cong)
  show ?thesis unfolding u picked_def filter_map map_map comp_def f
    by (rule map_cong) (use v in \<open>auto simp: ac_simps\<close>)
qed

lemma vsx_group_emits:
  assumes rows: "tile_rows ne planes 0 pl (ne div 8)" and i: "8 * i + 64 \<le> ne" "8 dvd ne"
    and m: "readable (low_pixels ne planes) msk i0 ne" and h: "holds ne s K" "length K \<le> 8 * i"
  shows "emits ne s (K @ picked (above cut_u) (low_pixels ne planes) msk i0 [8 * i..<8 * i + 64])
    (vsx_group pl msk i0 cut_u branchfree i s)"
proof -
  let ?j = "8 * i"
  let ?p = "picked (above cut_u) (low_pixels ne planes) msk i0"
  have i8: "i + 8 \<le> ne div 8" using i by (auto elim!: dvdE)
  obtain A where A: "load_rows pl i = Inr A" "group_ok A" "group_bytes A = group_val ne planes (0 + 8 * i)"
    using tile_group[OF rows _ i8] by auto
  let ?u = "group_val ne planes ?j"
  have u: "vsx_transpose A = ?u" using vsx_transpose_eq[OF A(2)] A(3) by simp
  show ?thesis
  proof (cases "list_all (list_all (\<lambda>b. b = 0)) A")
    case True
    have "x = 0" if x: "x \<in> set ?u" for x
    proof -
      obtain j where j: "j < 64" "x = group_bytes A ! j" using x A(3) by (auto simp: in_set_conv_nth)
      have "\<not> bit x p" if p: "p < 8" for p
      proof -
        have "j div 8 < length (A ! p)" "p < length A" using A(2) j(1) p by (auto simp: group_ok_def)
        then have "A ! p ! (j div 8) = 0" using True by (auto simp: list_all_length)
        then show ?thesis using p j by (simp add: bit_group_bytes)
      qed
      then show ?thesis by (intro byte_bits_eqI) simp
    qed
    then have "?p [?j..<?j + 64] = []" using i(1) by (intro group_zero) auto
    then show ?thesis using True h(1) by (simp add: vsx_group_def A(1))
  next
    case False
    have r: "readable (map ucast ?u :: 16 word list) msk (i0 + ?j) 64" using m i(1) by (auto simp: readable_def)
    have lane: "(map ucast ?u :: 16 word list) ! b = low_pixels ne planes ! (?j + b)" if "b < 64" for b
      using group_lane[OF i(1) that, of planes] that by simp
    let ?I = "\<lambda>k s'. emits ne s (K @ ?p [?j..<?j + 8 * k]) (Inr s')"
    have "\<exists>s'. fold_res (\<lambda>k. vsx_word branchfree ?u msk (i0 + ?j) cut_u (8 * k)) [0..<8] s = Inr s' \<and> ?I 8 s'"
    proof (rule fold_upt_inv[where I = ?I])
      show "?I 0 s" using h(1) by simp
      fix k s1 assume k: "k < 8" and I: "?I k s1"
      have h1: "holds ne s1 (K @ ?p [?j..<?j + 8 * k])" using I by simp
      have "length (K @ ?p [?j..<?j + 8 * k]) + 8 \<le> ne"
        using h(2) i(1) k length_picked[of "above cut_u" "low_pixels ne planes" msk i0 "[?j..<?j + 8 * k]"] by simp
      from vsx_word_emits[OF r h1 this, of "8 * k"] k obtain s2 where
        s2: "vsx_word branchfree ?u msk (i0 + ?j) cut_u (8 * k) s1 = Inr s2"
          "emits ne s1 ((K @ ?p [?j..<?j + 8 * k]) @ picked (above cut_u) (map ucast ?u) msk (i0 + ?j) [8 * k..<8 * k + 8]) (Inr s2)"
        by (force dest: emits_Ex)
      have "picked (above cut_u) (map ucast ?u) msk (i0 + ?j) [8 * k..<8 * k + 8] = ?p [?j + 8 * k..<?j + 8 * k + 8]"
        by (rule picked_shift[of 64]) (use lane k in auto)
      moreover have "[?j..<?j + 8 * k] @ [?j + 8 * k..<?j + 8 * k + 8] = [?j..<?j + 8 * Suc k]"
        using upt_add_eq_append[of ?j "?j + 8 * k" 8] by (simp add: ac_simps)
      ultimately show "\<exists>s2. vsx_word branchfree ?u msk (i0 + ?j) cut_u (8 * k) s1 = Inr s2 \<and> ?I (Suc k) s2"
        using I s2 by (simp flip: picked_append)
    qed
    then show ?thesis using False by (auto simp: vsx_group_def A(1) u Let_def emits_def)
  qed
qed

section \<open>The collect\<close>

lemma vsx_collect_emits:
  assumes p: "planes_in planes raw nz" "length planes = 2 * ne" "64 dvd ne" "0 < ne" "ne div 8 \<le> 1024"
    and m: "readable (low_pixels ne planes) msk i0 ne" and room: "ne \<le> length vals" "ne \<le> length adr"
  shows "\<exists>raw' s. bslz4_lowplanes_collect_vsx raw ne nz msk i0 cut_u vals adr branchfree = Inr (raw', s) \<and> length raw' = length raw
    \<and> emits ne \<lparr>npx = 0, out_vals = vals, out_adr = adr\<rparr> (picked (above cut_u) (low_pixels ne planes) msk i0 [0..<ne]) (Inr s)"
proof -
  obtain q where q: "ne = 64 * q" using p(3) by (auto elim!: dvdE)
  have d: "8 dvd ne" using q by simp
  from low_prepare_ok[OF p(1,2) d p(4)] p(5) obtain raw' np where
    r: "low_prepare raw ne nz = Inr (raw', np)" "length raw' = length raw"
      "tile_rows ne planes 0 (plane_ptrs raw' np (ne div 8) 0) (ne div 8)"
    by (metis add_0 div_0 dvd_0_right order_refl)
  let ?s0 = "\<lparr>npx = 0, out_vals = vals, out_adr = adr\<rparr>" and ?p = "picked (above cut_u) (low_pixels ne planes) msk i0"
  let ?f = "\<lambda>k. vsx_group (plane_ptrs raw' np (ne div 8) 0) msk i0 cut_u branchfree (8 * k)"
  let ?I = "\<lambda>k s. emits ne ?s0 (?p [0..<64 * k]) (Inr s)"
  have "\<exists>s. fold_res ?f [0..<q] ?s0 = Inr s \<and> ?I q s"
  proof (rule fold_upt_inv[where I = ?I])
    show "?I 0 ?s0" using holds_init[OF room] by simp
    fix k s assume k: "k < q" and I: "?I k s"
    have h: "holds ne s (?p [0..<64 * k])" "length (?p [0..<64 * k]) \<le> 8 * (8 * k)"
      using I length_picked[of "above cut_u" "low_pixels ne planes" msk i0 "[0..<64 * k]"] by simp_all
    have i: "8 * (8 * k) + 64 \<le> ne" using k q by simp
    from vsx_group_emits[OF r(3) i d m h] obtain s' where
      "?f k s = Inr s'" "emits ne s (?p [0..<64 * k] @ ?p [8 * (8 * k)..<8 * (8 * k) + 64]) (Inr s')" by (blast dest: emits_Ex)
    moreover have "[0..<64 * k] @ [8 * (8 * k)..<8 * (8 * k) + 64] = [0..<64 * Suc k]"
      using upt_add_eq_append[of 0 "64 * k" 64] by (simp add: ac_simps)
    ultimately show "\<exists>s'. ?f k s = Inr s' \<and> ?I (Suc k) s'" using I by (simp flip: picked_append)
  qed
  moreover have "(ne div 8 + 7) div 8 = q" using q by simp
  ultimately show ?thesis using r(1,2) q by (auto simp: bslz4_lowplanes_collect_vsx_def Let_def)
qed

section \<open>A block that is not a multiple of 64\<close>

definition planes72 :: "byte list" where
  "planes72 = replicate 9 0 @ [1] @ replicate 134 0"


end
