(* ===== verification/LowList.thy ===== *)
theory LowList
  imports LowAvx2 LowVsx
begin

text \<open>
  What the driver calls of \<open>src/steps/lowplanes.h\<close>: \<open>bslz4_lowplanes_capable\<close>, \<open>bslz4_lowplanes_list\<close>
  (planes to list) and \<open>bslz4_lowplanes_block\<close> (planes to block, the block as its bytes).
\<close>

section \<open>Availability\<close>

definition bslz4_lowplanes_u16_capable :: "host \<Rightarrow> bool" where
  "bslz4_lowplanes_u16_capable h \<longleftrightarrow> b_vbmi_gfni (h_build h) \<and> c2py_amd64_avx512f (h_cpu h) \<and> c2py_amd64_avx512bw (h_cpu h)
     \<and> c2py_amd64_avx512vbmi (h_cpu h) \<and> c2py_amd64_gfni (h_cpu h)"

definition bslz4_lowplanes_collect_capable :: "host \<Rightarrow> bool" where
  "bslz4_lowplanes_collect_capable h \<longleftrightarrow> b_vbmi_gfni (h_build h) \<and> bslz4_lowplanes_u16_capable h
     \<and> c2py_amd64_avx512vl (h_cpu h) \<and> c2py_amd64_avx512vbmi2 (h_cpu h) \<and> c2py_amd64_popcnt (h_cpu h)"

definition bslz4_lowplanes_capable :: "host \<Rightarrow> int \<Rightarrow> bool" where
  "bslz4_lowplanes_capable h val =
     (if val = BSLZ4_UNTRANSPOSE_LOWPLANES_VBMI
      then b_x86_simd (h_build h) \<and> bslz4_lowplanes_u16_capable h \<and> bslz4_lowplanes_collect_capable h
      else if val = BSLZ4_UNTRANSPOSE_LOWPLANES_AVX2
      then b_x86_simd (h_build h) \<and> c2py_amd64_avx2 (h_cpu h) \<and> c2py_amd64_popcnt (h_cpu h)
      else if val = BSLZ4_UNTRANSPOSE_LOWPLANES_VSX then b_vsx (h_build h)
      else val = BSLZ4_UNTRANSPOSE_LOWPLANES_C)"

section \<open>Planes to list\<close>

text \<open>\<open>bitshuf_decode_block(scratch, raw, NULL, ne, 1)\<close>: its return value and \<open>scratch\<close>.\<close>

definition low_kcb :: "shuffle_lib \<Rightarrow> byte list \<Rightarrow> byte list \<Rightarrow> nat \<Rightarrow> (int \<times> byte list) res" where
  "low_kcb lib scratch raw ne =
     rbind (load_n raw 0 ne) (\<lambda>inp.
       let (ret, out) = bslz4_untranspose_kcb lib inp ne 1 in
       rbind (store_n scratch 0 out) (\<lambda>scratch. Inr (ret, scratch)))"

text \<open>\<open>raw\<close>, \<open>scratch\<close>, and the list or \<open>None\<close> for a return of -1.\<close>

type_synonym low_result = "byte list \<times> byte list \<times> 16 word out option"

definition low_listed :: "16 word list \<Rightarrow> 32 word list \<Rightarrow> byte list \<Rightarrow> nat \<Rightarrow> (byte list \<times> bool) res
    \<Rightarrow> (byte list \<Rightarrow> low_result res) \<Rightarrow> byte list \<Rightarrow> low_result res" where
  "low_listed vals adr scratch cut_u check go raw =
     rbind check (\<lambda>(raw, z).
       if \<not> z then Inr (raw, scratch, None)
       else if cut_u \<ge> 255 then Inr (raw, scratch, Some \<lparr>npx = 0, out_vals = vals, out_adr = adr\<rparr>)
       else go raw)"

definition bslz4_lowplanes_list :: "shuffle_lib \<Rightarrow> build \<Rightarrow> int \<Rightarrow> byte list \<Rightarrow> nat \<Rightarrow> nat \<Rightarrow> nat \<Rightarrow> nat \<Rightarrow> byte list
    \<Rightarrow> byte list option \<Rightarrow> nat \<Rightarrow> nat \<Rightarrow> 16 word list \<Rightarrow> 32 word list \<Rightarrow> low_result res" where
  "bslz4_lowplanes_list lib bld val raw ne nz_end n blocksize scratch msk i0 cut_u vals adr =
     (let listed = (\<lambda>check go. low_listed vals adr scratch cut_u check go raw);
          out = (\<lambda>r. rbind r (\<lambda>(raw, s). Inr (raw, scratch, Some s))) in
      if b_x86_simd bld \<and> val = BSLZ4_UNTRANSPOSE_LOWPLANES_VBMI then
        if ne mod 64 \<noteq> 0 then Inr (raw, scratch, None)
        else listed (bslz4_high_planes_zero raw ne nz_end) (\<lambda>raw.
          if b_vbmi_gfni bld
          then out (bslz4_lowplanes_collect_u16 raw ne nz_end msk i0 cut_u vals adr (n * BSLZ4_LOWPLANES_SKIP_RATIO < blocksize))
          else Inr (raw, scratch, Some \<lparr>npx = 0, out_vals = vals, out_adr = adr\<rparr>))
      else if b_x86_simd bld \<and> val = BSLZ4_UNTRANSPOSE_LOWPLANES_AVX2 then
        if ne mod 256 \<noteq> 0 then Inr (raw, scratch, None)
        else listed (bslz4_high_planes_zero_c_nofill raw ne nz_end) (\<lambda>raw.
          out (bslz4_lowplanes_collect_avx2 raw ne nz_end msk i0 cut_u vals adr))
      else if b_vsx bld \<and> val = BSLZ4_UNTRANSPOSE_LOWPLANES_VSX then
        if ne mod 8 \<noteq> 0 \<or> ne div 8 > length bslz4_zero_plane then Inr (raw, scratch, None)
        else listed (bslz4_high_planes_zero_c_nofill raw ne nz_end) (\<lambda>raw.
          out (bslz4_lowplanes_collect_vsx raw ne nz_end msk i0 cut_u vals adr (n * BSLZ4_LOWPLANES_BRANCHFREE_RATIO < blocksize)))
      else if val = BSLZ4_UNTRANSPOSE_LOWPLANES_C then
        if ne mod 8 \<noteq> 0 then Inr (raw, scratch, None)
        else listed (bslz4_high_planes_zero_c raw ne nz_end) (\<lambda>raw.
          rbind (low_kcb lib scratch raw ne) (\<lambda>(ret, scratch).
            if ret < 0 then Inr (raw, scratch, None)
            else rbind (bslz4_collect_u8_swar scratch msk i0 ne cut_u vals adr) (\<lambda>s. Inr (raw, scratch, Some s))))
      else Inr (raw, scratch, None))"

text \<open>The contract: the list of the block's pixels above the cut, or the planes untouched.\<close>

definition low_list_ok :: "byte list \<Rightarrow> nat \<Rightarrow> nat \<Rightarrow> byte list \<Rightarrow> byte list \<Rightarrow> byte list option \<Rightarrow> nat \<Rightarrow> nat \<Rightarrow> 16 word list
    \<Rightarrow> 32 word list \<Rightarrow> low_result res \<Rightarrow> bool" where
  "low_list_ok planes ne nz raw scratch msk i0 cut_u vals adr r \<longleftrightarrow>
     (\<exists>raw' scratch' o'. r = Inr (raw', scratch', o') \<and> length raw' = length raw \<and> length scratch' = length scratch
        \<and> (case o' of None \<Rightarrow> planes_in planes raw' nz
           | Some s \<Rightarrow> high_zero ne planes
               \<and> emits ne \<lparr>npx = 0, out_vals = vals, out_adr = adr\<rparr> (picked (above cut_u) (low_pixels ne planes) msk i0 [0..<ne]) (Inr s)))"

lemma low_listed_ok:
  assumes "length planes = 2 * ne" "ne \<le> length vals" "ne \<le> length adr"
    and chk: "\<exists>raw'. check = Inr (raw', high_zero ne planes) \<and> length raw' = length raw \<and> planes_in planes raw' nz \<and> Q raw'"
    and go: "\<And>raw'. length raw' = length raw \<Longrightarrow> planes_in planes raw' nz \<Longrightarrow> Q raw' \<Longrightarrow> high_zero ne planes \<Longrightarrow> cut_u < 255
        \<Longrightarrow> low_list_ok planes ne nz raw' scratch msk i0 cut_u vals adr (go raw')"
  shows "low_list_ok planes ne nz raw scratch msk i0 cut_u vals adr (low_listed vals adr scratch cut_u check go raw)"
proof -
  obtain raw' where r: "check = Inr (raw', high_zero ne planes)" "length raw' = length raw" "planes_in planes raw' nz" "Q raw'"
    using chk by blast
  consider "\<not> high_zero ne planes" | "high_zero ne planes" "cut_u \<ge> 255" | "high_zero ne planes" "cut_u < 255" by linarith
  then show ?thesis
  proof cases
    case 1
    then show ?thesis using r by (simp add: low_list_ok_def low_listed_def)
  next
    case 2
    have "\<not> picks (above cut_u) (low_pixels ne planes) msk i0 j" if "j < ne" for j
    proof -
      have "unat (low_byte ne planes j) < 256" using unsigned_less[of "low_byte ne planes j", where 'a = nat] by simp
      then show ?thesis using that 2(2) by (simp add: picks_def low_pixels_nth above_ucast)
    qed
    then have "picked (above cut_u) (low_pixels ne planes) msk i0 [0..<ne] = []" by (simp add: picked_def filter_empty_conv)
    then show ?thesis using 2 r holds_init[OF assms(2,3)] by (simp add: low_list_ok_def low_listed_def)
  next
    case 3
    then show ?thesis using go[OF r(2-4) 3] r(1,2) by (simp add: low_list_ok_def low_listed_def)
  qed
qed

lemma low_list_out:
  assumes "\<exists>raw'' s. r = Inr (raw'', s) \<and> length raw'' = length raw
      \<and> emits ne \<lparr>npx = 0, out_vals = vals, out_adr = adr\<rparr> (picked (above cut_u) (low_pixels ne planes) msk i0 [0..<ne]) (Inr s)"
    and "high_zero ne planes"
  shows "low_list_ok planes ne nz raw scratch msk i0 cut_u vals adr (rbind r (\<lambda>(raw, s). Inr (raw, scratch, Some s)))"
  using assms by (auto simp: low_list_ok_def)

text \<open>kcb on one-byte elements gives the low bytes.\<close>

lemma low_bytes_kcb:
  assumes "shuffle_conforms lib" "ne mod 8 = 0" "ne \<le> length raw" "ne \<le> length scratch" "\<And>x. x < ne \<Longrightarrow> raw ! x = planes ! x"
  shows "\<exists>ret scratch'. low_kcb lib scratch raw ne = Inr (ret, scratch') \<and> 0 \<le> ret \<and> length scratch' = length scratch
    \<and> take ne scratch' = map (low_byte ne planes) [0..<ne]"
proof -
  let ?in = "take ne raw"
  have ki: "untransposes (bslz4_untranspose_kcb lib)" using assms(1) by (simp add: shuffle_conforms_def)
  have li: "length ?in = ne * 1" using assms(3) by simp
  obtain ret out where k: "bslz4_untranspose_kcb lib ?in ne 1 = (ret, out)" by (cases "bslz4_untranspose_kcb lib ?in ne 1")
  have u: "0 \<le> ret" "out = bytes_of_pixels 1 (plane_pixels 1 ne ?in)"
    using untransposesD[OF ki li assms(2)] k by simp_all
  have b: "plane_bit ne ?in p e = plane_bit ne planes p e" if "p < 8" "e < ne" for p e
  proof -
    have "e div 8 < ne div 8" "8 * (ne div 8) = ne" using that(2) assms(2) by auto
    then have "p * (ne div 8) + e div 8 < (p + 1) * (ne div 8)" by simp
    also have "\<dots> \<le> 8 * (ne div 8)" using that(1) by (intro mult_le_mono1) simp
    finally show ?thesis using assms(5) \<open>8 * (ne div 8) = ne\<close> by (simp add: plane_bit_def)
  qed
  have "out = map (low_byte ne planes) [0..<ne]"
  proof (rule nth_equalityI)
    show "length out = length (map (low_byte ne planes) [0..<ne])" using u(2) by simp
    fix e assume "e < length out"
    then have e: "e < ne" using u(2) by simp
    have "out ! (1 * e + 0) = ucast (drop_bit (8 * 0) (plane_pixels 1 ne ?in ! e))"
      unfolding u(2) by (rule bytes_of_pixels_nth) (use e in simp_all)
    then have "out ! e = ucast (plane_pixel 1 ne ?in e)" using e by (simp add: plane_pixels_nth)
    also have "\<dots> = low_byte ne planes e"
      by (rule byte_bits_eqI) (use b[OF _ e] in \<open>simp add: bit_ucast_iff bit_plane_pixel low_byte_def\<close>)
    finally show "out ! e = map (low_byte ne planes) [0..<ne] ! e" using e by simp
  qed
  then show ?thesis using u(1) k assms(3,4) by (simp add: low_kcb_def load_n_ok store_n_ok length_blit blit_def)
qed

lemma lowplanes_list_ok:
  assumes lib: "shuffle_conforms lib" and cap: "bslz4_lowplanes_capable h val"
    and p: "planes_in planes raw nz" "length planes = 2 * ne" "0 < ne" "ne mod 8 = 0"
    and vsx: "val = BSLZ4_UNTRANSPOSE_LOWPLANES_VSX \<Longrightarrow> ne mod 64 = 0"
    and m: "readable (low_pixels ne planes) msk i0 ne" and room: "ne \<le> length vals" "ne \<le> length adr" "ne \<le> length scratch"
  shows "low_list_ok planes ne nz raw scratch msk i0 cut_u vals adr
    (bslz4_lowplanes_list lib (h_build h) val raw ne nz n blocksize scratch msk i0 cut_u vals adr)"
proof -
  have d: "8 dvd ne" using p(4) by auto
  have ne: "\<And>raw'. length raw' = length raw \<Longrightarrow> ne \<le> length raw'" using p(1,2) by (simp add: planes_in_def)
  have no: "low_list_ok planes ne nz raw scratch msk i0 cut_u vals adr (Inr (raw, scratch, None))"
    using p(1) by (simp add: low_list_ok_def)
  consider (V) "val = BSLZ4_UNTRANSPOSE_LOWPLANES_VBMI" | (A) "val = BSLZ4_UNTRANSPOSE_LOWPLANES_AVX2"
    | (X) "val = BSLZ4_UNTRANSPOSE_LOWPLANES_VSX" | (C) "val = BSLZ4_UNTRANSPOSE_LOWPLANES_C"
    using cap by (auto simp: bslz4_lowplanes_capable_def split: if_splits)
  then show ?thesis
  proof cases
    case V
    then have b: "b_x86_simd (h_build h)" "b_vbmi_gfni (h_build h)"
      using cap by (simp_all add: bslz4_lowplanes_capable_def bslz4_lowplanes_u16_capable_def)
    show ?thesis
    proof (cases "ne mod 64 = 0")
      case False
      then show ?thesis using no V b by (simp add: bslz4_lowplanes_list_def)
    next
      case True
      then have d64: "64 dvd ne" by auto
      have "low_list_ok planes ne nz raw scratch msk i0 cut_u vals adr (low_listed vals adr scratch cut_u
          (bslz4_high_planes_zero raw ne nz) (\<lambda>raw. rbind (bslz4_lowplanes_collect_u16 raw ne nz msk i0 cut_u vals adr
             (n * BSLZ4_LOWPLANES_SKIP_RATIO < blocksize)) (\<lambda>(raw, s). Inr (raw, scratch, Some s))) raw)"
        by (rule low_listed_ok[OF p(2) room(1,2), where Q = "\<lambda>_. True"])
          (use high_checks(1)[OF p(1,2) d d64] in \<open>simp; intro low_list_out vbmi_collect_emits[OF _ p(2) d64 p(3) _ m room(1,2)]; simp\<close>)+
      then show ?thesis using True V b by (simp add: bslz4_lowplanes_list_def)
    qed
  next
    case A
    then have b: "b_x86_simd (h_build h)" using cap by (simp add: bslz4_lowplanes_capable_def step_values)
    have v: "val \<noteq> BSLZ4_UNTRANSPOSE_LOWPLANES_VBMI" using A by (simp add: step_values)
    show ?thesis
    proof (cases "ne mod 256 = 0")
      case False
      then show ?thesis using no A b v by (simp add: bslz4_lowplanes_list_def)
    next
      case True
      then have d256: "256 dvd ne" by auto
      have "low_list_ok planes ne nz raw scratch msk i0 cut_u vals adr (low_listed vals adr scratch cut_u
          (bslz4_high_planes_zero_c_nofill raw ne nz) (\<lambda>raw. rbind (bslz4_lowplanes_collect_avx2 raw ne nz msk i0 cut_u vals adr)
             (\<lambda>(raw, s). Inr (raw, scratch, Some s))) raw)"
        by (rule low_listed_ok[OF p(2) room(1,2), where Q = "\<lambda>_. True"])
          (use high_checks(2)[OF p(1,2) d] in \<open>simp; intro low_list_out avx2_collect_emits[OF _ p(2) d256 p(3) _ m room(1,2)]; simp\<close>)+
      then show ?thesis using True A b v by (simp add: bslz4_lowplanes_list_def)
    qed
  next
    case X
    then have b: "b_vsx (h_build h)" using cap by (simp add: bslz4_lowplanes_capable_def step_values)
    have v: "val \<noteq> BSLZ4_UNTRANSPOSE_LOWPLANES_VBMI" "val \<noteq> BSLZ4_UNTRANSPOSE_LOWPLANES_AVX2" using X by (simp_all add: step_values)
    show ?thesis
    proof (cases "ne div 8 > length bslz4_zero_plane")
      case True
      then show ?thesis using no X b v by (simp add: bslz4_lowplanes_list_def)
    next
      case False
      have d64: "64 dvd ne" "ne div 8 \<le> 1024" using vsx[OF X] False by (auto simp: bslz4_zero_plane_def)
      have "low_list_ok planes ne nz raw scratch msk i0 cut_u vals adr (low_listed vals adr scratch cut_u
          (bslz4_high_planes_zero_c_nofill raw ne nz) (\<lambda>raw. rbind (bslz4_lowplanes_collect_vsx raw ne nz msk i0 cut_u vals adr
             (n * BSLZ4_LOWPLANES_BRANCHFREE_RATIO < blocksize)) (\<lambda>(raw, s). Inr (raw, scratch, Some s))) raw)"
        by (rule low_listed_ok[OF p(2) room(1,2), where Q = "\<lambda>_. True"])
          (use high_checks(2)[OF p(1,2) d] in \<open>simp; intro low_list_out vsx_collect_emits[OF _ p(2) d64(1) p(3) d64(2) m room(1,2)]; simp\<close>)+
      then show ?thesis using False X b v p(4) by (simp add: bslz4_lowplanes_list_def)
    qed
  next
    case C
    have v: "val \<noteq> BSLZ4_UNTRANSPOSE_LOWPLANES_VBMI" "val \<noteq> BSLZ4_UNTRANSPOSE_LOWPLANES_AVX2" "val \<noteq> BSLZ4_UNTRANSPOSE_LOWPLANES_VSX"
      using C by (simp_all add: step_values)
    have "low_list_ok planes ne nz raw scratch msk i0 cut_u vals adr (low_listed vals adr scratch cut_u
        (bslz4_high_planes_zero_c raw ne nz) (\<lambda>raw. rbind (low_kcb lib scratch raw ne) (\<lambda>(ret, scratch).
            if ret < 0 then Inr (raw, scratch, None)
            else rbind (bslz4_collect_u8_swar scratch msk i0 ne cut_u vals adr) (\<lambda>s. Inr (raw, scratch, Some s)))) raw)"
    proof (rule low_listed_ok[OF p(2) room(1,2), where Q = "\<lambda>r. \<forall>x<ne. r ! x = planes ! x"])
      show "\<exists>raw'. bslz4_high_planes_zero_c raw ne nz = Inr (raw', high_zero ne planes) \<and> length raw' = length raw
          \<and> planes_in planes raw' nz \<and> (\<forall>x<ne. raw' ! x = planes ! x)" by (rule high_checks(3)[OF p(1,2) d])
      fix raw' assume r: "length raw' = length raw" "planes_in planes raw' nz" "\<forall>x<ne. raw' ! x = planes ! x" "high_zero ne planes" "cut_u < 255"
      from low_bytes_kcb[OF lib p(4) ne[OF r(1)] room(3)] r(3) obtain ret sc where
        k: "low_kcb lib scratch raw' ne = Inr (ret, sc)" "0 \<le> ret" "length sc = length scratch" "take ne sc = map (low_byte ne planes) [0..<ne]"
        by blast
      have sc: "map ucast sc ! e = low_pixels ne planes ! e" if "e < ne" for e
      proof -
        have "sc ! e = take ne sc ! e" using that by simp
        then show ?thesis using that k(3,4) room(3) by (simp add: low_pixels_nth)
      qed
      have rd: "readable (map ucast sc :: 16 word list) msk i0 ne" using m k(3) room(3) by (auto simp: readable_def)
      have "picked (above cut_u) (map ucast sc) msk i0 [0..<ne] = picked (above cut_u) (low_pixels ne planes) msk i0 [0..<ne]"
        using sc by (auto simp: picked_def picks_def intro!: map_cong filter_cong)
      with collect_u8_swar_emits[OF rd p(4) room(1,2), of cut_u] obtain s where
        "bslz4_collect_u8_swar sc msk i0 ne cut_u vals adr = Inr s"
        "emits ne \<lparr>npx = 0, out_vals = vals, out_adr = adr\<rparr> (picked (above cut_u) (low_pixels ne planes) msk i0 [0..<ne]) (Inr s)"
        by (auto dest: emits_Ex)
      then show "low_list_ok planes ne nz raw' scratch msk i0 cut_u vals adr (rbind (low_kcb lib scratch raw' ne) (\<lambda>(ret, scratch).
            if ret < 0 then Inr (raw', scratch, None)
            else rbind (bslz4_collect_u8_swar scratch msk i0 ne cut_u vals adr) (\<lambda>s. Inr (raw', scratch, Some s))))"
        using k r by (simp add: low_list_ok_def)
    qed
    then show ?thesis using C v p(4) by (simp add: bslz4_lowplanes_list_def)
  qed
qed

end
