(* ===== verification/LowBlock.thy ===== *)
theory LowBlock
  imports LowList
begin

text \<open>
  \<open>bslz4_lowplanes_block\<close> of \<open>src/steps/lowplanes.h\<close>: a u16 block from its low planes for the dense route,
  the pixels as the little-endian bytes of the block buffer.
\<close>

section \<open>The two kernels\<close>

definition vbmi_block_step :: "byte list \<Rightarrow> nat \<Rightarrow> nat \<Rightarrow> byte list \<Rightarrow> byte list res" where
  "vbmi_block_step inp sz k out =
     rbind (load_rows (map (\<lambda>p. drop (p * sz) inp) [0..<8]) (8 * k)) (\<lambda>A.
     let u = vbmi_transpose A in
     rbind (store_n out (2 * (64 * k)) (bytes_of_u16 (map ucast (take 32 u)))) (\<lambda>out.
       store_n out (2 * (64 * k + 32)) (bytes_of_u16 (map ucast (drop 32 u)))))"

definition bslz4_untrans_lowplanes_u16 :: "byte list \<Rightarrow> byte list \<Rightarrow> nat \<Rightarrow> byte list res" where
  "bslz4_untrans_lowplanes_u16 out inp ne =
     (let sz = ne div 8 in fold_res (vbmi_block_step inp sz) [0..<sz div 8] out)"

definition widen_step :: "byte list \<Rightarrow> nat \<Rightarrow> byte list \<Rightarrow> byte list res" where
  "widen_step inp k out =
     rbind (load_n inp (32 * k) 32) (\<lambda>v.
     rbind (store_n out (2 * (32 * k)) (bytes_of_u16 (map ucast (take 16 v)))) (\<lambda>out.
       store_n out (2 * (32 * k + 16)) (bytes_of_u16 (map ucast (drop 16 v)))))"

definition bslz4_widen_u8_u16_avx2 :: "byte list \<Rightarrow> byte list \<Rightarrow> nat \<Rightarrow> byte list res" where
  "bslz4_widen_u8_u16_avx2 out inp n = fold_res (widen_step inp) [0..<(n + 31) div 32] out"

section \<open>The step\<close>

text \<open>
  The kernel of a value, once the high planes are known to be zero: \<open>block\<close>, \<open>scratch\<close>, and whether the
  block was written. On an x86 build without VBMI the kernel is an empty stub.
\<close>

definition low_block_kernel :: "shuffle_lib \<Rightarrow> build \<Rightarrow> int \<Rightarrow> byte list \<Rightarrow> byte list \<Rightarrow> byte list \<Rightarrow> nat
    \<Rightarrow> (byte list \<times> byte list \<times> bool) res" where
  "low_block_kernel lib bld val block raw scratch ne =
     (if val = BSLZ4_UNTRANSPOSE_LOWPLANES_VBMI then
        if b_vbmi_gfni bld then rbind (bslz4_untrans_lowplanes_u16 block raw ne) (\<lambda>block. Inr (block, scratch, True))
        else Inr (block, scratch, True)
      else
        rbind (low_kcb lib scratch raw ne) (\<lambda>(ret, scratch).
          if ret < 0 then Inr (block, scratch, False)
          else rbind (bslz4_widen_u8_u16_avx2 block scratch ne) (\<lambda>block. Inr (block, scratch, True))))"

text \<open>\<open>block\<close>, \<open>raw\<close>, \<open>scratch\<close> and the return value.\<close>

definition bslz4_lowplanes_block :: "shuffle_lib \<Rightarrow> build \<Rightarrow> int \<Rightarrow> byte list \<Rightarrow> byte list \<Rightarrow> byte list \<Rightarrow> nat \<Rightarrow> nat
    \<Rightarrow> (byte list \<times> byte list \<times> byte list \<times> bool) res" where
  "bslz4_lowplanes_block lib bld val block raw scratch ne nz_end =
     (let has = b_x86_simd bld \<and> (val = BSLZ4_UNTRANSPOSE_LOWPLANES_VBMI \<or> val = BSLZ4_UNTRANSPOSE_LOWPLANES_AVX2) in
      if nz_end \<le> ne then
        rbind (memset0 raw nz_end (ne - nz_end)) (\<lambda>raw.
        rbind (if ne mod 64 = 0 \<and> has then low_block_kernel lib bld val block raw scratch ne
               else Inr (block, scratch, False)) (\<lambda>(block, scratch, ok).
          if ok then Inr (block, raw, scratch, True)
          else rbind (memset0 raw ne ne) (\<lambda>raw. Inr (block, raw, scratch, False))))
      else
        rbind (if nz_end < 2 * ne then memset0 raw nz_end (2 * ne - nz_end) else Inr raw) (\<lambda>raw.
          if ne mod 64 \<noteq> 0 \<or> \<not> has then Inr (block, raw, scratch, False)
          else
            rbind (if val = BSLZ4_UNTRANSPOSE_LOWPLANES_VBMI then bslz4_all_zero_avx512 (drop ne raw) ne
                   else bslz4_all_zero_c (drop ne raw) ne) (\<lambda>z.
              if \<not> z then Inr (block, raw, scratch, False)
              else rbind (low_block_kernel lib bld val block raw scratch ne) (\<lambda>(block, scratch, ok).
                     Inr (block, raw, scratch, ok)))))"

section \<open>The pixels as bytes\<close>

lemma bytes_of_u16_append: "bytes_of_u16 (xs @ ys) = bytes_of_u16 xs @ bytes_of_u16 ys"
  by (simp add: bytes_of_u16_def)

lemma length_bytes_of_u16 [simp]: "length (bytes_of_u16 xs) = 2 * length xs"
  by (simp add: bytes_of_u16_def length_concat_same)

lemma bytes_u16_pixels: "bytes_of_u16 xs = bytes_of_pixels 2 (map ucast xs)"
proof -
  have "[ucast x, ucast (drop_bit 8 x)] = bytes_of_pix 2 (ucast x)" for x :: "16 word"
  proof -
    have "(ucast x :: byte) = ucast (ucast x :: pix)" "(ucast (drop_bit 8 x) :: byte) = ucast (drop_bit 8 (ucast x :: pix))"
      by (rule bit_word_eqI, simp add: bit_simps)+
    then show ?thesis by (simp add: bytes_of_pix_def upt_rec)
  qed
  then show ?thesis by (simp add: bytes_of_u16_def bytes_of_pixels_def comp_def)
qed

lemma high_load:
  assumes "take (2 * ne) block = bytes_of_u16 (low_pixels ne planes)" "2 * ne \<le> length block" "ne mod 8 = 0" "high_zero ne planes"
  shows "load_pixels 2 block 0 ne = Inr (plane_pixels 2 ne planes)"
proof -
  have "load_pixels 2 block 0 (length (plane_pixels 2 ne planes)) = Inr (plane_pixels 2 ne planes)"
    by (rule load_pixels_bytes)
      (use assms low_pixels_eq[OF assms(3,4)] in \<open>auto simp: bytes_u16_pixels plane_pixels_def\<close>)
  then show ?thesis by simp
qed

text \<open>Storing the next pixels in two halves.\<close>

lemma store_halves:
  assumes "take (2 * n) out = bytes_of_u16 (take n px)" "2 * (n + 2 * h) \<le> length out" "n + 2 * h \<le> length px"
    and "length v = 2 * h" "map ucast (v :: byte list) = take (2 * h) (drop n px)"
  shows "\<exists>out'. rbind (store_n out (2 * n) (bytes_of_u16 (map ucast (take h v)))) (\<lambda>out.
      store_n out (2 * (n + h)) (bytes_of_u16 (map ucast (drop h v)))) = Inr out'
    \<and> length out' = length out \<and> take (2 * (n + 2 * h)) out' = bytes_of_u16 (take (n + 2 * h) px)"
proof -
  let ?a = "bytes_of_u16 (map ucast (take h v))" and ?b = "bytes_of_u16 (map ucast (drop h v))"
  have l: "length ?a = 2 * h" "length ?b = 2 * h" using assms(4) by simp_all
  have e: "rbind (store_n out (2 * n) ?a) (\<lambda>out. store_n out (2 * (n + h)) ?b) = Inr (blit (blit out (2 * n) ?a) (2 * (n + h)) ?b)"
    using assms(2) l by (simp add: store_n_ok length_blit)
  have j: "?a @ ?b = bytes_of_u16 (take (2 * h) (drop n px))"
    unfolding bytes_of_u16_append[symmetric] map_append[symmetric] append_take_drop_id assms(5) ..
  have b: "blit (blit out (2 * n) ?a) (2 * (n + h)) ?b = blit out (2 * n) (bytes_of_u16 (take (2 * h) (drop n px)))"
    unfolding j[symmetric] using blit_blit[OF l(1), of "2 * n" ?b out] assms(2) l by (simp add: distrib_left)
  have lw: "length (bytes_of_u16 (take (2 * h) (drop n px))) = 4 * h" using assms(3) by simp
  have "take (2 * (n + 2 * h)) (blit out (2 * n) (bytes_of_u16 (take (2 * h) (drop n px)))) = bytes_of_u16 (take (n + 2 * h) px)"
  proof -
    have "take (2 * n + length (bytes_of_u16 (take (2 * h) (drop n px)))) (blit out (2 * n) (bytes_of_u16 (take (2 * h) (drop n px)) @ []))
        = take (2 * n) out @ bytes_of_u16 (take (2 * h) (drop n px))"
      by (rule take_blit_append[of "replicate (2 * n) ()"]) (use assms(2) lw in simp_all)
    moreover have "take (n + 2 * h) px = take n px @ take (2 * h) (drop n px)" by (rule take_add)
    ultimately show ?thesis using lw assms(1) by (simp add: bytes_of_u16_append distrib_left)
  qed
  then show ?thesis using e b lw assms(2) by (simp add: length_blit)
qed

text \<open>The loops of both kernels: \<open>2 h\<close> pixels a step.\<close>

lemma block_loop:
  assumes "\<And>k out. k < q \<Longrightarrow> step k out = rbind (store_n out (2 * (2 * h * k)) (bytes_of_u16 (map ucast (take h (v k))))) (\<lambda>out.
      store_n out (2 * (2 * h * k + h)) (bytes_of_u16 (map ucast (drop h (v k)))))"
    and "\<And>k. k < q \<Longrightarrow> length (v k) = 2 * h \<and> map ucast (v k :: byte list) = take (2 * h) (drop (2 * h * k) px)"
    and "2 * h * q = length px" "2 * length px \<le> length out"
  shows "\<exists>out'. fold_res step [0..<q] out = Inr out' \<and> length out' = length out \<and> take (2 * length px) out' = bytes_of_u16 px"
proof -
  let ?I = "\<lambda>k o'. length o' = length out \<and> take (2 * (2 * h * k)) o' = bytes_of_u16 (take (2 * h * k) px)"
  have "\<exists>out'. fold_res step [0..<q] out = Inr out' \<and> ?I q out'"
  proof (rule fold_upt_inv[where I = ?I])
    show "?I 0 out" by (simp add: bytes_of_u16_def)
    fix k o' assume k: "k < q" and I: "?I k o'"
    have n: "2 * h * k + 2 * h = 2 * h * Suc k" by simp
    have "2 * h * Suc k \<le> 2 * h * q" using k by (intro mult_le_mono2) simp
    then have r: "2 * (2 * h * k + 2 * h) \<le> length o'" "2 * h * k + 2 * h \<le> length px"
      unfolding n using assms(3,4) I by auto
    from store_halves[OF conjunct2[OF I] r conjunct1[OF assms(2)[OF k]] conjunct2[OF assms(2)[OF k]]] I
    show "\<exists>o''. step k o' = Inr o'' \<and> ?I (Suc k) o''" unfolding assms(1)[OF k] n by auto
  qed
  then show ?thesis unfolding assms(3) by auto
qed

section \<open>The kernels write the block\<close>

lemma low_byte_drop: "n + c \<le> ne \<Longrightarrow> take c (drop n (low_pixels ne planes)) = map (\<lambda>b. ucast (low_byte ne planes (n + b))) [0..<c]"
  by (rule nth_equalityI) (auto simp: low_pixels_nth)

lemma untrans_lowplanes_ok:
  assumes "64 dvd ne" "2 * ne \<le> length raw" "\<And>x. x < ne \<Longrightarrow> raw ! x = planes ! x" "2 * ne \<le> length block"
  shows "\<exists>block'. bslz4_untrans_lowplanes_u16 block raw ne = Inr block' \<and> length block' = length block
    \<and> take (2 * ne) block' = bytes_of_u16 (low_pixels ne planes)"
proof -
  obtain q where q: "ne = 64 * q" using assms(1) by blast
  define sz where "sz = ne div 8"
  have sz: "sz = 8 * q" "8 * sz = ne" using q by (simp_all add: sz_def)
  define pl where "pl = map (\<lambda>p. drop (p * sz) raw) [0..<8]"
  have rows: "tile_rows ne planes 0 pl sz"
  proof -
    have "sz \<le> length (pl ! p) \<and> (\<forall>x < sz. pl ! p ! x = planes ! (p * (ne div 8) + 0 div 8 + x))" if "p < 8" for p
    proof -
      have "p * sz + sz \<le> 8 * sz" using that mult_le_mono1[of "p + 1" 8 sz] by simp
      then have b: "p * sz + sz \<le> ne" using sz(2) by simp
      then show ?thesis using that assms(2,3) by (auto simp: pl_def simp flip: sz_def)
    qed
    then show ?thesis by (simp add: tile_rows_def pl_def)
  qed
  define v where "v k = group_val ne planes (64 * k)" for k
  have "\<exists>out'. fold_res (vbmi_block_step raw sz) [0..<q] block = Inr out' \<and> length out' = length block
      \<and> take (2 * length (low_pixels ne planes)) out' = bytes_of_u16 (low_pixels ne planes)"
  proof (rule block_loop[where h = 32 and v = v])
    fix k out assume k: "k < q"
    have "8 * k + 8 \<le> sz" using k sz(1) by simp
    from tile_group[OF rows _ this] obtain A where
      A: "load_rows pl (8 * k) = Inr A" "group_ok A" "group_bytes A = group_val ne planes (0 + 8 * (8 * k))" by auto
    have "vbmi_transpose A = v k" using vbmi_transpose_eq[OF A(2)] A(3) by (simp add: v_def)
    then show "vbmi_block_step raw sz k out = rbind (store_n out (2 * (2 * 32 * k)) (bytes_of_u16 (map ucast (take 32 (v k))))) (\<lambda>out.
      store_n out (2 * (2 * 32 * k + 32)) (bytes_of_u16 (map ucast (drop 32 (v k)))))"
      unfolding vbmi_block_step_def A(1)[unfolded pl_def] by (simp add: Let_def)
    show "length (v k) = 2 * 32 \<and> map ucast (v k) = take (2 * 32) (drop (2 * 32 * k) (low_pixels ne planes))"
      using k q low_byte_drop[of "64 * k" 64 ne planes] by (simp add: v_def group_val_def comp_def)
  qed (use q assms(4) in simp_all)
  then show ?thesis using sz q by (simp add: bslz4_untrans_lowplanes_u16_def Let_def flip: sz_def)
qed

lemma widen_ok:
  assumes "64 dvd ne" "take ne scratch = map (low_byte ne planes) [0..<ne]" "ne \<le> length scratch" "2 * ne \<le> length block"
  shows "\<exists>block'. bslz4_widen_u8_u16_avx2 block scratch ne = Inr block' \<and> length block' = length block
    \<and> take (2 * ne) block' = bytes_of_u16 (low_pixels ne planes)"
proof -
  obtain q where q: "ne = 32 * q" using assms(1) by (auto elim!: dvdE)
  define v where "v k = map (\<lambda>b. low_byte ne planes (32 * k + b)) [0..<32]" for k
  have "\<exists>out'. fold_res (widen_step scratch) [0..<q] block = Inr out' \<and> length out' = length block
      \<and> take (2 * length (low_pixels ne planes)) out' = bytes_of_u16 (low_pixels ne planes)"
  proof (rule block_loop[where h = 16 and v = v])
    fix k out assume k: "k < q"
    have "take 32 (drop (32 * k) scratch) = v k"
    proof (rule nth_equalityI)
      show "length (take 32 (drop (32 * k) scratch)) = length (v k)" using k q assms(3) by (simp add: v_def)
      fix b assume "b < length (take 32 (drop (32 * k) scratch))"
      then have b: "b < 32" "32 * k + b < ne" using k q assms(3) by auto
      have "scratch ! (32 * k + b) = take ne scratch ! (32 * k + b)" using b(2) by simp
      then show "take 32 (drop (32 * k) scratch) ! b = v k ! b" using b assms(2,3) by (simp add: v_def)
    qed
    then show "widen_step scratch k out = rbind (store_n out (2 * (2 * 16 * k)) (bytes_of_u16 (map ucast (take 16 (v k))))) (\<lambda>out.
      store_n out (2 * (2 * 16 * k + 16)) (bytes_of_u16 (map ucast (drop 16 (v k)))))"
      using k q assms(3) by (simp add: widen_step_def load_n_ok)
    show "length (v k) = 2 * 16 \<and> map ucast (v k) = take (2 * 16) (drop (2 * 16 * k) (low_pixels ne planes))"
      using k q low_byte_drop[of "32 * k" 32 ne planes] by (simp add: v_def comp_def)
  qed (use q assms(4) in simp_all)
  then show ?thesis using q by (simp add: bslz4_widen_u8_u16_avx2_def)
qed

lemma low_block_kernel_ok:
  assumes lib: "shuffle_conforms lib" and cap: "bslz4_lowplanes_capable h val"
    and val: "b_x86_simd (h_build h)" "val = BSLZ4_UNTRANSPOSE_LOWPLANES_VBMI \<or> val = BSLZ4_UNTRANSPOSE_LOWPLANES_AVX2"
    and ne: "64 dvd ne" "2 * ne \<le> length raw" "\<And>x. x < ne \<Longrightarrow> raw ! x = planes ! x" "2 * ne \<le> length block" "ne \<le> length scratch"
    and hz: "high_zero ne planes"
  shows "\<exists>block' scratch'. low_block_kernel lib (h_build h) val block raw scratch ne = Inr (block', scratch', True)
    \<and> length block' = length block \<and> length scratch' = length scratch \<and> load_pixels 2 block' 0 ne = Inr (plane_pixels 2 ne planes)"
proof -
  have m8: "ne mod 8 = 0" using ne(1) by (auto elim!: dvdE)
  show ?thesis
  proof (cases "val = BSLZ4_UNTRANSPOSE_LOWPLANES_VBMI")
    case True
    then have b: "b_vbmi_gfni (h_build h)" using cap by (simp add: bslz4_lowplanes_capable_def bslz4_lowplanes_u16_capable_def)
    from untrans_lowplanes_ok[OF ne(1-4)] obtain block' where
      "bslz4_untrans_lowplanes_u16 block raw ne = Inr block'" "length block' = length block"
      "take (2 * ne) block' = bytes_of_u16 (low_pixels ne planes)" by blast
    then show ?thesis using True b ne(4) high_load[of ne block' planes] m8 hz by (simp add: low_block_kernel_def)
  next
    case False
    have "ne \<le> length raw" using ne(2) by simp
    from low_bytes_kcb[OF lib m8 this ne(5,3)] obtain ret sc where
      k: "low_kcb lib scratch raw ne = Inr (ret, sc)" "0 \<le> ret" "length sc = length scratch" "take ne sc = map (low_byte ne planes) [0..<ne]"
      by blast
    from widen_ok[OF ne(1) k(4) _ ne(4)] k(3) ne(5) obtain block' where
      "bslz4_widen_u8_u16_avx2 block sc ne = Inr block'" "length block' = length block"
      "take (2 * ne) block' = bytes_of_u16 (low_pixels ne planes)" by auto
    then show ?thesis using False k ne(4) high_load[of ne block' planes] m8 hz by (simp add: low_block_kernel_def)
  qed
qed

lemma planes_in_all: "\<forall>x<length planes. raw ! x = planes ! x \<Longrightarrow> length planes \<le> length raw \<Longrightarrow> planes_in planes raw (length planes)"
  by (rule planes_inI) auto

lemma lowplanes_block_ok:
  assumes lib: "shuffle_conforms lib" and cap: "bslz4_lowplanes_capable h val"
    and p: "planes_in planes raw nz" "length planes = 2 * ne" "ne mod 8 = 0"
    and room: "2 * ne \<le> length block" "ne \<le> length scratch"
  shows "\<exists>block' raw' scratch' ok. bslz4_lowplanes_block lib (h_build h) val block raw scratch ne nz = Inr (block', raw', scratch', ok)
    \<and> length block' = length block \<and> length raw' = length raw \<and> length scratch' = length scratch
    \<and> (if ok then load_pixels 2 block' 0 ne = Inr (plane_pixels 2 ne planes) else planes_in planes raw' (2 * ne))"
proof -
  define has where "has \<longleftrightarrow> b_x86_simd (h_build h) \<and> (val = BSLZ4_UNTRANSPOSE_LOWPLANES_VBMI \<or> val = BSLZ4_UNTRANSPOSE_LOWPLANES_AVX2)"
  have lr: "2 * ne \<le> length raw" using p(1,2) by (simp add: planes_in_def)
  have kern: "\<exists>block' scratch'. low_block_kernel lib (h_build h) val block r scratch ne = Inr (block', scratch', True)
    \<and> length block' = length block \<and> length scratch' = length scratch \<and> load_pixels 2 block' 0 ne = Inr (plane_pixels 2 ne planes)"
    if "has" "ne mod 64 = 0" "length r = length raw" "\<forall>x<ne. r ! x = planes ! x" "high_zero ne planes" for r
    by (rule low_block_kernel_ok[OF lib cap]) (use that room lr in \<open>auto simp: has_def\<close>)
  show ?thesis
  proof (cases "nz \<le> ne")
    case True
    then have hz: "high_zero ne planes" using high_zero_nz[OF p(1,2)] by simp
    have "nz + (ne - nz) \<le> length raw" using True lr by simp
    from planes_in_fill[OF p(1) this] True p(2) obtain r where
      r: "memset0 raw nz (ne - nz) = Inr r" "length r = length raw" "planes_in planes r nz" "\<forall>x<ne. r ! x = planes ! x" by auto
    show ?thesis
    proof (cases "ne mod 64 = 0 \<and> has")
      case True
      then have a: has "ne mod 64 = 0" by auto
      from kern[OF a r(2,4) hz] obtain block' scratch' where
        "low_block_kernel lib (h_build h) val block r scratch ne = Inr (block', scratch', True)"
        "length block' = length block" "length scratch' = length scratch" "load_pixels 2 block' 0 ne = Inr (plane_pixels 2 ne planes)" by blast
      then show ?thesis using \<open>nz \<le> ne\<close> True r unfolding bslz4_lowplanes_block_def Let_def has_def[symmetric]
        by (intro exI[of _ block'] exI[of _ r] exI[of _ scratch'] exI[of _ True]) simp
    next
      case False
      let ?r = "blit r ne (replicate ne 0)"
      have "\<forall>x<length planes. ?r ! x = planes ! x"
        using r(2,4) lr hz p(2) by (auto simp: nth_blit high_zero_def)
      then have "planes_in planes ?r (2 * ne)" using planes_in_all[of planes ?r] p(2) r(2) lr by (simp add: length_blit)
      then show ?thesis using \<open>nz \<le> ne\<close> False r lr unfolding bslz4_lowplanes_block_def Let_def has_def[symmetric]
        by (auto simp: memset0_ok length_blit)
    qed
  next
    case False
    from high_fill[OF p(1,2)] obtain r where
      r: "(if nz < 2 * ne then memset0 raw nz (2 * ne - nz) else Inr raw) = Inr r" "length r = length raw" "\<forall>x<2 * ne. r ! x = planes ! x"
      by blast
    have pr: "planes_in planes r (2 * ne)" using planes_in_all[of planes r] r p(2) lr by simp
    show ?thesis
    proof (cases "ne mod 64 = 0 \<and> has")
      case True
      have d: "64 dvd ne" "8 dvd ne" using True p(3) by auto
      have z: "(\<forall>x. 0 \<le> x \<and> x < ne \<longrightarrow> drop ne r ! x = 0) = high_zero ne planes"
      proof
        assume a: "\<forall>x. 0 \<le> x \<and> x < ne \<longrightarrow> drop ne r ! x = 0"
        have "planes ! x = 0" if x: "ne \<le> x" "x < 2 * ne" for x
        proof -
          have "drop ne r ! (x - ne) = 0" using a x by simp
          then show ?thesis using x r(2,3) lr by simp
        qed
        then show "high_zero ne planes" by (simp add: high_zero_def)
      next
        assume "high_zero ne planes"
        then show "\<forall>x. 0 \<le> x \<and> x < ne \<longrightarrow> drop ne r ! x = 0" using r(2,3) lr by (auto simp: high_zero_def)
      qed
      have dv: "(64 :: nat) dvd 512" "(8 :: nat) dvd 512" by simp_all
      have az: "(if val = BSLZ4_UNTRANSPOSE_LOWPLANES_VBMI then bslz4_all_zero_avx512 (drop ne r) ne else bslz4_all_zero_c (drop ne r) ne)
          = Inr (high_zero ne planes)"
        using all_zero_from_ok[OF d(1) _ dv(1), of 0 "drop ne r"] all_zero_from_ok[OF d(2) _ dv(2), of 0 "drop ne r"] r(2) lr
        unfolding bslz4_all_zero_avx512_def bslz4_all_zero_c_def z by simp
      show ?thesis
      proof (cases "high_zero ne planes")
        case hz: True
        have "\<forall>x<ne. r ! x = planes ! x" using r(3) by simp
        have a: has "ne mod 64 = 0" using True by auto
        from kern[OF a r(2) \<open>\<forall>x<ne. r ! x = planes ! x\<close> hz] obtain block' scratch' where
          "low_block_kernel lib (h_build h) val block r scratch ne = Inr (block', scratch', True)"
          "length block' = length block" "length scratch' = length scratch" "load_pixels 2 block' 0 ne = Inr (plane_pixels 2 ne planes)" by blast
        then show ?thesis using False True r(1,2) az hz unfolding bslz4_lowplanes_block_def Let_def has_def[symmetric]
          by (intro exI[of _ block'] exI[of _ r] exI[of _ scratch'] exI[of _ True]) simp
      next
        case hz: False
        then show ?thesis using False True r(1,2) az pr unfolding bslz4_lowplanes_block_def Let_def has_def[symmetric]
          by (intro exI[of _ block] exI[of _ r] exI[of _ scratch] exI[of _ False]) simp
      qed
    next
      case 2: False
      then show ?thesis using False r(1,2) pr unfolding bslz4_lowplanes_block_def Let_def has_def[symmetric] by auto
    qed
  qed
qed

section \<open>The contract of the low-planes steps\<close>

text \<open>
  C17: a low-planes untranspose of a value this build and CPU can run either lists exactly the unmasked pixels of the block above
  the cut, in order, and only when every pixel is below 256, or returns -1 with the planes as the decode
  left them. It never leaves the planes, the scratch, the mask or the output, for every block of whole groups
  of 8 pixels (64 for VSX), every cut and every amount of unwritten zero tail.
\<close>

theorem lowplanes_list_contract:
  assumes "shuffle_conforms lib" "bslz4_lowplanes_capable h val"
    and "planes_in planes raw nz" "length planes = 2 * ne" "0 < ne" "ne mod 8 = 0"
    and "val = BSLZ4_UNTRANSPOSE_LOWPLANES_VSX \<Longrightarrow> ne mod 64 = 0"
    and "readable (low_pixels ne planes) msk i0 ne" "ne \<le> length vals" "ne \<le> length adr" "ne \<le> length scratch"
  shows "\<exists>raw' scratch' o'. bslz4_lowplanes_list lib (h_build h) val raw ne nz n blocksize scratch msk i0 cut_u vals adr
        = Inr (raw', scratch', o')
    \<and> (case o' of None \<Rightarrow> planes_in planes raw' nz
       | Some s \<Rightarrow> map ucast (low_pixels ne planes) = plane_pixels 2 ne planes
           \<and> listed s = picked (\<lambda>v. unat v > cut_u) (low_pixels ne planes) msk i0 [0..<ne])"
proof -
  have a: "(\<lambda>v. unat v > cut_u) = above cut_u" by (rule ext) (simp add: above_def)
  obtain raw' scratch' o' where r: "bslz4_lowplanes_list lib (h_build h) val raw ne nz n blocksize scratch msk i0 cut_u vals adr
        = Inr (raw', scratch', o')"
    and o: "case o' of None \<Rightarrow> planes_in planes raw' nz | Some s \<Rightarrow> high_zero ne planes
        \<and> emits ne \<lparr>npx = 0, out_vals = vals, out_adr = adr\<rparr> (picked (above cut_u) (low_pixels ne planes) msk i0 [0..<ne]) (Inr s)"
    using lowplanes_list_ok[OF assms, where n = n and blocksize = blocksize and cut_u = cut_u, unfolded low_list_ok_def] by blast
  show ?thesis unfolding a
  proof (intro exI conjI)
    show "case o' of None \<Rightarrow> planes_in planes raw' nz
       | Some s \<Rightarrow> map ucast (low_pixels ne planes) = plane_pixels 2 ne planes
           \<and> listed s = picked (above cut_u) (low_pixels ne planes) msk i0 [0..<ne]"
      using o low_pixels_eq[OF assms(6), of planes] by (cases o') (auto dest!: emits_listed simp del: emits_Inr)
  qed (rule r)
qed

theorem lowplanes_list_contract_witness:
  "\<exists>raw' scratch' o'. bslz4_lowplanes_list ref_shuffle (h_build sample_host) BSLZ4_UNTRANSPOSE_LOWPLANES_C
        ([3, 5] @ replicate 14 0) 8 2 1 16 (replicate 8 0) None 100 1 (replicate 8 0) (replicate 8 0)
        = Inr (raw', scratch', o')
    \<and> (case o' of None \<Rightarrow> planes_in ([3, 5] @ replicate 14 0) raw' 2
       | Some s \<Rightarrow> map ucast (low_pixels 8 ([3, 5] @ replicate 14 0)) = plane_pixels 2 8 ([3, 5] @ replicate 14 0)
           \<and> listed s = [(3, 100), (2, 102)])"
proof -
  have e: "picked (\<lambda>v. unat v > 1) (low_pixels 8 ([3, 5] @ replicate 14 0)) None 100 [0..<8] = [(3, 100), (2, 102)]"
    by code_simp
  have p: "planes_in ([3, 5] @ replicate 14 0) ([3, 5] @ replicate 14 0) 2" by (simp add: planes_in_def)
  show ?thesis
    using lowplanes_list_contract[OF ref_shuffle_conforms _ p, of sample_host BSLZ4_UNTRANSPOSE_LOWPLANES_C 8 None 100
        "replicate 8 0" "replicate 8 0" "replicate 8 0" 1 16 1] unfolding e
    by (simp add: bslz4_lowplanes_capable_def step_values readable_def)
qed


end
