(* ===== verification/Steps.thy ===== *)
theory Steps
  imports Masking Decode Untranspose LowBlock
begin

text \<open>
  The promises of the front steps of a block, as the driver uses them: the chunk header, the decode
  step, the plane mask and the untranspose step.
\<close>

text \<open>
  C22: the header readers give back what a writer stored: a frame's size and its block size, most significant byte first,
  wherever the header lies in the chunk.
\<close>

theorem header_roundtrip:
  "bslz4_read_be64 (pre @ be64 tot @ be32 bsz @ post) (length pre) = Inr tot
   \<and> bslz4_read_be32 (pre @ be64 tot @ be32 bsz @ post) (length pre + 8) = Inr bsz"
proof
  show "bslz4_read_be64 (pre @ be64 tot @ be32 bsz @ post) (length pre) = Inr tot"
    by (rule read_be64_be64) simp_all
  show "bslz4_read_be32 (pre @ be64 tot @ be32 bsz @ post) (length pre + 8) = Inr bsz"
    by (rule read_be32_be32) simp_all
qed

text \<open>
  C20: every decode value of the step (zero-aware lz4, banded lz4, stock lz4, zstd) turns a block that its
  codec decodes into the same planes, up to a zero tail past the reported end, inside the buffer of the
  block and its slack; on any other input it stays inside that buffer too.
\<close>

theorem decode_block_planes:
  assumes "lz4_conforms lib" "zstd_fills lib" "length raw = 2 * bs"
  shows "\<exists>ret raw' nz. bslz4_decode_block lib sse2 dec src raw bs = Inr (ret, raw', nz) \<and> length raw' = length raw
    \<and> (codec_planes lib dec src bs = None
       \<or> (\<exists>planes. codec_planes lib dec src bs = Some planes \<and> ret = int bs \<and> planes_in planes raw' nz))"
proof (cases "codec_planes lib dec src bs")
  case None
  then show ?thesis using decode_block_total[OF assms] by blast
next
  case (Some planes)
  then show ?thesis using decode_block_ok[OF assms(1,2) Some assms(3)] by blast
qed

text \<open>A block of 5 bytes: one token, then five literals.\<close>

definition sample_block :: "byte list" where
  "sample_block = [0x50, 1, 2, 3, 0, 0]"

theorem decode_block_planes_witness:
  "\<exists>ret raw' nz. bslz4_decode_block ref_codec True BSLZ4_DECODE_LZ4_BAND sample_block (replicate 10 9) 5 = Inr (ret, raw', nz)
    \<and> length raw' = 10 \<and> ret = 5 \<and> planes_in [1, 2, 3, 0, 0] raw' nz"
proof -
  have "lz4_block sample_block 5 = Inr [1, 2, 3, 0, 0]" by code_simp
  then have "codec_planes ref_codec BSLZ4_DECODE_LZ4_BAND sample_block 5 = Some [1, 2, 3, 0, 0]"
    by (simp add: codec_planes_def step_values)
  then show ?thesis
    using decode_block_planes[OF ref_codec_conforms, of "replicate 10 9" 5 True BSLZ4_DECODE_LZ4_BAND sample_block] by auto
qed

text \<open>
  C19: masking the planes is masking the pixels. The packed mask ANDed into the decoded planes (on any build and CPU) gives
  planes whose pixels are those of the block with every masked one zero; that the whole block is kept is reported exactly then.
\<close>

theorem mask_planes_pixels:
  assumes "planes_in planes raw nz" "length planes = NB * ne" "NB \<le> 8" "0 < ne" "ne mod 64 = 0" "ne \<le> length m"
    and "ne div 64 \<le> length bits"
  shows "\<exists>bits' raw' planes'. bslz4_pack_mask h bits m ne = Inr (bits', \<forall>e<ne. m ! e \<noteq> 0)
    \<and> bslz4_mask_planes h raw bits' (ne div 8) nz = Inr raw' \<and> length raw' = length raw \<and> planes_in planes' raw' nz
    \<and> plane_pixels NB ne planes' = map (\<lambda>e. if m ! e = 0 then 0 else plane_pixels NB ne planes ! e) [0..<ne]"
proof -
  obtain bits' where b: "bslz4_pack_mask h bits m ne = Inr (bits', \<forall>e<ne. m ! e \<noteq> 0)" "length bits' = length bits"
    and k: "\<forall>e<ne. bit (bits' ! (e div 64)) (e mod 64) \<longleftrightarrow> m ! e \<noteq> 0"
    using pack_mask_ok[OF assms(5-7), of h] by blast
  obtain q where q: "ne = 64 * q" using assms(5) by auto
  then have n: "0 < ne div 8" "ne mod 8 = 0" "ne div 8 \<le> 8 * length bits'" "8 * (ne div 8) = ne"
    using assms(4,7) b(2) by auto
  have nz: "nz \<le> length raw" using assms(1) by (simp add: planes_in_def)
  from mask_planes_ok[OF n(1) nz n(3), of h] obtain raw' where
    r: "bslz4_mask_planes h raw bits' (ne div 8) nz = Inr raw'" "masked_upto raw bits' (ne div 8) nz raw'" by blast
  have l: "length planes = 8 * NB * (ne div 8)" using assms(2) n(4) by (simp add: mult.assoc mult.left_commute)
  from masked_planes[OF assms(1) r(2) n(1,2) l assms(3)] obtain planes' where p: "planes_in planes' raw' nz"
    "plane_pixels NB ne planes' = map (\<lambda>e. if keep_bit bits' e then plane_pixels NB ne planes ! e else 0) [0..<ne]" by blast
  have e: "map (\<lambda>e. if keep_bit bits' e then plane_pixels NB ne planes ! e else 0) [0..<ne]
      = map (\<lambda>e. if m ! e = 0 then 0 else plane_pixels NB ne planes ! e) [0..<ne]"
    using k by (simp add: keep_bit_def)
  have lr: "length raw' = length raw" using r(2) by (simp add: masked_upto_def)
  show ?thesis by (intro exI conjI) (rule b(1) r(1) lr p(1) p(2)[unfolded e])+
qed

text \<open>One block of 64 one-byte pixels; pixel 0 has the value 3 and is masked.\<close>

theorem mask_planes_pixels_witness:
  "\<exists>bits' raw' planes'. bslz4_pack_mask sample_host [0] (0 # replicate 63 1) 64 = Inr (bits', False)
    \<and> bslz4_mask_planes sample_host (replicate 16 3 @ replicate 48 0) bits' 8 16 = Inr raw' \<and> length raw' = 64
    \<and> planes_in planes' raw' 16 \<and> plane_pixels 1 64 planes' ! 0 = 0"
proof -
  have p: "planes_in (replicate 16 3 @ replicate 48 0) (replicate 16 3 @ replicate 48 0) 16" by (simp add: planes_in_def)
  have f: "(\<forall>e<64. (0 # replicate 63 1 :: byte list) ! e \<noteq> 0) = False" by (auto intro!: exI[of _ 0])
  obtain bits' raw' planes' where r: "bslz4_pack_mask sample_host [0] (0 # replicate 63 1) 64 = Inr (bits', False)"
    "bslz4_mask_planes sample_host (replicate 16 3 @ replicate 48 0) bits' (64 div 8) 16 = Inr raw'" "length raw' = 64"
    "planes_in planes' raw' 16"
    "plane_pixels 1 64 planes' = map (\<lambda>e. if (0 # replicate 63 1 :: byte list) ! e = 0 then 0
        else plane_pixels 1 64 (replicate 16 3 @ replicate 48 0) ! e) [0..<64]"
    using mask_planes_pixels[OF p, of 1 64 "0 # replicate 63 1" "[0]" sample_host, unfolded f] by auto
  have "plane_pixels 1 64 planes' ! 0 = 0" unfolding r(5) by (subst nth_map) simp_all
  with r(1-4) show ?thesis by auto
qed



end
