(* ===== verification/Registry.thy ===== *)
theory Registry
  imports LowBlock
begin

text \<open>
  \<open>src/pipeline/registry.c\<close>: what each step value needs, the check of a pipeline before a call, and the
  per-block counters. The CPU checks are those of \<open>src/steps/collect.hpp\<close>, \<open>dot_padded.hpp\<close> and \<open>kernels.cpp\<close>.
\<close>

section \<open>CPU checks\<close>

definition bslz4_avx512_collect_capable :: "host \<Rightarrow> bool" where
  "bslz4_avx512_collect_capable h \<longleftrightarrow> b_x86_simd (h_build h)
     \<and> c2py_amd64_avx512f (h_cpu h) \<and> c2py_amd64_avx512bw (h_cpu h) \<and> c2py_amd64_avx512vl (h_cpu h)"

definition bslz4_avx512cs_collect_capable :: "host \<Rightarrow> bool" where
  "bslz4_avx512cs_collect_capable h \<longleftrightarrow> b_x86_simd (h_build h) \<and> b_vbmi_gfni (h_build h)
     \<and> bslz4_avx512_collect_capable h \<and> c2py_amd64_avx512vbmi2 (h_cpu h) \<and> c2py_amd64_popcnt (h_cpu h)"

definition bslz4_avx2cs_collect_capable :: "host \<Rightarrow> bool" where
  "bslz4_avx2cs_collect_capable h \<longleftrightarrow> b_x86_simd (h_build h) \<and> c2py_amd64_avx2 (h_cpu h) \<and> c2py_amd64_popcnt (h_cpu h)"

definition bslz4_sse2_collect_capable :: "host \<Rightarrow> bool" where
  "bslz4_sse2_collect_capable h \<longleftrightarrow> b_x86_simd (h_build h)"

definition bslz4_vsx_collect_capable :: "host \<Rightarrow> bool" where
  "bslz4_vsx_collect_capable h \<longleftrightarrow> b_vsx (h_build h) \<and> c2py_ppc64_vsx (h_cpu h)"

definition bslz4_neon_collect_capable :: "host \<Rightarrow> bool" where
  "bslz4_neon_collect_capable h \<longleftrightarrow> b_neon (h_build h) \<and> c2py_arm64_asimd (h_cpu h)"

definition bslz4_padded_avx2_capable :: "host \<Rightarrow> bool" where
  "bslz4_padded_avx2_capable h \<longleftrightarrow> b_x86_simd (h_build h) \<and> c2py_amd64_avx2 (h_cpu h) \<and> c2py_amd64_fma (h_cpu h)"

section \<open>The dots\<close>

definition BSLZ4_ALL_DTYPES :: "32 word" where "BSLZ4_ALL_DTYPES = 0x3FF"
definition BSLZ4_INT_DTYPES :: "32 word" where "BSLZ4_INT_DTYPES = 0x0FF"
definition BSLZ4_INT32_DTYPES :: "32 word" where "BSLZ4_INT32_DTYPES = 0x077"
definition BSLZ4_U16_U32 :: "32 word" where "BSLZ4_U16_U32 = push_bit 1 1 OR push_bit 2 1"
definition BSLZ4_U16 :: "32 word" where "BSLZ4_U16 = push_bit 1 1"

lemmas dtype_masks = BSLZ4_ALL_DTYPES_def BSLZ4_INT_DTYPES_def BSLZ4_INT32_DTYPES_def BSLZ4_U16_U32_def BSLZ4_U16_def

record bslz4_dot_desc =
  dd_layout :: int
  dd_dtypes :: "32 word"
  dd_out_size :: nat
  dd_available :: "host \<Rightarrow> bool"

definition bslz4_always :: "host \<Rightarrow> bool" where
  "bslz4_always h \<longleftrightarrow> True"

definition bslz4_dots :: "bslz4_dot_desc list" where
  "bslz4_dots =
    [\<lparr>dd_layout = -1, dd_dtypes = 0, dd_out_size = 0, dd_available = \<lambda>_. False\<rparr>,
     \<lparr>dd_layout = BSLZ4_LAYOUT_CSC, dd_dtypes = BSLZ4_ALL_DTYPES, dd_out_size = 8, dd_available = bslz4_always\<rparr>,
     \<lparr>dd_layout = BSLZ4_LAYOUT_PADDED, dd_dtypes = BSLZ4_ALL_DTYPES, dd_out_size = 8, dd_available = bslz4_always\<rparr>,
     \<lparr>dd_layout = BSLZ4_LAYOUT_PADDED, dd_dtypes = BSLZ4_ALL_DTYPES, dd_out_size = 8, dd_available = bslz4_padded_avx2_capable\<rparr>,
     \<lparr>dd_layout = BSLZ4_LAYOUT_CSC, dd_dtypes = BSLZ4_ALL_DTYPES, dd_out_size = 8, dd_available = bslz4_always\<rparr>,
     \<lparr>dd_layout = BSLZ4_LAYOUT_CSC, dd_dtypes = BSLZ4_ALL_DTYPES, dd_out_size = 8, dd_available = bslz4_always\<rparr>,
     \<lparr>dd_layout = BSLZ4_LAYOUT_BSBCSR, dd_dtypes = BSLZ4_ALL_DTYPES, dd_out_size = 8, dd_available = bslz4_always\<rparr>,
     \<lparr>dd_layout = BSLZ4_LAYOUT_BSBCSR, dd_dtypes = BSLZ4_ALL_DTYPES, dd_out_size = 8, dd_available = bslz4_always\<rparr>,
     \<lparr>dd_layout = BSLZ4_LAYOUT_CSC, dd_dtypes = BSLZ4_ALL_DTYPES, dd_out_size = 0, dd_available = bslz4_always\<rparr>,
     \<lparr>dd_layout = BSLZ4_LAYOUT_CSC, dd_dtypes = BSLZ4_INT_DTYPES, dd_out_size = 8, dd_available = bslz4_always\<rparr>,
     \<lparr>dd_layout = BSLZ4_LAYOUT_CSC, dd_dtypes = BSLZ4_INT_DTYPES, dd_out_size = 8, dd_available = bslz4_always\<rparr>,
     \<lparr>dd_layout = BSLZ4_LAYOUT_CSC, dd_dtypes = BSLZ4_INT_DTYPES, dd_out_size = 8, dd_available = bslz4_always\<rparr>,
     \<lparr>dd_layout = BSLZ4_LAYOUT_CSC, dd_dtypes = BSLZ4_INT32_DTYPES, dd_out_size = 8, dd_available = bslz4_always\<rparr>]"

definition bslz4_dot_layout :: "int \<Rightarrow> int" where
  "bslz4_dot_layout dot = (if dot \<le> 0 \<or> dot \<ge> BSLZ4_DOT_N then -1 else dd_layout (bslz4_dots ! nat dot))"

definition bslz4_dot_out_size :: "int \<Rightarrow> nat" where
  "bslz4_dot_out_size dot = (if dot \<le> 0 \<or> dot \<ge> BSLZ4_DOT_N then 0 else dd_out_size (bslz4_dots ! nat dot))"

section \<open>Availability and the check of a pipeline\<close>

text \<open>1 available, 0 known but not here, -1 unknown.\<close>

definition bslz4_step_available :: "host \<Rightarrow> int \<Rightarrow> int \<Rightarrow> int" where
  "bslz4_step_available h step v =
     (let b = (\<lambda>x. if x then 1 else 0 :: int) in
      if step = BSLZ4_STEP_DECODE then (if v > 0 \<and> v < BSLZ4_DECODE_N then 1 else -1)
      else if step = BSLZ4_STEP_MASK then (if v > 0 \<and> v < BSLZ4_MASK_N then 1 else -1)
      else if step = BSLZ4_STEP_UNTRANSPOSE then
        (if v \<in> {BSLZ4_UNTRANSPOSE_LOWPLANES_VBMI, BSLZ4_UNTRANSPOSE_LOWPLANES_AVX2, BSLZ4_UNTRANSPOSE_LOWPLANES_VSX,
                 BSLZ4_UNTRANSPOSE_LOWPLANES_C} then b (bslz4_lowplanes_capable h v)
         else if v = BSLZ4_UNTRANSPOSE_KCB then 1
         else if v = BSLZ4_UNTRANSPOSE_NEON then b (b_neon (h_build h))
         else if v = BSLZ4_UNTRANSPOSE_SCALAR then 1
         else -1)
      else if step = BSLZ4_STEP_COLLECT then
        (if v = BSLZ4_COLLECT_AVX512CS then b (bslz4_avx512cs_collect_capable h)
         else if v = BSLZ4_COLLECT_AVX2CS then b (bslz4_avx2cs_collect_capable h)
         else if v = BSLZ4_COLLECT_VSX then b (bslz4_vsx_collect_capable h)
         else if v = BSLZ4_COLLECT_NEON then b (bslz4_neon_collect_capable h)
         else if v = BSLZ4_COLLECT_SSE2 then b (bslz4_sse2_collect_capable h)
         else if v = BSLZ4_COLLECT_SCALAR then 1
         else -1)
      else if step = BSLZ4_STEP_ROUTE then (if v > 0 \<and> v < BSLZ4_ROUTE_N then 1 else -1)
      else if step = BSLZ4_STEP_DOT then
        (if v \<le> 0 \<or> v \<ge> BSLZ4_DOT_N then -1 else b (dd_available (bslz4_dots ! nat v) h))
      else -1)"

definition bslz4_elem_size :: "int \<Rightarrow> nat" where
  "bslz4_elem_size dtype = [1, 2, 4, 8, 1, 2, 4, 8, 4, 8] ! nat dtype"

text \<open>The loop of \<open>bslz4_resolve\<close> over the steps; \<open>p_step\<close> starts with whatever \<open>*p\<close> held.\<close>

definition resolve_step :: "host \<Rightarrow> 16 word list \<Rightarrow> bool \<Rightarrow> nat \<Rightarrow> int list \<Rightarrow> int list res" where
  "resolve_step h pl is_dot s st =
     rbind (load pl s) (\<lambda>w. let v = uint w in
       if \<not> is_dot \<and> (int s = BSLZ4_STEP_ROUTE \<or> int s = BSLZ4_STEP_DOT)
       then if v \<noteq> 0 then Inl (Code BSLZ4_ERR_BAD_PIPELINE) else Inr st
       else let a = bslz4_step_available h (int s) v in
         if a < 0 then Inl (Code BSLZ4_ERR_BAD_PIPELINE)
         else if a = 0 then Inl (Code BSLZ4_ERR_UNAVAILABLE)
         else store st s v)"

definition bslz4_resolve :: "host \<Rightarrow> int \<Rightarrow> 16 word list \<Rightarrow> int \<Rightarrow> bslz4_pipe \<Rightarrow> bslz4_pipe res" where
  "bslz4_resolve h dtype pl layout p =
     (if dtype < 0 \<or> dtype > 9 then Inl (Code BSLZ4_ERR_DTYPE)
      else let is_dot = layout \<ge> 0 in
        rbind (fold_res (resolve_step h pl is_dot) [0..<nat BSLZ4_NSTEPS] (p_step p)) (\<lambda>st.
        rbind (if is_dot then Inr st
               else rbind (store st (nat BSLZ4_STEP_DOT) 0) (\<lambda>st. store st (nat BSLZ4_STEP_ROUTE) 0)) (\<lambda>st.
        rbind (load st (nat BSLZ4_STEP_UNTRANSPOSE)) (\<lambda>u. rbind (load st (nat BSLZ4_STEP_COLLECT)) (\<lambda>c.
        rbind (load st (nat BSLZ4_STEP_DOT)) (\<lambda>d.
        let bitd = push_bit (nat dtype) 1 :: 32 word in
          if u \<le> BSLZ4_UNTRANSPOSE_LOWPLANES_C \<and> bitd AND BSLZ4_U16 = 0 then Inl (Code BSLZ4_ERR_DTYPE)
          else if c \<noteq> BSLZ4_COLLECT_SCALAR \<and> bitd AND BSLZ4_U16_U32 = 0 then Inl (Code BSLZ4_ERR_DTYPE)
          else if is_dot \<and> dd_layout (bslz4_dots ! nat d) \<noteq> layout then Inl (Code BSLZ4_ERR_BAD_LAYOUT)
          else if is_dot \<and> bitd AND dd_dtypes (bslz4_dots ! nat d) = 0 then Inl (Code BSLZ4_ERR_DTYPE)
          else Inr \<lparr>p_step = st, p_dtype = dtype, p_elem_size = bslz4_elem_size dtype\<rparr>))))))"

section \<open>The counters\<close>

record counters =
  bslz4_counters :: "64 word list list"
  bslz4_counters_on :: bool

definition bslz4_reset_counters :: "counters \<Rightarrow> counters" where
  "bslz4_reset_counters c = \<lparr>bslz4_counters = replicate (nat BSLZ4_NSTEPS) (replicate BSLZ4_VALUE_SLOTS 0), bslz4_counters_on = True\<rparr>"

definition bslz4_set_counters :: "int \<Rightarrow> counters \<Rightarrow> counters" where
  "bslz4_set_counters on c = c\<lparr>bslz4_counters_on := on \<noteq> 0\<rparr>"

definition bslz4_counters_bump :: "int \<Rightarrow> int \<Rightarrow> counters \<Rightarrow> counters res" where
  "bslz4_counters_bump step v c =
     (if bslz4_counters_on c then
        rbind (load (bslz4_counters c) (nat step)) (\<lambda>row.
        rbind (load row (nat v)) (\<lambda>x.
        rbind (store row (nat v) (x + 1)) (\<lambda>row.
        rbind (store (bslz4_counters c) (nat step) row) (\<lambda>cs. Inr (c\<lparr>bslz4_counters := cs\<rparr>)))))
      else Inr c)"

text \<open>The buffer and the number of entries written, for a buffer of \<open>n\<close> entries.\<close>

definition bslz4_read_counters :: "counters \<Rightarrow> 64 word list \<Rightarrow> nat \<Rightarrow> (64 word list \<times> nat) res" where
  "bslz4_read_counters c out n =
     fold_res (\<lambda>s (out, k).
       fold_res (\<lambda>i (out, k).
         if k < n then
           rbind (load (bslz4_counters c) s) (\<lambda>row. rbind (load row i) (\<lambda>x.
           rbind (store out k x) (\<lambda>out. Inr (out, k + 1))))
         else Inr (out, k)) [0..<BSLZ4_VALUE_SLOTS] (out, k)) [0..<nat BSLZ4_NSTEPS] (out, 0)"

section \<open>What a resolved pipeline promises\<close>

lemma if_in: "x \<in> A \<Longrightarrow> y \<in> A \<Longrightarrow> (if b then x else y) \<in> A"
  by simp

lemma step_available_range: "bslz4_step_available h s v \<in> {-1, 0, 1}"
  unfolding bslz4_step_available_def Let_def by (intro if_in) simp_all

lemma step_available_pos: "\<not> bslz4_step_available h s v < 0 \<Longrightarrow> bslz4_step_available h s v \<noteq> 0 \<Longrightarrow> bslz4_step_available h s v = 1"
  using step_available_range[of h s v] by auto

definition plain_skips :: "bool \<Rightarrow> nat \<Rightarrow> bool" where
  "plain_skips is_dot s \<longleftrightarrow> \<not> is_dot \<and> (int s = BSLZ4_STEP_ROUTE \<or> int s = BSLZ4_STEP_DOT)"

lemma resolve_step_cases:
  assumes "s < length pl" "s < length st"
  shows "resolve_step h pl is_dot s st =
    (if plain_skips is_dot s then if uint (pl ! s) \<noteq> 0 then Inl (Code BSLZ4_ERR_BAD_PIPELINE) else Inr st
     else if bslz4_step_available h (int s) (uint (pl ! s)) = 1 then Inr (st[s := uint (pl ! s)])
     else Inl (Code (if bslz4_step_available h (int s) (uint (pl ! s)) = 0 then BSLZ4_ERR_UNAVAILABLE else BSLZ4_ERR_BAD_PIPELINE)))"
proof -
  define a where "a = bslz4_step_available h (int s) (uint (pl ! s))"
  consider "a = -1" | "a = 0" | "a = 1" using step_available_range[of h "int s" "uint (pl ! s)"] by (auto simp: a_def)
  then show ?thesis using assms
    by cases (simp_all add: resolve_step_def plain_skips_def load_ok store_ok Let_def flip: a_def)
qed

lemma resolve_fold:
  assumes "length pl = 6" "distinct xs" "\<forall>s\<in>set xs. s < 6"
  shows "length st = 6 \<Longrightarrow>
    (case fold_res (resolve_step h pl is_dot) xs st of
       Inl e \<Rightarrow> e \<in> {Code BSLZ4_ERR_BAD_PIPELINE, Code BSLZ4_ERR_UNAVAILABLE}
     | Inr st' \<Rightarrow> length st' = 6 \<and> (\<forall>s. s \<notin> set xs \<longrightarrow> st' ! s = st ! s)
         \<and> (\<forall>s\<in>set xs. if plain_skips is_dot s then uint (pl ! s) = 0
              else st' ! s = uint (pl ! s) \<and> bslz4_step_available h (int s) (uint (pl ! s)) = 1))"
  using assms(2,3)
proof (induction xs arbitrary: st)
  case (Cons s xs)
  have s: "s < length pl" "s < length st" using Cons.prems assms(1) by auto
  show ?case
  proof (cases "plain_skips is_dot s")
    case True
    then show ?thesis using resolve_step_cases[OF s, of h is_dot] Cons.IH[of st] Cons.prems
      by (cases "fold_res (resolve_step h pl is_dot) xs st") auto
  next
    case False
    show ?thesis
    proof (cases "bslz4_step_available h (int s) (uint (pl ! s)) = 1")
      case True
      have "resolve_step h pl is_dot s st = Inr (st[s := uint (pl ! s)])"
        using resolve_step_cases[OF s, of h is_dot] False True by simp
      then show ?thesis using Cons.IH[of "st[s := uint (pl ! s)]"] Cons.prems False True s(2)
        by (cases "fold_res (resolve_step h pl is_dot) xs (st[s := uint (pl ! s)])") (auto simp: nth_list_update)
    next
      case no: False
      then show ?thesis using resolve_step_cases[OF s, of h is_dot] False by simp
    qed
  qed
qed simp

definition dtype_bit :: "int \<Rightarrow> 32 word" where
  "dtype_bit dtype = push_bit (nat dtype) 1"

text \<open>What the driver relies on in a pipeline for \<open>dtype\<close> and \<open>layout\<close>.\<close>

definition pipe_ok :: "host \<Rightarrow> int \<Rightarrow> 16 word list \<Rightarrow> int \<Rightarrow> bslz4_pipe \<Rightarrow> bool" where
  "pipe_ok h dtype pl layout p \<longleftrightarrow> 0 \<le> dtype \<and> dtype \<le> 9 \<and> p_dtype p = dtype \<and> p_elem_size p = bslz4_elem_size dtype
     \<and> length (p_step p) = 6
     \<and> (\<forall>s<6. if plain_skips (layout \<ge> 0) s then p_step p ! s = 0 \<and> uint (pl ! s) = 0
          else p_step p ! s = uint (pl ! s) \<and> bslz4_step_available h (int s) (p_step p ! s) = 1)
     \<and> (p_step p ! 2 \<le> BSLZ4_UNTRANSPOSE_LOWPLANES_C \<longrightarrow> dtype = 1)
     \<and> (p_step p ! 3 \<noteq> BSLZ4_COLLECT_SCALAR \<longrightarrow> dtype = 1 \<or> dtype = 2)
     \<and> (layout \<ge> 0 \<longrightarrow> bslz4_dot_layout (p_step p ! 5) = layout
          \<and> dtype_bit dtype AND dd_dtypes (bslz4_dots ! nat (p_step p ! 5)) \<noteq> 0)"

lemma dtype_bits:
  assumes "0 \<le> dtype" "dtype \<le> 9"
  shows "push_bit (nat dtype) 1 AND BSLZ4_U16 \<noteq> 0 \<longleftrightarrow> dtype = 1"
    and "push_bit (nat dtype) 1 AND BSLZ4_U16_U32 \<noteq> 0 \<longleftrightarrow> dtype = 1 \<or> dtype = 2"
proof -
  have "nat dtype \<in> set [0..<10]" using assms by auto
  then have "dtype \<in> {0, 1, 2, 3, 4, 5, 6, 7, 8, 9}" using assms(1) by (auto simp: upt_rec nat_eq_iff)
  then show "push_bit (nat dtype) 1 AND BSLZ4_U16 \<noteq> 0 \<longleftrightarrow> dtype = 1"
    "push_bit (nat dtype) 1 AND BSLZ4_U16_U32 \<noteq> 0 \<longleftrightarrow> dtype = 1 \<or> dtype = 2"
    by (auto simp: dtype_masks push_bit_eq_mult)
qed

lemma steps_upt: "[0..<nat BSLZ4_NSTEPS] = [0, 1, 2, 3, 4, 5]"
  by (simp add: step_values upt_rec)

lemma dot_available: "bslz4_step_available h 5 v = 1 \<Longrightarrow> 0 < v \<and> v < BSLZ4_DOT_N \<and> dd_available (bslz4_dots ! nat v) h"
  by (simp add: bslz4_step_available_def step_values Let_def split: if_splits)

lemma resolve_spec:
  assumes "length pl = 6" "length (p_step p) = 6"
  shows "case bslz4_resolve h dtype pl layout p of
      Inl e \<Rightarrow> e \<in> Code ` {BSLZ4_ERR_DTYPE, BSLZ4_ERR_BAD_PIPELINE, BSLZ4_ERR_UNAVAILABLE, BSLZ4_ERR_BAD_LAYOUT}
    | Inr q \<Rightarrow> pipe_ok h dtype pl layout q"
proof (cases "0 \<le> dtype \<and> dtype \<le> 9")
  case False
  then show ?thesis by (auto simp: bslz4_resolve_def)
next
  case dt: True
  define d where "d \<longleftrightarrow> layout \<ge> 0"
  let ?f = "fold_res (resolve_step h pl d) [0..<nat BSLZ4_NSTEPS] (p_step p)"
  have spec: "case ?f of Inl e \<Rightarrow> e \<in> {Code BSLZ4_ERR_BAD_PIPELINE, Code BSLZ4_ERR_UNAVAILABLE}
     | Inr st' \<Rightarrow> length st' = 6 \<and> (\<forall>s. s \<notin> set [0..<nat BSLZ4_NSTEPS] \<longrightarrow> st' ! s = p_step p ! s)
         \<and> (\<forall>s\<in>set [0..<nat BSLZ4_NSTEPS]. if plain_skips d s then uint (pl ! s) = 0
              else st' ! s = uint (pl ! s) \<and> bslz4_step_available h (int s) (uint (pl ! s)) = 1)"
    by (rule resolve_fold) (use assms in \<open>auto simp: step_values\<close>)
  show ?thesis
  proof (cases ?f)
    case (Inl e)
    then show ?thesis using spec dt by (auto simp: bslz4_resolve_def Let_def d_def)
  next
    case (Inr st)
    then have l: "length st = 6"
      and st: "\<And>s. s < 6 \<Longrightarrow> if plain_skips d s then uint (pl ! s) = 0
              else st ! s = uint (pl ! s) \<and> bslz4_step_available h (int s) (uint (pl ! s)) = 1"
      using spec by (auto simp: step_values)
    define st' where "st' = (if d then st else st[5 := 0, 4 := 0])"
    have fin: "(if d then Inr st else rbind (store st (nat BSLZ4_STEP_DOT) 0) (\<lambda>st. store st (nat BSLZ4_STEP_ROUTE) 0)) = Inr st'"
      using l by (simp add: st'_def store_ok step_values)
    have l': "length st' = 6" using l by (simp add: st'_def)
    have all: "\<forall>s<6. if plain_skips d s then st' ! s = 0 \<and> uint (pl ! s) = 0
          else st' ! s = uint (pl ! s) \<and> bslz4_step_available h (int s) (st' ! s) = 1"
    proof (intro allI impI)
      fix s :: nat assume "s < 6"
      then show "if plain_skips d s then st' ! s = 0 \<and> uint (pl ! s) = 0
          else st' ! s = uint (pl ! s) \<and> bslz4_step_available h (int s) (st' ! s) = 1"
        using st[of s] l by (auto simp: st'_def plain_skips_def step_values nth_list_update split: if_splits)
    qed
    have five: "d \<Longrightarrow> 0 < st' ! 5 \<and> st' ! 5 < BSLZ4_DOT_N"
      using all[rule_format, of 5] dot_available[of h "st' ! 5"] by (auto simp: plain_skips_def)
    have res: "bslz4_resolve h dtype pl layout p =
       (if st' ! 2 \<le> BSLZ4_UNTRANSPOSE_LOWPLANES_C \<and> push_bit (nat dtype) 1 AND BSLZ4_U16 = 0 then Inl (Code BSLZ4_ERR_DTYPE)
        else if st' ! 3 \<noteq> BSLZ4_COLLECT_SCALAR \<and> push_bit (nat dtype) 1 AND BSLZ4_U16_U32 = 0 then Inl (Code BSLZ4_ERR_DTYPE)
        else if d \<and> dd_layout (bslz4_dots ! nat (st' ! 5)) \<noteq> layout then Inl (Code BSLZ4_ERR_BAD_LAYOUT)
        else if d \<and> push_bit (nat dtype) 1 AND dd_dtypes (bslz4_dots ! nat (st' ! 5)) = 0 then Inl (Code BSLZ4_ERR_DTYPE)
        else Inr \<lparr>p_step = st', p_dtype = dtype, p_elem_size = bslz4_elem_size dtype\<rparr>)"
      using dt Inr fin l' unfolding bslz4_resolve_def d_def[symmetric] Let_def
      by (simp add: load_ok step_values not_less)
    have bits: "dtype_bit dtype AND BSLZ4_U16 = 0 \<longleftrightarrow> dtype \<noteq> 1"
      "dtype_bit dtype AND BSLZ4_U16_U32 = 0 \<longleftrightarrow> dtype \<noteq> 1 \<and> dtype \<noteq> 2"
      using dtype_bits[of dtype] dt unfolding dtype_bit_def by blast+
    have lay: "d \<Longrightarrow> bslz4_dot_layout (st' ! 5) = dd_layout (bslz4_dots ! nat (st' ! 5))"
      using five by (simp add: bslz4_dot_layout_def)
    define A where "A \<longleftrightarrow> (\<forall>s<6. if plain_skips d s then st' ! s = 0 \<and> uint (pl ! s) = 0
          else st' ! s = uint (pl ! s) \<and> bslz4_step_available h (int s) (st' ! s) = 1)"
    have A: A unfolding A_def by (rule all)
    have pk: "pipe_ok h dtype pl layout \<lparr>p_step = st', p_dtype = dtype, p_elem_size = bslz4_elem_size dtype\<rparr>
      \<longleftrightarrow> 0 \<le> dtype \<and> dtype \<le> 9 \<and> (st' ! 2 \<le> BSLZ4_UNTRANSPOSE_LOWPLANES_C \<longrightarrow> dtype = 1)
        \<and> (st' ! 3 \<noteq> BSLZ4_COLLECT_SCALAR \<longrightarrow> dtype = 1 \<or> dtype = 2)
        \<and> (d \<longrightarrow> bslz4_dot_layout (st' ! 5) = layout \<and> dtype_bit dtype AND dd_dtypes (bslz4_dots ! nat (st' ! 5)) \<noteq> 0)"
      unfolding pipe_ok_def bslz4_pipe.select_convs d_def[symmetric] A_def[symmetric] using A l' by blast
    show ?thesis unfolding res dtype_bit_def[symmetric] bits
      using dt lay pk by (cases d) auto
  qed
qed

text \<open>
  C27: a pipeline is either refused with one of its four codes or resolved to one every value of which this build and CPU can
  run, for a pixel type the values take: low planes for u16 only, SIMD collects for u16 and u32 only, a dot of the entry's
  layout that accepts the type; a plain sparsify gets route and dot 0.
\<close>

theorem resolve_safe:
  assumes "length pl = 6" "length (p_step p) = 6"
  shows "case bslz4_resolve h dtype pl layout p of
      Inl e \<Rightarrow> e \<in> Code ` {BSLZ4_ERR_DTYPE, BSLZ4_ERR_BAD_PIPELINE, BSLZ4_ERR_UNAVAILABLE, BSLZ4_ERR_BAD_LAYOUT}
    | Inr q \<Rightarrow> pipe_ok h dtype pl layout q"
  by (rule resolve_spec[OF assms])

definition no_pipe :: bslz4_pipe where
  "no_pipe = \<lparr>p_step = replicate 6 7, p_dtype = 0, p_elem_size = 0\<rparr>"

theorem resolve_safe_witness:
  "case bslz4_resolve sample_host 1 [1, 2, 4, 6, 0, 0] (-1) no_pipe of
      Inl e \<Rightarrow> e \<in> Code ` {BSLZ4_ERR_DTYPE, BSLZ4_ERR_BAD_PIPELINE, BSLZ4_ERR_UNAVAILABLE, BSLZ4_ERR_BAD_LAYOUT}
    | Inr q \<Rightarrow> pipe_ok sample_host 1 [1, 2, 4, 6, 0, 0] (-1) q"
  by (rule resolve_safe) (simp_all add: no_pipe_def)

section \<open>The counters count\<close>

definition bump_all :: "(int \<times> int) list \<Rightarrow> counters \<Rightarrow> counters res" where
  "bump_all evs = fold_res (\<lambda>(s, v). bslz4_counters_bump s v) evs"

definition counted :: "(int \<times> int) list \<Rightarrow> counters" where
  "counted evs = \<lparr>bslz4_counters = map (\<lambda>s. map (\<lambda>v. of_nat (count_list evs (int s, int v))) [0..<16]) [0..<6],
     bslz4_counters_on = True\<rparr>"

lemma available_slot: "bslz4_step_available h s v = 1 \<Longrightarrow> 0 \<le> s \<and> s < 6 \<and> 0 < v \<and> v < 16"
  by (auto simp: bslz4_step_available_def step_values Let_def split: if_splits)

lemma bump_counted:
  assumes "bslz4_step_available h s v = 1"
  shows "bslz4_counters_bump s v (counted evs) = Inr (counted (evs @ [(s, v)]))"
proof -
  have sv: "nat s < 6" "nat v < 16" "int (nat s) = s" "int (nat v) = v" using available_slot[OF assms] by auto
  define row where "row = map (\<lambda>v. of_nat (count_list evs (s, int v)) :: 64 word) [0..<16]"
  define row' where "row' = map (\<lambda>x. of_nat (count_list (evs @ [(s, v)]) (s, int x)) :: 64 word) [0..<16]"
  have r: "row[nat v := row ! nat v + 1] = row'"
    by (rule nth_equalityI) (use sv in \<open>auto simp: row_def row'_def nth_list_update\<close>)
  have g: "(bslz4_counters (counted evs))[nat s := row'] = bslz4_counters (counted (evs @ [(s, v)]))"
    by (rule nth_equalityI) (use sv in \<open>auto simp: counted_def row'_def nth_list_update\<close>)
  have "bslz4_counters (counted evs) ! nat s = row" "length row = 16" "length (bslz4_counters (counted evs)) = 6"
    using sv by (simp_all add: counted_def row_def)
  then show ?thesis using sv r g
    by (simp add: bslz4_counters_bump_def load_ok store_ok) (simp add: counted_def)
qed

lemma bump_all_counted:
  "\<forall>(s, v)\<in>set evs. bslz4_step_available h s v = 1 \<Longrightarrow> bump_all evs (counted before) = Inr (counted (before @ evs))"
proof (induction evs arbitrary: before)
  case (Cons e evs)
  then show ?case using bump_counted[of h "fst e" "snd e" before] Cons.IH[of "before @ [e]"]
    by (cases e) (auto simp: bump_all_def)
qed (simp add: bump_all_def)

lemma read_row:
  assumes "s < length rows" "length (rows ! s) = 16" "k + 16 \<le> n" "n \<le> length out"
  shows "fold_res (\<lambda>i (out, k). if k < n then rbind (load rows s) (\<lambda>row. rbind (load row i) (\<lambda>x.
      rbind (store out k x) (\<lambda>out. Inr (out, k + 1)))) else Inr (out, k)) [0..<16] (out, k)
    = Inr (blit out k (rows ! s), k + 16)"
proof -
  let ?I = "\<lambda>i (o', k'). o' = blit out k (take i (rows ! s)) \<and> k' = k + i"
  have "\<exists>r. fold_res (\<lambda>i (out, k). if k < n then rbind (load rows s) (\<lambda>row. rbind (load row i) (\<lambda>x.
      rbind (store out k x) (\<lambda>out. Inr (out, k + 1)))) else Inr (out, k)) [0..<16] (out, k) = Inr r \<and> ?I 16 r"
  proof (rule fold_upt_inv[where I = ?I])
    fix i :: nat and st assume i: "i < 16" and "?I i st"
    then have st: "st = (blit out k (take i (rows ! s)), k + i)" by auto
    have "(blit out k (take i (rows ! s)))[k + i := rows ! s ! i] = blit out k (take (Suc i) (rows ! s))"
      using assms i by (intro nth_equalityI) (auto simp: length_blit nth_blit nth_list_update take_Suc_conv_app_nth nth_append less_Suc_eq)
    then show "\<exists>s'. (case st of (out, k) \<Rightarrow> if k < n then rbind (load rows s) (\<lambda>row. rbind (load row i) (\<lambda>x.
      rbind (store out k x) (\<lambda>out. Inr (out, k + 1)))) else Inr (out, k)) = Inr s' \<and> ?I (Suc i) s'"
      using assms i st by (simp add: load_ok store_ok length_blit)
  qed simp
  then show ?thesis using assms(2) by auto
qed

lemma read_counters_ok:
  assumes "length (bslz4_counters c) = 6" "\<forall>row\<in>set (bslz4_counters c). length row = 16" "96 \<le> n" "n \<le> length out"
  shows "bslz4_read_counters c out n = Inr (blit out 0 (concat (bslz4_counters c)), 96)"
proof -
  let ?rows = "bslz4_counters c"
  let ?f = "\<lambda>s (out, k). fold_res (\<lambda>i (out, k). if k < n then rbind (load ?rows s) (\<lambda>row. rbind (load row i) (\<lambda>x.
      rbind (store out k x) (\<lambda>out. Inr (out, k + 1)))) else Inr (out, k)) [0..<16] (out, k)"
  let ?I = "\<lambda>s (o', k'). o' = blit out 0 (concat (take s ?rows)) \<and> k' = 16 * s"
  have len: "length (concat (take s ?rows)) = 16 * s" if "s \<le> 6" for s
    using that assms(1,2) by (induction s) (auto simp: take_Suc_conv_app_nth)
  have "\<exists>r. fold_res ?f [0..<6] (out, 0) = Inr r \<and> ?I 6 r"
  proof (rule fold_upt_inv[where I = ?I])
    fix s :: nat and st assume s: "s < 6" and "?I s st"
    then have st: "st = (blit out 0 (concat (take s ?rows)), 16 * s)" by auto
    have l16: "length (?rows ! s) = 16" using s assms(1,2) by auto
    have b: "blit (blit out 0 (concat (take s ?rows))) (16 * s) (?rows ! s) = blit out 0 (concat (take (Suc s) ?rows))"
      using blit_blit[of "concat (take s ?rows)" "16 * s" 0 "?rows ! s" out] len[of s] s assms l16
      by (simp add: take_Suc_conv_app_nth)
    show "\<exists>s'. ?f s st = Inr s' \<and> ?I (Suc s) s'"
      using read_row[of s ?rows "16 * s" n "blit out 0 (concat (take s ?rows))"] s assms l16 len[of s] b
      unfolding st by (simp add: length_blit)
  qed simp
  then show ?thesis unfolding bslz4_read_counters_def using assms(1) by (auto simp: BSLZ4_VALUE_SLOTS_def BSLZ4_NSTEPS_def)
qed



end
