(* ===== verification/Framing.thy ===== *)
theory Framing
  imports Decode Untranspose
begin

text \<open>
  The framing of a bitshuffle chunk, as \<open>src/pipeline/driver.c\<close> walks it: a 12-byte header, blocks behind a 4-byte size word each, and
  a raw remainder at the end. Here are the check of a batch's headers (\<open>bslz4_driver_check_frames\<close>), the walk over the block headers
  (\<open>bslz4_driver_block_starts\<close>) and the front half alone (\<open>bslz4_driver_decompress\<close>).
\<close>

section \<open>Chunks\<close>

text \<open>The bytes an entry of \<open>compressed_ptrs\<close> points to, and its \<open>compressed_lengths\<close>.\<close>

record chunk =
  ck_mem :: "byte list"
  ck_len :: int

definition readable_chunk :: "chunk \<Rightarrow> bool" where
  "readable_chunk c \<longleftrightarrow> ck_len c \<le> int (length (ck_mem c))"

section \<open>The headers of a batch\<close>

definition header_block_bytes :: "chunk \<Rightarrow> nat res" where
  "header_block_bytes c =
     rbind (bslz4_read_be32 (ck_mem c) 8) (\<lambda>b. Inr (if b = 0 then BSLZ4_DEFAULT_BLOCK_BYTES else unat b))"

definition same_header :: "64 word \<Rightarrow> nat \<Rightarrow> chunk \<Rightarrow> unit res" where
  "same_header total_len blocksize c =
     rbind (bslz4_read_be64 (ck_mem c) 0) (\<lambda>t.
       if t \<noteq> total_len then Inl (Code BSLZ4_ERR_FRAME_MISMATCH)
       else rbind (header_block_bytes c) (\<lambda>b.
         if b \<noteq> blocksize then Inl (Code BSLZ4_ERR_FRAME_MISMATCH) else Inr ()))"

text \<open>\<open>*out_total\<close> and \<open>*out_blocksize\<close>; \<open>nframes\<close> is the length of the list.\<close>

fun bslz4_driver_check_frames :: "chunk list \<Rightarrow> (64 word \<times> nat) res" where
  "bslz4_driver_check_frames [] = Inl (Code BSLZ4_ERR_BAD_NFRAMES)"
| "bslz4_driver_check_frames (c0 # cs) =
     (if \<exists>c\<in>set (c0 # cs). ck_len c < 12 then Inl (Code BSLZ4_ERR_CORRUPT_CHUNK)
      else rbind (bslz4_read_be64 (ck_mem c0) 0) (\<lambda>total_len. rbind (header_block_bytes c0) (\<lambda>blocksize.
        rbind (fold_res (\<lambda>c _. same_header total_len blocksize c) cs ()) (\<lambda>_. Inr (total_len, blocksize)))))"

section \<open>One block's header\<close>

text \<open>The compressed size of the block at \<open>pos\<close>, which lies inside the chunk.\<close>

definition next_block :: "chunk \<Rightarrow> nat \<Rightarrow> nat res" where
  "next_block c pos =
     (if ck_len c - int pos < 4 then Inl (Code BSLZ4_ERR_CORRUPT_CHUNK)
      else rbind (bslz4_read_be32 (ck_mem c) pos) (\<lambda>n.
        if int (unat n) > ck_len c - int pos - 4 then Inl (Code BSLZ4_ERR_CORRUPT_CHUNK) else Inr (unat n)))"

definition block_bytes :: "chunk \<Rightarrow> nat \<Rightarrow> nat \<Rightarrow> byte list" where
  "block_bytes c pos n = take n (drop (pos + 4) (ck_mem c))"

lemma next_block_cases:
  assumes "readable_chunk c"
  shows "next_block c pos = Inl (Code BSLZ4_ERR_CORRUPT_CHUNK)
    \<or> (\<exists>n. next_block c pos = Inr n \<and> int pos + 4 + int n \<le> ck_len c \<and> load_n (ck_mem c) (pos + 4) n = Inr (block_bytes c pos n))"
proof (cases "ck_len c - int pos < 4")
  case False
  then have "pos + 4 \<le> length (ck_mem c)" using assms by (simp add: readable_chunk_def)
  then obtain n where "bslz4_read_be32 (ck_mem c) pos = Inr n" using read_be32_Inr by blast
  moreover have "pos + 4 + unat n \<le> length (ck_mem c)" if "\<not> int (unat n) > ck_len c - int pos - 4"
    using that assms unfolding readable_chunk_def by linarith
  ultimately show ?thesis using False by (auto simp: next_block_def block_bytes_def load_n_def)
qed (simp add: next_block_def)

section \<open>Where the blocks start\<close>

definition BSLZ4_WALK :: nat where "BSLZ4_WALK = 8"

text \<open>The state of a walk over up to 8 frames side by side: \<open>pos\<close>, \<open>st\<close> and the caller's \<open>starts\<close>.\<close>

type_synonym walk = "nat list \<times> int list \<times> 32 word list"

definition walk_one :: "chunk list \<Rightarrow> nat \<Rightarrow> nat \<Rightarrow> nat \<Rightarrow> nat \<Rightarrow> walk \<Rightarrow> walk res" where
  "walk_one frames nblocks f0 b k = (\<lambda>(pos, st, starts).
     rbind (load st k) (\<lambda>s. if s \<noteq> 0 then Inr (pos, st, starts) else
       let f = f0 + k in
       rbind (load frames f) (\<lambda>c. rbind (load pos k) (\<lambda>p.
         if ck_len c - int p < 4 \<or> int p > UINT32_MAX then rbind (store st k BSLZ4_ERR_CORRUPT_CHUNK) (\<lambda>st. Inr (pos, st, starts))
         else rbind (bslz4_read_be32 (ck_mem c) p) (\<lambda>n.
           if int (unat n) > ck_len c - int p - 4
           then rbind (store st k BSLZ4_ERR_CORRUPT_CHUNK) (\<lambda>st. Inr (pos, st, starts))
           else rbind (store starts ((f * nblocks + b) mod 2 ^ 64) (word_of_nat p)) (\<lambda>starts.
             rbind (store pos k (p + unat n + 4)) (\<lambda>pos. Inr (pos, st, starts))))))))"

definition walk_close :: "chunk list \<Rightarrow> nat \<Rightarrow> nat \<Rightarrow> nat list \<Rightarrow> int list \<Rightarrow> nat \<Rightarrow> int list \<times> int \<Rightarrow> (int list \<times> int) res" where
  "walk_close frames rem_raw f0 pos st k = (\<lambda>(status, rc).
     rbind (load st k) (\<lambda>s. rbind (load pos k) (\<lambda>p. rbind (load frames (f0 + k)) (\<lambda>c.
       let s' = (if s = 0 \<and> int (p + rem_raw) \<noteq> ck_len c then BSLZ4_ERR_CORRUPT_CHUNK else s) in
       rbind (store status (f0 + k) s') (\<lambda>status. Inr (status, if s' \<noteq> 0 then BSLZ4_ERR_CORRUPT_CHUNK else rc))))))"

definition walk_batch :: "chunk list \<Rightarrow> nat \<Rightarrow> nat \<Rightarrow> nat \<Rightarrow> 32 word list \<times> int list \<times> int \<Rightarrow> (32 word list \<times> int list \<times> int) res" where
  "walk_batch frames nblocks rem_raw g = (\<lambda>(starts, status, rc).
     let f0 = BSLZ4_WALK * g; m = (if length frames - f0 < BSLZ4_WALK then length frames - f0 else BSLZ4_WALK) in
     rbind (fold_res (\<lambda>b. fold_res (walk_one frames nblocks f0 b) [0..<m]) [0..<nblocks] (replicate m 12, replicate m 0, starts))
       (\<lambda>(pos, st, starts).
     rbind (fold_res (walk_close frames rem_raw f0 pos st) [0..<m] (status, rc)) (\<lambda>(status, rc). Inr (starts, status, rc))))"

text \<open>
  The number of blocks of a frame, and the bytes stored raw at its end: full blocks, and a tail of whole groups of 8 elements.
\<close>

definition full_blocks :: "nat \<Rightarrow> nat \<Rightarrow> nat" where
  "full_blocks tot blocksize = tot div blocksize"

definition tail_bytes :: "nat \<Rightarrow> nat \<Rightarrow> nat \<Rightarrow> nat" where
  "tail_bytes NB tot blocksize = (8 * NB) * ((tot - full_blocks tot blocksize * blocksize) div (8 * NB))"

definition raw_bytes :: "nat \<Rightarrow> nat \<Rightarrow> nat \<Rightarrow> nat" where
  "raw_bytes NB tot blocksize = tot - full_blocks tot blocksize * blocksize - tail_bytes NB tot blocksize"

text \<open>
  The return code, \<open>starts\<close>, \<open>status\<close> and \<open>*nblocks_out\<close>. An \<open>Inl\<close> code is returned before anything is written.
\<close>

definition bslz4_driver_block_starts :: "chunk list \<Rightarrow> int \<Rightarrow> 32 word list \<Rightarrow> int list \<Rightarrow> (int \<times> 32 word list \<times> int list \<times> nat) res" where
  "bslz4_driver_block_starts frames elem_size starts status =
     (if elem_size < 1 then Inl (Code BSLZ4_ERR_DTYPE)
      else rbind (bslz4_driver_check_frames frames) (\<lambda>(total_len, blocksize).
        let NB = nat elem_size; tot = unat total_len;
            nblocks = full_blocks tot blocksize + (if tail_bytes NB tot blocksize > 0 then 1 else 0) in
        if (length frames * nblocks) mod 2 ^ 64 > length starts then Inr (BSLZ4_ERR_WORKSPACE_TOO_SMALL, starts, status, nblocks)
        else
          rbind (fold_res (walk_batch frames nblocks (raw_bytes NB tot blocksize)) [0..<(length frames + BSLZ4_WALK - 1) div BSLZ4_WALK]
              (starts, status, 0)) (\<lambda>(starts, status, rc). Inr (rc, starts, status, nblocks))))"

section \<open>The front half alone\<close>

text \<open>
  One block of a frame: \<open>out\<close>, the \<open>raw\<close> and \<open>block\<close> regions of the workspace, the position in the chunk and the offset in
  the frame. \<open>dst\<close> is where the frame starts in \<open>out\<close>. A zstd context holds no data from one block to the next, so its decoder is
  the library's.
\<close>

definition decompress_block :: "codec_lib \<Rightarrow> shuffle_lib \<Rightarrow> build \<Rightarrow> nat \<Rightarrow> int \<Rightarrow> int \<Rightarrow> bool \<Rightarrow> chunk \<Rightarrow> nat \<Rightarrow> nat
    \<Rightarrow> byte list \<times> byte list \<times> byte list \<times> nat \<times> nat \<Rightarrow> (byte list \<times> byte list \<times> byte list \<times> nat \<times> nat) res" where
  "decompress_block lib slib bld NB dec untr unshuffle c dst sz = (\<lambda>(out, raw, block, pos, off).
     rbind (next_block c pos) (\<lambda>n. rbind (load_n (ck_mem c) (pos + 4) n) (\<lambda>src.
     let (got, bytes) = (if dec = BSLZ4_DECODE_ZSTD then ZSTD_decompress lib src sz else LZ4_decompress_safe lib src sz) in
     if unshuffle then
       rbind (store_n raw 0 bytes) (\<lambda>raw.
       if got \<noteq> int sz then Inl (Code BSLZ4_ERR_DECOMPRESS)
       else rbind (bslz4_untranspose_backend slib bld untr block raw (sz div NB) NB) (\<lambda>(ret, block).
         if ret < 0 then Inl (Code BSLZ4_ERR_UNTRANSPOSE)
         else rbind (load_n block 0 sz) (\<lambda>px. rbind (store_n out (dst + off) px) (\<lambda>out.
           Inr (out, raw, block, pos + n + 4, off + sz)))))
     else
       rbind (store_n out (dst + off) bytes) (\<lambda>out.
       if got \<noteq> int sz then Inl (Code BSLZ4_ERR_DECOMPRESS) else Inr (out, raw, block, pos + n + 4, off + sz)))))"

definition decompress_frame :: "codec_lib \<Rightarrow> shuffle_lib \<Rightarrow> build \<Rightarrow> nat \<Rightarrow> int \<Rightarrow> int \<Rightarrow> bool \<Rightarrow> nat \<Rightarrow> nat \<Rightarrow> nat \<times> chunk
    \<Rightarrow> byte list \<times> byte list \<times> byte list \<Rightarrow> (byte list \<times> byte list \<times> byte list) res" where
  "decompress_frame lib slib bld NB dec untr unshuffle tot blocksize = (\<lambda>(f, c) (out, raw, block).
     let tail_block = tail_bytes NB tot blocksize; rem_f = raw_bytes NB tot blocksize; dst = f * tot in
     rbind (fold_res (decompress_block lib slib bld NB dec untr unshuffle c dst)
         (replicate (full_blocks tot blocksize) blocksize @ (if tail_block > 0 then [tail_block] else [])) (out, raw, block, 12, 0))
       (\<lambda>(out, raw, block, pos, off).
     if rem_f > 0 then
       if ck_len c < int rem_f \<or> int pos > ck_len c - int rem_f then Inl (Code BSLZ4_ERR_CORRUPT_CHUNK)
       else rbind (load_n (ck_mem c) (nat (ck_len c) - rem_f) rem_f) (\<lambda>bs. rbind (store_n out (dst + off) bs) (\<lambda>out. Inr (out, raw, block)))
     else Inr (out, raw, block)))"

text \<open>
  The output buffer; \<open>dctx\<close> says whether \<open>ZSTD_createDCtx\<close> gives a context. The workspace is cut into \<open>raw\<close>, \<open>scratch\<close> (the
  untranspose's own) and \<open>block\<close>.
\<close>

definition bslz4_driver_decompress :: "codec_lib \<Rightarrow> shuffle_lib \<Rightarrow> build \<Rightarrow> bool \<Rightarrow> chunk list \<Rightarrow> byte list \<Rightarrow> byte list
    \<Rightarrow> int \<Rightarrow> int \<Rightarrow> int \<Rightarrow> bool \<Rightarrow> byte list res" where
  "bslz4_driver_decompress lib slib bld dctx frames out workspace elem_size dec untr unshuffle =
     (if elem_size \<notin> {1, 2, 4, 8} then Inl (Code BSLZ4_ERR_DTYPE)
      else if dec \<noteq> BSLZ4_DECODE_LZ4_STOCK \<and> dec \<noteq> BSLZ4_DECODE_ZSTD then Inl (Code BSLZ4_ERR_BAD_PIPELINE)
      else rbind (bslz4_driver_check_frames frames) (\<lambda>(total_len, blocksize).
        let NB = nat elem_size; tot = unat total_len in
        if int tot > INT32_MAX then Inl (Code BSLZ4_ERR_TOO_LARGE)
        else if length frames * tot > length out then Inl (Code BSLZ4_ERR_WORKSPACE_TOO_SMALL)
        else let wsz = (if blocksize < tot then blocksize else tot) in
        if unshuffle \<and> blocksize mod (8 * NB) \<noteq> 0 then Inl (Code BSLZ4_ERR_CORRUPT_CHUNK)
        else if unshuffle \<and> length workspace < 3 * wsz then Inl (Code BSLZ4_ERR_WORKSPACE_TOO_SMALL)
        else if dec = BSLZ4_DECODE_ZSTD \<and> \<not> dctx then Inl (Code BSLZ4_ERR_DECOMPRESS)
        else rbind (fold_res (decompress_frame lib slib bld NB dec untr unshuffle tot blocksize) (enumerate 0 frames)
            (out, take wsz workspace, take wsz (drop (2 * wsz) workspace))) (\<lambda>(out, raw, block). Inr out)))"

section \<open>The walk of one frame\<close>

text \<open>The position and status of one frame after its first \<open>b\<close> block headers, walked alone.\<close>

fun frame_walk :: "chunk \<Rightarrow> nat \<Rightarrow> nat \<times> int" where
  "frame_walk c 0 = (12, 0)"
| "frame_walk c (Suc b) =
     (let (p, s) = frame_walk c b in
      if s \<noteq> 0 then (p, s)
      else if int p > UINT32_MAX then (p, BSLZ4_ERR_CORRUPT_CHUNK)
      else case next_block c p of Inl _ \<Rightarrow> (p, BSLZ4_ERR_CORRUPT_CHUNK) | Inr n \<Rightarrow> (p + n + 4, 0))"

declare frame_walk.simps(2) [simp del]

definition walk_status :: "chunk \<Rightarrow> nat \<Rightarrow> nat \<Rightarrow> int" where
  "walk_status c nblocks rem_raw =
     (let (p, s) = frame_walk c nblocks in if s = 0 \<and> int (p + rem_raw) \<noteq> ck_len c then BSLZ4_ERR_CORRUPT_CHUNK else s)"

definition mark_start :: "chunk list \<Rightarrow> nat \<Rightarrow> nat \<times> nat \<Rightarrow> 32 word list \<Rightarrow> 32 word list" where
  "mark_start frames nb = (\<lambda>(f, b) starts. if snd (frame_walk (frames ! f) (Suc b)) = 0
     then starts[f * nb + b := word_of_nat (fst (frame_walk (frames ! f) b))] else starts)"

lemma walk_one_ok:
  assumes "k < length pos" "length st = length pos" "f0 + k < length frames" "readable_chunk (frames ! (f0 + k))"
    and "pos ! k = fst (frame_walk (frames ! (f0 + k)) b)" "st ! k = snd (frame_walk (frames ! (f0 + k)) b)"
    and "(f0 + k) * nb + b < length starts" "(f0 + k) * nb + b < 2 ^ 64"
  shows "walk_one frames nb f0 b k (pos, st, starts) = Inr (pos[k := fst (frame_walk (frames ! (f0 + k)) (Suc b))],
    st[k := snd (frame_walk (frames ! (f0 + k)) (Suc b))], mark_start frames nb (f0 + k, b) starts)"
proof -
  let ?c = "frames ! (f0 + k)"
  obtain p s where ps: "frame_walk ?c b = (p, s)" by (cases "frame_walk ?c b")
  have ld: "load st k = Inr s" "load pos k = Inr p" "load frames (f0 + k) = Inr ?c" "k < length st"
    using assms(1-3,5,6) ps by (simp_all add: load_ok)
  have ix: "((f0 + k) * nb + b) mod 2 ^ 64 = (f0 + k) * nb + b" using assms(8) by simp
  have u: "st[k := 0] = st" if "s = 0" using that assms(6) ps by (metis list_update_id snd_conv)
  have up: "pos[k := p] = pos" "st[k := s] = st" using assms(5,6) ps by (metis list_update_id fst_conv snd_conv)+
  consider (bad) "s \<noteq> 0" | (far) "s = 0" "ck_len ?c - int p < 4 \<or> int p > UINT32_MAX"
    | (near) "s = 0" "\<not> (ck_len ?c - int p < 4 \<or> int p > UINT32_MAX)" by blast
  then show ?thesis
  proof cases
    case bad
    then show ?thesis using ld ps up by (simp add: walk_one_def mark_start_def frame_walk.simps(2))
  next
    case far
    have n: "ck_len ?c - int p < 4 \<Longrightarrow> next_block ?c p = Inl (Code BSLZ4_ERR_CORRUPT_CHUNK)" by (simp add: next_block_def)
    have w: "frame_walk ?c (Suc b) = (p, BSLZ4_ERR_CORRUPT_CHUNK)" using far ps n by (auto simp: frame_walk.simps(2))
    have "BSLZ4_ERR_CORRUPT_CHUNK \<noteq> 0" by (simp add: error_codes)
    then show ?thesis unfolding walk_one_def w mark_start_def using ld up far by (simp add: store_ok w)
  next
    case near
    have nz: "BSLZ4_ERR_CORRUPT_CHUNK \<noteq> 0" by (simp add: error_codes)
    have l: "p + 4 \<le> length (ck_mem ?c)" using near(2) assms(4) by (simp add: readable_chunk_def)
    obtain n where n: "bslz4_read_be32 (ck_mem ?c) p = Inr n" using read_be32_Inr[OF l] by blast
    show ?thesis
    proof (cases "int (unat n) > ck_len ?c - int p - 4")
      case True
      have "next_block ?c p = Inl (Code BSLZ4_ERR_CORRUPT_CHUNK)" unfolding next_block_def n using near True by simp
      then have w: "frame_walk ?c (Suc b) = (p, BSLZ4_ERR_CORRUPT_CHUNK)" using near ps by (simp add: frame_walk.simps(2))
      show ?thesis unfolding walk_one_def w mark_start_def using ld up near True n nz by (simp add: store_ok w)
    next
      case False
      have "\<not> ck_len ?c - int p < 4" using near(2) by blast
      then have "next_block ?c p = Inr (unat n)" unfolding next_block_def n using False by (simp only: if_False rbind.simps)
      then have w: "frame_walk ?c (Suc b) = (p + unat n + 4, 0)" using near ps by (simp add: frame_walk.simps(2))
      have i: "\<not> (ck_len ?c - int p < 4 \<or> int p > UINT32_MAX)" by (rule near(2))
      have "walk_one frames nb f0 b k (pos, st, starts)
          = rbind (store starts (((f0 + k) * nb + b) mod 2 ^ 64) (word_of_nat p)) (\<lambda>starts. rbind (store pos k (p + unat n + 4)) (\<lambda>pos. Inr (pos, st, starts)))"
        unfolding walk_one_def Let_def prod.case ld rbind.simps near(1) n using i False by (simp only: if_False not_True_eq_False simp_thms)
      then show ?thesis using assms(1,7) u near(1) ix w ps by (simp add: store_ok mark_start_def)
    qed
  qed
qed

section \<open>Walking frames side by side\<close>

definition walked :: "chunk list \<Rightarrow> nat \<Rightarrow> nat \<Rightarrow> (nat \<Rightarrow> nat) \<Rightarrow> nat list \<times> int list" where
  "walked frames f0 m n = (map (\<lambda>k. fst (frame_walk (frames ! (f0 + k)) (n k))) [0..<m], map (\<lambda>k. snd (frame_walk (frames ! (f0 + k)) (n k))) [0..<m])"

lemma length_fold_mark [simp]: "length (fold (mark_start frames nb) ps starts) = length starts"
proof (induction ps arbitrary: starts)
  case (Cons q ps)
  have "length (mark_start frames nb q starts) = length starts" by (simp add: mark_start_def split: prod.split)
  then show ?case using Cons.IH[of "mark_start frames nb q starts"] by simp
qed simp

lemma walk_row:
  assumes m: "f0 + m \<le> length frames" and r: "\<forall>c\<in>set frames. readable_chunk c" and b: "b < nb"
    and s: "length frames * nb \<le> length starts" "length frames * nb < 2 ^ 64"
  shows "fold_res (walk_one frames nb f0 b) [0..<m] (fst (walked frames f0 m (\<lambda>_. b)), snd (walked frames f0 m (\<lambda>_. b)), starts)
    = Inr (fst (walked frames f0 m (\<lambda>_. Suc b)), snd (walked frames f0 m (\<lambda>_. Suc b)),
        fold (mark_start frames nb) (map (\<lambda>k. (f0 + k, b)) [0..<m]) starts)"
proof -
  let ?n = "\<lambda>k j. if j < k then Suc b else b"
  let ?I = "\<lambda>k (s :: walk). s = (fst (walked frames f0 m (?n k)), snd (walked frames f0 m (?n k)),
      fold (mark_start frames nb) (map (\<lambda>k. (f0 + k, b)) [0..<k]) starts)"
  have "\<exists>s. fold_res (walk_one frames nb f0 b) [0..<m] (fst (walked frames f0 m (\<lambda>_. b)), snd (walked frames f0 m (\<lambda>_. b)), starts) = Inr s \<and> ?I m s"
  proof (rule fold_upt_inv[where I = ?I])
    show "?I 0 (fst (walked frames f0 m (\<lambda>_. b)), snd (walked frames f0 m (\<lambda>_. b)), starts)" by (simp add: walked_def)
    fix k and s :: walk assume k: "k < m" and I: "?I k s"
    have f: "f0 + k < length frames" using k m by simp
    have "(f0 + k) * nb + b < Suc (f0 + k) * nb" using b by simp
    also have "\<dots> \<le> length frames * nb" using f by (intro mult_le_mono1) simp
    finally have i: "(f0 + k) * nb + b < length frames * nb" .
    have up: "(map (\<lambda>j. g (f0 + j) (?n k j)) [0..<m])[k := g (f0 + k) (Suc b)] = map (\<lambda>j. g (f0 + j) (?n (Suc k) j)) [0..<m]" for g :: "nat \<Rightarrow> nat \<Rightarrow> 'x"
      using k by (intro nth_equalityI) (auto simp: nth_list_update)
    have "walk_one frames nb f0 b k s = Inr ((fst (walked frames f0 m (?n k)))[k := fst (frame_walk (frames ! (f0 + k)) (Suc b))],
        (snd (walked frames f0 m (?n k)))[k := snd (frame_walk (frames ! (f0 + k)) (Suc b))],
        mark_start frames nb (f0 + k, b) (fold (mark_start frames nb) (map (\<lambda>k. (f0 + k, b)) [0..<k]) starts))"
      unfolding I by (rule walk_one_ok) (use k f r i s(1,2) in \<open>simp_all add: walked_def\<close>)
    then show "\<exists>s'. walk_one frames nb f0 b k s = Inr s' \<and> ?I (Suc k) s'"
      using up[of "\<lambda>f. fst \<circ> frame_walk (frames ! f)"] up[of "\<lambda>f. snd \<circ> frame_walk (frames ! f)"] by (simp add: walked_def comp_def)
  qed
  moreover have "walked frames f0 m (?n m) = walked frames f0 m (\<lambda>_. Suc b)" by (simp add: walked_def)
  ultimately show ?thesis by auto
qed

lemma walk_rows:
  assumes m: "f0 + m \<le> length frames" and r: "\<forall>c\<in>set frames. readable_chunk c"
    and s: "length frames * nb \<le> length starts" "length frames * nb < 2 ^ 64"
  shows "\<exists>ps. fold_res (\<lambda>b. fold_res (walk_one frames nb f0 b) [0..<m]) [0..<nb] (replicate m 12, replicate m 0, starts)
    = Inr (fst (walked frames f0 m (\<lambda>_. nb)), snd (walked frames f0 m (\<lambda>_. nb)), fold (mark_start frames nb) ps starts)
    \<and> set ps = {f0..<f0 + m} \<times> {..<nb}"
proof -
  let ?I = "\<lambda>b (s :: walk). \<exists>ps. s = (fst (walked frames f0 m (\<lambda>_. b)), snd (walked frames f0 m (\<lambda>_. b)), fold (mark_start frames nb) ps starts)
      \<and> set ps = {f0..<f0 + m} \<times> {..<b}"
  have "\<exists>s. fold_res (\<lambda>b. fold_res (walk_one frames nb f0 b) [0..<m]) [0..<nb] (replicate m 12, replicate m 0, starts) = Inr s \<and> ?I nb s"
  proof (rule fold_upt_inv[where I = ?I])
    show "?I 0 (replicate m 12, replicate m 0, starts)"
      by (intro exI[of _ "[]"]) (simp add: walked_def map_replicate_const)
    fix b and s :: walk assume b: "b < nb" and "?I b s"
    then obtain ps where ps: "s = (fst (walked frames f0 m (\<lambda>_. b)), snd (walked frames f0 m (\<lambda>_. b)), fold (mark_start frames nb) ps starts)"
      "set ps = {f0..<f0 + m} \<times> {..<b}" by blast
    have l: "length frames * nb \<le> length (fold (mark_start frames nb) ps starts)" using s(1) by simp
    have img: "(\<lambda>k. (f0 + k, b)) ` {0..<m} = {f0..<f0 + m} \<times> {b}"
    proof -
      have "(\<lambda>k. (f0 + k, b)) ` {0..<m} = (\<lambda>f. (f, b)) ` ((+) f0 ` {0..<m})" by (simp only: image_image)
      then show ?thesis unfolding image_add_atLeastLessThan by auto
    qed
    have "set (ps @ map (\<lambda>k. (f0 + k, b)) [0..<m]) = {f0..<f0 + m} \<times> {..<Suc b}"
      unfolding set_append set_map set_upt img ps(2) by (auto simp: less_Suc_eq)
    then show "\<exists>s'. fold_res (walk_one frames nb f0 b) [0..<m] s = Inr s' \<and> ?I (Suc b) s'"
      unfolding ps(1) walk_row[OF m r b l s(2)]
      by (intro exI conjI[rotated], assumption) (simp_all add: fold_append)
  qed
  then show ?thesis by blast
qed

definition closed :: "chunk list \<Rightarrow> nat \<Rightarrow> nat \<Rightarrow> nat \<Rightarrow> nat \<Rightarrow> int list \<times> int \<Rightarrow> int list \<times> int \<Rightarrow> bool" where
  "closed frames nb rem_raw f0 n s s' \<longleftrightarrow> length (fst s') = length (fst s)
     \<and> (\<forall>i<length (fst s). fst s' ! i = (if f0 \<le> i \<and> i < f0 + n then walk_status (frames ! i) nb rem_raw else fst s ! i))
     \<and> snd s' = (if \<exists>i. f0 \<le> i \<and> i < f0 + n \<and> walk_status (frames ! i) nb rem_raw \<noteq> 0 then BSLZ4_ERR_CORRUPT_CHUNK else snd s)"

lemma closed_trans:
  assumes "closed frames nb rem_raw f0 n s s1" "closed frames nb rem_raw (f0 + n) k s1 s2"
  shows "closed frames nb rem_raw f0 (n + k) s s2"
proof -
  have "(\<exists>i. f0 \<le> i \<and> i < f0 + (n + k) \<and> walk_status (frames ! i) nb rem_raw \<noteq> 0)
      = ((\<exists>i. f0 \<le> i \<and> i < f0 + n \<and> walk_status (frames ! i) nb rem_raw \<noteq> 0)
       \<or> (\<exists>i. f0 + n \<le> i \<and> i < f0 + n + k \<and> walk_status (frames ! i) nb rem_raw \<noteq> 0))"
    using linorder_not_le[of "f0 + n"] by (fastforce simp: add.assoc)
  moreover have "fst s2 ! i = (if f0 \<le> i \<and> i < f0 + (n + k) then walk_status (frames ! i) nb rem_raw else fst s ! i)"
    if "i < length (fst s)" for i
  proof -
    have "fst s1 ! i = (if f0 \<le> i \<and> i < f0 + n then walk_status (frames ! i) nb rem_raw else fst s ! i)"
      "fst s2 ! i = (if f0 + n \<le> i \<and> i < f0 + n + k then walk_status (frames ! i) nb rem_raw else fst s1 ! i)"
      using assms that unfolding closed_def by metis+
    then show ?thesis by auto
  qed
  moreover have "length (fst s2) = length (fst s)" using assms unfolding closed_def by metis
  moreover have "snd s1 = (if \<exists>i. f0 \<le> i \<and> i < f0 + n \<and> walk_status (frames ! i) nb rem_raw \<noteq> 0 then BSLZ4_ERR_CORRUPT_CHUNK else snd s)"
    "snd s2 = (if \<exists>i. f0 + n \<le> i \<and> i < f0 + n + k \<and> walk_status (frames ! i) nb rem_raw \<noteq> 0 then BSLZ4_ERR_CORRUPT_CHUNK else snd s1)"
    using assms unfolding closed_def by metis+
  ultimately show ?thesis unfolding closed_def by metis
qed

lemma walk_close_ok:
  assumes "k < m" "f0 + m \<le> length frames" "length frames \<le> length status"
  shows "\<exists>s'. walk_close frames rem_raw f0 (fst (walked frames f0 m (\<lambda>_. nb))) (snd (walked frames f0 m (\<lambda>_. nb))) k (status, rc) = Inr s'
    \<and> closed frames nb rem_raw (f0 + k) 1 (status, rc) s'"
proof -
  let ?c = "frames ! (f0 + k)" and ?w = "walk_status (frames ! (f0 + k)) nb rem_raw"
  have w: "(if snd (frame_walk ?c nb) = 0 \<and> int (fst (frame_walk ?c nb) + rem_raw) \<noteq> ck_len ?c then BSLZ4_ERR_CORRUPT_CHUNK else snd (frame_walk ?c nb)) = ?w"
    by (simp add: walk_status_def split_beta)
  have "walk_close frames rem_raw f0 (fst (walked frames f0 m (\<lambda>_. nb))) (snd (walked frames f0 m (\<lambda>_. nb))) k (status, rc)
      = Inr (status[f0 + k := ?w], if ?w \<noteq> 0 then BSLZ4_ERR_CORRUPT_CHUNK else rc)"
    using assms by (simp add: walk_close_def walked_def load_ok store_ok Let_def flip: w)
  moreover have "closed frames nb rem_raw (f0 + k) 1 (status, rc) (status[f0 + k := ?w], if ?w \<noteq> 0 then BSLZ4_ERR_CORRUPT_CHUNK else rc)"
    unfolding closed_def using assms by (auto simp: nth_list_update) (metis Suc_leI le_antisym less_Suc_eq_le)+
  ultimately show ?thesis by blast
qed

lemma walk_closes:
  assumes "f0 + m \<le> length frames" "length frames \<le> length status"
  shows "\<exists>s'. fold_res (walk_close frames rem_raw f0 (fst (walked frames f0 m (\<lambda>_. nb))) (snd (walked frames f0 m (\<lambda>_. nb)))) [0..<m] (status, rc) = Inr s'
    \<and> closed frames nb rem_raw f0 m (status, rc) s'"
proof (rule fold_upt_inv[where I = "\<lambda>k s. closed frames nb rem_raw f0 k (status, rc) s"])
  show "closed frames nb rem_raw f0 0 (status, rc) (status, rc)" by (auto simp: closed_def)
  fix k and s :: "int list \<times> int" assume k: "k < m" and c: "closed frames nb rem_raw f0 k (status, rc) s"
  then have l: "length frames \<le> length (fst s)" using assms(2) by (simp add: closed_def)
  from walk_close_ok[OF k assms(1) l, of rem_raw nb "snd s"] closed_trans[OF c, of 1]
  show "\<exists>s'. walk_close frames rem_raw f0 (fst (walked frames f0 m (\<lambda>_. nb))) (snd (walked frames f0 m (\<lambda>_. nb))) k s = Inr s'
      \<and> closed frames nb rem_raw f0 (Suc k) (status, rc) s'" by auto
qed

lemma walk_batches:
  assumes r: "\<forall>c\<in>set frames. readable_chunk c" and s: "length frames * nb \<le> length starts" "length frames * nb < 2 ^ 64"
    and l: "length frames \<le> length status"
  shows "\<exists>ps s'. fold_res (walk_batch frames nb rem_raw) [0..<(length frames + BSLZ4_WALK - 1) div BSLZ4_WALK] (starts, status, 0)
      = Inr (fold (mark_start frames nb) ps starts, s') \<and> set ps = {..<length frames} \<times> {..<nb} \<and> closed frames nb rem_raw 0 (length frames) (status, 0) s'"
proof -
  let ?nf = "length frames" and ?G = "(length frames + BSLZ4_WALK - 1) div BSLZ4_WALK"
  let ?d = "\<lambda>g. min (8 * g) ?nf"
  let ?I = "\<lambda>g (s :: 32 word list \<times> int list \<times> int). \<exists>ps s'. s = (fold (mark_start frames nb) ps starts, s')
      \<and> set ps = {..<?d g} \<times> {..<nb} \<and> closed frames nb rem_raw 0 (?d g) (status, 0) s'"
  have "\<exists>s. fold_res (walk_batch frames nb rem_raw) [0..<?G] (starts, status, 0) = Inr s \<and> ?I ?G s"
  proof (rule fold_upt_inv[where I = ?I])
    show "?I 0 (starts, status, 0)" by (intro exI[of _ "[]"]) (auto simp: closed_def)
    fix g and s :: "32 word list \<times> int list \<times> int" assume g: "g < ?G" and "?I g s"
    then obtain ps status1 rc1 where I: "s = (fold (mark_start frames nb) ps starts, status1, rc1)" "set ps = {..<?d g} \<times> {..<nb}"
      "closed frames nb rem_raw 0 (?d g) (status, 0) (status1, rc1)" by auto
    have d: "?d g = 8 * g" using g by (simp add: BSLZ4_WALK_def)
    define m where "m = (if ?nf - 8 * g < 8 then ?nf - 8 * g else 8)"
    have "8 * g \<le> ?nf" using d by linarith
    then have m: "8 * g + m \<le> ?nf" "?d (Suc g) = 8 * g + m" by (auto simp: m_def)
    have ls: "?nf * nb \<le> length (fold (mark_start frames nb) ps starts)" "?nf \<le> length status1"
      using s(1) l I(3) by (simp_all add: closed_def)
    obtain qs where q: "fold_res (\<lambda>b. fold_res (walk_one frames nb (8 * g) b) [0..<m]) [0..<nb]
          (replicate m 12, replicate m 0, fold (mark_start frames nb) ps starts)
        = Inr (fst (walked frames (8 * g) m (\<lambda>_. nb)), snd (walked frames (8 * g) m (\<lambda>_. nb)), fold (mark_start frames nb) qs (fold (mark_start frames nb) ps starts))"
      "set qs = {8 * g..<8 * g + m} \<times> {..<nb}"
      using walk_rows[OF m(1) r ls(1) s(2)] by blast
    obtain s' where c: "fold_res (walk_close frames rem_raw (8 * g) (fst (walked frames (8 * g) m (\<lambda>_. nb))) (snd (walked frames (8 * g) m (\<lambda>_. nb)))) [0..<m] (status1, rc1) = Inr s'"
      "closed frames nb rem_raw (8 * g) m (status1, rc1) s'"
      using walk_closes[OF m(1) ls(2)] by blast
    have "walk_batch frames nb rem_raw g s = Inr (fold (mark_start frames nb) (ps @ qs) starts, s')"
      using q(1) c(1) unfolding walk_batch_def I(1) BSLZ4_WALK_def Let_def prod.case m_def[symmetric] by (cases s') (simp add: fold_append)
    moreover have "set (ps @ qs) = {..<?d (Suc g)} \<times> {..<nb}" unfolding set_append I(2) q(2) m(2) d by auto
    moreover have "closed frames nb rem_raw 0 (?d (Suc g)) (status, 0) s'"
      using closed_trans[OF I(3)[unfolded d], of m s'] c(2) unfolding m(2) by simp
    ultimately show "\<exists>s'. walk_batch frames nb rem_raw g s = Inr s' \<and> ?I (Suc g) s'" by blast
  qed
  moreover have "?d ?G = ?nf" by (simp add: BSLZ4_WALK_def)
  ultimately show ?thesis by auto
qed

lemma fold_mark_nth:
  assumes "b < nb" "f * nb + b < length starts"
  shows "\<forall>q\<in>set ps. snd q < nb \<Longrightarrow> fold (mark_start frames nb) ps starts ! (f * nb + b)
    = (if (f, b) \<in> set ps \<and> snd (frame_walk (frames ! f) (Suc b)) = 0 then word_of_nat (fst (frame_walk (frames ! f) b)) else starts ! (f * nb + b))"
  using assms(2)
proof (induction ps arbitrary: starts)
  case (Cons q ps)
  obtain f' b' where q: "q = (f', b')" by (cases q)
  then have b': "b' < nb" using Cons.prems(1) by simp
  have i: "f' * nb + b' = f * nb + b \<longleftrightarrow> f' = f \<and> b' = b"
  proof
    assume e: "f' * nb + b' = f * nb + b"
    have "(f' * nb + b') div nb = f'" "(f * nb + b) div nb = f" using assms(1) b' by simp_all
    then have "f' = f" using e by metis
    then show "f' = f \<and> b' = b" using e by simp
  qed simp
  have l: "f * nb + b < length (mark_start frames nb q starts)" using Cons.prems(2) by (simp add: q mark_start_def)
  have "fold (mark_start frames nb) (q # ps) starts ! (f * nb + b)
      = (if (f, b) \<in> set ps \<and> snd (frame_walk (frames ! f) (Suc b)) = 0 then word_of_nat (fst (frame_walk (frames ! f) b))
         else mark_start frames nb q starts ! (f * nb + b))"
    using Cons.IH[OF _ l] Cons.prems(1) by simp
  moreover have "mark_start frames nb q starts ! (f * nb + b)
      = (if (f, b) = q \<and> snd (frame_walk (frames ! f) (Suc b)) = 0 then word_of_nat (fst (frame_walk (frames ! f) b)) else starts ! (f * nb + b))"
    using i Cons.prems(2) by (auto simp: q mark_start_def)
  ultimately show ?case by auto
qed simp

definition nblocks_of :: "nat \<Rightarrow> nat \<Rightarrow> nat \<Rightarrow> nat" where
  "nblocks_of NB tot blocksize = full_blocks tot blocksize + (if tail_bytes NB tot blocksize > 0 then 1 else 0)"

text \<open>
  C26: walking the frames eight at a time is walking each one alone: every frame's status is that of its own walk, \<open>starts\<close> receives at
  \<open>f * nblocks + b\<close> the offset of every block header its walk reaches and is left alone elsewhere, the call returns 0 exactly when every
  status is 0, and no access leaves a buffer that has room for the product of frames and blocks.
\<close>

theorem block_starts_walks:
  assumes "bslz4_driver_check_frames frames = Inr (total_len, blocksize)" "1 \<le> elem_size" "\<forall>c\<in>set frames. readable_chunk c"
    and "nb = nblocks_of (nat elem_size) (unat total_len) blocksize" "rem_raw = raw_bytes (nat elem_size) (unat total_len) blocksize"
    and "length frames * nb \<le> length starts" "length frames * nb < 2 ^ 64" "length frames \<le> length status"
  shows "\<exists>rc starts' status'. bslz4_driver_block_starts frames elem_size starts status = Inr (rc, starts', status', nb)
    \<and> length starts' = length starts \<and> length status' = length status
    \<and> rc = (if \<forall>c\<in>set frames. walk_status c nb rem_raw = 0 then 0 else BSLZ4_ERR_CORRUPT_CHUNK)
    \<and> (\<forall>f<length frames. status' ! f = walk_status (frames ! f) nb rem_raw
        \<and> (\<forall>b<nb. starts' ! (f * nb + b) = (if snd (frame_walk (frames ! f) (Suc b)) = 0 then word_of_nat (fst (frame_walk (frames ! f) b))
             else starts ! (f * nb + b))))"
proof -
  obtain ps status' rc where w: "fold_res (walk_batch frames nb rem_raw) [0..<(length frames + BSLZ4_WALK - 1) div BSLZ4_WALK] (starts, status, 0)
      = Inr (fold (mark_start frames nb) ps starts, status', rc)" "set ps = {..<length frames} \<times> {..<nb}"
    and c: "closed frames nb rem_raw 0 (length frames) (status, 0) (status', rc)"
    using walk_batches[OF assms(3,6-8), of rem_raw] by auto
  have r: "bslz4_driver_block_starts frames elem_size starts status = Inr (rc, fold (mark_start frames nb) ps starts, status', nb)"
    using assms(1,2,4-7) w(1) by (simp add: bslz4_driver_block_starts_def nblocks_of_def Let_def)
  have rc: "rc = (if \<forall>c\<in>set frames. walk_status c nb rem_raw = 0 then 0 else BSLZ4_ERR_CORRUPT_CHUNK)"
  proof -
    have "(\<exists>i. 0 \<le> i \<and> i < 0 + length frames \<and> walk_status (frames ! i) nb rem_raw \<noteq> 0) \<longleftrightarrow> \<not> (\<forall>c\<in>set frames. walk_status c nb rem_raw = 0)"
      by (simp add: all_set_conv_all_nth)
    then show ?thesis using c unfolding closed_def by auto
  qed
  have st: "\<forall>f<length frames. status' ! f = walk_status (frames ! f) nb rem_raw" "length status' = length status"
    using c assms(8) by (auto simp: closed_def)
  have marks: "fold (mark_start frames nb) ps starts ! (f * nb + b) = (if snd (frame_walk (frames ! f) (Suc b)) = 0
      then word_of_nat (fst (frame_walk (frames ! f) b)) else starts ! (f * nb + b))" if "f < length frames" "b < nb" for f b
  proof -
    have "f * nb + b < Suc f * nb" using that(2) by simp
    also have "\<dots> \<le> length frames * nb" using that(1) by (intro mult_le_mono1) simp
    finally have "f * nb + b < length starts" using assms(6) by linarith
    from fold_mark_nth[OF that(2) this, of ps frames] show ?thesis using w(2) that by auto
  qed
  show ?thesis using r rc st marks by auto
qed

text \<open>Two chunks of one block of one byte: the first is well framed, the second ends inside its block.\<close>

definition sample_chunk :: chunk where
  "sample_chunk = \<lparr>ck_mem = be64 8 @ be32 8 @ be32 2 @ [9, 9], ck_len = 18\<rparr>"

definition sample_cut_chunk :: chunk where
  "sample_cut_chunk = \<lparr>ck_mem = be64 8 @ be32 8 @ be32 2 @ [9, 9], ck_len = 17\<rparr>"

theorem block_starts_walks_witness:
  "\<exists>starts' status'. bslz4_driver_block_starts [sample_chunk, sample_cut_chunk] 1 [7, 7] [5, 5] = Inr (BSLZ4_ERR_CORRUPT_CHUNK, starts', status', 1)
    \<and> status' ! 0 = 0 \<and> status' ! 1 = BSLZ4_ERR_CORRUPT_CHUNK \<and> starts' ! 0 = 12 \<and> starts' ! 1 = 7"
proof -
  have c: "bslz4_driver_check_frames [sample_chunk, sample_cut_chunk] = Inr (8, 8)" by code_simp
  have n: "nblocks_of (nat 1) (unat (8 :: 64 word)) 8 = 1" "raw_bytes (nat 1) (unat (8 :: 64 word)) 8 = 0" by code_simp+
  have s: "walk_status sample_chunk 1 0 = 0" "walk_status sample_cut_chunk 1 0 = BSLZ4_ERR_CORRUPT_CHUNK" "BSLZ4_ERR_CORRUPT_CHUNK \<noteq> 0"
    "snd (frame_walk sample_chunk (Suc 0)) = 0" "snd (frame_walk sample_cut_chunk (Suc 0)) \<noteq> 0" by code_simp+
  have "\<forall>c\<in>set [sample_chunk, sample_cut_chunk]. readable_chunk c" by (simp add: readable_chunk_def sample_chunk_def sample_cut_chunk_def)
  from block_starts_walks[OF c _ this n[symmetric], of "[7, 7]" "[5, 5]"] s show ?thesis by (auto simp: less_2_cases_iff all_conj_distrib)
qed

text \<open>
  C40: the check of the room for the starts is made on a product that wraps around: two frames whose headers claim \<open>2^63\<close> blocks
  of one byte pass it with no room at all, and the first start is stored outside the buffer.
\<close>

theorem block_starts_wraps:
  "bslz4_driver_block_starts (replicate 2 \<lparr>ck_mem = be64 0x8000000000000000 @ be32 1 @ be32 0, ck_len = 16\<rparr>) 1 [] [0, 0] = Inl Fault"
proof -
  let ?c = "\<lparr>ck_mem = be64 0x8000000000000000 @ be32 1 @ be32 0, ck_len = 16\<rparr>" and ?n = "2 ^ 63 :: nat"
  have c: "bslz4_driver_check_frames (replicate 2 ?c) = Inr (0x8000000000000000, 1)" by code_simp
  have r: "bslz4_read_be32 (be64 0x8000000000000000 @ be32 1 @ be32 0) 12 = Inr 0" by code_simp
  have w: "walk_one (replicate 2 ?c) n 0 0 0 (replicate 2 12, replicate 2 0, []) = Inl Fault" for n
    by (simp add: walk_one_def load_def Let_def store_def UINT32_MAX_def numeral_2_eq_2 r)
  then have f: "fold_res (walk_one (replicate 2 ?c) n 0 0) [0..<2] (replicate 2 12, replicate 2 0, []) = Inl Fault" for n
    by (simp add: upt_rec)
  have b: "walk_batch (replicate 2 ?c) n 0 0 ([], [0, 0], 0) = Inl Fault" if "0 < n" for n
  proof -
    have "[0..<n] = 0 # [Suc 0..<n]" using that by (rule upt_conv_Cons)
    then show ?thesis unfolding walk_batch_def BSLZ4_WALK_def Let_def prod.case using f[of n] by simp
  qed
  have "walk_batch (replicate 2 ?c) ?n 0 0 ([], [0, 0], 0) = Inl Fault" by (rule b) simp
  moreover have "[0..<(length (replicate 2 ?c) + BSLZ4_WALK - 1) div BSLZ4_WALK] = [0]" by (simp add: BSLZ4_WALK_def)
  ultimately show ?thesis unfolding bslz4_driver_block_starts_def c
    by (simp add: full_blocks_def tail_bytes_def raw_bytes_def Let_def)
qed

end
