(* ===== verification/Frames.thy ===== *)
theory Frames
  imports Framing
begin

text \<open>
  What a chunk means: the planes of its blocks as its codec reads them, and the frame's pixels. The front half alone
  (\<open>bslz4_driver_decompress\<close>) writes exactly those.
\<close>

section \<open>Bytes as pixels\<close>

definition bytes_pixels :: "nat \<Rightarrow> byte list \<Rightarrow> pix list" where
  "bytes_pixels NB bs = map (pix_at NB bs) [0..<length bs div NB]"

lemma length_bytes_pixels [simp]: "length (bytes_pixels NB bs) = length bs div NB"
  by (simp add: bytes_pixels_def)

lemma pix_at_cong: "(\<And>i. i < NB \<Longrightarrow> m ! (NB * e + i) = m' ! (NB * e' + i)) \<Longrightarrow> pix_at NB m e = pix_at NB m' e'"
  unfolding pix_at_def by (intro arg_cong[of _ _ word_of_bits] map_cong refl) (simp add: less_mult_imp_div_less mult.commute)

lemma bytes_pixels_append:
  assumes "NB dvd length xs" "0 < NB"
  shows "bytes_pixels NB (xs @ ys) = bytes_pixels NB xs @ bytes_pixels NB ys"
proof -
  obtain k where k: "length xs = NB * k" using assms(1) by blast
  then have l: "length (xs @ ys) div NB = k + length ys div NB" "length xs div NB = k" using assms(2) by simp_all
  have a: "pix_at NB (xs @ ys) e = pix_at NB xs e" if "e < k" for e
  proof (rule pix_at_cong)
    fix i assume "i < NB"
    then have "NB * e + i < NB * Suc e" by simp
    also have "\<dots> \<le> NB * k" using that by (intro mult_le_mono2) simp
    finally show "(xs @ ys) ! (NB * e + i) = xs ! (NB * e + i)" using k by (simp add: nth_append)
  qed
  have b: "pix_at NB (xs @ ys) i = pix_at NB ys (i - k)" if "k \<le> i" for i
    by (rule pix_at_cong) (use that in \<open>auto simp: nth_append k distrib_left add.assoc dest!: le_Suc_ex\<close>)
  show ?thesis unfolding bytes_pixels_def l
    by (rule nth_equalityI) (auto simp: nth_append a b)
qed

lemma bytes_pixels_bytes:
  assumes "0 < NB" "\<And>x. x \<in> set xs \<Longrightarrow> narrow NB x"
  shows "bytes_pixels NB (bytes_of_pixels NB xs) = xs"
  using assms by (intro nth_equalityI) (simp_all add: bytes_pixels_def pix_at_bytes)

lemma load_pixels_eq:
  assumes "p + NB * n \<le> length m" "0 < NB"
  shows "load_pixels NB m p n = Inr (bytes_pixels NB (take (NB * n) (drop p m)))"
  using assms by (simp add: load_pixels_def load_n_ok bytes_pixels_def)

lemma narrow_pix_at [simp]: "narrow NB (pix_at NB m e)"
  by (auto simp: narrow_def pix_at_def)

section \<open>The blocks of a chunk\<close>

definition block_sizes :: "nat \<Rightarrow> nat \<Rightarrow> nat \<Rightarrow> nat list" where
  "block_sizes NB tot blocksize =
     replicate (full_blocks tot blocksize) blocksize @ (if tail_bytes NB tot blocksize > 0 then [tail_bytes NB tot blocksize] else [])"

text \<open>The planes of the blocks from \<open>pos\<close> on, and where they end.\<close>

fun chunk_planes :: "codec_lib \<Rightarrow> int \<Rightarrow> chunk \<Rightarrow> nat list \<Rightarrow> nat \<Rightarrow> (byte list list \<times> nat) option" where
  "chunk_planes lib dec c [] pos = Some ([], pos)"
| "chunk_planes lib dec c (sz # szs) pos =
     (case next_block c pos of Inl _ \<Rightarrow> None
      | Inr n \<Rightarrow> (case codec_planes lib dec (block_bytes c pos n) sz of None \<Rightarrow> None
          | Some p \<Rightarrow> (case chunk_planes lib dec c szs (pos + n + 4) of None \<Rightarrow> None | Some (ps, e) \<Rightarrow> Some (p # ps, e))))"

text \<open>The bytes stored raw at the chunk's end.\<close>

definition raw_tail :: "chunk \<Rightarrow> nat \<Rightarrow> nat \<Rightarrow> byte list option" where
  "raw_tail c pos k =
     (if k = 0 then Some []
      else if ck_len c < int k \<or> int pos > ck_len c - int k then None
      else Some (take k (drop (nat (ck_len c) - k) (ck_mem c))))"

definition chunk_data :: "codec_lib \<Rightarrow> int \<Rightarrow> nat \<Rightarrow> nat \<Rightarrow> nat \<Rightarrow> chunk \<Rightarrow> (byte list list \<times> byte list) option" where
  "chunk_data lib dec NB tot blocksize c =
     (case chunk_planes lib dec c (block_sizes NB tot blocksize) 12 of None \<Rightarrow> None
      | Some (ps, e) \<Rightarrow> map_option (Pair ps) (raw_tail c e (raw_bytes NB tot blocksize)))"

definition planes_pixels :: "nat \<Rightarrow> byte list \<Rightarrow> pix list" where
  "planes_pixels NB p = plane_pixels NB (length p div NB) p"

text \<open>The pixels of a frame, if its codec reads the chunk.\<close>

definition frame_pixels :: "codec_lib \<Rightarrow> int \<Rightarrow> nat \<Rightarrow> nat \<Rightarrow> nat \<Rightarrow> chunk \<Rightarrow> pix list option" where
  "frame_pixels lib dec NB tot blocksize c =
     map_option (\<lambda>(ps, r). concat (map (planes_pixels NB) ps) @ bytes_pixels NB r) (chunk_data lib dec NB tot blocksize c)"

lemma chunk_planes_append:
  "chunk_planes lib dec c (xs @ ys) pos =
     (case chunk_planes lib dec c xs pos of None \<Rightarrow> None
      | Some (ps, e) \<Rightarrow> (case chunk_planes lib dec c ys e of None \<Rightarrow> None | Some (qs, e') \<Rightarrow> Some (ps @ qs, e')))"
  by (induction xs arbitrary: pos) (auto split: sum.splits option.splits)

lemma chunk_planes_lengths:
  "zstd_fills lib \<Longrightarrow> chunk_planes lib dec c szs pos = Some (ps, e) \<Longrightarrow> map length ps = szs"
  by (induction szs arbitrary: pos ps) (auto split: sum.splits option.splits dest: codec_planes_length)

lemma raw_tail_length: "readable_chunk c \<Longrightarrow> raw_tail c pos k = Some r \<Longrightarrow> length r = k"
  by (auto simp: raw_tail_def readable_chunk_def split: if_splits)

lemma frame_sizes:
  assumes "0 < blocksize"
  shows "full_blocks tot blocksize * blocksize + tail_bytes NB tot blocksize + raw_bytes NB tot blocksize = tot"
    and "tail_bytes NB tot blocksize < blocksize"
    and "sum_list (block_sizes NB tot blocksize) + raw_bytes NB tot blocksize = tot"
proof -
  let ?r = "tot - full_blocks tot blocksize * blocksize"
  have r: "?r = tot mod blocksize" by (simp add: full_blocks_def minus_div_mult_eq_mod)
  then have le: "tail_bytes NB tot blocksize \<le> ?r" "full_blocks tot blocksize * blocksize \<le> tot"
    by (simp_all add: tail_bytes_def full_blocks_def)
  then show s: "full_blocks tot blocksize * blocksize + tail_bytes NB tot blocksize + raw_bytes NB tot blocksize = tot"
    by (simp add: raw_bytes_def)
  show "tail_bytes NB tot blocksize < blocksize" using le(1) r assms by (metis le_less_trans mod_less_divisor)
  show "sum_list (block_sizes NB tot blocksize) + raw_bytes NB tot blocksize = tot"
    using s by (simp add: block_sizes_def sum_list_replicate)
qed

section \<open>The front half writes the frame\<close>

text \<open>What a block leaves in the output: its planes, or its pixels' bytes.\<close>

definition block_out :: "nat \<Rightarrow> bool \<Rightarrow> byte list \<Rightarrow> byte list" where
  "block_out NB unshuffle p = (if unshuffle then bytes_of_pixels NB (planes_pixels NB p) else p)"

definition whole_groups :: "nat \<Rightarrow> nat \<Rightarrow> bool" where
  "whole_groups NB sz \<longleftrightarrow> sz mod (8 * NB) = 0"

lemma whole_groupsD:
  assumes "whole_groups NB sz" "0 < NB"
  shows "sz div NB mod 8 = 0" "sz div NB * NB = sz" "NB dvd sz"
proof -
  obtain k where k: "sz = 8 * NB * k" using assms(1) by (auto simp: whole_groups_def)
  then have "sz div NB = 8 * k" using assms(2) by simp
  then show "sz div NB mod 8 = 0" "sz div NB * NB = sz" "NB dvd sz" using k by simp_all
qed

lemma length_block_out: "(unshuffle \<Longrightarrow> NB dvd length p) \<Longrightarrow> length (block_out NB unshuffle p) = length p"
  by (auto simp: block_out_def planes_pixels_def)

lemma backend_bytes:
  assumes "shuffle_conforms lib" "ne mod 8 = 0" "NB \<in> {1, 2, 4, 8}" "ne * NB \<le> length raw" "ne * NB \<le> length block"
  shows "\<exists>ret. bslz4_untranspose_backend lib bld val block raw ne NB = Inr (ret, blit block 0 (bytes_of_pixels NB (plane_pixels NB ne raw))) \<and> 0 \<le> ret"
proof -
  let ?in = "take (ne * NB) raw"
  obtain ret out where k: "untranspose_kernel lib bld val ?in ne NB = (ret, out)"
    by (cases "untranspose_kernel lib bld val ?in ne NB") auto
  have "length ?in = ne * NB" using assms(4) by simp
  from untransposesD[OF kernel_untransposes[OF assms(1)] this assms(2,3)]
  have o: "0 \<le> ret" "out = bytes_of_pixels NB (plane_pixels NB ne raw)"
    using k plane_pixels_take[OF assms(2), of NB raw] by (metis fst_conv, metis snd_conv)
  have "length out \<le> length block" using o(2) assms(5) by (simp add: mult.commute)
  then show ?thesis using k assms(4) o by (simp add: bslz4_untranspose_backend_def load_n_ok store_n_ok)
qed

text \<open>The codec of the front half: stock lz4 or zstd.\<close>

lemma front_codec:
  assumes "lz4_conforms lib" "zstd_fills lib" "codec_planes lib dec src sz = Some p"
  shows "(if dec = BSLZ4_DECODE_ZSTD then ZSTD_decompress lib src sz else LZ4_decompress_safe lib src sz) = (int sz, p)"
  using assms unfolding codec_planes_def lz4_conforms_def zstd_fills_def
  by (cases "dec = BSLZ4_DECODE_ZSTD") (auto split: if_splits sum.splits simp: prod_eq_iff)

lemma decompress_block_ok:
  assumes lib: "lz4_conforms lib" "zstd_fills lib" "shuffle_conforms slib" and NB: "NB \<in> {1, 2, 4, 8}"
    and c: "readable_chunk c" "next_block c pos = Inr n" "codec_planes lib dec (block_bytes c pos n) sz = Some p"
    and room: "dst + off + sz \<le> length out" "unshuffle \<Longrightarrow> whole_groups NB sz \<and> sz \<le> length raw \<and> sz \<le> length block"
  shows "\<exists>raw' block'. decompress_block lib slib bld NB dec untr unshuffle c dst sz (out, raw, block, pos, off)
      = Inr (blit out (dst + off) (block_out NB unshuffle p), raw', block', pos + n + 4, off + sz)
    \<and> length raw' = length raw \<and> length block' = length block"
proof -
  have ld: "load_n (ck_mem c) (pos + 4) n = Inr (block_bytes c pos n)"
    using next_block_cases[OF c(1), of pos] c(2) by auto
  have lp: "length p = sz" using codec_planes_length[OF lib(2) c(3)] .
  note cod = front_codec[OF lib(1,2) c(3)]
  show ?thesis
  proof (cases unshuffle)
    case False
    then show ?thesis using c(2) ld cod lp room(1) by (simp add: decompress_block_def block_out_def store_n_ok split_beta)
  next
    case True
    have NB0: "0 < NB" using NB by auto
    have sz: "whole_groups NB sz" "sz \<le> length raw" "sz \<le> length block" using room(2) True by auto
    note g = whole_groupsD[OF sz(1) NB0]
    let ?raw = "blit raw 0 p" and ?bs = "bytes_of_pixels NB (planes_pixels NB p)"
    have lr: "length ?raw = length raw" using lp sz(2) by (simp add: length_blit)
    obtain ret where b: "bslz4_untranspose_backend slib bld untr block ?raw (sz div NB) NB
        = Inr (ret, blit block 0 (bytes_of_pixels NB (plane_pixels NB (sz div NB) ?raw)))" "0 \<le> ret"
      using backend_bytes[OF lib(3) g(1) NB, of ?raw block bld untr] sz(2,3) lr g(2) by auto
    have "take (sz div NB * NB) ?raw = p" using lp sz(2) g(2) by (simp add: blit_def)
    then have pp: "plane_pixels NB (sz div NB) ?raw = planes_pixels NB p"
      using plane_pixels_take[OF g(1), of NB ?raw] lp by (simp add: planes_pixels_def)
    have lbs: "length ?bs = sz" using lp g(2) by (simp add: planes_pixels_def mult.commute)
    have "load_n (blit block 0 ?bs) 0 sz = Inr ?bs" using lbs sz(3) by (simp add: load_n_ok length_blit blit_def)
    then have "decompress_block lib slib bld NB dec untr unshuffle c dst sz (out, raw, block, pos, off)
      = Inr (blit out (dst + off) ?bs, ?raw, blit block 0 ?bs, pos + n + 4, off + sz)"
      using True c(2) ld cod lp b room(1) sz(2) lbs pp by (simp add: decompress_block_def store_n_ok split_beta)
    then show ?thesis using True lr lbs sz(3) by (simp add: block_out_def length_blit)
  qed
qed

lemma decompress_blocks_ok:
  assumes lib: "lz4_conforms lib" "zstd_fills lib" "shuffle_conforms slib" and NB: "NB \<in> {1, 2, 4, 8}" and c: "readable_chunk c"
    and szs: "unshuffle \<Longrightarrow> \<forall>sz\<in>set szs. whole_groups NB sz \<and> sz \<le> wsz"
  shows "chunk_planes lib dec c szs pos = Some (ps, e) \<Longrightarrow> dst + off + sum_list szs \<le> length out \<Longrightarrow> length raw = wsz \<or> \<not> unshuffle
    \<Longrightarrow> length block = wsz \<or> \<not> unshuffle
    \<Longrightarrow> \<exists>raw' block'. fold_res (decompress_block lib slib bld NB dec untr unshuffle c dst) szs (out, raw, block, pos, off)
      = Inr (blit out (dst + off) (concat (map (block_out NB unshuffle) ps)), raw', block', e, off + sum_list szs)
    \<and> length raw' = length raw \<and> length block' = length block \<and> length (concat (map (block_out NB unshuffle) ps)) = sum_list szs"
  using szs
proof (induction szs arbitrary: pos ps off out raw block)
  case (Cons sz szs)
  obtain n p qs where n: "next_block c pos = Inr n" "codec_planes lib dec (block_bytes c pos n) sz = Some p"
    "chunk_planes lib dec c szs (pos + n + 4) = Some (qs, e)" "ps = p # qs"
    using Cons.prems(1) by (auto split: sum.splits option.splits)
  have lp: "length p = sz" using codec_planes_length[OF lib(2) n(2)] .
  have NB0: "0 < NB" using NB by auto
  have lb: "length (block_out NB unshuffle p) = sz"
    using lp length_block_out[of unshuffle NB p] whole_groupsD(3)[OF _ NB0] Cons.prems(5) by auto
  have "dst + off + sz \<le> length out" "unshuffle \<Longrightarrow> whole_groups NB sz \<and> sz \<le> length raw \<and> sz \<le> length block"
    using Cons.prems(2-5) by auto
  from decompress_block_ok[OF lib NB c n(1,2) this, where bld = bld and untr = untr] obtain raw1 block1 where
    r1: "decompress_block lib slib bld NB dec untr unshuffle c dst sz (out, raw, block, pos, off)
      = Inr (blit out (dst + off) (block_out NB unshuffle p), raw1, block1, pos + n + 4, off + sz)" "length raw1 = length raw" "length block1 = length block"
    by blast
  have o: "dst + (off + sz) + sum_list szs \<le> length (blit out (dst + off) (block_out NB unshuffle p))"
    using Cons.prems(2) lb by (simp add: length_blit)
  have w: "length raw1 = wsz \<or> \<not> unshuffle" "length block1 = wsz \<or> \<not> unshuffle" "unshuffle \<Longrightarrow> \<forall>sz\<in>set szs. whole_groups NB sz \<and> sz \<le> wsz"
    using Cons.prems(3-5) r1(2,3) by auto
  from Cons.IH[OF n(3) o w] obtain raw2 block2 where
    r2: "fold_res (decompress_block lib slib bld NB dec untr unshuffle c dst) szs (blit out (dst + off) (block_out NB unshuffle p), raw1, block1, pos + n + 4, off + sz)
      = Inr (blit (blit out (dst + off) (block_out NB unshuffle p)) (dst + (off + sz)) (concat (map (block_out NB unshuffle) qs)), raw2, block2, e, off + sz + sum_list szs)"
    "length raw2 = length raw1" "length block2 = length block1" "length (concat (map (block_out NB unshuffle) qs)) = sum_list szs" by blast
  have "blit (blit out (dst + off) (block_out NB unshuffle p)) (dst + (off + sz)) (concat (map (block_out NB unshuffle) qs))
      = blit out (dst + off) (block_out NB unshuffle p @ concat (map (block_out NB unshuffle) qs))"
    using blit_blit[OF lb, of "dst + off" "concat (map (block_out NB unshuffle) qs)" out] r2(4) Cons.prems(2) by (simp add: add.assoc)
  then show ?case using r1 r2 n(4) lb by (simp add: add.assoc)
qed simp

text \<open>What the front half leaves of a frame.\<close>

definition frame_out :: "nat \<Rightarrow> bool \<Rightarrow> byte list list \<times> byte list \<Rightarrow> byte list" where
  "frame_out NB unshuffle = (\<lambda>(ps, r). concat (map (block_out NB unshuffle) ps) @ r)"

lemma decompress_frame_ok:
  assumes lib: "lz4_conforms lib" "zstd_fills lib" "shuffle_conforms slib" and NB: "NB \<in> {1, 2, 4, 8}" and c: "readable_chunk c" "0 < blocksize"
    and szs: "unshuffle \<Longrightarrow> whole_groups NB blocksize"
    and d: "chunk_data lib dec NB tot blocksize c = Some q"
    and room: "f * tot + tot \<le> length out" "unshuffle \<Longrightarrow> length raw = min blocksize tot \<and> length block = min blocksize tot"
  shows "\<exists>raw' block'. decompress_frame lib slib bld NB dec untr unshuffle tot blocksize (f, c) (out, raw, block)
      = Inr (blit out (f * tot) (frame_out NB unshuffle q), raw', block')
    \<and> length raw' = length raw \<and> length block' = length block \<and> length (frame_out NB unshuffle q) = tot"
proof -
  let ?szs = "block_sizes NB tot blocksize" and ?rem = "raw_bytes NB tot blocksize"
  obtain ps e r where q: "chunk_planes lib dec c ?szs 12 = Some (ps, e)" "raw_tail c e ?rem = Some r" "q = (ps, r)"
    using d by (auto simp: chunk_data_def split: option.splits)
  have fs: "sum_list ?szs + ?rem = tot" using frame_sizes(3)[OF c(2)] .
  have lr: "length r = ?rem" using raw_tail_length[OF c(1) q(2)] .
  have g: "\<forall>sz\<in>set ?szs. whole_groups NB sz \<and> sz \<le> min blocksize tot" if u: unshuffle
  proof
    fix sz assume sz: "sz \<in> set ?szs"
    then have "sz \<le> sum_list ?szs" by (simp add: member_le_sum_list)
    moreover have "sz \<le> blocksize" using sz frame_sizes(2)[OF c(2), of NB tot] by (auto simp: block_sizes_def split: if_splits)
    moreover have "whole_groups NB sz" using sz szs u by (auto simp: block_sizes_def tail_bytes_def whole_groups_def split: if_splits)
    ultimately show "whole_groups NB sz \<and> sz \<le> min blocksize tot" using fs by simp
  qed
  have o: "f * tot + 0 + sum_list ?szs \<le> length out" using room(1) fs by simp
  have ln: "length raw = min blocksize tot \<or> \<not> unshuffle" "length block = min blocksize tot \<or> \<not> unshuffle" using room(2) by auto
  from decompress_blocks_ok[OF lib NB c(1) _ q(1) o ln, where bld = bld and untr = untr, OF g] obtain raw' block' where
    b: "fold_res (decompress_block lib slib bld NB dec untr unshuffle c (f * tot)) ?szs (out, raw, block, 12, 0)
      = Inr (blit out (f * tot) (concat (map (block_out NB unshuffle) ps)), raw', block', e, sum_list ?szs)"
    "length raw' = length raw" "length block' = length block" "length (concat (map (block_out NB unshuffle) ps)) = sum_list ?szs"
    by auto
  have fin: "(if ?rem > 0 then
       if ck_len c < int ?rem \<or> int e > ck_len c - int ?rem then Inl (Code BSLZ4_ERR_CORRUPT_CHUNK)
       else rbind (load_n (ck_mem c) (nat (ck_len c) - ?rem) ?rem) (\<lambda>bs. rbind (store_n (blit out (f * tot) (concat (map (block_out NB unshuffle) ps))) (f * tot + sum_list ?szs) bs)
         (\<lambda>out. Inr (out, raw', block')))
     else Inr (blit out (f * tot) (concat (map (block_out NB unshuffle) ps)), raw', block'))
     = Inr (blit out (f * tot) (frame_out NB unshuffle q), raw', block')"
  proof (cases "?rem > 0")
    case False
    then show ?thesis using q(2,3) by (simp add: raw_tail_def frame_out_def)
  next
    case True
    then have k: "\<not> (ck_len c < int ?rem \<or> int e > ck_len c - int ?rem)" "r = take ?rem (drop (nat (ck_len c) - ?rem) (ck_mem c))"
      using q(2) by (auto simp: raw_tail_def split: if_splits)
    have ll: "nat (ck_len c) - ?rem + ?rem \<le> length (ck_mem c)" using k(1) c(1) unfolding readable_chunk_def by linarith
    have ls: "f * tot + sum_list ?szs + length r \<le> length (blit out (f * tot) (concat (map (block_out NB unshuffle) ps)))"
      using b(4) o room(1) lr fs by (simp add: length_blit)
    have bb: "blit (blit out (f * tot) (concat (map (block_out NB unshuffle) ps))) (f * tot + sum_list ?szs) r = blit out (f * tot) (frame_out NB unshuffle q)"
      unfolding q(3) frame_out_def prod.case by (rule blit_blit) (use b(4) lr fs room(1) in simp_all)
    show ?thesis using True k(1) unfolding load_n_ok[OF ll] rbind.simps k(2)[symmetric] store_n_ok[OF ls] bb by simp
  qed
  have "decompress_frame lib slib bld NB dec untr unshuffle tot blocksize (f, c) (out, raw, block)
      = Inr (blit out (f * tot) (frame_out NB unshuffle q), raw', block')"
    unfolding decompress_frame_def Let_def prod.case block_sizes_def[symmetric] b(1) rbind.simps fin ..
  then show ?thesis using b(2-4) fs lr by (auto simp: frame_out_def q(3))
qed

lemma take_drop_blit_same: "p + length vs \<le> length xs \<Longrightarrow> take (length vs) (drop p (blit xs p vs)) = vs"
  by (rule nth_equalityI) (auto simp: length_blit nth_blit)

lemma take_drop_blit_other: "p + length vs \<le> length xs \<Longrightarrow> q + k \<le> p \<or> p + length vs \<le> q \<Longrightarrow> take k (drop q (blit xs p vs)) = take k (drop q xs)"
  by (rule nth_equalityI) (auto simp: length_blit nth_blit)

lemma decompress_frames_ok:
  assumes lib: "lz4_conforms lib" "zstd_fills lib" "shuffle_conforms slib" and NB: "NB \<in> {1, 2, 4, 8}" and bs: "0 < blocksize"
    and szs: "unshuffle \<Longrightarrow> whole_groups NB blocksize"
    and c: "\<forall>c\<in>set frames. readable_chunk c" and d: "\<forall>c\<in>set frames. chunk_data lib dec NB tot blocksize c \<noteq> None"
    and room: "length frames * tot \<le> length out" "unshuffle \<Longrightarrow> length raw = min blocksize tot \<and> length block = min blocksize tot"
  shows "\<exists>s. fold_res (decompress_frame lib slib bld NB dec untr unshuffle tot blocksize) (enumerate 0 frames) (out, raw, block) = Inr s
    \<and> length (fst s) = length out
    \<and> (\<forall>f<length frames. take tot (drop (f * tot) (fst s)) = frame_out NB unshuffle (the (chunk_data lib dec NB tot blocksize (frames ! f))))"
proof -
  let ?q = "\<lambda>f. frame_out NB unshuffle (the (chunk_data lib dec NB tot blocksize (frames ! f)))"
  let ?I = "\<lambda>n (s :: byte list \<times> byte list \<times> byte list). length (fst s) = length out \<and> length (fst (snd s)) = length raw \<and> length (snd (snd s)) = length block
    \<and> (\<forall>f<n. take tot (drop (f * tot) (fst s)) = ?q f)"
  have e: "enumerate 0 frames = map (\<lambda>f. (f, frames ! f)) [0..<length frames]" by (rule nth_equalityI) (simp_all add: nth_enumerate_eq)
  have "\<exists>s. fold_res (\<lambda>f. decompress_frame lib slib bld NB dec untr unshuffle tot blocksize (f, frames ! f)) [0..<length frames] (out, raw, block) = Inr s
      \<and> ?I (length frames) s"
  proof (rule fold_upt_inv[where I = ?I])
    fix n and s :: "byte list \<times> byte list \<times> byte list" assume n: "n < length frames" and I: "?I n s"
    obtain o1 r1 b1 where s: "s = (o1, r1, b1)" by (cases s)
    have nc: "frames ! n \<in> set frames" using n by simp
    have "Suc n * tot \<le> length frames * tot" using n by (intro mult_le_mono1) simp
    then have r: "n * tot + tot \<le> length o1" using room(1) I s by simp
    have rb: "unshuffle \<Longrightarrow> length r1 = min blocksize tot \<and> length b1 = min blocksize tot" using room(2) I s by simp
    obtain q where q: "chunk_data lib dec NB tot blocksize (frames ! n) = Some q" using d nc by blast
    from decompress_frame_ok[OF lib NB c[rule_format, OF nc] bs szs q r rb, where bld = bld and untr = untr] obtain r2 b2 where
      x: "decompress_frame lib slib bld NB dec untr unshuffle tot blocksize (n, frames ! n) (o1, r1, b1) = Inr (blit o1 (n * tot) (frame_out NB unshuffle q), r2, b2)"
      "length r2 = length r1" "length b2 = length b1" "length (frame_out NB unshuffle q) = tot" by blast
    have other: "take tot (drop (f * tot) (blit o1 (n * tot) (frame_out NB unshuffle q))) = ?q f" if f: "f < Suc n" for f
    proof (cases "f = n")
      case True
      then show ?thesis using take_drop_blit_same[of "n * tot" "frame_out NB unshuffle q" o1] x(4) r q by simp
    next
      case False
      then have "Suc f * tot \<le> n * tot" using f by (intro mult_le_mono1) simp
      then have "take tot (drop (f * tot) (blit o1 (n * tot) (frame_out NB unshuffle q))) = take tot (drop (f * tot) o1)"
        using x(4) r by (intro take_drop_blit_other) simp_all
      then show ?thesis using I s f False by simp
    qed
    have "?I (Suc n) (blit o1 (n * tot) (frame_out NB unshuffle q), r2, b2)"
      using I s x(2-4) r other by (simp add: length_blit)
    then show "\<exists>s'. decompress_frame lib slib bld NB dec untr unshuffle tot blocksize (n, frames ! n) s = Inr s' \<and> ?I (Suc n) s'"
      unfolding s x(1) by blast
  qed simp
  then show ?thesis unfolding e fold_res_map by blast
qed

lemma check_frames_block: "bslz4_driver_check_frames frames = Inr (t, b) \<Longrightarrow> 0 < b"
proof (cases frames)
  case (Cons c cs)
  assume "bslz4_driver_check_frames frames = Inr (t, b)"
  then have "header_block_bytes c = Inr b" using Cons by (auto simp: rbind_Inr_iff split: if_splits)
  then show ?thesis by (auto simp: header_block_bytes_def rbind_Inr_iff BSLZ4_DEFAULT_BLOCK_BYTES_def unat_gt_0)
qed simp

lemma frame_out_pixels:
  assumes "zstd_fills lib" "NB \<in> {1, 2, 4, 8}" "0 < blocksize" "whole_groups NB blocksize" "readable_chunk c"
    and d: "chunk_data lib dec NB tot blocksize c = Some q"
  shows "bytes_pixels NB (frame_out NB True q) = concat (map (planes_pixels NB) (fst q)) @ bytes_pixels NB (snd q)"
    and "length (frame_out NB True q) = tot"
proof -
  have NB: "0 < NB" using assms(2) by auto
  obtain ps e r where q: "chunk_planes lib dec c (block_sizes NB tot blocksize) 12 = Some (ps, e)" "raw_tail c e (raw_bytes NB tot blocksize) = Some r" "q = (ps, r)"
    using d by (auto simp: chunk_data_def split: option.splits)
  have ln: "map length ps = block_sizes NB tot blocksize" using chunk_planes_lengths[OF assms(1) q(1)] .
  have dv: "NB dvd length p" if "p \<in> set ps" for p
  proof -
    have "length p \<in> set (block_sizes NB tot blocksize)" using that ln by (metis image_eqI list.set_map)
    then show ?thesis using assms(4) by (auto simp: block_sizes_def tail_bytes_def whole_groups_def split: if_splits)
  qed
  have lo: "length (block_out NB True p) = length p" if "p \<in> set ps" for p using length_block_out dv[OF that] by blast
  have px: "bytes_pixels NB (block_out NB True p) = planes_pixels NB p" for p
    using NB by (auto simp: block_out_def planes_pixels_def plane_pixels_def intro!: bytes_pixels_bytes)
  have cc: "(\<forall>p\<in>set qs. NB dvd length (block_out NB True p)) \<Longrightarrow> bytes_pixels NB (concat (map (block_out NB True) qs) @ r)
      = concat (map (planes_pixels NB) qs) @ bytes_pixels NB r" for qs
    by (induction qs) (simp_all add: bytes_pixels_append NB px)
  show "bytes_pixels NB (frame_out NB True q) = concat (map (planes_pixels NB) (fst q)) @ bytes_pixels NB (snd q)"
    using cc[of ps] lo dv by (simp add: frame_out_def q(3))
  have "length (concat (map (block_out NB True) ps)) = sum_list (map length ps)" using lo by (simp add: length_concat comp_def cong: map_cong)
  then show "length (frame_out NB True q) = tot"
    using ln raw_tail_length[OF assms(5) q(2)] frame_sizes(3)[OF assms(3), of NB tot] by (simp add: frame_out_def q(3))
qed

lemma bytes_pixels_cut:
  assumes "0 < NB"
  shows "bytes_pixels NB (take (NB * (length b div NB)) b) = bytes_pixels NB b"
proof -
  let ?n = "NB * (length b div NB)"
  have l: "length (take ?n b) = ?n" "length (drop ?n b) div NB = 0" using assms by (simp_all add: minus_mult_div_eq_mod)
  have "bytes_pixels NB b = bytes_pixels NB (take ?n b) @ bytes_pixels NB (drop ?n b)"
    using bytes_pixels_append[of NB "take ?n b" "drop ?n b"] l(1) assms by simp
  moreover have "bytes_pixels NB (drop ?n b) = []" using l(2) by (simp add: bytes_pixels_def)
  ultimately show ?thesis by simp
qed

text \<open>Frame \<open>k\<close> of the output, read as pixels.\<close>

lemma frame_at_offset:
  assumes "take tot (drop (k * tot) out) = b" "length b = tot" "k < n" "n * tot \<le> length out" "0 < NB"
  shows "load_pixels NB out (k * tot) (tot div NB) = Inr (bytes_pixels NB b)"
proof -
  have m: "NB * (tot div NB) \<le> tot" by simp
  have "Suc k * tot \<le> n * tot" using assms(3) by (intro mult_le_mono1) simp
  then have "k * tot + NB * (tot div NB) \<le> length out" using assms(4) m unfolding mult_Suc by linarith
  then have "load_pixels NB out (k * tot) (tot div NB) = Inr (bytes_pixels NB (take (NB * (tot div NB)) (drop (k * tot) out)))"
    using assms(5) by (rule load_pixels_eq)
  also have "take (NB * (tot div NB)) (drop (k * tot) out) = take (NB * (tot div NB)) (take tot (drop (k * tot) out))" using m by simp
  finally show ?thesis using bytes_pixels_cut[OF assms(5), of b] assms(1,2) by simp
qed

text \<open>
  C25: decompressing a batch with unshuffle gives, frame after frame, exactly the pixels the chunks mean, for lz4 and zstd data and every
  untranspose value: full blocks, the partial tail block and the raw remainder, each frame at its offset.
\<close>

theorem decompress_frames:
  assumes "lz4_conforms lib" "zstd_fills lib" "shuffle_conforms slib" and "elem_size \<in> {1, 2, 4, 8}" "NB = nat elem_size"
    and "dec = BSLZ4_DECODE_LZ4_STOCK \<or> dec = BSLZ4_DECODE_ZSTD \<and> dctx"
    and "bslz4_driver_check_frames frames = Inr (total_len, blocksize)" "tot = unat total_len" "int tot \<le> INT32_MAX"
    and "blocksize mod (8 * NB) = 0" "length frames * tot \<le> length out" "3 * min blocksize tot \<le> length workspace"
    and "\<forall>c\<in>set frames. readable_chunk c" "\<forall>c\<in>set frames. frame_pixels lib dec NB tot blocksize c \<noteq> None"
  shows "\<exists>out'. bslz4_driver_decompress lib slib bld dctx frames out workspace elem_size dec untr True = Inr out' \<and> length out' = length out
    \<and> (\<forall>f<length frames. load_pixels NB out' (f * tot) (tot div NB) = Inr (the (frame_pixels lib dec NB tot blocksize (frames ! f))))"
proof -
  have NB: "NB \<in> {1, 2, 4, 8}" "0 < NB" using assms(4,5) by auto
  have bs: "0 < blocksize" using check_frames_block[OF assms(7)] .
  have w: "(if blocksize < tot then blocksize else tot) = min blocksize tot" by simp
  let ?w = "min blocksize tot"
  have d: "\<forall>c\<in>set frames. chunk_data lib dec NB tot blocksize c \<noteq> None" using assms(14) by (simp add: frame_pixels_def)
  have lw: "True \<Longrightarrow> length (take ?w workspace) = min blocksize tot \<and> length (take ?w (drop (2 * ?w) workspace)) = min blocksize tot"
    using assms(12) by auto
  have wg: "True \<Longrightarrow> whole_groups NB blocksize" using assms(10) by (simp add: whole_groups_def)
  from decompress_frames_ok[OF assms(1-3) NB(1) bs wg assms(13) d assms(11) lw, where bld = bld and untr = untr and unshuffle = True] obtain out' r b where
    f: "fold_res (decompress_frame lib slib bld NB dec untr True tot blocksize) (enumerate 0 frames)
        (out, take ?w workspace, take ?w (drop (2 * ?w) workspace)) = Inr (out', r, b)" "length out' = length out"
      "\<forall>f<length frames. take tot (drop (f * tot) out') = frame_out NB True (the (chunk_data lib dec NB tot blocksize (frames ! f)))" by auto
  have e: "int tot > INT32_MAX \<longleftrightarrow> False" "length frames * tot > length out \<longleftrightarrow> False" "blocksize mod (8 * NB) \<noteq> 0 \<longleftrightarrow> False" "length workspace < 3 * ?w \<longleftrightarrow> False"
    "(dec \<noteq> BSLZ4_DECODE_LZ4_STOCK \<and> dec \<noteq> BSLZ4_DECODE_ZSTD) \<longleftrightarrow> False" "(dec = BSLZ4_DECODE_ZSTD \<and> \<not> dctx) \<longleftrightarrow> False" "elem_size \<notin> {1, 2, 4, 8} \<longleftrightarrow> False"
    using assms(4,6,9-12) by (auto simp: step_values)
  have r: "bslz4_driver_decompress lib slib bld dctx frames out workspace elem_size dec untr True = Inr out'"
    unfolding bslz4_driver_decompress_def assms(7) rbind.simps prod.case Let_def assms(5,8)[symmetric] w e simp_thms if_False f(1) ..
  have "load_pixels NB out' (k * tot) (tot div NB) = Inr (the (frame_pixels lib dec NB tot blocksize (frames ! k)))" if k: "k < length frames" for k
  proof -
    have c: "frames ! k \<in> set frames" using k by simp
    obtain q where q: "chunk_data lib dec NB tot blocksize (frames ! k) = Some q" using d c by blast
    note fp = frame_out_pixels[OF assms(2) NB(1) bs wg[OF TrueI] assms(13)[rule_format, OF c] q]
    have o: "take tot (drop (k * tot) out') = frame_out NB True q" "length frames * tot \<le> length out'" using f(2,3) k q assms(11) by simp_all
    show ?thesis using frame_at_offset[OF o(1) fp(2) k o(2) NB(2)] unfolding fp(1) frame_pixels_def q by (simp add: split_beta)
  qed
  then show ?thesis using r f(2) by blast
qed

text \<open>Two 8-pixel frames of u8, one stored block each (zstd), header block size 8.\<close>

definition sample_frames :: "chunk list" where
  "sample_frames = [\<lparr>ck_mem = be64 8 @ be32 8 @ be32 8 @ [255, 0, 0, 0, 0, 0, 0, 0], ck_len = 24\<rparr>,
     \<lparr>ck_mem = be64 8 @ be32 8 @ be32 8 @ [1, 2, 0, 0, 0, 0, 0, 0], ck_len = 24\<rparr>]"

theorem decompress_frames_witness:
  "\<exists>out'. bslz4_driver_decompress ref_codec ref_shuffle sample_build True sample_frames (replicate 16 7) (replicate 24 0) 1 BSLZ4_DECODE_ZSTD
      BSLZ4_UNTRANSPOSE_KCB True = Inr out' \<and> load_pixels 1 out' 0 8 = Inr [1, 1, 1, 1, 1, 1, 1, 1] \<and> load_pixels 1 out' 8 8 = Inr [1, 2, 0, 0, 0, 0, 0, 0]"
proof -
  have c: "bslz4_driver_check_frames sample_frames = Inr (8, 8)" by code_simp
  have p: "map (frame_pixels ref_codec BSLZ4_DECODE_ZSTD 1 8 8) sample_frames = [Some [1, 1, 1, 1, 1, 1, 1, 1], Some [1, 2, 0, 0, 0, 0, 0, 0]]"
    by code_simp
  have r: "\<forall>c\<in>set sample_frames. readable_chunk c" by (simp add: sample_frames_def readable_chunk_def)
  have n: "\<forall>c\<in>set sample_frames. frame_pixels ref_codec BSLZ4_DECODE_ZSTD 1 8 8 c \<noteq> None"
  proof
    fix c assume "c \<in> set sample_frames"
    then have "frame_pixels ref_codec BSLZ4_DECODE_ZSTD 1 8 8 c \<in> set (map (frame_pixels ref_codec BSLZ4_DECODE_ZSTD 1 8 8) sample_frames)" by simp
    then show "frame_pixels ref_codec BSLZ4_DECODE_ZSTD 1 8 8 c \<noteq> None" unfolding p by auto
  qed
  have l: "length sample_frames = 2" by (simp add: sample_frames_def)
  have q: "frame_pixels ref_codec BSLZ4_DECODE_ZSTD 1 8 8 (sample_frames ! 0) = Some [1, 1, 1, 1, 1, 1, 1, 1]"
    "frame_pixels ref_codec BSLZ4_DECODE_ZSTD 1 8 8 (sample_frames ! 1) = Some [1, 2, 0, 0, 0, 0, 0, 0]"
    using p l nth_map[of 0 sample_frames "frame_pixels ref_codec BSLZ4_DECODE_ZSTD 1 8 8"] nth_map[of 1 sample_frames "frame_pixels ref_codec BSLZ4_DECODE_ZSTD 1 8 8"] by simp_all
  obtain out' where o: "bslz4_driver_decompress ref_codec ref_shuffle sample_build True sample_frames (replicate 16 7) (replicate 24 0) 1 BSLZ4_DECODE_ZSTD
      BSLZ4_UNTRANSPOSE_KCB True = Inr out'"
    "\<forall>f<length sample_frames. load_pixels 1 out' (f * 8) (8 div 1) = Inr (the (frame_pixels ref_codec BSLZ4_DECODE_ZSTD 1 8 8 (sample_frames ! f)))"
    using decompress_frames[OF ref_codec_conforms ref_shuffle_conforms, where elem_size = 1 and NB = 1 and dec = BSLZ4_DECODE_ZSTD and dctx = True
        and total_len = 8 and blocksize = 8 and tot = 8, OF _ _ _ c _ _ _ _ _ r n, where out = "replicate 16 7" and workspace = "replicate 24 0"
        and bld = sample_build and untr = BSLZ4_UNTRANSPOSE_KCB] l
    by (auto simp: INT32_MAX_def)
  show ?thesis using o(1) o(2)[rule_format, of 0] o(2)[rule_format, of 1] q l by auto
qed

end
