(* ===== verification/Floats.thy ===== *)
theory Floats
  imports Prelude
begin

text \<open>
  C's \<open>float\<close> and \<open>double\<close> as their IEEE 754 bit patterns (binary32, binary64, round to nearest even), and the
  operations the dot kernels use. A finite value is \<open>(-1)^s * m * 2^e\<close>; an operation is computed exactly and rounded once.
  A NaN result is the quiet NaN with an empty payload: which payload a processor propagates is not modelled.
\<close>

section \<open>Formats\<close>

datatype fval = NaN | Inf bool | Fin bool int int

text \<open>\<open>mb\<close> fraction bits, \<open>eb\<close> exponent bits; \<open>emin\<close> is the exponent of the smallest subnormal.\<close>

definition emin :: "nat \<Rightarrow> nat \<Rightarrow> int" where
  "emin mb eb = 2 - 2 ^ (eb - 1) - int mb"

definition inf_bits :: "nat \<Rightarrow> nat \<Rightarrow> int" where
  "inf_bits mb eb = (2 ^ eb - 1) * 2 ^ mb"

definition sign_bit_at :: "nat \<Rightarrow> nat \<Rightarrow> bool \<Rightarrow> int" where
  "sign_bit_at mb eb s = (if s then 2 ^ (mb + eb) else 0)"

definition fdec :: "nat \<Rightarrow> nat \<Rightarrow> int \<Rightarrow> fval" where
  "fdec mb eb x =
     (let s = odd (x div 2 ^ (mb + eb)); E = (x div 2 ^ mb) mod 2 ^ eb; F = x mod 2 ^ mb in
      if E = 2 ^ eb - 1 then (if F = 0 then Inf s else NaN)
      else if E = 0 then Fin s F (emin mb eb)
      else Fin s (2 ^ mb + F) (E - 1 + emin mb eb))"

function bitlen :: "int \<Rightarrow> int" where
  "bitlen n = (if n \<le> 0 then 0 else 1 + bitlen (n div 2))"
  by pat_completeness auto
termination
  by (relation "measure nat") auto

declare bitlen.simps [simp del]

text \<open>\<open>m / 2^k\<close> to the nearest integer, ties to even.\<close>

definition rne :: "int \<Rightarrow> nat \<Rightarrow> int" where
  "rne m k =
     (let q = m div 2 ^ k; r = m mod 2 ^ k in
      if 2 * r > 2 ^ k \<or> (2 * r = 2 ^ k \<and> odd q) then q + 1 else q)"

definition fround :: "nat \<Rightarrow> nat \<Rightarrow> bool \<Rightarrow> int \<Rightarrow> int \<Rightarrow> int" where
  "fround mb eb s m e =
     sign_bit_at mb eb s +
     (if m = 0 then 0
      else let q = max (e + bitlen m - int (mb + 1)) (emin mb eb);
               M = (if q \<le> e then m * 2 ^ nat (e - q) else rne m (nat (q - e))) in
        min (inf_bits mb eb) ((q - emin mb eb) * 2 ^ mb + M))"

definition fenc :: "nat \<Rightarrow> nat \<Rightarrow> fval \<Rightarrow> int" where
  "fenc mb eb v = (case v of NaN \<Rightarrow> inf_bits mb eb + 2 ^ (mb - 1)
     | Inf s \<Rightarrow> sign_bit_at mb eb s + inf_bits mb eb
     | Fin s m e \<Rightarrow> fround mb eb s m e)"

section \<open>Exact arithmetic on values\<close>

definition signed :: "bool \<Rightarrow> int \<Rightarrow> int" where
  "signed s m = (if s then - m else m)"

text \<open>The sum; an exact zero is \<open>-0\<close> only if both operands are negative.\<close>

definition vadd :: "fval \<Rightarrow> fval \<Rightarrow> fval" where
  "vadd a b = (case a of NaN \<Rightarrow> NaN
     | Inf s \<Rightarrow> (case b of NaN \<Rightarrow> NaN | Inf t \<Rightarrow> if s = t then Inf s else NaN | Fin _ _ _ \<Rightarrow> Inf s)
     | Fin s m e \<Rightarrow> (case b of NaN \<Rightarrow> NaN | Inf t \<Rightarrow> Inf t
        | Fin t n f \<Rightarrow>
            let g = min e f; z = signed s m * 2 ^ nat (e - g) + signed t n * 2 ^ nat (f - g) in
            if z = 0 then Fin (s \<and> t) 0 g else Fin (z < 0) \<bar>z\<bar> g))"

definition vmul :: "fval \<Rightarrow> fval \<Rightarrow> fval" where
  "vmul a b = (case a of NaN \<Rightarrow> NaN
     | Inf s \<Rightarrow> (case b of NaN \<Rightarrow> NaN | Inf t \<Rightarrow> Inf (s \<noteq> t) | Fin t n _ \<Rightarrow> if n = 0 then NaN else Inf (s \<noteq> t))
     | Fin s m e \<Rightarrow> (case b of NaN \<Rightarrow> NaN | Inf t \<Rightarrow> if m = 0 then NaN else Inf (s \<noteq> t)
        | Fin t n f \<Rightarrow> Fin (s \<noteq> t) (m * n) (e + f)))"

section \<open>binary64 and binary32\<close>

type_synonym f64 = "64 word"

definition dec64 :: "f64 \<Rightarrow> fval" where "dec64 x = fdec 52 11 (uint x)"
definition enc64 :: "fval \<Rightarrow> f64" where "enc64 v = word_of_int (fenc 52 11 v)"
definition dec32 :: "64 word \<Rightarrow> fval" where "dec32 x = fdec 23 8 (uint (take_bit 32 x))"
definition enc32 :: "fval \<Rightarrow> 64 word" where "enc32 v = word_of_int (fenc 23 8 v)"

definition f64_add :: "f64 \<Rightarrow> f64 \<Rightarrow> f64" where
  "f64_add x y = enc64 (vadd (dec64 x) (dec64 y))"

definition f64_mul :: "f64 \<Rightarrow> f64 \<Rightarrow> f64" where
  "f64_mul x y = enc64 (vmul (dec64 x) (dec64 y))"

definition f64_fma :: "f64 \<Rightarrow> f64 \<Rightarrow> f64 \<Rightarrow> f64" where
  "f64_fma x y z = enc64 (vadd (vmul (dec64 x) (dec64 y)) (dec64 z))"

definition f64_of_f32 :: "64 word \<Rightarrow> f64" where
  "f64_of_f32 x = enc64 (dec32 x)"

definition f32_of_f64 :: "f64 \<Rightarrow> 64 word" where
  "f32_of_f64 x = enc32 (dec64 x)"

definition f64_of_int :: "int \<Rightarrow> f64" where
  "f64_of_int i = enc64 (Fin (i < 0) \<bar>i\<bar> 0)"

definition f32_of_int :: "int \<Rightarrow> 64 word" where
  "f32_of_int i = enc32 (Fin (i < 0) \<bar>i\<bar> 0)"

text \<open>
  \<open>o += w * v\<close>. The C standard lets a compiler contract it to one fused operation; whether it does is \<open>fc\<close>.
\<close>

definition madd :: "bool \<Rightarrow> f64 \<Rightarrow> f64 \<Rightarrow> f64 \<Rightarrow> f64" where
  "madd fc w v acc = (if fc then f64_fma w v acc else f64_add acc (f64_mul w v))"

text \<open>\<open>a > b\<close>; the order of the non-NaN values is that of their sign-magnitude integers.\<close>

definition fkey :: "nat \<Rightarrow> nat \<Rightarrow> int \<Rightarrow> int" where
  "fkey mb eb x = signed (odd (x div 2 ^ (mb + eb))) (x mod 2 ^ (mb + eb))"

definition fgt :: "nat \<Rightarrow> nat \<Rightarrow> int \<Rightarrow> int \<Rightarrow> bool" where
  "fgt mb eb x y \<longleftrightarrow> x mod 2 ^ (mb + eb) \<le> inf_bits mb eb \<and> y mod 2 ^ (mb + eb) \<le> inf_bits mb eb \<and> fkey mb eb x > fkey mb eb y"

definition f64_gt :: "f64 \<Rightarrow> f64 \<Rightarrow> bool" where "f64_gt x y = fgt 52 11 (uint x) (uint y)"
definition f32_gt :: "64 word \<Rightarrow> 64 word \<Rightarrow> bool" where "f32_gt x y = fgt 23 8 (uint (take_bit 32 x)) (uint (take_bit 32 y))"

section \<open>Rounding\<close>

lemma bitlen_unique: "2 ^ j \<le> n \<Longrightarrow> n < 2 ^ Suc j \<Longrightarrow> bitlen n = int j + 1"
proof (induction j arbitrary: n)
  case 0
  then have "n = 1" by simp
  then show ?case by (simp add: bitlen.simps[of 1] bitlen.simps[of 0])
next
  case (Suc j)
  then have "2 ^ j \<le> n div 2" "n div 2 < 2 ^ Suc j" by simp_all
  with Suc.IH have "bitlen (n div 2) = int j + 1" by blast
  moreover have "0 < n" using Suc.prems(1) by (metis less_le_trans zero_less_numeral zero_less_power)
  ultimately show ?case by (simp add: bitlen.simps[of n])
qed

lemma bitlen_ex: "0 < n \<Longrightarrow> \<exists>j. 2 ^ j \<le> n \<and> n < 2 ^ Suc j \<and> bitlen n = int j + 1"
proof (induction n rule: bitlen.induct)
  case (1 n)
  show ?case
  proof (cases "n = 1")
    case True
    then show ?thesis by (auto intro!: exI[of _ 0] simp: bitlen.simps[of 1] bitlen.simps[of 0])
  next
    case False
    then have "0 < n div 2" using 1(2) by simp
    then obtain j where j: "2 ^ j \<le> n div 2" "n div 2 < 2 ^ Suc j" using 1 by auto
    then have "2 ^ Suc j \<le> n" "n < 2 ^ Suc (Suc j)" by simp_all
    then show ?thesis using bitlen_unique by blast
  qed
qed

lemma bitlen_shift: "0 < n \<Longrightarrow> bitlen (n * 2 ^ k) = bitlen n + int k"
proof -
  assume "0 < n"
  then obtain j where j: "2 ^ j \<le> n" "n < 2 ^ Suc j" "bitlen n = int j + 1" using bitlen_ex by blast
  have "2 ^ (j + k) \<le> n * 2 ^ k" "n * 2 ^ k < 2 ^ Suc (j + k)"
    using j(1,2) by (simp_all add: power_add mult_right_mono)
  from bitlen_unique[OF this] show ?thesis using j(3) by simp
qed

lemma rne_exact: "rne (m * 2 ^ k) k = m"
  by (simp add: rne_def)

lemma rne_shift: "rne (m * 2 ^ k) (k + j) = rne m j"
proof -
  have e: "(2 :: int) ^ (k + j) = 2 ^ j * 2 ^ k" by (simp add: power_add mult.commute)
  have "m * 2 ^ k div 2 ^ (k + j) = m div 2 ^ j" unfolding e by (rule div_mult_mult2) simp
  moreover have "m * 2 ^ k mod 2 ^ (k + j) = (m mod 2 ^ j) * 2 ^ k" unfolding e by (rule mod_mult_mult2)
  moreover have "2 * (r * 2 ^ k) > 2 ^ (k + j) \<longleftrightarrow> 2 * r > 2 ^ j" "2 * (r * 2 ^ k) = 2 ^ (k + j) \<longleftrightarrow> 2 * r = 2 ^ j" for r :: int
  proof -
    have e: "2 * (r * 2 ^ k) = (2 * r) * 2 ^ k" "(2 :: int) ^ (k + j) = 2 ^ j * 2 ^ k" by (simp_all add: power_add mult.commute)
    show "2 * (r * 2 ^ k) > 2 ^ (k + j) \<longleftrightarrow> 2 * r > 2 ^ j" "2 * (r * 2 ^ k) = 2 ^ (k + j) \<longleftrightarrow> 2 * r = 2 ^ j"
      unfolding e by simp_all
  qed
  ultimately show ?thesis by (simp add: rne_def Let_def)
qed

lemma fround_shift:
  assumes "0 \<le> m"
  shows "fround mb eb s (m * 2 ^ k) e = fround mb eb s m (e + int k)"
proof (cases "m = 0")
  case True
  then show ?thesis by (simp add: fround_def)
next
  case False
  define q where "q = max (e + int k + bitlen m - int (mb + 1)) (emin mb eb)"
  have q': "max (e + bitlen (m * 2 ^ k) - int (mb + 1)) (emin mb eb) = q"
    using False assms bitlen_shift[of m k] by (simp add: q_def algebra_simps)
  have "(if q \<le> e then m * 2 ^ k * 2 ^ nat (e - q) else rne (m * 2 ^ k) (nat (q - e)))
      = (if q \<le> e + int k then m * 2 ^ nat (e + int k - q) else rne m (nat (q - (e + int k))))"
  proof -
    consider "q \<le> e" | "e < q" "q \<le> e + int k" | "e + int k < q" by linarith
    then show ?thesis
    proof cases
      case 1
      then have "nat (e + int k - q) = k + nat (e - q)" by simp
      then show ?thesis using 1 by (simp add: power_add)
    next
      case 2
      define a where "a = nat (q - e)"
      define b where "b = nat (e + int k - q)"
      have "k = a + b" using 2 by (simp add: a_def b_def)
      then have "rne (m * 2 ^ k) a = m * 2 ^ b" using rne_exact[of "m * 2 ^ b" a] by (simp add: power_add mult.commute mult.left_commute)
      then show ?thesis using 2 by (simp add: a_def b_def)
    next
      case 3
      then have "nat (q - e) = k + nat (q - (e + int k))" by simp
      then show ?thesis using 3 rne_shift[of m k "nat (q - (e + int k))"] by simp
    qed
  qed
  then show ?thesis using False unfolding fround_def Let_def q' q_def[symmetric] by simp
qed

text \<open>A finite pattern is the rounding of its value.\<close>

lemma fround_dec:
  assumes x: "0 \<le> x" "x < 2 ^ (mb + eb + 1)" and d: "fdec mb eb x = Fin s m e"
  shows "fround mb eb s m e = x" and "0 \<le> m" and "emin mb eb \<le> e"
proof -
  define S where "S = x div 2 ^ (mb + eb)"
  define E where "E = x div 2 ^ mb mod 2 ^ eb"
  define F where "F = x mod 2 ^ mb"
  have SA: "S = x div 2 ^ mb div 2 ^ eb" by (simp add: S_def power_add zdiv_zmult2_eq)
  have A: "x div 2 ^ mb = S * 2 ^ eb + E" unfolding SA E_def by (rule div_mult_mod_eq[symmetric])
  have "x = (x div 2 ^ mb) * 2 ^ mb + F" unfolding F_def by (rule div_mult_mod_eq[symmetric])
  then have xe: "x = S * 2 ^ (mb + eb) + (E * 2 ^ mb + F)" unfolding A by (simp add: power_add algebra_simps)
  have F: "0 \<le> F" "F < 2 ^ mb" and E: "0 \<le> E" "E < 2 ^ eb" by (simp_all add: F_def E_def)
  have S0: "0 \<le> S" using x(1) by (simp add: S_def pos_imp_zdiv_nonneg_iff)
  have "S < 2"
  proof (rule ccontr)
    assume "\<not> S < 2"
    then have "2 * 2 ^ (mb + eb) \<le> S * 2 ^ (mb + eb)" by (intro mult_right_mono) simp_all
    moreover have "0 \<le> E * 2 ^ mb" using E(1) by simp
    moreover have "x < 2 * 2 ^ (mb + eb)" using x(2) by simp
    ultimately show False using xe F(1) by linarith
  qed
  with S0 have "S = 0 \<or> S = 1" by linarith
  then have sg: "sign_bit_at mb eb (odd S) = S * 2 ^ (mb + eb)" by (auto simp: sign_bit_at_def)
  have dd: "fdec mb eb x = (if E = 2 ^ eb - 1 then if F = 0 then Inf (odd S) else NaN
      else if E = 0 then Fin (odd S) F (emin mb eb) else Fin (odd S) (2 ^ mb + F) (E - 1 + emin mb eb))"
    by (simp add: fdec_def Let_def S_def E_def F_def)
  then have Em: "E \<noteq> 2 ^ eb - 1" using d by (auto split: if_splits)
  have s: "s = odd S" using d dd Em by (auto split: if_splits)
  have le: "E * 2 ^ mb + F \<le> inf_bits mb eb"
  proof -
    have "(E + 1) * 2 ^ mb \<le> (2 ^ eb - 1) * 2 ^ mb" using E Em by (intro mult_right_mono) simp_all
    then show ?thesis using F by (simp add: inf_bits_def distrib_right)
  qed
  have "fround mb eb s m e = x \<and> 0 \<le> m \<and> emin mb eb \<le> e"
  proof (cases "E = 0")
    case True
    then have m: "m = F" "e = emin mb eb" using d dd Em by auto
    show ?thesis
    proof (cases "F = 0")
      case True
      then show ?thesis using m xe sg \<open>E = 0\<close> by (simp add: fround_def s)
    next
      case False
      then obtain j where j: "2 ^ j \<le> F" "bitlen F = int j + 1" using bitlen_ex[of F] F by auto
      have "j < mb" using j(1) F(2) by (metis le_less_trans power_strict_increasing_iff numeral_One one_less_numeral_iff semiring_norm(76))
      then have "max (e + bitlen F - int (mb + 1)) (emin mb eb) = e" using j(2) m(2) by simp
      then show ?thesis using m xe sg \<open>E = 0\<close> False F le by (simp add: fround_def s)
    qed
  next
    case False
    then have m: "m = 2 ^ mb + F" "e = E - 1 + emin mb eb" using d dd Em by auto
    have b: "bitlen m = int mb + 1" by (rule bitlen_unique) (use m F in simp_all)
    have q: "max (e + bitlen m - int (mb + 1)) (emin mb eb) = e" using b m False E by simp
    have "m \<noteq> 0" using m F by (metis add_pos_nonneg less_irrefl zero_less_numeral zero_less_power)
    moreover have "(e - emin mb eb) * 2 ^ mb + m = E * 2 ^ mb + F" by (simp add: m left_diff_distrib)
    ultimately show ?thesis using q le xe sg F E m False by (simp add: fround_def s)
  qed
  then show "fround mb eb s m e = x" "0 \<le> m" "emin mb eb \<le> e" by auto
qed

text \<open>The magnitude of a rounded value lies between zero and infinity; it is zero only for zero, unless the value underflows.\<close>

lemma fround_bounds:
  assumes "0 \<le> m" "0 < eb"
  shows "\<exists>r. fround mb eb s m e = sign_bit_at mb eb s + r \<and> 0 \<le> r \<and> r \<le> inf_bits mb eb \<and> (emin mb eb \<le> e \<longrightarrow> 0 < m \<longrightarrow> 0 < r)"
proof (cases "m = 0")
  case True
  then show ?thesis by (simp add: fround_def inf_bits_def)
next
  case False
  define q where "q = max (e + bitlen m - int (mb + 1)) (emin mb eb)"
  define M where "M = (if q \<le> e then m * 2 ^ nat (e - q) else rne m (nat (q - e)))"
  define r where "r = min (inf_bits mb eb) ((q - emin mb eb) * 2 ^ mb + M)"
  have inf: "0 < inf_bits mb eb" using assms(2) by (simp add: inf_bits_def one_less_power)
  have M0: "0 \<le> M" using assms(1) by (simp add: M_def rne_def Let_def pos_imp_zdiv_nonneg_iff)
  have "0 \<le> r" using M0 inf by (simp add: r_def q_def)
  moreover have "0 < r" if e: "emin mb eb \<le> e"
  proof (cases "q \<le> e")
    case True
    then have "0 < M" using False assms(1) by (simp add: M_def)
    then show ?thesis using inf by (simp add: r_def q_def add_nonneg_pos)
  next
    case 2: False
    then have qe: "q = e + bitlen m - int (mb + 1)" using e by (auto simp: q_def)
    obtain j where j: "2 ^ j \<le> m" "bitlen m = int j + 1" using bitlen_ex[of m] False assms(1) by auto
    have n: "nat (q - e) = j - mb" "mb < j" using qe j(2) 2 by auto
    have "2 ^ mb * 2 ^ (j - mb) \<le> m" using j(1) n(2) by (simp flip: power_add)
    from zdiv_mono1[OF this, of "2 ^ (j - mb)"] have "2 ^ mb \<le> m div 2 ^ (j - mb)" by simp
    moreover have "(0 :: int) < 2 ^ mb" by simp
    ultimately have "0 < m div 2 ^ (j - mb)" by linarith
    then have "0 < M" using 2 n by (auto simp: M_def rne_def Let_def)
    then show ?thesis using inf by (simp add: r_def q_def add_nonneg_pos)
  qed
  moreover have "fround mb eb s m e = sign_bit_at mb eb s + r" using False by (simp add: fround_def r_def M_def q_def Let_def)
  ultimately show ?thesis by (auto simp: r_def)
qed

section \<open>Adding a zero\<close>

definition nan64 :: f64 where "nan64 = 0x7FF8000000000000"

text \<open>What a sum that started at \<open>+0\<close> can be: not \<open>-0\<close>, and no NaN but the default one.\<close>

definition stable :: "f64 \<Rightarrow> bool" where
  "stable x \<longleftrightarrow> x \<noteq> 0x8000000000000000 \<and> (dec64 x = NaN \<longrightarrow> x = nan64)"

lemma enc64_NaN: "enc64 NaN = nan64"
  by (simp add: enc64_def fenc_def nan64_def inf_bits_def)

lemma uint64_bounds: "0 \<le> uint (x :: 64 word)" "uint (x :: 64 word) < 2 ^ (52 + 11 + 1)"
  using unsigned_less[of x, where 'a = int] by simp_all

lemma dec64_Inf:
  assumes "dec64 x = Inf s"
  shows "enc64 (Inf s) = x"
proof -
  let ?x = "uint x"
  have r: "?x div 4503599627370496 mod 2048 = 2047" "?x mod 4503599627370496 = 0" "s = odd (?x div 9223372036854775808)"
    using assms by (auto simp: dec64_def fdec_def Let_def split: if_splits)
  have b: "0 \<le> ?x" "?x < 18446744073709551616" using uint64_bounds[of x] by simp_all
  have "?x = (if s then 9223372036854775808 else 0) + 9218868437227405312"
  proof -
    define A where "A = ?x div 4503599627370496"
    have xa: "?x = A * 4503599627370496" using r(2) mult_div_mod_eq[of 4503599627370496 ?x] unfolding A_def by linarith
    have A: "A < 4096" "0 \<le> A" using xa b by simp_all
    obtain c where c: "A = 2048 * c + 2047"
      using r(1) mult_div_mod_eq[of 2048 A] unfolding A_def by metis
    then have "c = 0 \<or> c = 1" using A by linarith
    then have "A = 2047 \<or> A = 4095" using c by auto
    then show ?thesis using r(3) xa by auto
  qed
  then have "fenc 52 11 (Inf s) = ?x" by (simp add: fenc_def sign_bit_at_def inf_bits_def)
  then show ?thesis by (simp add: enc64_def)
qed

lemma enc_dec64: "dec64 x \<noteq> NaN \<Longrightarrow> enc64 (dec64 x) = x"
proof (cases "dec64 x")
  case (Inf s)
  then show ?thesis using dec64_Inf by simp
next
  case (Fin s m e)
  then have "fround 52 11 s m e = uint x" using fround_dec(1)[OF uint64_bounds] by (simp add: dec64_def)
  then show ?thesis using Fin by (simp add: enc64_def fenc_def)
qed simp

lemma dec64_Fin: "dec64 x = Fin s m e \<Longrightarrow> 0 \<le> m \<and> emin 52 11 \<le> e"
  using fround_dec(2,3)[OF uint64_bounds, of x] by (auto simp: dec64_def)

lemma enc64_shift: "0 \<le> m \<Longrightarrow> enc64 (Fin s (m * 2 ^ k) e) = enc64 (Fin s m (e + int k))"
  by (simp add: enc64_def fenc_def fround_shift)

lemma signed_shift: "signed s m * 2 ^ k = signed s (m * 2 ^ k)"
  by (simp add: signed_def)

lemma signed_pos: "0 < m \<Longrightarrow> signed s m \<noteq> 0" "0 < m \<Longrightarrow> signed s m < 0 \<longleftrightarrow> s" "0 < m \<Longrightarrow> \<bar>signed s m\<bar> = m"
  by (auto simp: signed_def)

lemma vadd_zero:
  assumes "0 \<le> m" "0 < m"
  shows "enc64 (vadd (Fin s m e) (Fin t 0 f)) = enc64 (Fin s m e)" "enc64 (vadd (Fin t 0 f) (Fin s m e)) = enc64 (Fin s m e)"
proof -
  define k where "k = nat (e - min e f)"
  have k: "min e f + int k = e" "min f e + int k = e" by (simp_all add: k_def)
  have p: "0 < m * 2 ^ k" using assms by simp
  have z: "signed t 0 = 0" by (simp add: signed_def)
  have n: "signed s (m * 2 ^ k) \<noteq> 0" "signed s (m * 2 ^ k) < 0 \<longleftrightarrow> s" "\<bar>signed s (m * 2 ^ k)\<bar> = m * 2 ^ k"
    by (rule signed_pos[OF p])+
  have a: "vadd (Fin s m e) (Fin t 0 f) = Fin s (m * 2 ^ k) (min e f)"
    using n by (simp add: vadd_def Let_def z k_def[symmetric] signed_shift)
  have b: "vadd (Fin t 0 f) (Fin s m e) = Fin s (m * 2 ^ k) (min f e)"
    using n by (simp add: vadd_def Let_def z k_def[symmetric] signed_shift min.commute[of f])
  show "enc64 (vadd (Fin s m e) (Fin t 0 f)) = enc64 (Fin s m e)" unfolding a enc64_shift[OF assms(1)] k ..
  show "enc64 (vadd (Fin t 0 f) (Fin s m e)) = enc64 (Fin s m e)" unfolding b enc64_shift[OF assms(1)] k ..
qed

lemma enc64_zero: "enc64 (Fin s 0 e) = (if s then 0x8000000000000000 else 0)"
  by (simp add: enc64_def fenc_def fround_def sign_bit_at_def)

lemma stable_zero:
  assumes "stable x"
  shows "enc64 (vadd (dec64 x) (Fin t 0 f)) = x" "enc64 (vadd (Fin t 0 f) (dec64 x)) = x"
proof -
  consider (n) "dec64 x = NaN" | (i) s where "dec64 x = Inf s" | (z) s e where "dec64 x = Fin s 0 e"
    | (m) s m e where "dec64 x = Fin s m e" "0 < m" using dec64_Fin[of x] by (metis fval.exhaust less_le)
  then have "enc64 (vadd (dec64 x) (Fin t 0 f)) = x \<and> enc64 (vadd (Fin t 0 f) (dec64 x)) = x"
  proof cases
    case n
    then show ?thesis using assms by (simp add: vadd_def enc64_NaN stable_def)
  next
    case i
    then show ?thesis using dec64_Inf by (simp add: vadd_def)
  next
    case z
    then have "x = (if s then 0x8000000000000000 else 0)" using enc_dec64[of x] by (simp add: enc64_zero)
    then show ?thesis using z assms by (auto simp: vadd_def Let_def signed_def enc64_zero stable_def)
  next
    case m
    then show ?thesis using vadd_zero[of m] enc_dec64[of x] by simp
  qed
  then show "enc64 (vadd (dec64 x) (Fin t 0 f)) = x" "enc64 (vadd (Fin t 0 f) (dec64 x)) = x" by auto
qed

section \<open>Sums stay stable\<close>

lemma dec_number:
  assumes "0 \<le> r" "r \<le> inf_bits 52 11"
  shows "fdec 52 11 (sign_bit_at 52 11 s + r) \<noteq> NaN"
proof -
  define E where "E = r div 4503599627370496"
  define F where "F = r mod 4503599627370496"
  have r: "r = E * 4503599627370496 + F" using mult_div_mod_eq[of 4503599627370496 r] unfolding E_def F_def by linarith
  have F: "0 \<le> F" "F < 4503599627370496" by (simp_all add: F_def)
  have E: "0 \<le> E" "E \<le> 2047" "E = 2047 \<Longrightarrow> F = 0" using assms r F by (simp_all add: inf_bits_def)
  have x: "sign_bit_at 52 11 s + r = (if s then 2048 + E else E) * 4503599627370496 + F"
    unfolding r by (simp add: sign_bit_at_def)
  have "((if s then 2048 + E else E) * 4503599627370496 + F) div 4503599627370496 mod 2048 = E"
    using E F by auto
  moreover have "((if s then 2048 + E else E) * 4503599627370496 + F) mod 4503599627370496 = F" using F by auto
  ultimately show ?thesis using E(3) unfolding x by (simp add: fdec_def Let_def)
qed

lemma stable_Fin:
  assumes "0 \<le> m" "s \<Longrightarrow> 0 < m \<and> emin 52 11 \<le> e"
  shows "stable (enc64 (Fin s m e))"
proof -
  obtain r where r: "fround 52 11 s m e = sign_bit_at 52 11 s + r" "0 \<le> r" "r \<le> inf_bits 52 11" "s \<Longrightarrow> 0 < r"
    using fround_bounds[OF assms(1), of 11 52 s e] assms(2) by auto
  have b: "0 \<le> sign_bit_at 52 11 s + r" "sign_bit_at 52 11 s + r < 2 ^ 64"
    using r(2,3) by (simp_all add: sign_bit_at_def inf_bits_def)
  have u: "uint (enc64 (Fin s m e)) = sign_bit_at 52 11 s + r"
    unfolding enc64_def fenc_def fval.case r(1) by (rule word_of_int_inverse[where 'a = 64]) (use b in simp_all)
  have "sign_bit_at 52 11 s + r \<noteq> 9223372036854775808" using r(2-4) by (auto simp: sign_bit_at_def inf_bits_def)
  then have "enc64 (Fin s m e) \<noteq> 0x8000000000000000" using u by auto
  then show ?thesis using dec_number[OF r(2,3)] u by (simp add: stable_def dec64_def)
qed

lemma stable_special: "stable (enc64 NaN)" "stable (enc64 (Inf s))"
proof -
  show "stable (enc64 NaN)" by (simp add: enc64_NaN stable_def nan64_def)
  have "dec64 (enc64 (Inf s)) = Inf s" by (cases s) (simp_all add: enc64_def fenc_def sign_bit_at_def inf_bits_def dec64_def fdec_def)
  moreover have "enc64 (Inf s) \<noteq> 0x8000000000000000" by (cases s) (simp_all add: enc64_def fenc_def sign_bit_at_def inf_bits_def)
  ultimately show "stable (enc64 (Inf s))" by (simp add: stable_def)
qed

text \<open>A term whose exact value is a multiple of the smallest subnormal.\<close>

definition tame :: "fval \<Rightarrow> bool" where
  "tame v = (case v of Fin s m e \<Rightarrow> 0 \<le> m \<and> (m = 0 \<or> emin 52 11 \<le> e) | _ \<Rightarrow> True)"

lemma stable_vadd:
  assumes "stable x" "tame v"
  shows "stable (enc64 (vadd (dec64 x) v))"
proof (cases "dec64 x")
  case (Fin s m e)
  have x: "0 \<le> m" "emin 52 11 \<le> e" using dec64_Fin[OF Fin] by auto
  have nz: "\<not> (s \<and> m = 0)" using assms(1) enc_dec64[of x] Fin by (auto simp: stable_def enc64_zero)
  show ?thesis
  proof (cases v)
    case v: (Fin t n f)
    then have n: "0 \<le> n" "n = 0 \<or> emin 52 11 \<le> f" using assms(2) by (simp_all add: tame_def)
    show ?thesis
    proof (cases "n = 0")
      case True
      then show ?thesis using stable_zero(1)[OF assms(1)] assms(1) v by simp
    next
      case False
      define g where "g = min e f"
      define z where "z = signed s m * 2 ^ nat (e - g) + signed t n * 2 ^ nat (f - g)"
      have g: "emin 52 11 \<le> g" using n(2) x(2) False by (simp add: g_def)
      have va: "vadd (dec64 x) v = (if z = 0 then Fin (s \<and> t) 0 g else Fin (z < 0) \<bar>z\<bar> g)"
        using Fin v by (simp add: vadd_def Let_def g_def z_def)
      show ?thesis
      proof (cases "z = 0")
        case True
        have "(s \<and> t) = False"
        proof (rule ccontr)
          assume "(s \<and> t) \<noteq> False"
          then have st: s t by auto
          then have "0 \<le> m * 2 ^ nat (e - g)" "0 < n * 2 ^ nat (f - g)" using x(1) n(1) False by auto
          then show False using True st by (simp add: z_def signed_def)
        qed
        then have "vadd (dec64 x) v = Fin False 0 g" using va True by (cases s; cases t) simp_all
        then show ?thesis using stable_Fin[of 0 False g] by simp
      next
        case False
        then show ?thesis using va g by (simp add: stable_Fin)
      qed
    qed
  qed (use stable_special Fin in \<open>simp_all add: vadd_def\<close>)
next
  case NaN
  then show ?thesis using stable_special by (simp add: vadd_def)
next
  case (Inf s)
  then show ?thesis using stable_special by (cases v) (simp_all add: vadd_def)
qed

lemma tame_dec64: "tame (dec64 x)"
  by (cases "dec64 x") (auto simp: tame_def dest: dec64_Fin)

lemma vadd_commute: "vadd a b = vadd b a"
  by (cases a; cases b) (auto simp: vadd_def Let_def min.commute add.commute)

text \<open>\<open>o += w * v\<close> keeps a stable sum stable; contracted, if the exact product does not underflow.\<close>

lemma stable_madd:
  assumes "stable acc" "fc \<Longrightarrow> tame (vmul (dec64 w) (dec64 v))"
  shows "stable (madd fc w v acc)"
  using assms stable_vadd[OF assms(1)] tame_dec64
  by (cases fc) (simp_all add: madd_def f64_add_def f64_fma_def vadd_commute[of _ "dec64 acc"])

definition finite64 :: "f64 \<Rightarrow> bool" where
  "finite64 x \<longleftrightarrow> (case dec64 x of Fin _ _ _ \<Rightarrow> True | _ \<Rightarrow> False)"

lemma dec64_zero: "dec64 0 = Fin False 0 (emin 52 11)" "dec64 0x8000000000000000 = Fin True 0 (emin 52 11)"
  by (simp_all add: dec64_def fdec_def)

text \<open>A zero pixel adds nothing.\<close>

lemma madd_zero:
  assumes "stable acc" "finite64 w" "v = 0 \<or> v = 0x8000000000000000"
  shows "madd fc w v acc = acc"
proof -
  obtain s m e where w: "dec64 w = Fin s m e" using assms(2) by (auto simp: finite64_def split: fval.splits)
  obtain t f where v: "dec64 v = Fin t 0 f" using assms(3) dec64_zero by blast
  have m: "vmul (dec64 w) (dec64 v) = Fin (s \<noteq> t) 0 (e + f)" by (simp add: w v vmul_def)
  have "f64_mul w v = (if s \<noteq> t then 0x8000000000000000 else 0)" by (simp add: f64_mul_def m enc64_zero)
  then obtain u g where "dec64 (f64_mul w v) = Fin u 0 g" using dec64_zero by (metis (full_types))
  then show ?thesis using stable_zero[OF assms(1)] by (simp add: madd_def f64_add_def f64_fma_def m)
qed

section \<open>Integers that a format holds exactly\<close>

lemma fdec_parts:
  assumes F: "0 \<le> F" "F < 2 ^ mb" and E: "0 < E" "E < 2 ^ eb - 1"
  shows "fdec mb eb (sign_bit_at mb eb s + (E * 2 ^ mb + F)) = Fin s (2 ^ mb + F) (E - 1 + emin mb eb)"
proof -
  let ?A = "(if s then 2 ^ eb else 0) + E :: int"
  let ?x = "sign_bit_at mb eb s + (E * 2 ^ mb + F)"
  have x: "?x = ?A * 2 ^ mb + F" by (simp add: sign_bit_at_def power_add algebra_simps)
  have "(?A * 2 ^ mb + F) div 2 ^ mb = ?A + F div 2 ^ mb" using div_mult_self3[of "2 ^ mb" ?A F] by simp
  then have d: "?x div 2 ^ mb = ?A" using F by (simp only: x div_pos_pos_trivial add_0_right)
  have "(?A * 2 ^ mb + F) mod 2 ^ mb = F" using F by simp
  then have r: "?x mod 2 ^ mb = F" by (simp only: x)
  have E': "0 \<le> E" "E < 2 ^ eb" using E by simp_all
  have m: "?A mod 2 ^ eb = E" using E' by simp
  have "?x div 2 ^ (mb + eb) = ?A div 2 ^ eb" unfolding d[symmetric] by (simp add: power_add zdiv_zmult2_eq)
  also have "\<dots> = (if s then 1 else 0)"
    using E' div_mult_self3[of "2 ^ eb" "1 :: int" E] by (auto simp: div_pos_pos_trivial)
  finally have q: "?x div 2 ^ (mb + eb) = (if s then 1 else 0)" .
  show ?thesis using E unfolding fdec_def Let_def q d r m by simp
qed

lemma fdec_fround_int:
  assumes m: "0 < m" "m < 2 ^ Suc mb" and f: "int mb \<le> - emin mb eb" "1 - emin mb eb < 2 ^ eb - 1"
  shows "\<exists>k. fdec mb eb (fround mb eb s m 0) = Fin s (m * 2 ^ k) (- int k) \<and> 0 \<le> fround mb eb s m 0 \<and> fround mb eb s m 0 < 2 ^ (mb + eb + 1)"
proof -
  obtain j where j: "2 ^ j \<le> m" "m < 2 ^ Suc j" "bitlen m = int j + 1" using bitlen_ex[OF m(1)] by blast
  have "(2 :: int) ^ j < 2 ^ Suc mb" using j(1) m(2) by linarith
  then have "j \<le> mb" by (simp only: power_strict_increasing_iff less_Suc_eq_le)
  then obtain k where k: "mb = j + k" using le_Suc_ex by blast
  let ?M = "m * 2 ^ k"
  have M: "2 ^ mb \<le> ?M" "?M < 2 ^ mb + 2 ^ mb" using j(1,2) by (simp_all add: k power_add)
  have q: "max (0 + bitlen m - int (mb + 1)) (emin mb eb) = - int k" using j(3) k f(1) by simp
  define E where "E = 1 - int k - emin mb eb"
  define F where "F = ?M - 2 ^ mb"
  have EF: "0 \<le> F" "F < 2 ^ mb" "0 < E" "E < 2 ^ eb - 1" using M f k by (simp_all add: E_def F_def)
  have e: "(- int k - emin mb eb) * 2 ^ mb + ?M = E * 2 ^ mb + F" by (simp add: E_def F_def algebra_simps)
  have b: "E * 2 ^ mb + F \<le> (2 ^ eb - 1) * 2 ^ mb"
  proof -
    have "(E + 1) * 2 ^ mb \<le> (2 ^ eb - 1) * 2 ^ mb" using EF(4) by (intro mult_right_mono) simp_all
    then show ?thesis using EF(2) by (simp add: distrib_right)
  qed
  have "fround mb eb s m 0 = sign_bit_at mb eb s + min (inf_bits mb eb) (E * 2 ^ mb + F)"
    using m(1) k unfolding fround_def Let_def q e[symmetric] by simp
  then have r: "fround mb eb s m 0 = sign_bit_at mb eb s + (E * 2 ^ mb + F)" using b by (simp add: inf_bits_def)
  have p: "(0 :: int) \<le> E * 2 ^ mb" using EF(3) by simp
  have "(2 ^ eb - 1) * 2 ^ mb < (2 :: int) ^ (mb + eb)" by (simp add: power_add left_diff_distrib mult.commute)
  then have "0 \<le> fround mb eb s m 0" "fround mb eb s m 0 < 2 ^ (mb + eb + 1)" using p b EF(1) unfolding r by (simp_all add: sign_bit_at_def)
  moreover have "fdec mb eb (fround mb eb s m 0) = Fin s ?M (- int k)"
    unfolding r fdec_parts[OF EF] by (simp add: E_def F_def)
  ultimately show ?thesis by blast
qed

lemma dec64_int:
  assumes "\<bar>a\<bar> < 2 ^ 53"
  shows "\<exists>k. dec64 (f64_of_int a) = Fin (a < 0) (\<bar>a\<bar> * 2 ^ k) (- int k)"
proof (cases "a = 0")
  case True
  then show ?thesis by (auto simp: f64_of_int_def enc64_zero dec64_zero emin_def intro!: exI[of _ 1074])
next
  case False
  then obtain k where k: "fdec 52 11 (fround 52 11 (a < 0) \<bar>a\<bar> 0) = Fin (a < 0) (\<bar>a\<bar> * 2 ^ k) (- int k)"
    "0 \<le> fround 52 11 (a < 0) \<bar>a\<bar> 0" "fround 52 11 (a < 0) \<bar>a\<bar> 0 < 2 ^ (52 + 11 + 1)"
    using fdec_fround_int[of "\<bar>a\<bar>" 52 11 "a < 0"] assms by (auto simp: emin_def)
  have "uint (f64_of_int a) = fround 52 11 (a < 0) \<bar>a\<bar> 0"
    unfolding f64_of_int_def enc64_def fenc_def fval.case by (rule word_of_int_inverse[where 'a = 64]) (use k in simp_all)
  then show ?thesis using k(1) by (auto simp: dec64_def)
qed

text \<open>Sums of integers below \<open>2^53\<close> are exact.\<close>

lemma f64_add_int:
  assumes a: "\<bar>a\<bar> < 2 ^ 53" and b: "\<bar>b\<bar> < 2 ^ 53"
  shows "f64_add (f64_of_int a) (f64_of_int b) = f64_of_int (a + b)"
proof -
  obtain k where k: "dec64 (f64_of_int a) = Fin (a < 0) (\<bar>a\<bar> * 2 ^ k) (- int k)" using dec64_int[OF a] by blast
  obtain l where l: "dec64 (f64_of_int b) = Fin (b < 0) (\<bar>b\<bar> * 2 ^ l) (- int l)" using dec64_int[OF b] by blast
  define g where "g = max k l"
  have mg: "min (- int k) (- int l) = - int g" by (simp add: g_def)
  have sg: "signed (x < 0) (\<bar>x\<bar> * 2 ^ i) = x * 2 ^ i" for x :: int and i by (simp add: signed_def)
  have kg: "nat (- int k - - int g) = g - k" "nat (- int l - - int g) = g - l" by (simp_all add: g_def)
  have s: "a * 2 ^ k * 2 ^ (g - k) = a * 2 ^ g" "b * 2 ^ l * 2 ^ (g - l) = b * 2 ^ g"
    by (simp_all add: mult.assoc g_def flip: power_add)
  have z: "a * 2 ^ k * 2 ^ (g - k) + b * 2 ^ l * 2 ^ (g - l) = (a + b) * 2 ^ g" unfolding s by (simp add: distrib_right)
  have v: "vadd (dec64 (f64_of_int a)) (dec64 (f64_of_int b)) =
      (if a + b = 0 then Fin (a < 0 \<and> b < 0) 0 (- int g) else Fin (a + b < 0) (\<bar>a + b\<bar> * 2 ^ g) (- int g))"
    unfolding k l vadd_def fval.case Let_def mg kg sg z
    by (simp add: abs_mult mult_less_0_iff)
  show ?thesis
  proof (cases "a + b = 0")
    case True
    then have "\<not> (a < 0 \<and> b < 0)" by linarith
    then show ?thesis using True unfolding f64_add_def v by (simp add: enc64_zero f64_of_int_def)
  next
    case False
    then show ?thesis unfolding f64_add_def v by (simp add: enc64_shift f64_of_int_def)
  qed
qed

end
