(* ===== verification/Pixels.thy ===== *)
theory Pixels
  imports Floats Bitplanes CollectTiers Registry
begin

text \<open>
  The pixel types and the dtype-generic entries over one block: \<open>bslz4_cut_of\<close>, \<open>bslz4_cut_above_max\<close>
  (\<open>src/steps/dot_csc.hpp\<close>), the two collects as the kernels call them, \<open>bslz4_sparse_block\<close> and
  \<open>bslz4_filter_gt\<close> (\<open>src/steps/kernels.cpp\<close>). A C++ template over the pixel type \<open>T\<close> is a function of the dtype index
  0..9 (u8 u16 u32 u64 i8 i16 i32 i64 f32 f64); a value of type \<open>T\<close> is the 64-bit word of its bit pattern.
\<close>

section \<open>Values of a pixel type\<close>

definition is_signed :: "int \<Rightarrow> bool" where
  "is_signed dt \<longleftrightarrow> 4 \<le> dt \<and> dt \<le> 7"

definition is_float :: "int \<Rightarrow> bool" where
  "is_float dt \<longleftrightarrow> dt \<ge> 8"

definition px_bits :: "int \<Rightarrow> nat" where
  "px_bits dt = 8 * bslz4_elem_size dt"

text \<open>The integer a pixel of an integer type holds, and the pattern of an integer converted to the type.\<close>

definition px_int :: "int \<Rightarrow> pix \<Rightarrow> int" where
  "px_int dt x = (if is_signed dt then signed_take_bit (px_bits dt - 1) (uint x) else take_bit (px_bits dt) (uint x))"

definition px_of_int :: "int \<Rightarrow> int \<Rightarrow> pix" where
  "px_of_int dt i =
     (if dt = 8 then f32_of_int i else if dt = 9 then f64_of_int i else word_of_int (take_bit (px_bits dt) i))"

text \<open>The comparisons \<open>a > b\<close> and \<open>a != 0\<close> of the type.\<close>

definition px_gt :: "int \<Rightarrow> pix \<Rightarrow> pix \<Rightarrow> bool" where
  "px_gt dt a b = (if dt = 8 then f32_gt a b else if dt = 9 then f64_gt a b else px_int dt a > px_int dt b)"

definition px_nz :: "int \<Rightarrow> pix \<Rightarrow> bool" where
  "px_nz dt a = (if is_float dt then take_bit (px_bits dt - 1) a \<noteq> 0 else px_int dt a \<noteq> 0)"

text \<open>\<open>(double) v\<close> and \<open>(float) v\<close>.\<close>

definition px_f64 :: "int \<Rightarrow> pix \<Rightarrow> f64" where
  "px_f64 dt x = (if dt = 8 then f64_of_f32 x else if dt = 9 then x else f64_of_int (px_int dt x))"

definition px_f32 :: "int \<Rightarrow> pix \<Rightarrow> 64 word" where
  "px_f32 dt x = (if dt = 8 then x else if dt = 9 then f32_of_f64 x else f32_of_int (px_int dt x))"

text \<open>\<open>(int64_t) v\<close>: a float out of range is undefined in C.\<close>

definition f_trunc :: "fval \<Rightarrow> int option" where
  "f_trunc v = (case v of Fin s m e \<Rightarrow> Some (signed s (if e \<ge> 0 then m * 2 ^ nat e else m div 2 ^ nat (- e))) | _ \<Rightarrow> None)"

definition px_i64 :: "int \<Rightarrow> pix \<Rightarrow> 64 word res" where
  "px_i64 dt x =
     (if is_float dt then
        (case f_trunc (if dt = 8 then dec32 x else dec64 x) of
           None \<Rightarrow> Inl Fault
         | Some i \<Rightarrow> if - (2 ^ 63) \<le> i \<and> i < 2 ^ 63 then Inr (word_of_int i) else Inl Fault)
      else Inr (word_of_int (px_int dt x)))"

section \<open>The cut\<close>

text \<open>\<open>numeric_limits<T>::max()\<close> of the integer types.\<close>

definition px_max :: "int \<Rightarrow> int" where
  "px_max dt = (if is_signed dt then 2 ^ (px_bits dt - 1) - 1 else 2 ^ px_bits dt - 1)"

definition bslz4_cut_above_max :: "int \<Rightarrow> int \<Rightarrow> bool" where
  "bslz4_cut_above_max dt threshold = (if dt = 3 \<or> is_float dt then False else threshold > px_max dt)"

definition bslz4_cut_of :: "int \<Rightarrow> int \<Rightarrow> f64 \<Rightarrow> pix" where
  "bslz4_cut_of dt threshold cutf =
     (if dt = 8 then f32_of_f64 cutf else if dt = 9 then cutf else px_of_int dt threshold)"

section \<open>The collects of a type\<close>

definition out_as :: "('a \<Rightarrow> 'b) \<Rightarrow> 'a out \<Rightarrow> 'b out" where
  "out_as f s = \<lparr>npx = npx s, out_vals = map f (out_vals s), out_adr = out_adr s\<rparr>"

definition bslz4_collect_gt :: "build \<Rightarrow> int \<Rightarrow> pix list \<Rightarrow> byte list option \<Rightarrow> nat \<Rightarrow> nat \<Rightarrow> pix \<Rightarrow> int
    \<Rightarrow> pix list \<Rightarrow> 32 word list \<Rightarrow> pix out res" where
  "bslz4_collect_gt bld dt block msk i0 n thr collect vals adr =
     (if dt = 1 then rbind (bslz4_collect_gt_u16 bld (map ucast block) msk i0 n (ucast thr) collect (map ucast vals) adr) (\<lambda>s. Inr (out_as ucast s))
      else if dt = 2 then rbind (bslz4_collect_gt_u32 bld (map ucast block) msk i0 n (ucast thr) collect (map ucast vals) adr) (\<lambda>s. Inr (out_as ucast s))
      else collect_plain (\<lambda>v. px_gt dt v thr) block msk i0 n vals adr)"

definition bslz4_collect_nz :: "build \<Rightarrow> int \<Rightarrow> pix list \<Rightarrow> byte list option \<Rightarrow> nat \<Rightarrow> nat \<Rightarrow> int
    \<Rightarrow> pix list \<Rightarrow> 32 word list \<Rightarrow> pix out res" where
  "bslz4_collect_nz bld dt block msk i0 n collect vals adr =
     (if dt = 1 then rbind (bslz4_collect_nz_u16 bld (map ucast block) msk i0 n collect (map ucast vals) adr) (\<lambda>s. Inr (out_as ucast s))
      else if dt = 2 then rbind (bslz4_collect_nz_u32 bld (map ucast block) msk i0 n collect (map ucast vals) adr) (\<lambda>s. Inr (out_as ucast s))
      else collect_plain (px_nz dt) block msk i0 n vals adr)"

section \<open>One block of a plain sparsify\<close>

text \<open>
  \<open>bslz4_work\<close>, what it says of the block; the buffers it points to (\<open>out_vals\<close>, \<open>out_adr\<close>, \<open>powder\<close>,
  \<open>tidx\<close>, \<open>tval\<close>) are the state of the kernels.
\<close>

record bslz4_work =
  w_dtype :: int
  w_route :: bool
  w_collect :: int
  w_dot :: int
  w_no_mask :: bool
  w_n :: nat
  w_i0 :: nat
  w_threshold :: int
  w_cutf :: f64
  w_block :: "pix list"
  w_mask :: "byte list"
  w_precompacted :: bool
  w_pre_nz :: nat

definition work_mask :: "bslz4_work \<Rightarrow> byte list option" where
  "work_mask w = (if w_no_mask w then None else Some (w_mask w))"

definition work_cut :: "bslz4_work \<Rightarrow> pix" where
  "work_cut w = bslz4_cut_of (w_dtype w) (w_threshold w) (w_cutf w)"

definition collect_cut :: "build \<Rightarrow> bslz4_work \<Rightarrow> pix list \<Rightarrow> 32 word list \<Rightarrow> pix out res" where
  "collect_cut bld w vals adr =
     (if bslz4_cut_above_max (w_dtype w) (w_threshold w) then Inr \<lparr>npx = 0, out_vals = vals, out_adr = adr\<rparr>
      else bslz4_collect_gt bld (w_dtype w) (w_block w) (work_mask w) (w_i0 w) (w_n w) (work_cut w) (w_collect w) vals adr)"

definition bslz4_sparse_block :: "build \<Rightarrow> bslz4_work \<Rightarrow> pix list \<Rightarrow> 32 word list \<Rightarrow> pix out res" where
  "bslz4_sparse_block bld w vals adr = collect_cut bld w vals adr"

definition bslz4_sparse_dispatch :: "build \<Rightarrow> bslz4_work \<Rightarrow> pix list \<Rightarrow> 32 word list \<Rightarrow> pix out res" where
  "bslz4_sparse_dispatch bld w vals adr =
     (if 0 \<le> w_dtype w \<and> w_dtype w \<le> 9 then bslz4_sparse_block bld w vals adr else Inl (Code BSLZ4_ERR_DTYPE))"

section \<open>Filtering a list in place\<close>

definition filter_step :: "int \<Rightarrow> pix \<Rightarrow> nat \<Rightarrow> pix out \<Rightarrow> pix out res" where
  "filter_step dt thr i s =
     rbind (load (out_vals s) i) (\<lambda>v.
       if px_gt dt v thr then
         rbind (store (out_vals s) (npx s) v) (\<lambda>vs.
         rbind (load (out_adr s) i) (\<lambda>a.
         rbind (store (out_adr s) (npx s) a) (\<lambda>as.
           Inr \<lparr>npx = npx s + 1, out_vals = vs, out_adr = as\<rparr>)))
       else Inr s)"

definition bslz4_filter_gt :: "int \<Rightarrow> pix list \<Rightarrow> 32 word list \<Rightarrow> nat \<Rightarrow> int \<Rightarrow> pix out res" where
  "bslz4_filter_gt dt vals adr n thr =
     (if \<not> is_float dt \<and> thr \<ge> px_max dt \<and> dt \<noteq> 3 \<and> dt \<noteq> 7
      then Inr \<lparr>npx = 0, out_vals = vals, out_adr = adr\<rparr>
      else fold_res (filter_step dt (px_of_int dt thr)) [0..<n] \<lparr>npx = 0, out_vals = vals, out_adr = adr\<rparr>)"

text \<open>The return value is \<open>None\<close> for -1.\<close>

definition bslz4_filter_gt_dispatch :: "int \<Rightarrow> pix list \<Rightarrow> 32 word list \<Rightarrow> nat \<Rightarrow> int \<Rightarrow> pix out option res" where
  "bslz4_filter_gt_dispatch dt vals adr n thr =
     (if 0 \<le> dt \<and> dt \<le> 9 then rbind (bslz4_filter_gt dt vals adr n thr) (\<lambda>s. Inr (Some s)) else Inr None)"

section \<open>The collects list\<close>

definition narrow_px :: "int \<Rightarrow> pix list \<Rightarrow> bool" where
  "narrow_px dt xs \<longleftrightarrow> (\<forall>x\<in>set xs. narrow (bslz4_elem_size dt) x)"

lemma narrowI: "take_bit (8 * NB) x = x \<Longrightarrow> narrow NB x"
  unfolding narrow_def by (metis bit_take_bit_iff)

lemma narrow_ucast:
  "narrow 2 x \<Longrightarrow> ucast (ucast x :: 16 word) = x" "narrow 4 x \<Longrightarrow> ucast (ucast x :: 32 word) = x"
  by (rule bit_word_eqI, auto simp: bit_ucast_iff narrow_def)+

lemma uint_ucast16: "uint (ucast (x :: pix) :: 16 word) = px_int 1 x"
  by (simp add: px_int_def is_signed_def px_bits_def bslz4_elem_size_def unsigned_ucast_eq take_bit_eq_mod flip: take_bit_eq_mod)

lemma uint_ucast32: "uint (ucast (x :: pix) :: 32 word) = px_int 2 x"
  by (simp add: px_int_def is_signed_def px_bits_def bslz4_elem_size_def unsigned_ucast_eq take_bit_eq_mod flip: take_bit_eq_mod)

lemma px_gt_ucast: "px_gt 1 a b \<longleftrightarrow> (ucast a :: 16 word) > ucast b" "px_gt 2 a b \<longleftrightarrow> (ucast a :: 32 word) > ucast b"
  by (simp_all add: px_gt_def word_less_def uint_ucast16 uint_ucast32)

lemma px_nz_ucast: "px_nz 1 a \<longleftrightarrow> (ucast a :: 16 word) \<noteq> 0" "px_nz 2 a \<longleftrightarrow> (ucast a :: 32 word) \<noteq> 0"
  by (simp_all add: px_nz_def is_float_def unsigned_eq_0_iff flip: uint_ucast16 uint_ucast32)

text \<open>A typed kernel on the narrowed block.\<close>

lemma emits_out_as:
  fixes f :: "'a \<Rightarrow> 'b" and g :: "'b \<Rightarrow> 'a"
  assumes e: "emits n \<lparr>npx = 0, out_vals = map f vals, out_adr = adr\<rparr> (picked Q (map f block) msk i0 [0..<n]) r"
    and len: "n \<le> length block"
    and inv: "\<And>j. j < n \<Longrightarrow> g (f (block ! j)) = block ! j" and PQ: "\<And>j. j < n \<Longrightarrow> Q (f (block ! j)) = P (block ! j)"
  shows "emits n \<lparr>npx = 0, out_vals = vals, out_adr = adr\<rparr> (picked P block msk i0 [0..<n]) (rbind r (\<lambda>s. Inr (out_as g s)))"
proof -
  have p: "picks Q (map f block) msk i0 j = picks P block msk i0 j" if "j < n" for j
    using that len PQ by (simp add: picks_def)
  have k: "map (\<lambda>(v, a). (g v, a)) (picked Q (map f block) msk i0 [0..<n]) = picked P block msk i0 [0..<n]"
    using inv len p by (auto simp: picked_def intro!: map_cong filter_cong)
  let ?K = "picked Q (map f block) msk i0 [0..<n]"
  have k1: "map g (map fst ?K) = map fst (picked P block msk i0 [0..<n])" "map snd ?K = map snd (picked P block msk i0 [0..<n])"
    "length ?K = length (picked P block msk i0 [0..<n])"
    unfolding k[symmetric] by (simp_all add: split_def comp_def)
  show ?thesis using e k1 by (auto simp: emits_def holds_def out_as_def take_map)
qed

lemma collect_gt_emits:
  assumes r: "readable block msk i0 n" "n \<le> length vals" "n \<le> length adr" and nb: "narrow_px dt block"
  shows "emits n \<lparr>npx = 0, out_vals = vals, out_adr = adr\<rparr> (picked (\<lambda>v. px_gt dt v thr) block msk i0 [0..<n])
    (bslz4_collect_gt bld dt block msk i0 n thr collect vals adr)"
proof -
  have b: "j < n \<Longrightarrow> block ! j \<in> set block" for j using r(1) by (simp add: readable_def)
  have l: "n \<le> length block" using r(1) by (simp add: readable_def)
  have rm: "readable (map ucast block :: 16 word list) msk i0 n" "readable (map ucast block :: 32 word list) msk i0 n"
    using r by (simp_all add: readable_def)
  consider "dt = 1" | "dt = 2" | "dt \<noteq> 1" "dt \<noteq> 2" by blast
  then show ?thesis
  proof cases
    case 1
    from gt_u16.contract[OF rm(1) _ r(3), of "map ucast vals" "(bld, collect, ucast thr)"] r(2)
    have "emits n \<lparr>npx = 0, out_vals = map ucast vals, out_adr = adr\<rparr> (picked (\<lambda>v. v > ucast thr) (map ucast block) msk i0 [0..<n])
      (bslz4_collect_gt_u16 bld (map ucast block) msk i0 n (ucast thr) collect (map ucast vals) adr)" by simp
    from emits_out_as[OF this l, of ucast "\<lambda>v. px_gt dt v thr"] show ?thesis
      using nb b 1 narrow_ucast(1) by (simp add: bslz4_collect_gt_def px_gt_ucast narrow_px_def bslz4_elem_size_def)
  next
    case 2
    from gt_u32.contract[OF rm(2) _ r(3), of "map ucast vals" "(bld, collect, ucast thr)"] r(2)
    have "emits n \<lparr>npx = 0, out_vals = map ucast vals, out_adr = adr\<rparr> (picked (\<lambda>v. v > ucast thr) (map ucast block) msk i0 [0..<n])
      (bslz4_collect_gt_u32 bld (map ucast block) msk i0 n (ucast thr) collect (map ucast vals) adr)" by simp
    from emits_out_as[OF this l, of ucast "\<lambda>v. px_gt dt v thr"] show ?thesis
      using nb b 2 narrow_ucast(2) by (simp add: bslz4_collect_gt_def px_gt_ucast narrow_px_def bslz4_elem_size_def)
  next
    case 3
    then show ?thesis using collect_plain_emits[OF r] by (simp add: bslz4_collect_gt_def)
  qed
qed

lemma collect_nz_emits:
  assumes r: "readable block msk i0 n" "n \<le> length vals" "n \<le> length adr" and nb: "narrow_px dt block"
  shows "emits n \<lparr>npx = 0, out_vals = vals, out_adr = adr\<rparr> (picked (px_nz dt) block msk i0 [0..<n])
    (bslz4_collect_nz bld dt block msk i0 n collect vals adr)"
proof -
  have b: "j < n \<Longrightarrow> block ! j \<in> set block" for j using r(1) by (simp add: readable_def)
  have l: "n \<le> length block" using r(1) by (simp add: readable_def)
  have rm: "readable (map ucast block :: 16 word list) msk i0 n" "readable (map ucast block :: 32 word list) msk i0 n"
    using r by (simp_all add: readable_def)
  consider "dt = 1" | "dt = 2" | "dt \<noteq> 1" "dt \<noteq> 2" by blast
  then show ?thesis
  proof cases
    case 1
    from nz_u16.contract[OF rm(1) _ r(3), of "map ucast vals" "(bld, collect)"] r(2)
    have "emits n \<lparr>npx = 0, out_vals = map ucast vals, out_adr = adr\<rparr> (picked (\<lambda>v. v \<noteq> 0) (map ucast block) msk i0 [0..<n])
      (bslz4_collect_nz_u16 bld (map ucast block) msk i0 n collect (map ucast vals) adr)" by simp
    from emits_out_as[OF this l, of ucast "px_nz dt"] show ?thesis
      using nb b 1 narrow_ucast(1) by (simp add: bslz4_collect_nz_def px_nz_ucast narrow_px_def bslz4_elem_size_def)
  next
    case 2
    from nz_u32.contract[OF rm(2) _ r(3), of "map ucast vals" "(bld, collect)"] r(2)
    have "emits n \<lparr>npx = 0, out_vals = map ucast vals, out_adr = adr\<rparr> (picked (\<lambda>v. v \<noteq> 0) (map ucast block) msk i0 [0..<n])
      (bslz4_collect_nz_u32 bld (map ucast block) msk i0 n collect (map ucast vals) adr)" by simp
    from emits_out_as[OF this l, of ucast "px_nz dt"] show ?thesis
      using nb b 2 narrow_ucast(2) by (simp add: bslz4_collect_nz_def px_nz_ucast narrow_px_def bslz4_elem_size_def)
  next
    case 3
    then show ?thesis using collect_plain_emits[OF r] by (simp add: bslz4_collect_nz_def)
  qed
qed

section \<open>The cut is a comparison of numbers\<close>

definition cut_passes :: "int \<Rightarrow> int \<Rightarrow> f64 \<Rightarrow> pix \<Rightarrow> bool" where
  "cut_passes dt threshold cutf v \<longleftrightarrow> \<not> bslz4_cut_above_max dt threshold \<and> px_gt dt v (bslz4_cut_of dt threshold cutf)"

text \<open>The threshold of a u64 block is the bit pattern of its cut.\<close>

definition cut_value :: "int \<Rightarrow> int \<Rightarrow> int" where
  "cut_value dt threshold = (if dt = 3 then take_bit 64 threshold else threshold)"

lemma dtype_cases: "0 \<le> dt \<Longrightarrow> dt \<le> (9 :: int) \<Longrightarrow> dt \<in> {0, 1, 2, 3, 4, 5, 6, 7, 8, 9}"
proof -
  assume "0 \<le> dt" "dt \<le> 9"
  then have "nat dt \<in> set [0..<10]" by auto
  then show ?thesis using \<open>0 \<le> dt\<close> by (auto simp: upt_rec nat_eq_iff)
qed

lemma int_dtype_cases: "0 \<le> dt \<Longrightarrow> \<not> is_float dt \<Longrightarrow> dt \<in> {0, 1, 2, 3, 4, 5, 6, 7}"
  using dtype_cases[of dt] by (auto simp: is_float_def)

lemma px_bits_pos: "0 \<le> dt \<Longrightarrow> dt \<le> 9 \<Longrightarrow> 8 \<le> px_bits dt \<and> px_bits dt \<le> 64"
  using dtype_cases[of dt] by (auto simp: px_bits_def bslz4_elem_size_def)

lemma px_int_le_max:
  assumes "0 \<le> dt" "\<not> is_float dt"
  shows "px_int dt v \<le> px_max dt"
proof (cases "is_signed dt")
  case True
  then show ?thesis using signed_take_bit_int_less_exp[of "px_bits dt - 1" "uint v"] by (simp add: px_int_def px_max_def)
next
  case False
  then show ?thesis using take_bit_int_less_exp[of "px_bits dt" "uint v"] by (simp add: px_int_def px_max_def)
qed

lemma px_int_of_int:
  assumes "0 \<le> dt" "\<not> is_float dt" "0 \<le> i" "i \<le> px_max dt"
  shows "px_int dt (px_of_int dt i) = i"
proof -
  have n: "8 \<le> px_bits dt" "px_bits dt \<le> 64" using px_bits_pos[of dt] assms(1,2) by (auto simp: is_float_def)
  have "(2 :: int) ^ (px_bits dt - 1) \<le> 2 ^ px_bits dt" by (rule power_increasing) simp_all
  then have "px_max dt < 2 ^ px_bits dt" unfolding px_max_def by (cases "is_signed dt"; simp only: if_True if_False; linarith)
  then have i: "i < 2 ^ px_bits dt" using assms(4) by linarith
  then have t: "take_bit (px_bits dt) i = i" using assms(3) by (simp add: take_bit_int_eq_self)
  have "i < 2 ^ 64" using i n(2) by (metis less_le_trans one_le_numeral power_increasing)
  then have u: "uint (word_of_int i :: 64 word) = i" using assms(3) by (simp add: word_of_int_inverse)
  have p: "px_of_int dt i = word_of_int i" using t assms(2) by (auto simp: px_of_int_def is_float_def)
  show ?thesis
  proof (cases "is_signed dt")
    case True
    then have "i < 2 ^ (px_bits dt - 1)" using assms(4) by (simp add: px_max_def)
    then have "signed_take_bit (px_bits dt - 1) i = i"
      using assms(3) by (intro signed_take_bit_int_eq_self) auto
    then show ?thesis using True u p by (simp add: px_int_def)
  next
    case False
    then show ?thesis using t u p by (simp add: px_int_def)
  qed
qed

lemma cut_passes_int:
  assumes "0 \<le> dt" "\<not> is_float dt" "dt = 3 \<or> 0 \<le> threshold"
  shows "cut_passes dt threshold cutf v \<longleftrightarrow> px_int dt v > cut_value dt threshold"
proof (cases "dt = 3")
  case True
  have "px_of_int dt threshold = px_of_int dt (cut_value dt threshold)"
    using True by (simp add: px_of_int_def cut_value_def px_bits_def bslz4_elem_size_def)
  moreover have "0 \<le> cut_value dt threshold" "cut_value dt threshold \<le> px_max dt"
    using True take_bit_int_less_exp[of 64 threshold]
    by (simp_all add: cut_value_def px_max_def is_signed_def px_bits_def bslz4_elem_size_def)
  ultimately show ?thesis using px_int_of_int[OF assms(1,2)] True
    by (simp add: cut_passes_def bslz4_cut_above_max_def bslz4_cut_of_def px_gt_def)
next
  case False
  have f: "dt \<noteq> 8" "dt \<noteq> 9" using assms(2) by (auto simp: is_float_def)
  show ?thesis
  proof (cases "threshold \<le> px_max dt")
    case True
    then show ?thesis using False f assms px_int_of_int[OF assms(1,2), of threshold]
      by (simp add: cut_passes_def cut_value_def bslz4_cut_above_max_def bslz4_cut_of_def px_gt_def)
  next
    case above: False
    then show ?thesis using False f assms px_int_le_max[OF assms(1,2), of v]
      by (simp add: cut_passes_def cut_value_def bslz4_cut_above_max_def)
  qed
qed

lemma collect_cut_emits:
  assumes "readable (w_block w) (work_mask w) (w_i0 w) (w_n w)" "w_n w \<le> length vals" "w_n w \<le> length adr"
    and "narrow_px (w_dtype w) (w_block w)"
  shows "emits (w_n w) \<lparr>npx = 0, out_vals = vals, out_adr = adr\<rparr>
    (picked (cut_passes (w_dtype w) (w_threshold w) (w_cutf w)) (w_block w) (work_mask w) (w_i0 w) [0..<w_n w]) (collect_cut bld w vals adr)"
proof (cases "bslz4_cut_above_max (w_dtype w) (w_threshold w)")
  case True
  then have "picked (cut_passes (w_dtype w) (w_threshold w) (w_cutf w)) (w_block w) (work_mask w) (w_i0 w) [0..<w_n w] = []"
    by (simp add: picked_def picks_def cut_passes_def)
  then show ?thesis using True holds_init[OF assms(2,3)] by (simp add: collect_cut_def)
next
  case False
  then have "cut_passes (w_dtype w) (w_threshold w) (w_cutf w) = (\<lambda>v. px_gt (w_dtype w) v (work_cut w))"
    by (simp add: cut_passes_def work_cut_def fun_eq_iff)
  then show ?thesis using False collect_gt_emits[OF assms] by (simp add: collect_cut_def)
qed

text \<open>
  one block of a plain sparsify, of any of the ten pixel types, lists in order exactly the unmasked pixels above the cut,
  with their indices, for every build and collect value; above the cut is the comparison of the pixel's number with the cut's for
  the integer types (a cut above the type's maximum lists nothing) and IEEE's for the floating ones.
\<close>

theorem sparse_dispatch_lists:
  assumes "0 \<le> w_dtype w" "w_dtype w \<le> 9" "readable (w_block w) (work_mask w) (w_i0 w) (w_n w)"
    and "w_n w \<le> length vals" "w_n w \<le> length adr" "narrow_px (w_dtype w) (w_block w)" "w_dtype w = 3 \<or> 0 \<le> w_threshold w"
  shows "\<exists>s. bslz4_sparse_dispatch bld w vals adr = Inr s \<and>
    listed s = picked (\<lambda>v. if is_float (w_dtype w) then px_gt (w_dtype w) v (work_cut w)
        else px_int (w_dtype w) v > cut_value (w_dtype w) (w_threshold w)) (w_block w) (work_mask w) (w_i0 w) [0..<w_n w]"
proof -
  have "(\<lambda>v. if is_float (w_dtype w) then px_gt (w_dtype w) v (work_cut w) else px_int (w_dtype w) v > cut_value (w_dtype w) (w_threshold w))
      = cut_passes (w_dtype w) (w_threshold w) (w_cutf w)"
  proof (cases "is_float (w_dtype w)")
    case True
    then show ?thesis by (simp add: cut_passes_def bslz4_cut_above_max_def work_cut_def fun_eq_iff)
  next
    case False
    then show ?thesis using cut_passes_int[OF assms(1) False assms(7)] by (simp add: fun_eq_iff)
  qed
  then show ?thesis
    using emits_listed[OF collect_cut_emits[OF assms(3-6), of bld]] assms(1,2) by (auto simp: bslz4_sparse_dispatch_def bslz4_sparse_block_def)
qed

definition sample_work :: bslz4_work where
  "sample_work = \<lparr>w_dtype = 5, w_route = False, w_collect = BSLZ4_COLLECT_SCALAR, w_dot = 0, w_no_mask = False, w_n = 3, w_i0 = 1,
     w_threshold = 2, w_cutf = 0, w_block = [5, 0xFFFF, 3], w_mask = [1, 1, 1, 0], w_precompacted = False, w_pre_nz = 0\<rparr>"

text \<open>Three i16 pixels 5, -1, 3 at index 1, the last one masked, cut 2.\<close>

theorem sparse_dispatch_lists_witness:
  "\<exists>s. bslz4_sparse_dispatch sample_build sample_work (replicate 3 0) (replicate 3 0) = Inr s \<and> listed s = [(5, 1)]"
proof -
  have e: "picked (\<lambda>v. if is_float (w_dtype sample_work) then px_gt (w_dtype sample_work) v (work_cut sample_work)
        else px_int (w_dtype sample_work) v > cut_value (w_dtype sample_work) (w_threshold sample_work))
      (w_block sample_work) (work_mask sample_work) (w_i0 sample_work) [0..<w_n sample_work] = [(5, 1)]" by code_simp
  have "narrow_px 5 [5, 0xFFFF, 3]"
    unfolding narrow_px_def by (intro ballI narrowI) (auto simp: bslz4_elem_size_def)
  then show ?thesis using sparse_dispatch_lists[of sample_work "replicate 3 0" "replicate 3 0" sample_build, unfolded e]
    by (simp add: sample_work_def readable_def work_mask_def)
qed

section \<open>Filtering keeps the list's order\<close>

lemma filter_steps:
  assumes l: "n \<le> length vals" "n \<le> length adr"
  defines "L \<equiv> zip (take n vals) (take n adr)"
  shows "\<exists>s. fold_res (filter_step dt thr) [0..<n] \<lparr>npx = 0, out_vals = vals, out_adr = adr\<rparr> = Inr s
    \<and> listed s = filter (\<lambda>(v, a). px_gt dt v thr) L \<and> npx s \<le> n \<and> length (out_vals s) = length vals \<and> length (out_adr s) = length adr"
proof -
  let ?F = "\<lambda>i. filter (\<lambda>(v, a). px_gt dt v thr) (take i L)"
  let ?I = "\<lambda>i (s :: pix out). npx s = length (?F i) \<and> npx s \<le> i \<and> length (out_vals s) = length vals \<and> length (out_adr s) = length adr
    \<and> take (npx s) (out_vals s) = map fst (?F i) \<and> take (npx s) (out_adr s) = map snd (?F i)
    \<and> (\<forall>x\<ge>i. out_vals s ! x = vals ! x \<and> out_adr s ! x = adr ! x)"
  have ll: "length L = n" using l by (simp add: L_def)
  have "\<exists>s. fold_res (filter_step dt thr) [0..<n] \<lparr>npx = 0, out_vals = vals, out_adr = adr\<rparr> = Inr s \<and> ?I n s"
  proof (rule fold_upt_inv[where I = ?I])
    fix i and s :: "pix out" assume i: "i < n" and I: "?I i s"
    have Li: "take (Suc i) L = take i L @ [(vals ! i, adr ! i)]" using i ll l by (simp add: take_Suc_conv_app_nth L_def)
    have lv: "i < length (out_vals s)" "i < length (out_adr s)" "npx s < length (out_vals s)" "npx s < length (out_adr s)"
      using I i l by auto
    have v: "out_vals s ! i = vals ! i" "out_adr s ! i = adr ! i" using I by auto
    show "\<exists>s'. filter_step dt thr i s = Inr s' \<and> ?I (Suc i) s'"
    proof (cases "px_gt dt (vals ! i) thr")
      case True
      then have "filter_step dt thr i s = Inr \<lparr>npx = npx s + 1, out_vals = (out_vals s)[npx s := vals ! i], out_adr = (out_adr s)[npx s := adr ! i]\<rparr>"
        using lv v by (simp add: filter_step_def load_ok store_ok)
      then show ?thesis using True I Li lv v
        by (auto simp: take_Suc_conv_app_nth nth_list_update)
    next
      case False
      then have "filter_step dt thr i s = Inr s" using lv v by (simp add: filter_step_def load_ok)
      then show ?thesis using False I Li by auto
    qed
  qed simp
  then obtain s where s: "fold_res (filter_step dt thr) [0..<n] \<lparr>npx = 0, out_vals = vals, out_adr = adr\<rparr> = Inr s" "?I n s" by blast
  have "listed s = filter (\<lambda>(v, a). px_gt dt v thr) L"
    unfolding listed_def using s(2) ll by (elim conjE) (simp only: take_all[of L n] le_refl zip_map_fst_snd)
  then show ?thesis using s by auto
qed

lemma filter_gt_ok:
  assumes "n \<le> length vals" "n \<le> length adr" "0 \<le> dt" "dt \<le> 9"
  shows "\<exists>s. bslz4_filter_gt_dispatch dt vals adr n thr = Inr (Some s)
    \<and> listed s = filter (\<lambda>(v, a). px_gt dt v (px_of_int dt thr) \<and> \<not> (\<not> is_float dt \<and> thr \<ge> px_max dt \<and> dt \<noteq> 3 \<and> dt \<noteq> 7))
        (zip (take n vals) (take n adr))
    \<and> npx s \<le> n \<and> length (out_vals s) = length vals \<and> length (out_adr s) = length adr"
proof (cases "\<not> is_float dt \<and> thr \<ge> px_max dt \<and> dt \<noteq> 3 \<and> dt \<noteq> 7")
  case True
  then show ?thesis using assms(3,4) by (simp add: bslz4_filter_gt_dispatch_def bslz4_filter_gt_def listed_def)
next
  case False
  then show ?thesis using filter_steps[OF assms(1,2), of dt "px_of_int dt thr"] assms(3,4)
    by (auto simp: bslz4_filter_gt_dispatch_def bslz4_filter_gt_def)
qed

text \<open>
  C29: raising a frame's cut filters its list in place: the entries above the threshold stay, in order, with their indices, and
  nothing else changes size; for the integer types above is the comparison of numbers, so a threshold at or above the maximum leaves none.
\<close>

theorem filter_gt_lists:
  assumes "n \<le> length vals" "n \<le> length adr" "0 \<le> dt" "dt \<le> 9" "0 \<le> thr" "thr < 2 ^ 63"
  shows "\<exists>s. bslz4_filter_gt_dispatch dt vals adr n thr = Inr (Some s)
    \<and> listed s = filter (\<lambda>(v, a). if is_float dt then px_gt dt v (px_of_int dt thr) else px_int dt v > thr) (zip (take n vals) (take n adr))
    \<and> length (out_vals s) = length vals \<and> length (out_adr s) = length adr"
proof -
  have "(px_gt dt v (px_of_int dt thr) \<and> \<not> (\<not> is_float dt \<and> thr \<ge> px_max dt \<and> dt \<noteq> 3 \<and> dt \<noteq> 7))
      = (if is_float dt then px_gt dt v (px_of_int dt thr) else px_int dt v > thr)" for v
  proof (cases "is_float dt")
    case False
    then have f: "dt \<noteq> 8" "dt \<noteq> 9" by (auto simp: is_float_def)
    have m: "thr \<le> px_max dt" if "dt = 3 \<or> dt = 7"
      using that assms(6) by (auto simp: px_max_def is_signed_def px_bits_def bslz4_elem_size_def)
    have le: "px_int dt v \<le> px_max dt" using px_int_le_max[OF assms(3) False] .
    show ?thesis
    proof (cases "thr \<le> px_max dt")
      case True
      then show ?thesis using False f le px_int_of_int[OF assms(3) False assms(5)] by (auto simp: px_gt_def)
    next
      case above: False
      then show ?thesis using m False le by auto
    qed
  qed simp
  then show ?thesis using filter_gt_ok[OF assms(1-4), of thr] by auto
qed

theorem filter_gt_lists_witness:
  "\<exists>s. bslz4_filter_gt_dispatch 4 [3, 0xFD, 5, 4] [10, 20, 30, 40] 3 3 = Inr (Some s) \<and> listed s = [(5, 30)]"
proof -
  have e: "filter (\<lambda>(v, a). if is_float 4 then px_gt 4 v (px_of_int 4 3) else px_int 4 v > 3)
      (zip (take 3 [3, 0xFD, 5, 4]) (take 3 [10, 20, 30, 40 :: 32 word])) = [(5, 30)]" by code_simp
  show ?thesis using filter_gt_lists[of 3 "[3, 0xFD, 5, 4]" "[10, 20, 30, 40]" 4 3, unfolded e] by auto
qed

end
