(* ===== verification/DotRoute.thy ===== *)
theory DotRoute
  imports Pixels
begin

text \<open>
  What the dot headers (\<open>src/steps/dot_csc.hpp\<close>, \<open>dot_fixed.hpp\<close>, \<open>dot_padded.hpp\<close>, \<open>dot_bsbcsr.hpp\<close>) share: the buffers of
  a call, the dense route (a powder pass over the block, then the list of the pixels above the cut) and the sparse route (the list of the
  non-zero pixels, the powder over it, then the cut over the same list), and when the two agree. The powder holds the patterns of its
  64-bit elements (doubles or integers), or pixels for csc-permute. Prefetches have no effect on the values and are left out.
\<close>

section \<open>Buffers\<close>

text \<open>The buffers of one call: the frame's powder, the list's output, and the sparse route's list.\<close>

record dot_st =
  d_pow :: "64 word list"
  d_vals :: "pix list"
  d_adr :: "32 word list"
  d_tval :: "pix list"
  d_tidx :: "32 word list"

type_synonym pow_fn = "64 word list \<Rightarrow> 64 word list res"

text \<open>\<open>out[b] += x\<close> for the addition \<open>f\<close>.\<close>

definition acc_at :: "(64 word \<Rightarrow> 64 word) \<Rightarrow> nat \<Rightarrow> 64 word list \<Rightarrow> 64 word list res" where
  "acc_at f b pow = rbind (load pow b) (\<lambda>x. store pow b (f x))"

definition with_list :: "dot_st \<Rightarrow> pix out \<Rightarrow> int \<times> dot_st" where
  "with_list st s = (int (npx s), st\<lparr>d_vals := out_vals s, d_adr := out_adr s\<rparr>)"

section \<open>The dense route\<close>

definition dense_with :: "pow_fn \<Rightarrow> build \<Rightarrow> bslz4_work \<Rightarrow> dot_st \<Rightarrow> (int \<times> dot_st) res" where
  "dense_with powder bld w st =
     rbind (powder (d_pow st)) (\<lambda>pow.
     rbind (collect_cut bld w (d_vals st) (d_adr st)) (\<lambda>s. Inr (with_list (st\<lparr>d_pow := pow\<rparr>) s)))"

text \<open>Every pixel of the block, in order.\<close>

definition dense_pow :: "(nat \<Rightarrow> pix \<Rightarrow> pow_fn) \<Rightarrow> bslz4_work \<Rightarrow> pow_fn" where
  "dense_pow body w pow = fold_res (\<lambda>j pow. rbind (load (w_block w) j) (\<lambda>v. body (j + w_i0 w) v pow)) [0..<w_n w] pow"

definition dense_route :: "(nat \<Rightarrow> pix \<Rightarrow> pow_fn) \<Rightarrow> build \<Rightarrow> bslz4_work \<Rightarrow> dot_st \<Rightarrow> (int \<times> dot_st) res" where
  "dense_route body bld w st = dense_with (dense_pow body w) bld w st"

section \<open>The sparse route\<close>

text \<open>The list of the block's non-zero unmasked pixels, or the one the driver has built.\<close>

definition bslz4_collect_nz_w :: "build \<Rightarrow> bslz4_work \<Rightarrow> dot_st \<Rightarrow> (nat \<times> dot_st) res" where
  "bslz4_collect_nz_w bld w st =
     (if w_precompacted w then Inr (w_pre_nz w, st)
      else rbind (bslz4_collect_nz bld (w_dtype w) (w_block w) (work_mask w) (w_i0 w) (w_n w) (w_collect w) (d_tval st) (d_tidx st)) (\<lambda>s.
        Inr (npx s, st\<lparr>d_tval := out_vals s, d_tidx := out_adr s\<rparr>)))"

definition sparse_pow :: "(nat \<Rightarrow> pix \<Rightarrow> pow_fn) \<Rightarrow> nat \<Rightarrow> dot_st \<Rightarrow> 64 word list res" where
  "sparse_pow body nz st =
     fold_res (\<lambda>kk pow. rbind (load (d_tidx st) kk) (\<lambda>addr. rbind (load (d_tval st) kk) (\<lambda>v. body (unat addr) v pow)))
       [0..<nz] (d_pow st)"

text \<open>The last loop of every sparse route: the list's pixels above the cut.\<close>

definition cut_list_step :: "bslz4_work \<Rightarrow> dot_st \<Rightarrow> nat \<Rightarrow> pix out \<Rightarrow> pix out res" where
  "cut_list_step w st kk s =
     rbind (load (d_tval st) kk) (\<lambda>v.
       if \<not> bslz4_cut_above_max (w_dtype w) (w_threshold w) \<and> px_gt (w_dtype w) v (work_cut w) then
         rbind (load (d_tidx st) kk) (\<lambda>a. push_px v (unat a) s)
       else Inr s)"

definition cut_list :: "bslz4_work \<Rightarrow> nat \<Rightarrow> dot_st \<Rightarrow> pix out res" where
  "cut_list w nz st = fold_res (cut_list_step w st) [0..<nz] \<lparr>npx = 0, out_vals = d_vals st, out_adr = d_adr st\<rparr>"

definition sparse_route :: "(nat \<Rightarrow> dot_st \<Rightarrow> 64 word list res) \<Rightarrow> build \<Rightarrow> bslz4_work \<Rightarrow> dot_st \<Rightarrow> (int \<times> dot_st) res" where
  "sparse_route powder bld w st =
     rbind (bslz4_collect_nz_w bld w st) (\<lambda>(nz, st).
     rbind (powder nz st) (\<lambda>pow.
     rbind (cut_list w nz st) (\<lambda>s. Inr (with_list (st\<lparr>d_pow := pow\<rparr>) s))))"

section \<open>What the routes list\<close>

text \<open>A route ends with the powder \<open>pow\<close> and the list \<open>K\<close>; no buffer changes size.\<close>

definition dot_gives :: "dot_st \<Rightarrow> (int \<times> dot_st) res \<Rightarrow> 64 word list \<Rightarrow> (pix \<times> 32 word) list \<Rightarrow> bool" where
  "dot_gives st r pow K \<longleftrightarrow> (\<exists>st'. r = Inr (int (length K), st') \<and> d_pow st' = pow
     \<and> take (length K) (d_vals st') = map fst K \<and> take (length K) (d_adr st') = map snd K
     \<and> length (d_vals st') = length (d_vals st) \<and> length (d_adr st') = length (d_adr st)
     \<and> length (d_tval st') = length (d_tval st) \<and> length (d_tidx st') = length (d_tidx st))"

definition nz_list :: "nat \<Rightarrow> dot_st \<Rightarrow> (pix \<times> 32 word) list" where
  "nz_list nz st = zip (take nz (d_tval st)) (take nz (d_tidx st))"

definition passes :: "bslz4_work \<Rightarrow> pix \<Rightarrow> bool" where
  "passes w v = cut_passes (w_dtype w) (w_threshold w) (w_cutf w) v"

text \<open>The dense route's block can be read and its list has room.\<close>

definition block_ready :: "bslz4_work \<Rightarrow> bool" where
  "block_ready w \<longleftrightarrow> readable (w_block w) (work_mask w) (w_i0 w) (w_n w) \<and> narrow_px (w_dtype w) (w_block w)"

definition room :: "nat \<Rightarrow> dot_st \<Rightarrow> bool" where
  "room n st \<longleftrightarrow> n \<le> length (d_vals st) \<and> n \<le> length (d_adr st)"

text \<open>The sparse route finds the list \<open>L\<close>: it builds it from the block, or the driver has built it.\<close>

definition nz_ready :: "bslz4_work \<Rightarrow> dot_st \<Rightarrow> (pix \<times> 32 word) list \<Rightarrow> bool" where
  "nz_ready w st L \<longleftrightarrow> (if w_precompacted w
     then w_pre_nz w \<le> length (d_tval st) \<and> w_pre_nz w \<le> length (d_tidx st) \<and> nz_list (w_pre_nz w) st = L
     else block_ready w \<and> w_n w \<le> length (d_tval st) \<and> w_n w \<le> length (d_tidx st)
       \<and> L = picked (px_nz (w_dtype w)) (w_block w) (work_mask w) (w_i0 w) [0..<w_n w])"

lemma dense_with_gives:
  assumes "block_ready w" "room (w_n w) st" "powder (d_pow st) = Inr pow"
  shows "dot_gives st (dense_with powder bld w st) pow (picked (passes w) (w_block w) (work_mask w) (w_i0 w) [0..<w_n w])"
proof -
  have "emits (w_n w) \<lparr>npx = 0, out_vals = d_vals st, out_adr = d_adr st\<rparr>
      (picked (passes w) (w_block w) (work_mask w) (w_i0 w) [0..<w_n w]) (collect_cut bld w (d_vals st) (d_adr st))"
    using collect_cut_emits assms(1,2) by (simp add: block_ready_def room_def passes_def[abs_def])
  then show ?thesis using assms(3) by (auto simp: dense_with_def with_list_def dot_gives_def emits_def holds_def)
qed

lemma collect_nz_w_ready:
  assumes "nz_ready w st L"
  shows "\<exists>nz st1. bslz4_collect_nz_w bld w st = Inr (nz, st1) \<and> nz = length L \<and> nz_list nz st1 = L
    \<and> nz \<le> length (d_tval st1) \<and> nz \<le> length (d_tidx st1)
    \<and> d_pow st1 = d_pow st \<and> d_vals st1 = d_vals st \<and> d_adr st1 = d_adr st
    \<and> length (d_tval st1) = length (d_tval st) \<and> length (d_tidx st1) = length (d_tidx st)"
proof (cases "w_precompacted w")
  case True
  then show ?thesis using assms by (auto simp: nz_ready_def bslz4_collect_nz_w_def nz_list_def)
next
  case False
  then have "emits (w_n w) \<lparr>npx = 0, out_vals = d_tval st, out_adr = d_tidx st\<rparr> L
      (bslz4_collect_nz bld (w_dtype w) (w_block w) (work_mask w) (w_i0 w) (w_n w) (w_collect w) (d_tval st) (d_tidx st))"
    using collect_nz_emits assms by (simp add: nz_ready_def block_ready_def)
  then show ?thesis using False
    by (auto simp: bslz4_collect_nz_w_def nz_list_def emits_def holds_def zip_map_fst_snd)
qed

lemma cut_list_emits:
  assumes l: "nz \<le> length (d_tval st)" "nz \<le> length (d_tidx st)" "room nz st"
  shows "emits nz \<lparr>npx = 0, out_vals = d_vals st, out_adr = d_adr st\<rparr> (filter (\<lambda>(v, a). passes w v) (nz_list nz st)) (cut_list w nz st)"
proof -
  let ?L = "nz_list nz st"
  let ?F = "\<lambda>k. filter (\<lambda>(v, a). passes w v) (take k ?L)"
  let ?I = "\<lambda>k (s :: pix out). holds nz s (?F k) \<and> length (?F k) \<le> k \<and> length (out_vals s) = length (d_vals st) \<and> length (out_adr s) = length (d_adr st)"
  have ll: "length ?L = nz" using l by (simp add: nz_list_def)
  have "\<exists>s. fold_res (cut_list_step w st) [0..<nz] \<lparr>npx = 0, out_vals = d_vals st, out_adr = d_adr st\<rparr> = Inr s \<and> ?I nz s"
  proof (rule fold_upt_inv[where I = ?I])
    show "?I 0 \<lparr>npx = 0, out_vals = d_vals st, out_adr = d_adr st\<rparr>" using l(3) by (simp add: holds_init room_def)
  next
    fix k and s :: "pix out" assume k: "k < nz" and I: "?I k s"
    let ?v = "d_tval st ! k" and ?a = "d_tidx st ! k"
    have t: "take (Suc k) ?L = take k ?L @ [(?v, ?a)]" using k ll l by (simp add: take_Suc_conv_app_nth nz_list_def)
    have F: "?F (Suc k) = ?F k @ (if passes w ?v then [(?v, word_of_nat (unat ?a))] else [])" unfolding t by simp
    have st: "cut_list_step w st k s = (if passes w ?v then push_px ?v (unat ?a) s else Inr s)"
      using k l by (simp add: cut_list_step_def load_ok passes_def cut_passes_def work_cut_def)
    have h: "holds nz s (?F k)" "length (?F k) \<le> k" by (rule conjunct1[OF I], rule conjunct1[OF conjunct2[OF I]])
    then have lt: "length (?F k) < nz" using k by linarith
    from push_if_emits[OF h(1) lt, of "passes w ?v" ?v "unat ?a"] obtain s' where s': "cut_list_step w st k s = Inr s'"
      "holds nz s' (?F (Suc k))" "length (out_vals s') = length (out_vals s)" "length (out_adr s') = length (out_adr s)"
      unfolding F st[symmetric] emits_def by (elim exE conjE)
    have "length (?F (Suc k)) \<le> Suc k" unfolding F using h(2) by (cases "passes w ?v") (simp_all only: if_True if_False length_append append_Nil2 list.size)
    then show "\<exists>s'. cut_list_step w st k s = Inr s' \<and> ?I (Suc k) s'" using I s' by (intro exI[of _ s'] conjI) simp_all
  qed
  then show ?thesis using ll by (auto simp: cut_list_def emits_def)
qed

lemma sparse_route_gives:
  assumes r: "nz_ready w st L" "room (length L) st"
    and powder: "\<And>st1. nz_list (length L) st1 = L \<Longrightarrow> length L \<le> length (d_tval st1) \<Longrightarrow> length L \<le> length (d_tidx st1)
      \<Longrightarrow> d_pow st1 = d_pow st \<Longrightarrow> powder (length L) st1 = Inr pow"
  shows "dot_gives st (sparse_route powder bld w st) pow (filter (\<lambda>(v, a). passes w v) L)"
proof -
  obtain st1 where c: "bslz4_collect_nz_w bld w st = Inr (length L, st1)" "nz_list (length L) st1 = L"
    "length L \<le> length (d_tval st1)" "length L \<le> length (d_tidx st1)"
    "d_pow st1 = d_pow st" "d_vals st1 = d_vals st" "d_adr st1 = d_adr st"
    "length (d_tval st1) = length (d_tval st)" "length (d_tidx st1) = length (d_tidx st)"
    using collect_nz_w_ready[OF r(1), of bld] by auto
  have "room (length L) st1" using r(2) c(6,7) by (simp add: room_def)
  from cut_list_emits[OF c(3,4) this, of w] obtain s where s: "cut_list w (length L) st1 = Inr s"
    "holds (length L) s (filter (\<lambda>(v, a). passes w v) L)" "length (out_vals s) = length (d_vals st)" "length (out_adr s) = length (d_adr st)"
    using c(2,6,7) by (auto simp: emits_def)
  have p: "powder (length L) st1 = Inr pow" by (rule powder) (use c in auto)
  show ?thesis using c s p by (auto simp: sparse_route_def with_list_def dot_gives_def holds_def)
qed

section \<open>A pixel above the cut is not zero\<close>

text \<open>What \<open>read_cut\<close> lets through: the cut of an integer type is not negative (of u64: any), of a floating type at least \<open>-0\<close>, or NaN.\<close>

definition cut_ok :: "int \<Rightarrow> int \<Rightarrow> f64 \<Rightarrow> bool" where
  "cut_ok dt threshold cutf \<longleftrightarrow> (if is_float dt then 0 \<le> fkey 52 11 (uint cutf) else dt = 3 \<or> 0 \<le> threshold)"

lemma fkey_nonneg: "0 \<le> fkey mb eb x \<longleftrightarrow> even (x div 2 ^ (mb + eb)) \<or> x mod 2 ^ (mb + eb) = 0"
proof -
  have "0 \<le> x mod 2 ^ (mb + eb)" by simp
  then show ?thesis unfolding fkey_def signed_def by (auto simp del: pos_mod_sign)
qed

lemma fkey_cases:
  assumes "fkey mb eb x > fkey mb eb c" "0 \<le> fkey mb eb c"
  shows "x mod 2 ^ (mb + eb) \<noteq> 0"
  using assms by (auto simp: fkey_def signed_def split: if_splits)

lemma div_mod_pow: "(x :: int) div 2 ^ a mod 2 ^ b = x mod 2 ^ (b + a) div 2 ^ a"
  using take_bit_drop_bit[of b a x] by (simp only: take_bit_eq_mod drop_bit_eq_div)

lemma enc32_nonneg:
  assumes "fkey 52 11 (uint c) \<ge> 0"
  shows "fkey 23 8 (uint (take_bit 32 (f32_of_f64 c))) \<ge> 0"
proof (cases "dec64 c")
  case NaN
  then show ?thesis by (simp add: f32_of_f64_def enc32_def fenc_def inf_bits_def fkey_def signed_def)
next
  case (Inf s)
  have "\<not> s"
  proof
    assume s
    then have "odd (uint c div 2 ^ 63)" using Inf by (auto simp: dec64_def fdec_def Let_def split: if_splits)
    moreover have "uint c mod 2 ^ 63 \<noteq> 0"
    proof
      assume z: "uint c mod 2 ^ 63 = 0"
      have "(uint c div 2 ^ 52) mod 2 ^ 11 = (uint c mod 2 ^ (11 + 52)) div 2 ^ 52" by (rule div_mod_pow)
      then show False using z Inf by (simp add: dec64_def fdec_def Let_def split: if_splits)
    qed
    ultimately show False using assms fkey_nonneg[of 52 11 "uint c"] by simp
  qed
  then show ?thesis using Inf by (simp add: f32_of_f64_def enc32_def fenc_def inf_bits_def sign_bit_at_def fkey_def signed_def)
next
  case (Fin s m e)
  have m0: "0 \<le> m" using dec64_Fin[OF Fin] by simp
  have "s \<Longrightarrow> m = 0"
  proof -
    assume s: s
    have "odd (uint c div 2 ^ 63)" using Fin s by (auto simp: dec64_def fdec_def Let_def split: if_splits)
    then have "uint c mod 2 ^ 63 = 0" using assms fkey_nonneg[of 52 11 "uint c"] by simp
    then have "(uint c div 2 ^ 52) mod 2 ^ 11 = 0" "uint c mod 2 ^ 52 = 0"
    proof -
      assume z: "uint c mod 2 ^ 63 = 0"
      have "(uint c div 2 ^ 52) mod 2 ^ 11 = (uint c mod 2 ^ (11 + 52)) div 2 ^ 52" by (rule div_mod_pow)
      then show "(uint c div 2 ^ 52) mod 2 ^ 11 = 0" using z by simp
      have "uint c mod 2 ^ 52 = (uint c mod 2 ^ 63) mod 2 ^ 52" by (simp add: mod_mod_cancel)
      then show "uint c mod 2 ^ 52 = 0" using z by simp
    qed
    then show "m = 0" using Fin by (auto simp: dec64_def fdec_def Let_def split: if_splits)
  qed
  then consider "m = 0" | "\<not> s" by blast
  then show ?thesis
  proof cases
    case 1
    then show ?thesis using Fin by (cases s) (simp_all add: f32_of_f64_def enc32_def fenc_def fround_def sign_bit_at_def fkey_def signed_def)
  next
    case 2
    obtain r where r: "fround 23 8 s m e = r" "0 \<le> r" "r \<le> inf_bits 23 8"
      using fround_bounds[OF m0, of 8 23 s e] 2 by (auto simp: sign_bit_at_def)
    then have b: "r < 2147483648" by (simp add: inf_bits_def)
    then have u: "uint (take_bit 32 (word_of_int r :: 64 word)) = r"
      using r(2) by (simp add: unsigned_take_bit_eq word_of_int_inverse take_bit_int_eq_self)
    show ?thesis using Fin r(1,2) b u by (simp add: f32_of_f64_def enc32_def fenc_def fkey_def signed_def)
  qed
qed

lemma cut_passes_nz:
  assumes "0 \<le> dt" "dt \<le> 9" "cut_ok dt threshold cutf" "cut_passes dt threshold cutf v"
  shows "px_nz dt v"
proof -
  consider (f) "dt = 8" | (d) "dt = 9" | (i) "\<not> is_float dt" using assms(1,2) by (force simp: is_float_def)
  then show ?thesis
  proof cases
    case f
    have "fkey 23 8 (uint (take_bit 32 v)) > fkey 23 8 (uint (take_bit 32 (f32_of_f64 cutf)))"
      using assms(4) f by (simp add: cut_passes_def px_gt_def bslz4_cut_of_def f32_gt_def fgt_def)
    then have "uint (take_bit 32 v) mod 2 ^ (23 + 8) \<noteq> 0"
      by (rule fkey_cases) (use assms(3) f in \<open>simp add: cut_ok_def is_float_def enc32_nonneg\<close>)
    moreover have "uint (take_bit 32 v) mod 2 ^ (23 + 8) = uint (take_bit 31 v)"
      unfolding take_bit_eq_mod[symmetric] unsigned_take_bit_eq take_bit_take_bit by simp
    ultimately have "take_bit 31 v \<noteq> 0" by auto
    then show ?thesis using f by (simp add: px_nz_def is_float_def px_bits_def bslz4_elem_size_def)
  next
    case d
    have "fkey 52 11 (uint v) > fkey 52 11 (uint cutf)"
      using assms(4) d by (simp add: cut_passes_def px_gt_def bslz4_cut_of_def f64_gt_def fgt_def)
    then have "uint v mod 2 ^ (52 + 11) \<noteq> 0"
      by (rule fkey_cases) (use assms(3) d in \<open>simp add: cut_ok_def is_float_def\<close>)
    moreover have "uint v mod 2 ^ (52 + 11) = uint (take_bit 63 v)"
      unfolding take_bit_eq_mod[symmetric] unsigned_take_bit_eq by simp
    ultimately have "take_bit 63 v \<noteq> 0" by auto
    then show ?thesis using d by (simp add: px_nz_def is_float_def px_bits_def bslz4_elem_size_def)
  next
    case i
    then have t: "dt = 3 \<or> 0 \<le> threshold" using assms(3) by (simp add: cut_ok_def)
    then have "px_int dt v > cut_value dt threshold" using cut_passes_int[OF assms(1) i t] assms(4) by simp
    moreover have "0 \<le> cut_value dt threshold" using t by (auto simp: cut_value_def)
    ultimately show ?thesis using i by (simp add: px_nz_def)
  qed
qed

lemma filter_picked:
  assumes "\<And>v. P v \<Longrightarrow> Q v"
  shows "filter (\<lambda>(v, a). P v) (picked Q block msk i0 js) = picked P block msk i0 js"
proof -
  have "((\<lambda>(v, a). P v) \<circ> (\<lambda>j. (block ! j, word_of_nat (j + i0) :: 32 word))) = (\<lambda>j. P (block ! j))" by auto
  then show ?thesis using assms by (auto simp: picked_def filter_map intro!: arg_cong[where f = "map _"] filter_cong simp: picks_def)
qed

section \<open>When the two routes agree\<close>

lemma sparse_pow_list:
  assumes "nz \<le> length (d_tval st)" "nz \<le> length (d_tidx st)"
  shows "sparse_pow body nz st = fold_res (\<lambda>(v, a). body (unat a) v) (nz_list nz st) (d_pow st)"
proof -
  have "nz_list nz st = map (\<lambda>k. (d_tval st ! k, d_tidx st ! k)) [0..<nz]"
    using assms by (intro nth_equalityI) (simp_all add: nz_list_def)
  then have "fold_res (\<lambda>(v, a). body (unat a) v) (nz_list nz st) (d_pow st)
      = fold_res (\<lambda>k. body (unat (d_tidx st ! k)) (d_tval st ! k)) [0..<nz] (d_pow st)" by (simp add: fold_res_map)
  also have "\<dots> = sparse_pow body nz st"
    unfolding sparse_pow_def by (rule fold_res_cong) (use assms in \<open>simp add: load_ok\<close>)
  finally show ?thesis by simp
qed

text \<open>
  A dot's body: what it does to a powder with one pixel. A pixel that is zero, or whose column of the matrix is empty (a masked
  pixel of a mask-folded matrix), adds nothing.
\<close>

locale dot_body =
  fixes body :: "nat \<Rightarrow> pix \<Rightarrow> pow_fn" and good :: "64 word list \<Rightarrow> bool" and fits :: "nat \<Rightarrow> pix \<Rightarrow> bool"
    and empty :: "nat \<Rightarrow> bool" and nz :: "pix \<Rightarrow> bool"
  assumes adds: "good pow \<Longrightarrow> fits p v \<Longrightarrow> \<exists>pow'. body p v pow = Inr pow' \<and> good pow'"
    and zero: "good pow \<Longrightarrow> fits p v \<Longrightarrow> \<not> nz v \<Longrightarrow> body p v pow = Inr pow"
    and folded: "good pow \<Longrightarrow> fits p v \<Longrightarrow> empty p \<Longrightarrow> body p v pow = Inr pow"
begin

lemma powders:
  assumes "good pow" "i0 + n \<le> 2 ^ 32"
    and "\<And>j. j < n \<Longrightarrow> fits (j + i0) (block ! j)" "\<And>j. j < n \<Longrightarrow> \<not> mask_keeps msk (j + i0) \<Longrightarrow> empty (j + i0)"
  shows "\<exists>pow'. fold_res (\<lambda>j. body (j + i0) (block ! j)) [0..<n] pow = Inr pow' \<and> good pow'
    \<and> fold_res (\<lambda>(v, a). body (unat a) v) (picked nz block msk i0 [0..<n]) pow = Inr pow'"
  using assms(2-4)
proof (induction n)
  case 0
  then show ?case using assms(1) by simp
next
  case (Suc n)
  have "i0 + n \<le> 2 ^ 32" using Suc.prems(1) by simp
  moreover have "\<And>j. j < n \<Longrightarrow> fits (j + i0) (block ! j)" "\<And>j. j < n \<Longrightarrow> \<not> mask_keeps msk (j + i0) \<Longrightarrow> empty (j + i0)"
    by (rule Suc.prems(2), simp, rule Suc.prems(3), simp, assumption)
  ultimately obtain p1 where p1: "fold_res (\<lambda>j. body (j + i0) (block ! j)) [0..<n] pow = Inr p1" "good p1"
    "fold_res (\<lambda>(v, a). body (unat a) v) (picked nz block msk i0 [0..<n]) pow = Inr p1"
    using Suc.IH by blast
  have f: "fits (n + i0) (block ! n)" using Suc.prems(2) by simp
  obtain p2 where p2: "body (n + i0) (block ! n) p1 = Inr p2" "good p2" using adds[OF p1(2) f] by blast
  have a: "unat (word_of_nat (n + i0) :: 32 word) = n + i0"
    unfolding unat_of_nat using Suc.prems(1) by (intro mod_less) simp
  have "p2 = p1" if "\<not> picks nz block msk i0 n"
  proof (cases "nz (block ! n)")
    case False
    then show ?thesis using zero[OF p1(2) f] p2(1) by simp
  next
    case True
    then show ?thesis using that folded[OF p1(2) f] p2(1) Suc.prems(3)[of n] by (simp add: picks_def)
  qed
  then show ?case using p1 p2 a by (simp add: fold_res_append picked_append picked_Cons)
qed

text \<open>Both routes, on any build, give the same powder and the same list.\<close>

lemma routes_agree:
  assumes w: "block_ready w" "0 \<le> w_dtype w" "w_dtype w \<le> 9" "cut_ok (w_dtype w) (w_threshold w) (w_cutf w)" "w_i0 w + w_n w \<le> 2 ^ 32"
    and nz: "px_nz (w_dtype w) = nz" and st: "room (w_n w) st" "good (d_pow st)"
    and px: "\<And>j. j < w_n w \<Longrightarrow> fits (j + w_i0 w) (w_block w ! j)"
      "\<And>j. j < w_n w \<Longrightarrow> \<not> mask_keeps (work_mask w) (j + w_i0 w) \<Longrightarrow> empty (j + w_i0 w)"
    and st2: "nz_ready w2 st2 (picked nz (w_block w) (work_mask w) (w_i0 w) [0..<w_n w])" "room (w_n w) st2" "d_pow st2 = d_pow st"
      "passes w2 = passes w"
  defines "K \<equiv> picked (passes w) (w_block w) (work_mask w) (w_i0 w) [0..<w_n w]"
  shows "\<exists>pow. good pow \<and> dot_gives st (dense_route body bld w st) pow K \<and> dot_gives st2 (sparse_route (sparse_pow body) bld2 w2 st2) pow K"
proof -
  let ?L = "picked nz (w_block w) (work_mask w) (w_i0 w) [0..<w_n w]"
  obtain pow where p: "fold_res (\<lambda>j. body (j + w_i0 w) (w_block w ! j)) [0..<w_n w] (d_pow st) = Inr pow" "good pow"
    "fold_res (\<lambda>(v, a). body (unat a) v) ?L (d_pow st) = Inr pow"
    using powders[OF st(2) w(5), of "w_block w" "work_mask w"] px by blast
  have "w_n w \<le> length (w_block w)" using w(1) by (simp add: block_ready_def readable_def)
  then have "dense_pow body w (d_pow st) = fold_res (\<lambda>j. body (j + w_i0 w) (w_block w ! j)) [0..<w_n w] (d_pow st)"
    unfolding dense_pow_def by (intro fold_res_cong) (simp add: load_ok)
  then have "dense_pow body w (d_pow st) = Inr pow" using p(1) by simp
  then have d: "dot_gives st (dense_route body bld w st) pow K"
    unfolding dense_route_def K_def by (intro dense_with_gives w(1) st(1))
  have l: "length ?L \<le> w_n w" using length_picked[of nz "w_block w" "work_mask w" "w_i0 w" "[0..<w_n w]"] by simp
  have "dot_gives st2 (sparse_route (sparse_pow body) bld2 w2 st2) pow (filter (\<lambda>(v, a). passes w2 v) ?L)"
  proof (rule sparse_route_gives[OF st2(1)])
    show "room (length ?L) st2" using st2(2) l by (simp add: room_def)
    show "sparse_pow body (length ?L) st1 = Inr pow"
      if "nz_list (length ?L) st1 = ?L" "length ?L \<le> length (d_tval st1)" "length ?L \<le> length (d_tidx st1)" "d_pow st1 = d_pow st2" for st1
      using that p(3) st2(3) by (simp add: sparse_pow_list)
  qed
  moreover have "filter (\<lambda>(v, a). passes w2 v) ?L = K"
    unfolding K_def st2(4) by (rule filter_picked) (use cut_passes_nz[OF w(2-4)] nz in \<open>auto simp: passes_def\<close>)
  ultimately show ?thesis using d p(2) by auto
qed

end

end
