(* ===== verification/DotCsc.thy ===== *)
theory DotCsc
  imports DotRoute
begin

text \<open>
  \<open>src/steps/dot_csc.hpp\<close>: the dense and sparse routes of csc, csc-run and csc-nosplit. \<open>data\<close> holds the patterns of its
  elements (\<open>float\<close>, u32 or u16, as the dot reads them). \<open>fc\<close> says whether the compiler contracts a multiply-add.
\<close>

section \<open>Matrices\<close>

record bslz4_mat_csc =
  m_data :: "64 word list"
  m_indices :: "32 word list"
  m_indptr :: "32 word list"

definition BSLZ4_NO_BIN :: "32 word" where "BSLZ4_NO_BIN = 0xFFFFFFFF"
definition BSLZ4_DOT_STAGE :: nat where "BSLZ4_DOT_STAGE = 128"

section \<open>What one pixel adds\<close>

definition csc_entry :: "bool \<Rightarrow> bslz4_mat_csc \<Rightarrow> f64 \<Rightarrow> nat \<Rightarrow> 64 word list \<Rightarrow> 64 word list res" where
  "csc_entry fc m v k pow =
     rbind (load (m_indices m) k) (\<lambda>b. rbind (load (m_data m) k) (\<lambda>d.
       acc_at (madd fc (f64_of_f32 d) v) (unat b) pow))"

definition csc_add :: "bool \<Rightarrow> int \<Rightarrow> bslz4_mat_csc \<Rightarrow> nat \<Rightarrow> pix \<Rightarrow> 64 word list \<Rightarrow> 64 word list res" where
  "csc_add fc dt m p v pow =
     rbind (load (m_indptr m) p) (\<lambda>k0. rbind (load (m_indptr m) (p + 1)) (\<lambda>k1.
       fold_res (csc_entry fc m (px_f64 dt v)) [unat k0..<unat k1] pow))"

text \<open>The consecutive bins of csc-run: \<open>k1 - k0\<close> is a 32-bit difference.\<close>

definition run_add :: "bool \<Rightarrow> int \<Rightarrow> bslz4_mat_csc \<Rightarrow> nat \<Rightarrow> pix \<Rightarrow> 64 word list \<Rightarrow> 64 word list res" where
  "run_add fc dt m p v pow =
     rbind (load (m_indptr m) p) (\<lambda>k0. rbind (load (m_indptr m) (p + 1)) (\<lambda>k1.
     rbind (load (m_indices m) p) (\<lambda>start.
       fold_res (\<lambda>k pow. rbind (load (m_data m) (unat k0 + k)) (\<lambda>d.
           acc_at (madd fc (f64_of_f32 d) (px_f64 dt v)) (unat start + k) pow)) [0..<unat (k1 - k0)] pow)))"

definition nosplit_add :: "int \<Rightarrow> 32 word list \<Rightarrow> nat \<Rightarrow> pix \<Rightarrow> 64 word list \<Rightarrow> 64 word list res" where
  "nosplit_add dt bin p v pow =
     rbind (load bin p) (\<lambda>b.
       if b \<noteq> BSLZ4_NO_BIN then acc_at (\<lambda>x. f64_add x (px_f64 dt v)) (unat b) pow else Inr pow)"

section \<open>csc\<close>

definition dense_dot :: "build \<Rightarrow> bool \<Rightarrow> bslz4_mat_csc \<Rightarrow> bslz4_work \<Rightarrow> dot_st \<Rightarrow> (int \<times> dot_st) res" where
  "dense_dot bld fc m w st = dense_route (csc_add fc (w_dtype w) m) bld w st"

text \<open>The staging buffers, the position in them and the powder.\<close>

record stage_st =
  g_sk :: "32 word list"
  g_sv :: "64 word list"
  g_pos :: nat
  g_pow :: "64 word list"

definition stage_flush :: "bool \<Rightarrow> bslz4_mat_csc \<Rightarrow> stage_st \<Rightarrow> 64 word list res" where
  "stage_flush fc m g =
     fold_res (\<lambda>e pow. rbind (load (g_sk g) e) (\<lambda>k. rbind (load (g_sv g) e) (\<lambda>v. csc_entry fc m (f64_of_f32 v) (unat k) pow)))
       [0..<g_pos g] (g_pow g)"

definition stage_pixel :: "bool \<Rightarrow> int \<Rightarrow> bslz4_mat_csc \<Rightarrow> dot_st \<Rightarrow> nat \<Rightarrow> stage_st \<Rightarrow> stage_st res" where
  "stage_pixel fc dt m st kk g =
     rbind (load (d_tidx st) kk) (\<lambda>addr.
     rbind (load (m_indptr m) (unat addr)) (\<lambda>k0. rbind (load (m_indptr m) (unat addr + 1)) (\<lambda>k1.
     rbind (load (d_tval st) kk) (\<lambda>v. let len = k1 - k0 in
       if \<not> len > 8 then
         rbind (store_n (g_sk g) (g_pos g) (map (\<lambda>j. k0 + word_of_nat j) [0..<8])) (\<lambda>sk.
         rbind (store_n (g_sv g) (g_pos g) (replicate 8 (px_f32 dt v))) (\<lambda>sv.
           Inr (g\<lparr>g_sk := sk, g_sv := sv, g_pos := g_pos g + unat len\<rparr>)))
       else
         rbind (stage_flush fc m g) (\<lambda>pow.
         rbind (fold_res (csc_entry fc m (px_f64 dt v)) [unat k0..<unat (k0 + len)] pow) (\<lambda>pow.
           Inr (g\<lparr>g_pos := 0, g_pow := pow\<rparr>)))))))"

definition stage_chunk :: "bool \<Rightarrow> int \<Rightarrow> bslz4_mat_csc \<Rightarrow> dot_st \<Rightarrow> nat \<Rightarrow> nat \<Rightarrow> 32 word list \<times> 64 word list \<times> 64 word list
    \<Rightarrow> (32 word list \<times> 64 word list \<times> 64 word list) res" where
  "stage_chunk fc dt m st nz b = (\<lambda>(sk, sv, pow).
     let base = BSLZ4_DOT_STAGE * b; e = (if nz - base < BSLZ4_DOT_STAGE then nz else base + BSLZ4_DOT_STAGE) in
     rbind (fold_res (stage_pixel fc dt m st) [base..<e] \<lparr>g_sk = sk, g_sv = sv, g_pos = 0, g_pow = pow\<rparr>) (\<lambda>g.
     rbind (stage_flush fc m g) (\<lambda>pow. Inr (g_sk g, g_sv g, pow))))"

definition staged_pow :: "bool \<Rightarrow> int \<Rightarrow> bslz4_mat_csc \<Rightarrow> nat \<Rightarrow> dot_st \<Rightarrow> 64 word list res" where
  "staged_pow fc dt m nz st =
     rbind (fold_res (stage_chunk fc dt m st nz) [0..<(nz + BSLZ4_DOT_STAGE - 1) div BSLZ4_DOT_STAGE]
         (replicate (BSLZ4_DOT_STAGE * 8 + 8) 0, replicate (BSLZ4_DOT_STAGE * 8 + 8) 0, d_pow st)) (\<lambda>(sk, sv, pow). Inr pow)"

definition sparse_dot_core :: "build \<Rightarrow> bool \<Rightarrow> bslz4_mat_csc \<Rightarrow> bslz4_work \<Rightarrow> dot_st \<Rightarrow> (int \<times> dot_st) res" where
  "sparse_dot_core bld fc m w st =
     sparse_route (\<lambda>nz st.
       rbind (load (m_indptr m) (w_i0 w + w_n w)) (\<lambda>e1. rbind (load (m_indptr m) (w_i0 w)) (\<lambda>e0.
       let eblk = unat (e1 - e0) in
         if 2 * eblk > 3 * w_n w \<and> eblk < 4 * w_n w then staged_pow fc (w_dtype w) m nz st
         else sparse_pow (csc_add fc (w_dtype w) m) nz st))) bld w st"

definition sparse_dot :: "build \<Rightarrow> bool \<Rightarrow> bslz4_mat_csc \<Rightarrow> bslz4_work \<Rightarrow> dot_st \<Rightarrow> (int \<times> dot_st) res" where
  "sparse_dot = sparse_dot_core"

section \<open>csc-run and csc-nosplit\<close>

definition run_dense :: "build \<Rightarrow> bool \<Rightarrow> bslz4_mat_csc \<Rightarrow> bslz4_work \<Rightarrow> dot_st \<Rightarrow> (int \<times> dot_st) res" where
  "run_dense bld fc m w st = dense_route (run_add fc (w_dtype w) m) bld w st"

definition run_sparse :: "build \<Rightarrow> bool \<Rightarrow> bslz4_mat_csc \<Rightarrow> bslz4_work \<Rightarrow> dot_st \<Rightarrow> (int \<times> dot_st) res" where
  "run_sparse bld fc m w st = sparse_route (sparse_pow (run_add fc (w_dtype w) m)) bld w st"

definition nosplit_dense :: "build \<Rightarrow> bslz4_mat_csc \<Rightarrow> bslz4_work \<Rightarrow> dot_st \<Rightarrow> (int \<times> dot_st) res" where
  "nosplit_dense bld m w st = dense_route (nosplit_add (w_dtype w) (m_indices m)) bld w st"

definition nosplit_sparse_core :: "build \<Rightarrow> 32 word list \<Rightarrow> bslz4_work \<Rightarrow> dot_st \<Rightarrow> (int \<times> dot_st) res" where
  "nosplit_sparse_core bld bin w st = sparse_route (sparse_pow (nosplit_add (w_dtype w) bin)) bld w st"

definition nosplit_sparse :: "build \<Rightarrow> bslz4_mat_csc \<Rightarrow> bslz4_work \<Rightarrow> dot_st \<Rightarrow> (int \<times> dot_st) res" where
  "nosplit_sparse bld m w st = nosplit_sparse_core bld (m_indices m) w st"

section \<open>A zero pixel\<close>

lemma zero_bits:
  fixes v :: "64 word"
  assumes "take_bit n v = 0" "n < 64"
  shows "take_bit (Suc n) v = 0 \<or> take_bit (Suc n) v = 2 ^ n"
proof -
  have b: "\<not> bit v k" if "k < n" for k
    using that arg_cong[OF assms(1), of "\<lambda>x. bit x k"] by (simp add: bit_take_bit_iff)
  show ?thesis
  proof (cases "bit v n")
    case True
    then have "take_bit (Suc n) v = 2 ^ n"
      using b assms(2) by (intro bit_word_eqI) (auto simp: bit_take_bit_iff bit_exp_iff possible_bit_word less_Suc_eq)
    then show ?thesis by simp
  next
    case False
    then have "take_bit (Suc n) v = 0"
      using b by (intro bit_word_eqI) (auto simp: bit_take_bit_iff less_Suc_eq)
    then show ?thesis by simp
  qed
qed

lemma px_zero_f64:
  assumes "0 \<le> dt" "dt \<le> 9" "\<not> px_nz dt v"
  shows "px_f64 dt v = 0 \<or> px_f64 dt v = 0x8000000000000000"
proof -
  consider "dt = 8" | "dt = 9" | "\<not> is_float dt" using assms(1,2) by (force simp: is_float_def)
  then show ?thesis
  proof cases
    case 1
    then have "take_bit 31 v = 0" using assms(3) by (simp add: px_nz_def is_float_def px_bits_def bslz4_elem_size_def)
    from zero_bits[OF this] have "take_bit 32 v = 0 \<or> take_bit 32 v = 0x80000000" by simp
    then have "dec32 v = Fin False 0 (emin 23 8) \<or> dec32 v = Fin True 0 (emin 23 8)"
      unfolding dec32_def by (elim disjE) (simp_all add: fdec_def)
    then show ?thesis using 1 by (auto simp: px_f64_def f64_of_f32_def enc64_zero)
  next
    case 2
    then have "take_bit 63 v = 0" using assms(3) by (simp add: px_nz_def is_float_def px_bits_def bslz4_elem_size_def)
    from zero_bits[OF this] have "take_bit 64 v = 0 \<or> take_bit 64 v = 0x8000000000000000" by simp
    then show ?thesis using 2 by (simp add: px_f64_def take_bit_word_eq_self)
  next
    case 3
    then have "px_int dt v = 0" using assms(3) by (simp add: px_nz_def)
    then show ?thesis using 3 by (auto simp: px_f64_def is_float_def f64_of_int_def enc64_zero)
  qed
qed

section \<open>Loops over the entries of a pixel\<close>

lemma acc_at_ok: "b < length pow \<Longrightarrow> acc_at f b pow = Inr (pow[b := f (pow ! b)])"
  by (simp add: acc_at_def load_ok store_ok)

lemma entries_add:
  assumes "\<forall>x\<in>set pow. ok x"
    and "\<And>k q. k \<in> set ks \<Longrightarrow> step k q = acc_at (f k) (bin k) q"
    and "\<And>k. k \<in> set ks \<Longrightarrow> bin k < length pow" "\<And>k x. k \<in> set ks \<Longrightarrow> ok x \<Longrightarrow> ok (f k x)"
  shows "\<exists>pow'. fold_res step ks pow = Inr pow' \<and> length pow' = length pow \<and> (\<forall>x\<in>set pow'. ok x)"
  using assms
proof (induction ks arbitrary: pow)
  case (Cons k ks)
  let ?q = "pow[bin k := f k (pow ! bin k)]"
  have b: "bin k < length pow" by (rule Cons.prems(3)) simp
  then have e: "step k pow = Inr ?q" using Cons.prems(2)[of k pow] by (simp add: acc_at_ok)
  have "ok (f k (pow ! bin k))" using Cons.prems(1,4) b by simp
  then have "\<forall>x\<in>set ?q. ok x" using Cons.prems(1) by (auto dest: set_update_subset_insert[THEN subsetD])
  then have "\<exists>pow'. fold_res step ks ?q = Inr pow' \<and> length pow' = length ?q \<and> (\<forall>x\<in>set pow'. ok x)"
    by (rule Cons.IH) (use Cons.prems(2-4) in auto)
  then show ?case using e by simp
qed simp

lemma entries_zero:
  assumes "\<forall>x\<in>set pow. ok x"
    and "\<And>k q. k \<in> set ks \<Longrightarrow> step k q = acc_at (f k) (bin k) q"
    and "\<And>k. k \<in> set ks \<Longrightarrow> bin k < length pow" "\<And>k x. k \<in> set ks \<Longrightarrow> ok x \<Longrightarrow> f k x = x"
  shows "fold_res step ks pow = Inr pow"
  using assms
proof (induction ks)
  case (Cons k ks)
  have b: "bin k < length pow" by (rule Cons.prems(3)) simp
  have "step k pow = Inr pow" using Cons.prems(1,4) Cons.prems(2)[of k pow] b by (simp add: acc_at_ok)
  moreover have "fold_res step ks pow = Inr pow" by (rule Cons.IH) (use Cons.prems in auto)
  ultimately show ?case by simp
qed simp

section \<open>The bodies\<close>

text \<open>The shape of a csc matrix of \<open>npix\<close> columns over \<open>nout\<close> bins.\<close>

definition csc_shape :: "bslz4_mat_csc \<Rightarrow> nat \<Rightarrow> nat \<Rightarrow> bool" where
  "csc_shape m npix nout \<longleftrightarrow> npix < length (m_indptr m) \<and> (\<forall>p<npix. m_indptr m ! p \<le> m_indptr m ! (p + 1))
     \<and> (\<forall>q\<in>set (m_indptr m). unat q \<le> length (m_indices m) \<and> unat q \<le> length (m_data m))
     \<and> (\<forall>b\<in>set (m_indices m). unat b < nout)"

definition sums :: "nat \<Rightarrow> 64 word list \<Rightarrow> bool" where
  "sums nout pow \<longleftrightarrow> length pow = nout \<and> (\<forall>x\<in>set pow. stable x)"

text \<open>A weight is finite, and its product with the pixel does not underflow where the compiler contracts.\<close>

definition weighs :: "bool \<Rightarrow> int \<Rightarrow> 64 word list \<Rightarrow> pix \<Rightarrow> bool" where
  "weighs fc dt ds v \<longleftrightarrow> 0 \<le> dt \<and> dt \<le> 9 \<and> (\<forall>d\<in>set ds. finite64 (f64_of_f32 d) \<and> (fc \<longrightarrow> tame (vmul (dec64 (f64_of_f32 d)) (dec64 (px_f64 dt v)))))"

definition csc_fits :: "bool \<Rightarrow> int \<Rightarrow> bslz4_mat_csc \<Rightarrow> nat \<Rightarrow> nat \<Rightarrow> nat \<Rightarrow> pix \<Rightarrow> bool" where
  "csc_fits fc dt m npix nout p v \<longleftrightarrow> p < npix \<and> csc_shape m npix nout \<and> weighs fc dt (m_data m) v"

definition no_entry :: "bslz4_mat_csc \<Rightarrow> nat \<Rightarrow> bool" where
  "no_entry m p \<longleftrightarrow> m_indptr m ! p = m_indptr m ! (p + 1)"

lemma csc_column:
  assumes "csc_shape m npix nout" "p < npix" "k < unat (m_indptr m ! (p + 1))"
  shows "k < length (m_indices m)" "k < length (m_data m)" "unat (m_indices m ! k) < nout"
proof -
  have "m_indptr m ! (p + 1) \<in> set (m_indptr m)" using assms(1,2) by (simp add: csc_shape_def)
  then show "k < length (m_indices m)" "k < length (m_data m)" using assms(1,3) by (fastforce simp: csc_shape_def)+
  then show "unat (m_indices m ! k) < nout" using assms(1) by (simp add: csc_shape_def)
qed

lemma csc_add_entries:
  "csc_shape m npix nout \<Longrightarrow> p < npix
    \<Longrightarrow> csc_add fc dt m p v pow = fold_res (csc_entry fc m (px_f64 dt v)) [unat (m_indptr m ! p)..<unat (m_indptr m ! (p + 1))] pow"
  by (simp add: csc_add_def load_ok csc_shape_def)

interpretation csc: dot_body "csc_add fc dt m" "sums nout" "csc_fits fc dt m npix nout" "no_entry m" "px_nz dt"
  for fc dt m npix nout
proof
  fix pow p v
  assume g: "sums nout pow" and f: "csc_fits fc dt m npix nout p v"
  let ?ks = "[unat (m_indptr m ! p)..<unat (m_indptr m ! (p + 1))]"
  let ?f = "\<lambda>k. madd fc (f64_of_f32 (m_data m ! k)) (px_f64 dt v)" and ?bin = "\<lambda>k. unat (m_indices m ! k)"
  have sh: "csc_shape m npix nout" "p < npix" and w: "weighs fc dt (m_data m) v" using f by (simp_all add: csc_fits_def)
  have st: "csc_entry fc m (px_f64 dt v) k q = acc_at (?f k) (?bin k) q" and b: "?bin k < length pow"
    and d: "m_data m ! k \<in> set (m_data m)" if "k \<in> set ?ks" for k q
    using csc_column[OF sh, of k] that g by (simp_all add: csc_entry_def load_ok sums_def)
  have ok: "\<forall>x\<in>set pow. stable x" using g by (simp add: sums_def)
  show "\<exists>pow'. csc_add fc dt m p v pow = Inr pow' \<and> sums nout pow'"
  proof -
    have "\<exists>pow'. fold_res (csc_entry fc m (px_f64 dt v)) ?ks pow = Inr pow' \<and> length pow' = length pow \<and> (\<forall>x\<in>set pow'. stable x)"
      by (rule entries_add[OF ok st b]) (use d w in \<open>auto simp: weighs_def intro!: stable_madd\<close>)
    then show ?thesis using g unfolding csc_add_entries[OF sh] by (auto simp: sums_def)
  qed
  show "csc_add fc dt m p v pow = Inr pow" if "\<not> px_nz dt v"
    unfolding csc_add_entries[OF sh]
    by (rule entries_zero[OF ok st b]) (use d w px_zero_f64[OF _ _ that] in \<open>auto simp: weighs_def intro!: madd_zero\<close>)
  show "csc_add fc dt m p v pow = Inr pow" if "no_entry m p"
    using that unfolding csc_add_entries[OF sh] by (simp add: no_entry_def)
qed

section \<open>Staging applies the same entries in the same order\<close>

text \<open>\<open>(double) (float) v = (double) v\<close>: the staging buffer of floats loses nothing of the pixel.\<close>

definition px_exact :: "int \<Rightarrow> pix \<Rightarrow> bool" where
  "px_exact dt v \<longleftrightarrow> f64_of_f32 (px_f32 dt v) = px_f64 dt v"

definition listed_add :: "bool \<Rightarrow> int \<Rightarrow> bslz4_mat_csc \<Rightarrow> dot_st \<Rightarrow> nat \<Rightarrow> pow_fn" where
  "listed_add fc dt m st kk = csc_add fc dt m (unat (d_tidx st ! kk)) (d_tval st ! kk)"

definition staged_upto :: "bool \<Rightarrow> int \<Rightarrow> bslz4_mat_csc \<Rightarrow> dot_st \<Rightarrow> 64 word list \<Rightarrow> nat \<Rightarrow> nat \<Rightarrow> stage_st \<Rightarrow> bool" where
  "staged_upto fc dt m st pow base kk g \<longleftrightarrow> length (g_sk g) = 1032 \<and> length (g_sv g) = 1032 \<and> g_pos g \<le> 8 * (kk - base)
     \<and> stage_flush fc m g = fold_res (listed_add fc dt m st) [base..<kk] pow"

lemma unat_diff_le: "(a :: 32 word) \<le> b \<Longrightarrow> unat (b - a) = unat b - unat a"
  by (simp add: unat_sub)

lemma unat_add_small: "unat a + j < 2 ^ 32 \<Longrightarrow> unat ((a :: 32 word) + word_of_nat j) = unat a + j"
  by (simp add: unat_word_ariths unat_of_nat)

lemma fold_upt_shift: "fold_res f [a..<a + n] s = fold_res (\<lambda>j. f (a + j)) [0..<n] s"
proof -
  have "[a..<a + n] = map (\<lambda>j. a + j) [0..<n]" by (intro nth_equalityI) simp_all
  then show ?thesis by (simp add: fold_res_map)
qed

text \<open>One more pixel: its entries go to the end of the buffer, or straight to the powder after a flush.\<close>

lemma stage_pixel_step:
  assumes sh: "csc_shape m npix nout" "unat (d_tidx st ! kk) < npix" and kk: "kk < length (d_tidx st)" "kk < length (d_tval st)"
    and ex: "px_exact dt (d_tval st ! kk)" and k: "base \<le> kk" "kk < base + 128"
    and I: "staged_upto fc dt m st pow base kk g"
    and fine: "fold_res (listed_add fc dt m st) [base..<kk + 1] pow = Inr pow'"
  shows "\<exists>g'. stage_pixel fc dt m st kk g = Inr g' \<and> staged_upto fc dt m st pow base (kk + 1) g'"
proof -
  define a where "a = unat (d_tidx st ! kk)"
  define v where "v = d_tval st ! kk"
  define k0 where "k0 = m_indptr m ! a"
  define k1 where "k1 = m_indptr m ! (a + 1)"
  have len: "length (g_sk g) = 1032" "length (g_sv g) = 1032" "g_pos g \<le> 8 * (kk - base)"
    and fl: "stage_flush fc m g = fold_res (listed_add fc dt m st) [base..<kk] pow"
    using I by (simp_all add: staged_upto_def)
  have room: "g_pos g + 8 \<le> 1032" using len(3) k by simp
  have mono: "k0 \<le> k1" using sh by (simp add: csc_shape_def k0_def k1_def a_def)
  then have ln: "unat (k1 - k0) = unat k1 - unat k0" "unat k0 \<le> unat k1" by (simp_all add: unat_diff_le word_le_nat_alt)
  have add: "listed_add fc dt m st kk q = fold_res (csc_entry fc m (px_f64 dt v)) [unat k0..<unat k1] q" for q
    using csc_add_entries[OF sh, of fc dt "d_tval st ! kk"] by (simp add: listed_add_def v_def k0_def k1_def a_def)
  have seq: "fold_res (listed_add fc dt m st) [base..<kk + 1] pow
      = rbind (stage_flush fc m g) (fold_res (csc_entry fc m (px_f64 dt v)) [unat k0..<unat k1])"
    using k(1) fl by (simp add: fold_res_append add[abs_def])
  have ld: "load (d_tidx st) kk = Inr (d_tidx st ! kk)" "load (m_indptr m) a = Inr k0" "load (m_indptr m) (a + 1) = Inr k1"
    "load (d_tval st) kk = Inr v" using kk sh by (simp_all add: load_ok csc_shape_def k0_def k1_def a_def v_def)
  show ?thesis
  proof (cases "k1 - k0 > 8")
    case True
    obtain q where q: "stage_flush fc m g = Inr q" using fine seq by (cases "stage_flush fc m g") simp_all
    have f: "fold_res (csc_entry fc m (px_f64 dt v)) [unat k0..<unat k1] q = Inr pow'" using fine seq q by simp
    have "stage_pixel fc dt m st kk g = Inr (g\<lparr>g_pos := 0, g_pow := pow'\<rparr>)"
      using True ld q f by (simp add: stage_pixel_def a_def[symmetric] Let_def)
    then show ?thesis using len fine by (simp add: staged_upto_def stage_flush_def)
  next
    case False
    let ?n = "unat (k1 - k0)"
    have n8: "?n \<le> 8" using False by (simp add: word_less_nat_alt not_less)
    define sk where "sk = blit (g_sk g) (g_pos g) (map (\<lambda>j. k0 + word_of_nat j) [0..<8])"
    define sv where "sv = blit (g_sv g) (g_pos g) (replicate 8 (px_f32 dt v))"
    let ?g = "g\<lparr>g_sk := sk, g_sv := sv, g_pos := g_pos g + ?n\<rparr>"
    have st: "stage_pixel fc dt m st kk g = Inr ?g"
      using False ld room len by (simp add: stage_pixel_def a_def[symmetric] Let_def store_n_ok sk_def sv_def)
    have nth: "e < g_pos g \<Longrightarrow> sk ! e = g_sk g ! e \<and> sv ! e = g_sv g ! e"
      "j < 8 \<Longrightarrow> sk ! (g_pos g + j) = k0 + word_of_nat j \<and> sv ! (g_pos g + j) = px_f32 dt v" for e j
      using room len by (simp_all add: sk_def sv_def nth_blit)
    have ls: "length sk = 1032" "length sv = 1032" using room len by (simp_all add: sk_def sv_def length_blit)
    let ?f = "\<lambda>g e pow. rbind (load (g_sk g) e) (\<lambda>k. rbind (load (g_sv g) e) (\<lambda>v. csc_entry fc m (f64_of_f32 v) (unat k) pow))"
    have old: "fold_res (?f ?g) [0..<g_pos g] q = fold_res (?f g) [0..<g_pos g] q" for q
      by (rule fold_res_cong) (use nth(1) ls len room in \<open>simp add: load_ok\<close>)
    have un: "unat (k0 + word_of_nat j) = unat k0 + j" if "j < ?n" for j
    proof (rule unat_add_small)
      show "unat k0 + j < 2 ^ 32" using that ln unsigned_less[of k1, where 'a = nat] by simp
    qed
    have new: "fold_res (?f ?g) [g_pos g..<g_pos g + ?n] q = fold_res (csc_entry fc m (px_f64 dt v)) [unat k0..<unat k1] q" for q
    proof -
      have "fold_res (?f ?g) [g_pos g..<g_pos g + ?n] q = fold_res (\<lambda>j. csc_entry fc m (px_f64 dt v) (unat k0 + j)) [0..<?n] q"
        unfolding fold_upt_shift
        by (rule fold_res_cong) (use nth(2) ls room un n8 ex in \<open>simp add: load_ok px_exact_def v_def\<close>)
      also have "\<dots> = fold_res (csc_entry fc m (px_f64 dt v)) [unat k0..<unat k0 + ?n] q" by (simp only: fold_upt_shift)
      finally show ?thesis using ln by simp
    qed
    have "stage_flush fc m ?g = fold_res (?f ?g) ([0..<g_pos g] @ [g_pos g..<g_pos g + ?n]) (g_pow g)"
      using upt_add_eq_append[of 0 "g_pos g" ?n] by (simp add: stage_flush_def)
    also have "\<dots> = rbind (stage_flush fc m g) (fold_res (csc_entry fc m (px_f64 dt v)) [unat k0..<unat k1])"
      unfolding fold_res_append old stage_flush_def by (intro rbind_cong refl) (rule new)
    finally have "stage_flush fc m ?g = fold_res (listed_add fc dt m st) [base..<kk + 1] pow" using seq by simp
    then have "staged_upto fc dt m st pow base (kk + 1) ?g" using ls len n8 k by (simp add: staged_upto_def)
    then show ?thesis using st by blast
  qed
qed

lemma stage_chunk_step:
  assumes sh: "csc_shape m npix nout" and px: "\<And>kk. kk < nz \<Longrightarrow> unat (d_tidx st ! kk) < npix \<and> px_exact dt (d_tval st ! kk)"
    and l: "nz \<le> length (d_tidx st)" "nz \<le> length (d_tval st)" and b: "128 * c < nz"
    and fine: "\<And>kk. kk \<le> nz \<Longrightarrow> \<exists>q. fold_res (listed_add fc dt m st) [0..<kk] (d_pow st) = Inr q"
    and I: "length sk = 1032" "length sv = 1032" "fold_res (listed_add fc dt m st) [0..<128 * c] (d_pow st) = Inr pow"
  shows "\<exists>sk' sv' pow'. stage_chunk fc dt m st nz c (sk, sv, pow) = Inr (sk', sv', pow') \<and> length sk' = 1032 \<and> length sv' = 1032
    \<and> fold_res (listed_add fc dt m st) [0..<min nz (128 * c + 128)] (d_pow st) = Inr pow'"
proof -
  let ?b = "128 * c" and ?e = "min nz (128 * c + 128)" and ?g = "\<lparr>g_sk = sk, g_sv = sv, g_pos = 0, g_pow = pow\<rparr>"
  let ?n = "?e - ?b"
  let ?I = "\<lambda>i. staged_upto fc dt m st pow ?b (?b + i)"
  have split: "fold_res (listed_add fc dt m st) [0..<?b + i] (d_pow st) = fold_res (listed_add fc dt m st) [?b..<?b + i] pow" for i
  proof -
    have "[0..<?b + i] = [0..<?b] @ [?b..<?b + i]" using upt_add_eq_append[of 0 ?b i] by simp
    then show ?thesis using I(3) by (simp add: fold_res_append)
  qed
  have "\<exists>g. fold_res (\<lambda>i. stage_pixel fc dt m st (?b + i)) [0..<?n] ?g = Inr g \<and> ?I ?n g"
  proof (rule fold_upt_inv[where I = ?I])
    show "?I 0 ?g" using I by (simp add: staged_upto_def stage_flush_def)
  next
    fix i g assume i: "i < ?n" and g: "?I i g"
    have "\<exists>q. fold_res (listed_add fc dt m st) [0..<?b + (i + 1)] (d_pow st) = Inr q" using i by (intro fine) simp
    then obtain q where q: "fold_res (listed_add fc dt m st) [?b..<?b + (i + 1)] pow = Inr q" unfolding split by blast
    have "\<exists>g'. stage_pixel fc dt m st (?b + i) g = Inr g' \<and> staged_upto fc dt m st pow ?b (?b + i + 1) g'"
      by (rule stage_pixel_step[OF sh]) (use px[of "?b + i"] i l g q in \<open>auto simp: add.assoc\<close>)
    then show "\<exists>g'. stage_pixel fc dt m st (?b + i) g = Inr g' \<and> ?I (Suc i) g'" by simp
  qed
  then obtain g where g: "fold_res (stage_pixel fc dt m st) [?b..<?b + ?n] ?g = Inr g" "?I ?n g" unfolding fold_upt_shift by blast
  have e: "?b + ?n = ?e" using b by simp
  obtain q where q: "fold_res (listed_add fc dt m st) [0..<?e] (d_pow st) = Inr q" using fine[of ?e] by auto
  then have "stage_flush fc m g = Inr q" using g(2) split[of ?n] unfolding e staged_upto_def by simp
  moreover have e': "(if nz - BSLZ4_DOT_STAGE * c < BSLZ4_DOT_STAGE then nz else BSLZ4_DOT_STAGE * c + BSLZ4_DOT_STAGE) = ?e"
    using b by (auto simp: BSLZ4_DOT_STAGE_def)
  moreover have B: "BSLZ4_DOT_STAGE * c = ?b" by (simp add: BSLZ4_DOT_STAGE_def)
  ultimately have "stage_chunk fc dt m st nz c (sk, sv, pow) = Inr (g_sk g, g_sv g, q)"
    using g(1) unfolding e stage_chunk_def Let_def split_conv e' unfolding B by simp
  then show ?thesis using g(2) q by (simp add: staged_upto_def)
qed

lemma staged_pow_eq:
  assumes sh: "csc_shape m npix nout" and px: "\<And>kk. kk < nz \<Longrightarrow> unat (d_tidx st ! kk) < npix \<and> px_exact dt (d_tval st ! kk)"
    and l: "nz \<le> length (d_tidx st)" "nz \<le> length (d_tval st)"
    and fine: "\<And>kk. kk \<le> nz \<Longrightarrow> \<exists>q. fold_res (listed_add fc dt m st) [0..<kk] (d_pow st) = Inr q"
  shows "staged_pow fc dt m nz st = fold_res (listed_add fc dt m st) [0..<nz] (d_pow st)"
proof -
  let ?N = "(nz + BSLZ4_DOT_STAGE - 1) div BSLZ4_DOT_STAGE"
  let ?I = "\<lambda>c (sk, sv, pow). length sk = 1032 \<and> length sv = 1032
      \<and> fold_res (listed_add fc dt m st) [0..<min nz (128 * c)] (d_pow st) = Inr pow"
  have N: "c < ?N \<longleftrightarrow> 128 * c < nz" for c
  proof -
    have "c < ?N \<longleftrightarrow> Suc c * 128 \<le> nz + 128 - 1"
      unfolding BSLZ4_DOT_STAGE_def Suc_le_eq[symmetric] by (rule less_eq_div_iff_mult_less_eq) simp
    also have "\<dots> \<longleftrightarrow> 128 * c < nz" by auto
    finally show ?thesis .
  qed
  have "\<exists>g. fold_res (stage_chunk fc dt m st nz) [0..<?N] (replicate (BSLZ4_DOT_STAGE * 8 + 8) 0, replicate (BSLZ4_DOT_STAGE * 8 + 8) 0, d_pow st) = Inr g \<and> ?I ?N g"
  proof (rule fold_upt_inv[where I = ?I])
    show "?I 0 (replicate (BSLZ4_DOT_STAGE * 8 + 8) 0, replicate (BSLZ4_DOT_STAGE * 8 + 8) 0, d_pow st)" by (simp add: BSLZ4_DOT_STAGE_def)
  next
    fix c and g :: "32 word list \<times> 64 word list \<times> 64 word list" assume c: "c < ?N" and I: "?I c g"
    obtain sk sv pow where g: "g = (sk, sv, pow)" by (cases g)
    have b: "128 * c < nz" using c N by simp
    have h: "length sk = 1032" "length sv = 1032" "fold_res (listed_add fc dt m st) [0..<128 * c] (d_pow st) = Inr pow"
      using I g b by simp_all
    obtain sk' sv' pow' where s: "stage_chunk fc dt m st nz c (sk, sv, pow) = Inr (sk', sv', pow')" "length sk' = 1032" "length sv' = 1032"
      "fold_res (listed_add fc dt m st) [0..<min nz (128 * c + 128)] (d_pow st) = Inr pow'"
      using stage_chunk_step[OF sh px l b fine h] by blast
    then show "\<exists>g'. stage_chunk fc dt m st nz c g = Inr g' \<and> ?I (Suc c) g'" using g by (simp add: algebra_simps)
  qed
  then obtain sk sv pow where r: "fold_res (stage_chunk fc dt m st nz) [0..<?N]
      (replicate (BSLZ4_DOT_STAGE * 8 + 8) 0, replicate (BSLZ4_DOT_STAGE * 8 + 8) 0, d_pow st) = Inr (sk, sv, pow)" "?I ?N (sk, sv, pow)" by auto
  have "nz \<le> 128 * ?N" using N[of ?N] by simp
  then show ?thesis using r by (simp add: staged_pow_def min_absorb1)
qed


lemma listed_adds:
  assumes "nz \<le> length (d_tidx st)" "nz \<le> length (d_tval st)"
  shows "fold_res (listed_add fc dt m st) [0..<nz] (d_pow st) = sparse_pow (csc_add fc dt m) nz st"
  unfolding sparse_pow_def by (rule fold_res_cong) (use assms in \<open>simp add: load_ok listed_add_def\<close>)

lemma fold_res_prefix:
  assumes "fold_res f [0..<n] s = Inr t" "k \<le> n"
  shows "\<exists>q. fold_res f [0..<k] s = Inr q"
proof -
  have "[0..<n] = [0..<k] @ [k..<n]" using assms(2) upt_add_eq_append[of 0 k "n - k"] by simp
  then show ?thesis using assms(1) by (simp add: fold_res_append rbind_Inr_iff) blast
qed

lemma picked_nth:
  assumes "kk < length (picked P block msk i0 [0..<n])"
  shows "\<exists>j<n. picked P block msk i0 [0..<n] ! kk = (block ! j, word_of_nat (j + i0)) \<and> picks P block msk i0 j"
proof -
  have "kk < length (filter (picks P block msk i0) [0..<n])" using assms by (simp add: picked_def)
  then have "filter (picks P block msk i0) [0..<n] ! kk \<in> set (filter (picks P block msk i0) [0..<n])" by (rule nth_mem)
  then show ?thesis using assms by (auto simp: picked_def)
qed

section \<open>A float holds the narrow types\<close>

lemma dec32_enc32:
  assumes "0 < m" "m < 2 ^ 24"
  shows "\<exists>k. dec32 (enc32 (Fin s m 0)) = Fin s (m * 2 ^ k) (- int k)"
proof -
  obtain j where j: "2 ^ j \<le> m" "m < 2 ^ Suc j" "bitlen m = int j + 1" using bitlen_ex[OF assms(1)] by blast
  have "j < 24" using j(1) assms(2) by (metis le_less_trans power_strict_increasing_iff numeral_One one_less_numeral_iff semiring_norm(76))
  define k where "k = 23 - j"
  have k: "j + k = 23" using \<open>j < 24\<close> by (simp add: k_def)
  define M where "M = m * 2 ^ k"
  have "2 ^ (j + k) \<le> M" "M < 2 ^ (Suc j + k)" using j(1,2) by (simp_all add: M_def power_add)
  moreover have "Suc j + k = 24" using k by simp
  ultimately have M: "8388608 \<le> M" "M < 16777216" using k by simp_all
  have q: "max (0 + bitlen m - int (23 + 1)) (emin 23 8) = - int k" using j(3) k by (simp add: emin_def)
  have "fround 23 8 s m 0 = sign_bit_at 23 8 s + min (inf_bits 23 8) ((- int k - emin 23 8) * 2 ^ 23 + M)"
    using assms(1) unfolding fround_def Let_def q by (simp add: M_def)
  also have "min (inf_bits 23 8) ((- int k - emin 23 8) * 2 ^ 23 + M) = (149 - int k) * 8388608 + M"
    using k M by (simp add: inf_bits_def emin_def min_def)
  finally have e: "enc32 (Fin s m 0) = word_of_int (sign_bit_at 23 8 s + ((149 - int k) * 8388608 + M))"
    by (simp add: enc32_def fenc_def)
  define E where "E = 150 - int k"
  define F where "F = M - 8388608"
  have EF: "(149 - int k) * 8388608 + M = E * 8388608 + F" "0 \<le> F" "F < 8388608" "127 \<le> E" "E \<le> 150"
    using M k by (simp_all add: E_def F_def algebra_simps)
  define x where "x = sign_bit_at 23 8 s + (E * 8388608 + F)"
  have x: "0 \<le> x" "x < 4294967296" using EF by (auto simp: x_def sign_bit_at_def)
  have u: "uint (take_bit 32 (word_of_int x :: 64 word)) = x"
    using x by (simp add: unsigned_take_bit_eq word_of_int_inverse take_bit_int_eq_self)
  have d: "x div 8388608 = (if s then 256 + E else E)" "x mod 8388608 = F"
  proof -
    have "x = (if s then 256 + E else E) * 8388608 + F" by (simp add: x_def sign_bit_at_def)
    then show "x div 8388608 = (if s then 256 + E else E)" "x mod 8388608 = F" using EF(2,3) by simp_all
  qed
  have "x div 2147483648 = (x div 8388608) div 256" by (simp add: zdiv_zmult2_eq[symmetric])
  moreover have "(256 + E) div 256 = 1" using EF(4,5) by linarith
  ultimately have "x div 2147483648 = (if s then 1 else 0)" using EF(4,5) unfolding d(1) by simp
  then have "fdec 23 8 x = Fin s (8388608 + F) (E - 1 + emin 23 8)"
    using d EF(4,5) by (simp add: fdec_def Let_def)
  then have "dec32 (enc32 (Fin s m 0)) = Fin s M (- int k)"
    unfolding e EF(1) x_def[symmetric] dec32_def u by (simp add: F_def E_def emin_def)
  then show ?thesis unfolding M_def by blast
qed

lemma px_exact_narrow:
  assumes "dt \<in> {0, 1, 4, 5, 8}"
  shows "px_exact dt v"
proof (cases "dt = 8")
  case True
  then show ?thesis by (simp add: px_exact_def px_f32_def px_f64_def)
next
  case False
  then have i: "\<not> is_float dt" "dt \<noteq> 8" "dt \<noteq> 9" using assms by (auto simp: is_float_def)
  define i where "i = px_int dt v"
  have b: "px_bits dt \<le> 16" "0 < px_bits dt" using assms False by (auto simp: px_bits_def bslz4_elem_size_def)
  have lt: "\<bar>i\<bar> < 2 ^ 24"
  proof (cases "is_signed dt")
    case True
    have "(2 :: int) ^ (px_bits dt - 1) \<le> 2 ^ 15" using b by (intro power_increasing) simp_all
    moreover have "- (2 ^ (px_bits dt - 1)) \<le> i" "i < 2 ^ (px_bits dt - 1)"
      using True signed_take_bit_int_greater_eq_minus_exp[of "px_bits dt - 1" "uint v"] signed_take_bit_int_less_exp[of "px_bits dt - 1" "uint v"]
      by (simp_all add: i_def px_int_def)
    ultimately show ?thesis by simp
  next
    case False
    have "(2 :: int) ^ px_bits dt \<le> 2 ^ 16" using b by (intro power_increasing) simp_all
    moreover have "0 \<le> i" "i < 2 ^ px_bits dt" using False take_bit_int_less_exp[of "px_bits dt" "uint v"] by (simp_all add: i_def px_int_def)
    ultimately show ?thesis by simp
  qed
  show ?thesis
  proof (cases "i = 0")
    case True
    have "f64_of_f32 (f32_of_int 0) = f64_of_int 0"
      by (simp add: f64_of_f32_def f32_of_int_def f64_of_int_def enc32_def fenc_def fround_def sign_bit_at_def dec32_def fdec_def enc64_zero)
    then show ?thesis using True i by (simp add: px_exact_def px_f32_def px_f64_def i_def[symmetric])
  next
    case False
    obtain k where k: "dec32 (enc32 (Fin (i < 0) \<bar>i\<bar> 0)) = Fin (i < 0) (\<bar>i\<bar> * 2 ^ k) (- int k)"
      using dec32_enc32[of "\<bar>i\<bar>" "i < 0"] False lt by auto
    have "f64_of_f32 (f32_of_int i) = f64_of_int i"
      by (simp add: f64_of_f32_def f32_of_int_def f64_of_int_def k enc64_shift)
    then show ?thesis using i by (simp add: px_exact_def px_f32_def px_f64_def i_def[symmetric])
  qed
qed

section \<open>csc: the routes agree\<close>

text \<open>Staged or not, the sparse route is the plain one over the list.\<close>

lemma sparse_dot_eq:
  assumes nz: "nz_ready w st L" and m: "csc_shape m npix nout" "w_i0 w + w_n w \<le> npix"
    and L: "\<forall>(v, a)\<in>set L. unat a < npix \<and> px_exact (w_dtype w) v"
    and q: "fold_res (\<lambda>(v, a). csc_add fc (w_dtype w) m (unat a) v) L (d_pow st) = Inr q"
  shows "sparse_dot bld fc m w st = sparse_route (sparse_pow (csc_add fc (w_dtype w) m)) bld w st"
proof -
  let ?dt = "w_dtype w"
  obtain st1 where c: "bslz4_collect_nz_w bld w st = Inr (length L, st1)" "nz_list (length L) st1 = L"
    "length L \<le> length (d_tval st1)" "length L \<le> length (d_tidx st1)" "d_pow st1 = d_pow st"
    using collect_nz_w_ready[OF nz, of bld] by auto
  have le: "w_i0 w + w_n w < length (m_indptr m)" "w_i0 w < length (m_indptr m)" using m by (simp_all add: csc_shape_def)
  have sp: "fold_res (listed_add fc ?dt m st1) [0..<length L] (d_pow st1) = sparse_pow (csc_add fc ?dt m) (length L) st1"
    by (rule listed_adds[OF c(4,3)])
  have "sparse_pow (csc_add fc ?dt m) (length L) st1 = Inr q" using q c by (simp add: sparse_pow_list)
  then have fine: "\<exists>q. fold_res (listed_add fc ?dt m st1) [0..<kk] (d_pow st1) = Inr q" if "kk \<le> length L" for kk
    using fold_res_prefix[OF _ that] sp by metis
  have px: "unat (d_tidx st1 ! kk) < npix \<and> px_exact ?dt (d_tval st1 ! kk)" if kk: "kk < length L" for kk
  proof -
    have "L ! kk = (d_tval st1 ! kk, d_tidx st1 ! kk)" using kk c(3,4) arg_cong[OF c(2), of "\<lambda>l. l ! kk"] by (simp add: nz_list_def)
    moreover have "L ! kk \<in> set L" using kk by simp
    ultimately show ?thesis using L by fastforce
  qed
  have "staged_pow fc ?dt m (length L) st1 = sparse_pow (csc_add fc ?dt m) (length L) st1"
    unfolding sp[symmetric] by (rule staged_pow_eq[OF m(1) px c(4,3) fine])
  then show ?thesis using c(1) le by (simp add: sparse_dot_def sparse_dot_core_def sparse_route_def load_ok Let_def)
qed

lemma picked_bounds:
  assumes "(v, a) \<in> set (picked P block msk i0 [0..<n])" "i0 + n \<le> 2 ^ 32"
  shows "\<exists>j<n. v = block ! j \<and> unat a = j + i0 \<and> picks P block msk i0 j"
proof -
  obtain j where j: "j < n" "v = block ! j" "a = word_of_nat (j + i0)" "picks P block msk i0 j" using assms(1) by (auto simp: picked_def)
  have "unat a = j + i0" unfolding j(3) unat_of_nat using j(1) assms(2) by (intro mod_less) simp
  then show ?thesis using j by blast
qed

text \<open>
  On any block, the dense and the sparse route of csc leave the same powder and list the same pixels above the cut, whichever builds and
  collect kernels list them and whether or not the sparse route stages its entries; neither leaves its buffers. The matrix is mask-folded, its
  weights are finite, the sums started at zero; where a multiply-add is contracted the products do not underflow, and where the route stages,
  the pixels are values of a \<open>float\<close> (all of the 8 and 16-bit types and f32 are: \<open>px_exact_narrow\<close>).
\<close>

theorem csc_routes_agree:
  assumes w: "block_ready w" "0 \<le> w_dtype w" "w_dtype w \<le> 9" "cut_ok (w_dtype w) (w_threshold w) (w_cutf w)" "\<not> w_precompacted w"
    and m: "csc_shape m npix (length (d_pow st))" "w_i0 w + w_n w \<le> npix" "npix \<le> 2 ^ 32" "\<forall>x\<in>set (d_pow st). stable x"
    and px: "\<forall>v\<in>set (w_block w). weighs fc (w_dtype w) (m_data m) v \<and> px_exact (w_dtype w) v"
      "\<forall>j<w_n w. \<not> mask_keeps (work_mask w) (j + w_i0 w) \<longrightarrow> no_entry m (j + w_i0 w)"
    and room: "room (w_n w) st" "w_n w \<le> length (d_tval st)" "w_n w \<le> length (d_tidx st)"
  shows "\<exists>pow K. K = picked (passes w) (w_block w) (work_mask w) (w_i0 w) [0..<w_n w]
    \<and> dot_gives st (dense_dot bld fc m w st) pow K \<and> dot_gives st (sparse_dot bld' fc m w st) pow K"
proof -
  let ?dt = "w_dtype w" and ?n = "w_n w" and ?i0 = "w_i0 w"
  let ?L = "picked (px_nz ?dt) (w_block w) (work_mask w) ?i0 [0..<?n]"
  let ?K = "picked (passes w) (w_block w) (work_mask w) ?i0 [0..<?n]"
  have lb: "?n \<le> length (w_block w)" using w(1) by (simp add: block_ready_def readable_def)
  have f: "csc_fits fc ?dt m npix (length (d_pow st)) (j + ?i0) (w_block w ! j)" if "j < ?n" for j
    using that m px(1) lb by (auto simp: csc_fits_def)
  have g: "sums (length (d_pow st)) (d_pow st)" using m(4) by (simp add: sums_def)
  have nz: "nz_ready w st ?L" using w room by (simp add: nz_ready_def)
  have lL: "length ?L \<le> ?n" using length_picked[of "px_nz ?dt" "w_block w" "work_mask w" ?i0 "[0..<?n]"] by simp
  have i0: "?i0 + ?n \<le> 2 ^ 32" using m(2,3) by simp
  obtain pow where p: "dot_gives st (dense_route (csc_add fc ?dt m) bld w st) pow ?K"
    "dot_gives st (sparse_route (sparse_pow (csc_add fc ?dt m)) bld' w st) pow ?K"
    using csc.routes_agree[OF w(1-4) i0 refl room(1) g f px(2)[rule_format] nz room(1) refl refl] by blast
  obtain q where q: "fold_res (\<lambda>(v, a). csc_add fc ?dt m (unat a) v) ?L (d_pow st) = Inr q"
    using csc.powders[OF g i0 f px(2)[rule_format]] by blast
  have L: "\<forall>(v, a)\<in>set ?L. unat a < npix \<and> px_exact ?dt v" using picked_bounds[OF _ i0] m(2) px(1) lb by fastforce
  have "sparse_dot bld' fc m w st = sparse_route (sparse_pow (csc_add fc ?dt m)) bld' w st" by (rule sparse_dot_eq[OF nz m(1,2) L q])
  then show ?thesis using p by (auto simp: dense_dot_def)
qed

text \<open>Three u16 pixels 3, 0, 5 with 2, 2 and 1 entries, the second masked out by an empty column, cut 2; the route stages.\<close>

definition sample_csc :: bslz4_mat_csc where
  "sample_csc = \<lparr>m_data = [0x3F800000, 0x3F000000, 0x40000000, 0x3F800000, 0x3F000000], m_indices = [0, 1, 1, 0, 1], m_indptr = [0, 2, 2, 5]\<rparr>"

definition sample_dot_work :: bslz4_work where
  "sample_dot_work = sample_work\<lparr>w_dtype := 1, w_i0 := 0, w_block := [3, 7, 5], w_mask := [1, 0, 1]\<rparr>"

definition sample_dot_st :: dot_st where
  "sample_dot_st = \<lparr>d_pow = [0, 0], d_vals = replicate 3 0, d_adr = replicate 3 0, d_tval = replicate 3 0, d_tidx = replicate 3 0\<rparr>"

theorem csc_routes_agree_witness:
  "\<exists>pow. dot_gives sample_dot_st (dense_dot sample_build False sample_csc sample_dot_work sample_dot_st) pow [(3, 0), (5, 2)]
    \<and> dot_gives sample_dot_st (sparse_dot sample_build False sample_csc sample_dot_work sample_dot_st) pow [(3, 0), (5, 2)]"
proof -
  let ?w = "sample_dot_work" and ?st = "sample_dot_st" and ?m = "sample_csc"
  have K: "picked (passes ?w) (w_block ?w) (work_mask ?w) (w_i0 ?w) [0..<w_n ?w] = [(3, 0), (5, 2)]" by code_simp
  have f: "weighs False 1 (m_data ?m) v" for v by (simp add: weighs_def) code_simp
  have nb: "narrow_px 1 [3, 7, 5]" unfolding narrow_px_def by (intro ballI narrowI) (auto simp: bslz4_elem_size_def)
  have b: "block_ready ?w" using nb by (simp add: block_ready_def sample_dot_work_def sample_work_def readable_def work_mask_def)
  have sh: "csc_shape ?m 3 (length (d_pow ?st))"
    by (auto simp: csc_shape_def sample_csc_def sample_dot_st_def less_Suc_eq numeral_3_eq_3)
  have ne: "\<forall>j<w_n ?w. \<not> mask_keeps (work_mask ?w) (j + w_i0 ?w) \<longrightarrow> no_entry ?m (j + w_i0 ?w)"
    by (auto simp: sample_dot_work_def sample_work_def sample_csc_def no_entry_def mask_keeps_def work_mask_def less_Suc_eq numeral_3_eq_3)
  have "\<exists>pow K. K = picked (passes ?w) (w_block ?w) (work_mask ?w) (w_i0 ?w) [0..<w_n ?w]
    \<and> dot_gives ?st (dense_dot sample_build False ?m ?w ?st) pow K \<and> dot_gives ?st (sparse_dot sample_build False ?m ?w ?st) pow K"
    by (rule csc_routes_agree[OF b _ _ _ _ sh _ _ _ _ ne])
      (use f px_exact_narrow[of 1] in \<open>auto simp: sample_dot_work_def sample_work_def sample_dot_st_def cut_ok_def is_float_def
        stable_def dec64_zero room_def\<close>)
  then show ?thesis unfolding K by blast
qed

section \<open>Where staging rounds\<close>

text \<open>One u32 pixel of 16777217 with two entries of weight 1.\<close>

definition sample_u32_work :: bslz4_work where
  "sample_u32_work = sample_work\<lparr>w_dtype := 2, w_i0 := 0, w_n := 1, w_no_mask := True, w_block := [16777217]\<rparr>"

definition sample_pair :: bslz4_mat_csc where
  "sample_pair = \<lparr>m_data = [0x3F800000, 0x3F800000], m_indices = [0, 1], m_indptr = [0, 2]\<rparr>"

definition pow_of :: "(int \<times> dot_st) res \<Rightarrow> 64 word list option" where
  "pow_of r = (case r of Inl _ \<Rightarrow> None | Inr (_, st) \<Rightarrow> Some (d_pow st))"


section \<open>csc-run and csc-nosplit: the routes agree\<close>

definition run_shape :: "bslz4_mat_csc \<Rightarrow> nat \<Rightarrow> nat \<Rightarrow> bool" where
  "run_shape m npix nout \<longleftrightarrow> npix < length (m_indptr m) \<and> npix \<le> length (m_indices m)
     \<and> (\<forall>p<npix. unat (m_indptr m ! p) + unat (m_indptr m ! (p + 1) - m_indptr m ! p) \<le> length (m_data m)
          \<and> unat (m_indices m ! p) + unat (m_indptr m ! (p + 1) - m_indptr m ! p) \<le> nout)"

definition run_fits :: "bool \<Rightarrow> int \<Rightarrow> bslz4_mat_csc \<Rightarrow> nat \<Rightarrow> nat \<Rightarrow> nat \<Rightarrow> pix \<Rightarrow> bool" where
  "run_fits fc dt m npix nout p v \<longleftrightarrow> p < npix \<and> run_shape m npix nout \<and> weighs fc dt (m_data m) v"

definition run_entry :: "bool \<Rightarrow> int \<Rightarrow> bslz4_mat_csc \<Rightarrow> nat \<Rightarrow> pix \<Rightarrow> nat \<Rightarrow> pow_fn" where
  "run_entry fc dt m p v k pow = rbind (load (m_data m) (unat (m_indptr m ! p) + k)) (\<lambda>d.
     acc_at (madd fc (f64_of_f32 d) (px_f64 dt v)) (unat (m_indices m ! p) + k) pow)"

lemma run_add_entries:
  "run_shape m npix nout \<Longrightarrow> p < npix
    \<Longrightarrow> run_add fc dt m p v pow = fold_res (run_entry fc dt m p v) [0..<unat (m_indptr m ! (p + 1) - m_indptr m ! p)] pow"
  by (simp add: run_add_def run_entry_def[abs_def] load_ok run_shape_def)

interpretation run: dot_body "run_add fc dt m" "sums nout" "run_fits fc dt m npix nout" "no_entry m" "px_nz dt"
  for fc dt m npix nout
proof
  fix pow p v
  assume g: "sums nout pow" and f: "run_fits fc dt m npix nout p v"
  let ?ks = "[0..<unat (m_indptr m ! (p + 1) - m_indptr m ! p)]"
  let ?f = "\<lambda>k. madd fc (f64_of_f32 (m_data m ! (unat (m_indptr m ! p) + k))) (px_f64 dt v)" and ?bin = "\<lambda>k. unat (m_indices m ! p) + k"
  have sh: "run_shape m npix nout" "p < npix" and w: "weighs fc dt (m_data m) v" using f by (simp_all add: run_fits_def)
  have st: "run_entry fc dt m p v k q = acc_at (?f k) (?bin k) q" and b: "?bin k < length pow"
    and d: "m_data m ! (unat (m_indptr m ! p) + k) \<in> set (m_data m)" if "k \<in> set ?ks" for k q
    using sh that g by (fastforce simp: run_entry_def load_ok sums_def run_shape_def)+
  have ok: "\<forall>x\<in>set pow. stable x" using g by (simp add: sums_def)
  show "\<exists>pow'. run_add fc dt m p v pow = Inr pow' \<and> sums nout pow'"
  proof -
    have "\<exists>pow'. fold_res (run_entry fc dt m p v) ?ks pow = Inr pow' \<and> length pow' = length pow \<and> (\<forall>x\<in>set pow'. stable x)"
      by (rule entries_add[OF ok st b]) (use d w in \<open>auto simp: weighs_def intro!: stable_madd\<close>)
    then show ?thesis using g unfolding run_add_entries[OF sh] by (auto simp: sums_def)
  qed
  show "run_add fc dt m p v pow = Inr pow" if "\<not> px_nz dt v"
    unfolding run_add_entries[OF sh]
    by (rule entries_zero[OF ok st b]) (use d w px_zero_f64[OF _ _ that] in \<open>auto simp: weighs_def intro!: madd_zero\<close>)
  show "run_add fc dt m p v pow = Inr pow" if "no_entry m p"
    using that unfolding run_add_entries[OF sh] by (simp add: no_entry_def)
qed

definition bin_fits :: "int \<Rightarrow> 32 word list \<Rightarrow> nat \<Rightarrow> nat \<Rightarrow> nat \<Rightarrow> pix \<Rightarrow> bool" where
  "bin_fits dt bin npix nout p v \<longleftrightarrow> p < npix \<and> 0 \<le> dt \<and> dt \<le> 9 \<and> npix \<le> length bin
     \<and> (\<forall>b\<in>set bin. b \<noteq> BSLZ4_NO_BIN \<longrightarrow> unat b < nout)"

definition no_bin :: "32 word list \<Rightarrow> nat \<Rightarrow> bool" where
  "no_bin bin p \<longleftrightarrow> bin ! p = BSLZ4_NO_BIN"

lemma nosplit_add_bin:
  "p < length bin \<Longrightarrow> nosplit_add dt bin p v pow =
    (if bin ! p = BSLZ4_NO_BIN then Inr pow else acc_at (\<lambda>x. f64_add x (px_f64 dt v)) (unat (bin ! p)) pow)"
  by (simp add: nosplit_add_def load_ok)

lemma f64_add_zero: "stable x \<Longrightarrow> v = 0 \<or> v = 0x8000000000000000 \<Longrightarrow> f64_add x v = x"
proof -
  assume x: "stable x" and "v = 0 \<or> v = 0x8000000000000000"
  then obtain t f where "dec64 v = Fin t 0 f" using dec64_zero by blast
  then show ?thesis unfolding f64_add_def using stable_zero(1)[OF x] by simp
qed

lemma stable_add: "stable x \<Longrightarrow> stable (f64_add x v)"
  by (simp add: f64_add_def stable_vadd tame_dec64)

interpretation nosplit: dot_body "nosplit_add dt bin" "sums nout" "bin_fits dt bin npix nout" "no_bin bin" "px_nz dt"
  for dt bin npix nout
proof
  fix pow p v
  assume g: "sums nout pow" and f: "bin_fits dt bin npix nout p v"
  have p: "p < length bin" "0 \<le> dt" "dt \<le> 9" using f by (simp_all add: bin_fits_def)
  have b: "unat (bin ! p) < length pow" if "bin ! p \<noteq> BSLZ4_NO_BIN" using that f g p by (simp add: bin_fits_def sums_def)
  show "\<exists>pow'. nosplit_add dt bin p v pow = Inr pow' \<and> sums nout pow'"
    using g b by (auto simp: nosplit_add_bin[OF p(1)] acc_at_ok sums_def stable_add dest!: set_update_subset_insert[THEN subsetD])
  show "nosplit_add dt bin p v pow = Inr pow" if "\<not> px_nz dt v"
  proof -
    have "f64_add x (px_f64 dt v) = x" if "x \<in> set pow" for x
      using g that px_zero_f64[OF p(2,3) \<open>\<not> px_nz dt v\<close>] by (intro f64_add_zero) (simp_all add: sums_def)
    then show ?thesis using b by (auto simp: nosplit_add_bin[OF p(1)] acc_at_ok)
  qed
  show "nosplit_add dt bin p v pow = Inr pow" if "no_bin bin p"
    using that by (simp add: nosplit_add_bin[OF p(1)] no_bin_def)
qed

text \<open>
  the dense and the sparse route of csc-run leave the same powder and list the same pixels, under csc's conditions; no staging, so any
  pixel type.
\<close>

theorem run_routes_agree:
  assumes w: "block_ready w" "0 \<le> w_dtype w" "w_dtype w \<le> 9" "cut_ok (w_dtype w) (w_threshold w) (w_cutf w)" "\<not> w_precompacted w"
    and m: "run_shape m npix (length (d_pow st))" "w_i0 w + w_n w \<le> npix" "npix \<le> 2 ^ 32" "\<forall>x\<in>set (d_pow st). stable x"
    and px: "\<forall>v\<in>set (w_block w). weighs fc (w_dtype w) (m_data m) v"
      "\<forall>j<w_n w. \<not> mask_keeps (work_mask w) (j + w_i0 w) \<longrightarrow> no_entry m (j + w_i0 w)"
    and room: "room (w_n w) st" "w_n w \<le> length (d_tval st)" "w_n w \<le> length (d_tidx st)"
  shows "\<exists>pow K. K = picked (passes w) (w_block w) (work_mask w) (w_i0 w) [0..<w_n w]
    \<and> dot_gives st (run_dense bld fc m w st) pow K \<and> dot_gives st (run_sparse bld' fc m w st) pow K"
proof -
  have lb: "w_n w \<le> length (w_block w)" using w(1) by (simp add: block_ready_def readable_def)
  have f: "run_fits fc (w_dtype w) m npix (length (d_pow st)) (j + w_i0 w) (w_block w ! j)" if "j < w_n w" for j
    using that m px(1) lb by (auto simp: run_fits_def)
  have g: "sums (length (d_pow st)) (d_pow st)" using m(4) by (simp add: sums_def)
  have nz: "nz_ready w st (picked (px_nz (w_dtype w)) (w_block w) (work_mask w) (w_i0 w) [0..<w_n w])" using w room by (simp add: nz_ready_def)
  have i0: "w_i0 w + w_n w \<le> 2 ^ 32" using m(2,3) by simp
  show ?thesis
    using run.routes_agree[OF w(1-4) i0 refl room(1) g f px(2)[rule_format] nz room(1) refl refl, of bld bld']
    by (auto simp: run_dense_def run_sparse_def)
qed

text \<open>Pixels 3 and 5 of \<open>sample_dot_work\<close> over the runs of bins 0, 1 and 1.\<close>

definition sample_run :: bslz4_mat_csc where
  "sample_run = \<lparr>m_data = [0x3F800000, 0x3F000000, 0x40000000], m_indices = [0, 0, 1], m_indptr = [0, 2, 2, 3]\<rparr>"

theorem run_routes_agree_witness:
  "\<exists>pow. dot_gives sample_dot_st (run_dense sample_build False sample_run sample_dot_work sample_dot_st) pow [(3, 0), (5, 2)]
    \<and> dot_gives sample_dot_st (run_sparse sample_build False sample_run sample_dot_work sample_dot_st) pow [(3, 0), (5, 2)]"
proof -
  let ?w = "sample_dot_work" and ?st = "sample_dot_st" and ?m = "sample_run"
  have K: "picked (passes ?w) (w_block ?w) (work_mask ?w) (w_i0 ?w) [0..<w_n ?w] = [(3, 0), (5, 2)]" by code_simp
  have f: "weighs False 1 (m_data ?m) v" for v by (simp add: weighs_def) code_simp
  have nb: "narrow_px 1 [3, 7, 5]" unfolding narrow_px_def by (intro ballI narrowI) (auto simp: bslz4_elem_size_def)
  have b: "block_ready ?w" using nb by (simp add: block_ready_def sample_dot_work_def sample_work_def readable_def work_mask_def)
  have sh: "run_shape ?m 3 (length (d_pow ?st))"
    by (auto simp: run_shape_def sample_run_def sample_dot_st_def less_Suc_eq numeral_3_eq_3)
  have ne: "\<forall>j<w_n ?w. \<not> mask_keeps (work_mask ?w) (j + w_i0 ?w) \<longrightarrow> no_entry ?m (j + w_i0 ?w)"
    by (auto simp: sample_dot_work_def sample_work_def sample_run_def no_entry_def mask_keeps_def work_mask_def less_Suc_eq numeral_3_eq_3)
  have "\<exists>pow K. K = picked (passes ?w) (w_block ?w) (work_mask ?w) (w_i0 ?w) [0..<w_n ?w]
    \<and> dot_gives ?st (run_dense sample_build False ?m ?w ?st) pow K \<and> dot_gives ?st (run_sparse sample_build False ?m ?w ?st) pow K"
    by (rule run_routes_agree[OF b _ _ _ _ sh _ _ _ _ ne])
      (use f in \<open>auto simp: sample_dot_work_def sample_work_def sample_dot_st_def cut_ok_def is_float_def
        stable_def dec64_zero room_def\<close>)
  then show ?thesis unfolding K by blast
qed

end
