(* ===== verification/DotFixed.thy ===== *)
theory DotFixed
  imports DotCsc "HOL-Library.Multiset"
begin

text \<open>
  \<open>src/steps/dot_fixed.hpp\<close>: the layouts read through a body per pixel value on the csc entry: csc-permute, csc-int, csc-run-int,
  csc-run-int16 and csc-nosplit-int. An integer weight is the pattern of its \<open>wb\<close> bits; sums of products are modulo \<open>2^64\<close>,
  the histogram's are signed 64-bit, whose overflow C leaves undefined.
\<close>

section \<open>Bodies\<close>

text \<open>\<open>Start32::at\<close>.\<close>

definition start_at :: "bslz4_mat_csc \<Rightarrow> nat \<Rightarrow> 32 word res" where
  "start_at m p = load (m_indices m) p"

text \<open>\<open>RunInt::add\<close> with \<open>wb\<close>-bit weights.\<close>

definition run_int_add :: "nat \<Rightarrow> int \<Rightarrow> bslz4_mat_csc \<Rightarrow> nat \<Rightarrow> pix \<Rightarrow> pow_fn" where
  "run_int_add wb dt m p v pow =
     rbind (start_at m p) (\<lambda>s. rbind (load (m_indptr m) p) (\<lambda>k0. rbind (load (m_indptr m) (p + 1)) (\<lambda>k1.
     rbind (px_i64 dt v) (\<lambda>pv.
       fold_res (\<lambda>k pow. rbind (load (m_data m) (unat k0 + k)) (\<lambda>d.
           acc_at (\<lambda>x. x + take_bit wb d * pv) (unat s + k) pow)) [0..<unat (k1 - k0)] pow))))"

text \<open>\<open>CscInt::add\<close>.\<close>

definition csc_int_add :: "int \<Rightarrow> bslz4_mat_csc \<Rightarrow> nat \<Rightarrow> pix \<Rightarrow> pow_fn" where
  "csc_int_add dt m p v pow =
     rbind (load (m_indptr m) p) (\<lambda>k0. rbind (load (m_indptr m) (p + 1)) (\<lambda>k1.
     rbind (px_i64 dt v) (\<lambda>pv.
       fold_res (\<lambda>k pow. rbind (load (m_indices m) k) (\<lambda>b. rbind (load (m_data m) k) (\<lambda>d.
           acc_at (\<lambda>x. x + take_bit 32 d * pv) (unat b) pow))) [unat k0..<unat k1] pow)))"

text \<open>\<open>Permute::add\<close>: the powder holds pixels.\<close>

definition permute_add :: "bslz4_mat_csc \<Rightarrow> nat \<Rightarrow> pix \<Rightarrow> pow_fn" where
  "permute_add m p v out = rbind (load (m_indices m) p) (\<lambda>b. if b \<noteq> BSLZ4_NO_BIN then store out (unat b) v else Inr out)"

text \<open>\<open>NosplitInt::add\<close>.\<close>

definition acc_i64 :: "64 word \<Rightarrow> nat \<Rightarrow> pow_fn" where
  "acc_i64 v b pow = rbind (load pow b) (\<lambda>x. let s = sint x + sint v in
     if - (2 ^ 63) \<le> s \<and> s < 2 ^ 63 then store pow b (word_of_int s) else Inl Fault)"

definition nosplit_int_add :: "int \<Rightarrow> bslz4_mat_csc \<Rightarrow> nat \<Rightarrow> pix \<Rightarrow> pow_fn" where
  "nosplit_int_add dt m p v pow =
     rbind (load (m_indices m) p) (\<lambda>b. if b \<noteq> BSLZ4_NO_BIN then rbind (px_i64 dt v) (\<lambda>pv. acc_i64 pv (unat b) pow) else Inr pow)"

section \<open>The two loops\<close>

definition fixed_dense :: "(nat \<Rightarrow> pix \<Rightarrow> pow_fn) \<Rightarrow> build \<Rightarrow> bslz4_work \<Rightarrow> dot_st \<Rightarrow> (int \<times> dot_st) res" where
  "fixed_dense body bld w st = (if w_n w = 0 then Inr (0, st) else dense_route body bld w st)"

definition fixed_sparse :: "(nat \<Rightarrow> pix \<Rightarrow> pow_fn) \<Rightarrow> build \<Rightarrow> bslz4_work \<Rightarrow> dot_st \<Rightarrow> (int \<times> dot_st) res" where
  "fixed_sparse body bld w st = (if w_n w = 0 then Inr (0, st) else sparse_route (sparse_pow body) bld w st)"

definition fixed_run :: "(nat \<Rightarrow> pix \<Rightarrow> pow_fn) \<Rightarrow> build \<Rightarrow> bslz4_work \<Rightarrow> dot_st \<Rightarrow> (int \<times> dot_st) res" where
  "fixed_run body bld w st = (if w_route w then fixed_sparse body bld w st else fixed_dense body bld w st)"

text \<open>\<open>for (j = a; j < b; j += step)\<close>.\<close>

definition strided :: "nat \<Rightarrow> nat \<Rightarrow> nat \<Rightarrow> nat list" where
  "strided a b step = map (\<lambda>k. a + step * k) [0..<(b - a + step - 1) div step]"

text \<open>The order of the rows \<open>r0..r1\<close> in tiles of \<open>tile\<close>, \<open>step\<close> apart per pass.\<close>

definition tile_order :: "nat \<Rightarrow> nat \<Rightarrow> nat \<Rightarrow> nat \<Rightarrow> nat list" where
  "tile_order tile step r0 r1 = concat (map (\<lambda>t0. concat (map (\<lambda>s. strided (t0 + s) (if t0 + tile < r1 then t0 + tile else r1) step)
     [0..<step])) (strided r0 r1 tile))"

definition NOSPLIT_STRIDE :: nat where "NOSPLIT_STRIDE = 16"
definition NOSPLIT_TILE :: nat where "NOSPLIT_TILE = 128"

definition nosplit_int_dense :: "build \<Rightarrow> bslz4_mat_csc \<Rightarrow> bslz4_work \<Rightarrow> dot_st \<Rightarrow> (int \<times> dot_st) res" where
  "nosplit_int_dense bld m w st =
     (if w_n w = 0 then Inr (0, st)
      else dense_with (\<lambda>pow. fold_res (\<lambda>j pow. rbind (load (m_indices m) (w_i0 w + j)) (\<lambda>b.
               if b \<noteq> BSLZ4_NO_BIN then rbind (load (w_block w) j) (\<lambda>v. rbind (px_i64 (w_dtype w) v) (\<lambda>pv. acc_i64 pv (unat b) pow))
               else Inr pow)) (tile_order NOSPLIT_TILE NOSPLIT_STRIDE 0 (w_n w)) pow) bld w st)"

definition bslz4v_dispatch :: "build \<Rightarrow> bslz4_mat_csc \<Rightarrow> bslz4_work \<Rightarrow> dot_st \<Rightarrow> (int \<times> dot_st) res" where
  "bslz4v_dispatch bld m w st =
     (if w_dot w = BSLZ4_DOT_CSC_PERMUTE then fixed_run (permute_add m) bld w st
      else if w_dot w = BSLZ4_DOT_CSC_INT then fixed_run (csc_int_add (w_dtype w) m) bld w st
      else if w_dot w = BSLZ4_DOT_CSC_RUN_INT then fixed_run (run_int_add 32 (w_dtype w) m) bld w st
      else if w_dot w = BSLZ4_DOT_CSC_RUN_INT16 then fixed_run (run_int_add 16 (w_dtype w) m) bld w st
      else if w_dot w = BSLZ4_DOT_CSC_NOSPLIT_INT then
        (if w_route w then fixed_sparse (nosplit_int_add (w_dtype w) m) bld w st else nosplit_int_dense bld m w st)
      else Inr (BSLZ4_ERR_BAD_LAYOUT, st))"

section \<open>Integer sums\<close>

text \<open>What a loop of additions leaves: every bin has gained what was added at it.\<close>

definition gained :: "64 word list \<Rightarrow> ('k \<Rightarrow> nat) \<Rightarrow> ('k \<Rightarrow> 64 word) \<Rightarrow> 'k list \<Rightarrow> 64 word list" where
  "gained pow bin g ks = map (\<lambda>b. pow ! b + (\<Sum>k\<leftarrow>ks. if bin k = b then g k else 0)) [0..<length pow]"

lemma gained_Nil: "gained pow bin g [] = pow"
  by (simp add: gained_def map_nth)

lemma gained_append: "gained pow bin g (xs @ ys) = gained (gained pow bin g xs) bin g ys"
  by (simp add: gained_def add.assoc)

lemma gained_single: "bin k < length pow \<Longrightarrow> gained pow bin g [k] = pow[bin k := pow ! bin k + g k]"
  by (rule nth_equalityI) (auto simp: gained_def nth_list_update)

lemma length_gained [simp]: "length (gained pow bin g ks) = length pow"
  by (simp add: gained_def)

lemma gained_loop:
  assumes "\<And>k q. k \<in> set ks \<Longrightarrow> step k q = acc_at (\<lambda>x. x + g k) (bin k) q" "\<And>k. k \<in> set ks \<Longrightarrow> bin k < length pow"
  shows "fold_res step ks pow = Inr (gained pow bin g ks)"
  using assms
proof (induction ks arbitrary: pow)
  case Nil
  then show ?case by (simp add: gained_Nil)
next
  case (Cons k ks)
  have "step k pow = Inr (gained pow bin g [k])" using Cons.prems by (simp add: acc_at_ok gained_single)
  moreover have "fold_res step ks (gained pow bin g [k]) = Inr (gained (gained pow bin g [k]) bin g ks)"
    by (rule Cons.IH) (use Cons.prems in auto)
  ultimately show ?case using gained_append[of pow bin g "[k]" ks] by simp
qed

lemma gained_cong: "(\<And>k. k \<in> set ks \<Longrightarrow> bin k = bin' k \<and> g k = g' k) \<Longrightarrow> gained pow bin g ks = gained pow bin' g' ks"
  unfolding gained_def by (intro map_cong refl arg_cong2[where f = "(+)"] arg_cong[where f = sum_list]) auto

text \<open>The sums of a block: pixel \<open>j\<close> adds \<open>g j k\<close> at bin \<open>bin j k\<close> for each of its entries \<open>k\<close>.\<close>

definition int_sums :: "64 word list \<Rightarrow> (nat \<Rightarrow> nat list) \<Rightarrow> (nat \<Rightarrow> nat \<Rightarrow> nat) \<Rightarrow> (nat \<Rightarrow> nat \<Rightarrow> 64 word) \<Rightarrow> nat list \<Rightarrow> 64 word list" where
  "int_sums pow ks bin g js = map (\<lambda>b. pow ! b + (\<Sum>j\<leftarrow>js. \<Sum>k\<leftarrow>ks j. if bin j k = b then g j k else 0)) [0..<length pow]"

lemma int_sums_loop:
  assumes "\<And>j q. j \<in> set js \<Longrightarrow> length q = length pow \<Longrightarrow> body j q = Inr (gained q (bin j) (g j) (ks j))"
  shows "fold_res body js pow = Inr (int_sums pow ks bin g js)"
  using assms
proof (induction js arbitrary: pow)
  case Nil
  then show ?case by (simp add: int_sums_def map_nth)
next
  case (Cons j js)
  have "body j pow = Inr (gained pow (bin j) (g j) (ks j))" using Cons.prems by simp
  moreover have "fold_res body js (gained pow (bin j) (g j) (ks j)) = Inr (int_sums (gained pow (bin j) (g j) (ks j)) ks bin g js)"
    by (rule Cons.IH) (use Cons.prems in auto)
  moreover have "int_sums (gained pow (bin j) (g j) (ks j)) ks bin g js = int_sums pow ks bin g (j # js)"
    by (simp add: int_sums_def gained_def add.assoc)
  ultimately show ?case by simp
qed

definition v64 :: "int \<Rightarrow> pix \<Rightarrow> 64 word" where
  "v64 dt v = word_of_int (px_int dt v)"

lemma px_i64_int: "\<not> is_float dt \<Longrightarrow> px_i64 dt v = Inr (v64 dt v)"
  by (simp add: px_i64_def v64_def)

definition csc_ks :: "bslz4_mat_csc \<Rightarrow> nat \<Rightarrow> nat list" where
  "csc_ks m p = [unat (m_indptr m ! p)..<unat (m_indptr m ! (p + 1))]"

definition run_ks :: "bslz4_mat_csc \<Rightarrow> nat \<Rightarrow> nat list" where
  "run_ks m p = [0..<unat (m_indptr m ! (p + 1) - m_indptr m ! p)]"

lemma csc_int_add_gained:
  assumes "csc_shape m npix (length pow)" "p < npix" "\<not> is_float dt"
  shows "csc_int_add dt m p v pow
    = Inr (gained pow (\<lambda>k. unat (m_indices m ! k)) (\<lambda>k. take_bit 32 (m_data m ! k) * v64 dt v) (csc_ks m p))"
proof -
  have "csc_int_add dt m p v pow = fold_res (\<lambda>k pow. rbind (load (m_indices m) k) (\<lambda>b. rbind (load (m_data m) k) (\<lambda>d.
      acc_at (\<lambda>x. x + take_bit 32 d * v64 dt v) (unat b) pow))) (csc_ks m p) pow"
    using assms by (simp add: csc_int_add_def csc_ks_def px_i64_int load_ok csc_shape_def)
  also have "\<dots> = Inr (gained pow (\<lambda>k. unat (m_indices m ! k)) (\<lambda>k. take_bit 32 (m_data m ! k) * v64 dt v) (csc_ks m p))"
    by (rule gained_loop) (use csc_column[OF assms(1,2)] in \<open>simp_all add: csc_ks_def load_ok\<close>)
  finally show ?thesis .
qed

lemma run_int_add_gained:
  assumes "run_shape m npix (length pow)" "p < npix" "\<not> is_float dt"
  shows "run_int_add wb dt m p v pow = Inr (gained pow (\<lambda>k. unat (m_indices m ! p) + k)
    (\<lambda>k. take_bit wb (m_data m ! (unat (m_indptr m ! p) + k)) * v64 dt v) (run_ks m p))"
proof -
  have sh: "unat (m_indptr m ! p) + k < length (m_data m) \<and> unat (m_indices m ! p) + k < length pow" if "k \<in> set (run_ks m p)" for k
    using that assms(1,2) by (fastforce simp: run_shape_def run_ks_def)
  have "run_int_add wb dt m p v pow = fold_res (\<lambda>k pow. rbind (load (m_data m) (unat (m_indptr m ! p) + k)) (\<lambda>d.
      acc_at (\<lambda>x. x + take_bit wb d * v64 dt v) (unat (m_indices m ! p) + k) pow)) (run_ks m p) pow"
    using assms by (simp add: run_int_add_def start_at_def run_ks_def px_i64_int load_ok run_shape_def)
  also have "\<dots> = Inr (gained pow (\<lambda>k. unat (m_indices m ! p) + k)
    (\<lambda>k. take_bit wb (m_data m ! (unat (m_indptr m ! p) + k)) * v64 dt v) (run_ks m p))"
    by (rule gained_loop) (use sh in \<open>simp_all add: load_ok\<close>)
  finally show ?thesis .
qed

lemma gained_zero: "(\<And>k. k \<in> set ks \<Longrightarrow> g k = 0) \<Longrightarrow> gained pow bin g ks = pow"
proof -
  assume g: "\<And>k. k \<in> set ks \<Longrightarrow> g k = 0"
  have "(\<Sum>k\<leftarrow>ks. if bin k = b then g k else 0) = 0" for b using g by (induction ks) auto
  then show ?thesis by (simp add: gained_def map_nth)
qed

lemma v64_zero: "\<not> is_float dt \<Longrightarrow> \<not> px_nz dt v \<Longrightarrow> v64 dt v = 0"
  by (simp add: px_nz_def v64_def)

interpretation csc_int: dot_body "csc_int_add dt m" "\<lambda>pow. length pow = nout"
    "\<lambda>p v. p < npix \<and> csc_shape m npix nout \<and> \<not> is_float dt" "no_entry m" "px_nz dt"
  for dt m npix nout
  by unfold_locales
    (auto simp: csc_int_add_gained[where npix = npix] gained_zero v64_zero no_entry_def csc_ks_def gained_Nil)

interpretation run_int: dot_body "run_int_add wb dt m" "\<lambda>pow. length pow = nout"
    "\<lambda>p v. p < npix \<and> run_shape m npix nout \<and> \<not> is_float dt" "no_entry m" "px_nz dt"
  for wb dt m npix nout
  by unfold_locales
    (auto simp: run_int_add_gained[where npix = npix] gained_zero v64_zero no_entry_def run_ks_def gained_Nil)

lemma fixed_dense_eq: "0 < w_n w \<Longrightarrow> fixed_dense body bld w st = dense_route body bld w st"
  by (simp add: fixed_dense_def)

lemma fixed_sparse_eq: "0 < w_n w \<Longrightarrow> fixed_sparse body bld w st = sparse_route (sparse_pow body) bld w st"
  by (simp add: fixed_sparse_def)

text \<open>What both routes of an integer dot give on a block that can be read and whose buffers have room.\<close>

definition dot_ready :: "bslz4_work \<Rightarrow> nat \<Rightarrow> dot_st \<Rightarrow> bool" where
  "dot_ready w npix st \<longleftrightarrow> block_ready w \<and> 0 \<le> w_dtype w \<and> w_dtype w \<le> 9 \<and> cut_ok (w_dtype w) (w_threshold w) (w_cutf w)
     \<and> \<not> w_precompacted w \<and> w_i0 w + w_n w \<le> npix \<and> npix \<le> 2 ^ 32
     \<and> room (w_n w) st \<and> w_n w \<le> length (d_tval st) \<and> w_n w \<le> length (d_tidx st)"

lemma dense_pow_sums:
  assumes "w_n w \<le> length (w_block w)"
    and "\<And>j q. j < w_n w \<Longrightarrow> length q = length pow \<Longrightarrow> body (j + w_i0 w) (w_block w ! j) q = Inr (gained q (bin j) (g j) (ks j))"
  shows "dense_pow body w pow = Inr (int_sums pow ks bin g [0..<w_n w])"
  unfolding dense_pow_def by (rule int_sums_loop) (use assms in \<open>simp add: load_ok\<close>)

lemma dot_gives_det: "dot_gives st r pow K \<Longrightarrow> dot_gives st r pow' K' \<Longrightarrow> pow' = pow"
  by (auto simp: dot_gives_def)

lemma dot_gives_empty: "w_n w = 0 \<Longrightarrow> dot_gives st (Inr (0, st)) (d_pow st) (picked P (w_block w) msk (w_i0 w) [0..<w_n w])"
  by (simp add: dot_gives_def)

lemma dense_route_gives:
  "block_ready w \<Longrightarrow> room (w_n w) st \<Longrightarrow> dense_pow body w (d_pow st) = Inr pow
    \<Longrightarrow> dot_gives st (dense_route body bld w st) pow (picked (passes w) (w_block w) (work_mask w) (w_i0 w) [0..<w_n w])"
  unfolding dense_route_def by (rule dense_with_gives)

context dot_body
begin

lemma fixed_routes:
  assumes w: "dot_ready w npix st" and nz: "px_nz (w_dtype w) = nz" and good: "good (d_pow st)"
    and px: "\<And>j. j < w_n w \<Longrightarrow> fits (j + w_i0 w) (w_block w ! j)"
      "\<forall>j<w_n w. \<not> mask_keeps (work_mask w) (j + w_i0 w) \<longrightarrow> empty (j + w_i0 w)"
    and pow: "dense_pow body w (d_pow st) = Inr pow"
  defines "K \<equiv> picked (passes w) (w_block w) (work_mask w) (w_i0 w) [0..<w_n w]"
  shows "dot_gives st (fixed_dense body bld w st) pow K \<and> dot_gives st (fixed_sparse body bld' w st) pow K"
proof (cases "w_n w = 0")
  case True
  then have "pow = d_pow st" using pow by (simp add: dense_pow_def)
  then show ?thesis using dot_gives_empty[OF True] True by (simp add: fixed_dense_def fixed_sparse_def K_def)
next
  case False
  have r: "block_ready w" "0 \<le> w_dtype w" "w_dtype w \<le> 9" "cut_ok (w_dtype w) (w_threshold w) (w_cutf w)"
    "w_i0 w + w_n w \<le> 2 ^ 32" "room (w_n w) st"
    and nzr: "nz_ready w st (picked nz (w_block w) (work_mask w) (w_i0 w) [0..<w_n w])"
    using w nz by (auto simp: dot_ready_def nz_ready_def)
  obtain q where q: "dot_gives st (dense_route body bld w st) q K" "dot_gives st (sparse_route (sparse_pow body) bld' w st) q K"
    using routes_agree[OF r(1-5) nz r(6) good px(1) px(2)[rule_format] nzr r(6) refl refl] unfolding K_def by blast
  have "pow = q" using dot_gives_det[OF q(1) dense_route_gives[OF r(1,6) pow]] .
  then show ?thesis using q False by (simp add: fixed_dense_eq fixed_sparse_eq)
qed

end

text \<open>
  C31: csc-int computes, on the dense route, every bin's sum of weight times pixel value modulo \<open>2^64\<close>, exactly the matrix product; the sparse
  route gives the same sums and both list the same pixels, on every build.
\<close>

theorem csc_int_sums:
  assumes w: "dot_ready w npix st" "\<not> is_float (w_dtype w)" and m: "csc_shape m npix (length (d_pow st))"
    and folded: "\<forall>j<w_n w. \<not> mask_keeps (work_mask w) (j + w_i0 w) \<longrightarrow> no_entry m (j + w_i0 w)"
  shows "\<exists>pow K. K = picked (passes w) (w_block w) (work_mask w) (w_i0 w) [0..<w_n w]
    \<and> pow = int_sums (d_pow st) (\<lambda>j. csc_ks m (j + w_i0 w)) (\<lambda>j k. unat (m_indices m ! k))
        (\<lambda>j k. take_bit 32 (m_data m ! k) * v64 (w_dtype w) (w_block w ! j)) [0..<w_n w]
    \<and> dot_gives st (fixed_dense (csc_int_add (w_dtype w) m) bld w st) pow K
    \<and> dot_gives st (fixed_sparse (csc_int_add (w_dtype w) m) bld' w st) pow K"
proof -
  have r: "w_n w \<le> length (w_block w)" "w_i0 w + w_n w \<le> npix"
    using w(1) by (simp_all add: dot_ready_def block_ready_def readable_def)
  have f: "j < w_n w \<Longrightarrow> j + w_i0 w < npix \<and> csc_shape m npix (length (d_pow st)) \<and> \<not> is_float (w_dtype w)" for j
    using r(2) m w(2) by simp
  have "dense_pow (csc_int_add (w_dtype w) m) w (d_pow st) = Inr (int_sums (d_pow st) (\<lambda>j. csc_ks m (j + w_i0 w)) (\<lambda>j k. unat (m_indices m ! k))
      (\<lambda>j k. take_bit 32 (m_data m ! k) * v64 (w_dtype w) (w_block w ! j)) [0..<w_n w])"
    by (rule dense_pow_sums[OF r(1)]) (use f csc_int_add_gained m in auto)
  from csc_int.fixed_routes[OF w(1) refl refl f folded this] show ?thesis by blast
qed

text \<open>
  C32: csc-run-int (32-bit weights) and csc-run-int16 (16-bit) compute every bin's exact sum of weight times pixel value modulo \<open>2^64\<close> on both
  routes, and list the same pixels.
\<close>

theorem run_int_sums:
  assumes w: "dot_ready w npix st" "\<not> is_float (w_dtype w)" and m: "run_shape m npix (length (d_pow st))"
    and folded: "\<forall>j<w_n w. \<not> mask_keeps (work_mask w) (j + w_i0 w) \<longrightarrow> no_entry m (j + w_i0 w)"
  shows "\<exists>pow K. K = picked (passes w) (w_block w) (work_mask w) (w_i0 w) [0..<w_n w]
    \<and> pow = int_sums (d_pow st) (\<lambda>j. run_ks m (j + w_i0 w)) (\<lambda>j k. unat (m_indices m ! (j + w_i0 w)) + k)
        (\<lambda>j k. take_bit wb (m_data m ! (unat (m_indptr m ! (j + w_i0 w)) + k)) * v64 (w_dtype w) (w_block w ! j)) [0..<w_n w]
    \<and> dot_gives st (fixed_dense (run_int_add wb (w_dtype w) m) bld w st) pow K
    \<and> dot_gives st (fixed_sparse (run_int_add wb (w_dtype w) m) bld' w st) pow K"
proof -
  have r: "w_n w \<le> length (w_block w)" "w_i0 w + w_n w \<le> npix"
    using w(1) by (simp_all add: dot_ready_def block_ready_def readable_def)
  have f: "j < w_n w \<Longrightarrow> j + w_i0 w < npix \<and> run_shape m npix (length (d_pow st)) \<and> \<not> is_float (w_dtype w)" for j
    using r(2) m w(2) by simp
  have "dense_pow (run_int_add wb (w_dtype w) m) w (d_pow st) = Inr (int_sums (d_pow st) (\<lambda>j. run_ks m (j + w_i0 w))
      (\<lambda>j k. unat (m_indices m ! (j + w_i0 w)) + k)
      (\<lambda>j k. take_bit wb (m_data m ! (unat (m_indptr m ! (j + w_i0 w)) + k)) * v64 (w_dtype w) (w_block w ! j)) [0..<w_n w])"
    by (rule dense_pow_sums[OF r(1)]) (use f run_int_add_gained m in auto)
  from run_int.fixed_routes[OF w(1) refl refl f folded this] show ?thesis by blast
qed

section \<open>Tiles are a permutation\<close>

lemma strided_bound: "0 < step \<Longrightarrow> k < (n + step - 1) div step \<longleftrightarrow> step * k < (n :: nat)"
proof -
  assume s: "0 < step"
  have "k < (n + step - 1) div step \<longleftrightarrow> Suc k * step \<le> n + step - 1"
    unfolding Suc_le_eq[symmetric] by (rule less_eq_div_iff_mult_less_eq) (rule s)
  also have "\<dots> \<longleftrightarrow> step * k < n" using s by (auto simp: algebra_simps)
  finally show ?thesis .
qed

lemma set_strided: "0 < step \<Longrightarrow> set (strided a b step) = {j. a \<le> j \<and> j < b \<and> (j - a) mod step = 0}"
proof (intro set_eqI iffI)
  fix j assume s: "0 < step" and "j \<in> set (strided a b step)"
  then obtain k where k: "k < (b - a + step - 1) div step" "j = a + step * k" by (auto simp: strided_def)
  then show "j \<in> {j. a \<le> j \<and> j < b \<and> (j - a) mod step = 0}" using strided_bound[OF s, of k "b - a"] by auto
next
  fix j assume s: "0 < step" and "j \<in> {j. a \<le> j \<and> j < b \<and> (j - a) mod step = 0}"
  then have j: "a \<le> j" "j < b" "(j - a) mod step = 0" by auto
  define k where "k = (j - a) div step"
  have e: "j - a = step * k" using j(3) mult_div_mod_eq[of step "j - a"] by (simp add: k_def)
  then have "k < (b - a + step - 1) div step" using strided_bound[OF s, of k "b - a"] j by simp
  then show "j \<in> set (strided a b step)" using e j(1) by (auto simp: strided_def intro!: image_eqI[of _ _ k])
qed

lemma distinct_strided: "0 < step \<Longrightarrow> distinct (strided a b step)"
  by (auto simp: strided_def distinct_map inj_on_def)

lemma mset_partition:
  "(\<And>x. x \<in> set xs \<Longrightarrow> h x < m) \<Longrightarrow> mset (concat (map (\<lambda>s. filter (\<lambda>x. h x = s) xs) [0..<m])) = mset xs"
proof (induction xs)
  case Nil
  then show ?case by (induction m) simp_all
next
  case (Cons x xs)
  have one: "mset (concat (map (\<lambda>s. filter (\<lambda>y. h y = s) (x # xs)) [0..<k]))
      = (if h x < k then {#x#} else {#}) + mset (concat (map (\<lambda>s. filter (\<lambda>y. h y = s) xs) [0..<k]))" for k
    by (induction k) (auto simp: less_Suc_eq)
  show ?case unfolding one using Cons by simp
qed

lemma mset_concat_cong: "(\<And>x. x \<in> set xs \<Longrightarrow> mset (f x) = mset (g x)) \<Longrightarrow> mset (concat (map f xs)) = mset (concat (map g xs))"
  by (induction xs) auto

lemma mset_strides:
  assumes "0 < step"
  shows "mset (concat (map (\<lambda>s. strided (a + s) b step) [0..<step])) = mset [a..<b]"
proof -
  have "mset (strided (a + s) b step) = mset (filter (\<lambda>j. (j - a) mod step = s) [a..<b])" if "s < step" for s
  proof -
    have "set (strided (a + s) b step) = set (filter (\<lambda>j. (j - a) mod step = s) [a..<b])"
    proof (intro set_eqI)
      fix j
      have "a + s \<le> j \<and> (j - (a + s)) mod step = 0 \<longleftrightarrow> a \<le> j \<and> (j - a) mod step = s"
      proof
        assume j: "a + s \<le> j \<and> (j - (a + s)) mod step = 0"
        define i where "i = j - (a + s)"
        have e: "j = a + (i + s)" using j by (simp add: i_def)
        have "i mod step = 0" using j by (simp add: i_def)
        then have "(i + s) mod step = s mod step" by (metis add_0 mod_add_left_eq)
        then have "(i + s) mod step = s" using that by simp
        then show "a \<le> j \<and> (j - a) mod step = s" by (simp add: e)
      next
        assume j: "a \<le> j \<and> (j - a) mod step = s"
        have "s \<le> j - a" using j mod_less_eq_dividend[of "j - a" step] by simp
        moreover have "(j - a - s) mod step = 0" using j mod_eq_dvd_iff_nat[of s "j - a" step] \<open>s \<le> j - a\<close> that by auto
        moreover have "a + s \<le> j" using j \<open>s \<le> j - a\<close> by linarith
        ultimately show "a + s \<le> j \<and> (j - (a + s)) mod step = 0" by simp
      qed
      then show "j \<in> set (strided (a + s) b step) \<longleftrightarrow> j \<in> set (filter (\<lambda>j. (j - a) mod step = s) [a..<b])"
        unfolding set_strided[OF assms] by auto
    qed
    then show ?thesis using set_eq_iff_mset_eq_distinct[OF distinct_strided[OF assms]] by (metis distinct_filter distinct_upt)
  qed
  then have "mset (concat (map (\<lambda>s. strided (a + s) b step) [0..<step]))
      = mset (concat (map (\<lambda>s. filter (\<lambda>j. (j - a) mod step = s) [a..<b]) [0..<step]))"
    by (intro mset_concat_cong) simp
  also have "\<dots> = mset [a..<b]" by (rule mset_partition) (use assms in simp)
  finally show ?thesis .
qed

lemma mset_tile_order:
  assumes "0 < step" "0 < tile"
  shows "mset (tile_order tile step r0 r1) = mset [r0..<r1]"
proof -
  let ?N = "(r1 - r0 + tile - 1) div tile"
  have "mset (tile_order tile step r0 r1) = mset (concat (map (\<lambda>i. [r0 + tile * i..<(if r0 + tile * i + tile < r1 then r0 + tile * i + tile else r1)]) [0..<?N]))"
    unfolding tile_order_def strided_def[of r0 r1 tile] map_map comp_def
    by (intro mset_concat_cong) (rule mset_strides[OF assms(1)])
  also have "\<dots> = mset (concat (map (\<lambda>i. filter (\<lambda>j. (j - r0) div tile = i) [r0..<r1]) [0..<?N]))"
  proof (rule mset_concat_cong)
    fix i assume "i \<in> set [0..<?N]"
    have "set [r0 + tile * i..<(if r0 + tile * i + tile < r1 then r0 + tile * i + tile else r1)] = set (filter (\<lambda>j. (j - r0) div tile = i) [r0..<r1])"
    proof (intro set_eqI)
      fix j
      have d: "(j - r0) div tile = i \<longleftrightarrow> tile * i \<le> j - r0 \<and> j - r0 < tile * i + tile"
      proof
        assume "(j - r0) div tile = i"
        then have "tile * i + (j - r0) mod tile = j - r0" using mult_div_mod_eq[of tile "j - r0"] by simp
        moreover have "(j - r0) mod tile < tile" using assms(2) by simp
        ultimately show "tile * i \<le> j - r0 \<and> j - r0 < tile * i + tile" by linarith
      next
        assume "tile * i \<le> j - r0 \<and> j - r0 < tile * i + tile"
        then show "(j - r0) div tile = i" by (intro div_nat_eqI) (simp_all add: mult.commute)
      qed
      define D where "D = tile * i"
      define Q where "Q \<longleftrightarrow> (j - r0) div tile = i"
      have "Q \<longleftrightarrow> D \<le> j - r0 \<and> j - r0 < D + tile" using d by (simp only: D_def Q_def)
      then have "r0 + D \<le> j \<and> j < (if r0 + D + tile < r1 then r0 + D + tile else r1) \<longleftrightarrow> (r0 \<le> j \<and> j < r1) \<and> Q" by auto
      then show "j \<in> set [r0 + tile * i..<(if r0 + tile * i + tile < r1 then r0 + tile * i + tile else r1)]
          \<longleftrightarrow> j \<in> set (filter (\<lambda>j. (j - r0) div tile = i) [r0..<r1])"
        unfolding D_def[symmetric] set_filter set_upt atLeastLessThan_iff mem_Collect_eq Q_def[symmetric] .
    qed
    then show "mset [r0 + tile * i..<(if r0 + tile * i + tile < r1 then r0 + tile * i + tile else r1)]
        = mset (filter (\<lambda>j. (j - r0) div tile = i) [r0..<r1])"
      using set_eq_iff_mset_eq_distinct by (metis distinct_filter distinct_upt)
  qed
  also have "\<dots> = mset [r0..<r1]"
  proof (rule mset_partition)
    fix j assume j: "j \<in> set [r0..<r1]"
    have "j - r0 < r1 - r0" using j by auto
    then have "tile * ((j - r0) div tile) < r1 - r0" by (rule le_less_trans[OF times_div_less_eq_dividend])
    then show "(j - r0) div tile < ?N" using strided_bound[OF assms(2)] by blast
  qed
  finally show ?thesis .
qed

section \<open>The histogram\<close>

text \<open>The exact sums of the histogram, as integers.\<close>

definition hist_sums :: "64 word list \<Rightarrow> (nat \<Rightarrow> 32 word) \<Rightarrow> (nat \<Rightarrow> int) \<Rightarrow> nat list \<Rightarrow> int list" where
  "hist_sums pow bin v js =
     map (\<lambda>b. sint (pow ! b) + (\<Sum>j\<leftarrow>js. if bin j \<noteq> BSLZ4_NO_BIN \<and> unat (bin j) = b then v j else 0)) [0..<length pow]"

definition hist_fits :: "64 word list \<Rightarrow> (nat \<Rightarrow> int) \<Rightarrow> nat list \<Rightarrow> bool" where
  "hist_fits pow v js \<longleftrightarrow> (\<forall>x\<in>set pow. \<bar>sint x\<bar> + (\<Sum>j\<leftarrow>js. \<bar>v j\<bar>) < 2 ^ 63)"

lemma sint_in_range: "- (2 ^ 63) \<le> i \<Longrightarrow> i < 2 ^ 63 \<Longrightarrow> sint (word_of_int i :: 64 word) = i"
  by (simp add: signed_of_int signed_take_bit_int_eq_self)

lemma hist_loop:
  assumes "\<And>j q. j \<in> set js \<Longrightarrow> step j q = (if bin j = BSLZ4_NO_BIN then Inr q else acc_i64 (word_of_int (v j)) (unat (bin j)) q)"
    and "\<And>j. j \<in> set js \<Longrightarrow> bin j \<noteq> BSLZ4_NO_BIN \<Longrightarrow> unat (bin j) < length pow" "hist_fits pow v js"
  shows "\<exists>pow'. fold_res step js pow = Inr pow' \<and> length pow' = length pow \<and> map sint pow' = hist_sums pow bin v js"
  using assms
proof (induction js arbitrary: pow)
  case Nil
  then show ?case by (auto simp: hist_sums_def intro!: nth_equalityI)
next
  case (Cons j js)
  have nn: "0 \<le> (\<Sum>j\<leftarrow>js. \<bar>v j\<bar>)" by (rule sum_list_nonneg) auto
  show ?case
  proof (cases "bin j = BSLZ4_NO_BIN")
    case True
    have "hist_fits pow v js" using Cons.prems(3) by (auto simp: hist_fits_def)
    then have "\<exists>pow'. fold_res step js pow = Inr pow' \<and> length pow' = length pow \<and> map sint pow' = hist_sums pow bin v js"
      by (intro Cons.IH) (use Cons.prems(1,2) in auto)
    then show ?thesis using True Cons.prems(1)[of j pow] by (simp add: hist_sums_def)
  next
    case False
    let ?b = "unat (bin j)"
    have b: "?b < length pow" using Cons.prems(2)[of j] False by simp
    define s where "s = sint (pow ! ?b) + v j"
    have B: "\<bar>sint x\<bar> + (\<bar>v j\<bar> + (\<Sum>j\<leftarrow>js. \<bar>v j\<bar>)) < 2 ^ 63" if "x \<in> set pow" for x
      using Cons.prems(3) that by (simp add: hist_fits_def)
    have r: "\<bar>s\<bar> + (\<Sum>j\<leftarrow>js. \<bar>v j\<bar>) < 2 ^ 63" using B[of "pow ! ?b"] b by (simp add: s_def)
    then have s: "- (2 ^ 63) \<le> s" "s < 2 ^ 63" using nn by linarith+
    have "\<bar>v j\<bar> < 2 ^ 63" using B[of "pow ! ?b"] b nn by simp
    then have "sint (word_of_int (v j) :: 64 word) = v j" by (intro sint_in_range) linarith+
    then have st: "step j pow = Inr (pow[?b := word_of_int s])"
      using Cons.prems(1)[of j pow] False b s by (simp add: acc_i64_def load_ok store_ok s_def Let_def)
    have si: "sint (word_of_int s :: 64 word) = s" using s by (rule sint_in_range)
    have "hist_fits (pow[?b := word_of_int s]) v js"
      unfolding hist_fits_def
    proof
      fix x assume "x \<in> set (pow[?b := word_of_int s])"
      then have "x = word_of_int s \<or> x \<in> set pow" using set_update_subset_insert by fastforce
      then show "\<bar>sint x\<bar> + (\<Sum>j\<leftarrow>js. \<bar>v j\<bar>) < 2 ^ 63"
        using B[of x] r si by (elim disjE) (simp, linarith)
    qed
    then have "\<exists>pow'. fold_res step js (pow[?b := word_of_int s]) = Inr pow' \<and> length pow' = length (pow[?b := word_of_int s])
        \<and> map sint pow' = hist_sums (pow[?b := word_of_int s]) bin v js"
      by (intro Cons.IH) (use Cons.prems(1,2) in auto)
    moreover have "hist_sums (pow[?b := word_of_int s]) bin v js = hist_sums pow bin v (j # js)"
      unfolding hist_sums_def using b False si by (intro nth_equalityI) (auto simp: nth_list_update s_def)
    ultimately show ?thesis using st by auto
  qed
qed

lemma mset_sum: "mset xs = mset ys \<Longrightarrow> (\<Sum>x\<leftarrow>xs. f x) = (\<Sum>x\<leftarrow>ys. f x :: 'a::comm_monoid_add)"
  by (metis mset_map sum_mset_sum_list)

lemma sum_filter_le: "(\<Sum>x\<leftarrow>filter P xs. \<bar>f x\<bar>) \<le> (\<Sum>x\<leftarrow>xs. \<bar>f x :: int\<bar>)"
  by (induction xs) auto

lemma map_sint_inj: "map sint xs = map sint (ys :: 64 word list) \<Longrightarrow> xs = ys"
  by (auto intro: list.inj_map_strong signed_word_eqI)

text \<open>A block whose bins lie in the powder and whose sums fit.\<close>

definition hist_ready :: "bslz4_mat_csc \<Rightarrow> bslz4_work \<Rightarrow> nat \<Rightarrow> dot_st \<Rightarrow> bool" where
  "hist_ready m w npix st \<longleftrightarrow> dot_ready w npix st \<and> \<not> is_float (w_dtype w) \<and> npix \<le> length (m_indices m)
     \<and> (\<forall>b\<in>set (m_indices m). b \<noteq> BSLZ4_NO_BIN \<longrightarrow> unat b < length (d_pow st))
     \<and> hist_fits (d_pow st) (\<lambda>j. px_int (w_dtype w) (w_block w ! j)) [0..<w_n w]"

abbreviation hist_of :: "bslz4_mat_csc \<Rightarrow> bslz4_work \<Rightarrow> dot_st \<Rightarrow> nat list \<Rightarrow> int list" where
  "hist_of m w st \<equiv> hist_sums (d_pow st) (\<lambda>j. m_indices m ! (j + w_i0 w)) (\<lambda>j. px_int (w_dtype w) (w_block w ! j))"

lemma hist_ready_facts:
  assumes "hist_ready m w npix st"
  shows "w_i0 w + w_n w \<le> npix" "w_i0 w + w_n w \<le> 2 ^ 32" "w_n w \<le> length (w_block w)" "npix \<le> length (m_indices m)"
    "px_i64 (w_dtype w) x = Inr (word_of_int (px_int (w_dtype w) x))"
    "j < w_n w \<Longrightarrow> m_indices m ! (j + w_i0 w) \<noteq> BSLZ4_NO_BIN \<Longrightarrow> unat (m_indices m ! (j + w_i0 w)) < length (d_pow st)"
  using assms by (auto simp: hist_ready_def dot_ready_def block_ready_def readable_def px_i64_def)

text \<open>The tiles in any order of the pixels.\<close>

lemma hist_dense:
  assumes h: "hist_ready m w npix st" and o: "mset o' = mset [0..<w_n w]"
  shows "\<exists>pow. fold_res (\<lambda>j pow. rbind (load (m_indices m) (w_i0 w + j)) (\<lambda>b.
      if b \<noteq> BSLZ4_NO_BIN then rbind (load (w_block w) j) (\<lambda>v. rbind (px_i64 (w_dtype w) v) (\<lambda>pv. acc_i64 pv (unat b) pow))
      else Inr pow)) o' (d_pow st) = Inr pow \<and> map sint pow = hist_of m w st [0..<w_n w]"
proof -
  note f = hist_ready_facts[OF h]
  have so: "set o' = set [0..<w_n w]" using o by (rule mset_eq_setD)
  have "\<exists>pow. fold_res (\<lambda>j pow. rbind (load (m_indices m) (w_i0 w + j)) (\<lambda>b.
      if b \<noteq> BSLZ4_NO_BIN then rbind (load (w_block w) j) (\<lambda>v. rbind (px_i64 (w_dtype w) v) (\<lambda>pv. acc_i64 pv (unat b) pow))
      else Inr pow)) o' (d_pow st) = Inr pow \<and> length pow = length (d_pow st) \<and> map sint pow = hist_of m w st o'"
  proof (rule hist_loop)
    show "hist_fits (d_pow st) (\<lambda>j. px_int (w_dtype w) (w_block w ! j)) o'" using h unfolding hist_ready_def hist_fits_def mset_sum[OF o] by blast
  qed (use so f in \<open>auto simp: load_ok add.commute\<close>)
  moreover have "hist_of m w st o' = hist_of m w st [0..<w_n w]" unfolding hist_sums_def mset_sum[OF o] ..
  ultimately show ?thesis by auto
qed

text \<open>The list of the non-zero pixels.\<close>

lemma hist_sparse:
  assumes h: "hist_ready m w npix st" and folded: "\<forall>j<w_n w. \<not> mask_keeps (work_mask w) (j + w_i0 w) \<longrightarrow> no_bin (m_indices m) (j + w_i0 w)"
  shows "\<exists>pow. fold_res (\<lambda>(v, a). nosplit_int_add (w_dtype w) m (unat a) v) (picked (px_nz (w_dtype w)) (w_block w) (work_mask w) (w_i0 w) [0..<w_n w]) (d_pow st)
      = Inr pow \<and> map sint pow = hist_of m w st [0..<w_n w]"
proof -
  note f = hist_ready_facts[OF h]
  let ?dt = "w_dtype w" and ?n = "w_n w" and ?i0 = "w_i0 w"
  let ?v = "\<lambda>j. px_int ?dt (w_block w ! j)" and ?bin = "\<lambda>j. m_indices m ! (j + ?i0)" and ?P = "picks (px_nz ?dt) (w_block w) (work_mask w) ?i0"
  let ?js = "filter ?P [0..<?n]"
  have i: "\<not> is_float ?dt" "hist_fits (d_pow st) ?v [0..<?n]" using h by (simp_all add: hist_ready_def)
  have "\<exists>q. fold_res (\<lambda>j. nosplit_int_add ?dt m (unat (word_of_nat (j + ?i0) :: 32 word)) (w_block w ! j)) ?js (d_pow st) = Inr q
      \<and> length q = length (d_pow st) \<and> map sint q = hist_of m w st ?js"
  proof (rule hist_loop)
    show "hist_fits (d_pow st) ?v ?js" using i(2) sum_filter_le[of ?v ?P "[0..<?n]"] unfolding hist_fits_def by fastforce
    show "nosplit_int_add ?dt m (unat (word_of_nat (j + ?i0) :: 32 word)) (w_block w ! j) q
        = (if ?bin j = BSLZ4_NO_BIN then Inr q else acc_i64 (word_of_int (?v j)) (unat (?bin j)) q)" if "j \<in> set ?js" for j q
    proof -
      have "unat (word_of_nat (j + ?i0) :: 32 word) = j + ?i0" unfolding unat_of_nat using that f(2) by (intro mod_less) simp
      then show ?thesis using that f by (simp add: nosplit_int_add_def load_ok)
    qed
  qed (use f(6) in auto)
  moreover have "hist_of m w st ?js = hist_of m w st [0..<?n]"
    unfolding hist_sums_def
  proof (intro map_cong refl arg_cong2[where f = "(+)"] sum_list_map_filter)
    fix b j assume "j \<in> set [0..<?n]" "\<not> ?P j"
    then show "(if ?bin j \<noteq> BSLZ4_NO_BIN \<and> unat (?bin j) = b then ?v j else 0) = 0"
      using folded i(1) by (auto simp: picks_def no_bin_def px_nz_def)
  qed
  ultimately show ?thesis by (auto simp: picked_def fold_res_map)
qed

text \<open>
  C30: csc-nosplit-int, whose dense route walks a block in tiles of 128 pixels in 16 strided passes, sums each bin's pixels exactly; the sparse
  route gives the same sums, no addition overflows, and both list the same pixels.
\<close>

theorem nosplit_int_sums:
  assumes w: "dot_ready w npix st" "\<not> is_float (w_dtype w)"
    and bins: "npix \<le> length (m_indices m)" "\<forall>b\<in>set (m_indices m). b \<noteq> BSLZ4_NO_BIN \<longrightarrow> unat b < length (d_pow st)"
    and fits: "hist_fits (d_pow st) (\<lambda>j. px_int (w_dtype w) (w_block w ! j)) [0..<w_n w]"
    and folded: "\<forall>j<w_n w. \<not> mask_keeps (work_mask w) (j + w_i0 w) \<longrightarrow> no_bin (m_indices m) (j + w_i0 w)"
  shows "\<exists>pow K. K = picked (passes w) (w_block w) (work_mask w) (w_i0 w) [0..<w_n w]
    \<and> map sint pow = hist_sums (d_pow st) (\<lambda>j. m_indices m ! (j + w_i0 w)) (\<lambda>j. px_int (w_dtype w) (w_block w ! j)) [0..<w_n w]
    \<and> dot_gives st (nosplit_int_dense bld m w st) pow K
    \<and> dot_gives st (fixed_sparse (nosplit_int_add (w_dtype w) m) bld' w st) pow K"
proof (cases "w_n w = 0")
  case True
  then show ?thesis using dot_gives_empty[OF True]
    by (auto simp: nosplit_int_dense_def fixed_sparse_def hist_sums_def intro!: nth_equalityI exI[of _ "d_pow st"])
next
  case False
  let ?dt = "w_dtype w" and ?n = "w_n w" and ?i0 = "w_i0 w"
  let ?K = "picked (passes w) (w_block w) (work_mask w) ?i0 [0..<?n]"
  have r: "block_ready w" "0 \<le> ?dt" "?dt \<le> 9" "cut_ok ?dt (w_threshold w) (w_cutf w)" "room ?n st"
    and nzr: "nz_ready w st (picked (px_nz ?dt) (w_block w) (work_mask w) ?i0 [0..<?n])"
    using w(1) by (auto simp: dot_ready_def nz_ready_def)
  have h: "hist_ready m w npix st" using w bins fits by (simp add: hist_ready_def)
  have "mset (tile_order NOSPLIT_TILE NOSPLIT_STRIDE 0 ?n) = mset [0..<?n]" by (rule mset_tile_order) (simp_all add: NOSPLIT_TILE_def NOSPLIT_STRIDE_def)
  from hist_dense[OF h this] obtain pow where p: "dot_gives st (nosplit_int_dense bld m w st) pow ?K" "map sint pow = hist_of m w st [0..<?n]"
    using dense_with_gives[OF r(1,5)] False by (fastforce simp: nosplit_int_dense_def)
  from hist_sparse[OF h folded] obtain q where
    q: "fold_res (\<lambda>(v, a). nosplit_int_add ?dt m (unat a) v) (picked (px_nz ?dt) (w_block w) (work_mask w) ?i0 [0..<?n]) (d_pow st) = Inr q"
      "map sint q = hist_of m w st [0..<?n]" by blast
  have "map sint q = map sint pow" using p(2) q(2) by simp
  then have f: "fold_res (\<lambda>(v, a). nosplit_int_add ?dt m (unat a) v) (picked (px_nz ?dt) (w_block w) (work_mask w) ?i0 [0..<?n]) (d_pow st) = Inr pow"
    using q(1) map_sint_inj by blast
  have l: "length (picked (px_nz ?dt) (w_block w) (work_mask w) ?i0 [0..<?n]) \<le> ?n"
    using length_picked[of _ _ _ _ "[0..<?n]"] by simp
  have "dot_gives st (sparse_route (sparse_pow (nosplit_int_add ?dt m)) bld' w st) pow
      (filter (\<lambda>(v, a). passes w v) (picked (px_nz ?dt) (w_block w) (work_mask w) ?i0 [0..<?n]))"
    by (rule sparse_route_gives[OF nzr]) (use r(5) l f in \<open>auto simp: room_def sparse_pow_list\<close>)
  moreover have "filter (\<lambda>(v, a). passes w v) (picked (px_nz ?dt) (w_block w) (work_mask w) ?i0 [0..<?n]) = ?K"
    by (rule filter_picked) (use cut_passes_nz[OF r(2-4)] in \<open>simp add: passes_def\<close>)
  ultimately show ?thesis using p False by (auto simp: fixed_sparse_eq)
qed

section \<open>The permutation\<close>

text \<open>Each pixel of the block has an output slot of its own, or none.\<close>

definition perm_shape :: "bslz4_mat_csc \<Rightarrow> bslz4_work \<Rightarrow> nat \<Rightarrow> bool" where
  "perm_shape m w nout \<longleftrightarrow> w_i0 w + w_n w \<le> length (m_indices m) \<and> narrow_px (w_dtype w) (w_block w) \<and> \<not> is_float (w_dtype w) \<and> 0 \<le> w_dtype w
     \<and> w_n w \<le> length (w_block w)
     \<and> (\<forall>j<w_n w. m_indices m ! (j + w_i0 w) \<noteq> BSLZ4_NO_BIN \<longrightarrow> unat (m_indices m ! (j + w_i0 w)) < nout)
     \<and> (\<forall>j<w_n w. \<forall>j'<w_n w. m_indices m ! (j + w_i0 w) = m_indices m ! (j' + w_i0 w) \<longrightarrow> m_indices m ! (j + w_i0 w) \<noteq> BSLZ4_NO_BIN \<longrightarrow> j = j')"

text \<open>A slot of the block holds the driver's zero fill, or already its pixel.\<close>

definition perm_good :: "bslz4_mat_csc \<Rightarrow> bslz4_work \<Rightarrow> nat \<Rightarrow> 64 word list \<Rightarrow> bool" where
  "perm_good m w nout pow \<longleftrightarrow> length pow = nout \<and> (\<forall>j<w_n w. m_indices m ! (j + w_i0 w) \<noteq> BSLZ4_NO_BIN
     \<longrightarrow> pow ! unat (m_indices m ! (j + w_i0 w)) \<in> {0, w_block w ! j})"

definition perm_fits :: "bslz4_mat_csc \<Rightarrow> bslz4_work \<Rightarrow> nat \<Rightarrow> nat \<Rightarrow> pix \<Rightarrow> bool" where
  "perm_fits m w nout p v \<longleftrightarrow> perm_shape m w nout \<and> (\<exists>j<w_n w. p = j + w_i0 w \<and> v = w_block w ! j)"

lemma px_zero_narrow:
  assumes "0 \<le> dt" "\<not> is_float dt" "narrow (bslz4_elem_size dt) v" "\<not> px_nz dt v"
  shows "v = 0"
proof -
  have n: "8 \<le> px_bits dt" "px_bits dt \<le> 64" using px_bits_pos[of dt] assms(1,2) by (auto simp: is_float_def)
  have z: "px_int dt v = 0" using assms(2,4) by (simp add: px_nz_def)
  have "take_bit (px_bits dt) (uint v) = 0"
  proof (cases "is_signed dt")
    case True
    then have "signed_take_bit (px_bits dt - 1) (uint v) = signed_take_bit (px_bits dt - 1) 0" using z by (simp add: px_int_def)
    then have "take_bit (Suc (px_bits dt - 1)) (uint v) = take_bit (Suc (px_bits dt - 1)) 0"
      by (simp only: signed_take_bit_eq_iff_take_bit_eq)
    then show ?thesis using n by simp
  next
    case False
    then show ?thesis using z by (simp add: px_int_def)
  qed
  then have "uint (take_bit (px_bits dt) v) = 0" by (simp add: unsigned_take_bit_eq)
  then have "take_bit (px_bits dt) v = 0" by (simp add: unsigned_eq_0_iff)
  moreover have "take_bit (px_bits dt) v = v"
    using assms(3) by (intro bit_word_eqI) (auto simp: bit_take_bit_iff narrow_def px_bits_def)
  ultimately show ?thesis by simp
qed

lemma permute_add_store:
  "perm_shape m w nout \<Longrightarrow> length pow = nout \<Longrightarrow> j < w_n w \<Longrightarrow> permute_add m (j + w_i0 w) v pow
    = Inr (if m_indices m ! (j + w_i0 w) = BSLZ4_NO_BIN then pow else pow[unat (m_indices m ! (j + w_i0 w)) := v])"
  by (auto simp: permute_add_def perm_shape_def load_ok store_ok)

interpretation permute: dot_body "permute_add m" "perm_good m w nout" "perm_fits m w nout" "no_bin (m_indices m)" "px_nz (w_dtype w)"
  for m w nout
proof
  fix pow p v
  assume g: "perm_good m w nout pow" and f: "perm_fits m w nout p v"
  obtain j where j: "j < w_n w" "p = j + w_i0 w" "v = w_block w ! j" and sh: "perm_shape m w nout" using f by (auto simp: perm_fits_def)
  have l: "length pow = nout" using g by (simp add: perm_good_def)
  let ?b = "m_indices m ! (j + w_i0 w)"
  have b: "?b \<noteq> BSLZ4_NO_BIN \<Longrightarrow> unat ?b < nout" using sh j(1) by (simp add: perm_shape_def)
  have e: "permute_add m p v pow = Inr (if ?b = BSLZ4_NO_BIN then pow else pow[unat ?b := v])"
    using permute_add_store[OF sh l j(1)] j(2) by simp
  show "\<exists>pow'. permute_add m p v pow = Inr pow' \<and> perm_good m w nout pow'"
  proof (cases "?b = BSLZ4_NO_BIN")
    case True
    then show ?thesis using e g by simp
  next
    case False
    have "j' = j" if "j' < w_n w" "m_indices m ! (j' + w_i0 w) = ?b" for j'
      using that sh j(1) False by (simp add: perm_shape_def)
    then have "perm_good m w nout (pow[unat ?b := v])"
      using g b[OF False] j(3) by (auto simp: perm_good_def nth_list_update word_unat_eq_iff[symmetric])
    then show ?thesis using e False by simp
  qed
  show "permute_add m p v pow = Inr pow" if "\<not> px_nz (w_dtype w) v"
  proof -
    have "v \<in> set (w_block w)" using j sh by (simp add: perm_shape_def)
    then have "v = 0" using px_zero_narrow[OF _ _ _ that] sh by (simp add: perm_shape_def narrow_px_def)
    moreover have "pow ! unat ?b = v" if "?b \<noteq> BSLZ4_NO_BIN"
      using that g j \<open>v = 0\<close> by (auto simp: perm_good_def)
    ultimately have "pow[unat ?b := v] = pow" if "?b \<noteq> BSLZ4_NO_BIN" using that by (metis list_update_id)
    then show ?thesis using e by simp
  qed
  show "permute_add m p v pow = Inr pow" if "no_bin (m_indices m) p"
    using that e j(2) by (simp add: no_bin_def)
qed

lemma permute_dense:
  assumes sh: "perm_shape m w nout" and l: "length pow = nout"
  shows "\<exists>pow'. dense_pow (permute_add m) w pow = Inr pow' \<and> length pow' = nout
    \<and> (\<forall>j<w_n w. m_indices m ! (j + w_i0 w) \<noteq> BSLZ4_NO_BIN \<longrightarrow> pow' ! unat (m_indices m ! (j + w_i0 w)) = w_block w ! j)
    \<and> (\<forall>s. (\<forall>j<w_n w. m_indices m ! (j + w_i0 w) \<noteq> BSLZ4_NO_BIN \<longrightarrow> unat (m_indices m ! (j + w_i0 w)) \<noteq> s) \<longrightarrow> pow' ! s = pow ! s)"
proof -
  let ?b = "\<lambda>j. m_indices m ! (j + w_i0 w)"
  let ?I = "\<lambda>k q. length q = nout \<and> (\<forall>j<k. ?b j \<noteq> BSLZ4_NO_BIN \<longrightarrow> q ! unat (?b j) = w_block w ! j)
    \<and> (\<forall>s. (\<forall>j<k. ?b j \<noteq> BSLZ4_NO_BIN \<longrightarrow> unat (?b j) \<noteq> s) \<longrightarrow> q ! s = pow ! s)"
  have lb: "w_n w \<le> length (w_block w)" using sh by (simp add: perm_shape_def)
  have "\<exists>q. dense_pow (permute_add m) w pow = Inr q \<and> ?I (w_n w) q"
    unfolding dense_pow_def
  proof (rule fold_upt_inv[where I = ?I])
    fix k q assume k: "k < w_n w" and I: "?I k q"
    have st: "rbind (load (w_block w) k) (\<lambda>v. permute_add m (k + w_i0 w) v q)
        = Inr (if ?b k = BSLZ4_NO_BIN then q else q[unat (?b k) := w_block w ! k])"
      using permute_add_store[OF sh _ k] I k lb by (simp add: load_ok)
    have b: "?b k \<noteq> BSLZ4_NO_BIN \<Longrightarrow> unat (?b k) < nout" using sh k by (simp add: perm_shape_def)
    have inj: "?b j \<noteq> ?b k" if "j < k" "?b k \<noteq> BSLZ4_NO_BIN" for j
    proof
      assume e: "?b j = ?b k"
      have "j < w_n w" using that(1) k by simp
      then have "j = k" using sh k e that(2) unfolding perm_shape_def by metis
      then show False using that(1) by simp
    qed
    have "?I (Suc k) (if ?b k = BSLZ4_NO_BIN then q else q[unat (?b k) := w_block w ! k])"
    proof (cases "?b k = BSLZ4_NO_BIN")
      case True
      then show ?thesis using I by (auto simp: less_Suc_eq)
    next
      case False
      have ne: "unat (?b k) \<noteq> unat (?b j)" if "j < k" for j using inj[OF that False] by (simp add: word_unat_eq_iff)
      show ?thesis
      proof (intro conjI allI impI)
        show "length (if ?b k = BSLZ4_NO_BIN then q else q[unat (?b k) := w_block w ! k]) = nout" using I by simp
        show "(if ?b k = BSLZ4_NO_BIN then q else q[unat (?b k) := w_block w ! k]) ! unat (?b j) = w_block w ! j"
          if "j < Suc k" "?b j \<noteq> BSLZ4_NO_BIN" for j
          using that I b[OF False] ne[of j] False by (cases "j = k") (simp_all add: less_Suc_eq)
        show "(if ?b k = BSLZ4_NO_BIN then q else q[unat (?b k) := w_block w ! k]) ! s = pow ! s"
          if "\<forall>j<Suc k. ?b j \<noteq> BSLZ4_NO_BIN \<longrightarrow> unat (?b j) \<noteq> s" for s
          using that I False by (simp add: less_Suc_eq)
      qed
    qed
    then show "\<exists>q'. rbind (load (w_block w) k) (\<lambda>v. permute_add m (k + w_i0 w) v q) = Inr q' \<and> ?I (Suc k) q'"
      using st by blast
  qed (use l in simp)
  then show ?thesis by simp
qed

text \<open>
  Csc-permute re-orders the image: for the integer types, both routes put every pixel of the block, zeros included, at its own output slot,
  leave the slots of other blocks alone, and list the pixels above the cut.
\<close>

theorem permute_image:
  assumes w: "dot_ready w npix st" and m: "perm_shape m w (length (d_pow st))"
    and zero: "\<forall>x\<in>set (d_pow st). x = 0" and npix: "npix \<le> length (m_indices m)"
    and folded: "\<forall>j<w_n w. \<not> mask_keeps (work_mask w) (j + w_i0 w) \<longrightarrow> no_bin (m_indices m) (j + w_i0 w)"
  shows "\<exists>pow K. K = picked (passes w) (w_block w) (work_mask w) (w_i0 w) [0..<w_n w]
    \<and> (\<forall>j<w_n w. m_indices m ! (j + w_i0 w) \<noteq> BSLZ4_NO_BIN \<longrightarrow> pow ! unat (m_indices m ! (j + w_i0 w)) = w_block w ! j)
    \<and> (\<forall>s. (\<forall>j<w_n w. m_indices m ! (j + w_i0 w) \<noteq> BSLZ4_NO_BIN \<longrightarrow> unat (m_indices m ! (j + w_i0 w)) \<noteq> s) \<longrightarrow> pow ! s = d_pow st ! s)
    \<and> dot_gives st (fixed_dense (permute_add m) bld w st) pow K
    \<and> dot_gives st (fixed_sparse (permute_add m) bld' w st) pow K"
proof -
  obtain pow where p: "dense_pow (permute_add m) w (d_pow st) = Inr pow"
    "\<forall>j<w_n w. m_indices m ! (j + w_i0 w) \<noteq> BSLZ4_NO_BIN \<longrightarrow> pow ! unat (m_indices m ! (j + w_i0 w)) = w_block w ! j"
    "\<forall>s. (\<forall>j<w_n w. m_indices m ! (j + w_i0 w) \<noteq> BSLZ4_NO_BIN \<longrightarrow> unat (m_indices m ! (j + w_i0 w)) \<noteq> s) \<longrightarrow> pow ! s = d_pow st ! s"
    using permute_dense[OF m refl] by blast
  have g: "perm_good m w (length (d_pow st)) (d_pow st)" using m zero by (simp add: perm_good_def perm_shape_def)
  have f: "j < w_n w \<Longrightarrow> perm_fits m w (length (d_pow st)) (j + w_i0 w) (w_block w ! j)" for j using m by (auto simp: perm_fits_def)
  show ?thesis using permute.fixed_routes[OF w refl g f folded p(1)] p(2,3) by blast
qed

section \<open>Witnesses\<close>

text \<open>The pixels 3, 7 (masked), 5 of \<open>sample_dot_work\<close> with integer weights, with runs, as a histogram and permuted.\<close>

definition sample_int :: bslz4_mat_csc where
  "sample_int = \<lparr>m_data = [2, 3, 4, 1, 5], m_indices = [0, 1, 1, 0, 1], m_indptr = [0, 2, 2, 5]\<rparr>"

definition sample_run_int :: bslz4_mat_csc where
  "sample_run_int = \<lparr>m_data = [2, 3, 4], m_indices = [0, 0, 1], m_indptr = [0, 2, 2, 3]\<rparr>"

definition sample_bins :: bslz4_mat_csc where
  "sample_bins = \<lparr>m_data = [], m_indices = [1, BSLZ4_NO_BIN, 0], m_indptr = []\<rparr>"

lemma sample_ready: "dot_ready sample_dot_work 3 sample_dot_st"
proof -
  have "narrow_px 1 [3, 7, 5]" unfolding narrow_px_def by (intro ballI narrowI) (auto simp: bslz4_elem_size_def)
  then show ?thesis
    by (simp add: dot_ready_def block_ready_def sample_dot_work_def sample_work_def sample_dot_st_def readable_def work_mask_def cut_ok_def
        is_float_def room_def)
qed

lemma sample_list: "picked (passes sample_dot_work) (w_block sample_dot_work) (work_mask sample_dot_work) (w_i0 sample_dot_work)
    [0..<w_n sample_dot_work] = [(3, 0), (5, 2)]"
  by code_simp

lemma sample_less3: "j < w_n sample_dot_work \<longleftrightarrow> j = 0 \<or> j = 1 \<or> j = 2"
  by (auto simp: sample_dot_work_def sample_work_def)

theorem csc_int_sums_witness:
  "dot_gives sample_dot_st (fixed_dense (csc_int_add 1 sample_int) sample_build sample_dot_work sample_dot_st) [11, 54] [(3, 0), (5, 2)]
    \<and> dot_gives sample_dot_st (fixed_sparse (csc_int_add 1 sample_int) sample_build sample_dot_work sample_dot_st) [11, 54] [(3, 0), (5, 2)]"
proof -
  have p: "int_sums (d_pow sample_dot_st) (\<lambda>j. csc_ks sample_int (j + w_i0 sample_dot_work)) (\<lambda>j k. unat (m_indices sample_int ! k))
      (\<lambda>j k. take_bit 32 (m_data sample_int ! k) * v64 (w_dtype sample_dot_work) (w_block sample_dot_work ! j)) [0..<w_n sample_dot_work] = [11, 54]"
    by code_simp
  have m: "csc_shape sample_int 3 (length (d_pow sample_dot_st))"
    by (auto simp: csc_shape_def sample_int_def sample_dot_st_def less_Suc_eq numeral_3_eq_3)
  have f: "\<not> is_float (w_dtype sample_dot_work)" by (simp add: is_float_def sample_dot_work_def)
  have ne: "\<forall>j<w_n sample_dot_work. \<not> mask_keeps (work_mask sample_dot_work) (j + w_i0 sample_dot_work) \<longrightarrow> no_entry sample_int (j + w_i0 sample_dot_work)"
    unfolding sample_less3 by (auto simp: sample_dot_work_def sample_work_def sample_int_def no_entry_def mask_keeps_def work_mask_def)
  have dt: "w_dtype sample_dot_work = 1" by (simp add: sample_dot_work_def)
  show ?thesis using csc_int_sums[OF sample_ready f m ne, of sample_build sample_build] unfolding p sample_list unfolding dt by simp
qed

theorem run_int_sums_witness:
  "dot_gives sample_dot_st (fixed_dense (run_int_add 16 1 sample_run_int) sample_build sample_dot_work sample_dot_st) [6, 29] [(3, 0), (5, 2)]
    \<and> dot_gives sample_dot_st (fixed_sparse (run_int_add 16 1 sample_run_int) sample_build sample_dot_work sample_dot_st) [6, 29] [(3, 0), (5, 2)]"
proof -
  let ?w = sample_dot_work and ?m = sample_run_int
  have p: "int_sums (d_pow sample_dot_st) (\<lambda>j. run_ks ?m (j + w_i0 ?w)) (\<lambda>j k. unat (m_indices ?m ! (j + w_i0 ?w)) + k)
      (\<lambda>j k. take_bit 16 (m_data ?m ! (unat (m_indptr ?m ! (j + w_i0 ?w)) + k)) * v64 (w_dtype ?w) (w_block ?w ! j)) [0..<w_n ?w] = [6, 29]"
    by code_simp
  have m: "run_shape ?m 3 (length (d_pow sample_dot_st))"
    by (auto simp: run_shape_def sample_run_int_def sample_dot_st_def less_Suc_eq numeral_3_eq_3)
  have f: "\<not> is_float (w_dtype ?w)" by (simp add: is_float_def sample_dot_work_def)
  have ne: "\<forall>j<w_n ?w. \<not> mask_keeps (work_mask ?w) (j + w_i0 ?w) \<longrightarrow> no_entry ?m (j + w_i0 ?w)"
    unfolding sample_less3 by (auto simp: sample_dot_work_def sample_work_def sample_run_int_def no_entry_def mask_keeps_def work_mask_def)
  have dt: "w_dtype ?w = 1" by (simp add: sample_dot_work_def)
  show ?thesis using run_int_sums[OF sample_ready f m ne, of 16 sample_build sample_build] unfolding p sample_list unfolding dt by simp
qed

lemma sample_folded: "\<forall>j<w_n sample_dot_work. \<not> mask_keeps (work_mask sample_dot_work) (j + w_i0 sample_dot_work)
    \<longrightarrow> no_bin (m_indices sample_bins) (j + w_i0 sample_dot_work)"
  unfolding sample_less3 by (auto simp: sample_dot_work_def sample_work_def sample_bins_def no_bin_def mask_keeps_def work_mask_def)

theorem nosplit_int_sums_witness:
  "\<exists>pow. map sint pow = [5, 3]
    \<and> dot_gives sample_dot_st (nosplit_int_dense sample_build sample_bins sample_dot_work sample_dot_st) pow [(3, 0), (5, 2)]
    \<and> dot_gives sample_dot_st (fixed_sparse (nosplit_int_add 1 sample_bins) sample_build sample_dot_work sample_dot_st) pow [(3, 0), (5, 2)]"
proof -
  let ?w = sample_dot_work and ?m = sample_bins
  have p: "hist_sums (d_pow sample_dot_st) (\<lambda>j. m_indices ?m ! (j + w_i0 ?w)) (\<lambda>j. px_int (w_dtype ?w) (w_block ?w ! j)) [0..<w_n ?w] = [5, 3]"
    by code_simp
  have "(\<Sum>j\<leftarrow>[0..<w_n ?w]. \<bar>px_int (w_dtype ?w) (w_block ?w ! j)\<bar>) = 15" by code_simp
  then have h: "hist_fits (d_pow sample_dot_st) (\<lambda>j. px_int (w_dtype ?w) (w_block ?w ! j)) [0..<w_n ?w]"
    unfolding hist_fits_def by (simp add: sample_dot_st_def)
  have b: "3 \<le> length (m_indices ?m)" "\<forall>b\<in>set (m_indices ?m). b \<noteq> BSLZ4_NO_BIN \<longrightarrow> unat b < length (d_pow sample_dot_st)"
    by (simp_all add: sample_bins_def sample_dot_st_def)
  have f: "\<not> is_float (w_dtype ?w)" by (simp add: is_float_def sample_dot_work_def)
  have dt: "w_dtype ?w = 1" by (simp add: sample_dot_work_def)
  show ?thesis using nosplit_int_sums[OF sample_ready f b h sample_folded, of sample_build sample_build] unfolding p sample_list unfolding dt by auto
qed

theorem permute_image_witness:
  "\<exists>pow. pow ! 1 = 3 \<and> pow ! 0 = 5
    \<and> dot_gives sample_dot_st (fixed_dense (permute_add sample_bins) sample_build sample_dot_work sample_dot_st) pow [(3, 0), (5, 2)]
    \<and> dot_gives sample_dot_st (fixed_sparse (permute_add sample_bins) sample_build sample_dot_work sample_dot_st) pow [(3, 0), (5, 2)]"
proof -
  let ?w = sample_dot_work and ?m = sample_bins
  have n: "narrow_px 1 [3, 7, 5]" unfolding narrow_px_def by (intro ballI narrowI) (auto simp: bslz4_elem_size_def)
  have m: "perm_shape ?m ?w (length (d_pow sample_dot_st))"
    unfolding perm_shape_def sample_less3 using n
    by (auto simp: sample_dot_work_def sample_work_def sample_bins_def sample_dot_st_def is_float_def BSLZ4_NO_BIN_def)
  have z: "\<forall>x\<in>set (d_pow sample_dot_st). x = 0" "3 \<le> length (m_indices ?m)" by (simp_all add: sample_dot_st_def sample_bins_def)
  obtain pow where p: "\<forall>j<w_n ?w. m_indices ?m ! (j + w_i0 ?w) \<noteq> BSLZ4_NO_BIN \<longrightarrow> pow ! unat (m_indices ?m ! (j + w_i0 ?w)) = w_block ?w ! j"
    "dot_gives sample_dot_st (fixed_dense (permute_add ?m) sample_build ?w sample_dot_st) pow [(3, 0), (5, 2)]"
    "dot_gives sample_dot_st (fixed_sparse (permute_add ?m) sample_build ?w sample_dot_st) pow [(3, 0), (5, 2)]"
    using permute_image[OF sample_ready m z sample_folded, of sample_build sample_build] unfolding sample_list by blast
  have "pow ! 1 = 3 \<and> pow ! 0 = 5"
    using p(1) unfolding sample_less3 by (auto simp: sample_dot_work_def sample_work_def sample_bins_def BSLZ4_NO_BIN_def)
  then show ?thesis using p(2,3) by blast
qed

end
