(* ===== verification/DotPadded.thy ===== *)
theory DotPadded
  imports DotFixed
begin

text \<open>
  \<open>src/steps/dot_padded.hpp\<close>: each row (one per pixel, or one per listed pixel) is a first bin and \<open>width\<close> float weights. The dense route
  walks a block's rows in order, or with AVX2 and FMA in tiles; the sparse one finds each listed pixel's row. Indices of type \<open>int32_t\<close> are
  read as the code converts them; a negative one is an access outside the object.
\<close>

section \<open>The layout\<close>

record bslz4_mat_padded =
  pd_base :: "32 word list"
  pd_weights :: "64 word list"
  pd_pixels :: "32 word list"
  pd_rowmap :: "32 word list"
  pd_row_ptr :: "32 word list"
  pd_row_ptr_n :: nat
  pd_width :: int
  pd_listed :: bool
  pd_block_elems :: nat

definition PADDED_STRIDE :: nat where "PADDED_STRIDE = 16"
definition PADDED_TILE :: nat where "PADDED_TILE = 128"

text \<open>\<open>(size_t) x\<close> of an \<open>int32_t\<close>, the difference of two \<open>size_t\<close>, and the bin \<open>base + k\<close>.\<close>

definition size_of_i32 :: "32 word \<Rightarrow> nat" where "size_of_i32 x = unat (scast x :: 64 word)"

definition size_sub :: "nat \<Rightarrow> nat \<Rightarrow> nat" where "size_sub a b = unat (word_of_nat a - word_of_nat b :: 64 word)"

definition bin_at :: "32 word \<Rightarrow> nat \<Rightarrow> nat res" where
  "bin_at b k = (if sint b + int k < 0 then Inl Fault else Inr (nat (sint b + int k)))"

definition bslz4_padded_pixel :: "bslz4_mat_padded \<Rightarrow> nat \<Rightarrow> nat res" where
  "bslz4_padded_pixel m r = (if pd_listed m then rbind (load (pd_pixels m) r) (\<lambda>p. Inr (size_of_i32 p)) else Inr r)"

section \<open>Rows\<close>

text \<open>\<open>o[k] += w[k] * v\<close> for one \<open>k\<close> of row \<open>r\<close>, whose first bin is \<open>b\<close>.\<close>

definition padded_entry :: "bool \<Rightarrow> bslz4_mat_padded \<Rightarrow> nat \<Rightarrow> nat \<Rightarrow> 32 word \<Rightarrow> f64 \<Rightarrow> nat \<Rightarrow> pow_fn" where
  "padded_entry fc m W r b v k out =
     rbind (load (pd_weights m) (r * W + k)) (\<lambda>d. rbind (bin_at b k) (\<lambda>i. acc_at (madd fc (f64_of_f32 d) v) i out))"

definition bslz4_padded_row_scalar :: "bool \<Rightarrow> int \<Rightarrow> pix list \<Rightarrow> nat \<Rightarrow> bslz4_mat_padded \<Rightarrow> nat \<Rightarrow> pow_fn" where
  "bslz4_padded_row_scalar fc dt block i0 m r out =
     rbind (bslz4_padded_pixel m r) (\<lambda>p. rbind (load block (size_sub p i0)) (\<lambda>v. rbind (load (pd_base m) r) (\<lambda>b.
       fold_res (padded_entry fc m (nat (pd_width m)) r b (px_f64 dt v)) [0..<nat (pd_width m)] out)))"

text \<open>\<open>n\<close> lanes at \<open>c\<close>: one load, one fused multiply-add, one store.\<close>

definition fma_lanes :: "bslz4_mat_padded \<Rightarrow> nat \<Rightarrow> nat \<Rightarrow> 32 word \<Rightarrow> f64 \<Rightarrow> nat \<Rightarrow> nat \<Rightarrow> pow_fn" where
  "fma_lanes m W r b p c n out =
     rbind (load_n (pd_weights m) (r * W + c) n) (\<lambda>ws. rbind (bin_at b c) (\<lambda>i. rbind (load_n out i n) (\<lambda>os.
       store_n out i (map2 (\<lambda>d o'. f64_fma p (f64_of_f32 d) o') ws os))))"

definition bslz4_padded_row_avx2 :: "bool \<Rightarrow> int \<Rightarrow> nat \<Rightarrow> pix list \<Rightarrow> nat \<Rightarrow> bslz4_mat_padded \<Rightarrow> nat \<Rightarrow> pow_fn" where
  "bslz4_padded_row_avx2 fc dt W block i0 m r out =
     rbind (bslz4_padded_pixel m r) (\<lambda>q. rbind (load block (size_sub q i0)) (\<lambda>v. rbind (load (pd_base m) r) (\<lambda>b.
       let p = px_f64 dt v in
       rbind (if W \<ge> 4 then fma_lanes m W r b p 0 4 out else Inr out) (\<lambda>out.
       let c = (if W \<ge> 4 then 4 else 0) in
       rbind (if W - c \<ge> 2 then fma_lanes m W r b p c 2 out else Inr out) (\<lambda>out.
       let c = (if W - c \<ge> 2 then c + 2 else c) in
         fold_res (\<lambda>k out. rbind (load (pd_weights m) (r * W + k)) (\<lambda>d. rbind (bin_at b k) (\<lambda>i.
             acc_at (madd fc p (f64_of_f32 d)) i out))) [c..<W] out)))))"

definition bslz4_padded_rows_avx2 :: "bool \<Rightarrow> int \<Rightarrow> nat \<Rightarrow> pix list \<Rightarrow> nat \<Rightarrow> bslz4_mat_padded \<Rightarrow> nat \<Rightarrow> nat \<Rightarrow> pow_fn" where
  "bslz4_padded_rows_avx2 fc dt W block i0 m r0 r1 out =
     fold_res (bslz4_padded_row_avx2 fc dt W block i0 m) (tile_order PADDED_TILE PADDED_STRIDE r0 r1) out"

text \<open>A \<open>block_elems\<close> of 0 is a division by zero.\<close>

definition bslz4_padded_dense_block :: "build \<Rightarrow> bool \<Rightarrow> int \<Rightarrow> pix list \<Rightarrow> nat \<Rightarrow> bslz4_mat_padded \<Rightarrow> bool \<Rightarrow> pow_fn" where
  "bslz4_padded_dense_block bld fc dt block i0 m avx2 out =
     (if pd_block_elems m = 0 then Inl Fault
      else let bi = i0 div pd_block_elems m in
        rbind (load (pd_row_ptr m) bi) (\<lambda>p0. rbind (load (pd_row_ptr m) (bi + 1)) (\<lambda>p1.
        let r0 = size_of_i32 p0; r1 = size_of_i32 p1 in
          if b_x86_simd bld \<and> avx2 \<and> 1 \<le> pd_width m \<and> pd_width m \<le> 8
          then bslz4_padded_rows_avx2 fc dt (nat (pd_width m)) block i0 m r0 r1 out
          else fold_res (bslz4_padded_row_scalar fc dt block i0 m) [r0..<r1] out)))"

section \<open>Routes\<close>

definition padded_dense :: "build \<Rightarrow> bool \<Rightarrow> bool \<Rightarrow> bslz4_mat_padded \<Rightarrow> bslz4_work \<Rightarrow> dot_st \<Rightarrow> (int \<times> dot_st) res" where
  "padded_dense bld fc avx2 m w st =
     (if w_n w = 0 then Inr (0, st)
      else dense_with (bslz4_padded_dense_block bld fc (w_dtype w) (w_block w) (w_i0 w) m avx2) bld w st)"

text \<open>One listed pixel; the width is converted to \<open>size_t\<close>.\<close>

definition padded_add :: "bool \<Rightarrow> int \<Rightarrow> bslz4_mat_padded \<Rightarrow> nat \<Rightarrow> pix \<Rightarrow> pow_fn" where
  "padded_add fc dt m p v out =
     rbind (if pd_listed m then load (pd_rowmap m) p else Inr (word_of_nat p)) (\<lambda>row.
       if sint row < 0 then Inr out
       else let W = nat (take_bit 64 (pd_width m)); r = nat (sint row) in
         rbind (load (pd_base m) r) (\<lambda>b. fold_res (padded_entry fc m W r b (px_f64 dt v)) [0..<W] out))"

definition padded_sparse :: "build \<Rightarrow> bool \<Rightarrow> bslz4_mat_padded \<Rightarrow> bslz4_work \<Rightarrow> dot_st \<Rightarrow> (int \<times> dot_st) res" where
  "padded_sparse bld fc m w st = sparse_route (sparse_pow (padded_add fc (w_dtype w) m)) bld w st"

section \<open>The routes agree\<close>

definition padded_W :: "bslz4_mat_padded \<Rightarrow> nat" where "padded_W m = nat (pd_width m)"

definition padded_shape :: "bslz4_mat_padded \<Rightarrow> nat \<Rightarrow> nat \<Rightarrow> bool" where
  "padded_shape m npix nout \<longleftrightarrow> 1 \<le> pd_width m \<and> pd_width m \<le> 64
     \<and> (\<forall>b\<in>set (pd_base m). 0 \<le> sint b \<and> nat (sint b) + padded_W m \<le> nout)
     \<and> length (pd_base m) * padded_W m \<le> length (pd_weights m)
     \<and> (if pd_listed m then npix \<le> length (pd_rowmap m) \<and> (\<forall>r\<in>set (pd_rowmap m). sint r < int (length (pd_base m)))
        else npix \<le> length (pd_base m) \<and> npix \<le> 2 ^ 31)"

text \<open>The row of a pixel, if it has one.\<close>

definition padded_row :: "bslz4_mat_padded \<Rightarrow> nat \<Rightarrow> nat option" where
  "padded_row m p = (if pd_listed m then if sint (pd_rowmap m ! p) < 0 then None else Some (nat (sint (pd_rowmap m ! p))) else Some p)"

text \<open>No row, or a row of zero weights.\<close>

definition padded_empty :: "bslz4_mat_padded \<Rightarrow> nat \<Rightarrow> bool" where
  "padded_empty m p \<longleftrightarrow> (case padded_row m p of None \<Rightarrow> True
     | Some r \<Rightarrow> \<forall>k<padded_W m. f64_of_f32 (pd_weights m ! (r * padded_W m + k)) = 0)"

definition padded_fits :: "bool \<Rightarrow> int \<Rightarrow> bslz4_mat_padded \<Rightarrow> nat \<Rightarrow> nat \<Rightarrow> nat \<Rightarrow> pix \<Rightarrow> bool" where
  "padded_fits fc dt m npix nout p v \<longleftrightarrow> p < npix \<and> padded_shape m npix nout \<and> weighs fc dt (pd_weights m) v \<and> finite64 (px_f64 dt v)"

lemma sint_word_of_nat32: "n < 2 ^ 31 \<Longrightarrow> sint (word_of_nat n :: 32 word) = int n"
  using signed_take_bit_int_eq_self[of 31 "int n"] by (simp add: signed_of_nat)

lemma padded_row_bound:
  "padded_shape m npix nout \<Longrightarrow> p < npix \<Longrightarrow> padded_row m p = Some r \<Longrightarrow> r < length (pd_base m)"
proof (cases "pd_listed m")
  case True
  assume sh: "padded_shape m npix nout" and p: "p < npix" and r: "padded_row m p = Some r"
  then have "pd_rowmap m ! p \<in> set (pd_rowmap m)" using True by (simp add: padded_shape_def)
  then have "sint (pd_rowmap m ! p) < int (length (pd_base m))" using sh True by (simp add: padded_shape_def)
  then show ?thesis using r True by (auto simp: padded_row_def split: if_splits)
next
  case False
  assume "padded_shape m npix nout" "p < npix" "padded_row m p = Some r"
  then show ?thesis using False by (simp add: padded_row_def padded_shape_def)
qed

lemma row_weights: "r < length bs \<Longrightarrow> k < W \<Longrightarrow> r * W + k < length bs * (W :: nat)"
proof -
  assume r: "r < length bs" and k: "k < W"
  have "r * W + k < (r + 1) * W" using k by simp
  also have "\<dots> \<le> length bs * W" using r by (intro mult_le_mono1) simp
  finally show ?thesis .
qed

lemma padded_add_row:
  assumes sh: "padded_shape m npix nout" and p: "p < npix"
  shows "padded_add fc dt m p v out = (case padded_row m p of None \<Rightarrow> Inr out
    | Some r \<Rightarrow> fold_res (padded_entry fc m (padded_W m) r (pd_base m ! r) (px_f64 dt v)) [0..<padded_W m] out)"
proof -
  have W: "nat (take_bit 64 (pd_width m)) = padded_W m"
    using sh by (simp add: padded_shape_def padded_W_def take_bit_int_eq_self)
  show ?thesis
  proof (cases "pd_listed m")
    case True
    have "padded_row m p = Some r \<Longrightarrow> r < length (pd_base m)" for r by (rule padded_row_bound[OF sh p])
    then show ?thesis using True sh p W by (auto simp: padded_add_def padded_row_def load_ok padded_shape_def Let_def)
  next
    case False
    then have "sint (word_of_nat p :: 32 word) = int p" using sh p by (intro sint_word_of_nat32) (simp add: padded_shape_def)
    then show ?thesis using False sh p W by (simp add: padded_add_def padded_row_def load_ok padded_shape_def Let_def)
  qed
qed

lemma padded_entry_acc:
  assumes sh: "padded_shape m npix nout" and r: "r < length (pd_base m)" and k: "k < padded_W m"
  shows "padded_entry fc m (padded_W m) r (pd_base m ! r) v k q
      = acc_at (madd fc (f64_of_f32 (pd_weights m ! (r * padded_W m + k))) v) (nat (sint (pd_base m ! r)) + k) q"
    and "nat (sint (pd_base m ! r)) + k < nout" and "r * padded_W m + k < length (pd_weights m)"
proof -
  have b: "0 \<le> sint (pd_base m ! r)" "nat (sint (pd_base m ! r)) + padded_W m \<le> nout"
    using sh r by (simp_all add: padded_shape_def)
  show w: "r * padded_W m + k < length (pd_weights m)"
    using row_weights[OF r k] sh by (simp add: padded_shape_def)
  show "nat (sint (pd_base m ! r)) + k < nout" using b k by simp
  have "nat (sint (pd_base m ! r) + int k) = nat (sint (pd_base m ! r)) + k" using b(1) by (simp add: nat_add_distrib)
  then show "padded_entry fc m (padded_W m) r (pd_base m ! r) v k q
      = acc_at (madd fc (f64_of_f32 (pd_weights m ! (r * padded_W m + k))) v) (nat (sint (pd_base m ! r)) + k) q"
    using w b(1) by (simp add: padded_entry_def bin_at_def load_ok)
qed

lemma vmul_commute: "vmul a b = vmul b a"
  by (cases a; cases b) (auto simp: vmul_def mult.commute add.commute)

lemma madd_commute: "madd fc w v acc = madd fc v w acc"
  by (simp add: madd_def f64_fma_def f64_mul_def vmul_commute[of "dec64 w"])

interpretation padded: dot_body "padded_add fc dt m" "sums nout" "padded_fits fc dt m npix nout" "padded_empty m" "px_nz dt"
  for fc dt m npix nout
proof
  fix pow p v
  assume g: "sums nout pow" and f: "padded_fits fc dt m npix nout p v"
  have sh: "padded_shape m npix nout" "p < npix" and w: "weighs fc dt (pd_weights m) v" and fin: "finite64 (px_f64 dt v)"
    using f by (simp_all add: padded_fits_def)
  have ok: "\<forall>x\<in>set pow. stable x" using g by (simp add: sums_def)
  have e: "padded_entry fc m (padded_W m) r (pd_base m ! r) (px_f64 dt v) k q
      = acc_at (madd fc (f64_of_f32 (pd_weights m ! (r * padded_W m + k))) (px_f64 dt v)) (nat (sint (pd_base m ! r)) + k) q"
    "nat (sint (pd_base m ! r)) + k < length pow" "pd_weights m ! (r * padded_W m + k) \<in> set (pd_weights m)"
    if "padded_row m p = Some r" "k \<in> set [0..<padded_W m]" for r k q
    using padded_entry_acc[OF sh(1) padded_row_bound[OF sh that(1)], of k] that(2) g by (simp_all add: sums_def)
  show "\<exists>pow'. padded_add fc dt m p v pow = Inr pow' \<and> sums nout pow'"
  proof (cases "padded_row m p")
    case None
    then show ?thesis using g by (simp add: padded_add_row[OF sh])
  next
    case (Some r)
    have "\<exists>pow'. fold_res (padded_entry fc m (padded_W m) r (pd_base m ! r) (px_f64 dt v)) [0..<padded_W m] pow = Inr pow'
        \<and> length pow' = length pow \<and> (\<forall>x\<in>set pow'. stable x)"
      by (rule entries_add[OF ok e(1)[OF Some] e(2)[OF Some]]) (use e(3)[OF Some] w in \<open>auto simp: weighs_def intro!: stable_madd\<close>)
    then show ?thesis using g Some by (auto simp: padded_add_row[OF sh] sums_def)
  qed
  show "padded_add fc dt m p v pow = Inr pow" if z: "\<not> px_nz dt v"
  proof (cases "padded_row m p")
    case None
    then show ?thesis by (simp add: padded_add_row[OF sh])
  next
    case (Some r)
    have "fold_res (padded_entry fc m (padded_W m) r (pd_base m ! r) (px_f64 dt v)) [0..<padded_W m] pow = Inr pow"
      by (rule entries_zero[OF ok e(1)[OF Some] e(2)[OF Some]])
        (use e(3)[OF Some] w px_zero_f64[OF _ _ z] in \<open>auto simp: weighs_def intro!: madd_zero\<close>)
    then show ?thesis using Some by (simp add: padded_add_row[OF sh])
  qed
  show "padded_add fc dt m p v pow = Inr pow" if z: "padded_empty m p"
  proof (cases "padded_row m p")
    case None
    then show ?thesis by (simp add: padded_add_row[OF sh])
  next
    case (Some r)
    have "fold_res (padded_entry fc m (padded_W m) r (pd_base m ! r) (px_f64 dt v)) [0..<padded_W m] pow = Inr pow"
      by (rule entries_zero[OF ok e(1)[OF Some] e(2)[OF Some]])
        (use z Some fin in \<open>auto simp: padded_empty_def madd_commute[of fc 0] intro!: madd_zero\<close>)
    then show ?thesis using Some by (simp add: padded_add_row[OF sh])
  qed
qed

text \<open>The rows of the block at \<open>i0\<close>: one per pixel, or those of the pixels that have one, in order.\<close>

definition padded_rows :: "bslz4_mat_padded \<Rightarrow> nat \<Rightarrow> nat \<Rightarrow> nat \<Rightarrow> nat \<Rightarrow> bool" where
  "padded_rows m i0 n r0 r1 \<longleftrightarrow> pd_block_elems m \<noteq> 0 \<and> i0 div pd_block_elems m + 1 < length (pd_row_ptr m)
     \<and> size_of_i32 (pd_row_ptr m ! (i0 div pd_block_elems m)) = r0 \<and> size_of_i32 (pd_row_ptr m ! (i0 div pd_block_elems m + 1)) = r1
     \<and> (if pd_listed m
        then r1 \<le> length (pd_pixels m) \<and> map (\<lambda>r. size_of_i32 (pd_pixels m ! r)) [r0..<r1] = filter (\<lambda>p. 0 \<le> sint (pd_rowmap m ! p)) [i0..<i0 + n]
          \<and> (\<forall>r. r0 \<le> r \<and> r < r1 \<longrightarrow> sint (pd_rowmap m ! size_of_i32 (pd_pixels m ! r)) = int r)
        else r0 = i0 \<and> r1 = i0 + n)"

lemma fold_res_filter: "(\<And>x s. x \<in> set xs \<Longrightarrow> \<not> P x \<Longrightarrow> f x s = Inr s) \<Longrightarrow> fold_res f (filter P xs) s = fold_res f xs s"
proof (induction xs arbitrary: s)
  case (Cons x xs)
  then have IH: "fold_res f (filter P xs) t = fold_res f xs t" for t by simp
  show ?case
  proof (cases "P x")
    case True
    then show ?thesis by (cases "f x s") (simp_all add: IH)
  next
    case False
    then show ?thesis using Cons.prems by (simp add: IH)
  qed
qed simp

lemma size_sub_add: "j + i < 2 ^ 64 \<Longrightarrow> size_sub (j + i) i = j"
  by (simp add: size_sub_def unat_of_nat)

lemma padded_block_pow:
  assumes sh: "padded_shape m npix nout" and rows: "padded_rows m i0 n r0 r1" and n: "i0 + n \<le> npix" "npix \<le> 2 ^ 32" "n \<le> length block"
  shows "fold_res (bslz4_padded_row_scalar fc dt block i0 m) [r0..<r1] out
    = fold_res (\<lambda>j. padded_add fc dt m (j + i0) (block ! j)) [0..<n] out"
proof -
  let ?W = "padded_W m"
  define A where "A p = padded_add fc dt m p (block ! (p - i0))" for p
  have row: "bslz4_padded_row_scalar fc dt block i0 m r q = A p q"
    if p: "i0 \<le> p" "p < i0 + n" "bslz4_padded_pixel m r = Inr p" "padded_row m p = Some r" for r p q
  proof -
    have "size_sub p i0 = p - i0" using size_sub_add[of "p - i0" i0] p n by simp
    moreover have "r < length (pd_base m)" using padded_row_bound[OF sh _ p(4)] p n by simp
    ultimately show ?thesis using p n unfolding A_def
      by (simp add: bslz4_padded_row_scalar_def padded_add_row[OF sh] load_ok padded_W_def)
  qed
  have R: "fold_res (\<lambda>j. padded_add fc dt m (j + i0) (block ! j)) [0..<n] out = fold_res A [i0..<i0 + n] out"
    unfolding fold_upt_shift A_def by (rule fold_res_cong) (simp add: add.commute)
  show ?thesis
  proof (cases "pd_listed m")
    case False
    then have rr: "r0 = i0" "r1 = i0 + n" using rows by (simp_all add: padded_rows_def)
    show ?thesis unfolding R rr
      by (rule fold_res_cong) (use False in \<open>simp add: row bslz4_padded_pixel_def padded_row_def\<close>)
  next
    case True
    let ?P = "\<lambda>p. 0 \<le> sint (pd_rowmap m ! p)" and ?px = "\<lambda>r. size_of_i32 (pd_pixels m ! r)"
    have l: "r1 \<le> length (pd_pixels m)" "map ?px [r0..<r1] = filter ?P [i0..<i0 + n]"
      "r0 \<le> r \<Longrightarrow> r < r1 \<Longrightarrow> sint (pd_rowmap m ! ?px r) = int r" for r using rows True by (simp_all add: padded_rows_def)
    have "fold_res (bslz4_padded_row_scalar fc dt block i0 m) [r0..<r1] out = fold_res (\<lambda>r. A (?px r)) [r0..<r1] out"
    proof (rule fold_res_cong)
      fix r q assume r: "r \<in> set [r0..<r1]"
      have "?px r \<in> set (filter ?P [i0..<i0 + n])" unfolding l(2)[symmetric] using r by simp
      then have "i0 \<le> ?px r" "?px r < i0 + n" by simp_all
      then show "bslz4_padded_row_scalar fc dt block i0 m r q = A (?px r) q"
        by (rule row) (use r l True in \<open>simp_all add: bslz4_padded_pixel_def load_ok padded_row_def\<close>)
    qed
    also have "\<dots> = fold_res A (filter ?P [i0..<i0 + n]) out" unfolding l(2)[symmetric] by (simp add: fold_res_map)
    also have "\<dots> = fold_res A [i0..<i0 + n] out"
      by (rule fold_res_filter) (use True n in \<open>simp add: A_def padded_add_row[OF sh] padded_row_def\<close>)
    finally show ?thesis using R by simp
  qed
qed

text \<open>
  C33: the scalar dense route of padded, which walks the block's rows, and the sparse route, which looks up each non-zero pixel's row, leave the
  same powder and list the same pixels, for both forms of the layout; the weights and the pixels are finite.
\<close>

theorem padded_routes_agree:
  assumes w: "dot_ready w npix st" and m: "padded_shape m npix (length (d_pow st))" "padded_rows m (w_i0 w) (w_n w) r0 r1" "\<forall>x\<in>set (d_pow st). stable x"
    and px: "\<forall>v\<in>set (w_block w). weighs fc (w_dtype w) (pd_weights m) v \<and> finite64 (px_f64 (w_dtype w) v)"
      "\<forall>j<w_n w. \<not> mask_keeps (work_mask w) (j + w_i0 w) \<longrightarrow> padded_empty m (j + w_i0 w)"
  shows "\<exists>pow K. K = picked (passes w) (w_block w) (work_mask w) (w_i0 w) [0..<w_n w]
    \<and> dot_gives st (padded_dense bld fc False m w st) pow K \<and> dot_gives st (padded_sparse bld' fc m w st) pow K"
proof (cases "w_n w = 0")
  case True
  have "nz_ready w st []" using w True by (simp add: nz_ready_def dot_ready_def)
  from sparse_route_gives[OF this, of "sparse_pow (padded_add fc (w_dtype w) m)" "d_pow st" bld']
  have "dot_gives st (padded_sparse bld' fc m w st) (d_pow st) []" by (simp add: padded_sparse_def room_def sparse_pow_def)
  then show ?thesis using True dot_gives_empty[OF True] by (auto simp: padded_dense_def)
next
  case False
  let ?K = "picked (passes w) (w_block w) (work_mask w) (w_i0 w) [0..<w_n w]" and ?body = "padded_add fc (w_dtype w) m"
  have r: "block_ready w" "0 \<le> w_dtype w" "w_dtype w \<le> 9" "cut_ok (w_dtype w) (w_threshold w) (w_cutf w)"
    "w_i0 w + w_n w \<le> npix" "npix \<le> 2 ^ 32" "w_i0 w + w_n w \<le> 2 ^ 32" "room (w_n w) st" "w_n w \<le> length (w_block w)"
    and nz: "nz_ready w st (picked (px_nz (w_dtype w)) (w_block w) (work_mask w) (w_i0 w) [0..<w_n w])"
    using w by (auto simp: dot_ready_def nz_ready_def block_ready_def readable_def)
  have f: "padded_fits fc (w_dtype w) m npix (length (d_pow st)) (j + w_i0 w) (w_block w ! j)" if "j < w_n w" for j
    using that m(1) px(1) r(5,9) by (auto simp: padded_fits_def)
  have g: "sums (length (d_pow st)) (d_pow st)" using m(3) by (simp add: sums_def)
  obtain pow where p: "dot_gives st (dense_route ?body bld w st) pow ?K" "dot_gives st (sparse_route (sparse_pow ?body) bld' w st) pow ?K"
    using padded.routes_agree[OF r(1-4,7) refl r(8) g f px(2)[rule_format] nz r(8) refl refl] by blast
  have "dense_pow ?body w (d_pow st) = fold_res (\<lambda>j. ?body (j + w_i0 w) (w_block w ! j)) [0..<w_n w] (d_pow st)"
    unfolding dense_pow_def by (rule fold_res_cong) (use r(9) in \<open>simp add: load_ok\<close>)
  also have "\<dots> = bslz4_padded_dense_block bld fc (w_dtype w) (w_block w) (w_i0 w) m False (d_pow st)"
    using m(2) padded_block_pow[OF m(1,2) r(5,6,9)] by (simp add: bslz4_padded_dense_block_def padded_rows_def load_ok Let_def)
  finally have "padded_dense bld fc False m w st = dense_route ?body bld w st"
    using False by (simp add: padded_dense_def dense_route_def dense_with_def)
  then show ?thesis using p by (auto simp: padded_sparse_def)
qed

section \<open>The AVX2 rows\<close>

text \<open>A row whose \<open>k\<close>-th multiply-add is contracted where \<open>c k\<close>: the scalar row contracts all or none.\<close>

definition padded_row_mixed :: "(nat \<Rightarrow> bool) \<Rightarrow> int \<Rightarrow> pix list \<Rightarrow> nat \<Rightarrow> bslz4_mat_padded \<Rightarrow> nat \<Rightarrow> pow_fn" where
  "padded_row_mixed c dt block i0 m r out =
     rbind (bslz4_padded_pixel m r) (\<lambda>p. rbind (load block (size_sub p i0)) (\<lambda>v. rbind (load (pd_base m) r) (\<lambda>b.
       fold_res (\<lambda>k. padded_entry (c k) m (padded_W m) r b (px_f64 dt v) k) [0..<padded_W m] out)))"

lemma padded_row_scalar_mixed: "bslz4_padded_row_scalar fc dt block i0 m r out = padded_row_mixed (\<lambda>_. fc) dt block i0 m r out"
  by (simp add: bslz4_padded_row_scalar_def padded_row_mixed_def padded_W_def)

text \<open>The lanes the AVX2 row of width \<open>W\<close> fuses.\<close>

definition avx2_fused :: "nat \<Rightarrow> nat \<Rightarrow> bool" where
  "avx2_fused W k \<longleftrightarrow> k < (if 4 \<le> W then if 6 \<le> W then 6 else 4 else if 2 \<le> W then 2 else 0)"

lemma update_run:
  "i + n \<le> length xs \<Longrightarrow> fold_res (\<lambda>k. acc_at (h k) (i + k)) [0..<n] xs = Inr (blit xs i (map (\<lambda>k. h k (xs ! (i + k))) [0..<n]))"
proof (induction n)
  case (Suc n)
  let ?vs = "map (\<lambda>k. h k (xs ! (i + k))) [0..<n]"
  have l: "i + length ?vs \<le> length xs" using Suc.prems by simp
  have "acc_at (h n) (i + n) (blit xs i ?vs) = Inr ((blit xs i ?vs)[i + n := h n (xs ! (i + n))])"
    using Suc.prems l by (simp add: acc_at_ok length_blit nth_blit)
  also have "(blit xs i ?vs)[i + n := h n (xs ! (i + n))] = blit xs i (?vs @ [h n (xs ! (i + n))])"
    using Suc.prems by (intro nth_equalityI) (auto simp: length_blit nth_blit nth_list_update nth_append)
  finally show ?case using Suc by (simp add: fold_res_append)
qed simp

lemma fma_lanes_entries:
  assumes sh: "padded_shape m npix (length out)" and r: "r < length (pd_base m)" and c: "c + n \<le> padded_W m"
  shows "fma_lanes m (padded_W m) r (pd_base m ! r) p c n out = fold_res (padded_entry True m (padded_W m) r (pd_base m ! r) p) [c..<c + n] out"
proof -
  let ?W = "padded_W m" and ?b = "nat (sint (pd_base m ! r))"
  have b: "0 \<le> sint (pd_base m ! r)" "?b + ?W \<le> length out" using sh r by (simp_all add: padded_shape_def)
  have w: "r * ?W + c + n \<le> length (pd_weights m)"
  proof -
    have "r * ?W + ?W \<le> length (pd_base m) * ?W" using r mult_le_mono1[of "r + 1" "length (pd_base m)" ?W] by simp
    then show ?thesis using sh c by (simp add: padded_shape_def)
  qed
  have i: "bin_at (pd_base m ! r) c = Inr (?b + c)" using b(1) by (simp add: bin_at_def nat_add_distrib)
  let ?h = "\<lambda>k o'. f64_fma p (f64_of_f32 (pd_weights m ! (r * ?W + c + k))) o'"
  have "fma_lanes m ?W r (pd_base m ! r) p c n out = Inr (blit out (?b + c) (map (\<lambda>k. ?h k (out ! (?b + c + k))) [0..<n]))"
  proof -
    have "map2 (\<lambda>d o'. f64_fma p (f64_of_f32 d) o') (take n (drop (r * ?W + c) (pd_weights m))) (take n (drop (?b + c) out))
        = map (\<lambda>k. ?h k (out ! (?b + c + k))) [0..<n]"
      using w b c by (intro nth_equalityI) simp_all
    then show ?thesis using w b c i by (simp add: fma_lanes_def load_n_ok store_n_ok)
  qed
  also have "\<dots> = fold_res (\<lambda>k. acc_at (?h k) (?b + c + k)) [0..<n] out" using b c by (intro update_run[symmetric]) simp
  also have "\<dots> = fold_res (padded_entry True m ?W r (pd_base m ! r) p) [c..<c + n] out"
    unfolding fold_upt_shift
  proof (rule fold_res_cong)
    fix k q assume "k \<in> set [0..<n]"
    then have "c + k < ?W" using c by simp
    from padded_entry_acc(1)[OF sh r this, of True p q]
    have "padded_entry True m ?W r (pd_base m ! r) p (c + k) q
        = acc_at (madd True (f64_of_f32 (pd_weights m ! (r * ?W + c + k))) p) (?b + c + k) q" by (simp only: add.assoc)
    moreover have "madd True (f64_of_f32 (pd_weights m ! (r * ?W + c + k))) p = ?h k"
      by (rule ext) (simp only: madd_commute[of True _ p], simp add: madd_def)
    ultimately show "acc_at (?h k) (?b + c + k) q = padded_entry True m ?W r (pd_base m ! r) p (c + k) q" by simp
  qed
  finally show ?thesis .
qed

lemma fold_upt_split: "a \<le> b \<Longrightarrow> b \<le> c \<Longrightarrow> rbind (fold_res f [a..<b] s) (fold_res f [b..<c]) = fold_res f [a..<c] s"
  using upt_add_eq_append[of a b "c - b"] by (simp add: fold_res_append)

lemma padded_length: "fold_res (\<lambda>k. padded_entry (c k) m W r b v k) ks out = Inr out' \<Longrightarrow> length out' = length out"
proof (induction ks arbitrary: out)
  case (Cons k ks)
  obtain o1 where o1: "padded_entry (c k) m W r b v k out = Inr o1" "fold_res (\<lambda>k. padded_entry (c k) m W r b v k) ks o1 = Inr out'"
    using Cons.prems by (auto simp: rbind_Inr_iff)
  have "length o1 = length out" using o1(1) by (auto simp: padded_entry_def rbind_Inr_iff acc_at_def load_def store_def split: if_splits)
  then show ?case using Cons.IH[OF o1(2)] by simp
qed simp

text \<open>The AVX2 row is the scalar row with its lanes fused.\<close>

lemma padded_row_avx2_mixed:
  assumes sh: "padded_shape m npix (length out)" and r: "r < length (pd_base m)"
  shows "bslz4_padded_row_avx2 fc dt (padded_W m) block i0 m r out = padded_row_mixed (\<lambda>k. fc \<or> avx2_fused (padded_W m) k) dt block i0 m r out"
proof (cases "rbind (bslz4_padded_pixel m r) (\<lambda>q. load block (size_sub q i0))")
  case (Inl e)
  then show ?thesis by (auto simp: bslz4_padded_row_avx2_def padded_row_mixed_def rbind_Inl_iff)
next
  case (Inr v)
  then obtain q where q: "bslz4_padded_pixel m r = Inr q" "load block (size_sub q i0) = Inr v" by (auto simp: rbind_Inr_iff)
  let ?W = "padded_W m" and ?p = "px_f64 dt v"
  let ?e = "\<lambda>k. padded_entry (fc \<or> avx2_fused ?W k) m ?W r (pd_base m ! r) ?p k"
  let ?tail = "\<lambda>k out. rbind (load (pd_weights m) (r * ?W + k)) (\<lambda>d. rbind (bin_at (pd_base m ! r) k) (\<lambda>i. acc_at (madd fc ?p (f64_of_f32 d)) i out))"
  define c1 where "c1 = (if ?W \<ge> 4 then 4 else 0 :: nat)"
  define c2 where "c2 = (if ?W - c1 \<ge> 2 then c1 + 2 else c1)"
  have c: "c1 \<le> c2" "c2 \<le> ?W" and fz: "avx2_fused ?W k \<longleftrightarrow> k < c2" for k by (auto simp: c1_def c2_def avx2_fused_def)
  have lanes: "fma_lanes m ?W r (pd_base m ! r) ?p a n q = fold_res ?e [a..<a + n] q"
    if "length q = length out" "a + n \<le> c2" for a n q
  proof -
    have "fma_lanes m ?W r (pd_base m ! r) ?p a n q = fold_res (padded_entry True m ?W r (pd_base m ! r) ?p) [a..<a + n] q"
      using sh r that c(2) by (intro fma_lanes_entries[where npix = npix]) simp_all
    also have "\<dots> = fold_res ?e [a..<a + n] q" by (rule fold_res_cong) (use that fz in auto)
    finally show ?thesis .
  qed
  have s1: "(if ?W \<ge> 4 then fma_lanes m ?W r (pd_base m ! r) ?p 0 4 out else Inr out) = fold_res ?e [0..<c1] out"
    using lanes[of out 0 4] c by (auto simp: c1_def)
  have s2: "(if ?W - c1 \<ge> 2 then fma_lanes m ?W r (pd_base m ! r) ?p c1 2 o1 else Inr o1) = fold_res ?e [c1..<c2] o1"
    if "length o1 = length out" for o1
    using lanes[OF that, of c1 2] c by (auto simp: c2_def)
  have s3: "fold_res ?tail [c2..<?W] o2 = fold_res ?e [c2..<?W] o2" for o2
  proof (rule fold_res_cong)
    fix k s assume "k \<in> set [c2..<?W]"
    moreover have "madd fc ?p w = madd fc w ?p" for w by (rule ext) (rule madd_commute)
    ultimately show "?tail k s = ?e k s" by (simp add: padded_entry_def fz)
  qed
  have "rbind (fold_res ?e [0..<c1] out) (\<lambda>o1. rbind (if ?W - c1 \<ge> 2 then fma_lanes m ?W r (pd_base m ! r) ?p c1 2 o1 else Inr o1) (fold_res ?tail [c2..<?W]))
      = rbind (fold_res ?e [0..<c1] out) (\<lambda>o1. rbind (fold_res ?e [c1..<c2] o1) (fold_res ?e [c2..<?W]))"
    by (rule rbind_cong[OF refl]) (use padded_length s2 s3 in \<open>auto intro!: rbind_cong\<close>)
  also have "\<dots> = fold_res ?e [0..<?W] out" using c by (simp add: fold_upt_split)
  finally have "rbind (fold_res ?e [0..<c1] out) (\<lambda>o1. rbind (if ?W - c1 \<ge> 2 then fma_lanes m ?W r (pd_base m ! r) ?p c1 2 o1 else Inr o1) (fold_res ?tail [c2..<?W]))
      = fold_res ?e [0..<?W] out" .
  then show ?thesis
    unfolding bslz4_padded_row_avx2_def padded_row_mixed_def q(1) rbind.simps q(2) load_ok[OF r] Let_def c1_def[symmetric] c2_def[symmetric] s1 .
qed

lemma fold_res_cong_inv:
  assumes "I s" "\<And>x s. x \<in> set xs \<Longrightarrow> I s \<Longrightarrow> f x s = g x s" "\<And>x s s'. x \<in> set xs \<Longrightarrow> I s \<Longrightarrow> g x s = Inr s' \<Longrightarrow> I s'"
  shows "fold_res f xs s = fold_res g xs s"
  using assms
proof (induction xs arbitrary: s)
  case (Cons x xs)
  have "f x s = g x s" using Cons.prems by simp
  moreover have "fold_res f xs t = fold_res g xs t" if "g x s = Inr t" for t
  proof (rule Cons.IH)
    show "I t" using Cons.prems(3)[of x s t] Cons.prems(1) that by simp
    show "\<And>x s. x \<in> set xs \<Longrightarrow> I s \<Longrightarrow> f x s = g x s" using Cons.prems(2) by simp
    show "\<And>y s s'. y \<in> set xs \<Longrightarrow> I s \<Longrightarrow> g y s = Inr s' \<Longrightarrow> I s'" using Cons.prems(3) by (meson list.set_intros(2))
  qed
  ultimately show ?case by (cases "g x s") simp_all
qed simp

text \<open>
  C34: the AVX2 dense route of padded walks every row of the block exactly once, in tiles of 128 rows in 16 strided passes, and its row kernel does
  what the scalar row does, with the vector lanes fused; it never touches a bin outside the row's.
\<close>

theorem padded_avx2_rows:
  assumes sh: "padded_shape m npix (length out)" and W: "pd_width m \<le> 8" and x86: "b_x86_simd bld"
    and rows: "padded_rows m i0 n r0 r1" "r1 \<le> length (pd_base m)"
  shows "\<exists>order. mset order = mset [r0..<r1]
    \<and> bslz4_padded_dense_block bld fc dt block i0 m True out
      = fold_res (padded_row_mixed (\<lambda>k. fc \<or> avx2_fused (padded_W m) k) dt block i0 m) order out"
proof -
  let ?o = "tile_order PADDED_TILE PADDED_STRIDE r0 r1"
  let ?row = "padded_row_mixed (\<lambda>k. fc \<or> avx2_fused (padded_W m) k) dt block i0 m"
  have ms: "mset ?o = mset [r0..<r1]" by (rule mset_tile_order) (simp_all add: PADDED_TILE_def PADDED_STRIDE_def)
  then have so: "set ?o = set [r0..<r1]" by (rule mset_eq_setD)
  have "fold_res (bslz4_padded_row_avx2 fc dt (padded_W m) block i0 m) ?o out = fold_res ?row ?o out"
  proof (rule fold_res_cong_inv[where I = "\<lambda>s. length s = length out"])
    show "bslz4_padded_row_avx2 fc dt (padded_W m) block i0 m r s = ?row r s" if "r \<in> set ?o" "length s = length out" for r s
      by (rule padded_row_avx2_mixed) (use that sh so rows(2) in auto)
    show "length s' = length out" if "length s = length out" "?row r s = Inr s'" for r s s'
      using that padded_length by (fastforce simp: padded_row_mixed_def rbind_Inr_iff)
  qed simp
  moreover have "bslz4_padded_dense_block bld fc dt block i0 m True out = fold_res (bslz4_padded_row_avx2 fc dt (padded_W m) block i0 m) ?o out"
    using sh W x86 rows(1)
    by (simp add: bslz4_padded_dense_block_def padded_rows_def padded_shape_def load_ok bslz4_padded_rows_avx2_def padded_W_def Let_def)
  ultimately show ?thesis using ms by metis
qed

section \<open>Witnesses\<close>

text \<open>Two weights per pixel from bin 0 on, those of the masked pixel 1 zero; one block of three pixels.\<close>

definition sample_padded :: bslz4_mat_padded where
  "sample_padded = \<lparr>pd_base = [0, 0, 0], pd_weights = [0x3F800000, 0x3F000000, 0, 0, 0x40000000, 0x3F800000], pd_pixels = [], pd_rowmap = [],
     pd_row_ptr = [0, 3], pd_row_ptr_n = 2, pd_width = 2, pd_listed = False, pd_block_elems = 3\<rparr>"

lemma sample_padded_shape: "length pow = 2 \<Longrightarrow> padded_shape sample_padded 3 (length pow)"
  by (simp add: padded_shape_def sample_padded_def padded_W_def)

lemma sample_padded_rows: "padded_rows sample_padded 0 3 0 3"
  by (simp add: padded_rows_def sample_padded_def size_of_i32_def)

theorem padded_routes_agree_witness:
  "\<exists>pow. dot_gives sample_dot_st (padded_dense sample_build False False sample_padded sample_dot_work sample_dot_st) pow [(3, 0), (5, 2)]
    \<and> dot_gives sample_dot_st (padded_sparse sample_build False sample_padded sample_dot_work sample_dot_st) pow [(3, 0), (5, 2)]"
proof -
  let ?w = sample_dot_work and ?m = sample_padded
  have i0: "w_i0 ?w = 0" "w_n ?w = 3" "w_dtype ?w = 1" "w_block ?w = [3, 7, 5]" by (simp_all add: sample_dot_work_def sample_work_def)
  have f: "weighs False 1 (pd_weights ?m) v" for v by (simp add: weighs_def) code_simp
  have fin: "\<forall>v\<in>set [3, 7, 5]. finite64 (px_f64 1 v)" by code_simp
  have z: "f64_of_f32 0 = 0" by code_simp
  have e: "\<forall>j<w_n ?w. \<not> mask_keeps (work_mask ?w) (j + w_i0 ?w) \<longrightarrow> padded_empty ?m (j + w_i0 ?w)"
    unfolding sample_less3
    by (auto simp: sample_dot_work_def sample_work_def sample_padded_def padded_empty_def padded_row_def padded_W_def mask_keeps_def work_mask_def
        z less_Suc_eq numeral_2_eq_2)
  have sh: "padded_shape ?m 3 (length (d_pow sample_dot_st))" by (rule sample_padded_shape) (simp add: sample_dot_st_def)
  have rw: "padded_rows ?m (w_i0 ?w) (w_n ?w) 0 3" using sample_padded_rows by (simp add: i0)
  have st: "\<forall>x\<in>set (d_pow sample_dot_st). stable x" by (simp add: sample_dot_st_def stable_def dec64_zero)
  have px: "\<forall>v\<in>set (w_block ?w). weighs False (w_dtype ?w) (pd_weights ?m) v \<and> finite64 (px_f64 (w_dtype ?w) v)"
    using f fin by (simp add: i0)
  show ?thesis using padded_routes_agree[OF sample_ready sh rw st px e, of sample_build sample_build] unfolding sample_list by blast
qed

theorem padded_avx2_rows_witness:
  "\<exists>order. mset order = mset [0..<3] \<and> bslz4_padded_dense_block sample_build False 1 [3, 7, 5] 0 sample_padded True [0, 0]
      = fold_res (padded_row_mixed (\<lambda>k. False \<or> avx2_fused (padded_W sample_padded) k) 1 [3, 7, 5] 0 sample_padded) order [0, 0]"
  by (rule padded_avx2_rows[OF sample_padded_shape _ _ sample_padded_rows]) (simp_all add: sample_padded_def sample_build_def)

section \<open>A masked pixel that is not a number\<close>

text \<open>Two f32 pixels, 1.0 and a masked NaN.\<close>

definition sample_nan_work :: bslz4_work where
  "sample_nan_work = sample_work\<lparr>w_dtype := 8, w_i0 := 0, w_n := 2, w_block := [0x3F800000, 0x7FC00000], w_mask := [1, 0]\<rparr>"

definition sample_nan_padded :: bslz4_mat_padded where
  "sample_nan_padded = \<lparr>pd_base = [0, 0], pd_weights = [0x3F800000, 0], pd_pixels = [], pd_rowmap = [],
     pd_row_ptr = [0, 2], pd_row_ptr_n = 2, pd_width = 1, pd_listed = False, pd_block_elems = 2\<rparr>"


end
