(* ===== verification/DotBsb.thy ===== *)
theory DotBsb
  imports DotPadded
begin

text \<open>
  \<open>src/steps/dot_bsbcsr.hpp\<close>: the matrix transposed per decode block. The dense route walks the bins a block touches with four partial sums
  per bin; the sparse route is the nested csc's (or csc-nosplit's).
\<close>

record bslz4_mat_bsbcsr =
  bs_blk_ptr :: "32 word list"
  bs_blk_ptr_n :: nat
  bs_bins :: "32 word list"
  bs_bin_ptr :: "32 word list"
  bs_idx :: "16 word list"
  bs_data :: "64 word list"
  bs_csc :: bslz4_mat_csc
  bs_block_elems :: nat

section \<open>Four accumulators\<close>

text \<open>\<open>a[i] += d * px[idx[k]]\<close>, and \<open>a[i] += px[idx[k]]\<close> of the histogram.\<close>

definition bsb_term :: "bool \<Rightarrow> int \<Rightarrow> bslz4_mat_bsbcsr \<Rightarrow> pix list \<Rightarrow> nat \<Rightarrow> f64 \<Rightarrow> f64 res" where
  "bsb_term fc dt m px k a =
     rbind (load (bs_data m) k) (\<lambda>d. rbind (load (bs_idx m) k) (\<lambda>j. rbind (load px (unat j)) (\<lambda>v.
       Inr (madd fc (f64_of_f32 d) (px_f64 dt v) a))))"

definition bsb_count :: "int \<Rightarrow> bslz4_mat_bsbcsr \<Rightarrow> pix list \<Rightarrow> nat \<Rightarrow> f64 \<Rightarrow> f64 res" where
  "bsb_count dt m px k a = rbind (load (bs_idx m) k) (\<lambda>j. rbind (load px (unat j)) (\<lambda>v. Inr (f64_add a (px_f64 dt v))))"

type_synonym acc4 = "f64 \<times> f64 \<times> f64 \<times> f64"

definition bsb_quad :: "(nat \<Rightarrow> f64 \<Rightarrow> f64 res) \<Rightarrow> nat \<Rightarrow> acc4 \<Rightarrow> acc4 res" where
  "bsb_quad term k = (\<lambda>(a0, a1, a2, a3). rbind (term k a0) (\<lambda>a0. rbind (term (k + 1) a1) (\<lambda>a1. rbind (term (k + 2) a2) (\<lambda>a2.
     rbind (term (k + 3) a3) (\<lambda>a3. Inr (a0, a1, a2, a3))))))"

text \<open>One bin: the entries \<open>k0..k1\<close> in groups of four, the rest, and the single store.\<close>

definition bsb_sum :: "(nat \<Rightarrow> f64 \<Rightarrow> f64 res) \<Rightarrow> nat \<Rightarrow> nat \<Rightarrow> f64 res" where
  "bsb_sum term k0 k1 =
     (let q = (k1 - k0) div 4 in
      rbind (fold_res (\<lambda>g. bsb_quad term (k0 + 4 * g)) [0..<q] (0, 0, 0, 0)) (\<lambda>(a0, a1, a2, a3).
      rbind (fold_res term [k0 + 4 * q..<k1] a0) (\<lambda>a0. Inr (f64_add (f64_add a0 a1) (f64_add a2 a3)))))"

definition bsb_bin :: "(nat \<Rightarrow> f64 \<Rightarrow> f64 res) \<Rightarrow> bslz4_mat_bsbcsr \<Rightarrow> nat \<Rightarrow> pow_fn" where
  "bsb_bin term m bi out =
     rbind (load (bs_bins m) bi) (\<lambda>bin. rbind (load (bs_bin_ptr m) bi) (\<lambda>k0. rbind (load (bs_bin_ptr m) (bi + 1)) (\<lambda>k1.
     rbind (bsb_sum term (unat k0) (unat k1)) (\<lambda>s. acc_at (\<lambda>x. f64_add x s) (unat bin) out))))"

definition bsb_pow :: "(nat \<Rightarrow> f64 \<Rightarrow> f64 res) \<Rightarrow> bslz4_mat_bsbcsr \<Rightarrow> nat \<Rightarrow> pow_fn" where
  "bsb_pow term m i0 out =
     (if bs_block_elems m = 0 then Inl Fault
      else let i = i0 div bs_block_elems m in
        rbind (load (bs_blk_ptr m) i) (\<lambda>b0. rbind (load (bs_blk_ptr m) (i + 1)) (\<lambda>b1.
          fold_res (bsb_bin term m) [unat b0..<unat b1] out)))"

section \<open>Routes\<close>

definition bsbcsr_dense :: "build \<Rightarrow> bool \<Rightarrow> bslz4_mat_bsbcsr \<Rightarrow> bslz4_work \<Rightarrow> dot_st \<Rightarrow> (int \<times> dot_st) res" where
  "bsbcsr_dense bld fc m w st =
     (if w_n w = 0 then Inr (0, st) else dense_with (bsb_pow (bsb_term fc (w_dtype w) m (w_block w)) m (w_i0 w)) bld w st)"

definition bsbcsr_sparse :: "build \<Rightarrow> bool \<Rightarrow> bslz4_mat_bsbcsr \<Rightarrow> bslz4_work \<Rightarrow> dot_st \<Rightarrow> (int \<times> dot_st) res" where
  "bsbcsr_sparse bld fc m w st = sparse_dot_core bld fc (bs_csc m) w st"

definition bsbcsr_nosplit_dense :: "build \<Rightarrow> bslz4_mat_bsbcsr \<Rightarrow> bslz4_work \<Rightarrow> dot_st \<Rightarrow> (int \<times> dot_st) res" where
  "bsbcsr_nosplit_dense bld m w st =
     (if w_n w = 0 then Inr (0, st) else dense_with (bsb_pow (bsb_count (w_dtype w) m (w_block w)) m (w_i0 w)) bld w st)"

definition bsbcsr_nosplit_sparse :: "build \<Rightarrow> bslz4_mat_bsbcsr \<Rightarrow> bslz4_work \<Rightarrow> dot_st \<Rightarrow> (int \<times> dot_st) res" where
  "bsbcsr_nosplit_sparse bld m w st = nosplit_sparse_core bld (m_indices (bs_csc m)) w st"

end
