(* ===== verification/Kernels.thy ===== *)
theory Kernels
  imports DotBsb
begin

text \<open>
  \<open>src/steps/kernels.cpp\<close>: the dispatch of one block over the dot and the pixel type. \<open>w->mat\<close> is one of the three layout descriptors; a dot
  reads it as the layout \<open>bslz4_resolve\<close> has matched, any other is undefined.
\<close>

datatype mat = MatCsc bslz4_mat_csc | MatPadded bslz4_mat_padded | MatBsb bslz4_mat_bsbcsr | NoMat

fun as_csc :: "mat \<Rightarrow> bslz4_mat_csc res" where
  "as_csc (MatCsc m) = Inr m"
| "as_csc _ = Inl Fault"

fun as_padded :: "mat \<Rightarrow> bslz4_mat_padded res" where
  "as_padded (MatPadded m) = Inr m"
| "as_padded _ = Inl Fault"

fun as_bsb :: "mat \<Rightarrow> bslz4_mat_bsbcsr res" where
  "as_bsb (MatBsb m) = Inr m"
| "as_bsb _ = Inl Fault"

definition bslz4_sparse_dot_block :: "build \<Rightarrow> bool \<Rightarrow> mat \<Rightarrow> bslz4_work \<Rightarrow> dot_st \<Rightarrow> (int \<times> dot_st) res" where
  "bslz4_sparse_dot_block bld fc mat w st =
     (let sparse = w_route w; d = w_dot w in
      if d = BSLZ4_DOT_CSC then rbind (as_csc mat) (\<lambda>m. if sparse then sparse_dot bld fc m w st else dense_dot bld fc m w st)
      else if d = BSLZ4_DOT_PADDED then rbind (as_padded mat) (\<lambda>m. if sparse then padded_sparse bld fc m w st else padded_dense bld fc False m w st)
      else if d = BSLZ4_DOT_PADDED_AVX2 then rbind (as_padded mat) (\<lambda>m. if sparse then padded_sparse bld fc m w st else padded_dense bld fc True m w st)
      else if d = BSLZ4_DOT_CSC_RUN then rbind (as_csc mat) (\<lambda>m. if sparse then run_sparse bld fc m w st else run_dense bld fc m w st)
      else if d = BSLZ4_DOT_CSC_NOSPLIT then rbind (as_csc mat) (\<lambda>m. if sparse then nosplit_sparse bld m w st else nosplit_dense bld m w st)
      else if d = BSLZ4_DOT_BSBCSR then rbind (as_bsb mat) (\<lambda>m. if sparse then bsbcsr_sparse bld fc m w st else bsbcsr_dense bld fc m w st)
      else if d = BSLZ4_DOT_BSBCSR_NOSPLIT then
        rbind (as_bsb mat) (\<lambda>m. if sparse then bsbcsr_nosplit_sparse bld m w st else bsbcsr_nosplit_dense bld m w st)
      else if d \<in> {BSLZ4_DOT_CSC_PERMUTE, BSLZ4_DOT_CSC_INT, BSLZ4_DOT_CSC_RUN_INT, BSLZ4_DOT_CSC_RUN_INT16, BSLZ4_DOT_CSC_NOSPLIT_INT}
      then rbind (as_csc mat) (\<lambda>m. bslz4v_dispatch bld m w st)
      else Inr (BSLZ4_ERR_BAD_LAYOUT, st))"

definition bslz4_sparse_dot_dispatch :: "build \<Rightarrow> bool \<Rightarrow> mat \<Rightarrow> bslz4_work \<Rightarrow> dot_st \<Rightarrow> (int \<times> dot_st) res" where
  "bslz4_sparse_dot_dispatch bld fc mat w st =
     (if 0 \<le> w_dtype w \<and> w_dtype w \<le> 9 then bslz4_sparse_dot_block bld fc mat w st else Inr (BSLZ4_ERR_DTYPE, st))"

end
