(* ===== verification/Driver.thy ===== *)
theory Driver
  imports Frames Masking LowBlock Kernels
begin

text \<open>
  \<open>src/pipeline/driver.c\<close>, the frame and block loop: what a call does with a batch of chunks. The caller's arrays that are
  indexed by frame (\<open>npx_out\<close>, \<open>cursors\<close>, \<open>level\<close>, \<open>nabove\<close>, the rows of \<open>outpx\<close>, \<open>output_adr\<close> and \<open>powder\<close>) are one
  record per frame; the workspace, the packed mask and the counters are shared by the frames. A row is an object of its own, so a list
  that left its row would be a \<open>Fault\<close>. A call that returns an error code is \<open>Inl\<close>: what it had written until then is not modelled.
\<close>

section \<open>Small steps\<close>

definition bslz4_powder_i64_to_f64 :: "64 word list \<Rightarrow> nat \<Rightarrow> 64 word list res" where
  "bslz4_powder_i64_to_f64 powder nout =
     fold_res (\<lambda>i pow. rbind (load pow i) (\<lambda>v. store pow i (f64_of_int (sint v)))) [0..<nout] powder"

text \<open>The return value, \<open>block\<close>, \<open>raw\<close> and \<open>scratch\<close>.\<close>

definition bslz4_untranspose_full :: "shuffle_lib \<Rightarrow> build \<Rightarrow> bslz4_pipe \<Rightarrow> byte list \<Rightarrow> byte list \<Rightarrow> byte list \<Rightarrow> nat \<Rightarrow> nat
    \<Rightarrow> (int \<times> byte list \<times> byte list \<times> byte list) res" where
  "bslz4_untranspose_full slib bld p block raw scratch ne nz_end =
     (let u = p_step p ! nat BSLZ4_STEP_UNTRANSPOSE; NB = p_elem_size p in
      rbind (if u \<le> BSLZ4_UNTRANSPOSE_LOWPLANES_C then bslz4_lowplanes_block slib bld u block raw scratch ne nz_end
             else if nz_end < ne * NB then rbind (memset0 raw nz_end (ne * NB - nz_end)) (\<lambda>raw. Inr (block, raw, scratch, False))
             else Inr (block, raw, scratch, False)) (\<lambda>(block, raw, scratch, ok).
        if ok then Inr (0, block, raw, scratch)
        else rbind (bslz4_untranspose_backend slib bld u block raw ne NB) (\<lambda>(ret, block).
          Inr (if ret < 0 then -1 else 0, block, raw, scratch))))"

section \<open>Top pixels\<close>

definition top_thr :: "bslz4_top \<Rightarrow> int \<Rightarrow> int \<Rightarrow> int res" where
  "top_thr tp lev cut_i = (if lev < 0 then Inr cut_i else load (t_thr tp) (nat lev))"

text \<open>The frame's level, its number of pixels and its list.\<close>

function top_raise :: "bslz4_top \<Rightarrow> int \<Rightarrow> int \<Rightarrow> int \<Rightarrow> pix list \<Rightarrow> 32 word list \<Rightarrow> (int \<times> int \<times> pix list \<times> 32 word list) res" where
  "top_raise tp dt lev n vals adr =
     (if \<not> (if lev < 0 then n > t_howmany tp else n \<ge> t_howmany tp) \<or> lev + 1 \<ge> t_nthr tp then Inr (lev, n, vals, adr)
      else rbind (load (t_thr tp) (nat (lev + 1))) (\<lambda>thr.
        rbind (bslz4_filter_gt_dispatch dt vals adr (nat n) thr) (\<lambda>r.
          case r of None \<Rightarrow> top_raise tp dt (lev + 1) (-1) vals adr
          | Some s \<Rightarrow> top_raise tp dt (lev + 1) (int (npx s)) (out_vals s) (out_adr s))))"
  by pat_completeness auto
termination
  by (relation "measure (\<lambda>(tp, dt, lev, n, vals, adr). nat (t_nthr tp - lev))") auto

declare top_raise.simps [simp del]

section \<open>The cut\<close>

text \<open>\<open>x >= 0.0\<close>: not a NaN, and not below zero.\<close>

definition f64_ge0 :: "f64 \<Rightarrow> bool" where
  "f64_ge0 x \<longleftrightarrow> uint x mod 2 ^ 63 \<le> inf_bits 52 11 \<and> 0 \<le> fkey 52 11 (uint x)"

text \<open>\<open>*ci\<close> and \<open>*cf\<close>; \<open>cut\<close> is the buffer's bytes, \<open>None\<close> a null pointer.\<close>

definition read_cut :: "int \<Rightarrow> byte list option \<Rightarrow> nat \<Rightarrow> (int \<times> f64) res" where
  "read_cut dt cut_buf ncut =
     (case cut_buf of None \<Rightarrow> Inl (Code BSLZ4_ERR_BAD_CUT)
      | Some bs \<Rightarrow>
        if ncut \<noteq> 1 then Inl (Code BSLZ4_ERR_BAD_CUT)
        else if dt < 0 \<or> dt > 9 then Inl (Code BSLZ4_ERR_DTYPE)
        else rbind (load_pixels (bslz4_elem_size dt) bs 0 1) (\<lambda>px. rbind (load px 0) (\<lambda>v.
          let ci = (if is_float dt then 0 else if dt = 3 then sint v else px_int dt v);
              cf = (if is_float dt then px_f64 dt v else 0) in
          if dt < 4 then Inr (ci, cf)
          else if (if is_float dt then \<not> f64_ge0 cf else ci < 0) then Inl (Code BSLZ4_ERR_BAD_THRESHOLD)
          else Inr (ci, cf))))"

section \<open>A call\<close>

text \<open>What the program runs on: the libraries, the build and CPU, SSE2 in the lz4 decoder, and fused multiply-adds in the dots.\<close>

record env =
  e_lib :: codec_lib
  e_slib :: shuffle_lib
  e_host :: host
  e_sse2 :: bool
  e_fc :: bool

text \<open>The locals of \<open>bslz4_driver_run\<close> that stay fixed during its loops.\<close>

record call =
  k_pipe :: bslz4_pipe
  k_NIJ :: nat
  k_mask :: "byte list"
  k_mat :: mat
  k_nout :: nat
  k_top :: "bslz4_top option"
  k_cut_i :: int
  k_cut_f :: f64
  k_bs :: nat
  k_total :: nat

definition k_step :: "call \<Rightarrow> int \<Rightarrow> int" where "k_step k s = p_step (k_pipe k) ! nat s"
definition k_NB :: "call \<Rightarrow> nat" where "k_NB k = p_elem_size (k_pipe k)"
definition k_dt :: "call \<Rightarrow> int" where "k_dt k = p_dtype (k_pipe k)"
definition k_elems :: "call \<Rightarrow> nat" where "k_elems k = k_bs k div k_NB k"
definition k_is_dot :: "call \<Rightarrow> bool" where "k_is_dot k \<longleftrightarrow> k_step k BSLZ4_STEP_DOT \<noteq> 0"
definition k_pixels :: "call \<Rightarrow> bool" where "k_pixels k \<longleftrightarrow> k_step k BSLZ4_STEP_DECODE = BSLZ4_DECODE_PIXELS"
definition k_lowplanes :: "call \<Rightarrow> bool" where "k_lowplanes k \<longleftrightarrow> k_step k BSLZ4_STEP_UNTRANSPOSE \<le> BSLZ4_UNTRANSPOSE_LOWPLANES_C"

definition k_emask :: "call \<Rightarrow> byte list option" where
  "k_emask k = (if k_step k BSLZ4_STEP_MASK = BSLZ4_MASK_NONE then None else Some (k_mask k))"

definition k_maskplanes :: "call \<Rightarrow> bool" where
  "k_maskplanes k \<longleftrightarrow> \<not> k_pixels k \<and> k_step k BSLZ4_STEP_MASK = BSLZ4_MASK_PLANES \<and> k_emask k \<noteq> None
     \<and> k_elems k \<le> BSLZ4_MASKPLANE_MAX_ELEMS \<and> k_elems k mod 64 = 0"

record frame_st =
  f_npx :: int
  f_cursor :: nat
  f_vals :: "pix list"
  f_adr :: "32 word list"
  f_level :: int
  f_nabove :: int
  f_pow :: "64 word list"

text \<open>\<open>s_raw\<close> is \<open>raw\<close> and, behind it, \<open>scratch\<close>: one region of two blocks.\<close>

record space =
  s_raw :: "byte list"
  s_block :: "byte list"
  s_tval :: "pix list"
  s_tidx :: "32 word list"
  s_bits :: "64 word list"
  s_ctrs :: counters

definition bump :: "int \<Rightarrow> int \<Rightarrow> space \<Rightarrow> space res" where
  "bump step v sp = rbind (bslz4_counters_bump step v (s_ctrs sp)) (\<lambda>c. Inr (sp\<lparr>s_ctrs := c\<rparr>))"

section \<open>One block of one frame\<close>

text \<open>decode: the frame's state, the workspace, the compressed size and \<open>nz_end\<close>.\<close>

definition block_decode :: "env \<Rightarrow> call \<Rightarrow> chunk \<Rightarrow> frame_st \<Rightarrow> space \<Rightarrow> (frame_st \<times> space \<times> nat \<times> nat) res" where
  "block_decode e k c fs sp =
     (if k_pixels k then Inr (fs, sp, 0, k_bs k)
      else let dec = k_step k BSLZ4_STEP_DECODE; pos = f_cursor fs in
        rbind (next_block c pos) (\<lambda>n. rbind (load_n (ck_mem c) (pos + 4) n) (\<lambda>src.
        rbind (bslz4_decode_block (e_lib e) (e_sse2 e) dec src (s_raw sp) (k_bs k)) (\<lambda>(ret, raw, nz_end).
          if ret \<noteq> int (k_bs k) then Inl (Code BSLZ4_ERR_DECOMPRESS)
          else rbind (bump BSLZ4_STEP_DECODE dec (sp\<lparr>s_raw := raw\<rparr>)) (\<lambda>sp. Inr (fs\<lparr>f_cursor := pos + n + 4\<rparr>, sp, n, nz_end))))))"

definition block_mask :: "env \<Rightarrow> call \<Rightarrow> bool \<Rightarrow> nat \<Rightarrow> space \<Rightarrow> space res" where
  "block_mask e k unmasked nz_end sp =
     (if k_maskplanes k \<and> \<not> unmasked then
        rbind (bslz4_mask_planes (e_host e) (take (k_bs k) (s_raw sp)) (s_bits sp) (k_elems k div 8) nz_end) (\<lambda>raw.
          Inr (sp\<lparr>s_raw := raw @ drop (k_bs k) (s_raw sp)\<rparr>))
      else Inr sp)"

definition block_sparse :: "call \<Rightarrow> nat \<Rightarrow> bool" where
  "block_sparse k n \<longleftrightarrow> \<not> k_is_dot k \<or> k_step k BSLZ4_STEP_ROUTE = BSLZ4_ROUTE_SPARSE
     \<or> \<not> k_pixels k \<and> k_step k BSLZ4_STEP_ROUTE = BSLZ4_ROUTE_RATIO_RULE \<and> k_bs k > BSLZ4_ROUTE_RATIO * n
     \<or> \<not> k_pixels k \<and> k_step k BSLZ4_STEP_ROUTE = BSLZ4_ROUTE_BPP_RULE \<and> BSLZ4_ROUTE_BPP_SPARSE n (k_NB k) (k_bs k)"

text \<open>The previous block may have taken the frame's list over the limit.\<close>

definition frame_raise :: "call \<Rightarrow> frame_st \<Rightarrow> frame_st res" where
  "frame_raise k fs = (case k_top k of None \<Rightarrow> Inr fs
     | Some tp \<Rightarrow> rbind (top_raise tp (k_dt k) (f_level fs) (f_npx fs) (f_vals fs) (f_adr fs)) (\<lambda>(lev, n, vals, adr).
         Inr (fs\<lparr>f_level := lev, f_npx := n, f_vals := vals, f_adr := adr\<rparr>)))"

text \<open>The frame's current threshold as \<open>w.threshold\<close> and \<open>w.cutf\<close>.\<close>

definition frame_cut :: "call \<Rightarrow> frame_st \<Rightarrow> (int \<times> f64) res" where
  "frame_cut k fs = (case k_top k of None \<Rightarrow> Inr (k_cut_i k, k_cut_f k)
     | Some tp \<Rightarrow> rbind (top_thr tp (f_level fs) (k_cut_i k)) (\<lambda>thr.
         Inr (thr, if is_float (k_dt k) \<and> f_level fs \<ge> 0 then f64_of_int thr else k_cut_f k)))"

definition call_work :: "call \<Rightarrow> bool \<Rightarrow> int \<times> f64 \<Rightarrow> bool \<Rightarrow> nat \<Rightarrow> nat \<Rightarrow> pix list \<Rightarrow> bslz4_work" where
  "call_work k no_mask cuts route n i0 px =
     \<lparr>w_dtype = k_dt k, w_route = route, w_collect = k_step k BSLZ4_STEP_COLLECT, w_dot = k_step k BSLZ4_STEP_DOT,
      w_no_mask = no_mask, w_n = n, w_i0 = i0, w_threshold = fst cuts, w_cutf = snd cuts, w_block = px, w_mask = k_mask k,
      w_precompacted = False, w_pre_nz = 0\<rparr>"

text \<open>The list grows at \<open>out_vals\<close>, \<open>out_adr\<close>: the frame's rows behind its pixels so far.\<close>

definition append_list :: "(pix list \<Rightarrow> 32 word list \<Rightarrow> pix out res) \<Rightarrow> frame_st \<Rightarrow> frame_st res" where
  "append_list f fs =
     (if f_npx fs < 0 then Inl Fault
      else let n0 = nat (f_npx fs) in
        rbind (f (drop n0 (f_vals fs)) (drop n0 (f_adr fs))) (\<lambda>s.
          Inr (fs\<lparr>f_npx := f_npx fs + int (npx s), f_vals := take n0 (f_vals fs) @ out_vals s, f_adr := take n0 (f_adr fs) @ out_adr s\<rparr>)))"

definition dot_block :: "env \<Rightarrow> call \<Rightarrow> bslz4_work \<Rightarrow> frame_st \<Rightarrow> space \<Rightarrow> (frame_st \<times> space) res" where
  "dot_block e k w fs sp =
     (if f_npx fs < 0 then Inl Fault
      else let n0 = nat (f_npx fs) in
        rbind (bslz4_sparse_dot_dispatch (h_build (e_host e)) (e_fc e) (k_mat k) w
            \<lparr>d_pow = f_pow fs, d_vals = drop n0 (f_vals fs), d_adr = drop n0 (f_adr fs), d_tval = s_tval sp, d_tidx = s_tidx sp\<rparr>) (\<lambda>(n, st).
          Inr (fs\<lparr>f_npx := f_npx fs + n, f_vals := take n0 (f_vals fs) @ d_vals st, f_adr := take n0 (f_adr fs) @ d_adr st, f_pow := d_pow st\<rparr>,
               sp\<lparr>s_tval := d_tval st, s_tidx := d_tidx st\<rparr>)))"

text \<open>
  untranspose and collect fused, for u16 blocks below 256 that need only the list. \<open>None\<close> when the block has to be untransposed.
\<close>

definition low_cut :: "int \<Rightarrow> nat" where
  "low_cut thr = (if thr > 65535 then 65535 else nat (thr mod 2 ^ 32))"

definition block_fused :: "env \<Rightarrow> call \<Rightarrow> nat \<Rightarrow> nat \<Rightarrow> nat \<Rightarrow> int \<times> f64 \<Rightarrow> bool \<Rightarrow> frame_st \<Rightarrow> space \<Rightarrow> ((frame_st \<times> space) option \<times> space) res" where
  "block_fused e k i0 n nz_end cuts sparse fs sp =
     (let bld = h_build (e_host e); u = k_step k BSLZ4_STEP_UNTRANSPOSE; bs = k_bs k;
          bmask = (if k_maskplanes k then None else k_emask k); n0 = nat (f_npx fs);
          vals = (if k_is_dot k then s_tval sp else drop n0 (f_vals fs)); adr = (if k_is_dot k then s_tidx sp else drop n0 (f_adr fs)) in
      if f_npx fs < 0 then Inl Fault
      else rbind (bslz4_lowplanes_list (e_slib e) bld u (take bs (s_raw sp)) (k_elems k) nz_end n bs (drop bs (s_raw sp)) bmask i0
             (if k_is_dot k then 0 else low_cut (fst cuts)) (map ucast vals) adr) (\<lambda>(raw, scratch, r).
        let sp = sp\<lparr>s_raw := raw @ scratch\<rparr> in
        case r of None \<Rightarrow> Inr (None, sp)
        | Some s \<Rightarrow>
            rbind (bump BSLZ4_STEP_UNTRANSPOSE u sp) (\<lambda>sp.
            rbind (bump BSLZ4_STEP_COLLECT (k_step k BSLZ4_STEP_COLLECT) sp) (\<lambda>sp.
              if \<not> k_is_dot k
              then rbind (append_list (\<lambda>_ _. Inr (out_as ucast s)) fs) (\<lambda>fs. Inr (Some (fs, sp), sp))
              else
                let w = (call_work k (k_maskplanes k \<or> k_emask k = None) cuts sparse (k_elems k) i0 [])
                  \<lparr>w_precompacted := True, w_pre_nz := npx s\<rparr> in
                rbind (bump BSLZ4_STEP_ROUTE BSLZ4_ROUTE_SPARSE sp) (\<lambda>sp.
                rbind (bump BSLZ4_STEP_DOT (k_step k BSLZ4_STEP_DOT) sp) (\<lambda>sp.
                rbind (dot_block e k w fs (sp\<lparr>s_tval := map ucast (out_vals s), s_tidx := out_adr s\<rparr>)) (\<lambda>r. Inr (Some r, sp))))))))"

text \<open>untranspose to the block, unless the input is pixels: the pixels of the block.\<close>

definition block_pixels :: "env \<Rightarrow> call \<Rightarrow> nat \<Rightarrow> chunk \<Rightarrow> nat \<Rightarrow> space \<Rightarrow> (pix list \<times> space) res" where
  "block_pixels e k i0 c nz_end sp =
     (if k_pixels k then rbind (load_pixels (k_NB k) (ck_mem c) (i0 * k_NB k) (k_elems k)) (\<lambda>px. Inr (px, sp))
      else
        rbind (bslz4_untranspose_full (e_slib e) (h_build (e_host e)) (k_pipe k) (s_block sp) (take (k_bs k) (s_raw sp)) (drop (k_bs k) (s_raw sp))
            (k_elems k) nz_end) (\<lambda>(ret, block, raw, scratch).
          if ret < 0 then Inl (Code BSLZ4_ERR_UNTRANSPOSE)
          else
            rbind (bump BSLZ4_STEP_UNTRANSPOSE (k_step k BSLZ4_STEP_UNTRANSPOSE) (sp\<lparr>s_block := block, s_raw := raw @ scratch\<rparr>)) (\<lambda>sp.
            rbind (load_pixels (k_NB k) block 0 (k_elems k)) (\<lambda>px. Inr (px, sp)))))"

text \<open>collect, or collect and dot, over the pixels of a block or a tail.\<close>

definition collect_block :: "env \<Rightarrow> call \<Rightarrow> bool \<Rightarrow> bslz4_work \<Rightarrow> frame_st \<Rightarrow> space \<Rightarrow> (frame_st \<times> space) res" where
  "collect_block e k sparse w fs sp =
     rbind (bump BSLZ4_STEP_COLLECT (k_step k BSLZ4_STEP_COLLECT) sp) (\<lambda>sp.
       if k_is_dot k then
         rbind (bump BSLZ4_STEP_ROUTE (if sparse then BSLZ4_ROUTE_SPARSE else BSLZ4_ROUTE_DENSE) sp) (\<lambda>sp.
         rbind (bump BSLZ4_STEP_DOT (k_step k BSLZ4_STEP_DOT) sp) (\<lambda>sp. dot_block e k w fs sp))
       else rbind (append_list (bslz4_sparse_dispatch (h_build (e_host e)) w) fs) (\<lambda>fs. Inr (fs, sp)))"

definition block_step :: "env \<Rightarrow> call \<Rightarrow> nat \<Rightarrow> bool \<Rightarrow> chunk \<Rightarrow> frame_st \<times> space \<Rightarrow> (frame_st \<times> space) res" where
  "block_step e k i0 unmasked c = (\<lambda>(fs, sp).
     rbind (block_decode e k c fs sp) (\<lambda>(fs, sp, n, nz_end).
     rbind (block_mask e k unmasked nz_end sp) (\<lambda>sp.
     rbind (frame_raise k fs) (\<lambda>fs.
     rbind (frame_cut k fs) (\<lambda>cuts.
     let sparse = block_sparse k n in
     rbind (if k_lowplanes k \<and> sparse \<and> \<not> k_pixels k then block_fused e k i0 n nz_end cuts sparse fs sp else Inr (None, sp)) (\<lambda>(r, sp).
       case r of Some q \<Rightarrow> Inr q
       | None \<Rightarrow>
           rbind (block_pixels e k i0 c nz_end sp) (\<lambda>(px, sp).
             collect_block e k sparse (call_work k (k_maskplanes k \<or> k_emask k = None) cuts (k_is_dot k \<and> sparse) (k_elems k) i0 px) fs sp)))))))"

section \<open>The loops\<close>

definition with_frame :: "(chunk \<Rightarrow> frame_st \<times> space \<Rightarrow> (frame_st \<times> space) res) \<Rightarrow> chunk list \<Rightarrow> nat
    \<Rightarrow> frame_st list \<times> space \<Rightarrow> (frame_st list \<times> space) res" where
  "with_frame step chunks f = (\<lambda>(frames, sp).
     rbind (load chunks f) (\<lambda>c. rbind (load frames f) (\<lambda>fs. rbind (step c (fs, sp)) (\<lambda>(fs, sp).
       rbind (store frames f fs) (\<lambda>frames. Inr (frames, sp))))))"

text \<open>One block of every frame; the block's mask is packed once for all of them.\<close>

definition block_row :: "env \<Rightarrow> call \<Rightarrow> chunk list \<Rightarrow> nat \<Rightarrow> frame_st list \<times> space \<Rightarrow> (frame_st list \<times> space) res" where
  "block_row e k chunks b = (\<lambda>(frames, sp).
     let i0 = b * k_elems k in
     rbind (if k_maskplanes k then bslz4_pack_mask (e_host e) (s_bits sp) (drop i0 (k_mask k)) (k_elems k)
            else Inr (s_bits sp, False)) (\<lambda>(bits, unmasked).
       fold_res (with_frame (block_step e k i0 unmasked) chunks) [0..<length chunks] (frames, sp\<lparr>s_bits := bits\<rparr>)))"

section \<open>The tail\<close>

text \<open>\<open>remaining\<close> once the loop has ended, \<open>tail_block\<close>, \<open>rem_f\<close> and \<open>i0\<close>.\<close>

definition k_remaining :: "call \<Rightarrow> nat" where "k_remaining k = k_total k - full_blocks (k_total k) (k_bs k) * k_bs k"
definition k_tail :: "call \<Rightarrow> nat" where "k_tail k = (if k_pixels k then 0 else (8 * k_NB k) * (k_remaining k div (8 * k_NB k)))"
definition k_raw :: "call \<Rightarrow> nat" where "k_raw k = k_remaining k - k_tail k"
definition k_i0 :: "call \<Rightarrow> nat" where "k_i0 k = full_blocks (k_total k) (k_bs k) * k_elems k"

definition k_tail_decode :: "call \<Rightarrow> int" where
  "k_tail_decode k = (if k_step k BSLZ4_STEP_DECODE = BSLZ4_DECODE_ZSTD then BSLZ4_DECODE_ZSTD else BSLZ4_DECODE_LZ4_STOCK)"

definition k_tail_untranspose :: "call \<Rightarrow> int" where
  "k_tail_untranspose k = (if k_lowplanes k then BSLZ4_UNTRANSPOSE_KCB else k_step k BSLZ4_STEP_UNTRANSPOSE)"

text \<open>The partial block, compressed like the others, into the start of \<open>block\<close>.\<close>

definition tail_planes :: "env \<Rightarrow> call \<Rightarrow> chunk \<Rightarrow> frame_st \<Rightarrow> space \<Rightarrow> (frame_st \<times> space \<times> nat) res" where
  "tail_planes e k c fs sp =
     (if k_tail k = 0 then Inr (fs, sp, 0)
      else let pos = f_cursor fs; bs = k_bs k in
        rbind (next_block c pos) (\<lambda>n. rbind (load_n (ck_mem c) (pos + 4) n) (\<lambda>src.
        rbind (bslz4_decode_plain (e_lib e) (k_tail_decode k) src (take bs (s_raw sp)) (k_tail k)) (\<lambda>(ret, raw).
          if ret \<noteq> int (k_tail k) then Inl (Code BSLZ4_ERR_DECOMPRESS)
          else rbind (bslz4_untranspose_backend (e_slib e) (h_build (e_host e)) (k_tail_untranspose k) (s_block sp) raw (k_tail k div k_NB k) (k_NB k))
              (\<lambda>(ret, block).
            if ret < 0 then Inl (Code BSLZ4_ERR_UNTRANSPOSE)
            else rbind (bump BSLZ4_STEP_DECODE (k_step k BSLZ4_STEP_DECODE) (sp\<lparr>s_raw := raw @ drop bs (s_raw sp), s_block := block\<rparr>)) (\<lambda>sp.
                 rbind (bump BSLZ4_STEP_UNTRANSPOSE (k_step k BSLZ4_STEP_UNTRANSPOSE) sp) (\<lambda>sp. Inr (fs\<lparr>f_cursor := pos + n + 4\<rparr>, sp, n))))))))"

text \<open>The remainder stored raw at the chunk's end, behind it.\<close>

definition tail_raw :: "call \<Rightarrow> chunk \<Rightarrow> frame_st \<Rightarrow> space \<Rightarrow> space res" where
  "tail_raw k c fs sp =
     (let rem_f = k_raw k in
      if rem_f > 0 \<and> \<not> k_pixels k then
        if ck_len c < int rem_f \<or> int (f_cursor fs) > ck_len c - int rem_f then Inl (Code BSLZ4_ERR_CORRUPT_CHUNK)
        else rbind (load_n (ck_mem c) (nat (ck_len c) - rem_f) rem_f) (\<lambda>bs.
             rbind (store_n (s_block sp) (k_tail k) bs) (\<lambda>block. Inr (sp\<lparr>s_block := block\<rparr>)))
      else Inr sp)"

definition tail_sparse :: "call \<Rightarrow> nat \<Rightarrow> bool" where
  "tail_sparse k n \<longleftrightarrow> k_step k BSLZ4_STEP_ROUTE = BSLZ4_ROUTE_SPARSE
     \<or> \<not> k_pixels k \<and> k_step k BSLZ4_STEP_ROUTE = BSLZ4_ROUTE_RATIO_RULE \<and> (k_tail k = 0 \<or> k_tail k > BSLZ4_ROUTE_RATIO * n)
     \<or> \<not> k_pixels k \<and> k_step k BSLZ4_STEP_ROUTE = BSLZ4_ROUTE_BPP_RULE \<and> (k_tail k = 0 \<or> BSLZ4_ROUTE_BPP_SPARSE n (k_NB k) (k_tail k))"

text \<open>The last move to a threshold, then at most \<open>howmany\<close> pixels, the first ones.\<close>

definition frame_finish :: "call \<Rightarrow> frame_st \<Rightarrow> frame_st res" where
  "frame_finish k fs = (case k_top k of None \<Rightarrow> Inr fs
     | Some tp \<Rightarrow> rbind (frame_raise k fs) (\<lambda>fs.
         Inr (fs\<lparr>f_nabove := f_npx fs, f_npx := (if f_npx fs > t_howmany tp then t_howmany tp else f_npx fs)\<rparr>)))"

definition tail_step :: "env \<Rightarrow> call \<Rightarrow> chunk \<Rightarrow> frame_st \<times> space \<Rightarrow> (frame_st \<times> space) res" where
  "tail_step e k c = (\<lambda>(fs, sp).
     rbind (tail_planes e k c fs sp) (\<lambda>(fs, sp, n).
     rbind (tail_raw k c fs sp) (\<lambda>sp.
     rbind (frame_raise k fs) (\<lambda>fs.
     rbind (frame_cut k fs) (\<lambda>cuts.
     let ne = (k_raw k + k_tail k) div k_NB k; sparse = k_is_dot k \<and> tail_sparse k n in
     rbind (if k_pixels k then load_pixels (k_NB k) (ck_mem c) (k_i0 k * k_NB k) ne else load_pixels (k_NB k) (s_block sp) 0 ne) (\<lambda>px.
     rbind (collect_block e k sparse (call_work k (k_emask k = None) cuts sparse ne (k_i0 k) px) fs sp) (\<lambda>(fs, sp).
     rbind (if k_step k BSLZ4_STEP_DOT = BSLZ4_DOT_CSC_NOSPLIT_INT
            then rbind (bslz4_powder_i64_to_f64 (f_pow fs) (k_nout k)) (\<lambda>pow. Inr (fs\<lparr>f_pow := pow\<rparr>)) else Inr fs) (\<lambda>fs.
     rbind (frame_finish k fs) (\<lambda>fs. Inr (fs, sp))))))))))"

section \<open>The call\<close>

definition check_pixels :: "int \<Rightarrow> nat \<Rightarrow> chunk \<Rightarrow> unit \<Rightarrow> unit res" where
  "check_pixels NIJ NB c _ =
     (let l = word_of_int (ck_len c) :: 64 word; n = word_of_int NIJ * word_of_nat NB in
      if ck_len c < 0 \<or> l \<noteq> n then Inl (Code (if l > n then BSLZ4_ERR_TOO_MANY_PIXELS else BSLZ4_ERR_TOO_FEW_PIXELS)) else Inr ())"

text \<open>The derived layouts must be built at this block size and cover every block of the frame.\<close>

definition check_layout :: "mat \<Rightarrow> int \<Rightarrow> nat \<Rightarrow> nat \<Rightarrow> unit res" where
  "check_layout mat dot NIJ block_elems =
     (let nblocks = (if block_elems = 0 then 0 else (NIJ + block_elems - 1) div block_elems) in
      if bslz4_dot_layout dot = BSLZ4_LAYOUT_PADDED then
        rbind (as_padded mat) (\<lambda>m. if block_elems = 0 \<or> pd_block_elems m \<noteq> block_elems \<or> pd_row_ptr_n m < nblocks + 1
          then Inl (Code BSLZ4_ERR_BAD_LAYOUT) else Inr ())
      else if bslz4_dot_layout dot = BSLZ4_LAYOUT_BSBCSR then
        rbind (as_bsb mat) (\<lambda>m. if block_elems = 0 \<or> bs_block_elems m \<noteq> block_elems \<or> bs_blk_ptr_n m < nblocks + 1
          then Inl (Code BSLZ4_ERR_BAD_LAYOUT) else Inr ())
      else Inr ())"

text \<open>The size of a frame in bytes and the block size.\<close>

definition frame_size :: "int \<Rightarrow> nat \<Rightarrow> bool \<Rightarrow> chunk list \<Rightarrow> (64 word \<times> nat) res" where
  "frame_size NIJ NB pixels chunks =
     (if pixels then
        if chunks = [] then Inl (Code BSLZ4_ERR_BAD_NFRAMES)
        else rbind (fold_res (check_pixels NIJ NB) chunks ()) (\<lambda>_. Inr (word_of_int NIJ * word_of_nat NB, BSLZ4_DEFAULT_BLOCK_BYTES))
      else bslz4_driver_check_frames chunks)"

definition frame_init :: "call \<Rightarrow> frame_st \<Rightarrow> frame_st res" where
  "frame_init k fs =
     rbind (if k_is_dot k then store_n (f_pow fs) 0 (replicate (k_nout k) 0) else Inr (f_pow fs)) (\<lambda>pow.
       let fs = fs\<lparr>f_pow := pow, f_npx := 0, f_cursor := (if k_pixels k then 0 else 12)\<rparr> in
       Inr (if k_top k = None then fs else fs\<lparr>f_level := -1, f_nabove := 0\<rparr>))"

text \<open>The checks before the loops: the call's fixed data.\<close>

definition driver_checks :: "bslz4_pipe \<Rightarrow> chunk list \<Rightarrow> byte list \<Rightarrow> int \<Rightarrow> byte list option \<Rightarrow> nat \<Rightarrow> nat \<Rightarrow> mat \<Rightarrow> nat
    \<Rightarrow> bslz4_top option \<Rightarrow> call res" where
  "driver_checks p chunks msk NIJ cut_buf ncut nout mat workspace_len tp =
     rbind (read_cut (p_dtype p) cut_buf ncut) (\<lambda>(cut_i, cut_f).
     if (case tp of None \<Rightarrow> False | Some t \<Rightarrow> t_howmany t < 0 \<or> t_nthr t < 0) then Inl (Code BSLZ4_ERR_BAD_THRESHOLD)
     else let NB = p_elem_size p; dot = p_step p ! nat BSLZ4_STEP_DOT; pixels = p_step p ! nat BSLZ4_STEP_DECODE = BSLZ4_DECODE_PIXELS in
       rbind (frame_size NIJ NB pixels chunks) (\<lambda>(total_len, blocksize).
       if total_len div word_of_nat NB > word_of_int NIJ then Inl (Code BSLZ4_ERR_TOO_MANY_PIXELS)
       else if total_len \<noteq> word_of_int NIJ * word_of_nat NB then Inl (Code BSLZ4_ERR_TOO_FEW_PIXELS)
       else if uint total_len > INT32_MAX then Inl (Code BSLZ4_ERR_TOO_LARGE)
       else let block_elems = blocksize div NB in
         rbind (if dot \<noteq> 0 then check_layout mat dot (nat NIJ) block_elems else Inr ()) (\<lambda>_.
         if workspace_len < 3 * blocksize + (if dot \<noteq> 0 then block_elems * (4 + NB) else 0) then Inl (Code BSLZ4_ERR_WORKSPACE_TOO_SMALL)
         else Inr \<lparr>k_pipe = p, k_NIJ = nat NIJ, k_mask = msk, k_mat = mat, k_nout = nout, k_top = tp, k_cut_i = cut_i, k_cut_f = cut_f,
                k_bs = blocksize, k_total = unat total_len\<rparr>)))"

text \<open>The workspace cut into its parts; \<open>maskbits\<close> is on the stack.\<close>

definition cut_space :: "call \<Rightarrow> byte list \<Rightarrow> counters \<Rightarrow> space res" where
  "cut_space k ws ctrs =
     (let bs = k_bs k; ne = (if k_is_dot k then k_elems k else 0) in
      rbind (load_n ws 0 (2 * bs)) (\<lambda>raw. rbind (load_n ws (2 * bs) bs) (\<lambda>block.
      rbind (load_pixels 4 ws (3 * bs) ne) (\<lambda>tidx. rbind (load_pixels (k_NB k) ws (3 * bs + 4 * ne) ne) (\<lambda>tval.
        Inr \<lparr>s_raw = raw, s_block = block, s_tval = tval, s_tidx = map ucast tidx, s_bits = replicate (BSLZ4_MASKPLANE_MAX_ELEMS div 64) 0, s_ctrs = ctrs\<rparr>)))))"

definition driver_loops :: "env \<Rightarrow> call \<Rightarrow> chunk list \<Rightarrow> frame_st list \<times> space \<Rightarrow> (frame_st list \<times> space) res" where
  "driver_loops e k chunks s =
     rbind (fold_res (block_row e k chunks) [0..<full_blocks (k_total k) (k_bs k)] s)
       (fold_res (with_frame (tail_step e k) chunks) [0..<length chunks])"

definition bslz4_driver_run :: "env \<Rightarrow> chunk list \<Rightarrow> byte list \<Rightarrow> int \<Rightarrow> frame_st list \<Rightarrow> byte list option \<Rightarrow> nat \<Rightarrow> nat \<Rightarrow> mat \<Rightarrow> byte list
    \<Rightarrow> bslz4_pipe \<Rightarrow> bslz4_top option \<Rightarrow> counters \<Rightarrow> (frame_st list \<times> counters) res" where
  "bslz4_driver_run e chunks msk NIJ frames cut_buf ncut nout mat ws p tp ctrs =
     rbind (driver_checks p chunks msk NIJ cut_buf ncut nout mat (length ws) tp) (\<lambda>k.
     rbind (cut_space k ws ctrs) (\<lambda>sp.
     rbind (fold_res (with_frame (\<lambda>_ (fs, sp). rbind (frame_init k fs) (\<lambda>fs. Inr (fs, sp))) chunks) [0..<length chunks] (frames, sp)) (\<lambda>s.
     rbind (driver_loops e k chunks s) (\<lambda>(frames, sp). Inr (frames, s_ctrs sp)))))"

end
