(* ===== verification/DriverStep.thy ===== *)
theory DriverStep
  imports Driver
begin

text \<open>
  What the parts of the block loop do on a chunk its codec reads: the decoded planes, the masked planes, the pixels of the block, and the
  move of a frame's list to the next threshold.
\<close>

section \<open>A sound call\<close>

definition env_ok :: "env \<Rightarrow> bool" where
  "env_ok e \<longleftrightarrow> lz4_conforms (e_lib e) \<and> zstd_fills (e_lib e) \<and> shuffle_conforms (e_slib e)"

definition ctrs_ok :: "counters \<Rightarrow> bool" where
  "ctrs_ok c \<longleftrightarrow> length (bslz4_counters c) = 6 \<and> (\<forall>row\<in>set (bslz4_counters c). length row = 16)"

text \<open>What \<open>bslz4_resolve\<close> and the checks of \<open>bslz4_driver_run\<close> promise the loops, and the caller for its mask.\<close>

definition call_ok :: "env \<Rightarrow> call \<Rightarrow> bool" where
  "call_ok e k \<longleftrightarrow> 0 \<le> k_dt k \<and> k_dt k \<le> 9 \<and> k_NB k = bslz4_elem_size (k_dt k)
     \<and> (\<forall>s<6. 0 \<le> p_step (k_pipe k) ! s \<and> p_step (k_pipe k) ! s < 16)
     \<and> (k_lowplanes k \<longrightarrow> k_dt k = 1 \<and> bslz4_lowplanes_capable (e_host e) (k_step k BSLZ4_STEP_UNTRANSPOSE))
     \<and> 0 < k_bs k \<and> whole_groups (k_NB k) (k_bs k)
     \<and> (k_step k BSLZ4_STEP_UNTRANSPOSE = BSLZ4_UNTRANSPOSE_LOWPLANES_VSX \<longrightarrow> k_elems k mod 64 = 0)
     \<and> k_total k = k_NIJ k * k_NB k \<and> k_NIJ k \<le> length (k_mask k) \<and> k_NIJ k < 2 ^ 31"

definition space_ok :: "call \<Rightarrow> space \<Rightarrow> bool" where
  "space_ok k sp \<longleftrightarrow> length (s_raw sp) = 2 * k_bs k \<and> length (s_block sp) = k_bs k \<and> length (s_bits sp) = 128 \<and> ctrs_ok (s_ctrs sp)
     \<and> (k_is_dot k \<longrightarrow> length (s_tval sp) = k_elems k \<and> length (s_tidx sp) = k_elems k)"

lemma call_sizes:
  assumes "call_ok e k"
  shows "k_NB k \<in> {1, 2, 4, 8}" "0 < k_NB k" "k_elems k * k_NB k = k_bs k" "k_elems k mod 8 = 0" "0 < k_elems k"
proof -
  have dt: "0 \<le> k_dt k" "k_dt k \<le> 9" "k_NB k = bslz4_elem_size (k_dt k)" using assms unfolding call_ok_def by blast+
  from dtype_cases[OF dt(1,2)] dt(3)
  show NB: "k_NB k \<in> {1, 2, 4, 8}" by (auto simp: bslz4_elem_size_def)
  then show pos: "0 < k_NB k" by auto
  have wg: "whole_groups (k_NB k) (k_bs k)" "0 < k_bs k" using assms unfolding call_ok_def by blast+
  show "k_elems k * k_NB k = k_bs k" "k_elems k mod 8 = 0" using whole_groupsD[OF wg(1) pos] by (simp_all add: k_elems_def)
  then show "0 < k_elems k" using wg(2) by (metis mult_0 neq0_conv)
qed

lemma bump_ok:
  assumes "ctrs_ok (s_ctrs sp)" "0 \<le> s" "s < 6" "0 \<le> v" "v < 16"
  shows "\<exists>c. bump s v sp = Inr (sp\<lparr>s_ctrs := c\<rparr>) \<and> ctrs_ok c"
proof (cases "bslz4_counters_on (s_ctrs sp)")
  case False
  then have "bump s v sp = Inr (sp\<lparr>s_ctrs := s_ctrs sp\<rparr>)" by (simp add: bump_def bslz4_counters_bump_def)
  then show ?thesis using assms(1) by blast
next
  case True
  let ?cs = "bslz4_counters (s_ctrs sp)"
  have s: "nat s < length ?cs" "nat v < length (?cs ! nat s)" using assms by (auto simp: ctrs_ok_def)
  have "ctrs_ok ((s_ctrs sp)\<lparr>bslz4_counters := ?cs[nat s := (?cs ! nat s)[nat v := ?cs ! nat s ! nat v + 1]]\<rparr>)"
    using assms s by (auto simp: ctrs_ok_def dest!: set_update_subset_insert[THEN subsetD])
  moreover have "bump s v sp = Inr (sp\<lparr>s_ctrs := (s_ctrs sp)\<lparr>bslz4_counters := ?cs[nat s := (?cs ! nat s)[nat v := ?cs ! nat s ! nat v + 1]]\<rparr>\<rparr>)"
    using True s by (simp add: bump_def bslz4_counters_bump_def load_ok store_ok)
  ultimately show ?thesis by blast
qed

lemma step_slot: "call_ok e k \<Longrightarrow> 0 \<le> s \<Longrightarrow> s < 6 \<Longrightarrow> 0 \<le> k_step k s \<and> k_step k s < 16"
  by (auto simp: call_ok_def k_step_def)

text \<open>Counting a step's value changes nothing but the counters.\<close>

lemma bump_space:
  assumes "space_ok k sp" "0 \<le> s" "s < 6" "0 \<le> v" "v < 16"
  obtains c where "bump s v sp = Inr (sp\<lparr>s_ctrs := c\<rparr>)" "space_ok k (sp\<lparr>s_ctrs := c\<rparr>)"
  using bump_ok[OF _ assms(2-5), of sp] assms(1) by (auto simp: space_ok_def)

section \<open>decode\<close>

lemma planes_in_take: "planes_in planes raw nz \<Longrightarrow> planes_in planes (take (length planes) raw) nz"
  by (simp add: planes_in_def min_def)

lemma block_decode_ok:
  assumes e: "env_ok e" and k: "call_ok e k" and sp: "space_ok k sp" and c: "readable_chunk c" and px: "\<not> k_pixels k"
    and n: "next_block c (f_cursor fs) = Inr n" "codec_planes (e_lib e) (k_step k BSLZ4_STEP_DECODE) (block_bytes c (f_cursor fs) n) (k_bs k) = Some p"
  shows "\<exists>sp' nz. block_decode e k c fs sp = Inr (fs\<lparr>f_cursor := f_cursor fs + n + 4\<rparr>, sp', n, nz) \<and> space_ok k sp' \<and> s_bits sp' = s_bits sp
    \<and> length p = k_bs k \<and> planes_in p (take (k_bs k) (s_raw sp')) nz"
proof -
  have ld: "load_n (ck_mem c) (f_cursor fs + 4) n = Inr (block_bytes c (f_cursor fs) n)" using next_block_cases[OF c, of "f_cursor fs"] n(1) by auto
  have lr: "length (s_raw sp) = 2 * k_bs k" using sp by (simp add: space_ok_def)
  have lib: "lz4_conforms (e_lib e)" "zstd_fills (e_lib e)" using e by (simp_all add: env_ok_def)
  from decode_block_ok[OF lib n(2) lr, of "e_sse2 e"] obtain raw nz where
    d: "bslz4_decode_block (e_lib e) (e_sse2 e) (k_step k BSLZ4_STEP_DECODE) (block_bytes c (f_cursor fs) n) (s_raw sp) (k_bs k) = Inr (int (k_bs k), raw, nz)"
    "length raw = length (s_raw sp)" "length p = k_bs k" "planes_in p raw nz" by blast
  have sp1: "space_ok k (sp\<lparr>s_raw := raw\<rparr>)" using sp d(2) by (simp add: space_ok_def)
  have slot: "0 \<le> k_step k BSLZ4_STEP_DECODE" "k_step k BSLZ4_STEP_DECODE < 16" using step_slot[OF k, of BSLZ4_STEP_DECODE] by (simp_all add: step_values)
  obtain ct where b: "bump BSLZ4_STEP_DECODE (k_step k BSLZ4_STEP_DECODE) (sp\<lparr>s_raw := raw\<rparr>) = Inr (sp\<lparr>s_raw := raw, s_ctrs := ct\<rparr>)"
    "space_ok k (sp\<lparr>s_raw := raw, s_ctrs := ct\<rparr>)"
    by (rule bump_space[OF sp1 _ _ slot, of BSLZ4_STEP_DECODE]) (simp_all add: step_values)
  have "block_decode e k c fs sp = Inr (fs\<lparr>f_cursor := f_cursor fs + n + 4\<rparr>, sp\<lparr>s_raw := raw, s_ctrs := ct\<rparr>, n, nz)"
    using px n(1) ld d(1) b(1) by (simp add: block_decode_def)
  moreover have "planes_in p (take (k_bs k) raw) nz" using planes_in_take[OF d(4)] d(3) by simp
  ultimately show ?thesis using b(2) d(3) by auto
qed

section \<open>mask\<close>

text \<open>The packed mask of the block at \<open>i0\<close>, and whether it keeps every pixel.\<close>

definition bits_ok :: "call \<Rightarrow> nat \<Rightarrow> bool \<Rightarrow> 64 word list \<Rightarrow> bool" where
  "bits_ok k i0 unmasked bits \<longleftrightarrow> (k_maskplanes k \<longrightarrow> unmasked = (\<forall>j<k_elems k. k_mask k ! (j + i0) \<noteq> 0)
     \<and> (\<forall>j<k_elems k. bit (bits ! (j div 64)) (j mod 64) \<longleftrightarrow> k_mask k ! (j + i0) \<noteq> 0))"

text \<open>The pixels the kernels see: with the mask in the planes, a masked pixel is 0 and nothing is left to test.\<close>

definition k_no_mask :: "call \<Rightarrow> bool" where
  "k_no_mask k \<longleftrightarrow> k_maskplanes k \<or> k_emask k = None"

definition sees :: "call \<Rightarrow> bool \<Rightarrow> nat \<Rightarrow> nat \<Rightarrow> pix list \<Rightarrow> pix list \<Rightarrow> bool" where
  "sees k no_mask i0 ne px fpx \<longleftrightarrow> length px = ne \<and> narrow_px (k_dt k) px \<and> (no_mask \<or> k_emask k \<noteq> None)
     \<and> (\<forall>j<ne. px ! j = (if no_mask \<and> \<not> mask_keeps (k_emask k) (j + i0) then 0 else fpx ! (j + i0)))"

lemma narrow_plane_pixels: "narrow_px dt (plane_pixels (bslz4_elem_size dt) ne p)"
  by (auto simp: narrow_px_def plane_pixels_def)

lemma block_mask_ok:
  assumes k: "call_ok e k" and sp: "space_ok k sp" and p: "planes_in p (take (k_bs k) (s_raw sp)) nz" "length p = k_bs k"
    and b: "bits_ok k i0 unmasked (s_bits sp)" and px: "\<not> k_pixels k"
    and f: "\<forall>j<k_elems k. planes_pixels (k_NB k) p ! j = fpx ! (j + i0)"
  shows "\<exists>sp' p'. block_mask e k unmasked nz sp = Inr sp' \<and> space_ok k sp' \<and> s_bits sp' = s_bits sp
    \<and> length p' = k_bs k \<and> planes_in p' (take (k_bs k) (s_raw sp')) nz
    \<and> sees k (k_no_mask k) i0 (k_elems k) (plane_pixels (k_NB k) (k_elems k) p') fpx"
proof -
  note sz = call_sizes[OF k]
  have NBe: "k_NB k = bslz4_elem_size (k_dt k)" using k by (simp add: call_ok_def)
  have pp: "planes_pixels (k_NB k) p = plane_pixels (k_NB k) (k_elems k) p" by (simp add: planes_pixels_def p(2) k_elems_def)
  have nar: "narrow_px (k_dt k) (plane_pixels (k_NB k) (k_elems k) q)" for q unfolding NBe by (rule narrow_plane_pixels)
  have nmm: "k_no_mask k \<or> k_emask k \<noteq> None" by (auto simp: k_no_mask_def)
  show ?thesis
  proof (cases "k_maskplanes k \<and> \<not> unmasked")
    case False
    have "mask_keeps (k_emask k) (j + i0)" if "k_no_mask k" "j < k_elems k" for j
    proof (cases "k_maskplanes k")
      case True
      then have "unmasked" using False by blast
      then have "\<forall>j<k_elems k. k_mask k ! (j + i0) \<noteq> 0" using b True unfolding bits_ok_def by blast
      then show ?thesis using that by (auto simp: mask_keeps_def k_emask_def)
    next
      case False
      then show ?thesis using that by (simp add: k_no_mask_def mask_keeps_def)
    qed
    then have "sees k (k_no_mask k) i0 (k_elems k) (plane_pixels (k_NB k) (k_elems k) p) fpx"
      using f pp nar nmm by (auto simp: sees_def)
    moreover have "block_mask e k unmasked nz sp = Inr sp" unfolding block_mask_def using False by (simp only: if_False)
    ultimately show ?thesis using sp p by blast
  next
    case True
    then have m: "k_maskplanes k" "k_elems k mod 64 = 0" "k_elems k \<le> 8192" "k_emask k = Some (k_mask k)"
      by (auto simp: k_maskplanes_def BSLZ4_MASKPLANE_MAX_ELEMS_def k_emask_def)
    let ?nb = "k_elems k div 8" and ?raw = "take (k_bs k) (s_raw sp)"
    have lr: "length ?raw = k_bs k" using sp by (simp add: space_ok_def)
    have nb: "0 < ?nb" "nz \<le> length ?raw" "?nb \<le> 8 * length (s_bits sp)"
      using sz(4,5) p sp m(3) by (auto simp: planes_in_def space_ok_def)
    from mask_planes_ok[OF nb, of "e_host e"] obtain raw' where r: "bslz4_mask_planes (e_host e) ?raw (s_bits sp) ?nb nz = Inr raw'"
      "masked_upto ?raw (s_bits sp) ?nb nz raw'" by blast
    have l: "length p = 8 * k_NB k * ?nb" using p(2) sz(3,4) by (metis dvd_mult_div_cancel mod_0_imp_dvd mult.assoc mult.commute)
    have NB8: "k_NB k \<le> 8" using sz(1) by auto
    from masked_planes[OF p(1) r(2) nb(1) sz(4) l NB8] obtain p' where p': "planes_in p' raw' nz" "length p' = length p"
      "plane_pixels (k_NB k) (k_elems k) p' = map (\<lambda>e. if keep_bit (s_bits sp) e then plane_pixels (k_NB k) (k_elems k) p ! e else 0) [0..<k_elems k]" by blast
    have kb: "keep_bit (s_bits sp) j \<longleftrightarrow> k_mask k ! (j + i0) \<noteq> 0" if "j < k_elems k" for j
      using b m(1) that by (simp add: bits_ok_def keep_bit_def)
    have lr': "length raw' = k_bs k" using r(2) lr by (simp add: masked_upto_def)
    have "sees k (k_no_mask k) i0 (k_elems k) (plane_pixels (k_NB k) (k_elems k) p') fpx"
      using p'(3) f pp nar[of p'] kb m(1,4) by (auto simp: sees_def mask_keeps_def k_no_mask_def)
    moreover have "block_mask e k unmasked nz sp = Inr (sp\<lparr>s_raw := raw' @ drop (k_bs k) (s_raw sp)\<rparr>)" using True r(1) by (simp add: block_mask_def)
    moreover have "space_ok k (sp\<lparr>s_raw := raw' @ drop (k_bs k) (s_raw sp)\<rparr>)" using sp lr' by (simp add: space_ok_def)
    ultimately show ?thesis using p'(1,2) p(2) lr' by (intro exI[of _ "sp\<lparr>s_raw := raw' @ drop (k_bs k) (s_raw sp)\<rparr>"] exI[of _ p']) simp
  qed
qed

section \<open>untranspose\<close>

lemma plane_pixels_prefix:
  assumes "take (ne * NB) raw = p" "ne mod 8 = 0"
  shows "plane_pixels NB ne raw = plane_pixels NB ne p"
  using plane_pixels_take[OF assms(2), of NB raw] assms(1) by simp

lemma untranspose_full_ok:
  assumes e: "env_ok e" and k: "call_ok e k" and raw: "planes_in p raw nz" "length raw = k_bs k" "length p = k_bs k"
    and room: "length block = k_bs k" "length scratch = k_bs k"
  shows "\<exists>ret block' raw' scratch'. bslz4_untranspose_full (e_slib e) (h_build (e_host e)) (k_pipe k) block raw scratch (k_elems k) nz = Inr (ret, block', raw', scratch')
    \<and> 0 \<le> ret \<and> length block' = k_bs k \<and> length raw' = k_bs k \<and> length scratch' = k_bs k
    \<and> load_pixels (k_NB k) block' 0 (k_elems k) = Inr (plane_pixels (k_NB k) (k_elems k) p)"
proof -
  note sz = call_sizes[OF k]
  let ?u = "k_step k BSLZ4_STEP_UNTRANSPOSE" and ?ne = "k_elems k" and ?NB = "k_NB k" and ?bld = "h_build (e_host e)"
  have sl: "shuffle_conforms (e_slib e)" using e by (simp add: env_ok_def)
  have NBe: "p_elem_size (k_pipe k) = ?NB" by (simp add: k_NB_def)
  have bk: "\<exists>ret block2. bslz4_untranspose_backend (e_slib e) ?bld ?u block1 raw1 ?ne ?NB = Inr (ret, block2) \<and> 0 \<le> ret
      \<and> length block2 = k_bs k \<and> load_pixels ?NB block2 0 ?ne = Inr (plane_pixels ?NB ?ne p)"
    if "length block1 = k_bs k" "length raw1 = k_bs k" "raw1 = p" for block1 raw1
    using backend_ok[OF sl sz(4,1), of raw1 block1 ?bld ?u] that sz(3) by auto
  have full: "raw1 = p" if "planes_in p raw1 (length p)" "length raw1 = length p" for raw1 using that by (simp add: planes_in_def)
  show ?thesis
  proof (cases "k_lowplanes k")
    case True
    then have lp: "k_dt k = 1" "bslz4_lowplanes_capable (e_host e) ?u" "?u \<le> BSLZ4_UNTRANSPOSE_LOWPLANES_C" using k by (simp_all add: call_ok_def k_lowplanes_def)
    have NB2: "?NB = 2" using lp(1) k by (simp add: call_ok_def bslz4_elem_size_def)
    have l2: "length p = 2 * ?ne" "2 * ?ne \<le> length block" "?ne \<le> length scratch" "2 * ?ne = k_bs k" using raw(3) room sz(3) NB2 by auto
    from lowplanes_block_ok[OF sl lp(2) raw(1) l2(1) sz(4) l2(2,3)] obtain block1 raw1 scratch1 ok where
      b: "bslz4_lowplanes_block (e_slib e) ?bld ?u block raw scratch ?ne nz = Inr (block1, raw1, scratch1, ok)"
      "length block1 = length block" "length raw1 = length raw" "length scratch1 = length scratch"
      "if ok then load_pixels 2 block1 0 ?ne = Inr (plane_pixels 2 ?ne p) else planes_in p raw1 (2 * ?ne)" by blast
    show ?thesis
    proof (cases ok)
      case True
      then show ?thesis using b raw(2) room lp(3) NB2 by (simp add: bslz4_untranspose_full_def Let_def NBe flip: k_step_def)
    next
      case False
      then have "raw1 = p" using b(3,5) l2 raw by (intro full) simp_all
      then obtain ret block2 where "bslz4_untranspose_backend (e_slib e) ?bld ?u block1 raw1 ?ne ?NB = Inr (ret, block2)" "0 \<le> ret"
        "length block2 = k_bs k" "load_pixels ?NB block2 0 ?ne = Inr (plane_pixels ?NB ?ne p)"
        using bk[of block1 raw1] b(2,3) room raw(2) by auto
      then show ?thesis using False b raw(2) room lp(3) by (simp add: bslz4_untranspose_full_def Let_def NBe flip: k_step_def)
    qed
  next
    case False
    then have u: "\<not> ?u \<le> BSLZ4_UNTRANSPOSE_LOWPLANES_C" by (simp add: k_lowplanes_def)
    obtain raw1 where r: "(if nz < ?ne * ?NB then rbind (memset0 raw nz (?ne * ?NB - nz)) (\<lambda>raw. Inr (block, raw, scratch, False)) else Inr (block, raw, scratch, False))
        = Inr (block, raw1, scratch, False)" "raw1 = p"
    proof (cases "nz < ?ne * ?NB")
      case True
      then show ?thesis using planes_in_zero_fill[OF raw(1)] raw(2,3) sz(3) full that by auto
    next
      case False
      then have "nz = length p" using raw(1,3) sz(3) by (simp add: planes_in_def)
      then show ?thesis using False full[of raw] raw that by simp
    qed
    obtain ret block2 where "bslz4_untranspose_backend (e_slib e) ?bld ?u block raw1 ?ne ?NB = Inr (ret, block2)" "0 \<le> ret"
        "length block2 = k_bs k" "load_pixels ?NB block2 0 ?ne = Inr (plane_pixels ?NB ?ne p)"
      using bk[OF room(1), of raw1] r(2) raw(3) by auto
    then show ?thesis using u r raw(3) room by (simp add: bslz4_untranspose_full_def Let_def NBe flip: k_step_def)
  qed
qed

lemma block_pixels_ok:
  assumes e: "env_ok e" and k: "call_ok e k" and sp: "space_ok k sp" and px: "\<not> k_pixels k"
    and p: "planes_in p (take (k_bs k) (s_raw sp)) nz" "length p = k_bs k"
  shows "\<exists>sp'. block_pixels e k i0 c nz sp = Inr (plane_pixels (k_NB k) (k_elems k) p, sp') \<and> space_ok k sp' \<and> s_bits sp' = s_bits sp"
proof -
  have l: "length (take (k_bs k) (s_raw sp)) = k_bs k" "length (s_block sp) = k_bs k" "length (drop (k_bs k) (s_raw sp)) = k_bs k"
    using sp by (simp_all add: space_ok_def)
  from untranspose_full_ok[OF e k p(1) l(1) p(2) l(2,3)] obtain ret block raw scratch where
    u: "bslz4_untranspose_full (e_slib e) (h_build (e_host e)) (k_pipe k) (s_block sp) (take (k_bs k) (s_raw sp)) (drop (k_bs k) (s_raw sp)) (k_elems k) nz
      = Inr (ret, block, raw, scratch)" "0 \<le> ret" "length block = k_bs k" "length raw = k_bs k" "length scratch = k_bs k"
      "load_pixels (k_NB k) block 0 (k_elems k) = Inr (plane_pixels (k_NB k) (k_elems k) p)" by blast
  let ?sp = "sp\<lparr>s_block := block, s_raw := raw @ scratch\<rparr>"
  have sp1: "space_ok k ?sp" using sp u(3-5) by (simp add: space_ok_def)
  have slot: "0 \<le> k_step k BSLZ4_STEP_UNTRANSPOSE" "k_step k BSLZ4_STEP_UNTRANSPOSE < 16"
    using step_slot[OF k, of BSLZ4_STEP_UNTRANSPOSE] by (simp_all add: step_values)
  obtain ct where b: "bump BSLZ4_STEP_UNTRANSPOSE (k_step k BSLZ4_STEP_UNTRANSPOSE) ?sp = Inr (?sp\<lparr>s_ctrs := ct\<rparr>)" "space_ok k (?sp\<lparr>s_ctrs := ct\<rparr>)"
    by (rule bump_space[OF sp1 _ _ slot, of BSLZ4_STEP_UNTRANSPOSE]) (simp_all add: step_values)
  have "block_pixels e k i0 c nz sp = Inr (plane_pixels (k_NB k) (k_elems k) p, ?sp\<lparr>s_ctrs := ct\<rparr>)"
    using px u(1,2,6) b(1) by (simp add: block_pixels_def)
  then show ?thesis using b(2) by simp
qed

end
