(* ===== verification/DriverList.thy ===== *)
theory DriverList
  imports DriverStep
begin

text \<open>
  A frame's list during the loops: the pixels read so far that pass the frame's current level, and how the top-pixels levels move.
\<close>

section \<open>Levels\<close>

text \<open>The cut of a level as the kernels get it; level -1 is the call's.\<close>

definition lev_cuts :: "call \<Rightarrow> int \<Rightarrow> int \<times> f64" where
  "lev_cuts k lev = (case k_top k of None \<Rightarrow> (k_cut_i k, k_cut_f k)
     | Some tp \<Rightarrow> if lev < 0 then (k_cut_i k, k_cut_f k)
         else (t_thr tp ! nat lev, if is_float (k_dt k) then f64_of_int (t_thr tp ! nat lev) else k_cut_f k))"

definition lev_pass :: "call \<Rightarrow> int \<Rightarrow> pix \<Rightarrow> bool" where
  "lev_pass k lev v \<longleftrightarrow> cut_passes (k_dt k) (fst (lev_cuts k lev)) (snd (lev_cuts k lev)) v"

definition over :: "bslz4_top \<Rightarrow> int \<Rightarrow> int \<Rightarrow> bool" where
  "over tp lev n \<longleftrightarrow> (if lev < 0 then n > t_howmany tp else n \<ge> t_howmany tp)"

text \<open>A level the loops can reach.\<close>

definition lev_ok :: "call \<Rightarrow> int \<Rightarrow> bool" where
  "lev_ok k lev \<longleftrightarrow> (case k_top k of None \<Rightarrow> True | Some tp \<Rightarrow> lev = -1 \<or> 0 \<le> lev \<and> lev < t_nthr tp)"

text \<open>
  The cut is one that \<open>read_cut\<close> lets through; with a top-pixels request the pixels are integers and the thresholds are not negative, not
  below the cut and non-decreasing, as \<open>pipeline.h\<close> asks.
\<close>

definition cuts_ok :: "call \<Rightarrow> bool" where
  "cuts_ok k \<longleftrightarrow> cut_ok (k_dt k) (k_cut_i k) (k_cut_f k)
     \<and> (case k_top k of None \<Rightarrow> True
        | Some tp \<Rightarrow> 0 \<le> t_howmany tp \<and> \<not> is_float (k_dt k) \<and> t_nthr tp \<le> int (length (t_thr tp))
            \<and> (\<forall>l. int l < t_nthr tp \<longrightarrow> cut_value (k_dt k) (k_cut_i k) \<le> t_thr tp ! l \<and> 0 \<le> t_thr tp ! l \<and> t_thr tp ! l < 2 ^ 63)
            \<and> (\<forall>l. int (Suc l) < t_nthr tp \<longrightarrow> t_thr tp ! l \<le> t_thr tp ! Suc l))"

lemma lev_cut_ok: "cuts_ok k \<Longrightarrow> lev_ok k lev \<Longrightarrow> cut_ok (k_dt k) (fst (lev_cuts k lev)) (snd (lev_cuts k lev))"
proof (cases "k_top k")
  case (Some tp)
  assume a: "cuts_ok k" "lev_ok k lev"
  show ?thesis
  proof (cases "lev < 0")
    case False
    then have "int (nat lev) < t_nthr tp" using a(2) Some by (simp add: lev_ok_def)
    moreover have "\<forall>l. int l < t_nthr tp \<longrightarrow> cut_value (k_dt k) (k_cut_i k) \<le> t_thr tp ! l \<and> 0 \<le> t_thr tp ! l \<and> t_thr tp ! l < 2 ^ 63" "\<not> is_float (k_dt k)"
      using a(1) Some by (simp_all add: cuts_ok_def)
    ultimately show ?thesis using False Some by (simp add: lev_cuts_def cut_ok_def)
  qed (use a(1) Some in \<open>simp add: lev_cuts_def cuts_ok_def\<close>)
qed (simp add: lev_cuts_def cuts_ok_def)

lemma lev_pass_nz:
  assumes "call_ok e k" "cuts_ok k" "lev_ok k lev" "lev_pass k lev v"
  shows "px_nz (k_dt k) v"
proof -
  have dt: "0 \<le> k_dt k" "k_dt k \<le> 9" using assms(1) unfolding call_ok_def by blast+
  show ?thesis using cut_passes_nz[OF dt lev_cut_ok[OF assms(2,3)]] assms(4) by (simp add: lev_pass_def)
qed

lemma px_nz_0: "\<not> px_nz dt 0"
  by (simp add: px_nz_def px_int_def)

lemma lev_pass_0: "call_ok e k \<Longrightarrow> cuts_ok k \<Longrightarrow> lev_ok k lev \<Longrightarrow> \<not> lev_pass k lev 0"
  using lev_pass_nz px_nz_0 by blast

text \<open>With thresholds, a level is a number.\<close>

definition lev_value :: "call \<Rightarrow> bslz4_top \<Rightarrow> int \<Rightarrow> int" where
  "lev_value k tp lev = (if lev < 0 then cut_value (k_dt k) (k_cut_i k) else t_thr tp ! nat lev)"

lemma thr_facts:
  assumes "cuts_ok k" "k_top k = Some tp" "0 \<le> lev" "lev < t_nthr tp"
  shows "0 \<le> t_thr tp ! nat lev" "t_thr tp ! nat lev < 2 ^ 63" "cut_value (k_dt k) (k_cut_i k) \<le> t_thr tp ! nat lev" "nat lev < length (t_thr tp)"
    "\<not> is_float (k_dt k)"
proof -
  have n: "int (nat lev) < t_nthr tp" using assms(3,4) by simp
  have a: "\<forall>l. int l < t_nthr tp \<longrightarrow> cut_value (k_dt k) (k_cut_i k) \<le> t_thr tp ! l \<and> 0 \<le> t_thr tp ! l \<and> t_thr tp ! l < 2 ^ 63"
    "\<not> is_float (k_dt k)" "t_nthr tp \<le> int (length (t_thr tp))" using assms(1,2) by (simp_all add: cuts_ok_def)
  show "0 \<le> t_thr tp ! nat lev" "t_thr tp ! nat lev < 2 ^ 63" "cut_value (k_dt k) (k_cut_i k) \<le> t_thr tp ! nat lev" "\<not> is_float (k_dt k)"
    using a(1,2) n by blast+
  show "nat lev < length (t_thr tp)" using a(3) n by linarith
qed

lemma lev_pass_value:
  assumes "call_ok e k" "cuts_ok k" "lev_ok k lev" "k_top k = Some tp"
  shows "lev_pass k lev v \<longleftrightarrow> px_int (k_dt k) v > lev_value k tp lev"
proof -
  have dt: "0 \<le> k_dt k" using assms(1) unfolding call_ok_def by blast
  have nf: "\<not> is_float (k_dt k)" using assms(2,4) by (simp add: cuts_ok_def)
  show ?thesis
  proof (cases "lev < 0")
    case True
    have "cut_ok (k_dt k) (k_cut_i k) (k_cut_f k)" using assms(2) by (simp add: cuts_ok_def)
    then have "k_dt k = 3 \<or> 0 \<le> k_cut_i k" using nf by (simp add: cut_ok_def)
    from cut_passes_int[OF dt nf this] show ?thesis using True assms(4) by (simp add: lev_pass_def lev_cuts_def lev_value_def)
  next
    case False
    then have l: "0 \<le> lev" "lev < t_nthr tp" using assms(3,4) by (simp_all add: lev_ok_def)
    note t = thr_facts[OF assms(2,4) l]
    have "cut_value (k_dt k) (t_thr tp ! nat lev) = t_thr tp ! nat lev" using t(1,2) by (simp add: cut_value_def take_bit_int_eq_self)
    moreover have "k_dt k = 3 \<or> 0 \<le> t_thr tp ! nat lev" using t(1) by simp
    ultimately show ?thesis using cut_passes_int[OF dt nf] False assms(4) by (simp add: lev_pass_def lev_cuts_def lev_value_def)
  qed
qed

text \<open>A higher level passes less.\<close>

lemma lev_value_mono:
  assumes "cuts_ok k" "k_top k = Some tp" "-1 \<le> l" "l \<le> lev" "lev < t_nthr tp"
  shows "lev_value k tp l \<le> lev_value k tp lev"
proof (cases "l < 0")
  case True
  then show ?thesis using thr_facts(3)[OF assms(1,2), of lev] assms(5) by (auto simp: lev_value_def)
next
  case False
  have "t_thr tp ! i \<le> t_thr tp ! (i + d)" if "int (i + d) < t_nthr tp" for i d
    using that
  proof (induction d)
    case (Suc d)
    have "\<forall>l. int (Suc l) < t_nthr tp \<longrightarrow> t_thr tp ! l \<le> t_thr tp ! Suc l" using assms(1,2) by (simp add: cuts_ok_def)
    then have "t_thr tp ! (i + d) \<le> t_thr tp ! (i + Suc d)" using Suc.prems by simp
    then show ?case using Suc by simp
  qed simp
  from this[of "nat l" "nat lev - nat l"] show ?thesis using False assms(4,5) by (simp add: lev_value_def)
qed

section \<open>The list of a prefix\<close>

text \<open>What the list holds at level \<open>lev\<close> after the first \<open>i\<close> pixels of the frame.\<close>

definition flist :: "call \<Rightarrow> pix list \<Rightarrow> int \<Rightarrow> nat \<Rightarrow> (pix \<times> 32 word) list" where
  "flist k fpx lev i = picked (lev_pass k lev) fpx (k_emask k) 0 [0..<i]"

definition list_in :: "frame_st \<Rightarrow> (pix \<times> 32 word) list \<Rightarrow> bool" where
  "list_in fs L \<longleftrightarrow> f_npx fs = int (length L) \<and> take (length L) (f_vals fs) = map fst L \<and> take (length L) (f_adr fs) = map snd L"

definition rows_ok :: "call \<Rightarrow> frame_st \<Rightarrow> bool" where
  "rows_ok k fs \<longleftrightarrow> length (f_vals fs) = k_NIJ k \<and> length (f_adr fs) = k_NIJ k"

text \<open>The levels below the frame's have been left for good reason.\<close>

definition left_ok :: "call \<Rightarrow> pix list \<Rightarrow> nat \<Rightarrow> int \<Rightarrow> bool" where
  "left_ok k fpx i lev \<longleftrightarrow> (case k_top k of None \<Rightarrow> True
     | Some tp \<Rightarrow> \<forall>l. -1 \<le> l \<and> l < lev \<longrightarrow> over tp l (int (length (flist k fpx l i))))"

definition frame_inv :: "call \<Rightarrow> pix list \<Rightarrow> nat \<Rightarrow> frame_st \<Rightarrow> bool" where
  "frame_inv k fpx i fs \<longleftrightarrow> rows_ok k fs \<and> lev_ok k (f_level fs) \<and> left_ok k fpx i (f_level fs) \<and> list_in fs (flist k fpx (f_level fs) i)"

lemma length_flist: "length (flist k fpx lev i) \<le> i"
  using length_picked[of "lev_pass k lev" fpx "k_emask k" 0 "[0..<i]"] by (simp add: flist_def)

lemma flist_add: "flist k fpx lev (i + n) = flist k fpx lev i @ picked (lev_pass k lev) fpx (k_emask k) 0 [i..<i + n]"
proof -
  have "[0..<i + n] = [0..<i] @ [i..<i + n]" by (rule upt_add_eq_append) simp
  then show ?thesis unfolding flist_def picked_append[symmetric] by simp
qed

lemma over_mono: "over tp l n \<Longrightarrow> n \<le> m \<Longrightarrow> over tp l m"
  by (auto simp: over_def split: if_splits)

lemma left_ok_mono: "left_ok k fpx i lev \<Longrightarrow> left_ok k fpx (i + n) lev"
proof (cases "k_top k")
  case (Some tp)
  assume a: "left_ok k fpx i lev"
  have "over tp l (int (length (flist k fpx l (i + n))))" if "-1 \<le> l \<and> l < lev" for l
  proof -
    have "over tp l (int (length (flist k fpx l i)))" using a Some that by (auto simp: left_ok_def)
    then show ?thesis by (rule over_mono) (simp add: flist_add)
  qed
  then show ?thesis using Some by (simp add: left_ok_def)
qed (simp add: left_ok_def)

text \<open>Filtering the list of a level by the next threshold gives the next level's.\<close>

lemma flist_next:
  assumes "call_ok e k" "cuts_ok k" "k_top k = Some tp" "lev_ok k lev" "lev_ok k (lev + 1)" "0 \<le> lev + 1"
  shows "filter (\<lambda>(v, a). px_int (k_dt k) v > t_thr tp ! nat (lev + 1)) (flist k fpx lev i) = flist k fpx (lev + 1) i"
proof -
  have l: "-1 \<le> lev" "lev + 1 < t_nthr tp" using assms(3,5,6) by (auto simp: lev_ok_def)
  have eq: "(px_int (k_dt k) v > t_thr tp ! nat (lev + 1)) \<longleftrightarrow> lev_pass k (lev + 1) v" for v
    using lev_pass_value[OF assms(1,2,5,3), of v] assms(6) by (simp add: lev_value_def)
  have imp: "lev_pass k (lev + 1) v \<Longrightarrow> lev_pass k lev v" for v
    using lev_pass_value[OF assms(1,2,5,3), of v] lev_pass_value[OF assms(1,2,4,3), of v] lev_value_mono[OF assms(2,3) l(1) _ l(2)] by simp
  show ?thesis unfolding flist_def eq by (rule filter_picked) (rule imp)
qed

lemma list_in_zip: "list_in fs L \<Longrightarrow> zip (take (length L) (f_vals fs)) (take (length L) (f_adr fs)) = L"
  by (simp add: list_in_def zip_map_fst_snd)

text \<open>Moving the frame to the next levels while its list is over the limit.\<close>

lemma top_raise_ok:
  assumes k: "call_ok e k" "cuts_ok k" "k_top k = Some tp"
  shows "lev_ok k lev \<Longrightarrow> left_ok k fpx i lev \<Longrightarrow> L = flist k fpx lev i \<Longrightarrow> n = int (length L) \<Longrightarrow> take (length L) vals = map fst L \<Longrightarrow> take (length L) adr = map snd L
    \<Longrightarrow> length L \<le> length vals \<Longrightarrow> length L \<le> length adr
    \<Longrightarrow> \<exists>lev' vals' adr'. top_raise tp (k_dt k) lev n vals adr = Inr (lev', int (length (flist k fpx lev' i)), vals', adr')
      \<and> length vals' = length vals \<and> length adr' = length adr \<and> lev_ok k lev' \<and> left_ok k fpx i lev'
      \<and> take (length (flist k fpx lev' i)) vals' = map fst (flist k fpx lev' i) \<and> take (length (flist k fpx lev' i)) adr' = map snd (flist k fpx lev' i)
      \<and> (over tp lev' (int (length (flist k fpx lev' i))) \<longrightarrow> lev' + 1 \<ge> t_nthr tp)"
proof (induction "nat (t_nthr tp - lev)" arbitrary: lev L n vals adr rule: less_induct)
  case less
  show ?case
  proof (cases "over tp lev n \<and> \<not> lev + 1 \<ge> t_nthr tp")
    case False
    then have "top_raise tp (k_dt k) lev n vals adr = Inr (lev, n, vals, adr)"
      unfolding top_raise.simps[of tp "k_dt k" lev] over_def by (simp split: if_splits)
    then show ?thesis using False less.prems by auto
  next
    case True
    have l1: "-1 \<le> lev" "lev + 1 < t_nthr tp" using less.prems(1) True k(3) by (auto simp: lev_ok_def)
    then have lo: "lev_ok k (lev + 1)" using k(3) by (simp add: lev_ok_def)
    have p0: "0 \<le> lev + 1" using l1(1) by simp
    note t = thr_facts[OF k(2,3) p0 l1(2)]
    have dt: "0 \<le> k_dt k" "k_dt k \<le> 9" using k(1) unfolding call_ok_def by blast+
    have nn: "nat n = length L" using less.prems(4) by simp
    from filter_gt_ok[of "length L" vals adr "k_dt k" "t_thr tp ! nat (lev + 1)"] less.prems(7,8) dt
    obtain s0 where "bslz4_filter_gt_dispatch (k_dt k) vals adr (length L) (t_thr tp ! nat (lev + 1)) = Inr (Some s0)" "npx s0 \<le> length L" by blast
    with filter_gt_lists[OF less.prems(7,8) dt t(1,2)] obtain s where
      s: "bslz4_filter_gt_dispatch (k_dt k) vals adr (length L) (t_thr tp ! nat (lev + 1)) = Inr (Some s)" "npx s \<le> length L"
        "listed s = filter (\<lambda>(v, a). px_int (k_dt k) v > t_thr tp ! nat (lev + 1)) (zip (take (length L) vals) (take (length L) adr))"
        "length (out_vals s) = length vals" "length (out_adr s) = length adr"
      using t(5) by auto
    have z: "zip (take (length L) vals) (take (length L) adr) = L" using less.prems(5,6) by (simp add: zip_map_fst_snd)
    let ?L = "flist k fpx (lev + 1) i"
    have ls: "listed s = ?L" unfolding s(3) z unfolding less.prems(3) by (rule flist_next[OF k less.prems(1) lo p0])
    have le: "npx s \<le> length (out_vals s)" "npx s \<le> length (out_adr s)" using s(2,4,5) less.prems(7,8) by simp_all
    have lL: "length ?L = npx s" unfolding ls[symmetric] listed_def using le by simp
    have tk: "take (length ?L) (out_vals s) = map fst ?L" "take (length ?L) (out_adr s) = map snd ?L"
      unfolding lL unfolding ls[symmetric] listed_def using le by simp_all
    have lf: "left_ok k fpx i (lev + 1)"
    proof -
      have "over tp l (int (length (flist k fpx l i)))" if "-1 \<le> l" "l < lev + 1" for l
      proof (cases "l = lev")
        case False
        then show ?thesis using that less.prems(2) k(3) by (auto simp: left_ok_def)
      qed (use True less.prems(3,4) in simp)
      then show ?thesis using k(3) by (simp add: left_ok_def)
    qed
    have m: "nat (t_nthr tp - (lev + 1)) < nat (t_nthr tp - lev)" using l1(2) by simp
    have lr: "length ?L \<le> length (out_vals s)" "length ?L \<le> length (out_adr s)" using le lL by simp_all
    have r: "top_raise tp (k_dt k) lev n vals adr = top_raise tp (k_dt k) (lev + 1) (int (length ?L)) (out_vals s) (out_adr s)"
      unfolding top_raise.simps[of tp "k_dt k" lev] using True t(4) s(1) nn lL by (simp add: over_def load_ok split: if_splits)
    from less.hyps[OF m lo lf refl refl tk lr] show ?thesis unfolding r s(4,5) .
  qed
qed

lemma frame_raise_ok:
  assumes k: "call_ok e k" "cuts_ok k" and f: "frame_inv k fpx i fs" and i: "i \<le> k_NIJ k"
  shows "\<exists>fs'. frame_raise k fs = Inr fs' \<and> frame_inv k fpx i fs' \<and> f_cursor fs' = f_cursor fs \<and> f_pow fs' = f_pow fs
    \<and> (case k_top k of None \<Rightarrow> True | Some tp \<Rightarrow> over tp (f_level fs') (f_npx fs') \<longrightarrow> f_level fs' + 1 \<ge> t_nthr tp)"
proof (cases "k_top k")
  case None
  then show ?thesis using f by (simp add: frame_raise_def)
next
  case (Some tp)
  have fi: "rows_ok k fs" "lev_ok k (f_level fs)" "left_ok k fpx i (f_level fs)" "list_in fs (flist k fpx (f_level fs) i)" using f by (simp_all add: frame_inv_def)
  have n: "f_npx fs = int (length (flist k fpx (f_level fs) i))"
    "take (length (flist k fpx (f_level fs) i)) (f_vals fs) = map fst (flist k fpx (f_level fs) i)"
    "take (length (flist k fpx (f_level fs) i)) (f_adr fs) = map snd (flist k fpx (f_level fs) i)"
    using fi(4) by (simp_all add: list_in_def)
  have le: "length (flist k fpx (f_level fs) i) \<le> length (f_vals fs)" "length (flist k fpx (f_level fs) i) \<le> length (f_adr fs)"
    using fi(1) i length_flist[of k fpx "f_level fs" i] by (simp_all add: rows_ok_def)
  from top_raise_ok[OF k Some fi(2,3) refl n le] obtain lev' vals' adr' where
    r: "top_raise tp (k_dt k) (f_level fs) (f_npx fs) (f_vals fs) (f_adr fs) = Inr (lev', int (length (flist k fpx lev' i)), vals', adr')"
    "length vals' = length (f_vals fs)" "length adr' = length (f_adr fs)" "lev_ok k lev'" "left_ok k fpx i lev'"
    "take (length (flist k fpx lev' i)) vals' = map fst (flist k fpx lev' i)" "take (length (flist k fpx lev' i)) adr' = map snd (flist k fpx lev' i)"
    "over tp lev' (int (length (flist k fpx lev' i))) \<longrightarrow> lev' + 1 \<ge> t_nthr tp" by blast
  let ?fs = "fs\<lparr>f_level := lev', f_npx := int (length (flist k fpx lev' i)), f_vals := vals', f_adr := adr'\<rparr>"
  have "frame_raise k fs = Inr ?fs" unfolding frame_raise_def Some using r(1) by simp
  moreover have "frame_inv k fpx i ?fs" using r fi(1) by (simp add: frame_inv_def rows_ok_def list_in_def)
  ultimately show ?thesis using r(8) Some by (intro exI[of _ ?fs]) simp
qed

lemma frame_cut_ok:
  assumes "cuts_ok k" "lev_ok k (f_level fs)"
  shows "frame_cut k fs = Inr (lev_cuts k (f_level fs))"
proof (cases "k_top k")
  case None
  then show ?thesis by (simp add: frame_cut_def lev_cuts_def)
next
  case (Some tp)
  show ?thesis
  proof (cases "f_level fs < 0")
    case False
    then have "nat (f_level fs) < length (t_thr tp)" using thr_facts(4)[OF assms(1) Some] assms(2) Some by (auto simp: lev_ok_def)
    then show ?thesis using False Some by (simp add: frame_cut_def lev_cuts_def top_thr_def load_ok)
  qed (simp add: frame_cut_def lev_cuts_def top_thr_def Some)
qed

end
