(* ===== verification/DriverBack.thy ===== *)
theory DriverBack
  imports DriverList
begin

text \<open>
  The back half of a block: the pixels of the block to the frame's list and powder. \<open>back_half\<close> is what the block loop relies on in the
  kernels, for one frame: at any place of the frame, whatever the mask step, route and level, the list grows by the pixels of the block that
  pass, and the powder is the one of the longer prefix. The kernels of a plain sparsify and of the dots keep it.
\<close>

section \<open>The list grows\<close>

text \<open>\<open>fs'\<close> is \<open>fs\<close> with \<open>K\<close> behind its list and the powder \<open>pow\<close>.\<close>

definition grows :: "call \<Rightarrow> frame_st \<Rightarrow> (pix \<times> 32 word) list \<Rightarrow> (pix \<times> 32 word) list \<Rightarrow> 64 word list \<Rightarrow> frame_st \<Rightarrow> bool" where
  "grows k fs L K pow fs' \<longleftrightarrow> rows_ok k fs' \<and> list_in fs' (L @ K) \<and> f_pow fs' = pow
     \<and> f_cursor fs' = f_cursor fs \<and> f_level fs' = f_level fs \<and> f_nabove fs' = f_nabove fs"

text \<open>A frame whose rows hold \<open>L\<close> and have room for \<open>n\<close> more entries.\<close>

definition open_list :: "call \<Rightarrow> frame_st \<Rightarrow> (pix \<times> 32 word) list \<Rightarrow> nat \<Rightarrow> bool" where
  "open_list k fs L n \<longleftrightarrow> rows_ok k fs \<and> list_in fs L \<and> length L + n \<le> k_NIJ k"

lemma grow_rows:
  assumes "open_list k fs L n" "take (length K) vals = map fst K" "take (length K) adr = map snd K"
    and "length vals = length (drop (length L) (f_vals fs))" "length adr = length (drop (length L) (f_adr fs))" "length K \<le> n"
  shows "grows k fs L K pow (fs\<lparr>f_npx := f_npx fs + int (length K), f_vals := take (length L) (f_vals fs) @ vals, f_adr := take (length L) (f_adr fs) @ adr, f_pow := pow\<rparr>)"
  using assms by (auto simp: grows_def open_list_def rows_ok_def list_in_def)

lemma append_list_ok:
  assumes "open_list k fs L n"
    and "\<And>vals adr. n \<le> length vals \<Longrightarrow> n \<le> length adr \<Longrightarrow> emits n \<lparr>npx = 0, out_vals = vals, out_adr = adr\<rparr> K (f vals adr)"
  shows "\<exists>fs'. append_list f fs = Inr fs' \<and> grows k fs L K (f_pow fs) fs'"
proof -
  have n0: "f_npx fs = int (length L)" "n \<le> length (drop (length L) (f_vals fs))" "n \<le> length (drop (length L) (f_adr fs))"
    using assms(1) by (auto simp: open_list_def list_in_def rows_ok_def)
  from assms(2)[OF n0(2,3)] obtain s where
    s: "f (drop (length L) (f_vals fs)) (drop (length L) (f_adr fs)) = Inr s" "holds n s K"
      "length (out_vals s) = length (drop (length L) (f_vals fs))" "length (out_adr s) = length (drop (length L) (f_adr fs))" by (auto simp: emits_def)
  have h: "npx s = length K" "take (length K) (out_vals s) = map fst K" "take (length K) (out_adr s) = map snd K" "length K \<le> n"
    using s(2) by (simp_all add: holds_def)
  have "append_list f fs = Inr (fs\<lparr>f_npx := f_npx fs + int (length K), f_vals := take (length L) (f_vals fs) @ out_vals s,
      f_adr := take (length L) (f_adr fs) @ out_adr s, f_pow := f_pow fs\<rparr>)"
    using s(1) n0(1) h(1) by (simp add: append_list_def Let_def)
  then show ?thesis using grow_rows[OF assms(1) h(2,3) s(3,4) h(4)] by blast
qed

text \<open>A dot kernel that ends with a list and a powder.\<close>

lemma dot_block_ok:
  assumes "open_list k fs L n" "length K \<le> n" "space_ok k sp" "k_is_dot k"
    and "\<And>st. d_pow st = f_pow fs \<Longrightarrow> room n st \<Longrightarrow> d_tval st = s_tval sp \<Longrightarrow> d_tidx st = s_tidx sp
      \<Longrightarrow> dot_gives st (bslz4_sparse_dot_dispatch (h_build (e_host e)) (e_fc e) (k_mat k) w st) pow K"
  shows "\<exists>fs' sp'. dot_block e k w fs sp = Inr (fs', sp') \<and> grows k fs L K pow fs' \<and> space_ok k sp' \<and> s_bits sp' = s_bits sp"
proof -
  let ?st = "\<lparr>d_pow = f_pow fs, d_vals = drop (length L) (f_vals fs), d_adr = drop (length L) (f_adr fs), d_tval = s_tval sp, d_tidx = s_tidx sp\<rparr>"
  have n0: "f_npx fs = int (length L)" "room n ?st"
    using assms(1) by (auto simp: open_list_def list_in_def rows_ok_def room_def)
  from assms(5)[of ?st, OF _ n0(2)] obtain st' where
    d: "bslz4_sparse_dot_dispatch (h_build (e_host e)) (e_fc e) (k_mat k) w ?st = Inr (int (length K), st')" "d_pow st' = pow"
      "take (length K) (d_vals st') = map fst K" "take (length K) (d_adr st') = map snd K"
      "length (d_vals st') = length (drop (length L) (f_vals fs))" "length (d_adr st') = length (drop (length L) (f_adr fs))"
      "length (d_tval st') = length (s_tval sp)" "length (d_tidx st') = length (s_tidx sp)"
    by (auto simp: dot_gives_def)
  have "dot_block e k w fs sp = Inr (fs\<lparr>f_npx := f_npx fs + int (length K), f_vals := take (length L) (f_vals fs) @ d_vals st',
      f_adr := take (length L) (f_adr fs) @ d_adr st', f_pow := pow\<rparr>, sp\<lparr>s_tval := d_tval st', s_tidx := d_tidx st'\<rparr>)"
    using n0(1) d(1,2) by (simp add: dot_block_def Let_def)
  moreover have "space_ok k (sp\<lparr>s_tval := d_tval st', s_tidx := d_tidx st'\<rparr>)" using assms(3) d(7,8) by (simp add: space_ok_def)
  ultimately show ?thesis using grow_rows[OF assms(1) d(3-6) assms(2), of pow] by (intro exI conjI) (assumption, assumption, assumption, simp)
qed

section \<open>What the kernels see\<close>

definition work_bmask :: "call \<Rightarrow> bool \<Rightarrow> byte list option" where
  "work_bmask k no_mask = (if no_mask then None else Some (k_mask k))"

lemma work_mask_call: "work_mask (call_work k nm cuts route n i0 px) = work_bmask k nm"
  by (simp add: work_mask_def call_work_def work_bmask_def)

lemma picked_sees:
  assumes "sees k nm i0 ne px fpx" "\<not> P 0"
  shows "picked P px (work_bmask k nm) i0 [0..<ne] = picked P fpx (k_emask k) 0 [i0..<i0 + ne]"
proof -
  have v: "px ! j = (if nm \<and> \<not> mask_keeps (k_emask k) (j + i0) then 0 else fpx ! (j + i0))" if "j < ne" for j
    using assms(1) that by (simp add: sees_def)
  have em: "nm \<or> k_emask k = Some (k_mask k)" using assms(1) by (auto simp: sees_def k_emask_def)
  have p: "picks P px (work_bmask k nm) i0 j \<longleftrightarrow> picks P fpx (k_emask k) 0 (j + i0)" if "j < ne" for j
    using v[OF that] em assms(2) by (auto simp: picks_def work_bmask_def mask_keeps_def)
  have e: "px ! j = fpx ! (j + i0)" if "j < ne" "picks P px (work_bmask k nm) i0 j" for j
    using v[OF that(1)] that assms(2) p[OF that(1)] by (auto simp: picks_def)
  have u: "[i0..<i0 + ne] = map (\<lambda>j. j + i0) [0..<ne]" by (simp add: map_add_upt add.commute)
  have f: "filter (picks P fpx (k_emask k) 0) [i0..<i0 + ne] = map (\<lambda>j. j + i0) (filter (picks P px (work_bmask k nm) i0) [0..<ne])"
    unfolding u filter_map by (intro arg_cong[where f = "map _"] filter_cong refl) (use p in auto)
  show ?thesis unfolding picked_def f map_map by (intro map_cong refl) (use e in auto)
qed

lemma sees_readable:
  assumes "sees k nm i0 ne px fpx" "i0 + ne \<le> k_NIJ k" "k_NIJ k \<le> length (k_mask k)"
  shows "readable px (work_bmask k nm) i0 ne"
  using assms by (auto simp: readable_def sees_def work_bmask_def)

lemma sees_block_ready:
  assumes "sees k nm i0 ne px fpx" "i0 + ne \<le> k_NIJ k" "call_ok e k"
  shows "block_ready (call_work k nm cuts route ne i0 px)"
proof -
  have "k_NIJ k \<le> length (k_mask k)" using assms(3) unfolding call_ok_def by blast
  then show ?thesis using sees_readable[OF assms(1,2)] assms(1) unfolding block_ready_def work_mask_call by (simp add: call_work_def sees_def)
qed

text \<open>A plain sparsify's kernel.\<close>

lemma dispatch_emits:
  assumes k: "call_ok e k" "cuts_ok k" "lev_ok k lev" and s: "sees k nm i0 ne px fpx" "i0 + ne \<le> k_NIJ k"
    and l: "ne \<le> length vals" "ne \<le> length adr"
  shows "emits ne \<lparr>npx = 0, out_vals = vals, out_adr = adr\<rparr> (picked (lev_pass k lev) fpx (k_emask k) 0 [i0..<i0 + ne])
    (bslz4_sparse_dispatch bld (call_work k nm (lev_cuts k lev) route ne i0 px) vals adr)"
proof -
  let ?w = "call_work k nm (lev_cuts k lev) route ne i0 px"
  have dt: "0 \<le> k_dt k" "k_dt k \<le> 9" using k(1) unfolding call_ok_def by blast+
  have w: "w_n ?w = ne" "w_i0 ?w = i0" "w_dtype ?w = k_dt k" "w_block ?w = px" "w_threshold ?w = fst (lev_cuts k lev)" "w_cutf ?w = snd (lev_cuts k lev)"
    by (simp_all add: call_work_def)
  have r: "readable (w_block ?w) (work_mask ?w) (w_i0 ?w) (w_n ?w)" "narrow_px (w_dtype ?w) (w_block ?w)"
    using sees_block_ready[OF s k(1)] by (simp_all add: block_ready_def)
  from collect_cut_emits[OF r(1), of vals adr bld] r(2) l w
  have "emits ne \<lparr>npx = 0, out_vals = vals, out_adr = adr\<rparr> (picked (lev_pass k lev) px (work_bmask k nm) i0 [0..<ne]) (collect_cut bld ?w vals adr)"
    by (simp add: lev_pass_def[abs_def] work_mask_call)
  moreover have "bslz4_sparse_dispatch bld ?w vals adr = collect_cut bld ?w vals adr"
    using dt w(3) by (simp add: bslz4_sparse_dispatch_def bslz4_sparse_block_def)
  ultimately show ?thesis using picked_sees[OF s(1), of "lev_pass k lev"] lev_pass_0[OF k] by simp
qed

section \<open>The interface\<close>

text \<open>
  \<open>runs\<close> says which calls, on which frame and powder, the kernels serve, \<open>POW e k fpx p0 i\<close> is the frame's powder after its first \<open>i\<close> pixels when it was \<open>p0\<close>
  before them.
\<close>

locale back_half =
  fixes runs :: "env \<Rightarrow> call \<Rightarrow> pix list \<Rightarrow> 64 word list \<Rightarrow> bool" and POW :: "env \<Rightarrow> call \<Rightarrow> pix list \<Rightarrow> 64 word list \<Rightarrow> nat \<Rightarrow> 64 word list"
  assumes collects: "runs e k fpx p0 \<Longrightarrow> i0 + ne \<le> k_NIJ k \<Longrightarrow> ne \<le> k_elems k \<Longrightarrow> sees k nm i0 ne px fpx \<Longrightarrow> lev_ok k lev \<Longrightarrow> open_list k fs L ne
      \<Longrightarrow> f_pow fs = POW e k fpx p0 i0 \<Longrightarrow> space_ok k sp \<Longrightarrow>
      \<exists>fs' sp'. collect_block e k sparse (call_work k nm (lev_cuts k lev) (k_is_dot k \<and> sparse) ne i0 px) fs sp = Inr (fs', sp')
        \<and> grows k fs L (picked (lev_pass k lev) fpx (k_emask k) 0 [i0..<i0 + ne]) (POW e k fpx p0 (i0 + ne)) fs' \<and> space_ok k sp' \<and> s_bits sp' = s_bits sp"
    and fuses: "runs e k fpx p0 \<Longrightarrow> k_is_dot k \<Longrightarrow> i0 + ne \<le> k_NIJ k \<Longrightarrow> ne \<le> k_elems k \<Longrightarrow> lev_ok k lev \<Longrightarrow> open_list k fs L ne
      \<Longrightarrow> f_pow fs = POW e k fpx p0 i0 \<Longrightarrow> space_ok k sp \<Longrightarrow> K = picked (px_nz (k_dt k)) fpx (k_emask k) 0 [i0..<i0 + ne]
      \<Longrightarrow> take (length K) (s_tval sp) = map fst K \<Longrightarrow> take (length K) (s_tidx sp) = map snd K \<Longrightarrow>
      \<exists>fs' sp'. dot_block e k ((call_work k nm (lev_cuts k lev) True ne i0 [])\<lparr>w_precompacted := True, w_pre_nz := length K\<rparr>) fs sp = Inr (fs', sp')
        \<and> grows k fs L (picked (lev_pass k lev) fpx (k_emask k) 0 [i0..<i0 + ne]) (POW e k fpx p0 (i0 + ne)) fs' \<and> space_ok k sp' \<and> s_bits sp' = s_bits sp"
    and plain: "runs e k fpx p0 \<Longrightarrow> \<not> k_is_dot k \<Longrightarrow> POW e k fpx p0 i = p0"
    and served: "runs e k fpx p0 \<Longrightarrow> call_ok e k \<and> cuts_ok k"

section \<open>A plain sparsify\<close>

definition sparsifies :: "env \<Rightarrow> call \<Rightarrow> pix list \<Rightarrow> 64 word list \<Rightarrow> bool" where
  "sparsifies e k fpx p0 \<longleftrightarrow> call_ok e k \<and> cuts_ok k \<and> \<not> k_is_dot k"

interpretation plain_run: back_half sparsifies "\<lambda>e k fpx p0 i. p0"
proof
  fix e k fpx i0 ne nm px lev fs L p0 sp sparse
  assume r: "sparsifies e k fpx p0" and a: "i0 + ne \<le> k_NIJ k" "sees k nm i0 ne px fpx" "lev_ok k lev" "open_list k fs L ne" "f_pow fs = p0" "space_ok k sp"
  then have k: "call_ok e k" "cuts_ok k" "\<not> k_is_dot k" by (simp_all add: sparsifies_def)
  let ?w = "call_work k nm (lev_cuts k lev) (k_is_dot k \<and> sparse) ne i0 px"
  have slot: "0 \<le> k_step k BSLZ4_STEP_COLLECT" "k_step k BSLZ4_STEP_COLLECT < 16" using step_slot[OF k(1), of BSLZ4_STEP_COLLECT] by (simp_all add: step_values)
  obtain c where b: "bump BSLZ4_STEP_COLLECT (k_step k BSLZ4_STEP_COLLECT) sp = Inr (sp\<lparr>s_ctrs := c\<rparr>)" "space_ok k (sp\<lparr>s_ctrs := c\<rparr>)"
    by (rule bump_space[OF a(6) _ _ slot, of BSLZ4_STEP_COLLECT]) (simp_all add: step_values)
  from append_list_ok[OF a(4), of _ "bslz4_sparse_dispatch (h_build (e_host e)) ?w", OF dispatch_emits[OF k(1,2) a(3,2,1)]] obtain fs' where
    "append_list (bslz4_sparse_dispatch (h_build (e_host e)) ?w) fs = Inr fs'"
    "grows k fs L (picked (lev_pass k lev) fpx (k_emask k) 0 [i0..<i0 + ne]) (f_pow fs) fs'" by blast
  then show "\<exists>fs' sp'. collect_block e k sparse ?w fs sp = Inr (fs', sp')
      \<and> grows k fs L (picked (lev_pass k lev) fpx (k_emask k) 0 [i0..<i0 + ne]) p0 fs' \<and> space_ok k sp' \<and> s_bits sp' = s_bits sp"
    using b k(3) a(5) by (simp add: collect_block_def)
qed (simp_all add: sparsifies_def)

end
