(* ===== verification/DriverFrame.thy ===== *)
theory DriverFrame
  imports DriverList
begin

text \<open>
  What a chunk holds for the loops of a call: the frame's pixels, where its blocks lie, and which pixels of the frame are a block's and the
  tail's.
\<close>

section \<open>The frame of a chunk\<close>

definition call_pixels :: "env \<Rightarrow> call \<Rightarrow> chunk \<Rightarrow> pix list option" where
  "call_pixels e k c =
     (if k_pixels k then if ck_len c = int (k_total k) then Some (bytes_pixels (k_NB k) (take (k_total k) (ck_mem c))) else None
      else frame_pixels (e_lib e) (k_step k BSLZ4_STEP_DECODE) (k_NB k) (k_total k) (k_bs k) c)"

text \<open>The cursor before block \<open>b\<close>.\<close>

definition at_block :: "env \<Rightarrow> call \<Rightarrow> chunk \<Rightarrow> nat \<Rightarrow> nat \<Rightarrow> bool" where
  "at_block e k c b pos \<longleftrightarrow>
     (if k_pixels k then pos = 0
      else \<exists>ps. chunk_planes (e_lib e) (k_step k BSLZ4_STEP_DECODE) c (replicate b (k_bs k)) 12 = Some (ps, pos))"

text \<open>The block behind \<open>pos\<close> holds the frame's pixels from \<open>i0\<close> on; \<open>pos'\<close> is the next one's place.\<close>

definition block_at :: "env \<Rightarrow> call \<Rightarrow> chunk \<Rightarrow> pix list \<Rightarrow> nat \<Rightarrow> nat \<Rightarrow> nat \<Rightarrow> bool" where
  "block_at e k c fpx i0 pos pos' \<longleftrightarrow>
     (if k_pixels k then pos' = pos \<and> load_pixels (k_NB k) (ck_mem c) (i0 * k_NB k) (k_elems k) = Inr (take (k_elems k) (drop i0 fpx))
      else \<exists>n p. next_block c pos = Inr n \<and> codec_planes (e_lib e) (k_step k BSLZ4_STEP_DECODE) (block_bytes c pos n) (k_bs k) = Some p
        \<and> length p = k_bs k \<and> (\<forall>j<k_elems k. planes_pixels (k_NB k) p ! j = fpx ! (j + i0)) \<and> pos' = pos + n + 4)"

lemma length_planes_pixels [simp]: "length (planes_pixels NB p) = length p div NB"
  by (simp add: planes_pixels_def)

lemma frame_data:
  assumes e: "zstd_fills lib" and c: "readable_chunk c" "0 < bs" and f: "frame_pixels lib dec NB tot bs c = Some fpx"
  obtains fps pe tps en r where "chunk_planes lib dec c (replicate (full_blocks tot bs) bs) 12 = Some (fps, pe)" "map length fps = replicate (full_blocks tot bs) bs"
    "chunk_planes lib dec c (if tail_bytes NB tot bs > 0 then [tail_bytes NB tot bs] else []) pe = Some (tps, en)"
    "map length tps = (if tail_bytes NB tot bs > 0 then [tail_bytes NB tot bs] else [])"
    "raw_tail c en (raw_bytes NB tot bs) = Some r" "length r = raw_bytes NB tot bs"
    "fpx = concat (map (planes_pixels NB) fps) @ concat (map (planes_pixels NB) tps) @ bytes_pixels NB r"
proof -
  obtain ps en r where q: "chunk_planes lib dec c (block_sizes NB tot bs) 12 = Some (ps, en)" "raw_tail c en (raw_bytes NB tot bs) = Some r"
    "fpx = concat (map (planes_pixels NB) ps) @ bytes_pixels NB r"
    using f by (auto simp: frame_pixels_def chunk_data_def split: option.splits)
  from q(1) obtain fps pe tps where s: "chunk_planes lib dec c (replicate (full_blocks tot bs) bs) 12 = Some (fps, pe)"
    "chunk_planes lib dec c (if tail_bytes NB tot bs > 0 then [tail_bytes NB tot bs] else []) pe = Some (tps, en)" "ps = fps @ tps"
    unfolding block_sizes_def chunk_planes_append by (auto split: option.splits)
  show ?thesis
    by (rule that[OF s(1) chunk_planes_lengths[OF e s(1)] s(2) chunk_planes_lengths[OF e s(2)] q(2) raw_tail_length[OF c(1) q(2)]]) (simp add: q(3) s(3))
qed

lemma full_le: "full_blocks tot bs * bs \<le> tot"
  by (simp add: full_blocks_def)

lemma narrow_px_append [simp]: "narrow_px dt (xs @ ys) \<longleftrightarrow> narrow_px dt xs \<and> narrow_px dt ys"
  by (auto simp: narrow_px_def)

lemma narrow_bytes_pixels: "narrow_px dt (bytes_pixels (bslz4_elem_size dt) bs)"
  by (auto simp: narrow_px_def bytes_pixels_def)

lemma narrow_planes: "narrow_px dt (concat (map (planes_pixels (bslz4_elem_size dt)) ps))"
  using narrow_plane_pixels by (fastforce simp: narrow_px_def planes_pixels_def)

lemma call_ok_nb: "call_ok e k \<Longrightarrow> k_NB k = bslz4_elem_size (k_dt k) \<and> k_total k = k_NIJ k * k_NB k \<and> 0 < k_bs k"
  unfolding call_ok_def by blast

lemma call_pixels_narrow:
  assumes "env_ok e" "call_ok e k" "readable_chunk c" "call_pixels e k c = Some fpx"
  shows "narrow_px (k_dt k) fpx"
proof (cases "k_pixels k")
  case True
  then show ?thesis using assms(4) call_ok_nb[OF assms(2)] narrow_bytes_pixels[of "k_dt k"] by (auto simp: call_pixels_def split: if_splits)
next
  case False
  have z: "zstd_fills (e_lib e)" using assms(1) by (simp add: env_ok_def)
  have f: "frame_pixels (e_lib e) (k_step k BSLZ4_STEP_DECODE) (k_NB k) (k_total k) (k_bs k) c = Some fpx" using False assms(4) by (simp add: call_pixels_def)
  from call_ok_nb[OF assms(2)] have nb: "k_NB k = bslz4_elem_size (k_dt k)" "0 < k_bs k" by simp_all
  from frame_data[OF z assms(3) nb(2) f] show ?thesis
    unfolding nb(1) by (metis narrow_px_append narrow_planes narrow_bytes_pixels)
qed

text \<open>The pixels that the raw remainder and the partial block add make the frame whole.\<close>

lemma tail_elems:
  assumes "call_ok e k"
  shows "k_i0 k = full_blocks (k_total k) (k_bs k) * k_elems k" "k_i0 k * k_NB k = full_blocks (k_total k) (k_bs k) * k_bs k"
    "k_remaining k = tail_bytes (k_NB k) (k_total k) (k_bs k) + raw_bytes (k_NB k) (k_total k) (k_bs k)"
    "k_raw k + k_tail k = k_remaining k" "k_i0 k + k_remaining k div k_NB k = k_NIJ k" "k_NB k dvd k_remaining k"
    "k_NB k dvd tail_bytes (k_NB k) (k_total k) (k_bs k)" "8 * k_NB k dvd tail_bytes (k_NB k) (k_total k) (k_bs k)"
    "k_remaining k < k_bs k" "\<not> k_pixels k \<Longrightarrow> k_tail k = tail_bytes (k_NB k) (k_total k) (k_bs k) \<and> k_raw k = raw_bytes (k_NB k) (k_total k) (k_bs k)"
    "k_pixels k \<Longrightarrow> k_tail k = 0 \<and> k_raw k = k_remaining k"
proof -
  note sz = call_sizes[OF assms]
  have nb: "k_total k = k_NIJ k * k_NB k" "0 < k_bs k" using call_ok_nb[OF assms] by simp_all
  show i0: "k_i0 k = full_blocks (k_total k) (k_bs k) * k_elems k" by (simp add: k_i0_def)
  then show i1: "k_i0 k * k_NB k = full_blocks (k_total k) (k_bs k) * k_bs k" using sz(3) by (simp add: mult.assoc)
  have r: "k_remaining k = k_total k - k_i0 k * k_NB k" by (simp add: k_remaining_def i1)
  note fr = frame_sizes[OF nb(2), of "k_total k" "k_NB k"]
  show "k_remaining k = tail_bytes (k_NB k) (k_total k) (k_bs k) + raw_bytes (k_NB k) (k_total k) (k_bs k)" using fr(1) by (simp add: k_remaining_def)
  have tl: "tail_bytes (k_NB k) (k_total k) (k_bs k) = 8 * k_NB k * (k_remaining k div (8 * k_NB k))" by (simp add: tail_bytes_def k_remaining_def)
  have le: "k_tail k \<le> k_remaining k" by (simp add: k_tail_def)
  then show "k_raw k + k_tail k = k_remaining k" by (simp add: k_raw_def)
  have i2: "k_remaining k = (k_NIJ k - k_i0 k) * k_NB k" using r nb(1) by (simp add: diff_mult_distrib)
  then show "k_NB k dvd k_remaining k" by simp
  have "k_i0 k * k_NB k \<le> k_NIJ k * k_NB k" unfolding i1 nb(1)[symmetric] by (rule full_le)
  then have "k_i0 k \<le> k_NIJ k" using sz(2) by simp
  then show "k_i0 k + k_remaining k div k_NB k = k_NIJ k" using i2 sz(2) by simp
  show d8: "8 * k_NB k dvd tail_bytes (k_NB k) (k_total k) (k_bs k)" by (simp add: tl)
  then show "k_NB k dvd tail_bytes (k_NB k) (k_total k) (k_bs k)" by (rule dvd_mult_right)
  show "k_remaining k < k_bs k" using nb(2) by (simp add: k_remaining_def full_blocks_def minus_div_mult_eq_mod)
  show "k_tail k = tail_bytes (k_NB k) (k_total k) (k_bs k) \<and> k_raw k = raw_bytes (k_NB k) (k_total k) (k_bs k)" if "\<not> k_pixels k"
    using that fr(1) tl by (simp add: k_tail_def k_raw_def raw_bytes_def k_remaining_def)
  show "k_pixels k \<Longrightarrow> k_tail k = 0 \<and> k_raw k = k_remaining k" by (simp add: k_tail_def k_raw_def)
qed


lemma length_concat_planes:
  assumes "map length ps = replicate m sz"
  shows "length (concat (map (planes_pixels NB) ps)) = m * (sz div NB)"
proof -
  have m: "length ps = m" using arg_cong[OF assms, of length] by simp
  have l: "length p = sz" if "p \<in> set ps" for p using assms that by (metis (no_types, lifting) in_set_replicate image_eqI list.set_map)
  have "map (length \<circ> planes_pixels NB) ps = replicate m (sz div NB)" using l m by (intro nth_equalityI) auto
  then show ?thesis by (simp add: length_concat sum_list_replicate)
qed

lemma call_pixels_length:
  assumes "env_ok e" "call_ok e k" "readable_chunk c" "call_pixels e k c = Some fpx"
  shows "length fpx = k_NIJ k"
proof (cases "k_pixels k")
  case True
  then have "fpx = bytes_pixels (k_NB k) (take (k_total k) (ck_mem c))" "k_total k \<le> length (ck_mem c)"
    using assms(3,4) by (auto simp: call_pixels_def readable_chunk_def split: if_splits)
  then show ?thesis using call_ok_nb[OF assms(2)] call_sizes(2)[OF assms(2)] by simp
next
  case False
  have z: "zstd_fills (e_lib e)" using assms(1) by (simp add: env_ok_def)
  have f: "frame_pixels (e_lib e) (k_step k BSLZ4_STEP_DECODE) (k_NB k) (k_total k) (k_bs k) c = Some fpx" using False assms(4) by (simp add: call_pixels_def)
  from call_ok_nb[OF assms(2)] have nb: "0 < k_bs k" by simp
  note te = tail_elems[OF assms(2)]
  from frame_data[OF z assms(3) nb f] obtain fps tps r where q: "map length fps = replicate (full_blocks (k_total k) (k_bs k)) (k_bs k)"
    "map length tps = (if tail_bytes (k_NB k) (k_total k) (k_bs k) > 0 then [tail_bytes (k_NB k) (k_total k) (k_bs k)] else [])"
    "length r = raw_bytes (k_NB k) (k_total k) (k_bs k)"
    "fpx = concat (map (planes_pixels (k_NB k)) fps) @ concat (map (planes_pixels (k_NB k)) tps) @ bytes_pixels (k_NB k) r" by metis
  have t: "length (concat (map (planes_pixels (k_NB k)) tps)) = tail_bytes (k_NB k) (k_total k) (k_bs k) div k_NB k"
  proof (cases "tail_bytes (k_NB k) (k_total k) (k_bs k) > 0")
    case True
    then show ?thesis using length_concat_planes[of tps 1 "tail_bytes (k_NB k) (k_total k) (k_bs k)" "k_NB k"] q(2) by simp
  qed (use q(2) in simp)
  have "length (concat (map (planes_pixels (k_NB k)) fps)) = k_i0 k" using length_concat_planes[OF q(1), of "k_NB k"] te(1) by (simp add: k_elems_def)
  then show ?thesis unfolding q(4) using t q(3) te(3,5) div_plus_div_distrib_dvd_left[OF te(7), of "raw_bytes (k_NB k) (k_total k) (k_bs k)"] by simp
qed

lemma at_block_0: "at_block e k c 0 (if k_pixels k then 0 else 12)"
  by (simp add: at_block_def)

lemma block_at_ok:
  assumes e: "env_ok e" and k: "call_ok e k" and c: "readable_chunk c" and f: "call_pixels e k c = Some fpx"
    and b: "b < full_blocks (k_total k) (k_bs k)" "at_block e k c b pos"
  shows "\<exists>pos'. block_at e k c fpx (b * k_elems k) pos pos' \<and> at_block e k c (Suc b) pos'"
proof (cases "k_pixels k")
  case True
  note sz = call_sizes[OF k]
  let ?m = "take (k_total k) (ck_mem c)"
  have fp: "fpx = bytes_pixels (k_NB k) ?m" "k_total k \<le> length (ck_mem c)" using True f c by (auto simp: call_pixels_def readable_chunk_def split: if_splits)
  have "b * k_bs k + k_bs k \<le> full_blocks (k_total k) (k_bs k) * k_bs k" using b(1) mult_le_mono1[of "Suc b" "full_blocks (k_total k) (k_bs k)" "k_bs k"] by simp
  then have le: "b * k_bs k + k_bs k \<le> k_total k" using full_le le_trans by blast
  have bp: "b * k_elems k * k_NB k = b * k_bs k" "k_NB k * k_elems k = k_bs k" using sz(3) by (simp_all add: mult.assoc mult.commute)
  have "load_pixels (k_NB k) (ck_mem c) (b * k_elems k * k_NB k) (k_elems k) = Inr (bytes_pixels (k_NB k) (take (k_bs k) (drop (b * k_bs k) (ck_mem c))))"
    unfolding bp(1) using load_pixels_eq[of "b * k_bs k" "k_NB k" "k_elems k" "ck_mem c"] le fp(2) sz(2) bp(2) by simp
  moreover have "bytes_pixels (k_NB k) (take (k_bs k) (drop (b * k_bs k) (ck_mem c))) = take (k_elems k) (drop (b * k_elems k) fpx)"
  proof -
    define A B C where "A = take (b * k_bs k) ?m" and "B = take (k_bs k) (drop (b * k_bs k) ?m)" and "C = drop (b * k_bs k + k_bs k) ?m"
    have m: "?m = A @ B @ C" unfolding A_def B_def C_def by (metis append_take_drop_id drop_drop add.commute)
    have l: "length A = b * k_bs k" "length B = k_bs k" unfolding A_def B_def using le fp(2) by simp_all
    have d: "k_NB k dvd length A" "k_NB k dvd length B" "length A div k_NB k = b * k_elems k" "length B div k_NB k = k_elems k"
      using l sz(2,3) bp(1) by (metis dvd_triv_right, metis dvd_triv_right, metis nonzero_mult_div_cancel_right gr_implies_not0, simp add: k_elems_def)
    have "fpx = bytes_pixels (k_NB k) A @ bytes_pixels (k_NB k) B @ bytes_pixels (k_NB k) C" unfolding fp(1) m using bytes_pixels_append[OF d(1) sz(2)] bytes_pixels_append[OF d(2) sz(2)] by simp
    moreover have "B = take (k_bs k) (drop (b * k_bs k) (ck_mem c))" unfolding B_def using le by (simp add: drop_take min_def)
    ultimately show ?thesis using d(3,4) by simp
  qed
  ultimately show ?thesis using True b(2) by (auto simp: block_at_def at_block_def)
next
  case False
  note sz = call_sizes[OF k]
  let ?lib = "e_lib e" and ?dec = "k_step k BSLZ4_STEP_DECODE" and ?full = "full_blocks (k_total k) (k_bs k)"
  have z: "zstd_fills ?lib" using e by (simp add: env_ok_def)
  have fr: "frame_pixels ?lib ?dec (k_NB k) (k_total k) (k_bs k) c = Some fpx" using False f by (simp add: call_pixels_def)
  from call_ok_nb[OF k] have nb: "0 < k_bs k" by simp
  from frame_data[OF z c nb fr] obtain fps pe rest where q: "chunk_planes ?lib ?dec c (replicate ?full (k_bs k)) 12 = Some (fps, pe)" "map length fps = replicate ?full (k_bs k)"
    "fpx = concat (map (planes_pixels (k_NB k)) fps) @ rest" by metis
  obtain ps where ps: "chunk_planes ?lib ?dec c (replicate b (k_bs k)) 12 = Some (ps, pos)" using False b(2) by (auto simp: at_block_def)
  have rep: "replicate ?full (k_bs k) = replicate b (k_bs k) @ k_bs k # replicate (?full - Suc b) (k_bs k)"
    using b(1) by (metis Suc_diff_Suc add_diff_inverse_nat less_imp_le_nat not_less replicate_Suc replicate_add)
  from q(1) ps obtain n p qs where n: "next_block c pos = Inr n" "codec_planes ?lib ?dec (block_bytes c pos n) (k_bs k) = Some p" "fps = ps @ p # qs"
    unfolding rep chunk_planes_append by (auto split: sum.splits option.splits)
  have lp: "length ps = b" "length fps = ?full" using arg_cong[OF chunk_planes_lengths[OF z ps], of length] arg_cong[OF q(2), of length] by simp_all
  have pl: "length p = k_bs k" using codec_planes_length[OF z n(2)] .
  have "fpx ! (j + b * k_elems k) = planes_pixels (k_NB k) p ! j" if j: "j < k_elems k" for j
  proof -
    have a: "length (planes_pixels (k_NB k) x) = k_elems k" if "x \<in> set fps" for x
      using q(2) that by (metis (no_types, lifting) in_set_replicate image_eqI k_elems_def length_planes_pixels list.set_map)
    have "Suc b * k_elems k \<le> ?full * k_elems k" using b(1) by (intro mult_le_mono1) simp
    then have lt: "j + b * k_elems k < length (concat (map (planes_pixels (k_NB k)) fps))" using length_concat_planes[OF q(2), of "k_NB k"] using j by (simp add: k_elems_def)
    have "concat (map (planes_pixels (k_NB k)) fps) ! (k_elems k * b + j) = planes_pixels (k_NB k) (fps ! b) ! j"
      by (rule concat_same_nth[OF a _ j]) (use b(1) lp in auto)
    moreover have "fps ! b = p" unfolding n(3) lp(1)[symmetric] by (rule nth_append_length)
    ultimately show ?thesis using lt by (simp add: q(3) nth_append mult.commute add.commute)
  qed
  then have "block_at e k c fpx (b * k_elems k) pos (pos + n + 4)" using False n pl by (auto simp: block_at_def)
  moreover have "at_block e k c (Suc b) (pos + n + 4)"
  proof -
    have "chunk_planes ?lib ?dec c (replicate b (k_bs k) @ [k_bs k]) 12 = Some (ps @ [p], pos + n + 4)"
      unfolding chunk_planes_append using ps n by simp
    moreover have "replicate b (k_bs k) @ [k_bs k] = replicate (Suc b) (k_bs k)" by (simp add: replicate_append_same)
    ultimately show ?thesis using False unfolding at_block_def by metis
  qed
  ultimately show ?thesis by blast
qed


section \<open>The tail\<close>

text \<open>The partial block and the raw remainder behind the cursor \<open>pos\<close> of the last block.\<close>

lemma codec_planes_tail: "codec_planes lib (k_tail_decode k) src sz = codec_planes lib (k_step k BSLZ4_STEP_DECODE) src sz"
  by (simp add: codec_planes_def k_tail_decode_def step_values)

lemma tail_at:
  assumes e: "env_ok e" and k: "call_ok e k" and c: "readable_chunk c" and f: "call_pixels e k c = Some fpx" and px: "\<not> k_pixels k"
    and pos: "at_block e k c (full_blocks (k_total k) (k_bs k)) pos"
  shows "\<exists>tps en r. chunk_planes (e_lib e) (k_tail_decode k) c (if k_tail k = 0 then [] else [k_tail k]) pos = Some (tps, en)
    \<and> map length tps = (if k_tail k = 0 then [] else [k_tail k]) \<and> raw_tail c en (k_raw k) = Some r \<and> length r = k_raw k
    \<and> drop (k_i0 k) fpx = concat (map (planes_pixels (k_NB k)) tps) @ bytes_pixels (k_NB k) r"
proof -
  let ?lib = "e_lib e" and ?dec = "k_step k BSLZ4_STEP_DECODE" and ?full = "full_blocks (k_total k) (k_bs k)"
  note te = tail_elems[OF k]
  have z: "zstd_fills ?lib" using e by (simp add: env_ok_def)
  have fr: "frame_pixels ?lib ?dec (k_NB k) (k_total k) (k_bs k) c = Some fpx" using px f by (simp add: call_pixels_def)
  from call_ok_nb[OF k] have nb: "0 < k_bs k" by simp
  have tr: "tail_bytes (k_NB k) (k_total k) (k_bs k) = k_tail k" "raw_bytes (k_NB k) (k_total k) (k_bs k) = k_raw k" using te(10)[OF px] by simp_all
  have cp: "chunk_planes ?lib (k_tail_decode k) c szs p = chunk_planes ?lib ?dec c szs p" for szs p
    by (induction szs arbitrary: p) (simp_all add: codec_planes_tail cong: sum.case_cong option.case_cong)
  from frame_data[OF z c nb fr] obtain fps pe tps en r where q: "chunk_planes ?lib ?dec c (replicate ?full (k_bs k)) 12 = Some (fps, pe)" "map length fps = replicate ?full (k_bs k)"
    "chunk_planes ?lib ?dec c (if k_tail k > 0 then [k_tail k] else []) pe = Some (tps, en)" "map length tps = (if k_tail k > 0 then [k_tail k] else [])"
    "raw_tail c en (k_raw k) = Some r" "length r = k_raw k" "fpx = concat (map (planes_pixels (k_NB k)) fps) @ concat (map (planes_pixels (k_NB k)) tps) @ bytes_pixels (k_NB k) r"
    unfolding tr by metis
  have "pos = pe" using px pos q(1) by (auto simp: at_block_def)
  moreover have "length (concat (map (planes_pixels (k_NB k)) fps)) = k_i0 k" using length_concat_planes[OF q(2), of "k_NB k"] te(1) by (simp add: k_elems_def)
  ultimately show ?thesis using q(3-7) by (intro exI[of _ tps] exI[of _ en] exI[of _ r]) (auto simp: cp)
qed

end
