(* ===== verification/DriverLoop.thy ===== *)
theory DriverLoop
  imports DriverBack DriverFrame
begin

text \<open>
  The block loop of one frame and of a batch, over any kernels that keep \<open>back_half\<close>: after \<open>b\<close> blocks every frame's list and powder are
  those of its first \<open>b * block_elems\<close> pixels.
\<close>

section \<open>The fused list of a block\<close>

lemma low_cut_above:
  assumes "0 \<le> thr"
  shows "above (low_cut thr) (v :: 16 word) \<longleftrightarrow> uint v > thr"
proof -
  have lt: "uint v < 65536" using uint_bounded[of v] by simp
  have u: "int (unat v) = uint v" by simp
  show ?thesis
  proof (cases "thr > 65535")
    case True
    then have "\<not> uint v > thr" "\<not> 65535 < unat v" using lt u by linarith+
    then show ?thesis using True by (simp add: above_def low_cut_def)
  next
    case False
    then have "thr mod 2 ^ 32 = thr" using assms by simp
    then have "low_cut thr = nat thr" using False by (simp add: low_cut_def)
    then have "above (low_cut thr) v \<longleftrightarrow> nat thr < unat v" by (simp add: above_def)
    also have "\<dots> \<longleftrightarrow> uint v > thr" using assms u by linarith
    finally show ?thesis .
  qed
qed

lemma px_int_u16: "px_int 1 (ucast (v :: 16 word)) = uint v"
proof -
  have "ucast (ucast v :: pix) = v" by (rule bit_word_eqI) (simp add: bit_simps)
  then show ?thesis using uint_ucast16[of "ucast v :: pix"] by simp
qed

lemma low_list_pix:
  assumes ok: "low_list_ok planes ne nz raw scratch msk i0 cut_u (map ucast vals) adr r" and ne: "ne mod 8 = 0"
    and P: "\<And>v :: 16 word. above cut_u v \<longleftrightarrow> P (ucast v)"
  shows "\<exists>raw' scratch' o'. r = Inr (raw', scratch', o') \<and> length raw' = length raw \<and> length scratch' = length scratch
    \<and> (case o' of None \<Rightarrow> planes_in planes raw' nz
       | Some s \<Rightarrow> emits ne \<lparr>npx = 0, out_vals = vals, out_adr = adr\<rparr> (picked P (plane_pixels 2 ne planes) msk i0 [0..<ne]) (Inr (out_as ucast s)))"
proof -
  obtain raw' scratch' o' where r: "r = Inr (raw', scratch', o')" "length raw' = length raw" "length scratch' = length scratch"
    and o: "case o' of None \<Rightarrow> planes_in planes raw' nz | Some s \<Rightarrow> high_zero ne planes
        \<and> emits ne \<lparr>npx = 0, out_vals = map ucast vals, out_adr = adr\<rparr> (picked (above cut_u) (low_pixels ne planes) msk i0 [0..<ne]) (Inr s)"
    using ok by (auto simp: low_list_ok_def)
  have "emits ne \<lparr>npx = 0, out_vals = vals, out_adr = adr\<rparr> (picked P (plane_pixels 2 ne planes) msk i0 [0..<ne]) (Inr (out_as ucast s))" if "o' = Some s" for s
  proof -
    have hz: "high_zero ne planes"
      and em: "emits ne \<lparr>npx = 0, out_vals = map ucast vals, out_adr = adr\<rparr> (picked (above cut_u) (low_pixels ne planes) msk i0 [0..<ne]) (Inr s)"
      using o that by (simp_all del: emits_Inr)
    have uu: "ucast (ucast v :: pix) = v" for v :: "16 word" by (rule bit_word_eqI) (simp add: bit_simps)
    have lp: "low_pixels ne planes = map ucast (plane_pixels 2 ne planes)"
      unfolding low_pixels_eq[OF ne hz, symmetric] by (simp add: comp_def uu)
    have px: "plane_pixels 2 ne planes ! j = ucast (low_pixels ne planes ! j)" if "j < ne" for j
      unfolding low_pixels_eq[OF ne hz, symmetric] using that by simp
    have "emits ne \<lparr>npx = 0, out_vals = vals, out_adr = adr\<rparr> (picked P (plane_pixels 2 ne planes) msk i0 [0..<ne]) (rbind (Inr s) (\<lambda>s. Inr (out_as ucast s)))"
      by (rule emits_out_as[OF em[unfolded lp]]) (simp_all add: px uu P)
    then show ?thesis by simp
  qed
  then show ?thesis using r o by (cases o') auto
qed

section \<open>One block\<close>

lemma grows_inv:
  assumes "frame_inv k fpx i fs" "grows k fs (flist k fpx (f_level fs) i) (picked (lev_pass k (f_level fs)) fpx (k_emask k) 0 [i..<i + n]) pow fs'"
  shows "frame_inv k fpx (i + n) fs'"
  using assms left_ok_mono[of k fpx i "f_level fs" n] by (simp add: frame_inv_def grows_def flist_add)

lemma inv_open:
  assumes "frame_inv k fpx i fs" "i + n \<le> k_NIJ k"
  shows "open_list k fs (flist k fpx (f_level fs) i) n"
  using assms length_flist[of k fpx "f_level fs" i] by (simp add: frame_inv_def open_list_def)

lemma sees_plain:
  assumes "length px = ne" "narrow_px (k_dt k) px" "\<forall>j<ne. px ! j = fpx ! (j + i0)" "nm \<longleftrightarrow> k_emask k = None"
  shows "sees k nm i0 ne px fpx"
  using assms by (auto simp: sees_def mask_keeps_def)

lemma narrow_px_drop: "narrow_px dt xs \<Longrightarrow> narrow_px dt (drop n xs)"
  by (auto simp: narrow_px_def dest: in_set_dropD)

lemma narrow_px_take: "narrow_px dt xs \<Longrightarrow> narrow_px dt (take n xs)"
  by (auto simp: narrow_px_def dest: in_set_takeD)

context back_half
begin

lemma block_fused_ok:
  assumes e: "env_ok e" and R: "runs e k fpx p0" and sp: "space_ok k sp" and low: "k_lowplanes k"
    and p: "planes_in p (take (k_bs k) (s_raw sp)) nz" "length p = k_bs k"
    and s: "sees k (k_no_mask k) i0 (k_elems k) (plane_pixels (k_NB k) (k_elems k) p) fpx" "i0 + k_elems k \<le> k_NIJ k"
    and f: "lev_ok k lev" "open_list k fs L (k_elems k)" "f_pow fs = POW e k fpx p0 i0" and sparse: "k_is_dot k \<Longrightarrow> sparse"
  shows "\<exists>r sp'. block_fused e k i0 n nz (lev_cuts k lev) sparse fs sp = Inr (r, sp')
    \<and> (case r of None \<Rightarrow> space_ok k sp' \<and> s_bits sp' = s_bits sp \<and> planes_in p (take (k_bs k) (s_raw sp')) nz
       | Some (fs', sp'') \<Rightarrow> grows k fs L (picked (lev_pass k lev) fpx (k_emask k) 0 [i0..<i0 + k_elems k]) (POW e k fpx p0 (i0 + k_elems k)) fs'
           \<and> space_ok k sp'' \<and> s_bits sp'' = s_bits sp)"
proof -
  let ?u = "k_step k BSLZ4_STEP_UNTRANSPOSE" and ?ne = "k_elems k" and ?thr = "fst (lev_cuts k lev)"
  let ?raw = "take (k_bs k) (s_raw sp)" and ?scratch = "drop (k_bs k) (s_raw sp)" and ?bm = "work_bmask k (k_no_mask k)"
  let ?cut = "if k_is_dot k then 0 else low_cut ?thr"
  let ?vals = "if k_is_dot k then s_tval sp else drop (length L) (f_vals fs)" and ?adr = "if k_is_dot k then s_tidx sp else drop (length L) (f_adr fs)"
  let ?P = "if k_is_dot k then px_nz (k_dt k) else lev_pass k lev"
  have ok: "env_ok e" "call_ok e k" "cuts_ok k" using e served[OF R] by simp_all
  note sz = call_sizes[OF ok(2)]
  have dt: "k_dt k = 1" "bslz4_lowplanes_capable (e_host e) ?u" "?u = BSLZ4_UNTRANSPOSE_LOWPLANES_VSX \<Longrightarrow> ?ne mod 64 = 0" "k_NIJ k \<le> length (k_mask k)"
    "k_NB k = bslz4_elem_size (k_dt k)"
    using ok(2) low unfolding call_ok_def by blast+
  have NB2: "k_NB k = 2" using dt(1,5) by (simp add: bslz4_elem_size_def)
  have len: "length ?raw = k_bs k" "length ?scratch = k_bs k" using sp by (simp_all add: space_ok_def)
  have ne2: "2 * ?ne = k_bs k" "?ne \<le> length ?scratch" using sz(3) NB2 len by simp_all
  have n0: "f_npx fs = int (length L)" "?ne \<le> length (drop (length L) (f_vals fs))" "?ne \<le> length (drop (length L) (f_adr fs))"
    using f(2) by (auto simp: open_list_def list_in_def rows_ok_def)
  have room: "?ne \<le> length (map ucast ?vals :: 16 word list)" "?ne \<le> length ?adr" using n0 sp by (auto simp: space_ok_def)
  have bm: "(if k_maskplanes k then None else k_emask k) = ?bm" by (auto simp: work_bmask_def k_no_mask_def k_emask_def)
  have rd: "readable (low_pixels ?ne p) ?bm i0 ?ne" using sees_readable[OF s dt(4)] by (simp add: readable_def)
  have Pnz: "\<not> ?P 0" using px_nz_0[of "k_dt k"] lev_pass_0[OF ok(2,3) f(1)] by simp
  have ab: "above ?cut v \<longleftrightarrow> ?P (ucast v)" for v :: "16 word"
  proof (cases "k_is_dot k")
    case True
    have "above 0 v \<longleftrightarrow> uint v > 0" using low_cut_above[of 0 v] by (simp add: low_cut_def)
    also have "\<dots> \<longleftrightarrow> px_nz 1 (ucast v)" using le_less[of 0 "uint v"] uint_ge_0[of v] by (auto simp: px_nz_def is_float_def px_int_u16)
    finally show ?thesis using True dt(1) by simp
  next
    case False
    have c: "cut_ok 1 ?thr (snd (lev_cuts k lev))" using lev_cut_ok[OF ok(3) f(1)] dt(1) by simp
    then have t: "0 \<le> ?thr" by (simp add: cut_ok_def is_float_def)
    have "cut_passes 1 ?thr (snd (lev_cuts k lev)) (ucast v) \<longleftrightarrow> px_int 1 (ucast v) > cut_value 1 ?thr"
      by (rule cut_passes_int) (use t in \<open>simp_all add: is_float_def\<close>)
    then show ?thesis using low_cut_above[OF t, of v] False dt(1) by (simp add: lev_pass_def px_int_u16 cut_value_def)
  qed
  have l2: "length p = 2 * ?ne" using p(2) ne2(1) by simp
  have sl: "shuffle_conforms (e_slib e)" using ok(1) by (simp add: env_ok_def)
  from low_list_pix[OF lowplanes_list_ok[OF sl dt(2) p(1) l2 sz(5,4) dt(3) rd room ne2(2)] sz(4) ab, of n "k_bs k"]
  obtain raw scratch o' where r: "bslz4_lowplanes_list (e_slib e) (h_build (e_host e)) ?u ?raw ?ne nz n (k_bs k) ?scratch ?bm i0 ?cut (map ucast ?vals) ?adr
      = Inr (raw, scratch, o')" "length raw = k_bs k" "length scratch = k_bs k"
    and o: "case o' of None \<Rightarrow> planes_in p raw nz
       | Some s \<Rightarrow> emits ?ne \<lparr>npx = 0, out_vals = ?vals, out_adr = ?adr\<rparr> (picked ?P (plane_pixels 2 ?ne p) ?bm i0 [0..<?ne]) (Inr (out_as ucast s))"
    using len by auto
  let ?sp = "sp\<lparr>s_raw := raw @ scratch\<rparr>"
  have sp1: "space_ok k ?sp" using sp r(2,3) by (simp add: space_ok_def)
  have nn: "\<not> f_npx fs < 0" "nat (f_npx fs) = length L" using n0(1) by simp_all
  have go: "block_fused e k i0 n nz (lev_cuts k lev) sparse fs sp = (case o' of None \<Rightarrow> Inr (None, ?sp)
        | Some s \<Rightarrow>
            rbind (bump BSLZ4_STEP_UNTRANSPOSE ?u ?sp) (\<lambda>sp.
            rbind (bump BSLZ4_STEP_COLLECT (k_step k BSLZ4_STEP_COLLECT) sp) (\<lambda>sp.
              if \<not> k_is_dot k
              then rbind (append_list (\<lambda>_ _. Inr (out_as ucast s)) fs) (\<lambda>fs. Inr (Some (fs, sp), sp))
              else
                let w = (call_work k (k_no_mask k) (lev_cuts k lev) sparse (k_elems k) i0 [])
                  \<lparr>w_precompacted := True, w_pre_nz := npx s\<rparr> in
                rbind (bump BSLZ4_STEP_ROUTE BSLZ4_ROUTE_SPARSE sp) (\<lambda>sp.
                rbind (bump BSLZ4_STEP_DOT (k_step k BSLZ4_STEP_DOT) sp) (\<lambda>sp.
                rbind (dot_block e k w fs (sp\<lparr>s_tval := map ucast (out_vals s), s_tidx := out_adr s\<rparr>)) (\<lambda>r. Inr (Some r, sp)))))))"
    unfolding block_fused_def Let_def nn(2) bm k_no_mask_def[symmetric] using nn(1) r(1) by (simp only: if_False rbind.simps prod.case)
  show ?thesis
  proof (cases o')
    case None
    then show ?thesis using go o sp1 r(2) by (intro exI[of _ None] exI[of _ ?sp]) simp
  next
    case (Some s)
    let ?K = "picked ?P fpx (k_emask k) 0 [i0..<i0 + ?ne]"
    have K: "picked ?P (plane_pixels 2 ?ne p) ?bm i0 [0..<?ne] = ?K" using picked_sees[OF s(1), of ?P] Pnz NB2 by simp
    have em: "emits ?ne \<lparr>npx = 0, out_vals = ?vals, out_adr = ?adr\<rparr> ?K (Inr (out_as ucast s))" using o Some K by (simp del: emits_Inr)
    have sl: "0 \<le> ?u" "?u < 16" "0 \<le> k_step k BSLZ4_STEP_COLLECT" "k_step k BSLZ4_STEP_COLLECT < 16" "0 \<le> k_step k BSLZ4_STEP_DOT" "k_step k BSLZ4_STEP_DOT < 16"
      using step_slot[OF ok(2), of BSLZ4_STEP_UNTRANSPOSE] step_slot[OF ok(2), of BSLZ4_STEP_COLLECT] step_slot[OF ok(2), of BSLZ4_STEP_DOT] by (simp_all add: step_values)
    obtain c1 where b1: "bump BSLZ4_STEP_UNTRANSPOSE ?u ?sp = Inr (?sp\<lparr>s_ctrs := c1\<rparr>)" "space_ok k (?sp\<lparr>s_ctrs := c1\<rparr>)"
      by (rule bump_space[OF sp1 _ _ sl(1,2), of BSLZ4_STEP_UNTRANSPOSE]) (simp_all add: step_values)
    obtain c2 where b2: "bump BSLZ4_STEP_COLLECT (k_step k BSLZ4_STEP_COLLECT) (?sp\<lparr>s_ctrs := c1\<rparr>) = Inr (?sp\<lparr>s_ctrs := c2\<rparr>)" "space_ok k (?sp\<lparr>s_ctrs := c2\<rparr>)"
      by (rule bump_space[OF b1(2) _ _ sl(3,4), of BSLZ4_STEP_COLLECT]) (simp_all add: step_values)
    show ?thesis
    proof (cases "k_is_dot k")
      case False
      let ?o = "out_as ucast s :: pix out"
      have h: "npx ?o = length ?K" "take (length ?K) (out_vals ?o) = map fst ?K" "take (length ?K) (out_adr ?o) = map snd ?K"
        "length ?K \<le> ?ne" "length (out_vals ?o) = length (drop (length L) (f_vals fs))" "length (out_adr ?o) = length (drop (length L) (f_adr fs))"
        using em False by (simp_all add: holds_def)
      have ap: "append_list (\<lambda>_ _. Inr ?o) fs = Inr (fs\<lparr>f_npx := f_npx fs + int (length ?K), f_vals := take (length L) (f_vals fs) @ out_vals ?o,
          f_adr := take (length L) (f_adr fs) @ out_adr ?o, f_pow := f_pow fs\<rparr>)"
        using nn h(1) by (simp add: append_list_def Let_def)
      have pw: "POW e k fpx p0 (i0 + ?ne) = f_pow fs" using plain[OF R False] f(3) by simp
      show ?thesis using go Some b1(1) b2 ap False grow_rows[OF f(2) h(2,3,5,6,4), of "POW e k fpx p0 (i0 + ?ne)"] pw by simp
    next
      case True
      have rt: "0 \<le> BSLZ4_ROUTE_SPARSE" "BSLZ4_ROUTE_SPARSE < 16" by (simp_all add: step_values)
      obtain c3 where b3: "bump BSLZ4_STEP_ROUTE BSLZ4_ROUTE_SPARSE (?sp\<lparr>s_ctrs := c2\<rparr>) = Inr (?sp\<lparr>s_ctrs := c3\<rparr>)" "space_ok k (?sp\<lparr>s_ctrs := c3\<rparr>)"
        by (rule bump_space[OF b2(2) _ _ rt, of BSLZ4_STEP_ROUTE]) (simp_all add: step_values)
      obtain c4 where b4: "bump BSLZ4_STEP_DOT (k_step k BSLZ4_STEP_DOT) (?sp\<lparr>s_ctrs := c3\<rparr>) = Inr (?sp\<lparr>s_ctrs := c4\<rparr>)" "space_ok k (?sp\<lparr>s_ctrs := c4\<rparr>)"
        by (rule bump_space[OF b3(2) _ _ sl(5,6), of BSLZ4_STEP_DOT]) (simp_all add: step_values)
      let ?sp4 = "?sp\<lparr>s_ctrs := c4, s_tval := map ucast (out_vals s), s_tidx := out_adr s\<rparr>"
      have h: "npx s = length ?K" "take (length ?K) (map ucast (out_vals s)) = map fst ?K" "take (length ?K) (out_adr s) = map snd ?K"
        "length (map ucast (out_vals s) :: pix list) = ?ne" "length (out_adr s) = ?ne"
        using em True sp by (simp_all add: holds_def out_as_def space_ok_def)
      have sp4: "space_ok k ?sp4" using b4(2) h(4,5) by (simp add: space_ok_def)
      have sr: "sparse = True" using sparse True by simp
      have tk: "take (length ?K) (s_tval ?sp4) = map fst ?K" "take (length ?K) (s_tidx ?sp4) = map snd ?K" using h(2,3) by simp_all
      have PK: "?K = picked (px_nz (k_dt k)) fpx (k_emask k) 0 [i0..<i0 + ?ne]" using True by simp
      from fuses[OF R True s(2) le_refl f(1,2,3) sp4 PK tk, of "k_no_mask k"] obtain fs' sp' where
        "dot_block e k ((call_work k (k_no_mask k) (lev_cuts k lev) True ?ne i0 [])\<lparr>w_precompacted := True, w_pre_nz := length ?K\<rparr>) fs ?sp4 = Inr (fs', sp')"
        "grows k fs L (picked (lev_pass k lev) fpx (k_emask k) 0 [i0..<i0 + ?ne]) (POW e k fpx p0 (i0 + ?ne)) fs'" "space_ok k sp'" "s_bits sp' = s_bits ?sp4" by blast
      then show ?thesis using go Some b1(1) b2(1) b3(1) b4(1) True h(1) sr by (simp add: Let_def)
    qed
  qed
qed

lemma collect_ok:
  assumes R: "runs e k fpx p0" and x: "sees k nm i0 ne px fpx" "i0 + ne \<le> k_NIJ k" "ne \<le> k_elems k"
    and f: "frame_inv k fpx i0 fs" "f_pow fs = POW e k fpx p0 i0" and sp: "space_ok k sp"
  shows "\<exists>fs' sp'. collect_block e k sparse (call_work k nm (lev_cuts k (f_level fs)) (k_is_dot k \<and> sparse) ne i0 px) fs sp = Inr (fs', sp')
    \<and> frame_inv k fpx (i0 + ne) fs' \<and> f_pow fs' = POW e k fpx p0 (i0 + ne) \<and> f_cursor fs' = f_cursor fs \<and> space_ok k sp' \<and> s_bits sp' = s_bits sp"
proof -
  have l: "lev_ok k (f_level fs)" using f(1) by (simp add: frame_inv_def)
  from collects[OF R x(2,3,1) l inv_open[OF f(1) x(2)] f(2) sp, of sparse] obtain fs' sp' where
    r: "collect_block e k sparse (call_work k nm (lev_cuts k (f_level fs)) (k_is_dot k \<and> sparse) ne i0 px) fs sp = Inr (fs', sp')"
    "grows k fs (flist k fpx (f_level fs) i0) (picked (lev_pass k (f_level fs)) fpx (k_emask k) 0 [i0..<i0 + ne]) (POW e k fpx p0 (i0 + ne)) fs'"
    "space_ok k sp'" "s_bits sp' = s_bits sp" by blast
  have "f_pow fs' = POW e k fpx p0 (i0 + ne)" "f_cursor fs' = f_cursor fs" using r(2) by (simp_all add: grows_def)
  then show ?thesis using r grows_inv[OF f(1) r(2)] by blast
qed

text \<open>A block whose planes are decoded; \<open>p\<close> are the planes up to their zero tail.\<close>

lemma block_step_decoded:
  assumes e: "env_ok e" and R: "runs e k fpx p0" and px: "\<not> k_pixels k"
    and d: "block_decode e k c fs sp = Inr (fs\<lparr>f_cursor := pos'\<rparr>, sp1, n, nz)" "space_ok k sp1" "s_bits sp1 = s_bits sp"
      "length p = k_bs k" "planes_in p (take (k_bs k) (s_raw sp1)) nz" "\<forall>j<k_elems k. planes_pixels (k_NB k) p ! j = fpx ! (j + i0)"
    and f: "frame_inv k fpx i0 fs" "f_pow fs = POW e k fpx p0 i0" "i0 + k_elems k \<le> k_NIJ k" and bits: "bits_ok k i0 unmasked (s_bits sp)"
  shows "\<exists>fs' sp'. block_step e k i0 unmasked c (fs, sp) = Inr (fs', sp') \<and> frame_inv k fpx (i0 + k_elems k) fs'
    \<and> f_pow fs' = POW e k fpx p0 (i0 + k_elems k) \<and> f_cursor fs' = pos' \<and> space_ok k sp' \<and> s_bits sp' = s_bits sp"
proof -
  have k: "call_ok e k" "cuts_ok k" using served[OF R] by simp_all
  let ?nm = "k_no_mask k" and ?ne = "k_elems k"
  have fin: "frame_inv k fpx i0 (fs\<lparr>f_cursor := pos'\<rparr>)" using f(1) by (simp add: frame_inv_def rows_ok_def list_in_def)
  have i0: "i0 \<le> k_NIJ k" using f(3) by simp
  from frame_raise_ok[OF k fin i0] obtain fs1 where r: "frame_raise k (fs\<lparr>f_cursor := pos'\<rparr>) = Inr fs1" "frame_inv k fpx i0 fs1" "f_cursor fs1 = pos'" "f_pow fs1 = f_pow fs"
    by auto
  have l1: "lev_ok k (f_level fs1)" using r(2) by (simp add: frame_inv_def)
  have ct: "frame_cut k fs1 = Inr (lev_cuts k (f_level fs1))" by (rule frame_cut_ok[OF k(2) l1])
  have p1: "f_pow fs1 = POW e k fpx p0 i0" using r(4) f(2) by simp
  have bits1: "bits_ok k i0 unmasked (s_bits sp1)" using bits d(3) by simp
  from block_mask_ok[OF k(1) d(2,5,4) bits1 px d(6)] obtain sp2 q where
    m: "block_mask e k unmasked nz sp1 = Inr sp2" "space_ok k sp2" "s_bits sp2 = s_bits sp" "length q = k_bs k" "planes_in q (take (k_bs k) (s_raw sp2)) nz"
      "sees k ?nm i0 ?ne (plane_pixels (k_NB k) ?ne q) fpx" using d(3) by auto
  let ?sparse = "block_sparse k n" and ?px = "plane_pixels (k_NB k) ?ne q"
  define whole where "whole = (\<lambda>sp. rbind (block_pixels e k i0 c nz sp) (\<lambda>(px, sp).
    collect_block e k ?sparse (call_work k ?nm (lev_cuts k (f_level fs1)) (k_is_dot k \<and> ?sparse) ?ne i0 px) fs1 sp))"
  define done_ok where "done_ok fs' sp' \<longleftrightarrow> frame_inv k fpx (i0 + ?ne) fs' \<and> f_pow fs' = POW e k fpx p0 (i0 + ?ne) \<and> f_cursor fs' = pos'
    \<and> space_ok k sp' \<and> s_bits sp' = s_bits sp" for fs' sp'
  have go: "block_step e k i0 unmasked c (fs, sp) =
    rbind (if k_lowplanes k \<and> ?sparse \<and> \<not> k_pixels k then block_fused e k i0 n nz (lev_cuts k (f_level fs1)) ?sparse fs1 sp2 else Inr (None, sp2))
      (\<lambda>(x, sp). case x of Some q \<Rightarrow> Inr q | None \<Rightarrow> whole sp)"
    unfolding block_step_def prod.case d(1) rbind.simps m(1) r(1) ct Let_def k_no_mask_def[symmetric] whole_def ..
  have w: "\<exists>fs' sp'. whole sp3 = Inr (fs', sp') \<and> done_ok fs' sp'"
    if q3: "space_ok k sp3" "s_bits sp3 = s_bits sp" "planes_in q (take (k_bs k) (s_raw sp3)) nz" for sp3
  proof -
    from block_pixels_ok[OF e k(1) q3(1) px q3(3) m(4)] obtain sp4 where b: "block_pixels e k i0 c nz sp3 = Inr (?px, sp4)" "space_ok k sp4" "s_bits sp4 = s_bits sp3" by blast
    from collect_ok[OF R m(6) f(3) le_refl r(2) p1 b(2), of ?sparse] show ?thesis unfolding whole_def b(1) rbind.simps prod.case done_ok_def using r(3) b(3) q3(2) by simp
  qed
  have "\<exists>fs' sp'. block_step e k i0 unmasked c (fs, sp) = Inr (fs', sp') \<and> done_ok fs' sp'"
  proof (cases "k_lowplanes k \<and> ?sparse")
    case False
    then show ?thesis unfolding go using w[OF m(2,3,5)] by auto
  next
    case True
    then have lw: "k_lowplanes k" and sr: "?sparse" by simp_all
    from block_fused_ok[OF e R m(2) lw m(5,4,6) f(3) l1 inv_open[OF r(2) f(3)] p1 sr, of n] obtain x sp3 where
      b: "block_fused e k i0 n nz (lev_cuts k (f_level fs1)) ?sparse fs1 sp2 = Inr (x, sp3)"
      "case x of None \<Rightarrow> space_ok k sp3 \<and> s_bits sp3 = s_bits sp2 \<and> planes_in q (take (k_bs k) (s_raw sp3)) nz
        | Some (fs', sp'') \<Rightarrow> grows k fs1 (flist k fpx (f_level fs1) i0) (picked (lev_pass k (f_level fs1)) fpx (k_emask k) 0 [i0..<i0 + ?ne]) (POW e k fpx p0 (i0 + ?ne)) fs'
            \<and> space_ok k sp'' \<and> s_bits sp'' = s_bits sp2" by blast
    show ?thesis
    proof (cases x)
      case None
      then show ?thesis unfolding go using b m(3) True px w[of sp3] by simp
    next
      case (Some y)
      obtain fs' sp' where y: "y = (fs', sp')" by (cases y)
      have g: "grows k fs1 (flist k fpx (f_level fs1) i0) (picked (lev_pass k (f_level fs1)) fpx (k_emask k) 0 [i0..<i0 + ?ne]) (POW e k fpx p0 (i0 + ?ne)) fs'"
        "space_ok k sp'" "s_bits sp' = s_bits sp" using b(2) Some y m(3) by simp_all
      have "f_pow fs' = POW e k fpx p0 (i0 + ?ne)" "f_cursor fs' = pos'" using g(1) r(3) by (simp_all add: grows_def)
      then have "done_ok fs' sp'" using grows_inv[OF r(2) g(1)] g(2,3) by (simp add: done_ok_def)
      then show ?thesis unfolding go using b(1) Some y True px by simp
    qed
  qed
  then show ?thesis unfolding done_ok_def .
qed

lemma block_step_ok:
  assumes e: "env_ok e" and R: "runs e k fpx p0" and c: "readable_chunk c" "block_at e k c fpx i0 (f_cursor fs) pos'"
    and f: "frame_inv k fpx i0 fs" "f_pow fs = POW e k fpx p0 i0" "i0 + k_elems k \<le> k_NIJ k" "length fpx = k_NIJ k" "narrow_px (k_dt k) fpx"
    and sp: "space_ok k sp" "bits_ok k i0 unmasked (s_bits sp)"
  shows "\<exists>fs' sp'. block_step e k i0 unmasked c (fs, sp) = Inr (fs', sp') \<and> frame_inv k fpx (i0 + k_elems k) fs'
    \<and> f_pow fs' = POW e k fpx p0 (i0 + k_elems k) \<and> f_cursor fs' = pos' \<and> space_ok k sp' \<and> s_bits sp' = s_bits sp"
proof (cases "k_pixels k")
  case False
  have k: "call_ok e k" using served[OF R] by simp
  obtain n p where n: "next_block c (f_cursor fs) = Inr n" "codec_planes (e_lib e) (k_step k BSLZ4_STEP_DECODE) (block_bytes c (f_cursor fs) n) (k_bs k) = Some p"
    "length p = k_bs k" "\<forall>j<k_elems k. planes_pixels (k_NB k) p ! j = fpx ! (j + i0)" "pos' = f_cursor fs + n + 4"
    using c(2) False by (auto simp: block_at_def)
  from block_decode_ok[OF e k sp(1) c(1) False n(1,2)] obtain sp1 nz where
    d: "block_decode e k c fs sp = Inr (fs\<lparr>f_cursor := pos'\<rparr>, sp1, n, nz)" "space_ok k sp1" "s_bits sp1 = s_bits sp" "planes_in p (take (k_bs k) (s_raw sp1)) nz"
    unfolding n(5) by blast
  show ?thesis by (rule block_step_decoded[OF e R False d(1-3) n(3) d(4) n(4) f(1-3) sp(2)])
next
  case True
  have k: "call_ok e k" "cuts_ok k" using served[OF R] by simp_all
  let ?nm = "k_no_mask k" and ?ne = "k_elems k"
  have i0: "i0 \<le> k_NIJ k" using f(3) by simp
  have pos: "pos' = f_cursor fs" and px: "load_pixels (k_NB k) (ck_mem c) (i0 * k_NB k) ?ne = Inr (take ?ne (drop i0 fpx))" using c(2) True by (simp_all add: block_at_def)
  from frame_raise_ok[OF k f(1) i0] obtain fs1 where r: "frame_raise k fs = Inr fs1" "frame_inv k fpx i0 fs1" "f_cursor fs1 = pos'" "f_pow fs1 = f_pow fs"
    using pos by auto
  have ct: "frame_cut k fs1 = Inr (lev_cuts k (f_level fs1))" by (rule frame_cut_ok[OF k(2)]) (use r(2) in \<open>simp add: frame_inv_def\<close>)
  have p1: "f_pow fs1 = POW e k fpx p0 i0" using r(4) f(2) by simp
  have s: "sees k ?nm i0 ?ne (take ?ne (drop i0 fpx)) fpx"
    by (rule sees_plain) (use f True in \<open>auto simp: narrow_px_take narrow_px_drop k_no_mask_def k_maskplanes_def add.commute\<close>)
  from collect_ok[OF R s f(3) le_refl r(2) p1 sp(1), of "block_sparse k 0"] r(3) show ?thesis
    using True r(1) ct px by (simp add: block_step_def block_decode_def block_mask_def k_maskplanes_def block_pixels_def k_no_mask_def Let_def)
qed

end

end
