(* ===== verification/DriverTail.thy ===== *)
theory DriverTail
  imports DriverLoop
begin

text \<open>
  The tail of a frame: the partial block and the raw remainder are the frame's last pixels, the top-pixels request is settled, and the list is
  cut to the pixels asked for.
\<close>

section \<open>The pixels of the tail\<close>

lemma take_blit_at: "length a \<le> p \<Longrightarrow> p + length bs \<le> length m \<Longrightarrow> take p m = a \<Longrightarrow> take (p + length bs) (blit m p bs) = a @ bs"
  by (auto simp: blit_def min_def take_add)

lemma raw_tail_ok:
  assumes c: "readable_chunk c" and r: "raw_tail c (f_cursor fs) (k_raw k) = Some r" and px: "\<not> k_pixels k"
    and sp: "k_tail k + k_raw k \<le> length (s_block sp)"
  shows "tail_raw k c fs sp = Inr (sp\<lparr>s_block := blit (s_block sp) (k_tail k) r\<rparr>)" "length r = k_raw k"
proof -
  show lr: "length r = k_raw k" by (rule raw_tail_length[OF c r])
  show "tail_raw k c fs sp = Inr (sp\<lparr>s_block := blit (s_block sp) (k_tail k) r\<rparr>)"
  proof (cases "k_raw k = 0")
    case True
    then show ?thesis using lr by (simp add: tail_raw_def)
  next
    case False
    then have g: "\<not> (ck_len c < int (k_raw k) \<or> int (f_cursor fs) > ck_len c - int (k_raw k))" "r = take (k_raw k) (drop (nat (ck_len c) - k_raw k) (ck_mem c))"
      using r by (auto simp: raw_tail_def split: if_splits)
    have "nat (ck_len c) - k_raw k + k_raw k \<le> length (ck_mem c)" using g(1) c unfolding readable_chunk_def by linarith
    from load_n_ok[OF this] have "load_n (ck_mem c) (nat (ck_len c) - k_raw k) (k_raw k) = Inr r" using g(2) by simp
    moreover have "store_n (s_block sp) (k_tail k) r = Inr (blit (s_block sp) (k_tail k) r)" by (rule store_n_ok) (use sp lr in simp)
    ultimately show ?thesis using False g(1) px by (simp add: tail_raw_def Let_def)
  qed
qed

lemma tail_planes_ok:
  assumes e: "env_ok e" and k: "call_ok e k" and c: "readable_chunk c" and sp: "space_ok k sp" and px: "\<not> k_pixels k"
    and t: "chunk_planes (e_lib e) (k_tail_decode k) c (if k_tail k = 0 then [] else [k_tail k]) (f_cursor fs) = Some (tps, en)"
  shows "\<exists>sp' n. tail_planes e k c fs sp = Inr (fs\<lparr>f_cursor := en\<rparr>, sp', n) \<and> space_ok k sp'
    \<and> bytes_pixels (k_NB k) (take (k_tail k) (s_block sp')) = concat (map (planes_pixels (k_NB k)) tps)"
proof (cases "k_tail k = 0")
  case True
  then show ?thesis using t sp by (simp add: tail_planes_def bytes_pixels_def)
next
  case False
  let ?pos = "f_cursor fs" and ?ne = "k_tail k div k_NB k" and ?NB = "k_NB k"
  note sz = call_sizes[OF k] and te = tail_elems[OF k]
  have lib: "lz4_conforms (e_lib e)" "zstd_fills (e_lib e)" "shuffle_conforms (e_slib e)" using e by (simp_all add: env_ok_def)
  obtain n p where n: "next_block c ?pos = Inr n" "codec_planes (e_lib e) (k_tail_decode k) (block_bytes c ?pos n) (k_tail k) = Some p" "tps = [p]" "en = ?pos + n + 4"
    using t False by (auto split: sum.splits option.splits)
  have ld: "load_n (ck_mem c) (?pos + 4) n = Inr (block_bytes c ?pos n)" using next_block_cases[OF c, of ?pos] n(1) by auto
  have tb: "k_tail k = tail_bytes ?NB (k_total k) (k_bs k)" using te(10)[OF px] by simp
  have le: "k_tail k \<le> k_bs k" using te(4,9) by simp
  have lr: "length (take (k_bs k) (s_raw sp)) = k_bs k" using sp by (simp add: space_ok_def)
  obtain q where "k_tail k = 8 * ?NB * q" using te(8) unfolding tb by blast
  then have d8: "?ne * ?NB = k_tail k" "?ne mod 8 = 0" using sz(2) by simp_all
  from decode_plain_ok[OF lib(1,2) n(2)] le lr obtain raw where r: "bslz4_decode_plain (e_lib e) (k_tail_decode k) (block_bytes c ?pos n) (take (k_bs k) (s_raw sp)) (k_tail k) = Inr (int (k_tail k), raw)"
    "length raw = k_bs k" "take (k_tail k) raw = p" by metis
  have room: "?ne * ?NB \<le> length raw" "?ne * ?NB \<le> length (s_block sp)" using d8(1) le r(2) sp by (simp_all add: space_ok_def)
  from backend_ok[OF lib(3) d8(2) sz(1) room, of "h_build (e_host e)" "k_tail_untranspose k"] obtain ret block where
    b: "bslz4_untranspose_backend (e_slib e) (h_build (e_host e)) (k_tail_untranspose k) (s_block sp) raw ?ne ?NB = Inr (ret, block)" "0 \<le> ret"
      "length block = length (s_block sp)" "load_pixels ?NB block 0 ?ne = Inr (plane_pixels ?NB ?ne raw)" by blast
  have pl: "length p = k_tail k" using codec_planes_length[OF lib(2) n(2)] .
  have pp: "plane_pixels ?NB ?ne raw = planes_pixels ?NB p" using plane_pixels_prefix[of ?ne ?NB raw p] r(3) d8 pl by (simp add: planes_pixels_def)
  have bl: "bytes_pixels ?NB (take (k_tail k) block) = planes_pixels ?NB p"
    using load_pixels_eq[of 0 ?NB ?ne block] b(3,4) room(2) sz(2) d8(1) pp by (simp add: mult.commute)
  let ?sp = "sp\<lparr>s_raw := raw @ drop (k_bs k) (s_raw sp), s_block := block\<rparr>"
  have sp1: "space_ok k ?sp" using sp r(2) b(3) by (simp add: space_ok_def)
  have sl: "0 \<le> k_step k BSLZ4_STEP_DECODE" "k_step k BSLZ4_STEP_DECODE < 16" "0 \<le> k_step k BSLZ4_STEP_UNTRANSPOSE" "k_step k BSLZ4_STEP_UNTRANSPOSE < 16"
    using step_slot[OF k, of BSLZ4_STEP_DECODE] step_slot[OF k, of BSLZ4_STEP_UNTRANSPOSE] by (simp_all add: step_values)
  obtain c1 where b1: "bump BSLZ4_STEP_DECODE (k_step k BSLZ4_STEP_DECODE) ?sp = Inr (?sp\<lparr>s_ctrs := c1\<rparr>)" "space_ok k (?sp\<lparr>s_ctrs := c1\<rparr>)"
    by (rule bump_space[OF sp1 _ _ sl(1,2), of BSLZ4_STEP_DECODE]) (simp_all add: step_values)
  obtain c2 where b2: "bump BSLZ4_STEP_UNTRANSPOSE (k_step k BSLZ4_STEP_UNTRANSPOSE) (?sp\<lparr>s_ctrs := c1\<rparr>) = Inr (?sp\<lparr>s_ctrs := c2\<rparr>)" "space_ok k (?sp\<lparr>s_ctrs := c2\<rparr>)"
    by (rule bump_space[OF b1(2) _ _ sl(3,4), of BSLZ4_STEP_UNTRANSPOSE]) (simp_all add: step_values)
  have "tail_planes e k c fs sp = Inr (fs\<lparr>f_cursor := en\<rparr>, ?sp\<lparr>s_ctrs := c2\<rparr>, n)"
    unfolding tail_planes_def Let_def using False n(1,4) ld r(1) b(1,2) b1(1) b2(1) by simp
  then show ?thesis using b2(2) bl n(3) by auto
qed

text \<open>Both parts lie in the block, as the frame's last pixels.\<close>

lemma tail_data_ok:
  assumes e: "env_ok e" and k: "call_ok e k" and c: "readable_chunk c" and f: "call_pixels e k c = Some fpx" and px: "\<not> k_pixels k"
    and pos: "at_block e k c (full_blocks (k_total k) (k_bs k)) (f_cursor fs)" and sp: "space_ok k sp"
  shows "\<exists>en sp1 sp2 n. tail_planes e k c fs sp = Inr (fs\<lparr>f_cursor := en\<rparr>, sp1, n) \<and> tail_raw k c (fs\<lparr>f_cursor := en\<rparr>) sp1 = Inr sp2
    \<and> space_ok k sp2 \<and> load_pixels (k_NB k) (s_block sp2) 0 ((k_raw k + k_tail k) div k_NB k) = Inr (drop (k_i0 k) fpx)"
proof -
  note sz = call_sizes[OF k] and te = tail_elems[OF k]
  from tail_at[OF e k c f px pos] obtain tps en r where
    t: "chunk_planes (e_lib e) (k_tail_decode k) c (if k_tail k = 0 then [] else [k_tail k]) (f_cursor fs) = Some (tps, en)"
    "raw_tail c en (k_raw k) = Some r" "drop (k_i0 k) fpx = concat (map (planes_pixels (k_NB k)) tps) @ bytes_pixels (k_NB k) r" by blast
  from tail_planes_ok[OF e k c sp px t(1)] obtain sp1 n where p: "tail_planes e k c fs sp = Inr (fs\<lparr>f_cursor := en\<rparr>, sp1, n)" "space_ok k sp1"
    "bytes_pixels (k_NB k) (take (k_tail k) (s_block sp1)) = concat (map (planes_pixels (k_NB k)) tps)" by blast
  have lb: "length (s_block sp1) = k_bs k" using p(2) by (simp add: space_ok_def)
  have le: "k_tail k + k_raw k \<le> length (s_block sp1)" using te(4,9) lb by simp
  have t2: "raw_tail c (f_cursor (fs\<lparr>f_cursor := en\<rparr>)) (k_raw k) = Some r" using t(2) by simp
  note rt = raw_tail_ok[OF c t2 px le]
  let ?b = "blit (s_block sp1) (k_tail k) r"
  have sp2: "space_ok k (sp1\<lparr>s_block := ?b\<rparr>)" using p(2) le rt(2) by (simp add: space_ok_def length_blit)
  have NBr: "k_NB k * ((k_raw k + k_tail k) div k_NB k) = k_raw k + k_tail k" using te(4,6) by simp
  have tk: "take (k_raw k + k_tail k) ?b = take (k_tail k) (s_block sp1) @ r"
    using take_blit_at[of "take (k_tail k) (s_block sp1)" "k_tail k" r "s_block sp1"] le rt(2) by (simp add: add.commute)
  have "length (take (k_tail k) (s_block sp1)) = k_tail k" using le by simp
  then have dv: "k_NB k dvd length (take (k_tail k) (s_block sp1))" using te(7) te(10)[OF px] by simp
  have "load_pixels (k_NB k) ?b 0 ((k_raw k + k_tail k) div k_NB k) = Inr (bytes_pixels (k_NB k) (take (k_raw k + k_tail k) ?b))"
    using load_pixels_eq[of 0 "k_NB k" "(k_raw k + k_tail k) div k_NB k" ?b] NBr sz(2) le rt(2) by (simp add: length_blit add.commute)
  also have "\<dots> = Inr (drop (k_i0 k) fpx)" unfolding tk bytes_pixels_append[OF dv sz(2)] p(3) t(3) ..
  finally show ?thesis using p(1) rt(1) sp2 by auto
qed


section \<open>The end of a frame\<close>

text \<open>The level a frame ends at: every lower one is over the limit, and it is not, unless it is the last.\<close>

definition settled :: "call \<Rightarrow> pix list \<Rightarrow> int \<Rightarrow> bool" where
  "settled k fpx lev \<longleftrightarrow> lev_ok k lev \<and> left_ok k fpx (k_NIJ k) lev
     \<and> (case k_top k of None \<Rightarrow> True | Some tp \<Rightarrow> over tp lev (int (length (flist k fpx lev (k_NIJ k)))) \<longrightarrow> lev + 1 \<ge> t_nthr tp)"

text \<open>The pixels a frame lists.\<close>

definition shown :: "call \<Rightarrow> (pix \<times> 32 word) list \<Rightarrow> (pix \<times> 32 word) list" where
  "shown k L = (case k_top k of None \<Rightarrow> L | Some tp \<Rightarrow> take (nat (t_howmany tp)) L)"

definition frame_done :: "call \<Rightarrow> pix list \<Rightarrow> 64 word list \<Rightarrow> frame_st \<Rightarrow> bool" where
  "frame_done k fpx pow fs \<longleftrightarrow> rows_ok k fs \<and> settled k fpx (f_level fs) \<and> f_pow fs = pow
     \<and> list_in fs (shown k (flist k fpx (f_level fs) (k_NIJ k)))
     \<and> (k_top k \<noteq> None \<longrightarrow> f_nabove fs = int (length (flist k fpx (f_level fs) (k_NIJ k))))"

lemma list_in_take:
  assumes "list_in fs L" "length L \<le> length (f_vals fs)" "length L \<le> length (f_adr fs)" "0 \<le> m"
  shows "list_in (fs\<lparr>f_nabove := a, f_npx := (if f_npx fs > m then m else f_npx fs)\<rparr>) (take (nat m) L)"
proof -
  have l: "f_npx fs = int (length L)" "take (length L) (f_vals fs) = map fst L" "take (length L) (f_adr fs) = map snd L"
    using assms(1) by (simp_all add: list_in_def)
  have "take (length (take (nat m) L)) (f_vals fs) = map fst (take (nat m) L)" "take (length (take (nat m) L)) (f_adr fs) = map snd (take (nat m) L)"
    unfolding length_take using l(2,3) by (metis min.commute take_map take_take)+
  moreover have "(if f_npx fs > m then m else f_npx fs) = int (length (take (nat m) L))" using l(1) assms(4) by (auto simp: min_def)
  ultimately show ?thesis by (simp add: list_in_def del: length_take)
qed

lemma frame_finish_ok:
  assumes k: "call_ok e k" "cuts_ok k" and f: "frame_inv k fpx (k_NIJ k) fs"
  shows "\<exists>fs'. frame_finish k fs = Inr fs' \<and> frame_done k fpx (f_pow fs) fs'"
proof (cases "k_top k")
  case None
  then show ?thesis using f by (simp add: frame_finish_def frame_done_def frame_inv_def settled_def shown_def)
next
  case (Some tp)
  from frame_raise_ok[OF k f le_refl] Some obtain fs1 where r: "frame_raise k fs = Inr fs1" "frame_inv k fpx (k_NIJ k) fs1" "f_pow fs1 = f_pow fs"
    "over tp (f_level fs1) (f_npx fs1) \<longrightarrow> f_level fs1 + 1 \<ge> t_nthr tp" by auto
  let ?L = "flist k fpx (f_level fs1) (k_NIJ k)"
  let ?fs = "fs1\<lparr>f_nabove := f_npx fs1, f_npx := (if f_npx fs1 > t_howmany tp then t_howmany tp else f_npx fs1)\<rparr>"
  have i: "rows_ok k fs1" "lev_ok k (f_level fs1)" "left_ok k fpx (k_NIJ k) (f_level fs1)" "list_in fs1 ?L" using r(2) by (simp_all add: frame_inv_def)
  have hm: "0 \<le> t_howmany tp" using k(2) Some by (simp add: cuts_ok_def)
  have ln: "length ?L \<le> length (f_vals fs1)" "length ?L \<le> length (f_adr fs1)" using i(1) length_flist[of k fpx "f_level fs1" "k_NIJ k"] by (simp_all add: rows_ok_def)
  have n: "f_npx fs1 = int (length ?L)" using i(4) by (simp add: list_in_def)
  have "frame_finish k fs = Inr ?fs" using r(1) Some by (simp add: frame_finish_def)
  moreover have "frame_done k fpx (f_pow fs) ?fs"
    using list_in_take[OF i(4) ln hm, of "f_npx fs1"] i(1-3) r(3,4) Some n by (simp add: frame_done_def settled_def shown_def rows_ok_def)
  ultimately show ?thesis by blast
qed

text \<open>The powder a call returns: csc-nosplit-int's sums become doubles.\<close>

definition pow_end :: "call \<Rightarrow> 64 word list \<Rightarrow> 64 word list" where
  "pow_end k pow = (if k_step k BSLZ4_STEP_DOT = BSLZ4_DOT_CSC_NOSPLIT_INT
     then map (\<lambda>x. f64_of_int (sint x)) (take (k_nout k) pow) @ drop (k_nout k) pow else pow)"

lemma powder_i64_to_f64_ok:
  assumes "nout \<le> length pow"
  shows "bslz4_powder_i64_to_f64 pow nout = Inr (map (\<lambda>x. f64_of_int (sint x)) (take nout pow) @ drop nout pow)"
proof -
  let ?c = "\<lambda>x. f64_of_int (sint x)"
  have "\<exists>s'. fold_res (\<lambda>i pow. rbind (load pow i) (\<lambda>v. store pow i (?c v))) [0..<nout] pow = Inr s' \<and> s' = map ?c (take nout pow) @ drop nout pow"
  proof (rule fold_upt_inv[where I = "\<lambda>i s. s = map ?c (take i pow) @ drop i pow"])
    fix i s assume a: "i < nout" "s = map ?c (take i pow) @ drop i pow"
    then have i: "i < length pow" using assms by simp
    have l: "length (map ?c (take i pow)) = i" using i by simp
    have sp: "drop i pow = pow ! i # drop (Suc i) pow" using i by (rule Cons_nth_drop_Suc[symmetric])
    have "s ! i = pow ! i" "i < length s" unfolding a(2) sp using l i by (simp_all add: nth_append)
    moreover have "s[i := ?c (pow ! i)] = map ?c (take (Suc i) pow) @ drop (Suc i) pow"
      unfolding a(2) sp list_update_append using l i by (simp add: take_Suc_conv_app_nth)
    ultimately show "\<exists>s'. rbind (load s i) (\<lambda>v. store s i (?c v)) = Inr s' \<and> s' = map ?c (take (Suc i) pow) @ drop (Suc i) pow"
      by (simp add: load_ok store_ok)
  qed simp
  then show ?thesis by (simp add: bslz4_powder_i64_to_f64_def)
qed

context back_half
begin

text \<open>A tail whose pixels are in place.\<close>

lemma tail_step_loaded:
  assumes e: "env_ok e" and R: "runs e k fpx p0" and fl: "length fpx = k_NIJ k" "narrow_px (k_dt k) fpx"
    and t: "tail_planes e k c fs sp = Inr (fs1, sp1, n)" "tail_raw k c fs1 sp1 = Inr sp2"
    and d: "frame_inv k fpx (k_i0 k) fs1" "f_pow fs1 = POW e k fpx p0 (k_i0 k)" "space_ok k sp2"
      "(if k_pixels k then load_pixels (k_NB k) (ck_mem c) (k_i0 k * k_NB k) ((k_raw k + k_tail k) div k_NB k)
        else load_pixels (k_NB k) (s_block sp2) 0 ((k_raw k + k_tail k) div k_NB k)) = Inr (drop (k_i0 k) fpx)"
    and nout: "k_step k BSLZ4_STEP_DOT = BSLZ4_DOT_CSC_NOSPLIT_INT \<Longrightarrow> k_nout k \<le> length (POW e k fpx p0 (k_NIJ k))"
  shows "\<exists>fs' sp'. tail_step e k c (fs, sp) = Inr (fs', sp') \<and> frame_done k fpx (pow_end k (POW e k fpx p0 (k_NIJ k))) fs' \<and> space_ok k sp'"
proof -
  have k: "call_ok e k" "cuts_ok k" using served[OF R] by simp_all
  note te = tail_elems[OF k(1)]
  let ?ne = "(k_raw k + k_tail k) div k_NB k" and ?px = "drop (k_i0 k) fpx"
  have ne: "k_i0 k + ?ne = k_NIJ k" "?ne \<le> k_elems k"
    using te(4,5,9) div_le_mono[of "k_remaining k" "k_bs k" "k_NB k"] by (simp_all add: k_elems_def)
  have i0: "k_i0 k \<le> k_NIJ k" using ne(1) by simp
  from frame_raise_ok[OF k d(1) i0] obtain fs2 where r: "frame_raise k fs1 = Inr fs2" "frame_inv k fpx (k_i0 k) fs2" "f_pow fs2 = f_pow fs1" by auto
  have ct: "frame_cut k fs2 = Inr (lev_cuts k (f_level fs2))" by (rule frame_cut_ok[OF k(2)]) (use r(2) in \<open>simp add: frame_inv_def\<close>)
  have s: "sees k (k_emask k = None) (k_i0 k) ?ne ?px fpx"
    by (rule sees_plain) (use fl ne(1) in \<open>auto simp: narrow_px_drop add.commute\<close>)
  have p2: "f_pow fs2 = POW e k fpx p0 (k_i0 k)" using r(3) d(2) by simp
  have sp': "k_is_dot k \<and> (k_is_dot k \<and> tail_sparse k n) \<longleftrightarrow> k_is_dot k \<and> tail_sparse k n" by blast
  have le: "k_i0 k + ?ne \<le> k_NIJ k" using ne(1) by simp
  from collect_ok[OF R s le ne(2) r(2) p2 d(3), of "k_is_dot k \<and> tail_sparse k n"] obtain fs3 sp3 where
    g: "collect_block e k (k_is_dot k \<and> tail_sparse k n) (call_work k (k_emask k = None) (lev_cuts k (f_level fs2)) (k_is_dot k \<and> tail_sparse k n) ?ne (k_i0 k) ?px) fs2 sp2 = Inr (fs3, sp3)"
    "frame_inv k fpx (k_NIJ k) fs3" "f_pow fs3 = POW e k fpx p0 (k_NIJ k)" "space_ok k sp3" unfolding sp' ne(1) by blast
  obtain fs4 where h: "(if k_step k BSLZ4_STEP_DOT = BSLZ4_DOT_CSC_NOSPLIT_INT then rbind (bslz4_powder_i64_to_f64 (f_pow fs3) (k_nout k)) (\<lambda>pow. Inr (fs3\<lparr>f_pow := pow\<rparr>)) else Inr fs3)
      = Inr fs4" "frame_inv k fpx (k_NIJ k) fs4" "f_pow fs4 = pow_end k (POW e k fpx p0 (k_NIJ k))"
  proof (cases "k_step k BSLZ4_STEP_DOT = BSLZ4_DOT_CSC_NOSPLIT_INT")
    case True
    have "bslz4_powder_i64_to_f64 (f_pow fs3) (k_nout k) = Inr (pow_end k (f_pow fs3))"
      using powder_i64_to_f64_ok nout[OF True] g(3) True by (simp add: pow_end_def)
    then show ?thesis using that[of "fs3\<lparr>f_pow := pow_end k (f_pow fs3)\<rparr>"] True g(2,3) by (simp add: frame_inv_def rows_ok_def list_in_def)
  qed (use that[of fs3] g(2,3) in \<open>simp add: pow_end_def\<close>)
  from frame_finish_ok[OF k h(2)] h(3) obtain fs5 where "frame_finish k fs4 = Inr fs5" "frame_done k fpx (pow_end k (POW e k fpx p0 (k_NIJ k))) fs5" by auto
  then show ?thesis unfolding tail_step_def prod.case t rbind.simps r(1) ct Let_def d(4) g(1) h(1) using g(4) by auto
qed

lemma tail_step_ok:
  assumes e: "env_ok e" and R: "runs e k fpx p0" and c: "readable_chunk c" "call_pixels e k c = Some fpx"
    and pos: "at_block e k c (full_blocks (k_total k) (k_bs k)) (f_cursor fs)"
    and f: "frame_inv k fpx (k_i0 k) fs" "f_pow fs = POW e k fpx p0 (k_i0 k)" and sp: "space_ok k sp"
    and nout: "k_step k BSLZ4_STEP_DOT = BSLZ4_DOT_CSC_NOSPLIT_INT \<Longrightarrow> k_nout k \<le> length (POW e k fpx p0 (k_NIJ k))"
  shows "\<exists>fs' sp'. tail_step e k c (fs, sp) = Inr (fs', sp') \<and> frame_done k fpx (pow_end k (POW e k fpx p0 (k_NIJ k))) fs' \<and> space_ok k sp'"
proof -
  have k: "call_ok e k" using served[OF R] by simp
  note fl = call_pixels_length[OF e k c] call_pixels_narrow[OF e k c]
  show ?thesis
  proof (cases "k_pixels k")
    case False
    from tail_data_ok[OF e k c False pos sp] obtain en sp1 sp2 n where t: "tail_planes e k c fs sp = Inr (fs\<lparr>f_cursor := en\<rparr>, sp1, n)"
      "tail_raw k c (fs\<lparr>f_cursor := en\<rparr>) sp1 = Inr sp2" "space_ok k sp2"
      "load_pixels (k_NB k) (s_block sp2) 0 ((k_raw k + k_tail k) div k_NB k) = Inr (drop (k_i0 k) fpx)" by blast
    have "frame_inv k fpx (k_i0 k) (fs\<lparr>f_cursor := en\<rparr>)" "f_pow (fs\<lparr>f_cursor := en\<rparr>) = POW e k fpx p0 (k_i0 k)"
      using f by (simp_all add: frame_inv_def rows_ok_def list_in_def)
    from tail_step_loaded[OF e R fl t(1,2) this t(3) _ nout] t(4) False show ?thesis by simp
  next
    case True
    note sz = call_sizes[OF k] and te = tail_elems[OF k]
    let ?m = "take (k_total k) (ck_mem c)" and ?q = "k_i0 k * k_NB k" and ?ne = "(k_raw k + k_tail k) div k_NB k"
    have fp: "fpx = bytes_pixels (k_NB k) ?m" "k_total k \<le> length (ck_mem c)" using True c by (auto simp: call_pixels_def readable_chunk_def split: if_splits)
    have tt: "k_total k = k_NIJ k * k_NB k" using call_ok_nb[OF k] by simp
    have "k_i0 k + ?ne = k_NIJ k" using te(4,5) by simp
    then have q: "?q + k_NB k * ?ne = k_total k" unfolding tt by (metis distrib_right mult.commute)
    have "length (take ?q ?m) = ?q" using q fp(2) by simp
    then have dv: "k_NB k dvd length (take ?q ?m)" "length (take ?q ?m) div k_NB k = k_i0 k" using sz(2) by simp_all
    have px: "bytes_pixels (k_NB k) (drop ?q ?m) = drop (k_i0 k) fpx"
      using bytes_pixels_append[OF dv(1) sz(2), of "drop ?q ?m"] dv(2) unfolding append_take_drop_id fp(1)[symmetric] by simp
    have nq: "k_NB k * ?ne = k_total k - ?q" using q by linarith
    have "take (k_NB k * ?ne) (drop ?q (ck_mem c)) = drop ?q ?m" unfolding drop_take nq ..
    then have "load_pixels (k_NB k) (ck_mem c) ?q ?ne = Inr (drop (k_i0 k) fpx)" using load_pixels_eq[of ?q "k_NB k" ?ne "ck_mem c"] q fp(2) sz(2) px by simp
    moreover have "tail_planes e k c fs sp = Inr (fs, sp, 0)" "tail_raw k c fs sp = Inr sp" using True te(11)[OF True] by (simp_all add: tail_planes_def tail_raw_def)
    ultimately show ?thesis using tail_step_loaded[OF e R fl _ _ f sp _ nout] True by simp
  qed
qed

end

end
