(* ===== verification/DriverRun.thy ===== *)
theory DriverRun
  imports DriverTail
begin

text \<open>
  The loops of a batch over any kernels that keep \<open>back_half\<close>, the start of a call, and what the checks of a call leave: from the caller's
  arrays to the frames' lists.
\<close>

section \<open>A loop over the frames\<close>

lemma with_frames_ok:
  assumes "length chunks \<le> length frames" "I sp"
    and step: "\<And>f sp. f < length chunks \<Longrightarrow> I sp \<Longrightarrow> \<exists>fs' sp'. step (chunks ! f) (frames ! f, sp) = Inr (fs', sp') \<and> Q f fs' \<and> I sp'"
  shows "\<exists>frames' sp'. fold_res (with_frame step chunks) [0..<length chunks] (frames, sp) = Inr (frames', sp') \<and> length frames' = length frames
    \<and> (\<forall>f<length chunks. Q f (frames' ! f)) \<and> I sp'"
proof -
  let ?I = "\<lambda>j (s :: frame_st list \<times> space). length (fst s) = length frames \<and> (\<forall>f<j. Q f (fst s ! f)) \<and> (\<forall>f\<ge>j. fst s ! f = frames ! f) \<and> I (snd s)"
  have "\<exists>s'. fold_res (with_frame step chunks) [0..<length chunks] (frames, sp) = Inr s' \<and> ?I (length chunks) s'"
  proof (rule fold_upt_inv[where I = ?I])
    show "?I 0 (frames, sp)" using assms(2) by simp
  next
    fix j and s :: "frame_st list \<times> space" assume j: "j < length chunks" and i: "?I j s"
    obtain fr q where s: "s = (fr, q)" by (cases s)
    have fr: "length fr = length frames" "fr ! j = frames ! j" "I q" using i s by simp_all
    from step[OF j fr(3)] obtain fs' sp' where r: "step (chunks ! j) (frames ! j, q) = Inr (fs', sp')" "Q j fs'" "I sp'" by blast
    have jl: "j < length fr" using j assms(1) fr(1) by simp
    have "with_frame step chunks j s = Inr (fr[j := fs'], sp')" unfolding s using j jl r(1) fr(2) by (simp add: with_frame_def load_ok store_ok)
    moreover have "?I (Suc j) (fr[j := fs'], sp')" using i s r(2,3) jl by (auto simp: nth_list_update less_Suc_eq)
    ultimately show "\<exists>s'. with_frame step chunks j s = Inr s' \<and> ?I (Suc j) s'" by blast
  qed
  then show ?thesis by fastforce
qed

section \<open>The blocks of a batch\<close>

text \<open>Chunks the codec reads, each holding a frame the kernels serve from the powder \<open>p0 f\<close>.\<close>

definition batch_ok :: "(env \<Rightarrow> call \<Rightarrow> pix list \<Rightarrow> 64 word list \<Rightarrow> bool) \<Rightarrow> env \<Rightarrow> call \<Rightarrow> chunk list \<Rightarrow> (nat \<Rightarrow> pix list) \<Rightarrow> (nat \<Rightarrow> 64 word list) \<Rightarrow> bool" where
  "batch_ok runs e k chunks F p0 \<longleftrightarrow> env_ok e \<and> call_ok e k
     \<and> (\<forall>f<length chunks. readable_chunk (chunks ! f) \<and> call_pixels e k (chunks ! f) = Some (F f) \<and> runs e k (F f) (p0 f))"

text \<open>Every frame after \<open>b\<close> blocks, and the powders of the frames' prefixes.\<close>

definition frame_at :: "env \<Rightarrow> call \<Rightarrow> chunk list \<Rightarrow> (nat \<Rightarrow> pix list) \<Rightarrow> (nat \<Rightarrow> nat \<Rightarrow> 64 word list) \<Rightarrow> nat \<Rightarrow> nat \<Rightarrow> frame_st \<Rightarrow> bool" where
  "frame_at e k chunks F pw b f fs \<longleftrightarrow> frame_inv k (F f) (b * k_elems k) fs \<and> f_pow fs = pw f (b * k_elems k) \<and> at_block e k (chunks ! f) b (f_cursor fs)"

lemma bits_ok_pack:
  assumes k: "call_ok e k" and sp: "space_ok k sp" and i: "i0 + k_elems k \<le> k_NIJ k"
  shows "\<exists>bits unmasked. (if k_maskplanes k then bslz4_pack_mask (e_host e) (s_bits sp) (drop i0 (k_mask k)) (k_elems k) else Inr (s_bits sp, False))
      = Inr (bits, unmasked) \<and> bits_ok k i0 unmasked bits \<and> space_ok k (sp\<lparr>s_bits := bits\<rparr>)"
proof (cases "k_maskplanes k")
  case False
  then show ?thesis by (intro exI[of _ "s_bits sp"] exI[of _ False]) (use sp in \<open>simp add: bits_ok_def\<close>)
next
  case True
  then have m: "k_elems k mod 64 = 0" "k_elems k \<le> 8192" by (simp_all add: k_maskplanes_def BSLZ4_MASKPLANE_MAX_ELEMS_def)
  have lm: "k_NIJ k \<le> length (k_mask k)" using k unfolding call_ok_def by blast
  have sz: "k_elems k \<le> length (drop i0 (k_mask k))" "k_elems k div 64 \<le> length (s_bits sp)" using i lm m(2) sp by (auto simp: space_ok_def)
  from pack_mask_ok[OF m(1) sz, of "e_host e"] obtain bits where
    b: "bslz4_pack_mask (e_host e) (s_bits sp) (drop i0 (k_mask k)) (k_elems k) = Inr (bits, \<forall>j<k_elems k. drop i0 (k_mask k) ! j \<noteq> 0)" "length bits = length (s_bits sp)"
      "\<forall>j<k_elems k. bit (bits ! (j div 64)) (j mod 64) \<longleftrightarrow> drop i0 (k_mask k) ! j \<noteq> 0" by blast
  have d: "drop i0 (k_mask k) ! j = k_mask k ! (j + i0)" for j using i lm by (simp add: add.commute)
  have "bits_ok k i0 (\<forall>j<k_elems k. drop i0 (k_mask k) ! j \<noteq> 0) bits" using b(3) by (simp add: bits_ok_def d)
  moreover have "space_ok k (sp\<lparr>s_bits := bits\<rparr>)" using sp b(2) by (simp add: space_ok_def)
  ultimately show ?thesis using True b(1) by auto
qed

context back_half
begin

lemma block_row_ok:
  assumes ok: "batch_ok runs e k chunks F p0" and b: "b < full_blocks (k_total k) (k_bs k)"
    and fr: "length chunks \<le> length frames" "\<forall>f<length chunks. frame_at e k chunks F (\<lambda>f. POW e k (F f) (p0 f)) b f (frames ! f)" and sp: "space_ok k sp"
  shows "\<exists>frames' sp'. block_row e k chunks b (frames, sp) = Inr (frames', sp') \<and> length frames' = length frames
    \<and> (\<forall>f<length chunks. frame_at e k chunks F (\<lambda>f. POW e k (F f) (p0 f)) (Suc b) f (frames' ! f)) \<and> space_ok k sp'"
proof -
  have e: "env_ok e" and k: "call_ok e k" using ok by (simp_all add: batch_ok_def)
  note te = tail_elems[OF k]
  let ?i0 = "b * k_elems k"
  have "Suc b * k_elems k \<le> full_blocks (k_total k) (k_bs k) * k_elems k" using b by (intro mult_le_mono1) simp
  then have i: "?i0 + k_elems k \<le> k_NIJ k" using te(1,5) by simp
  from bits_ok_pack[OF k sp i] obtain bits unmasked where
    p: "(if k_maskplanes k then bslz4_pack_mask (e_host e) (s_bits sp) (drop ?i0 (k_mask k)) (k_elems k) else Inr (s_bits sp, False)) = Inr (bits, unmasked)"
      "bits_ok k ?i0 unmasked bits" "space_ok k (sp\<lparr>s_bits := bits\<rparr>)" by blast
  have go: "block_row e k chunks b (frames, sp) = fold_res (with_frame (block_step e k ?i0 unmasked) chunks) [0..<length chunks] (frames, sp\<lparr>s_bits := bits\<rparr>)"
    unfolding block_row_def prod.case Let_def p(1) rbind.simps ..
  have "\<exists>frames' sp'. fold_res (with_frame (block_step e k ?i0 unmasked) chunks) [0..<length chunks] (frames, sp\<lparr>s_bits := bits\<rparr>) = Inr (frames', sp')
    \<and> length frames' = length frames \<and> (\<forall>f<length chunks. frame_at e k chunks F (\<lambda>f. POW e k (F f) (p0 f)) (Suc b) f (frames' ! f)) \<and> (space_ok k sp' \<and> s_bits sp' = bits)"
  proof (rule with_frames_ok[OF fr(1)])
    show "space_ok k (sp\<lparr>s_bits := bits\<rparr>) \<and> s_bits (sp\<lparr>s_bits := bits\<rparr>) = bits" using p(3) by simp
  next
    fix f q assume f: "f < length chunks" and q: "space_ok k q \<and> s_bits q = bits"
    have c: "readable_chunk (chunks ! f)" "call_pixels e k (chunks ! f) = Some (F f)" "runs e k (F f) (p0 f)" using ok f by (simp_all add: batch_ok_def)
    have a: "frame_inv k (F f) ?i0 (frames ! f)" "f_pow (frames ! f) = POW e k (F f) (p0 f) ?i0" "at_block e k (chunks ! f) b (f_cursor (frames ! f))"
      using fr(2) f by (simp_all add: frame_at_def)
    from block_at_ok[OF e k c(1,2) b a(3)] obtain pos' where pos: "block_at e k (chunks ! f) (F f) ?i0 (f_cursor (frames ! f)) pos'" "at_block e k (chunks ! f) (Suc b) pos'" by blast
    have s: "space_ok k q" "bits_ok k ?i0 unmasked (s_bits q)" using q p(2) by simp_all
    from block_step_ok[OF e c(3,1) pos(1) a(1,2) i call_pixels_length[OF e k c(1,2)] call_pixels_narrow[OF e k c(1,2)] s] obtain fs' sp' where
      r: "block_step e k ?i0 unmasked (chunks ! f) (frames ! f, q) = Inr (fs', sp')" "frame_inv k (F f) (?i0 + k_elems k) fs'"
        "f_pow fs' = POW e k (F f) (p0 f) (?i0 + k_elems k)" "f_cursor fs' = pos'" "space_ok k sp'" "s_bits sp' = s_bits q" by blast
    then show "\<exists>fs' sp'. block_step e k ?i0 unmasked (chunks ! f) (frames ! f, q) = Inr (fs', sp')
        \<and> frame_at e k chunks F (\<lambda>f. POW e k (F f) (p0 f)) (Suc b) f fs' \<and> space_ok k sp' \<and> s_bits sp' = bits"
      using pos(2) q by (simp add: frame_at_def add.commute)
  qed
  then show ?thesis unfolding go by blast
qed

lemma driver_loops_ok:
  assumes ok: "batch_ok runs e k chunks F p0"
    and fr: "length chunks \<le> length frames" "\<forall>f<length chunks. frame_at e k chunks F (\<lambda>f. POW e k (F f) (p0 f)) 0 f (frames ! f)" and sp: "space_ok k sp"
    and nout: "\<And>f. f < length chunks \<Longrightarrow> k_step k BSLZ4_STEP_DOT = BSLZ4_DOT_CSC_NOSPLIT_INT \<Longrightarrow> k_nout k \<le> length (POW e k (F f) (p0 f) (k_NIJ k))"
  shows "\<exists>frames' sp'. driver_loops e k chunks (frames, sp) = Inr (frames', sp') \<and> length frames' = length frames
    \<and> (\<forall>f<length chunks. frame_done k (F f) (pow_end k (POW e k (F f) (p0 f) (k_NIJ k))) (frames' ! f)) \<and> space_ok k sp'"
proof -
  have e: "env_ok e" and k: "call_ok e k" using ok by (simp_all add: batch_ok_def)
  let ?full = "full_blocks (k_total k) (k_bs k)" and ?at = "frame_at e k chunks F (\<lambda>f. POW e k (F f) (p0 f))"
  let ?I = "\<lambda>b (s :: frame_st list \<times> space). length (fst s) = length frames \<and> (\<forall>f<length chunks. ?at b f (fst s ! f)) \<and> space_ok k (snd s)"
  have "\<exists>s'. fold_res (block_row e k chunks) [0..<?full] (frames, sp) = Inr s' \<and> ?I ?full s'"
  proof (rule fold_upt_inv[where I = ?I])
    show "?I 0 (frames, sp)" using fr(2) sp by simp
  next
    fix b and s :: "frame_st list \<times> space" assume b: "b < ?full" and i: "?I b s"
    obtain fs q where s: "s = (fs, q)" by (cases s)
    have "length chunks \<le> length fs" using fr(1) i s by simp
    from block_row_ok[OF ok b this, of q] i s obtain frames' sp' where "block_row e k chunks b s = Inr (frames', sp')" "length frames' = length fs"
      "\<forall>f<length chunks. ?at (Suc b) f (frames' ! f)" "space_ok k sp'" by auto
    then show "\<exists>s'. block_row e k chunks b s = Inr s' \<and> ?I (Suc b) s'" using i s by (intro exI[of _ "(frames', sp')"]) simp
  qed
  then obtain frames1 sp1 where l: "fold_res (block_row e k chunks) [0..<?full] (frames, sp) = Inr (frames1, sp1)" "length frames1 = length frames"
    "\<forall>f<length chunks. ?at ?full f (frames1 ! f)" "space_ok k sp1" by fastforce
  have fr1: "length chunks \<le> length frames1" using fr(1) l(2) by simp
  have "\<exists>frames' sp'. fold_res (with_frame (tail_step e k) chunks) [0..<length chunks] (frames1, sp1) = Inr (frames', sp') \<and> length frames' = length frames1
    \<and> (\<forall>f<length chunks. frame_done k (F f) (pow_end k (POW e k (F f) (p0 f) (k_NIJ k))) (frames' ! f)) \<and> space_ok k sp'"
  proof (rule with_frames_ok[where I = "space_ok k" and frames = frames1 and sp = sp1, OF fr1 l(4)])
    fix f q assume f: "f < length chunks" and q: "space_ok k q"
    have c: "readable_chunk (chunks ! f)" "call_pixels e k (chunks ! f) = Some (F f)" "runs e k (F f) (p0 f)" using ok f by (simp_all add: batch_ok_def)
    have a: "frame_inv k (F f) (k_i0 k) (frames1 ! f)" "f_pow (frames1 ! f) = POW e k (F f) (p0 f) (k_i0 k)" "at_block e k (chunks ! f) ?full (f_cursor (frames1 ! f))"
      using l(3) f tail_elems(1)[OF k] by (simp_all add: frame_at_def)
    show "\<exists>fs' sp'. tail_step e k (chunks ! f) (frames1 ! f, q) = Inr (fs', sp') \<and> frame_done k (F f) (pow_end k (POW e k (F f) (p0 f) (k_NIJ k))) fs' \<and> space_ok k sp'"
      by (rule tail_step_ok[OF e c(3,1,2) a(3,1,2) q nout[OF f]])
  qed
  then show ?thesis unfolding driver_loops_def l(1) rbind.simps l(2) .
qed

end

section \<open>The start of a call\<close>

text \<open>The powder before the first block.\<close>

definition pow_start :: "call \<Rightarrow> 64 word list \<Rightarrow> 64 word list" where
  "pow_start k pow = (if k_is_dot k then replicate (k_nout k) 0 @ drop (k_nout k) pow else pow)"

lemma frame_init_ok:
  assumes "rows_ok k fs" "k_is_dot k \<Longrightarrow> k_nout k \<le> length (f_pow fs)"
  shows "\<exists>fs'. frame_init k fs = Inr fs' \<and> frame_inv k fpx 0 fs' \<and> f_pow fs' = pow_start k (f_pow fs) \<and> at_block e k c 0 (f_cursor fs')"
proof -
  have p: "(if k_is_dot k then store_n (f_pow fs) 0 (replicate (k_nout k) 0) else Inr (f_pow fs)) = Inr (pow_start k (f_pow fs))"
    using assms(2) by (simp add: pow_start_def store_n_ok blit_def)
  let ?fs = "fs\<lparr>f_pow := pow_start k (f_pow fs), f_npx := 0, f_cursor := if k_pixels k then 0 else 12\<rparr>"
  have "frame_init k fs = Inr (if k_top k = None then ?fs else ?fs\<lparr>f_level := -1, f_nabove := 0\<rparr>)"
    unfolding frame_init_def p by (simp add: Let_def)
  then show ?thesis using assms(1) at_block_0[of e k c]
    by (cases "k_top k") (auto simp: frame_inv_def rows_ok_def list_in_def flist_def picked_def lev_ok_def left_ok_def)
qed

lemma cut_space_ok:
  assumes "call_ok e k" "ctrs_ok ctrs" "3 * k_bs k + (if k_is_dot k then k_elems k * (4 + k_NB k) else 0) \<le> length ws"
  shows "\<exists>sp. cut_space k ws ctrs = Inr sp \<and> space_ok k sp \<and> s_ctrs sp = ctrs"
proof -
  define ne where "ne = (if k_is_dot k then k_elems k else 0)"
  have NB: "0 < k_NB k" using call_sizes(2)[OF assms(1)] .
  have l: "3 * k_bs k + 4 * ne + k_NB k * ne \<le> length ws" using assms(3) by (auto simp: ne_def algebra_simps)
  have r: "load_n ws 0 (2 * k_bs k) = Inr (take (2 * k_bs k) ws)" "load_n ws (2 * k_bs k) (k_bs k) = Inr (take (k_bs k) (drop (2 * k_bs k) ws))"
    using l by (simp_all add: load_n_ok)
  have p: "load_pixels 4 ws (3 * k_bs k) ne = Inr (bytes_pixels 4 (take (4 * ne) (drop (3 * k_bs k) ws)))"
    by (rule load_pixels_eq) (use l in simp_all)
  have q: "load_pixels (k_NB k) ws (3 * k_bs k + 4 * ne) ne = Inr (bytes_pixels (k_NB k) (take (k_NB k * ne) (drop (3 * k_bs k + 4 * ne) ws)))"
    by (rule load_pixels_eq) (use l NB in simp_all)
  have "length (bytes_pixels 4 (take (4 * ne) (drop (3 * k_bs k) ws))) = ne" "length (bytes_pixels (k_NB k) (take (k_NB k * ne) (drop (3 * k_bs k + 4 * ne) ws))) = ne"
    using l NB by simp_all
  moreover have "k_is_dot k \<Longrightarrow> ne = k_elems k" by (simp add: ne_def)
  ultimately show ?thesis unfolding cut_space_def Let_def ne_def[symmetric] r p q rbind.simps
    using l assms(2) by (auto simp: space_ok_def BSLZ4_MASKPLANE_MAX_ELEMS_def)
qed

end
