(* ===== verification/DriverCall.thy ===== *)
theory DriverCall
  imports DriverRun
begin

text \<open>
  A whole call of \<open>bslz4_driver_run\<close>: what its checks leave, and the lists of a batch. A plain sparsify lists, for every pipeline, build and
  CPU, exactly the frame's unmasked pixels above the cut; with a top-pixels request it ends at the level an offline search ends at.
\<close>

section \<open>The checks\<close>

lemma read_cut_ok:
  assumes "read_cut dt cut_buf ncut = Inr (ci, cf)"
  shows "cut_ok dt ci cf" "0 \<le> dt" "dt \<le> 9"
proof -
  obtain bs where bs: "cut_buf = Some bs" using assms by (auto simp: read_cut_def split: option.splits)
  have dt: "\<not> (dt < 0 \<or> dt > 9)" using assms bs by (auto simp: read_cut_def split: if_splits)
  then show "0 \<le> dt" "dt \<le> 9" by simp_all
  define g :: "pix \<Rightarrow> (int \<times> f64) res" where "g v = (let ci = (if is_float dt then 0 else if dt = 3 then sint v else px_int dt v); cf = (if is_float dt then px_f64 dt v else 0) in
      if dt < 4 then Inr (ci, cf)
      else if (if is_float dt then \<not> f64_ge0 cf else ci < 0) then Inl (Code BSLZ4_ERR_BAD_THRESHOLD) else Inr (ci, cf))" for v
  have "read_cut dt (Some bs) ncut = (if ncut \<noteq> 1 then Inl (Code BSLZ4_ERR_BAD_CUT) else rbind (load_pixels (bslz4_elem_size dt) bs 0 1) (\<lambda>px. rbind (load px 0) g))"
    using dt by (simp add: read_cut_def g_def[abs_def])
  then obtain v where v: "g v = Inr (ci, cf)" using assms bs by (auto simp: rbind_Inr_iff split: if_splits)
  show "cut_ok dt ci cf"
  proof (cases "dt < 4")
    case True
    have "0 \<le> px_int dt v" if "dt < 4" using that by (simp add: px_int_def is_signed_def)
    then show ?thesis using v True by (cases "dt = 3") (auto simp: g_def cut_ok_def is_float_def Let_def)
  next
    case False
    then show ?thesis using v by (auto simp: g_def cut_ok_def is_float_def f64_ge0_def Let_def split: if_splits)
  qed
qed

text \<open>Blocks of whole groups of 8 pixels; the VSX collect reads groups of 64.\<close>

definition blocks_ok :: "call \<Rightarrow> bool" where
  "blocks_ok k \<longleftrightarrow> whole_groups (k_NB k) (k_bs k) \<and> (k_step k BSLZ4_STEP_UNTRANSPOSE = BSLZ4_UNTRANSPOSE_LOWPLANES_VSX \<longrightarrow> k_elems k mod 64 = 0)"

lemma available_small: "bslz4_step_available h (int s) v = 1 \<Longrightarrow> 0 \<le> v \<and> v < 16"
  using available_slot[of h "int s" v] by simp

lemma frame_size_pos: "frame_size NIJ NB px chunks = Inr (t, b) \<Longrightarrow> 0 < b"
  by (auto simp: frame_size_def rbind_Inr_iff BSLZ4_DEFAULT_BLOCK_BYTES_def dest: check_frames_block split: if_splits)

lemma driver_checks_ok:
  assumes p: "pipe_ok (e_host e) dt pl layout p" and c: "driver_checks p chunks msk NIJ cut_buf ncut nout mat wl tp = Inr k"
    and n: "0 \<le> NIJ" "NIJ < 2 ^ 31" "nat NIJ \<le> length msk" and b: "blocks_ok k"
  shows "call_ok e k" "k_dt k = dt" "k_NIJ k = nat NIJ" "k_pipe k = p" "k_nout k = nout" "k_mat k = mat" "k_mask k = msk" "k_top k = tp"
    "cut_ok dt (k_cut_i k) (k_cut_f k)" "3 * k_bs k + (if k_is_dot k then k_elems k * (4 + k_NB k) else 0) \<le> wl"
    "case tp of None \<Rightarrow> True | Some t \<Rightarrow> 0 \<le> t_howmany t \<and> 0 \<le> t_nthr t"
    "read_cut dt cut_buf ncut = Inr (k_cut_i k, k_cut_f k)" "\<exists>tot. frame_size NIJ (bslz4_elem_size dt) (k_pixels k) chunks = Inr (tot, k_bs k)"
proof -
  obtain ci cf tot bs where r: "read_cut (p_dtype p) cut_buf ncut = Inr (ci, cf)" "\<not> (case tp of None \<Rightarrow> False | Some t \<Rightarrow> t_howmany t < 0 \<or> t_nthr t < 0)"
    "frame_size NIJ (p_elem_size p) (p_step p ! nat BSLZ4_STEP_DECODE = BSLZ4_DECODE_PIXELS) chunks = Inr (tot, bs)"
    "tot = word_of_int NIJ * word_of_nat (p_elem_size p)" "uint tot \<le> INT32_MAX"
    "\<not> wl < 3 * bs + (if p_step p ! nat BSLZ4_STEP_DOT \<noteq> 0 then bs div p_elem_size p * (4 + p_elem_size p) else 0)"
    "k = \<lparr>k_pipe = p, k_NIJ = nat NIJ, k_mask = msk, k_mat = mat, k_nout = nout, k_top = tp, k_cut_i = ci, k_cut_f = cf, k_bs = bs, k_total = unat tot\<rparr>"
    using c by (auto simp: driver_checks_def rbind_Inr_iff Let_def split: if_splits)
  have pp: "0 \<le> dt" "dt \<le> 9" "p_dtype p = dt" "p_elem_size p = bslz4_elem_size dt" "length (p_step p) = 6" using p by (simp_all add: pipe_ok_def)
  show f: "k_dt k = dt" "k_NIJ k = nat NIJ" "k_pipe k = p" "k_nout k = nout" "k_mat k = mat" "k_mask k = msk" "k_top k = tp" using r(7) pp(3) by (simp_all add: k_dt_def)
  show "cut_ok dt (k_cut_i k) (k_cut_f k)" using read_cut_ok(1)[OF r(1)] r(7) pp(3) by simp
  show "read_cut dt cut_buf ncut = Inr (k_cut_i k, k_cut_f k)" using r(1,7) pp(3) by simp
  show "\<exists>tot. frame_size NIJ (bslz4_elem_size dt) (k_pixels k) chunks = Inr (tot, k_bs k)" using r(3,7) pp(4) by (simp add: k_pixels_def k_step_def)
  have NB: "k_NB k = bslz4_elem_size dt" using r(7) pp(4) by (simp add: k_NB_def)
  show "3 * k_bs k + (if k_is_dot k then k_elems k * (4 + k_NB k) else 0) \<le> wl"
    using r(6,7) by (simp add: k_is_dot_def k_step_def k_elems_def k_NB_def split: if_splits)
  show "case tp of None \<Rightarrow> True | Some t \<Rightarrow> 0 \<le> t_howmany t \<and> 0 \<le> t_nthr t" using r(2) by (cases tp) auto
  have NB8: "bslz4_elem_size dt \<le> 8" using dtype_cases[OF pp(1,2)] by (auto simp: bslz4_elem_size_def)
  have "unat tot = nat NIJ * bslz4_elem_size dt"
  proof -
    have "nat NIJ * bslz4_elem_size dt \<le> nat NIJ * 8" using NB8 by simp
    also have "\<dots> < 2 ^ 31 * 8" using n(1,2) by (simp add: nat_less_iff)
    finally have lt: "nat NIJ * bslz4_elem_size dt < 2 ^ 64" by simp
    have "tot = word_of_nat (nat NIJ * bslz4_elem_size dt)" using r(4) pp(4) n(1) by (simp add: of_nat_nat)
    moreover have "unat (word_of_nat x :: 64 word) = x" if "x < 2 ^ 64" for x using that by (simp add: unat_of_nat)
    ultimately show ?thesis using lt by blast
  qed
  then have tot: "k_total k = k_NIJ k * k_NB k" using r(7) NB by simp
  have av: "if plain_skips (layout \<ge> 0) s then p_step p ! s = 0 \<and> uint (pl ! s) = 0
      else p_step p ! s = uint (pl ! s) \<and> bslz4_step_available (e_host e) (int s) (p_step p ! s) = 1" if "s < 6" for s
    using p that unfolding pipe_ok_def by blast
  have st: "0 \<le> p_step p ! s \<and> p_step p ! s < 16" if "s < 6" for s
    using av[OF that] available_small[of "e_host e" s "p_step p ! s"] by (auto split: if_splits)
  have lo: "k_dt k = 1 \<and> bslz4_lowplanes_capable (e_host e) (k_step k BSLZ4_STEP_UNTRANSPOSE)" if "k_lowplanes k"
  proof -
    have u: "k_step k BSLZ4_STEP_UNTRANSPOSE = p_step p ! 2" using f(3) by (simp add: k_step_def step_values)
    have le: "p_step p ! 2 \<le> BSLZ4_UNTRANSPOSE_LOWPLANES_C" using that u by (simp add: k_lowplanes_def)
    have np: "\<not> plain_skips (layout \<ge> 0) 2" by (simp add: plain_skips_def step_values)
    have two: "2 < (6 :: nat)" by simp
    have "bslz4_step_available (e_host e) (int 2) (p_step p ! 2) = 1" by (rule conjunct2[OF av[OF two, unfolded if_not_P[OF np]]])
    then have a: "bslz4_step_available (e_host e) 2 (p_step p ! 2) = 1" by simp
    have "dt = 1" using p le by (simp add: pipe_ok_def)
    moreover have "bslz4_lowplanes_capable (e_host e) (p_step p ! 2)"
      using a le st[of 2] by (auto simp: bslz4_step_available_def step_values Let_def split: if_splits)
    ultimately show ?thesis using f(1) u by simp
  qed
  have "0 < k_bs k" using frame_size_pos[OF r(3)] r(7) by simp
  then show "call_ok e k" unfolding call_ok_def using pp(1,2) f NB st lo b tot n by (auto simp: blocks_ok_def)
qed

section \<open>A batch\<close>

definition frame_list :: "frame_st \<Rightarrow> (pix \<times> 32 word) list" where
  "frame_list fs = zip (take (nat (f_npx fs)) (f_vals fs)) (take (nat (f_npx fs)) (f_adr fs))"

lemma frame_list_in: "list_in fs L \<Longrightarrow> frame_list fs = L"
  by (simp add: list_in_def frame_list_def zip_map_fst_snd)

text \<open>The caller's rows, one per frame.\<close>

definition rows_for :: "call \<Rightarrow> chunk list \<Rightarrow> frame_st list \<Rightarrow> bool" where
  "rows_for k chunks frames \<longleftrightarrow> length chunks \<le> length frames
     \<and> (\<forall>f<length chunks. rows_ok k (frames ! f) \<and> (k_is_dot k \<longrightarrow> k_nout k \<le> length (f_pow (frames ! f))))"

context back_half
begin

lemma driver_run_ok:
  assumes ok: "batch_ok runs e k chunks F (\<lambda>f. pow_start k (f_pow (frames ! f)))" and c: "driver_checks p chunks msk NIJ cut_buf ncut nout mat (length ws) tp = Inr k"
    and ws: "3 * k_bs k + (if k_is_dot k then k_elems k * (4 + k_NB k) else 0) \<le> length ws" and fr: "rows_for k chunks frames" "ctrs_ok ctrs"
    and pw: "\<And>f. f < length chunks \<Longrightarrow> POW e k (F f) (pow_start k (f_pow (frames ! f))) 0 = pow_start k (f_pow (frames ! f))"
    and nout: "\<And>f. f < length chunks \<Longrightarrow> k_step k BSLZ4_STEP_DOT = BSLZ4_DOT_CSC_NOSPLIT_INT
      \<Longrightarrow> k_nout k \<le> length (POW e k (F f) (pow_start k (f_pow (frames ! f))) (k_NIJ k))"
  shows "\<exists>frames' ctrs'. bslz4_driver_run e chunks msk NIJ frames cut_buf ncut nout mat ws p tp ctrs = Inr (frames', ctrs') \<and> length frames' = length frames
    \<and> (\<forall>f<length chunks. frame_done k (F f) (pow_end k (POW e k (F f) (pow_start k (f_pow (frames ! f))) (k_NIJ k))) (frames' ! f)) \<and> ctrs_ok ctrs'"
proof -
  have k: "call_ok e k" using ok by (simp add: batch_ok_def)
  define pw0 where "pw0 = (\<lambda>f. pow_start k (f_pow (frames ! f)))"
  have len: "length chunks \<le> length frames" using fr(1) by (simp add: rows_for_def)
  from cut_space_ok[OF k fr(2) ws] obtain sp where s: "cut_space k ws ctrs = Inr sp" "space_ok k sp" by blast
  have "\<exists>frames' sp'. fold_res (with_frame (\<lambda>_ (fs, sp). rbind (frame_init k fs) (\<lambda>fs. Inr (fs, sp))) chunks) [0..<length chunks] (frames, sp) = Inr (frames', sp')
    \<and> length frames' = length frames \<and> (\<forall>f<length chunks. frame_at e k chunks F (\<lambda>f. POW e k (F f) (pw0 f)) 0 f (frames' ! f)) \<and> space_ok k sp'"
  proof (rule with_frames_ok[where I = "space_ok k" and sp = sp, OF len s(2)])
    fix f q assume f: "f < length chunks" and q: "space_ok k q"
    have r: "rows_ok k (frames ! f)" "k_is_dot k \<Longrightarrow> k_nout k \<le> length (f_pow (frames ! f))" using fr(1) f by (simp_all add: rows_for_def)
    from frame_init_ok[OF r, of "F f" e "chunks ! f"] obtain fs' where i: "frame_init k (frames ! f) = Inr fs'" "frame_inv k (F f) 0 fs'"
      "f_pow fs' = pw0 f" "at_block e k (chunks ! f) 0 (f_cursor fs')" unfolding pw0_def by blast
    then show "\<exists>fs' sp'. (\<lambda>_ (fs, sp). rbind (frame_init k fs) (\<lambda>fs. Inr (fs, sp))) (chunks ! f) (frames ! f, q) = Inr (fs', sp')
        \<and> frame_at e k chunks F (\<lambda>f. POW e k (F f) (pw0 f)) 0 f fs' \<and> space_ok k sp'"
      using q pw[OF f] by (simp add: frame_at_def pw0_def)
  qed
  then obtain frames1 sp1 where i: "fold_res (with_frame (\<lambda>_ (fs, sp). rbind (frame_init k fs) (\<lambda>fs. Inr (fs, sp))) chunks) [0..<length chunks] (frames, sp) = Inr (frames1, sp1)"
    "length frames1 = length frames" "\<forall>f<length chunks. frame_at e k chunks F (\<lambda>f. POW e k (F f) (pw0 f)) 0 f (frames1 ! f)" "space_ok k sp1" by blast
  have len1: "length chunks \<le> length frames1" using len i(2) by simp
  from driver_loops_ok[OF ok[folded pw0_def] len1 i(3,4)] nout obtain frames2 sp2 where d: "driver_loops e k chunks (frames1, sp1) = Inr (frames2, sp2)" "length frames2 = length frames1"
    "\<forall>f<length chunks. frame_done k (F f) (pow_end k (POW e k (F f) (pw0 f) (k_NIJ k))) (frames2 ! f)" "space_ok k sp2" unfolding pw0_def by blast
  have "bslz4_driver_run e chunks msk NIJ frames cut_buf ncut nout mat ws p tp ctrs = Inr (frames2, s_ctrs sp2)"
    unfolding bslz4_driver_run_def c rbind.simps s(1) i(1) d(1) prod.case ..
  moreover have "ctrs_ok (s_ctrs sp2)" using d(4) by (simp add: space_ok_def)
  ultimately show ?thesis using d(2,3) i(2) unfolding pw0_def by auto
qed

end

end
