(* ===== verification/Entry.thy ===== *)
theory Entry
  imports DriverCall
begin

text \<open>
  \<open>src/bslz4_to_sparse.c\<close>: the entries called from Python. An entry reads the top-pixels request, resolves the pipeline for its layout, describes
  the matrix and runs the driver. \<open>p0\<close> is what the uninitialised \<open>bslz4_pipe\<close> holds; the caller's arrays are those of \<open>Driver\<close>.
\<close>

section \<open>The top-pixels request\<close>

text \<open>\<open>top\<close> is an \<open>int64_t\<close> array: how many, the number of thresholds, the thresholds.\<close>

definition top_from_args :: "int list \<Rightarrow> bslz4_top option res" where
  "top_from_args tops =
     (let ntop = length tops in
      if ntop = 0 then Inr None
      else if ntop < 2 \<or> tops ! 0 < 0 \<or> tops ! 0 > INT32_MAX \<or> tops ! 1 < 0 \<or> nat (tops ! 1) > ntop - 2 then Inl (Code BSLZ4_ERR_BAD_THRESHOLD)
      else Inr (Some \<lparr>t_howmany = tops ! 0, t_nthr = sint (word_of_int (tops ! 1) :: 32 word), t_thr = drop 2 tops\<rparr>))"

section \<open>The entries\<close>

definition bslz4_sparsify :: "env \<Rightarrow> bslz4_pipe \<Rightarrow> chunk list \<Rightarrow> byte list \<Rightarrow> int \<Rightarrow> frame_st list \<Rightarrow> byte list option \<Rightarrow> nat \<Rightarrow> byte list \<Rightarrow> int list
    \<Rightarrow> int \<Rightarrow> 16 word list \<Rightarrow> counters \<Rightarrow> (frame_st list \<times> counters) res" where
  "bslz4_sparsify e p0 chunks msk NIJ frames cut_buf ncut ws tops dtype pipeline ctrs =
     rbind (top_from_args tops) (\<lambda>tp. rbind (bslz4_resolve (e_host e) dtype pipeline (-1) p0) (\<lambda>p.
       bslz4_driver_run e chunks msk NIJ frames cut_buf ncut 0 NoMat ws p tp ctrs))"

definition bslz4_sparsify_and_dot :: "env \<Rightarrow> bslz4_pipe \<Rightarrow> chunk list \<Rightarrow> byte list \<Rightarrow> int \<Rightarrow> frame_st list \<Rightarrow> byte list option \<Rightarrow> nat \<Rightarrow> nat
    \<Rightarrow> 64 word list \<Rightarrow> 32 word list \<Rightarrow> 32 word list \<Rightarrow> byte list \<Rightarrow> int list \<Rightarrow> int \<Rightarrow> 16 word list \<Rightarrow> counters \<Rightarrow> (frame_st list \<times> counters) res" where
  "bslz4_sparsify_and_dot e p0 chunks msk NIJ frames cut_buf ncut nout weights indices indptr ws tops dtype pipeline ctrs =
     rbind (top_from_args tops) (\<lambda>tp. rbind (bslz4_resolve (e_host e) dtype pipeline BSLZ4_LAYOUT_CSC p0) (\<lambda>p.
       bslz4_driver_run e chunks msk NIJ frames cut_buf ncut nout (MatCsc \<lparr>m_data = weights, m_indices = indices, m_indptr = indptr\<rparr>) ws p tp ctrs))"

definition bslz4_sparsify_and_dot_padded :: "env \<Rightarrow> bslz4_pipe \<Rightarrow> chunk list \<Rightarrow> byte list \<Rightarrow> int \<Rightarrow> frame_st list \<Rightarrow> byte list option \<Rightarrow> nat \<Rightarrow> nat
    \<Rightarrow> 32 word list \<Rightarrow> 64 word list \<Rightarrow> 32 word list \<Rightarrow> 32 word list \<Rightarrow> 32 word list \<Rightarrow> int \<Rightarrow> int \<Rightarrow> int \<Rightarrow> nat
    \<Rightarrow> byte list \<Rightarrow> int list \<Rightarrow> int \<Rightarrow> 16 word list \<Rightarrow> counters \<Rightarrow> (frame_st list \<times> counters) res" where
  "bslz4_sparsify_and_dot_padded e p0 chunks msk NIJ frames cut_buf ncut nout base weights pixels rowmap row_ptr nrow_ptr width listed_flag block_elems
      ws tops dtype pipeline ctrs =
     rbind (top_from_args tops) (\<lambda>tp. rbind (bslz4_resolve (e_host e) dtype pipeline BSLZ4_LAYOUT_PADDED p0) (\<lambda>p.
       bslz4_driver_run e chunks msk NIJ frames cut_buf ncut nout (MatPadded
         \<lparr>pd_base = base, pd_weights = weights, pd_pixels = (if listed_flag \<noteq> 0 then pixels else []), pd_rowmap = (if listed_flag \<noteq> 0 then rowmap else []),
          pd_row_ptr = row_ptr, pd_row_ptr_n = (if nrow_ptr < 0 then 0 else nat nrow_ptr), pd_width = width, pd_listed = (listed_flag \<noteq> 0),
          pd_block_elems = block_elems\<rparr>) ws p tp ctrs))"

definition bslz4_sparsify_and_dot_bsbcsr :: "env \<Rightarrow> bslz4_pipe \<Rightarrow> chunk list \<Rightarrow> byte list \<Rightarrow> int \<Rightarrow> frame_st list \<Rightarrow> byte list option \<Rightarrow> nat \<Rightarrow> nat
    \<Rightarrow> 32 word list \<Rightarrow> int \<Rightarrow> 32 word list \<Rightarrow> 32 word list \<Rightarrow> 16 word list \<Rightarrow> 64 word list \<Rightarrow> 64 word list \<Rightarrow> 32 word list \<Rightarrow> 32 word list \<Rightarrow> nat
    \<Rightarrow> byte list \<Rightarrow> int list \<Rightarrow> int \<Rightarrow> 16 word list \<Rightarrow> counters \<Rightarrow> (frame_st list \<times> counters) res" where
  "bslz4_sparsify_and_dot_bsbcsr e p0 chunks msk NIJ frames cut_buf ncut nout blk_ptr nblk_ptr bins bin_ptr idx dat csc_data csc_indices csc_indptr block_elems
      ws tops dtype pipeline ctrs =
     rbind (top_from_args tops) (\<lambda>tp. rbind (bslz4_resolve (e_host e) dtype pipeline BSLZ4_LAYOUT_BSBCSR p0) (\<lambda>p.
       bslz4_driver_run e chunks msk NIJ frames cut_buf ncut nout (MatBsb
         \<lparr>bs_blk_ptr = blk_ptr, bs_blk_ptr_n = (if nblk_ptr < 0 then 0 else nat nblk_ptr), bs_bins = bins, bs_bin_ptr = bin_ptr, bs_idx = idx,
          bs_data = dat, bs_csc = \<lparr>m_data = csc_data, m_indices = csc_indices, m_indptr = csc_indptr\<rparr>, bs_block_elems = block_elems\<rparr>) ws p tp ctrs))"

definition bslz4_decompress :: "codec_lib \<Rightarrow> shuffle_lib \<Rightarrow> build \<Rightarrow> bool \<Rightarrow> chunk list \<Rightarrow> byte list \<Rightarrow> byte list \<Rightarrow> int \<Rightarrow> int \<Rightarrow> int \<Rightarrow> int \<Rightarrow> byte list res" where
  "bslz4_decompress lib slib bld dctx chunks out ws elem_size dec untr unshuffle =
     bslz4_driver_decompress lib slib bld dctx chunks out ws elem_size dec untr (unshuffle \<noteq> 0)"

definition bslz4_block_starts :: "chunk list \<Rightarrow> int \<Rightarrow> 32 word list \<Rightarrow> int list \<Rightarrow> (int \<times> 32 word list \<times> int list \<times> nat) res" where
  "bslz4_block_starts chunks elem_size starts status = bslz4_driver_block_starts chunks elem_size starts status"

section \<open>Addresses\<close>

text \<open>A pair of offset and length that leaves the \<open>base_len\<close> bytes of \<open>base\<close>; the value is 0 until one is found.\<close>

definition offset_check :: "nat \<Rightarrow> int list \<Rightarrow> int list \<Rightarrow> nat \<Rightarrow> int \<Rightarrow> int res" where
  "offset_check base_len offsets lengths f rc =
     (if rc \<noteq> 0 then Inr rc
      else rbind (load offsets f) (\<lambda>off. rbind (load lengths f) (\<lambda>len.
        if off < 0 \<or> len < 0 \<or> nat off > base_len \<or> nat len > base_len - nat off then Inr BSLZ4_ERR_BAD_CHUNK_BOUNDS else Inr 0)))"

text \<open>The return value and \<open>offsets\<close>; \<open>base\<close> is the address.\<close>

definition bslz4_offsets_to_pointers :: "int \<Rightarrow> nat \<Rightarrow> int list \<Rightarrow> int list \<Rightarrow> nat \<Rightarrow> (int \<times> int list) res" where
  "bslz4_offsets_to_pointers base base_len offsets lengths nframes =
     rbind (fold_res (offset_check base_len offsets lengths) [0..<nframes] 0) (\<lambda>rc.
       if rc \<noteq> 0 then Inr (rc, offsets)
       else rbind (fold_res (\<lambda>f offs. rbind (load offs f) (\<lambda>off. store offs f (sint (word_of_int (base + off) :: 64 word)))) [0..<nframes] offsets)
         (\<lambda>offs. Inr (0, offs)))"

text \<open>\<open>pointers\<close> and \<open>lengths\<close>.\<close>

definition bslz4_note_chunk :: "int \<Rightarrow> nat \<Rightarrow> int \<Rightarrow> int list \<Rightarrow> int list \<Rightarrow> (int list \<times> int list) res" where
  "bslz4_note_chunk addr chunk_len index pointers lengths =
     (if index < 0 then Inl Fault
      else rbind (store pointers (nat index) addr) (\<lambda>pointers.
        rbind (store lengths (nat index) (if int chunk_len > INT32_MAX then -1 else int chunk_len)) (\<lambda>lengths. Inr (pointers, lengths))))"

section \<open>What a call returns\<close>

text \<open>The pixels above the cut, as numbers or by IEEE comparison.\<close>

definition above_cut :: "int \<Rightarrow> int \<Rightarrow> f64 \<Rightarrow> pix \<Rightarrow> bool" where
  "above_cut dt ci cf v \<longleftrightarrow> (if is_float dt then px_gt dt v (bslz4_cut_of dt ci cf) else px_int dt v > cut_value dt ci)"

lemma cut_passes_above:
  assumes "0 \<le> dt" "dt \<le> 9" "cut_ok dt ci cf"
  shows "cut_passes dt ci cf = above_cut dt ci cf"
proof
  fix v
  show "cut_passes dt ci cf v = above_cut dt ci cf v"
  proof (cases "is_float dt")
    case True
    then show ?thesis by (simp add: cut_passes_def above_cut_def bslz4_cut_above_max_def)
  next
    case False
    then show ?thesis using cut_passes_int[OF assms(1) False, of ci cf v] assms(3) by (simp add: above_cut_def cut_ok_def)
  qed
qed

text \<open>What the entries need of their caller, for chunks that hold frames.\<close>

definition call_ready :: "env \<Rightarrow> call \<Rightarrow> chunk list \<Rightarrow> byte list \<Rightarrow> int \<Rightarrow> frame_st list \<Rightarrow> counters \<Rightarrow> bool" where
  "call_ready e k chunks msk NIJ frames ctrs \<longleftrightarrow> env_ok e \<and> 0 \<le> NIJ \<and> NIJ < 2 ^ 31 \<and> nat NIJ \<le> length msk \<and> blocks_ok k
     \<and> rows_for k chunks frames \<and> ctrs_ok ctrs \<and> (\<forall>c\<in>set chunks. readable_chunk c \<and> call_pixels e k c \<noteq> None)"

lemma resolve_ok:
  assumes "length pipeline = 6" "length (p_step p0) = 6" "bslz4_resolve h dtype pipeline layout p0 = Inr p"
  shows "pipe_ok h dtype pipeline layout p"
  using resolve_spec[OF assms(1,2), of h dtype layout] assms(3) by simp

text \<open>A plain call, with or without a top-pixels request.\<close>

lemma sparsify_run:
  assumes p: "pipe_ok (e_host e) dt pl (-1) p" and c: "driver_checks p chunks msk NIJ cut_buf ncut 0 NoMat (length ws) tp = Inr k"
    and r: "call_ready e k chunks msk NIJ frames ctrs" and cuts: "cuts_ok k"
  shows "\<exists>frames' ctrs'. bslz4_driver_run e chunks msk NIJ frames cut_buf ncut 0 NoMat ws p tp ctrs = Inr (frames', ctrs')
    \<and> (\<forall>f<length chunks. \<exists>pow. frame_done k (the (call_pixels e k (chunks ! f))) pow (frames' ! f))"
proof -
  have cr: "env_ok e" "0 \<le> NIJ" "NIJ < 2 ^ 31" "nat NIJ \<le> length msk" "blocks_ok k" "rows_for k chunks frames" "ctrs_ok ctrs"
    "\<forall>c\<in>set chunks. readable_chunk c \<and> call_pixels e k c \<noteq> None" using r by (simp_all add: call_ready_def)
  note d = driver_checks_ok[OF p c cr(2-5)]
  have nd: "\<not> k_is_dot k"
  proof -
    have "p_step p ! 5 = 0" using p by (auto simp: pipe_ok_def plain_skips_def step_values dest!: spec[of _ 5])
    then show ?thesis using d(4) by (simp add: k_is_dot_def k_step_def step_values)
  qed
  let ?F = "\<lambda>f. the (call_pixels e k (chunks ! f))"
  have b: "batch_ok sparsifies e k chunks ?F q" for q using cr(1,8) d(1) cuts nd by (auto simp: batch_ok_def sparsifies_def)
  have nn: "k_step k BSLZ4_STEP_DOT \<noteq> BSLZ4_DOT_CSC_NOSPLIT_INT" using nd by (simp add: k_is_dot_def step_values)
  from plain_run.driver_run_ok[OF b c d(10) cr(6,7)] nn show ?thesis by blast
qed


lemma sparsify_entry:
  assumes p: "length pipeline = 6" "length (p_step p0) = 6" "bslz4_resolve (e_host e) dtype pipeline (-1) p0 = Inr p" "top_from_args tops = Inr tp"
    and c: "driver_checks p chunks msk NIJ cut_buf ncut 0 NoMat (length ws) tp = Inr k"
    and r: "call_ready e k chunks msk NIJ frames ctrs" and cuts: "cuts_ok k"
  shows "\<exists>frames' ctrs'. bslz4_sparsify e p0 chunks msk NIJ frames cut_buf ncut ws tops dtype pipeline ctrs = Inr (frames', ctrs')
    \<and> (\<forall>f<length chunks. \<exists>pow. frame_done k (the (call_pixels e k (chunks ! f))) pow (frames' ! f))"
  using sparsify_run[OF resolve_ok[OF p(1-3)] c r cuts] p(3,4) by (simp add: bslz4_sparsify_def)

lemma call_facts:
  assumes "bslz4_resolve (e_host e) dtype pipeline layout p0 = Inr p" "length pipeline = 6" "length (p_step p0) = 6"
    "driver_checks p chunks msk NIJ cut_buf ncut nout mat wl tp = Inr k" "call_ready e k chunks msk NIJ frames ctrs"
  shows "call_ok e k" "k_dt k = dtype" "k_NIJ k = nat NIJ" "k_pipe k = p" "k_mask k = msk" "k_top k = tp" "cut_ok dtype (k_cut_i k) (k_cut_f k)"
    "0 \<le> dtype" "dtype \<le> 9" "read_cut dtype cut_buf ncut = Inr (k_cut_i k, k_cut_f k)"
    "\<exists>tot. frame_size NIJ (bslz4_elem_size dtype) (k_pixels k) chunks = Inr (tot, k_bs k)"
proof -
  have cr: "0 \<le> NIJ" "NIJ < 2 ^ 31" "nat NIJ \<le> length msk" "blocks_ok k" using assms(5) by (simp_all add: call_ready_def)
  note d = driver_checks_ok[OF resolve_ok[OF assms(2,3,1)] assms(4) cr]
  show "call_ok e k" "k_dt k = dtype" "k_NIJ k = nat NIJ" "k_pipe k = p" "k_mask k = msk" "k_top k = tp" "cut_ok dtype (k_cut_i k) (k_cut_f k)"
    "read_cut dtype cut_buf ncut = Inr (k_cut_i k, k_cut_f k)" "\<exists>tot. frame_size NIJ (bslz4_elem_size dtype) (k_pixels k) chunks = Inr (tot, k_bs k)"
    using d by simp_all
  show "0 \<le> dtype" "dtype \<le> 9" using read_cut_ok(2,3)[OF d(12)] .
qed

lemma plain_list:
  assumes "call_ok e k" "cut_ok (k_dt k) (k_cut_i k) (k_cut_f k)" "k_top k = None" "frame_done k fpx pow fs"
  shows "frame_list fs = picked (above_cut (k_dt k) (k_cut_i k) (k_cut_f k)) fpx (k_emask k) 0 [0..<k_NIJ k]"
proof -
  have dt: "0 \<le> k_dt k" "k_dt k \<le> 9" using assms(1) unfolding call_ok_def by blast+
  have "list_in fs (flist k fpx (f_level fs) (k_NIJ k))" using assms(3,4) by (simp add: frame_done_def shown_def)
  moreover have "lev_pass k (f_level fs) = above_cut (k_dt k) (k_cut_i k) (k_cut_f k)"
    unfolding cut_passes_above[OF dt assms(2), symmetric] using assms(3) by (auto simp: lev_pass_def lev_cuts_def)
  ultimately show ?thesis using frame_list_in by (simp add: flist_def)
qed


section \<open>Two pipelines\<close>

text \<open>Pipelines that read the same kind of chunk and both use the mask, or both do not.\<close>

definition same_task :: "call \<Rightarrow> call \<Rightarrow> bool" where
  "same_task k k' \<longleftrightarrow> (k_pixels k \<longleftrightarrow> k_pixels k') \<and> (k_step k BSLZ4_STEP_DECODE = BSLZ4_DECODE_ZSTD \<longleftrightarrow> k_step k' BSLZ4_STEP_DECODE = BSLZ4_DECODE_ZSTD)
     \<and> (k_step k BSLZ4_STEP_MASK = BSLZ4_MASK_NONE \<longleftrightarrow> k_step k' BSLZ4_STEP_MASK = BSLZ4_MASK_NONE)"

lemma codec_planes_same: "(d = BSLZ4_DECODE_ZSTD \<longleftrightarrow> d' = BSLZ4_DECODE_ZSTD) \<Longrightarrow> codec_planes lib d = codec_planes lib d'"
  by (intro ext) (simp add: codec_planes_def)

lemma chunk_planes_same: "(d = BSLZ4_DECODE_ZSTD \<longleftrightarrow> d' = BSLZ4_DECODE_ZSTD) \<Longrightarrow> chunk_planes lib d c szs pos = chunk_planes lib d' c szs pos"
  by (induction szs arbitrary: pos) (simp_all add: codec_planes_same[of d d'] cong: sum.case_cong option.case_cong)

lemma call_pixels_same:
  assumes "same_task k k'" "e_lib e' = e_lib e" "k_NB k' = k_NB k" "k_total k' = k_total k" "k_bs k' = k_bs k"
  shows "call_pixels e' k' c = call_pixels e k c"
  using assms chunk_planes_same[of "k_step k' BSLZ4_STEP_DECODE" "k_step k BSLZ4_STEP_DECODE" "e_lib e" c]
  by (simp add: call_pixels_def frame_pixels_def chunk_data_def same_task_def)

text \<open>
  C2: the lists of a sparsify do not depend on the pipeline, the build, the CPU, the workspace or what it held: two calls on the same chunks, mask
  and cut list the same pixels for every frame.
\<close>

theorem sparsify_pipelines_agree:
  assumes p: "length pl = 6" "length (p_step p0) = 6" "bslz4_resolve (e_host e) dtype pl (-1) p0 = Inr p"
    and c: "driver_checks p chunks msk NIJ cut_buf ncut 0 NoMat (length ws) None = Inr k" and r: "call_ready e k chunks msk NIJ frames ctrs"
    and p': "length pl' = 6" "length (p_step p0') = 6" "bslz4_resolve (e_host e') dtype pl' (-1) p0' = Inr p'"
    and c': "driver_checks p' chunks msk NIJ cut_buf ncut 0 NoMat (length ws') None = Inr k'" and r': "call_ready e' k' chunks msk NIJ frames' ctrs'"
    and same: "same_task k k'" "e_lib e' = e_lib e"
  shows "\<exists>out out'. bslz4_sparsify e p0 chunks msk NIJ frames cut_buf ncut ws [] dtype pl ctrs = Inr out
    \<and> bslz4_sparsify e' p0' chunks msk NIJ frames' cut_buf ncut ws' [] dtype pl' ctrs' = Inr out'
    \<and> (\<forall>f<length chunks. frame_list (fst out ! f) = frame_list (fst out' ! f))"
proof -
  note d = call_facts[OF p(3,1,2) c r] and d' = call_facts[OF p'(3,1,2) c' r']
  have cut: "k_cut_i k' = k_cut_i k" "k_cut_f k' = k_cut_f k" using d(10) d'(10) by simp_all
  have px: "k_pixels k' = k_pixels k" using same(1) by (simp add: same_task_def)
  have bs: "k_bs k' = k_bs k" using d(11) d'(11) unfolding px by auto
  have nb: "k_NB k' = k_NB k" "k_total k' = k_total k" using call_ok_nb[OF d(1)] call_ok_nb[OF d'(1)] d(2,3) d'(2,3) by simp_all
  have em: "k_emask k' = k_emask k" using same(1) d(5) d'(5) by (simp add: k_emask_def same_task_def)
  have cuts: "cuts_ok k" "cuts_ok k'" using d(2,6,7) d'(2,6,7) by (simp_all add: cuts_ok_def)
  have t: "top_from_args [] = Inr None" by (simp add: top_from_args_def)
  have co: "cut_ok (k_dt k) (k_cut_i k) (k_cut_f k)" "cut_ok (k_dt k') (k_cut_i k') (k_cut_f k')" using d(2,7) d'(2,7) by simp_all
  from sparsify_entry[OF p t c r cuts(1)] plain_list[OF d(1) co(1) d(6)] obtain fr1 c1 where
    a: "bslz4_sparsify e p0 chunks msk NIJ frames cut_buf ncut ws [] dtype pl ctrs = Inr (fr1, c1)"
      "\<forall>f<length chunks. frame_list (fr1 ! f) = picked (above_cut (k_dt k) (k_cut_i k) (k_cut_f k)) (the (call_pixels e k (chunks ! f))) (k_emask k) 0 [0..<k_NIJ k]" by blast
  from sparsify_entry[OF p' t c' r' cuts(2)] plain_list[OF d'(1) co(2) d'(6)] obtain fr2 c2 where
    b: "bslz4_sparsify e' p0' chunks msk NIJ frames' cut_buf ncut ws' [] dtype pl' ctrs' = Inr (fr2, c2)"
      "\<forall>f<length chunks. frame_list (fr2 ! f) = picked (above_cut (k_dt k') (k_cut_i k') (k_cut_f k')) (the (call_pixels e' k' (chunks ! f))) (k_emask k') 0 [0..<k_NIJ k']" by blast
  have "\<forall>f<length chunks. frame_list (fr1 ! f) = frame_list (fr2 ! f)"
    using a(2) b(2) unfolding call_pixels_same[OF same nb bs] em cut d(2,3) d'(2,3) by simp
  then show ?thesis using a(1) b(1) by (intro exI[of _ "(fr1, c1)"] exI[of _ "(fr2, c2)"]) simp
qed

section \<open>Top pixels\<close>

text \<open>The thresholds \<open>pipeline.h\<close> asks for: none below the cut or negative, non-decreasing.\<close>

definition thresholds_ok :: "call \<Rightarrow> bslz4_top \<Rightarrow> bool" where
  "thresholds_ok k tp \<longleftrightarrow> (\<forall>l. int l < t_nthr tp \<longrightarrow> cut_value (k_dt k) (k_cut_i k) \<le> t_thr tp ! l \<and> 0 \<le> t_thr tp ! l \<and> t_thr tp ! l < 2 ^ 63)
     \<and> (\<forall>l. int (Suc l) < t_nthr tp \<longrightarrow> t_thr tp ! l \<le> t_thr tp ! Suc l)"

text \<open>All the pixels of a frame above a level: what an offline search would list.\<close>

definition level_list :: "call \<Rightarrow> bslz4_top \<Rightarrow> pix list \<Rightarrow> int \<Rightarrow> (pix \<times> 32 word) list" where
  "level_list k tp fpx lev = picked (\<lambda>v. px_int (k_dt k) v > lev_value k tp lev) fpx (k_emask k) 0 [0..<k_NIJ k]"

lemma top_request:
  assumes "top_from_args tops = Inr (Some tp)"
  shows "0 \<le> t_howmany tp" "t_nthr tp \<le> int (length (t_thr tp)) \<or> 2 ^ 31 \<le> length tops"
proof -
  have t: "\<not> length tops < 2" "0 \<le> tops ! 0" "0 \<le> tops ! 1" "\<not> nat (tops ! 1) > length tops - 2"
    "tp = \<lparr>t_howmany = tops ! 0, t_nthr = sint (word_of_int (tops ! 1) :: 32 word), t_thr = drop 2 tops\<rparr>"
    using assms by (auto simp: top_from_args_def Let_def split: if_splits)
  show "0 \<le> t_howmany tp" using t(2,5) by simp
  have "t_nthr tp \<le> int (length (t_thr tp))" if "length tops < 2 ^ 31"
  proof -
    have "nat (tops ! 1) < 2 ^ 31" using t(4) that by linarith
    then have lt: "tops ! 1 < 2 ^ 31" using t(3) by (simp add: nat_less_iff)
    have "sint (word_of_int (tops ! 1) :: 32 word) = tops ! 1" using lt t(3) by (simp add: signed_of_int signed_take_bit_int_eq_self)
    then show ?thesis using t(1,3,4,5) by simp
  qed
  then show "t_nthr tp \<le> int (length (t_thr tp)) \<or> 2 ^ 31 \<le> length tops" by linarith
qed


text \<open>
  C3: top pixels inside the block loop, where a frame's list is filtered whenever it gets over the limit, ends where an offline search would: at the
  first level whose pixels are not over the limit, or the last; \<open>nabove\<close> counts the frame's pixels above that level and the list holds the
  first \<open>howmany\<close> of them. Integer pixel types.
\<close>

theorem sparsify_top_pixels:
  assumes p: "length pipeline = 6" "length (p_step p0) = 6" "bslz4_resolve (e_host e) dtype pipeline (-1) p0 = Inr p"
    and t: "top_from_args tops = Inr (Some tp)" "length tops < 2 ^ 31" "\<not> is_float dtype" "thresholds_ok k tp"
    and c: "driver_checks p chunks msk NIJ cut_buf ncut 0 NoMat (length ws) (Some tp) = Inr k" and r: "call_ready e k chunks msk NIJ frames ctrs"
  shows "\<exists>frames' ctrs'. bslz4_sparsify e p0 chunks msk NIJ frames cut_buf ncut ws tops dtype pipeline ctrs = Inr (frames', ctrs')
    \<and> (\<forall>f<length chunks. let fs = frames' ! f; fpx = the (call_pixels e k (chunks ! f)); lev = f_level fs; count = (\<lambda>l. int (length (level_list k tp fpx l))) in
        (lev = -1 \<or> 0 \<le> lev \<and> lev < t_nthr tp) \<and> (\<forall>l. -1 \<le> l \<and> l < lev \<longrightarrow> over tp l (count l)) \<and> (over tp lev (count lev) \<longrightarrow> lev + 1 \<ge> t_nthr tp)
        \<and> f_nabove fs = count lev \<and> frame_list fs = take (nat (t_howmany tp)) (level_list k tp fpx lev))"
proof -
  note d = call_facts[OF p(3,1,2) c r]
  have hm: "0 \<le> t_howmany tp" "t_nthr tp \<le> int (length (t_thr tp))" using top_request[OF t(1)] t(2) by auto
  have cuts: "cuts_ok k" using d(2,6,7) t(3,4) hm by (simp add: cuts_ok_def thresholds_ok_def)
  have ll: "flist k fpx lev (k_NIJ k) = level_list k tp fpx lev" if "lev = -1 \<or> 0 \<le> lev \<and> lev < t_nthr tp" for fpx lev
  proof -
    have lo: "lev_ok k lev" using that d(6) by (simp add: lev_ok_def)
    have "lev_pass k lev = (\<lambda>v. px_int (k_dt k) v > lev_value k tp lev)" using lev_pass_value[OF d(1) cuts lo d(6)] by (intro ext)
    then show ?thesis by (simp add: flist_def level_list_def)
  qed
  from sparsify_entry[OF p t(1) c r cuts] obtain frames' ctrs' where o: "bslz4_sparsify e p0 chunks msk NIJ frames cut_buf ncut ws tops dtype pipeline ctrs = Inr (frames', ctrs')"
    "\<forall>f<length chunks. \<exists>pow. frame_done k (the (call_pixels e k (chunks ! f))) pow (frames' ! f)" by blast
  have "let fs = frames' ! f; fpx = the (call_pixels e k (chunks ! f)); lev = f_level fs; count = (\<lambda>l. int (length (level_list k tp fpx l))) in
        (lev = -1 \<or> 0 \<le> lev \<and> lev < t_nthr tp) \<and> (\<forall>l. -1 \<le> l \<and> l < lev \<longrightarrow> over tp l (count l)) \<and> (over tp lev (count lev) \<longrightarrow> lev + 1 \<ge> t_nthr tp)
        \<and> f_nabove fs = count lev \<and> frame_list fs = take (nat (t_howmany tp)) (level_list k tp fpx lev)" if fl: "f < length chunks" for f
  proof -
    let ?fs = "frames' ! f" and ?fpx = "the (call_pixels e k (chunks ! f))"
    obtain pow where fd: "frame_done k ?fpx pow ?fs" using o(2) fl by blast
    have lv: "f_level ?fs = -1 \<or> 0 \<le> f_level ?fs \<and> f_level ?fs < t_nthr tp" using fd d(6) by (simp add: frame_done_def settled_def lev_ok_def)
    have left: "over tp l (int (length (level_list k tp ?fpx l)))" if l: "-1 \<le> l \<and> l < f_level ?fs" for l
    proof -
      have "l = -1 \<or> 0 \<le> l \<and> l < t_nthr tp" using l lv by auto
      then show ?thesis using fd d(6) l ll by (auto simp: frame_done_def settled_def left_ok_def)
    qed
    have "frame_list ?fs = take (nat (t_howmany tp)) (level_list k tp ?fpx (f_level ?fs))"
      using frame_list_in fd d(6) ll[OF lv] by (simp add: frame_done_def shown_def)
    moreover have "over tp (f_level ?fs) (int (length (level_list k tp ?fpx (f_level ?fs)))) \<longrightarrow> f_level ?fs + 1 \<ge> t_nthr tp"
      "f_nabove ?fs = int (length (level_list k tp ?fpx (f_level ?fs)))" using fd d(6) ll[OF lv] by (simp_all add: frame_done_def settled_def)
    ultimately show ?thesis using lv left by (simp add: Let_def)
  qed
  then show ?thesis using o(1) by blast
qed

section \<open>Addresses\<close>

lemma offset_checks:
  assumes "n \<le> length offsets" "n \<le> length lengths"
  shows "fold_res (offset_check base_len offsets lengths) [0..<n] 0
    = Inr (if \<forall>f<n. 0 \<le> offsets ! f \<and> 0 \<le> lengths ! f \<and> offsets ! f + lengths ! f \<le> int base_len then 0 else BSLZ4_ERR_BAD_CHUNK_BOUNDS)"
  using assms
proof (induction n)
  case (Suc n)
  have r: "offset_check base_len offsets lengths n rc = Inr (if rc = 0 \<and> \<not> (0 \<le> offsets ! n \<and> 0 \<le> lengths ! n \<and> offsets ! n + lengths ! n \<le> int base_len)
      then BSLZ4_ERR_BAD_CHUNK_BOUNDS else rc)" for rc
    using Suc.prems by (auto simp: offset_check_def load_ok)
  show ?case using Suc by (auto simp: fold_res_append r less_Suc_eq)
qed simp

lemma pointer_stores:
  assumes "n \<le> length offsets"
  shows "fold_res (\<lambda>f offs. rbind (load offs f) (\<lambda>off. store offs f (g off))) [0..<n] offsets = Inr (map g (take n offsets) @ drop n offsets)"
proof -
  have "\<exists>s'. fold_res (\<lambda>f offs. rbind (load offs f) (\<lambda>off. store offs f (g off))) [0..<n] offsets = Inr s' \<and> s' = map g (take n offsets) @ drop n offsets"
  proof (rule fold_upt_inv[where I = "\<lambda>i s. s = map g (take i offsets) @ drop i offsets"])
    fix i s assume a: "i < n" "s = map g (take i offsets) @ drop i offsets"
    then have i: "i < length offsets" using assms by simp
    have l: "length (map g (take i offsets)) = i" using i by simp
    have sp: "drop i offsets = offsets ! i # drop (Suc i) offsets" using i by (rule Cons_nth_drop_Suc[symmetric])
    have "s ! i = offsets ! i" "i < length s" unfolding a(2) sp using l i by (simp_all add: nth_append)
    moreover have "s[i := g (offsets ! i)] = map g (take (Suc i) offsets) @ drop (Suc i) offsets"
      unfolding a(2) sp list_update_append using l i by (simp add: take_Suc_conv_app_nth)
    ultimately show "\<exists>s'. rbind (load s i) (\<lambda>off. store s i (g off)) = Inr s' \<and> s' = map g (take (Suc i) offsets) @ drop (Suc i) offsets"
      by (simp add: load_ok store_ok)
  qed simp
  then show ?thesis by simp
qed

lemma offsets_value:
  assumes "length lengths = length offsets" "0 \<le> base" "base + int base_len < 2 ^ 63"
  shows "bslz4_offsets_to_pointers base base_len offsets lengths (length offsets) =
    (if \<forall>f<length offsets. 0 \<le> offsets ! f \<and> 0 \<le> lengths ! f \<and> offsets ! f + lengths ! f \<le> int base_len
     then Inr (0, map (\<lambda>off. base + off) offsets) else Inr (BSLZ4_ERR_BAD_CHUNK_BOUNDS, offsets))"
proof (cases "\<forall>f<length offsets. 0 \<le> offsets ! f \<and> 0 \<le> lengths ! f \<and> offsets ! f + lengths ! f \<le> int base_len")
  case False
  then show ?thesis using offset_checks[of "length offsets" offsets lengths base_len] assms(1) by (auto simp: bslz4_offsets_to_pointers_def error_codes)
next
  case True
  have "sint (word_of_int (base + off) :: 64 word) = base + off" if mem: "off \<in> set offsets" for off
  proof -
    obtain f where f: "f < length offsets" "off = offsets ! f" using mem by (auto simp: in_set_conv_nth)
    have "0 \<le> offsets ! f" "0 \<le> lengths ! f" "offsets ! f + lengths ! f \<le> int base_len" using True f(1) by blast+
    then show ?thesis by (intro sint_in_range) (use assms(2,3) f(2) in linarith)+
  qed
  then have m: "map (\<lambda>off. sint (word_of_int (base + off) :: 64 word)) offsets = map (\<lambda>off. base + off) offsets" by (intro map_cong refl)
  show ?thesis using True offset_checks[of "length offsets" offsets lengths base_len] assms(1)
      pointer_stores[of "length offsets" offsets "\<lambda>off. sint (word_of_int (base + off) :: 64 word)"] m by (simp add: bslz4_offsets_to_pointers_def)
qed



section \<open>A call\<close>

text \<open>Two 8-pixel frames of u8, the first pixel masked, the cut 0; the second call asks for one pixel, or those above 1.\<close>

definition sample_env :: env where
  "sample_env = \<lparr>e_lib = ref_codec, e_slib = ref_shuffle, e_host = sample_host, e_sse2 = True, e_fc = False\<rparr>"

definition sample_pipe :: "int list \<Rightarrow> bslz4_pipe" where
  "sample_pipe steps = \<lparr>p_step = steps, p_dtype = 0, p_elem_size = 1\<rparr>"

definition sample_frame :: frame_st where
  "sample_frame = \<lparr>f_npx = 77, f_cursor = 5, f_vals = replicate 8 9, f_adr = replicate 8 9, f_level = 7, f_nabove = 7, f_pow = []\<rparr>"

definition sample_call :: "int list \<Rightarrow> bslz4_top option \<Rightarrow> call" where
  "sample_call steps tp = \<lparr>k_pipe = sample_pipe steps, k_NIJ = 8, k_mask = [0, 1, 1, 1, 1, 1, 1, 1], k_mat = NoMat, k_nout = 0, k_top = tp, k_cut_i = 0, k_cut_f = 0,
     k_bs = 8, k_total = 8\<rparr>"

definition sample_top :: bslz4_top where
  "sample_top = \<lparr>t_howmany = 1, t_nthr = 1, t_thr = [1]\<rparr>"

definition sample_counters :: counters where
  "sample_counters = bslz4_reset_counters \<lparr>bslz4_counters = [], bslz4_counters_on = False\<rparr>"

lemma sample_resolves:
  "bslz4_resolve (e_host sample_env) 0 [4, 2, 5, 6, 0, 0] (-1) no_pipe = Inr (sample_pipe [4, 2, 5, 6, 0, 0])"
  "bslz4_resolve (e_host sample_env) 0 [4, 1, 7, 6, 0, 0] (-1) no_pipe = Inr (sample_pipe [4, 1, 7, 6, 0, 0])"
  by code_simp+

lemma sample_checks:
  "driver_checks (sample_pipe [4, 2, 5, 6, 0, 0]) sample_frames [0, 1, 1, 1, 1, 1, 1, 1] 8 (Some [0]) 1 0 NoMat (length (replicate 24 (3 :: byte))) None
    = Inr (sample_call [4, 2, 5, 6, 0, 0] None)"
  "driver_checks (sample_pipe [4, 1, 7, 6, 0, 0]) sample_frames [0, 1, 1, 1, 1, 1, 1, 1] 8 (Some [0]) 1 0 NoMat (length (replicate 24 (3 :: byte))) None
    = Inr (sample_call [4, 1, 7, 6, 0, 0] None)"
  "driver_checks (sample_pipe [4, 2, 5, 6, 0, 0]) sample_frames [0, 1, 1, 1, 1, 1, 1, 1] 8 (Some [0]) 1 0 NoMat (length (replicate 24 (3 :: byte))) (Some sample_top)
    = Inr (sample_call [4, 2, 5, 6, 0, 0] (Some sample_top))"
  by code_simp+

lemma sample_pixels:
  assumes "steps = [4, 2, 5, 6, 0, 0] \<or> steps = [4, 1, 7, 6, 0, 0]"
  shows "map (call_pixels sample_env (sample_call steps tp)) sample_frames = [Some [1, 1, 1, 1, 1, 1, 1, 1], Some [1, 2, 0, 0, 0, 0, 0, 0]]"
proof -
  have p: "map (frame_pixels ref_codec BSLZ4_DECODE_ZSTD 1 8 8) sample_frames = [Some [1, 1, 1, 1, 1, 1, 1, 1], Some [1, 2, 0, 0, 0, 0, 0, 0]]" by code_simp
  have "call_pixels sample_env (sample_call steps tp) = frame_pixels ref_codec BSLZ4_DECODE_ZSTD 1 8 8"
    using assms by (intro ext) (auto simp: call_pixels_def k_pixels_def k_step_def k_NB_def sample_call_def sample_pipe_def sample_env_def step_values)
  then show ?thesis using p by simp
qed

lemma sample_call_ready:
  assumes "steps = [4, 2, 5, 6, 0, 0] \<or> steps = [4, 1, 7, 6, 0, 0]"
  shows "call_ready sample_env (sample_call steps tp) sample_frames [0, 1, 1, 1, 1, 1, 1, 1] 8 (replicate 2 sample_frame) sample_counters"
proof -
  let ?k = "sample_call steps tp"
  have e: "env_ok sample_env" using ref_codec_conforms ref_shuffle_conforms by (simp add: env_ok_def sample_env_def)
  have l: "length sample_frames = 2" by (simp add: sample_frames_def)
  have b: "blocks_ok ?k" using assms by (auto simp: blocks_ok_def whole_groups_def k_NB_def k_step_def sample_call_def sample_pipe_def step_values)
  have d: "\<not> k_is_dot ?k" using assms by (auto simp: k_is_dot_def k_step_def sample_call_def sample_pipe_def step_values)
  have r: "rows_for ?k sample_frames (replicate 2 sample_frame)" using l d by (simp add: rows_for_def rows_ok_def sample_frame_def sample_call_def)
  have c: "ctrs_ok sample_counters" by (auto simp: ctrs_ok_def sample_counters_def bslz4_reset_counters_def BSLZ4_NSTEPS_def BSLZ4_VALUE_SLOTS_def)
  have "readable_chunk c \<and> call_pixels sample_env ?k c \<noteq> None" if mem: "c \<in> set sample_frames" for c
  proof
    show "readable_chunk c" using mem by (auto simp: sample_frames_def readable_chunk_def)
    have "call_pixels sample_env ?k c \<in> set (map (call_pixels sample_env ?k) sample_frames)" using mem by simp
    then show "call_pixels sample_env ?k c \<noteq> None" unfolding sample_pixels[OF assms] by auto
  qed
  then show ?thesis using e b r c by (simp add: call_ready_def)
qed

lemma sample_frame_pixels:
  assumes "steps = [4, 2, 5, 6, 0, 0] \<or> steps = [4, 1, 7, 6, 0, 0]"
  shows "the (call_pixels sample_env (sample_call steps tp) (sample_frames ! 0)) = [1, 1, 1, 1, 1, 1, 1, 1]"
    "the (call_pixels sample_env (sample_call steps tp) (sample_frames ! 1)) = [1, 2, 0, 0, 0, 0, 0, 0]"
  using sample_pixels[OF assms, of tp] by (auto simp: sample_frames_def)



theorem sparsify_pipelines_agree_witness:
  "\<exists>out out'. bslz4_sparsify sample_env no_pipe sample_frames [0, 1, 1, 1, 1, 1, 1, 1] 8 (replicate 2 sample_frame) (Some [0]) 1 (replicate 24 3) [] 0
      [4, 2, 5, 6, 0, 0] sample_counters = Inr out
    \<and> bslz4_sparsify sample_env no_pipe sample_frames [0, 1, 1, 1, 1, 1, 1, 1] 8 (replicate 2 sample_frame) (Some [0]) 1 (replicate 24 3) [] 0
      [4, 1, 7, 6, 0, 0] sample_counters = Inr out'
    \<and> (\<forall>f<2. frame_list (fst out ! f) = frame_list (fst out' ! f))"
proof -
  let ?s = "[4, 2, 5, 6, 0, 0 :: int]" and ?s' = "[4, 1, 7, 6, 0, 0 :: int]"
  have s: "?s = ?s \<or> ?s = ?s'" "?s' = ?s \<or> ?s' = ?s'" by simp_all
  have n: "length [4, 2, 5, 6, 0, 0 :: 16 word] = 6" "length [4, 1, 7, 6, 0, 0 :: 16 word] = 6" "length (p_step no_pipe) = 6" by (simp_all add: no_pipe_def)
  have l: "length sample_frames = 2" by (simp add: sample_frames_def)
  have t: "same_task (sample_call ?s None) (sample_call ?s' None)"
    by (simp add: same_task_def k_pixels_def k_step_def sample_call_def sample_pipe_def step_values)
  from sparsify_pipelines_agree[OF n(1,3) sample_resolves(1) sample_checks(1) sample_call_ready[OF s(1)] n(2,3) sample_resolves(2) sample_checks(2)
      sample_call_ready[OF s(2)] t refl] show ?thesis unfolding l .
qed

theorem sparsify_top_pixels_witness:
  "\<exists>frames' ctrs'. bslz4_sparsify sample_env no_pipe sample_frames [0, 1, 1, 1, 1, 1, 1, 1] 8 (replicate 2 sample_frame) (Some [0]) 1 (replicate 24 3) [1, 1, 1] 0
      [4, 2, 5, 6, 0, 0] sample_counters = Inr (frames', ctrs')
    \<and> f_level (frames' ! 0) = 0 \<and> f_nabove (frames' ! 0) = 0 \<and> frame_list (frames' ! 1) = [(2, 1)]"
proof -
  let ?s = "[4, 2, 5, 6, 0, 0 :: int]" and ?k = "sample_call [4, 2, 5, 6, 0, 0] (Some sample_top)"
  have s: "?s = [4, 2, 5, 6, 0, 0] \<or> ?s = [4, 1, 7, 6, 0, 0]" by simp
  have n: "length [4, 2, 5, 6, 0, 0 :: 16 word] = 6" "length (p_step no_pipe) = 6" by (simp_all add: no_pipe_def)
  have l: "0 < length sample_frames" "1 < length sample_frames" by (simp_all add: sample_frames_def)
  have t: "top_from_args [1, 1, 1] = Inr (Some sample_top)" "length [1, 1, 1 :: int] < 2 ^ 31" "\<not> is_float 0" by (code_simp, simp, code_simp)
  have th: "thresholds_ok ?k sample_top" by (auto simp: thresholds_ok_def sample_top_def sample_call_def cut_value_def)
  have a: "level_list ?k sample_top [1, 1, 1, 1, 1, 1, 1, 1] (-1) = [(1, 1), (1, 2), (1, 3), (1, 4), (1, 5), (1, 6), (1, 7)]"
    "level_list ?k sample_top [1, 2, 0, 0, 0, 0, 0, 0] (-1) = [(2, 1)]" "level_list ?k sample_top [1, 2, 0, 0, 0, 0, 0, 0] 0 = [(2, 1)]"
    "level_list ?k sample_top [1, 1, 1, 1, 1, 1, 1, 1] 0 = []" by code_simp+
  from sparsify_top_pixels[OF n sample_resolves(1) t th sample_checks(3) sample_call_ready[OF s]] obtain frames' ctrs' where
    o: "bslz4_sparsify sample_env no_pipe sample_frames [0, 1, 1, 1, 1, 1, 1, 1] 8 (replicate 2 sample_frame) (Some [0]) 1 (replicate 24 3) [1, 1, 1] 0
        [4, 2, 5, 6, 0, 0] sample_counters = Inr (frames', ctrs')"
      "\<forall>f<length sample_frames. let fs = frames' ! f; fpx = the (call_pixels sample_env ?k (sample_frames ! f)); lev = f_level fs;
          count = (\<lambda>l. int (length (level_list ?k sample_top fpx l))) in
        (lev = -1 \<or> 0 \<le> lev \<and> lev < t_nthr sample_top) \<and> (\<forall>l. -1 \<le> l \<and> l < lev \<longrightarrow> over sample_top l (count l))
        \<and> (over sample_top lev (count lev) \<longrightarrow> lev + 1 \<ge> t_nthr sample_top)
        \<and> f_nabove fs = count lev \<and> frame_list fs = take (nat (t_howmany sample_top)) (level_list ?k sample_top fpx lev)" by blast
  have v: "t_howmany sample_top = 1" "t_nthr sample_top = 1" by (simp_all add: sample_top_def)
  have "f_level (frames' ! 0) = 0 \<and> f_nabove (frames' ! 0) = 0"
  proof -
    let ?l = "f_level (frames' ! 0)"
    have r: "?l = -1 \<or> 0 \<le> ?l \<and> ?l < 1" "over sample_top ?l (int (length (level_list ?k sample_top [1, 1, 1, 1, 1, 1, 1, 1] ?l))) \<longrightarrow> ?l + 1 \<ge> 1"
      "f_nabove (frames' ! 0) = int (length (level_list ?k sample_top [1, 1, 1, 1, 1, 1, 1, 1] ?l))"
      using o(2)[rule_format, OF l(1)] unfolding Let_def sample_frame_pixels[OF s] v by blast+
    have "?l \<noteq> -1" using r(2) a(1) v(1) by (auto simp: over_def)
    then have "?l = 0" using r(1) by linarith
    then show ?thesis using r(3) a(4) by simp
  qed
  moreover have "frame_list (frames' ! 1) = [(2, 1)]"
  proof -
    have "f_level (frames' ! 1) = -1 \<or> f_level (frames' ! 1) = 0"
      "frame_list (frames' ! 1) = take 1 (level_list ?k sample_top [1, 2, 0, 0, 0, 0, 0, 0] (f_level (frames' ! 1)))"
      using o(2)[rule_format, OF l(2)] unfolding Let_def sample_frame_pixels[OF s] v by auto
    then show ?thesis using a(2,3) by auto
  qed
  ultimately show ?thesis using o(1) by blast
qed


end
