(* ===== verification/DriverSafe.thy ===== *)
theory DriverSafe
  imports Entry
begin

text \<open>
  Chunks of arbitrary bytes. Whatever a chunk holds, a plain sparsify either stops with an error code or lists pixels of some frame: no access
  leaves a buffer, and every listed index is an unmasked pixel of the frame, listed once.
\<close>

section \<open>Results that are a code or satisfy a predicate\<close>

definition ends :: "int set \<Rightarrow> 'a res \<Rightarrow> ('a \<Rightarrow> bool) \<Rightarrow> bool" where
  "ends E r Q \<longleftrightarrow> (case r of Inl s \<Rightarrow> (\<exists>c\<in>E. s = Code c) | Inr x \<Rightarrow> Q x)"

lemma ends_Inr [simp]: "ends E (Inr x) Q \<longleftrightarrow> Q x"
  by (simp add: ends_def)

lemma ends_Code [simp]: "ends E (Inl (Code c)) Q \<longleftrightarrow> c \<in> E"
  by (simp add: ends_def)

lemma ends_bind: "ends E r Q \<Longrightarrow> (\<And>x. Q x \<Longrightarrow> ends E (f x) R) \<Longrightarrow> ends E (rbind r f) R"
  by (cases r) (simp_all add: ends_def)

lemma ends_mono: "ends E r Q \<Longrightarrow> (\<And>x. Q x \<Longrightarrow> R x) \<Longrightarrow> ends E r R"
  by (auto simp: ends_def split: sum.splits)

lemma ends_fold_upt:
  assumes "I 0 s" and "\<And>k s. k < n \<Longrightarrow> I k s \<Longrightarrow> ends E (f k s) (I (Suc k))"
  shows "ends E (fold_res f [0..<n] s) (I n)"
  using assms(2)
proof (induction n)
  case (Suc n)
  then have "ends E (fold_res f [0..<n] s) (I n)" by simp
  then have "ends E (rbind (fold_res f [0..<n] s) (f n)) (I (Suc n))" by (rule ends_bind) (rule Suc.prems, simp_all)
  then show ?case by (simp add: fold_res_append fold_res_single)
qed (use assms(1) in simp)

lemma with_frames_end:
  assumes "length chunks \<le> length frames" "I sp"
    and step: "\<And>f sp. f < length chunks \<Longrightarrow> I sp \<Longrightarrow> ends E (step (chunks ! f) (frames ! f, sp)) (\<lambda>(fs', sp'). Q f fs' \<and> I sp')"
  shows "ends E (fold_res (with_frame step chunks) [0..<length chunks] (frames, sp)) (\<lambda>(frames', sp').
    length frames' = length frames \<and> (\<forall>f<length chunks. Q f (frames' ! f)) \<and> I sp')"
proof -
  let ?I = "\<lambda>j (s :: frame_st list \<times> space). length (fst s) = length frames \<and> (\<forall>f<j. Q f (fst s ! f)) \<and> (\<forall>f\<ge>j. fst s ! f = frames ! f) \<and> I (snd s)"
  have "ends E (fold_res (with_frame step chunks) [0..<length chunks] (frames, sp)) (?I (length chunks))"
  proof (rule ends_fold_upt[where I = ?I])
    show "?I 0 (frames, sp)" using assms(2) by simp
  next
    fix j and s :: "frame_st list \<times> space" assume j: "j < length chunks" and i: "?I j s"
    obtain fr q where s: "s = (fr, q)" by (cases s)
    have fr: "length fr = length frames" "fr ! j = frames ! j" "I q" using i s by simp_all
    have jl: "j < length fr" using j assms(1) fr(1) by simp
    have "with_frame step chunks j s = rbind (step (chunks ! j) (frames ! j, q)) (\<lambda>(fs, sp). Inr (fr[j := fs], sp))"
      unfolding s using j jl fr(2) by (simp add: with_frame_def load_ok store_ok split_def)
    moreover have "ends E \<dots> (?I (Suc j))"
      by (rule ends_bind[OF step[OF j fr(3)]]) (use i s jl in \<open>auto simp: nth_list_update less_Suc_eq\<close>)
    ultimately show "ends E (with_frame step chunks j s) (?I (Suc j))" by simp
  qed
  then show ?thesis by (rule ends_mono) auto
qed

section \<open>A frame with some pixels\<close>

text \<open>The codes a chunk can end a call with.\<close>

definition chunk_codes :: "int set" where
  "chunk_codes = {BSLZ4_ERR_CORRUPT_CHUNK, BSLZ4_ERR_DECOMPRESS}"

lemma flist_cong: "\<forall>j<i. fpx ! j = fpx' ! j \<Longrightarrow> flist k fpx lev i = flist k fpx' lev i"
  by (auto simp: flist_def picked_def picks_def intro!: map_cong filter_cong)

lemma frame_inv_cong:
  assumes "\<forall>j<i. fpx ! j = fpx' ! j" "frame_inv k fpx i fs"
  shows "frame_inv k fpx' i fs"
  using assms flist_cong[OF assms(1), of k] by (simp add: frame_inv_def left_ok_def split: option.splits)

text \<open>After \<open>i\<close> pixels the frame's list is that of some pixels; of an uncompressed chunk they are its own.\<close>

definition some_frame :: "env \<Rightarrow> call \<Rightarrow> chunk \<Rightarrow> nat \<Rightarrow> frame_st \<Rightarrow> bool" where
  "some_frame e k c i fs \<longleftrightarrow> (\<exists>fpx. length fpx = k_NIJ k \<and> narrow_px (k_dt k) fpx \<and> frame_inv k fpx i fs
     \<and> (k_pixels k \<longrightarrow> call_pixels e k c = Some fpx \<and> f_cursor fs = 0))"

section \<open>One block\<close>

lemma decode_block_any:
  assumes "lz4_conforms lib" "zstd_fills lib" "length raw = 2 * bs"
  shows "\<exists>ret raw' nz. bslz4_decode_block lib sse2 dec src raw bs = Inr (ret, raw', nz) \<and> length raw' = length raw
    \<and> (ret = int bs \<longrightarrow> (\<exists>p. length p = bs \<and> planes_in p raw' nz))"
proof -
  obtain ret raw' nz where r: "bslz4_decode_block lib sse2 dec src raw bs = Inr (ret, raw', nz)" "length raw' = length raw"
    using decode_block_total[OF assms, of sse2 dec src] by blast
  have "\<exists>p. length p = bs \<and> planes_in p raw' nz" if "ret = int bs"
  proof (cases "nz = bs")
    case True
    then show ?thesis using r(2) assms(3) by (intro exI[of _ "take bs raw'"]) (simp add: planes_in_def min_def)
  next
    case False
    then have z: "bslz4_lz4_decode_zero sse2 src raw bs bs = Inr (raw', nz)"
      using r(1) by (auto simp: bslz4_decode_block_def Let_def rbind_Inr_iff split: if_splits sum.splits stop.splits)
    have l: "length raw = bs + bs" using assms(3) by simp
    from decode_sim[OF l, where src = src and ?sse2.0 = sse2] z obtain p where "length p = bs" "nz \<le> bs" "take nz raw' = take nz p" "drop nz p = replicate (bs - nz) 0"
      by (auto split: sum.splits)
    then show ?thesis using r(2) assms(3) by (intro exI[of _ p]) (simp add: planes_in_def)
  qed
  then show ?thesis using r by blast
qed

text \<open>Decoding a block of any bytes: an error, or the planes of some block.\<close>

lemma block_decode_any:
  assumes e: "env_ok e" and k: "call_ok e k" and sp: "space_ok k sp" and c: "readable_chunk c" and px: "\<not> k_pixels k"
  shows "ends chunk_codes (block_decode e k c fs sp) (\<lambda>(fs', sp', n, nz). (\<exists>pos'. fs' = fs\<lparr>f_cursor := pos'\<rparr>) \<and> space_ok k sp' \<and> s_bits sp' = s_bits sp
    \<and> (\<exists>p. length p = k_bs k \<and> planes_in p (take (k_bs k) (s_raw sp')) nz))"
proof (cases "next_block c (f_cursor fs)")
  case (Inl s)
  then show ?thesis using next_block_cases[OF c, of "f_cursor fs"] px by (auto simp: block_decode_def chunk_codes_def)
next
  case (Inr n)
  have ld: "load_n (ck_mem c) (f_cursor fs + 4) n = Inr (block_bytes c (f_cursor fs) n)" using next_block_cases[OF c, of "f_cursor fs"] Inr by auto
  have lr: "length (s_raw sp) = 2 * k_bs k" using sp by (simp add: space_ok_def)
  have lib: "lz4_conforms (e_lib e)" "zstd_fills (e_lib e)" using e by (simp_all add: env_ok_def)
  from decode_block_any[OF lib lr, of "e_sse2 e" "k_step k BSLZ4_STEP_DECODE" "block_bytes c (f_cursor fs) n"] obtain ret raw nz where
    d: "bslz4_decode_block (e_lib e) (e_sse2 e) (k_step k BSLZ4_STEP_DECODE) (block_bytes c (f_cursor fs) n) (s_raw sp) (k_bs k) = Inr (ret, raw, nz)"
      "length raw = length (s_raw sp)" "ret = int (k_bs k) \<longrightarrow> (\<exists>p. length p = k_bs k \<and> planes_in p raw nz)" by blast
  have sp1: "space_ok k (sp\<lparr>s_raw := raw\<rparr>)" using sp d(2) by (simp add: space_ok_def)
  have slot: "0 \<le> k_step k BSLZ4_STEP_DECODE" "k_step k BSLZ4_STEP_DECODE < 16" using step_slot[OF k, of BSLZ4_STEP_DECODE] by (simp_all add: step_values)
  obtain ct where b: "bump BSLZ4_STEP_DECODE (k_step k BSLZ4_STEP_DECODE) (sp\<lparr>s_raw := raw\<rparr>) = Inr (sp\<lparr>s_raw := raw, s_ctrs := ct\<rparr>)"
    "space_ok k (sp\<lparr>s_raw := raw, s_ctrs := ct\<rparr>)"
    by (rule bump_space[OF sp1 _ _ slot, of BSLZ4_STEP_DECODE]) (simp_all add: step_values)
  show ?thesis
  proof (cases "ret = int (k_bs k)")
    case True
    then obtain p where p: "length p = k_bs k" "planes_in p raw nz" using d(3) by blast
    have "planes_in p (take (k_bs k) raw) nz" using planes_in_take[OF p(2)] p(1) by simp
    then show ?thesis using px Inr ld d(1) b p(1) True by (auto simp: block_decode_def)
  next
    case False
    then show ?thesis using px Inr ld d(1) by (simp add: block_decode_def chunk_codes_def)
  qed
qed

lemma block_step_any:
  assumes e: "env_ok e" and R: "sparsifies e k [] []" and c: "readable_chunk c" and f: "some_frame e k c i0 fs" "i0 + k_elems k \<le> k_NIJ k"
    and b: "k_pixels k \<Longrightarrow> \<exists>b<full_blocks (k_total k) (k_bs k). i0 = b * k_elems k"
    and sp: "space_ok k sp" "bits_ok k i0 unmasked (s_bits sp)"
  shows "ends chunk_codes (block_step e k i0 unmasked c (fs, sp)) (\<lambda>(fs', sp'). some_frame e k c (i0 + k_elems k) fs' \<and> space_ok k sp' \<and> s_bits sp' = s_bits sp)"
proof -
  have R: "sparsifies e k g q" for g q using R by (simp add: sparsifies_def)
  have k: "call_ok e k" "cuts_ok k" using R by (simp_all add: sparsifies_def)
  obtain fpx where g: "length fpx = k_NIJ k" "narrow_px (k_dt k) fpx" "frame_inv k fpx i0 fs" "k_pixels k \<longrightarrow> call_pixels e k c = Some fpx \<and> f_cursor fs = 0"
    using f(1) by (auto simp: some_frame_def)
  show ?thesis
  proof (cases "k_pixels k")
    case True
    then have a: "at_block e k c (i0 div k_elems k) (f_cursor fs)" "call_pixels e k c = Some fpx" using g(4) by (simp_all add: at_block_def)
    obtain b where b: "b < full_blocks (k_total k) (k_bs k)" "i0 = b * k_elems k" using b[OF True] by blast
    have "at_block e k c b (f_cursor fs)" using a(1) True by (simp add: at_block_def)
    from block_at_ok[OF e k(1) c a(2) b(1) this] obtain pos' where p: "block_at e k c fpx i0 (f_cursor fs) pos'" unfolding b(2) by blast
    have "pos' = 0" using p True g(4) by (simp add: block_at_def)
    with plain_run.block_step_ok[OF e R c p g(3) refl f(2) g(1,2) sp] show ?thesis using g True by (auto simp: some_frame_def)
  next
    case False
    let ?Q = "\<lambda>(fs', sp'). some_frame e k c (i0 + k_elems k) fs' \<and> space_ok k sp' \<and> s_bits sp' = s_bits sp"
    note d = block_decode_any[OF e k(1) sp(1) c False, of fs]
    show ?thesis
    proof (cases "block_decode e k c fs sp")
      case (Inl s)
      then show ?thesis using d by (simp add: block_step_def ends_def)
    next
      case (Inr x)
      obtain pos' sp1 n nz p where x: "block_decode e k c fs sp = Inr (fs\<lparr>f_cursor := pos'\<rparr>, sp1, n, nz)" "space_ok k sp1" "s_bits sp1 = s_bits sp"
        "length p = k_bs k" "planes_in p (take (k_bs k) (s_raw sp1)) nz" using d Inr by auto
      define fpx' where "fpx' = take i0 fpx @ planes_pixels (k_NB k) p @ drop (i0 + k_elems k) fpx"
      have lp: "length (planes_pixels (k_NB k) p) = k_elems k" "length (take i0 fpx) = i0" using x(4) g(1) f(2) by (simp_all add: k_elems_def)
      have g1: "length fpx' = k_NIJ k" using lp g(1) f(2) by (simp add: fpx'_def)
      have np: "narrow_px (k_dt k) (planes_pixels (k_NB k) p)" using call_ok_nb[OF k(1)] narrow_plane_pixels[of "k_dt k"] by (simp add: planes_pixels_def)
      have g2: "narrow_px (k_dt k) fpx'" using np g(2) by (simp add: fpx'_def narrow_px_take narrow_px_drop)
      have "\<forall>j<i0. fpx ! j = fpx' ! j" using lp by (simp add: fpx'_def nth_append)
      then have g3: "frame_inv k fpx' i0 fs" using g(3) by (rule frame_inv_cong)
      have pj: "\<forall>j<k_elems k. planes_pixels (k_NB k) p ! j = fpx' ! (j + i0)" using lp by (simp add: fpx'_def nth_append)
      from plain_run.block_step_decoded[OF e R False x pj g3 refl f(2) sp(2)] show ?thesis using g1 g2 False by (auto simp: some_frame_def)
    qed
  qed
qed

section \<open>The tail\<close>

lemma tail_planes_any:
  assumes e: "env_ok e" and k: "call_ok e k" and c: "readable_chunk c" and sp: "space_ok k sp" and px: "\<not> k_pixels k"
  shows "ends chunk_codes (tail_planes e k c fs sp) (\<lambda>(fs', sp', n). (\<exists>pos'. fs' = fs\<lparr>f_cursor := pos'\<rparr>) \<and> space_ok k sp')"
proof (cases "k_tail k = 0")
  case True
  then show ?thesis using sp by (auto simp: tail_planes_def intro: exI[of _ "f_cursor fs"])
next
  case False
  let ?pos = "f_cursor fs" and ?ne = "k_tail k div k_NB k" and ?NB = "k_NB k"
  note sz = call_sizes[OF k] and te = tail_elems[OF k]
  have lib: "lz4_conforms (e_lib e)" "zstd_fills (e_lib e)" "shuffle_conforms (e_slib e)" using e by (simp_all add: env_ok_def)
  show ?thesis
  proof (cases "next_block c ?pos")
    case (Inl s)
    then show ?thesis using next_block_cases[OF c, of ?pos] False by (auto simp: tail_planes_def Let_def chunk_codes_def)
  next
    case (Inr n)
    have ld: "load_n (ck_mem c) (?pos + 4) n = Inr (block_bytes c ?pos n)" using next_block_cases[OF c, of ?pos] Inr by auto
    have le: "k_tail k \<le> length (take (k_bs k) (s_raw sp))" using te(4,9) sp by (simp add: space_ok_def)
    from decode_plain_total[OF lib(1,2) le] obtain ret raw where
      r: "bslz4_decode_plain (e_lib e) (k_tail_decode k) (block_bytes c ?pos n) (take (k_bs k) (s_raw sp)) (k_tail k) = Inr (ret, raw)"
        "length raw = length (take (k_bs k) (s_raw sp))" by blast
    have lr: "length raw = k_bs k" using r(2) sp by (simp add: space_ok_def)
    have "8 * ?NB dvd k_tail k" using te(8) te(10)[OF px] by simp
    then obtain q where "k_tail k = 8 * ?NB * q" by blast
    then have d8: "?ne * ?NB = k_tail k" "?ne mod 8 = 0" using sz(2) by simp_all
    have room: "?ne * ?NB \<le> length raw" "?ne * ?NB \<le> length (s_block sp)" using d8(1) le r(2) sp by (simp_all add: space_ok_def)
    from backend_ok[OF lib(3) d8(2) sz(1) room, of "h_build (e_host e)" "k_tail_untranspose k"] obtain ret' block where
      b: "bslz4_untranspose_backend (e_slib e) (h_build (e_host e)) (k_tail_untranspose k) (s_block sp) raw ?ne ?NB = Inr (ret', block)" "0 \<le> ret'"
        "length block = length (s_block sp)" by blast
    let ?sp = "sp\<lparr>s_raw := raw @ drop (k_bs k) (s_raw sp), s_block := block\<rparr>"
    have sp1: "space_ok k ?sp" using sp lr b(3) by (simp add: space_ok_def)
    have sl: "0 \<le> k_step k BSLZ4_STEP_DECODE" "k_step k BSLZ4_STEP_DECODE < 16" "0 \<le> k_step k BSLZ4_STEP_UNTRANSPOSE" "k_step k BSLZ4_STEP_UNTRANSPOSE < 16"
      using step_slot[OF k, of BSLZ4_STEP_DECODE] step_slot[OF k, of BSLZ4_STEP_UNTRANSPOSE] by (simp_all add: step_values)
    obtain c1 where b1: "bump BSLZ4_STEP_DECODE (k_step k BSLZ4_STEP_DECODE) ?sp = Inr (?sp\<lparr>s_ctrs := c1\<rparr>)" "space_ok k (?sp\<lparr>s_ctrs := c1\<rparr>)"
      by (rule bump_space[OF sp1 _ _ sl(1,2), of BSLZ4_STEP_DECODE]) (simp_all add: step_values)
    obtain c2 where b2: "bump BSLZ4_STEP_UNTRANSPOSE (k_step k BSLZ4_STEP_UNTRANSPOSE) (?sp\<lparr>s_ctrs := c1\<rparr>) = Inr (?sp\<lparr>s_ctrs := c2\<rparr>)" "space_ok k (?sp\<lparr>s_ctrs := c2\<rparr>)"
      by (rule bump_space[OF b1(2) _ _ sl(3,4), of BSLZ4_STEP_UNTRANSPOSE]) (simp_all add: step_values)
    have "tail_planes e k c fs sp = (if ret \<noteq> int (k_tail k) then Inl (Code BSLZ4_ERR_DECOMPRESS) else Inr (fs\<lparr>f_cursor := ?pos + n + 4\<rparr>, ?sp\<lparr>s_ctrs := c2\<rparr>, n))"
      unfolding tail_planes_def Let_def using False Inr ld r(1) b(1,2) b1(1) b2(1) by simp
    then show ?thesis using b2(2) by (auto simp: chunk_codes_def)
  qed
qed

lemma tail_raw_any:
  assumes k: "call_ok e k" and c: "readable_chunk c" and sp: "space_ok k sp" and px: "\<not> k_pixels k"
  shows "ends chunk_codes (tail_raw k c fs sp) (space_ok k)"
proof (cases "raw_tail c (f_cursor fs) (k_raw k)")
  case None
  then show ?thesis using px by (auto simp: tail_raw_def raw_tail_def Let_def chunk_codes_def split: if_splits)
next
  case (Some r)
  have le: "k_tail k + k_raw k \<le> length (s_block sp)" using tail_elems(4,9)[OF k] sp by (simp add: space_ok_def)
  show ?thesis using raw_tail_ok[OF c Some px le] sp le by (simp add: space_ok_def length_blit)
qed

lemma tail_step_any:
  assumes e: "env_ok e" and R: "sparsifies e k [] []" and c: "readable_chunk c" and f: "some_frame e k c (k_i0 k) fs" and sp: "space_ok k sp"
  shows "ends chunk_codes (tail_step e k c (fs, sp)) (\<lambda>(fs', sp'). (\<exists>fpx. frame_done k fpx (f_pow fs) fs') \<and> space_ok k sp')"
proof -
  have k: "call_ok e k" "\<not> k_is_dot k" using R by (simp_all add: sparsifies_def)
  have nn: "k_step k BSLZ4_STEP_DOT \<noteq> BSLZ4_DOT_CSC_NOSPLIT_INT" using k(2) by (simp add: k_is_dot_def step_values)
  have R: "sparsifies e k g q" for g q using R by (simp add: sparsifies_def)
  note te = tail_elems[OF k(1)] and sz = call_sizes[OF k(1)]
  let ?ne = "(k_raw k + k_tail k) div k_NB k"
  obtain fpx where g: "length fpx = k_NIJ k" "narrow_px (k_dt k) fpx" "frame_inv k fpx (k_i0 k) fs" "k_pixels k \<longrightarrow> call_pixels e k c = Some fpx \<and> f_cursor fs = 0"
    using f by (auto simp: some_frame_def)
  show ?thesis
  proof (cases "k_pixels k")
    case True
    then have a: "at_block e k c (full_blocks (k_total k) (k_bs k)) (f_cursor fs)" "call_pixels e k c = Some fpx" using g(4) by (simp_all add: at_block_def)
    from plain_run.tail_step_ok[OF e R c a(2,1) g(3) refl sp] nn show ?thesis by (auto simp: pow_end_def)
  next
    case False
    have run: "ends chunk_codes (tail_step e k c (fs, sp)) (\<lambda>(fs', sp'). (\<exists>fpx. frame_done k fpx (f_pow fs) fs') \<and> space_ok k sp')"
      if t: "tail_planes e k c fs sp = Inr (fs\<lparr>f_cursor := pos'\<rparr>, sp1, n)" "tail_raw k c (fs\<lparr>f_cursor := pos'\<rparr>) sp1 = Inr sp2" "space_ok k sp2" for pos' sp1 sp2 n
    proof -
      have NBr: "k_NB k * ?ne = k_raw k + k_tail k" using te(4,6) by simp
      have le: "k_NB k * ?ne \<le> length (s_block sp2)" using NBr te(4,9) t(3) by (simp add: space_ok_def)
      define px where "px = bytes_pixels (k_NB k) (take (k_NB k * ?ne) (s_block sp2))"
      define fpx' where "fpx' = take (k_i0 k) fpx @ px"
      have ld: "load_pixels (k_NB k) (s_block sp2) 0 ?ne = Inr px" using load_pixels_eq[of 0 "k_NB k" ?ne "s_block sp2"] le sz(2) by (simp add: px_def)
      have ne: "k_i0 k + ?ne = k_NIJ k" using te(4,5) by simp
      have l: "length px = ?ne" "length (take (k_i0 k) fpx) = k_i0 k" using le sz(2) ne g(1) by (simp_all add: px_def)
      have np: "narrow_px (k_dt k) px" unfolding px_def using call_ok_nb[OF k(1)] narrow_bytes_pixels[of "k_dt k"] by simp
      have g1: "length fpx' = k_NIJ k" "narrow_px (k_dt k) fpx'" "drop (k_i0 k) fpx' = px" using l ne np g(2) by (simp_all add: fpx'_def narrow_px_take)
      have "\<forall>j<k_i0 k. fpx ! j = fpx' ! j" using l by (simp add: fpx'_def nth_append)
      then have "frame_inv k fpx' (k_i0 k) fs" using g(3) by (rule frame_inv_cong)
      then have g3: "frame_inv k fpx' (k_i0 k) (fs\<lparr>f_cursor := pos'\<rparr>)" "f_pow (fs\<lparr>f_cursor := pos'\<rparr>) = f_pow fs"
        by (simp_all add: frame_inv_def rows_ok_def list_in_def)
      from plain_run.tail_step_loaded[OF e R g1(1,2) t(1,2) g3 t(3)] ld g1(3) False nn show ?thesis by (auto simp: pow_end_def)
    qed
    note p = tail_planes_any[OF e k(1) c sp False, of fs]
    show ?thesis
    proof (cases "tail_planes e k c fs sp")
      case (Inl s)
      then show ?thesis using p by (simp add: tail_step_def ends_def)
    next
      case (Inr x)
      then obtain pos' sp1 n where x: "tail_planes e k c fs sp = Inr (fs\<lparr>f_cursor := pos'\<rparr>, sp1, n)" "space_ok k sp1" using p by auto
      note q = tail_raw_any[OF k(1) c x(2) False, of "fs\<lparr>f_cursor := pos'\<rparr>"]
      show ?thesis
      proof (cases "tail_raw k c (fs\<lparr>f_cursor := pos'\<rparr>) sp1")
        case (Inl s)
        then show ?thesis using q x(1) by (simp add: tail_step_def ends_def)
      next
        case (Inr sp2)
        then show ?thesis using q run[OF x(1)] by simp
      qed
    qed
  qed
qed

section \<open>The loops\<close>

lemma block_row_any:
  assumes e: "env_ok e" and R: "sparsifies e k [] []" and c: "\<forall>c\<in>set chunks. readable_chunk c" and b: "b < full_blocks (k_total k) (k_bs k)"
    and fr: "length chunks \<le> length frames" "\<forall>f<length chunks. some_frame e k (chunks ! f) (b * k_elems k) (frames ! f)" and sp: "space_ok k sp"
  shows "ends chunk_codes (block_row e k chunks b (frames, sp)) (\<lambda>(frames', sp'). length frames' = length frames
    \<and> (\<forall>f<length chunks. some_frame e k (chunks ! f) (Suc b * k_elems k) (frames' ! f)) \<and> space_ok k sp')"
proof -
  have k: "call_ok e k" using R by (simp add: sparsifies_def)
  note te = tail_elems[OF k]
  let ?i0 = "b * k_elems k"
  have "Suc b * k_elems k \<le> full_blocks (k_total k) (k_bs k) * k_elems k" using b by (intro mult_le_mono1) simp
  then have i: "?i0 + k_elems k \<le> k_NIJ k" using te(1,5) by simp
  from bits_ok_pack[OF k sp i] obtain bits unmasked where
    p: "(if k_maskplanes k then bslz4_pack_mask (e_host e) (s_bits sp) (drop ?i0 (k_mask k)) (k_elems k) else Inr (s_bits sp, False)) = Inr (bits, unmasked)"
      "bits_ok k ?i0 unmasked bits" "space_ok k (sp\<lparr>s_bits := bits\<rparr>)" by blast
  have go: "block_row e k chunks b (frames, sp) = fold_res (with_frame (block_step e k ?i0 unmasked) chunks) [0..<length chunks] (frames, sp\<lparr>s_bits := bits\<rparr>)"
    unfolding block_row_def prod.case Let_def p(1) rbind.simps ..
  let ?I = "\<lambda>sp. space_ok k sp \<and> s_bits sp = bits" and ?Q = "\<lambda>f fs. some_frame e k (chunks ! f) (Suc b * k_elems k) fs"
  have "ends chunk_codes (fold_res (with_frame (block_step e k ?i0 unmasked) chunks) [0..<length chunks] (frames, sp\<lparr>s_bits := bits\<rparr>))
    (\<lambda>(frames', sp'). length frames' = length frames \<and> (\<forall>f<length chunks. ?Q f (frames' ! f)) \<and> ?I sp')"
  proof (rule with_frames_end[where I = ?I and Q = ?Q, OF fr(1)])
    show "?I (sp\<lparr>s_bits := bits\<rparr>)" using p(3) by simp
  next
    fix f q assume f: "f < length chunks" and q: "?I q"
    have c: "readable_chunk (chunks ! f)" "some_frame e k (chunks ! f) ?i0 (frames ! f)" "space_ok k q" "bits_ok k ?i0 unmasked (s_bits q)"
      using c fr(2) f q p(2) by simp_all
    show "ends chunk_codes (block_step e k ?i0 unmasked (chunks ! f) (frames ! f, q)) (\<lambda>(fs', sp'). ?Q f fs' \<and> ?I sp')"
      by (rule ends_mono[OF block_step_any[OF e R c(1,2) i _ c(3,4)]]) (use b q in \<open>auto simp: add.commute\<close>)
  qed
  then show ?thesis unfolding go by (rule ends_mono) auto
qed

lemma driver_loops_any:
  assumes e: "env_ok e" and R: "sparsifies e k [] []" and c: "\<forall>c\<in>set chunks. readable_chunk c"
    and fr: "length chunks \<le> length frames" "\<forall>f<length chunks. some_frame e k (chunks ! f) 0 (frames ! f)" and sp: "space_ok k sp"
  shows "ends chunk_codes (driver_loops e k chunks (frames, sp)) (\<lambda>(frames', sp'). \<forall>f<length chunks. \<exists>fpx pow. frame_done k fpx pow (frames' ! f))"
proof -
  have k: "call_ok e k" using R by (simp add: sparsifies_def)
  let ?full = "full_blocks (k_total k) (k_bs k)"
  let ?I = "\<lambda>b (s :: frame_st list \<times> space). length (fst s) = length frames \<and> (\<forall>f<length chunks. some_frame e k (chunks ! f) (b * k_elems k) (fst s ! f)) \<and> space_ok k (snd s)"
  have l: "ends chunk_codes (fold_res (block_row e k chunks) [0..<?full] (frames, sp)) (?I ?full)"
  proof (rule ends_fold_upt[where I = ?I])
    show "?I 0 (frames, sp)" using fr(2) sp by simp
  next
    fix b and s :: "frame_st list \<times> space" assume b: "b < ?full" and i: "?I b s"
    obtain fs q where s: "s = (fs, q)" by (cases s)
    have j: "length chunks \<le> length fs" "\<forall>f<length chunks. some_frame e k (chunks ! f) (b * k_elems k) (fs ! f)" "space_ok k q" using fr(1) i s by simp_all
    show "ends chunk_codes (block_row e k chunks b s) (?I (Suc b))"
      unfolding s by (rule ends_mono[OF block_row_any[OF e R c b j]]) (use i s in auto)
  qed
  have t: "ends chunk_codes (fold_res (with_frame (tail_step e k) chunks) [0..<length chunks] s)
    (\<lambda>(frames', sp'). \<forall>f<length chunks. \<exists>fpx pow. frame_done k fpx pow (frames' ! f))" if i: "?I ?full s" for s
  proof -
    obtain fs q where s: "s = (fs, q)" by (cases s)
    have j: "length chunks \<le> length fs" "\<forall>f<length chunks. some_frame e k (chunks ! f) (k_i0 k) (fs ! f)" "space_ok k q"
      using fr(1) i s tail_elems(1)[OF k] by simp_all
    have "ends chunk_codes (fold_res (with_frame (tail_step e k) chunks) [0..<length chunks] (fs, q))
      (\<lambda>(frames', sp'). length frames' = length fs \<and> (\<forall>f<length chunks. \<exists>fpx pow. frame_done k fpx pow (frames' ! f)) \<and> space_ok k sp')"
    proof (rule with_frames_end[where I = "space_ok k" and frames = fs and sp = q, OF j(1,3)])
      fix f q' assume f: "f < length chunks" and q': "space_ok k q'"
      have c: "readable_chunk (chunks ! f)" "some_frame e k (chunks ! f) (k_i0 k) (fs ! f)" using c f j(2) by simp_all
      show "ends chunk_codes (tail_step e k (chunks ! f) (fs ! f, q')) (\<lambda>(fs', sp'). (\<exists>fpx pow. frame_done k fpx pow fs') \<and> space_ok k sp')"
        by (rule ends_mono[OF tail_step_any[OF e R c q']]) auto
    qed
    then show ?thesis unfolding s by (rule ends_mono) auto
  qed
  show ?thesis unfolding driver_loops_def by (rule ends_bind[OF l t])
qed

section \<open>A call on any chunks\<close>

lemma fold_unit_Inr: "fold_res f xs () = Inr () \<Longrightarrow> x \<in> set xs \<Longrightarrow> f x () = Inr ()"
  by (induction xs) (auto simp: rbind_Inr_iff)

text \<open>The checks leave uncompressed chunks of the frame's size.\<close>

lemma pixels_checked:
  assumes c: "driver_checks p chunks msk NIJ cut_buf ncut nout mat wl tp = Inr k" and k: "call_ok e k" and px: "k_pixels k" "c \<in> set chunks"
    and len: "readable_chunk c" "ck_len c \<le> INT32_MAX"
  shows "ck_len c = int (k_total k)"
proof -
  obtain tot bs where r: "frame_size NIJ (p_elem_size p) (p_step p ! nat BSLZ4_STEP_DECODE = BSLZ4_DECODE_PIXELS) chunks = Inr (tot, bs)"
    "k_pipe k = p" "k_total k = unat tot"
    using c by (auto simp: driver_checks_def rbind_Inr_iff Let_def split: if_splits)
  have "p_step p ! nat BSLZ4_STEP_DECODE = BSLZ4_DECODE_PIXELS" using px(1) r(2) by (simp add: k_pixels_def k_step_def)
  then have "fold_res (check_pixels NIJ (p_elem_size p)) chunks () = Inr ()" and t: "tot = word_of_int NIJ * word_of_nat (p_elem_size p)"
    using r(1) by (auto simp: frame_size_def rbind_Inr_iff split: if_splits)
  from fold_unit_Inr[OF this(1) px(2)] have "0 \<le> ck_len c" and w: "word_of_int (ck_len c) = tot" by (auto simp: check_pixels_def t Let_def split: if_splits)
  then have "uint tot = ck_len c mod 2 ^ 64" by (simp add: unsigned_of_int take_bit_eq_mod flip: w)
  then have "uint tot = ck_len c" using \<open>0 \<le> ck_len c\<close> len(2) by (simp add: INT32_MAX_def)
  then show ?thesis using r(3) by simp
qed

lemma picked_indices:
  assumes "n \<le> 2 ^ 31" "L = picked P fpx msk 0 [0..<n]"
  shows "sorted_wrt (<) (map (unat \<circ> snd) L) \<and> (\<forall>(v, a)\<in>set L. unat a < n \<and> mask_keeps msk (unat a) \<and> P v)"
proof -
  have u: "unat (word_of_nat j :: 32 word) = j" if "j < n" for j using that assms(1) by (simp add: unat_of_nat)
  let ?js = "filter (picks P fpx msk 0) [0..<n]"
  have "map (unat \<circ> snd) L = ?js" unfolding assms(2) picked_def map_map by (rule map_idI) (simp add: u)
  moreover have "sorted_wrt (<) ?js" by (rule sorted_wrt_filter) simp
  ultimately show ?thesis unfolding assms(2) by (auto simp: picked_def picks_def u)
qed

text \<open>The frames before the first block.\<close>

lemma frames_start:
  assumes c: "driver_checks p chunks msk NIJ cut_buf ncut 0 NoMat wl tp = Inr k" and e: "env_ok e" "call_ok e k" and nd: "\<not> k_is_dot k"
    and fr: "rows_for k chunks frames" and m: "\<forall>c\<in>set chunks. readable_chunk c \<and> ck_len c \<le> INT32_MAX" and sp: "space_ok k sp"
  shows "\<exists>frames' sp'. fold_res (with_frame (\<lambda>_ (fs, sp). rbind (frame_init k fs) (\<lambda>fs. Inr (fs, sp))) chunks) [0..<length chunks] (frames, sp) = Inr (frames', sp')
    \<and> length frames' = length frames \<and> (\<forall>f<length chunks. some_frame e k (chunks ! f) 0 (frames' ! f)) \<and> space_ok k sp'"
proof -
  have len: "length chunks \<le> length frames" using fr by (simp add: rows_for_def)
  show ?thesis
  proof (rule with_frames_ok[where I = "space_ok k" and sp = sp, OF len sp])
    fix f q assume f: "f < length chunks" and q: "space_ok k q"
    have r: "rows_ok k (frames ! f)" and c': "chunks ! f \<in> set chunks" using fr f by (simp_all add: rows_for_def)
    define fpx where "fpx = (if k_pixels k then the (call_pixels e k (chunks ! f)) else replicate (k_NIJ k) 0)"
    have fp: "length fpx = k_NIJ k" "narrow_px (k_dt k) fpx" "k_pixels k \<longrightarrow> call_pixels e k (chunks ! f) = Some fpx"
    proof -
      have "call_pixels e k (chunks ! f) = Some fpx" if "k_pixels k"
        using that pixels_checked[OF c e(2) that c'] m c' by (simp add: call_pixels_def fpx_def)
      then show "k_pixels k \<longrightarrow> call_pixels e k (chunks ! f) = Some fpx" by blast
      then show "length fpx = k_NIJ k" "narrow_px (k_dt k) fpx"
        using call_pixels_length[OF e] call_pixels_narrow[OF e] m c' by (auto simp: fpx_def narrow_px_def split: if_splits)
    qed
    from frame_init_ok[OF r, of fpx e "chunks ! f"] nd obtain fs' where i: "frame_init k (frames ! f) = Inr fs'" "frame_inv k fpx 0 fs'"
      "at_block e k (chunks ! f) 0 (f_cursor fs')" by blast
    have "k_pixels k \<longrightarrow> f_cursor fs' = 0" using i(3) by (simp add: at_block_def)
    then show "\<exists>fs' sp'. (\<lambda>_ (fs, sp). rbind (frame_init k fs) (\<lambda>fs. Inr (fs, sp))) (chunks ! f) (frames ! f, q) = Inr (fs', sp')
        \<and> some_frame e k (chunks ! f) 0 fs' \<and> space_ok k sp'"
      using i(1,2) fp q by (auto simp: some_frame_def)
  qed
qed


text \<open>The second chunk ends within the size word of its block.\<close>

definition sample_cut_short :: "chunk list" where
  "sample_cut_short = [sample_frames ! 0, (sample_frames ! 1)\<lparr>ck_len := 14\<rparr>]"


end
