(* ===== verification/DriverDot.thy ===== *)
theory DriverDot
  imports DriverCall
begin

text \<open>
  The dots over a whole frame. \<open>frame_dot\<close> is what a dot's kernels give on one block; from it follows \<open>back_half\<close>, and so a whole call:
  whatever route each block takes, the powder of a frame is the sum over its pixels, in order. The csc dots keep the contract.
\<close>

section \<open>The powder of a frame\<close>

text \<open>\<open>body\<close> on the first \<open>i\<close> pixels.\<close>

definition frame_pow :: "(nat \<Rightarrow> pix \<Rightarrow> pow_fn) \<Rightarrow> pix list \<Rightarrow> 64 word list \<Rightarrow> nat \<Rightarrow> 64 word list" where
  "frame_pow body fpx p0 i = (case fold_res (\<lambda>p. body p (fpx ! p)) [0..<i] p0 of Inl _ \<Rightarrow> p0 | Inr q \<Rightarrow> q)"

lemma frame_pow_0 [simp]: "frame_pow body fpx p0 0 = p0"
  by (simp add: frame_pow_def)

context dot_body
begin

lemma frame_pow_fold:
  assumes "good p0" "\<forall>p<n. fits p (fpx ! p)" "i \<le> n"
  shows "fold_res (\<lambda>p. body p (fpx ! p)) [0..<i] p0 = Inr (frame_pow body fpx p0 i)" "good (frame_pow body fpx p0 i)"
proof -
  have "\<exists>q. fold_res (\<lambda>p. body p (fpx ! p)) [0..<i] p0 = Inr q \<and> good q"
    by (rule fold_upt_inv[where I = "\<lambda>_. good", OF assms(1)]) (use adds assms(2,3) in auto)
  then show "fold_res (\<lambda>p. body p (fpx ! p)) [0..<i] p0 = Inr (frame_pow body fpx p0 i)" "good (frame_pow body fpx p0 i)"
    by (auto simp: frame_pow_def)
qed

text \<open>Pixels that differ only where the column is empty.\<close>

lemma fold_masked:
  assumes "good q" "\<And>j. j < n \<Longrightarrow> fits (j + i0) (px ! j) \<and> fits (j + i0) (fpx ! (j + i0)) \<and> (px ! j = fpx ! (j + i0) \<or> empty (j + i0))"
  shows "fold_res (\<lambda>j. body (j + i0) (px ! j)) [0..<n] q = fold_res (\<lambda>p. body p (fpx ! p)) [i0..<i0 + n] q
    \<and> (\<exists>q'. fold_res (\<lambda>p. body p (fpx ! p)) [i0..<i0 + n] q = Inr q' \<and> good q')"
  using assms(2)
proof (induction n)
  case 0
  then show ?case using assms(1) by simp
next
  case (Suc n)
  have "fold_res (\<lambda>j. body (j + i0) (px ! j)) [0..<n] q = fold_res (\<lambda>p. body p (fpx ! p)) [i0..<i0 + n] q
    \<and> (\<exists>q'. fold_res (\<lambda>p. body p (fpx ! p)) [i0..<i0 + n] q = Inr q' \<and> good q')" by (rule Suc.IH) (simp add: Suc.prems)
  then obtain q1 where q1: "fold_res (\<lambda>j. body (j + i0) (px ! j)) [0..<n] q = Inr q1" "fold_res (\<lambda>p. body p (fpx ! p)) [i0..<i0 + n] q = Inr q1" "good q1"
    by fastforce
  have f: "fits (n + i0) (px ! n)" "fits (n + i0) (fpx ! (n + i0))" "px ! n = fpx ! (n + i0) \<or> empty (n + i0)" using Suc.prems[of n] by simp_all
  have "body (n + i0) (px ! n) q1 = body (n + i0) (fpx ! (n + i0)) q1" using f(3) folded[OF q1(3) f(1)] folded[OF q1(3) f(2)] by fastforce
  moreover obtain q2 where "body (n + i0) (fpx ! (n + i0)) q1 = Inr q2" "good q2" using adds[OF q1(3) f(2)] by blast
  ultimately show ?case using q1 by (simp add: fold_res_append fold_res_single add.commute)
qed

text \<open>From one prefix of the frame to the next, over the pixels a kernel sees or over the list of the non-zero ones.\<close>

lemma frame_pow_step:
  assumes g: "good p0" "\<forall>p<n. fits p (fpx ! p)" and i: "i0 + ne \<le> n" "n \<le> 2 ^ 32"
    and px: "\<And>j. j < ne \<Longrightarrow> fits (j + i0) (px ! j) \<and> (px ! j = fpx ! (j + i0) \<or> empty (j + i0))" "\<And>j. j < ne \<Longrightarrow> \<not> mask_keeps msk (j + i0) \<Longrightarrow> empty (j + i0)"
  shows "fold_res (\<lambda>j. body (j + i0) (px ! j)) [0..<ne] (frame_pow body fpx p0 i0) = Inr (frame_pow body fpx p0 (i0 + ne))"
    "fold_res (\<lambda>(v, a). body (unat a) v) (picked nz px msk i0 [0..<ne]) (frame_pow body fpx p0 i0) = Inr (frame_pow body fpx p0 (i0 + ne))"
proof -
  let ?q = "frame_pow body fpx p0 i0"
  have le: "i0 \<le> n" "i0 + ne \<le> 2 ^ 32" using i by simp_all
  note a = frame_pow_fold[OF g le(1)] and b = frame_pow_fold[OF g i(1)]
  have u: "[0..<i0 + ne] = [0..<i0] @ [i0..<i0 + ne]" by (rule upt_add_eq_append) simp
  have c: "fold_res (\<lambda>p. body p (fpx ! p)) [i0..<i0 + ne] ?q = Inr (frame_pow body fpx p0 (i0 + ne))"
    using a(1) b(1) unfolding u fold_res_append by simp
  have m: "fold_res (\<lambda>j. body (j + i0) (px ! j)) [0..<ne] ?q = fold_res (\<lambda>p. body p (fpx ! p)) [i0..<i0 + ne] ?q"
    using fold_masked[OF a(2), of ne i0 px fpx] px(1) g(2) i(1) by auto
  then show d: "fold_res (\<lambda>j. body (j + i0) (px ! j)) [0..<ne] ?q = Inr (frame_pow body fpx p0 (i0 + ne))" using c by simp
  have "\<exists>pow'. fold_res (\<lambda>j. body (j + i0) (px ! j)) [0..<ne] ?q = Inr pow' \<and> good pow'
      \<and> fold_res (\<lambda>(v, a). body (unat a) v) (picked nz px msk i0 [0..<ne]) ?q = Inr pow'"
    by (rule powders[OF a(2) le(2)]) (use px in auto)
  then show "fold_res (\<lambda>(v, a). body (unat a) v) (picked nz px msk i0 [0..<ne]) ?q = Inr (frame_pow body fpx p0 (i0 + ne))" using d by auto
qed

end

section \<open>The contract of a dot\<close>

text \<open>A block's work with the call's type and dot, inside the frame.\<close>

definition work_of :: "call \<Rightarrow> bslz4_work \<Rightarrow> bool" where
  "work_of k w \<longleftrightarrow> w_dtype w = k_dt k \<and> w_dot w = k_step k BSLZ4_STEP_DOT \<and> w_i0 w + w_n w \<le> k_NIJ k"

abbreviation kernel :: "env \<Rightarrow> call \<Rightarrow> bslz4_work \<Rightarrow> dot_st \<Rightarrow> (int \<times> dot_st) res" where
  "kernel e k \<equiv> bslz4_sparse_dot_dispatch (h_build (e_host e)) (e_fc e) (k_mat k)"

text \<open>The calls and frames served: pixels the body takes, masked ones with empty columns, and a powder to start from.\<close>

definition dots :: "(env \<Rightarrow> call \<Rightarrow> bool) \<Rightarrow> (call \<Rightarrow> 64 word list \<Rightarrow> bool) \<Rightarrow> (env \<Rightarrow> call \<Rightarrow> nat \<Rightarrow> pix \<Rightarrow> bool) \<Rightarrow> (call \<Rightarrow> nat \<Rightarrow> bool)
    \<Rightarrow> env \<Rightarrow> call \<Rightarrow> pix list \<Rightarrow> 64 word list \<Rightarrow> bool" where
  "dots serves good fits void e k fpx p0 \<longleftrightarrow> call_ok e k \<and> cuts_ok k \<and> k_is_dot k \<and> serves e k \<and> good k p0 \<and> length fpx = k_NIJ k \<and> narrow_px (k_dt k) fpx
     \<and> (\<forall>p<k_NIJ k. fits e k p (fpx ! p) \<and> fits e k p 0) \<and> (\<forall>p<k_NIJ k. \<not> mask_keeps (k_emask k) p \<longrightarrow> void k p)"

locale frame_dot =
  fixes serves :: "env \<Rightarrow> call \<Rightarrow> bool" and body :: "env \<Rightarrow> call \<Rightarrow> nat \<Rightarrow> pix \<Rightarrow> pow_fn" and good :: "call \<Rightarrow> 64 word list \<Rightarrow> bool"
    and fits :: "env \<Rightarrow> call \<Rightarrow> nat \<Rightarrow> pix \<Rightarrow> bool" and empty :: "call \<Rightarrow> nat \<Rightarrow> bool"
  assumes pixels: "serves e k \<Longrightarrow> dot_body (body e k) (good k) (fits e k) (empty k) (px_nz (k_dt k))"
    and dense: "serves e k \<Longrightarrow> work_of k w \<Longrightarrow> \<not> w_route w \<Longrightarrow> block_ready w \<Longrightarrow> room (w_n w) st
      \<Longrightarrow> fold_res (\<lambda>j. body e k (j + w_i0 w) (w_block w ! j)) [0..<w_n w] (d_pow st) = Inr pow
      \<Longrightarrow> dot_gives st (kernel e k w st) pow (picked (passes w) (w_block w) (work_mask w) (w_i0 w) [0..<w_n w])"
    and sparse: "serves e k \<Longrightarrow> work_of k w \<Longrightarrow> w_route w \<Longrightarrow> nz_ready w st L \<Longrightarrow> length L \<le> w_n w \<Longrightarrow> room (w_n w) st
      \<Longrightarrow> \<forall>(v, a)\<in>set L. fits e k (unat a) v \<Longrightarrow> fold_res (\<lambda>(v, a). body e k (unat a) v) L (d_pow st) = Inr pow
      \<Longrightarrow> dot_gives st (kernel e k w st) pow (filter (\<lambda>(v, a). passes w v) L)"
begin

lemma seen_pixels:
  assumes d: "dots serves good fits empty e k fpx p0" and s: "sees k nm i0 ne px fpx" "i0 + ne \<le> k_NIJ k" "j < ne"
  shows "fits e k (j + i0) (px ! j) \<and> (px ! j = fpx ! (j + i0) \<or> empty k (j + i0))" "\<not> mask_keeps (work_bmask k nm) (j + i0) \<Longrightarrow> empty k (j + i0)"
proof -
  have p: "j + i0 < k_NIJ k" using s(2,3) by simp
  have v: "px ! j = (if nm \<and> \<not> mask_keeps (k_emask k) (j + i0) then 0 else fpx ! (j + i0))" using s(1,3) by (simp add: sees_def)
  have f: "fits e k (j + i0) (fpx ! (j + i0))" "fits e k (j + i0) 0" "\<not> mask_keeps (k_emask k) (j + i0) \<Longrightarrow> empty k (j + i0)" using d p by (simp_all add: dots_def)
  show "fits e k (j + i0) (px ! j) \<and> (px ! j = fpx ! (j + i0) \<or> empty k (j + i0))" unfolding v using f by (cases "nm \<and> \<not> mask_keeps (k_emask k) (j + i0)") simp_all
  have "nm \<or> k_emask k = Some (k_mask k)" using s(1) by (auto simp: sees_def k_emask_def)
  then show "\<not> mask_keeps (work_bmask k nm) (j + i0) \<Longrightarrow> empty k (j + i0)" using f(3) by (cases nm) (simp_all add: work_bmask_def mask_keeps_def)
qed

lemma frame_step:
  assumes d: "dots serves good fits empty e k fpx p0" and s: "sees k nm i0 ne px fpx" "i0 + ne \<le> k_NIJ k"
  shows "fold_res (\<lambda>j. body e k (j + i0) (px ! j)) [0..<ne] (frame_pow (body e k) fpx p0 i0) = Inr (frame_pow (body e k) fpx p0 (i0 + ne))"
    "fold_res (\<lambda>(v, a). body e k (unat a) v) (picked (px_nz (k_dt k)) px (work_bmask k nm) i0 [0..<ne]) (frame_pow (body e k) fpx p0 i0)
      = Inr (frame_pow (body e k) fpx p0 (i0 + ne))"
    "\<forall>(v, a)\<in>set (picked (px_nz (k_dt k)) px (work_bmask k nm) i0 [0..<ne]). fits e k (unat a) v"
proof -
  have k: "serves e k" "good k p0" "\<forall>p<k_NIJ k. fits e k p (fpx ! p)" "call_ok e k" using d by (simp_all add: dots_def)
  have n: "k_NIJ k \<le> 2 ^ 32" using k(4) unfolding call_ok_def by simp
  note x = seen_pixels[OF d s]
  show "fold_res (\<lambda>j. body e k (j + i0) (px ! j)) [0..<ne] (frame_pow (body e k) fpx p0 i0) = Inr (frame_pow (body e k) fpx p0 (i0 + ne))"
    "fold_res (\<lambda>(v, a). body e k (unat a) v) (picked (px_nz (k_dt k)) px (work_bmask k nm) i0 [0..<ne]) (frame_pow (body e k) fpx p0 i0)
      = Inr (frame_pow (body e k) fpx p0 (i0 + ne))"
    using dot_body.frame_pow_step[OF pixels[OF k(1)] k(2,3) s(2) n, of px "work_bmask k nm"] x by blast+
  have "i0 + ne \<le> 2 ^ 32" using s(2) n by simp
  then show "\<forall>(v, a)\<in>set (picked (px_nz (k_dt k)) px (work_bmask k nm) i0 [0..<ne]). fits e k (unat a) v"
    using picked_bounds[of _ _ "px_nz (k_dt k)" px "work_bmask k nm" i0 ne] x(1) by fastforce
qed

text \<open>One block of the frame, on either route: the list and the powder of the longer prefix.\<close>

lemma collects_dot:
  assumes d: "dots serves good fits empty e k fpx p0" and i: "i0 + ne \<le> k_NIJ k" "ne \<le> k_elems k" and s: "sees k nm i0 ne px fpx"
    and l: "lev_ok k lev" "open_list k fs L ne" "f_pow fs = frame_pow (body e k) fpx p0 i0" and sp: "space_ok k sp"
  shows "\<exists>fs' sp'. collect_block e k sp_route (call_work k nm (lev_cuts k lev) (k_is_dot k \<and> sp_route) ne i0 px) fs sp = Inr (fs', sp')
    \<and> grows k fs L (picked (lev_pass k lev) fpx (k_emask k) 0 [i0..<i0 + ne]) (frame_pow (body e k) fpx p0 (i0 + ne)) fs' \<and> space_ok k sp' \<and> s_bits sp' = s_bits sp"
proof -
  have k: "call_ok e k" "cuts_ok k" "k_is_dot k" "serves e k" using d by (simp_all add: dots_def)
  let ?w = "call_work k nm (lev_cuts k lev) sp_route ne i0 px" and ?pow = "frame_pow (body e k) fpx p0 (i0 + ne)"
  let ?K = "picked (lev_pass k lev) fpx (k_emask k) 0 [i0..<i0 + ne]" and ?N = "picked (px_nz (k_dt k)) px (work_bmask k nm) i0 [0..<ne]"
  let ?r = "if sp_route then BSLZ4_ROUTE_SPARSE else BSLZ4_ROUTE_DENSE"
  have sl: "0 \<le> k_step k BSLZ4_STEP_COLLECT" "k_step k BSLZ4_STEP_COLLECT < 16" "0 \<le> k_step k BSLZ4_STEP_DOT" "k_step k BSLZ4_STEP_DOT < 16" "0 \<le> ?r" "?r < 16"
    using step_slot[OF k(1), of BSLZ4_STEP_COLLECT] step_slot[OF k(1), of BSLZ4_STEP_DOT] by (simp_all add: step_values)
  obtain c1 where b1: "bump BSLZ4_STEP_COLLECT (k_step k BSLZ4_STEP_COLLECT) sp = Inr (sp\<lparr>s_ctrs := c1\<rparr>)" "space_ok k (sp\<lparr>s_ctrs := c1\<rparr>)"
    by (rule bump_space[OF sp _ _ sl(1,2), of BSLZ4_STEP_COLLECT]) (simp_all add: step_values)
  obtain c2 where b2: "bump BSLZ4_STEP_ROUTE ?r (sp\<lparr>s_ctrs := c1\<rparr>) = Inr (sp\<lparr>s_ctrs := c2\<rparr>)" "space_ok k (sp\<lparr>s_ctrs := c2\<rparr>)"
    by (rule bump_space[OF b1(2) _ _ sl(5,6), of BSLZ4_STEP_ROUTE]) (simp_all add: step_values)
  obtain c3 where b3: "bump BSLZ4_STEP_DOT (k_step k BSLZ4_STEP_DOT) (sp\<lparr>s_ctrs := c2\<rparr>) = Inr (sp\<lparr>s_ctrs := c3\<rparr>)" "space_ok k (sp\<lparr>s_ctrs := c3\<rparr>)"
    by (rule bump_space[OF b2(2) _ _ sl(3,4), of BSLZ4_STEP_DOT]) (simp_all add: step_values)
  have w: "work_of k ?w" "w_n ?w = ne" "w_i0 ?w = i0" "w_dtype ?w = k_dt k" "w_block ?w = px" "w_route ?w = sp_route" "\<not> w_precompacted ?w" "passes ?w = lev_pass k lev"
    using i by (simp_all add: work_of_def call_work_def passes_def[abs_def] lev_pass_def[abs_def])
  have br: "block_ready ?w" by (rule sees_block_ready[OF s i(1) k(1)])
  note f = frame_step[OF d s i(1)]
  have lK: "length ?K \<le> ne" using length_picked[of "lev_pass k lev" fpx "k_emask k" 0 "[i0..<i0 + ne]"] by simp
  have z: "picked (lev_pass k lev) px (work_bmask k nm) i0 [0..<ne] = ?K" by (rule picked_sees[OF s]) (rule lev_pass_0[OF k(1,2) l(1)])
  have kernel_gives: "dot_gives st (kernel e k ?w st) ?pow ?K" if st: "d_pow st = f_pow fs" "room ne st" "d_tval st = s_tval sp" "d_tidx st = s_tidx sp" for st
  proof (cases sp_route)
    case False
    have "dot_gives st (kernel e k ?w st) ?pow (picked (passes ?w) (w_block ?w) (work_mask ?w) (w_i0 ?w) [0..<w_n ?w])"
      by (rule dense[OF k(4) w(1) _ br]) (use False w f(1) st(1,2) l(3) in simp_all)
    then show ?thesis using z unfolding w work_mask_call by simp
  next
    case True
    have nz: "nz_ready ?w st ?N" using w br sp i(2) k(3) st(3,4) by (simp add: nz_ready_def work_mask_call space_ok_def)
    have lN: "length ?N \<le> w_n ?w" using length_picked[of "px_nz (k_dt k)" px "work_bmask k nm" i0 "[0..<ne]"] w(2) by simp
    have "dot_gives st (kernel e k ?w st) ?pow (filter (\<lambda>(v, a). passes ?w v) ?N)"
      by (rule sparse[OF k(4) w(1) _ nz lN _ f(3)]) (use True w f(2) st(1,2) l(3) in simp_all)
    moreover have "filter (\<lambda>(v, a). passes ?w v) ?N = ?K"
      unfolding w(8) z[symmetric] by (rule filter_picked) (rule lev_pass_nz[OF k(1,2) l(1)])
    ultimately show ?thesis by simp
  qed
  have "\<exists>fs' sp'. dot_block e k ?w fs (sp\<lparr>s_ctrs := c3\<rparr>) = Inr (fs', sp') \<and> grows k fs L ?K ?pow fs' \<and> space_ok k sp' \<and> s_bits sp' = s_bits (sp\<lparr>s_ctrs := c3\<rparr>)"
    by (rule dot_block_ok[OF l(2) lK b3(2) k(3)], rule kernel_gives) simp_all
  then obtain fs' sp' where r: "dot_block e k ?w fs (sp\<lparr>s_ctrs := c3\<rparr>) = Inr (fs', sp')" "grows k fs L ?K ?pow fs'" "space_ok k sp'" "s_bits sp' = s_bits sp"
    by (elim exE conjE) simp
  have "collect_block e k sp_route ?w fs sp = Inr (fs', sp')" unfolding collect_block_def b1(1) rbind.simps b2(1) b3(1) if_P[OF k(3)] r(1) ..
  moreover have eq: "(k_is_dot k \<and> sp_route) = sp_route" using k(3) by simp
  ultimately show ?thesis using r(2-4) unfolding eq by blast
qed

text \<open>A block whose non-zero pixels the fused kernels have listed.\<close>

lemma fuses_dot:
  assumes d: "dots serves good fits empty e k fpx p0" and i: "i0 + ne \<le> k_NIJ k" "ne \<le> k_elems k"
    and l: "lev_ok k lev" "open_list k fs L ne" "f_pow fs = frame_pow (body e k) fpx p0 i0" and sp: "space_ok k sp"
    and K: "K = picked (px_nz (k_dt k)) fpx (k_emask k) 0 [i0..<i0 + ne]" "take (length K) (s_tval sp) = map fst K" "take (length K) (s_tidx sp) = map snd K"
  shows "\<exists>fs' sp'. dot_block e k ((call_work k nm (lev_cuts k lev) True ne i0 [])\<lparr>w_precompacted := True, w_pre_nz := length K\<rparr>) fs sp = Inr (fs', sp')
    \<and> grows k fs L (picked (lev_pass k lev) fpx (k_emask k) 0 [i0..<i0 + ne]) (frame_pow (body e k) fpx p0 (i0 + ne)) fs' \<and> space_ok k sp' \<and> s_bits sp' = s_bits sp"
proof -
  have k: "call_ok e k" "cuts_ok k" "k_is_dot k" "serves e k" and x: "length fpx = k_NIJ k" "narrow_px (k_dt k) fpx" using d by (simp_all add: dots_def)
  let ?w = "(call_work k nm (lev_cuts k lev) True ne i0 [])\<lparr>w_precompacted := True, w_pre_nz := length K\<rparr>" and ?pow = "frame_pow (body e k) fpx p0 (i0 + ne)"
  let ?K = "picked (lev_pass k lev) fpx (k_emask k) 0 [i0..<i0 + ne]" and ?em = "k_emask k = None"
  have s: "sees k ?em i0 ne (take ne (drop i0 fpx)) fpx"
    by (rule sees_plain) (use x i(1) in \<open>auto simp: narrow_px_take narrow_px_drop add.commute\<close>)
  note f = frame_step[OF d s i(1)]
  have N: "picked (px_nz (k_dt k)) (take ne (drop i0 fpx)) (work_bmask k ?em) i0 [0..<ne] = K" unfolding K(1) by (rule picked_sees[OF s, of "px_nz (k_dt k)"]) (rule px_nz_0)
  have w: "work_of k ?w" "w_n ?w = ne" "w_dtype ?w = k_dt k" "w_route ?w" "passes ?w = lev_pass k lev"
    using i by (simp_all add: work_of_def call_work_def passes_def[abs_def] lev_pass_def[abs_def])
  have lK: "length K \<le> ne" "length ?K \<le> ne" unfolding K(1)
    using length_picked[of "px_nz (k_dt k)" fpx "k_emask k" 0 "[i0..<i0 + ne]"] length_picked[of "lev_pass k lev" fpx "k_emask k" 0 "[i0..<i0 + ne]"] by simp_all
  have F: "filter (\<lambda>(v, a). lev_pass k lev v) K = ?K" unfolding K(1) by (rule filter_picked) (rule lev_pass_nz[OF k(1,2) l(1)])
  have "dot_gives st (kernel e k ?w st) ?pow ?K" if st: "d_pow st = f_pow fs" "room ne st" "d_tval st = s_tval sp" "d_tidx st = s_tidx sp" for st
  proof -
    have nz: "nz_ready ?w st K" using K(2,3) st(3,4) lK(1) sp i(2) k(3) by (simp add: nz_ready_def nz_list_def zip_map_fst_snd space_ok_def)
    have "dot_gives st (kernel e k ?w st) ?pow (filter (\<lambda>(v, a). passes ?w v) K)" by (rule sparse[OF k(4) w(1,4) nz _ _ f(3)[unfolded N]]) (use w lK f(2)[unfolded N] st(1,2) l(3) in simp_all)
    then show ?thesis unfolding w(5) F .
  qed
  from dot_block_ok[OF l(2) lK(2) sp k(3) this] show ?thesis by blast
qed

end

sublocale frame_dot \<subseteq> whole: back_half "dots serves good fits empty" "\<lambda>e k. frame_pow (body e k)"
proof
  show "\<exists>fs' sp'. collect_block e k sparse (call_work k nm (lev_cuts k lev) (k_is_dot k \<and> sparse) ne i0 px) fs sp = Inr (fs', sp')
      \<and> grows k fs L (picked (lev_pass k lev) fpx (k_emask k) 0 [i0..<i0 + ne]) (frame_pow (body e k) fpx p0 (i0 + ne)) fs' \<and> space_ok k sp' \<and> s_bits sp' = s_bits sp"
    if "dots serves good fits empty e k fpx p0" "i0 + ne \<le> k_NIJ k" "ne \<le> k_elems k" "sees k nm i0 ne px fpx" "lev_ok k lev" "open_list k fs L ne"
      "f_pow fs = frame_pow (body e k) fpx p0 i0" "space_ok k sp" for e k fpx p0 i0 ne nm px lev fs L sp sparse
    by (rule collects_dot[OF that])
qed (rule fuses_dot, assumption+, auto simp: dots_def)

section \<open>The csc dots\<close>

text \<open>A kernel that is the two routes of a body.\<close>

lemma dense_body_gives:
  assumes "block_ready w" "room (w_n w) st" "fold_res (\<lambda>j. body (j + w_i0 w) (w_block w ! j)) [0..<w_n w] (d_pow st) = Inr pow"
  shows "dot_gives st (dense_route body bld w st) pow (picked (passes w) (w_block w) (work_mask w) (w_i0 w) [0..<w_n w])"
proof (rule dense_route_gives[OF assms(1,2)])
  have "w_n w \<le> length (w_block w)" using assms(1) by (simp add: block_ready_def readable_def)
  then have "dense_pow body w (d_pow st) = fold_res (\<lambda>j. body (j + w_i0 w) (w_block w ! j)) [0..<w_n w] (d_pow st)"
    unfolding dense_pow_def by (intro fold_res_cong) (simp add: load_ok)
  then show "dense_pow body w (d_pow st) = Inr pow" using assms(3) by simp
qed

lemma sparse_body_gives:
  assumes "nz_ready w st L" "length L \<le> w_n w" "room (w_n w) st" "fold_res (\<lambda>(v, a). body (unat a) v) L (d_pow st) = Inr pow"
  shows "dot_gives st (sparse_route (sparse_pow body) bld w st) pow (filter (\<lambda>(v, a). passes w v) L)"
proof (rule sparse_route_gives[OF assms(1)])
  show "room (length L) st" using assms(2,3) by (simp add: room_def)
qed (use assms(4) in \<open>simp add: sparse_pow_list\<close>)

lemma fixed_run_dense:
  assumes "\<not> w_route w" "block_ready w" "room (w_n w) st" "fold_res (\<lambda>j. body (j + w_i0 w) (w_block w ! j)) [0..<w_n w] (d_pow st) = Inr pow"
  shows "dot_gives st (fixed_run body bld w st) pow (picked (passes w) (w_block w) (work_mask w) (w_i0 w) [0..<w_n w])"
proof (cases "w_n w = 0")
  case True
  then show ?thesis using assms(1,4) dot_gives_empty[OF True, of st "passes w" "work_mask w"] by (simp add: fixed_run_def fixed_dense_def)
next
  case False
  then show ?thesis using assms(1) dense_body_gives[OF assms(2-4), of bld] by (simp add: fixed_run_def fixed_dense_def)
qed

lemma fixed_run_sparse:
  assumes "w_route w" "nz_ready w st L" "length L \<le> w_n w" "room (w_n w) st" "fold_res (\<lambda>(v, a). body (unat a) v) L (d_pow st) = Inr pow"
  shows "dot_gives st (fixed_run body bld w st) pow (filter (\<lambda>(v, a). passes w v) L)"
proof (cases "w_n w = 0")
  case True
  then show ?thesis using assms(1,3,5) by (simp add: fixed_run_def fixed_sparse_def dot_gives_def)
next
  case False
  then show ?thesis using assms(1) sparse_body_gives[OF assms(2-5), of bld] by (simp add: fixed_run_def fixed_sparse_def)
qed

text \<open>The matrix of a csc call, and what its dot does with a pixel.\<close>

definition csc_of :: "call \<Rightarrow> bslz4_mat_csc" where
  "csc_of k = (case k_mat k of MatCsc m \<Rightarrow> m | _ \<Rightarrow> \<lparr>m_data = [], m_indices = [], m_indptr = []\<rparr>)"

abbreviation dot_of :: "call \<Rightarrow> int" where
  "dot_of k \<equiv> k_step k BSLZ4_STEP_DOT"

definition csc_body :: "env \<Rightarrow> call \<Rightarrow> nat \<Rightarrow> pix \<Rightarrow> pow_fn" where
  "csc_body e k =
     (if dot_of k = BSLZ4_DOT_CSC then csc_add (e_fc e) (k_dt k) (csc_of k)
      else if dot_of k = BSLZ4_DOT_CSC_RUN then run_add (e_fc e) (k_dt k) (csc_of k)
      else if dot_of k = BSLZ4_DOT_CSC_NOSPLIT then nosplit_add (k_dt k) (m_indices (csc_of k))
      else if dot_of k = BSLZ4_DOT_CSC_INT then csc_int_add (k_dt k) (csc_of k)
      else run_int_add (if dot_of k = BSLZ4_DOT_CSC_RUN_INT then 32 else 16) (k_dt k) (csc_of k))"

definition int_dot :: "call \<Rightarrow> bool" where
  "int_dot k \<longleftrightarrow> dot_of k \<in> {BSLZ4_DOT_CSC_INT, BSLZ4_DOT_CSC_RUN_INT, BSLZ4_DOT_CSC_RUN_INT16}"

definition csc_serves :: "env \<Rightarrow> call \<Rightarrow> bool" where
  "csc_serves e k \<longleftrightarrow> k_mat k = MatCsc (csc_of k) \<and> 0 \<le> k_dt k \<and> k_dt k \<le> 9
     \<and> (dot_of k \<in> {BSLZ4_DOT_CSC, BSLZ4_DOT_CSC_RUN, BSLZ4_DOT_CSC_NOSPLIT} \<or> int_dot k)
     \<and> (dot_of k = BSLZ4_DOT_CSC \<longrightarrow> csc_shape (csc_of k) (k_NIJ k) (k_nout k))"

text \<open>Powders, pixels and empty columns, as in the routes of each dot.\<close>

definition csc_good :: "call \<Rightarrow> 64 word list \<Rightarrow> bool" where
  "csc_good k pow \<longleftrightarrow> (if int_dot k then length pow = k_nout k else sums (k_nout k) pow)"

definition csc_px :: "env \<Rightarrow> call \<Rightarrow> nat \<Rightarrow> pix \<Rightarrow> bool" where
  "csc_px e k p v \<longleftrightarrow>
     (if dot_of k = BSLZ4_DOT_CSC then csc_fits (e_fc e) (k_dt k) (csc_of k) (k_NIJ k) (k_nout k) p v \<and> px_exact (k_dt k) v
      else if dot_of k = BSLZ4_DOT_CSC_RUN then run_fits (e_fc e) (k_dt k) (csc_of k) (k_NIJ k) (k_nout k) p v
      else if dot_of k = BSLZ4_DOT_CSC_NOSPLIT then bin_fits (k_dt k) (m_indices (csc_of k)) (k_NIJ k) (k_nout k) p v
      else p < k_NIJ k \<and> \<not> is_float (k_dt k)
        \<and> (if dot_of k = BSLZ4_DOT_CSC_INT then csc_shape (csc_of k) (k_NIJ k) (k_nout k) else run_shape (csc_of k) (k_NIJ k) (k_nout k)))"

definition csc_void :: "call \<Rightarrow> nat \<Rightarrow> bool" where
  "csc_void k p \<longleftrightarrow> (if dot_of k = BSLZ4_DOT_CSC_NOSPLIT then no_bin (m_indices (csc_of k)) p else no_entry (csc_of k) p)"

lemmas csc_call_defs = csc_body_def csc_good_def csc_px_def csc_void_def int_dot_def

lemma dot_body_mono:
  assumes "dot_body body good fits void nz" "\<And>p v. fits' p v \<Longrightarrow> fits p v"
  shows "dot_body body good fits' void nz"
  using assms unfolding dot_body_def by blast

lemma csc_pixels:
  assumes "csc_serves e k"
  shows "dot_body (csc_body e k) (csc_good k) (csc_px e k) (csc_void k) (px_nz (k_dt k))"
proof -
  let ?d = "dot_of k" and ?m = "csc_of k"
  consider "?d = BSLZ4_DOT_CSC" | "?d = BSLZ4_DOT_CSC_RUN" | "?d = BSLZ4_DOT_CSC_NOSPLIT" | "?d = BSLZ4_DOT_CSC_INT"
    | "?d = BSLZ4_DOT_CSC_RUN_INT \<or> ?d = BSLZ4_DOT_CSC_RUN_INT16"
    using assms by (auto simp: csc_serves_def int_dot_def)
  then show ?thesis
  proof cases
    case 1
    have e: "csc_body e k = csc_add (e_fc e) (k_dt k) ?m" "csc_good k = sums (k_nout k)" "csc_void k = no_entry ?m"
      using 1 by (auto simp: csc_call_defs step_values intro!: ext)
    show ?thesis unfolding e
      by (rule dot_body_mono[OF csc.dot_body_axioms[of "e_fc e" "k_dt k" ?m "k_nout k" "k_NIJ k"]]) (use 1 in \<open>simp add: csc_px_def\<close>)
  next
    case 2
    have e: "csc_body e k = run_add (e_fc e) (k_dt k) ?m" "csc_good k = sums (k_nout k)" "csc_void k = no_entry ?m"
      using 2 by (auto simp: csc_call_defs step_values intro!: ext)
    show ?thesis unfolding e
      by (rule dot_body_mono[OF run.dot_body_axioms[of "e_fc e" "k_dt k" ?m "k_nout k" "k_NIJ k"]]) (use 2 in \<open>simp add: csc_px_def step_values\<close>)
  next
    case 3
    have e: "csc_body e k = nosplit_add (k_dt k) (m_indices ?m)" "csc_good k = sums (k_nout k)" "csc_void k = no_bin (m_indices ?m)"
      using 3 by (auto simp: csc_call_defs step_values intro!: ext)
    show ?thesis unfolding e
      by (rule dot_body_mono[OF nosplit.dot_body_axioms[of "k_dt k" "m_indices ?m" "k_nout k" "k_NIJ k"]]) (use 3 in \<open>simp add: csc_px_def step_values\<close>)
  next
    case 4
    have e: "csc_body e k = csc_int_add (k_dt k) ?m" "csc_good k = (\<lambda>pow. length pow = k_nout k)" "csc_void k = no_entry ?m"
      using 4 by (auto simp: csc_call_defs step_values intro!: ext)
    show ?thesis unfolding e
      by (rule dot_body_mono[OF csc_int.dot_body_axioms[of "k_dt k" ?m "k_nout k" "k_NIJ k"]]) (use 4 in \<open>simp add: csc_px_def step_values\<close>)
  next
    case 5
    have e: "csc_body e k = run_int_add (if ?d = BSLZ4_DOT_CSC_RUN_INT then 32 else 16) (k_dt k) ?m" "csc_good k = (\<lambda>pow. length pow = k_nout k)"
      "csc_void k = no_entry ?m"
      using 5 by (auto simp: csc_call_defs step_values intro!: ext)
    show ?thesis unfolding e
      by (rule dot_body_mono[OF run_int.dot_body_axioms[of "if ?d = BSLZ4_DOT_CSC_RUN_INT then 32 else 16" "k_dt k" ?m "k_nout k" "k_NIJ k"]])
        (use 5 in \<open>auto simp: csc_px_def step_values\<close>)
  qed
qed

text \<open>The kernel of a csc call.\<close>

lemma csc_kernel:
  assumes "csc_serves e k" "work_of k w"
  shows "kernel e k w st =
    (let bld = h_build (e_host e); m = csc_of k in
     if dot_of k = BSLZ4_DOT_CSC then if w_route w then sparse_dot bld (e_fc e) m w st else dense_route (csc_body e k) bld w st
     else if int_dot k then fixed_run (csc_body e k) bld w st
     else if w_route w then sparse_route (sparse_pow (csc_body e k)) bld w st else dense_route (csc_body e k) bld w st)"
proof -
  have a: "k_mat k = MatCsc (csc_of k)" "w_dtype w = k_dt k" "w_dot w = dot_of k" "0 \<le> k_dt k" "k_dt k \<le> 9"
    "dot_of k \<in> {BSLZ4_DOT_CSC, BSLZ4_DOT_CSC_RUN, BSLZ4_DOT_CSC_NOSPLIT, BSLZ4_DOT_CSC_INT, BSLZ4_DOT_CSC_RUN_INT, BSLZ4_DOT_CSC_RUN_INT16}"
    using assms by (auto simp: csc_serves_def work_of_def int_dot_def)
  show ?thesis unfolding bslz4_sparse_dot_dispatch_def bslz4_sparse_dot_block_def a(1-3) as_csc.simps rbind.simps using a(4-6)
    by (auto simp: Let_def int_dot_def csc_body_def bslz4v_dispatch_def a(2,3) dense_dot_def run_dense_def run_sparse_def nosplit_dense_def nosplit_sparse_def
        nosplit_sparse_core_def step_values)
qed

interpretation csc_call: frame_dot csc_serves csc_body csc_good csc_px csc_void
proof
  fix e k w st pow
  assume s: "csc_serves e k" and w: "work_of k w" "\<not> w_route w" "block_ready w" "room (w_n w) st"
    and p: "fold_res (\<lambda>j. csc_body e k (j + w_i0 w) (w_block w ! j)) [0..<w_n w] (d_pow st) = Inr pow"
  show "dot_gives st (kernel e k w st) pow (picked (passes w) (w_block w) (work_mask w) (w_i0 w) [0..<w_n w])"
    using dense_body_gives[OF w(3,4) p] fixed_run_dense[OF w(2-4) p] w(2) unfolding csc_kernel[OF s w(1)] Let_def by simp
next
  fix e k w st L pow
  assume s: "csc_serves e k" and w: "work_of k w" "w_route w" "nz_ready w st L" "length L \<le> w_n w" "room (w_n w) st"
    and f: "\<forall>(v, a)\<in>set L. csc_px e k (unat a) v" and p: "fold_res (\<lambda>(v, a). csc_body e k (unat a) v) L (d_pow st) = Inr pow"
  show "dot_gives st (kernel e k w st) pow (filter (\<lambda>(v, a). passes w v) L)"
  proof (cases "dot_of k = BSLZ4_DOT_CSC")
    case False
    then show ?thesis using sparse_body_gives[OF w(3-5) p] fixed_run_sparse[OF w(2-5) p] w(2) unfolding csc_kernel[OF s w(1)] Let_def by simp
  next
    case True
    have b: "csc_body e k = csc_add (e_fc e) (k_dt k) (csc_of k)" using True by (simp add: csc_body_def)
    have dt: "w_dtype w = k_dt k" "w_i0 w + w_n w \<le> k_NIJ k" using w(1) by (simp_all add: work_of_def)
    have x: "\<forall>(v, a)\<in>set L. csc_fits (e_fc e) (k_dt k) (csc_of k) (k_NIJ k) (k_nout k) (unat a) v \<and> px_exact (k_dt k) v" using f True by (simp add: csc_px_def)
    have sh: "csc_shape (csc_of k) (k_NIJ k) (k_nout k)" using s True by (simp add: csc_serves_def)
    have L: "\<forall>(v, a)\<in>set L. unat a < k_NIJ k \<and> px_exact (w_dtype w) v" using x dt(1) by (auto simp: csc_fits_def)
    have "sparse_dot (h_build (e_host e)) (e_fc e) (csc_of k) w st = sparse_route (sparse_pow (csc_body e k)) (h_build (e_host e)) w st"
      unfolding b using sparse_dot_eq[OF w(3) sh dt(2) L p[unfolded b dt(1)[symmetric]]] dt(1) by simp
    then show ?thesis using sparse_body_gives[OF w(3-5) p] True w(2) unfolding csc_kernel[OF s w(1)] Let_def by simp
  qed
qed (use csc_pixels in \<open>unfold dot_body_def, blast+\<close>)

end
