(* ===== verification/DotCall.thy ===== *)
theory DotCall
  imports Entry DriverDot
begin

text \<open>
  A whole call of \<open>sparsify_and_dot\<close> (\<open>src/bslz4_to_sparse.c\<close>) with csc, csc-run, csc-nosplit, csc-int, csc-run-int or csc-run-int16: the lists and
  the powder of every frame.
\<close>

section \<open>The call\<close>

text \<open>What the matrix has to be for a frame: pixels the dot takes, no entry at a masked pixel.\<close>

definition csc_frame :: "env \<Rightarrow> call \<Rightarrow> pix list \<Rightarrow> bool" where
  "csc_frame e k fpx \<longleftrightarrow> (\<forall>p<k_NIJ k. csc_px e k p (fpx ! p) \<and> csc_px e k p 0 \<and> (\<not> mask_keeps (k_emask k) p \<longrightarrow> csc_void k p))"

text \<open>The run ends with every frame done and its powder the one of the pixels in order.\<close>

lemma dot_call:
  assumes p: "length pipeline = 6" "length (p_step p0) = 6" "bslz4_resolve (e_host e) dtype pipeline BSLZ4_LAYOUT_CSC p0 = Inr p"
    and c: "driver_checks p chunks msk NIJ cut_buf ncut nout (MatCsc \<lparr>m_data = weights, m_indices = indices, m_indptr = indptr\<rparr>) (length ws) None = Inr k"
    and r: "call_ready e k chunks msk NIJ frames ctrs" "\<forall>f<length chunks. length (f_pow (frames ! f)) = nout"
    and m: "csc_serves e k" "\<forall>f<length chunks. csc_frame e k (the (call_pixels e k (chunks ! f)))"
  shows "\<exists>frames' ctrs'. bslz4_sparsify_and_dot e p0 chunks msk NIJ frames cut_buf ncut nout weights indices indptr ws [] dtype pipeline ctrs = Inr (frames', ctrs')
    \<and> (\<forall>f<length chunks. let fpx = the (call_pixels e k (chunks ! f)) in frame_done k fpx (f_pow (frames' ! f)) (frames' ! f)
        \<and> fold_res (\<lambda>q. csc_body e k q (fpx ! q)) [0..<nat NIJ] (replicate nout 0) = Inr (f_pow (frames' ! f)))"
proof -
  let ?F = "\<lambda>f. the (call_pixels e k (chunks ! f))" and ?z = "replicate nout (0 :: 64 word)"
  have cr: "env_ok e" "0 \<le> NIJ" "NIJ < 2 ^ 31" "nat NIJ \<le> length msk" "blocks_ok k" "rows_for k chunks frames" "ctrs_ok ctrs"
    "\<forall>c\<in>set chunks. readable_chunk c \<and> call_pixels e k c \<noteq> None" using r(1) by (simp_all add: call_ready_def)
  note d = driver_checks_ok[OF resolve_ok[OF p] c cr(2-5)]
  have cuts: "cuts_ok k" "cut_ok (k_dt k) (k_cut_i k) (k_cut_f k)" using d(2,8,9) by (simp_all add: cuts_ok_def)
  have dot: "k_is_dot k" "dot_of k \<noteq> BSLZ4_DOT_CSC_NOSPLIT_INT" using m(1) by (auto simp: csc_serves_def int_dot_def k_is_dot_def step_values)
  have z: "pow_start k (f_pow (frames ! f)) = ?z" if "f < length chunks" for f using that r(2) dot(1) d(5) by (simp add: pow_start_def)
  have D: "dots csc_serves csc_good csc_px csc_void e k (?F f) ?z" if f: "f < length chunks" for f
  proof -
    have c': "readable_chunk (chunks ! f)" "call_pixels e k (chunks ! f) = Some (?F f)" using cr(8) f by auto
    have "csc_good k ?z" using d(5) by (auto simp: csc_good_def sums_def stable_def dec64_zero)
    then show ?thesis using call_pixels_length[OF cr(1) d(1) c'] call_pixels_narrow[OF cr(1) d(1) c'] d(1) cuts(1) dot(1) m f
      by (auto simp: dots_def csc_frame_def)
  qed
  have b: "batch_ok (dots csc_serves csc_good csc_px csc_void) e k chunks ?F (\<lambda>f. pow_start k (f_pow (frames ! f)))"
    using cr(1,8) d(1) D z by (auto simp: batch_ok_def)
  have "\<exists>frames' ctrs'. bslz4_driver_run e chunks msk NIJ frames cut_buf ncut nout (MatCsc \<lparr>m_data = weights, m_indices = indices, m_indptr = indptr\<rparr>) ws p None ctrs
      = Inr (frames', ctrs') \<and> length frames' = length frames
    \<and> (\<forall>f<length chunks. frame_done k (?F f) (pow_end k (frame_pow (csc_body e k) (?F f) (pow_start k (f_pow (frames ! f))) (k_NIJ k))) (frames' ! f)) \<and> ctrs_ok ctrs'"
    by (rule csc_call.whole.driver_run_ok[OF b c d(10) cr(6,7)]) (use dot(2) in simp_all)
  then obtain frames' ctrs' where o: "bslz4_driver_run e chunks msk NIJ frames cut_buf ncut nout (MatCsc \<lparr>m_data = weights, m_indices = indices, m_indptr = indptr\<rparr>) ws p None ctrs
      = Inr (frames', ctrs')"
    "\<forall>f<length chunks. frame_done k (?F f) (pow_end k (frame_pow (csc_body e k) (?F f) (pow_start k (f_pow (frames ! f))) (k_NIJ k))) (frames' ! f)" by blast
  have "bslz4_sparsify_and_dot e p0 chunks msk NIJ frames cut_buf ncut nout weights indices indptr ws [] dtype pipeline ctrs = Inr (frames', ctrs')"
    using o(1) p(3) by (simp add: bslz4_sparsify_and_dot_def top_from_args_def)
  moreover have "frame_done k (?F f) (f_pow (frames' ! f)) (frames' ! f)
      \<and> fold_res (\<lambda>q. csc_body e k q (?F f ! q)) [0..<nat NIJ] ?z = Inr (f_pow (frames' ! f))" if f: "f < length chunks" for f
  proof -
    have fd: "frame_done k (?F f) (frame_pow (csc_body e k) (?F f) ?z (nat NIJ)) (frames' ! f)"
      using o(2)[rule_format, OF f] dot(2) d(3) unfolding z[OF f] by (simp add: pow_end_def)
    then have "f_pow (frames' ! f) = frame_pow (csc_body e k) (?F f) ?z (nat NIJ)" by (simp add: frame_done_def)
    then show ?thesis using dot_body.frame_pow_fold(1)[OF csc_pixels[OF m(1)], of ?z "nat NIJ" "?F f" "nat NIJ"] D[OF f] fd d(3) by (simp add: dots_def)
  qed
  ultimately show ?thesis by (simp add: Let_def)
qed


section \<open>Integer weights\<close>

lemma csc_int_serves:
  assumes "k_mat k = MatCsc m" "dot_of k = BSLZ4_DOT_CSC_INT" "0 \<le> k_dt k" "k_dt k \<le> 9"
  shows "csc_of k = m" "csc_serves e k" "csc_body e k = csc_int_add (k_dt k) m"
    "csc_px e k p v \<longleftrightarrow> p < k_NIJ k \<and> \<not> is_float (k_dt k) \<and> csc_shape m (k_NIJ k) (k_nout k)" "csc_void k p = no_entry m p"
  using assms by (simp_all add: csc_of_def csc_serves_def csc_call_defs step_values)

text \<open>
  C6: with integer weights, bin \<open>b\<close> of a frame's powder is the sum of weight times pixel over all entries of all the frame's pixels that fall in it, modulo
  \<open>2^64\<close>: the pixels are exact (signed ones by their value), the weights the 32-bit patterns of the matrix.
\<close>

theorem sparsify_and_dot_int_sums:
  assumes p: "length pipeline = 6" "length (p_step p0) = 6" "bslz4_resolve (e_host e) dtype pipeline BSLZ4_LAYOUT_CSC p0 = Inr p"
    and c: "driver_checks p chunks msk NIJ cut_buf ncut nout (MatCsc \<lparr>m_data = weights, m_indices = indices, m_indptr = indptr\<rparr>) (length ws) None = Inr k"
    and r: "call_ready e k chunks msk NIJ frames ctrs" "\<forall>f<length chunks. length (f_pow (frames ! f)) = nout"
    and dot: "p_step p ! nat BSLZ4_STEP_DOT = BSLZ4_DOT_CSC_INT" "\<not> is_float dtype" and m: "csc_shape \<lparr>m_data = weights, m_indices = indices, m_indptr = indptr\<rparr> (nat NIJ) nout"
    and folded: "\<forall>q<nat NIJ. \<not> mask_keeps (k_emask k) q \<longrightarrow> indptr ! q = indptr ! (q + 1)"
  shows "\<exists>frames' ctrs'. bslz4_sparsify_and_dot e p0 chunks msk NIJ frames cut_buf ncut nout weights indices indptr ws [] dtype pipeline ctrs = Inr (frames', ctrs')
    \<and> (\<forall>f<length chunks. f_pow (frames' ! f) = map (\<lambda>b. \<Sum>q\<leftarrow>[0..<nat NIJ]. \<Sum>n\<leftarrow>[unat (indptr ! q)..<unat (indptr ! (q + 1))].
        if unat (indices ! n) = b then take_bit 32 (weights ! n) * word_of_int (px_int dtype (the (call_pixels e k (chunks ! f)) ! q)) else 0) [0..<nout])"
proof -
  let ?m = "\<lparr>m_data = weights, m_indices = indices, m_indptr = indptr\<rparr>" and ?F = "\<lambda>f. the (call_pixels e k (chunks ! f))"
  have cr: "0 \<le> NIJ" "NIJ < 2 ^ 31" "nat NIJ \<le> length msk" "blocks_ok k" using r(1) by (simp_all add: call_ready_def)
  note d = driver_checks_ok[OF resolve_ok[OF p] c cr]
  have dt: "0 \<le> k_dt k" "k_dt k \<le> 9" using d(1) unfolding call_ok_def by blast+
  have dk: "dot_of k = BSLZ4_DOT_CSC_INT" using dot(1) d(4) by (simp add: k_step_def)
  note s = csc_int_serves[OF d(6) dk dt]
  have fr: "\<forall>f<length chunks. csc_frame e k (?F f)" using m dot(2) d(2,3,5) folded s(4,5) by (simp add: csc_frame_def no_entry_def)
  have step: "csc_body e k q (F ! q) pow
      = Inr (gained pow (\<lambda>n. unat (indices ! n)) (\<lambda>n. take_bit 32 (weights ! n) * word_of_int (px_int dtype (F ! q))) [unat (indptr ! q)..<unat (indptr ! (q + 1))])"
    if "q < nat NIJ" "length pow = nout" for q F and pow :: "64 word list"
    using csc_int_add_gained[of ?m "nat NIJ" pow q dtype "F ! q"] m dot(2) that s(3) d(2) by (simp add: csc_ks_def v64_def)
  have pow: "fold_res (\<lambda>q. csc_body e k q (F ! q)) [0..<nat NIJ] (replicate nout 0) = Inr (map (\<lambda>b. \<Sum>q\<leftarrow>[0..<nat NIJ]. \<Sum>n\<leftarrow>[unat (indptr ! q)..<unat (indptr ! (q + 1))].
        if unat (indices ! n) = b then take_bit 32 (weights ! n) * word_of_int (px_int dtype (F ! q)) else 0) [0..<nout])" for F
    by (subst int_sums_loop[where bin = "\<lambda>q n. unat (indices ! n)" and ks = "\<lambda>q. [unat (indptr ! q)..<unat (indptr ! (q + 1))]"
        and g = "\<lambda>q n. take_bit 32 (weights ! n) * word_of_int (px_int dtype (F ! q))"]) (use step in \<open>simp_all add: int_sums_def\<close>)
  from dot_call[OF p c r s(2) fr] show ?thesis unfolding Let_def pow by auto
qed

section \<open>Two calls\<close>

text \<open>The frames of \<open>sample_frames\<close> over two bins: pixel 1 in bin 1 with weight 3; in the integer matrix the pixels after it in bin 0 with weight 1.\<close>

definition sample_matrix :: "int \<Rightarrow> bslz4_mat_csc" where
  "sample_matrix d = (if d = BSLZ4_DOT_CSC_INT
     then \<lparr>m_data = [3, 1, 1, 1, 1, 1, 1], m_indices = [1, 0, 0, 0, 0, 0, 0], m_indptr = [0, 0, 1, 2, 3, 4, 5, 6, 7]\<rparr>
     else \<lparr>m_data = [0x40400000], m_indices = [1], m_indptr = [0, 0, 1, 1, 1, 1, 1, 1, 1]\<rparr>)"

definition sample_steps :: "int \<Rightarrow> int list" where
  "sample_steps d = [4, 2, 5, 6, if d = BSLZ4_DOT_CSC_INT then BSLZ4_ROUTE_RATIO_RULE else BSLZ4_ROUTE_SPARSE, d]"

definition sample_dot_call :: "int \<Rightarrow> call" where
  "sample_dot_call d = (sample_call (sample_steps d) None)\<lparr>k_mat := MatCsc (sample_matrix d), k_nout := 2\<rparr>"

definition sample_dot_frame :: frame_st where
  "sample_dot_frame = sample_frame\<lparr>f_pow := [9, 9]\<rparr>"

lemma sample_dot_checks:
  assumes "d = BSLZ4_DOT_CSC_INT \<or> d = BSLZ4_DOT_CSC"
  shows "bslz4_resolve (e_host sample_env) 0 (map word_of_int (sample_steps d)) BSLZ4_LAYOUT_CSC no_pipe = Inr (sample_pipe (sample_steps d))"
    "driver_checks (sample_pipe (sample_steps d)) sample_frames [0, 1, 1, 1, 1, 1, 1, 1] 8 (Some [0]) 1 2
      (MatCsc \<lparr>m_data = m_data (sample_matrix d), m_indices = m_indices (sample_matrix d), m_indptr = m_indptr (sample_matrix d)\<rparr>) (length (replicate 64 (3 :: byte))) None
      = Inr (sample_dot_call d)"
  using assms by (elim disjE; simp only:; code_simp)+

lemma sample_dot_pixels:
  assumes "d = BSLZ4_DOT_CSC_INT \<or> d = BSLZ4_DOT_CSC"
  shows "map (call_pixels sample_env (sample_dot_call d)) sample_frames = [Some [1, 1, 1, 1, 1, 1, 1, 1], Some [1, 2, 0, 0, 0, 0, 0, 0]]"
proof -
  have "call_pixels sample_env (sample_dot_call d) = call_pixels sample_env (sample_call [4, 2, 5, 6, 0, 0] None)"
    by (intro ext) (simp add: call_pixels_def k_pixels_def k_step_def k_NB_def sample_call_def sample_pipe_def sample_dot_call_def sample_steps_def step_values)
  then show ?thesis using sample_pixels[of "[4, 2, 5, 6, 0, 0]" None] by simp
qed

lemma sample_dot_ready:
  assumes "d = BSLZ4_DOT_CSC_INT \<or> d = BSLZ4_DOT_CSC"
  shows "call_ready sample_env (sample_dot_call d) sample_frames [0, 1, 1, 1, 1, 1, 1, 1] 8 (replicate 2 sample_dot_frame) sample_counters"
proof -
  let ?k = "sample_dot_call d"
  have o: "env_ok sample_env" "ctrs_ok sample_counters" "\<forall>c\<in>set sample_frames. readable_chunk c"
    using sample_call_ready[of "[4, 2, 5, 6, 0, 0]" None] by (simp_all add: call_ready_def)
  have l: "length sample_frames = 2" by (simp add: sample_frames_def)
  have b: "blocks_ok ?k"
    by (simp add: blocks_ok_def whole_groups_def k_NB_def k_step_def sample_dot_call_def sample_call_def sample_pipe_def sample_steps_def step_values)
  have r: "rows_for ?k sample_frames (replicate 2 sample_dot_frame)"
    using l by (simp add: rows_for_def rows_ok_def sample_dot_frame_def sample_frame_def sample_dot_call_def sample_call_def)
  have "call_pixels sample_env ?k c \<noteq> None" if mem: "c \<in> set sample_frames" for c
  proof -
    have "call_pixels sample_env ?k c \<in> set (map (call_pixels sample_env ?k) sample_frames)" using mem by simp
    then show ?thesis unfolding sample_dot_pixels[OF assms] by auto
  qed
  then show ?thesis using o b r by (simp add: call_ready_def)
qed

lemma less8: "q < 8 \<longleftrightarrow> q = 0 \<or> q = 1 \<or> q = 2 \<or> q = 3 \<or> q = 4 \<or> q = 5 \<or> q = 6 \<or> q = (7 :: nat)"
  by auto

lemma sample_matrix_shape: "csc_shape (sample_matrix d) 8 2"
  unfolding csc_shape_def less8 by (auto simp: sample_matrix_def)

lemma sample_dot_facts:
  "length sample_frames = 2" "k_NIJ (sample_dot_call d) = 8" "k_nout (sample_dot_call d) = 2" "k_dt (sample_dot_call d) = 0"
  "dot_of (sample_dot_call d) = d" "k_mat (sample_dot_call d) = MatCsc (sample_matrix d)" "csc_of (sample_dot_call d) = sample_matrix d"
  "\<forall>f<length sample_frames. length (f_pow (replicate 2 sample_dot_frame ! f)) = 2" "k_emask (sample_dot_call d) = Some [0, 1, 1, 1, 1, 1, 1, 1]"
  by (simp_all add: sample_frames_def sample_dot_call_def sample_call_def sample_pipe_def sample_steps_def sample_dot_frame_def csc_of_def k_dt_def
      k_step_def k_emask_def step_values nth_Cons_numeral)

lemma sample_folded_call: "q < 8 \<Longrightarrow> \<not> mask_keeps (Some [0, 1, 1, 1, 1, 1, 1, 1]) q \<Longrightarrow> no_entry (sample_matrix d) q"
  unfolding less8 by (auto simp: mask_keeps_def no_entry_def sample_matrix_def)

theorem sparsify_and_dot_int_sums_witness:
  "\<exists>frames' ctrs'. bslz4_sparsify_and_dot sample_env no_pipe sample_frames [0, 1, 1, 1, 1, 1, 1, 1] 8 (replicate 2 sample_dot_frame) (Some [0]) 1 2
      [3, 1, 1, 1, 1, 1, 1] [1, 0, 0, 0, 0, 0, 0] [0, 0, 1, 2, 3, 4, 5, 6, 7] (replicate 64 3) [] 0 [4, 2, 5, 6, 1, 9] sample_counters = Inr (frames', ctrs')
    \<and> f_pow (frames' ! 0) = [6, 3] \<and> f_pow (frames' ! 1) = [0, 6]"
proof -
  let ?d = BSLZ4_DOT_CSC_INT
  let ?k = "sample_dot_call ?d"
  have d: "?d = BSLZ4_DOT_CSC_INT \<or> ?d = BSLZ4_DOT_CSC" by simp
  have e: "map word_of_int (sample_steps ?d) = [4, 2, 5, 6, 1, 9 :: 16 word]" "m_data (sample_matrix ?d) = [3, 1, 1, 1, 1, 1, 1]" "m_indices (sample_matrix ?d) = [1, 0, 0, 0, 0, 0, 0]"
    "m_indptr (sample_matrix ?d) = [0, 0, 1, 2, 3, 4, 5, 6, 7]"
    "p_step (sample_pipe (sample_steps ?d)) ! nat BSLZ4_STEP_DOT = BSLZ4_DOT_CSC_INT" "\<not> is_float 0" "nat 8 = 8" by code_simp+
  have "sample_matrix ?d = \<lparr>m_data = [3, 1, 1, 1, 1, 1, 1], m_indices = [1, 0, 0, 0, 0, 0, 0], m_indptr = [0, 0, 1, 2, 3, 4, 5, 6, 7]\<rparr>"
    by (simp add: sample_matrix_def)
  note m = sample_matrix_shape[of ?d, unfolded this]
  have n: "length [4, 2, 5, 6, 1, 9 :: 16 word] = 6" "length (p_step no_pipe) = 6" by (simp_all add: no_pipe_def)
  have l: "0 < length sample_frames" "1 < length sample_frames" by (simp_all add: sample_frames_def)
  have f: "\<forall>q<nat 8. \<not> mask_keeps (k_emask ?k) q \<longrightarrow> [0, 0, 1, 2, 3, 4, 5, 6, 7 :: 32 word] ! q = [0, 0, 1, 2, 3, 4, 5, 6, 7] ! (q + 1)"
    unfolding sample_dot_facts e(7) using sample_folded_call[of _ ?d] by (simp add: no_entry_def sample_matrix_def)
  have px: "the (call_pixels sample_env ?k (sample_frames ! 0)) = [1, 1, 1, 1, 1, 1, 1, 1]" "the (call_pixels sample_env ?k (sample_frames ! 1)) = [1, 2, 0, 0, 0, 0, 0, 0]"
    using sample_dot_pixels[OF d] by (auto simp: sample_frames_def)
  define bins :: "pix list \<Rightarrow> 64 word list" where "bins F = map (\<lambda>b. \<Sum>q\<leftarrow>[0..<nat 8]. \<Sum>n\<leftarrow>[unat ([0, 0, 1, 2, 3, 4, 5, 6, 7 :: 32 word] ! q)..<unat ([0, 0, 1, 2, 3, 4, 5, 6, 7 :: 32 word] ! (q + 1))].
    if unat ([1, 0, 0, 0, 0, 0, 0 :: 32 word] ! n) = b then take_bit 32 ([3, 1, 1, 1, 1, 1, 1] ! n) * word_of_int (px_int 0 (F ! q)) else 0) [0..<2]" for F
  have v: "bins [1, 1, 1, 1, 1, 1, 1, 1] = [6, 3]" "bins [1, 2, 0, 0, 0, 0, 0, 0] = [0, 6]" unfolding bins_def by code_simp+
  from sparsify_and_dot_int_sums[OF n sample_dot_checks(1)[OF d, unfolded e(1)] sample_dot_checks(2)[OF d, unfolded e(2-4)] sample_dot_ready[OF d] sample_dot_facts(8) e(5,6)
      m[folded e(7)] f] obtain frames' ctrs' where
    o: "bslz4_sparsify_and_dot sample_env no_pipe sample_frames [0, 1, 1, 1, 1, 1, 1, 1] 8 (replicate 2 sample_dot_frame) (Some [0]) 1 2
        [3, 1, 1, 1, 1, 1, 1] [1, 0, 0, 0, 0, 0, 0] [0, 0, 1, 2, 3, 4, 5, 6, 7] (replicate 64 3) [] 0 [4, 2, 5, 6, 1, 9] sample_counters = Inr (frames', ctrs')"
      "\<forall>f<length sample_frames. f_pow (frames' ! f) = bins (the (call_pixels sample_env ?k (sample_frames ! f)))"
    unfolding bins_def by blast
  show ?thesis using o(1) o(2)[rule_format, OF l(1)] o(2)[rule_format, OF l(2)] unfolding px v by blast
qed

lemma sample_csc_frame:
  "csc_serves sample_env (sample_dot_call BSLZ4_DOT_CSC)" "csc_frame sample_env (sample_dot_call BSLZ4_DOT_CSC) F"
proof -
  let ?k = "sample_dot_call BSLZ4_DOT_CSC" and ?m = "sample_matrix BSLZ4_DOT_CSC"
  show "csc_serves sample_env ?k" using sample_matrix_shape by (simp add: csc_serves_def sample_dot_facts)
  have w: "weighs False 0 (m_data ?m) v" for v by (simp add: weighs_def) code_simp
  have fc: "e_fc sample_env = False" by (simp add: sample_env_def)
  have "csc_px sample_env ?k p v" if "p < 8" for p v
    using that sample_matrix_shape w px_exact_narrow[of 0] by (simp add: csc_px_def csc_fits_def sample_dot_facts fc)
  moreover have "csc_void ?k p" if "p < 8" "\<not> mask_keeps (k_emask ?k) p" for p
    using sample_folded_call[OF that(1)] that(2) unfolding csc_void_def sample_dot_facts by (simp add: BSLZ4_DOT_CSC_def BSLZ4_DOT_CSC_NOSPLIT_def)
  ultimately show "csc_frame sample_env ?k F" by (simp add: csc_frame_def sample_dot_facts)
qed


end
