(* ===== verification/DotCount.thy ===== *)
theory DotCount
  imports DotBsb
begin

text \<open>
  The histogram dots in doubles: csc-nosplit and bsb-csr-nosplit add pixel values, so for the integer types every sum below \<open>2^53\<close> is exact, and
  the four accumulators of \<open>dot_bsbcsr.hpp\<close>, which add a bin's pixels in an order of their own, do not show.
\<close>

section \<open>Sums of integers\<close>

lemma f64_int_0: "f64_of_int 0 = 0"
  by (simp add: f64_of_int_def enc64_zero)

lemma px_f64_int: "\<not> is_float dt \<Longrightarrow> px_f64 dt v = f64_of_int (px_int dt v)"
  by (auto simp: px_f64_def is_float_def)

lemma stable_int: "\<bar>a\<bar> < 2 ^ 53 \<Longrightarrow> stable (f64_of_int a)"
proof -
  assume "\<bar>a\<bar> < 2 ^ 53"
  then obtain k where k: "dec64 (f64_of_int a) = Fin (a < 0) (\<bar>a\<bar> * 2 ^ k) (- int k)" using dec64_int by blast
  then show ?thesis using dec64_zero(2) by (auto simp: stable_def)
qed

text \<open>A loop whose steps add the integers \<open>x k\<close>.\<close>

definition adds_int :: "(nat \<Rightarrow> f64 \<Rightarrow> f64 res) \<Rightarrow> (nat \<Rightarrow> int) \<Rightarrow> nat \<Rightarrow> nat \<Rightarrow> bool" where
  "adds_int term x k0 k1 \<longleftrightarrow> (\<forall>k a. k0 \<le> k \<longrightarrow> k < k1 \<longrightarrow> \<bar>a\<bar> < 2 ^ 53 \<longrightarrow> \<bar>x k\<bar> < 2 ^ 53 \<longrightarrow> term k (f64_of_int a) = Inr (f64_of_int (a + x k)))"

lemma abs_sum_le: "\<bar>\<Sum>k\<leftarrow>ks. x k :: int\<bar> \<le> (\<Sum>k\<leftarrow>ks. \<bar>x k\<bar>)"
  by (induction ks) auto

lemma int_fold:
  assumes "adds_int term x k0 k1" "set ks \<subseteq> {k0..<k1}" "\<bar>a\<bar> + (\<Sum>k\<leftarrow>ks. \<bar>x k\<bar>) < 2 ^ 53"
  shows "fold_res term ks (f64_of_int a) = Inr (f64_of_int (a + (\<Sum>k\<leftarrow>ks. x k)))"
  using assms(2,3)
proof (induction ks arbitrary: a)
  case (Cons k ks)
  have n: "0 \<le> (\<Sum>k\<leftarrow>ks. \<bar>x k\<bar>)" by (rule sum_list_nonneg) auto
  have "term k (f64_of_int a) = Inr (f64_of_int (a + x k))"
    using assms(1) Cons.prems n unfolding adds_int_def by (auto simp del: power_numeral)
  moreover have "\<bar>a + x k\<bar> + (\<Sum>k\<leftarrow>ks. \<bar>x k\<bar>) < 2 ^ 53" using Cons.prems(2) by simp
  ultimately show ?case using Cons.IH[of "a + x k"] Cons.prems(1) by (simp add: add.assoc)
qed simp

text \<open>The four accumulators.\<close>

lemma below8:
  "a + b + c + d + (e + f + g + h) < m \<Longrightarrow> 0 \<le> a \<Longrightarrow> 0 \<le> b \<Longrightarrow> 0 \<le> c \<Longrightarrow> 0 \<le> d \<Longrightarrow> 0 \<le> e \<Longrightarrow> 0 \<le> f \<Longrightarrow> 0 \<le> g \<Longrightarrow> 0 \<le> h
    \<Longrightarrow> a < m \<and> b < m \<and> c < m \<and> d < m \<and> e < m \<and> f < m \<and> g < m \<and> h < (m :: int)"
  by linarith

lemma add_below4: "p \<le> a + e \<Longrightarrow> q \<le> b + f \<Longrightarrow> r \<le> c + g \<Longrightarrow> s \<le> d + h \<Longrightarrow> p + q + r + s \<le> a + b + c + d + (e + f + g + (h :: int))"
  by linarith

lemmas abs_add4 = add_below4[OF abs_triangle_ineq abs_triangle_ineq abs_triangle_ineq abs_triangle_ineq]

lemma bsb_sum_int:
  assumes t: "adds_int term x k0 k1" and k: "k0 \<le> k1" and S: "(\<Sum>k\<leftarrow>[k0..<k1]. \<bar>x k\<bar>) < 2 ^ 53"
  shows "bsb_sum term k0 k1 = Inr (f64_of_int (\<Sum>k\<leftarrow>[k0..<k1]. x k))"
proof -
  let ?q = "(k1 - k0) div 4"
  let ?I = "\<lambda>g acc. \<exists>a0 a1 a2 a3. acc = (f64_of_int a0, f64_of_int a1, f64_of_int a2, f64_of_int a3)
    \<and> a0 + a1 + a2 + a3 = (\<Sum>k\<leftarrow>[k0..<k0 + 4 * g]. x k) \<and> \<bar>a0\<bar> + \<bar>a1\<bar> + \<bar>a2\<bar> + \<bar>a3\<bar> \<le> (\<Sum>k\<leftarrow>[k0..<k0 + 4 * g]. \<bar>x k\<bar>)"
  have le: "k0 + 4 * ?q \<le> k1" using k by simp
  have part: "(\<Sum>k\<leftarrow>[k0..<m]. \<bar>x k\<bar>) + (\<Sum>k\<leftarrow>[m..<k1]. \<bar>x k\<bar>) < 2 ^ 53" if "k0 \<le> m" "m \<le> k1" for m
    using S upt_add_eq_append[OF that(1), of "k1 - m"] that(2) by simp
  have "\<exists>acc. fold_res (\<lambda>g. bsb_quad term (k0 + 4 * g)) [0..<?q] (0, 0, 0, 0) = Inr acc \<and> ?I ?q acc"
  proof (rule fold_upt_inv[where I = ?I])
    show "?I 0 (0, 0, 0, 0)" by (intro exI[of _ 0]) (simp add: f64_int_0)
  next
    fix g acc assume g: "g < ?q" and I: "?I g acc"
    then obtain a0 a1 a2 a3 where a: "acc = (f64_of_int a0, f64_of_int a1, f64_of_int a2, f64_of_int a3)"
      "a0 + a1 + a2 + a3 = (\<Sum>k\<leftarrow>[k0..<k0 + 4 * g]. x k)" "\<bar>a0\<bar> + \<bar>a1\<bar> + \<bar>a2\<bar> + \<bar>a3\<bar> \<le> (\<Sum>k\<leftarrow>[k0..<k0 + 4 * g]. \<bar>x k\<bar>)" by blast
    let ?k = "k0 + 4 * g"
    have k4: "?k + 4 \<le> k1" using g k by simp
    have u4: "[k0..<?k + 4] = [k0..<?k] @ [?k, ?k + 1, ?k + 2, ?k + 3]"
      using upt_add_eq_append[of k0 ?k 4] by (simp add: upt_rec numeral_eq_Suc)
    have e: "k0 + 4 * Suc g = ?k + 4" by simp
    note u = u4[folded e]
    have "(\<Sum>k\<leftarrow>[k0..<?k + 4]. \<bar>x k\<bar>) + (\<Sum>k\<leftarrow>[?k + 4..<k1]. \<bar>x k\<bar>) < 2 ^ 53" using part[of "?k + 4"] k4 by simp
    moreover have "0 \<le> (\<Sum>k\<leftarrow>[?k + 4..<k1]. \<bar>x k\<bar>)" by (rule sum_list_nonneg) auto
    moreover have "(\<Sum>k\<leftarrow>[k0..<?k + 4]. \<bar>x k\<bar>) = (\<Sum>k\<leftarrow>[k0..<?k]. \<bar>x k\<bar>) + (\<bar>x ?k\<bar> + \<bar>x (?k + 1)\<bar> + \<bar>x (?k + 2)\<bar> + \<bar>x (?k + 3)\<bar>)"
      unfolding u4 by simp
    ultimately have b: "\<bar>a0\<bar> + \<bar>a1\<bar> + \<bar>a2\<bar> + \<bar>a3\<bar> + (\<bar>x ?k\<bar> + \<bar>x (?k + 1)\<bar> + \<bar>x (?k + 2)\<bar> + \<bar>x (?k + 3)\<bar>) < 2 ^ 53" using a(3) by linarith
    have st: "term k (f64_of_int c) = Inr (f64_of_int (c + x k))" if "?k \<le> k" "k < ?k + 4" "\<bar>c\<bar> < 2 ^ 53" "\<bar>x k\<bar> < 2 ^ 53" for k c
      using t k4 that unfolding adds_int_def by (meson add_leD1 le_trans less_le_trans)
    have "term ?k (f64_of_int a0) = Inr (f64_of_int (a0 + x ?k))" "term (?k + 1) (f64_of_int a1) = Inr (f64_of_int (a1 + x (?k + 1)))"
      "term (?k + 2) (f64_of_int a2) = Inr (f64_of_int (a2 + x (?k + 2)))" "term (?k + 3) (f64_of_int a3) = Inr (f64_of_int (a3 + x (?k + 3)))"
      using below8[OF b] by (simp_all add: st del: power_numeral)
    then have q: "bsb_quad term ?k acc = Inr (f64_of_int (a0 + x ?k), f64_of_int (a1 + x (?k + 1)), f64_of_int (a2 + x (?k + 2)), f64_of_int (a3 + x (?k + 3)))"
      unfolding a(1) bsb_quad_def prod.case by (simp only: rbind.simps)
    show "\<exists>acc'. bsb_quad term ?k acc = Inr acc' \<and> ?I (Suc g) acc'"
    proof (intro exI conjI)
      show "a0 + x ?k + (a1 + x (?k + 1)) + (a2 + x (?k + 2)) + (a3 + x (?k + 3)) = (\<Sum>k\<leftarrow>[k0..<k0 + 4 * Suc g]. x k)" unfolding u using a(2) by simp
      show "\<bar>a0 + x ?k\<bar> + \<bar>a1 + x (?k + 1)\<bar> + \<bar>a2 + x (?k + 2)\<bar> + \<bar>a3 + x (?k + 3)\<bar> \<le> (\<Sum>k\<leftarrow>[k0..<k0 + 4 * Suc g]. \<bar>x k\<bar>)"
        unfolding u using order_trans[OF abs_add4 add_right_mono[OF a(3)]] by (simp add: add.assoc)
    qed (use q in simp_all)
  qed
  then obtain a0 a1 a2 a3 where a: "fold_res (\<lambda>g. bsb_quad term (k0 + 4 * g)) [0..<?q] (0, 0, 0, 0) = Inr (f64_of_int a0, f64_of_int a1, f64_of_int a2, f64_of_int a3)"
    "a0 + a1 + a2 + a3 = (\<Sum>k\<leftarrow>[k0..<k0 + 4 * ?q]. x k)" "\<bar>a0\<bar> + \<bar>a1\<bar> + \<bar>a2\<bar> + \<bar>a3\<bar> \<le> (\<Sum>k\<leftarrow>[k0..<k0 + 4 * ?q]. \<bar>x k\<bar>)" by blast
  let ?r = "\<Sum>k\<leftarrow>[k0 + 4 * ?q..<k1]. x k"
  have b: "\<bar>a0\<bar> + \<bar>a1\<bar> + \<bar>a2\<bar> + \<bar>a3\<bar> + (\<Sum>k\<leftarrow>[k0 + 4 * ?q..<k1]. \<bar>x k\<bar>) < 2 ^ 53" using part[OF _ le] a(3) by linarith
  have rest: "fold_res term [k0 + 4 * ?q..<k1] (f64_of_int a0) = Inr (f64_of_int (a0 + ?r))" by (rule int_fold[OF t]) (use b in auto)
  have s: "\<bar>a0 + ?r\<bar> < 2 ^ 53" "\<bar>a1\<bar> < 2 ^ 53" "\<bar>a2\<bar> < 2 ^ 53" "\<bar>a3\<bar> < 2 ^ 53" "\<bar>a0 + ?r + a1\<bar> < 2 ^ 53" "\<bar>a2 + a3\<bar> < 2 ^ 53"
    using b abs_sum_le[of x "[k0 + 4 * ?q..<k1]"] by linarith+
  have "a0 + ?r + a1 + (a2 + a3) = (\<Sum>k\<leftarrow>[k0..<k1]. x k)"
    using a(2) upt_add_eq_append[of k0 "k0 + 4 * ?q" "k1 - (k0 + 4 * ?q)"] le by simp
  then show ?thesis unfolding bsb_sum_def Let_def a(1) rbind.simps prod.case rest f64_add_int[OF s(1,2)] f64_add_int[OF s(3,4)] f64_add_int[OF s(5,6)] by simp
qed

section \<open>Histograms\<close>

text \<open>The powder of the integers \<open>ps\<close>, and what the pixels \<open>js\<close> make of them.\<close>

definition doubles :: "int list \<Rightarrow> 64 word list" where
  "doubles ps = map f64_of_int ps"

definition counts :: "int list \<Rightarrow> (nat \<Rightarrow> 32 word) \<Rightarrow> (nat \<Rightarrow> int) \<Rightarrow> nat list \<Rightarrow> int list" where
  "counts ps bin v js = map (\<lambda>b. ps ! b + (\<Sum>j\<leftarrow>js. if bin j \<noteq> BSLZ4_NO_BIN \<and> unat (bin j) = b then v j else 0)) [0..<length ps]"

definition counts_fit :: "int list \<Rightarrow> (nat \<Rightarrow> int) \<Rightarrow> nat list \<Rightarrow> bool" where
  "counts_fit ps v js \<longleftrightarrow> (\<forall>p\<in>set ps. \<bar>p\<bar> + (\<Sum>j\<leftarrow>js. \<bar>v j\<bar>) < 2 ^ 53) \<and> (\<Sum>j\<leftarrow>js. \<bar>v j\<bar>) < 2 ^ 53"

lemma length_doubles [simp]: "length (doubles ps) = length ps"
  by (simp add: doubles_def)

lemma acc_at_doubles:
  assumes "b < length ps" "\<bar>ps ! b\<bar> < 2 ^ 53" "\<bar>a\<bar> < 2 ^ 53"
  shows "acc_at (\<lambda>x. f64_add x (f64_of_int a)) b (doubles ps) = Inr (doubles (ps[b := ps ! b + a]))"
  using assms by (simp add: acc_at_ok doubles_def f64_add_int map_update)

lemma counts_loop:
  assumes "\<And>j q. j \<in> set js \<Longrightarrow> step j q = (if bin j = BSLZ4_NO_BIN then Inr q else acc_at (\<lambda>x. f64_add x (f64_of_int (v j))) (unat (bin j)) q)"
    and "\<And>j. j \<in> set js \<Longrightarrow> bin j \<noteq> BSLZ4_NO_BIN \<Longrightarrow> unat (bin j) < length ps" "counts_fit ps v js"
  shows "fold_res step js (doubles ps) = Inr (doubles (counts ps bin v js))"
  using assms
proof (induction js arbitrary: ps)
  case Nil
  then show ?case by (simp add: counts_def map_nth)
next
  case (Cons j js)
  have nn: "0 \<le> (\<Sum>j\<leftarrow>js. \<bar>v j\<bar>)" by (rule sum_list_nonneg) auto
  have B: "\<bar>p\<bar> + (\<bar>v j\<bar> + (\<Sum>j\<leftarrow>js. \<bar>v j\<bar>)) < 2 ^ 53" if "p \<in> set ps" for p using Cons.prems(3) that by (simp add: counts_fit_def)
  have t: "(\<Sum>j\<leftarrow>js. \<bar>v j\<bar>) < 2 ^ 53" "\<bar>v j\<bar> < 2 ^ 53"
  proof -
    have "\<bar>v j\<bar> + (\<Sum>j\<leftarrow>js. \<bar>v j\<bar>) < 2 ^ 53" using Cons.prems(3) by (simp add: counts_fit_def)
    then show "(\<Sum>j\<leftarrow>js. \<bar>v j\<bar>) < 2 ^ 53" "\<bar>v j\<bar> < 2 ^ 53" using nn by linarith+
  qed
  show ?case
  proof (cases "bin j = BSLZ4_NO_BIN")
    case True
    have "counts_fit ps v js" using B t(1) by (fastforce simp: counts_fit_def)
    then have "fold_res step js (doubles ps) = Inr (doubles (counts ps bin v js))" by (intro Cons.IH) (use Cons.prems(1,2) in auto)
    then show ?thesis using True Cons.prems(1)[of j "doubles ps"] by (simp add: counts_def)
  next
    case False
    let ?b = "unat (bin j)"
    let ?ps = "ps[?b := ps ! ?b + v j]"
    have b: "?b < length ps" using Cons.prems(2)[of j] False by simp
    have "\<bar>ps ! ?b\<bar> < 2 ^ 53" using B[of "ps ! ?b"] b nn by simp
    then have st: "step j (doubles ps) = Inr (doubles ?ps)" using Cons.prems(1)[of j] False acc_at_doubles[OF b _ t(2)] by simp
    have "counts_fit ?ps v js"
      unfolding counts_fit_def
    proof (intro conjI ballI t(1))
      fix p assume "p \<in> set ?ps"
      then have "p = ps ! ?b + v j \<or> p \<in> set ps" using set_update_subset_insert by fastforce
      then show "\<bar>p\<bar> + (\<Sum>j\<leftarrow>js. \<bar>v j\<bar>) < 2 ^ 53" using B[of p] B[of "ps ! ?b"] b by (elim disjE) (simp, simp)
    qed
    then have "fold_res step js (doubles ?ps) = Inr (doubles (counts ?ps bin v js))" by (intro Cons.IH) (use Cons.prems(1,2) in auto)
    moreover have "counts ?ps bin v js = counts ps bin v (j # js)"
      unfolding counts_def using b False by (intro nth_equalityI) (auto simp: nth_list_update)
    ultimately show ?thesis using st by simp
  qed
qed

text \<open>
  The blocks of a bsb-csr histogram: the entries \<open>b0..b1\<close> of a block name different bins, each with the pixels of the block that fall in it, and no other
  bin has any.
\<close>

definition bsb_block :: "bslz4_mat_bsbcsr \<Rightarrow> nat \<Rightarrow> nat \<Rightarrow> (nat \<Rightarrow> 32 word) \<Rightarrow> nat \<Rightarrow> bool" where
  "bsb_block m i0 n bin nout \<longleftrightarrow> 0 < bs_block_elems m \<and> i0 div bs_block_elems m + 1 < length (bs_blk_ptr m)
     \<and> (let B = [unat (bs_blk_ptr m ! (i0 div bs_block_elems m))..<unat (bs_blk_ptr m ! (i0 div bs_block_elems m + 1))] in
          (\<forall>bi\<in>set B. bi < length (bs_bins m) \<and> bi + 1 < length (bs_bin_ptr m) \<and> bs_bins m ! bi \<noteq> BSLZ4_NO_BIN \<and> unat (bs_bins m ! bi) < nout
             \<and> bs_bin_ptr m ! bi \<le> bs_bin_ptr m ! (bi + 1) \<and> unat (bs_bin_ptr m ! (bi + 1)) \<le> length (bs_idx m)
             \<and> mset (map (\<lambda>k. unat (bs_idx m ! k)) [unat (bs_bin_ptr m ! bi)..<unat (bs_bin_ptr m ! (bi + 1))]) = mset (filter (\<lambda>j. bin j = bs_bins m ! bi) [0..<n]))
          \<and> distinct (map (\<lambda>bi. bs_bins m ! bi) B) \<and> (\<forall>j<n. bin j \<noteq> BSLZ4_NO_BIN \<longrightarrow> bin j \<in> set (map (\<lambda>bi. bs_bins m ! bi) B)))"

text \<open>One bin.\<close>

lemma bsb_bin_counts:
  assumes bb: "bsb_block m i0 n bin (length ps)" and px: "n \<le> length px" "\<not> is_float dt" and f: "(\<Sum>j\<leftarrow>[0..<n]. \<bar>px_int dt (px ! j)\<bar>) < 2 ^ 53"
    and bi: "bi \<in> set [unat (bs_blk_ptr m ! (i0 div bs_block_elems m))..<unat (bs_blk_ptr m ! (i0 div bs_block_elems m + 1))]"
    and b: "b = unat (bs_bins m ! bi)" "\<bar>ps ! b\<bar> < 2 ^ 53"
  shows "bsb_bin (bsb_count dt m px) m bi (doubles ps) = Inr (doubles (ps[b := ps ! b + (\<Sum>j\<leftarrow>filter (\<lambda>j. bin j = bs_bins m ! bi) [0..<n]. px_int dt (px ! j))]))"
proof -
  let ?k0 = "unat (bs_bin_ptr m ! bi)" and ?k1 = "unat (bs_bin_ptr m ! (bi + 1))" and ?js = "filter (\<lambda>j. bin j = bs_bins m ! bi) [0..<n]"
  let ?x = "\<lambda>k. px_int dt (px ! unat (bs_idx m ! k))"
  have h: "bi < length (bs_bins m)" "bi + 1 < length (bs_bin_ptr m)" "unat (bs_bins m ! bi) < length ps" "?k0 \<le> ?k1" "?k1 \<le> length (bs_idx m)"
    "mset (map (\<lambda>k. unat (bs_idx m ! k)) [?k0..<?k1]) = mset ?js"
    using bb bi unfolding bsb_block_def Let_def by (auto simp: word_le_nat_alt)
  have js: "unat (bs_idx m ! k) < n" if "?k0 \<le> k" "k < ?k1" for k
  proof -
    have "unat (bs_idx m ! k) \<in> set (map (\<lambda>k. unat (bs_idx m ! k)) [?k0..<?k1])" using that by auto
    then have "unat (bs_idx m ! k) \<in> set ?js" using mset_eq_setD[OF h(6)] by metis
    then show ?thesis by simp
  qed
  have sums: "(\<Sum>k\<leftarrow>[?k0..<?k1]. g (px_int dt (px ! unat (bs_idx m ! k)))) = (\<Sum>j\<leftarrow>?js. g (px_int dt (px ! j)))" for g :: "int \<Rightarrow> int"
    using mset_sum[OF h(6), of "\<lambda>j. g (px_int dt (px ! j))"] by (simp add: comp_def)
  have a: "adds_int (bsb_count dt m px) ?x ?k0 ?k1"
    unfolding adds_int_def
  proof (intro allI impI)
    fix k and a :: int assume k: "?k0 \<le> k" "k < ?k1" and "\<bar>a\<bar> < 2 ^ 53" "\<bar>?x k\<bar> < 2 ^ 53"
    then show "bsb_count dt m px k (f64_of_int a) = Inr (f64_of_int (a + ?x k))"
      using js[OF k] px h(5) by (simp add: bsb_count_def load_ok px_f64_int f64_add_int)
  qed
  have le: "(\<Sum>j\<leftarrow>?js. \<bar>px_int dt (px ! j)\<bar>) < 2 ^ 53" using sum_filter_le[of "\<lambda>j. px_int dt (px ! j)" _ "[0..<n]"] f by (rule le_less_trans)
  have "(\<Sum>k\<leftarrow>[?k0..<?k1]. \<bar>?x k\<bar>) < 2 ^ 53" using sums[of abs] le by simp
  from bsb_sum_int[OF a h(4) this] have "bsb_sum (bsb_count dt m px) ?k0 ?k1 = Inr (f64_of_int (\<Sum>j\<leftarrow>?js. px_int dt (px ! j)))" using sums[of "\<lambda>x. x"] by simp
  moreover have "\<bar>\<Sum>j\<leftarrow>?js. px_int dt (px ! j)\<bar> < 2 ^ 53" using abs_sum_le le by (rule le_less_trans)
  ultimately show ?thesis using h(1-3) acc_at_doubles[of b ps "\<Sum>j\<leftarrow>?js. px_int dt (px ! j)"] b by (simp add: bsb_bin_def load_ok)
qed

text \<open>All bins of a block.\<close>

lemma bsb_pow_counts:
  assumes bb: "bsb_block m i0 n bin (length ps)" and px: "n \<le> length px" "\<not> is_float dt" and f: "counts_fit ps (\<lambda>j. px_int dt (px ! j)) [0..<n]"
  shows "bsb_pow (bsb_count dt m px) m i0 (doubles ps) = Inr (doubles (counts ps bin (\<lambda>j. px_int dt (px ! j)) [0..<n]))"
proof -
  let ?i = "i0 div bs_block_elems m"
  let ?B = "[unat (bs_blk_ptr m ! ?i)..<unat (bs_blk_ptr m ! (?i + 1))]" and ?v = "\<lambda>j. px_int dt (px ! j)"
  let ?s = "\<lambda>bi. \<Sum>j\<leftarrow>filter (\<lambda>j. bin j = bs_bins m ! bi) [0..<n]. ?v j" and ?b = "\<lambda>bi. unat (bs_bins m ! bi)"
  have h: "0 < bs_block_elems m" "?i + 1 < length (bs_blk_ptr m)" "distinct (map (\<lambda>bi. bs_bins m ! bi) ?B)"
    "\<And>bi. bi \<in> set ?B \<Longrightarrow> bs_bins m ! bi \<noteq> BSLZ4_NO_BIN \<and> ?b bi < length ps"
    "\<And>j. j < n \<Longrightarrow> bin j \<noteq> BSLZ4_NO_BIN \<Longrightarrow> bin j \<in> set (map (\<lambda>bi. bs_bins m ! bi) ?B)"
    using bb unfolding bsb_block_def Let_def by simp_all
  have F: "(\<Sum>j\<leftarrow>[0..<n]. \<bar>?v j\<bar>) < 2 ^ 53" using f by (simp add: counts_fit_def)
  have loop: "fold_res (bsb_bin (bsb_count dt m px) m) bs (doubles qs) = Inr (doubles (map (\<lambda>b. qs ! b + (\<Sum>bi\<leftarrow>bs. if ?b bi = b then ?s bi else 0)) [0..<length ps]))"
    if "set bs \<subseteq> set ?B" "distinct (map (\<lambda>bi. bs_bins m ! bi) bs)" "length qs = length ps" "\<forall>bi\<in>set bs. \<bar>qs ! ?b bi\<bar> < 2 ^ 53" for bs qs
    using that
  proof (induction bs arbitrary: qs)
    case Nil
    then show ?case by (simp add: map_nth flip: Nil.prems(3))
  next
    case (Cons bi bs)
    let ?qs = "qs[?b bi := qs ! ?b bi + ?s bi]"
    have ne: "?b bi' \<noteq> ?b bi" if "bi' \<in> set bs" for bi'
    proof
      assume "?b bi' = ?b bi"
      then have "bs_bins m ! bi = bs_bins m ! bi'" by (simp add: word_unat_eq_iff)
      then show False using Cons.prems(2) that by auto
    qed
    have b: "?b bi < length ps" using h(4)[of bi] Cons.prems(1) by simp
    have "bsb_bin (bsb_count dt m px) m bi (doubles qs) = Inr (doubles ?qs)"
      by (rule bsb_bin_counts[OF _ px F]) (use bb Cons.prems in auto)
    moreover have "fold_res (bsb_bin (bsb_count dt m px) m) bs (doubles ?qs)
        = Inr (doubles (map (\<lambda>b. ?qs ! b + (\<Sum>bi\<leftarrow>bs. if ?b bi = b then ?s bi else 0)) [0..<length ps]))"
    proof (rule Cons.IH)
      show "\<forall>bi'\<in>set bs. \<bar>?qs ! ?b bi'\<bar> < 2 ^ 53"
      proof
        fix bi' assume "bi' \<in> set bs"
        then have "?b bi \<noteq> ?b bi'" "\<bar>qs ! ?b bi'\<bar> < 2 ^ 53" using ne[of bi'] Cons.prems(4) by auto
        then show "\<bar>?qs ! ?b bi'\<bar> < 2 ^ 53" by simp
      qed
    qed (use Cons.prems in auto)
    moreover have "map (\<lambda>b. ?qs ! b + (\<Sum>bi\<leftarrow>bs. if ?b bi = b then ?s bi else 0)) [0..<length ps]
        = map (\<lambda>b. qs ! b + (\<Sum>bi\<leftarrow>bi # bs. if ?b bi = b then ?s bi else 0)) [0..<length ps]"
      using b Cons.prems(3) by (intro map_cong refl) (auto simp: nth_list_update)
    ultimately show ?case by simp
  qed
  have tot: "(\<Sum>bi\<leftarrow>?B. if ?b bi = b then ?s bi else 0) = (\<Sum>j\<leftarrow>[0..<n]. if bin j \<noteq> BSLZ4_NO_BIN \<and> unat (bin j) = b then ?v j else 0)" for b
  proof (cases "\<exists>bi\<in>set ?B. ?b bi = b")
    case False
    then have z: "(\<Sum>bi\<leftarrow>?B. if ?b bi = b then ?s bi else 0) = (\<Sum>bi\<leftarrow>?B. 0)" by (intro arg_cong[where f = sum_list] map_cong) auto
    have "\<not> (bin j \<noteq> BSLZ4_NO_BIN \<and> unat (bin j) = b)" if jn: "j < n" for j
    proof
      assume a: "bin j \<noteq> BSLZ4_NO_BIN \<and> unat (bin j) = b"
      then obtain bi where "bi \<in> set ?B" "bin j = bs_bins m ! bi" using h(5)[OF jn] unfolding set_map by blast
      then show False using False a by auto
    qed
    then have "(\<Sum>j\<leftarrow>[0..<n]. if bin j \<noteq> BSLZ4_NO_BIN \<and> unat (bin j) = b then ?v j else 0) = (\<Sum>j\<leftarrow>[0..<n]. 0)"
      by (intro arg_cong[where f = sum_list] map_cong) auto
    then show ?thesis using z by simp
  next
    case True
    then obtain bi where bi: "bi \<in> set ?B" "?b bi = b" by blast
    have o: "?b bi' = b \<longleftrightarrow> bi' = bi" if "bi' \<in> set ?B" for bi'
      using h(3) that bi by (auto simp: distinct_map inj_on_def word_unat_eq_iff)
    have "(\<Sum>bi'\<leftarrow>?B. if ?b bi' = b then ?s bi' else 0) = (\<Sum>bi'\<leftarrow>?B. if bi' = bi then ?s bi else 0)"
      using o by (intro arg_cong[where f = sum_list] map_cong) auto
    also have "\<dots> = ?s bi" using bi(1) by (simp add: sum_list_distinct_conv_sum_set)
    also have "\<dots> = (\<Sum>j\<leftarrow>[0..<n]. if bin j = bs_bins m ! bi then ?v j else 0)" by (simp add: sum_list_map_filter')
    also have "\<dots> = (\<Sum>j\<leftarrow>[0..<n]. if bin j \<noteq> BSLZ4_NO_BIN \<and> unat (bin j) = b then ?v j else 0)"
      using h(4)[OF bi(1)] bi(2) by (intro arg_cong[where f = sum_list] map_cong) (auto simp: word_unat_eq_iff)
    finally show ?thesis .
  qed
  have "\<forall>bi\<in>set ?B. \<bar>ps ! ?b bi\<bar> < 2 ^ 53"
  proof
    fix bi assume "bi \<in> set ?B"
    then have "\<bar>ps ! ?b bi\<bar> + (\<Sum>j\<leftarrow>[0..<n]. \<bar>?v j\<bar>) < 2 ^ 53" using f h(4) by (simp add: counts_fit_def)
    moreover have "0 \<le> (\<Sum>j\<leftarrow>[0..<n]. \<bar>?v j\<bar>)" by (rule sum_list_nonneg) auto
    ultimately show "\<bar>ps ! ?b bi\<bar> < 2 ^ 53" by linarith
  qed
  from loop[OF subset_refl h(3) refl this] show ?thesis using h(1,2) unfolding tot by (simp add: bsb_pow_def load_ok counts_def)
qed

section \<open>The routes\<close>

text \<open>
  C35: for the integer pixel types bsb-csr-nosplit counts exactly: its dense route, which walks the bins of a block with four accumulators each, its
  sparse route and csc-nosplit leave the same powder, every bin the sum of its pixels, and list the same pixels, as long as the totals stay below
  \<open>2^53\<close>.
\<close>

theorem bsb_nosplit_counts:
  assumes w: "dot_ready w npix st" "\<not> is_float (w_dtype w)" and p: "d_pow st = doubles ps"
    and bins: "npix \<le> length (m_indices (bs_csc m))" "\<forall>b\<in>set (m_indices (bs_csc m)). b \<noteq> BSLZ4_NO_BIN \<longrightarrow> unat b < length ps"
    and bb: "bsb_block m (w_i0 w) (w_n w) (\<lambda>j. m_indices (bs_csc m) ! (j + w_i0 w)) (length ps)"
    and f: "counts_fit ps (\<lambda>j. px_int (w_dtype w) (w_block w ! j)) [0..<w_n w]"
    and folded: "\<forall>j<w_n w. \<not> mask_keeps (work_mask w) (j + w_i0 w) \<longrightarrow> no_bin (m_indices (bs_csc m)) (j + w_i0 w)"
  shows "\<exists>pow K. K = picked (passes w) (w_block w) (work_mask w) (w_i0 w) [0..<w_n w]
    \<and> pow = doubles (counts ps (\<lambda>j. m_indices (bs_csc m) ! (j + w_i0 w)) (\<lambda>j. px_int (w_dtype w) (w_block w ! j)) [0..<w_n w])
    \<and> dot_gives st (bsbcsr_nosplit_dense bld m w st) pow K \<and> dot_gives st (bsbcsr_nosplit_sparse bld' m w st) pow K
    \<and> dot_gives st (nosplit_dense bld (bs_csc m) w st) pow K"
proof -
  let ?dt = "w_dtype w" and ?n = "w_n w" and ?i0 = "w_i0 w" and ?bin = "m_indices (bs_csc m)"
  let ?v = "\<lambda>j. px_int ?dt (w_block w ! j)" and ?K = "picked (passes w) (w_block w) (work_mask w) ?i0 [0..<?n]"
  let ?pow = "doubles (counts ps (\<lambda>j. ?bin ! (j + ?i0)) ?v [0..<?n])"
  have r: "block_ready w" "0 \<le> ?dt" "?dt \<le> 9" "cut_ok ?dt (w_threshold w) (w_cutf w)" "?i0 + ?n \<le> 2 ^ 32" "?i0 + ?n \<le> npix" "room ?n st" "?n \<le> length (w_block w)"
    and nzr: "nz_ready w st (picked (px_nz ?dt) (w_block w) (work_mask w) ?i0 [0..<?n])"
    using w(1) by (auto simp: dot_ready_def nz_ready_def block_ready_def readable_def)
  have d: "dense_pow (nosplit_add ?dt ?bin) w (d_pow st) = Inr ?pow"
    unfolding dense_pow_def p
  proof (rule counts_loop[OF _ _ f])
    fix j q assume j: "j \<in> set [0..<?n]"
    then show "rbind (load (w_block w) j) (\<lambda>v. nosplit_add ?dt ?bin (j + ?i0) v q)
        = (if ?bin ! (j + ?i0) = BSLZ4_NO_BIN then Inr q else acc_at (\<lambda>x. f64_add x (f64_of_int (?v j))) (unat (?bin ! (j + ?i0))) q)"
      using r(6,8) bins(1) w(2) by (simp add: load_ok nosplit_add_def px_f64_int)
  qed (use r(6) bins in auto)
  have "sums (length ps) (d_pow st)"
  proof -
    have "stable (f64_of_int x)" if "x \<in> set ps" for x
    proof (rule stable_int)
      have "\<bar>x\<bar> + (\<Sum>j\<leftarrow>[0..<?n]. \<bar>?v j\<bar>) < 2 ^ 53" using f that by (simp add: counts_fit_def)
      moreover have "0 \<le> (\<Sum>j\<leftarrow>[0..<?n]. \<bar>?v j\<bar>)" by (rule sum_list_nonneg) auto
      ultimately show "\<bar>x\<bar> < 2 ^ 53" by linarith
    qed
    then show ?thesis unfolding p by (auto simp: sums_def doubles_def)
  qed
  note g = this
  have px: "bin_fits ?dt ?bin npix (length ps) (j + ?i0) (w_block w ! j)" if "j < ?n" for j using that r(2,3,6) bins by (auto simp: bin_fits_def)
  from nosplit.routes_agree[OF r(1-5) refl r(7) g px folded[rule_format] nzr r(7) refl refl] obtain q where
    q: "dot_gives st (dense_route (nosplit_add ?dt ?bin) bld w st) q ?K" "dot_gives st (sparse_route (sparse_pow (nosplit_add ?dt ?bin)) bld' w st) q ?K" by blast
  have e: "?pow = q" by (rule dot_gives_det[OF q(1) dense_route_gives[OF r(1,7) d]])
  have b: "dot_gives st (bsbcsr_nosplit_dense bld m w st) ?pow ?K"
  proof (cases "?n = 0")
    case True
    then have "?pow = d_pow st" using d by (simp add: dense_pow_def)
    then show ?thesis using dot_gives_empty[OF True] True by (simp add: bsbcsr_nosplit_dense_def)
  next
    case False
    have "bsb_pow (bsb_count ?dt m (w_block w)) m ?i0 (d_pow st) = Inr ?pow" unfolding p by (rule bsb_pow_counts[OF bb r(8) w(2) f])
    from dense_with_gives[where powder = "bsb_pow (bsb_count ?dt m (w_block w)) m ?i0", OF r(1,7) this] show ?thesis using False by (simp add: bsbcsr_nosplit_dense_def)
  qed
  show ?thesis using q b unfolding e by (auto simp: bsbcsr_nosplit_sparse_def nosplit_sparse_core_def nosplit_dense_def)
qed

text \<open>Pixels 3, 7 (masked) and 5 of \<open>sample_dot_work\<close> in the bins 1, none and 0.\<close>

definition sample_bsb :: bslz4_mat_bsbcsr where
  "sample_bsb = \<lparr>bs_blk_ptr = [0, 2], bs_blk_ptr_n = 2, bs_bins = [0, 1], bs_bin_ptr = [0, 1, 2], bs_idx = [2, 0], bs_data = [], bs_csc = sample_bins,
     bs_block_elems = 3\<rparr>"

lemma sample_bsb_block: "bsb_block sample_bsb 0 3 (\<lambda>j. m_indices sample_bins ! j) 2"
proof -
  have B: "[unat (bs_blk_ptr sample_bsb ! (0 div bs_block_elems sample_bsb))..<unat (bs_blk_ptr sample_bsb ! (0 div bs_block_elems sample_bsb + 1))] = [0, 1]" by code_simp
  have three: "(\<forall>j<3. P j) \<longleftrightarrow> P 0 \<and> P 1 \<and> P (2 :: nat)" for P by (auto simp: less_Suc_eq numeral_3_eq_3 numeral_2_eq_2)
  have e: "map (\<lambda>k. unat (bs_idx sample_bsb ! k)) [unat (bs_bin_ptr sample_bsb ! 0)..<unat (bs_bin_ptr sample_bsb ! (0 + 1))] = [2]"
    "map (\<lambda>k. unat (bs_idx sample_bsb ! k)) [unat (bs_bin_ptr sample_bsb ! 1)..<unat (bs_bin_ptr sample_bsb ! (1 + 1))] = [0]"
    "filter (\<lambda>j. m_indices sample_bins ! j = bs_bins sample_bsb ! 0) [0..<3] = [2]"
    "filter (\<lambda>j. m_indices sample_bins ! j = bs_bins sample_bsb ! 1) [0..<3] = [0]" by code_simp+
  have two: "(\<forall>bi\<in>set [0, 1]. P bi) \<longleftrightarrow> P 0 \<and> P (1 :: nat)" for P by simp
  show ?thesis unfolding bsb_block_def B Let_def three two e by (simp add: sample_bsb_def sample_bins_def BSLZ4_NO_BIN_def)
qed

theorem bsb_nosplit_counts_witness:
  "dot_gives sample_dot_st (bsbcsr_nosplit_dense sample_build sample_bsb sample_dot_work sample_dot_st) (doubles [5, 3]) [(3, 0), (5, 2)]
    \<and> dot_gives sample_dot_st (bsbcsr_nosplit_sparse sample_build sample_bsb sample_dot_work sample_dot_st) (doubles [5, 3]) [(3, 0), (5, 2)]"
proof -
  let ?w = sample_dot_work
  have i: "bs_csc sample_bsb = sample_bins" "w_i0 ?w = 0" "w_n ?w = 3" "d_pow sample_dot_st = doubles [0, 0]" "\<not> is_float (w_dtype ?w)"
    by (simp_all add: sample_bsb_def sample_dot_work_def sample_work_def sample_dot_st_def doubles_def f64_int_0 is_float_def)
  have c: "counts [0, 0] (\<lambda>j. m_indices sample_bins ! (j + w_i0 ?w)) (\<lambda>j. px_int (w_dtype ?w) (w_block ?w ! j)) [0..<w_n ?w] = [5, 3]" by code_simp
  have "(\<Sum>j\<leftarrow>[0..<w_n ?w]. \<bar>px_int (w_dtype ?w) (w_block ?w ! j)\<bar>) = 15" by code_simp
  then have f: "counts_fit [0, 0] (\<lambda>j. px_int (w_dtype ?w) (w_block ?w ! j)) [0..<w_n ?w]" by (simp add: counts_fit_def)
  have b: "3 \<le> length (m_indices (bs_csc sample_bsb))" "\<forall>b\<in>set (m_indices (bs_csc sample_bsb)). b \<noteq> BSLZ4_NO_BIN \<longrightarrow> unat b < length [0, 0 :: int]"
    unfolding i by (simp_all add: sample_bins_def)
  have bb: "bsb_block sample_bsb (w_i0 ?w) (w_n ?w) (\<lambda>j. m_indices (bs_csc sample_bsb) ! (j + w_i0 ?w)) (length [0, 0 :: int])"
    using sample_bsb_block unfolding i by (simp add: numeral_2_eq_2)
  show ?thesis using bsb_nosplit_counts[OF sample_ready i(5,4) b bb f sample_folded[folded i(1)], of sample_build sample_build]
    unfolding i(1) c sample_list by blast
qed

end
