(* ===== verification/C2py.thy ===== *)
theory C2py
  imports Registry "HOL-Library.Signed_Division"
begin

text \<open>
  \<open>src/c2py_runtime/c2py_runtime.h\<close>: what the Python wrapper checks of the buffers it is given. An info is what an exporter describes: the address, the
  length in bytes, the item size, the format and the axes. A \<open>ValueError\<close> is \<open>value_error\<close>.
\<close>

section \<open>Buffers\<close>

record c2py_ptr_info =
  i_ptr :: "64 word"
  i_len :: int
  i_itemsize :: int
  i_ndim :: int
  i_format :: "string option"
  i_shape :: "int list"
  i_strides :: "int list option"

record abi =
  sizeof_long :: int
  big_endian :: bool

definition value_error :: stop where "value_error = Code (-1)"

definition LLONG_MAX :: int where "LLONG_MAX = 2 ^ 63 - 1"
definition LLONG_MIN :: int where "LLONG_MIN = - (2 ^ 63)"
definition INT_MAX :: int where "INT_MAX = 2 ^ 31 - 1"
definition INT_MIN :: int where "INT_MIN = - (2 ^ 31)"

text \<open>The items of a buffer, \<open>.n\<close>.\<close>

definition items :: "c2py_ptr_info \<Rightarrow> int res" where
  "items i = (if i_len i = 0 then Inr 0 else if i_itemsize i = 0 then Inl Fault else Inr (i_len i sdiv i_itemsize i))"

section \<open>Arithmetic\<close>

text \<open>\<open>None\<close> sets the overflow flag.\<close>

definition c2py_add_ll :: "int \<Rightarrow> int \<Rightarrow> int option" where
  "c2py_add_ll a b = (if (b > 0 \<and> a > LLONG_MAX - b) \<or> (b < 0 \<and> a < LLONG_MIN - b) then None else Some (a + b))"

definition c2py_mul_ll :: "int \<Rightarrow> int \<Rightarrow> int option" where
  "c2py_mul_ll a b =
     (if a = 0 \<or> b = 0 then Some 0
      else if (if a > 0 then (if b > 0 then a > LLONG_MAX sdiv b else b < LLONG_MIN sdiv a)
               else (if b > 0 then a < LLONG_MIN sdiv b else a < LLONG_MAX sdiv b)) then None
      else Some (a * b))"

section \<open>Formats\<close>

definition c2py_format_is_native :: "abi \<Rightarrow> string \<Rightarrow> bool" where
  "c2py_format_is_native ab fmt =
     (if length fmt < 2 then True
      else let prefix = fmt ! (length fmt - 2) in
        if big_endian ab then prefix \<noteq> CHR ''<'' else prefix \<noteq> CHR ''>'' \<and> prefix \<noteq> CHR ''!'')"

text \<open>The character at a place of a C string; behind its end the 0.\<close>

definition char_at :: "string \<Rightarrow> nat \<Rightarrow> char" where
  "char_at s k = (if k < length s then s ! k else CHR 0x00)"

definition c2py_format_type :: "abi \<Rightarrow> string option \<Rightarrow> char" where
  "c2py_format_type ab f =
     (case f of None \<Rightarrow> CHR ''B''
      | Some fmt \<Rightarrow>
          let pre = char_at fmt 0 \<in> {CHR ''@'', CHR ''='', CHR ''<'', CHR ''>'', CHR ''!''} in
          if pre \<and> \<not> c2py_format_is_native ab fmt \<and> char_at fmt 1 \<notin> {CHR ''b'', CHR ''B'', CHR ''c'', CHR ''?''} then CHR 0x00
          else let fmt = (if pre then tl fmt else fmt); c = char_at fmt 0 in
            if c = CHR 0x00 \<or> char_at fmt 1 \<noteq> CHR 0x00 then CHR 0x00
            else if c \<in> set ''0123456789'' \<or> c \<in> {CHR ''Z'', CHR ''T'', CHR ''{'', CHR ''(''} then CHR 0x00
            else c)"

section \<open>Contiguity\<close>

text \<open>The loop over the axes, from the fastest: an axis of one item has no stride.\<close>

fun axes_ok :: "int \<Rightarrow> (int \<times> int) list \<Rightarrow> bool" where
  "axes_ok expected [] = True"
| "axes_ok expected ((n, s) # ax) = (if n = 1 then axes_ok expected ax else if s < 0 then False else if s \<noteq> expected then False else axes_ok (expected * n) ax)"

text \<open>The slow and the fast axis.\<close>

definition c2py_check_contiguity :: "c2py_ptr_info \<Rightarrow> (int \<times> int) res" where
  "c2py_check_contiguity i =
     (if i_strides i = None \<and> i_ndim i \<le> 1 then Inr (0, i_ndim i - 1)
      else if i_len i = 0 then Inr (0, i_ndim i - 1)
      else if i_ndim i \<ge> 1 then
        (case i_strides i of None \<Rightarrow> Inl Fault
         | Some strides \<Rightarrow>
             if int (length (i_shape i)) < i_ndim i \<or> int (length strides) < i_ndim i then Inl Fault
             else let ax = zip (take (nat (i_ndim i)) (i_shape i)) (take (nat (i_ndim i)) strides) in
               if axes_ok (i_itemsize i) (rev ax) then Inr (0, i_ndim i - 1)
               else if axes_ok (i_itemsize i) ax then Inr (i_ndim i - 1, 0)
               else Inl value_error)
      else Inr (-1, -1))"

section \<open>Overlap\<close>

definition overlaps :: "c2py_ptr_info \<Rightarrow> c2py_ptr_info \<Rightarrow> bool" where
  "overlaps p q \<longleftrightarrow> i_ptr p < i_ptr q + word_of_int (i_len q) \<and> i_ptr q < i_ptr p + word_of_int (i_len p)"

text \<open>The first \<open>n_writable\<close> infos against all.\<close>

definition c2py_check_no_overlap :: "c2py_ptr_info list \<Rightarrow> nat \<Rightarrow> unit res" where
  "c2py_check_no_overlap infos n_writable =
     fold_res (\<lambda>a _. rbind (load infos a) (\<lambda>p.
         if i_len p \<le> 0 then Inr ()
         else fold_res (\<lambda>b _. rbind (load infos b) (\<lambda>q.
                if a = b \<or> i_len q \<le> 0 then Inr () else if overlaps p q then Inl value_error else Inr ())) [0..<length infos] ()))
       [0..<n_writable] ()"

text \<open>The bytes of a buffer.\<close>

definition span_of :: "c2py_ptr_info \<Rightarrow> int set" where
  "span_of i = {uint (i_ptr i)..<uint (i_ptr i) + i_len i}"

lemma fold_unit:
  "fold_res (\<lambda>x _. f x) xs () = Inr () \<longleftrightarrow> (\<forall>x\<in>set xs. f x = (Inr () :: unit res))"
  by (induction xs) (auto simp: rbind_Inr_iff)

lemma not_overlaps:
  assumes "\<not> overlaps p q" "0 < i_len p" "0 < i_len q" "uint (i_ptr p) + i_len p < 2 ^ 64" "uint (i_ptr q) + i_len q < 2 ^ 64"
  shows "span_of p \<inter> span_of q = {}"
proof -
  have u: "uint (i_ptr i + word_of_int (i_len i)) = uint (i_ptr i) + i_len i" if "0 < i_len i" "uint (i_ptr i) + i_len i < 2 ^ 64" for i
  proof -
    have "i_ptr i + word_of_int (i_len i) = word_of_int (uint (i_ptr i) + i_len i)" by simp
    moreover have "uint (word_of_int (uint (i_ptr i) + i_len i) :: 64 word) = uint (i_ptr i) + i_len i"
      unfolding uint_word_of_int_eq by (rule take_bit_int_eq_self) (use that in simp_all)
    ultimately show ?thesis by metis
  qed
  show ?thesis using assms(1) unfolding overlaps_def word_less_def u[OF assms(2,4)] u[OF assms(3,5)] by (auto simp: span_of_def)
qed

text \<open>
  Buffers the wrapper lets through do not overlap where one of them is written: what the model takes for granted when it keeps every buffer in a
  list of its own. No buffer reaches the end of the address space.
\<close>

lemma no_overlap_separate:
  assumes "c2py_check_no_overlap infos n_writable = Inr ()" "n_writable \<le> length infos"
    and "\<forall>i\<in>set infos. 0 \<le> i_len i \<and> uint (i_ptr i) + i_len i < 2 ^ 64"
    and "a < n_writable" "b < length infos" "a \<noteq> b"
  shows "span_of (infos ! a) \<inter> span_of (infos ! b) = {}"
proof (cases "i_len (infos ! a) = 0 \<or> i_len (infos ! b) = 0")
  case True
  then show ?thesis by (auto simp: span_of_def)
next
  case False
  have l: "a < length infos" using assms(2,4) by simp
  have p: "0 < i_len (infos ! a)" "0 < i_len (infos ! b)" "uint (i_ptr (infos ! a)) + i_len (infos ! a) < 2 ^ 64" "uint (i_ptr (infos ! b)) + i_len (infos ! b) < 2 ^ 64"
    using False assms(3) nth_mem[OF l] nth_mem[OF assms(5)] by force+
  have "\<not> overlaps (infos ! a) (infos ! b)"
    using assms(1,4,5,6) l p(1,2) unfolding c2py_check_no_overlap_def fold_unit by (force simp: load_ok fold_unit split: if_splits)
  then show ?thesis by (rule not_overlaps[OF _ p])
qed

section \<open>No gaps\<close>

text \<open>The offset of an element in bytes, for its indices along the axes.\<close>

fun offset_of :: "(int \<times> int) list \<Rightarrow> int list \<Rightarrow> int" where
  "offset_of ((n, s) # ax) (k # ks) = k * s + offset_of ax ks"
| "offset_of _ _ = 0"

fun indices_ok :: "(int \<times> int) list \<Rightarrow> int list \<Rightarrow> bool" where
  "indices_ok [] [] = True"
| "indices_ok ((n, s) # ax) (k # ks) = (0 \<le> k \<and> k < n \<and> indices_ok ax ks)"
| "indices_ok _ _ = False"

fun axes_items :: "(int \<times> int) list \<Rightarrow> int" where
  "axes_items [] = 1"
| "axes_items ((n, s) # ax) = n * axes_items ax"

lemma offset_append:
  "length ax = length ks \<Longrightarrow> offset_of (ax @ ay) (ks @ ls) = offset_of ax ks + offset_of ay ls"
  by (induction ax ks rule: offset_of.induct) auto

lemma axes_ok_offsets:
  assumes "axes_ok e ax" "\<forall>(n, s)\<in>set ax. 1 \<le> n"
  shows "offset_of ax ` {ks. indices_ok ax ks} = (\<lambda>r. e * r) ` {0..<axes_items ax}"
  using assms
proof (induction ax arbitrary: e)
  case Nil
  have "{ks. indices_ok [] ks} = {[]}" by (auto elim: indices_ok.elims)
  moreover have "{0..<1 :: int} = {0}" by auto
  ultimately show ?case by simp
next
  case (Cons d ax)
  obtain n s where d: "d = (n, s)" by (cases d)
  have n: "1 \<le> n" "\<forall>(n, s)\<in>set ax. 1 \<le> n" using Cons.prems(2) d by auto
  have I: "{ks. indices_ok (d # ax) ks} = (\<lambda>(k, ks). k # ks) ` ({0..<n} \<times> {ks. indices_ok ax ks})"
  proof (rule set_eqI)
    show "ks \<in> {ks. indices_ok (d # ax) ks} \<longleftrightarrow> ks \<in> (\<lambda>(k, ks). k # ks) ` ({0..<n} \<times> {ks. indices_ok ax ks})" for ks
      unfolding d by (cases ks) auto
  qed
  let ?P = "axes_items ax"
  have img: "offset_of (d # ax) ` {ks. indices_ok (d # ax) ks} = (\<lambda>(k, q). k * s + q) ` ({0..<n} \<times> offset_of ax ` {ks. indices_ok ax ks})"
  proof -
    have "{0..<n} \<times> offset_of ax ` {ks. indices_ok ax ks} = (\<lambda>x. (fst x, offset_of ax (snd x))) ` ({0..<n} \<times> {ks. indices_ok ax ks})"
      using image_paired_Times[of "\<lambda>k. k" "offset_of ax" "{0..<n}" "{ks. indices_ok ax ks}"] by (simp add: split_beta)
    then show ?thesis unfolding I by (simp only: image_image) (simp add: split_beta d)
  qed
  show ?case
  proof (cases "n = 1")
    case True
    have k0: "{0..<1 :: int} = {0}" by auto
    have one: "(\<lambda>(k, q). k * s + q) ` ({0..<1} \<times> B) = B" for B :: "int set" by (auto simp: k0 image_iff)
    have "axes_ok e ax" using Cons.prems(1) d True by simp
    from Cons.IH[OF this n(2)] show ?thesis unfolding img True one by (simp add: d True)
  next
    case False
    have s: "s = e" "axes_ok (e * n) ax" using Cons.prems(1) d False by (simp_all split: if_splits)
    have "(\<lambda>(k, q). k * e + q) ` ({0..<n} \<times> (\<lambda>r. e * n * r) ` {0..<?P}) = (\<lambda>r. e * r) ` {0..<n * ?P}" (is "?L = ?R")
    proof (intro equalityI subsetI)
      fix x assume "x \<in> ?L"
      then obtain k r where x: "0 \<le> k" "k < n" "0 \<le> r" "r < ?P" "x = e * (k + n * r)" by (auto simp: algebra_simps)
      have "n * (r + 1) \<le> n * ?P" using x n(1) by (intro mult_left_mono) auto
      then have "k + n * r < n * ?P" using x(2) by (simp add: distrib_left)
      moreover have "0 \<le> k + n * r" using x n(1) by simp
      ultimately show "x \<in> ?R" using x(5) by auto
    next
      fix x assume "x \<in> ?R"
      then obtain r where r: "0 \<le> r" "r < n * ?P" "x = e * r" by auto
      have "n * (r div n) \<le> r" using n(1) pos_mod_sign[of n r] minus_mod_eq_mult_div[of r n] by linarith
      then have "n * (r div n) < n * ?P" using r(2) by linarith
      then have q: "0 \<le> r div n" "r div n < ?P" "0 \<le> r mod n" "r mod n < n"
        using r(1) n(1) by (simp_all add: pos_imp_zdiv_nonneg_iff)
      have "r = r mod n + n * (r div n)" by simp
      then have "x = (r mod n) * e + e * n * (r div n)" using r(3) by (metis distrib_left mult.assoc mult.commute)
      then show "x \<in> ?L" using q by (intro image_eqI[of _ _ "(r mod n, e * n * (r div n))"]) auto
    qed
    then show ?thesis unfolding img s(1) Cons.IH[OF s(2) n(2)] using d by simp
  qed
qed

text \<open>The axes the other way round.\<close>

lemma indices_append:
  "length ax = length ks \<Longrightarrow> indices_ok (ax @ ay) (ks @ ls) \<longleftrightarrow> indices_ok ax ks \<and> indices_ok ay ls"
  by (induction ax ks rule: indices_ok.induct) auto

lemma indices_length: "indices_ok ax ks \<Longrightarrow> length ax = length ks"
  by (induction ax ks rule: indices_ok.induct) auto

lemma rev_axes:
  "length ax = length ks \<Longrightarrow> offset_of (rev ax) (rev ks) = offset_of ax ks \<and> (indices_ok (rev ax) (rev ks) \<longleftrightarrow> indices_ok ax ks)"
proof (induction ax arbitrary: ks)
  case (Cons d ax)
  obtain n s k ls where d: "d = (n, s)" "ks = k # ls" "length ax = length ls" using Cons.prems by (cases d; cases ks) auto
  have "offset_of (rev ax) (rev ls) = offset_of ax ls \<and> (indices_ok (rev ax) (rev ls) \<longleftrightarrow> indices_ok ax ls)" by (rule Cons.IH[OF d(3)])
  then show ?case using d by (auto simp: offset_append indices_append)
qed simp

lemma axes_items_rev: "axes_items (rev ax) = axes_items ax"
proof -
  have "axes_items ax = prod_list (map fst ax)" for ax by (induction ax) auto
  then show ?thesis by (simp flip: rev_map)
qed

lemma offsets_rev:
  "offset_of (rev ax) ` {ks. indices_ok (rev ax) ks} = offset_of ax ` {ks. indices_ok ax ks}"
proof -
  have "offset_of (rev ax) ` {ks. indices_ok (rev ax) ks} \<subseteq> offset_of ax ` {ks. indices_ok ax ks}" for ax
  proof
    fix x assume "x \<in> offset_of (rev ax) ` {ks. indices_ok (rev ax) ks}"
    then obtain ks where k: "indices_ok (rev ax) ks" "x = offset_of (rev ax) ks" by auto
    have "length ax = length (rev ks)" using indices_length[OF k(1)] by simp
    from rev_axes[OF this] k show "x \<in> offset_of ax ` {ks. indices_ok ax ks}" by (intro image_eqI[of _ _ "rev ks"]) simp_all
  qed
  from this[of ax] this[of "rev ax"] show ?thesis by simp
qed

text \<open>
  C36: a buffer the wrapper takes for contiguous has no gaps: the elements of its axes lie at the multiples of the item size, each below its length,
  in C or in Fortran order. The entries then read it as a plain array.
\<close>

theorem contiguous_gapless:
  assumes "c2py_check_contiguity i = Inr axes" "i_strides i = Some strides" "1 \<le> i_ndim i" "i_len i \<noteq> 0"
    and "int (length (i_shape i)) = i_ndim i" "int (length strides) = i_ndim i" "\<forall>n\<in>set (i_shape i). 1 \<le> n" "i_len i = i_itemsize i * prod_list (i_shape i)"
  shows "offset_of (zip (i_shape i) strides) ` {ks. indices_ok (zip (i_shape i) strides) ks} = (\<lambda>r. i_itemsize i * r) ` {0..<i_len i div i_itemsize i}"
proof -
  let ?ax = "zip (i_shape i) strides"
  have l: "nat (i_ndim i) = length (i_shape i)" "nat (i_ndim i) = length strides" "length (i_shape i) = length strides" using assms(5,6) by simp_all
  have c: "axes_ok (i_itemsize i) (rev ?ax) \<or> axes_ok (i_itemsize i) ?ax"
    using assms(1-6) l by (auto simp: c2py_check_contiguity_def Let_def split: if_splits)
  have n: "\<forall>(n, s)\<in>set ?ax. 1 \<le> n" "\<forall>(n, s)\<in>set (rev ?ax). 1 \<le> n" using assms(7) by (auto dest: set_zip_leftD)
  have p: "axes_items ax = prod_list (map fst ax)" for ax by (induction ax) auto
  have "i_itemsize i \<noteq> 0" using assms(4,8) by auto
  then have items: "axes_items ?ax = i_len i div i_itemsize i" using assms(8) l(3) by (simp add: p)
  from c show ?thesis
  proof
    assume "axes_ok (i_itemsize i) (rev ?ax)"
    from axes_ok_offsets[OF this n(2)] show ?thesis unfolding offsets_rev axes_items_rev items .
  next
    assume "axes_ok (i_itemsize i) ?ax"
    from axes_ok_offsets[OF this n(1)] show ?thesis unfolding items .
  qed
qed

section \<open>Witnesses\<close>

text \<open>A C-ordered 2 x 3 array of 4-byte items.\<close>

definition sample_info :: c2py_ptr_info where
  "sample_info = \<lparr>i_ptr = 64, i_len = 24, i_itemsize = 4, i_ndim = 2, i_format = Some ''I'', i_shape = [2, 3], i_strides = Some [12, 4]\<rparr>"

theorem contiguous_gapless_witness:
  "offset_of [(2, 12), (3, 4)] ` {ks. indices_ok [(2, 12), (3, 4)] ks} = (\<lambda>r. 4 * r) ` {0..<6}"
proof -
  have c: "c2py_check_contiguity sample_info = Inr (0, 1)" by code_simp
  show ?thesis using contiguous_gapless[OF c, of "[12, 4]"] by (simp add: sample_info_def)
qed

end
