(* ===== verification/Wrapper.thy ===== *)
theory Wrapper
  imports C2py
begin

text \<open>
  \<open>src/src/bslz4_to_sparse_wrapper.c\<close>: what the Python entry points check before they call the C functions. A \<open>fastcall\<close> has the infos of its pinned
  buffers: it refuses overlapping ones, and its \<open>impl\<close> tests the contiguity of each buffer, the checks of the specification in their order and the
  ranges of the C arguments, and hands the arguments over: a record here. The contents of the buffers are the lists of \<open>Entry\<close>.
\<close>

section \<open>Checks\<close>

text \<open>A check is a condition that may itself stop; one that does not hold raises.\<close>

definition ensure :: "bool res \<Rightarrow> unit res" where
  "ensure c = rbind c (\<lambda>b. if b then Inr () else Inl value_error)"

definition ensure_all :: "bool res list \<Rightarrow> unit res" where
  "ensure_all cs = fold_res (\<lambda>c _. ensure c) cs ()"

definition or_else :: "bool res \<Rightarrow> bool res \<Rightarrow> bool res" where
  "or_else a b = rbind a (\<lambda>x. if x then Inr True else b)"

definition cmp :: "(int \<Rightarrow> int \<Rightarrow> bool) \<Rightarrow> int res \<Rightarrow> int res \<Rightarrow> bool res" where
  "cmp R a b = rbind a (\<lambda>x. rbind b (\<lambda>y. Inr (R x y)))"

text \<open>Checked arithmetic in a check: an overflow raises.\<close>

definition ll_op :: "(int \<Rightarrow> int \<Rightarrow> int option) \<Rightarrow> int res \<Rightarrow> int res \<Rightarrow> int res" where
  "ll_op f a b = rbind a (\<lambda>x. rbind b (\<lambda>y. case f x y of None \<Rightarrow> Inl value_error | Some z \<Rightarrow> Inr z))"

text \<open>Formats: a type character, and \<open>l\<close> or \<open>L\<close> with the item size of a C \<open>long\<close>.\<close>

definition fmt_is :: "abi \<Rightarrow> char \<Rightarrow> c2py_ptr_info \<Rightarrow> bool" where
  "fmt_is ab c i \<longleftrightarrow> c2py_format_type ab (i_format i) = c"

definition fmt_long :: "abi \<Rightarrow> char \<Rightarrow> c2py_ptr_info \<Rightarrow> bool" where
  "fmt_long ab c i \<longleftrightarrow> fmt_is ab c i \<and> i_itemsize i = sizeof_long ab"

definition fmt_i32 :: "abi \<Rightarrow> c2py_ptr_info \<Rightarrow> bool" where
  "fmt_i32 ab i \<longleftrightarrow> (fmt_is ab (CHR ''i'') i \<or> fmt_long ab (CHR ''l'') i) \<and> i_itemsize i = 4"

definition fmt_u32 :: "abi \<Rightarrow> c2py_ptr_info \<Rightarrow> bool" where
  "fmt_u32 ab i \<longleftrightarrow> (fmt_is ab (CHR ''I'') i \<or> fmt_long ab (CHR ''L'') i) \<and> i_itemsize i = 4"

definition fmt_any32 :: "abi \<Rightarrow> c2py_ptr_info \<Rightarrow> bool" where
  "fmt_any32 ab i \<longleftrightarrow> (fmt_is ab (CHR ''I'') i \<or> fmt_is ab (CHR ''i'') i \<or> fmt_long ab (CHR ''L'') i \<or> fmt_long ab (CHR ''l'') i) \<and> i_itemsize i = 4"

definition contig :: "c2py_ptr_info list \<Rightarrow> unit res" where
  "contig is = fold_res (\<lambda>i _. rbind (c2py_check_contiguity i) (\<lambda>_. Inr ())) is ()"

text \<open>The range of a C \<open>int\<close> and of a C \<open>size_t\<close>.\<close>

definition int_arg :: "int res \<Rightarrow> int res" where
  "int_arg x = rbind x (\<lambda>n. if n < INT_MIN \<or> n > INT_MAX then Inl value_error else Inr n)"

definition size_arg :: "int res \<Rightarrow> int res" where
  "size_arg x = rbind x (\<lambda>n. if n < 0 \<or> take_bit 64 n \<noteq> n then Inl value_error else Inr n)"

section \<open>\<open>sparsify\<close>\<close>

record front_infos =
  w_ptrs :: c2py_ptr_info
  w_lengths :: c2py_ptr_info
  w_mask :: c2py_ptr_info
  w_outpx :: c2py_ptr_info
  w_output_adr :: c2py_ptr_info
  w_npx_out :: c2py_ptr_info
  w_cut :: c2py_ptr_info
  w_workspace :: c2py_ptr_info
  w_cursors :: c2py_ptr_info
  w_top :: c2py_ptr_info
  w_top_out :: c2py_ptr_info
  w_pipeline :: c2py_ptr_info

record front_args =
  a_nframes :: int
  a_NIJ :: int
  a_ncut :: int
  a_workspace_len :: int
  a_ntop :: int
  a_dtype :: int

text \<open>The four entry points that decode have these checks in common.\<close>

definition buffer_formats :: "abi \<Rightarrow> 'a front_infos_scheme \<Rightarrow> bool res list" where
  "buffer_formats ab b =
     [Inr (fmt_is ab (CHR ''B'') (w_mask b) \<or> fmt_is ab (CHR ''b'') (w_mask b)),
      Inr (fmt_is ab (CHR ''I'') (w_output_adr b) \<or> fmt_long ab (CHR ''L'') (w_output_adr b)),
      Inr (fmt_is ab (CHR ''i'') (w_npx_out b) \<or> fmt_long ab (CHR ''l'') (w_npx_out b))]"

definition workspace_format :: "abi \<Rightarrow> 'a front_infos_scheme \<Rightarrow> bool res list" where
  "workspace_format ab b = [Inr (fmt_is ab (CHR ''B'') (w_workspace b))]"

definition chunk_checks :: "'a front_infos_scheme \<Rightarrow> bool res list" where
  "chunk_checks b =
     [Inr (i_itemsize (w_ptrs b) = 8), Inr (i_itemsize (w_lengths b) = 4), cmp (=) (items (w_lengths b)) (items (w_ptrs b)),
      Inr (i_itemsize (w_cursors b) = 8), Inr (i_itemsize (w_top b) = 8), Inr (i_itemsize (w_top_out b) = 4),
      or_else (cmp (=) (items (w_top b)) (Inr 0)) (cmp (\<ge>) (items (w_top_out b)) (ll_op c2py_mul_ll (Inr 2) (items (w_ptrs b))))]"

definition pipeline_checks :: "abi \<Rightarrow> 'a front_infos_scheme \<Rightarrow> bool res list" where
  "pipeline_checks ab b = [Inr (fmt_is ab (CHR ''H'') (w_pipeline b)), cmp (=) (items (w_pipeline b)) (Inr 6)]"

definition sparsify_contiguity :: "front_infos \<Rightarrow> unit res" where
  "sparsify_contiguity b =
     contig [w_ptrs b, w_lengths b, w_mask b, w_outpx b, w_output_adr b, w_npx_out b, w_cut b, w_workspace b, w_cursors b, w_top b, w_top_out b, w_pipeline b]"

definition sparsify_checks :: "abi \<Rightarrow> front_infos \<Rightarrow> unit res" where
  "sparsify_checks ab b = ensure_all (buffer_formats ab b @ workspace_format ab b @ chunk_checks b @ pipeline_checks ab b)"

definition sparsify_impl :: "abi \<Rightarrow> front_infos \<Rightarrow> int \<Rightarrow> front_args res" where
  "sparsify_impl ab b dtype =
     rbind (sparsify_contiguity b) (\<lambda>_. rbind (sparsify_checks ab b) (\<lambda>_.
     rbind (int_arg (items (w_ptrs b))) (\<lambda>nframes. rbind (int_arg (items (w_mask b))) (\<lambda>NIJ.
     rbind (size_arg (items (w_cut b))) (\<lambda>ncut. rbind (size_arg (Inr (i_len (w_workspace b)))) (\<lambda>wlen.
     rbind (size_arg (items (w_top b))) (\<lambda>ntop. rbind (int_arg (Inr dtype)) (\<lambda>dt.
     Inr \<lparr>a_nframes = nframes, a_NIJ = NIJ, a_ncut = ncut, a_workspace_len = wlen, a_ntop = ntop, a_dtype = dt\<rparr>))))))))"

definition sparsify_fastcall :: "abi \<Rightarrow> front_infos \<Rightarrow> int \<Rightarrow> front_args res" where
  "sparsify_fastcall ab b dtype =
     rbind (c2py_check_no_overlap [w_cursors b, w_npx_out b, w_output_adr b, w_outpx b, w_top_out b, w_workspace b,
         w_lengths b, w_ptrs b, w_cut b, w_mask b, w_pipeline b, w_top b] 6) (\<lambda>_. sparsify_impl ab b dtype)"

section \<open>\<open>sparsify_and_dot\<close>\<close>

record dot_infos = front_infos +
  d_powder :: c2py_ptr_info
  d_data :: c2py_ptr_info
  d_indices :: c2py_ptr_info
  d_indptr :: c2py_ptr_info

record dot_args = front_args +
  a_nout :: int

definition dot_contiguity :: "dot_infos \<Rightarrow> unit res" where
  "dot_contiguity b =
     contig [w_ptrs b, w_lengths b, w_mask b, w_outpx b, w_output_adr b, w_npx_out b, w_cut b, d_powder b, d_data b, d_indices b, d_indptr b,
       w_workspace b, w_cursors b, w_top b, w_top_out b, w_pipeline b]"

definition dot_checks :: "abi \<Rightarrow> dot_infos \<Rightarrow> unit res" where
  "dot_checks ab b = ensure_all
     (buffer_formats ab b @
      [Inr (fmt_is ab (CHR ''d'') (d_powder b) \<or> (fmt_is ab (CHR ''q'') (d_powder b) \<or> fmt_long ab (CHR ''l'') (d_powder b)) \<and> i_itemsize (d_powder b) = 8
          \<or> i_itemsize (d_powder b) = 1 \<or> i_itemsize (d_powder b) = 2 \<or> i_itemsize (d_powder b) = 4 \<or> i_itemsize (d_powder b) = 8)] @
      workspace_format ab b @ chunk_checks b @
      [Inr (fmt_is ab (CHR ''f'') (d_data b) \<or> fmt_u32 ab (d_data b) \<or> fmt_is ab (CHR ''H'') (d_data b)),
       Inr (fmt_any32 ab (d_indices b)), Inr (fmt_any32 ab (d_indptr b)),
       or_else (cmp (=) (items (d_indices b)) (items (d_data b))) (cmp (=) (items (d_indices b)) (items (w_mask b))),
       cmp (=) (items (d_indptr b)) (ll_op c2py_add_ll (items (w_mask b)) (Inr 1))] @
      pipeline_checks ab b)"

definition sparsify_and_dot_impl :: "abi \<Rightarrow> dot_infos \<Rightarrow> int \<Rightarrow> int \<Rightarrow> dot_args res" where
  "sparsify_and_dot_impl ab b nout dtype =
     rbind (dot_contiguity b) (\<lambda>_. rbind (dot_checks ab b) (\<lambda>_.
     rbind (int_arg (items (w_ptrs b))) (\<lambda>nframes. rbind (int_arg (items (w_mask b))) (\<lambda>NIJ.
     rbind (size_arg (items (w_cut b))) (\<lambda>ncut. rbind (int_arg (Inr nout)) (\<lambda>no. rbind (size_arg (Inr (i_len (w_workspace b)))) (\<lambda>wlen.
     rbind (size_arg (items (w_top b))) (\<lambda>ntop. rbind (int_arg (Inr dtype)) (\<lambda>dt.
     Inr \<lparr>a_nframes = nframes, a_NIJ = NIJ, a_ncut = ncut, a_workspace_len = wlen, a_ntop = ntop, a_dtype = dt, a_nout = no\<rparr>)))))))))"

definition sparsify_and_dot_fastcall :: "abi \<Rightarrow> dot_infos \<Rightarrow> int \<Rightarrow> int \<Rightarrow> dot_args res" where
  "sparsify_and_dot_fastcall ab b nout dtype =
     rbind (c2py_check_no_overlap [w_cursors b, w_npx_out b, w_output_adr b, w_outpx b, d_powder b, w_top_out b, w_workspace b,
         w_lengths b, w_ptrs b, w_cut b, d_data b, d_indices b, d_indptr b, w_mask b, w_pipeline b, w_top b] 7)
       (\<lambda>_. sparsify_and_dot_impl ab b nout dtype)"

section \<open>\<open>sparsify_and_dot_padded\<close>\<close>

record padded_infos = front_infos +
  p_powder :: c2py_ptr_info
  p_base :: c2py_ptr_info
  p_weights :: c2py_ptr_info
  p_pixels :: c2py_ptr_info
  p_rowmap :: c2py_ptr_info
  p_row_ptr :: c2py_ptr_info

record padded_args = dot_args +
  a_nrow_ptr :: int
  a_width :: int
  a_listed :: int
  a_pad_elems :: int

definition padded_contiguity :: "padded_infos \<Rightarrow> unit res" where
  "padded_contiguity b =
     contig [w_ptrs b, w_lengths b, w_mask b, w_outpx b, w_output_adr b, w_npx_out b, w_cut b, p_powder b, p_base b, p_weights b, p_pixels b, p_rowmap b,
       p_row_ptr b, w_workspace b, w_cursors b, w_top b, w_top_out b, w_pipeline b]"

definition padded_checks :: "abi \<Rightarrow> padded_infos \<Rightarrow> int \<Rightarrow> int \<Rightarrow> int \<Rightarrow> unit res" where
  "padded_checks ab b width listed_flag block_elems = ensure_all
     (buffer_formats ab b @ [Inr (fmt_is ab (CHR ''d'') (p_powder b))] @ workspace_format ab b @ chunk_checks b @
      [Inr (fmt_i32 ab (p_base b)), Inr (fmt_is ab (CHR ''f'') (p_weights b)), Inr (fmt_i32 ab (p_pixels b)), Inr (fmt_i32 ab (p_rowmap b)),
       Inr (fmt_i32 ab (p_row_ptr b)), Inr (width \<ge> 1 \<and> width \<le> 64), Inr (listed_flag = 0 \<or> listed_flag = 1),
       cmp (=) (items (p_weights b)) (ll_op c2py_mul_ll (items (p_base b)) (Inr width)),
       or_else (Inr (listed_flag = 0)) (cmp (=) (items (p_pixels b)) (items (p_base b))),
       or_else (Inr (listed_flag = 0)) (cmp (=) (items (p_rowmap b)) (items (w_mask b))),
       or_else (Inr (listed_flag = 1)) (cmp (=) (items (p_base b)) (items (w_mask b))),
       Inr (block_elems \<ge> 1)] @
      pipeline_checks ab b)"

definition padded_impl :: "abi \<Rightarrow> padded_infos \<Rightarrow> int \<Rightarrow> int \<Rightarrow> int \<Rightarrow> int \<Rightarrow> int \<Rightarrow> padded_args res" where
  "padded_impl ab b width listed_flag block_elems nout dtype =
     rbind (padded_contiguity b) (\<lambda>_. rbind (padded_checks ab b width listed_flag block_elems) (\<lambda>_.
     rbind (int_arg (items (w_ptrs b))) (\<lambda>nframes. rbind (int_arg (items (w_mask b))) (\<lambda>NIJ.
     rbind (size_arg (items (w_cut b))) (\<lambda>ncut. rbind (int_arg (Inr nout)) (\<lambda>no.
     rbind (int_arg (items (p_row_ptr b))) (\<lambda>nrow. rbind (int_arg (Inr width)) (\<lambda>wd. rbind (int_arg (Inr listed_flag)) (\<lambda>lf.
     rbind (size_arg (Inr block_elems)) (\<lambda>be. rbind (size_arg (Inr (i_len (w_workspace b)))) (\<lambda>wlen.
     rbind (size_arg (items (w_top b))) (\<lambda>ntop. rbind (int_arg (Inr dtype)) (\<lambda>dt.
     Inr \<lparr>a_nframes = nframes, a_NIJ = NIJ, a_ncut = ncut, a_workspace_len = wlen, a_ntop = ntop, a_dtype = dt, a_nout = no,
       a_nrow_ptr = nrow, a_width = wd, a_listed = lf, a_pad_elems = be\<rparr>)))))))))))))"

definition padded_fastcall :: "abi \<Rightarrow> padded_infos \<Rightarrow> int \<Rightarrow> int \<Rightarrow> int \<Rightarrow> int \<Rightarrow> int \<Rightarrow> padded_args res" where
  "padded_fastcall ab b width listed_flag block_elems nout dtype =
     rbind (c2py_check_no_overlap [w_cursors b, w_npx_out b, w_output_adr b, w_outpx b, p_powder b, w_top_out b, w_workspace b,
         p_base b, w_lengths b, w_ptrs b, w_cut b, w_mask b, w_pipeline b, p_pixels b, p_row_ptr b, p_rowmap b, w_top b, p_weights b] 7)
       (\<lambda>_. padded_impl ab b width listed_flag block_elems nout dtype)"

section \<open>\<open>sparsify_and_dot_bsbcsr\<close>\<close>

record bsbcsr_infos = front_infos +
  b_powder :: c2py_ptr_info
  b_blk_ptr :: c2py_ptr_info
  b_bins :: c2py_ptr_info
  b_bin_ptr :: c2py_ptr_info
  b_idx :: c2py_ptr_info
  b_data :: c2py_ptr_info
  b_csc_data :: c2py_ptr_info
  b_csc_indices :: c2py_ptr_info
  b_csc_indptr :: c2py_ptr_info

record bsbcsr_args = dot_args +
  a_nblk_ptr :: int
  a_bsb_elems :: int

definition bsbcsr_contiguity :: "bsbcsr_infos \<Rightarrow> unit res" where
  "bsbcsr_contiguity b =
     contig [w_ptrs b, w_lengths b, w_mask b, w_outpx b, w_output_adr b, w_npx_out b, w_cut b, b_powder b, b_blk_ptr b, b_bins b, b_bin_ptr b, b_idx b,
       b_data b, b_csc_data b, b_csc_indices b, b_csc_indptr b, w_workspace b, w_cursors b, w_top b, w_top_out b, w_pipeline b]"

definition bsbcsr_checks :: "abi \<Rightarrow> bsbcsr_infos \<Rightarrow> int \<Rightarrow> unit res" where
  "bsbcsr_checks ab b block_elems = ensure_all
     (buffer_formats ab b @ [Inr (fmt_is ab (CHR ''d'') (b_powder b))] @ workspace_format ab b @ chunk_checks b @
      [Inr (fmt_u32 ab (b_blk_ptr b)), Inr (fmt_u32 ab (b_bins b)), Inr (fmt_u32 ab (b_bin_ptr b)), Inr (fmt_is ab (CHR ''H'') (b_idx b)),
       Inr (fmt_is ab (CHR ''f'') (b_data b)), Inr (fmt_is ab (CHR ''f'') (b_csc_data b)), Inr (fmt_any32 ab (b_csc_indices b)),
       Inr (fmt_any32 ab (b_csc_indptr b)),
       cmp (=) (items (b_bin_ptr b)) (ll_op c2py_add_ll (items (b_bins b)) (Inr 1)), cmp (=) (items (b_idx b)) (items (b_data b)),
       cmp (=) (items (b_csc_indices b)) (items (b_csc_data b)), cmp (=) (items (b_csc_indptr b)) (ll_op c2py_add_ll (items (w_mask b)) (Inr 1)),
       Inr (block_elems \<ge> 1 \<and> block_elems \<le> 65536)] @
      pipeline_checks ab b)"

definition bsbcsr_impl :: "abi \<Rightarrow> bsbcsr_infos \<Rightarrow> int \<Rightarrow> int \<Rightarrow> int \<Rightarrow> bsbcsr_args res" where
  "bsbcsr_impl ab b block_elems nout dtype =
     rbind (bsbcsr_contiguity b) (\<lambda>_. rbind (bsbcsr_checks ab b block_elems) (\<lambda>_.
     rbind (int_arg (items (w_ptrs b))) (\<lambda>nframes. rbind (int_arg (items (w_mask b))) (\<lambda>NIJ.
     rbind (size_arg (items (w_cut b))) (\<lambda>ncut. rbind (int_arg (Inr nout)) (\<lambda>no. rbind (int_arg (items (b_blk_ptr b))) (\<lambda>nblk.
     rbind (size_arg (Inr block_elems)) (\<lambda>be. rbind (size_arg (Inr (i_len (w_workspace b)))) (\<lambda>wlen.
     rbind (size_arg (items (w_top b))) (\<lambda>ntop. rbind (int_arg (Inr dtype)) (\<lambda>dt.
     Inr \<lparr>a_nframes = nframes, a_NIJ = NIJ, a_ncut = ncut, a_workspace_len = wlen, a_ntop = ntop, a_dtype = dt, a_nout = no,
       a_nblk_ptr = nblk, a_bsb_elems = be\<rparr>)))))))))))"

definition bsbcsr_fastcall :: "abi \<Rightarrow> bsbcsr_infos \<Rightarrow> int \<Rightarrow> int \<Rightarrow> int \<Rightarrow> bsbcsr_args res" where
  "bsbcsr_fastcall ab b block_elems nout dtype =
     rbind (c2py_check_no_overlap [w_cursors b, w_npx_out b, w_output_adr b, w_outpx b, b_powder b, w_top_out b, w_workspace b,
         b_bin_ptr b, b_bins b, b_blk_ptr b, w_lengths b, w_ptrs b, b_csc_data b, b_csc_indices b, b_csc_indptr b, w_cut b, b_data b, b_idx b,
         w_mask b, w_pipeline b, w_top b] 7)
       (\<lambda>_. bsbcsr_impl ab b block_elems nout dtype)"

section \<open>What an accepted call satisfies\<close>

lemma ensure_all_iff: "ensure_all cs = Inr () \<longleftrightarrow> (\<forall>c\<in>set cs. c = Inr True)"
  unfolding ensure_all_def fold_unit by (auto simp: ensure_def rbind_Inr_iff split: if_splits)

lemma cmp_True: "cmp R a b = Inr True \<longleftrightarrow> (\<exists>x y. a = Inr x \<and> b = Inr y \<and> R x y)"
  by (cases a; cases b) (simp_all add: cmp_def)

lemma or_else_True: "or_else a b = Inr True \<longleftrightarrow> a = Inr True \<or> a = Inr False \<and> b = Inr True"
  by (cases a) (simp_all add: or_else_def)

lemma mul_ll_value: "c2py_mul_ll a b = Some c \<Longrightarrow> c = a * b"
  by (auto simp: c2py_mul_ll_def split: if_splits)

lemma add_ll_value: "c2py_add_ll a b = Some c \<Longrightarrow> c = a + b"
  by (auto simp: c2py_add_ll_def split: if_splits)

lemma ll_op_Inr: "ll_op f a b = Inr z \<longleftrightarrow> (\<exists>x y. a = Inr x \<and> b = Inr y \<and> f x y = Some z)"
  by (cases a; cases b) (auto simp: ll_op_def split: option.splits)

lemma int_arg_Inr: "int_arg x = Inr n \<longleftrightarrow> x = Inr n \<and> INT_MIN \<le> n \<and> n \<le> INT_MAX"
  by (cases x) (auto simp: int_arg_def)

lemma size_arg_Inr: "size_arg x = Inr n \<longleftrightarrow> x = Inr n \<and> 0 \<le> n \<and> n < 2 ^ 64"
  by (cases x) (auto simp: size_arg_def take_bit_int_eq_self_iff)

lemmas accept_simps = ensure_all_iff cmp_True or_else_True ll_op_Inr int_arg_Inr size_arg_Inr rbind_Inr_iff

text \<open>The arrays the C function gets have the sizes its arguments tell, and the item sizes it reads them with.\<close>

definition front_sized :: "'a front_infos_scheme \<Rightarrow> 'b front_args_scheme \<Rightarrow> bool" where
  "front_sized b a \<longleftrightarrow>
     items (w_ptrs b) = Inr (a_nframes a) \<and> items (w_lengths b) = Inr (a_nframes a) \<and> i_itemsize (w_ptrs b) = 8 \<and> i_itemsize (w_lengths b) = 4
     \<and> items (w_mask b) = Inr (a_NIJ a) \<and> items (w_cut b) = Inr (a_ncut a) \<and> i_len (w_workspace b) = a_workspace_len a
     \<and> items (w_top b) = Inr (a_ntop a) \<and> i_itemsize (w_top b) = 8 \<and> i_itemsize (w_top_out b) = 4 \<and> i_itemsize (w_cursors b) = 8
     \<and> (a_ntop a \<noteq> 0 \<longrightarrow> (\<exists>n. items (w_top_out b) = Inr n \<and> 2 * a_nframes a \<le> n)) \<and> items (w_pipeline b) = Inr 6
     \<and> a_nframes a \<le> INT_MAX \<and> a_NIJ a \<le> INT_MAX \<and> 0 \<le> a_ncut a \<and> 0 \<le> a_workspace_len a \<and> 0 \<le> a_ntop a \<and> INT_MIN \<le> a_dtype a \<and> a_dtype a \<le> INT_MAX"

lemma chunk_checks_sized:
  assumes "\<forall>c\<in>set (chunk_checks b). c = Inr True" "items (w_ptrs b) = Inr n" "items (w_top b) = Inr t"
  shows "items (w_lengths b) = Inr n" "i_itemsize (w_ptrs b) = 8" "i_itemsize (w_lengths b) = 4" "i_itemsize (w_top b) = 8" "i_itemsize (w_top_out b) = 4"
    "i_itemsize (w_cursors b) = 8" "t \<noteq> 0 \<Longrightarrow> \<exists>m. items (w_top_out b) = Inr m \<and> 2 * n \<le> m"
  using assms by (auto simp: chunk_checks_def accept_simps dest!: mul_ll_value)

lemma pipeline_checks_sized: "\<forall>c\<in>set (pipeline_checks ab b). c = Inr True \<Longrightarrow> items (w_pipeline b) = Inr 6"
  by (auto simp: pipeline_checks_def accept_simps)

lemma sparsify_sized:
  assumes "sparsify_impl ab b dtype = Inr a"
  shows "front_sized b a" "a_dtype a = dtype"
proof -
  obtain nframes NIJ ncut wlen ntop where
    c: "sparsify_checks ab b = Inr ()" and r: "int_arg (items (w_ptrs b)) = Inr nframes" "int_arg (items (w_mask b)) = Inr NIJ"
      "size_arg (items (w_cut b)) = Inr ncut" "size_arg (Inr (i_len (w_workspace b))) = Inr wlen" "size_arg (items (w_top b)) = Inr ntop"
      "int_arg (Inr dtype) = Inr dtype"
    and a: "a = \<lparr>a_nframes = nframes, a_NIJ = NIJ, a_ncut = ncut, a_workspace_len = wlen, a_ntop = ntop, a_dtype = dtype\<rparr>"
    using assms unfolding sparsify_impl_def by (auto simp: rbind_Inr_iff int_arg_Inr)
  have k: "\<forall>c\<in>set (chunk_checks b). c = Inr True" "\<forall>c\<in>set (pipeline_checks ab b). c = Inr True" using c unfolding sparsify_checks_def ensure_all_iff by auto
  note v = r[unfolded int_arg_Inr size_arg_Inr]
  from chunk_checks_sized[OF k(1)] pipeline_checks_sized[OF k(2)] v show "front_sized b a" "a_dtype a = dtype" by (simp_all add: front_sized_def a)
qed

lemma dot_sized:
  assumes "sparsify_and_dot_impl ab b nout dtype = Inr a"
  shows "front_sized b a" "a_dtype a = dtype" "a_nout a = nout"
    and "items (d_indptr b) = Inr (a_NIJ a + 1)" "i_itemsize (d_indptr b) = 4" "i_itemsize (d_indices b) = 4"
    and "items (d_indices b) = items (d_data b) \<or> items (d_indices b) = Inr (a_NIJ a)"
proof -
  obtain nframes NIJ ncut wlen ntop where
    c: "dot_checks ab b = Inr ()" and r: "int_arg (items (w_ptrs b)) = Inr nframes" "int_arg (items (w_mask b)) = Inr NIJ"
      "size_arg (items (w_cut b)) = Inr ncut" "size_arg (Inr (i_len (w_workspace b))) = Inr wlen" "size_arg (items (w_top b)) = Inr ntop"
      "int_arg (Inr dtype) = Inr dtype"
    and a: "a = \<lparr>a_nframes = nframes, a_NIJ = NIJ, a_ncut = ncut, a_workspace_len = wlen, a_ntop = ntop, a_dtype = dtype, a_nout = nout\<rparr>"
    using assms unfolding sparsify_and_dot_impl_def by (auto simp: rbind_Inr_iff int_arg_Inr)
  have k: "\<forall>c\<in>set (chunk_checks b). c = Inr True" "\<forall>c\<in>set (pipeline_checks ab b). c = Inr True"
    "fmt_any32 ab (d_indices b)" "fmt_any32 ab (d_indptr b)"
    "or_else (cmp (=) (items (d_indices b)) (items (d_data b))) (cmp (=) (items (d_indices b)) (items (w_mask b))) = Inr True"
    "cmp (=) (items (d_indptr b)) (ll_op c2py_add_ll (items (w_mask b)) (Inr 1)) = Inr True"
    using c unfolding dot_checks_def ensure_all_iff by auto
  note v = r[unfolded int_arg_Inr size_arg_Inr]
  from chunk_checks_sized[OF k(1)] pipeline_checks_sized[OF k(2)] v show "front_sized b a" "a_dtype a = dtype" "a_nout a = nout" by (simp_all add: front_sized_def a)
  show "i_itemsize (d_indptr b) = 4" "i_itemsize (d_indices b) = 4" using k(3,4) by (simp_all add: fmt_any32_def)
  show "items (d_indptr b) = Inr (a_NIJ a + 1)" using k(6) v(2) by (auto simp: a cmp_True ll_op_Inr dest!: add_ll_value)
  show "items (d_indices b) = items (d_data b) \<or> items (d_indices b) = Inr (a_NIJ a)" using k(5) v(2) by (auto simp: a or_else_True cmp_True)
qed

text \<open>The buffers of a \<open>sparsify_and_dot\<close> call, the written ones first.\<close>

definition dot_buffers :: "dot_infos \<Rightarrow> c2py_ptr_info list" where
  "dot_buffers b = [w_cursors b, w_npx_out b, w_output_adr b, w_outpx b, d_powder b, w_top_out b, w_workspace b,
     w_lengths b, w_ptrs b, w_cut b, d_data b, d_indices b, d_indptr b, w_mask b, w_pipeline b, w_top b]"

lemma dot_wrapper_facts:
  assumes "sparsify_and_dot_fastcall ab b nout dtype = Inr a"
    and "\<forall>i\<in>set (dot_buffers b). 0 \<le> i_len i \<and> uint (i_ptr i) + i_len i < 2 ^ 64"
  shows "front_sized b a" "a_dtype a = dtype" "a_nout a = nout"
    and "items (d_indptr b) = Inr (a_NIJ a + 1)" "i_itemsize (d_indptr b) = 4" "i_itemsize (d_indices b) = 4"
    and "items (d_indices b) = items (d_data b) \<or> items (d_indices b) = Inr (a_NIJ a)"
    and "\<forall>m<7. \<forall>n<16. m \<noteq> n \<longrightarrow> span_of (dot_buffers b ! m) \<inter> span_of (dot_buffers b ! n) = {}"
proof -
  have c: "c2py_check_no_overlap (dot_buffers b) 7 = Inr ()" "sparsify_and_dot_impl ab b nout dtype = Inr a"
    using assms(1) by (auto simp: sparsify_and_dot_fastcall_def dot_buffers_def rbind_Inr_iff)
  note s = dot_sized[OF c(2)]
  show "front_sized b a" "a_dtype a = dtype" "a_nout a = nout" "items (d_indptr b) = Inr (a_NIJ a + 1)" "i_itemsize (d_indptr b) = 4" "i_itemsize (d_indices b) = 4"
    "items (d_indices b) = items (d_data b) \<or> items (d_indices b) = Inr (a_NIJ a)" by (rule s)+
  have l: "length (dot_buffers b) = 16" by (simp add: dot_buffers_def)
  show "\<forall>m<7. \<forall>n<16. m \<noteq> n \<longrightarrow> span_of (dot_buffers b ! m) \<inter> span_of (dot_buffers b ! n) = {}"
    using no_overlap_separate[OF c(1) _ assms(2)] l by auto
qed


section \<open>Samples\<close>

text \<open>An array of \<open>n\<close> items in one dimension.\<close>

definition arr :: "64 word \<Rightarrow> int \<Rightarrow> int \<Rightarrow> string \<Rightarrow> c2py_ptr_info" where
  "arr addr isize n fmt = \<lparr>i_ptr = addr, i_len = isize * n, i_itemsize = isize, i_ndim = 1, i_format = Some fmt, i_shape = [n], i_strides = Some [isize]\<rparr>"

text \<open>One chunk of 8 pixels of u16 and a matrix of 8 entries, on a machine of 8-byte \<open>long\<close>.\<close>

definition lp64 :: abi where
  "lp64 = \<lparr>sizeof_long = 8, big_endian = False\<rparr>"

definition sample_front :: front_infos where
  "sample_front = \<lparr>w_ptrs = arr 1000 8 1 ''l'', w_lengths = arr 2000 4 1 ''i'', w_mask = arr 3000 1 8 ''B'', w_outpx = arr 4000 2 8 ''H'',
     w_output_adr = arr 5000 4 8 ''I'', w_npx_out = arr 6000 4 1 ''i'', w_cut = arr 7000 2 1 ''H'', w_workspace = arr 8000 1 64 ''B'',
     w_cursors = arr 9000 8 1 ''l'', w_top = arr 10000 8 2 ''l'', w_top_out = arr 11000 4 2 ''i'', w_pipeline = arr 12000 2 6 ''H''\<rparr>"

definition sample_dot :: dot_infos where
  "sample_dot = front_infos.extend sample_front
     \<lparr>d_powder = arr 13000 8 4 ''d'', d_data = arr 14000 4 8 ''f'', d_indices = arr 15000 4 8 ''I'', d_indptr = arr 16000 4 9 ''I''\<rparr>"


section \<open>What the checks let through\<close>

text \<open>
  \<open>output_adr\<close> and \<open>npx_out\<close> of 8-byte items, and a \<open>cursors\<close> of none: the format \<open>L\<close> or \<open>l\<close> is enough, the item size is not asked for as it is of the other arrays,
  nor is the number of the cursors. The C function takes 4-byte addresses and counts, and a cursor of each frame.
\<close>

definition wide_front :: front_infos where
  "wide_front = sample_front\<lparr>w_output_adr := arr 5000 8 8 ''L'', w_npx_out := arr 6000 8 1 ''l'', w_cursors := arr 9000 8 0 ''l''\<rparr>"

lemma wide_outputs_accepted:
  "\<exists>a. sparsify_fastcall lp64 wide_front 2 = Inr a \<and> a_nframes a = 1 \<and> i_itemsize (w_output_adr wide_front) = 8 \<and> i_itemsize (w_npx_out wide_front) = 8
    \<and> items (w_cursors wide_front) = Inr 0"
proof -
  have "sparsify_fastcall lp64 wide_front 2 = Inr \<lparr>a_nframes = 1, a_NIJ = 8, a_ncut = 1, a_workspace_len = 64, a_ntop = 2, a_dtype = 2\<rparr>" by code_simp
  moreover have "i_itemsize (w_output_adr wide_front) = 8 \<and> i_itemsize (w_npx_out wide_front) = 8 \<and> items (w_cursors wide_front) = Inr 0" by code_simp
  ultimately show ?thesis by simp
qed

end
