(* ===== verification/WrapperTools.thy ===== *)
theory WrapperTools
  imports Wrapper Entry
begin

text \<open>
  The entry points of \<open>src/src/bslz4_to_sparse_wrapper.c\<close> beside the decoding ones. \<open>decompress\<close> and \<open>block_starts\<close> give the arguments as a record; the
  others end in the model of the C function, which gets the contents of the buffers as lists.
\<close>

section \<open>\<open>decompress\<close> and \<open>block_starts\<close>\<close>

record decompress_args =
  t_nframes :: int
  t_out_len :: int
  t_workspace_len :: int
  t_elem_size :: int
  t_decode :: int
  t_untranspose :: int
  t_unshuffle :: int

definition decompress_checks :: "abi \<Rightarrow> c2py_ptr_info \<Rightarrow> c2py_ptr_info \<Rightarrow> c2py_ptr_info \<Rightarrow> c2py_ptr_info \<Rightarrow> unit res" where
  "decompress_checks ab ptrs lengths out workspace = ensure_all
     [Inr (fmt_is ab (CHR ''B'') out), Inr (fmt_is ab (CHR ''B'') workspace), Inr (i_itemsize ptrs = 8), Inr (i_itemsize lengths = 4),
      cmp (=) (items lengths) (items ptrs)]"

definition decompress_impl :: "abi \<Rightarrow> c2py_ptr_info \<Rightarrow> c2py_ptr_info \<Rightarrow> c2py_ptr_info \<Rightarrow> c2py_ptr_info \<Rightarrow> int \<Rightarrow> int \<Rightarrow> int \<Rightarrow> int \<Rightarrow> decompress_args res" where
  "decompress_impl ab ptrs lengths out workspace elem_size decode_v untranspose_v unshuffle =
     rbind (contig [ptrs, lengths, out, workspace]) (\<lambda>_. rbind (decompress_checks ab ptrs lengths out workspace) (\<lambda>_.
     rbind (int_arg (items ptrs)) (\<lambda>nframes. rbind (size_arg (Inr (i_len out))) (\<lambda>olen. rbind (size_arg (Inr (i_len workspace))) (\<lambda>wlen.
     rbind (int_arg (Inr elem_size)) (\<lambda>es. rbind (int_arg (Inr decode_v)) (\<lambda>dv. rbind (int_arg (Inr untranspose_v)) (\<lambda>uv.
     rbind (int_arg (Inr unshuffle)) (\<lambda>us.
     Inr \<lparr>t_nframes = nframes, t_out_len = olen, t_workspace_len = wlen, t_elem_size = es, t_decode = dv, t_untranspose = uv, t_unshuffle = us\<rparr>)))))))))"

definition decompress_fastcall :: "abi \<Rightarrow> c2py_ptr_info \<Rightarrow> c2py_ptr_info \<Rightarrow> c2py_ptr_info \<Rightarrow> c2py_ptr_info \<Rightarrow> int \<Rightarrow> int \<Rightarrow> int \<Rightarrow> int \<Rightarrow> decompress_args res" where
  "decompress_fastcall ab ptrs lengths out workspace elem_size decode_v untranspose_v unshuffle =
     rbind (c2py_check_no_overlap [out, workspace, lengths, ptrs] 2)
       (\<lambda>_. decompress_impl ab ptrs lengths out workspace elem_size decode_v untranspose_v unshuffle)"

record starts_args =
  s_nframes :: int
  s_elem_size :: int
  s_nstarts :: int

definition block_starts_checks :: "c2py_ptr_info \<Rightarrow> c2py_ptr_info \<Rightarrow> c2py_ptr_info \<Rightarrow> c2py_ptr_info \<Rightarrow> c2py_ptr_info \<Rightarrow> unit res" where
  "block_starts_checks ptrs lengths starts status nblocks = ensure_all
     [Inr (i_itemsize starts = 4), Inr (i_itemsize status = 4), Inr (i_itemsize nblocks = 8), cmp (\<ge>) (items nblocks) (Inr 1),
      Inr (i_itemsize ptrs = 8), Inr (i_itemsize lengths = 4), cmp (=) (items lengths) (items ptrs), cmp (\<ge>) (items status) (items ptrs)]"

definition block_starts_impl :: "c2py_ptr_info \<Rightarrow> c2py_ptr_info \<Rightarrow> c2py_ptr_info \<Rightarrow> c2py_ptr_info \<Rightarrow> c2py_ptr_info \<Rightarrow> int \<Rightarrow> starts_args res" where
  "block_starts_impl ptrs lengths starts status nblocks elem_size =
     rbind (contig [ptrs, lengths, starts, status, nblocks]) (\<lambda>_. rbind (block_starts_checks ptrs lengths starts status nblocks) (\<lambda>_.
     rbind (int_arg (items ptrs)) (\<lambda>nframes. rbind (int_arg (Inr elem_size)) (\<lambda>es. rbind (size_arg (items starts)) (\<lambda>nstarts.
     Inr \<lparr>s_nframes = nframes, s_elem_size = es, s_nstarts = nstarts\<rparr>)))))"

definition block_starts_fastcall :: "c2py_ptr_info \<Rightarrow> c2py_ptr_info \<Rightarrow> c2py_ptr_info \<Rightarrow> c2py_ptr_info \<Rightarrow> c2py_ptr_info \<Rightarrow> int \<Rightarrow> starts_args res" where
  "block_starts_fastcall ptrs lengths starts status nblocks elem_size =
     rbind (c2py_check_no_overlap [nblocks, starts, status, lengths, ptrs] 3) (\<lambda>_. block_starts_impl ptrs lengths starts status nblocks elem_size)"

section \<open>Addresses\<close>

definition offsets_checks :: "c2py_ptr_info \<Rightarrow> c2py_ptr_info \<Rightarrow> unit res" where
  "offsets_checks io il = ensure_all [Inr (i_itemsize io = 8), Inr (i_itemsize il = 4), cmp (=) (items il) (items io)]"

definition offsets_to_pointers_impl :: "c2py_ptr_info \<Rightarrow> c2py_ptr_info \<Rightarrow> c2py_ptr_info \<Rightarrow> int list \<Rightarrow> int list \<Rightarrow> (int \<times> int list) res" where
  "offsets_to_pointers_impl ib io il offsets lengths =
     rbind (contig [ib, io, il]) (\<lambda>_. rbind (offsets_checks io il) (\<lambda>_.
     rbind (size_arg (Inr (i_len ib))) (\<lambda>base_len. rbind (int_arg (items io)) (\<lambda>nframes.
     bslz4_offsets_to_pointers (uint (i_ptr ib)) (nat base_len) offsets lengths (nat nframes)))))"

definition offsets_to_pointers_fastcall :: "c2py_ptr_info \<Rightarrow> c2py_ptr_info \<Rightarrow> c2py_ptr_info \<Rightarrow> int list \<Rightarrow> int list \<Rightarrow> (int \<times> int list) res" where
  "offsets_to_pointers_fastcall ib io il offsets lengths =
     rbind (c2py_check_no_overlap [io, ib, il] 1) (\<lambda>_. offsets_to_pointers_impl ib io il offsets lengths)"

definition note_chunk_impl :: "c2py_ptr_info \<Rightarrow> c2py_ptr_info \<Rightarrow> c2py_ptr_info \<Rightarrow> int \<Rightarrow> int list \<Rightarrow> int list \<Rightarrow> (int list \<times> int list) res" where
  "note_chunk_impl ic ip il index pointers lengths =
     rbind (contig [ic, ip, il]) (\<lambda>_. rbind (size_arg (Inr (i_len ic))) (\<lambda>chunk_len. rbind (int_arg (Inr index)) (\<lambda>index.
     bslz4_note_chunk (sint (i_ptr ic)) (nat chunk_len) index pointers lengths)))"

definition note_chunk_fastcall :: "c2py_ptr_info \<Rightarrow> c2py_ptr_info \<Rightarrow> c2py_ptr_info \<Rightarrow> int \<Rightarrow> int list \<Rightarrow> int list \<Rightarrow> (int list \<times> int list) res" where
  "note_chunk_fastcall ic ip il index pointers lengths =
     rbind (c2py_check_no_overlap [il, ip, ic] 2) (\<lambda>_. note_chunk_impl ic ip il index pointers lengths)"

section \<open>Steps, counters and the build\<close>

definition step_available_impl :: "host \<Rightarrow> int \<Rightarrow> int \<Rightarrow> int res" where
  "step_available_impl h step v = rbind (int_arg (Inr step)) (\<lambda>s. rbind (int_arg (Inr v)) (\<lambda>v. Inr (bslz4_step_available h s v)))"

definition reset_counters_impl :: "counters \<Rightarrow> counters res" where
  "reset_counters_impl c = Inr (bslz4_reset_counters c)"

definition set_counters_impl :: "int \<Rightarrow> counters \<Rightarrow> counters res" where
  "set_counters_impl on c = rbind (int_arg (Inr on)) (\<lambda>on. Inr (bslz4_set_counters on c))"

text \<open>The contents of the buffer are a list of words.\<close>

definition read_counters_impl :: "counters \<Rightarrow> c2py_ptr_info \<Rightarrow> 64 word list \<Rightarrow> (64 word list \<times> nat) res" where
  "read_counters_impl c io out =
     rbind (contig [io]) (\<lambda>_. rbind (int_arg (items io)) (\<lambda>n. bslz4_read_counters c out (nat n)))"

text \<open>The length \<open>bslz4_build_info\<close> gets; the function is in a file the build writes.\<close>

definition build_info_impl :: "abi \<Rightarrow> c2py_ptr_info \<Rightarrow> int res" where
  "build_info_impl ab io =
     rbind (contig [io]) (\<lambda>_. rbind (ensure_all [Inr (fmt_is ab (CHR ''B'') io)]) (\<lambda>_. int_arg (Inr (i_len io))))"

section \<open>Offsets that come from Python\<close>

lemma offsets_wrapper_facts:
  assumes "offsets_to_pointers_fastcall ib io il offsets lengths = Inr (rc, out)"
    and "items io = Inr (int (length offsets))" "items il = Inr (int (length lengths))"
    and "\<forall>i\<in>{ib, io, il}. 0 \<le> i_len i \<and> uint (i_ptr i) + i_len i < 2 ^ 63"
  shows "span_of io \<inter> span_of ib = {}" "span_of io \<inter> span_of il = {}"
    and "rc = 0 \<and> length out = length offsets \<and> (\<forall>f<length out. {out ! f..<out ! f + lengths ! f} \<subseteq> span_of ib)
      \<or> rc = BSLZ4_ERR_BAD_CHUNK_BOUNDS \<and> out = offsets"
proof -
  have c: "c2py_check_no_overlap [io, ib, il] 1 = Inr ()" "offsets_checks io il = Inr ()"
    and v: "bslz4_offsets_to_pointers (uint (i_ptr ib)) (nat (i_len ib)) offsets lengths (length offsets) = Inr (rc, out)"
    using assms(1,2) by (auto simp: offsets_to_pointers_fastcall_def offsets_to_pointers_impl_def rbind_Inr_iff int_arg_Inr size_arg_Inr)
  have r: "\<forall>i\<in>set [io, ib, il]. 0 \<le> i_len i \<and> uint (i_ptr i) + i_len i < 2 ^ 64" using assms(4) by force
  show "span_of io \<inter> span_of ib = {}" using no_overlap_separate[OF c(1) _ r, of 0 1] by simp
  show "span_of io \<inter> span_of il = {}" using no_overlap_separate[OF c(1) _ r, of 0 2] by simp
  have l: "length lengths = length offsets" using c(2) assms(2,3) by (auto simp: offsets_checks_def accept_simps)
  have b: "0 \<le> uint (i_ptr ib)" "uint (i_ptr ib) + int (nat (i_len ib)) < 2 ^ 63" "int (nat (i_len ib)) = i_len ib" using assms(4) by simp_all
  show "rc = 0 \<and> length out = length offsets \<and> (\<forall>f<length out. {out ! f..<out ! f + lengths ! f} \<subseteq> span_of ib)
      \<or> rc = BSLZ4_ERR_BAD_CHUNK_BOUNDS \<and> out = offsets"
    using v[unfolded offsets_value[OF l b(1,2)]] unfolding b(3) by (fastforce simp: span_of_def split: if_splits)
qed

text \<open>
  C14: an \<open>offsets_to_pointers\<close> call the wrapper accepts writes to no byte of \<open>base\<close> or of the lengths, and either gives 0 and addresses whose chunks lie in the bytes
  of \<open>base\<close>, or gives the error and leaves the offsets as they were. The lists are the contents of the two arrays; no buffer reaches the upper half of the
  address space.
\<close>

theorem offsets_wrapper_inside:
  assumes "offsets_to_pointers_fastcall ib io il offsets lengths = Inr (rc, out)"
    and "items io = Inr (int (length offsets))" "items il = Inr (int (length lengths))"
    and "\<forall>i\<in>{ib, io, il}. 0 \<le> i_len i \<and> uint (i_ptr i) + i_len i < 2 ^ 63"
  shows "span_of io \<inter> span_of ib = {} \<and> span_of io \<inter> span_of il = {}
    \<and> (rc = 0 \<and> length out = length offsets \<and> (\<forall>f<length out. {out ! f..<out ! f + lengths ! f} \<subseteq> span_of ib)
      \<or> rc = BSLZ4_ERR_BAD_CHUNK_BOUNDS \<and> out = offsets)"
  by (intro conjI offsets_wrapper_facts[OF assms])

text \<open>A base of 100 bytes with two chunks, and with one that leaves it.\<close>

theorem offsets_wrapper_inside_witness:
  "{4096..<4136} \<subseteq> span_of (arr 4096 1 100 ''B'') \<and> span_of (arr 8192 8 2 ''q'') \<inter> span_of (arr 4096 1 100 ''B'') = {}"
proof -
  have c: "offsets_to_pointers_fastcall (arr 4096 1 100 ''B'') (arr 8192 8 2 ''q'') (arr 9000 4 2 ''i'') [0, 40] [40, 60] = Inr (0, [4096, 4136])" by code_simp
  have i: "items (arr 8192 8 2 ''q'') = Inr (int (length [0, 40 :: int]))" "items (arr 9000 4 2 ''i'') = Inr (int (length [40, 60 :: int]))" by code_simp+
  have r: "\<forall>i\<in>{arr 4096 1 100 ''B'', arr 8192 8 2 ''q'', arr 9000 4 2 ''i''}. 0 \<le> i_len i \<and> uint (i_ptr i) + i_len i < 2 ^ 63" by (simp add: arr_def)
  note o = offsets_wrapper_inside[OF c i r]
  have "\<forall>f<length [4096, 4136 :: int]. {[4096, 4136] ! f..<[4096, 4136] ! f + [40, 60] ! f} \<subseteq> span_of (arr 4096 1 100 ''B'')"
    using o[THEN conjunct2, THEN conjunct2] by (simp only: BSLZ4_ERR_BAD_CHUNK_BOUNDS_def) simp
  from this[rule_format, of 0] o[THEN conjunct1] show ?thesis by simp
qed

text \<open>An index \<open>note_chunk\<close> is given is not compared with the arrays it writes to.\<close>

lemma note_chunk_index_unchecked:
  "note_chunk_fastcall (arr 4096 1 100 ''B'') (arr 8192 8 2 ''q'') (arr 9000 4 2 ''i'') 2 [0, 0] [0, 0] = Inl Fault"
  by code_simp

end
