(* ===== verification/CudaShuffle.thy ===== *)
theory CudaShuffle
  imports Bitplanes
begin

text \<open>
  \<open>src/src/cuda/shuffle_warp.cuh\<close>: a warp turns the bit planes of an 8 kB block into pixels. Its 32 lanes run the stretch of code between two barriers one
  after the other, in the order \<open>ord\<close> - any order that names each lane once - and each lane has registers of its own. The shared buffer \<open>dec\<close> and the frame
  \<open>out\<close> are lists of 32-bit words.
\<close>

section \<open>A 32 x 32 transpose in registers\<close>

definition transpose_pair :: "32 word \<Rightarrow> nat \<Rightarrow> nat \<Rightarrow> 32 word list \<Rightarrow> 32 word list" where
  "transpose_pair m j k a =
     (if k AND j \<noteq> 0 then a
      else let t = (drop_bit j (a ! k) XOR a ! (k + j)) AND m;
               a = a[k + j := a ! (k + j) XOR t]
           in a[k := a ! k XOR push_bit j t])"

definition transpose_stage :: "nat \<Rightarrow> 32 word \<times> 32 word list \<Rightarrow> 32 word \<times> 32 word list" where
  "transpose_stage j s = (case s of (m, a) \<Rightarrow> (m XOR push_bit (j div 2) m, fold (transpose_pair m j) [0..<32] a))"

definition transpose32 :: "32 word list \<Rightarrow> 32 word list" where
  "transpose32 a = snd (fold transpose_stage [16, 8, 4, 2, 1] (0x0000FFFF, a))"

section \<open>Staging in shared memory\<close>

text \<open>The place of the \<open>n\<close>-th 16-byte vector.\<close>

definition swizzle :: "nat \<Rightarrow> nat" where
  "swizzle n = n XOR (n div 8 AND 7)"

definition sst4 :: "32 word list \<Rightarrow> nat \<Rightarrow> 32 word list \<Rightarrow> 32 word list res" where
  "sst4 dec n v = store_n dec (4 * swizzle n) v"

text \<open>One lane copies the vectors \<open>i * 32 + lane\<close>.\<close>

definition flush_lane :: "32 word list \<Rightarrow> nat \<Rightarrow> 32 word list \<Rightarrow> 32 word list res" where
  "flush_lane dec lane out =
     fold_res (\<lambda>i out. let n = i * 32 + lane in rbind (load_n dec (4 * swizzle n) 4) (\<lambda>v. store_n out (4 * n) v)) [0..<16] out"

definition flush :: "nat list \<Rightarrow> 32 word list \<Rightarrow> 32 word list \<Rightarrow> 32 word list res" where
  "flush ord dec out = fold_res (flush_lane dec) ord out"

section \<open>The three pixel sizes\<close>

text \<open>The registers of a lane, \<open>a[2][32]\<close>.\<close>

fun load_all :: "32 word list \<Rightarrow> nat list \<Rightarrow> 32 word list res" where
  "load_all dec [] = Inr []"
| "load_all dec (i # is) = rbind (load dec i) (\<lambda>x. rbind (load_all dec is) (\<lambda>xs. Inr (x # xs)))"

definition shuf32_places :: "nat \<Rightarrow> nat \<Rightarrow> nat list" where
  "shuf32_places lane q = map (\<lambda>k. k * 64 + lane + 32 * q) [0..<32]"

definition shuf16_places :: "nat \<Rightarrow> nat \<Rightarrow> nat list" where
  "shuf16_places lane p = map (\<lambda>k. k * 128 + lane + 64 * p) [0..<16] @ map (\<lambda>k. k * 128 + lane + 64 * p + 32) [0..<16]"

definition shuf8_places :: "nat \<Rightarrow> nat \<Rightarrow> nat list" where
  "shuf8_places lane p = concat (map (\<lambda>s. map (\<lambda>k. k * 256 + lane + 128 * p + 32 * s) [0..<8]) [0..<4])"

text \<open>The stores of a lane for one register block \<open>a\<close> after the transpose.\<close>

definition shuf32_store :: "nat \<Rightarrow> nat \<Rightarrow> 32 word list \<Rightarrow> 32 word list \<Rightarrow> 32 word list res" where
  "shuf32_store lane q a dec =
     (let g = lane + 32 * q in
      fold_res (\<lambda>i dec. sst4 dec (g * 8 + i) [a ! (4 * i), a ! (4 * i + 1), a ! (4 * i + 2), a ! (4 * i + 3)]) [0..<8] dec)"

definition shuf16_lo :: "32 word list \<Rightarrow> nat \<Rightarrow> 32 word" where
  "shuf16_lo a k = (a ! (2 * k) AND 0xFFFF) OR push_bit 16 (a ! (2 * k + 1))"

definition shuf16_hi :: "32 word list \<Rightarrow> nat \<Rightarrow> 32 word" where
  "shuf16_hi a k = drop_bit 16 (a ! (2 * k)) OR (a ! (2 * k + 1) AND 0xFFFF0000)"

definition shuf16_store :: "nat \<Rightarrow> nat \<Rightarrow> 32 word list \<Rightarrow> 32 word list \<Rightarrow> 32 word list res" where
  "shuf16_store lane p a dec =
     (let ga = lane + 64 * p; gb = ga + 32 in
      fold_res (\<lambda>i dec. rbind (sst4 dec (ga * 4 + i) (map (\<lambda>m. shuf16_lo a (4 * i + m)) [0..<4]))
        (\<lambda>dec. sst4 dec (gb * 4 + i) (map (\<lambda>m. shuf16_hi a (4 * i + m)) [0..<4]))) [0..<4] dec)"

definition shuf8_word :: "32 word list \<Rightarrow> nat \<Rightarrow> nat \<Rightarrow> 32 word" where
  "shuf8_word a s m =
     (drop_bit (8 * s) (a ! (4 * m)) AND 0xFF) OR push_bit 8 (drop_bit (8 * s) (a ! (4 * m + 1)) AND 0xFF)
       OR push_bit 16 (drop_bit (8 * s) (a ! (4 * m + 2)) AND 0xFF) OR push_bit 24 (drop_bit (8 * s) (a ! (4 * m + 3)) AND 0xFF)"

definition shuf8_store :: "nat \<Rightarrow> nat \<Rightarrow> 32 word list \<Rightarrow> 32 word list \<Rightarrow> 32 word list res" where
  "shuf8_store lane p a dec =
     fold_res (\<lambda>s dec. let g = lane + 128 * p + 32 * s in
       rbind (sst4 dec (g * 2) (map (shuf8_word a s) [0..<4])) (\<lambda>dec. sst4 dec (g * 2 + 1) (map (shuf8_word a s) [4..<8]))) [0..<4] dec"

text \<open>
  A warp: every lane loads its registers, the barrier, every lane transposes and stores, and the buffer is copied out when \<open>fl\<close> is set. The result is
  \<open>dec\<close> and \<open>out\<close>.
\<close>

definition shuf_loads :: "(nat \<Rightarrow> nat \<Rightarrow> nat list) \<Rightarrow> 32 word list \<Rightarrow> nat \<Rightarrow> (32 word list \<times> 32 word list) res" where
  "shuf_loads places dec lane = rbind (load_all dec (places lane 0)) (\<lambda>a0. rbind (load_all dec (places lane 1)) (\<lambda>a1. Inr (a0, a1)))"

definition shuf_stores :: "(nat \<Rightarrow> nat \<Rightarrow> 32 word list \<Rightarrow> 32 word list \<Rightarrow> 32 word list res) \<Rightarrow> nat \<times> 32 word list \<times> 32 word list \<Rightarrow> 32 word list \<Rightarrow> 32 word list res" where
  "shuf_stores st r dec = (case r of (lane, a0, a1) \<Rightarrow> rbind (st lane 0 (transpose32 a0) dec) (\<lambda>dec. st lane 1 (transpose32 a1) dec))"

definition shuf_warp :: "(nat \<Rightarrow> nat \<Rightarrow> nat list) \<Rightarrow> (nat \<Rightarrow> nat \<Rightarrow> 32 word list \<Rightarrow> 32 word list \<Rightarrow> 32 word list res) \<Rightarrow> nat list \<Rightarrow> 32 word list \<Rightarrow> 32 word list \<Rightarrow> bool
    \<Rightarrow> (32 word list \<times> 32 word list) res" where
  "shuf_warp places st ord dec out fl =
     rbind (fold_res (\<lambda>lane rs. rbind (shuf_loads places dec lane) (\<lambda>r. Inr (rs @ [(lane, r)]))) ord []) (\<lambda>rs.
     rbind (fold_res (shuf_stores st) rs dec) (\<lambda>dec.
     if fl then rbind (flush ord dec out) (\<lambda>out. Inr (dec, out)) else Inr (dec, out)))"

definition shuf32_warp :: "nat list \<Rightarrow> 32 word list \<Rightarrow> 32 word list \<Rightarrow> bool \<Rightarrow> (32 word list \<times> 32 word list) res" where
  "shuf32_warp = shuf_warp shuf32_places shuf32_store"

definition shuf16_warp :: "nat list \<Rightarrow> 32 word list \<Rightarrow> 32 word list \<Rightarrow> bool \<Rightarrow> (32 word list \<times> 32 word list) res" where
  "shuf16_warp = shuf_warp shuf16_places shuf16_store"

definition shuf8_warp :: "nat list \<Rightarrow> 32 word list \<Rightarrow> 32 word list \<Rightarrow> bool \<Rightarrow> (32 word list \<times> 32 word list) res" where
  "shuf8_warp = shuf_warp shuf8_places shuf8_store"

section \<open>The transpose\<close>

lemma and_pow2: "(k :: nat) AND 2 ^ i \<noteq> 0 \<longleftrightarrow> bit k i"
  by (simp add: and_exp_eq_0_iff_not_bit)

text \<open>Index \<open>c\<close> with bit \<open>i\<close> turned over.\<close>

definition flip :: "nat \<Rightarrow> nat \<Rightarrow> nat" where
  "flip i c = (if bit c i then c - 2 ^ i else c + 2 ^ i)"

lemma bit_add_pow2: "\<not> bit (c :: nat) i \<Longrightarrow> bit (c + 2 ^ i) n \<longleftrightarrow> bit c n \<or> n = i"
proof -
  assume a: "\<not> bit c i"
  have "c + 2 ^ i = c OR 2 ^ i" by (rule disjunctive_add) (use a in \<open>auto simp: bit_exp_iff\<close>)
  then show ?thesis by (auto simp: bit_or_iff bit_exp_iff)
qed

lemma bit_split: "bit (c :: nat) i \<Longrightarrow> \<exists>d. c = d + 2 ^ i \<and> \<not> bit d i"
proof -
  assume a: "bit c i"
  let ?d = "unset_bit i c"
  have "\<not> bit ?d i" by (simp add: bit_unset_bit_iff)
  moreover have "c = ?d + 2 ^ i"
  proof (rule bit_eqI)
    fix n show "bit c n = bit (?d + 2 ^ i) n"
      unfolding bit_add_pow2[OF calculation] using a by (auto simp: bit_unset_bit_iff)
  qed
  ultimately show ?thesis by blast
qed

lemma bit_flip: "bit (flip i c) n \<longleftrightarrow> (if n = i then \<not> bit c i else bit c n)"
proof (cases "bit c i")
  case True
  then obtain d where d: "c = d + 2 ^ i" "\<not> bit d i" using bit_split by blast
  then show ?thesis using True bit_add_pow2[OF d(2)] by (auto simp: flip_def)
qed (auto simp: flip_def bit_add_pow2)

lemma flip_flip [simp]: "flip i (flip i c) = c"
  by (rule bit_eqI) (simp add: bit_flip)

lemma bit_less: "(\<forall>n. bit c n \<longrightarrow> n < k) \<longleftrightarrow> (c :: nat) < 2 ^ k"
proof
  assume a: "\<forall>n. bit c n \<longrightarrow> n < k"
  have "take_bit k c = c" by (rule bit_eqI) (use a in \<open>auto simp: bit_take_bit_iff\<close>)
  then show "c < 2 ^ k" by (metis take_bit_nat_less_exp)
next
  assume a: "c < 2 ^ k"
  then have "take_bit k c = c" by (simp add: take_bit_nat_eq_self_iff)
  then show "\<forall>n. bit c n \<longrightarrow> n < k" by (metis bit_take_bit_iff)
qed

lemma flip_less: "c < 2 ^ k \<Longrightarrow> i < k \<Longrightarrow> flip i c < 2 ^ k"
  unfolding bit_less[symmetric] by (auto simp: bit_flip)

text \<open>The mask of a stage holds the places whose bit \<open>i\<close> is 0.\<close>

definition stage_mask :: "nat \<Rightarrow> 32 word \<Rightarrow> bool" where
  "stage_mask i m \<longleftrightarrow> (\<forall>r<32. bit m r \<longleftrightarrow> \<not> bit (r :: nat) i)"

text \<open>What a stage does to bit \<open>r\<close> of register \<open>c\<close>.\<close>

definition swapped :: "nat \<Rightarrow> 32 word list \<Rightarrow> nat \<Rightarrow> nat \<Rightarrow> bool" where
  "swapped i a c r = (if bit c i = bit r i then bit (a ! c) r else bit (a ! flip i c) (flip i r))"

lemma transpose_pair_bits:
  assumes "stage_mask i m" "i < 5" "length a = 32" "k < 32" "\<not> bit k i" "c < 32" "r < 32"
  shows "bit (transpose_pair m (2 ^ i) k a ! c) r = (if c = k \<or> c = flip i k then swapped i a c r else bit (a ! c) r)"
proof -
  have f: "flip i k = k + 2 ^ i" "flip i (k + 2 ^ i) = k" using assms(5) flip_flip[of i k] by (simp_all add: flip_def)
  have l: "k + 2 ^ i < 32" using flip_less[of k 5 i] assms(2,4) f(1) by simp
  have ne: "k + 2 ^ i \<noteq> k" by simp
  define T where "T = (drop_bit (2 ^ i) (a ! k) XOR a ! (k + 2 ^ i)) AND m"
  have p: "transpose_pair m (2 ^ i) k a = (a[k + 2 ^ i := a ! (k + 2 ^ i) XOR T])[k := a ! k XOR push_bit (2 ^ i) T]"
    using assms(5) and_pow2[of k i] by (simp add: transpose_pair_def Let_def ne T_def)
  have t: "bit T r' \<longleftrightarrow> r' < 32 \<and> \<not> bit r' i \<and> (bit (a ! k) (r' + 2 ^ i) \<noteq> bit (a ! (k + 2 ^ i)) r')" for r'
    unfolding T_def using assms(1) by (auto simp: stage_mask_def bit_simps ac_simps dest: bit_imp_le_length)
  consider "c = k" | "c = k + 2 ^ i" | "c \<noteq> k" "c \<noteq> k + 2 ^ i" by blast
  then show ?thesis
  proof cases
    case 1
    have pb: "bit (push_bit (2 ^ i) T) r \<longleftrightarrow> bit r i \<and> (bit (a ! k) r \<noteq> bit (a ! (k + 2 ^ i)) (r - 2 ^ i))"
    proof (cases "bit r i")
      case True
      then obtain d where d: "r = d + 2 ^ i" "\<not> bit d i" using bit_split by blast
      then show ?thesis using True t[of d] assms(7) by (simp add: bit_push_bit_iff)
    next
      case False
      have "\<not> bit (push_bit (2 ^ i) T) r"
      proof
        assume b: "bit (push_bit (2 ^ i) T) r"
        then have "2 ^ i \<le> r" "bit T (r - 2 ^ i)" by (simp_all add: bit_push_bit_iff)
        then have "\<not> bit (r - 2 ^ i) i" "r = r - 2 ^ i + 2 ^ i" using t by simp_all
        then have "bit r i" using bit_add_pow2 by metis
        then show False using False by simp
      qed
      then show ?thesis using False by simp
    qed
    have "bit (transpose_pair m (2 ^ i) k a ! c) r \<longleftrightarrow> bit (a ! k) r \<noteq> bit (push_bit (2 ^ i) T) r"
      unfolding p using 1 assms(3,4) by (simp add: bit_xor_iff)
    then show ?thesis unfolding pb using 1 assms(5) f(1) by (auto simp: swapped_def flip_def)
  next
    case 2
    have "bit (transpose_pair m (2 ^ i) k a ! c) r \<longleftrightarrow> bit (a ! c) r \<noteq> bit T r"
      unfolding p using 2 assms(3) l ne by (simp add: bit_xor_iff)
    moreover have "bit c i" using 2 assms(5) bit_add_pow2 by simp
    ultimately show ?thesis unfolding t using 2 assms(7) f by (auto simp: swapped_def flip_def)
  next
    case 3
    then show ?thesis unfolding p using f(1) by simp
  qed
qed

lemma transpose_pair_skip: "bit k i \<Longrightarrow> transpose_pair m (2 ^ i) k a = a"
  using and_pow2[of k i] by (simp add: transpose_pair_def)

lemma length_transpose_pair [simp]: "length (transpose_pair m j k a) = length a"
  by (simp add: transpose_pair_def Let_def)

lemma stage_bits:
  assumes "stage_mask i m" "i < 5" "length a = 32"
  shows "length (fold (transpose_pair m (2 ^ i)) [0..<32] a) = 32
    \<and> (\<forall>c<32. \<forall>r<32. bit (fold (transpose_pair m (2 ^ i)) [0..<32] a ! c) r = swapped i a c r)"
proof -
  have inv: "K \<le> 32 \<Longrightarrow> length (fold (transpose_pair m (2 ^ i)) [0..<K] a) = 32
    \<and> (\<forall>c<32. \<forall>r<32. bit (fold (transpose_pair m (2 ^ i)) [0..<K] a ! c) r
        = (if (if bit c i then flip i c else c) < K then swapped i a c r else bit (a ! c) r))" for K
  proof (induction K)
    case 0
    then show ?case using assms(3) by simp
  next
    case (Suc K)
    let ?b = "fold (transpose_pair m (2 ^ i)) [0..<K] a"
    have IH: "length ?b = 32" "bit (?b ! c) r = (if (if bit c i then flip i c else c) < K then swapped i a c r else bit (a ! c) r)"
      if "c < 32" "r < 32" for c r using Suc that by auto
    have lb: "length ?b = 32" using IH(1)[of 0 0] by simp
    have s: "fold (transpose_pair m (2 ^ i)) [0..<Suc K] a = transpose_pair m (2 ^ i) K ?b" by simp
    show ?case
    proof (cases "bit K i")
      case True
      have "(if bit c i then flip i c else c) \<noteq> K" for c using True bit_flip[of i c i] by auto
      then show ?thesis unfolding s transpose_pair_skip[OF True] using IH(2) lb by (auto simp: less_Suc_eq)
    next
      case False
      have "bit (transpose_pair m (2 ^ i) K ?b ! c) r = (if (if bit c i then flip i c else c) < Suc K then swapped i a c r else bit (a ! c) r)"
        if cr: "c < 32" "r < 32" for c r
      proof -
        note P = transpose_pair_bits[OF assms(1,2) lb _ False cr]
        have K: "K < 32" using Suc.prems by simp
        have fl: "flip i c < 32" "flip i r < 32" using flip_less[of _ 5 i] cr assms(2) by simp_all
        show ?thesis
        proof (cases "c = K \<or> c = flip i K")
          case True
          have e: "(if bit c i then flip i c else c) = K" using True False bit_flip[of i K i] by auto
          then have e': "(if bit (flip i c) i then flip i (flip i c) else flip i c) = K" using bit_flip[of i c i] by (auto split: if_splits)
          have "swapped i ?b c r = swapped i a c r"
            unfolding swapped_def using IH(2)[OF cr] IH(2)[OF fl] e e' by simp
          then show ?thesis using P[OF K] True e by simp
        next
          case f: False
          then have e: "(if bit c i then flip i c else c) \<noteq> K" by (auto split: if_splits)
          show ?thesis using P[OF K] f IH(2)[OF cr] e by (auto simp: less_Suc_eq)
        qed
      qed
      then show ?thesis unfolding s using lb by auto
    qed
  qed
  have low: "(if bit c i then flip i c else c) < 32" if "c < 32" for c using flip_less[of c 5 i] that assms(2) by auto
  show ?thesis using inv[of 32] low by auto
qed

text \<open>Over the five stages the bits of \<open>c\<close> and \<open>r\<close> change places one after the other.\<close>

definition swap_idx :: "nat \<Rightarrow> nat \<times> nat \<Rightarrow> nat \<times> nat" where
  "swap_idx i cr = (if bit (fst cr) i = bit (snd cr) i then cr else (flip i (fst cr), flip i (snd cr)))"

lemma swapped_idx: "swapped i a c r = bit (a ! fst (swap_idx i (c, r))) (snd (swap_idx i (c, r)))"
  by (simp add: swapped_def swap_idx_def)

lemma bit_swap_idx:
  "bit (fst (swap_idx i cr)) n \<longleftrightarrow> (if n = i then bit (snd cr) i else bit (fst cr) n)"
  "bit (snd (swap_idx i cr)) n \<longleftrightarrow> (if n = i then bit (fst cr) i else bit (snd cr) n)"
  by (auto simp: swap_idx_def bit_flip)

lemma swap_idx_less: "fst cr < 32 \<Longrightarrow> snd cr < 32 \<Longrightarrow> i < 5 \<Longrightarrow> fst (swap_idx i cr) < 32 \<and> snd (swap_idx i cr) < 32"
  using flip_less[of _ 5 i] by (simp add: swap_idx_def)

lemma stage_step:
  assumes "stage_mask i m" "i < 5" "length a = 32" "\<And>c r. c < 32 \<Longrightarrow> r < 32 \<Longrightarrow> bit (a ! c) r = bit (b ! fst (f (c, r))) (snd (f (c, r)))"
  shows "length (fold (transpose_pair m (2 ^ i)) [0..<32] a) = 32"
    "c < 32 \<Longrightarrow> r < 32 \<Longrightarrow> bit (fold (transpose_pair m (2 ^ i)) [0..<32] a ! c) r = bit (b ! fst (f (swap_idx i (c, r)))) (snd (f (swap_idx i (c, r))))"
  using stage_bits[OF assms(1-3)] swap_idx_less[of "(c, r)" i] assms(4)[of "fst (swap_idx i (c, r))" "snd (swap_idx i (c, r))"] assms(2)
  by (simp_all add: swapped_idx)

lemma stage_masks:
  "stage_mask 4 0x0000FFFF" "stage_mask 3 0x00FF00FF" "stage_mask 2 0x0F0F0F0F" "stage_mask 1 0x33333333" "stage_mask 0 0x55555555"
proof -
  have all32: "(\<forall>r<32. P r) \<longleftrightarrow> list_all P [0..<32]" for P :: "nat \<Rightarrow> bool" by (auto simp: list_all_iff)
  show "stage_mask 4 0x0000FFFF" "stage_mask 3 0x00FF00FF" "stage_mask 2 0x0F0F0F0F" "stage_mask 1 0x33333333" "stage_mask 0 0x55555555"
    unfolding stage_mask_def all32 by code_simp+
qed

lemma transpose32_bits:
  assumes "length a = 32"
  shows "length (transpose32 a) = 32 \<and> (\<forall>c<32. \<forall>r<32. bit (transpose32 a ! c) r = bit (a ! r) c)"
proof -
  have next_masks: "(0x0000FFFF :: 32 word) XOR push_bit 8 0x0000FFFF = 0x00FF00FF" "(0x00FF00FF :: 32 word) XOR push_bit 4 0x00FF00FF = 0x0F0F0F0F"
    "(0x0F0F0F0F :: 32 word) XOR push_bit 2 0x0F0F0F0F = 0x33333333" "(0x33333333 :: 32 word) XOR push_bit 1 0x33333333 = 0x55555555" by code_simp+
  define a1 where "a1 = fold (transpose_pair 0x0000FFFF 16) [0..<32] a"
  define a2 where "a2 = fold (transpose_pair 0x00FF00FF 8) [0..<32] a1"
  define a3 where "a3 = fold (transpose_pair 0x0F0F0F0F 4) [0..<32] a2"
  define a4 where "a4 = fold (transpose_pair 0x33333333 2) [0..<32] a3"
  define a5 where "a5 = fold (transpose_pair 0x55555555 1) [0..<32] a4"
  have t: "transpose32 a = a5"
    unfolding transpose32_def fold.simps comp_def transpose_stage_def case_prod_conv id_apply
    by (simp only: a1_def a2_def a3_def a4_def a5_def next_masks div_mult_self1_is_m mult_2 flip: numeral_Bit0) (simp add: next_masks)
  have l1: "length a1 = 32" and s1: "c < 32 \<Longrightarrow> r < 32 \<Longrightarrow> bit (a1 ! c) r = bit (a ! fst (swap_idx 4 (c, r))) (snd (swap_idx 4 (c, r)))" for c r
    using stage_step(1)[OF stage_masks(1) _ assms, of a "id"] stage_step(2)[OF stage_masks(1) _ assms, of a "id" c r]  by (simp_all add: a1_def)
  have l2: "length a2 = 32" and s2: "c < 32 \<Longrightarrow> r < 32 \<Longrightarrow> bit (a2 ! c) r = bit (a ! fst (swap_idx 4 (swap_idx 3 (c, r)))) (snd (swap_idx 4 (swap_idx 3 (c, r))))" for c r
    using stage_step(1)[OF stage_masks(2) _ l1, of a "swap_idx 4"] stage_step(2)[OF stage_masks(2) _ l1, of a "swap_idx 4" c r] s1 by (simp_all add: a2_def)
  have l3: "length a3 = 32" and s3: "c < 32 \<Longrightarrow> r < 32 \<Longrightarrow> bit (a3 ! c) r = bit (a ! fst (swap_idx 4 (swap_idx 3 (swap_idx 2 (c, r))))) (snd (swap_idx 4 (swap_idx 3 (swap_idx 2 (c, r)))))" for c r
    using stage_step(1)[OF stage_masks(3) _ l2, of a "\<lambda>x. swap_idx 4 (swap_idx 3 x)"] stage_step(2)[OF stage_masks(3) _ l2, of a "\<lambda>x. swap_idx 4 (swap_idx 3 x)" c r] s2 by (simp_all add: a3_def)
  have l4: "length a4 = 32" and s4: "c < 32 \<Longrightarrow> r < 32 \<Longrightarrow> bit (a4 ! c) r = bit (a ! fst (swap_idx 4 (swap_idx 3 (swap_idx 2 (swap_idx 1 (c, r)))))) (snd (swap_idx 4 (swap_idx 3 (swap_idx 2 (swap_idx 1 (c, r))))))" for c r
    using stage_step(1)[OF stage_masks(4) _ l3, of a "\<lambda>x. swap_idx 4 (swap_idx 3 (swap_idx 2 x))"] stage_step(2)[OF stage_masks(4) _ l3, of a "\<lambda>x. swap_idx 4 (swap_idx 3 (swap_idx 2 x))" c r] s3 by (simp_all add: a4_def)
  have l5: "length a5 = 32" and s5: "c < 32 \<Longrightarrow> r < 32 \<Longrightarrow> bit (a5 ! c) r = bit (a ! fst (swap_idx 4 (swap_idx 3 (swap_idx 2 (swap_idx 1 (swap_idx 0 (c, r))))))) (snd (swap_idx 4 (swap_idx 3 (swap_idx 2 (swap_idx 1 (swap_idx 0 (c, r)))))))" for c r
    using stage_step(1)[OF stage_masks(5) _ l4, of a "\<lambda>x. swap_idx 4 (swap_idx 3 (swap_idx 2 (swap_idx 1 x)))"] stage_step(2)[OF stage_masks(5) _ l4, of a "\<lambda>x. swap_idx 4 (swap_idx 3 (swap_idx 2 (swap_idx 1 x)))" c r] s4 by (simp_all add: a5_def)
  have idx: "swap_idx 4 (swap_idx 3 (swap_idx 2 (swap_idx 1 (swap_idx 0 (c, r))))) = (r, c)" if "c < 32" "r < 32" for c r
  proof -
    have lim: "bit c n \<Longrightarrow> n < 5" "bit r n \<Longrightarrow> n < 5" for n using that bit_less[of c 5] bit_less[of r 5] by auto
    have five: "n < 5 \<Longrightarrow> n = 0 \<or> n = 1 \<or> n = 2 \<or> n = 3 \<or> n = 4" for n :: nat by linarith
    show ?thesis
    proof (rule prod_eqI; rule bit_eqI)
      show "bit (fst (swap_idx 4 (swap_idx 3 (swap_idx 2 (swap_idx 1 (swap_idx 0 (c, r))))))) n = bit (fst (r, c)) n" for n
        using lim[of n] five[of n] by (auto simp: bit_swap_idx)
      show "bit (snd (swap_idx 4 (swap_idx 3 (swap_idx 2 (swap_idx 1 (swap_idx 0 (c, r))))))) n = bit (snd (r, c)) n" for n
        using lim[of n] five[of n] by (auto simp: bit_swap_idx)
    qed
  qed
  show ?thesis unfolding t using l5 s5 idx by simp
qed

section \<open>The words of the pixels\<close>

text \<open>Word \<open>w\<close> of the pixels of \<open>NB\<close> bytes whose planes are the words \<open>dec\<close>.\<close>

definition word_bit :: "nat \<Rightarrow> 32 word list \<Rightarrow> nat \<Rightarrow> nat \<Rightarrow> bool" where
  "word_bit NB dec w b = (let e = (32 * w + b) div (8 * NB); p = (32 * w + b) mod (8 * NB) in bit (dec ! (p * (256 div NB) + e div 32)) (e mod 32))"

definition pixel_word :: "nat \<Rightarrow> 32 word list \<Rightarrow> nat \<Rightarrow> 32 word" where
  "pixel_word NB dec w = word_of_bits (map (word_bit NB dec w) [0..<32])"

definition pixel_vec :: "nat \<Rightarrow> 32 word list \<Rightarrow> nat \<Rightarrow> 32 word list" where
  "pixel_vec NB dec n = map (\<lambda>m. pixel_word NB dec (4 * n + m)) [0..<4]"

lemma pixel_wordI: "(\<And>b. b < 32 \<Longrightarrow> bit x b = word_bit NB dec w b) \<Longrightarrow> x = pixel_word NB dec w"
  unfolding pixel_word_def by (rule word_of_bits_eqI[symmetric]) simp_all

lemma load_all_ok: "\<forall>i\<in>set is. i < length dec \<Longrightarrow> load_all dec is = Inr (map ((!) dec) is)"
  by (induction "is") (simp_all add: load_ok)

text \<open>The stores of the vectors \<open>ns\<close> of the pixels.\<close>

definition puts :: "nat \<Rightarrow> 32 word list \<Rightarrow> nat list \<Rightarrow> 32 word list \<Rightarrow> 32 word list res" where
  "puts NB dec0 ns dec = fold_res (\<lambda>n dec. sst4 dec n (pixel_vec NB dec0 n)) ns dec"

lemma puts_append: "puts NB dec0 (ns @ ms) dec = rbind (puts NB dec0 ns dec) (puts NB dec0 ms)"
  unfolding puts_def by (rule fold_res_append)

lemma upt4: "[0..<4] = [0, 1, 2, 3 :: nat]" "[4..<8] = map (\<lambda>m. 4 + m) [0, 1, 2, 3 :: nat]"
  by (simp_all add: upt_rec)

lemma transposed_nth:
  assumes "length ps = 32" "c < 32" "r < 32"
  shows "bit (transpose32 (map ((!) dec0) ps) ! c) r = bit (dec0 ! (ps ! r)) c"
  using transpose32_bits[of "map ((!) dec0) ps"] assms by simp

lemma shuf32_reg:
  assumes "lane < 32" "q < 2" "c < 32"
  shows "transpose32 (map ((!) dec0) (shuf32_places lane q)) ! c = pixel_word 4 dec0 (32 * (lane + 32 * q) + c)"
proof (rule pixel_wordI)
  fix b :: nat assume b: "b < 32"
  have dm: "(32 * g + x) div 32 = g" "(32 * g + x) mod 32 = x" if "x < 32" for g x :: nat using that by simp_all
  note dm[OF assms(3), of "lane + 32 * q"] dm[OF b, of "32 * (lane + 32 * q) + c"]
  then show "bit (transpose32 (map ((!) dec0) (shuf32_places lane q)) ! c) b = word_bit 4 dec0 (32 * (lane + 32 * q) + c) b"
    using transposed_nth[of "shuf32_places lane q" c b] assms(3) b by (simp add: word_bit_def shuf32_places_def add.assoc)
qed

lemma shuf32_store_puts:
  assumes "lane < 32" "q < 2"
  shows "shuf32_store lane q (transpose32 (map ((!) dec0) (shuf32_places lane q))) dec
    = puts 4 dec0 (map (\<lambda>i. (lane + 32 * q) * 8 + i) [0..<8]) dec"
  unfolding shuf32_store_def puts_def Let_def fold_res_map
proof (rule fold_res_cong)
  fix i s assume "i \<in> set [0..<8 :: nat]"
  then have i: "i < 8" by simp
  have w: "4 * ((lane + 32 * q) * 8 + i) + m = 32 * (lane + 32 * q) + (4 * i + m)" for m by simp
  show "sst4 s ((lane + 32 * q) * 8 + i) [transpose32 (map ((!) dec0) (shuf32_places lane q)) ! (4 * i), transpose32 (map ((!) dec0) (shuf32_places lane q)) ! (4 * i + 1),
      transpose32 (map ((!) dec0) (shuf32_places lane q)) ! (4 * i + 2), transpose32 (map ((!) dec0) (shuf32_places lane q)) ! (4 * i + 3)]
    = sst4 s ((lane + 32 * q) * 8 + i) (pixel_vec 4 dec0 ((lane + 32 * q) * 8 + i))"
    unfolding pixel_vec_def upt4 w using shuf32_reg[OF assms, of "4 * i + _" dec0] i by (simp add: shuf32_reg[OF assms])
qed

lemma div_mod_shift: "x < k \<Longrightarrow> (k * g + x) div k = g" "x < k \<Longrightarrow> (k * g + x) mod k = x" for x k g :: nat
  by simp_all

lemma shuf16_places_nth:
  "k < 16 \<Longrightarrow> shuf16_places lane p ! k = k * 128 + (lane + 64 * p)" "k < 16 \<Longrightarrow> shuf16_places lane p ! (16 + k) = k * 128 + (lane + 64 * p + 32)"
  "length (shuf16_places lane p) = 32"
  by (simp_all add: shuf16_places_def nth_append)

lemma word_bit_16:
  assumes "k < 16" "b < 32"
  shows "word_bit 2 dec0 (16 * g + k) b \<longleftrightarrow> bit (dec0 ! (b mod 16 * 128 + g)) (2 * k + b div 16)"
proof -
  have s: "32 * (16 * g + k) + b = b + (32 * g + 2 * k) * 16" by simp
  have "(32 * (16 * g + k) + b) div (8 * 2) = 32 * g + (2 * k + b div 16)" "(32 * (16 * g + k) + b) mod (8 * 2) = b mod 16"
    unfolding s using mod_mult_self1[of b "32 * g + 2 * k" 16] div_mult_self1[of 16 b "32 * g + 2 * k"] by simp_all
  moreover have "2 * k + b div 16 < 32" using assms by linarith
  ultimately show ?thesis by (simp add: word_bit_def div_mod_shift)
qed

lemma shuf16_regs:
  fixes dec0 :: "32 word list"
  assumes "lane < 32" "p < 2" "k < 16"
  defines "a \<equiv> transpose32 (map ((!) dec0) (shuf16_places lane p))"
  shows "shuf16_lo a k = pixel_word 2 dec0 (16 * (lane + 64 * p) + k)" "shuf16_hi a k = pixel_word 2 dec0 (16 * (lane + 64 * p + 32) + k)"
proof -
  have t: "c < 32 \<Longrightarrow> r < 32 \<Longrightarrow> bit (a ! c) r = bit (dec0 ! (shuf16_places lane p ! r)) c" for c r
    unfolding a_def by (rule transposed_nth) (simp_all add: shuf16_places_nth)
  have m: "bit (0xFFFF :: 32 word) b \<longleftrightarrow> b < 16" "bit (0xFFFF0000 :: 32 word) b \<longleftrightarrow> 16 \<le> b" if "b < 32" for b
  proof -
    have "\<forall>b\<in>set [0..<32]. (bit (0xFFFF :: 32 word) b \<longleftrightarrow> b < 16) \<and> (bit (0xFFFF0000 :: 32 word) b \<longleftrightarrow> 16 \<le> b)" by code_simp
    then show "bit (0xFFFF :: 32 word) b \<longleftrightarrow> b < 16" "bit (0xFFFF0000 :: 32 word) b \<longleftrightarrow> 16 \<le> b" using that by simp_all
  qed
  have k: "2 * k < 32" "2 * k + 1 < 32" using assms(3) by simp_all
  have b16: "16 \<le> b \<Longrightarrow> b < 32 \<Longrightarrow> b mod 16 = b - 16 \<and> b div 16 = 1" for b :: nat by (simp add: le_mod_geq le_div_geq)
  show "shuf16_lo a k = pixel_word 2 dec0 (16 * (lane + 64 * p) + k)"
  proof (rule pixel_wordI)
    fix b :: nat assume b: "b < 32"
    have "bit (shuf16_lo a k) b \<longleftrightarrow> (if b < 16 then bit (a ! (2 * k)) b else bit (a ! (2 * k + 1)) (b - 16))"
      using b m[OF b] by (auto simp: shuf16_lo_def bit_or_iff bit_and_iff bit_push_bit_iff)
    then show "bit (shuf16_lo a k) b = word_bit 2 dec0 (16 * (lane + 64 * p) + k) b"
      unfolding word_bit_16[OF assms(3) b] using b b16[of b] k t[of "2 * k" b] t[of "2 * k + 1" "b - 16"] by (auto simp: shuf16_places_nth add.commute)
  qed
  show "shuf16_hi a k = pixel_word 2 dec0 (16 * (lane + 64 * p + 32) + k)"
  proof (rule pixel_wordI)
    fix b :: nat assume b: "b < 32"
    have "bit (shuf16_hi a k) b \<longleftrightarrow> (if b < 16 then bit (a ! (2 * k)) (16 + b) else bit (a ! (2 * k + 1)) (16 + (b - 16)))"
      using b m[OF b] by (auto simp: shuf16_hi_def bit_or_iff bit_and_iff bit_drop_bit_eq dest: bit_imp_le_length)
    then show "bit (shuf16_hi a k) b = word_bit 2 dec0 (16 * (lane + 64 * p + 32) + k) b"
      unfolding word_bit_16[OF assms(3) b]
      using b b16[of b] k t[of "2 * k" "16 + b"] t[of "2 * k + 1" "16 + (b - 16)"] shuf16_places_nth(2)[of b lane p] shuf16_places_nth(2)[of "b - 16" lane p]
      by (auto simp: add.commute simp del: add_diff_inverse_nat le_add_diff_inverse)
  qed
qed

lemma shuf16_store_puts:
  assumes "lane < 32" "p < 2"
  shows "shuf16_store lane p (transpose32 (map ((!) dec0) (shuf16_places lane p))) dec
    = puts 2 dec0 (concat (map (\<lambda>i. [(lane + 64 * p) * 4 + i, (lane + 64 * p + 32) * 4 + i]) [0..<4])) dec"
  unfolding shuf16_store_def puts_def Let_def fold_res_concat
proof (rule fold_res_cong)
  fix i s assume "i \<in> set [0..<4 :: nat]"
  then have i: "i < 4" by simp
  have w: "4 * (g * 4 + i) + m = 16 * g + (4 * i + m)" for g m :: nat by simp
  have "map (\<lambda>m. shuf16_lo (transpose32 (map ((!) dec0) (shuf16_places lane p))) (4 * i + m)) [0..<4] = pixel_vec 2 dec0 ((lane + 64 * p) * 4 + i)"
    "map (\<lambda>m. shuf16_hi (transpose32 (map ((!) dec0) (shuf16_places lane p))) (4 * i + m)) [0..<4] = pixel_vec 2 dec0 ((lane + 64 * p + 32) * 4 + i)"
    unfolding pixel_vec_def w using i by (simp_all add: shuf16_regs[OF assms])
  then show "rbind (sst4 s ((lane + 64 * p) * 4 + i) (map (\<lambda>m. shuf16_lo (transpose32 (map ((!) dec0) (shuf16_places lane p))) (4 * i + m)) [0..<4]))
      (\<lambda>dec. sst4 dec ((lane + 64 * p + 32) * 4 + i) (map (\<lambda>m. shuf16_hi (transpose32 (map ((!) dec0) (shuf16_places lane p))) (4 * i + m)) [0..<4]))
    = fold_res (\<lambda>n dec. sst4 dec n (pixel_vec 2 dec0 n)) [(lane + 64 * p) * 4 + i, (lane + 64 * p + 32) * 4 + i] s" by simp
qed

lemma shuf8_places_nth: "s < 4 \<Longrightarrow> k < 8 \<Longrightarrow> shuf8_places lane p ! (8 * s + k) = k * 256 + (lane + 128 * p + 32 * s)" "length (shuf8_places lane p) = 32"
proof -
  show "length (shuf8_places lane p) = 32" by (simp add: shuf8_places_def length_concat_same[where k = 8])
  show "shuf8_places lane p ! (8 * s + k) = k * 256 + (lane + 128 * p + 32 * s)" if "s < 4" "k < 8"
    unfolding shuf8_places_def by (subst concat_same_nth) (use that in simp_all)
qed

lemma word_bit_8:
  assumes "m < 8" "b < 32"
  shows "word_bit 1 dec0 (8 * g + m) b \<longleftrightarrow> bit (dec0 ! (b mod 8 * 256 + g)) (4 * m + b div 8)"
proof -
  have s: "32 * (8 * g + m) + b = b + (32 * g + 4 * m) * 8" by simp
  have "(32 * (8 * g + m) + b) div (8 * 1) = 32 * g + (4 * m + b div 8)" "(32 * (8 * g + m) + b) mod (8 * 1) = b mod 8"
    unfolding s using mod_mult_self1[of b "32 * g + 4 * m" 8] div_mult_self1[of 8 b "32 * g + 4 * m"] by simp_all
  moreover have "4 * m + b div 8 < 32" using assms by linarith
  ultimately show ?thesis by (simp add: word_bit_def div_mod_shift)
qed

lemma bit_0xFF: "bit (0xFF :: 32 word) b \<longleftrightarrow> b < 8"
proof (cases "b < 32")
  case True
  have "\<forall>b\<in>set [0..<32]. bit (0xFF :: 32 word) b \<longleftrightarrow> b < 8" by code_simp
  then show ?thesis using True by simp
qed (auto dest: bit_imp_le_length)

lemma shuf8_reg:
  fixes dec0 :: "32 word list"
  assumes "lane < 32" "p < 2" "s < 4" "m < 8"
  shows "shuf8_word (transpose32 (map ((!) dec0) (shuf8_places lane p))) s m = pixel_word 1 dec0 (8 * (lane + 128 * p + 32 * s) + m)"
proof (rule pixel_wordI)
  fix b :: nat assume b: "b < 32"
  let ?a = "transpose32 (map ((!) dec0) (shuf8_places lane p))"
  define j r where jr: "j = b div 8" "r = b mod 8"
  have j: "b = 8 * j + r" "j < 4" "r < 8" using b by (simp_all add: jr)
  have f: "bit (drop_bit (8 * s) x AND 0xFF :: 32 word) i \<longleftrightarrow> i < 8 \<and> bit x (8 * s + i)" for x :: "32 word" and i unfolding bit_and_iff bit_0xFF bit_drop_bit_eq comp_def by auto
  have "j = 0 \<or> j = 1 \<or> j = 2 \<or> j = 3" using j(2) by linarith
  then have "bit (shuf8_word ?a s m) (8 * j + r) \<longleftrightarrow> bit (?a ! (4 * m + j)) (8 * s + r)"
    unfolding shuf8_word_def bit_or_iff bit_push_bit_iff f using j(3) by (elim disjE) simp_all
  also have "\<dots> \<longleftrightarrow> bit (dec0 ! (shuf8_places lane p ! (8 * s + r))) (4 * m + j)"
    by (rule transposed_nth) (use assms j in \<open>simp_all add: shuf8_places_nth\<close>)
  finally have fin: "bit (shuf8_word ?a s m) b = bit (dec0 ! (r * 256 + (lane + 128 * p + 32 * s))) (4 * m + j)"
    unfolding shuf8_places_nth(1)[OF assms(3) j(3)] j(1)[symmetric] .
  show "bit (shuf8_word ?a s m) b = word_bit 1 dec0 (8 * (lane + 128 * p + 32 * s) + m) b"
    unfolding word_bit_8[OF assms(4) b] jr[symmetric] by (rule fin)
qed

lemma shuf8_store_puts:
  assumes "lane < 32" "p < 2"
  shows "shuf8_store lane p (transpose32 (map ((!) dec0) (shuf8_places lane p))) dec
    = puts 1 dec0 (concat (map (\<lambda>s. [(lane + 128 * p + 32 * s) * 2, (lane + 128 * p + 32 * s) * 2 + 1]) [0..<4])) dec"
  unfolding shuf8_store_def puts_def Let_def fold_res_concat
proof (rule fold_res_cong)
  fix s st assume "s \<in> set [0..<4 :: nat]"
  then have s: "s < 4" by simp
  have w: "4 * (g * 2) + m = 8 * g + m" "4 * (g * 2 + 1) + m = 8 * g + (4 + m)" for g m :: nat by simp_all
  have "map (shuf8_word (transpose32 (map ((!) dec0) (shuf8_places lane p))) s) [0..<4] = pixel_vec 1 dec0 ((lane + 128 * p + 32 * s) * 2)"
    "map (shuf8_word (transpose32 (map ((!) dec0) (shuf8_places lane p))) s) [4..<8] = pixel_vec 1 dec0 ((lane + 128 * p + 32 * s) * 2 + 1)"
    unfolding pixel_vec_def upt4 w by (simp_all add: shuf8_reg[OF assms s])
  then show "rbind (sst4 st ((lane + 128 * p + 32 * s) * 2) (map (shuf8_word (transpose32 (map ((!) dec0) (shuf8_places lane p))) s) [0..<4]))
      (\<lambda>dec. sst4 dec ((lane + 128 * p + 32 * s) * 2 + 1) (map (shuf8_word (transpose32 (map ((!) dec0) (shuf8_places lane p))) s) [4..<8]))
    = fold_res (\<lambda>n dec. sst4 dec n (pixel_vec 1 dec0 n)) [(lane + 128 * p + 32 * s) * 2, (lane + 128 * p + 32 * s) * 2 + 1] st" by simp
qed

section \<open>A warp\<close>

lemma bit_swizzle: "bit (swizzle n) k \<longleftrightarrow> (if k < 3 then bit n k \<noteq> bit n (k + 3) else bit n k)"
proof -
  have e: "swizzle n = n XOR (drop_bit 3 n AND mask 3)" by (simp add: swizzle_def drop_bit_eq_div mask_eq_exp_minus_1)
  show ?thesis unfolding e bit_xor_iff bit_and_iff bit_drop_bit_eq bit_mask_iff comp_def by (auto simp: add.commute)
qed

lemma swizzle_ok: "n < 512 \<Longrightarrow> swizzle n < 512 \<and> swizzle (swizzle n) = n"
proof -
  assume "n < 512"
  then have "\<forall>k. bit n k \<longrightarrow> k < 9" using bit_less[of n 9] by simp
  then have "\<forall>k. bit (swizzle n) k \<longrightarrow> k < 9" by (auto simp: bit_swizzle split: if_splits)
  moreover have "swizzle (swizzle n) = n" by (rule bit_eqI) (auto simp: bit_swizzle)
  ultimately show ?thesis using bit_less[of "swizzle n" 9] by simp
qed

text \<open>Vector \<open>n\<close> is in its place.\<close>

definition staged :: "nat \<Rightarrow> 32 word list \<Rightarrow> nat \<Rightarrow> 32 word list \<Rightarrow> bool" where
  "staged NB dec0 n dec \<longleftrightarrow> (\<forall>m<4. dec ! (4 * swizzle n + m) = pixel_word NB dec0 (4 * n + m))"

lemma puts_ok:
  assumes "length dec = 2048" "set ns \<subseteq> {0..<512}"
  shows "\<exists>dec'. puts NB dec0 ns dec = Inr dec' \<and> length dec' = 2048 \<and> (\<forall>n\<in>set ns. staged NB dec0 n dec')"
  unfolding puts_def
proof (rule fold_res_inv[where I = "\<lambda>done dec. length dec = 2048 \<and> (\<forall>n\<in>set done. staged NB dec0 n dec)"])
  fix ys n zs s assume a: "ns = ys @ n # zs" "length s = 2048 \<and> (\<forall>n\<in>set ys. staged NB dec0 n s)"
  have n: "n < 512" using assms(2) a(1) by auto
  have room: "4 * swizzle n + length (pixel_vec NB dec0 n) \<le> length s" using swizzle_ok[OF n] a(2) by (simp add: pixel_vec_def)
  let ?s = "blit s (4 * swizzle n) (pixel_vec NB dec0 n)"
  have bl: "?s ! k = (if 4 * swizzle n \<le> k \<and> k < 4 * swizzle n + 4 then pixel_vec NB dec0 n ! (k - 4 * swizzle n) else s ! k)" for k
    using nth_blit[OF room, of k] by (simp add: pixel_vec_def)
  have "staged NB dec0 n ?s" unfolding staged_def bl by (simp add: pixel_vec_def)
  moreover have "staged NB dec0 k ?s" if k: "k \<in> set ys" for k
  proof (cases "k = n")
    case False
    have "k < 512" using assms(2) a(1) k by auto
    then have "swizzle k \<noteq> swizzle n" using False swizzle_ok[OF n] swizzle_ok[of k] by metis
    then have "\<not> (4 * swizzle n \<le> 4 * swizzle k + m \<and> 4 * swizzle k + m < 4 * swizzle n + 4)" if "m < 4" for m using that by linarith
    then show ?thesis using a(2) k unfolding staged_def bl by auto
  qed (use calculation in simp)
  ultimately show "\<exists>s'. sst4 s n (pixel_vec NB dec0 n) = Inr s' \<and> length s' = 2048 \<and> (\<forall>n\<in>set (ys @ [n]). staged NB dec0 n s')"
    using room length_blit[OF room] a(2) by (auto simp: sst4_def store_n_ok)
qed (use assms in simp)

lemma flush_ok:
  assumes "length dec = 2048" "length out = 2048" "\<forall>n<512. staged NB dec0 n dec" "set ord = {0..<32}"
  shows "flush ord dec out = Inr (map (pixel_word NB dec0) [0..<2048])"
proof -
  let ?ns = "concat (map (\<lambda>lane. map (\<lambda>i. i * 32 + lane) [0..<16]) ord)"
  have "flush ord dec out = fold_res (\<lambda>n out. rbind (load_n dec (4 * swizzle n) 4) (\<lambda>v. store_n out (4 * n) v)) ?ns out"
    unfolding flush_def fold_res_concat fold_res_map flush_lane_def Let_def ..
  moreover have "\<exists>out'. fold_res (\<lambda>n out. rbind (load_n dec (4 * swizzle n) 4) (\<lambda>v. store_n out (4 * n) v)) ?ns out = Inr out'
    \<and> length out' = 2048 \<and> (\<forall>n\<in>set ?ns. \<forall>m<4. out' ! (4 * n + m) = pixel_word NB dec0 (4 * n + m))"
  proof (rule fold_res_inv[where I = "\<lambda>done out. length out = 2048 \<and> (\<forall>n\<in>set done. \<forall>m<4. out ! (4 * n + m) = pixel_word NB dec0 (4 * n + m))"])
    fix ys n zs s assume a: "?ns = ys @ n # zs" "length s = 2048 \<and> (\<forall>n\<in>set ys. \<forall>m<4. s ! (4 * n + m) = pixel_word NB dec0 (4 * n + m))"
    have "n \<in> set ?ns" unfolding a(1) by simp
    then have n: "n < 512" using assms(4) by auto
    have l: "load_n dec (4 * swizzle n) 4 = Inr (take 4 (drop (4 * swizzle n) dec))" using swizzle_ok[OF n] assms(1) by (intro load_n_ok) simp
    let ?v = "take 4 (drop (4 * swizzle n) dec)"
    have v: "length ?v = 4" "m < 4 \<Longrightarrow> ?v ! m = pixel_word NB dec0 (4 * n + m)" for m
      using swizzle_ok[OF n] assms(1,3) n by (auto simp: staged_def)
    have room: "4 * n + length ?v \<le> length s" using a(2) n v(1) by simp
    have "blit s (4 * n) ?v ! (4 * k + m) = pixel_word NB dec0 (4 * k + m)" if "k \<in> set (ys @ [n])" "m < 4" for k m
      using nth_blit[OF room, of "4 * k + m"] v that a(2) by (cases "k = n") auto
    then show "\<exists>s'. rbind (load_n dec (4 * swizzle n) 4) (store_n s (4 * n)) = Inr s' \<and> length s' = 2048
        \<and> (\<forall>n\<in>set (ys @ [n]). \<forall>m<4. s' ! (4 * n + m) = pixel_word NB dec0 (4 * n + m))"
      using a(2) length_blit[OF room] by (simp add: l store_n_ok[OF room])
  qed (use assms(2) in simp)
  ultimately obtain out' where o: "flush ord dec out = Inr out'" "length out' = 2048" "\<forall>n\<in>set ?ns. \<forall>m<4. out' ! (4 * n + m) = pixel_word NB dec0 (4 * n + m)" by auto
  have "n \<in> set ?ns" if "n < 512" for n
  proof -
    have "n \<in> set (map (\<lambda>i. i * 32 + n mod 32) [0..<16])" unfolding set_map by (rule image_eqI[where x = "n div 32"]) (use that in simp_all)
    moreover have "n mod 32 \<in> set ord" using assms(4) by simp
    ultimately have "\<exists>lane\<in>set ord. n \<in> set (map (\<lambda>i. i * 32 + lane) [0..<16])" by blast
    then show ?thesis by (simp only: set_concat set_map UN_iff bex_simps)
  qed
  then have "out' ! w = pixel_word NB dec0 w" if "w < 2048" for w
    using o(3)[rule_format, of "w div 4" "w mod 4"] that by simp
  then have "out' = map (pixel_word NB dec0) [0..<2048]" using o(2) by (intro nth_equalityI) simp_all
  then show ?thesis using o(1) by simp
qed

text \<open>What the three sizes share: the places a lane loads and the vectors it stores, each of the 512 stored by some lane.\<close>

lemma loads_ok:
  assumes "\<And>lane q. lane < 32 \<Longrightarrow> q < 2 \<Longrightarrow> \<forall>i\<in>set (places lane q). i < length dec" "set ord \<subseteq> {0..<32}"
  shows "fold_res (\<lambda>lane rs. rbind (shuf_loads places dec lane) (\<lambda>r. Inr (rs @ [(lane, r)]))) ord rs0
    = Inr (rs0 @ map (\<lambda>lane. (lane, map ((!) dec) (places lane 0), map ((!) dec) (places lane 1))) ord)"
  using assms(2)
proof (induction ord arbitrary: rs0)
  case (Cons lane ord)
  then have "shuf_loads places dec lane = Inr (map ((!) dec) (places lane 0), map ((!) dec) (places lane 1))"
    using assms(1)[of lane 0] assms(1)[of lane 1] by (simp add: shuf_loads_def load_all_ok)
  then show ?case using Cons by simp
qed simp

lemma shuf_warp_pixels:
  assumes l: "length dec = 2048" "length out = 2048" and o: "set ord = {0..<32}"
    and places: "\<And>lane q. lane < 32 \<Longrightarrow> q < 2 \<Longrightarrow> \<forall>i\<in>set (places lane q). i < 2048"
    and stores: "\<And>lane q d. lane < 32 \<Longrightarrow> q < 2 \<Longrightarrow> st lane q (transpose32 (map ((!) dec) (places lane q))) d = puts NB dec (vs lane q) d"
    and within: "\<And>lane q. lane < 32 \<Longrightarrow> q < 2 \<Longrightarrow> set (vs lane q) \<subseteq> {0..<512}"
    and all: "\<And>n. n < 512 \<Longrightarrow> \<exists>lane<32. \<exists>q<2. n \<in> set (vs lane q)"
  shows "\<exists>dec'. shuf_warp places st ord dec out fl = Inr (dec', if fl then map (pixel_word NB dec) [0..<2048] else out)
    \<and> length dec' = 2048 \<and> (\<forall>n<512. staged NB dec n dec')"
proof -
  let ?rs = "map (\<lambda>lane. (lane, map ((!) dec) (places lane 0), map ((!) dec) (places lane 1))) ord"
  have rs: "fold_res (\<lambda>lane rs. rbind (shuf_loads places dec lane) (\<lambda>r. Inr (rs @ [(lane, r)]))) ord [] = Inr ?rs"
    using loads_ok[of places dec ord "[]"] places l(1) o by simp
  have run: "fold_res (shuf_stores st) ?rs d = puts NB dec (concat (map (\<lambda>lane. vs lane 0 @ vs lane 1) ord)) d" for d
    unfolding fold_res_map puts_def fold_res_concat
  proof (rule fold_res_cong)
    fix lane s assume "lane \<in> set ord"
    then have "lane < 32" using o by simp
    then have "st lane 0 (transpose32 (map ((!) dec) (places lane 0))) = puts NB dec (vs lane 0)"
      "st lane 1 (transpose32 (map ((!) dec) (places lane 1))) = puts NB dec (vs lane 1)" by (intro ext stores; simp)+
    then show "shuf_stores st (lane, map ((!) dec) (places lane 0), map ((!) dec) (places lane 1)) s = fold_res (\<lambda>n d. sst4 d n (pixel_vec NB dec n)) (vs lane 0 @ vs lane 1) s"
      by (simp add: shuf_stores_def puts_def[abs_def] fold_res_append)
  qed
  have full: "set (concat (map (\<lambda>lane. vs lane 0 @ vs lane 1) ord)) = {0..<512}"
  proof (intro equalityI subsetI)
    fix n assume "n \<in> {0..<512 :: nat}"
    then obtain lane q where lq: "lane < 32" "q < 2" "n \<in> set (vs lane q)" using all[of n] by auto
    then have "q = 0 \<or> q = 1" by auto
    then show "n \<in> set (concat (map (\<lambda>lane. vs lane 0 @ vs lane 1) ord))" using lq o by auto
  next
    fix n assume "n \<in> set (concat (map (\<lambda>lane. vs lane 0 @ vs lane 1) ord))"
    then obtain lane where "lane \<in> set ord" "n \<in> set (vs lane 0) \<union> set (vs lane 1)" by auto
    then show "n \<in> {0..<512}" using within[of lane 0] within[of lane 1] o by auto
  qed
  obtain dec' where p: "puts NB dec (concat (map (\<lambda>lane. vs lane 0 @ vs lane 1) ord)) dec = Inr dec'" "length dec' = 2048"
    "\<forall>n\<in>{0..<512}. staged NB dec n dec'" using puts_ok[OF l(1), of "concat (map (\<lambda>lane. vs lane 0 @ vs lane 1) ord)" NB] unfolding full by blast
  have d: "fold_res (shuf_stores st) ?rs dec = Inr dec'" "length dec' = 2048" "\<forall>n<512. staged NB dec n dec'" using p run by simp_all
  show ?thesis using d flush_ok[OF d(2) l(2) d(3) o] by (auto simp: shuf_warp_def rs)
qed

lemma shuf32_pixels:
  assumes "length dec = 2048" "length out = 2048" "set ord = {0..<32}"
  shows "\<exists>dec'. shuf32_warp ord dec out fl = Inr (dec', if fl then map (pixel_word 4 dec) [0..<2048] else out) \<and> length dec' = 2048 \<and> (\<forall>n<512. staged 4 dec n dec')"
  unfolding shuf32_warp_def
proof (rule shuf_warp_pixels[OF assms, where vs = "\<lambda>lane q. map (\<lambda>i. (lane + 32 * q) * 8 + i) [0..<8]"])
  fix n :: nat assume n: "n < 512"
  define g where "g = n div 8"
  have g: "g < 64" "n = (g mod 32 + 32 * (g div 32)) * 8 + n mod 8" using n by (simp_all add: g_def less_mult_imp_div_less)
  then have "g div 32 < 2" by (simp add: less_mult_imp_div_less)
  moreover have "n \<in> set (map (\<lambda>i. (g mod 32 + 32 * (g div 32)) * 8 + i) [0..<8])" unfolding set_map by (rule image_eqI[where x = "n mod 8"], rule g(2), simp)
  ultimately show "\<exists>lane<32. \<exists>q<2. n \<in> set (map (\<lambda>i. (lane + 32 * q) * 8 + i) [0..<8])" by (intro exI[of _ "g mod 32"] conjI exI[of _ "g div 32"]) simp_all
qed ((rule shuf32_store_puts; assumption) | (auto simp: shuf32_places_def)[1])+

lemma shuf16_pixels:
  assumes "length dec = 2048" "length out = 2048" "set ord = {0..<32}"
  shows "\<exists>dec'. shuf16_warp ord dec out fl = Inr (dec', if fl then map (pixel_word 2 dec) [0..<2048] else out) \<and> length dec' = 2048 \<and> (\<forall>n<512. staged 2 dec n dec')"
  unfolding shuf16_warp_def
proof (rule shuf_warp_pixels[OF assms, where vs = "\<lambda>lane p. concat (map (\<lambda>i. [(lane + 64 * p) * 4 + i, (lane + 64 * p + 32) * 4 + i]) [0..<4])"])
  fix n :: nat assume n: "n < 512"
  define g h where gh: "g = n div 4" "h = g div 32"
  have g: "g < 128" "n = g * 4 + n mod 4" using n by (simp_all add: gh less_mult_imp_div_less)
  have h: "h < 4" "g = g mod 32 + 32 * h" using g(1) by (simp_all add: gh(2) less_mult_imp_div_less)
  have e: "g = g mod 32 + 64 * (h div 2) \<or> g = g mod 32 + 64 * (h div 2) + 32"
  proof (cases "even h")
    case True
    then show ?thesis using h(2) by (auto elim!: evenE)
  next
    case False
    then show ?thesis using h(2) by (auto elim!: oddE)
  qed
  have "n \<in> set (concat (map (\<lambda>i. [(g mod 32 + 64 * (h div 2)) * 4 + i, (g mod 32 + 64 * (h div 2) + 32) * 4 + i]) [0..<4]))"
    using e g(2) by (auto intro!: bexI[of _ "n mod 4"])
  moreover have "h div 2 < 2" using h(1) by linarith
  ultimately show "\<exists>lane<32. \<exists>p<2. n \<in> set (concat (map (\<lambda>i. [(lane + 64 * p) * 4 + i, (lane + 64 * p + 32) * 4 + i]) [0..<4]))"
    by (intro exI[of _ "g mod 32"] conjI exI[of _ "h div 2"]) simp_all
qed ((rule shuf16_store_puts; assumption) | (auto simp: shuf16_places_def)[1])+

lemma shuf8_pixels:
  assumes "length dec = 2048" "length out = 2048" "set ord = {0..<32}"
  shows "\<exists>dec'. shuf8_warp ord dec out fl = Inr (dec', if fl then map (pixel_word 1 dec) [0..<2048] else out) \<and> length dec' = 2048 \<and> (\<forall>n<512. staged 1 dec n dec')"
  unfolding shuf8_warp_def
proof (rule shuf_warp_pixels[OF assms, where vs = "\<lambda>lane p. concat (map (\<lambda>s. [(lane + 128 * p + 32 * s) * 2, (lane + 128 * p + 32 * s) * 2 + 1]) [0..<4])"])
  fix n :: nat assume n: "n < 512"
  define g h where gh: "g = n div 2" "h = g div 32"
  have g: "g < 256" "n = g * 2 \<or> n = g * 2 + 1" using n by (simp add: gh less_mult_imp_div_less) (simp add: gh, linarith)
  have h: "h < 8" "g = g mod 32 + 32 * h" using g(1) by (simp_all add: gh(2) less_mult_imp_div_less)
  have e: "g = g mod 32 + 128 * (h div 4) + 32 * (h mod 4)" using h(2) mult_div_mod_eq[of 4 h] by linarith
  have "n \<in> set (concat (map (\<lambda>s. [(g mod 32 + 128 * (h div 4) + 32 * s) * 2, (g mod 32 + 128 * (h div 4) + 32 * s) * 2 + 1]) [0..<4]))"
    using e g(2) by (auto intro!: bexI[of _ "h mod 4"])
  moreover have "h div 4 < 2" using h(1) by linarith
  ultimately show "\<exists>lane<32. \<exists>p<2. n \<in> set (concat (map (\<lambda>s. [(lane + 128 * p + 32 * s) * 2, (lane + 128 * p + 32 * s) * 2 + 1]) [0..<4]))"
    by (intro exI[of _ "g mod 32"] conjI exI[of _ "h div 4"]) simp_all
qed ((rule shuf8_store_puts; assumption) | (auto simp: shuf8_places_def)[1])+

end
