(* ===== verification/CudaLz4.thy ===== *)
theory CudaLz4
  imports Lz4Spec
begin

text \<open>
  \<open>src/src/cuda/nvcomp_lz4.cuh\<close>: one warp decodes an lz4 block. The compressed bytes are read through a window of 256 bytes in shared memory; the copies are
  shared among the 32 lanes, which run each copy one after the other in the order \<open>ord\<close>: only copies that touch no common byte share a stretch without a barrier.
  \<open>slab\<close> is the memory the block lies in,
  at place \<open>p\<close>, and \<open>addr\<close> the address of \<open>slab\<close>. A position is 32 bits wide: where one that moves the decoder on would wrap around, the model is \<open>Hang\<close>.
\<close>

section \<open>The window\<close>

definition DECOMP_INPUT_BUFFER_SIZE :: nat where "DECOMP_INPUT_BUFFER_SIZE = 256"
definition DECOMP_BUFFER_PREFETCH_DIST :: nat where "DECOMP_BUFFER_PREFETCH_DIST = DECOMP_INPUT_BUFFER_SIZE div 2"

definition u32 :: "int \<Rightarrow> nat" where
  "u32 n = nat (n mod 2 ^ 32)"

definition add32 :: "nat \<Rightarrow> nat \<Rightarrow> nat res" where
  "add32 a b = (if a + b < 2 ^ 32 then Inr (a + b) else Inl Hang)"

record bufctl =
  m_offset :: int
  m_length :: nat
  m_buffer :: "byte list"

definition bc_begin :: "bufctl \<Rightarrow> nat" where "bc_begin c = u32 (m_offset c)"
definition bc_end :: "bufctl \<Rightarrow> nat" where "bc_end c = u32 (m_offset c + int DECOMP_INPUT_BUFFER_SIZE)"

text \<open>\<open>rawAt\<close>: the place in the window of a position.\<close>

definition rawAt :: "bufctl \<Rightarrow> nat \<Rightarrow> nat" where
  "rawAt c i = u32 (int i - int (bc_begin c))"

text \<open>\<open>m_compData[i]\<close>, for a place before the block too.\<close>

definition comp_at :: "byte list \<Rightarrow> nat \<Rightarrow> int \<Rightarrow> byte res" where
  "comp_at slab p i = (if int p + i < 0 then Inl Fault else load slab (nat (int p + i)))"

definition setAndAlignOffset :: "nat \<Rightarrow> nat \<Rightarrow> nat \<Rightarrow> bufctl \<Rightarrow> bufctl" where
  "setAndAlignOffset addr p offset c = c\<lparr>m_offset := int ((addr + p + offset) div 8 * 8) - int (addr + p)\<rparr>"

text \<open>The indices of a lane, \<open>i = lane; i < n; i += 32\<close>.\<close>

definition lane_steps :: "nat \<Rightarrow> nat \<Rightarrow> nat list" where
  "lane_steps lane n = map (\<lambda>k. lane + 32 * k) [0..<(n + 31 - lane) div 32]"

definition load_byte :: "byte list \<Rightarrow> nat \<Rightarrow> bufctl \<Rightarrow> nat \<Rightarrow> byte list \<Rightarrow> byte list res" where
  "load_byte slab p c i buf = rbind (comp_at slab p (m_offset c + int i)) (store buf i)"

definition loadAt :: "nat \<Rightarrow> byte list \<Rightarrow> nat \<Rightarrow> nat list \<Rightarrow> nat \<Rightarrow> bufctl \<Rightarrow> bufctl res" where
  "loadAt addr slab p ord offset c =
     (let c = setAndAlignOffset addr p offset c in
      rbind (if m_offset c + int DECOMP_INPUT_BUFFER_SIZE \<le> int (m_length c)
             then fold_res (\<lambda>lane. fold_res (\<lambda>k. load_byte slab p c (8 * lane + k)) [0..<8]) ord (m_buffer c)
             else fold_res (\<lambda>lane. fold_res (\<lambda>i buf. if m_offset c + int i < int (m_length c) then load_byte slab p c i buf else Inr buf)
                    (lane_steps lane DECOMP_INPUT_BUFFER_SIZE)) ord (m_buffer c))
        (\<lambda>buf. Inr (c\<lparr>m_buffer := buf\<rparr>)))"

section \<open>Lengths\<close>

text \<open>The two loops of \<open>readLSIC\<close>, over the window and then over the block: the position behind the length, and the length.\<close>

function lsic_global :: "byte list \<Rightarrow> nat \<Rightarrow> nat \<Rightarrow> nat \<Rightarrow> (nat \<times> nat) res" where
  "lsic_global slab p idx num =
     rbind (comp_at slab p (int idx)) (\<lambda>x. rbind (add32 idx 1) (\<lambda>idx'. rbind (add32 num (unat x)) (\<lambda>num.
       if x = 255 then lsic_global slab p idx' num else Inr (idx', num))))"
  by pat_completeness auto
termination
  by (relation "measure (\<lambda>(slab, p, idx, num). 2 ^ 32 - idx)") (auto simp: add32_def split: if_splits)

declare lsic_global.simps [simp del]

function lsic_window :: "byte list \<Rightarrow> nat \<Rightarrow> bufctl \<Rightarrow> nat \<Rightarrow> nat \<Rightarrow> (nat \<times> nat) res" where
  "lsic_window slab p c idx num =
     (if idx < bc_end c
      then rbind (load (m_buffer c) (rawAt c idx)) (\<lambda>x. rbind (add32 idx 1) (\<lambda>idx'. rbind (add32 num (unat x)) (\<lambda>num.
        if x = 255 then lsic_window slab p c idx' num else Inr (idx', num))))
      else lsic_global slab p idx num)"
  by pat_completeness auto
termination
  by (relation "measure (\<lambda>(slab, p, c, idx, num). 2 ^ 32 - idx)") (auto simp: add32_def split: if_splits)

declare lsic_window.simps [simp del]

definition readLSIC :: "byte list \<Rightarrow> nat \<Rightarrow> bufctl \<Rightarrow> nat \<Rightarrow> (nat \<times> nat) res" where
  "readLSIC slab p c idx = lsic_window slab p c idx 0"

section \<open>Copies\<close>

text \<open>\<open>dest[i] = src i\<close> for the \<open>length\<close> bytes from \<open>d\<close>; \<open>src\<close> reads the source, which may be \<open>dec\<close>.\<close>

definition coop :: "nat list \<Rightarrow> nat \<Rightarrow> nat \<Rightarrow> (byte list \<Rightarrow> nat \<Rightarrow> byte res) \<Rightarrow> byte list \<Rightarrow> byte list res" where
  "coop ord d n src dec = fold_res (\<lambda>lane. fold_res (\<lambda>i dec. rbind (src dec i) (store dec (d + i))) (lane_steps lane n)) ord dec"

definition coopCopyNoOverlap :: "nat list \<Rightarrow> nat \<Rightarrow> (byte list \<Rightarrow> nat \<Rightarrow> byte res) \<Rightarrow> nat \<Rightarrow> byte list \<Rightarrow> byte list res" where
  "coopCopyNoOverlap ord d src n = coop ord d n src"

definition coopCopyRepeat :: "nat list \<Rightarrow> nat \<Rightarrow> (byte list \<Rightarrow> nat \<Rightarrow> byte res) \<Rightarrow> nat \<Rightarrow> nat \<Rightarrow> byte list \<Rightarrow> byte list res" where
  "coopCopyRepeat ord d src dist n = coop ord d n (\<lambda>dec i. if dist = 0 then Inl Fault else src dec (i mod dist))"

definition coopCopyOverlap :: "nat list \<Rightarrow> nat \<Rightarrow> (byte list \<Rightarrow> nat \<Rightarrow> byte res) \<Rightarrow> nat \<Rightarrow> nat \<Rightarrow> byte list \<Rightarrow> byte list res" where
  "coopCopyOverlap ord d src dist n = (if dist < n then coopCopyRepeat ord d src dist n else coopCopyNoOverlap ord d src n)"

text \<open>The three sources: the window, the block, the output.\<close>

definition from_window :: "bufctl \<Rightarrow> nat \<Rightarrow> byte list \<Rightarrow> nat \<Rightarrow> byte res" where
  "from_window c pos dec i = load (m_buffer c) (rawAt c pos + i)"

definition from_block :: "byte list \<Rightarrow> nat \<Rightarrow> nat \<Rightarrow> byte list \<Rightarrow> nat \<Rightarrow> byte res" where
  "from_block slab p pos dec i = comp_at slab p (int (pos + i))"

definition from_output :: "nat \<Rightarrow> nat \<Rightarrow> byte list \<Rightarrow> nat \<Rightarrow> byte res" where
  "from_output d offset dec i = (if d + i < offset then Inl Fault else load dec (d + i - offset))"

section \<open>A block\<close>

definition decodePair :: "byte \<Rightarrow> nat \<times> nat" where
  "decodePair x = (unat x div 16, unat x mod 16)"

text \<open>\<open>readWord\<close> of the two bytes at a position.\<close>

definition readWord :: "byte \<Rightarrow> byte \<Rightarrow> nat" where
  "readWord a b = unat a + 256 * unat b"

definition read_offset :: "byte list \<Rightarrow> nat \<Rightarrow> bufctl \<Rightarrow> nat \<Rightarrow> nat res" where
  "read_offset slab p c comp_idx =
     (if comp_idx + 2 > bc_end c
      then rbind (comp_at slab p (int comp_idx)) (\<lambda>a. rbind (comp_at slab p (int comp_idx + 1)) (\<lambda>b. Inr (readWord a b)))
      else rbind (load (m_buffer c) (rawAt c comp_idx)) (\<lambda>a. rbind (load (m_buffer c) (rawAt c comp_idx + 1)) (\<lambda>b. Inr (readWord a b))))"

definition copy_literals :: "byte list \<Rightarrow> nat \<Rightarrow> nat list \<Rightarrow> bufctl \<Rightarrow> nat \<Rightarrow> nat \<Rightarrow> nat \<Rightarrow> byte list \<Rightarrow> byte list res" where
  "copy_literals slab p ord c comp_idx decomp_idx num_literals dec =
     (if num_literals + comp_idx > bc_end c then coopCopyNoOverlap ord decomp_idx (from_block slab p comp_idx) num_literals dec
      else coopCopyNoOverlap ord decomp_idx (from_window c comp_idx) num_literals dec)"

definition copy_match :: "nat list \<Rightarrow> bufctl \<Rightarrow> nat \<Rightarrow> nat \<Rightarrow> nat \<Rightarrow> nat \<Rightarrow> nat \<Rightarrow> byte list \<Rightarrow> byte list res" where
  "copy_match ord c literalStart num_literals decomp_idx offset n dec =
     (if offset \<le> num_literals \<and> bc_begin c \<le> literalStart \<and> bc_end c \<ge> literalStart + num_literals
      then coopCopyOverlap ord decomp_idx (from_window c (literalStart + (num_literals - offset))) offset n dec
      else coopCopyOverlap ord decomp_idx (from_output decomp_idx offset) offset n dec)"

text \<open>
  One turn of the loop of \<open>decompressStream\<close>: the state is \<open>comp_idx\<close>, \<open>decomp_idx\<close>, the window and the output.
\<close>

type_synonym gpu_st = "nat \<times> nat \<times> bufctl \<times> byte list"

definition gpu_match :: "byte list \<Rightarrow> nat \<Rightarrow> nat list \<Rightarrow> nat \<Rightarrow> nat \<Rightarrow> nat \<Rightarrow> gpu_st \<Rightarrow> gpu_st res" where
  "gpu_match slab p ord tok_matches literalStart num_literals s =
     (case s of (comp_idx, decomp_idx, c, dec) \<Rightarrow>
        rbind (read_offset slab p c comp_idx) (\<lambda>offset.
        rbind (add32 comp_idx 2) (\<lambda>comp_idx.
        rbind (if tok_matches = 15 then readLSIC slab p c comp_idx else Inr (comp_idx, 0)) (\<lambda>(comp_idx, more).
        rbind (add32 (4 + tok_matches) more) (\<lambda>n.
        rbind (copy_match ord c literalStart num_literals decomp_idx offset n dec) (\<lambda>dec.
        rbind (add32 decomp_idx n) (\<lambda>decomp_idx. Inr (comp_idx, decomp_idx, c, dec))))))))"

definition gpu_sequence :: "nat \<Rightarrow> byte list \<Rightarrow> nat \<Rightarrow> nat list \<Rightarrow> nat \<Rightarrow> gpu_st \<Rightarrow> gpu_st res" where
  "gpu_sequence addr slab p ord comp_end s =
     (case s of (comp_idx, decomp_idx, c, dec) \<Rightarrow>
        rbind (if comp_idx + DECOMP_BUFFER_PREFETCH_DIST > bc_end c then loadAt addr slab p ord comp_idx c else Inr c) (\<lambda>c.
        rbind (load (m_buffer c) (rawAt c comp_idx)) (\<lambda>x.
        let (tok_literals, tok_matches) = decodePair x in
        rbind (add32 comp_idx 1) (\<lambda>comp_idx.
        rbind (if tok_literals = 15 then readLSIC slab p c comp_idx else Inr (comp_idx, 0)) (\<lambda>(comp_idx, more).
        rbind (add32 tok_literals more) (\<lambda>num_literals.
        rbind (add32 num_literals comp_idx) (\<lambda>behind.
        rbind (copy_literals slab p ord c comp_idx decomp_idx num_literals dec) (\<lambda>dec.
        rbind (add32 decomp_idx num_literals) (\<lambda>decomp_idx.
        if behind < comp_end then gpu_match slab p ord tok_matches comp_idx num_literals (behind, decomp_idx, c, dec)
        else Inr (behind, decomp_idx, c, dec))))))))))"

lemma add32_Inr: "add32 a b = Inr c \<longleftrightarrow> c = a + b \<and> a + b < 2 ^ 32"
  by (auto simp: add32_def)

lemma lsic_global_pos: "lsic_global slab p idx num = Inr (idx', num') \<Longrightarrow> idx < idx'"
proof (induction slab p idx num rule: lsic_global.induct)
  case (1 slab p idx num)
  from 1(2) show ?case
    by (subst (asm) lsic_global.simps) (fastforce simp: rbind_Inr_iff add32_Inr split: if_splits dest: 1(1)[rotated -1])
qed

lemma lsic_window_pos: "lsic_window slab p c idx num = Inr (idx', num') \<Longrightarrow> idx < idx'"
proof (induction slab p c idx num rule: lsic_window.induct)
  case (1 slab p c idx num)
  from 1(2) show ?case
    by (subst (asm) lsic_window.simps) (fastforce simp: rbind_Inr_iff add32_Inr split: if_splits dest: 1(1)[rotated -1] lsic_global_pos)
qed

lemma readLSIC_pos: "readLSIC slab p c idx = Inr (idx', num') \<Longrightarrow> idx < idx'"
  by (simp add: readLSIC_def lsic_window_pos)

lemma gpu_match_pos: "gpu_match slab p ord t ls nl s = Inr s' \<Longrightarrow> fst s < fst s'"
  by (cases s) (auto simp: gpu_match_def rbind_Inr_iff add32_Inr dest!: readLSIC_pos split: if_splits)

lemma gpu_sequence_pos: "gpu_sequence addr slab p ord comp_end s = Inr s' \<Longrightarrow> fst s < fst s'"
  by (cases s) (auto simp: gpu_sequence_def decodePair_def rbind_Inr_iff add32_Inr dest!: readLSIC_pos gpu_match_pos split: if_splits)

function gpu_loop :: "nat \<Rightarrow> byte list \<Rightarrow> nat \<Rightarrow> nat list \<Rightarrow> nat \<Rightarrow> gpu_st \<Rightarrow> gpu_st res" where
  "gpu_loop addr slab p ord comp_end s =
     (if fst s < comp_end then rbind (gpu_sequence addr slab p ord comp_end s) (gpu_loop addr slab p ord comp_end) else Inr s)"
  by pat_completeness auto
termination
  by (relation "measure (\<lambda>(addr, slab, p, ord, comp_end, s). comp_end - fst s)") (auto dest!: gpu_sequence_pos)

declare gpu_loop.simps [simp del]

definition decompressStream :: "nat \<Rightarrow> byte list \<Rightarrow> nat \<Rightarrow> nat list \<Rightarrow> byte list \<Rightarrow> byte list \<Rightarrow> nat \<Rightarrow> byte list res" where
  "decompressStream addr slab p ord buffer dec comp_end =
     rbind (loadAt addr slab p ord 0 \<lparr>m_offset = 0, m_length = comp_end, m_buffer = buffer\<rparr>) (\<lambda>c.
     rbind (gpu_loop addr slab p ord comp_end (0, 0, c, dec)) (\<lambda>(_, _, _, dec). Inr dec))"

section \<open>A copy by all lanes\<close>

lemma lane_steps_set: "lane < 32 \<Longrightarrow> i \<in> set (lane_steps lane n) \<longleftrightarrow> i < n \<and> i mod 32 = lane"
proof -
  assume l: "lane < 32"
  have "lane + 32 * k < n \<longleftrightarrow> k < (n + 31 - lane) div 32" for k
  proof -
    have "k < (n + 31 - lane) div 32 \<longleftrightarrow> 32 * k + 32 \<le> n + 31 - lane" using l by linarith
    then show ?thesis using l by linarith
  qed
  then have a: "set (lane_steps lane n) = {lane + 32 * k | k. lane + 32 * k < n}" by (auto simp: lane_steps_def)
  show "i \<in> set (lane_steps lane n) \<longleftrightarrow> i < n \<and> i mod 32 = lane"
  proof
    assume "i < n \<and> i mod 32 = lane"
    then have "i = lane + 32 * (i div 32) \<and> i < n" using mod_mult_div_eq[of i 32] by metis
    then show "i \<in> set (lane_steps lane n)" unfolding a by (intro CollectI exI[of _ "i div 32"] conjI; linarith)
  qed (use a l in auto)
qed

definition warp_steps :: "nat list \<Rightarrow> nat \<Rightarrow> nat list" where
  "warp_steps ord n = concat (map (\<lambda>lane. lane_steps lane n) ord)"

lemma warp_steps_set: "set ord = {0..<32} \<Longrightarrow> set (warp_steps ord n) = {0..<n}"
  by (auto simp: warp_steps_def lane_steps_set)

lemma coop_ok:
  assumes o: "set ord = {0..<32}" and room: "d + n \<le> length dec"
    and src: "\<And>dec' i. length dec' = length dec \<Longrightarrow> take d dec' = take d dec \<Longrightarrow> i < n \<Longrightarrow> src dec' i = Inr (v i)"
  shows "coop ord d n src dec = Inr (blit dec d (map v [0..<n]))"
proof -
  let ?step = "\<lambda>i dec. rbind (src dec i) (store dec (d + i))"
  let ?I = "\<lambda>done dec'. length dec' = length dec \<and> (\<forall>j<length dec. (j < d \<or> d + n \<le> j \<longrightarrow> dec' ! j = dec ! j) \<and> (d \<le> j \<and> j - d \<in> set done \<longrightarrow> dec' ! j = v (j - d)))"
  have "coop ord d n src dec = fold_res ?step (warp_steps ord n) dec" unfolding coop_def warp_steps_def fold_res_concat ..
  moreover have "\<exists>dec'. fold_res ?step (warp_steps ord n) dec = Inr dec' \<and> ?I (warp_steps ord n) dec'"
  proof (rule fold_res_inv[where I = ?I])
    fix ys i zs dec' assume a: "warp_steps ord n = ys @ i # zs" "?I ys dec'"
    have "i \<in> set (warp_steps ord n)" unfolding a(1) by simp
    then have i: "i < n" using warp_steps_set[OF o] by simp
    have "take d dec' = take d dec" by (rule nth_equalityI) (use a(2) room in auto)
    then have "src dec' i = Inr (v i)" using src a(2) i by blast
    moreover have "d + i < length dec'" using i room a(2) by simp
    ultimately show "\<exists>s'. ?step i dec' = Inr s' \<and> ?I (ys @ [i]) s'" using a(2) i by (auto simp: store_ok nth_list_update)
  qed simp
  ultimately obtain dec' where d: "coop ord d n src dec = Inr dec'" "?I (warp_steps ord n) dec'" by auto
  have l: "length dec' = length dec" using d(2) by blast
  have room': "d + length (map v [0..<n]) \<le> length dec" using room by simp
  have "dec' = blit dec d (map v [0..<n])"
  proof (rule nth_equalityI)
    show "length dec' = length (blit dec d (map v [0..<n]))" using l length_blit[OF room'] by simp
    fix j assume "j < length dec'"
    then have j: "j < length dec" using l by simp
    show "dec' ! j = blit dec d (map v [0..<n]) ! j" using d(2) j unfolding nth_blit[OF room'] warp_steps_set[OF o] by auto
  qed
  then show ?thesis using d(1) by simp
qed

section \<open>The window\<close>

text \<open>The block \<open>src\<close> lies at \<open>p\<close>, with eight bytes before it.\<close>

definition block_lies :: "byte list \<Rightarrow> nat \<Rightarrow> byte list \<Rightarrow> bool" where
  "block_lies slab p src \<longleftrightarrow> 8 \<le> p \<and> p + length src \<le> length slab \<and> (\<forall>j<length src. slab ! (p + j) = src ! j) \<and> length src < 2 ^ 31"

text \<open>The window holds the bytes of the block in its reach.\<close>

definition win_ok :: "byte list \<Rightarrow> bufctl \<Rightarrow> bool" where
  "win_ok src c \<longleftrightarrow> length (m_buffer c) = 256 \<and> m_length c = length src \<and> - 8 < m_offset c \<and> m_offset c < 2 ^ 31
     \<and> (\<forall>j<length src. m_offset c \<le> int j \<and> int j < m_offset c + 256 \<longrightarrow> m_buffer c ! nat (int j - m_offset c) = src ! j)"

lemma comp_at_ok: "block_lies slab p src \<Longrightarrow> j < length src \<Longrightarrow> comp_at slab p (int j) = Inr (src ! j)"
  by (simp add: block_lies_def comp_at_def load_ok nat_add_distrib)

lemma aligned: "int ((a + k) div 8 * 8) - int a \<le> int k" "int k - 8 < int ((a + k) div 8 * 8) - int a"
  by linarith+

lemma loadAt_ok:
  assumes o: "set ord = {0..<32}" and b: "block_lies slab p src" and l: "length (m_buffer c) = 256" "m_length c = length src" and off: "offset < length src"
  shows "\<exists>c'. loadAt addr slab p ord offset c = Inr c' \<and> win_ok src c' \<and> m_offset c' \<le> int offset \<and> int offset < m_offset c' + 8"
proof -
  define mo where "mo = int ((addr + p + offset) div 8 * 8) - int (addr + p)"
  define c1 where "c1 = c\<lparr>m_offset := mo\<rparr>"
  have mo: "mo \<le> int offset" "int offset < mo + 8" using aligned[where a = "addr + p" and k = offset] by (simp_all add: mo_def)
  let ?I = "\<lambda>done buf. length buf = 256 \<and> (\<forall>i\<in>set done. 0 \<le> mo + int i \<and> mo + int i < int (length src) \<longrightarrow> buf ! i = src ! nat (mo + int i))"
  let ?f = "if mo + 256 \<le> int (length src) then fold_res (\<lambda>lane. fold_res (\<lambda>k. load_byte slab p c1 (8 * lane + k)) [0..<8]) ord (m_buffer c1)
      else fold_res (\<lambda>lane. fold_res (\<lambda>i buf. if m_offset c1 + int i < int (m_length c1) then load_byte slab p c1 i buf else Inr buf) (lane_steps lane 256)) ord (m_buffer c1)"
  have byte: "\<exists>buf'. load_byte slab p c1 i buf = Inr buf' \<and> ?I (ys @ [i]) buf'" if i: "i < 256" "mo + int i < int (length src)" and I: "?I ys buf" for i ys buf
  proof -
    have n: "0 \<le> int p + (mo + int i)" using mo b by (simp add: block_lies_def)
    have "int p + (mo + int i) < int (length slab)" using i(2) b unfolding block_lies_def by linarith
    then have "nat (int p + (mo + int i)) < length slab" using n by (simp add: nat_less_iff)
    then have "load_byte slab p c1 i buf = Inr (buf[i := slab ! nat (int p + (mo + int i))])"
      using n I i(1) by (simp add: load_byte_def comp_at_def c1_def load_ok store_ok)
    moreover have "slab ! nat (int p + (mo + int i)) = src ! nat (mo + int i)" if "0 \<le> mo + int i"
    proof -
      have "nat (int p + (mo + int i)) = p + nat (mo + int i)" using that by (simp add: nat_add_distrib)
      then show ?thesis using b i(2) that by (simp add: block_lies_def)
    qed
    ultimately show ?thesis using I i(1) by (auto simp: nth_list_update)
  qed
  have "\<exists>buf. ?f = Inr buf \<and> ?I [0..<256] buf"
  proof (cases "mo + 256 \<le> int (length src)")
    case True
    let ?xs = "concat (map (\<lambda>lane. map (\<lambda>k. 8 * lane + k) [0..<8]) ord)"
    have s: "set ?xs = {0..<256}"
    proof (intro equalityI subsetI)
      fix i assume "i \<in> {0..<256 :: nat}"
      then have "i = 8 * (i div 8) + i mod 8" "i div 8 \<in> set ord" using o by (simp_all add: less_mult_imp_div_less)
      then have "\<exists>lane\<in>set ord. i \<in> set (map (\<lambda>k. 8 * lane + k) [0..<8])"
        by (intro bexI[of _ "i div 8"]) (auto intro: image_eqI[of _ _ "i mod 8"])
      then show "i \<in> set ?xs" by auto
    qed (use o in auto)
    have f: "?f = fold_res (load_byte slab p c1) ?xs (m_buffer c1)" unfolding if_P[OF True] fold_res_concat fold_res_map ..
    have "\<exists>buf. fold_res (load_byte slab p c1) ?xs (m_buffer c1) = Inr buf \<and> ?I ?xs buf"
    proof (rule fold_res_inv[where I = ?I])
      fix ys i zs buf assume a: "?xs = ys @ i # zs" "?I ys buf"
      have "i \<in> set ?xs" unfolding a(1) by simp
      then have "i < 256" unfolding s by simp
      then show "\<exists>s'. load_byte slab p c1 i buf = Inr s' \<and> ?I (ys @ [i]) s'" using byte[of i buf ys] a(2) True by simp
    qed (simp add: l c1_def)
    then show ?thesis unfolding f s by simp
  next
    case False
    let ?g = "\<lambda>i buf. if mo + int i < int (length src) then load_byte slab p c1 i buf else Inr buf"
    have f: "?f = fold_res ?g (warp_steps ord 256) (m_buffer c1)" using False by (simp add: warp_steps_def fold_res_concat c1_def l(2))
    have "\<exists>buf. fold_res ?g (warp_steps ord 256) (m_buffer c1) = Inr buf \<and> ?I (warp_steps ord 256) buf"
    proof (rule fold_res_inv[where I = ?I])
      fix ys i zs buf assume a: "warp_steps ord 256 = ys @ i # zs" "?I ys buf"
      have "i \<in> set (warp_steps ord 256)" unfolding a(1) by simp
      then have "i < 256" using warp_steps_set[OF o] by simp
      then show "\<exists>s'. ?g i buf = Inr s' \<and> ?I (ys @ [i]) s'" using byte[of i buf ys] a(2) by auto
    qed (simp add: l c1_def)
    then show ?thesis unfolding f warp_steps_set[OF o] by simp
  qed
  then obtain buf where buf: "?f = Inr buf" "?I [0..<256] buf" by blast
  have r: "loadAt addr slab p ord offset c = Inr (c1\<lparr>m_buffer := buf\<rparr>)"
    using buf(1) unfolding loadAt_def setAndAlignOffset_def Let_def mo_def[symmetric] c1_def[symmetric] by (simp add: DECOMP_INPUT_BUFFER_SIZE_def c1_def l(2) split: if_splits)
  have "win_ok src (c1\<lparr>m_buffer := buf\<rparr>)"
    using buf(2) mo off b l(2) by (auto simp: win_ok_def c1_def block_lies_def)
  then show ?thesis using r mo by (auto simp: c1_def)
qed

lemma bc_end_ok: "win_ok src c \<Longrightarrow> int (bc_end c) = m_offset c + 256"
  by (simp add: win_ok_def bc_end_def u32_def DECOMP_INPUT_BUFFER_SIZE_def)

lemma rawAt_ok: "win_ok src c \<Longrightarrow> m_offset c \<le> int i \<Longrightarrow> i < 2 ^ 31 \<Longrightarrow> rawAt c i = nat (int i - m_offset c)"
proof -
  assume a: "win_ok src c" "m_offset c \<le> int i" "i < 2 ^ 31"
  have "int (bc_begin c) = m_offset c mod 2 ^ 32" by (simp add: bc_begin_def u32_def)
  then have "(int i - int (bc_begin c)) mod 2 ^ 32 = (int i - m_offset c) mod 2 ^ 32" by (simp only: mod_diff_right_eq)
  also have "\<dots> = int i - m_offset c" by (rule mod_pos_pos_trivial) (use a in \<open>simp_all add: win_ok_def\<close>)
  finally show ?thesis by (simp add: rawAt_def u32_def)
qed

lemma window_byte:
  assumes "win_ok src c" "m_offset c \<le> int i" "i + j < length src" "i + j < bc_end c" "length src < 2 ^ 31"
  shows "load (m_buffer c) (rawAt c i + j) = Inr (src ! (i + j))"
proof -
  have e: "int (i + j) < m_offset c + 256" using assms(4) bc_end_ok[OF assms(1)] by linarith
  have r: "rawAt c i + j = nat (int (i + j) - m_offset c)" using rawAt_ok[OF assms(1,2)] assms(2,3,5) by (simp add: nat_add_distrib nat_diff_distrib algebra_simps)
  have "length (m_buffer c) = 256" "m_buffer c ! nat (int (i + j) - m_offset c) = src ! (i + j)"
    using assms(1-3) e unfolding win_ok_def by auto
  then show ?thesis unfolding r using e assms(2) by (simp add: load_ok)
qed

section \<open>Lengths\<close>

lemma ext_len_step:
  assumes "ext_len src cap ip len = Inr (ip', len')"
  shows "ip < length src" "len + unat (src ! ip) \<le> cap"
    "src ! ip = 255 \<Longrightarrow> ext_len src cap (ip + 1) (len + unat (src ! ip)) = Inr (ip', len')"
    "src ! ip \<noteq> 255 \<Longrightarrow> ip' = ip + 1 \<and> len' = len + unat (src ! ip)"
  using assms by (subst (asm) ext_len.simps; simp add: Let_def split: if_splits)+

lemma lsic_global_ok:
  assumes "block_lies slab p src" "ext_len src cap ip len = Inr (ip', len')" "num \<le> len" "cap < 2 ^ 31"
  shows "lsic_global slab p ip num = Inr (ip', num + (len' - len)) \<and> len \<le> len' \<and> len' \<le> cap \<and> ip' \<le> length src"
  using assms
proof (induction src cap ip len arbitrary: num rule: ext_len.induct)
  case (1 src cap ip len)
  note s = ext_len_step[OF "1.prems"(2)]
  have b: "length src < 2 ^ 31" using "1.prems"(1) by (simp add: block_lies_def)
  have a: "add32 ip 1 = Inr (ip + 1)" "add32 num (unat (src ! ip)) = Inr (num + unat (src ! ip))"
    using s(1,2) b "1.prems"(3,4) by (simp_all add: add32_def)
  note e = lsic_global.simps[of slab p ip num, unfolded comp_at_ok[OF "1.prems"(1) s(1)] rbind.simps a]
  show ?case
  proof (cases "src ! ip = 255")
    case True
    have "lsic_global slab p (ip + 1) (num + unat (src ! ip)) = Inr (ip', num + unat (src ! ip) + (len' - (len + unat (src ! ip))))
        \<and> len + unat (src ! ip) \<le> len' \<and> len' \<le> cap \<and> ip' \<le> length src"
      by (rule "1.IH"[OF _ refl refl _ _ "1.prems"(1) s(3)[OF True] _ "1.prems"(4)]) (use s True "1.prems"(3) in auto)
    then show ?thesis using e True by simp
  next
    case False
    then show ?thesis using e s(1,2,4) by simp
  qed
qed

lemma lsic_window_ok:
  assumes "block_lies slab p src" "win_ok src c" "m_offset c \<le> int ip" "ext_len src cap ip len = Inr (ip', len')" "num \<le> len" "cap < 2 ^ 31"
  shows "lsic_window slab p c ip num = Inr (ip', num + (len' - len)) \<and> len \<le> len' \<and> len' \<le> cap \<and> ip' \<le> length src"
  using assms
proof (induction src cap ip len arbitrary: num rule: ext_len.induct)
  case (1 src cap ip len)
  note s = ext_len_step[OF "1.prems"(4)]
  have b: "length src < 2 ^ 31" using "1.prems"(1) by (simp add: block_lies_def)
  have a: "add32 ip 1 = Inr (ip + 1)" "add32 num (unat (src ! ip)) = Inr (num + unat (src ! ip))"
    using s(1,2) b "1.prems"(5,6) by (simp_all add: add32_def)
  show ?case
  proof (cases "ip < bc_end c")
    case False
    then show ?thesis using lsic_global_ok[OF "1.prems"(1,4,5,6)] by (subst lsic_window.simps) simp
  next
    case True
    have ld: "load (m_buffer c) (rawAt c ip) = Inr (src ! ip)" using window_byte[OF "1.prems"(2,3), of 0] s(1) True b by simp
    note e = lsic_window.simps[of slab p c ip num, unfolded if_P[OF True] ld rbind.simps a]
    show ?thesis
    proof (cases "src ! ip = 255")
      case True
      have "lsic_window slab p c (ip + 1) (num + unat (src ! ip)) = Inr (ip', num + unat (src ! ip) + (len' - (len + unat (src ! ip))))
          \<and> len + unat (src ! ip) \<le> len' \<and> len' \<le> cap \<and> ip' \<le> length src"
        by (rule "1.IH"[OF _ refl refl _ _ "1.prems"(1,2) _ s(3)[OF True] _ "1.prems"(6)]) (use s True "1.prems"(3,5) in auto)
      then show ?thesis using e True by simp
    next
      case False
      then show ?thesis using e s(1,2,4) by simp
    qed
  qed
qed

text \<open>A length of the format: a nibble, and its continuation when it is 15.\<close>

lemma length_ok:
  assumes "block_lies slab p src" "win_ok src c" "m_offset c \<le> int ip" "cap < 2 ^ 31" "nib \<le> 15"
    and "(if nib = 15 then ext_len src cap ip 15 else Inr (ip, nib)) = Inr (ip', len)" "ip \<le> length src"
  shows "\<exists>more. (if nib = 15 then readLSIC slab p c ip else Inr (ip, 0)) = Inr (ip', more) \<and> len = nib + more \<and> len \<le> max 15 cap \<and> ip' \<le> length src \<and> ip \<le> ip'"
proof (cases "nib = 15")
  case True
  then have e: "ext_len src cap ip 15 = Inr (ip', len)" using assms(6) by simp
  from lsic_window_ok[OF assms(1-3) e, of 0] assms(4) show ?thesis using True ext_len_ip[OF e] by (auto simp: readLSIC_def)
qed (use assms in auto)

section \<open>Copies\<close>

lemma copy_literals_ok:
  assumes o: "set ord = {0..<32}" and b: "block_lies slab p src" "win_ok src c" "m_offset c \<le> int ip" "ip + lit \<le> length src" and d: "d + lit \<le> length dec"
  shows "copy_literals slab p ord c ip d lit dec = Inr (blit dec d (take lit (drop ip src)))"
proof -
  have v: "map (\<lambda>i. src ! (ip + i)) [0..<lit] = take lit (drop ip src)" by (rule nth_equalityI) (use b(4) in simp_all)
  have "length src < 2 ^ 31" using b(1) by (simp add: block_lies_def)
  note w = window_byte[OF b(2,3) _ _ this]
  show ?thesis
  proof (cases "lit + ip > bc_end c")
    case True
    have "coop ord d lit (from_block slab p ip) dec = Inr (blit dec d (map (\<lambda>i. src ! (ip + i)) [0..<lit]))"
      by (rule coop_ok[OF o d]) (use b comp_at_ok[OF b(1)] in \<open>simp add: from_block_def flip: of_nat_add\<close>)
    then show ?thesis using True by (simp add: copy_literals_def coopCopyNoOverlap_def v)
  next
    case False
    have "coop ord d lit (from_window c ip) dec = Inr (blit dec d (map (\<lambda>i. src ! (ip + i)) [0..<lit]))"
      by (rule coop_ok[OF o d]) (use b(4) w False in \<open>simp add: from_window_def\<close>)
    then show ?thesis using False by (simp add: copy_literals_def coopCopyNoOverlap_def v)
  qed
qed

lemma coopCopyOverlap_ok:
  assumes o: "set ord = {0..<32}" and d: "d + n \<le> length dec" "0 < off"
    and S: "\<And>dec' k. length dec' = length dec \<Longrightarrow> take d dec' = take d dec \<Longrightarrow> k < off \<Longrightarrow> S dec' k = Inr (v k)"
  shows "coopCopyOverlap ord d S off n dec = Inr (blit dec d (map (\<lambda>i. v (i mod off)) [0..<n]))"
proof (cases "off < n")
  case True
  have "coop ord d n (\<lambda>dec i. if off = 0 then Inl Fault else S dec (i mod off)) dec = Inr (blit dec d (map (\<lambda>i. v (i mod off)) [0..<n]))"
    by (rule coop_ok[OF o d(1)]) (use S d(2) in simp)
  then show ?thesis using True by (simp add: coopCopyOverlap_def coopCopyRepeat_def)
next
  case False
  have "coop ord d n S dec = Inr (blit dec d (map (\<lambda>i. v (i mod off)) [0..<n]))"
    by (rule coop_ok[OF o d(1)]) (use S False in simp)
  then show ?thesis using False by (simp add: coopCopyOverlap_def coopCopyNoOverlap_def)
qed

lemma periodic_append:
  assumes "0 < off" "off \<le> length out"
  shows "out @ map (\<lambda>i. out ! (length out - off + i mod off)) [0..<n] = append_match out off n"
proof (rule append_match_unique[OF assms])
  fix i assume i: "length out \<le> i" "i < length out + n"
  let ?xs = "out @ map (\<lambda>i. out ! (length out - off + i mod off)) [0..<n]"
  define k where "k = i - length out"
  have k: "i = length out + k" "k < n" using i by (simp_all add: k_def)
  show "?xs ! i = ?xs ! (i - off)"
  proof (cases "k < off")
    case True
    then have "i - off < length out" "i - off = length out - off + k" using k assms by linarith+
    then show ?thesis using k True by (simp add: nth_append)
  next
    case False
    then have "i - off = length out + (k - off)" "(k - off) mod off = k mod off" "k - off < n" using k by (simp_all add: le_mod_geq)
    then show ?thesis using k by (simp add: nth_append)
  qed
qed simp_all

lemma copy_match_ok:
  assumes o: "set ord = {0..<32}" and b: "block_lies slab p src" "win_ok src c" "m_offset c \<le> int ls" "ls + lit \<le> length src"
    and out: "take (length out) dec = out" "out = out0 @ take lit (drop ls src)" and d: "length out + n \<le> length dec" "0 < off" "off \<le> length out"
  shows "copy_match ord c ls lit (length out) off n dec = Inr (blit dec (length out) (map (\<lambda>i. out ! (length out - off + i mod off)) [0..<n]))"
proof (cases "off \<le> lit \<and> bc_begin c \<le> ls \<and> bc_end c \<ge> ls + lit")
  case True
  have "length src < 2 ^ 31" using b(1) by (simp add: block_lies_def)
  have mo: "m_offset c \<le> int (ls + (lit - off))" using b(3) by simp
  have ll: "length (take lit (drop ls src)) = lit" using b(4) by simp
  have "from_window c (ls + (lit - off)) dec' k = Inr (out ! (length out - off + k))" if k: "k < off" for dec' k
  proof -
    have "length out0 \<le> length out - off + k" "length out - off + k - length out0 = lit - off + k" using True k out(2) ll d(3) by (auto simp: min_def)
    then have "out ! (length out - off + k) = take lit (drop ls src) ! (lit - off + k)" by (subst out(2)) (simp add: nth_append)
    also have "\<dots> = src ! (ls + (lit - off) + k)"
    proof -
      define j where "j = lit - off + k"
      have j: "j < lit" "ls + (lit - off) + k = ls + j" using True k by (auto simp: j_def)
      show ?thesis unfolding j_def[symmetric] j(2) using j(1) b(4) by simp
    qed
    finally have val: "out ! (length out - off + k) = src ! (ls + (lit - off) + k)" .
    have "lit - off + k < lit" using True k by linarith
    then have "ls + (lit - off) + k < length src" "ls + (lit - off) + k < bc_end c" using True b(4) by linarith+
    then show ?thesis unfolding from_window_def val by (rule window_byte[OF b(2) mo]) fact
  qed
  then have "coopCopyOverlap ord (length out) (from_window c (ls + (lit - off))) off n dec
    = Inr (blit dec (length out) (map (\<lambda>i. out ! (length out - off + i mod off)) [0..<n]))"
    by (intro coopCopyOverlap_ok[OF o d(1,2), where v = "\<lambda>k. out ! (length out - off + k)"])
  then show ?thesis using True by (simp add: copy_match_def)
next
  case False
  have "from_output (length out) off dec' k = Inr (out ! (length out - off + k))"
    if "length dec' = length dec" "take (length out) dec' = take (length out) dec" "k < off" for dec' k
  proof -
    have i: "length out + k - off < length out" "length out + k - off = length out - off + k" using that(3) d by linarith+
    have "dec' ! (length out + k - off) = take (length out) dec' ! (length out + k - off)" using i(1) by simp
    also have "\<dots> = out ! (length out + k - off)" unfolding that(2) out(1) ..
    finally have v: "dec' ! (length out + k - off) = out ! (length out + k - off)" .
    have "\<not> length out + k < off" "length out + k - off < length dec'" using i(1) d that(1) by linarith+
    then have "from_output (length out) off dec' k = Inr (out ! (length out + k - off))" by (simp add: from_output_def load_ok v)
    then show ?thesis unfolding i(2) .
  qed
  then have "coopCopyOverlap ord (length out) (from_output (length out) off) off n dec
    = Inr (blit dec (length out) (map (\<lambda>i. out ! (length out - off + i mod off)) [0..<n]))"
    by (intro coopCopyOverlap_ok[OF o d(1,2), where v = "\<lambda>k. out ! (length out - off + k)"])
  then show ?thesis using False by (auto simp: copy_match_def)
qed

lemma read_offset_ok:
  assumes "block_lies slab p src" "win_ok src c" "m_offset c \<le> int ip" "ip + 2 \<le> length src"
  shows "read_offset slab p c ip = Inr (unat (src ! ip) + 256 * unat (src ! (ip + 1)))"
proof -
  have l: "length src < 2 ^ 31" using assms(1) by (simp add: block_lies_def)
  have g: "comp_at slab p (int ip) = Inr (src ! ip)" "comp_at slab p (int ip + 1) = Inr (src ! (ip + 1))"
    using comp_at_ok[OF assms(1), of ip] comp_at_ok[OF assms(1), of "ip + 1"] assms(4) by (simp_all add: add.commute)
  show ?thesis
  proof (cases "ip + 2 > bc_end c")
    case False
    then have "load (m_buffer c) (rawAt c ip) = Inr (src ! ip)" "load (m_buffer c) (rawAt c ip + 1) = Inr (src ! (ip + 1))"
      using window_byte[OF assms(2,3), of 0] window_byte[OF assms(2,3), of 1] assms(4) l by simp_all
    then show ?thesis using False by (simp add: read_offset_def readWord_def)
  qed (use g in \<open>simp add: read_offset_def readWord_def\<close>)
qed

section \<open>The loop\<close>

text \<open>What the loop keeps: the window behind the position, and the output so far at the start of the buffer.\<close>

definition gpu_ok :: "byte list \<Rightarrow> nat \<Rightarrow> byte list \<Rightarrow> nat \<Rightarrow> byte list \<Rightarrow> gpu_st \<Rightarrow> bool" where
  "gpu_ok src cap dec0 ip out s \<longleftrightarrow> (case s of (comp_idx, decomp_idx, c, dec) \<Rightarrow> comp_idx = ip \<and> decomp_idx = length out \<and> win_ok src c \<and> m_offset c \<le> int ip
     \<and> length dec = length dec0 \<and> length out \<le> cap \<and> take (length out) dec = out \<and> drop cap dec = drop cap dec0)"

lemma blit_out_prefix:
  assumes "take n xs = ys" "length ys = n" "n + length vs \<le> cap" "cap \<le> length xs"
  shows "take (n + length vs) (blit xs n vs) = ys @ vs" "drop cap (blit xs n vs) = drop cap xs" "length (blit xs n vs) = length xs"
proof -
  show "take (n + length vs) (blit xs n vs) = ys @ vs" using assms by (simp add: blit_def)
  show "length (blit xs n vs) = length xs" using assms by (intro length_blit) simp
  show "drop cap (blit xs n vs) = drop cap xs" by (rule nth_equalityI) (use assms in \<open>simp_all add: nth_blit length_blit\<close>)
qed

lemma gpu_match_ok:
  assumes o: "set ord = {0..<32}" and b: "block_lies slab p src" and cap: "cap \<le> length dec0" "cap < 2 ^ 31"
    and s: "gpu_ok src cap dec0 ip out s" and ls: "out = out0 @ take lit (drop ls src)" "ls + lit = ip" "m_offset (fst (snd (snd s))) \<le> int ls" "ip \<le> length src"
    and m: "seq_match src cap token ip (length out) = Inr (ip2, off, n)" and t: "token < 256"
  shows "\<exists>s'. gpu_match slab p ord (token mod 16) ls lit s = Inr s' \<and> gpu_ok src cap dec0 ip2 (append_match out off n) s' \<and> ip2 \<le> length src"
proof -
  obtain c dec where sd: "s = (ip, length out, c, dec)" and w: "win_ok src c" "m_offset c \<le> int ip" "length dec = length dec0" "length out \<le> cap"
    "take (length out) dec = out" "drop cap dec = drop cap dec0" using s by (cases s) (auto simp: gpu_ok_def)
  have bl: "length src < 2 ^ 31" using b by (simp add: block_lies_def)
  have l2: "ip + 2 \<le> length src" "off = unat (src ! ip) + 256 * unat (src ! (ip + 1))" using m by (auto simp: seq_match_def Let_def rbind_Inr_iff split: if_splits)
  obtain n0 where e: "(if token mod 16 = 15 then ext_len src cap (ip + 2) 15 else Inr (ip + 2, token mod 16)) = Inr (ip2, n0)" and n: "n = n0 + 4"
    using m by (auto simp: seq_match_def Let_def rbind_Inr_iff split: if_splits)
  note q = seq_match_ip[OF m]
  have mo2: "m_offset c \<le> int (ip + 2)" using w(2) by simp
  have nib: "token mod 16 \<le> 15" using mod_less_divisor[of 16 token] by linarith
  from length_ok[OF b w(1) mo2 cap(2) nib e] l2(1) obtain more where
    r: "(if token mod 16 = 15 then readLSIC slab p c (ip + 2) else Inr (ip + 2, 0)) = Inr (ip2, more)" "n0 = token mod 16 + more" "n0 \<le> max 15 cap" "ip2 \<le> length src" by blast
  have mls: "m_offset c \<le> int ls" using ls(3) sd by simp
  have room: "length out + n \<le> length dec" using q w(3) cap(1) by simp
  have cm: "copy_match ord c ls lit (length out) off n dec = Inr (blit dec (length out) (map (\<lambda>i. out ! (length out - off + i mod off)) [0..<n]))"
    by (rule copy_match_ok[OF o b w(1) mls _ w(5) ls(1) room]) (use ls(2,4) q in simp_all)
  let ?dec = "blit dec (length out) (map (\<lambda>i. out ! (length out - off + i mod off)) [0..<n])"
  have bp: "take (length out + n) ?dec = append_match out off n" "drop cap ?dec = drop cap dec" "length ?dec = length dec"
    using blit_out_prefix[OF w(5) refl, of "map (\<lambda>i. out ! (length out - off + i mod off)) [0..<n]" cap] q cap(1) w(3) periodic_append[of off out n] by simp_all
  have a: "add32 ip 2 = Inr (ip + 2)" "add32 (4 + token mod 16) more = Inr n" "add32 (length out) n = Inr (length out + n)"
    using l2(1) bl r(2) n q cap(2) w(4) by (simp_all add: add32_def)
  have ro: "read_offset slab p c ip = Inr off" using read_offset_ok[OF b w(1,2) l2(1)] l2(2) by simp
  have run: "gpu_match slab p ord (token mod 16) ls lit s = Inr (ip2, length out + n, c, ?dec)"
    unfolding sd gpu_match_def case_prod_conv ro rbind.simps a(1) r(1) a(2) cm a(3) ..
  have "m_offset c \<le> int ip2" using w(2) q by simp
  then have "gpu_ok src cap dec0 ip2 (append_match out off n) (ip2, length out + n, c, ?dec)" using w bp q by (simp add: gpu_ok_def)
  then show ?thesis using run r(4) by blast
qed

lemma gpu_sequence_ok:
  assumes o: "set ord = {0..<32}" and b: "block_lies slab p src" and cap: "cap \<le> length dec0" "cap < 2 ^ 31"
    and s: "gpu_ok src cap dec0 ip out s" and l: "seq_literals src cap ip (length out) = Inr (token, ip1, lit)"
    and m: "ip1 + lit \<noteq> length src \<Longrightarrow> seq_match src cap token (ip1 + lit) (length out + lit) = Inr (ip2, off, n)"
  shows "\<exists>s'. gpu_sequence addr slab p ord (length src) s = Inr s' \<and>
    (if ip1 + lit = length src then gpu_ok src cap dec0 (length src) (out @ take lit (drop ip1 src)) s'
     else gpu_ok src cap dec0 ip2 (append_match (out @ take lit (drop ip1 src)) off n) s' \<and> ip2 \<le> length src)"
proof -
  obtain c0 dec where sd: "s = (ip, length out, c0, dec)" and w0: "win_ok src c0" "m_offset c0 \<le> int ip" and w: "length dec = length dec0" "length out \<le> cap"
    "take (length out) dec = out" "drop cap dec = drop cap dec0" using s by (cases s) (auto simp: gpu_ok_def)
  have bl: "length src < 2 ^ 31" using b by (simp add: block_lies_def)
  have ip: "ip < length src" and tok: "token = unat (src ! ip)"
    and e: "(if token div 16 = 15 then ext_len src cap (ip + 1) 15 else Inr (ip + 1, token div 16)) = Inr (ip1, lit)"
    using l by (auto simp: seq_literals_def Let_def rbind_Inr_iff split: if_splits)
  have l3: "ip1 + lit \<le> length src" "length out + lit \<le> cap" using seq_literals_ip[OF l] by simp_all
  have t256: "token < 256" unfolding tok using unsigned_less[of "src ! ip"] by simp
  have "\<exists>c. (if ip + DECOMP_BUFFER_PREFETCH_DIST > bc_end c0 then loadAt addr slab p ord ip c0 else Inr c0) = Inr c \<and> win_ok src c \<and> m_offset c \<le> int ip \<and> ip < bc_end c"
  proof (cases "ip + DECOMP_BUFFER_PREFETCH_DIST > bc_end c0")
    case True
    have "length (m_buffer c0) = 256" "m_length c0 = length src" using w0(1) by (simp_all add: win_ok_def)
    from loadAt_ok[OF o b this ip] obtain c where "loadAt addr slab p ord ip c0 = Inr c" "win_ok src c" "m_offset c \<le> int ip" "int ip < m_offset c + 8" by blast
    then show ?thesis using True bc_end_ok[of src c] by simp
  qed (use w0 in \<open>simp add: DECOMP_BUFFER_PREFETCH_DIST_def DECOMP_INPUT_BUFFER_SIZE_def\<close>)
  then obtain c where c: "(if ip + DECOMP_BUFFER_PREFETCH_DIST > bc_end c0 then loadAt addr slab p ord ip c0 else Inr c0) = Inr c"
    "win_ok src c" "m_offset c \<le> int ip" "ip < bc_end c" by blast
  have x: "load (m_buffer c) (rawAt c ip) = Inr (src ! ip)" using window_byte[OF c(2,3), of 0] ip c(4) bl by simp
  have nib: "token div 16 \<le> 15" using t256 by linarith
  have mo1: "m_offset c \<le> int (ip + 1)" using c(3) by simp
  have ipl: "ip + 1 \<le> length src" using ip by simp
  from length_ok[OF b c(2) mo1 cap(2) nib e ipl] obtain more where
    r: "(if token div 16 = 15 then readLSIC slab p c (ip + 1) else Inr (ip + 1, 0)) = Inr (ip1, more)" "lit = token div 16 + more" "ip + 1 \<le> ip1" by blast
  have mls: "m_offset c \<le> int ip1" using mo1 r(3) by simp
  have room: "length out + lit \<le> length dec" using l3(2) cap(1) w(1) by simp
  let ?dec = "blit dec (length out) (take lit (drop ip1 src))" and ?out = "out @ take lit (drop ip1 src)"
  have cl: "copy_literals slab p ord c ip1 (length out) lit dec = Inr ?dec" by (rule copy_literals_ok[OF o b c(2) mls l3(1) room])
  have ll: "length (take lit (drop ip1 src)) = lit" using l3(1) by simp
  have bp: "take (length out + lit) ?dec = ?out" "drop cap ?dec = drop cap dec" "length ?dec = length dec"
    using blit_out_prefix[OF w(3) refl, of "take lit (drop ip1 src)" cap] l3(2) cap(1) w(1) ll by simp_all
  have a: "add32 ip 1 = Inr (ip + 1)" "add32 (token div 16) more = Inr lit" "add32 lit ip1 = Inr (ip1 + lit)" "add32 (length out) lit = Inr (length out + lit)"
    using ip bl r(2) l3 cap(2) by (simp_all add: add32_def)
  have run: "gpu_sequence addr slab p ord (length src) s
    = (if ip1 + lit < length src then gpu_match slab p ord (token mod 16) ip1 lit (ip1 + lit, length out + lit, c, ?dec) else Inr (ip1 + lit, length out + lit, c, ?dec))"
    unfolding sd gpu_sequence_def case_prod_conv c(1) rbind.simps x decodePair_def Let_def tok[symmetric] a(1) r(1) a(2) a(3) cl a(4) ..
  have ok: "gpu_ok src cap dec0 (ip1 + lit) ?out (ip1 + lit, length out + lit, c, ?dec)"
    using c(2) mls bp w l3(2) ll by (simp add: gpu_ok_def)
  show ?thesis
  proof (cases "ip1 + lit = length src")
    case True
    then show ?thesis using run ok by simp
  next
    case False
    have m': "seq_match src cap token (ip1 + lit) (length ?out) = Inr (ip2, off, n)" using m[OF False] ll by simp
    have "\<exists>s'. gpu_match slab p ord (token mod 16) ip1 lit (ip1 + lit, length out + lit, c, ?dec) = Inr s'
        \<and> gpu_ok src cap dec0 ip2 (append_match ?out off n) s' \<and> ip2 \<le> length src"
      by (rule gpu_match_ok[OF o b cap ok refl refl _ l3(1) m' t256]) (use mls in simp)
    then show ?thesis using run False l3(1) by simp
  qed
qed

lemma gpu_loop_ok:
  assumes "set ord = {0..<32}" "block_lies slab p src" "cap \<le> length dec0" "cap < 2 ^ 31"
    and "gpu_ok src cap dec0 ip out s" "lz4_seqs src cap ip out = Inr res"
  shows "\<exists>s'. gpu_loop addr slab p ord (length src) s = Inr s' \<and> gpu_ok src cap dec0 (length src) res s'"
  using assms
proof (induction src cap ip out arbitrary: s rule: lz4_seqs.induct)
  case (1 src cap ip out)
  note prem = "1.prems"
  obtain token ip1 lit where l: "seq_literals src cap ip (length out) = Inr (token, ip1, lit)"
    and rest: "(if ip1 + lit = length src then Inr (out @ take lit (drop ip1 src))
      else rbind (seq_match src cap token (ip1 + lit) (length (out @ take lit (drop ip1 src)))) (\<lambda>(ip2, off, n). lz4_seqs src cap ip2 (append_match (out @ take lit (drop ip1 src)) off n))) = Inr res"
    using prem(6) by (subst (asm) lz4_seqs.simps) (auto simp: rbind_Inr_iff Let_def)
  have ip: "ip < length src" "ip1 + lit \<le> length src" using seq_literals_ip[OF l] by auto
  have ll: "length (take lit (drop ip1 src)) = lit" using ip(2) by simp
  have f: "fst s = ip" using prem(5) by (cases s) (simp add: gpu_ok_def)
  show ?case
  proof (cases "ip1 + lit = length src")
    case True
    have "\<exists>s'. gpu_sequence addr slab p ord (length src) s = Inr s' \<and> gpu_ok src cap dec0 (length src) res s'"
      using gpu_sequence_ok[OF prem(1-5) l, of _ _ _ addr] True rest by auto
    then obtain s' where s': "gpu_sequence addr slab p ord (length src) s = Inr s'" "gpu_ok src cap dec0 (length src) res s'" by blast
    have "fst s' = length src" using s'(2) by (cases s') (simp add: gpu_ok_def)
    then have "gpu_loop addr slab p ord (length src) s' = Inr s'" by (subst gpu_loop.simps) simp
    then show ?thesis using s' f ip(1) by (subst gpu_loop.simps) simp
  next
    case False
    then obtain ip2 off n where m: "seq_match src cap token (ip1 + lit) (length (out @ take lit (drop ip1 src))) = Inr (ip2, off, n)"
      and rec: "lz4_seqs src cap ip2 (append_match (out @ take lit (drop ip1 src)) off n) = Inr res" using rest by (auto simp: rbind_Inr_iff)
    have m': "seq_match src cap token (ip1 + lit) (length out + lit) = Inr (ip2, off, n)" using m ll by simp
    from gpu_sequence_ok[OF prem(1-5) l m', of addr] False obtain s' where s': "gpu_sequence addr slab p ord (length src) s = Inr s'"
      "gpu_ok src cap dec0 ip2 (append_match (out @ take lit (drop ip1 src)) off n) s'" by auto
    from "1.IH"[OF l refl refl refl False m refl refl prem(1-4) s'(2) rec] obtain s'' where
      "gpu_loop addr slab p ord (length src) s' = Inr s''" "gpu_ok src cap dec0 (length src) res s''" by blast
    then show ?thesis using s'(1) f ip(1) by (subst gpu_loop.simps) simp
  qed
qed

lemma decompressStream_ok:
  assumes "lz4_block src cap = Inr out" "cap \<le> length dec" "cap < 2 ^ 31" "length buffer = 256"
    and "set ord = {0..<32}" "block_lies slab p src"
  shows "\<exists>dec'. decompressStream addr slab p ord buffer dec (length src) = Inr dec' \<and> take cap dec' = out \<and> drop cap dec' = drop cap dec \<and> length dec' = length dec"
proof -
  have l: "lz4_seqs src cap 0 [] = Inr out" "length out = cap" using assms(1) by (auto simp: lz4_block_def rbind_Inr_iff split: if_splits)
  then obtain t where "seq_literals src cap 0 0 = Inr t" by (subst (asm) lz4_seqs.simps) (auto simp: rbind_Inr_iff)
  then have ne: "0 < length src" by (auto simp: seq_literals_def split: if_splits)
  let ?c = "\<lparr>m_offset = 0, m_length = length src, m_buffer = buffer\<rparr>"
  from loadAt_ok[OF assms(5,6) _ _ ne, of ?c addr] assms(4) obtain c where c: "loadAt addr slab p ord 0 ?c = Inr c" "win_ok src c" "m_offset c \<le> int 0" by auto
  have "gpu_ok src cap dec 0 [] (0, 0, c, dec)" using c by (simp add: gpu_ok_def)
  from gpu_loop_ok[OF assms(5,6,2,3) this l(1), of addr] obtain s' where s': "gpu_loop addr slab p ord (length src) (0, 0, c, dec) = Inr s'"
    "gpu_ok src cap dec (length src) out s'" by blast
  then show ?thesis using c(1) l(2) by (cases s') (auto simp: decompressStream_def gpu_ok_def)
qed

lemma coop_fault: "0 < n \<Longrightarrow> src dec 0 = Inl Fault \<Longrightarrow> coop [0..<32] d n src dec = Inl Fault"
proof -
  assume n: "0 < n" and s: "src dec 0 = Inl Fault"
  define k where "k = (n + 31) div 32"
  have "0 < k" using n unfolding k_def by linarith
  then have "[0..<k] = 0 # [1..<k]" by (simp add: upt_conv_Cons)
  then have "lane_steps 0 n = 0 # map (\<lambda>k. 32 * k) [1..<k]" by (simp add: lane_steps_def k_def)
  moreover have "[0..<32 :: nat] = 0 # [1..<32]" by (simp add: upt_conv_Cons)
  ultimately show ?thesis using s by (simp add: coop_def)
qed

text \<open>A block that starts with a match: the first lane reads before the output.\<close>

lemma early_match_faults:
  assumes b: "block_lies slab p src" and l: "3 \<le> length src" "length buffer = 256" and t: "unat (src ! 0) < 15" and off: "0 < unat (src ! 1) + 256 * unat (src ! 2)"
  shows "decompressStream addr slab p [0..<32] buffer dec (length src) = Inl Fault"
proof -
  let ?c = "\<lparr>m_offset = 0, m_length = length src, m_buffer = buffer\<rparr>" and ?off = "unat (src ! 1) + 256 * unat (src ! 2)"
  have o: "set [0..<32 :: nat] = {0..<32}" by simp
  have ne: "0 < length src" "length (m_buffer ?c) = 256" "m_length ?c = length src" using l by auto
  from loadAt_ok[OF o b ne(2,3,1), of addr] obtain c where c: "loadAt addr slab p [0..<32] 0 ?c = Inr c" "win_ok src c" "m_offset c \<le> int 0" "int 0 < m_offset c + 8" by blast
  have sl: "length src < 2 ^ 31" using b by (simp add: block_lies_def)
  have e: "128 \<le> bc_end c" using bc_end_ok[OF c(2)] c(4) by linarith
  then have nl: "\<not> 0 + DECOMP_BUFFER_PREFETCH_DIST > bc_end c" by (simp add: DECOMP_BUFFER_PREFETCH_DIST_def DECOMP_INPUT_BUFFER_SIZE_def)
  have x: "load (m_buffer c) (rawAt c 0) = Inr (src ! 0)" using window_byte[OF c(2,3), of 0] ne(1) e sl by simp
  have d: "decodePair (src ! 0) = (0, unat (src ! 0))" using t by (simp add: decodePair_def)
  have m1: "m_offset c \<le> int 1" using c(3) by simp
  have cl: "copy_literals slab p [0..<32] c 1 0 0 dec = Inr dec" using copy_literals_ok[OF o b c(2) m1, of 0 0 dec] l(1) by simp
  have ro: "read_offset slab p c 1 = Inr ?off" using read_offset_ok[OF b c(2) m1] l(1) by (simp add: numeral_2_eq_2)
  have cm: "copy_match [0..<32] c 1 0 0 ?off n dec = Inl Fault" if "0 < n" for n
    using that off by (simp add: copy_match_def coopCopyOverlap_def coopCopyRepeat_def coopCopyNoOverlap_def coop_fault from_output_def)
  have a: "add32 0 1 = Inr 1" "add32 0 0 = Inr 0" "add32 1 2 = Inr 3" "add32 (4 + unat (src ! 0)) 0 = Inr (4 + unat (src ! 0))" "add32 0 1 = Inr 1" using t by (simp_all add: add32_def)
  have g: "gpu_match slab p [0..<32] (unat (src ! 0)) 1 0 (1, 0, c, dec) = Inl Fault"
    unfolding gpu_match_def prod.case ro rbind.simps a using t by (simp add: a cm[unfolded One_nat_def])
  have "gpu_sequence addr slab p [0..<32] (length src) (0, 0, c, dec) = Inl Fault"
    unfolding gpu_sequence_def prod.case if_not_P[OF nl] rbind.simps x d Let_def a using l(1) by (simp add: a[unfolded One_nat_def] cl[unfolded One_nat_def] g[unfolded One_nat_def])
  then show ?thesis using c(1) ne(1) by (simp add: decompressStream_def) (subst gpu_loop.simps, simp)
qed



end
