(* ===== verification/CudaUnblock.thy ===== *)
theory CudaUnblock
  imports CudaLz4 Frames
begin

text \<open>
  \<open>src/src/cuda/bslz4_split.cu\<close>, the kernel \<open>unblock\<close>: one thread per chunk checks its header and walks its block headers. The threads run in any order.
\<close>

section \<open>The kernel\<close>

text \<open>The arguments that \<open>unblock\<close> and \<open>decompress\<close> share. \<open>g_addr\<close> is the address of the slab of chunks, chunk \<open>i\<close> its bytes from \<open>g_off ! i\<close> to \<open>g_end ! i\<close>.\<close>

record gpu_job =
  g_addr :: nat
  g_slab :: "byte list"
  g_off :: "int list"
  g_end :: "int list"
  g_nstored :: nat
  g_tocopy :: nat
  g_ntot :: nat
  g_total :: nat
  g_bpp :: nat
  g_stride :: nat

text \<open>\<open>read32be\<close> of a place in the slab.\<close>

definition read32be :: "byte list \<Rightarrow> int \<Rightarrow> 32 word res" where
  "read32be slab i =
     rbind (comp_at slab 0 i) (\<lambda>b0. rbind (comp_at slab 0 (i + 1)) (\<lambda>b1. rbind (comp_at slab 0 (i + 2)) (\<lambda>b2. rbind (comp_at slab 0 (i + 3)) (\<lambda>b3.
       Inr (push_bit 24 (ucast b0) OR push_bit 16 (ucast b1) OR push_bit 8 (ucast b2) OR ucast b3)))))"

definition u64 :: "nat \<Rightarrow> nat" where
  "u64 n = n mod 2 ^ 64"

text \<open>The code of the header of the chunk at \<open>c\<close>, 0 when it is right.\<close>

definition unblock_header :: "gpu_job \<Rightarrow> int \<Rightarrow> nat \<Rightarrow> int res" where
  "unblock_header J c len =
     rbind (read32be (g_slab J) (c + 8)) (\<lambda>bs. rbind (read32be (g_slab J) c) (\<lambda>hi.
     if hi \<noteq> 0 then Inr 3
     else rbind (read32be (g_slab J) (c + 4)) (\<lambda>lo.
       if unat lo \<noteq> g_total J then Inr 3
       else if bs \<noteq> 0 \<and> bs \<noteq> 8192 then Inr 4
       else if g_nstored J \<noteq> 0 \<and> 20 \<le> len then rbind (read32be (g_slab J) (c + 16)) (\<lambda>m. Inr (if m = 0x28B52FFD then 5 else 0))
       else Inr 0)))"

text \<open>One turn of the walk: \<open>starts\<close>, \<open>pos\<close> and \<open>e\<close>, which is not 0 after a \<open>break\<close>.\<close>

definition unblock_block :: "gpu_job \<Rightarrow> int \<Rightarrow> nat \<Rightarrow> nat \<Rightarrow> nat \<Rightarrow> 32 word list \<times> nat \<times> int \<Rightarrow> (32 word list \<times> nat \<times> int) res" where
  "unblock_block J c len base b s = (case s of (starts, pos, e) \<Rightarrow>
     if e \<noteq> 0 then Inr (starts, pos, e)
     else if u64 (pos + 4) > len then Inr (starts, pos, 1)
     else rbind (read32be (g_slab J) (c + int pos)) (\<lambda>l.
       if u64 (pos + 4 + unat l) > len then Inr (starts, pos, 1)
       else rbind (store starts (base + b) (word_of_nat pos)) (\<lambda>starts. Inr (starts, u64 (pos + (4 + unat l) mod 2 ^ 32), 0))))"

definition unblock_image :: "gpu_job \<Rightarrow> nat \<Rightarrow> 32 word list \<times> int list \<Rightarrow> (32 word list \<times> int list) res" where
  "unblock_image J i s = (case s of (starts, err) \<Rightarrow>
     rbind (load (g_off J) i) (\<lambda>c. rbind (load (g_end J) i) (\<lambda>en.
     let len = nat ((en - c) mod 2 ^ 64) in
     if len < 12 then rbind (store err i 1) (\<lambda>err. Inr (starts, err))
     else rbind (unblock_header J c len) (\<lambda>e.
       if e \<noteq> 0 then rbind (store err i e) (\<lambda>err. Inr (starts, err))
       else rbind (fold_res (unblock_block J c len (i * g_nstored J)) [0..<g_nstored J] (starts, 12, 0)) (\<lambda>(starts, pos, e).
         rbind (store err i (if e = 0 \<and> u64 (pos + g_tocopy J) \<noteq> len then 2 else e)) (\<lambda>err. Inr (starts, err)))))))"

definition unblock :: "gpu_job \<Rightarrow> nat \<Rightarrow> nat list \<Rightarrow> 32 word list \<times> int list \<Rightarrow> (32 word list \<times> int list) res" where
  "unblock J n ids s = fold_res (\<lambda>i s. if n \<le> i then Inr s else unblock_image J i s) ids s"

section \<open>What the walk does\<close>

text \<open>Chunk \<open>i\<close> of a job, and what the header must say: the CPU's check against \<open>g_total\<close> and 8 kB, and no zstd block first.\<close>

definition job_chunk :: "gpu_job \<Rightarrow> nat \<Rightarrow> chunk" where
  "job_chunk J i = \<lparr>ck_mem = take (nat (g_end J ! i - g_off J ! i)) (drop (nat (g_off J ! i)) (g_slab J)), ck_len = g_end J ! i - g_off J ! i\<rparr>"

definition chunk_lies :: "gpu_job \<Rightarrow> nat \<Rightarrow> bool" where
  "chunk_lies J i \<longleftrightarrow> i < length (g_off J) \<and> i < length (g_end J) \<and> 0 \<le> g_off J ! i \<and> g_off J ! i \<le> g_end J ! i \<and> g_end J ! i \<le> int (length (g_slab J))
     \<and> g_end J ! i - g_off J ! i < 2 ^ 31"

definition zstd_first :: "chunk \<Rightarrow> bool" where
  "zstd_first c \<longleftrightarrow> 20 \<le> ck_len c \<and> bslz4_read_be32 (ck_mem c) 16 = Inr 0x28B52FFD"

definition gpu_header :: "gpu_job \<Rightarrow> chunk \<Rightarrow> bool" where
  "gpu_header J c \<longleftrightarrow> 12 \<le> ck_len c \<and> same_header (word_of_nat (g_total J)) 8192 c = Inr () \<and> (g_nstored J \<noteq> 0 \<longrightarrow> \<not> zstd_first c)"

definition gpu_accepts :: "gpu_job \<Rightarrow> nat \<Rightarrow> bool" where
  "gpu_accepts J i \<longleftrightarrow> gpu_header J (job_chunk J i) \<and> walk_status (job_chunk J i) (g_nstored J) (g_tocopy J) = 0"

lemma comp_at_0: "0 \<le> i \<Longrightarrow> i < int (length slab) \<Longrightarrow> comp_at slab 0 i = Inr (slab ! nat i)"
  by (simp add: comp_at_def load_ok nat_less_iff)

lemma job_chunk_len: "ck_len (job_chunk J i) = g_end J ! i - g_off J ! i"
  by (simp add: job_chunk_def)

lemma job_chunk_mem:
  assumes "chunk_lies J i"
  shows "length (ck_mem (job_chunk J i)) = nat (g_end J ! i - g_off J ! i)"
    and "k < nat (g_end J ! i - g_off J ! i) \<Longrightarrow> ck_mem (job_chunk J i) ! k = g_slab J ! nat (g_off J ! i + int k)"
proof -
  have n: "nat (g_off J ! i) + nat (g_end J ! i - g_off J ! i) \<le> length (g_slab J)" using assms unfolding chunk_lies_def by linarith
  then show "length (ck_mem (job_chunk J i)) = nat (g_end J ! i - g_off J ! i)" by (simp add: job_chunk_def)
  assume "k < nat (g_end J ! i - g_off J ! i)"
  then show "ck_mem (job_chunk J i) ! k = g_slab J ! nat (g_off J ! i + int k)"
    using n assms by (simp add: job_chunk_def chunk_lies_def nat_add_distrib)
qed

lemma job_chunk_readable: "chunk_lies J i \<Longrightarrow> readable_chunk (job_chunk J i)"
  by (simp add: readable_chunk_def job_chunk_mem job_chunk_len chunk_lies_def)

lemma job_chunk_at:
  assumes "chunk_lies J i" "int k < g_end J ! i - g_off J ! i"
  shows "comp_at (g_slab J) 0 (g_off J ! i + int k) = Inr (ck_mem (job_chunk J i) ! k)"
proof -
  have k: "k < nat (g_end J ! i - g_off J ! i)" using assms(2) by simp
  show ?thesis unfolding job_chunk_mem(2)[OF assms(1) k] using assms by (intro comp_at_0) (simp_all add: chunk_lies_def)
qed

lemma read32be_chunk:
  assumes "chunk_lies J i" "int k + 4 \<le> ck_len (job_chunk J i)"
  shows "read32be (g_slab J) (g_off J ! i + int k) = bslz4_read_be32 (ck_mem (job_chunk J i)) k"
proof -
  have l: "k + 4 \<le> length (ck_mem (job_chunk J i))" using job_chunk_mem(1)[OF assms(1)] assms(2) by (simp add: job_chunk_len)
  have a: "comp_at (g_slab J) 0 (g_off J ! i + int k + int d) = Inr (ck_mem (job_chunk J i) ! (k + d))" if "d < 4" for d
    using job_chunk_at[OF assms(1), of "k + d"] that assms(2) by (simp add: job_chunk_len add.assoc)
  show ?thesis using a[of 0] a[of 1] a[of 2] a[of 3] l by (simp add: read32be_def bslz4_read_be32_def load_ok)
qed

text \<open>The eight bytes of the frame's size as two words.\<close>

lemma read_be64_halves:
  assumes "bslz4_read_be32 buf p = Inr h" "bslz4_read_be32 buf (p + 4) = Inr l"
  shows "bslz4_read_be64 buf p = Inr (push_bit 32 (ucast h) OR ucast l)"
proof -
  have b: "p + 7 < length buf" using assms(2) by (simp add: bslz4_read_be32_def load_def split: if_splits)
  have p: "p + 4 + 1 = p + 5" "p + 4 + 2 = p + 6" "p + 4 + 3 = p + 7" by simp_all
  have hl: "h = push_bit 24 (ucast (buf ! p)) OR push_bit 16 (ucast (buf ! (p + 1))) OR push_bit 8 (ucast (buf ! (p + 2))) OR ucast (buf ! (p + 3))"
    "l = push_bit 24 (ucast (buf ! (p + 4))) OR push_bit 16 (ucast (buf ! (p + 5))) OR push_bit 8 (ucast (buf ! (p + 6))) OR ucast (buf ! (p + 7))"
    using assms b by (simp_all add: bslz4_read_be32_def load_ok p add.commute[of 5 p] add.commute[of 6 p])
  have e: "bslz4_read_be64 buf p = Inr (push_bit 56 (ucast (buf ! p)) OR push_bit 48 (ucast (buf ! (p + 1))) OR push_bit 40 (ucast (buf ! (p + 2)))
      OR push_bit 32 (ucast (buf ! (p + 3))) OR push_bit 24 (ucast (buf ! (p + 4))) OR push_bit 16 (ucast (buf ! (p + 5))) OR push_bit 8 (ucast (buf ! (p + 6))) OR ucast (buf ! (p + 7)))"
    using b by (simp add: bslz4_read_be64_def numeral_eq_Suc load_ok push_bit_or or.assoc)
  have u: "ucast (push_bit d (ucast x :: 32 word)) = (push_bit d (ucast x) :: 64 word)" if "d \<le> 24" for d and x :: byte
    by (rule bit_word_eqI) (use that in \<open>auto simp: bit_simps dest: bit_imp_le_length\<close>)
  show ?thesis unfolding e hl unsigned_or_eq using u[of 0] u[of 8] u[of 16] u[of 24] by (simp add: push_bit_or or.assoc)
qed

lemma halves_eq:
  assumes "t < 2 ^ 32"
  shows "push_bit 32 (ucast (h :: 32 word)) OR ucast (l :: 32 word) = (word_of_nat t :: 64 word) \<longleftrightarrow> h = 0 \<and> unat l = t"
proof
  assume e: "push_bit 32 (ucast h) OR ucast l = (word_of_nat t :: 64 word)"
  have h: "h = 0"
  proof (rule bit_word_eqI)
    fix n assume n: "n < LENGTH(32)"
    have "bit (word_of_nat t :: 64 word) (n + 32) \<longleftrightarrow> bit h n" unfolding e[symmetric] using n by (auto simp: bit_simps dest: bit_imp_le_length)
    moreover have "\<not> bit t (n + 32)" using assms by (metis bit_take_bit_iff not_add_less2 take_bit_nat_eq_self_iff)
    ultimately show "bit h n = bit (0 :: 32 word) n" by (simp add: bit_simps)
  qed
  have l: "unat (ucast l :: 64 word) = unat l"
  proof -
    have "unat l < 2 ^ 32" using unsigned_less[of l, where ?'a = nat] by simp
    then have "unat l < 2 ^ 64" by simp
    then show ?thesis by (simp add: unsigned_ucast_eq take_bit_nat_eq_self)
  qed
  have t: "unat (word_of_nat t :: 64 word) = t" using assms by (simp add: unat_of_nat)
  have "ucast l = (word_of_nat t :: 64 word)" using e unfolding h by (simp only: ucast_0 push_bit_of_0 or.left_neutral)
  then have "unat l = t" using l t by metis
  then show "h = 0 \<and> unat l = t" using h by blast
next
  assume "h = 0 \<and> unat l = t"
  then have h: "h = 0" and t: "t = unat l" by simp_all
  show "push_bit 32 (ucast h) OR ucast l = (word_of_nat t :: 64 word)" unfolding h t by (simp add: word_eq_iff_unsigned unsigned_ucast_eq unsigned_of_nat)
qed

lemma unblock_header_ok:
  assumes c: "chunk_lies J i" and len: "12 \<le> ck_len (job_chunk J i)" and t: "g_total J < 2 ^ 32"
  shows "\<exists>e. unblock_header J (g_off J ! i) (nat (ck_len (job_chunk J i))) = Inr e \<and> (e = 0 \<longleftrightarrow> gpu_header J (job_chunk J i))"
proof -
  let ?c = "job_chunk J i" and ?o = "g_off J ! i"
  have l: "12 \<le> length (ck_mem ?c)" using job_chunk_mem(1)[OF c] len by (simp add: job_chunk_len)
  obtain h where h: "bslz4_read_be32 (ck_mem ?c) 0 = Inr h" using read_be32_Inr[of 0 "ck_mem ?c"] l by auto
  obtain lo where lo: "bslz4_read_be32 (ck_mem ?c) 4 = Inr lo" using read_be32_Inr[of 4 "ck_mem ?c"] l by auto
  obtain bs where bs: "bslz4_read_be32 (ck_mem ?c) 8 = Inr bs" using read_be32_Inr[of 8 "ck_mem ?c"] l by auto
  have r: "read32be (g_slab J) ?o = Inr h" "read32be (g_slab J) (?o + 4) = Inr lo" "read32be (g_slab J) (?o + 8) = Inr bs"
    using read32be_chunk[OF c, of 0] read32be_chunk[OF c, of 4] read32be_chunk[OF c, of 8] h lo bs len by simp_all
  have b8: "(if bs = 0 then BSLZ4_DEFAULT_BLOCK_BYTES else unat bs) = 8192 \<longleftrightarrow> bs = 0 \<or> bs = 8192"
    using word_unat_eq_iff[of bs 8192] by (simp add: BSLZ4_DEFAULT_BLOCK_BYTES_def)
  have head: "same_header (word_of_nat (g_total J)) 8192 ?c = Inr () \<longleftrightarrow> h = 0 \<and> unat lo = g_total J \<and> (bs = 0 \<or> bs = 8192)"
    using read_be64_halves[of "ck_mem ?c" 0 h lo] h lo bs b8 halves_eq[OF t, of h lo] by (auto simp: same_header_def header_block_bytes_def)
  show ?thesis
  proof (cases "h = 0 \<and> unat lo = g_total J \<and> (bs = 0 \<or> bs = 8192) \<and> g_nstored J \<noteq> 0 \<and> 20 \<le> nat (ck_len ?c)")
    case True
    then have "16 + 4 \<le> length (ck_mem ?c)" using job_chunk_mem(1)[OF c] by (simp add: job_chunk_len)
    then obtain m where m: "bslz4_read_be32 (ck_mem ?c) 16 = Inr m" using read_be32_Inr by blast
    moreover have "20 \<le> ck_len ?c" using True by linarith
    ultimately have "read32be (g_slab J) (?o + 16) = Inr m" using read32be_chunk[OF c, of 16] by simp
    then show ?thesis using True r head m len by (auto simp: unblock_header_def gpu_header_def zstd_first_def)
  next
    case False
    then show ?thesis using r head len by (auto simp: unblock_header_def gpu_header_def zstd_first_def)
  qed
qed

text \<open>The walk keeps step with \<open>frame_walk\<close>.\<close>

lemma u64_small [simp]: "n < 2 ^ 64 \<Longrightarrow> u64 n = n"
  by (simp add: u64_def)

definition gpu_walk_ok :: "gpu_job \<Rightarrow> nat \<Rightarrow> 32 word list \<Rightarrow> nat \<Rightarrow> 32 word list \<times> nat \<times> int \<Rightarrow> bool" where
  "gpu_walk_ok J i starts0 b s \<longleftrightarrow> (case s of (starts, pos, e) \<Rightarrow> let c = job_chunk J i; base = i * g_nstored J in
     pos = fst (frame_walk c b) \<and> int pos \<le> ck_len c \<and> (e = 0 \<longleftrightarrow> snd (frame_walk c b) = 0) \<and> length starts = length starts0
     \<and> (\<forall>j. j < base \<or> base + b \<le> j \<longrightarrow> starts ! j = starts0 ! j) \<and> (e = 0 \<longrightarrow> (\<forall>k<b. starts ! (base + k) = word_of_nat (fst (frame_walk c k)))))"

lemma unblock_block_ok:
  assumes c: "chunk_lies J i" and room: "i * g_nstored J + b < length starts0" and s: "gpu_walk_ok J i starts0 b s"
  shows "\<exists>s'. unblock_block J (g_off J ! i) (nat (ck_len (job_chunk J i))) (i * g_nstored J) b s = Inr s' \<and> gpu_walk_ok J i starts0 (Suc b) s'"
proof -
  let ?c = "job_chunk J i" and ?base = "i * g_nstored J"
  obtain starts pos e where sd: "s = (starts, pos, e)" by (cases s)
  have I: "pos = fst (frame_walk ?c b)" "int pos \<le> ck_len ?c" "e = 0 \<longleftrightarrow> snd (frame_walk ?c b) = 0" "length starts = length starts0"
    "\<And>j. j < ?base \<or> ?base + b \<le> j \<Longrightarrow> starts ! j = starts0 ! j" "\<And>k. e = 0 \<Longrightarrow> k < b \<Longrightarrow> starts ! (?base + k) = word_of_nat (fst (frame_walk ?c k))"
    using s unfolding sd gpu_walk_ok_def Let_def by auto
  have small: "ck_len ?c < 2 ^ 31" "0 \<le> ck_len ?c" using c by (simp_all add: job_chunk_len chunk_lies_def)
  have nz: "BSLZ4_ERR_CORRUPT_CHUNK \<noteq> 0" by (simp add: error_codes)
  show ?thesis
  proof (cases "e = 0")
    case False
    then have "frame_walk ?c (Suc b) = frame_walk ?c b" using I(3) by (cases "frame_walk ?c b") (simp add: frame_walk.simps(2))
    then show ?thesis using False I by (auto simp: sd unblock_block_def gpu_walk_ok_def Let_def)
  next
    case True
    then have fw: "frame_walk ?c b = (pos, 0)" using I(1,3) by (cases "frame_walk ?c b") simp
    have far: "\<not> int pos > UINT32_MAX" using I(2) small by (simp add: UINT32_MAX_def)
    have p4: "u64 (pos + 4) = pos + 4" using I(2) small by (intro u64_small) simp
    have stop: "gpu_walk_ok J i starts0 (Suc b) (starts, pos, 1)" if "next_block ?c pos = Inl x" for x
      using that fw far nz I(2,4-6) by (auto simp: gpu_walk_ok_def Let_def frame_walk.simps(2))
    show ?thesis
    proof (cases "ck_len ?c - int pos < 4")
      case short: True
      then have "next_block ?c pos = Inl (Code BSLZ4_ERR_CORRUPT_CHUNK)" by (simp add: next_block_def)
      moreover have "pos + 4 > nat (ck_len ?c)" using short small by linarith
      ultimately show ?thesis using stop True by (auto simp: sd unblock_block_def p4)
    next
      case fits: False
      then have "pos + 4 \<le> length (ck_mem ?c)" using job_chunk_mem(1)[OF c] by (simp add: job_chunk_len)
      then obtain l where l: "bslz4_read_be32 (ck_mem ?c) pos = Inr l" using read_be32_Inr by blast
      have rl: "read32be (g_slab J) (g_off J ! i + int pos) = Inr l" using read32be_chunk[OF c, of pos] fits l by simp
      have ul: "unat l < 2 ^ 32" using unsigned_less[of l] by simp
      have pl: "u64 (pos + 4 + unat l) = pos + 4 + unat l" using I(2) small ul by (intro u64_small) simp
      have in4: "\<not> pos + 4 > nat (ck_len ?c)" using fits small by linarith
      show ?thesis
      proof (cases "pos + 4 + unat l > nat (ck_len ?c)")
        case long: True
        then have "int (unat l) > ck_len ?c - int pos - 4" using small by linarith
        then have "next_block ?c pos = Inl (Code BSLZ4_ERR_CORRUPT_CHUNK)" using fits l by (simp add: next_block_def)
        then show ?thesis using stop True long in4 rl by (auto simp: sd unblock_block_def p4 pl)
      next
        case inside: False
        then have "\<not> int (unat l) > ck_len ?c - int pos - 4" using small by linarith
        then have nb: "next_block ?c pos = Inr (unat l)" using fits l by (simp add: next_block_def)
        then have fw': "frame_walk ?c (Suc b) = (pos + 4 + unat l, 0)" using fw far by (simp add: frame_walk.simps(2))
        let ?s = "(starts[?base + b := word_of_nat pos], pos + 4 + unat l, 0 :: int)"
        have "pos + 4 + unat l < 2 ^ 31" using inside small by simp
        then have pw: "u64 (pos + (4 + unat l) mod 2 ^ 32) = pos + 4 + unat l" by simp
        have rest: "unblock_block J (g_off J ! i) (nat (ck_len ?c)) ?base b s = Inr ?s"
          using True in4 inside rl room I(4) by (simp add: sd unblock_block_def p4 pl pw[simplified] store_ok)
        have "int (pos + 4 + unat l) \<le> ck_len ?c" using inside small by linarith
        then have "gpu_walk_ok J i starts0 (Suc b) ?s" using fw fw' True I(2,4-6) room by (auto simp: gpu_walk_ok_def Let_def nth_list_update less_Suc_eq)
        then show ?thesis using rest by blast
      qed
    qed
  qed
qed

text \<open>What one thread leaves: its error code and its starts, and nothing of another image.\<close>

definition unblocked :: "gpu_job \<Rightarrow> nat \<Rightarrow> 32 word list \<Rightarrow> int list \<Rightarrow> bool" where
  "unblocked J i starts err \<longleftrightarrow> (err ! i = 0 \<longleftrightarrow> gpu_accepts J i)
     \<and> (gpu_accepts J i \<longrightarrow> (\<forall>b<g_nstored J. starts ! (i * g_nstored J + b) = word_of_nat (fst (frame_walk (job_chunk J i) b))))"

lemma unblock_image_ok:
  assumes c: "chunk_lies J i" and t: "g_total J < 2 ^ 32" "g_tocopy J < 2 ^ 32" and room: "(i + 1) * g_nstored J \<le> length starts" "i < length err"
  shows "\<exists>starts' err'. unblock_image J i (starts, err) = Inr (starts', err') \<and> length starts' = length starts \<and> length err' = length err
    \<and> unblocked J i starts' err' \<and> (\<forall>j. j < i * g_nstored J \<or> (i + 1) * g_nstored J \<le> j \<longrightarrow> starts' ! j = starts ! j) \<and> (\<forall>j. j \<noteq> i \<longrightarrow> err' ! j = err ! j)"
proof -
  let ?c = "job_chunk J i" and ?n = "g_nstored J"
  have len: "nat ((g_end J ! i - g_off J ! i) mod 2 ^ 64) = nat (ck_len ?c)" "0 \<le> ck_len ?c" "ck_len ?c < 2 ^ 31"
    using c by (simp_all add: job_chunk_len chunk_lies_def)
  have ld: "load (g_off J) i = Inr (g_off J ! i)" "load (g_end J) i = Inr (g_end J ! i)" using c by (simp_all add: chunk_lies_def load_ok)
  have st: "store err i e = Inr (err[i := e])" for e using room(2) by (rule store_ok)
  have refuse: ?thesis if "unblock_image J i (starts, err) = Inr (starts, err[i := e])" "e \<noteq> 0" "\<not> gpu_accepts J i" for e
    using that room(2) by (intro exI[of _ starts] exI[of _ "err[i := e]"]) (auto simp: unblocked_def)
  show ?thesis
  proof (cases "ck_len ?c < 12")
    case True
    then have "nat (ck_len ?c) < 12" by simp
    then have "unblock_image J i (starts, err) = Inr (starts, err[i := 1])" using ld st len by (simp add: unblock_image_def Let_def)
    then show ?thesis using refuse True by (auto simp: gpu_accepts_def gpu_header_def)
  next
    case False
    then obtain e where e: "unblock_header J (g_off J ! i) (nat (ck_len ?c)) = Inr e" "e = 0 \<longleftrightarrow> gpu_header J ?c" using unblock_header_ok[OF c _ t(1)] by auto
    have nl: "\<not> nat (ck_len ?c) < 12" using False by simp
    show ?thesis
    proof (cases "e = 0")
      case e0: False
      then have "unblock_image J i (starts, err) = Inr (starts, err[i := e])" using ld st len nl e by (simp add: unblock_image_def Let_def)
      then show ?thesis using refuse e0 e(2) by (auto simp: gpu_accepts_def)
    next
      case e0: True
      have "gpu_walk_ok J i starts 0 (starts, 12, 0)" using False by (simp add: gpu_walk_ok_def)
      moreover have "i * ?n + b < length starts" if "b < ?n" for b using that room(1) by simp
      ultimately have "\<exists>s'. fold_res (unblock_block J (g_off J ! i) (nat (ck_len ?c)) (i * ?n)) [0..<?n] (starts, 12, 0) = Inr s' \<and> gpu_walk_ok J i starts ?n s'"
        by (intro fold_upt_inv unblock_block_ok[OF c]) auto
      then obtain starts' pos e' where w: "fold_res (unblock_block J (g_off J ! i) (nat (ck_len ?c)) (i * ?n)) [0..<?n] (starts, 12, 0) = Inr (starts', pos, e')"
        "gpu_walk_ok J i starts ?n (starts', pos, e')" by auto
      let ?e = "if e' = 0 \<and> u64 (pos + g_tocopy J) \<noteq> nat (ck_len ?c) then 2 else e'"
      have run: "unblock_image J i (starts, err) = Inr (starts', err[i := ?e])" using ld st len nl e(1) e0 w(1) by (simp add: unblock_image_def Let_def)
      have W: "pos = fst (frame_walk ?c ?n)" "e' = 0 \<longleftrightarrow> snd (frame_walk ?c ?n) = 0" "int pos \<le> ck_len ?c" "length starts' = length starts"
        "\<And>j. j < i * ?n \<or> i * ?n + ?n \<le> j \<Longrightarrow> starts' ! j = starts ! j" "\<And>k. e' = 0 \<Longrightarrow> k < ?n \<Longrightarrow> starts' ! (i * ?n + k) = word_of_nat (fst (frame_walk ?c k))"
        using w(2) unfolding gpu_walk_ok_def Let_def by auto
      have u: "u64 (pos + g_tocopy J) = pos + g_tocopy J" using W(3) len(3) t(2) by (intro u64_small) simp
      have nz: "BSLZ4_ERR_CORRUPT_CHUNK \<noteq> 0" by (simp add: error_codes)
      have "int (pos + g_tocopy J) = ck_len ?c \<longleftrightarrow> pos + g_tocopy J = nat (ck_len ?c)" using len(2) by linarith
      then have acc: "?e = 0 \<longleftrightarrow> gpu_accepts J i"
        using W(1,2) e(2) e0 nz unfolding u by (auto simp: gpu_accepts_def walk_status_def split: prod.splits)
      then have "e' = 0" if "gpu_accepts J i" using that by (auto split: if_splits)
      then have "unblocked J i starts' (err[i := ?e])" using acc W(6) room(2) by (auto simp: unblocked_def)
      then show ?thesis using run W(4,5) by (intro exI[of _ starts'] exI[of _ "err[i := ?e]"]) (auto simp: add.commute)
    qed
  qed
qed

lemma unblock_ok:
  assumes "\<And>i. i < n \<Longrightarrow> chunk_lies J i" "g_total J < 2 ^ 32" "g_tocopy J < 2 ^ 32" "n * g_nstored J \<le> length starts" "n \<le> length err" "{0..<n} \<subseteq> set ids"
  shows "\<exists>starts' err'. unblock J n ids (starts, err) = Inr (starts', err') \<and> length starts' = length starts \<and> length err' = length err \<and> (\<forall>i<n. unblocked J i starts' err')"
proof -
  let ?I = "\<lambda>done s. case s of (starts', err') \<Rightarrow> length starts' = length starts \<and> length err' = length err \<and> (\<forall>i\<in>set done. i < n \<longrightarrow> unblocked J i starts' err')"
  have "\<exists>s'. unblock J n ids (starts, err) = Inr s' \<and> ?I ids s'" unfolding unblock_def
  proof (rule fold_res_inv[where I = ?I])
    fix ys i zs s assume a: "?I ys s"
    obtain st er where s: "s = (st, er)" by (cases s)
    show "\<exists>s'. (if n \<le> i then Inr s else unblock_image J i s) = Inr s' \<and> ?I (ys @ [i]) s'"
    proof (cases "n \<le> i")
      case False
      then have i: "i < n" by simp
      have "(i + 1) * g_nstored J \<le> n * g_nstored J" using i by (intro mult_le_mono1) simp
      then have room: "(i + 1) * g_nstored J \<le> length st" "i < length er" using a s assms(4,5) i by auto
      from unblock_image_ok[OF assms(1)[OF i] assms(2,3) room] obtain st' er' where r: "unblock_image J i (st, er) = Inr (st', er')"
        "length st' = length st" "length er' = length er" "unblocked J i st' er'"
        "\<And>j. j < i * g_nstored J \<or> (i + 1) * g_nstored J \<le> j \<Longrightarrow> st' ! j = st ! j" "\<And>j. j \<noteq> i \<Longrightarrow> er' ! j = er ! j" by blast
      have "unblocked J k st' er'" if k: "k \<in> set ys" "k < n" "k \<noteq> i" for k
      proof -
        have "st' ! (k * g_nstored J + b) = st ! (k * g_nstored J + b)" if b: "b < g_nstored J" for b
        proof (rule r(5))
          have "k + 1 \<le> i \<or> i + 1 \<le> k" using k(3) by linarith
          then have "(k + 1) * g_nstored J \<le> i * g_nstored J \<or> (i + 1) * g_nstored J \<le> k * g_nstored J" using mult_le_mono1 by blast
          then show "k * g_nstored J + b < i * g_nstored J \<or> (i + 1) * g_nstored J \<le> k * g_nstored J + b" using b by auto
        qed
        then show ?thesis using a k s r(6)[OF k(3)] by (auto simp: unblocked_def)
      qed
      then show ?thesis using a s False r by auto
    qed (use a s in auto)
  qed simp
  then show ?thesis using assms(6) by (fastforce simp: subset_iff)
qed

text \<open>
  C12: The kernel \<open>unblock\<close> and the CPU's walk agree: run over \<open>n\<close> chunks in any order of its threads, it flags the chunks that the CPU's header check or its walk
  (\<open>bslz4_block_starts\<close>) refuses and those that start with a zstd block, and no others; the starts of the rest are those the CPU's walk gives.
\<close>

theorem gpu_unblock_agrees:
  assumes "\<And>i. i < n \<Longrightarrow> chunk_lies J i" "g_total J < 2 ^ 32" "g_tocopy J < 2 ^ 32" "n * g_nstored J \<le> length starts" "n \<le> length err" "{0..<n} \<subseteq> set ids"
  shows "\<exists>starts' err'. unblock J n ids (starts, err) = Inr (starts', err') \<and> length starts' = length starts \<and> length err' = length err \<and> (\<forall>i<n. unblocked J i starts' err')"
  using assms by (rule unblock_ok)

text \<open>
  A job of one chunk: a frame of 11 one-byte pixels, 8 of them in an lz4 block of literals, 3 raw at the end; the chunk lies at 3 in the slab.
\<close>

definition gpu_sample :: gpu_job where
  "gpu_sample = \<lparr>g_addr = 4096,
     g_slab = [9, 9, 9, 0, 0, 0, 0, 0, 0, 0, 11, 0, 0, 0x20, 0, 0, 0, 0, 9, 0x80, 1, 2, 0, 0, 0, 0, 0, 0, 5, 6, 7, 9],
     g_off = [3], g_end = [31], g_nstored = 1, g_tocopy = 3, g_ntot = 1, g_total = 11, g_bpp = 1, g_stride = 16\<rparr>"

lemma gpu_sample_ok: "chunk_lies gpu_sample 0" "gpu_accepts gpu_sample 0"
  by code_simp+

lemma gpu_sample_sizes:
  "g_nstored gpu_sample = 1" "g_tocopy gpu_sample = 3" "g_ntot gpu_sample = 1" "g_total gpu_sample = 11" "g_bpp gpu_sample = 1" "g_stride gpu_sample = 16"
  by (simp_all add: gpu_sample_def)

theorem gpu_unblock_agrees_witness:
  "\<exists>starts' err'. unblock gpu_sample 1 [0] ([7], [7]) = Inr (starts', err') \<and> length starts' = 1 \<and> length err' = 1 \<and> unblocked gpu_sample 0 starts' err'"
proof -
  from gpu_unblock_agrees[of 1 gpu_sample "[7]" "[7]" "[0]"] gpu_sample_ok(1) gpu_sample_sizes show ?thesis by simp
qed

end
