(* ===== verification/CudaDecode.thy ===== *)
theory CudaDecode
  imports CudaShuffle CudaUnblock DriverFrame
begin

text \<open>
  \<open>src/src/cuda/bslz4_split.cu\<close>, the kernel \<open>decompress\<close>: one warp per 8 kB block of a frame. The warps run in any order; each has shared memory of its own,
  filled with anything at the start.
\<close>

section \<open>The kernel\<close>

text \<open>Bytes and the words they are read as: the GPU is little-endian.\<close>

definition bytes_of_words :: "32 word list \<Rightarrow> byte list" where
  "bytes_of_words ws = concat (map (\<lambda>w. map (\<lambda>i. ucast (drop_bit (8 * i) w)) [0..<4]) ws)"

definition words_of_bytes :: "byte list \<Rightarrow> 32 word list" where
  "words_of_bytes bs = map (\<lambda>w. word_of_bits (map (\<lambda>b. bit (bs ! (4 * w + b div 8)) (b mod 8)) [0..<32])) [0..<length bs div 4]"

definition shuf_for :: "nat \<Rightarrow> nat list \<Rightarrow> 32 word list \<Rightarrow> 32 word list \<Rightarrow> bool \<Rightarrow> (32 word list \<times> 32 word list) res" where
  "shuf_for bpp = (if bpp = 4 then shuf32_warp else if bpp = 2 then shuf16_warp else shuf8_warp)"

text \<open>A full block: its 8 kB of the frame, from \<open>o8\<close>.\<close>

definition decompress_full :: "gpu_job \<Rightarrow> nat list \<Rightarrow> byte list \<Rightarrow> nat \<Rightarrow> byte list \<Rightarrow> byte list res" where
  "decompress_full J ord dec o8 dense =
     rbind (load_n dense o8 8192) (\<lambda>old.
     rbind (shuf_for (g_bpp J) ord (words_of_bytes dec) (words_of_bytes old) True) (\<lambda>(_, ws). store_n dense o8 (bytes_of_words ws)))"

text \<open>The partial block: one lane gathers the bits of every 32nd pixel and stores its bytes, then one of the raw bytes.\<close>

definition tail_value :: "nat \<Rightarrow> nat \<Rightarrow> byte list \<Rightarrow> nat \<Rightarrow> 32 word res" where
  "tail_value bpp bytestride dec dest =
     fold_res (\<lambda>i val. rbind (load dec (dest div 8 + i * bytestride)) (\<lambda>b.
       Inr (if ucast b AND push_bit (dest mod 8) (1 :: 32 word) \<noteq> 0 then val OR push_bit i 1 else val))) [0..<bpp * 8] 0"

definition tail_pixel :: "nat \<Rightarrow> nat \<Rightarrow> byte list \<Rightarrow> nat \<Rightarrow> nat \<Rightarrow> byte list \<Rightarrow> byte list res" where
  "tail_pixel bpp bytestride dec ps dest dense =
     rbind (tail_value bpp bytestride dec dest) (\<lambda>val. fold_res (\<lambda>i dense. store dense (ps + (dest * bpp + i)) (ucast (drop_bit (8 * i) val))) [0..<bpp] dense)"

definition tail_lane :: "gpu_job \<Rightarrow> int \<Rightarrow> int \<Rightarrow> byte list \<Rightarrow> nat \<Rightarrow> nat \<Rightarrow> byte list \<Rightarrow> byte list res" where
  "tail_lane J c en dec ps lane dense =
     (let bpp = g_bpp J; part = g_total J - g_total J div 8192 * 8192; tocopy = part mod (bpp * 8); bsize = part - tocopy in
      rbind (fold_res (tail_pixel bpp (bsize div (8 * bpp)) dec ps) (lane_steps lane (bsize div bpp)) dense) (\<lambda>dense.
      if lane < tocopy then rbind (comp_at (g_slab J) 0 (c + (en - c) - int tocopy + int lane)) (store dense (ps + (bsize + lane))) else Inr dense))"

text \<open>A warp: its image and block, the order of its lanes, its part of \<open>inbuf\<close> and its \<open>dec\<close>.\<close>

type_synonym gpu_warp = "nat \<times> nat \<times> nat list \<times> byte list \<times> byte list"

definition decompress_warp :: "gpu_job \<Rightarrow> 32 word list \<Rightarrow> int list \<Rightarrow> gpu_warp \<Rightarrow> byte list \<Rightarrow> byte list res" where
  "decompress_warp J starts err w dense = (case w of (im, blockid, ord, inbuf, dec) \<Rightarrow>
     if g_ntot J \<le> blockid then Inr dense
     else rbind (load err im) (\<lambda>e. if e \<noteq> 0 then Inr dense
     else rbind (load (g_off J) im) (\<lambda>c. rbind (load (g_end J) im) (\<lambda>en.
       let frame = im * g_stride J; nfull = g_total J div 8192 in
       rbind (if blockid < g_nstored J
              then rbind (load starts (im * g_nstored J + blockid)) (\<lambda>st.
                rbind (read32be (g_slab J) (c + int (unat st))) (\<lambda>n.
                decompressStream (g_addr J) (g_slab J) (nat (c + int (unat st) + 4)) ord inbuf dec (unat n)))
              else Inr dec) (\<lambda>dec.
       if blockid < nfull then decompress_full J ord dec (frame + blockid * 8192) dense
       else fold_res (tail_lane J c en dec (frame + nfull * 8192)) ord dense)))))"

definition decompress :: "gpu_job \<Rightarrow> 32 word list \<Rightarrow> int list \<Rightarrow> gpu_warp list \<Rightarrow> byte list \<Rightarrow> byte list res" where
  "decompress J starts err warps dense = fold_res (decompress_warp J starts err) warps dense"

section \<open>Stores of parts of a whole\<close>

text \<open>
  \<open>f\<close> gives the cells in \<open>A\<close> of a state - \<open>get\<close> reads its \<open>L\<close> cells - their final value, keeps the others and keeps \<open>ok\<close>. \<open>writes\<close>: on a list of
  length \<open>L\<close>.
\<close>

definition sets :: "('s \<Rightarrow> bool) \<Rightarrow> ('s \<Rightarrow> nat \<Rightarrow> 'v) \<Rightarrow> (nat \<Rightarrow> 'v) \<Rightarrow> nat \<Rightarrow> nat set \<Rightarrow> ('s \<Rightarrow> 's res) \<Rightarrow> bool" where
  "sets ok get T L A f \<longleftrightarrow> (\<forall>s. ok s \<longrightarrow> (\<exists>s'. f s = Inr s' \<and> ok s' \<and> (\<forall>j<L. get s' j = (if j \<in> A then T j else get s j))))"

abbreviation writes :: "(nat \<Rightarrow> 'a) \<Rightarrow> nat \<Rightarrow> nat set \<Rightarrow> ('a list \<Rightarrow> 'a list res) \<Rightarrow> bool" where
  "writes T L A f \<equiv> sets (\<lambda>s. length s = L) (!) T L A f"

lemma sets_skip: "sets ok get T L {} Inr"
  by (simp add: sets_def)

lemma sets_bind:
  assumes "sets ok get T L A f" "sets ok get T L B g"
  shows "sets ok get T L (A \<union> B) (\<lambda>s. rbind (f s) g)"
  unfolding sets_def
proof (intro allI impI)
  fix s assume s: "ok s"
  obtain s1 where s1: "f s = Inr s1" "ok s1" "\<forall>j<L. get s1 j = (if j \<in> A then T j else get s j)" using assms(1) s unfolding sets_def by blast
  obtain s2 where "g s1 = Inr s2" "ok s2" "\<forall>j<L. get s2 j = (if j \<in> B then T j else get s1 j)" using assms(2) s1(2) unfolding sets_def by blast
  then show "\<exists>s'. rbind (f s) g = Inr s' \<and> ok s' \<and> (\<forall>j<L. get s' j = (if j \<in> A \<union> B then T j else get s j))"
    using s1 by (intro exI[of _ s2]) auto
qed

lemma sets_fold: "(\<And>x. x \<in> set xs \<Longrightarrow> sets ok get T L (A x) (f x)) \<Longrightarrow> sets ok get T L (\<Union>x\<in>set xs. A x) (fold_res f xs)"
proof (induction xs)
  case Nil
  then show ?case by (simp add: sets_def)
next
  case (Cons x xs)
  have "sets ok get T L (A x \<union> (\<Union>x\<in>set xs. A x)) (\<lambda>s. rbind (f x s) (fold_res f xs))" by (rule sets_bind) (use Cons in auto)
  then show ?case by (simp add: sets_def)
qed

lemma writes_store: "i < L \<Longrightarrow> T i = v \<Longrightarrow> writes T L {i} (\<lambda>s. store s i v)"
  by (auto simp: sets_def store_ok nth_list_update)

lemma writes_store_n:
  assumes "i + length vs \<le> L" "\<And>k. k < length vs \<Longrightarrow> T (i + k) = vs ! k"
  shows "writes T L {i..<i + length vs} (\<lambda>s. store_n s i vs)"
  unfolding sets_def
proof (intro allI impI)
  fix s :: "'a list" assume s: "length s = L"
  have r: "i + length vs \<le> length s" using assms(1) s by simp
  have "blit s i vs ! j = (if j \<in> {i..<i + length vs} then T j else s ! j)" for j
    using assms(2)[of "j - i"] by (auto simp: nth_blit[OF r])
  then show "\<exists>s'. store_n s i vs = Inr s' \<and> length s' = L \<and> (\<forall>j<L. s' ! j = (if j \<in> {i..<i + length vs} then T j else s ! j))"
    using r s by (simp add: store_n_ok length_blit)
qed

section \<open>Unshuffling on bytes\<close>

lemma words_of_bytes_bit: "4 * w + 4 \<le> length bs \<Longrightarrow> b < 32 \<Longrightarrow> bit (words_of_bytes bs ! w) b \<longleftrightarrow> bit (bs ! (4 * w + b div 8)) (b mod 8)"
  by (simp add: words_of_bytes_def)

lemma length_words_of_bytes [simp]: "length (words_of_bytes bs) = length bs div 4"
  by (simp add: words_of_bytes_def)

lemma length_bytes_of_words [simp]: "length (bytes_of_words ws) = 4 * length ws"
  by (simp add: bytes_of_words_def length_concat_same)

lemma bytes_of_words_nth: "t < 4 * length ws \<Longrightarrow> bytes_of_words ws ! t = ucast (drop_bit (8 * (t mod 4)) (ws ! (t div 4)))"
proof -
  assume t: "t < 4 * length ws"
  have "bytes_of_words ws ! (4 * (t div 4) + t mod 4) = map (\<lambda>i. ucast (drop_bit (8 * i) (ws ! (t div 4)))) [0..<4] ! (t mod 4)"
    unfolding bytes_of_words_def by (rule concat_same_nth) (use t in auto)
  then show ?thesis by simp
qed

lemma word_bit_byte:
  assumes "length dec = 8192" "NB \<in> {1, 2, 4}" "t < 8192" "q < 8"
  shows "word_bit NB (words_of_bytes dec) (t div 4) (8 * (t mod 4) + q) \<longleftrightarrow> plane_bit (8192 div NB) dec (8 * (t mod NB) + q) (t div NB)"
proof -
  define e p where "e = t div NB" and "p = 8 * (t mod NB) + q"
  have NB: "0 < NB" "NB dvd 256" "NB * (256 div NB) = 256" using assms(2) by auto
  have x: "32 * (t div 4) + (8 * (t mod 4) + q) = 8 * t + q" using mult_div_mod_eq[of 4 t] by linarith
  have pl: "p < 8 * NB" using mod_less_divisor[OF NB(1), of t] assms(4) unfolding p_def by linarith
  have te: "t = NB * e + t mod NB" by (simp add: e_def)
  have t: "8 * t + q = 8 * NB * e + p" by (subst te) (simp add: p_def)
  have ep: "(8 * t + q) div (8 * NB) = e" "(8 * t + q) mod (8 * NB) = p" unfolding t using pl NB(1) by simp_all
  have e: "e < 8192 div NB" unfolding e_def using assms(2,3) by auto
  define k where "k = p * (256 div NB) + e div 32"
  have "e div 32 < 256 div NB" using e assms(2) by (auto simp: less_mult_imp_div_less)
  then have "k < Suc p * (256 div NB)" unfolding k_def by simp
  also have "\<dots> \<le> (8 * NB) * (256 div NB)" using pl by (intro mult_le_mono1) simp
  finally have "k < 2048" using NB(3) by (simp add: mult.assoc)
  then have "bit (words_of_bytes dec ! k) (e mod 32) \<longleftrightarrow> bit (dec ! (4 * k + e mod 32 div 8)) (e mod 32 mod 8)"
    using assms(1) by (intro words_of_bytes_bit) simp_all
  moreover have "4 * k + e mod 32 div 8 = p * (8192 div NB div 8) + e div 8"
  proof -
    have "4 * (e div 32) + e mod 32 div 8 = e div 8" using div_mult_self2[of 8 "e mod 32" "4 * (e div 32)"] mult_div_mod_eq[of 32 e] by simp
    moreover have "8192 div NB div 8 = 4 * (256 div NB)" using assms(2) by auto
    ultimately show ?thesis unfolding k_def by simp
  qed
  moreover have "e mod 32 mod 8 = e mod 8" by (simp add: mod_mod_cancel)
  ultimately show ?thesis unfolding word_bit_def Let_def x ep plane_bit_def k_def e_def p_def by simp
qed

lemma shuf_for_ok:
  assumes "NB \<in> {1, 2, 4}" "length dec = 8192" "length old = 2048" "set ord = {0..<32}"
  shows "\<exists>dec' ws. shuf_for NB ord (words_of_bytes dec) old True = Inr (dec', ws) \<and> bytes_of_words ws = bytes_of_pixels NB (plane_pixels NB (8192 div NB) dec)"
proof -
  let ?W = "words_of_bytes dec" and ?ws = "map (pixel_word NB (words_of_bytes dec)) [0..<2048]"
  have l: "length ?W = 2048" using assms(2) by simp
  obtain dec' where "shuf_for NB ord ?W old True = Inr (dec', ?ws)"
    using assms(1) shuf32_pixels[OF l assms(3,4), of True] shuf16_pixels[OF l assms(3,4), of True] shuf8_pixels[OF l assms(3,4), of True]
    by (auto simp: shuf_for_def)
  moreover have "bytes_of_words ?ws = bytes_of_pixels NB (plane_pixels NB (8192 div NB) dec)"
  proof (rule nth_equalityI)
    have m: "NB * (8192 div NB) = 8192" using assms(1) by auto
    show "length (bytes_of_words ?ws) = length (bytes_of_pixels NB (plane_pixels NB (8192 div NB) dec))" using m by simp
    fix t assume "t < length (bytes_of_words ?ws)"
    then have t: "t < 8192" by simp
    have NB: "0 < NB" and e: "t div NB < 8192 div NB" using assms(1) t by auto
    have R: "bytes_of_pixels NB (plane_pixels NB (8192 div NB) dec) ! t = ucast (drop_bit (8 * (t mod NB)) (plane_pixel NB (8192 div NB) dec (t div NB)))"
      using bytes_of_pixels_nth[of "t div NB" "plane_pixels NB (8192 div NB) dec" "t mod NB" NB] e NB by (simp add: plane_pixels_nth)
    have Lt: "bytes_of_words ?ws ! t = ucast (drop_bit (8 * (t mod 4)) (pixel_word NB ?W (t div 4)))"
      using bytes_of_words_nth[of t ?ws] t by simp
    show "bytes_of_words ?ws ! t = bytes_of_pixels NB (plane_pixels NB (8192 div NB) dec) ! t"
    proof (rule byte_bits_eqI)
      fix q :: nat assume q: "q < 8"
      have "8 * (t mod 4) + q < 32" using q mod_less_divisor[of 4 t] by linarith
      moreover have "8 * (t mod NB) + q < 8 * NB" using q mod_less_divisor[OF NB, of t] by linarith
      moreover have "8 * NB \<le> 64" using assms(1) by auto
      ultimately show "bit (bytes_of_words ?ws ! t) q = bit (bytes_of_pixels NB (plane_pixels NB (8192 div NB) dec) ! t) q"
        unfolding Lt R using q word_bit_byte[OF assms(2,1) t q] by (simp add: bit_ucast_iff bit_drop_bit_eq comp_def pixel_word_def bit_plane_pixel)
    qed
  qed
  ultimately show ?thesis by blast
qed

section \<open>A block\<close>

lemma concat_nth_blocks:
  assumes "b < length xs" "\<And>i. i < b \<Longrightarrow> length (xs ! i) = K" "k < length (xs ! b)"
  shows "concat xs ! (b * K + k) = xs ! b ! k" "b * K + k < length (concat xs)"
proof -
  have l: "length (concat (take b xs)) = b * K"
  proof -
    have "length x = K" if "x \<in> set (take b xs)" for x using that assms(1,2) by (auto simp: in_set_conv_nth)
    then have "length (concat (map id (take b xs))) = K * length (take b xs)" by (intro length_concat_same) simp
    then show ?thesis using assms(1) by (simp add: min_def)
  qed
  have c: "concat xs = concat (take b xs) @ xs ! b @ concat (drop (Suc b) xs)"
    using arg_cong[OF id_take_nth_drop[OF assms(1)], of concat] by simp
  show "concat xs ! (b * K + k) = xs ! b ! k" unfolding c using l assms(3) by (simp add: nth_append)
  show "b * K + k < length (concat xs)" unfolding c using l assms(3) by simp
qed

text \<open>A chunk's blocks, one by one: block \<open>b\<close> lies where the walk arrives after \<open>b\<close> headers.\<close>

lemma chunk_planes_walk:
  assumes "ck_len c < 2 ^ 31"
  shows "chunk_planes lib dec c szs 12 = Some (ps, e) \<Longrightarrow> frame_walk c (length szs) = (e, 0)"
proof (induction szs arbitrary: ps e rule: rev_induct)
  case (snoc sz szs)
  obtain qs q n where q: "chunk_planes lib dec c szs 12 = Some (qs, q)" "next_block c q = Inr n" "e = q + n + 4"
    using snoc.prems by (auto simp: chunk_planes_append split: option.splits sum.splits)
  have "\<not> int q > UINT32_MAX" using q(2) assms by (auto simp: next_block_def UINT32_MAX_def split: if_splits)
  then show ?case using snoc.IH[OF q(1)] q(2,3) by (simp add: frame_walk.simps(2))
qed simp

lemma chunk_planes_first:
  assumes "chunk_planes lib dec c (xs @ sz # ys) pos = Some (ps, e)"
  shows "\<exists>qs q n x rest. chunk_planes lib dec c xs pos = Some (qs, q) \<and> next_block c q = Inr n \<and> codec_planes lib dec (block_bytes c q n) sz = Some x \<and> ps = qs @ x # rest"
  using assms by (auto simp: chunk_planes_append split: option.splits sum.splits)

lemma chunk_planes_at:
  assumes "ck_len c < 2 ^ 31" "chunk_planes lib dec c szs 12 = Some (ps, e)" "b < length szs"
  shows "length ps = length szs \<and> (\<exists>n. next_block c (fst (frame_walk c b)) = Inr n \<and> codec_planes lib dec (block_bytes c (fst (frame_walk c b)) n) (szs ! b) = Some (ps ! b))"
proof -
  have len: "chunk_planes lib dec c xs pos = Some (qs, q) \<Longrightarrow> length qs = length xs" for xs pos qs q
    by (induction xs arbitrary: pos qs) (auto split: sum.splits option.splits)
  have "szs = take b szs @ szs ! b # drop (Suc b) szs" by (rule id_take_nth_drop[OF assms(3)])
  then have "chunk_planes lib dec c (take b szs @ szs ! b # drop (Suc b) szs) 12 = Some (ps, e)" using assms(2) by simp
  from chunk_planes_first[OF this] obtain qs q n x rest where q: "chunk_planes lib dec c (take b szs) 12 = Some (qs, q)" "next_block c q = Inr n"
    "codec_planes lib dec (block_bytes c q n) (szs ! b) = Some x" "ps = qs @ x # rest" by blast
  have "length qs = b" using len[OF q(1)] assms(3) by simp
  moreover have "frame_walk c b = (q, 0)" using chunk_planes_walk[OF assms(1) q(1)] assms(3) by (simp add: min_def)
  ultimately show ?thesis using q len[OF assms(2)] by auto
qed

lemma frame_walk_pos: "12 \<le> fst (frame_walk c b)"
  by (induction b) (auto simp: frame_walk.simps(2) Let_def split: prod.splits sum.splits if_splits)

text \<open>The sizes of a job as the host passes them.\<close>

definition job_ok :: "gpu_job \<Rightarrow> nat \<Rightarrow> bool" where
  "job_ok J n \<longleftrightarrow> g_bpp J \<in> {1, 2, 4} \<and> g_bpp J dvd g_total J \<and> g_total J < 2 ^ 31 \<and> g_total J \<le> g_stride J
     \<and> g_nstored J = length (block_sizes (g_bpp J) (g_total J) 8192) \<and> g_ntot J = full_blocks (g_total J) 8192 + (if g_total J mod 8192 > 0 then 1 else 0)
     \<and> g_tocopy J = raw_bytes (g_bpp J) (g_total J) 8192 \<and> (\<forall>i<n. chunk_lies J i)"

text \<open>The planes and raw bytes of image \<open>im\<close>, and its frame. The reference codec only stands for a codec's lz4.\<close>

definition gpu_data :: "gpu_job \<Rightarrow> nat \<Rightarrow> (byte list list \<times> byte list) option" where
  "gpu_data J im = chunk_data ref_codec BSLZ4_DECODE_LZ4_STOCK (g_bpp J) (g_total J) 8192 (job_chunk J im)"

lemma lz4_planes: "codec_planes lib BSLZ4_DECODE_LZ4_STOCK src sz = Some p \<longleftrightarrow> lz4_block src sz = Inr p"
  by (auto simp: codec_planes_def BSLZ4_DECODE_LZ4_STOCK_def BSLZ4_DECODE_ZSTD_def split: sum.splits)

lemma stream_ok:
  fixes starts :: "32 word list"
  assumes J: "job_ok J n" "im < n" and b: "b < g_nstored J" and d: "gpu_data J im = Some (ps, r)"
    and st: "im * g_nstored J + b < length starts" "starts ! (im * g_nstored J + b) = word_of_nat (fst (frame_walk (job_chunk J im) b))"
    and w: "set ord = {0..<32}" "length inbuf = 256" "length dec = 8192"
  shows "\<exists>dec'. rbind (load starts (im * g_nstored J + b)) (\<lambda>st. rbind (read32be (g_slab J) (g_off J ! im + int (unat st))) (\<lambda>n.
      decompressStream (g_addr J) (g_slab J) (nat (g_off J ! im + int (unat st) + 4)) ord inbuf dec (unat n))) = Inr dec'
    \<and> length dec' = 8192 \<and> take (length (ps ! b)) dec' = ps ! b"
    and "length (ps ! b) = block_sizes (g_bpp J) (g_total J) 8192 ! b"
proof -
  let ?c = "job_chunk J im" and ?szs = "block_sizes (g_bpp J) (g_total J) 8192"
  have c: "chunk_lies J im" using J by (simp add: job_ok_def)
  have small: "ck_len ?c < 2 ^ 31" using c by (simp add: job_chunk_len chunk_lies_def)
  obtain e where cp: "chunk_planes ref_codec BSLZ4_DECODE_LZ4_STOCK ?c ?szs 12 = Some (ps, e)" using d by (auto simp: gpu_data_def chunk_data_def split: option.splits)
  have bl: "b < length ?szs" using b J by (simp add: job_ok_def)
  define q where "q = fst (frame_walk ?c b)"
  from chunk_planes_at[OF small cp bl] obtain k where k: "next_block ?c q = Inr k" "lz4_block (block_bytes ?c q k) (?szs ! b) = Inr (ps ! b)"
    by (auto simp: lz4_planes q_def)
  have l: "length (ps ! b) = ?szs ! b" using lz4_block_length[OF k(2)] .
  then show "length (ps ! b) = ?szs ! b" .
  have s8: "?szs ! b \<le> 8192" using bl frame_sizes(2)[of 8192 "g_bpp J" "g_total J"] by (auto simp: block_sizes_def nth_append split: if_splits)
  obtain m where m: "bslz4_read_be32 (ck_mem ?c) q = Inr m" "k = unat m" "int q + 4 + int k \<le> ck_len ?c"
    using k(1) by (auto simp: next_block_def rbind_Inr_iff split: if_splits)
  have q31: "q < 2 ^ 31" using m(3) small by simp
  then have uq: "unat (word_of_nat q :: 32 word) = q" by (simp add: unat_of_nat)
  have rd: "read32be (g_slab J) (g_off J ! im + int q) = Inr m" using read32be_chunk[OF c, of q] m by simp
  have p: "nat (g_off J ! im + int q + 4) = nat (g_off J ! im) + q + 4" using c by (simp add: chunk_lies_def nat_add_distrib)
  have lm: "length (ck_mem ?c) = nat (ck_len ?c)" using job_chunk_mem(1)[OF c] by (simp add: job_chunk_len)
  have kl: "q + 4 + k \<le> length (ck_mem ?c)" unfolding lm using m(3) by linarith
  have bb: "length (block_bytes ?c q k) = k" using kl by (simp add: block_bytes_def)
  have "q \<ge> 12" unfolding q_def by (rule frame_walk_pos)
  then have "block_lies (g_slab J) (nat (g_off J ! im + int q + 4)) (block_bytes ?c q k)"
    unfolding block_lies_def bb p
  proof (intro conjI allI impI)
    have "nat (g_off J ! im) + nat (g_end J ! im - g_off J ! im) \<le> length (g_slab J)" using c unfolding chunk_lies_def by linarith
    then show "nat (g_off J ! im) + q + 4 + k \<le> length (g_slab J)" using kl job_chunk_mem(1)[OF c] by linarith
    show "k < 2 ^ 31" using m(3) small by simp
    fix j assume j: "j < k"
    have jl: "q + 4 + j < nat (g_end J ! im - g_off J ! im)" using kl j job_chunk_mem(1)[OF c] by linarith
    have "block_bytes ?c q k ! j = ck_mem ?c ! (q + 4 + j)" using j kl by (simp add: block_bytes_def)
    also have "\<dots> = g_slab J ! nat (g_off J ! im + int (q + 4 + j))" by (rule job_chunk_mem(2)[OF c jl])
    also have "nat (g_off J ! im + int (q + 4 + j)) = nat (g_off J ! im) + q + 4 + j" using c by (simp add: chunk_lies_def nat_add_distrib)
    finally show "g_slab J ! (nat (g_off J ! im) + q + 4 + j) = block_bytes ?c q k ! j" by simp
  qed simp
  from decompressStream_ok[OF k(2) _ _ w(2,1) this, of dec "g_addr J"] s8 w(3) bb obtain dec' where
    ds: "decompressStream (g_addr J) (g_slab J) (nat (g_off J ! im + int q + 4)) ord inbuf dec k = Inr dec'" "take (?szs ! b) dec' = ps ! b" "length dec' = 8192" by auto
  have ld: "load starts (im * g_nstored J + b) = Inr (word_of_nat q)" using st by (simp add: load_ok q_def)
  show "\<exists>dec'. rbind (load starts (im * g_nstored J + b)) (\<lambda>st. rbind (read32be (g_slab J) (g_off J ! im + int (unat st))) (\<lambda>n.
      decompressStream (g_addr J) (g_slab J) (nat (g_off J ! im + int (unat st) + 4)) ord inbuf dec (unat n))) = Inr dec'
    \<and> length dec' = 8192 \<and> take (length (ps ! b)) dec' = ps ! b"
    by (intro exI[of _ dec'] conjI) (simp_all only: ld rbind.simps uq rd m(2)[symmetric] ds l)
qed

lemma decompress_full_writes:
  assumes NB: "g_bpp J \<in> {1, 2, 4}" and dec: "length dec = 8192" and o: "set ord = {0..<32}" and room: "o8 + 8192 \<le> L"
    and T: "\<And>k. k < 8192 \<Longrightarrow> T (o8 + k) = block_out (g_bpp J) True dec ! k"
  shows "writes T L {o8..<o8 + 8192} (decompress_full J ord dec o8)"
  unfolding sets_def
proof (intro allI impI)
  fix s :: "byte list" assume s: "length s = L"
  let ?old = "take 8192 (drop o8 s)" and ?px = "block_out (g_bpp J) True dec"
  have ld: "load_n s o8 8192 = Inr ?old" using room s by (simp add: load_n_ok)
  have "length (words_of_bytes ?old) = 2048" using room s by simp
  from shuf_for_ok[OF NB dec this o] obtain dec' ws where sh: "shuf_for (g_bpp J) ord (words_of_bytes dec) (words_of_bytes ?old) True = Inr (dec', ws)"
    "bytes_of_words ws = ?px" by (auto simp: block_out_def planes_pixels_def dec)
  have l: "length ?px = 8192" using NB dec by (auto simp: block_out_def planes_pixels_def)
  have "writes T L {o8..<o8 + length ?px} (\<lambda>s. store_n s o8 ?px)" by (rule writes_store_n) (use l room T in auto)
  then show "\<exists>s'. decompress_full J ord dec o8 s = Inr s' \<and> length s' = L \<and> (\<forall>j<L. s' ! j = (if j \<in> {o8..<o8 + 8192} then T j else s ! j))"
    using s l unfolding decompress_full_def ld rbind.simps sh prod.case by (simp add: sets_def)
qed

section \<open>The partial block\<close>

lemma tail_value_ok:
  assumes "bpp \<in> {1, 2, 4}" "ne mod 8 = 0" "bpp * ne \<le> length dec" "dest < ne"
  shows "\<exists>v. tail_value bpp (ne div 8) dec dest = Inr v \<and> (\<forall>p<32. bit v p \<longleftrightarrow> p < 8 * bpp \<and> plane_bit ne dec p dest)"
proof -
  let ?step = "\<lambda>i val. rbind (load dec (dest div 8 + i * (ne div 8))) (\<lambda>b. Inr (if ucast b AND push_bit (dest mod 8) (1 :: 32 word) \<noteq> 0 then val OR push_bit i 1 else val))"
  have "\<exists>v. fold_res ?step [0..<bpp * 8] (0 :: 32 word) = Inr v \<and> (\<forall>p<32. bit v p \<longleftrightarrow> p < bpp * 8 \<and> plane_bit ne dec p dest)"
  proof (rule fold_upt_inv[where I = "\<lambda>k v. \<forall>p<32. bit v p \<longleftrightarrow> p < k \<and> plane_bit ne dec p dest"])
    fix k and val :: "32 word" assume k: "k < bpp * 8" and I: "\<forall>p<32. bit val p \<longleftrightarrow> p < k \<and> plane_bit ne dec p dest"
    obtain m where m: "ne = 8 * m" using assms(2) by blast
    have "dest div 8 < m" using assms(4) m by (simp add: less_mult_imp_div_less)
    then have "dest div 8 + k * m < Suc k * m" by simp
    also have "\<dots> \<le> bpp * 8 * m" using k by (intro mult_le_mono1) simp
    finally have ix: "dest div 8 + k * (ne div 8) < length dec" using assms(3) m by (simp add: mult.assoc)
    define x where "x = dec ! (dest div 8 + k * (ne div 8))"
    have "dest mod 8 < 32" using mod_less_divisor[of 8 dest] by linarith
    then have "(ucast x AND push_bit (dest mod 8) 1 \<noteq> (0 :: 32 word)) = bit x (dest mod 8)"
      using and_exp_eq_0_iff_not_bit[of "ucast x :: 32 word" "dest mod 8"] by (simp add: push_bit_eq_mult bit_ucast_iff)
    moreover have "bit x (dest mod 8) = plane_bit ne dec k dest" by (simp add: x_def plane_bit_def add.commute)
    ultimately have st: "?step k val = Inr (if plane_bit ne dec k dest then val OR push_bit k 1 else val)" using ix by (simp add: load_ok x_def)
    have "k < 32" using k assms(1) by auto
    then have "\<forall>p<32. bit (if plane_bit ne dec k dest then val OR push_bit k 1 else val) p \<longleftrightarrow> p < Suc k \<and> plane_bit ne dec p dest"
      using I by (auto simp: bit_or_iff bit_push_bit_iff bit_1_iff bit_exp_iff less_Suc_eq)
    then show "\<exists>s'. ?step k val = Inr s' \<and> (\<forall>p<32. bit s' p \<longleftrightarrow> p < Suc k \<and> plane_bit ne dec p dest)" unfolding st by blast
  qed simp
  then show ?thesis by (simp add: tail_value_def mult.commute)
qed

lemma tail_pixel_writes:
  assumes NB: "bpp \<in> {1, 2, 4}" "ne mod 8 = 0" "bpp * ne \<le> length dec" "dest < ne" and room: "ps + bpp * ne \<le> L"
    and T: "\<And>k. k < bpp * ne \<Longrightarrow> T (ps + k) = bytes_of_pixels bpp (plane_pixels bpp ne dec) ! k"
  shows "writes T L {ps + dest * bpp..<ps + dest * bpp + bpp} (tail_pixel bpp (ne div 8) dec ps dest)"
proof -
  from tail_value_ok[OF NB] obtain v where v: "tail_value bpp (ne div 8) dec dest = Inr v" "\<forall>p<32. bit v p \<longleftrightarrow> p < 8 * bpp \<and> plane_bit ne dec p dest" by blast
  have px: "dest * bpp + i < bpp * ne" if "i < bpp" for i
  proof -
    have "dest * bpp + i < Suc dest * bpp" using that by simp
    also have "\<dots> \<le> ne * bpp" using NB(4) by (intro mult_le_mono1) simp
    finally show ?thesis by (simp add: mult.commute)
  qed
  have b: "writes T L (\<Union>i\<in>set [0..<bpp]. {ps + (dest * bpp + i)}) (fold_res (\<lambda>i dense. store dense (ps + (dest * bpp + i)) (ucast (drop_bit (8 * i) v))) [0..<bpp])"
  proof (rule sets_fold)
    fix i assume "i \<in> set [0..<bpp]"
    then have i: "i < bpp" by simp
    have "bytes_of_pixels bpp (plane_pixels bpp ne dec) ! (dest * bpp + i) = ucast (drop_bit (8 * i) (plane_pixel bpp ne dec dest))"
      using bytes_of_pixels_nth[of dest "plane_pixels bpp ne dec" i bpp] NB(4) i by (simp add: plane_pixels_nth mult.commute)
    also have "\<dots> = ucast (drop_bit (8 * i) v)"
    proof (rule byte_bits_eqI)
      fix q :: nat assume q: "q < 8"
      have "8 * i + q < 8 * bpp" using i q by simp
      moreover have "8 * bpp \<le> 32" using NB(1) by auto
      ultimately show "bit (ucast (drop_bit (8 * i) (plane_pixel bpp ne dec dest)) :: byte) q = bit (ucast (drop_bit (8 * i) v) :: byte) q"
        using q v(2) by (simp add: bit_ucast_iff bit_drop_bit_eq comp_def bit_plane_pixel)
    qed
    finally have "T (ps + (dest * bpp + i)) = ucast (drop_bit (8 * i) v)" using T[OF px[OF i]] by simp
    moreover have "ps + (dest * bpp + i) < L" using px[OF i] room by simp
    ultimately show "writes T L {ps + (dest * bpp + i)} (\<lambda>dense. store dense (ps + (dest * bpp + i)) (ucast (drop_bit (8 * i) v)))" by (rule writes_store[rotated])
  qed
  have e: "(\<Union>i\<in>set [0..<bpp]. {ps + (dest * bpp + i)}) = {ps + dest * bpp..<ps + dest * bpp + bpp}"
  proof (intro equalityI subsetI)
    fix x assume "x \<in> {ps + dest * bpp..<ps + dest * bpp + bpp}"
    then have "x = ps + (dest * bpp + (x - (ps + dest * bpp)))" "x - (ps + dest * bpp) \<in> set [0..<bpp]" by auto
    then show "x \<in> (\<Union>i\<in>set [0..<bpp]. {ps + (dest * bpp + i)})" by blast
  qed auto
  show ?thesis using b[unfolded e] by (simp add: sets_def tail_pixel_def v(1))
qed

text \<open>The sizes of the planes and of the raw bytes, and where they end up in the frame.\<close>

lemma job_bounds:
  assumes "job_ok J n"
  shows "g_bpp J \<in> {1, 2, 4}" "whole_groups (g_bpp J) 8192" "g_nstored J = length (block_sizes (g_bpp J) (g_total J) 8192)"
    "g_total J - g_total J div 8192 * 8192 = tail_bytes (g_bpp J) (g_total J) 8192 + raw_bytes (g_bpp J) (g_total J) 8192"
    "(g_total J - g_total J div 8192 * 8192) mod (g_bpp J * 8) = raw_bytes (g_bpp J) (g_total J) 8192" "raw_bytes (g_bpp J) (g_total J) 8192 < 32"
    "tail_bytes (g_bpp J) (g_total J) 8192 < 8192"
proof -
  let ?p = "g_total J - g_total J div 8192 * 8192"
  show b: "g_bpp J \<in> {1, 2, 4}" and "g_nstored J = length (block_sizes (g_bpp J) (g_total J) 8192)" using assms by (simp_all add: job_ok_def)
  show "whole_groups (g_bpp J) 8192" using b by (auto simp: whole_groups_def)
  have t: "tail_bytes (g_bpp J) (g_total J) 8192 = ?p - ?p mod (g_bpp J * 8)"
    by (simp add: tail_bytes_def full_blocks_def mult.commute[of "g_bpp J"] minus_mod_eq_mult_div)
  have r: "raw_bytes (g_bpp J) (g_total J) 8192 = ?p mod (g_bpp J * 8)"
    unfolding raw_bytes_def t full_blocks_def by (rule diff_diff_cancel) (rule mod_less_eq_dividend)
  then show "?p mod (g_bpp J * 8) = raw_bytes (g_bpp J) (g_total J) 8192" by simp
  show "?p = tail_bytes (g_bpp J) (g_total J) 8192 + raw_bytes (g_bpp J) (g_total J) 8192"
    unfolding t r by (rule le_add_diff_inverse2[symmetric]) (rule mod_less_eq_dividend)
  have "?p mod (g_bpp J * 8) < g_bpp J * 8" using b by (intro mod_less_divisor) auto
  then show "raw_bytes (g_bpp J) (g_total J) 8192 < 32" unfolding r using b by auto
  show "tail_bytes (g_bpp J) (g_total J) 8192 < 8192" by (rule frame_sizes(2)) simp
qed

lemma gpu_data_sizes:
  assumes J: "job_ok J n" "im < n" and d: "gpu_data J im = Some (ps, r)"
  shows "map length ps = block_sizes (g_bpp J) (g_total J) 8192" "length r = raw_bytes (g_bpp J) (g_total J) 8192"
    and "k < length r \<Longrightarrow> comp_at (g_slab J) 0 (g_off J ! im + (g_end J ! im - g_off J ! im) - int (length r) + int k) = Inr (r ! k)"
proof -
  let ?c = "job_chunk J im" and ?raw = "raw_bytes (g_bpp J) (g_total J) 8192"
  have c: "chunk_lies J im" using J by (simp add: job_ok_def)
  obtain e where q: "chunk_planes ref_codec BSLZ4_DECODE_LZ4_STOCK ?c (block_sizes (g_bpp J) (g_total J) 8192) 12 = Some (ps, e)" "raw_tail ?c e ?raw = Some r"
    using d by (auto simp: gpu_data_def chunk_data_def split: option.splits)
  show "map length ps = block_sizes (g_bpp J) (g_total J) 8192" using chunk_planes_lengths[OF ref_codec_conforms(2) q(1)] .
  show lr: "length r = ?raw" using raw_tail_length[OF job_chunk_readable[OF c] q(2)] .
  assume k: "k < length r"
  then have r: "r = take ?raw (drop (nat (ck_len ?c) - ?raw) (ck_mem ?c))" "int ?raw \<le> ck_len ?c" using q(2) lr by (auto simp: raw_tail_def split: if_splits)
  let ?x = "nat (ck_len ?c) - ?raw + k"
  have x: "int ?x < g_end J ! im - g_off J ! im" using k lr r(2) job_chunk_len[of J im] by linarith
  have "ck_mem ?c ! ?x = r ! k" unfolding r(1) using k lr job_chunk_mem(1)[OF c] by (subst nth_take) (simp_all add: job_chunk_len)
  moreover have "g_off J ! im + (g_end J ! im - g_off J ! im) - int (length r) + int k = g_off J ! im + int ?x"
    using lr r(2) job_chunk_len[of J im] by linarith
  ultimately show "comp_at (g_slab J) 0 (g_off J ! im + (g_end J ! im - g_off J ! im) - int (length r) + int k) = Inr (r ! k)"
    by (simp only: job_chunk_at[OF c x])
qed

lemma block_sizes_nth:
  "b < full_blocks tot bs \<Longrightarrow> block_sizes NB tot bs ! b = bs" "0 < tail_bytes NB tot bs \<Longrightarrow> block_sizes NB tot bs ! full_blocks tot bs = tail_bytes NB tot bs"
  "length (block_sizes NB tot bs) = full_blocks tot bs + (if 0 < tail_bytes NB tot bs then 1 else 0)"
  by (simp_all add: block_sizes_def nth_append)

lemma frame_out_at:
  assumes J: "job_ok J n" "im < n" and d: "gpu_data J im = Some (ps, r)"
  shows "b < g_nstored J \<Longrightarrow> k < length (ps ! b) \<Longrightarrow> frame_out (g_bpp J) True (ps, r) ! (b * 8192 + k) = block_out (g_bpp J) True (ps ! b) ! k"
    and "k < length r \<Longrightarrow> frame_out (g_bpp J) True (ps, r) ! (g_total J div 8192 * 8192 + (tail_bytes (g_bpp J) (g_total J) 8192 + k)) = r ! k"
proof -
  let ?xs = "map (block_out (g_bpp J) True) ps" and ?full = "full_blocks (g_total J) 8192" and ?t = "tail_bytes (g_bpp J) (g_total J) 8192"
  note jb = job_bounds[OF J(1)] and sz = gpu_data_sizes[OF J d]
  have lps: "length ps = length (block_sizes (g_bpp J) (g_total J) 8192)" using arg_cong[OF sz(1), of length] by simp
  have lb: "length (ps ! b) = block_sizes (g_bpp J) (g_total J) 8192 ! b" if "b < length ps" for b using arg_cong[OF sz(1), of "\<lambda>l. l ! b"] that by simp
  have dv: "g_bpp J dvd length p" if p: "p \<in> set ps" for p
  proof -
    have "length p \<in> set (block_sizes (g_bpp J) (g_total J) 8192)" using p sz(1) by (metis image_eqI list.set_map)
    then show ?thesis using jb(2) by (auto simp: block_sizes_def tail_bytes_def whole_groups_def split: if_splits)
  qed
  have lo: "length (?xs ! b) = length (ps ! b)" if "b < length ps" for b using that length_block_out[of True "g_bpp J" "ps ! b"] dv by simp
  have first: "length (?xs ! i) = 8192" if "i < b" "b < length ps" for i b
    using that lo lb lps block_sizes_nth(1)[of i "g_total J" 8192 "g_bpp J"] block_sizes_nth(3)[of "g_bpp J" "g_total J" 8192] by (simp split: if_splits)
  show "frame_out (g_bpp J) True (ps, r) ! (b * 8192 + k) = block_out (g_bpp J) True (ps ! b) ! k" if b: "b < g_nstored J" "k < length (ps ! b)"
  proof -
    have bl: "b < length ps" using b(1) lps jb(3) by simp
    then show ?thesis using concat_nth_blocks[of b ?xs 8192 k] first b(2) lo by (simp add: frame_out_def nth_append)
  qed
  have "sum_list (map length ?xs) = sum_list (map length ps)" using lo by (intro arg_cong[of _ _ sum_list] nth_equalityI) simp_all
  then have "length (concat ?xs) = sum_list (block_sizes (g_bpp J) (g_total J) 8192)" using sz(1) by (simp add: length_concat)
  also have "\<dots> = g_total J div 8192 * 8192 + ?t" by (simp add: block_sizes_def sum_list_replicate full_blocks_def)
  finally show "k < length r \<Longrightarrow> frame_out (g_bpp J) True (ps, r) ! (g_total J div 8192 * 8192 + (?t + k)) = r ! k"
    by (simp add: frame_out_def nth_append add.assoc)
qed

lemma tail_writes:
  assumes J: "job_ok J n" "im < n" and d: "gpu_data J im = Some (ps, r)" and dec: "length dec = 8192" and o: "set ord = {0..<32}"
    and p: "0 < tail_bytes (g_bpp J) (g_total J) 8192 \<Longrightarrow> take (tail_bytes (g_bpp J) (g_total J) 8192) dec = ps ! full_blocks (g_total J) 8192"
    and part: "part = g_total J - g_total J div 8192 * 8192" and room: "p0 + part \<le> L"
    and T: "\<And>k. k < part \<Longrightarrow> T (p0 + k) = frame_out (g_bpp J) True (ps, r) ! (g_total J div 8192 * 8192 + k)"
  shows "writes T L {p0..<p0 + part} (fold_res (tail_lane J (g_off J ! im) (g_end J ! im) dec p0) ord)"
proof -
  let ?t = "tail_bytes (g_bpp J) (g_total J) 8192" and ?bpp = "g_bpp J"
  note jb = job_bounds[OF J(1)] and sz = gpu_data_sizes[OF J d]
  have b0: "0 < ?bpp" using jb(1) by auto
  define ne where "ne = ?t div ?bpp"
  have ne: "?bpp * ne = ?t" "ne mod 8 = 0" "?t div (8 * ?bpp) = ne div 8"
    using b0 by (simp_all add: ne_def tail_bytes_def div_mult2_eq mult.commute[of 8])
  have pt: "part = ?t + length r" "part mod (?bpp * 8) = length r" "part - length r = ?t" unfolding part using jb(4,5) sz(2) by simp_all
  have nl: "length (block_sizes ?bpp (g_total J) 8192) = full_blocks (g_total J) 8192 + (if 0 < ?t then 1 else 0)" by (rule block_sizes_nth(3))
  have px: "T (p0 + k) = bytes_of_pixels ?bpp (plane_pixels ?bpp ne dec) ! k" if k: "k < ?bpp * ne" for k
  proof -
    have t: "0 < ?t" "k < ?t" using k ne(1) by auto
    have lt: "length (ps ! full_blocks (g_total J) 8192) = ?t" using p[OF t(1)] dec jb(7) by (metis length_take less_imp_le_nat min.absorb2)
    have "frame_out ?bpp True (ps, r) ! (full_blocks (g_total J) 8192 * 8192 + k) = block_out ?bpp True (ps ! full_blocks (g_total J) 8192) ! k"
      by (rule frame_out_at(1)[OF J d]) (use t lt nl jb(3) in simp_all)
    also have "block_out ?bpp True (ps ! full_blocks (g_total J) 8192) = bytes_of_pixels ?bpp (plane_pixels ?bpp ne (take (ne * ?bpp) dec))"
      using p[OF t(1)] lt ne(1) by (simp add: block_out_def planes_pixels_def ne_def mult.commute)
    also have "\<dots> = bytes_of_pixels ?bpp (plane_pixels ?bpp ne dec)" by (simp only: plane_pixels_take[OF ne(2)])
    finally show ?thesis using T[of k] t(2) pt(1) by (simp add: full_blocks_def)
  qed
  let ?A = "\<lambda>lane. (\<Union>dest\<in>set (lane_steps lane ne). {p0 + dest * ?bpp..<p0 + dest * ?bpp + ?bpp}) \<union> (if lane < length r then {p0 + (?t + lane)} else {})"
  have lane: "writes T L (?A lane) (tail_lane J (g_off J ! im) (g_end J ! im) dec p0 lane)" if "lane \<in> set ord" for lane
  proof -
    have l32: "lane < 32" using that o by simp
    have "writes T L (\<Union>dest\<in>set (lane_steps lane ne). {p0 + dest * ?bpp..<p0 + dest * ?bpp + ?bpp}) (fold_res (tail_pixel ?bpp (ne div 8) dec p0) (lane_steps lane ne))"
    proof (rule sets_fold)
      fix dest assume "dest \<in> set (lane_steps lane ne)"
      then have dl: "dest < ne" using lane_steps_set[OF l32] by simp
      have dn: "?bpp * ne \<le> length dec" using ne(1) dec jb(7) by simp
      show "writes T L {p0 + dest * ?bpp..<p0 + dest * ?bpp + ?bpp} (tail_pixel ?bpp (ne div 8) dec p0 dest)"
        by (rule tail_pixel_writes[OF jb(1) ne(2) dn dl _ px]) (use room pt(1) ne(1) in simp_all)
    qed
    moreover have "writes T L (if lane < length r then {p0 + (?t + lane)} else {}) (\<lambda>dense.
      if lane < length r then rbind (comp_at (g_slab J) 0 (g_off J ! im + (g_end J ! im - g_off J ! im) - int (length r) + int lane)) (store dense (p0 + (?t + lane))) else Inr dense)"
    proof (cases "lane < length r")
      case True
      have "T (p0 + (?t + lane)) = r ! lane" using T[of "?t + lane"] frame_out_at(2)[OF J d True] True pt(1) by simp
      moreover have "p0 + (?t + lane) < L" using True room pt(1) by simp
      ultimately have "writes T L {p0 + (?t + lane)} (\<lambda>dense. store dense (p0 + (?t + lane)) (r ! lane))" by (rule writes_store[rotated])
      then show ?thesis using True sz(3)[OF True] by simp
    qed (simp add: sets_skip)
    ultimately show ?thesis unfolding tail_lane_def Let_def part[symmetric] pt(2,3) ne(3) ne_def[symmetric] by (rule sets_bind)
  qed
  have "(\<Union>lane\<in>set ord. ?A lane) = {p0..<p0 + part}"
  proof (intro equalityI subsetI)
    fix x assume x: "x \<in> {p0..<p0 + part}"
    show "x \<in> (\<Union>lane\<in>set ord. ?A lane)"
    proof (cases "x - p0 < ?t")
      case True
      define dest where "dest = (x - p0) div ?bpp"
      define m where "m = (x - p0) mod ?bpp"
      have "x - p0 = dest * ?bpp + m" by (simp add: dest_def m_def)
      moreover have "p0 \<le> x" "m < ?bpp" using x b0 by (simp_all add: m_def)
      ultimately have i: "x \<in> {p0 + dest * ?bpp..<p0 + dest * ?bpp + ?bpp}" unfolding atLeastLessThan_iff by linarith
      have "dest < ne" unfolding dest_def using True ne(1) b0 by (simp add: less_mult_imp_div_less mult.commute)
      then have "dest mod 32 \<in> set ord" "dest \<in> set (lane_steps (dest mod 32) ne)" using o lane_steps_set[of "dest mod 32"] by simp_all
      then show ?thesis using i by blast
    next
      case False
      then have l: "x - p0 - ?t < length r" "x = p0 + (?t + (x - p0 - ?t))" using x pt(1) by auto
      then have "x - p0 - ?t \<in> set ord" using o jb(6) sz(2) by simp
      then show ?thesis using l by (intro UN_I[of "x - p0 - ?t"]) auto
    qed
  next
    fix x assume "x \<in> (\<Union>lane\<in>set ord. ?A lane)"
    then obtain lane where "lane \<in> set ord" and l2: "x \<in> ?A lane" by (rule UN_E)
    then have l: "lane < 32" "x \<in> ?A lane" using o by simp_all
    then consider dest where "dest < ne" "x \<in> {p0 + dest * ?bpp..<p0 + dest * ?bpp + ?bpp}" | "lane < length r" "x = p0 + (?t + lane)"
      using lane_steps_set[OF l(1)] by (auto split: if_splits)
    then show "x \<in> {p0..<p0 + part}"
    proof cases
      case 1
      have "Suc dest * ?bpp \<le> ne * ?bpp" using 1(1) by (intro mult_le_mono1) simp
      then show ?thesis using 1(2) ne(1) pt(1) by (simp add: mult.commute)
    qed (use pt(1) in simp)
  qed
  then show ?thesis using sets_fold[of ord _ _ T L ?A, OF lane] by simp
qed

section \<open>The grid\<close>

lemma warp_writes:
  fixes starts :: "32 word list"
  assumes J: "job_ok J n" "im < n" and w: "set ord = {0..<32}" "length inbuf = 256" "length dec = 8192"
    and u: "unblocked J im starts err" "n * g_nstored J \<le> length starts" "n \<le> length err" and room: "n * g_stride J \<le> L"
    and d: "gpu_accepts J im \<Longrightarrow> gpu_data J im = Some (ps, r)"
    and T: "\<And>k. gpu_accepts J im \<Longrightarrow> k < g_total J \<Longrightarrow> T (im * g_stride J + k) = frame_out (g_bpp J) True (ps, r) ! k"
  shows "writes T L (if gpu_accepts J im \<and> b < g_ntot J then {im * g_stride J + b * 8192..<im * g_stride J + min (g_total J) ((b + 1) * 8192)} else {})
    (decompress_warp J starts err (im, b, ord, inbuf, dec))"
proof -
  have le: "load err im = Inr (err ! im)" using J(2) u(3) by (simp add: load_ok)
  consider "g_ntot J \<le> b" | "b < g_ntot J" "\<not> gpu_accepts J im" | "b < g_ntot J" "gpu_accepts J im" by linarith
  then show ?thesis
  proof cases
    case 1
    then show ?thesis by (simp add: decompress_warp_def sets_def)
  next
    case 2
    then have "err ! im \<noteq> 0" using u(1) by (simp add: unblocked_def)
    then show ?thesis using 2 le by (simp add: decompress_warp_def sets_def)
  next
    case 3
    note jb = job_bounds[OF J(1)] and D = d[OF 3(2)]
    note sz = gpu_data_sizes[OF J D]
    let ?fr = "im * g_stride J" and ?full = "g_total J div 8192" and ?t = "tail_bytes (g_bpp J) (g_total J) 8192"
    have e0: "err ! im = 0" using 3(2) u(1) by (simp add: unblocked_def)
    have c: "chunk_lies J im" "g_total J \<le> g_stride J" using J by (simp_all add: job_ok_def)
    have ld: "load (g_off J) im = Inr (g_off J ! im)" "load (g_end J) im = Inr (g_end J ! im)" using c(1) by (simp_all add: chunk_lies_def load_ok)
    have "Suc im * g_stride J \<le> n * g_stride J" using J(2) by (intro mult_le_mono1) simp
    then have fits: "?fr + g_total J \<le> L" using room c(2) by simp
    have nst: "g_nstored J = ?full + (if 0 < ?t then 1 else 0)" using jb(3) block_sizes_nth(3)[of "g_bpp J" "g_total J" 8192] by (simp add: full_blocks_def)
    let ?dec = "if b < g_nstored J then rbind (load starts (im * g_nstored J + b)) (\<lambda>st. rbind (read32be (g_slab J) (g_off J ! im + int (unat st))) (\<lambda>n.
        decompressStream (g_addr J) (g_slab J) (nat (g_off J ! im + int (unat st) + 4)) ord inbuf dec (unat n))) else Inr dec"
    have "\<exists>dec'. ?dec = Inr dec' \<and> length dec' = 8192 \<and> (b < g_nstored J \<longrightarrow> take (length (ps ! b)) dec' = ps ! b)"
    proof (cases "b < g_nstored J")
      case True
      have "Suc im * g_nstored J \<le> n * g_nstored J" using J(2) by (intro mult_le_mono1) simp
      then have l: "im * g_nstored J + b < length starts" using u(2) True by simp
      have "starts ! (im * g_nstored J + b) = word_of_nat (fst (frame_walk (job_chunk J im) b))" using u(1) 3(2) True by (simp add: unblocked_def)
      from stream_ok(1)[OF J True D l this w] show ?thesis using True by simp
    qed (use w(3) in simp)
    then obtain dec' where dec': "?dec = Inr dec'" "length dec' = 8192" "b < g_nstored J \<Longrightarrow> take (length (ps ! b)) dec' = ps ! b" by blast
    have run: "decompress_warp J starts err (im, b, ord, inbuf, dec)
      = (if b < ?full then decompress_full J ord dec' (?fr + b * 8192) else fold_res (tail_lane J (g_off J ! im) (g_end J ! im) dec' (?fr + ?full * 8192)) ord)"
      using 3(1) by (intro ext) (simp add: decompress_warp_def le e0 ld Let_def dec'(1) del: if_split_asm)
    have lpb: "length (ps ! i) = block_sizes (g_bpp J) (g_total J) 8192 ! i" if "i < g_nstored J" for i
      using arg_cong[OF sz(1), of "\<lambda>l. l ! i"] arg_cong[OF sz(1), of length] that jb(3) by simp
    show ?thesis
    proof (cases "b < ?full")
      case True
      then have bs: "b < g_nstored J" using nst by simp
      have lb: "length (ps ! b) = 8192" using lpb[OF bs] block_sizes_nth(1)[of b "g_total J" 8192] True by (simp add: full_blocks_def)
      then have eq: "dec' = ps ! b" using dec'(2,3) bs by simp
      have "(b + 1) * 8192 \<le> ?full * 8192" using True by (intro mult_le_mono1) simp
      also have "\<dots> \<le> g_total J" by simp
      finally have e: "b * 8192 + 8192 \<le> g_total J" "min (g_total J) ((b + 1) * 8192) = b * 8192 + 8192" by simp_all
      have "writes T L {?fr + b * 8192..<?fr + b * 8192 + 8192} (decompress_full J ord dec' (?fr + b * 8192))"
      proof (rule decompress_full_writes[OF jb(1) dec'(2) w(1)])
        show "?fr + b * 8192 + 8192 \<le> L" using fits e(1) by simp
        fix k :: nat assume k: "k < 8192"
        show "T (?fr + b * 8192 + k) = block_out (g_bpp J) True dec' ! k"
          using T[OF 3(2), of "b * 8192 + k"] frame_out_at(1)[OF J D bs, of k] k e(1) lb eq by (simp add: add.assoc)
      qed
      then show ?thesis using True 3 run e(2) by (simp add: add.assoc add.commute[of 8192])
    next
      case False
      have bf: "b = ?full" "0 < g_total J mod 8192" using False 3(1) J(1) by (auto simp: job_ok_def full_blocks_def split: if_splits)
      define part where "part = g_total J - ?full * 8192"
      have pm: "part = g_total J mod 8192" "?full * 8192 + part = g_total J" by (simp_all add: part_def minus_div_mult_eq_mod)
      then have mn: "min (g_total J) ((b + 1) * 8192) = ?full * 8192 + part" using bf(1) mod_less_divisor[of 8192 "g_total J"] by (simp add: min_def)
      have "writes T L {?fr + ?full * 8192..<?fr + ?full * 8192 + part} (fold_res (tail_lane J (g_off J ! im) (g_end J ! im) dec' (?fr + ?full * 8192)) ord)"
      proof (rule tail_writes[OF J D dec'(2) w(1) _ part_def])
        assume t: "0 < ?t"
        then have bs: "b < g_nstored J" using nst bf(1) by simp
        then show "take ?t dec' = ps ! full_blocks (g_total J) 8192"
          using dec'(3) lpb[OF bs] block_sizes_nth(2)[OF t] bf(1) by (simp add: full_blocks_def)
      next
        show "?fr + ?full * 8192 + part \<le> L" using fits pm(2) by simp
        fix k assume "k < part"
        then show "T (?fr + ?full * 8192 + k) = frame_out (g_bpp J) True (ps, r) ! (?full * 8192 + k)"
          using T[OF 3(2), of "?full * 8192 + k"] pm(2) by (simp add: add.assoc)
      qed
      then show ?thesis using False 3 run mn bf(1) by (simp add: add.assoc)
    qed
  qed
qed

text \<open>The warps of a launch: every block of every image, with shared memory and an order of lanes of its own.\<close>

definition gpu_grid :: "gpu_job \<Rightarrow> nat \<Rightarrow> gpu_warp list \<Rightarrow> bool" where
  "gpu_grid J n warps \<longleftrightarrow> (\<forall>(im, b, ord, inbuf, dec)\<in>set warps. im < n \<and> set ord = {0..<32} \<and> length inbuf = 256 \<and> length dec = 8192)
     \<and> (\<forall>im<n. \<forall>b<g_ntot J. (im, b) \<in> set (map (\<lambda>(im, b, _). (im, b)) warps))"

lemma chunk_data_lz4: "chunk_data lib BSLZ4_DECODE_LZ4_STOCK NB tot bs c = chunk_data ref_codec BSLZ4_DECODE_LZ4_STOCK NB tot bs c"
proof -
  have "codec_planes lib BSLZ4_DECODE_LZ4_STOCK src sz = codec_planes ref_codec BSLZ4_DECODE_LZ4_STOCK src sz" for src sz
    by (simp add: codec_planes_def BSLZ4_DECODE_LZ4_STOCK_def BSLZ4_DECODE_ZSTD_def)
  then have "chunk_planes lib BSLZ4_DECODE_LZ4_STOCK c szs pos = chunk_planes ref_codec BSLZ4_DECODE_LZ4_STOCK c szs pos" for szs pos
    by (induction szs arbitrary: pos) (simp_all cong: sum.case_cong option.case_cong)
  then show ?thesis by (simp add: chunk_data_def)
qed

lemma decompress_ok:
  fixes starts :: "32 word list"
  assumes J: "job_ok J n" and g: "gpu_grid J n warps" and u: "\<And>im. im < n \<Longrightarrow> unblocked J im starts err" "n * g_nstored J \<le> length starts" "n \<le> length err"
    and room: "n * g_stride J \<le> length dense" and d: "\<And>im. im < n \<Longrightarrow> gpu_accepts J im \<Longrightarrow> gpu_data J im \<noteq> None"
  shows "\<exists>dense'. decompress J starts err warps dense = Inr dense' \<and> length dense' = length dense
    \<and> (\<forall>im<n. gpu_accepts J im \<longrightarrow> take (g_total J) (drop (im * g_stride J) dense') = frame_out (g_bpp J) True (the (gpu_data J im)))"
proof -
  define T where "T j = frame_out (g_bpp J) True (the (gpu_data J (j div g_stride J))) ! (j mod g_stride J)" for j
  have ts: "g_total J \<le> g_stride J" using J by (simp add: job_ok_def)
  have T: "T (im * g_stride J + k) = frame_out (g_bpp J) True (the (gpu_data J im)) ! k" if "k < g_total J" for im k
    using that ts by (simp add: T_def)
  let ?A = "\<lambda>(im, b, ord, inbuf, dec). if gpu_accepts J im \<and> b < g_ntot J then {im * g_stride J + b * 8192..<im * g_stride J + min (g_total J) ((b + 1) * 8192)} else {}"
  have "writes T (length dense) (\<Union>w\<in>set warps. ?A w) (fold_res (decompress_warp J starts err) warps)"
  proof (rule sets_fold)
    fix w assume w: "w \<in> set warps"
    obtain im b ord inbuf dec where wd: "w = (im, b, ord, inbuf, dec)" by (cases w)
    have wf: "im < n" "set ord = {0..<32}" "length inbuf = 256" "length dec = 8192" using g w wd by (auto simp: gpu_grid_def)
    obtain ps r where "gpu_accepts J im \<Longrightarrow> gpu_data J im = Some (ps, r)" using d[OF wf(1)] by (metis not_None_eq surj_pair)
    then show "writes T (length dense) (?A w) (decompress_warp J starts err w)"
      unfolding wd prod.case using T by (intro warp_writes[OF J wf u(1)[OF wf(1)] u(2,3) room]) auto
  qed
  then obtain dense' where r: "decompress J starts err warps dense = Inr dense'" "length dense' = length dense"
    "\<forall>j<length dense. dense' ! j = (if j \<in> (\<Union>w\<in>set warps. ?A w) then T j else dense ! j)" unfolding sets_def decompress_def by blast
  have "take (g_total J) (drop (im * g_stride J) dense') = frame_out (g_bpp J) True (the (gpu_data J im))" if im: "im < n" "gpu_accepts J im" for im
  proof (rule nth_equalityI)
    obtain q where q: "gpu_data J im = Some q" using d[OF im] by blast
    have c: "chunk_lies J im" using J im(1) by (simp add: job_ok_def)
    have nb: "g_bpp J \<in> {1, 2, 4, 8}" using job_bounds(1)[OF J] by auto
    have lq: "length (frame_out (g_bpp J) True q) = g_total J"
      using frame_out_pixels(2)[OF ref_codec_conforms(2) nb _ job_bounds(2)[OF J] job_chunk_readable[OF c]] q unfolding gpu_data_def by simp
    have "Suc im * g_stride J \<le> n * g_stride J" using im(1) by (intro mult_le_mono1) simp
    then have fit: "im * g_stride J + g_total J \<le> length dense" using room ts by simp
    then show l: "length (take (g_total J) (drop (im * g_stride J) dense')) = length (frame_out (g_bpp J) True (the (gpu_data J im)))" using r(2) q lq by simp
    fix k assume "k < length (take (g_total J) (drop (im * g_stride J) dense'))"
    then have k: "k < g_total J" by simp
    define b where "b = k div 8192"
    have kb: "b * 8192 \<le> k" "k < (b + 1) * 8192" using div_less_iff_less_mult[of 8192 k "b + 1"] by (simp_all add: b_def)
    have nt: "g_ntot J = g_total J div 8192 + (if g_total J mod 8192 > 0 then 1 else 0)" using J by (simp add: job_ok_def full_blocks_def)
    have "b < g_ntot J"
    proof (rule ccontr)
      assume a: "\<not> b < g_ntot J"
      have "g_total J \<le> g_ntot J * 8192" unfolding nt using mult_div_mod_eq[of 8192 "g_total J"] mod_less_divisor[of 8192 "g_total J"] by (auto split: if_splits)
      also have "\<dots> \<le> b * 8192" using a by (intro mult_le_mono1) simp
      finally show False using kb(1) k by simp
    qed
    then have "(im, b) \<in> set (map (\<lambda>(im, b, _). (im, b)) warps)" using g im(1) unfolding gpu_grid_def by blast
    then obtain ord inbuf dec where w: "(im, b, ord, inbuf, dec) \<in> set warps" by auto
    have "im * g_stride J + k \<in> ?A (im, b, ord, inbuf, dec)" using im(2) k kb \<open>b < g_ntot J\<close> by simp
    then have "im * g_stride J + k \<in> (\<Union>w\<in>set warps. ?A w)" using w(1) by blast
    then have "dense' ! (im * g_stride J + k) = T (im * g_stride J + k)" using r(3) fit k by simp
    then show "take (g_total J) (drop (im * g_stride J) dense') ! k = frame_out (g_bpp J) True (the (gpu_data J im)) ! k"
      using T[OF k] k fit r(2) by simp
  qed
  then show ?thesis using r(1,2) by blast
qed

lemma gpu_frames_ok:
  assumes "job_ok J n" "gpu_grid J n warps" "n * g_nstored J \<le> length starts" "n \<le> length err" "{0..<n} \<subseteq> set ids" "n * g_stride J \<le> length dense"
    and "\<And>im. im < n \<Longrightarrow> gpu_accepts J im \<Longrightarrow> frame_pixels lib BSLZ4_DECODE_LZ4_STOCK (g_bpp J) (g_total J) 8192 (job_chunk J im) = Some (fpx im)"
  shows "\<exists>starts' err' dense'. unblock J n ids (starts, err) = Inr (starts', err') \<and> decompress J starts' err' warps dense = Inr dense'
    \<and> length err' = length err \<and> length dense' = length dense
    \<and> (\<forall>im<n. (err' ! im = 0 \<longleftrightarrow> gpu_accepts J im)
         \<and> (gpu_accepts J im \<longrightarrow> load_pixels (g_bpp J) dense' (im * g_stride J) (g_total J div g_bpp J) = Inr (fpx im)))"
proof -
  have jb: "g_bpp J \<in> {1, 2, 4, 8}" "0 < g_bpp J" "g_bpp J dvd g_total J" using job_bounds(1)[OF assms(1)] assms(1) by (auto simp: job_ok_def)
  have t: "g_total J < 2 ^ 32" "g_tocopy J < 2 ^ 32" using assms(1) job_bounds(6)[OF assms(1)] by (simp_all add: job_ok_def)
  obtain st er where u: "unblock J n ids (starts, err) = Inr (st, er)" "length st = length starts" "length er = length err" "\<forall>i<n. unblocked J i st er"
    using unblock_ok[OF _ t assms(3-5)] assms(1) by (auto simp: job_ok_def)
  have q: "\<exists>q. gpu_data J im = Some q \<and> fpx im = bytes_pixels (g_bpp J) (frame_out (g_bpp J) True q) \<and> length (frame_out (g_bpp J) True q) = g_total J"
    if im: "im < n" "gpu_accepts J im" for im
  proof -
    have c: "chunk_lies J im" using assms(1) im(1) by (simp add: job_ok_def)
    from assms(7)[OF im] obtain q where q: "gpu_data J im = Some q" "fpx im = concat (map (planes_pixels (g_bpp J)) (fst q)) @ bytes_pixels (g_bpp J) (snd q)"
      unfolding frame_pixels_def chunk_data_lz4[of lib] gpu_data_def by auto
    show ?thesis using q frame_out_pixels[OF ref_codec_conforms(2) jb(1) _ job_bounds(2)[OF assms(1)] job_chunk_readable[OF c] q(1)[unfolded gpu_data_def]] by simp
  qed
  obtain dense' where r: "decompress J st er warps dense = Inr dense'" "length dense' = length dense"
    "\<forall>im<n. gpu_accepts J im \<longrightarrow> take (g_total J) (drop (im * g_stride J) dense') = frame_out (g_bpp J) True (the (gpu_data J im))"
    using decompress_ok[OF assms(1,2) _ _ _ assms(6), of st er] u q assms(3,4) by fastforce
  have "load_pixels (g_bpp J) dense' (im * g_stride J) (g_total J div g_bpp J) = Inr (fpx im)" if im: "im < n" "gpu_accepts J im" for im
  proof -
    have m: "g_bpp J * (g_total J div g_bpp J) = g_total J" using jb(3) by simp
    have "Suc im * g_stride J \<le> n * g_stride J" using im(1) by (intro mult_le_mono1) simp
    then have "im * g_stride J + g_bpp J * (g_total J div g_bpp J) \<le> length dense'" unfolding m using assms(1,6) r(2) by (simp add: job_ok_def)
    from load_pixels_eq[OF this jb(2)] show ?thesis unfolding m using r(3) im q[OF im] by auto
  qed
  then show ?thesis using u r(1,2) unfolding unblocked_def by blast
qed

text \<open>
  C7: From chunks to frames: \<open>unblock\<close> and \<open>decompress\<close>, one after the other on a batch, leave at \<open>im * stride\<close> of the dense buffer the pixels that the chunk of
  image \<open>im\<close> means - those the CPU decoder gives - for every chunk \<open>unblock\<close> accepts, full blocks, partial block and raw remainder, whatever the order of threads,
  warps and lanes and whatever the shared memory held. The data of an accepted chunk must be lz4: nothing on the GPU checks that.
\<close>

theorem gpu_frames:
  assumes "job_ok J n" "gpu_grid J n warps" "n * g_nstored J \<le> length starts" "n \<le> length err" "{0..<n} \<subseteq> set ids" "n * g_stride J \<le> length dense"
    and "\<And>im. im < n \<Longrightarrow> gpu_accepts J im \<Longrightarrow> frame_pixels lib BSLZ4_DECODE_LZ4_STOCK (g_bpp J) (g_total J) 8192 (job_chunk J im) = Some (fpx im)"
  shows "\<exists>starts' err' dense'. unblock J n ids (starts, err) = Inr (starts', err') \<and> decompress J starts' err' warps dense = Inr dense'
    \<and> (\<forall>im<n. (err' ! im = 0 \<longleftrightarrow> gpu_accepts J im)
         \<and> (gpu_accepts J im \<longrightarrow> load_pixels (g_bpp J) dense' (im * g_stride J) (g_total J div g_bpp J) = Inr (fpx im)))"
  using gpu_frames_ok[OF assms] by blast

theorem gpu_frames_witness:
  "\<exists>starts' err' dense'. unblock gpu_sample 1 [0] ([7], [7]) = Inr (starts', err')
    \<and> decompress gpu_sample starts' err' [(0, 0, rev [0..<32], replicate 256 0xEE, replicate 8192 0xEE)] (replicate 16 9) = Inr dense'
    \<and> err' ! 0 = 0 \<and> load_pixels 1 dense' 0 11 = Inr [1, 2, 0, 0, 0, 0, 0, 0, 5, 6, 7]"
proof -
  let ?w = "[(0, 0, rev [0..<32], replicate 256 0xEE, replicate 8192 0xEE)] :: gpu_warp list" and ?px = "[1, 2, 0, 0, 0, 0, 0, 0, 5, 6, 7] :: pix list"
  have j: "job_ok gpu_sample 1" using gpu_sample_ok(1)
    by (simp add: job_ok_def gpu_sample_sizes block_sizes_def full_blocks_def tail_bytes_def raw_bytes_def)
  have g: "gpu_grid gpu_sample 1 ?w" by (simp add: gpu_grid_def gpu_sample_def atLeast0LessThan)
  have f: "frame_pixels ref_codec BSLZ4_DECODE_LZ4_STOCK (g_bpp gpu_sample) (g_total gpu_sample) 8192 (job_chunk gpu_sample 0) = Some ?px" by code_simp
  from gpu_frames[OF j g, of "[7]" "[7]" "[0]" "replicate 16 9" ref_codec "\<lambda>_. ?px"] f gpu_sample_ok(2) gpu_sample_sizes show ?thesis by auto
qed

text \<open>A job like the sample, but the block is a match that reaches back before the output: no decoder can read it.\<close>

definition gpu_corrupt :: gpu_job where
  "gpu_corrupt = gpu_sample\<lparr>g_slab := [9, 9, 9, 0, 0, 0, 0, 0, 0, 0, 11, 0, 0, 0x20, 0, 0, 0, 0, 9, 0x04, 5, 0, 0, 0, 0, 0, 0, 0, 5, 6, 7, 9]\<rparr>"

text \<open>
  C37: A chunk the GPU accepts can still make it read outside its buffers: \<open>unblock\<close> gives the chunk of \<open>gpu_corrupt\<close> the code 0, the CPU decoder refuses its
  block with an error, and the warp reads before its shared memory.
\<close>

theorem gpu_lz4_unchecked:
  "unblock gpu_corrupt 1 [0] ([7], [7]) = Inr ([12], [0]) \<and> lz4_block (block_bytes (job_chunk gpu_corrupt 0) 12 9) 8 = Inl (Code (-1))
     \<and> decompress gpu_corrupt [12] [0] [(0, 0, [0..<32], replicate 256 0, replicate 8192 0)] (replicate 16 9) = Inl Fault"
proof -
  have acc: "chunk_lies gpu_corrupt 0" "gpu_accepts gpu_corrupt 0" "fst (frame_walk (job_chunk gpu_corrupt 0) 0) = 12" by code_simp+
  have sz: "g_nstored gpu_corrupt = 1" "g_total gpu_corrupt = 11" "g_tocopy gpu_corrupt = 3" by (simp_all add: gpu_corrupt_def gpu_sample_def)
  from unblock_ok[of 1 gpu_corrupt "[7]" "[7]" "[0]"] acc(1) sz obtain st er where u: "unblock gpu_corrupt 1 [0] ([7], [7]) = Inr (st, er)" "length st = 1" "length er = 1"
    "unblocked gpu_corrupt 0 st er" by auto
  then have "unblock gpu_corrupt 1 [0] ([7], [7]) = Inr ([12], [0])" using acc(2,3) sz by (auto simp: unblocked_def length_Suc_conv)
  moreover have "lz4_block (block_bytes (job_chunk gpu_corrupt 0) 12 9) 8 = Inl (Code (-1))" by code_simp
  moreover have "decompress gpu_corrupt [12] [0] [(0, 0, [0..<32], replicate 256 0, replicate 8192 0)] (replicate 16 9) = Inl Fault"
  proof -
    let ?src = "[0x04, 5, 0, 0, 0, 0, 0, 0, 0] :: byte list"
    have l: "block_lies (g_slab gpu_corrupt) 19 ?src" by (simp add: block_lies_def gpu_corrupt_def All_less_Suc)
    have n: "length ?src = 9" by simp
    have "decompressStream 4096 (g_slab gpu_corrupt) 19 [0..<32] (replicate 256 0) (replicate 8192 0) 9 = Inl Fault" unfolding n[symmetric]
      by (rule early_match_faults[OF l]) simp_all
    moreover have "read32be (g_slab gpu_corrupt) 15 = Inr 9" by code_simp
    ultimately show ?thesis by (simp add: decompress_def decompress_warp_def load_ok gpu_corrupt_def gpu_sample_def)
  qed
  ultimately show ?thesis by blast
qed

end
