(* ===== verification/CudaList.thy ===== *)
theory CudaList
  imports CudaDecode Pixels
begin

text \<open>
  \<open>src/src/cuda/bslz4_split.cu\<close>, from dense frames to lists: \<open>count_above\<close>, \<open>scan_counts\<close>, \<open>choose_level\<close>, \<open>scan_images\<close> and \<open>collect_write\<close>, launched
  in this order. The dense buffer is a list of pixels of the type \<open>l_dt\<close>; a \<open>uint32_t\<close> in memory is a number below \<open>2^32\<close>, sums of them wrap.
\<close>

section \<open>The kernels\<close>

record list_job =
  l_dt :: int
  l_npix :: nat
  l_ntot :: nat
  l_n :: nat
  l_stride :: nat
  l_mask :: "byte list"
  l_cut :: "int \<times> pix"
  l_thr :: "(int \<times> pix) list"
  l_howmany :: nat
  l_fallback :: bool

definition MAXTHR :: nat where "MAXTHR = 16"

text \<open>A cut is \<open>(cut_i, cut_f)\<close>.\<close>

definition above_px :: "int \<Rightarrow> pix \<Rightarrow> int \<times> pix \<Rightarrow> bool" where
  "above_px dt v c = (if dt = 8 then f32_gt v (snd c) else px_int dt v > fst c)"

text \<open>\<open>__ballot_sync\<close> of the lanes' flags, and \<open>__popc\<close>.\<close>

definition ballot :: "bool list \<Rightarrow> 32 word" where
  "ballot fs = word_of_bits fs"

definition popc :: "32 word \<Rightarrow> nat" where
  "popc w = length (filter (bit w) [0..<32])"

fun map_res :: "('a \<Rightarrow> 'b res) \<Rightarrow> 'a list \<Rightarrow> 'b list res" where
  "map_res f [] = Inr []"
| "map_res f (x # xs) = rbind (f x) (\<lambda>y. rbind (map_res f xs) (\<lambda>ys. Inr (y # ys)))"

text \<open>The part of an image a warp works on: its first pixel, and how many.\<close>

definition blk_elems :: "list_job \<Rightarrow> nat" where
  "blk_elems J = 8192 div bslz4_elem_size (l_dt J)"

definition blk_first :: "list_job \<Rightarrow> nat \<Rightarrow> nat" where
  "blk_first J b = b * blk_elems J"

definition blk_len :: "list_job \<Rightarrow> nat \<Rightarrow> nat" where
  "blk_len J b = min (blk_elems J) (l_npix J - blk_first J b)"

text \<open>One lane's pixel, 0 behind the end, and its first test: above the cut and above \<open>lims\<close>, and not masked.\<close>

definition lane_pixel :: "pix list \<Rightarrow> nat \<Rightarrow> nat \<Rightarrow> nat \<Rightarrow> pix res" where
  "lane_pixel dense d0 nel p = (if p < nel then load dense (d0 + p) else Inr 0)"

definition lane_test :: "list_job \<Rightarrow> (int \<times> pix) list \<Rightarrow> nat \<Rightarrow> nat \<Rightarrow> nat \<Rightarrow> pix \<Rightarrow> bool res" where
  "lane_test J lims p0b nel p v =
     (if p < nel \<and> (\<forall>c\<in>set lims. above_px (l_dt J) v c) then rbind (load (l_mask J) (p0b + p)) (\<lambda>m. Inr (m \<noteq> 0)) else Inr False)"

definition warp_pixels :: "pix list \<Rightarrow> nat \<Rightarrow> nat \<Rightarrow> nat \<Rightarrow> pix list res" where
  "warp_pixels dense d0 nel p0 = map_res (\<lambda>lane. lane_pixel dense d0 nel (p0 + lane)) [0..<32]"

definition warp_tests :: "list_job \<Rightarrow> (int \<times> pix) list \<Rightarrow> nat \<Rightarrow> nat \<Rightarrow> nat \<Rightarrow> pix list \<Rightarrow> bool list res" where
  "warp_tests J lims p0b nel p0 vs = map_res (\<lambda>(lane, v). lane_test J lims p0b nel (p0 + lane) v) (zip [0..<32] vs)"

text \<open>The counts of the thresholds: it stops at the first one nobody passes.\<close>

fun count_levels :: "int \<Rightarrow> pix list \<Rightarrow> bool list \<Rightarrow> (int \<times> pix) list \<Rightarrow> nat list \<Rightarrow> nat list" where
  "count_levels dt vs fs (t # ts) (c # cs) =
     (if ballot fs = 0 then c # cs
      else let fs = map2 (\<lambda>v f. f \<and> above_px dt v t) vs fs in (c + popc (ballot fs)) # count_levels dt vs fs ts cs)"
| "count_levels dt vs fs ts cs = cs"

definition count_group :: "list_job \<Rightarrow> pix list \<Rightarrow> nat \<Rightarrow> nat \<Rightarrow> nat \<Rightarrow> nat \<Rightarrow> nat list \<Rightarrow> nat list res" where
  "count_group J dense d0 p0b nel p0 cnt =
     rbind (warp_pixels dense d0 nel p0) (\<lambda>vs. rbind (warp_tests J [l_cut J] p0b nel p0 vs) (\<lambda>fs.
       Inr ((hd cnt + popc (ballot fs)) # count_levels (l_dt J) vs fs (l_thr J) (tl cnt))))"

text \<open>The starts \<open>p0\<close> of the groups of 32 pixels.\<close>

definition group_starts :: "nat \<Rightarrow> nat list" where
  "group_starts nel = map (\<lambda>g. 32 * g) [0..<(nel + 31) div 32]"

definition count_above :: "list_job \<Rightarrow> pix list \<Rightarrow> int list \<Rightarrow> nat \<times> nat \<Rightarrow> nat list \<Rightarrow> nat list res" where
  "count_above J dense err w counts = (case w of (im, blockid) \<Rightarrow>
     if l_ntot J \<le> blockid then Inr counts
     else if MAXTHR < length (l_thr J) then Inl Fault
     else rbind (load err im) (\<lambda>e.
       rbind (if e = 0 then fold_res (count_group J dense (im * l_stride J + blk_first J blockid) (blk_first J blockid) (blk_len J blockid))
                (group_starts (blk_len J blockid)) (replicate (length (l_thr J) + 1) 0)
              else Inr (replicate (length (l_thr J) + 1) 0)) (\<lambda>cnt.
       fold_res (\<lambda>k counts. store counts ((k * l_n J + im) * l_ntot J + blockid) (cnt ! k)) [0..<length (l_thr J) + 1] counts)))"

text \<open>\<open>scan_counts\<close> of one row: the sums of 256 threads, their exclusive scan by thread 0, then every thread's offsets.\<close>

definition w32 :: "nat \<Rightarrow> nat" where
  "w32 n = n mod 2 ^ 32"

definition scan_range :: "nat \<Rightarrow> nat \<Rightarrow> nat list" where
  "scan_range nb t = (let per = (nb + 255) div 256 in [t * per..<min nb ((t + 1) * per)])"

definition scan_part :: "nat list \<Rightarrow> nat \<Rightarrow> nat \<Rightarrow> nat \<Rightarrow> nat list \<Rightarrow> nat list res" where
  "scan_part counts nb row t part =
     rbind (fold_res (\<lambda>k s. rbind (load counts (row * nb + k)) (\<lambda>x. Inr (w32 (s + x)))) (scan_range nb t) 0) (store part t)"

definition scan_parts :: "nat list \<Rightarrow> nat list res" where
  "scan_parts part =
     rbind (fold_res (\<lambda>i (part, r). rbind (load part i) (\<lambda>v. rbind (store part i r) (\<lambda>part. Inr (part, w32 (r + v))))) [0..<256] (part, 0))
       (\<lambda>(part, r). store part 256 r)"

definition scan_offs :: "nat list \<Rightarrow> nat \<Rightarrow> nat \<Rightarrow> nat list \<Rightarrow> nat \<Rightarrow> nat list \<Rightarrow> nat list res" where
  "scan_offs counts nb row part t offs =
     rbind (load part t) (\<lambda>run. rbind (fold_res (\<lambda>k (offs, run). rbind (store offs (row * nb + k) run) (\<lambda>offs.
       rbind (load counts (row * nb + k)) (\<lambda>x. Inr (offs, w32 (run + x))))) (scan_range nb t) (offs, run)) (\<lambda>(offs, _). Inr offs))"

definition scan_counts :: "nat list \<Rightarrow> nat \<Rightarrow> nat list \<Rightarrow> nat list \<Rightarrow> nat \<Rightarrow> nat list \<times> nat list \<Rightarrow> (nat list \<times> nat list) res" where
  "scan_counts counts nb ts part row s = (case s of (offs, nps) \<Rightarrow>
     rbind (fold_res (scan_part counts nb row) ts part) (\<lambda>part. rbind (scan_parts part) (\<lambda>part.
     rbind (fold_res (scan_offs counts nb row part) ts offs) (\<lambda>offs.
     rbind (load part 256) (\<lambda>v. rbind (store nps row v) (\<lambda>nps. Inr (offs, nps)))))))"

text \<open>\<open>choose_level\<close> of one image.\<close>

fun first_level :: "list_job \<Rightarrow> nat list \<Rightarrow> nat \<Rightarrow> nat list \<Rightarrow> nat res" where
  "first_level J npxl im [] = Inr (length (l_thr J))"
| "first_level J npxl im (k # ks) =
     rbind (load npxl (k * l_n J + im)) (\<lambda>c. if c < l_howmany J then Inr k else first_level J npxl im ks)"

definition choose_level :: "list_job \<Rightarrow> nat list \<Rightarrow> nat \<Rightarrow> int list \<times> nat list \<Rightarrow> (int list \<times> nat list) res" where
  "choose_level J npxl im s = (case s of (level, nps) \<Rightarrow>
     if l_n J \<le> im then Inr (level, nps)
     else rbind (load npxl im) (\<lambda>c0.
       if l_fallback J \<and> c0 > l_howmany J then rbind (store level im (-1)) (\<lambda>level. rbind (store nps im 0) (\<lambda>nps. Inr (level, nps)))
       else rbind (if c0 > l_howmany J \<and> 0 < length (l_thr J) then first_level J npxl im [1..<length (l_thr J) + 1] else Inr 0) (\<lambda>L.
         rbind (store level im (int L)) (\<lambda>level. rbind (load npxl (L * l_n J + im)) (\<lambda>c. rbind (store nps im (min c (l_howmany J))) (\<lambda>nps. Inr (level, nps)))))))"

definition scan_images :: "list_job \<Rightarrow> nat list \<Rightarrow> nat list \<Rightarrow> nat list res" where
  "scan_images J nps imgoff =
     rbind (fold_res (\<lambda>i (imgoff, r). rbind (store imgoff i r) (\<lambda>imgoff. rbind (load nps i) (\<lambda>x. Inr (imgoff, w32 (r + x))))) [0..<l_n J] (imgoff, 0))
       (\<lambda>(imgoff, _). Inr imgoff)"

text \<open>\<open>collect_write\<close>: the stores of a group by its lanes, in the order \<open>ord\<close>, and the loop with its break.\<close>

definition write_lane :: "nat \<Rightarrow> nat \<Rightarrow> nat \<Rightarrow> nat \<Rightarrow> nat \<Rightarrow> pix list \<Rightarrow> bool list \<Rightarrow> nat \<Rightarrow> pix list \<times> nat list \<Rightarrow> (pix list \<times> nat list) res" where
  "write_lane howmany base p0b p0 cnt vs fs lane s = (case s of (vals, idx) \<Rightarrow>
     let r = w32 (cnt + popc (ballot fs AND (push_bit lane 1 - 1))) in
     if fs ! lane \<and> r < howmany then rbind (store vals (base + r) (vs ! lane)) (\<lambda>vals. rbind (store idx (base + r) (p0b + (p0 + lane))) (\<lambda>idx. Inr (vals, idx)))
     else Inr (vals, idx))"

fun write_groups :: "list_job \<Rightarrow> pix list \<Rightarrow> nat list \<Rightarrow> (int \<times> pix) list \<Rightarrow> nat \<Rightarrow> nat \<Rightarrow> nat \<Rightarrow> nat \<Rightarrow> nat list \<Rightarrow> nat \<Rightarrow> pix list \<times> nat list
    \<Rightarrow> (pix list \<times> nat list) res" where
  "write_groups J dense ord lims base d0 p0b nel [] cnt s = Inr s"
| "write_groups J dense ord lims base d0 p0b nel (p0 # ps) cnt s =
     (if l_howmany J \<le> cnt then Inr s
      else rbind (warp_pixels dense d0 nel p0) (\<lambda>vs. rbind (warp_tests J lims p0b nel p0 vs) (\<lambda>fs.
        rbind (fold_res (write_lane (l_howmany J) base p0b p0 cnt vs fs) ord s) (\<lambda>s.
        write_groups J dense ord lims base d0 p0b nel ps (w32 (cnt + popc (ballot fs))) s))))"

definition collect_write :: "list_job \<Rightarrow> pix list \<Rightarrow> int list \<Rightarrow> nat list \<Rightarrow> nat list \<Rightarrow> int list \<Rightarrow> nat list \<Rightarrow> nat \<times> nat \<times> nat list
    \<Rightarrow> pix list \<times> nat list \<Rightarrow> (pix list \<times> nat list) res" where
  "collect_write J dense err counts offs level imgoff w s = (case w of (im, blockid, ord) \<Rightarrow>
     if l_ntot J \<le> blockid then Inr s
     else rbind (load err im) (\<lambda>e. if e \<noteq> 0 then Inr s
     else rbind (load level im) (\<lambda>L. if L < 0 then Inr s
     else let row = (nat L * l_n J + im) * l_ntot J + blockid in
       rbind (load offs row) (\<lambda>start. rbind (load counts row) (\<lambda>c.
       if c = 0 \<or> l_howmany J \<le> start then Inr s
       else rbind (if L = 0 then Inr (l_cut J) else load (l_thr J) (nat L - 1)) (\<lambda>lim. rbind (load imgoff im) (\<lambda>base.
         write_groups J dense ord [l_cut J, lim] base (im * l_stride J + blk_first J blockid) (blk_first J blockid) (blk_len J blockid)
           (group_starts (blk_len J blockid)) start s)))))))"

section \<open>A group of 32 pixels\<close>

lemma upt_cut: "a \<le> b \<Longrightarrow> b \<le> c \<Longrightarrow> [a..<c] = [a..<b] @ [b..<c]"
  using upt_add_eq_append[of a b "c - b"] by simp

lemma setsD: "sets ok get T L A f \<Longrightarrow> ok s \<Longrightarrow> \<exists>s'. f s = Inr s' \<and> ok s' \<and> (\<forall>j<L. get s' j = (if j \<in> A then T j else get s j))"
  by (simp add: sets_def)

lemma map_res_ok: "(\<And>x. x \<in> set xs \<Longrightarrow> f x = Inr (g x)) \<Longrightarrow> map_res f xs = Inr (map g xs)"
  by (induction xs) auto

lemma popc_ballot: "length fs = 32 \<Longrightarrow> popc (ballot fs) = length (filter id fs)"
proof -
  assume l: "length fs = 32"
  have "filter (bit (ballot fs)) [0..<32] = filter (\<lambda>i. fs ! i) [0..<32]" by (rule filter_cong) (simp_all add: ballot_def l)
  moreover have "length (filter (\<lambda>i. fs ! i) [0..<length fs]) = length (filter id fs)"
    using length_filter_map[of id "(!) fs" "[0..<length fs]"] by (simp add: map_nth comp_def)
  ultimately show ?thesis by (simp add: popc_def l)
qed

lemma filter_nth_id: "length fs = n \<Longrightarrow> length (filter id fs) = length (filter (\<lambda>i. fs ! i) [0..<n])"
proof -
  assume l: "length fs = n"
  have "map ((!) fs) [0..<n] = fs" using map_nth[of fs] l by simp
  then show ?thesis using length_filter_map[of id "(!) fs" "[0..<n]"] by (simp only: comp_def id_apply)
qed

lemma popc_below: "length fs = 32 \<Longrightarrow> lane < 32 \<Longrightarrow> popc (ballot fs AND (push_bit lane 1 - 1)) = length (filter id (take lane fs))"
proof -
  assume l: "length fs = 32" "lane < 32"
  have m: "push_bit lane 1 - 1 = (mask lane :: 32 word)" by (simp add: mask_eq_exp_minus_1 push_bit_of_1)
  have f: "filter (bit (ballot fs AND mask lane)) [0..<32] = filter (\<lambda>i. i < lane \<and> fs ! i) [0..<32]"
    by (rule filter_cong) (auto simp: ballot_def l bit_and_iff bit_mask_iff)
  have u: "[0..<32] = [0..<lane] @ [lane..<32]" using l(2) by (intro upt_cut) simp_all
  have h: "filter (\<lambda>i. i < lane \<and> fs ! i) ([0..<lane] @ [lane..<32]) = filter (\<lambda>i. take lane fs ! i) [0..<lane]"
    by (simp add: filter_False) (rule filter_cong, simp_all)
  have "filter (bit (ballot fs AND mask lane)) [0..<32] = filter (\<lambda>i. take lane fs ! i) [0..<lane]" by (rule trans[OF f]) (simp only: u h)
  then show ?thesis unfolding popc_def m using filter_nth_id[of "take lane fs" lane] l by simp
qed

lemma warp_pixels_ok:
  "d0 + nel \<le> length dense \<Longrightarrow> warp_pixels dense d0 nel p0 = Inr (map (\<lambda>l. if p0 + l < nel then dense ! (d0 + (p0 + l)) else 0) [0..<32])"
  unfolding warp_pixels_def by (rule map_res_ok) (simp add: lane_pixel_def load_ok)

lemma warp_tests_ok:
  assumes "p0b + nel \<le> length (l_mask J)" "length vs = 32"
  shows "warp_tests J lims p0b nel p0 vs = Inr (map (\<lambda>l. p0 + l < nel \<and> (\<forall>c\<in>set lims. above_px (l_dt J) (vs ! l) c) \<and> l_mask J ! (p0b + (p0 + l)) \<noteq> 0) [0..<32])"
proof -
  have z: "zip [0..<32] vs = map (\<lambda>l. (l, vs ! l)) [0..<32]" using assms(2) by (intro nth_equalityI) simp_all
  have "map_res (\<lambda>(lane, v). lane_test J lims p0b nel (p0 + lane) v) (zip [0..<32] vs)
      = Inr (map (\<lambda>(l, v). p0 + l < nel \<and> (\<forall>c\<in>set lims. above_px (l_dt J) v c) \<and> l_mask J ! (p0b + (p0 + l)) \<noteq> 0) (zip [0..<32] vs))"
    by (rule map_res_ok) (use assms(1) in \<open>auto simp: lane_test_def load_ok\<close>)
  then show ?thesis unfolding warp_tests_def by (simp add: z comp_def)
qed

lemma count_levels_ok:
  "length vs = 32 \<Longrightarrow> length fs = 32 \<Longrightarrow> length cs = length ts
    \<Longrightarrow> count_levels dt vs fs ts cs = map (\<lambda>i. cs ! i + length (filter (\<lambda>l. fs ! l \<and> (\<forall>t\<in>set (take (Suc i) ts). above_px dt (vs ! l) t)) [0..<32])) [0..<length ts]"
proof (induction ts arbitrary: fs cs)
  case (Cons t ts)
  obtain c cs' where cs: "cs = c # cs'" "length cs' = length ts" using Cons.prems(3) by (cases cs) auto
  show ?case
  proof (cases "ballot fs = 0")
    case True
    have "\<not> fs ! l" if "l < 32" for l
    proof -
      have "bit (ballot fs) l = fs ! l" using that Cons.prems(2) by (simp add: ballot_def)
      then show ?thesis using True by simp
    qed
    then have "filter (\<lambda>l. fs ! l \<and> P l) [0..<32] = []" for P by (simp add: filter_empty_conv)
    then have "map (\<lambda>i. cs ! i + length (filter (\<lambda>l. fs ! l \<and> (\<forall>t\<in>set (take (Suc i) (t # ts)). above_px dt (vs ! l) t)) [0..<32])) [0..<length (t # ts)] = cs"
      using Cons.prems(3) map_nth[of cs] by (simp only: list.size add_0_right)
    then show ?thesis using True cs by simp
  next
    case False
    let ?fs = "map2 (\<lambda>v f. f \<and> above_px dt v t) vs fs"
    have l: "length ?fs = 32" using Cons.prems by simp
    have f: "?fs ! l = (fs ! l \<and> above_px dt (vs ! l) t)" if "l < 32" for l using that Cons.prems by simp
    have h: "filter (\<lambda>l. ?fs ! l \<and> P l) [0..<32] = filter (\<lambda>l. fs ! l \<and> above_px dt (vs ! l) t \<and> P l) [0..<32]" for P
      by (rule filter_cong) (use f in auto)
    have "popc (ballot ?fs) = length (filter (\<lambda>l. ?fs ! l) [0..<32])" unfolding popc_ballot[OF l]
      by (rule filter_nth_id[OF l])
    then have p: "popc (ballot ?fs) = length (filter (\<lambda>l. fs ! l \<and> above_px dt (vs ! l) t) [0..<32])" using h[of "\<lambda>_. True"] by simp
    have "count_levels dt vs fs (t # ts) cs = (c + popc (ballot ?fs)) # count_levels dt vs ?fs ts cs'" using False cs(1) by (simp add: Let_def)
    also have "\<dots> = map (\<lambda>i. cs ! i + length (filter (\<lambda>l. fs ! l \<and> (\<forall>t\<in>set (take (Suc i) (t # ts)). above_px dt (vs ! l) t)) [0..<32])) [0..<length (t # ts)]"
      unfolding Cons.IH[OF Cons.prems(1) l cs(2)] p h cs(1) by (simp add: map_upt_Suc del: upt_Suc) 
    finally show ?thesis .
  qed
qed simp

section \<open>What the kernels count and list\<close>

text \<open>Pixel \<open>p\<close> of image \<open>im\<close> is on the list of level \<open>k\<close>: above the cut and the first \<open>k\<close> thresholds, and not masked; a bad image has none.\<close>

definition keep :: "list_job \<Rightarrow> pix list \<Rightarrow> int list \<Rightarrow> nat \<Rightarrow> nat \<Rightarrow> nat \<Rightarrow> bool" where
  "keep J dense err im k p \<longleftrightarrow> err ! im = 0 \<and> (\<forall>c\<in>set (l_cut J # take k (l_thr J)). above_px (l_dt J) (dense ! (im * l_stride J + p)) c) \<and> l_mask J ! p \<noteq> 0"

definition rank :: "(nat \<Rightarrow> bool) \<Rightarrow> nat \<Rightarrow> nat" where
  "rank P p = length (filter P [0..<p])"

definition image_list :: "list_job \<Rightarrow> pix list \<Rightarrow> int list \<Rightarrow> nat \<Rightarrow> nat \<Rightarrow> (pix \<times> nat) list" where
  "image_list J dense err im k = map (\<lambda>p. (dense ! (im * l_stride J + p), p)) (filter (keep J dense err im k) [0..<l_npix J])"

text \<open>The sizes as the host passes them, and thresholds in increasing order.\<close>

definition cut_le :: "int \<Rightarrow> int \<times> pix \<Rightarrow> int \<times> pix \<Rightarrow> bool" where
  "cut_le dt a b = (if dt = 8 then uint (take_bit 32 (snd a)) mod 2 ^ 31 \<le> inf_bits 23 8 \<and> fkey 23 8 (uint (take_bit 32 (snd a))) \<le> fkey 23 8 (uint (take_bit 32 (snd b)))
     else fst a \<le> fst b)"

definition list_job_ok :: "list_job \<Rightarrow> bool" where
  "list_job_ok J \<longleftrightarrow> bslz4_elem_size (l_dt J) \<in> {1, 2, 4} \<and> l_npix J < 2 ^ 31 \<and> l_npix J \<le> l_stride J \<and> l_npix J = length (l_mask J)
     \<and> l_ntot J = (l_npix J + blk_elems J - 1) div blk_elems J \<and> length (l_thr J) \<le> MAXTHR \<and> sorted_wrt (cut_le (l_dt J)) (l_thr J)
     \<and> l_n J * l_howmany J < 2 ^ 32"

lemma above_le: "cut_le dt a b \<Longrightarrow> above_px dt v b \<Longrightarrow> above_px dt v a"
  by (auto simp: cut_le_def above_px_def f32_gt_def fgt_def split: if_splits)

text \<open>The last threshold decides.\<close>

lemma keep_last:
  assumes "list_job_ok J" "0 < k" "k \<le> length (l_thr J)"
  shows "keep J dense err im k p \<longleftrightarrow> err ! im = 0 \<and> (\<forall>c\<in>set [l_cut J, l_thr J ! (k - 1)]. above_px (l_dt J) (dense ! (im * l_stride J + p)) c) \<and> l_mask J ! p \<noteq> 0"
proof -
  let ?v = "dense ! (im * l_stride J + p)"
  have m: "l_thr J ! (k - 1) \<in> set (take k (l_thr J))" using assms(2,3) by (auto simp: in_set_conv_nth intro!: exI[of _ "k - 1"])
  have "above_px (l_dt J) ?v c" if a: "above_px (l_dt J) ?v (l_thr J ! (k - 1))" and c: "c \<in> set (take k (l_thr J))" for c
  proof -
    obtain i where i: "i < k" "c = l_thr J ! i" using c assms(3) by (auto simp: in_set_conv_nth)
    have "sorted_wrt (cut_le (l_dt J)) (l_thr J)" using assms(1) by (simp add: list_job_ok_def)
    then have "i < k - 1 \<Longrightarrow> cut_le (l_dt J) (l_thr J ! i) (l_thr J ! (k - 1))" using assms(3) sorted_wrt_nth_less[of "cut_le (l_dt J)" "l_thr J" i "k - 1"] by simp
    then show ?thesis using a i by (cases "i = k - 1") (auto intro!: above_le[of _ "l_thr J ! i" "l_thr J ! (k - 1)"])
  qed
  then show ?thesis using m unfolding keep_def by auto
qed

lemma rank_0 [simp]: "rank P 0 = 0"
  by (simp add: rank_def)

lemma rank_Suc: "rank P (Suc p) = rank P p + (if P p then 1 else 0)"
  by (simp add: rank_def)

lemma rank_mono: "p \<le> q \<Longrightarrow> rank P p \<le> rank P q"
  by (induction q rule: dec_induct) (simp_all add: rank_Suc)

lemma rank_split: "p \<le> q \<Longrightarrow> rank P q = rank P p + length (filter P [p..<q])"
  using upt_cut[of 0 p q] by (simp add: rank_def)

lemma rank_shift: "rank P (p + m) = rank P p + length (filter (\<lambda>l. P (p + l)) [0..<m])"
proof -
  have "[p..<p + m] = map ((+) p) [0..<m]" by (rule nth_equalityI) simp_all
  then show ?thesis using rank_split[of p "p + m" P] by (simp add: filter_map comp_def)
qed

lemma rank_cong: "(\<And>i. i < p \<Longrightarrow> P i = Q i) \<Longrightarrow> rank P p = rank Q p"
  unfolding rank_def by (rule arg_cong[of _ _ length], rule filter_cong) simp_all

lemma rank_nth: "p < n \<Longrightarrow> P p \<Longrightarrow> rank P p < length (filter P [0..<n]) \<and> filter P [0..<n] ! rank P p = p"
proof -
  assume a: "p < n" "P p"
  then have "[0..<n] = [0..<p] @ p # [Suc p..<n]" using upt_cut[of 0 p n] upt_conv_Cons[of p n] by simp
  then show ?thesis using a by (simp add: rank_def nth_append)
qed

lemma rank_onto: "r < rank P n \<Longrightarrow> \<exists>p<n. P p \<and> rank P p = r"
proof (induction n)
  case (Suc n)
  then show ?case by (cases "r < rank P n") (auto simp: rank_Suc less_Suc_eq split: if_splits)
qed simp

text \<open>The blocks of an image.\<close>

lemma blk_bounds:
  assumes "list_job_ok J" "b < l_ntot J"
  shows "0 < blk_elems J" "blk_elems J \<le> 8192" "blk_first J b < l_npix J" "blk_first J b + blk_len J b = min (l_npix J) (blk_first J (Suc b))"
proof -
  show e: "0 < blk_elems J" and "blk_elems J \<le> 8192" using assms(1) by (auto simp: list_job_ok_def blk_elems_def)
  have "b < (l_npix J + blk_elems J - 1) div blk_elems J" using assms by (simp add: list_job_ok_def)
  then have "Suc b * blk_elems J \<le> l_npix J + blk_elems J - 1" by (metis Suc_leI div_times_less_eq_dividend le_trans mult_le_mono1)
  then show f: "blk_first J b < l_npix J" using e by (simp add: blk_first_def)
  then show "blk_first J b + blk_len J b = min (l_npix J) (blk_first J (Suc b))" by (simp add: blk_len_def blk_first_def)
qed

lemma blk_last: "list_job_ok J \<Longrightarrow> l_npix J \<le> blk_first J (l_ntot J)"
proof -
  assume J: "list_job_ok J"
  then have e: "0 < blk_elems J" by (auto simp: list_job_ok_def blk_elems_def)
  have "l_npix J + blk_elems J - 1 < Suc ((l_npix J + blk_elems J - 1) div blk_elems J) * blk_elems J" using e by (metis dividend_less_times_div mult.commute mult_Suc)
  then show ?thesis using J e by (simp add: blk_first_def list_job_ok_def)
qed

text \<open>The number of pixels of level \<open>k\<close> in block \<open>b\<close>, and before it.\<close>

definition blk_rank :: "list_job \<Rightarrow> (nat \<Rightarrow> bool) \<Rightarrow> nat \<Rightarrow> nat" where
  "blk_rank J P b = rank P (min (l_npix J) (blk_first J b))"

definition blk_count :: "list_job \<Rightarrow> (nat \<Rightarrow> bool) \<Rightarrow> nat \<Rightarrow> nat" where
  "blk_count J P b = length (filter P [blk_first J b..<blk_first J b + blk_len J b])"

lemma blk_count_rank: "list_job_ok J \<Longrightarrow> b < l_ntot J \<Longrightarrow> blk_rank J P (Suc b) = blk_rank J P b + blk_count J P b"
  using blk_bounds[of J b] rank_split[of "blk_first J b" "blk_first J b + blk_len J b" P] by (simp add: blk_rank_def blk_count_def)

lemma blk_rank_sum: "list_job_ok J \<Longrightarrow> b \<le> l_ntot J \<Longrightarrow> sum_list (map (blk_count J P) [0..<b]) = blk_rank J P b"
proof (induction b)
  case 0
  then show ?case by (simp add: blk_rank_def blk_first_def)
qed (simp add: blk_count_rank)

lemma blk_rank_all: "list_job_ok J \<Longrightarrow> blk_rank J P (l_ntot J) = rank P (l_npix J)"
  using blk_last[of J] by (simp add: blk_rank_def)

section \<open>Counting\<close>

lemma count_group_ok:
  assumes "d0 + nel \<le> length dense" "p0b + nel \<le> length (l_mask J)" "d0 = im * l_stride J + p0b" "err ! im = 0" "length cnt = length (l_thr J) + 1"
  shows "count_group J dense d0 p0b nel p0 cnt
    = Inr (map (\<lambda>k. cnt ! k + length (filter (\<lambda>l. p0 + l < nel \<and> keep J dense err im k (p0b + (p0 + l))) [0..<32])) [0..<length (l_thr J) + 1])"
proof -
  let ?vs = "map (\<lambda>l. if p0 + l < nel then dense ! (d0 + (p0 + l)) else 0) [0..<32]"
  let ?fs = "map (\<lambda>l. p0 + l < nel \<and> (\<forall>c\<in>set [l_cut J]. above_px (l_dt J) (?vs ! l) c) \<and> l_mask J ! (p0b + (p0 + l)) \<noteq> 0) [0..<32]"
  obtain c cs where cnt: "cnt = c # cs" "length cs = length (l_thr J)" using assms(5) by (cases cnt) auto
  have t: "warp_tests J [l_cut J] p0b nel p0 ?vs = Inr ?fs" by (rule warp_tests_ok[OF assms(2)]) simp
  have k: "(?fs ! l \<and> (\<forall>t\<in>set (take k (l_thr J)). above_px (l_dt J) (?vs ! l) t)) = (p0 + l < nel \<and> keep J dense err im k (p0b + (p0 + l)))" if "l < 32" for l k
    using that assms(3,4) by (auto simp: keep_def add.assoc)
  have f: "length (filter (\<lambda>l. ?fs ! l \<and> (\<forall>t\<in>set (take k (l_thr J)). above_px (l_dt J) (?vs ! l) t)) [0..<32])
      = length (filter (\<lambda>l. p0 + l < nel \<and> keep J dense err im k (p0b + (p0 + l))) [0..<32])" for k
    by (rule arg_cong[of _ _ length], rule filter_cong) (use k in auto)
  have "popc (ballot ?fs) = length (filter (\<lambda>l. ?fs ! l) [0..<32])" 
    using popc_ballot[of ?fs] filter_nth_id[of ?fs 32] by (simp only: length_map length_upt diff_zero)
  also have "\<dots> = length (filter (\<lambda>l. ?fs ! l \<and> (\<forall>t\<in>set (take 0 (l_thr J)). above_px (l_dt J) (?vs ! l) t)) [0..<32])" by simp
  finally have p0: "popc (ballot ?fs) = length (filter (\<lambda>l. p0 + l < nel \<and> keep J dense err im 0 (p0b + (p0 + l))) [0..<32])" unfolding f .
  have lv: "count_levels (l_dt J) ?vs ?fs (l_thr J) cs
      = map (\<lambda>i. cs ! i + length (filter (\<lambda>l. p0 + l < nel \<and> keep J dense err im (Suc i) (p0b + (p0 + l))) [0..<32])) [0..<length (l_thr J)]"
    by (subst count_levels_ok) (simp, simp, rule cnt(2), simp only: f)
  have "count_group J dense d0 p0b nel p0 cnt = Inr ((c + popc (ballot ?fs)) # count_levels (l_dt J) ?vs ?fs (l_thr J) cs)"
    unfolding count_group_def warp_pixels_ok[OF assms(1)] rbind.simps t by (simp add: cnt(1))
  then show ?thesis unfolding p0 lv cnt(1) by (simp add: map_upt_Suc del: upt_Suc)
qed

lemma count_groups_ok:
  assumes "d0 + nel \<le> length dense" "p0b + nel \<le> length (l_mask J)" "d0 = im * l_stride J + p0b" "err ! im = 0"
  shows "fold_res (count_group J dense d0 p0b nel) (group_starts nel) (replicate (length (l_thr J) + 1) 0)
    = Inr (map (\<lambda>k. length (filter (keep J dense err im k) [p0b..<p0b + nel])) [0..<length (l_thr J) + 1])"
proof -
  let ?Q = "\<lambda>k p. p < nel \<and> keep J dense err im k (p0b + p)" and ?n = "length (l_thr J) + 1"
  let ?I = "\<lambda>g cnt. cnt = map (\<lambda>k. rank (?Q k) (32 * g)) [0..<?n]"
  have "\<exists>cnt. fold_res (\<lambda>g. count_group J dense d0 p0b nel (32 * g)) [0..<(nel + 31) div 32] (replicate ?n 0) = Inr cnt \<and> ?I ((nel + 31) div 32) cnt"
  proof (rule fold_upt_inv[where I = ?I])
    show "replicate ?n 0 = map (\<lambda>k. rank (?Q k) (32 * 0)) [0..<?n]" by (simp add: map_replicate_const del: upt_Suc)
    fix g cnt assume I: "?I g cnt"
    have "count_group J dense d0 p0b nel (32 * g) cnt
      = Inr (map (\<lambda>k. cnt ! k + length (filter (\<lambda>l. 32 * g + l < nel \<and> keep J dense err im k (p0b + (32 * g + l))) [0..<32])) [0..<?n])"
      by (rule count_group_ok[OF assms]) (simp add: I)
    also have "\<dots> = Inr (map (\<lambda>k. rank (?Q k) (32 * Suc g)) [0..<?n])"
    proof -
      have "rank (?Q k) (32 * Suc g) = rank (?Q k) (32 * g) + length (filter (\<lambda>l. 32 * g + l < nel \<and> keep J dense err im k (p0b + (32 * g + l))) [0..<32])" for k
        using rank_shift[of "?Q k" "32 * g" 32] by (simp add: add.commute)
      then show ?thesis using I by (simp del: upt_Suc)
    qed
    finally show "\<exists>s'. count_group J dense d0 p0b nel (32 * g) cnt = Inr s' \<and> ?I (Suc g) s'" by blast
  qed
  moreover have "rank (?Q k) (32 * ((nel + 31) div 32)) = length (filter (keep J dense err im k) [p0b..<p0b + nel])" for k
  proof -
    have le: "nel \<le> 32 * ((nel + 31) div 32)" by linarith
    have "filter (?Q k) [nel..<32 * ((nel + 31) div 32)] = []" by (simp add: filter_empty_conv)
    then have "rank (?Q k) (32 * ((nel + 31) div 32)) = rank (?Q k) nel" using rank_split[OF le, of "?Q k"] by simp
    also have "\<dots> = rank (\<lambda>p. keep J dense err im k (p0b + p)) nel" by (rule rank_cong) simp
    also have "\<dots> = length (filter (keep J dense err im k) [p0b..<p0b + nel])"
      using rank_shift[of "keep J dense err im k" p0b nel] rank_split[of p0b "p0b + nel" "keep J dense err im k"] by (simp add: rank_def)
    finally show ?thesis .
  qed
  ultimately show ?thesis unfolding group_starts_def fold_res_map by auto
qed

lemma row_cell: "row < R \<Longrightarrow> b < nb \<Longrightarrow> row * nb + b < R * (nb :: nat)"
proof -
  assume a: "row < R" "b < nb"
  then have "row * nb + b < Suc row * nb" by simp
  also have "\<dots> \<le> R * nb" using a(1) by (intro mult_le_mono1) simp
  finally show ?thesis .
qed

definition level_rows :: "list_job \<Rightarrow> nat" where
  "level_rows J = (length (l_thr J) + 1) * l_n J"

text \<open>The pixels that row \<open>k * n + im\<close> is about.\<close>

definition row_keep :: "list_job \<Rightarrow> pix list \<Rightarrow> int list \<Rightarrow> nat \<Rightarrow> nat \<Rightarrow> bool" where
  "row_keep J dense err row = keep J dense err (row mod l_n J) (row div l_n J)"

lemma row_keep [simp]: "im < l_n J \<Longrightarrow> row_keep J dense err (k * l_n J + im) = keep J dense err im k"
  by (simp add: row_keep_def)

lemma count_above_writes:
  assumes J: "list_job_ok J" "im < l_n J" and l: "l_n J \<le> length err" "l_n J * l_stride J \<le> length dense" "level_rows J * l_ntot J \<le> L"
    and T: "\<And>k. k \<le> length (l_thr J) \<Longrightarrow> b < l_ntot J \<Longrightarrow> T ((k * l_n J + im) * l_ntot J + b) = blk_count J (keep J dense err im k) b"
  shows "writes T L (if b < l_ntot J then (\<lambda>k. (k * l_n J + im) * l_ntot J + b) ` {0..<length (l_thr J) + 1} else {}) (count_above J dense err (im, b))"
proof (cases "b < l_ntot J")
  case False
  then show ?thesis by (simp add: count_above_def sets_def)
next
  case True
  let ?n = "length (l_thr J) + 1" and ?d0 = "im * l_stride J + blk_first J b"
  let ?cnt = "map (\<lambda>k. blk_count J (keep J dense err im k) b) [0..<?n]"
  note bb = blk_bounds[OF J(1) True]
  have p: "blk_first J b + blk_len J b \<le> l_npix J" using bb(4) by simp
  have "Suc im * l_stride J \<le> l_n J * l_stride J" using J(2) by (intro mult_le_mono1) simp
  then have d: "?d0 + blk_len J b \<le> length dense" using p l(2) J(1) by (simp add: list_job_ok_def)
  have m: "blk_first J b + blk_len J b \<le> length (l_mask J)" using p J(1) by (simp add: list_job_ok_def)
  have "\<not> MAXTHR < length (l_thr J)" using J(1) by (simp add: list_job_ok_def)
  moreover have "load err im = Inr (err ! im)" using J(2) l(1) by (simp add: load_ok)
  moreover have "(if err ! im = 0 then fold_res (count_group J dense ?d0 (blk_first J b) (blk_len J b)) (group_starts (blk_len J b)) (replicate ?n 0) else Inr (replicate ?n 0)) = Inr ?cnt"
  proof (cases "err ! im = 0")
    case e: True
    then show ?thesis using count_groups_ok[OF d m refl e] by (simp add: blk_count_def del: upt_Suc)
  next
    case e: False
    then have "blk_count J (keep J dense err im k) b = 0" for k by (simp add: blk_count_def keep_def)
    then show ?thesis using e by (simp add: map_replicate_const del: upt_Suc)
  qed
  ultimately have run: "count_above J dense err (im, b) counts = fold_res (\<lambda>k counts. store counts ((k * l_n J + im) * l_ntot J + b) (?cnt ! k)) [0..<?n] counts" for counts
    using True by (simp add: count_above_def del: upt_Suc)
  have "writes T L (\<Union>k\<in>set [0..<?n]. {(k * l_n J + im) * l_ntot J + b}) (fold_res (\<lambda>k counts. store counts ((k * l_n J + im) * l_ntot J + b) (?cnt ! k)) [0..<?n])"
  proof (rule sets_fold, rule writes_store)
    fix k assume "k \<in> set [0..<?n]"
    then have k: "k < ?n" by (simp only: set_upt atLeastLessThan_iff)
    have "k * l_n J + im < ?n * l_n J" by (rule row_cell[OF k J(2)])
    from row_cell[OF this True] show "(k * l_n J + im) * l_ntot J + b < L" using l(3) by (simp add: level_rows_def)
    show "T ((k * l_n J + im) * l_ntot J + b) = ?cnt ! k" using T[of k] nth_map_upt[of k ?n 0] k True by (simp add: less_Suc_eq_le[symmetric] del: upt_Suc)
  qed
  moreover have "count_above J dense err (im, b) = fold_res (\<lambda>k counts. store counts ((k * l_n J + im) * l_ntot J + b) (?cnt ! k)) [0..<?n]" by (rule ext) (rule run)
  ultimately show ?thesis using True by (simp only: if_True UNION_singleton_eq_range set_upt)
qed

lemma count_grid_ok:
  assumes J: "list_job_ok J" and l: "l_n J \<le> length err" "l_n J * l_stride J \<le> length dense" "level_rows J * l_ntot J \<le> length counts"
    and ws: "\<And>im b. (im, b) \<in> set ws \<Longrightarrow> im < l_n J" "\<And>im b. im < l_n J \<Longrightarrow> b < l_ntot J \<Longrightarrow> (im, b) \<in> set ws"
  shows "\<exists>counts'. fold_res (count_above J dense err) ws counts = Inr counts' \<and> length counts' = length counts
    \<and> (\<forall>row<level_rows J. \<forall>b<l_ntot J. counts' ! (row * l_ntot J + b) = blk_count J (row_keep J dense err row) b)"
proof -
  define T where "T j = blk_count J (row_keep J dense err (j div l_ntot J)) (j mod l_ntot J)" for j
  let ?A = "\<lambda>(im, b). if b < l_ntot J then (\<lambda>k. (k * l_n J + im) * l_ntot J + b) ` {0..<length (l_thr J) + 1} else {}"
  have "writes T (length counts) (\<Union>w\<in>set ws. ?A w) (fold_res (count_above J dense err) ws)"
  proof (rule sets_fold)
    fix w assume w: "w \<in> set ws"
    obtain im b where wd: "w = (im, b)" by (cases w)
    have im: "im < l_n J" using ws(1) w wd by blast
    show "writes T (length counts) (?A w) (count_above J dense err w)" unfolding wd prod.case
      by (rule count_above_writes[OF J im l]) (simp add: T_def im)
  qed
  then obtain counts' where r: "fold_res (count_above J dense err) ws counts = Inr counts'" "length counts' = length counts"
    "\<forall>j<length counts. counts' ! j = (if j \<in> (\<Union>w\<in>set ws. ?A w) then T j else counts ! j)" unfolding sets_def by blast
  have "counts' ! (row * l_ntot J + b) = blk_count J (row_keep J dense err row) b" if rb: "row < level_rows J" "b < l_ntot J" for row b
  proof -
    have n: "0 < l_n J" using rb(1) by (cases "l_n J") (simp_all add: level_rows_def)
    define im k where "im = row mod l_n J" and "k = row div l_n J"
    have ik: "im < l_n J" "k < length (l_thr J) + 1" "row = k * l_n J + im" using rb(1) n by (simp_all add: im_def k_def level_rows_def less_mult_imp_div_less)
    have "row * l_ntot J + b \<in> ?A (im, b)" using ik rb(2) by auto
    then have "row * l_ntot J + b \<in> (\<Union>w\<in>set ws. ?A w)" using ws(2)[OF ik(1) rb(2)] by blast
    moreover have "row * l_ntot J + b < length counts" using row_cell[OF rb] l(3) by simp
    ultimately show ?thesis using r(3) rb(2) by (simp add: T_def)
  qed
  then show ?thesis using r(1,2) by blast
qed

section \<open>The scan of a row\<close>

lemma w32_small [simp]: "n < 2 ^ 32 \<Longrightarrow> w32 n = n"
  by (simp add: w32_def)

lemma scan_ranges: "concat (map (scan_range nb) [0..<t]) = [0..<min nb (t * ((nb + 255) div 256))]"
proof (induction t)
  case (Suc t)
  let ?per = "(nb + 255) div 256"
  have "[0..<min nb (t * ?per)] @ [t * ?per..<min nb (Suc t * ?per)] = [0..<min nb (Suc t * ?per)]"
  proof (cases "t * ?per \<le> nb")
    case True
    then have "min nb (t * ?per) = t * ?per" "t * ?per \<le> min nb (Suc t * ?per)" by simp_all
    then show ?thesis using upt_cut[of 0 "t * ?per" "min nb (Suc t * ?per)"] by simp
  qed simp
  then show ?case using Suc by (simp add: scan_range_def Let_def)
qed simp

lemma scan_all: "concat (map (scan_range nb) [0..<256]) = [0..<nb]"
proof -
  have "nb \<le> 256 * ((nb + 255) div 256)" by linarith
  then show ?thesis unfolding scan_ranges by simp
qed

lemma scan_sum:
  "(\<And>k. k \<in> set xs \<Longrightarrow> row * nb + k < length counts \<and> counts ! (row * nb + k) = c k) \<Longrightarrow> s0 + sum_list (map c xs) < 2 ^ 32
    \<Longrightarrow> fold_res (\<lambda>k s. rbind (load counts (row * nb + k)) (\<lambda>x. Inr (w32 (s + x)))) xs s0 = Inr (s0 + sum_list (map c xs))"
proof (induction xs arbitrary: s0)
  case (Cons x xs)
  have "s0 + c x < 2 ^ 32" using Cons.prems(2) by simp
  then show ?case using Cons.IH[of "s0 + c x"] Cons.prems by (simp add: load_ok add.assoc)
qed simp

text \<open>The sum of a thread's range, and of all before it.\<close>

definition part_sum :: "(nat \<Rightarrow> nat) \<Rightarrow> nat \<Rightarrow> nat \<Rightarrow> nat" where
  "part_sum c nb t = sum_list (map c (scan_range nb t))"

lemma part_sums: "sum_list (map (part_sum c nb) [0..<t]) = sum_list (map c [0..<min nb (t * ((nb + 255) div 256))])"
proof -
  have "sum_list (map (part_sum c nb) xs) = sum_list (map c (concat (map (scan_range nb) xs)))" for xs
    by (induction xs) (simp_all add: part_sum_def)
  then show ?thesis by (simp add: scan_ranges)
qed

lemma prefix_le: "a \<le> b \<Longrightarrow> sum_list (map c [0..<a]) \<le> sum_list (map (c :: nat \<Rightarrow> nat) [0..<b])"
  by (induction b rule: dec_induct) simp_all

lemma part_sum_le: "t < 256 \<Longrightarrow> part_sum c nb t \<le> sum_list (map c [0..<nb])"
proof -
  assume t: "t < 256"
  have "part_sum c nb t \<le> sum_list (map (part_sum c nb) [0..<Suc t])" by simp
  also have "\<dots> \<le> sum_list (map (part_sum c nb) [0..<256])" by (rule prefix_le) (use t in simp)
  also have "\<dots> = sum_list (map c [0..<nb])" unfolding part_sums using scan_all[of nb] scan_ranges[of nb 256] by simp
  finally show ?thesis .
qed

lemma scan_parts_ok:
  assumes l: "length part = 257" and p: "\<And>t. t < 256 \<Longrightarrow> part ! t = f t" and s: "sum_list (map f [0..<256]) < 2 ^ 32"
  shows "\<exists>part'. scan_parts part = Inr part' \<and> length part' = 257 \<and> (\<forall>t\<le>256. part' ! t = sum_list (map f [0..<t]))"
proof -
  let ?step = "\<lambda>i (part, r). rbind (load part i) (\<lambda>v. rbind (store part i r) (\<lambda>part. Inr (part, w32 (r + v))))"
  let ?I = "\<lambda>i s. case s of (part', r) \<Rightarrow> length part' = 257 \<and> r = sum_list (map f [0..<i]) \<and> (\<forall>t<i. part' ! t = sum_list (map f [0..<t])) \<and> (\<forall>t. i \<le> t \<and> t < 256 \<longrightarrow> part' ! t = f t)"
  have "\<exists>s. fold_res ?step [0..<256] (part, 0) = Inr s \<and> ?I 256 s"
  proof (rule fold_upt_inv[where I = ?I])
    show "?I 0 (part, 0)" using l p by simp
    fix i s assume i: "i < 256" "?I i s"
    obtain pt r where sd: "s = (pt, r)" by (cases s)
    have "sum_list (map f [0..<Suc i]) < 2 ^ 32" using prefix_le[of "Suc i" 256 f] i(1) s by simp
    then have "?step i s = Inr (pt[i := r], sum_list (map f [0..<Suc i]))" using i sd by (simp add: load_ok store_ok)
    moreover have "?I (Suc i) (pt[i := r], sum_list (map f [0..<Suc i]))" using i sd by (auto simp: nth_list_update less_Suc_eq)
    ultimately show "\<exists>s'. ?step i s = Inr s' \<and> ?I (Suc i) s'" by blast
  qed
  then obtain pt r where w: "fold_res ?step [0..<256] (part, 0) = Inr (pt, r)" "?I 256 (pt, r)" by auto
  then have "scan_parts part = Inr (pt[256 := r])" by (simp add: scan_parts_def store_ok)
  moreover have "\<forall>t\<le>256. pt[256 := r] ! t = sum_list (map f [0..<t])" using w(2) by (auto simp: nth_list_update)
  ultimately show ?thesis using w(2) by auto
qed

lemma scan_offs_range:
  assumes c: "\<And>k. k < nb \<Longrightarrow> row * nb + k < length counts \<and> counts ! (row * nb + k) = c k" and s: "sum_list (map c [0..<nb]) < 2 ^ 32"
    and l: "row * nb + nb \<le> length offs"
  shows "a \<le> b \<Longrightarrow> b \<le> nb \<Longrightarrow> \<exists>offs'. fold_res (\<lambda>k (offs, run). rbind (store offs (row * nb + k) run) (\<lambda>offs. rbind (load counts (row * nb + k)) (\<lambda>x. Inr (offs, w32 (run + x))))) [a..<b] (offs, sum_list (map c [0..<a]))
      = Inr (offs', sum_list (map c [0..<b])) \<and> length offs' = length offs
    \<and> (\<forall>j<length offs. offs' ! j = (if row * nb + a \<le> j \<and> j < row * nb + b then sum_list (map c [0..<j - row * nb]) else offs ! j))"
proof (induction b rule: dec_induct)
  case base
  then show ?case by (intro exI[of _ offs]) auto
next
  case (step b)
  then obtain o1 where o1: "fold_res (\<lambda>k (offs, run). rbind (store offs (row * nb + k) run) (\<lambda>offs. rbind (load counts (row * nb + k)) (\<lambda>x. Inr (offs, w32 (run + x))))) [a..<b] (offs, sum_list (map c [0..<a]))
      = Inr (o1, sum_list (map c [0..<b]))" "length o1 = length offs"
    "\<forall>j<length offs. o1 ! j = (if row * nb + a \<le> j \<and> j < row * nb + b then sum_list (map c [0..<j - row * nb]) else offs ! j)" by auto
  have b: "row * nb + b < length o1" "sum_list (map c [0..<b]) + c b < 2 ^ 32"
    using step.prems l o1(2) prefix_le[of "Suc b" nb c] s by simp_all
  let ?o = "o1[row * nb + b := sum_list (map c [0..<b])]"
  have "\<forall>j<length offs. ?o ! j = (if row * nb + a \<le> j \<and> j < row * nb + Suc b then sum_list (map c [0..<j - row * nb]) else offs ! j)"
    using o1(2,3) step.hyps b(1) by (auto simp: nth_list_update)
  then show ?case using o1 b c[of b] step by (intro exI[of _ ?o]) (simp add: fold_res_append store_ok load_ok)
qed

lemma scan_part_all:
  assumes c: "\<And>k. k < nb \<Longrightarrow> row * nb + k < length counts \<and> counts ! (row * nb + k) = c k" and s: "sum_list (map c [0..<nb]) < 2 ^ 32"
    and t: "set ts = {0..<256}" and l: "length part = 257"
  shows "\<exists>part'. fold_res (scan_part counts nb row) ts part = Inr part' \<and> length part' = 257 \<and> (\<forall>t<256. part' ! t = part_sum c nb t)"
proof -
  have "writes (part_sum c nb) 257 (\<Union>t\<in>set ts. {t}) (fold_res (scan_part counts nb row) ts)"
  proof (rule sets_fold)
    fix t assume "t \<in> set ts"
    then have t: "t < 256" using assms(3) by simp
    have "fold_res (\<lambda>k s. rbind (load counts (row * nb + k)) (\<lambda>x. Inr (w32 (s + x)))) (scan_range nb t) 0 = Inr (0 + sum_list (map c (scan_range nb t)))"
    proof (rule scan_sum)
      show "0 + sum_list (map c (scan_range nb t)) < 2 ^ 32" using part_sum_le[OF t, of c nb] s by (simp add: part_sum_def)
    qed (use c in \<open>auto simp: scan_range_def Let_def\<close>)
    then have "scan_part counts nb row t = (\<lambda>part. store part t (part_sum c nb t))" by (simp add: scan_part_def part_sum_def fun_eq_iff)
    then show "writes (part_sum c nb) 257 {t} (scan_part counts nb row t)" using t by (simp add: writes_store)
  qed
  then show ?thesis using l t unfolding sets_def by auto
qed

lemma scan_offs_writes:
  assumes c: "\<And>k. k < nb \<Longrightarrow> row * nb + k < length counts \<and> counts ! (row * nb + k) = c k" and s: "sum_list (map c [0..<nb]) < 2 ^ 32"
    and t: "t < 256" and p: "length part = 257" "\<And>t. t < 256 \<Longrightarrow> part ! t = sum_list (map (part_sum c nb) [0..<t])"
    and T: "\<And>k. k < nb \<Longrightarrow> T (row * nb + k) = sum_list (map c [0..<k])" and l: "row * nb + nb \<le> L"
  shows "writes T L ((+) (row * nb) ` set (scan_range nb t)) (scan_offs counts nb row part t)"
  unfolding sets_def
proof (intro allI impI)
  fix offs :: "nat list" assume o: "length offs = L"
  let ?per = "(nb + 255) div 256"
  let ?a = "t * ?per" and ?b = "min nb (Suc t * ?per)"
  have r: "scan_range nb t = [?a..<?b]" by (simp add: scan_range_def Let_def)
  have pt: "load part t = Inr (sum_list (map c [0..<min nb ?a]))" using t p by (simp add: load_ok part_sums)
  show "\<exists>s'. scan_offs counts nb row part t offs = Inr s' \<and> length s' = L \<and> (\<forall>j<L. s' ! j = (if j \<in> (+) (row * nb) ` set (scan_range nb t) then T j else offs ! j))"
  proof (cases "?a < ?b")
    case False
    then have "scan_range nb t = []" unfolding r using False by (simp only: not_less upt_conv_Nil)
    then show ?thesis using pt o by (simp add: scan_offs_def)
  next
    case True
    then have a: "min nb ?a = ?a" "?a \<le> ?b" "?b \<le> nb" by simp_all
    from scan_offs_range[OF c s _ a(2,3), of offs] l o obtain o2 where o2: "scan_offs counts nb row part t offs = Inr o2" "length o2 = L"
      "\<forall>j<L. o2 ! j = (if row * nb + ?a \<le> j \<and> j < row * nb + ?b then sum_list (map c [0..<j - row * nb]) else offs ! j)"
      unfolding scan_offs_def r pt a(1) rbind.simps by auto
    have "j \<in> (+) (row * nb) ` set [?a..<?b] \<longleftrightarrow> row * nb + ?a \<le> j \<and> j < row * nb + ?b" for j
    proof
      assume "row * nb + ?a \<le> j \<and> j < row * nb + ?b"
      then show "j \<in> (+) (row * nb) ` set [?a..<?b]" by (intro image_eqI[of _ _ "j - row * nb"]) auto
    qed auto
    moreover have "T j = sum_list (map c [0..<j - row * nb])" if "row * nb + ?a \<le> j" "j < row * nb + ?b" for j
      using T[of "j - row * nb"] that a(3) by simp
    ultimately show ?thesis using o2 unfolding r by auto
  qed
qed

text \<open>A row's exclusive sums, and its total.\<close>

lemma scan_counts_ok:
  assumes c: "\<And>k. k < nb \<Longrightarrow> row * nb + k < length counts \<and> counts ! (row * nb + k) = c k" and s: "sum_list (map c [0..<nb]) < 2 ^ 32"
    and t: "set ts = {0..<256}" and p: "length part = 257"
    and l: "row * nb + nb \<le> length offs" "row < length nps"
  shows "\<exists>offs'. scan_counts counts nb ts part row (offs, nps) = Inr (offs', nps[row := sum_list (map c [0..<nb])]) \<and> length offs' = length offs
    \<and> (\<forall>j<length offs. offs' ! j = (if row * nb \<le> j \<and> j < row * nb + nb then sum_list (map c [0..<j - row * nb]) else offs ! j))"
proof -
  obtain p1 where p1: "fold_res (scan_part counts nb row) ts part = Inr p1" "length p1 = 257" "\<forall>t<256. p1 ! t = part_sum c nb t"
    using scan_part_all[OF c s t p] by blast
  have al: "sum_list (map (part_sum c nb) [0..<256]) = sum_list (map c [0..<nb])" unfolding part_sums using scan_all[of nb] scan_ranges[of nb 256] by simp
  obtain p2 where p2: "scan_parts p1 = Inr p2" "length p2 = 257" "\<forall>t\<le>256. p2 ! t = sum_list (map (part_sum c nb) [0..<t])"
    using scan_parts_ok[OF p1(2), of "part_sum c nb"] p1(3) s al by auto
  define T where "T j = sum_list (map c [0..<j - row * nb])" for j
  have "writes T (length offs) (\<Union>t\<in>set ts. (+) (row * nb) ` set (scan_range nb t)) (fold_res (scan_offs counts nb row p2) ts)"
    by (rule sets_fold, rule scan_offs_writes[OF c s]) (use t p2 l in \<open>auto simp: T_def\<close>)
  moreover have "(\<Union>t\<in>set ts. (+) (row * nb) ` set (scan_range nb t)) = (+) (row * nb) ` set [0..<nb]"
    unfolding scan_all[of nb, symmetric] using t by auto
  ultimately obtain o2 where o2: "fold_res (scan_offs counts nb row p2) ts offs = Inr o2" "length o2 = length offs"
    "\<forall>j<length offs. o2 ! j = (if j \<in> (+) (row * nb) ` {0..<nb} then T j else offs ! j)" unfolding sets_def by auto
  have "load p2 256 = Inr (sum_list (map c [0..<nb]))" using p2 al by (simp add: load_ok)
  then have "scan_counts counts nb ts part row (offs, nps) = Inr (o2, nps[row := sum_list (map c [0..<nb])])"
    using p1(1) p2(1) o2(1) l(2) by (simp add: scan_counts_def store_ok)
  moreover have "j \<in> (+) (row * nb) ` {0..<nb} \<longleftrightarrow> row * nb \<le> j \<and> j < row * nb + nb" for j by auto
  ultimately show ?thesis using o2(2,3) by (simp add: T_def)
qed

lemma blk_count_total:
  assumes "list_job_ok J"
  shows "sum_list (map (blk_count J P) [0..<l_ntot J]) = rank P (l_npix J)" "rank P (l_npix J) < 2 ^ 31"
proof -
  show "sum_list (map (blk_count J P) [0..<l_ntot J]) = rank P (l_npix J)" using assms by (simp add: blk_rank_sum blk_rank_all)
  have "rank P (l_npix J) \<le> l_npix J" using length_filter_le[of P "[0..<l_npix J]"] by (simp add: rank_def)
  then show "rank P (l_npix J) < 2 ^ 31" using assms by (simp add: list_job_ok_def)
qed

lemma scan_grid_ok:
  assumes J: "list_job_ok J" and c: "\<And>row b. row < R \<Longrightarrow> b < l_ntot J \<Longrightarrow> counts ! (row * l_ntot J + b) = blk_count J (P row) b"
    and l: "R * l_ntot J \<le> length counts" "R * l_ntot J \<le> length offs" "R \<le> length nps"
    and t: "set ts = {0..<256}" "\<And>row. length (part row) = 257" "set rows = {0..<R}"
  shows "\<exists>offs' nps'. fold_res (\<lambda>row. scan_counts counts (l_ntot J) ts (part row) row) rows (offs, nps) = Inr (offs', nps') \<and> length offs' = length offs
    \<and> length nps' = length nps \<and> (\<forall>row<R. nps' ! row = rank (P row) (l_npix J) \<and> (\<forall>b<l_ntot J. offs' ! (row * l_ntot J + b) = blk_rank J (P row) b))"
proof -
  let ?nb = "l_ntot J" and ?LO = "length offs" and ?LN = "length nps"
  let ?ok = "\<lambda>s. length (fst s) = ?LO \<and> length (snd s) = ?LN" and ?get = "\<lambda>s j. (fst s @ snd s) ! j"
  define T where "T j = (if j < ?LO then blk_rank J (P (j div ?nb)) (j mod ?nb) else rank (P (j - ?LO)) (l_npix J))" for j
  let ?A = "\<lambda>row. {row * ?nb..<row * ?nb + ?nb} \<union> {?LO + row}"
  have "sets ?ok ?get T (?LO + ?LN) (\<Union>row\<in>set rows. ?A row) (fold_res (\<lambda>row. scan_counts counts ?nb ts (part row) row) rows)"
  proof (rule sets_fold)
    fix row assume "row \<in> set rows"
    then have row: "row < R" using t(3) by simp
    have re: "row * ?nb + ?nb \<le> R * ?nb" using mult_le_mono1[of "Suc row" R ?nb] row by simp
    have cc: "row * ?nb + k < length counts \<and> counts ! (row * ?nb + k) = blk_count J (P row) k" if "k < ?nb" for k
      using that re l(1) c[OF row that] by simp
    have sm: "sum_list (map (blk_count J (P row)) [0..<?nb]) < 2 ^ 32" using blk_count_total[OF J, of "P row"] by simp
    show "sets ?ok ?get T (?LO + ?LN) (?A row) (scan_counts counts ?nb ts (part row) row)" unfolding sets_def
    proof (intro allI impI)
      fix s :: "nat list \<times> nat list" assume s: "?ok s"
      obtain o1 n1 :: "nat list" where sd: "s = (o1, n1)" by (cases s)
      have b: "row * ?nb + ?nb \<le> length o1" "row < length n1" using re l(2,3) row s sd by simp_all
      obtain o2 where o2: "scan_counts counts ?nb ts (part row) row (o1, n1) = Inr (o2, n1[row := rank (P row) (l_npix J)])" "length o2 = length o1"
        "\<forall>j<length o1. o2 ! j = (if row * ?nb \<le> j \<and> j < row * ?nb + ?nb then sum_list (map (blk_count J (P row)) [0..<j - row * ?nb]) else o1 ! j)"
        using scan_counts_ok[OF cc sm t(1) t(2) b] unfolding blk_count_total(1)[OF J] by blast
      have T1: "T j = sum_list (map (blk_count J (P row)) [0..<j - row * ?nb])" if jr: "row * ?nb \<le> j" "j < row * ?nb + ?nb" for j
      proof -
        obtain k where j: "j = row * ?nb + k" using le_Suc_ex[OF jr(1)] by blast
        then have k: "j = row * ?nb + k" "k < ?nb" using jr(2) by simp_all
        have "j < ?LO" using jr re l(2) by simp
        then show ?thesis using k by (simp add: T_def blk_rank_sum[OF J])
      qed
      have "(o2 @ n1[row := rank (P row) (l_npix J)]) ! j = (if j \<in> ?A row then T j else (o1 @ n1) ! j)" if j: "j < ?LO + ?LN" for j
      proof (cases "j < ?LO")
        case True
        then show ?thesis using o2(2,3) s sd T1 by (simp add: nth_append)
      next
        case False
        then show ?thesis using o2(2) s sd b j by (auto simp: nth_append nth_list_update T_def)
      qed
      then show "\<exists>s'. scan_counts counts ?nb ts (part row) row s = Inr s' \<and> ?ok s' \<and> (\<forall>j<?LO + ?LN. ?get s' j = (if j \<in> ?A row then T j else ?get s j))"
        using o2(1,2) s sd by (intro exI[of _ "(o2, n1[row := rank (P row) (l_npix J)])"]) simp
    qed
  qed
  from setsD[OF this, of "(offs, nps)"] obtain s' where s': "fold_res (\<lambda>row. scan_counts counts ?nb ts (part row) row) rows (offs, nps) = Inr s'" "?ok s'"
    "\<forall>j<?LO + ?LN. ?get s' j = (if j \<in> (\<Union>row\<in>set rows. ?A row) then T j else (offs @ nps) ! j)" by (simp only: fst_conv snd_conv) blast
  obtain o2 n2 where sd: "s' = (o2, n2)" by (cases s')
  have r: "fold_res (\<lambda>row. scan_counts counts ?nb ts (part row) row) rows (offs, nps) = Inr (o2, n2)" "length o2 = ?LO" "length n2 = ?LN"
    "\<forall>j<?LO + ?LN. (o2 @ n2) ! j = (if j \<in> (\<Union>row\<in>set rows. ?A row) then T j else (offs @ nps) ! j)" using s' unfolding sd by (simp_all only: fst_conv snd_conv)
  have "n2 ! row = rank (P row) (l_npix J)" if row: "row < R" for row
    using r(4)[rule_format, of "?LO + row"] row l(3) t(3) r(2) by (auto simp: nth_append T_def)
  moreover have "o2 ! (row * ?nb + b) = blk_rank J (P row) b" if rb: "row < R" "b < ?nb" for row b
  proof -
    have j: "row * ?nb + b < ?LO" using row_cell[OF rb] l(2) by simp
    moreover have "row * ?nb + b \<in> (\<Union>row\<in>set rows. ?A row)" using rb t(3) by (intro UN_I[of row]) simp_all
    ultimately show ?thesis using r(4)[rule_format, of "row * ?nb + b"] r(2) rb by (simp add: nth_append T_def)
  qed
  ultimately show ?thesis using r(1-3) by blast
qed

section \<open>Levels and places\<close>

text \<open>The number of pixels of a level, the level of an image, and its list.\<close>

definition level_count :: "list_job \<Rightarrow> pix list \<Rightarrow> int list \<Rightarrow> nat \<Rightarrow> nat \<Rightarrow> nat" where
  "level_count J dense err im k = length (image_list J dense err im k)"

definition gpu_level :: "list_job \<Rightarrow> pix list \<Rightarrow> int list \<Rightarrow> nat \<Rightarrow> int" where
  "gpu_level J dense err im =
     (let c = level_count J dense err im in
      if l_howmany J < c 0 \<and> l_fallback J then -1
      else if l_howmany J < c 0 \<and> l_thr J \<noteq> [] then
        (case find (\<lambda>k. c k < l_howmany J) [1..<length (l_thr J) + 1] of Some k \<Rightarrow> int k | None \<Rightarrow> int (length (l_thr J)))
      else 0)"

definition gpu_list :: "list_job \<Rightarrow> pix list \<Rightarrow> int list \<Rightarrow> nat \<Rightarrow> (pix \<times> nat) list" where
  "gpu_list J dense err im =
     (let L = gpu_level J dense err im in if L < 0 then [] else take (l_howmany J) (image_list J dense err im (nat L)))"

lemma level_count_rank: "level_count J dense err im k = rank (keep J dense err im k) (l_npix J)"
  by (simp add: level_count_def image_list_def rank_def)

lemma find_upt: "find P [a..<b] = Some k \<Longrightarrow> a \<le> k \<and> k < b"
  by (auto simp: find_Some_iff)

lemma gpu_level_bounds: "gpu_level J dense err im \<le> int (length (l_thr J))"
  by (auto simp: gpu_level_def Let_def simp del: upt_Suc dest!: find_upt split: option.split)

lemma length_gpu_list: "length (gpu_list J dense err im)
    = (if gpu_level J dense err im < 0 then 0 else min (level_count J dense err im (nat (gpu_level J dense err im))) (l_howmany J))"
  by (simp add: gpu_list_def Let_def level_count_def)

lemma gpu_list_nth:
  assumes "0 \<le> gpu_level J dense err im" "p < l_npix J" "keep J dense err im (nat (gpu_level J dense err im)) p"
    "rank (keep J dense err im (nat (gpu_level J dense err im))) p < l_howmany J"
  shows "rank (keep J dense err im (nat (gpu_level J dense err im))) p < length (gpu_list J dense err im)"
    "gpu_list J dense err im ! rank (keep J dense err im (nat (gpu_level J dense err im))) p = (dense ! (im * l_stride J + p), p)"
proof -
  let ?P = "keep J dense err im (nat (gpu_level J dense err im))"
  have r: "rank ?P p < length (filter ?P [0..<l_npix J])" "filter ?P [0..<l_npix J] ! rank ?P p = p" using rank_nth[of p "l_npix J" ?P, OF assms(2,3)] by simp_all
  show "rank ?P p < length (gpu_list J dense err im)" using r(1) assms(1,4) by (simp add: gpu_list_def Let_def image_list_def)
  show "gpu_list J dense err im ! rank ?P p = (dense ! (im * l_stride J + p), p)" using r assms(1,4) by (simp add: gpu_list_def Let_def image_list_def)
qed

lemma level_row: "k \<le> length (l_thr J) \<Longrightarrow> im < l_n J \<Longrightarrow> k * l_n J + im < level_rows J"
  unfolding level_rows_def by (rule row_cell) simp_all

lemma first_level_ok:
  assumes "\<And>k. k \<in> set ks \<Longrightarrow> k * l_n J + im < length npxl \<and> npxl ! (k * l_n J + im) = c k"
  shows "first_level J npxl im ks = Inr (case find (\<lambda>k. c k < l_howmany J) ks of Some k \<Rightarrow> k | None \<Rightarrow> length (l_thr J))"
  using assms by (induction ks) (simp_all add: load_ok)

text \<open>Every thread sets its image's level and length.\<close>

lemma choose_level_sets:
  assumes J: "list_job_ok J" and l: "level_rows J \<le> length npxl" "l_n J \<le> LL" "l_n J \<le> LN"
    and c: "\<And>k. k \<le> length (l_thr J) \<Longrightarrow> im < l_n J \<Longrightarrow> npxl ! (k * l_n J + im) = level_count J dense err im k"
  shows "sets (\<lambda>s. length (fst s) = LL \<and> length (snd s) = LN) (\<lambda>s j. (fst s ! j, snd s ! j)) (\<lambda>j. (gpu_level J dense err j, length (gpu_list J dense err j))) (l_n J)
    (if im < l_n J then {im} else {}) (choose_level J npxl im)"
proof (cases "im < l_n J")
  case False
  then show ?thesis by (simp add: choose_level_def sets_def)
next
  case True
  let ?c = "level_count J dense err im" and ?L = "gpu_level J dense err im"
  have ld: "k * l_n J + im < length npxl \<and> npxl ! (k * l_n J + im) = ?c k" if "k \<le> length (l_thr J)" for k
    using level_row[OF that True] l(1) c[OF that True] by simp
  have l0: "load npxl im = Inr (?c 0)" using ld[of 0] by (simp add: load_ok)
  have f: "first_level J npxl im [1..<length (l_thr J) + 1] = Inr (case find (\<lambda>k. ?c k < l_howmany J) [1..<length (l_thr J) + 1] of Some k \<Rightarrow> k | None \<Rightarrow> length (l_thr J))"
    by (rule first_level_ok) (use ld in auto)
  have run: "choose_level J npxl im s = Inr ((fst s)[im := ?L], (snd s)[im := length (gpu_list J dense err im)])"
    if s: "length (fst s) = LL" "length (snd s) = LN" for s
  proof (cases "l_howmany J < ?c 0 \<and> l_fallback J")
    case fb: True
    then have "?L = -1" by (simp add: gpu_level_def Let_def)
    then show ?thesis using fb s True l by (cases s) (simp add: choose_level_def l0 store_ok length_gpu_list)
  next
    case fb: False
    define K where "K = (if l_howmany J < ?c 0 \<and> l_thr J \<noteq> [] then (case find (\<lambda>k. ?c k < l_howmany J) [1..<length (l_thr J) + 1] of Some k \<Rightarrow> k | None \<Rightarrow> length (l_thr J)) else 0)"
    have L: "?L = int K" using fb by (simp add: gpu_level_def K_def Let_def del: upt_Suc split: option.split)
    have K: "K \<le> length (l_thr J)" using gpu_level_bounds[of J dense err im] L by simp
    have "(if l_howmany J < ?c 0 \<and> 0 < length (l_thr J) then first_level J npxl im [1..<length (l_thr J) + 1] else Inr 0) = Inr K"
      unfolding f by (simp add: K_def)
    moreover have "load npxl (K * l_n J + im) = Inr (?c K)" using ld[OF K] by (simp add: load_ok)
    ultimately show ?thesis using fb s True l L by (cases s) (auto simp: choose_level_def l0 store_ok length_gpu_list simp del: upt_Suc)
  qed
  show ?thesis unfolding sets_def
  proof (intro allI impI)
    fix s :: "int list \<times> nat list" assume s: "length (fst s) = LL \<and> length (snd s) = LN"
    let ?s = "((fst s)[im := ?L], (snd s)[im := length (gpu_list J dense err im)])"
    have "choose_level J npxl im s = Inr ?s" using run s by blast
    then show "\<exists>s'. choose_level J npxl im s = Inr s' \<and> (length (fst s') = LL \<and> length (snd s') = LN)
        \<and> (\<forall>j<l_n J. (fst s' ! j, snd s' ! j) = (if j \<in> (if im < l_n J then {im} else {}) then (gpu_level J dense err j, length (gpu_list J dense err j)) else (fst s ! j, snd s ! j)))"
      using s True l by (intro exI[of _ ?s]) (auto simp: nth_list_update)
  qed
qed

lemma choose_grid_ok:
  assumes J: "list_job_ok J" and l: "level_rows J \<le> length npxl" "l_n J \<le> length level" "l_n J \<le> length nps"
    and c: "\<And>im k. im < l_n J \<Longrightarrow> k \<le> length (l_thr J) \<Longrightarrow> npxl ! (k * l_n J + im) = level_count J dense err im k" and ids: "{0..<l_n J} \<subseteq> set ids"
  shows "\<exists>level' nps'. fold_res (choose_level J npxl) ids (level, nps) = Inr (level', nps') \<and> length level' = length level \<and> length nps' = length nps
    \<and> (\<forall>im<l_n J. level' ! im = gpu_level J dense err im \<and> nps' ! im = length (gpu_list J dense err im))"
proof -
  let ?A = "\<lambda>im. if im < l_n J then {im} else {}"
  have "sets (\<lambda>s. length (fst s) = length level \<and> length (snd s) = length nps) (\<lambda>s j. (fst s ! j, snd s ! j))
    (\<lambda>j. (gpu_level J dense err j, length (gpu_list J dense err j))) (l_n J) (\<Union>im\<in>set ids. ?A im) (fold_res (choose_level J npxl) ids)"
    by (rule sets_fold, rule choose_level_sets[OF J l]) (rule c)
  then obtain s' where s': "fold_res (choose_level J npxl) ids (level, nps) = Inr s'" "length (fst s') = length level" "length (snd s') = length nps"
    "\<forall>j<l_n J. (fst s' ! j, snd s' ! j) = (if j \<in> (\<Union>im\<in>set ids. ?A im) then (gpu_level J dense err j, length (gpu_list J dense err j)) else (level ! j, nps ! j))"
    unfolding sets_def by fastforce
  have "j \<in> (\<Union>im\<in>set ids. ?A im)" if "j < l_n J" for j using that ids by force
  then show ?thesis using s' by (intro exI[of _ "fst s'"] exI[of _ "snd s'"]) auto
qed

text \<open>The lists lie back to back.\<close>

definition list_start :: "list_job \<Rightarrow> pix list \<Rightarrow> int list \<Rightarrow> nat \<Rightarrow> nat" where
  "list_start J dense err im = sum_list (map (\<lambda>i. length (gpu_list J dense err i)) [0..<im])"

lemma list_start_le: "im \<le> n \<Longrightarrow> list_start J dense err im \<le> list_start J dense err n"
  unfolding list_start_def by (rule prefix_le)

lemma list_start_bound: "list_start J dense err n \<le> n * l_howmany J"
proof (induction n)
  case (Suc n)
  have "length (gpu_list J dense err n) \<le> l_howmany J" by (simp add: length_gpu_list)
  then show ?case using Suc by (simp add: list_start_def)
qed (simp add: list_start_def)

lemma scan_images_ok:
  assumes J: "list_job_ok J" and l: "l_n J \<le> length nps" "l_n J \<le> length imgoff" and c: "\<And>im. im < l_n J \<Longrightarrow> nps ! im = length (gpu_list J dense err im)"
  shows "\<exists>imgoff'. scan_images J nps imgoff = Inr imgoff' \<and> length imgoff' = length imgoff \<and> (\<forall>im<l_n J. imgoff' ! im = list_start J dense err im)"
proof -
  let ?S = "list_start J dense err"
  let ?step = "\<lambda>i (imgoff, r). rbind (store imgoff i r) (\<lambda>imgoff. rbind (load nps i) (\<lambda>x. Inr (imgoff, w32 (r + x))))"
  let ?I = "\<lambda>i s. length (fst s) = length imgoff \<and> snd s = ?S i \<and> (\<forall>j<i. fst s ! j = ?S j)"
  have "\<exists>s. fold_res ?step [0..<l_n J] (imgoff, 0) = Inr s \<and> ?I (l_n J) s"
  proof (rule fold_upt_inv[where I = ?I])
    show "?I 0 (imgoff, 0)" by (simp add: list_start_def)
    fix i s assume i: "i < l_n J" "?I i s"
    obtain o1 r where sd: "s = (o1, r)" by (cases s)
    have "?S (Suc i) < 2 ^ 32" using list_start_le[of "Suc i" "l_n J" J dense err] list_start_bound[of J dense err "l_n J"] i(1) J by (simp add: list_job_ok_def)
    moreover have "?S (Suc i) = ?S i + length (gpu_list J dense err i)" by (simp add: list_start_def)
    ultimately have "?step i s = Inr (o1[i := ?S i], ?S (Suc i))" using i sd l c by (simp add: load_ok store_ok)
    then show "\<exists>s'. ?step i s = Inr s' \<and> ?I (Suc i) s'" using i sd l by (intro exI[of _ "(o1[i := ?S i], ?S (Suc i))"]) (auto simp: nth_list_update less_Suc_eq)
  qed
  then show ?thesis by (auto simp: scan_images_def)
qed

section \<open>Writing the lists\<close>

lemma write_lane_sets:
  assumes J: "list_job_ok J" and fs: "length fs = 32" "length vs = 32" and ln: "lane < 32"
    and f: "\<And>l. l < 32 \<Longrightarrow> fs ! l \<longleftrightarrow> Q (p + l)" and cnt: "cnt = rank Q p" and b: "rank Q (p + lane) < 2 ^ 32"
    and T: "Q (p + lane) \<Longrightarrow> rank Q (p + lane) < hm \<Longrightarrow> base + rank Q (p + lane) < LV \<and> base + rank Q (p + lane) < LI
      \<and> T (base + rank Q (p + lane)) = (vs ! lane, p0b + (p0 + lane))"
  shows "sets (\<lambda>s. length (fst s) = LV \<and> length (snd s) = LI) (\<lambda>s j. (fst s ! j, snd s ! j)) T (min LV LI)
    (if Q (p + lane) \<and> rank Q (p + lane) < hm then {base + rank Q (p + lane)} else {}) (write_lane hm base p0b p0 cnt vs fs lane)"
proof -
  let ?r = "rank Q (p + lane)"
  have "length (filter id (take lane fs)) = length (filter (\<lambda>l. Q (p + l)) [0..<lane])"
  proof -
    have "filter (\<lambda>i. take lane fs ! i) [0..<lane] = filter (\<lambda>l. Q (p + l)) [0..<lane]" by (rule filter_cong) (use f ln in auto)
    then show ?thesis using filter_nth_id[of "take lane fs" lane] fs(1) ln by simp
  qed
  then have "cnt + popc (ballot fs AND (push_bit lane 1 - 1)) = ?r" using popc_below[OF fs(1) ln] rank_shift[of Q p lane] cnt by simp
  then have run: "write_lane hm base p0b p0 cnt vs fs lane (vals, idx)
      = (if Q (p + lane) \<and> ?r < hm then rbind (store vals (base + ?r) (vs ! lane)) (\<lambda>vals. rbind (store idx (base + ?r) (p0b + (p0 + lane))) (\<lambda>idx. Inr (vals, idx)))
         else Inr (vals, idx))" for vals idx
    unfolding write_lane_def prod.case by (simp only: Let_def w32_small[OF b] f[OF ln])
  show ?thesis
  proof (cases "Q (p + lane) \<and> ?r < hm")
    case False
    then show ?thesis by (auto simp: sets_def run)
  next
    case True
    note t = T[OF conjunct1[OF True] conjunct2[OF True]]
    show ?thesis unfolding sets_def
    proof (intro allI impI)
      fix s :: "pix list \<times> nat list" assume s: "length (fst s) = LV \<and> length (snd s) = LI"
      obtain vals idx where sd: "s = (vals, idx)" by (cases s)
      have "write_lane hm base p0b p0 cnt vs fs lane s = Inr (vals[base + ?r := vs ! lane], idx[base + ?r := p0b + (p0 + lane)])"
        using True t s sd by (simp add: run store_ok)
      then show "\<exists>s'. write_lane hm base p0b p0 cnt vs fs lane s = Inr s' \<and> (length (fst s') = LV \<and> length (snd s') = LI) \<and> (\<forall>j<min LV LI. (fst s' ! j, snd s' ! j)
          = (if j \<in> (if Q (p + lane) \<and> ?r < hm then {base + ?r} else {}) then T j else (fst s ! j, snd s ! j)))"
        using True t s sd by (intro exI[of _ "(vals[base + ?r := vs ! lane], idx[base + ?r := p0b + (p0 + lane)])"]) (auto simp: nth_list_update)
    qed
  qed
qed

lemma write_groups_sets:
  assumes J: "list_job_ok J" and d: "d0 = im * l_stride J + p0b" "d0 + nel \<le> length dense" "p0b + nel \<le> l_npix J" and ord: "set ord = {0..<32}"
    and Q: "\<And>p. Q p \<longleftrightarrow> p < p0b + nel \<and> (\<forall>c\<in>set lims. above_px (l_dt J) (dense ! (im * l_stride J + p)) c) \<and> l_mask J ! p \<noteq> 0"
    and T: "\<And>p. p < p0b + nel \<Longrightarrow> Q p \<Longrightarrow> rank Q p < l_howmany J \<Longrightarrow> base + rank Q p < LV \<and> base + rank Q p < LI
      \<and> T (base + rank Q p) = (dense ! (im * l_stride J + p), p)"
  shows "g \<le> G \<Longrightarrow> sets (\<lambda>s. length (fst s) = LV \<and> length (snd s) = LI) (\<lambda>s j. (fst s ! j, snd s ! j)) T (min LV LI)
    {base + rank Q p |p. p0b + 32 * g \<le> p \<and> p < p0b + 32 * G \<and> Q p \<and> rank Q p < l_howmany J}
    (write_groups J dense ord lims base d0 p0b nel (map (\<lambda>g. 32 * g) [g..<G]) (rank Q (p0b + 32 * g)))"
proof (induction g rule: inc_induct)
  case base
  show ?case by (auto simp: sets_def)
next
  case (step g)
  let ?p = "p0b + 32 * g" and ?hm = "l_howmany J"
  have u: "map (\<lambda>g. 32 * g) [g..<G] = 32 * g # map (\<lambda>g. 32 * g) [Suc g..<G]" using step.hyps by (simp add: upt_conv_Cons)
  let ?A = "\<lambda>g. {base + rank Q p |p. p0b + 32 * g \<le> p \<and> p < p0b + 32 * G \<and> Q p \<and> rank Q p < ?hm}"
  show ?case
  proof (cases "?hm \<le> rank Q ?p")
    case True
    have "\<not> rank Q p < ?hm" if "?p \<le> p" for p using rank_mono[OF that, of Q] True by simp
    then have e: "?A g = {}" by blast
    show ?thesis unfolding u e using True by (simp add: sets_def)
  next
    case False
    let ?vs = "map (\<lambda>l. if 32 * g + l < nel then dense ! (d0 + (32 * g + l)) else 0) [0..<32]"
    let ?fs = "map (\<lambda>l. 32 * g + l < nel \<and> (\<forall>c\<in>set lims. above_px (l_dt J) (?vs ! l) c) \<and> l_mask J ! (p0b + (32 * g + l)) \<noteq> 0) [0..<32]"
    have m: "p0b + nel \<le> length (l_mask J)" using d(3) J by (simp add: list_job_ok_def)
    have t: "warp_tests J lims p0b nel (32 * g) ?vs = Inr ?fs" by (rule warp_tests_ok[OF m]) simp
    have f: "?fs ! l \<longleftrightarrow> Q (?p + l)" if "l < 32" for l using that d(1) by (auto simp: Q add.assoc)
    have b: "rank Q q < 2 ^ 32" for q
    proof -
      have "rank Q q = rank Q (min q (p0b + nel))"
      proof (cases "q \<le> p0b + nel")
        case False
        then have "filter Q [p0b + nel..<q] = []" by (auto simp: filter_empty_conv Q)
        then show ?thesis using rank_split[of "p0b + nel" q Q] False by (simp add: min_def)
      qed (simp add: min_def)
      also have "\<dots> \<le> p0b + nel" using length_filter_le[of Q "[0..<min q (p0b + nel)]"] by (simp add: rank_def)
      finally show ?thesis using d(3) J by (simp add: list_job_ok_def)
    qed
    let ?W = "\<lambda>lane. if Q (?p + lane) \<and> rank Q (?p + lane) < ?hm then {base + rank Q (?p + lane)} else {}"
    have w: "sets (\<lambda>s. length (fst s) = LV \<and> length (snd s) = LI) (\<lambda>s j. (fst s ! j, snd s ! j)) T (min LV LI) (\<Union>lane\<in>set ord. ?W lane)
      (fold_res (write_lane ?hm base p0b (32 * g) (rank Q ?p) ?vs ?fs) ord)"
    proof (rule sets_fold)
      fix lane assume "lane \<in> set ord"
      then have ln: "lane < 32" using ord by simp
      show "sets (\<lambda>s. length (fst s) = LV \<and> length (snd s) = LI) (\<lambda>s j. (fst s ! j, snd s ! j)) T (min LV LI) (?W lane)
        (write_lane ?hm base p0b (32 * g) (rank Q ?p) ?vs ?fs lane)"
      proof (rule write_lane_sets[OF J _ _ ln f refl b])
        assume q: "Q (?p + lane)" "rank Q (?p + lane) < ?hm"
        have l: "?p + lane < p0b + nel" using q(1) by (simp only: Q)
        have "?vs ! lane = dense ! (im * l_stride J + (?p + lane))" using ln l d(1) by (simp add: add.assoc)
        then show "base + rank Q (?p + lane) < LV \<and> base + rank Q (?p + lane) < LI \<and> T (base + rank Q (?p + lane)) = (?vs ! lane, p0b + (32 * g + lane))"
          using T[OF l q] by (simp only: add.assoc simp_thms)
      qed simp_all
    qed
    have c: "rank Q ?p + popc (ballot ?fs) = rank Q (p0b + 32 * Suc g)"
    proof -
      have "filter (\<lambda>l. ?fs ! l) [0..<32] = filter (\<lambda>l. Q (?p + l)) [0..<32]" by (rule filter_cong) (use f in auto)
      then have "popc (ballot ?fs) = length (filter (\<lambda>l. Q (?p + l)) [0..<32])" using popc_ballot[of ?fs] filter_nth_id[of ?fs 32]
        by (simp only: length_map length_upt diff_zero)
      then show ?thesis using rank_shift[of Q ?p 32] by (simp add: algebra_simps)
    qed
    have run: "write_groups J dense ord lims base d0 p0b nel (map (\<lambda>g. 32 * g) [g..<G]) (rank Q ?p)
      = (\<lambda>s. rbind (fold_res (write_lane ?hm base p0b (32 * g) (rank Q ?p) ?vs ?fs) ord s)
          (write_groups J dense ord lims base d0 p0b nel (map (\<lambda>g. 32 * g) [Suc g..<G]) (rank Q (p0b + 32 * Suc g))))"
      unfolding u write_groups.simps if_not_P[OF False] warp_pixels_ok[OF d(2)] rbind.simps t c w32_small[OF b] by (rule refl)
    have A: "?A g = (\<Union>lane\<in>set ord. ?W lane) \<union> ?A (Suc g)"
    proof (rule set_eqI, rule iffI)
      fix j assume "j \<in> ?A g"
      then obtain p where p: "j = base + rank Q p" "?p \<le> p" "p < p0b + 32 * G" "Q p" "rank Q p < ?hm" by auto
      show "j \<in> (\<Union>lane\<in>set ord. ?W lane) \<union> ?A (Suc g)"
      proof (cases "p0b + 32 * Suc g \<le> p")
        case True
        then show ?thesis using p by auto
      next
        case False
        then have "p - ?p < 32" "?p + (p - ?p) = p" using p(2) by simp_all
        then show ?thesis using p ord by (intro UnI1 UN_I[of "p - ?p"]) simp_all
      qed
    next
      fix j assume "j \<in> (\<Union>lane\<in>set ord. ?W lane) \<union> ?A (Suc g)"
      then consider lane where "lane < 32" "j \<in> ?W lane" | "j \<in> ?A (Suc g)" using ord by auto
      then show "j \<in> ?A g"
      proof cases
        case 1
        have "?p + lane < p0b + 32 * G" using 1(1) step.hyps by simp
        then show ?thesis using 1 by (intro CollectI exI[of _ "?p + lane"]) (auto split: if_splits)
      next
        case 2
        then obtain p where "j = base + rank Q p" "p0b + 32 * Suc g \<le> p" "p < p0b + 32 * G" "Q p" "rank Q p < ?hm" by blast
        then show ?thesis by (intro CollectI exI[of _ p]) simp
      qed
    qed
    show ?thesis unfolding run A by (rule sets_bind[OF w step.IH])
  qed
qed

lemma concat_at:
  assumes "i < n" "r < length (f i)"
  shows "concat (map f [0..<n]) ! (sum_list (map (\<lambda>i. length (f i)) [0..<i]) + r) = f i ! r"
    "sum_list (map (\<lambda>i. length (f i)) [0..<i]) + r < sum_list (map (\<lambda>i. length (f i)) [0..<n])"
proof -
  have "[0..<n] = [0..<i] @ i # [Suc i..<n]" using upt_cut[of 0 i n] upt_conv_Cons[of i n] assms(1) by simp
  moreover have "length (concat (map f [0..<i])) = sum_list (map (\<lambda>i. length (f i)) [0..<i])" by (simp add: length_concat comp_def)
  ultimately show "concat (map f [0..<n]) ! (sum_list (map (\<lambda>i. length (f i)) [0..<i]) + r) = f i ! r"
    using assms(2) by (simp add: nth_append)
  show "sum_list (map (\<lambda>i. length (f i)) [0..<i]) + r < sum_list (map (\<lambda>i. length (f i)) [0..<n])"
    using assms(2) prefix_le[of "Suc i" n "\<lambda>i. length (f i)"] assms(1) by simp
qed

text \<open>What a warp of \<open>collect_write\<close> sets, in the output seen as a list of pairs.\<close>

definition list_cells :: "list_job \<Rightarrow> pix list \<Rightarrow> int list \<Rightarrow> nat \<Rightarrow> nat \<Rightarrow> nat set" where
  "list_cells J dense err im b = (let P = keep J dense err im (nat (gpu_level J dense err im)) in
     {list_start J dense err im + rank P p |p. 0 \<le> gpu_level J dense err im \<and> blk_first J b \<le> p \<and> p < blk_first J b + blk_len J b \<and> P p \<and> rank P p < l_howmany J})"

definition all_lists :: "list_job \<Rightarrow> pix list \<Rightarrow> int list \<Rightarrow> (pix \<times> nat) list" where
  "all_lists J dense err = concat (map (gpu_list J dense err) [0..<l_n J])"

lemma collect_write_sets:
  assumes J: "list_job_ok J" and im: "im < l_n J" and b: "b < l_ntot J" and ord: "set ord = {0..<32}"
    and l: "l_n J \<le> length err" "l_n J * l_stride J \<le> length dense" "level_rows J * l_ntot J \<le> length counts" "level_rows J * l_ntot J \<le> length offs"
      "l_n J \<le> length level" "l_n J \<le> length imgoff" "list_start J dense err (l_n J) \<le> LV" "list_start J dense err (l_n J) \<le> LI"
    and lev: "level ! im = gpu_level J dense err im" and io: "imgoff ! im = list_start J dense err im"
    and c: "\<And>k. k \<le> length (l_thr J) \<Longrightarrow> counts ! ((k * l_n J + im) * l_ntot J + b) = blk_count J (keep J dense err im k) b
      \<and> offs ! ((k * l_n J + im) * l_ntot J + b) = blk_rank J (keep J dense err im k) b"
  shows "sets (\<lambda>s. length (fst s) = LV \<and> length (snd s) = LI) (\<lambda>s j. (fst s ! j, snd s ! j)) ((!) (all_lists J dense err)) (min LV LI)
    (list_cells J dense err im b) (collect_write J dense err counts offs level imgoff (im, b, ord))"
proof -
  let ?L = "gpu_level J dense err im" and ?base = "list_start J dense err im" and ?hm = "l_howmany J"
  let ?p0 = "blk_first J b" and ?nel = "blk_len J b"
  define k where "k = nat ?L"
  let ?P = "keep J dense err im k"
  have cells: "list_cells J dense err im b = {?base + rank ?P p |p. 0 \<le> ?L \<and> ?p0 \<le> p \<and> p < ?p0 + ?nel \<and> ?P p \<and> rank ?P p < ?hm}"
    by (simp add: list_cells_def k_def Let_def)
  have le: "load err im = Inr (err ! im)" "load level im = Inr ?L" "load imgoff im = Inr ?base" using im l lev io by (simp_all add: load_ok)
  have skip: ?thesis if "\<And>s. collect_write J dense err counts offs level imgoff (im, b, ord) s = Inr s" "list_cells J dense err im b = {}"
    using that by (simp add: sets_def)
  show ?thesis
  proof (cases "err ! im = 0 \<and> 0 \<le> ?L")
    case False
    show ?thesis
    proof (rule skip)
      show "list_cells J dense err im b = {}" using False unfolding cells by (auto simp: keep_def)
      show "collect_write J dense err counts offs level imgoff (im, b, ord) s = Inr s" for s using False b le by (auto simp: collect_write_def)
    qed
  next
    case True
    let ?row = "(k * l_n J + im) * l_ntot J + b"
    have k: "k \<le> length (l_thr J)" using gpu_level_bounds[of J dense err im] by (simp add: k_def)
    have r: "?row < level_rows J * l_ntot J" by (rule row_cell[OF level_row[OF k im] b])
    have ld: "load offs ?row = Inr (blk_rank J ?P b)" "load counts ?row = Inr (blk_count J ?P b)" using r l(3,4) c[OF k] by (simp_all add: load_ok)
    note bb = blk_bounds[OF J b]
    have st: "blk_rank J ?P b = rank ?P ?p0" using bb(3) by (simp add: blk_rank_def)
    have hd: "collect_write J dense err counts offs level imgoff (im, b, ord) s = (if blk_count J ?P b = 0 \<or> ?hm \<le> rank ?P ?p0 then Inr s
        else rbind (if ?L = 0 then Inr (l_cut J) else load (l_thr J) (k - 1)) (\<lambda>lim.
          write_groups J dense ord [l_cut J, lim] ?base (im * l_stride J + ?p0) ?p0 ?nel (group_starts ?nel) (rank ?P ?p0) s))" for s
      using True b le ld by (simp add: collect_write_def Let_def k_def[symmetric] st)
    show ?thesis
    proof (cases "blk_count J ?P b = 0 \<or> ?hm \<le> rank ?P ?p0")
      case stop: True
      show ?thesis
      proof (rule skip)
        show "collect_write J dense err counts offs level imgoff (im, b, ord) s = Inr s" for s using stop by (simp add: hd)
        have "\<not> (?p0 \<le> p \<and> p < ?p0 + ?nel \<and> ?P p \<and> rank ?P p < ?hm)" for p
          using stop rank_mono[of ?p0 p ?P] by (auto simp: blk_count_def filter_empty_conv)
        then show "list_cells J dense err im b = {}" unfolding cells by blast
      qed
    next
      case go: False
      define lim where "lim = (if ?L = 0 then l_cut J else l_thr J ! (k - 1))"
      have lm: "(if ?L = 0 then Inr (l_cut J) else load (l_thr J) (k - 1)) = Inr lim" using True k by (auto simp: lim_def k_def load_ok)
      let ?Q = "\<lambda>p. p < ?p0 + ?nel \<and> (\<forall>c\<in>set [l_cut J, lim]. above_px (l_dt J) (dense ! (im * l_stride J + p)) c) \<and> l_mask J ! p \<noteq> 0"
      have PQ: "?Q p \<longleftrightarrow> p < ?p0 + ?nel \<and> ?P p" for p
      proof (cases "?L = 0")
        case True
        then have "k = 0" "lim = l_cut J" by (simp_all add: k_def lim_def)
        then show ?thesis using \<open>err ! im = 0 \<and> 0 \<le> ?L\<close> by (simp add: keep_def)
      next
        case False
        then have "0 < k" "lim = l_thr J ! (k - 1)" using True by (simp_all add: k_def lim_def)
        then show ?thesis using keep_last[OF J, of k dense err im p] k True by auto
      qed
      have rk: "rank ?Q p = rank ?P p" if "p \<le> ?p0 + ?nel" for p 
      proof (rule rank_cong)
        fix i assume "i < p"
        then have "i < ?p0 + ?nel" using that by simp
        then show "?Q i = ?P i" using PQ[of i] by blast
      qed
      have pn: "?p0 + ?nel \<le> l_npix J" using bb(4) by simp
      let ?G = "(?nel + 31) div 32"
      have w: "sets (\<lambda>s. length (fst s) = LV \<and> length (snd s) = LI) (\<lambda>s j. (fst s ! j, snd s ! j)) ((!) (all_lists J dense err)) (min LV LI)
        {?base + rank ?Q p |p. ?p0 + 32 * 0 \<le> p \<and> p < ?p0 + 32 * ?G \<and> ?Q p \<and> rank ?Q p < ?hm}
        (write_groups J dense ord [l_cut J, lim] ?base (im * l_stride J + ?p0) ?p0 ?nel (map (\<lambda>g. 32 * g) [0..<?G]) (rank ?Q (?p0 + 32 * 0)))"
      proof (rule write_groups_sets[OF J refl _ pn ord refl _ le0])
        have "Suc im * l_stride J \<le> l_n J * l_stride J" using im by (intro mult_le_mono1) simp
        then show "im * l_stride J + ?p0 + ?nel \<le> length dense" using pn l(2) J by (simp add: list_job_ok_def)
        fix p assume p: "p < ?p0 + ?nel" "?Q p" "rank ?Q p < ?hm"
        have P: "?P p" "p < l_npix J" "rank ?P p < ?hm" using p PQ[of p] pn rk[of p] by simp_all
        from gpu_list_nth[of J dense err im p] True P have g: "rank ?P p < length (gpu_list J dense err im)"
          "gpu_list J dense err im ! rank ?P p = (dense ! (im * l_stride J + p), p)" unfolding k_def by auto
        have "?base + rank ?P p < list_start J dense err (l_n J)" "all_lists J dense err ! (?base + rank ?P p) = (dense ! (im * l_stride J + p), p)"
          using concat_at[of im "l_n J" "rank ?P p" "gpu_list J dense err", OF im g(1)] g(2) by (simp_all add: list_start_def all_lists_def)
        then show "?base + rank ?Q p < LV \<and> ?base + rank ?Q p < LI \<and> all_lists J dense err ! (?base + rank ?Q p) = (dense ! (im * l_stride J + p), p)"
          using l(7,8) rk[of p] p(1) by simp
      qed
      have "{?base + rank ?Q p |p. ?p0 + 32 * 0 \<le> p \<and> p < ?p0 + 32 * ?G \<and> ?Q p \<and> rank ?Q p < ?hm} = list_cells J dense err im b" unfolding cells
      proof (intro Collect_cong ex_cong1)
        fix j p
        have "?nel \<le> 32 * ?G" by linarith
        then show "(j = ?base + rank ?Q p \<and> ?p0 + 32 * 0 \<le> p \<and> p < ?p0 + 32 * ?G \<and> ?Q p \<and> rank ?Q p < ?hm)
          \<longleftrightarrow> (j = ?base + rank ?P p \<and> 0 \<le> ?L \<and> ?p0 \<le> p \<and> p < ?p0 + ?nel \<and> ?P p \<and> rank ?P p < ?hm)" using rk[of p] PQ[of p] True by auto
      qed
      moreover have "rank ?Q (?p0 + 32 * 0) = rank ?P ?p0" using rk[of ?p0] by simp
      moreover have "collect_write J dense err counts offs level imgoff (im, b, ord)
        = write_groups J dense ord [l_cut J, lim] ?base (im * l_stride J + ?p0) ?p0 ?nel (group_starts ?nel) (rank ?P ?p0)" using go lm by (simp add: hd fun_eq_iff)
      ultimately show ?thesis using w by (simp only: group_starts_def)
    qed
  qed
qed

lemma cells_cover:
  assumes J: "list_job_ok J" and im: "im < l_n J" and r: "r < length (gpu_list J dense err im)"
  shows "\<exists>b<l_ntot J. list_start J dense err im + r \<in> list_cells J dense err im b"
proof -
  let ?L = "gpu_level J dense err im"
  let ?P = "keep J dense err im (nat ?L)"
  have L: "0 \<le> ?L" "r < rank ?P (l_npix J)" "r < l_howmany J" using r by (simp_all add: length_gpu_list level_count_rank split: if_splits)
  obtain p where p: "p < l_npix J" "?P p" "rank ?P p = r" using rank_onto[OF L(2)] by blast
  have e: "0 < blk_elems J" using J by (auto simp: list_job_ok_def blk_elems_def)
  define b where "b = p div blk_elems J"
  have "p < l_ntot J * blk_elems J" using p(1) blk_last[OF J] by (simp add: blk_first_def)
  then have b: "b < l_ntot J" by (simp add: b_def less_mult_imp_div_less)
  have "blk_first J b \<le> p" "p < blk_first J (Suc b)" using e dividend_less_div_times[OF e, of p] by (simp_all add: b_def blk_first_def)
  then have "blk_first J b \<le> p \<and> p < blk_first J b + blk_len J b" using blk_bounds(4)[OF J b] p(1) by simp
  then show ?thesis using b p L by (auto simp: list_cells_def Let_def)
qed

lemma collect_grid_ok:
  assumes J: "list_job_ok J"
    and l: "l_n J \<le> length err" "l_n J * l_stride J \<le> length dense" "level_rows J * l_ntot J \<le> length counts" "level_rows J * l_ntot J \<le> length offs"
      "l_n J \<le> length level" "l_n J \<le> length imgoff" "list_start J dense err (l_n J) \<le> length vals" "list_start J dense err (l_n J) \<le> length idx"
    and lev: "\<And>im. im < l_n J \<Longrightarrow> level ! im = gpu_level J dense err im" and io: "\<And>im. im < l_n J \<Longrightarrow> imgoff ! im = list_start J dense err im"
    and c: "\<And>row b. row < level_rows J \<Longrightarrow> b < l_ntot J \<Longrightarrow> counts ! (row * l_ntot J + b) = blk_count J (row_keep J dense err row) b"
    and o: "\<And>row b. row < level_rows J \<Longrightarrow> b < l_ntot J \<Longrightarrow> offs ! (row * l_ntot J + b) = blk_rank J (row_keep J dense err row) b"
    and ws: "\<And>im b ord. (im, b, ord) \<in> set ws \<Longrightarrow> im < l_n J \<and> set ord = {0..<32}" "\<And>im b. im < l_n J \<Longrightarrow> b < l_ntot J \<Longrightarrow> \<exists>ord. (im, b, ord) \<in> set ws"
  shows "\<exists>vals' idx'. fold_res (collect_write J dense err counts offs level imgoff) ws (vals, idx) = Inr (vals', idx')
    \<and> length vals' = length vals \<and> length idx' = length idx
    \<and> (\<forall>im<l_n J. take (length (gpu_list J dense err im)) (drop (imgoff ! im) (zip vals' idx')) = gpu_list J dense err im)"
proof -
  let ?A = "\<lambda>(im, b, ord :: nat list). if b < l_ntot J then list_cells J dense err im b else {}" and ?N = "list_start J dense err (l_n J)"
  have "sets (\<lambda>s. length (fst s) = length vals \<and> length (snd s) = length idx) (\<lambda>s j. (fst s ! j, snd s ! j)) ((!) (all_lists J dense err))
    (min (length vals) (length idx)) (\<Union>w\<in>set ws. ?A w) (fold_res (collect_write J dense err counts offs level imgoff) ws)"
  proof (rule sets_fold)
    fix w assume w: "w \<in> set ws"
    obtain im b ord where wd: "w = (im, b, ord)" by (cases w)
    have io': "im < l_n J" "set ord = {0..<32}" using ws(1) w wd by blast+
    show "sets (\<lambda>s. length (fst s) = length vals \<and> length (snd s) = length idx) (\<lambda>s j. (fst s ! j, snd s ! j)) ((!) (all_lists J dense err))
      (min (length vals) (length idx)) (?A w) (collect_write J dense err counts offs level imgoff w)"
    proof (cases "b < l_ntot J")
      case True
      have "sets (\<lambda>s. length (fst s) = length vals \<and> length (snd s) = length idx) (\<lambda>s j. (fst s ! j, snd s ! j)) ((!) (all_lists J dense err))
        (min (length vals) (length idx)) (list_cells J dense err im b) (collect_write J dense err counts offs level imgoff (im, b, ord))"
      proof (rule collect_write_sets[OF J io'(1) True io'(2) l lev[OF io'(1)] io[OF io'(1)]])
        fix k assume "k \<le> length (l_thr J)"
        from level_row[OF this io'(1)] show "counts ! ((k * l_n J + im) * l_ntot J + b) = blk_count J (keep J dense err im k) b
          \<and> offs ! ((k * l_n J + im) * l_ntot J + b) = blk_rank J (keep J dense err im k) b" using c o True io'(1) by simp
      qed
      then show ?thesis using True wd by simp
    next
      case False
      then show ?thesis using wd by (simp add: collect_write_def sets_def)
    qed
  qed
  from setsD[OF this, of "(vals, idx)"] obtain s' where s': "fold_res (collect_write J dense err counts offs level imgoff) ws (vals, idx) = Inr s'"
    "length (fst s') = length vals \<and> length (snd s') = length idx"
    "\<forall>j<min (length vals) (length idx). (fst s' ! j, snd s' ! j) = (if j \<in> (\<Union>w\<in>set ws. ?A w) then all_lists J dense err ! j else (vals ! j, idx ! j))"
    by (simp only: fst_conv snd_conv) blast
  have "take (length (gpu_list J dense err im)) (drop (imgoff ! im) (zip (fst s') (snd s'))) = gpu_list J dense err im" if im: "im < l_n J" for im
  proof (rule nth_equalityI)
    let ?S = "list_start J dense err im" and ?n = "length (gpu_list J dense err im)"
    have "?S + ?n = list_start J dense err (Suc im)" by (simp add: list_start_def)
    also have "\<dots> \<le> ?N" by (rule list_start_le) (use im in simp)
    finally have b: "?S + ?n \<le> length vals" "?S + ?n \<le> length idx" using l(7,8) by simp_all
    then show n: "length (take ?n (drop (imgoff ! im) (zip (fst s') (snd s')))) = ?n" using s'(2) io[OF im] by simp
    fix r assume "r < length (take ?n (drop (imgoff ! im) (zip (fst s') (snd s'))))"
    then have r: "r < ?n" using n by simp
    obtain b where bk: "b < l_ntot J" "?S + r \<in> list_cells J dense err im b" using cells_cover[OF J im r] by blast
    obtain ord where "(im, b, ord) \<in> set ws" using ws(2)[OF im bk(1)] by blast
    then have "?S + r \<in> (\<Union>w\<in>set ws. ?A w)" using bk by (intro UN_I[of "(im, b, ord)"]) simp_all
    moreover have "?S + r < min (length vals) (length idx)" using b r by simp
    ultimately have "(fst s' ! (?S + r), snd s' ! (?S + r)) = all_lists J dense err ! (?S + r)" using s'(3) by simp
    also have "\<dots> = gpu_list J dense err im ! r" using concat_at(1)[of im "l_n J" r "gpu_list J dense err", OF im r] by (simp add: list_start_def all_lists_def)
    finally show "take ?n (drop (imgoff ! im) (zip (fst s') (snd s'))) ! r = gpu_list J dense err im ! r" using b r s'(2) io[OF im] by simp
  qed
  then show ?thesis using s' by (intro exI[of _ "fst s'"] exI[of _ "snd s'"]) simp
qed

section \<open>The launches\<close>

text \<open>The order in which each launch's blocks or warps run, the shared memory they find, and the device buffers.\<close>

record list_grid =
  lg_count :: "(nat \<times> nat) list"
  lg_rows :: "nat list"
  lg_threads :: "nat list"
  lg_part :: "nat \<Rightarrow> nat list"
  lg_ids :: "nat list"
  lg_write :: "(nat \<times> nat \<times> nat list) list"

record list_bufs =
  lb_counts :: "nat list"
  lb_offs :: "nat list"
  lb_npxl :: "nat list"
  lb_level :: "int list"
  lb_npx :: "nat list"
  lb_imgoff :: "nat list"
  lb_vals :: "pix list"
  lb_idx :: "nat list"

definition make_lists :: "list_job \<Rightarrow> list_grid \<Rightarrow> pix list \<Rightarrow> int list \<Rightarrow> list_bufs \<Rightarrow> list_bufs res" where
  "make_lists J g dense err s =
     rbind (fold_res (count_above J dense err) (lg_count g) (lb_counts s)) (\<lambda>counts.
     rbind (fold_res (\<lambda>row. scan_counts counts (l_ntot J) (lg_threads g) (lg_part g row) row) (lg_rows g) (lb_offs s, lb_npxl s)) (\<lambda>(offs, npxl).
     rbind (fold_res (choose_level J npxl) (lg_ids g) (lb_level s, lb_npx s)) (\<lambda>(level, nps).
     rbind (scan_images J nps (lb_imgoff s)) (\<lambda>imgoff.
     rbind (fold_res (collect_write J dense err counts offs level imgoff) (lg_write g) (lb_vals s, lb_idx s)) (\<lambda>(vals, idx).
     Inr \<lparr>lb_counts = counts, lb_offs = offs, lb_npxl = npxl, lb_level = level, lb_npx = nps, lb_imgoff = imgoff, lb_vals = vals, lb_idx = idx\<rparr>)))))"

definition list_grid_ok :: "list_job \<Rightarrow> list_grid \<Rightarrow> bool" where
  "list_grid_ok J g \<longleftrightarrow> (\<forall>(im, b)\<in>set (lg_count g). im < l_n J) \<and> (\<forall>im<l_n J. \<forall>b<l_ntot J. (im, b) \<in> set (lg_count g))
     \<and> set (lg_rows g) = {0..<level_rows J} \<and> set (lg_threads g) = {0..<256} \<and> (\<forall>row. length (lg_part g row) = 257) \<and> {0..<l_n J} \<subseteq> set (lg_ids g)
     \<and> (\<forall>(im, b, ord)\<in>set (lg_write g). im < l_n J \<and> set ord = {0..<32}) \<and> (\<forall>im<l_n J. \<forall>b<l_ntot J. \<exists>ord. (im, b, ord) \<in> set (lg_write g))"

definition list_bufs_ok :: "list_job \<Rightarrow> list_bufs \<Rightarrow> bool" where
  "list_bufs_ok J s \<longleftrightarrow> level_rows J * l_ntot J \<le> length (lb_counts s) \<and> level_rows J * l_ntot J \<le> length (lb_offs s) \<and> level_rows J \<le> length (lb_npxl s)
     \<and> l_n J \<le> length (lb_level s) \<and> l_n J \<le> length (lb_npx s) \<and> l_n J \<le> length (lb_imgoff s)
     \<and> l_n J * l_howmany J \<le> length (lb_vals s) \<and> l_n J * l_howmany J \<le> length (lb_idx s)"

lemma make_lists_ok:
  assumes J: "list_job_ok J" and g: "list_grid_ok J g" and s: "list_bufs_ok J s" and l: "l_n J \<le> length err" "l_n J * l_stride J \<le> length dense"
  shows "\<exists>s'. make_lists J g dense err s = Inr s' \<and> (\<forall>im<l_n J. lb_level s' ! im = gpu_level J dense err im \<and> lb_npx s' ! im = length (gpu_list J dense err im)
    \<and> take (lb_npx s' ! im) (drop (lb_imgoff s' ! im) (zip (lb_vals s') (lb_idx s'))) = gpu_list J dense err im)"
proof -
  note gd = g[unfolded list_grid_ok_def] and sd = s[unfolded list_bufs_ok_def]
  let ?P = "row_keep J dense err"
  obtain counts where c: "fold_res (count_above J dense err) (lg_count g) (lb_counts s) = Inr counts" "length counts = length (lb_counts s)"
    "\<forall>row<level_rows J. \<forall>b<l_ntot J. counts ! (row * l_ntot J + b) = blk_count J (?P row) b"
    using count_grid_ok[OF J l, of "lb_counts s" "lg_count g"] gd sd by auto
  have cl: "level_rows J * l_ntot J \<le> length counts" using c(2) sd by simp
  obtain offs npxl where o: "fold_res (\<lambda>row. scan_counts counts (l_ntot J) (lg_threads g) (lg_part g row) row) (lg_rows g) (lb_offs s, lb_npxl s) = Inr (offs, npxl)"
    "length offs = length (lb_offs s)" "length npxl = length (lb_npxl s)"
    "\<forall>row<level_rows J. npxl ! row = rank (?P row) (l_npix J) \<and> (\<forall>b<l_ntot J. offs ! (row * l_ntot J + b) = blk_rank J (?P row) b)"
    using scan_grid_ok[OF J _ cl, of ?P "lb_offs s" "lb_npxl s" "lg_threads g" "lg_part g" "lg_rows g"] c(3) gd sd by auto
  have nl: "level_rows J \<le> length npxl" "l_n J \<le> length (lb_level s)" "l_n J \<le> length (lb_npx s)" using o(3) sd by simp_all
  have lc: "npxl ! (k * l_n J + im) = level_count J dense err im k" if "im < l_n J" "k \<le> length (l_thr J)" for im k
    using o(4) level_row[OF that(2,1)] that(1) by (simp add: level_count_rank)
  have ids: "{0..<l_n J} \<subseteq> set (lg_ids g)" using gd by blast
  obtain level nps where v: "fold_res (choose_level J npxl) (lg_ids g) (lb_level s, lb_npx s) = Inr (level, nps)" "length level = length (lb_level s)" "length nps = length (lb_npx s)"
    "\<forall>im<l_n J. level ! im = gpu_level J dense err im \<and> nps ! im = length (gpu_list J dense err im)"
    using choose_grid_ok[OF J nl lc ids] by blast
  obtain imgoff where i: "scan_images J nps (lb_imgoff s) = Inr imgoff" "length imgoff = length (lb_imgoff s)" "\<forall>im<l_n J. imgoff ! im = list_start J dense err im"
    using scan_images_ok[OF J, of nps "lb_imgoff s" dense err] v sd by auto
  have "list_start J dense err (l_n J) \<le> l_n J * l_howmany J" by (rule list_start_bound)
  then have b: "list_start J dense err (l_n J) \<le> length (lb_vals s)" "list_start J dense err (l_n J) \<le> length (lb_idx s)" using sd by simp_all
  have wg: "\<And>im b ord. (im, b, ord) \<in> set (lg_write g) \<Longrightarrow> im < l_n J \<and> set ord = {0..<32}"
    "\<And>im b. im < l_n J \<Longrightarrow> b < l_ntot J \<Longrightarrow> \<exists>ord. (im, b, ord) \<in> set (lg_write g)" using gd by blast+
  have bl: "level_rows J * l_ntot J \<le> length offs" "l_n J \<le> length level" "l_n J \<le> length imgoff" using o(2) v(2) i(2) sd by simp_all
  have "\<exists>vals' idx'. fold_res (collect_write J dense err counts offs level imgoff) (lg_write g) (lb_vals s, lb_idx s) = Inr (vals', idx')
    \<and> length vals' = length (lb_vals s) \<and> length idx' = length (lb_idx s)
    \<and> (\<forall>im<l_n J. take (length (gpu_list J dense err im)) (drop (imgoff ! im) (zip vals' idx')) = gpu_list J dense err im)"
    by (rule collect_grid_ok[OF J l cl bl b]) (use c(3) o(4) v(4) i(3) wg in blast)+
  then obtain vals idx where w: "fold_res (collect_write J dense err counts offs level imgoff) (lg_write g) (lb_vals s, lb_idx s) = Inr (vals, idx)"
    "\<forall>im<l_n J. take (length (gpu_list J dense err im)) (drop (imgoff ! im) (zip vals idx)) = gpu_list J dense err im" by blast
  show ?thesis unfolding make_lists_def c(1) rbind.simps o(1) prod.case v(1) i(1) w(1) using v(4) w(2) by simp
qed

end
