(* ===== verification/CudaTop.thy ===== *)
theory CudaTop
  imports CudaList Entry
begin

text \<open>
  From chunks to lists on the GPU: the frames of \<open>CudaDecode\<close> as the pixels \<open>CudaList\<close> reads, and the GPU's levels beside those of \<open>bslz4_sparsify\<close>.
\<close>

section \<open>One frame\<close>

text \<open>A good image's list depends on its own pixels only.\<close>

lemma image_list_frame:
  assumes "err ! im = 0" "l_npix J \<le> length fpx" "\<And>p. p < l_npix J \<Longrightarrow> dense ! (im * l_stride J + p) = fpx ! p"
  shows "image_list J dense err im k = image_list J fpx [0] 0 k"
proof -
  have "filter (keep J dense err im k) [0..<l_npix J] = filter (keep J fpx [0] 0 k) [0..<l_npix J]"
    by (rule filter_cong) (use assms in \<open>auto simp: keep_def\<close>)
  then show ?thesis using assms(3) by (simp add: image_list_def)
qed

lemma gpu_list_frame:
  assumes "err ! im = 0" "l_npix J \<le> length fpx" "\<And>p. p < l_npix J \<Longrightarrow> dense ! (im * l_stride J + p) = fpx ! p"
  shows "gpu_level J dense err im = gpu_level J fpx [0] 0" "gpu_list J dense err im = gpu_list J fpx [0] 0"
proof -
  note e = image_list_frame[OF assms]
  have c: "level_count J dense err im = level_count J fpx [0] 0" by (simp add: level_count_def e fun_eq_iff)
  show l: "gpu_level J dense err im = gpu_level J fpx [0] 0" unfolding gpu_level_def c ..
  show "gpu_list J dense err im = gpu_list J fpx [0] 0" by (simp add: gpu_list_def l e Let_def)
qed

lemma gpu_list_bad: "err ! im \<noteq> 0 \<Longrightarrow> gpu_list J dense err im = []"
  by (simp add: gpu_list_def image_list_def keep_def Let_def)

lemma bytes_pixels_slice:
  assumes "NB * (a + n) \<le> length bs" "0 < NB"
  shows "bytes_pixels NB (take (NB * n) (drop (NB * a) bs)) = take n (drop a (bytes_pixels NB bs))"
proof (rule nth_equalityI)
  have l: "a + n \<le> length bs div NB" using assms by (simp add: less_eq_div_iff_mult_less_eq mult.commute)
  have t: "length (take (NB * n) (drop (NB * a) bs)) = NB * n" using assms(1) by (simp add: distrib_left)
  show "length (bytes_pixels NB (take (NB * n) (drop (NB * a) bs))) = length (take n (drop a (bytes_pixels NB bs)))" 
    by (subst length_bytes_pixels, simp only: t) (use l assms(2) in simp)
  fix i assume "i < length (bytes_pixels NB (take (NB * n) (drop (NB * a) bs)))"
  then have i: "i < n" using assms(2) by (simp add: t del: length_take length_drop)
  have "pix_at NB (take (NB * n) (drop (NB * a) bs)) i = pix_at NB bs (a + i)"
  proof (rule pix_at_cong)
    fix q assume q: "q < NB"
    have "NB * i + q < NB * Suc i" using q by simp
    also have "\<dots> \<le> NB * n" using i by (intro mult_le_mono2) simp
    finally show "take (NB * n) (drop (NB * a) bs) ! (NB * i + q) = bs ! (NB * (a + i) + q)" using assms(1) by (simp add: distrib_left add.assoc)
  qed
  then show "bytes_pixels NB (take (NB * n) (drop (NB * a) bs)) ! i = take n (drop a (bytes_pixels NB bs)) ! i" using i l assms(2) by (simp add: bytes_pixels_def t del: length_take length_drop)
qed

section \<open>From chunks to lists\<close>

text \<open>The list kernels read the dense buffer the frames were decompressed to.\<close>

definition same_batch :: "gpu_job \<Rightarrow> list_job \<Rightarrow> bool" where
  "same_batch G J \<longleftrightarrow> g_bpp G = bslz4_elem_size (l_dt J) \<and> g_total G = g_bpp G * l_npix J \<and> g_stride G = g_bpp G * l_stride J"

text \<open>
  C8: From chunks to lists on the GPU: on a batch, \<open>unblock\<close>, \<open>decompress\<close> and the list kernels leave, for every chunk \<open>unblock\<close> accepts, the level the
  chunk's own pixels call for and the list of that level, the first \<open>howmany\<close> pixels in pixel order, behind the lists of the images before it; a chunk with an
  error has an empty list. Whatever the order of threads, warps and lanes, and whatever shared memory and buffers held before.
\<close>

theorem gpu_lists:
  assumes "job_ok G n" "gpu_grid G n warps" "n * g_nstored G \<le> length starts" "n \<le> length err" "{0..<n} \<subseteq> set ids" "n * g_stride G \<le> length dense"
    and "\<And>im. im < n \<Longrightarrow> gpu_accepts G im \<Longrightarrow> frame_pixels lib BSLZ4_DECODE_LZ4_STOCK (g_bpp G) (g_total G) 8192 (job_chunk G im) = Some (fpx im)"
    and "list_job_ok J" "l_n J = n" "same_batch G J" "list_grid_ok J g" "list_bufs_ok J s"
  shows "\<exists>starts' err' dense' s'. unblock G n ids (starts, err) = Inr (starts', err') \<and> decompress G starts' err' warps dense = Inr dense'
    \<and> make_lists J g (bytes_pixels (g_bpp G) dense') err' s = Inr s'
    \<and> (\<forall>im<n. (err' ! im = 0 \<longleftrightarrow> gpu_accepts G im)
         \<and> (let list = take (lb_npx s' ! im) (drop (lb_imgoff s' ! im) (zip (lb_vals s') (lb_idx s'))) in
            if gpu_accepts G im then lb_level s' ! im = gpu_level J (fpx im) [0] 0 \<and> list = gpu_list J (fpx im) [0] 0 else lb_npx s' ! im = 0))"
proof -
  note b = assms(10)[unfolded same_batch_def]
  have nb: "0 < g_bpp G" using assms(1) by (auto simp: job_ok_def)
  obtain st er d where r: "unblock G n ids (starts, err) = Inr (st, er)" "decompress G st er warps dense = Inr d"
    "\<forall>im<n. (er ! im = 0 \<longleftrightarrow> gpu_accepts G im) \<and> (gpu_accepts G im \<longrightarrow> load_pixels (g_bpp G) d (im * g_stride G) (g_total G div g_bpp G) = Inr (fpx im))"
    "length er = length err" "length d = length dense" using gpu_frames_ok[OF assms(1-7)] by blast
  let ?d = "bytes_pixels (g_bpp G) d"
  have ld: "l_n J * l_stride J \<le> length ?d" using assms(6) r(5) b nb assms(9) by (simp add: less_eq_div_iff_mult_less_eq mult_ac)
  obtain s' where s': "make_lists J g ?d er s = Inr s'"
    "\<forall>im<n. lb_level s' ! im = gpu_level J ?d er im \<and> lb_npx s' ! im = length (gpu_list J ?d er im)
      \<and> take (lb_npx s' ! im) (drop (lb_imgoff s' ! im) (zip (lb_vals s') (lb_idx s'))) = gpu_list J ?d er im"
    using make_lists_ok[OF assms(8,11,12) _ ld, of er] r(4) assms(4,9) by auto
  have "gpu_level J ?d er im = gpu_level J (fpx im) [0] 0 \<and> gpu_list J ?d er im = gpu_list J (fpx im) [0] 0" if im: "im < n" "gpu_accepts G im" for im
  proof -
    have "Suc im * l_stride J \<le> n * l_stride J" using im(1) by (intro mult_le_mono1) simp
    then have a: "im * l_stride J + l_npix J \<le> length ?d" using ld assms(8,9) by (simp add: list_job_ok_def)
    then have a': "g_bpp G * (im * l_stride J + l_npix J) \<le> length d" using nb by (simp add: less_eq_div_iff_mult_less_eq mult.commute)
    have "load_pixels (g_bpp G) d (g_bpp G * (im * l_stride J)) (l_npix J) = Inr (fpx im)" using r(3) im b nb by (simp add: mult_ac)
    moreover have "load_pixels (g_bpp G) d (g_bpp G * (im * l_stride J)) (l_npix J) = Inr (take (l_npix J) (drop (im * l_stride J) ?d))"
      using load_pixels_eq[OF _ nb, of "g_bpp G * (im * l_stride J)" "l_npix J" d] a' bytes_pixels_slice[OF a' nb] by (simp add: distrib_left)
    ultimately have f: "fpx im = take (l_npix J) (drop (im * l_stride J) ?d)" by simp
    have "er ! im = 0" using r(3) im by blast
    from gpu_list_frame[OF this, of J "fpx im" ?d] show ?thesis unfolding f using a by simp
  qed
  then show ?thesis using r(1-3) s' gpu_list_bad[of er _ J ?d] by (intro exI[of _ st] exI[of _ er] exI[of _ d] exI[of _ s']) (auto simp: Let_def)
qed

definition list_sample :: list_job where
  "list_sample = \<lparr>l_dt = 0, l_npix = 11, l_ntot = 1, l_n = 1, l_stride = 16, l_mask = [1, 1, 1, 1, 1, 1, 1, 1, 0, 1, 1], l_cut = (0, 0),
     l_thr = [(1, 0), (5, 0)], l_howmany = 2, l_fallback = False\<rparr>"

definition list_sample_grid :: list_grid where
  "list_sample_grid = \<lparr>lg_count = [(0, 0), (0, 1)], lg_rows = [2, 0, 1], lg_threads = rev [0..<256], lg_part = (\<lambda>_. replicate 257 7), lg_ids = [0, 63],
     lg_write = [(0, 1, [0..<32]), (0, 0, rev [0..<32])]\<rparr>"

definition list_sample_bufs :: list_bufs where
  "list_sample_bufs = \<lparr>lb_counts = [7, 7, 7], lb_offs = [7, 7, 7], lb_npxl = [7, 7, 7], lb_level = [7], lb_npx = [7], lb_imgoff = [7], lb_vals = [7, 7], lb_idx = [7, 7]\<rparr>"

lemma list_sample_ok: "list_job_ok list_sample" "list_grid_ok list_sample list_sample_grid" "list_bufs_ok list_sample list_sample_bufs"
proof -
  have e: "bslz4_elem_size 0 = 1" by (simp add: bslz4_elem_size_def)
  show "list_job_ok list_sample" by (simp add: list_job_ok_def list_sample_def blk_elems_def e MAXTHR_def cut_le_def)
  show "list_bufs_ok list_sample list_sample_bufs" by (simp add: list_bufs_ok_def list_sample_def list_sample_bufs_def level_rows_def)
  have J: "l_n list_sample = 1" "l_ntot list_sample = 1" "level_rows list_sample = 3" by (simp_all add: list_sample_def level_rows_def)
  have g: "lg_count list_sample_grid = [(0, 0), (0, 1)]" "set (lg_rows list_sample_grid) = {2, 0, 1}" "set (lg_ids list_sample_grid) = {0, 63}"
    "lg_write list_sample_grid = [(0, 1, [0..<32]), (0, 0, rev [0..<32])]" "\<And>row. length (lg_part list_sample_grid row) = 257"
    "set (lg_threads list_sample_grid) = {0..<256}"
    by (simp_all only: list_sample_grid_def list_grid.select_convs set_rev set_upt length_replicate list.set)
  have "{0..<3} = {2, 0, 1 :: nat}" by auto
  then show "list_grid_ok list_sample list_sample_grid" unfolding list_grid_ok_def J g by (simp del: upt_rec_numeral)
qed

theorem gpu_lists_witness:
  "\<exists>starts' err' dense' s'. unblock gpu_sample 1 [0] ([7], [7]) = Inr (starts', err')
    \<and> decompress gpu_sample starts' err' [(0, 0, rev [0..<32], replicate 256 0xEE, replicate 8192 0xEE)] (replicate 16 9) = Inr dense'
    \<and> make_lists list_sample list_sample_grid (bytes_pixels 1 dense') err' list_sample_bufs = Inr s'
    \<and> lb_level s' ! 0 = 2 \<and> take (lb_npx s' ! 0) (drop (lb_imgoff s' ! 0) (zip (lb_vals s') (lb_idx s'))) = [(6, 9), (7, 10)]"
proof -
  let ?w = "[(0, 0, rev [0..<32], replicate 256 0xEE, replicate 8192 0xEE)] :: gpu_warp list" and ?px = "[1, 2, 0, 0, 0, 0, 0, 0, 5, 6, 7] :: pix list"
  have j: "job_ok gpu_sample 1" using gpu_sample_ok(1)
    by (simp add: job_ok_def gpu_sample_sizes block_sizes_def full_blocks_def tail_bytes_def raw_bytes_def)
  have g: "gpu_grid gpu_sample 1 ?w" by (simp add: gpu_grid_def gpu_sample_def atLeast0LessThan)
  have f: "frame_pixels ref_codec BSLZ4_DECODE_LZ4_STOCK (g_bpp gpu_sample) (g_total gpu_sample) 8192 (job_chunk gpu_sample 0) = Some ?px" by code_simp
  have b: "same_batch gpu_sample list_sample" "l_n list_sample = 1"
    by (simp_all add: same_batch_def gpu_sample_sizes) (simp_all add: list_sample_def bslz4_elem_size_def)
  have v: "gpu_level list_sample ?px [0] 0 = 2" "gpu_list list_sample ?px [0] 0 = [(6, 9), (7, 10)]" by code_simp+
  from gpu_lists[OF j g, of "[7]" "[7]" "[0]" "replicate 16 9" ref_codec "\<lambda>_. ?px" list_sample list_sample_grid list_sample_bufs]
    f b list_sample_ok gpu_sample_ok(2) gpu_sample_sizes v show ?thesis by (auto simp: Let_def)
qed

section \<open>Beside the CPU\<close>

text \<open>The same request on both: an integer type, one mask, and the cut, the thresholds and the limit of a call.\<close>

definition same_request :: "list_job \<Rightarrow> call \<Rightarrow> bslz4_top \<Rightarrow> bool" where
  "same_request J k tp \<longleftrightarrow> l_dt J = k_dt k \<and> \<not> is_float (k_dt k) \<and> l_npix J = k_NIJ k \<and> (\<forall>p<k_NIJ k. mask_keeps (k_emask k) p \<longleftrightarrow> l_mask J ! p \<noteq> 0)
     \<and> fst (l_cut J) = cut_value (k_dt k) (k_cut_i k) \<and> map fst (l_thr J) = take (nat (t_nthr tp)) (t_thr tp)
     \<and> 0 \<le> t_nthr tp \<and> nat (t_nthr tp) \<le> length (t_thr tp) \<and> int (l_howmany J) = t_howmany tp \<and> \<not> l_fallback J"

lemma same_request_thr:
  assumes "same_request J k tp"
  shows "length (l_thr J) = nat (t_nthr tp)" "\<And>i. i < length (l_thr J) \<Longrightarrow> fst (l_thr J ! i) = t_thr tp ! i"
proof -
  have m: "map fst (l_thr J) = take (nat (t_nthr tp)) (t_thr tp)" "nat (t_nthr tp) \<le> length (t_thr tp)" using assms by (simp_all add: same_request_def)
  show l: "length (l_thr J) = nat (t_nthr tp)" using arg_cong[OF m(1), of length] m(2) by simp
  show "fst (l_thr J ! i) = t_thr tp ! i" if "i < length (l_thr J)" for i
    using arg_cong[OF m(1), of "\<lambda>xs. xs ! i"] that l by simp
qed

text \<open>Level \<open>k\<close> of the GPU is level \<open>k - 1\<close> of the CPU.\<close>

lemma level_lists_agree:
  assumes J: "list_job_ok J" and R: "same_request J k tp" and th: "thresholds_ok k tp" and L: "L \<le> length (l_thr J)"
  shows "map (\<lambda>(v, p). (v, word_of_nat p)) (image_list J fpx [0] 0 L) = level_list k tp fpx (int L - 1)"
proof -
  note r = R[unfolded same_request_def]
  have dt: "k_dt k \<noteq> 8" using r by (auto simp: is_float_def)
  have a: "above_px (k_dt k) v c \<longleftrightarrow> px_int (k_dt k) v > fst c" for v c using dt by (simp add: above_px_def)
  have "keep J fpx [0] 0 L p \<longleftrightarrow> picks (\<lambda>v. px_int (k_dt k) v > lev_value k tp (int L - 1)) fpx (k_emask k) 0 p" if p: "p < k_NIJ k" for p
  proof (cases L)
    case 0
    then show ?thesis using r p a by (auto simp: keep_def picks_def lev_value_def)
  next
    case (Suc i)
    then have i: "i < length (l_thr J)" using L by simp
    have f: "fst (l_thr J ! i) = t_thr tp ! i" by (rule same_request_thr(2)[OF R i])
    have "int i < t_nthr tp" using i same_request_thr(1)[OF R] by simp
    then have le: "fst (l_cut J) \<le> t_thr tp ! i" using th r by (simp add: thresholds_ok_def)
    have "keep J fpx [0] 0 L p \<longleftrightarrow> (\<forall>c\<in>set [l_cut J, l_thr J ! i]. above_px (l_dt J) (fpx ! p) c) \<and> l_mask J ! p \<noteq> 0"
      using keep_last[OF J, of L fpx "[0]" 0 p] Suc L by simp
    then show ?thesis using r p Suc f le by (auto simp: a picks_def lev_value_def)
  qed
  then have "filter (keep J fpx [0] 0 L) [0..<l_npix J] = filter (picks (\<lambda>v. px_int (k_dt k) v > lev_value k tp (int L - 1)) fpx (k_emask k) 0) [0..<k_NIJ k]"
    using r by (intro filter_cong) simp_all
  then show ?thesis by (simp add: image_list_def level_list_def picked_def comp_def)
qed

text \<open>The level is the first that is not over the limit, or the last.\<close>

lemma gpu_level_rule:
  assumes R: "same_request J k tp" and c: "\<And>L. L \<le> length (l_thr J) \<Longrightarrow> level_count J dense err im L = c (int L - 1)"
  shows "0 \<le> gpu_level J dense err im"
    "\<forall>l. -1 \<le> l \<and> l < gpu_level J dense err im - 1 \<longrightarrow> over tp l (int (c l))"
    "over tp (gpu_level J dense err im - 1) (int (c (gpu_level J dense err im - 1))) \<longrightarrow> gpu_level J dense err im \<ge> t_nthr tp"
proof -
  note r = R[unfolded same_request_def]
  let ?n = "length (l_thr J)" and ?hm = "l_howmany J" and ?G = "gpu_level J dense err im" and ?lc = "level_count J dense err im"
  have n: "int ?n = t_nthr tp" using same_request_thr(1)[OF R] r by simp
  have c0: "?lc 0 = c (-1)" using c[of 0] by simp
  have "0 \<le> ?G \<and> (\<forall>l. -1 \<le> l \<and> l < ?G - 1 \<longrightarrow> over tp l (int (c l))) \<and> (over tp (?G - 1) (int (c (?G - 1))) \<longrightarrow> ?G \<ge> t_nthr tp)"
  proof (cases "?hm < ?lc 0 \<and> l_thr J \<noteq> []")
    case False
    then have "?G = 0" using r by (auto simp: gpu_level_def Let_def)
    then show ?thesis using False r n c0 by (auto simp: over_def)
  next
    case True
    have first: "over tp (-1) (int (c (-1)))" using True c0 r by (simp add: over_def)
    have later: "over tp (int i - 1) (int (c (int i - 1)))" if "1 \<le> i" "i \<le> ?n" "\<not> ?lc i < ?hm" for i
      using that c[of i] r by (auto simp: over_def)
    have G: "?G = (case find (\<lambda>k. ?lc k < ?hm) [1..<?n + 1] of Some k \<Rightarrow> int k | None \<Rightarrow> int ?n)" using True r by (simp add: gpu_level_def Let_def del: upt_Suc)
    show ?thesis
    proof (cases "find (\<lambda>k. ?lc k < ?hm) [1..<?n + 1]")
      case None
      then have none: "\<not> ?lc i < ?hm" if "1 \<le> i" "i \<le> ?n" for i using that by (auto simp: find_None_iff simp del: upt_Suc)
      have "over tp l (int (c l))" if l: "-1 \<le> l" "l < int ?n - 1" for l
      proof (cases "l = -1")
        case False
        then show ?thesis using later[of "nat (l + 1)"] none[of "nat (l + 1)"] l by simp
      qed (simp add: first)
      then show ?thesis using G None n by simp
    next
      case (Some K)
      then obtain i where i: "i < length [1..<?n + 1]" "?lc ([1..<?n + 1] ! i) < ?hm" "K = [1..<?n + 1] ! i" "\<forall>j<i. \<not> ?lc ([1..<?n + 1] ! j) < ?hm"
        by (auto simp: find_Some_iff simp del: upt_Suc)
      have K: "K = Suc i" "i < ?n" using i(1,3) nth_upt[of 1 i "?n + 1"] by (simp_all del: upt_Suc)
      have no: "\<not> ?lc j < ?hm" if "1 \<le> j" "j < K" for j using i(4)[rule_format, of "j - 1"] that K nth_upt[of 1 "j - 1" "?n + 1"] by (simp del: upt_Suc)
      have "over tp l (int (c l))" if l: "-1 \<le> l" "l < int K - 1" for l
      proof (cases "l = -1")
        case False
        then show ?thesis using later[of "nat (l + 1)"] no[of "nat (l + 1)"] l K by simp
      qed (simp add: first)
      moreover have "\<not> over tp (int K - 1) (int (c (int K - 1)))" using i(2,3) K c[of K] r by (simp add: over_def)
      ultimately show ?thesis using G Some K by simp
    qed
  qed
  then show "0 \<le> ?G" "\<forall>l. -1 \<le> l \<and> l < ?G - 1 \<longrightarrow> over tp l (int (c l))" "over tp (?G - 1) (int (c (?G - 1))) \<longrightarrow> ?G \<ge> t_nthr tp" by blast+
qed

text \<open>
  C9: The GPU lists what the CPU lists: given the same request, the list kernels end every good image at the level \<open>bslz4_sparsify\<close>'s top pixels would - the
  first whose pixels are not over the limit, or the last - and list the same pixels, the first \<open>howmany\<close> of that level. Integer pixel types.
\<close>

theorem gpu_top_pixels:
  assumes "list_job_ok J" "list_grid_ok J g" "list_bufs_ok J s" "l_n J \<le> length err" "l_n J * l_stride J \<le> length dense"
    and "same_request J k tp" "thresholds_ok k tp"
  shows "\<exists>s'. make_lists J g dense err s = Inr s' \<and> (\<forall>im<l_n J. err ! im = 0 \<longrightarrow>
    (let fpx = take (k_NIJ k) (drop (im * l_stride J) dense); lev = lb_level s' ! im - 1; count = (\<lambda>l. int (length (level_list k tp fpx l))) in
      (lev = -1 \<or> 0 \<le> lev \<and> lev < t_nthr tp) \<and> (\<forall>l. -1 \<le> l \<and> l < lev \<longrightarrow> over tp l (count l)) \<and> (over tp lev (count lev) \<longrightarrow> lev + 1 \<ge> t_nthr tp)
      \<and> map (\<lambda>(v, p). (v, word_of_nat p)) (take (lb_npx s' ! im) (drop (lb_imgoff s' ! im) (zip (lb_vals s') (lb_idx s'))))
        = take (nat (t_howmany tp)) (level_list k tp fpx lev)))"
proof -
  note r = assms(6)[unfolded same_request_def]
  have n: "int (length (l_thr J)) = t_nthr tp" using same_request_thr(1)[OF assms(6)] r by simp
  obtain s' where s': "make_lists J g dense err s = Inr s'" "\<forall>im<l_n J. lb_level s' ! im = gpu_level J dense err im
      \<and> take (lb_npx s' ! im) (drop (lb_imgoff s' ! im) (zip (lb_vals s') (lb_idx s'))) = gpu_list J dense err im" using make_lists_ok[OF assms(1-5)] by blast
  have "let fpx = take (k_NIJ k) (drop (im * l_stride J) dense); lev = lb_level s' ! im - 1; count = (\<lambda>l. int (length (level_list k tp fpx l))) in
      (lev = -1 \<or> 0 \<le> lev \<and> lev < t_nthr tp) \<and> (\<forall>l. -1 \<le> l \<and> l < lev \<longrightarrow> over tp l (count l)) \<and> (over tp lev (count lev) \<longrightarrow> lev + 1 \<ge> t_nthr tp)
      \<and> map (\<lambda>(v, p). (v, word_of_nat p)) (take (lb_npx s' ! im) (drop (lb_imgoff s' ! im) (zip (lb_vals s') (lb_idx s'))))
        = take (nat (t_howmany tp)) (level_list k tp fpx lev)" if im: "im < l_n J" "err ! im = 0" for im
  proof -
    let ?fpx = "take (k_NIJ k) (drop (im * l_stride J) dense)" and ?L = "gpu_level J dense err im"
    have "Suc im * l_stride J \<le> l_n J * l_stride J" using im(1) by (intro mult_le_mono1) simp
    then have a: "im * l_stride J + l_npix J \<le> length dense" using assms(1,5) by (simp add: list_job_ok_def)
    have e: "image_list J dense err im L = image_list J ?fpx [0] 0 L" for L by (rule image_list_frame[OF im(2)]) (use a r in auto)
    have lists: "map (\<lambda>(v, p). (v, word_of_nat p)) (image_list J dense err im L) = level_list k tp ?fpx (int L - 1)" if "L \<le> length (l_thr J)" for L
      unfolding e by (rule level_lists_agree[OF assms(1,6,7) that])
    have c: "level_count J dense err im L = length (level_list k tp ?fpx (int L - 1))" if "L \<le> length (l_thr J)" for L
      unfolding lists[OF that, symmetric] by (simp add: level_count_def)
    note rule = gpu_level_rule[OF assms(6), of dense err im "\<lambda>l. length (level_list k tp ?fpx l)", OF c]
    have i: "int (l_howmany J) = t_howmany tp" using r by blast
    have hm: "nat (t_howmany tp) = l_howmany J" unfolding i[symmetric] by simp
    have b: "?L \<le> t_nthr tp" using gpu_level_bounds[of J dense err im] n by simp
    have "nat ?L \<le> length (l_thr J)" using b n by simp
    from lists[OF this] have l: "map (\<lambda>(v, p). (v, word_of_nat p)) (gpu_list J dense err im) = take (nat (t_howmany tp)) (level_list k tp ?fpx (?L - 1))"
      using rule(1) by (simp add: gpu_list_def Let_def hm flip: take_map)
    show ?thesis using s'(2) im(1) rule b l by (auto simp: Let_def)
  qed
  then show ?thesis using s'(1) by blast
qed

definition top_sample :: list_job where
  "top_sample = \<lparr>l_dt = 0, l_npix = 8, l_ntot = 1, l_n = 1, l_stride = 8, l_mask = [0, 1, 1, 1, 1, 1, 1, 1], l_cut = (0, 0), l_thr = [(1, 0)], l_howmany = 1,
     l_fallback = False\<rparr>"

definition top_sample_grid :: list_grid where
  "top_sample_grid = list_sample_grid\<lparr>lg_rows := [1, 0]\<rparr>"

lemma top_sample_ok: "list_job_ok top_sample" "list_grid_ok top_sample top_sample_grid" "list_bufs_ok top_sample list_sample_bufs"
  "same_request top_sample (sample_call [4, 2, 5, 6, 0, 0] (Some sample_top)) sample_top" "thresholds_ok (sample_call [4, 2, 5, 6, 0, 0] (Some sample_top)) sample_top"
proof -
  have e: "bslz4_elem_size 0 = 1" by (simp add: bslz4_elem_size_def)
  show "list_job_ok top_sample" by (simp add: list_job_ok_def top_sample_def blk_elems_def e MAXTHR_def cut_le_def)
  show "list_bufs_ok top_sample list_sample_bufs" by (simp add: list_bufs_ok_def top_sample_def list_sample_bufs_def level_rows_def)
  have J: "l_n top_sample = 1" "l_ntot top_sample = 1" "level_rows top_sample = 2" by (simp_all add: top_sample_def level_rows_def)
  have g: "lg_count top_sample_grid = [(0, 0), (0, 1)]" "set (lg_rows top_sample_grid) = {1, 0}" "set (lg_ids top_sample_grid) = {0, 63}"
    "lg_write top_sample_grid = [(0, 1, [0..<32]), (0, 0, rev [0..<32])]" "\<And>row. length (lg_part top_sample_grid row) = 257"
    "set (lg_threads top_sample_grid) = {0..<256}"
    by (simp_all only: top_sample_grid_def list_sample_grid_def list_grid.select_convs list_grid.update_convs set_rev set_upt length_replicate list.set)
  have "{0..<2} = {1, 0 :: nat}" by auto
  then show "list_grid_ok top_sample top_sample_grid" unfolding list_grid_ok_def J g by (simp del: upt_rec_numeral)
  let ?k = "sample_call [4, 2, 5, 6, 0, 0] (Some sample_top)"
  have k: "k_dt ?k = 0" "\<not> is_float 0" "k_emask ?k = Some [0, 1, 1, 1, 1, 1, 1, 1]" "cut_value 0 (k_cut_i ?k) = 0" "k_NIJ ?k = 8" by code_simp+
  show "same_request top_sample ?k sample_top"
    unfolding same_request_def k by (simp add: top_sample_def sample_top_def mask_keeps_def k All_less_Suc numeral_eq_Suc)
  show "thresholds_ok (sample_call [4, 2, 5, 6, 0, 0] (Some sample_top)) sample_top" by (auto simp: thresholds_ok_def sample_top_def sample_call_def cut_value_def)
qed

theorem gpu_top_pixels_witness:
  "\<exists>s'. make_lists top_sample top_sample_grid [1, 2, 3, 0, 0, 0, 0, 0] [0] list_sample_bufs = Inr s' \<and> lb_level s' ! 0 = 1
    \<and> map (\<lambda>(v, p). (v, word_of_nat p :: 32 word)) (take (lb_npx s' ! 0) (drop (lb_imgoff s' ! 0) (zip (lb_vals s') (lb_idx s')))) = [(2, 1)]"
proof -
  let ?k = "sample_call [4, 2, 5, 6, 0, 0] (Some sample_top)" and ?d = "[1, 2, 3, 0, 0, 0, 0, 0] :: pix list"
  have a: "level_list ?k sample_top ?d (-1) = [(2, 1), (3, 2)]" "level_list ?k sample_top ?d 0 = [(2, 1), (3, 2)]" by code_simp+
  have n: "l_n top_sample = 1" "l_stride top_sample = 8" "k_NIJ ?k = 8" "t_nthr sample_top = 1" "t_howmany sample_top = 1"
    by (simp_all add: top_sample_def sample_call_def sample_top_def)
  have l: "l_n top_sample \<le> length [0 :: int]" "l_n top_sample * l_stride top_sample \<le> length ?d" by (simp_all add: n)
  from gpu_top_pixels[OF top_sample_ok(1-3) l top_sample_ok(4,5)] obtain s' where s': "make_lists top_sample top_sample_grid ?d [0] list_sample_bufs = Inr s'"
    "lb_level s' ! 0 - 1 = -1 \<or> 0 \<le> lb_level s' ! 0 - 1 \<and> lb_level s' ! 0 - 1 < 1"
    "over sample_top (lb_level s' ! 0 - 1) (int (length (level_list ?k sample_top ?d (lb_level s' ! 0 - 1)))) \<longrightarrow> lb_level s' ! 0 - 1 + 1 \<ge> 1"
    "map (\<lambda>(v, p). (v, word_of_nat p)) (take (lb_npx s' ! 0) (drop (lb_imgoff s' ! 0) (zip (lb_vals s') (lb_idx s'))))
      = take 1 (level_list ?k sample_top ?d (lb_level s' ! 0 - 1))" by (auto simp: Let_def n)
  have "lb_level s' ! 0 - 1 \<noteq> -1" using s'(3) a(1) n by (auto simp: over_def)
  then have v: "lb_level s' ! 0 = 1" using s'(2) by linarith
  then show ?thesis using s'(1,4) a(2) by simp
qed

end
