(* ===== verification/CudaCsr.thy ===== *)
theory CudaCsr
  imports CudaList DotFixed
begin

text \<open>
  \<open>src/src/cuda/bslz4_split.cu\<close>, the matrix product \<open>csr1d\<close> of dense frames with fixed-point weights: \<open>W\<close> is \<open>unsigned int\<close>, \<open>A\<close> is
  \<open>unsigned long long\<close>, \<open>T\<close> an integer type, and the grid has a column of blocks per bin (\<open>csr1d_bin\<close>, built with shuffles).
\<close>

section \<open>The kernel\<close>

record csr_job =
  c_dt :: int
  c_stride :: nat
  c_nframes :: nat
  c_coef :: "32 word list"
  c_idx :: "nat list"
  c_indptr :: "nat list"
  c_nbins :: nat
  c_F :: nat
  c_wg :: nat

text \<open>\<open>(A) v\<close> of a pixel.\<close>

definition px_acc :: "int \<Rightarrow> pix \<Rightarrow> 64 word" where
  "px_acc dt v = word_of_int (px_int dt v)"

text \<open>\<open>__shfl_down_sync\<close>: a lane without a lane \<open>o\<close> above it gets its own value.\<close>

definition shfl_down :: "'a list \<Rightarrow> nat \<Rightarrow> 'a list" where
  "shfl_down vs o' = map (\<lambda>lane. if lane + o' < 32 then vs ! (lane + o') else vs ! lane) [0..<32]"

definition warp_sum :: "64 word list \<Rightarrow> 64 word list" where
  "warp_sum vs = foldl (\<lambda>vs o'. map2 (+) vs (shfl_down vs o')) vs [16, 8, 4, 2, 1]"

text \<open>A thread's sums: the entries \<open>k0 + t\<close>, \<open>k0 + t + blockDim\<close>, ..., each added to \<open>nf\<close> frames. \<open>k\<close> is an \<open>int\<close>: past its end the program has no meaning.\<close>

definition csr_entry :: "csr_job \<Rightarrow> pix list \<Rightarrow> nat \<Rightarrow> nat \<Rightarrow> nat \<Rightarrow> 64 word list \<Rightarrow> 64 word list res" where
  "csr_entry J dense f0 nf k acc =
     rbind (load (c_coef J) k) (\<lambda>c. rbind (load (c_idx J) k) (\<lambda>p.
     fold_res (\<lambda>f acc. rbind (load dense (f0 * c_stride J + (f * c_stride J + p))) (\<lambda>v. rbind (load acc f) (\<lambda>a. store acc f (a + ucast c * px_acc (c_dt J) v))))
       [0..<nf] acc))"

definition csr_thread :: "csr_job \<Rightarrow> pix list \<Rightarrow> nat \<Rightarrow> nat \<Rightarrow> nat \<Rightarrow> nat \<Rightarrow> nat \<Rightarrow> 64 word list res" where
  "csr_thread J dense f0 nf k0 k1 t =
     (let ks = strided (k0 + t) k1 (c_wg J) in
      if 2 ^ 31 \<le> k0 + t + c_wg J * length ks then Inl Fault
      else fold_res (csr_entry J dense f0 nf) ks (replicate (c_F J) 0))"

text \<open>A warp's sums, stored by its lane 0.\<close>

definition csr_warp :: "csr_job \<Rightarrow> pix list \<Rightarrow> nat \<Rightarrow> nat \<Rightarrow> nat \<Rightarrow> nat \<Rightarrow> nat \<Rightarrow> 64 word list \<Rightarrow> 64 word list res" where
  "csr_warp J dense f0 nf k0 k1 wid sh =
     rbind (map_res (\<lambda>lane. csr_thread J dense f0 nf k0 k1 (32 * wid + lane)) [0..<32]) (\<lambda>accs.
     fold_res (\<lambda>f sh. store sh (wid * c_F J + f) (warp_sum (map (\<lambda>acc. acc ! f) accs) ! 0)) [0..<c_F J] sh)"

text \<open>After the barrier warp 0 adds the warps' sums.\<close>

definition csr_total :: "csr_job \<Rightarrow> nat \<Rightarrow> nat \<Rightarrow> nat \<Rightarrow> 64 word list \<Rightarrow> nat \<Rightarrow> 64 word list \<Rightarrow> 64 word list res" where
  "csr_total J bin f0 nf sh f out =
     rbind (map_res (\<lambda>lane. if lane < (c_wg J + 31) div 32 then load sh (lane * c_F J + f) else Inr 0) [0..<32]) (\<lambda>vs.
     if f < nf then store out ((f0 + f) * c_nbins J + bin) (warp_sum vs ! 0) else Inr out)"

text \<open>A block: its bin and frames, the order of its warps, and the shared memory it finds.\<close>

definition csr1d :: "csr_job \<Rightarrow> pix list \<Rightarrow> nat \<times> nat \<times> nat list \<times> 64 word list \<Rightarrow> 64 word list \<Rightarrow> 64 word list res" where
  "csr1d J dense blk out = (case blk of (bin, by, wids, sh) \<Rightarrow>
     let f0 = by * c_F J; nf = min (c_F J) (c_nframes J - f0) in
     rbind (load (c_indptr J) bin) (\<lambda>k0. rbind (load (c_indptr J) (bin + 1)) (\<lambda>k1.
     rbind (fold_res (csr_warp J dense f0 nf k0 k1) wids sh) (\<lambda>sh.
     fold_res (csr_total J bin f0 nf sh) [0..<c_F J] out))))"

section \<open>Sums over a warp\<close>

lemma length_shfl_down [simp]: "length (shfl_down vs o') = 32"
  by (simp add: shfl_down_def)

lemma shfl_round:
  assumes "length ws = 32" "2 * m \<le> 32" "l < m"
  shows "map2 (+) ws (shfl_down ws m) ! l = ws ! l + ws ! (l + m)"
  using assms by (simp add: shfl_down_def)

lemma warp_sum_0:
  assumes "length vs = 32"
  shows "warp_sum vs ! 0 = sum_list vs"
proof -
  define r where "r ws m = map2 (+) ws (shfl_down ws m)" for ws :: "64 word list" and m
  have len: "length (r ws m) = 32" if "length ws = 32" for ws m using that by (simp add: r_def)
  define a b c d where "a = r vs 16" and "b = r a 8" and "c = r b 4" and "d = r c 2"
  have l: "length a = 32" "length b = 32" "length c = 32" "length d = 32" using assms len by (simp_all add: a_def b_def c_def d_def)
  have s: "warp_sum vs = r d 1" by (simp add: warp_sum_def r_def a_def b_def c_def d_def)
  have rd: "r ws m ! l = ws ! l + ws ! (l + m)" if "length ws = 32" "2 * m \<le> 32" "l < m" for ws m l
    unfolding r_def by (rule shfl_round[OF that])
  have av: "a ! l = vs ! l + vs ! (l + 16)" if "l < 16" for l unfolding a_def using rd[OF assms, of 16 l] that by simp
  have bv: "b ! l = a ! l + a ! (l + 8)" if "l < 8" for l unfolding b_def using rd[OF l(1), of 8 l] that by simp
  have cv: "c ! l = b ! l + b ! (l + 4)" if "l < 4" for l unfolding c_def using rd[OF l(2), of 4 l] that by simp
  have dv: "d ! l = c ! l + c ! (l + 2)" if "l < 2" for l unfolding d_def using rd[OF l(3), of 2 l] that by simp
  have e: "warp_sum vs ! 0 = d ! 0 + d ! 1" unfolding s using rd[OF l(4), of 1 0] by simp
  have "sum_list vs = (\<Sum>l\<leftarrow>[0..<32]. vs ! l)" using map_nth[of vs] assms by simp
  also have "[0..<32] = [0, 1, 2, 3, 4, 5, 6, 7, 8, 9, 10, 11, 12, 13, 14, 15, 16, 17, 18, 19, 20, 21, 22, 23, 24, 25, 26, 27, 28, 29, 30, 31]" by (simp add: upt_rec)
  also have "(\<Sum>l\<leftarrow>[0, 1, 2, 3, 4, 5, 6, 7, 8, 9, 10, 11, 12, 13, 14, 15, 16, 17, 18, 19, 20, 21, 22, 23, 24, 25, 26, 27, 28, 29, 30, 31]. vs ! l) = warp_sum vs ! 0"
    unfolding e by (simp add: av bv cv dv add_ac numeral_2_eq_2 numeral_3_eq_3)
  finally show ?thesis by simp
qed

section \<open>The sums of a bin\<close>

text \<open>Entry \<open>k\<close> of frame \<open>f\<close>.\<close>

definition csr_term :: "csr_job \<Rightarrow> pix list \<Rightarrow> nat \<Rightarrow> nat \<Rightarrow> 64 word" where
  "csr_term J dense f k = ucast (c_coef J ! k) * px_acc (c_dt J) (dense ! (f * c_stride J + c_idx J ! k))"

definition csr_ok :: "csr_job \<Rightarrow> pix list \<Rightarrow> bool" where
  "csr_ok J dense \<longleftrightarrow> length (c_indptr J) = c_nbins J + 1 \<and> sorted (c_indptr J) \<and> last (c_indptr J) \<le> length (c_coef J) \<and> length (c_coef J) = length (c_idx J)
     \<and> length (c_coef J) + 2 * c_wg J < 2 ^ 31 \<and> 0 < c_wg J \<and> c_wg J mod 32 = 0 \<and> c_wg J \<le> 1024 \<and> 0 < c_F J
     \<and> (\<forall>p\<in>set (c_idx J). p < c_stride J) \<and> c_nframes J * c_stride J \<le> length dense"

lemma csr_entry_ok:
  assumes "csr_ok J dense" "k < length (c_coef J)" "f0 + nf \<le> c_nframes J" "nf \<le> length acc"
  shows "\<exists>acc'. csr_entry J dense f0 nf k acc = Inr acc' \<and> length acc' = length acc
    \<and> (\<forall>f<length acc. acc' ! f = (if f < nf then acc ! f + csr_term J dense (f0 + f) k else acc ! f))"
proof -
  have k: "k < length (c_idx J)" using assms(1,2) by (simp add: csr_ok_def)
  let ?p = "c_idx J ! k"
  have p: "?p < c_stride J" using assms(1) k by (simp add: csr_ok_def)
  let ?step = "\<lambda>f acc. rbind (load dense (f0 * c_stride J + (f * c_stride J + ?p))) (\<lambda>v. rbind (load acc f) (\<lambda>a. store acc f (a + ucast (c_coef J ! k) * px_acc (c_dt J) v)))"
  let ?I = "\<lambda>n acc'. length acc' = length acc \<and> (\<forall>f<length acc. acc' ! f = (if f < n then acc ! f + csr_term J dense (f0 + f) k else acc ! f))"
  have "\<exists>acc'. fold_res ?step [0..<nf] acc = Inr acc' \<and> ?I nf acc'"
  proof (rule fold_upt_inv[where I = ?I])
    fix f acc' assume f: "f < nf" "?I f acc'"
    have "f0 + f < c_nframes J" using f(1) assms(3) by simp
    from row_cell[OF this p] have d: "(f0 + f) * c_stride J + ?p < length dense" using assms(1) by (simp add: csr_ok_def)
    have i: "f0 * c_stride J + (f * c_stride J + ?p) = (f0 + f) * c_stride J + ?p" by (simp add: distrib_right)
    have "?step f acc' = Inr (acc'[f := acc' ! f + csr_term J dense (f0 + f) k])" unfolding i using d f assms(4) by (simp add: load_ok store_ok csr_term_def)
    moreover have "?I (Suc f) (acc'[f := acc' ! f + csr_term J dense (f0 + f) k])" using f assms(4) by (auto simp: nth_list_update less_Suc_eq)
    ultimately show "\<exists>s'. ?step f acc' = Inr s' \<and> ?I (Suc f) s'" by blast
  qed simp
  then show ?thesis using k assms(2) by (simp add: csr_entry_def load_ok)
qed

lemma csr_entries_ok:
  assumes J: "csr_ok J dense" and f: "f0 + nf \<le> c_nframes J"
  shows "(\<And>k. k \<in> set ks \<Longrightarrow> k < length (c_coef J)) \<Longrightarrow> nf \<le> length acc \<Longrightarrow> \<exists>acc'. fold_res (csr_entry J dense f0 nf) ks acc = Inr acc' \<and> length acc' = length acc
    \<and> (\<forall>f<length acc. acc' ! f = (if f < nf then acc ! f + (\<Sum>k\<leftarrow>ks. csr_term J dense (f0 + f) k) else acc ! f))"
proof (induction ks arbitrary: acc)
  case (Cons k ks)
  obtain a1 where a1: "csr_entry J dense f0 nf k acc = Inr a1" "length a1 = length acc"
    "\<forall>f<length acc. a1 ! f = (if f < nf then acc ! f + csr_term J dense (f0 + f) k else acc ! f)"
    using csr_entry_ok[OF J _ f Cons.prems(2), of k] Cons.prems(1) by auto
  obtain a2 where "fold_res (csr_entry J dense f0 nf) ks a1 = Inr a2" "length a2 = length a1"
    "\<forall>f<length a1. a2 ! f = (if f < nf then a1 ! f + (\<Sum>k\<leftarrow>ks. csr_term J dense (f0 + f) k) else a1 ! f)"
    using Cons.IH[of a1] Cons.prems a1(2) by auto
  then show ?case using a1 by (intro exI[of _ a2]) (simp add: add.assoc)
qed simp

text \<open>A thread's sums, and a warp's.\<close>

definition thread_sum :: "csr_job \<Rightarrow> pix list \<Rightarrow> nat \<Rightarrow> nat \<Rightarrow> nat \<Rightarrow> nat \<Rightarrow> 64 word" where
  "thread_sum J dense f k0 k1 t = (\<Sum>k\<leftarrow>strided (k0 + t) k1 (c_wg J). csr_term J dense f k)"

lemma csr_thread_ok:
  assumes J: "csr_ok J dense" and f: "f0 + nf \<le> c_nframes J" "nf \<le> c_F J" and k: "k0 \<le> k1" "k1 \<le> length (c_coef J)" "t < c_wg J"
  shows "\<exists>acc. csr_thread J dense f0 nf k0 k1 t = Inr acc \<and> length acc = c_F J \<and> (\<forall>f<c_F J. acc ! f = (if f < nf then thread_sum J dense (f0 + f) k0 k1 t else 0))"
proof -
  let ?ks = "strided (k0 + t) k1 (c_wg J)"
  have w: "0 < c_wg J" "length (c_coef J) + 2 * c_wg J < 2 ^ 31" using J by (simp_all add: csr_ok_def)
  have "c_wg J * length ?ks \<le> k1 - (k0 + t) + c_wg J - 1" by (simp add: strided_def)
  then have "k0 + t + c_wg J * length ?ks < 2 ^ 31" using k w by simp
  moreover have "j < length (c_coef J)" if "j \<in> set ?ks" for j using that k(2) by (simp add: set_strided[OF w(1)])
  ultimately show ?thesis using csr_entries_ok[OF J f(1), of ?ks "replicate (c_F J) 0"] f(2) by (auto simp: csr_thread_def thread_sum_def Let_def)
qed

lemma csr_warp_writes:
  assumes J: "csr_ok J dense" and f: "f0 + nf \<le> c_nframes J" "nf \<le> c_F J" and k: "k0 \<le> k1" "k1 \<le> length (c_coef J)" "wid < c_wg J div 32"
    and T: "\<And>f. f < c_F J \<Longrightarrow> T (wid * c_F J + f) = (if f < nf then \<Sum>lane\<leftarrow>[0..<32]. thread_sum J dense (f0 + f) k0 k1 (32 * wid + lane) else 0)"
    and L: "(wid + 1) * c_F J \<le> L"
  shows "writes T L ((\<lambda>f. wid * c_F J + f) ` {0..<c_F J}) (csr_warp J dense f0 nf k0 k1 wid)"
proof -
  have t: "32 * wid + lane < c_wg J" if "lane < 32" for lane
  proof -
    have "32 * Suc wid \<le> 32 * (c_wg J div 32)" using k(3) by (intro mult_le_mono2) simp
    then show ?thesis using that by simp
  qed
  define A where "A lane = (SOME acc. csr_thread J dense f0 nf k0 k1 (32 * wid + lane) = Inr acc)" for lane
  have A: "csr_thread J dense f0 nf k0 k1 (32 * wid + lane) = Inr (A lane)" "\<forall>f<c_F J. A lane ! f = (if f < nf then thread_sum J dense (f0 + f) k0 k1 (32 * wid + lane) else 0)"
    if "lane < 32" for lane
    using csr_thread_ok[OF J f k(1,2) t[OF that]] unfolding A_def by auto
  have m: "map_res (\<lambda>lane. csr_thread J dense f0 nf k0 k1 (32 * wid + lane)) [0..<32] = Inr (map A [0..<32])" by (rule map_res_ok) (simp add: A)
  have v: "warp_sum (map (\<lambda>acc. acc ! f) (map A [0..<32])) ! 0 = T (wid * c_F J + f)" if "f < c_F J" for f
  proof -
    have "warp_sum (map (\<lambda>acc. acc ! f) (map A [0..<32])) ! 0 = (\<Sum>lane\<leftarrow>[0..<32]. A lane ! f)" by (subst warp_sum_0) (simp_all add: comp_def)
    also have "\<dots> = (\<Sum>lane\<leftarrow>[0..<32]. if f < nf then thread_sum J dense (f0 + f) k0 k1 (32 * wid + lane) else 0)"
      by (rule arg_cong[of _ _ sum_list], rule map_cong[OF refl]) (use A(2) that in simp)
    finally show ?thesis using T[OF that] by (simp add: map_replicate_const sum_list_replicate)
  qed
  have "writes T L (\<Union>f\<in>set [0..<c_F J]. {wid * c_F J + f}) (fold_res (\<lambda>f sh. store sh (wid * c_F J + f) (warp_sum (map (\<lambda>acc. acc ! f) (map A [0..<32])) ! 0)) [0..<c_F J])"
    by (rule sets_fold, rule writes_store) (use L v in auto)
  then show ?thesis unfolding csr_warp_def m rbind.simps by (simp only: UNION_singleton_eq_range set_upt)
qed

lemma sum_groups: "(\<Sum>w\<leftarrow>[0..<n]. \<Sum>l\<leftarrow>[0..<32]. g (32 * w + l)) = (\<Sum>t\<leftarrow>[0..<32 * n]. g t :: 'a :: comm_monoid_add)"
proof (induction n)
  case (Suc n)
  have "[0..<32 * Suc n] = [0..<32 * n] @ map (\<lambda>l. 32 * n + l) [0..<32]" using upt_cut[of 0 "32 * n" "32 * Suc n"] map_add_upt[of "32 * n" 32] by (simp add: add.commute)
  then show ?case using Suc by (simp add: comp_def del: upt_rec_numeral)
qed simp

lemma sum_warps:
  assumes "n \<le> 32"
  shows "(\<Sum>w\<leftarrow>[0..<32]. if w < n then h w else 0) = (\<Sum>w\<leftarrow>[0..<n]. h w :: 'a :: comm_monoid_add)"
proof -
  have a: "map (\<lambda>w. if w < n then h w else 0) [0..<n] = map h [0..<n]" by simp
  have b: "map (\<lambda>w. if w < n then h w else 0) [n..<32] = map (\<lambda>_. 0) [n..<32]" by simp
  show ?thesis unfolding upt_cut[of 0 n 32, OF le0 assms] map_append a b by simp
qed

definition bin_sum :: "csr_job \<Rightarrow> pix list \<Rightarrow> nat \<Rightarrow> nat \<Rightarrow> 64 word" where
  "bin_sum J dense f bin = (\<Sum>k\<leftarrow>[c_indptr J ! bin..<c_indptr J ! (bin + 1)]. csr_term J dense f k)"

lemma thread_sums:
  assumes "csr_ok J dense"
  shows "(\<Sum>t\<leftarrow>[0..<c_wg J]. thread_sum J dense f k0 k1 t) = (\<Sum>k\<leftarrow>[k0..<k1]. csr_term J dense f k)"
proof -
  have "(\<Sum>t\<leftarrow>ts. thread_sum J dense f k0 k1 t) = (\<Sum>k\<leftarrow>concat (map (\<lambda>t. strided (k0 + t) k1 (c_wg J)) ts). csr_term J dense f k)" for ts
    by (induction ts) (simp_all add: thread_sum_def)
  then show ?thesis using mset_sum[OF mset_strides[of "c_wg J" k0 k1]] assms by (simp add: csr_ok_def)
qed

lemma csr_bounds:
  assumes "csr_ok J dense" "bin < c_nbins J"
  shows "c_indptr J ! bin \<le> c_indptr J ! (bin + 1)" "c_indptr J ! (bin + 1) \<le> length (c_coef J)" "bin + 1 < length (c_indptr J)"
proof -
  show l: "bin + 1 < length (c_indptr J)" using assms by (simp add: csr_ok_def)
  have s: "sorted (c_indptr J)" "last (c_indptr J) \<le> length (c_coef J)" using assms(1) by (simp_all add: csr_ok_def)
  show "c_indptr J ! bin \<le> c_indptr J ! (bin + 1)" by (rule sorted_nth_mono[OF s(1)]) (use l in simp_all)
  have "c_indptr J ! (bin + 1) \<le> c_indptr J ! (length (c_indptr J) - 1)" by (rule sorted_nth_mono[OF s(1)]) (use l in simp_all)
  then show "c_indptr J ! (bin + 1) \<le> length (c_coef J)" using s(2) l by (cases "c_indptr J = []") (simp_all add: last_conv_nth)
qed

lemma csr1d_writes:
  assumes J: "csr_ok J dense" and b: "bin < c_nbins J" "by' * c_F J \<le> c_nframes J" and w: "set wids = {0..<c_wg J div 32}" "length sh = 32 * c_F J"
    and T: "\<And>f. f < c_nframes J \<Longrightarrow> T (f * c_nbins J + bin) = bin_sum J dense f bin" and L: "c_nframes J * c_nbins J \<le> L"
  shows "writes T L ((\<lambda>f. (by' * c_F J + f) * c_nbins J + bin) ` {0..<min (c_F J) (c_nframes J - by' * c_F J)}) (csr1d J dense (bin, by', wids, sh))"
proof -
  let ?F = "c_F J" and ?f0 = "by' * c_F J" and ?nf = "min (c_F J) (c_nframes J - by' * c_F J)" and ?k0 = "c_indptr J ! bin" and ?k1 = "c_indptr J ! (bin + 1)" and ?nw = "c_wg J div 32"
  note k = csr_bounds[OF J b(1)]
  have F: "0 < ?F" "?nw \<le> 32" "32 * ?nw = c_wg J" "(c_wg J + 31) div 32 = ?nw" using J by (auto simp: csr_ok_def)
  define S where "S j = (if j mod ?F < ?nf then \<Sum>lane\<leftarrow>[0..<32]. thread_sum J dense (?f0 + j mod ?F) ?k0 ?k1 (32 * (j div ?F) + lane) else 0)" for j
  have "writes S (32 * ?F) (\<Union>wid\<in>set wids. (\<lambda>f. wid * ?F + f) ` {0..<?F}) (fold_res (csr_warp J dense ?f0 ?nf ?k0 ?k1) wids)"
  proof (rule sets_fold)
    fix wid assume "wid \<in> set wids"
    then have wid: "wid < ?nw" using w(1) by simp
    have "(wid + 1) * ?F \<le> 32 * ?F" using wid F(2) by (intro mult_le_mono1) simp
    then show "writes S (32 * ?F) ((\<lambda>f. wid * ?F + f) ` {0..<?F}) (csr_warp J dense ?f0 ?nf ?k0 ?k1 wid)"
      using b(2) by (intro csr_warp_writes[OF J _ _ k(1,2) wid]) (simp_all add: S_def)
  qed
  from setsD[OF this w(2)] obtain sh' where sh': "fold_res (csr_warp J dense ?f0 ?nf ?k0 ?k1) wids sh = Inr sh'" "length sh' = 32 * ?F"
    "\<forall>j<32 * ?F. sh' ! j = (if j \<in> (\<Union>wid\<in>set wids. (\<lambda>f. wid * ?F + f) ` {0..<?F}) then S j else sh ! j)" by blast
  have cell: "lane * ?F + f < 32 * ?F \<and> sh' ! (lane * ?F + f) = (if f < ?nf then \<Sum>l\<leftarrow>[0..<32]. thread_sum J dense (?f0 + f) ?k0 ?k1 (32 * lane + l) else 0)"
    if "lane < ?nw" "f < ?F" for lane f
  proof -
    have j: "lane * ?F + f < 32 * ?F" using row_cell[of lane 32 f ?F] that F(2) by simp
    have "lane * ?F + f \<in> (\<Union>wid\<in>set wids. (\<lambda>f. wid * ?F + f) ` {0..<?F})" using that w(1) by (intro UN_I[of lane]) auto
    then have "sh' ! (lane * ?F + f) = S (lane * ?F + f)" using sh'(3) j by simp
    then show ?thesis using j that(2) by (simp add: S_def)
  qed
  have tot: "csr_total J bin ?f0 ?nf sh' f = (if f < ?nf then (\<lambda>out. store out ((?f0 + f) * c_nbins J + bin) (bin_sum J dense (?f0 + f) bin)) else Inr)" if f: "f < ?F" for f
  proof -
    let ?v = "\<lambda>lane. if lane < ?nw then sh' ! (lane * ?F + f) else 0"
    have m: "map_res (\<lambda>lane. if lane < (c_wg J + 31) div 32 then load sh' (lane * c_F J + f) else Inr 0) [0..<32] = Inr (map ?v [0..<32])"
      by (rule map_res_ok) (use cell f sh'(2) in \<open>simp add: F(4) load_ok\<close>)
    have s: "warp_sum (map ?v [0..<32]) ! 0 = bin_sum J dense (?f0 + f) bin" if "f < ?nf"
    proof -
      have "warp_sum (map ?v [0..<32]) ! 0 = (\<Sum>lane\<leftarrow>[0..<32]. ?v lane)" by (rule warp_sum_0) simp
      also have "\<dots> = (\<Sum>lane\<leftarrow>[0..<?nw]. sh' ! (lane * ?F + f))" by (rule sum_warps[OF F(2)])
      also have "\<dots> = (\<Sum>lane\<leftarrow>[0..<?nw]. \<Sum>l\<leftarrow>[0..<32]. thread_sum J dense (?f0 + f) ?k0 ?k1 (32 * lane + l))"
        by (rule arg_cong[of _ _ sum_list], rule map_cong[OF refl]) (use cell f that in simp)
      also have "\<dots> = bin_sum J dense (?f0 + f) bin" unfolding sum_groups F(3) thread_sums[OF J] bin_sum_def ..
      finally show ?thesis .
    qed
    show ?thesis
    proof (cases "f < ?nf")
      case True
      show ?thesis by (rule ext) (simp only: csr_total_def m rbind.simps if_P[OF True] s[OF True])
    next
      case False
      show ?thesis by (rule ext) (simp only: csr_total_def m rbind.simps if_not_P[OF False])
    qed
  qed
  have run: "csr1d J dense (bin, by', wids, sh) = fold_res (csr_total J bin ?f0 ?nf sh') [0..<?F]"
    using k(3) sh'(1) by (simp add: csr1d_def Let_def load_ok fun_eq_iff)
  have "writes T L (\<Union>f\<in>set [0..<?F]. if f < ?nf then {(?f0 + f) * c_nbins J + bin} else {}) (fold_res (csr_total J bin ?f0 ?nf sh') [0..<?F])"
  proof (rule sets_fold)
    fix f assume "f \<in> set [0..<?F]"
    then have f: "f < ?F" by simp
    show "writes T L (if f < ?nf then {(?f0 + f) * c_nbins J + bin} else {}) (csr_total J bin ?f0 ?nf sh' f)"
    proof (cases "f < ?nf")
      case True
      then have "f < c_nframes J - ?f0" by simp
      then have n: "?f0 + f < c_nframes J" by (simp add: less_diff_conv add.commute)
      have "(?f0 + f) * c_nbins J + bin < L" using row_cell[OF n b(1)] L by simp
      then show ?thesis using True T[OF n] by (simp add: tot[OF f] writes_store)
    next
      case False
      show ?thesis unfolding tot[OF f] if_not_P[OF False] by (rule sets_skip)
    qed
  qed
  moreover have "(\<Union>f\<in>set [0..<?F]. if f < ?nf then {(?f0 + f) * c_nbins J + bin} else {}) = (\<lambda>f. (?f0 + f) * c_nbins J + bin) ` {0..<?nf}" by auto
  ultimately show ?thesis unfolding run by simp
qed

section \<open>The powder of a batch\<close>

text \<open>The blocks of a launch: one per bin and \<open>F\<close> frames.\<close>

definition csr_grid :: "csr_job \<Rightarrow> (nat \<times> nat \<times> nat list \<times> 64 word list) list \<Rightarrow> bool" where
  "csr_grid J blks \<longleftrightarrow> (\<forall>(bin, by', wids, sh)\<in>set blks. bin < c_nbins J \<and> by' * c_F J \<le> c_nframes J \<and> set wids = {0..<c_wg J div 32} \<and> length sh = 32 * c_F J)
     \<and> (\<forall>bin<c_nbins J. \<forall>f<c_nframes J. \<exists>wids sh. (bin, f div c_F J, wids, sh) \<in> set blks)"

lemma bin_sum_int:
  "bin_sum J dense f bin = word_of_int (\<Sum>k\<leftarrow>[c_indptr J ! bin..<c_indptr J ! (bin + 1)]. uint (c_coef J ! k) * px_int (c_dt J) (dense ! (f * c_stride J + c_idx J ! k)))"
proof -
  have "(\<Sum>k\<leftarrow>ks. csr_term J dense f k) = word_of_int (\<Sum>k\<leftarrow>ks. uint (c_coef J ! k) * px_int (c_dt J) (dense ! (f * c_stride J + c_idx J ! k)))" for ks
    by (induction ks) (simp_all add: csr_term_def px_acc_def flip: wi_hom_add wi_hom_mult)
  then show ?thesis by (simp add: bin_sum_def)
qed

text \<open>
  C10: The GPU's integer matrix product leaves in every bin of every frame the sum of weight times pixel over the bin's entries, modulo \<open>2 ^ 64\<close>: strided over the
  threads, added over the warps by shuffles and over the block by its first warp, whatever the order of blocks and warps and whatever shared memory held.
\<close>

theorem csr_powder:
  assumes "csr_ok J dense" "csr_grid J blks" "c_nframes J * c_nbins J \<le> length out" "\<not> is_float (c_dt J)"
  shows "\<exists>out'. fold_res (csr1d J dense) blks out = Inr out' \<and> length out' = length out \<and> (\<forall>f<c_nframes J. \<forall>bin<c_nbins J. out' ! (f * c_nbins J + bin)
    = word_of_int (\<Sum>k\<leftarrow>[c_indptr J ! bin..<c_indptr J ! (bin + 1)]. uint (c_coef J ! k) * px_int (c_dt J) (dense ! (f * c_stride J + c_idx J ! k))))"
proof -
  note g = assms(2)[unfolded csr_grid_def]
  define T where "T j = bin_sum J dense (j div c_nbins J) (j mod c_nbins J)" for j
  let ?A = "\<lambda>(bin, by', wids :: nat list, sh :: 64 word list). (\<lambda>f. (by' * c_F J + f) * c_nbins J + bin) ` {0..<min (c_F J) (c_nframes J - by' * c_F J)}"
  have "writes T (length out) (\<Union>w\<in>set blks. ?A w) (fold_res (csr1d J dense) blks)"
  proof (rule sets_fold)
    fix w assume w: "w \<in> set blks"
    obtain bin by' wids sh where wd: "w = (bin, by', wids, sh)" by (cases w)
    have b: "bin < c_nbins J" "by' * c_F J \<le> c_nframes J" "set wids = {0..<c_wg J div 32}" "length sh = 32 * c_F J" using g w wd by auto
    show "writes T (length out) (?A w) (csr1d J dense w)" unfolding wd prod.case
      by (rule csr1d_writes[OF assms(1) b _ assms(3)]) (use b(1) in \<open>simp add: T_def\<close>)
  qed
  from setsD[OF this refl] obtain out' where r: "fold_res (csr1d J dense) blks out = Inr out'" "length out' = length out"
    "\<forall>j<length out. out' ! j = (if j \<in> (\<Union>w\<in>set blks. ?A w) then T j else out ! j)" by blast
  have "out' ! (f * c_nbins J + bin) = bin_sum J dense f bin" if fb: "f < c_nframes J" "bin < c_nbins J" for f bin
  proof -
    have F: "0 < c_F J" using assms(1) by (simp add: csr_ok_def)
    obtain wids sh where w: "(bin, f div c_F J, wids, sh) \<in> set blks" using g fb by blast
    have e: "f = f div c_F J * c_F J + f mod c_F J" by simp
    have "f mod c_F J < min (c_F J) (c_nframes J - f div c_F J * c_F J)" using F fb(1) e by (metis add.commute less_diff_conv min_less_iff_conj mod_less_divisor)
    then have "f * c_nbins J + bin \<in> ?A (bin, f div c_F J, wids, sh)" unfolding prod.case by (intro image_eqI[of _ _ "f mod c_F J"]) simp_all
    then have "f * c_nbins J + bin \<in> (\<Union>w\<in>set blks. ?A w)" using w by blast
    moreover have "f * c_nbins J + bin < length out" using row_cell[OF fb] assms(3) by simp
    ultimately show ?thesis using r(3) fb(2) by (simp add: T_def)
  qed
  then show ?thesis using r(1,2) by (auto simp: bin_sum_int)
qed

definition csr_sample :: csr_job where
  "csr_sample = \<lparr>c_dt = 4, c_stride = 4, c_nframes = 1, c_coef = [2, 3, 5], c_idx = [0, 2, 1], c_indptr = [0, 2, 3], c_nbins = 2, c_F = 2, c_wg = 32\<rparr>"

theorem csr_powder_witness:
  "\<exists>out'. fold_res (csr1d csr_sample [1, 0xFF, 4, 9]) [(1, 0, [0], replicate 64 7), (0, 0, [0], replicate 64 7)] [7, 7] = Inr out' \<and> out' ! 0 = 14 \<and> out' ! 1 = - 5"
proof -
  let ?d = "[1, 0xFF, 4, 9] :: pix list" and ?b = "[(1, 0, [0], replicate 64 7), (0, 0, [0], replicate 64 7)] :: (nat \<times> nat \<times> nat list \<times> 64 word list) list"
  have v: "c_nframes csr_sample = 1" "c_nbins csr_sample = 2" "c_indptr csr_sample = [0, 2, 3]" "c_dt csr_sample = 4" "c_stride csr_sample = 4"
    "c_coef csr_sample = [2, 3, 5]" "c_idx csr_sample = [0, 2, 1]" by (simp_all add: csr_sample_def)
  have o: "csr_ok csr_sample ?d" by (auto simp: csr_ok_def csr_sample_def)
  have g: "csr_grid csr_sample ?b" by (auto simp: csr_grid_def csr_sample_def less_Suc_eq numeral_2_eq_2)
  have f: "\<not> is_float 4" by code_simp
  have p: "px_int 4 1 = 1" "px_int 4 4 = 4" "px_int 4 0xFF = -1" by code_simp+
  have u: "[0..<2] = [0, 1]" "[2..<3] = [2]" by (simp_all add: upt_rec)
  obtain out' where out': "fold_res (csr1d csr_sample ?d) ?b [7, 7] = Inr out'" "\<forall>f<1. \<forall>bin<2. out' ! (f * 2 + bin)
    = word_of_int (\<Sum>k\<leftarrow>[[0, 2, 3] ! bin..<[0, 2, 3] ! (bin + 1)]. uint ([2, 3, 5] ! k :: 32 word) * px_int 4 (?d ! (f * 4 + [0, 2, 1] ! k)))"
    using csr_powder[OF o g, of "[7, 7]"] f v by auto
  show ?thesis using out'(1) out'(2)[rule_format, of 0 0] out'(2)[rule_format, of 0 1] by (auto simp: u p)
qed

end
