(* ===== verification/Spec2Isabelle.thy ===== *)
theory Spec2Isabelle
  imports Steps Registry DriverSafe DotCall DotCount WrapperTools CudaTop CudaCsr
begin

text \<open>
  The decoder core of bslz4_to_sparse.

  A chunk of an HDF5 detector dataset holds one frame: its size, its block size and a sequence of
  lz4 or zstd blocks, each the bit-planes of some pixels (bitshuffle). The program turns frames into
  sparse lists of (value, pixel index), or accumulates matrix dots on them, through a pipeline of steps
  chosen per call: decode, mask, untranspose, collect, route, dot (\<open>src/src/pipeline/pipeline.h\<close>).

  The theories, in the order of the code:
  \<^item> \<open>Prelude\<close>, \<open>Bits\<close>: results, checked buffers, loops, the set bits of a word.
  \<^item> \<open>Common\<close>, \<open>Pipeline\<close>: \<open>pipeline/common.h\<close>, \<open>pipeline/pipeline.h\<close>.
  \<^item> \<open>Lz4zero\<close>: the zero-aware lz4 decoder (\<open>steps/lz4zero.h\<close>); \<open>Lz4Spec\<close> the lz4 block format as a
    plain reader; \<open>Lz4Refine\<close> the simulation between them.
  \<^item> \<open>Collect\<close>, \<open>Simd\<close>, \<open>CollectX86\<close>, \<open>CollectAvx2\<close>, \<open>CollectTiers\<close>: the collect step (\<open>steps/collect.hpp\<close>).
  \<^item> \<open>Bitplanes\<close>: the bitshuffle layout; \<open>Masking\<close>: \<open>steps/mask.h\<close>; \<open>Decode\<close>: \<open>steps/decode.h\<close>;
    \<open>Untranspose\<close>: \<open>steps/untranspose.h\<close>.
  \<^item> \<open>Transposes\<close>: the register transposes of \<open>steps/lowplanes.h\<close> and \<open>lowplanes_avx2.hpp\<close>; \<open>Lowplanes\<close>
    the zero checks and the portable collect; \<open>LowTile\<close>, \<open>LowFused\<close>, \<open>LowSimd\<close> the fused AVX-512 collect in tiles,
    \<open>LowAvx2\<close>, \<open>LowVsx\<close> the AVX2 and VSX ones; \<open>LowList\<close> and \<open>LowBlock\<close> what the driver calls.
  \<^item> \<open>Steps\<close>: the promises of the front steps together.
  \<^item> \<open>Registry\<close>: \<open>pipeline/registry.c\<close>, the resolution of a pipeline and the counters.
  \<^item> \<open>Floats\<close>: IEEE binary64 and binary32 with the operations the kernels use, by exact rounding; \<open>Pixels\<close>: the ten pixel types
    over their index, with the templates of \<open>steps/kernels.cpp\<close>.
  \<^item> \<open>DotCsc\<close>, \<open>DotRoute\<close>, \<open>DotFixed\<close>, \<open>DotPadded\<close>, \<open>DotBsb\<close>: \<open>steps/dot_csc.hpp\<close>, its two routes, \<open>dot_fixed.hpp\<close>,
    \<open>dot_padded.hpp\<close>, \<open>dot_bsbcsr.hpp\<close>; \<open>Kernels\<close> the dispatch of a block to them.
  \<^item> \<open>Framing\<close>: the layout of a chunk, the walk over block headers and the checks of a batch; \<open>Frames\<close>: \<open>bslz4_driver_decompress\<close>.
  \<^item> \<open>Driver\<close>: \<open>bslz4_driver_run\<close> (\<open>pipeline/driver.c\<close>): \<open>call\<close> its fixed locals, \<open>frame_st\<close> the caller's arrays of
    one frame, \<open>space\<close> the parts of the workspace, one definition per stage of the loop body, then the loops.
  \<^item> \<open>DriverStep\<close> (decode and mask of a block), \<open>DriverList\<close> (lists and top-pixels levels), \<open>DriverBack\<close> (the locale \<open>back_half\<close>: what
    the collect or dot of a block promises), \<open>DriverFrame\<close> (the pixels a chunk holds), \<open>DriverLoop\<close>, \<open>DriverTail\<close>,
    \<open>DriverRun\<close>, \<open>DriverCall\<close> (one block, the tail, the loops, a whole call): the proofs about it.
  \<^item> \<open>Entry\<close>: \<open>bslz4_to_sparse.c\<close>, the functions called from Python, and the theorems about a whole call; \<open>DriverSafe\<close> the same for
    chunks of any bytes.
  \<^item> \<open>DriverDot\<close>: the locale \<open>frame_dot\<close>, what a dot promises on one block, from which \<open>back_half\<close> follows, and the csc dots that keep it;
    \<open>DotCall\<close>: a whole \<open>sparsify_and_dot\<close>. \<open>DotCount\<close>: the exact sums of the bsb-csr counts.
  \<^item> \<open>C2py\<close>: the buffer checks of \<open>c2py_runtime/c2py_runtime.h\<close>; \<open>Wrapper\<close>, \<open>WrapperTools\<close>: what \<open>bslz4_to_sparse_wrapper.c\<close>
    checks of a call from Python, and the arguments it hands to the entries.
  \<^item> The GPU decoder (\<open>src/src/cuda\<close>): \<open>CudaLz4\<close>: one warp decodes an lz4 block (\<open>nvcomp_lz4.cuh\<close>); \<open>CudaShuffle\<close>: the unshuffle of 8 kB in registers
    (\<open>shuffle_warp.cuh\<close>); \<open>CudaUnblock\<close> and \<open>CudaDecode\<close>: the kernels \<open>unblock\<close> and \<open>decompress\<close> (\<open>bslz4_split.cu\<close>) and what they leave of a batch;
    \<open>CudaList\<close>: the kernels behind them, \<open>count_above\<close> to \<open>collect_write\<close>, from dense frames to lists; \<open>CudaTop\<close>: from chunks to lists, and the CPU's
    lists beside them; \<open>CudaCsr\<close>: the integer matrix product \<open>csr1d\<close>.
    Threads, warps and lanes between two barriers run one after the other, in any order: an order is an argument of the model.

  How the parts act on each other: an entry reads the top-pixels request, \<open>bslz4_resolve\<close> fills in the pipeline, the driver checks the
  chunks and cuts the workspace, then for every block decodes, masks in the bit planes, untransposes and collects it - or runs the
  fused kernels of \<open>lowplanes.h\<close> - and appends to the frame's list, or adds to the frame's powder. Memory is lists: a buffer is a list of
  its elements and \<open>load\<close>, \<open>store\<close> outside it give \<open>Fault\<close>; an error code gives \<open>Code c\<close>. So a theorem that ends in \<open>Inr\<close>
  also says that no access leaves a buffer.

  What the theorems show. The lz4 decoder implements the block format, and every decode, mask, untranspose and collect value, scalar or
  SIMD, does what its plain counterpart does; the fused low-planes kernels list the same pixels. On chunks its codec reads, a sparsify
  lists exactly the unmasked pixels above the cut, whatever the pipeline, and the top-pixels levels end where a search over the whole
  frame would. On chunks of any bytes it stops with an error code or lists pixels of the frame. Each matrix dot gives the same sum on its dense and its sparse route, exactly where it is integer, in the same order of
  IEEE operations where it is not; over a whole call with a csc dot, a frame's powder is that of its pixels in order. The walk over block starts, the decompression of a batch, the checks and the counters have theorems of
  their own; some theorems show inputs on which the code goes wrong.
  The GPU kernels leave the pixels the CPU decoder gives of every chunk they accept, whatever the order of threads, and list of it what the CPU
  lists for the same request; that the data of an accepted chunk is lz4 they do not check. Their integer matrix
  product has the sum of every bin modulo \<open>2 ^ 64\<close>.
  A call the wrapper accepts has buffers without gaps that do not overlap where they are written, of the sizes the arguments tell.

  Recursion: loops over an index are folds, the decoder's loop, \<open>top_raise\<close> and the header walk are functions with a termination
  proof by the distance to the end of the input or to the last threshold; no fuel is used.

  Not under \<open>src/\<close> and so parameters of the model: lz4, zstd, kcb and the bitshuffle kernels. What the code relies on in them are the
  predicates \<open>lz4_conforms\<close>, \<open>zstd_fills\<close> and \<open>shuffle_conforms\<close>.

  Not modelled: how the wrapper gets its buffers and numbers from Python objects (its checks are modelled, sizes as unbounded integers), the GPU's matrix product with \<open>float\<close> or \<open>double\<close> sums and its variant
  for devices without shuffles, the conveyor, tools and the Python layer
  (glue and input/output), and what a refused call had written before it was refused.
\<close>

end
